(* ===== verification/Prelude.thy ===== *)
theory Prelude
  imports Main "HOL-Library.Monad_Syntax"
begin

text \<open>
  Shared by every component: the status codes of \<^verbatim>\<open>include/memkit/status.hpp\<close>, the
  arithmetic of \<^verbatim>\<open>std::size_t\<close> (64 bits, wrapping), bit flags, and memory blocks with
  checked access.

  An operation of the library is a function into \<open>option\<close>: \<open>None\<close> is undefined behaviour
  of the C++ program (an access outside the block a pointer refers to, or through a null
  pointer), \<open>Some\<close> holds the status code and the new state. Proving that a call is \<open>Some\<close> is
  therefore proving that it is memory safe.
\<close>

section \<open>Status codes\<close>

datatype status =
  Ok | Null_ptr | Invalid | Empty | Full | Oom | Unsupported | Not_found

definition ok :: "status \<Rightarrow> bool" where
  "ok s \<longleftrightarrow> s = Ok"

lemma ok_simps [simp]:
  "ok Ok" "\<not> ok Null_ptr" "\<not> ok Invalid" "\<not> ok Empty" "\<not> ok Full" "\<not> ok Oom"
  "\<not> ok Unsupported" "\<not> ok Not_found"
  by (simp_all add: ok_def)

lemma ok_iff: "ok s \<longleftrightarrow> s = Ok"
  by (simp add: ok_def)

text \<open>The underlying value of the enum, which orders the codes as C++ compares them.\<close>

fun status_code :: "status \<Rightarrow> nat" where
  "status_code Ok = 0"
| "status_code Null_ptr = 1"
| "status_code Invalid = 2"
| "status_code Empty = 3"
| "status_code Full = 4"
| "status_code Oom = 5"
| "status_code Unsupported = 6"
| "status_code Not_found = 7"

lemma status_code_inj: "status_code a = status_code b \<longleftrightarrow> a = b"
  by (cases a; cases b) simp_all

instantiation status :: linorder
begin

definition less_eq_status :: "status \<Rightarrow> status \<Rightarrow> bool" where
  "less_eq_status a b \<longleftrightarrow> status_code a \<le> status_code b"

definition less_status :: "status \<Rightarrow> status \<Rightarrow> bool" where
  "less_status a b \<longleftrightarrow> status_code a < status_code b"

instance
  by standard (auto simp: less_eq_status_def less_status_def intro: status_code_inj [THEN iffD1])

end

section \<open>std::size_t\<close>

text \<open>
  \<open>std::size_t\<close> is modelled as a \<open>nat\<close> with the wrap-around of the 64-bit type written out
  at every addition, subtraction and multiplication of the code.
\<close>

abbreviation SIZE_MOD :: nat where
  "SIZE_MOD \<equiv> 18446744073709551616"

definition SIZE_MAX :: nat where
  "SIZE_MAX = 18446744073709551615"

text \<open>No object is larger than \<open>PTRDIFF_MAX\<close> bytes.\<close>

definition PTRDIFF_MAX :: nat where
  "PTRDIFF_MAX = 9223372036854775807"

definition sz_add :: "nat \<Rightarrow> nat \<Rightarrow> nat" where
  "sz_add a b = (a + b) mod SIZE_MOD"

definition sz_sub :: "nat \<Rightarrow> nat \<Rightarrow> nat" where
  "sz_sub a b = (a + (SIZE_MOD - b mod SIZE_MOD)) mod SIZE_MOD"

definition sz_mul :: "nat \<Rightarrow> nat \<Rightarrow> nat" where
  "sz_mul a b = (a * b) mod SIZE_MOD"

named_theorems size_simps \<open>size_t arithmetic that does not wrap\<close>

lemma sz_add_eq [size_simps]: "a + b \<le> SIZE_MAX \<Longrightarrow> sz_add a b = a + b"
  by (simp add: sz_add_def SIZE_MAX_def)

lemma sz_sub_eq [size_simps]: "b \<le> a \<Longrightarrow> a \<le> SIZE_MAX \<Longrightarrow> sz_sub a b = a - b"
proof -
  assume ab: "b \<le> a" and a: "a \<le> SIZE_MAX"
  then have "b mod SIZE_MOD = b" by (simp add: SIZE_MAX_def)
  with ab have "a + (SIZE_MOD - b mod SIZE_MOD) = (a - b) + SIZE_MOD"
    using a by (simp add: SIZE_MAX_def)
  then show ?thesis
    using a by (simp add: sz_sub_def SIZE_MAX_def del: add_diff_assoc2)
qed

lemma sz_mul_eq [size_simps]: "a * b \<le> SIZE_MAX \<Longrightarrow> sz_mul a b = a * b"
  by (simp add: sz_mul_def SIZE_MAX_def)

lemma sz_add_le_SIZE_MAX [simp]: "sz_add a b \<le> SIZE_MAX"
  using mod_less_divisor [of SIZE_MOD "a + b"] by (simp add: sz_add_def SIZE_MAX_def)

lemma sz_sub_le_SIZE_MAX [simp]: "sz_sub a b \<le> SIZE_MAX"
  using mod_less_divisor [of SIZE_MOD "a + (SIZE_MOD - b mod SIZE_MOD)"]
  by (simp add: sz_sub_def SIZE_MAX_def)

text \<open>A counter that wraps below zero: what \<open>--count\<close> does on 0.\<close>

lemma sz_sub_underflow: "sz_sub 0 1 = SIZE_MAX"
  by (simp add: sz_sub_def SIZE_MAX_def)

lemma PTRDIFF_MAX_SIZE_MAX: "n \<le> PTRDIFF_MAX \<Longrightarrow> n + n < SIZE_MAX"
  by (simp add: PTRDIFF_MAX_def SIZE_MAX_def)

text \<open>Remainder; the program has no behaviour when the divisor is zero.\<close>

definition sz_mod :: "nat \<Rightarrow> nat \<Rightarrow> nat option" where
  "sz_mod a b = (if b = 0 then None else Some (a mod b))"

lemma sz_mod_pos [simp]: "0 < b \<Longrightarrow> sz_mod a b = Some (a mod b)"
  by (simp add: sz_mod_def)

lemma sz_mod_zero [simp]: "sz_mod a 0 = None"
  by (simp add: sz_mod_def)

section \<open>Memory blocks\<close>

text \<open>
  A pointer to an array is \<open>None\<close> (the null pointer) or \<open>Some\<close> block, a list with one cell per
  element. Reading or writing through a null pointer or outside the block is undefined.
\<close>

type_synonym 'a mem = "'a list option"

definition mem_rd :: "'a mem \<Rightarrow> nat \<Rightarrow> 'a option" where
  "mem_rd m i = (case m of None \<Rightarrow> None | Some xs \<Rightarrow> if i < length xs then Some (xs ! i) else None)"

definition mem_wr :: "'a mem \<Rightarrow> nat \<Rightarrow> 'a \<Rightarrow> 'a mem option" where
  "mem_wr m i v =
     (case m of None \<Rightarrow> None | Some xs \<Rightarrow> if i < length xs then Some (Some (xs[i := v])) else None)"

lemma mem_rd_Some [simp]: "i < length xs \<Longrightarrow> mem_rd (Some xs) i = Some (xs ! i)"
  by (simp add: mem_rd_def)

lemma mem_wr_Some [simp]: "i < length xs \<Longrightarrow> mem_wr (Some xs) i v = Some (Some (xs[i := v]))"
  by (simp add: mem_wr_def)

lemma mem_rd_None [simp]: "mem_rd None i = None"
  by (simp add: mem_rd_def)

lemma mem_wr_None [simp]: "mem_wr None i v = None"
  by (simp add: mem_wr_def)

lemma mem_rd_out_of_range [simp]: "length xs \<le> i \<Longrightarrow> mem_rd (Some xs) i = None"
  by (simp add: mem_rd_def)

lemma mem_wr_out_of_range [simp]: "length xs \<le> i \<Longrightarrow> mem_wr (Some xs) i v = None"
  by (simp add: mem_wr_def)

lemma mem_rd_SomeD: "mem_rd m i = Some v \<Longrightarrow> \<exists>xs. m = Some xs \<and> i < length xs \<and> v = xs ! i"
  by (cases m) (auto simp: mem_rd_def split: if_splits)

lemma mem_wr_SomeD:
  "mem_wr m i v = Some m' \<Longrightarrow> \<exists>xs. m = Some xs \<and> i < length xs \<and> m' = Some (xs[i := v])"
  by (cases m) (auto simp: mem_wr_def split: if_splits)

section \<open>Lists\<close>

text \<open>Positions on a ring: within one lap, equal positions have equal offsets.\<close>

lemma mod_add_inj_le:
  assumes "j \<le> i" "i < c" "(t + i) mod c = (t + j) mod (c :: nat)"
  shows "i = j"
proof -
  have "c dvd (t + i) - (t + j)"
    using assms(1,3) by (subst mod_eq_dvd_iff_nat [symmetric]) simp_all
  then have "c dvd i - j" by simp
  with assms(1,2) show ?thesis by (auto dest: dvd_imp_le)
qed

lemma mod_add_inj: "i < c \<Longrightarrow> j < c \<Longrightarrow> (t + i) mod c = (t + j) mod (c :: nat) \<Longrightarrow> i = j"
  using mod_add_inj_le [of j i c t] mod_add_inj_le [of i j c t] by (cases "j \<le> i") auto

lemma mod_less_le: "0 < c \<Longrightarrow> c \<le> n \<Longrightarrow> x mod c < (n :: nat)"
  by (rule less_le_trans [OF mod_less_divisor])

lemma mod_retreat: "0 < c \<Longrightarrow> (Suc t mod c + c - Suc 0) mod c = t mod (c :: nat)"
proof -
  assume c: "0 < c"
  then have "(Suc t mod c + c - Suc 0) mod c = (Suc t mod c + (c - 1)) mod c" by simp
  also have "\<dots> = (Suc t + (c - 1)) mod c" by (rule mod_add_left_eq)
  also have "Suc t + (c - 1) = t + c" using c by simp
  finally show ?thesis by simp
qed

lemma mod_add_inj_iff:
  "i < c \<Longrightarrow> j < c \<Longrightarrow> (t + i) mod c = (t + j) mod (c :: nat) \<longleftrightarrow> i = j"
  using mod_add_inj by blast

lemma map_upt_Suc_snoc: "map f [0..<Suc n] = map f [0..<n] @ [f n]"
  by simp

lemma map_upt_Suc_Cons: "map f [0..<Suc n] = f 0 # map (\<lambda>i. f (Suc i)) [0..<n]"
  by (simp add: upt_conv_Cons map_Suc_upt [symmetric] del: upt_Suc)

lemma map_upt_cong: "(\<And>i. i < n \<Longrightarrow> f i = g i) \<Longrightarrow> map f [0..<n] = map g [0..<n]"
  by simp

text \<open>The last \<open>n\<close> elements of a list: what a container keeps that drops the oldest.\<close>

definition keep_last :: "nat \<Rightarrow> 'a list \<Rightarrow> 'a list" where
  "keep_last n xs = drop (length xs - n) xs"

lemma keep_last_all [simp]: "length xs \<le> n \<Longrightarrow> keep_last n xs = xs"
  by (simp add: keep_last_def)

lemma length_keep_last [simp]: "length (keep_last n xs) = min n (length xs)"
  by (simp add: keep_last_def)

lemma keep_last_snoc: "0 < n \<Longrightarrow> length xs = n \<Longrightarrow> keep_last n (xs @ [x]) = tl xs @ [x]"
  by (cases xs) (auto simp: keep_last_def)

lemma keep_last_nonempty: "0 < n \<Longrightarrow> xs \<noteq> [] \<Longrightarrow> keep_last n xs \<noteq> []"
  by (simp add: keep_last_def not_le)

lemma set_keep_last: "set (keep_last n xs) \<subseteq> set xs"
  by (simp add: keep_last_def set_drop_subset)

lemma keep_last_step: "0 < n \<Longrightarrow> length xs = n \<Longrightarrow> keep_last n (tl xs @ [x] @ ys) = keep_last n (xs @ [x] @ ys)"
  by (cases xs) (auto simp: keep_last_def Suc_diff_le)

lemma keep_last_append: "keep_last n (keep_last n xs @ ys) = keep_last n (xs @ ys)"
  by (cases "length xs \<le> n") (auto simp: keep_last_def add.commute)

text \<open>The members of a bounded set, in increasing order.\<close>

lemma filter_upt_sorted_list_of_set:
  assumes "A \<subseteq> {..<n}"
  shows "filter (\<lambda>j. j \<in> A) [0..<n] = sorted_list_of_set A"
proof -
  have "set (filter (\<lambda>j. j \<in> A) [0..<n]) = A" using assms by auto
  moreover have "sorted (filter (\<lambda>j. j \<in> A) [0..<n])" by (simp add: sorted_wrt_filter)
  ultimately show ?thesis
    using sorted_list_of_set.idem_if_sorted_distinct [of "filter (\<lambda>j. j \<in> A) [0..<n]"] by simp
qed

section \<open>Visitors\<close>

text \<open>\<open>foreach\<close> visits the elements from the oldest to the newest and stops at the first error.\<close>

fun visit_list :: "('e \<Rightarrow> nat \<Rightarrow> 'w \<Rightarrow> status \<times> 'w) \<Rightarrow> nat \<Rightarrow> 'e list \<Rightarrow> 'w \<Rightarrow> status \<times> 'w" where
  "visit_list visit i [] w = (Ok, w)"
| "visit_list visit i (x # xs) w =
     (let (st, w') = visit x i w in if st \<noteq> Ok then (st, w') else visit_list visit (Suc i) xs w')"

text \<open>Visiting up to the first error.\<close>

fun visit_all :: "('e \<Rightarrow> 'w \<Rightarrow> status \<times> 'w) \<Rightarrow> 'e list \<Rightarrow> 'w \<Rightarrow> status \<times> 'w" where
  "visit_all visit [] w = (Ok, w)"
| "visit_all visit (x # xs) w = (let (st, w') = visit x w in if st \<noteq> Ok then (st, w') else visit_all visit xs w')"

lemma visit_all_append:
  "visit_all visit (xs @ ys) w = (let (st, w') = visit_all visit xs w in if st \<noteq> Ok then (st, w') else visit_all visit ys w')"
  by (induction xs arbitrary: w) (auto split: prod.splits)

lemma visit_all_record [simp]: "visit_all (\<lambda>x w. (Ok, w @ [x])) xs w = (Ok, w @ xs)"
  by (induction xs arbitrary: w) simp_all

end
