(* ===== verification/Utility.thy ===== *)
theory Utility
  imports Prelude "HOL-Library.Word"
begin

unbundle bit_operations_syntax

text \<open>
  \<^verbatim>\<open>include/memkit/detail/utility.hpp\<close>: the alignment, power-of-two and overflow
  helpers, on 64-bit words. The lemmas say what each computes on the numbers the words denote.
\<close>

type_synonym u8 = "8 word"
type_synonym u16 = "16 word"
type_synonym u32 = "32 word"
type_synonym u64 = "64 word"

definition align_up :: "u64 \<Rightarrow> u64 \<Rightarrow> u64" where
  "align_up value alignment = (let m = alignment - 1 in (value + m) AND NOT m)"

definition is_aligned :: "u64 \<Rightarrow> u64 \<Rightarrow> bool" where
  "is_aligned address alignment \<longleftrightarrow> address AND (alignment - 1) = 0"

definition align_up_address :: "u64 \<Rightarrow> u64 \<Rightarrow> u64" where
  "align_up_address address alignment = align_up address alignment"

definition is_power_of_two :: "u64 \<Rightarrow> bool" where
  "is_power_of_two v \<longleftrightarrow> v \<noteq> 0 \<and> v AND (v - 1) = 0"

definition add_would_overflow :: "u64 \<Rightarrow> u64 \<Rightarrow> bool" where
  "add_would_overflow a b \<longleftrightarrow> b > (- 1) - a"

definition mul_would_overflow :: "u64 \<Rightarrow> u64 \<Rightarrow> bool" where
  "mul_would_overflow a b \<longleftrightarrow> a \<noteq> 0 \<and> b > (- 1) div a"

definition alignment_padding :: "u64 \<Rightarrow> u64 \<Rightarrow> u64" where
  "alignment_padding offset alignment =
     (alignment - (offset AND (alignment - 1))) AND (alignment - 1)"

text \<open>\<open>max_align\<close> is \<open>alignof(std::max_align_t)\<close> of the platform.\<close>

definition bytes_alignment :: "u64 \<Rightarrow> u64 \<Rightarrow> u64" where
  "bytes_alignment max_align elem_size =
     (if elem_size = 0 then max_align
      else let align = elem_size AND (NOT elem_size + 1) in if align > 0 then align else 1)"

section \<open>Powers of two\<close>

lemma nat_bit_leading: "2 ^ n \<le> v \<Longrightarrow> v < 2 ^ Suc n \<Longrightarrow> bit (v :: nat) n"
proof -
  assume "2 ^ n \<le> v" "v < 2 ^ Suc n"
  then have "v div 2 ^ n = 1"
    by (intro div_nat_eqI) simp_all
  then show ?thesis by (simp add: bit_iff_odd)
qed

lemma is_power_of_two_unat:
  assumes "is_power_of_two v"
  obtains k where "k < 64" "unat v = 2 ^ k"
proof -
  from assms have nz: "0 < unat v" and andz: "v AND (v - 1) = 0"
    by (simp_all add: is_power_of_two_def unat_gt_0)
  obtain n where n: "2 ^ n \<le> unat v" "unat v < 2 ^ Suc n"
    using ex_power_ivl1 [of 2 "unat v"] nz by auto
  have n64: "n < 64"
  proof (rule ccontr)
    assume "\<not> n < 64"
    then have "(2::nat) ^ 64 \<le> 2 ^ n" by (intro power_increasing) simp_all
    with n(1) unsigned_less [of v, where 'a = nat] show False by simp
  qed
  have "unat v = 2 ^ n"
  proof (rule ccontr)
    assume ne: "unat v \<noteq> 2 ^ n"
    have u1: "unat (v - 1) = unat v - 1"
      using nz by (metis unat_gt_0 unat_minus_one)
    from ne n have "bit (unat v) n" "bit (unat (v - 1)) n"
      by (auto simp: u1 intro!: nat_bit_leading)
    then have "bit (v AND (v - 1)) n"
      by (simp add: bit_and_iff bit_unsigned_iff)
    with andz show False by simp
  qed
  with n64 that show thesis by blast
qed

lemma is_power_of_two_exp: "k < 64 \<Longrightarrow> is_power_of_two (2 ^ k)"
  by (simp add: is_power_of_two_def flip: mask_eq_exp_minus_1)
     (auto intro!: bit_word_eqI simp: bit_simps)

section \<open>Rounding up to an alignment\<close>

lemma unat_and_not_mask: "unat ((x :: u64) AND NOT (mask k)) = unat x - unat x mod 2 ^ k"
proof -
  have "x AND NOT (mask k) = push_bit k (drop_bit k x)"
    by (rule bit_word_eqI) (auto simp: bit_simps)
  moreover have "unat (push_bit k (drop_bit k x)) = unat x div 2 ^ k * 2 ^ k"
  proof -
    have "unat x div 2 ^ k * 2 ^ k < 2 ^ 64"
      by (rule le_less_trans [OF div_times_less_eq_dividend])
         (use unsigned_less [of x, where 'a = nat] in simp)
    moreover have "take_bit 64 (unat x) = unat x"
      by (rule take_bit_nat_eq_self) (use unsigned_less [of x, where 'a = nat] in simp)
    ultimately show ?thesis
      unfolding unsigned_push_bit_eq unsigned_drop_bit_eq
      by (simp add: push_bit_eq_mult drop_bit_eq_div take_bit_nat_eq_self)
  qed
  ultimately show ?thesis
    by (simp add: minus_mod_eq_div_mult)
qed

lemma unat_power_of_two: "k < 64 \<Longrightarrow> unat ((2 :: u64) ^ k) = 2 ^ k"
proof -
  assume "k < 64"
  then have "unat (word_of_nat (2 ^ k) :: u64) = 2 ^ k"
    by (simp only: unsigned_of_nat) simp
  then show ?thesis by simp
qed

lemma is_power_of_two_cases:
  assumes "is_power_of_two v"
  obtains k where "k < 64" "v = 2 ^ k"
proof -
  from assms obtain k where k: "k < 64" "unat v = 2 ^ k" by (rule is_power_of_two_unat)
  then have "v = 2 ^ k" by (simp add: word_unat_eq_iff unat_power_of_two)
  with k(1) that show thesis by blast
qed

text \<open>
  Rounding up to a power of two: when the sum does not wrap, the result is the least multiple of
  the alignment that is not below the value.
\<close>

lemma unat_mask_u64: "k < 64 \<Longrightarrow> unat (mask k :: u64) = 2 ^ k - 1"
proof -
  assume "k < 64"
  then have "unat (mask k :: u64) = mask k"
    by (intro bit_eqI) (auto simp: bit_unsigned_iff bit_mask_iff)
  then show ?thesis by (simp add: mask_eq_exp_minus_1)
qed

lemma unat_align_up:
  assumes "k < 64" and "unat v + 2 ^ k \<le> 2 ^ 64"
  shows "unat (align_up v (2 ^ k)) = (unat v + (2 ^ k - 1)) div 2 ^ k * 2 ^ k"
proof -
  have m: "(2 ^ k :: u64) - 1 = mask k" by (simp add: mask_eq_exp_minus_1)
  have um: "unat (mask k :: u64) = 2 ^ k - 1"
    using assms(1) by (rule unat_mask_u64)
  have "0 < (2 :: nat) ^ k" by simp
  with assms(2) have "unat v + (2 ^ k - 1) < 2 ^ 64" by linarith
  then have "unat (v + mask k) = unat v + (2 ^ k - 1)"
    unfolding unat_word_ariths um by simp
  then show ?thesis
    by (simp add: align_up_def m unat_and_not_mask minus_mod_eq_div_mult Let_def)
qed

lemma align_up_multiple:
  "k < 64 \<Longrightarrow> unat v + 2 ^ k \<le> 2 ^ 64 \<Longrightarrow> unat (align_up v (2 ^ k)) mod 2 ^ k = 0"
  by (simp add: unat_align_up)

lemma align_up_bounds:
  assumes "k < 64" and "unat v + 2 ^ k \<le> 2 ^ 64"
  shows "unat v \<le> unat (align_up v (2 ^ k))" "unat (align_up v (2 ^ k)) < unat v + 2 ^ k"
proof -
  define n :: nat where "n = 2 ^ k"
  have n: "0 < n" by (simp add: n_def)
  have "(unat v + (n - 1)) div n * n = unat v + (n - 1) - (unat v + (n - 1)) mod n"
    by (simp add: minus_mod_eq_div_mult)
  moreover have "(unat v + (n - 1)) mod n \<le> n - 1"
    using mod_less_divisor [OF n, of "unat v + (n - 1)"] by linarith
  ultimately show "unat v \<le> unat (align_up v (2 ^ k))"
    "unat (align_up v (2 ^ k)) < unat v + 2 ^ k"
    using n unat_align_up [OF assms, folded n_def] by (simp_all add: n_def [symmetric])
qed

lemma align_up_mod: "k < 64 \<Longrightarrow> unat (align_up v (2 ^ k)) mod 2 ^ k = 0"
proof -
  assume k: "k < 64"
  have m: "(2 ^ k :: u64) - 1 = mask k" by (simp add: mask_eq_exp_minus_1)
  show ?thesis
    by (simp add: align_up_def m unat_and_not_mask minus_mod_eq_div_mult Let_def)
qed

section \<open>Overflow tests\<close>

lemma add_would_overflow_iff: "add_would_overflow a b \<longleftrightarrow> 2 ^ 64 \<le> unat a + unat b"
proof -
  have "unat ((- 1) - a) = 2 ^ 64 - 1 - unat a"
    by (subst unat_sub) (simp_all add: unsigned_minus_1_eq_mask mask_eq_exp_minus_1)
  then show ?thesis
    using unsigned_less [of a, where 'a = nat]
    by (auto simp: add_would_overflow_def word_less_nat_alt)
qed

lemma mul_would_overflow_iff: "mul_would_overflow a b \<longleftrightarrow> 2 ^ 64 \<le> unat a * unat b"
proof (cases "a = 0")
  case False
  then have "0 < unat a" by (simp add: unat_gt_0)
  have "mul_would_overflow a b \<longleftrightarrow> (2 ^ 64 - 1) div unat a < unat b"
    using False
    by (simp add: mul_would_overflow_def word_less_nat_alt unat_div_distrib
        unsigned_minus_1_eq_mask mask_eq_exp_minus_1)
  also have "\<dots> \<longleftrightarrow> 2 ^ 64 - 1 < unat b * unat a"
    using \<open>0 < unat a\<close> by (rule div_less_iff_less_mult)
  finally show ?thesis by (auto simp: mult.commute)
qed (simp add: mul_would_overflow_def)

section \<open>Free-running counters\<close>

text \<open>
  The lock-free queues count with \<open>size_t\<close> counters that wrap; a counter stands for a position, a
  natural number. Differences of nearby positions and slots are those of the positions.
\<close>

lemma counter_diff:
  assumes "a \<le> b" "b - a < 2 ^ 64"
  shows "unat (word_of_nat b - word_of_nat a :: u64) = b - a"
proof -
  have "(word_of_nat b - word_of_nat a :: u64) = word_of_nat (b - a)" using assms(1) by simp
  then have "unat (word_of_nat b - word_of_nat a :: u64) = take_bit 64 (b - a)"
    by (simp only: unsigned_of_nat) simp
  with assms(2) show ?thesis by (simp add: take_bit_nat_eq_self)
qed

lemma counter_eq:
  assumes "a \<le> b" "b - a < 2 ^ 64"
  shows "(word_of_nat a :: u64) = word_of_nat b \<longleftrightarrow> a = b"
  using counter_diff [OF assms] assms(1) by auto

lemma counter_slot:
  assumes "k \<le> 64"
  shows "unat (word_of_nat i AND mask k :: u64) = i mod 2 ^ k"
proof -
  have "(word_of_nat i AND mask k :: u64) = take_bit k (word_of_nat i)"
    by (simp only: take_bit_eq_mask)
  then have "unat (word_of_nat i AND mask k :: u64) = take_bit k (take_bit 64 i)"
    by (simp only: unsigned_take_bit_eq unsigned_of_nat) simp
  also have "\<dots> = take_bit k i" using assms by (simp add: min_def)
  finally show ?thesis by (simp add: take_bit_eq_mod)
qed

end
