(* ===== verification/Policy.thy ===== *)
theory Policy
  imports Utility
begin

text \<open>
  The policies the container cores are parameterised with: element policies
  (\<^verbatim>\<open>include/memkit/detail/element_policy.hpp\<close>), three-way comparison
  (\<^verbatim>\<open>compare_policy.hpp\<close>) and hashing (\<^verbatim>\<open>hash_policy.hpp\<close>).

  An element of type \<open>'e\<close> is the content of one slot. The user's callbacks are parameters:
  \<open>ep_copy_fn\<close> is \<open>copy_fn_\<close>, from the old content of the destination and the source to a status
  and the new content of the destination; \<open>ep_moved\<close> is what a move constructor leaves in its
  source. Whether elements have a destructor (\<open>destroy_fn_\<close> set, or \<open>T\<close> not trivially
  destructible) is \<open>ep_destroy\<close>.
\<close>

section \<open>Element policies\<close>

record 'e elem_policy =
  ep_runtime :: bool
  ep_size :: nat
  ep_align :: nat
  ep_copy_fn :: "('e \<Rightarrow> 'e \<Rightarrow> status \<times> 'e) option"
  ep_destroy :: bool
  ep_moved :: "'e \<Rightarrow> 'e"

definition copy_construct :: "'e elem_policy \<Rightarrow> 'e \<Rightarrow> 'e \<Rightarrow> status \<times> 'e" where
  "copy_construct p dst src =
     (if ep_runtime p
      then (case ep_copy_fn p of Some f \<Rightarrow> f dst src | None \<Rightarrow> (Ok, src))
      else (Ok, src))"

text \<open>\<open>copy_assign\<close> drops the status of the user's callback.\<close>

definition copy_assign :: "'e elem_policy \<Rightarrow> 'e \<Rightarrow> 'e \<Rightarrow> 'e" where
  "copy_assign p dst src = snd (copy_construct p dst src)"

definition needs_destroy_on_clear :: "'e elem_policy \<Rightarrow> bool" where
  "needs_destroy_on_clear p = ep_destroy p"

text \<open>
  \<open>destroy\<close> calls the user's destructor when there is one. The calls are observable, so the
  containers record the destroyed elements, in order, in a trace.
\<close>

definition destroy :: "'e elem_policy \<Rightarrow> 'e \<Rightarrow> 'e list \<Rightarrow> 'e list" where
  "destroy p e trace = (if ep_destroy p then trace @ [e] else trace)"

text \<open>The policy of a trivially copyable \<open>T\<close> with \<open>sizeof(T) = size\<close>.\<close>

definition typed_trivial_policy :: "nat \<Rightarrow> nat \<Rightarrow> 'e elem_policy" where
  "typed_trivial_policy sz align =
     \<lparr>ep_runtime = False, ep_size = sz, ep_align = align, ep_copy_fn = None,
      ep_destroy = False, ep_moved = (\<lambda>e. e)\<rparr>"

lemma typed_trivial_policy_simps [simp]:
  "\<not> ep_runtime (typed_trivial_policy n a)" "ep_size (typed_trivial_policy n a) = n"
  "ep_align (typed_trivial_policy n a) = a" "ep_copy_fn (typed_trivial_policy n a) = None"
  "\<not> ep_destroy (typed_trivial_policy n a)" "ep_moved (typed_trivial_policy n a) e = e"
  by (simp_all add: typed_trivial_policy_def)

text \<open>
  The constructor of \<open>runtime_element_policy\<close>: the alignment is the lowest set bit of the size;
  \<open>max_align\<close> is the default member initialiser.
\<close>

definition runtime_element_policy ::
  "u64 \<Rightarrow> u64 \<Rightarrow> ('e \<Rightarrow> 'e \<Rightarrow> status \<times> 'e) option \<Rightarrow> bool \<Rightarrow> 'e elem_policy" where
  "runtime_element_policy max_align elem_size copy has_destroy =
     \<lparr>ep_runtime = True, ep_size = unat elem_size,
      ep_align = unat (if elem_size > 0
        then (let align = elem_size AND (NOT elem_size + 1) in if align > 0 then align else 1)
        else max_align),
      ep_copy_fn = copy, ep_destroy = has_destroy, ep_moved = (\<lambda>e. e)\<rparr>"

text \<open>
  A policy whose copies do not fail and store the source: every typed policy, and a runtime
  policy without a copy callback or with one that behaves so.
\<close>

definition faithful :: "'e elem_policy \<Rightarrow> bool" where
  "faithful p \<longleftrightarrow> (ep_runtime p \<longrightarrow> (\<forall>f. ep_copy_fn p = Some f \<longrightarrow> (\<forall>d s. f d s = (Ok, s))))"

lemma copy_construct_faithful [simp]: "faithful p \<Longrightarrow> copy_construct p d s = (Ok, s)"
  by (auto simp: faithful_def copy_construct_def split: option.splits)

lemma copy_assign_faithful [simp]: "faithful p \<Longrightarrow> copy_assign p d s = s"
  by (simp add: copy_assign_def)

lemma faithful_typed: "\<not> ep_runtime p \<Longrightarrow> faithful p"
  by (simp add: faithful_def)

lemma faithful_memcpy: "ep_copy_fn p = None \<Longrightarrow> faithful p"
  by (simp add: faithful_def)

lemma faithful_typed_trivial [simp]: "faithful (typed_trivial_policy n a)"
  by (simp add: faithful_def typed_trivial_policy_def)

lemma destroy_none [simp]: "\<not> ep_destroy p \<Longrightarrow> destroy p e tr = tr"
  by (simp add: destroy_def)

lemma destroy_some [simp]: "ep_destroy p \<Longrightarrow> destroy p e tr = tr @ [e]"
  by (simp add: destroy_def)

lemma bytes_alignment_is_runtime_alignment:
  "n > 0 \<Longrightarrow> ep_align (runtime_element_policy ma n c d) = unat (bytes_alignment ma n)"
  by (auto simp: runtime_element_policy_def bytes_alignment_def)

section \<open>Comparison\<close>

text \<open>
  \<open>memcmp\<close> on the object representations: the sign of the first difference, bytes compared
  unsigned.
\<close>

fun memcmp :: "u8 list \<Rightarrow> u8 list \<Rightarrow> int" where
  "memcmp (a # as) (b # bs) = (if a < b then - 1 else if b < a then 1 else memcmp as bs)"
| "memcmp _ _ = 0"

record 'e compare_policy =
  cmp_fn :: "('e \<Rightarrow> 'e \<Rightarrow> int) option"
  cmp_bytes :: "'e \<Rightarrow> u8 list"

definition runtime_compare :: "'e compare_policy \<Rightarrow> 'e \<Rightarrow> 'e \<Rightarrow> int" where
  "runtime_compare c a b =
     (case cmp_fn c of Some f \<Rightarrow> f a b | None \<Rightarrow> memcmp (cmp_bytes c a) (cmp_bytes c b))"

text \<open>\<open>type_compare<T>\<close> for a \<open>T\<close> with \<open><\<close>.\<close>

definition type_compare :: "'a :: linorder \<Rightarrow> 'a \<Rightarrow> int" where
  "type_compare a b = (if a < b then - 1 else if b < a then 1 else 0)"

section \<open>Hashing\<close>

fun fnv1a_loop :: "u64 \<Rightarrow> u8 list \<Rightarrow> u64" where
  "fnv1a_loop h [] = h"
| "fnv1a_loop h (b # bs) = fnv1a_loop ((h XOR ucast b) * 16777619) bs"

definition fnv1a_bytes :: "u8 list \<Rightarrow> u64" where
  "fnv1a_bytes bs = fnv1a_loop 2166136261 bs"

record 'k hash_policy =
  hp_hash_fn :: "('k \<Rightarrow> u64) option"
  hp_eq_fn :: "('k \<Rightarrow> 'k \<Rightarrow> bool) option"
  hp_bytes :: "'k \<Rightarrow> u8 list"

definition hash_key :: "'k hash_policy \<Rightarrow> 'k \<Rightarrow> nat" where
  "hash_key h k = unat (case hp_hash_fn h of Some f \<Rightarrow> f k | None \<Rightarrow> fnv1a_bytes (hp_bytes h k))"

definition key_equal :: "'k hash_policy \<Rightarrow> 'k \<Rightarrow> 'k \<Rightarrow> bool" where
  "key_equal h a b =
     (case hp_eq_fn h of Some f \<Rightarrow> f a b | None \<Rightarrow> memcmp (hp_bytes h a) (hp_bytes h b) = 0)"

lemma memcmp_refl [simp]: "memcmp xs xs = 0"
  by (induction xs) auto

lemma memcmp_eq_iff: "length xs = length ys \<Longrightarrow> memcmp xs ys = 0 \<longleftrightarrow> xs = ys"
  by (induction xs ys rule: list_induct2) auto

lemma memcmp_antisym: "length xs = length ys \<Longrightarrow> memcmp ys xs = - memcmp xs ys"
  by (induction xs ys rule: list_induct2) auto

lemma memcmp_trans:
  "length xs = length ys \<Longrightarrow> length ys = length zs \<Longrightarrow>
   memcmp xs ys \<le> 0 \<Longrightarrow> memcmp ys zs \<le> 0 \<Longrightarrow> memcmp xs zs \<le> 0"
  by (induction xs ys zs rule: list_induct3) (auto split: if_splits)

end
