(* ===== verification/Growable.thy ===== *)
theory Growable
  imports Policy
begin

text \<open>
  \<^verbatim>\<open>include/memkit/detail/growable_storage.hpp\<close>: the capacity a growing container asks
  for, and where it gets its memory from.

  The memory a container can obtain is outside the program: \<open>malloc\<close> succeeds or not
  (\<open>env_malloc\<close>), and an allocator bound as \<open>grow_alloc\<close> answers with a status
  (\<open>env_grow\<close>). Both are functions of the request, given anew for every call of an operation. A new
  block has unspecified content (\<open>env_junk\<close>).
\<close>

record 'e env =
  env_allow_heap :: bool
  env_malloc :: "nat \<Rightarrow> bool"
  env_grow :: "nat \<Rightarrow> nat \<Rightarrow> status"
  env_junk :: "nat \<Rightarrow> 'e"

text \<open>A block of \<open>bytes\<close> bytes has room for \<open>bytes div sz\<close> elements.\<close>

definition new_block :: "'e env \<Rightarrow> nat \<Rightarrow> nat \<Rightarrow> 'e list" where
  "new_block env bytes sz = map (env_junk env) [0..<bytes div sz]"

lemma length_new_block [simp]: "length (new_block env bytes sz) = bytes div sz"
  by (simp add: new_block_def)

section \<open>grow_capacity\<close>

text \<open>
  The doubling loop. It is partial: from 0 it would not end, but \<open>grow_capacity\<close> starts it at 1
  or more.
\<close>

partial_function (option) grow_loop :: "nat \<Rightarrow> nat \<Rightarrow> nat option" where
  "grow_loop new_capacity required =
     (if new_capacity < required then
        (if new_capacity > SIZE_MAX div 2 then Some required
         else grow_loop (sz_mul new_capacity 2) required)
      else Some new_capacity)"

definition grow_capacity :: "nat \<Rightarrow> nat \<Rightarrow> nat option" where
  "grow_capacity current required = grow_loop (if current > 0 then current else 1) required"

lemma grow_loop_done: "required \<le> n \<Longrightarrow> grow_loop n required = Some n"
  by (subst grow_loop.simps) simp

lemma grow_loop_cap: "n < required \<Longrightarrow> SIZE_MAX div 2 < n \<Longrightarrow> grow_loop n required = Some required"
  by (subst grow_loop.simps) simp

lemma grow_loop_step:
  assumes "n < required" "n \<le> SIZE_MAX div 2"
  shows "grow_loop n required = grow_loop (2 * n) required"
proof -
  have "n * 2 \<le> SIZE_MAX" using assms(2) by (simp add: SIZE_MAX_def)
  then have "sz_mul n 2 = 2 * n" by (simp add: sz_mul_eq)
  with assms show ?thesis by (subst grow_loop.simps) simp
qed

text \<open>
  The loop ends, and the capacity it finds is large enough, not below the current one, below twice
  the request when it grew at all, and still a \<open>size_t\<close>.
\<close>

lemma grow_loop_returns:
  assumes "0 < n" "n \<le> SIZE_MAX" "required \<le> SIZE_MAX"
  shows "\<exists>m. grow_loop n required = Some m \<and> required \<le> m \<and> n \<le> m \<and> m \<le> SIZE_MAX \<and>
    (n < required \<longrightarrow> m < 2 * required)"
  using assms
proof (induction "required - n" arbitrary: n rule: less_induct)
  case less
  show ?case
  proof (cases "n < required")
    case False
    with less.prems show ?thesis by (simp add: grow_loop_done)
  next
    case lt: True
    show ?thesis
    proof (cases "n \<le> SIZE_MAX div 2")
      case False
      with lt less.prems show ?thesis by (simp add: grow_loop_cap)
    next
      case True
      then have le: "2 * n \<le> SIZE_MAX" by simp
      have "required - 2 * n < required - n" using lt less.prems(1) by simp
      with le less.prems less.hyps [of "2 * n"]
      obtain m where "grow_loop (2 * n) required = Some m" "required \<le> m" "2 * n \<le> m"
        "m \<le> SIZE_MAX" "2 * n < required \<longrightarrow> m < 2 * required"
        by auto
      moreover have "m < 2 * required" if "\<not> 2 * n < required"
        using calculation(1) that lt by (simp add: grow_loop_done)
      ultimately show ?thesis
        using lt True by (auto simp: grow_loop_step)
    qed
  qed
qed

lemma grow_capacity_returns:
  assumes "current \<le> SIZE_MAX" "required \<le> SIZE_MAX"
  obtains m where "grow_capacity current required = Some m" "required \<le> m" "current \<le> m"
    "m \<le> SIZE_MAX" "current < required \<Longrightarrow> 0 < current \<Longrightarrow> m < 2 * required"
proof (cases "0 < current")
  case True
  with grow_loop_returns [of current required] assms that show ?thesis
    by (auto simp: grow_capacity_def)
next
  case False
  with grow_loop_returns [of 1 required] assms that show ?thesis
    by (auto simp: grow_capacity_def SIZE_MAX_def)
qed

lemma grow_capacity_enough:
  assumes "0 < current" "required \<le> current"
  shows "grow_capacity current required = Some current"
  using assms by (simp add: grow_capacity_def grow_loop_done)

text \<open>One more element than fits: the capacity doubles.\<close>

lemma grow_capacity_double:
  assumes "0 < c" "c \<le> SIZE_MAX div 2"
  shows "grow_capacity c (Suc c) = Some (2 * c)"
  using assms by (simp add: grow_capacity_def grow_loop_step grow_loop_done)

text \<open>From a power of two the loop reaches every larger one that fits.\<close>

lemma grow_loop_pow2:
  assumes "i \<le> k" "k < 64"
  shows "grow_loop (2 ^ i) (2 ^ k) = Some (2 ^ k)"
  using assms(1)
proof (induction "k - i" arbitrary: i)
  case 0
  then show ?case by (simp add: grow_loop_done)
next
  case (Suc d)
  then have i: "i < k" "d = k - Suc i" "Suc i \<le> k" by simp_all
  then have "(2 :: nat) ^ i < 2 ^ k" by simp
  moreover have "(2 :: nat) ^ i \<le> 2 ^ 62"
    using i assms(2) by (intro power_increasing) simp_all
  ultimately show ?case
    using Suc.hyps(1) [OF i(2,3)] by (simp add: grow_loop_step SIZE_MAX_def)
qed

end
