(* ===== verification/Ring.thy ===== *)
theory Ring
  imports Growable
begin

text \<open>
  \<^verbatim>\<open>include/memkit/detail/ring_buffer_core.hpp\<close>: the circular buffer behind Ring,
  Queue, Deque and ByteRing.

  The state has the members of \<open>ring_buffer_core\<close>; the storage is one cell per slot (a block of
  \<open>capacity\<close> elements), \<open>rb_grow\<close> says whether \<open>grow_alloc_.allocate\<close> is set, and
  \<open>rb_destroyed\<close> records the elements passed to the element destructor. A pointer argument is an
  \<open>option\<close>: \<open>None\<close> is the null pointer; an out parameter is returned updated.
\<close>

section \<open>State\<close>

type_synonym flags = u8

definition has :: "flags \<Rightarrow> flags \<Rightarrow> bool" where
  "has fs b \<longleftrightarrow> fs AND b \<noteq> 0"

definition ring_policy_none :: flags where "ring_policy_none = 0"
definition ring_policy_growable :: flags where "ring_policy_growable = 1"
definition ring_policy_overwrite_on_full :: flags where "ring_policy_overwrite_on_full = 2"

definition storage_external :: flags where "storage_external = 0"
definition storage_owns :: flags where "storage_owns = 1"
definition storage_arena :: flags where "storage_arena = 2"
definition storage_heap :: flags where "storage_heap = 4"

record 'e ring =
  rb_policy :: "'e elem_policy"
  rb_storage :: "'e mem"
  rb_capacity :: nat
  rb_head :: nat
  rb_tail :: nat
  rb_count :: nat
  rb_flags :: flags
  rb_kind :: flags
  rb_grow :: bool
  rb_destroyed :: "'e list"

abbreviation growable :: "'e ring \<Rightarrow> bool" where
  "growable s \<equiv> has (rb_flags s) ring_policy_growable"

abbreviation overwrites :: "'e ring \<Rightarrow> bool" where
  "overwrites s \<equiv> has (rb_flags s) ring_policy_overwrite_on_full"

text \<open>\<open>default_policy\<close> is \<open>Policy{}\<close>.\<close>

definition ring_init ::
  "'e ring \<Rightarrow> 'e elem_policy \<Rightarrow> 'e mem \<Rightarrow> nat \<Rightarrow> flags \<Rightarrow> status \<times> 'e ring" where
  "ring_init s policy storage capacity buffer_flags =
     (if capacity = 0 \<or> ep_size policy = 0 then (Invalid, s)
      else if storage = None then (Null_ptr, s)
      else (Ok, s\<lparr>rb_policy := policy, rb_storage := storage, rb_capacity := capacity,
              rb_head := 0, rb_tail := 0, rb_count := 0, rb_flags := buffer_flags\<rparr>))"

definition ring_reset_state :: "'e elem_policy \<Rightarrow> 'e ring \<Rightarrow> 'e ring" where
  "ring_reset_state default_policy s =
     s\<lparr>rb_policy := default_policy, rb_storage := None, rb_capacity := 0, rb_head := 0,
       rb_tail := 0, rb_count := 0, rb_flags := ring_policy_none, rb_kind := storage_external,
       rb_grow := False\<rparr>"

definition ring_set_storage_kind :: "'e ring \<Rightarrow> flags \<Rightarrow> 'e ring" where
  "ring_set_storage_kind s kind = s\<lparr>rb_kind := kind\<rparr>"

definition ring_set_grow_alloc :: "'e ring \<Rightarrow> bool \<Rightarrow> 'e ring" where
  "ring_set_grow_alloc s alloc = s\<lparr>rb_grow := alloc\<rparr>"

definition ring_empty :: "'e ring \<Rightarrow> bool" where
  "ring_empty s \<longleftrightarrow> rb_count s = 0"

definition ring_full :: "'e ring \<Rightarrow> bool" where
  "ring_full s \<longleftrightarrow> (if growable s then False else rb_count s \<ge> rb_capacity s)"

section \<open>Slots\<close>

definition ring_logical_index :: "'e ring \<Rightarrow> nat \<Rightarrow> nat option" where
  "ring_logical_index s logical = sz_mod (sz_add (rb_tail s) logical) (rb_capacity s)"

definition ring_advance :: "'e ring \<Rightarrow> nat \<Rightarrow> nat \<Rightarrow> nat option" where
  "ring_advance s index delta = sz_mod (sz_add index delta) (rb_capacity s)"

text \<open>\<open>(index + capacity_ - 1) % capacity_\<close>, written out at every use in the code.\<close>

definition ring_retreat :: "'e ring \<Rightarrow> nat \<Rightarrow> nat option" where
  "ring_retreat s index = sz_mod (sz_sub (sz_add index (rb_capacity s)) 1) (rb_capacity s)"

definition ring_destroy_slot :: "'e ring \<Rightarrow> nat \<Rightarrow> 'e ring option" where
  "ring_destroy_slot s i = do {
     v \<leftarrow> mem_rd (rb_storage s) i;
     Some (s\<lparr>rb_destroyed := destroy (rb_policy s) v (rb_destroyed s)\<rparr>)
   }"

fun ring_destroy_loop :: "'e ring \<Rightarrow> nat \<Rightarrow> nat \<Rightarrow> 'e ring option" where
  "ring_destroy_loop s i 0 = Some s"
| "ring_destroy_loop s i (Suc n) = do {
     slot \<leftarrow> ring_logical_index s i;
     s' \<leftarrow> ring_destroy_slot s slot;
     ring_destroy_loop s' (Suc i) n
   }"

definition ring_clear :: "'e ring \<Rightarrow> 'e ring option" where
  "ring_clear s =
     (if rb_count s = 0 then Some s
      else do {
        s' \<leftarrow> (if needs_destroy_on_clear (rb_policy s) then ring_destroy_loop s 0 (rb_count s)
               else Some s);
        Some (s'\<lparr>rb_head := 0, rb_tail := 0, rb_count := 0\<rparr>)
      })"

section \<open>Growing\<close>

text \<open>
  The block \<open>relinearize\<close> moves to: the status, the block and the storage kind from then on.
\<close>

definition ring_new_storage :: "'e env \<Rightarrow> 'e ring \<Rightarrow> nat \<Rightarrow> status \<times> 'e mem \<times> flags" where
  "ring_new_storage env s bytes =
     (let block = Some (new_block env bytes (ep_size (rb_policy s))) in
      if env_allow_heap env \<and> rb_kind s AND storage_heap \<noteq> 0 then
        (if env_malloc env bytes then (Ok, block, rb_kind s) else (Oom, None, rb_kind s))
      else if rb_grow s then
        (let st = env_grow env bytes (ep_align (rb_policy s)) in
         if st = Ok then (Ok, block, rb_kind s) else (st, None, rb_kind s))
      else if env_allow_heap env then
        (if env_malloc env bytes then (Ok, block, storage_owns OR storage_heap)
         else (Oom, None, rb_kind s))
      else (Unsupported, None, rb_kind s))"

fun ring_move_loop :: "'e ring \<Rightarrow> 'e mem \<Rightarrow> nat \<Rightarrow> nat \<Rightarrow> ('e ring \<times> 'e mem) option" where
  "ring_move_loop s new i 0 = Some (s, new)"
| "ring_move_loop s new i (Suc n) = do {
     src \<leftarrow> ring_logical_index s i;
     v \<leftarrow> mem_rd (rb_storage s) src;
     new' \<leftarrow> mem_wr new i v;
     s' \<leftarrow> (if ep_runtime (rb_policy s) then Some s
           else do {
             old \<leftarrow> mem_wr (rb_storage s) src (ep_moved (rb_policy s) v);
             ring_destroy_slot (s\<lparr>rb_storage := old\<rparr>) src
           });
     ring_move_loop s' new' (Suc i) n
   }"

definition ring_relinearize :: "'e env \<Rightarrow> 'e ring \<Rightarrow> nat \<Rightarrow> (status \<times> 'e ring) option" where
  "ring_relinearize env s new_capacity =
     (if new_capacity < rb_count s then Some (Invalid, s)
      else
        let bytes = sz_mul new_capacity (ep_size (rb_policy s));
            (st, new, kind) = ring_new_storage env s bytes
        in if st \<noteq> Ok then Some (st, s)
           else do {
             (s', new') \<leftarrow> ring_move_loop (s\<lparr>rb_kind := kind\<rparr>) new 0 (rb_count s);
             Some (Ok, s'\<lparr>rb_storage := new', rb_capacity := new_capacity,
                          rb_head := rb_count s, rb_tail := 0\<rparr>)
           })"

definition ring_ensure_room :: "'e env \<Rightarrow> 'e ring \<Rightarrow> (status \<times> 'e ring) option" where
  "ring_ensure_room env s =
     (if rb_count s < rb_capacity s then Some (Ok, s)
      else if \<not> growable s then Some (Full, s)
      else do {
        new_capacity \<leftarrow> grow_capacity (rb_capacity s) (sz_add (rb_count s) 1);
        if new_capacity \<le> rb_capacity s then Some (Full, s)
        else ring_relinearize env s new_capacity
      })"

definition ring_reserve :: "'e env \<Rightarrow> 'e ring \<Rightarrow> nat \<Rightarrow> (status \<times> 'e ring) option" where
  "ring_reserve env s min_capacity =
     (if min_capacity \<le> rb_capacity s then Some (Ok, s)
      else if \<not> growable s then Some (Full, s)
      else do {
        new_capacity \<leftarrow> grow_capacity (rb_capacity s) min_capacity;
        ring_relinearize env s new_capacity
      })"

section \<open>Operations\<close>

text \<open>
  \<open>push_back\<close>: the element is copied or moved into the slot at the head (a move stores the same
  value; what it leaves in the caller's object is not part of the ring).
\<close>

definition ring_drop_front :: "'e ring \<Rightarrow> 'e ring option" where
  "ring_drop_front s = do {
     s' \<leftarrow> (if needs_destroy_on_clear (rb_policy s) then ring_destroy_slot s (rb_tail s) else Some s);
     tail \<leftarrow> ring_advance s' (rb_tail s') 1;
     Some (s'\<lparr>rb_tail := tail, rb_count := sz_sub (rb_count s') 1\<rparr>)
   }"

definition ring_push_back_slot :: "'e ring \<Rightarrow> 'e \<Rightarrow> (status \<times> 'e ring) option" where
  "ring_push_back_slot s e = do {
     old \<leftarrow> mem_rd (rb_storage s) (rb_head s);
     let (st, v) = copy_construct (rb_policy s) old e;
     storage \<leftarrow> mem_wr (rb_storage s) (rb_head s) v;
     if st \<noteq> Ok then Some (st, s\<lparr>rb_storage := storage\<rparr>)
     else do {
       head \<leftarrow> ring_advance s (rb_head s) 1;
       Some (Ok, s\<lparr>rb_storage := storage, rb_head := head, rb_count := sz_add (rb_count s) 1\<rparr>)
     }
   }"

definition ring_push_back ::
  "'e env \<Rightarrow> 'e ring \<Rightarrow> 'e option \<Rightarrow> bool \<Rightarrow> (status \<times> 'e ring) option" where
  "ring_push_back env s elem allow_overwrite =
     (case elem of
        None \<Rightarrow> Some (Null_ptr, s)
      | Some e \<Rightarrow>
          if rb_capacity s = 0 then Some (Invalid, s)
          else if rb_count s = rb_capacity s \<and> \<not> growable s \<and> \<not> allow_overwrite \<and> \<not> overwrites s
          then Some (Full, s)
          else do {
            (st, s') \<leftarrow>
              (if rb_count s \<ge> rb_capacity s then
                 (if growable s then ring_ensure_room env s
                  else if allow_overwrite \<or> overwrites s then do {
                    s' \<leftarrow> ring_drop_front s;
                    Some (Ok, s')
                  }
                  else Some (Full, s))
               else Some (Ok, s));
            if st \<noteq> Ok then Some (st, s') else ring_push_back_slot s' e
          })"

definition ring_drop_back :: "'e ring \<Rightarrow> 'e ring option" where
  "ring_drop_back s = do {
     back \<leftarrow> ring_retreat s (rb_head s);
     s' \<leftarrow> (if needs_destroy_on_clear (rb_policy s) then ring_destroy_slot s back else Some s);
     Some (s'\<lparr>rb_head := back, rb_count := sz_sub (rb_count s') 1\<rparr>)
   }"

text \<open>\<open>push_front\<close> steps the tail back first, and forward again when the copy fails.\<close>

definition ring_push_front_slot :: "'e ring \<Rightarrow> 'e \<Rightarrow> (status \<times> 'e ring) option" where
  "ring_push_front_slot s e = do {
     tail \<leftarrow> ring_retreat s (rb_tail s);
     old \<leftarrow> mem_rd (rb_storage s) tail;
     let (st, v) = copy_construct (rb_policy s) old e;
     storage \<leftarrow> mem_wr (rb_storage s) tail v;
     if st \<noteq> Ok then do {
       tail' \<leftarrow> ring_advance s tail 1;
       Some (st, s\<lparr>rb_storage := storage, rb_tail := tail'\<rparr>)
     }
     else Some (Ok, s\<lparr>rb_storage := storage, rb_tail := tail, rb_count := sz_add (rb_count s) 1\<rparr>)
   }"

definition ring_push_front :: "'e env \<Rightarrow> 'e ring \<Rightarrow> 'e option \<Rightarrow> (status \<times> 'e ring) option" where
  "ring_push_front env s elem =
     (case elem of
        None \<Rightarrow> Some (Null_ptr, s)
      | Some e \<Rightarrow> do {
          (st, s') \<leftarrow>
            (if rb_count s \<ge> rb_capacity s then
               (if growable s then ring_ensure_room env s
                else if overwrites s then do {
                  s' \<leftarrow> ring_drop_back s;
                  Some (Ok, s')
                }
                else Some (Full, s))
             else Some (Ok, s));
          if st \<noteq> Ok then Some (st, s') else ring_push_front_slot s' e
        })"

text \<open>
  \<open>extract_slot\<close>: \<open>out\<close> is the object the out pointer refers to, if any, and is returned with its
  new content.
\<close>

definition ring_extract_slot ::
  "'e ring \<Rightarrow> nat \<Rightarrow> 'e option \<Rightarrow> bool \<Rightarrow> (status \<times> 'e option \<times> 'e ring) option" where
  "ring_extract_slot s slot out move_out =
     (case out of
        Some dst \<Rightarrow>
          (if ep_runtime (rb_policy s) then do {
             v \<leftarrow> mem_rd (rb_storage s) slot;
             let (st, o') = copy_construct (rb_policy s) dst v;
             Some (st, Some o', s)
           }
           else if move_out then do {
             v \<leftarrow> mem_rd (rb_storage s) slot;
             storage \<leftarrow> mem_wr (rb_storage s) slot (ep_moved (rb_policy s) v);
             s' \<leftarrow> (if needs_destroy_on_clear (rb_policy s)
                   then ring_destroy_slot (s\<lparr>rb_storage := storage\<rparr>) slot
                   else Some (s\<lparr>rb_storage := storage\<rparr>));
             Some (Ok, Some v, s')
           }
           else do {
             v \<leftarrow> mem_rd (rb_storage s) slot;
             Some (Ok, Some v, s)
           })
      | None \<Rightarrow>
          (if needs_destroy_on_clear (rb_policy s) then do {
             s' \<leftarrow> ring_destroy_slot s slot;
             Some (Ok, None, s')
           }
           else Some (Ok, None, s)))"

definition ring_pop_front ::
  "'e ring \<Rightarrow> 'e option \<Rightarrow> bool \<Rightarrow> (status \<times> 'e option \<times> 'e ring) option" where
  "ring_pop_front s out move_out =
     (if ring_empty s then Some (Empty, out, s)
      else do {
        (st, out', s') \<leftarrow> ring_extract_slot s (rb_tail s) out move_out;
        if st \<noteq> Ok then Some (st, out', s')
        else do {
          tail \<leftarrow> ring_advance s' (rb_tail s') 1;
          Some (Ok, out', s'\<lparr>rb_tail := tail, rb_count := sz_sub (rb_count s') 1\<rparr>)
        }
      })"

definition ring_pop_back ::
  "'e ring \<Rightarrow> 'e option \<Rightarrow> bool \<Rightarrow> (status \<times> 'e option \<times> 'e ring) option" where
  "ring_pop_back s out move_out =
     (if ring_empty s then Some (Empty, out, s)
      else do {
        head \<leftarrow> ring_retreat s (rb_head s);
        (st, out', s') \<leftarrow> ring_extract_slot (s\<lparr>rb_head := head\<rparr>) head out move_out;
        if st \<noteq> Ok then do {
          head' \<leftarrow> ring_advance s' (rb_head s') 1;
          Some (st, out', s'\<lparr>rb_head := head'\<rparr>)
        }
        else Some (Ok, out', s'\<lparr>rb_count := sz_sub (rb_count s') 1\<rparr>)
      })"

text \<open>The peeks copy the bytes of the slot (\<open>memcpy\<close>) whatever the policy.\<close>

definition ring_peek_front :: "'e ring \<Rightarrow> 'e option \<Rightarrow> (status \<times> 'e option) option" where
  "ring_peek_front s out =
     (if out = None then Some (Null_ptr, out)
      else if ring_empty s then Some (Empty, out)
      else do {
        v \<leftarrow> mem_rd (rb_storage s) (rb_tail s);
        Some (Ok, Some v)
      })"

definition ring_peek_back :: "'e ring \<Rightarrow> 'e option \<Rightarrow> (status \<times> 'e option) option" where
  "ring_peek_back s out =
     (if out = None then Some (Null_ptr, out)
      else if ring_empty s then Some (Empty, out)
      else do {
        index \<leftarrow> ring_retreat s (rb_head s);
        v \<leftarrow> mem_rd (rb_storage s) index;
        Some (Ok, Some v)
      })"

definition ring_peek_at :: "'e ring \<Rightarrow> nat \<Rightarrow> 'e option \<Rightarrow> (status \<times> 'e option) option" where
  "ring_peek_at s index out =
     (if out = None then Some (Null_ptr, out)
      else if index \<ge> rb_count s then Some (Invalid, out)
      else do {
        slot \<leftarrow> ring_logical_index s index;
        v \<leftarrow> mem_rd (rb_storage s) slot;
        Some (Ok, Some v)
      })"

definition ring_set_at :: "'e ring \<Rightarrow> nat \<Rightarrow> 'e option \<Rightarrow> (status \<times> 'e ring) option" where
  "ring_set_at s index elem =
     (case elem of
        None \<Rightarrow> Some (Null_ptr, s)
      | Some e \<Rightarrow>
          if index \<ge> rb_count s then Some (Invalid, s)
          else do {
            slot \<leftarrow> ring_logical_index s index;
            old \<leftarrow> mem_rd (rb_storage s) slot;
            let (st, v) = copy_construct (rb_policy s) old e;
            storage \<leftarrow> mem_wr (rb_storage s) slot v;
            Some (if ep_runtime (rb_policy s) then st else Ok, s\<lparr>rb_storage := storage\<rparr>)
          })"

text \<open>Pointers to slots are slot indices; \<open>None\<close> is the null pointer.\<close>

definition ring_logical_slot :: "'e ring \<Rightarrow> nat \<Rightarrow> nat option option" where
  "ring_logical_slot s index =
     (if index < rb_count s then map_option Some (ring_logical_index s index) else Some None)"

definition ring_front :: "'e ring \<Rightarrow> nat option" where
  "ring_front s = (if ring_empty s then None else Some (rb_tail s))"

definition ring_back :: "'e ring \<Rightarrow> nat option option" where
  "ring_back s = (if ring_empty s then Some None else map_option Some (ring_retreat s (rb_head s)))"

text \<open>\<open>foreach\<close> runs a visitor, whose own state is \<open>'w\<close>, until it returns an error.\<close>

fun ring_foreach_loop ::
  "('e \<Rightarrow> nat \<Rightarrow> 'w \<Rightarrow> status \<times> 'w) \<Rightarrow> 'e ring \<Rightarrow> nat \<Rightarrow> nat \<Rightarrow> 'w \<Rightarrow> (status \<times> 'w) option" where
  "ring_foreach_loop visit s i 0 w = Some (Ok, w)"
| "ring_foreach_loop visit s i (Suc n) w = do {
     slot \<leftarrow> ring_logical_index s i;
     v \<leftarrow> mem_rd (rb_storage s) slot;
     let (st, w') = visit v i w;
     if st \<noteq> Ok then Some (st, w') else ring_foreach_loop visit s (Suc i) n w'
   }"

definition ring_foreach ::
  "('e \<Rightarrow> nat \<Rightarrow> 'w \<Rightarrow> status \<times> 'w) \<Rightarrow> 'e ring \<Rightarrow> 'w \<Rightarrow> (status \<times> 'w) option" where
  "ring_foreach visit s w = ring_foreach_loop visit s 0 (rb_count s) w"

section \<open>Contiguous regions\<close>

text \<open>
  \<open>readable_contiguous\<close> and \<open>writable_contiguous\<close> return the number of slots and the slot the
  out pointer is set to; \<open>want\<close> says whether the out pointer is not null.
\<close>

definition ring_readable_contiguous :: "'e ring \<Rightarrow> bool \<Rightarrow> nat \<times> nat option" where
  "ring_readable_contiguous s want =
     (if ring_empty s \<or> \<not> want then (0, None)
      else if rb_tail s < rb_head s then (sz_sub (rb_head s) (rb_tail s), Some (rb_tail s))
      else (rb_count s, Some (rb_tail s)))"

definition ring_writable_contiguous ::
  "'e env \<Rightarrow> 'e ring \<Rightarrow> bool \<Rightarrow> (nat \<times> nat option \<times> 'e ring) option" where
  "ring_writable_contiguous env s want =
     (if \<not> want then Some (0, None, s)
      else if rb_count s \<ge> rb_capacity s \<and> \<not> growable s then Some (0, None, s)
      else do {
        (st, s') \<leftarrow> (if rb_count s \<ge> rb_capacity s then ring_ensure_room env s else Some (Ok, s));
        if st \<noteq> Ok then Some (0, None, s')
        else if rb_head s' \<ge> rb_tail s'
        then Some (sz_sub (rb_capacity s') (rb_count s'), Some (rb_head s'), s')
        else Some (sz_sub (rb_head s') (rb_tail s'), Some (rb_head s'), s')
      })"

definition ring_commit_read :: "'e ring \<Rightarrow> nat \<Rightarrow> 'e ring option" where
  "ring_commit_read s elem_count =
     (if elem_count = 0 \<or> ring_empty s then Some s
      else
        let n = (if elem_count > rb_count s then rb_count s else elem_count) in do {
          s' \<leftarrow> (if needs_destroy_on_clear (rb_policy s) then ring_destroy_loop s 0 n else Some s);
          tail \<leftarrow> ring_advance s' (rb_tail s') n;
          Some (s'\<lparr>rb_tail := tail, rb_count := sz_sub (rb_count s') n\<rparr>)
        })"

definition ring_commit_write :: "'e ring \<Rightarrow> nat \<Rightarrow> 'e ring option" where
  "ring_commit_write s elem_count =
     (if elem_count = 0 then Some s
      else
        let free_slots = sz_sub (rb_capacity s) (rb_count s);
            n = (if elem_count > free_slots then free_slots else elem_count)
        in do {
          head \<leftarrow> ring_advance s (rb_head s) n;
          Some (s\<lparr>rb_head := head, rb_count := sz_add (rb_count s) n\<rparr>)
        })"

end
