(* ===== verification/Window.thy ===== *)
theory Window
  imports Prelude
begin

text \<open>
  The elements at \<open>n\<close> consecutive positions of a circular block of capacity \<open>c\<close>, from position \<open>t\<close>
  on, and how they change when a cell is written or an end moves. Shared by the ring buffer and the
  lock-free queues. Also what the \<open>foreach\<close> of the containers computes on a list.
\<close>

definition ring_items :: "'e list \<Rightarrow> nat \<Rightarrow> nat \<Rightarrow> nat \<Rightarrow> 'e list" where
  "ring_items xs t c n = map (\<lambda>i. xs ! ((t + i) mod c)) [0..<n]"

lemma length_ring_items [simp]: "length (ring_items xs t c n) = n"
  by (simp add: ring_items_def)

lemma nth_ring_items [simp]: "i < n \<Longrightarrow> ring_items xs t c n ! i = xs ! ((t + i) mod c)"
  by (simp add: ring_items_def)

lemma ring_items_0 [simp]: "ring_items xs t c 0 = []"
  by (simp add: ring_items_def)

lemma ring_items_outside:
  assumes "n \<le> k" "k < c"
  shows "ring_items (xs[(t + k) mod c := v]) t c n = ring_items xs t c n"
proof (rule nth_equalityI)
  fix i assume "i < length (ring_items (xs[(t + k) mod c := v]) t c n)"
  with assms show "ring_items (xs[(t + k) mod c := v]) t c n ! i = ring_items xs t c n ! i"
    by (auto simp: nth_list_update mod_add_inj_iff dest: mod_add_inj [of i c k t])
qed simp

lemma ring_items_snoc:
  assumes "n < c" "c \<le> length xs"
  shows "ring_items (xs[(t + n) mod c := v]) t c (Suc n) = ring_items xs t c n @ [v]"
proof -
  have "(t + n) mod c < length xs"
    using assms by (intro mod_less_le) simp_all
  then show ?thesis
    using ring_items_outside [of n n c xs t v] assms by (simp add: ring_items_def)
qed

lemma ring_items_update:
  assumes "k < n" "n \<le> c" "c \<le> length xs"
  shows "ring_items (xs[(t + k) mod c := v]) t c n = (ring_items xs t c n)[k := v]"
proof (rule nth_equalityI)
  fix i assume i: "i < length (ring_items (xs[(t + k) mod c := v]) t c n)"
  have "(t + k) mod c < length xs"
    using assms by (intro mod_less_le) simp_all
  with assms i show "ring_items (xs[(t + k) mod c := v]) t c n ! i = (ring_items xs t c n)[k := v] ! i"
    by (auto simp: nth_list_update mod_add_inj_iff)
qed simp

lemma ring_items_Suc: "ring_items xs t c (Suc n) = xs ! (t mod c) # ring_items xs (Suc t) c n"
  by (simp add: ring_items_def map_upt_Suc_Cons del: upt_Suc)

lemma ring_items_mod: "ring_items xs (t mod c) c n = ring_items xs t c n"
  by (simp add: ring_items_def mod_add_left_eq)

lemma ring_items_advance: "ring_items xs ((t + 1) mod c) c n = tl (ring_items xs t c (Suc n))"
  by (simp add: ring_items_mod ring_items_Suc)

lemma ring_items_drop: "k \<le> n \<Longrightarrow> ring_items xs ((t + k) mod c) c (n - k) = drop k (ring_items xs t c n)"
  by (rule nth_equalityI) (simp_all add: ring_items_mod ac_simps)

lemma ring_items_butlast: "ring_items xs t c n = butlast (ring_items xs t c (Suc n))"
  by (simp add: ring_items_def)

lemma ring_items_last: "last (ring_items xs t c (Suc n)) = xs ! ((t + n) mod c)"
  by (simp add: ring_items_def)

lemma ring_items_cons:
  assumes "n < c" "c \<le> length xs" "t < c"
  defines "t' \<equiv> (t + c - 1) mod c"
  shows "ring_items (xs[t' := v]) t' c (Suc n) = v # ring_items xs t c n"
proof -
  have t': "t' < c" "(t' + 1) mod c = t"
    using assms by (auto simp: t'_def mod_Suc_eq)
  have "ring_items (xs[t' := v]) (Suc t') c n = ring_items (xs[t' := v]) t c n"
    by (subst ring_items_mod [symmetric]) (use t' in simp)
  also have "\<dots> = ring_items xs t c n"
  proof -
    have "t' = (t + (c - 1)) mod c" using assms by (simp add: t'_def)
    with assms(1) show ?thesis using ring_items_outside [of n "c - 1" c xs t v] by simp
  qed
  finally show ?thesis
    using t' assms(2) by (simp add: ring_items_Suc)
qed

end
