(* ===== verification/Ring_Correct.thy ===== *)
theory Ring_Correct
  imports Ring Window
begin

text \<open>
  Correctness of the ring buffer: the list of live elements a ring stands for
  (\<open>ring_contents\<close>), the invariant that every operation keeps (\<open>ring_wf\<close>), and what each
  operation does to the list.
\<close>

section \<open>Invariant and abstraction\<close>

definition ring_wf :: "'e ring \<Rightarrow> bool" where
  "ring_wf s \<longleftrightarrow>
     (case rb_storage s of
        None \<Rightarrow> False
      | Some xs \<Rightarrow>
          0 < rb_capacity s \<and> rb_capacity s \<le> length xs \<and> rb_capacity s \<le> PTRDIFF_MAX \<and>
          rb_tail s < rb_capacity s \<and> rb_count s \<le> rb_capacity s \<and>
          rb_head s = (rb_tail s + rb_count s) mod rb_capacity s)"

definition ring_contents :: "'e ring \<Rightarrow> 'e list" where
  "ring_contents s =
     (case rb_storage s of
        None \<Rightarrow> []
      | Some xs \<Rightarrow> ring_items xs (rb_tail s) (rb_capacity s) (rb_count s))"

text \<open>What no push or pop changes.\<close>

lemma ring_storage_same: "rb_storage s = m \<Longrightarrow> s\<lparr>rb_storage := m\<rparr> = s"
  by (cases s) simp

lemma ring_wfE:
  assumes "ring_wf s"
  obtains xs where "rb_storage s = Some xs" "0 < rb_capacity s" "rb_capacity s \<le> length xs"
    "rb_capacity s + rb_capacity s < SIZE_MAX" "rb_tail s < rb_capacity s"
    "rb_count s \<le> rb_capacity s" "rb_head s = (rb_tail s + rb_count s) mod rb_capacity s"
    "rb_head s < rb_capacity s"
  using assms by (auto simp: ring_wf_def PTRDIFF_MAX_SIZE_MAX split: option.splits)

lemma ring_wfI:
  assumes "rb_storage s = Some xs" "0 < rb_capacity s" "rb_capacity s \<le> length xs"
    "rb_capacity s \<le> PTRDIFF_MAX" "rb_tail s < rb_capacity s" "rb_count s \<le> rb_capacity s"
    "rb_head s = (rb_tail s + rb_count s) mod rb_capacity s"
  shows "ring_wf s"
  using assms by (simp add: ring_wf_def)

lemma ring_wf_PTRDIFF: "ring_wf s \<Longrightarrow> rb_capacity s \<le> PTRDIFF_MAX"
  by (auto simp: ring_wf_def split: option.splits)

lemma length_ring_contents: "ring_wf s \<Longrightarrow> length (ring_contents s) = rb_count s"
  by (auto simp: ring_wf_def ring_contents_def split: option.splits)

lemma ring_contents_storage [simp]:
  "rb_storage s = Some xs \<Longrightarrow> ring_contents s = ring_items xs (rb_tail s) (rb_capacity s) (rb_count s)"
  by (simp add: ring_contents_def)

lemma ring_advance_eq:
  "0 < rb_capacity s \<Longrightarrow> i + d \<le> SIZE_MAX \<Longrightarrow> ring_advance s i d = Some ((i + d) mod rb_capacity s)"
  by (simp add: ring_advance_def sz_add_eq)

lemma ring_logical_index_eq:
  "0 < rb_capacity s \<Longrightarrow> rb_tail s + i \<le> SIZE_MAX \<Longrightarrow>
   ring_logical_index s i = Some ((rb_tail s + i) mod rb_capacity s)"
  by (simp add: ring_logical_index_def sz_add_eq)

lemma ring_retreat_eq:
  "0 < rb_capacity s \<Longrightarrow> i + rb_capacity s \<le> SIZE_MAX \<Longrightarrow>
   ring_retreat s i = Some ((i + rb_capacity s - 1) mod rb_capacity s)"
  by (simp add: ring_retreat_def sz_add_eq sz_sub_eq)

lemma ring_destroy_slot_eq:
  "rb_storage s = Some xs \<Longrightarrow> i < length xs \<Longrightarrow>
   ring_destroy_slot s i = Some (s\<lparr>rb_destroyed := destroy (rb_policy s) (xs ! i) (rb_destroyed s)\<rparr>)"
  by (simp add: ring_destroy_slot_def)

lemmas ring_index_eqs = ring_advance_eq ring_logical_index_eq ring_retreat_eq ring_destroy_slot_eq

text \<open>The slot before the head holds the newest element.\<close>

lemma ring_retreat_head:
  assumes "ring_wf s" "rb_count s = Suc n"
  shows "ring_retreat s (rb_head s) = Some ((rb_tail s + n) mod rb_capacity s)"
proof -
  from assms(1) obtain xs where xs: "0 < rb_capacity s" "rb_capacity s + rb_capacity s < SIZE_MAX"
    "rb_head s = (rb_tail s + rb_count s) mod rb_capacity s" "rb_head s < rb_capacity s"
    by (rule ring_wfE)
  have "(rb_head s + rb_capacity s - 1) mod rb_capacity s = (rb_tail s + n) mod rb_capacity s"
    using xs assms(2) by (simp add: mod_retreat)
  with xs(1,2,4) show ?thesis by (simp add: ring_retreat_eq)
qed

text \<open>Destroying a run of elements records them in order, and nothing else.\<close>

lemma ring_destroy_loop_eq:
  assumes "rb_storage s = Some xs" "0 < rb_capacity s" "rb_capacity s \<le> length xs"
    "rb_tail s + i + n \<le> SIZE_MAX" "ep_destroy (rb_policy s)"
  shows "ring_destroy_loop s i n =
    Some (s\<lparr>rb_destroyed := rb_destroyed s @ ring_items xs (rb_tail s + i) (rb_capacity s) n\<rparr>)"
  using assms
proof (induction n arbitrary: s i)
  case (Suc n)
  have "(rb_tail s + i) mod rb_capacity s < length xs"
    using Suc.prems by (intro mod_less_le) simp_all
  with Suc show ?case
    by (simp add: ring_index_eqs ring_items_Suc)
qed simp

section \<open>Moving to a larger block\<close>

lemma ring_move_loop_eq:
  assumes "rb_storage s = Some xs" "0 < rb_capacity s" "rb_capacity s \<le> length xs"
    "rb_capacity s + rb_capacity s < SIZE_MAX" "rb_tail s < rb_capacity s"
    "i + n \<le> rb_capacity s" "i + n \<le> length new"
  shows "\<exists>ys new'. ring_move_loop s (Some new) i n =
      Some (s\<lparr>rb_storage := Some ys,
              rb_destroyed := rb_destroyed s @
                (if \<not> ep_runtime (rb_policy s) \<and> ep_destroy (rb_policy s)
                 then map (ep_moved (rb_policy s)) (ring_items xs (rb_tail s + i) (rb_capacity s) n)
                 else [])\<rparr>, Some new') \<and>
      length ys = length xs \<and> length new' = length new \<and>
      (\<forall>j < length new. new' ! j =
         (if i \<le> j \<and> j < i + n then xs ! ((rb_tail s + j) mod rb_capacity s) else new ! j))"
  using assms
proof (induction n arbitrary: s xs i new)
  case 0
  show ?case by (rule exI [of _ xs], rule exI [of _ new]) (use 0 in auto)
next
  case (Suc n)
  let ?c = "rb_capacity s" and ?p = "rb_policy s"
  define src where "src = (rb_tail s + i) mod ?c"
  have src: "src < length xs" "ring_logical_index s i = Some src"
    using Suc.prems by (auto simp: src_def ring_index_eqs intro!: mod_less_le)
  define xs1 where "xs1 = (if ep_runtime ?p then xs else xs[src := ep_moved ?p (xs ! src)])"
  define s1 where "s1 = s\<lparr>rb_storage := Some xs1, rb_destroyed := rb_destroyed s @
     (if \<not> ep_runtime ?p \<and> ep_destroy ?p then [ep_moved ?p (xs ! src)] else [])\<rparr>"
  have step: "ring_move_loop s (Some new) i (Suc n) =
      ring_move_loop s1 (Some (new[i := xs ! src])) (Suc i) n"
    using Suc.prems src
    by (auto simp: s1_def xs1_def ring_destroy_slot_def destroy_def ring_storage_same)
  have keep: "xs1 ! ((rb_tail s + j) mod ?c) = xs ! ((rb_tail s + j) mod ?c)"
    if "i < j" "j < ?c" for j
    using that Suc.prems src by (auto simp: xs1_def src_def nth_list_update mod_add_inj_iff)
  have items: "ring_items xs1 (rb_tail s + Suc i) ?c n = ring_items xs (rb_tail s + Suc i) ?c n"
  proof (rule nth_equalityI)
    fix k assume "k < length (ring_items xs1 (rb_tail s + Suc i) ?c n)"
    then show "ring_items xs1 (rb_tail s + Suc i) ?c n ! k = ring_items xs (rb_tail s + Suc i) ?c n ! k"
      using keep [of "Suc i + k"] Suc.prems by (simp add: ac_simps)
  qed simp
  have s1: "rb_storage s1 = Some xs1" "rb_capacity s1 = ?c" "rb_tail s1 = rb_tail s"
    "rb_policy s1 = ?p" "length xs1 = length xs"
    by (simp_all add: s1_def xs1_def)
  obtain ys new' where IH:
    "ring_move_loop s1 (Some (new[i := xs ! src])) (Suc i) n =
      Some (s1\<lparr>rb_storage := Some ys,
              rb_destroyed := rb_destroyed s1 @
                (if \<not> ep_runtime ?p \<and> ep_destroy ?p
                 then map (ep_moved ?p) (ring_items xs1 (rb_tail s + Suc i) ?c n) else [])\<rparr>, Some new')"
    "length ys = length xs" "length new' = length new"
    "\<forall>j < length new. new' ! j =
       (if Suc i \<le> j \<and> j < Suc i + n then xs1 ! ((rb_tail s + j) mod ?c)
        else new[i := xs ! src] ! j)"
    using Suc.IH [of s1 xs1 "Suc i" "new[i := xs ! src]", unfolded s1] Suc.prems by auto
  have cells: "\<forall>j < length new. new' ! j =
      (if i \<le> j \<and> j < i + Suc n then xs ! ((rb_tail s + j) mod ?c) else new ! j)"
    using IH(4) keep Suc.prems
    by (auto simp: nth_list_update src_def not_less_eq_eq dest!: le_antisym)
  have "ring_move_loop s (Some new) i (Suc n) =
      Some (s\<lparr>rb_storage := Some ys,
              rb_destroyed := rb_destroyed s @
                (if \<not> ep_runtime ?p \<and> ep_destroy ?p
                 then map (ep_moved ?p) (ring_items xs (rb_tail s + i) ?c (Suc n)) else [])\<rparr>, Some new')"
    unfolding step IH(1) items ring_items_Suc src_def [symmetric] by (simp add: s1_def)
  with IH(2,3) cells show ?case by blast
qed

lemma ring_move_loop_at:
  assumes "rb_policy s = p" "rb_capacity s = c" "rb_tail s = t"
    and "rb_storage s = Some xs" "0 < c" "c \<le> length xs" "c + c < SIZE_MAX" "t < c"
    "n \<le> c" "n \<le> length new"
  obtains ys new' where
    "ring_move_loop s (Some new) 0 n =
      Some (s\<lparr>rb_storage := Some ys,
              rb_destroyed := rb_destroyed s @
                (if \<not> ep_runtime p \<and> ep_destroy p then map (ep_moved p) (ring_items xs t c n) else [])\<rparr>,
            Some new')"
    "length new' = length new"
    "\<forall>j < length new. new' ! j = (if j < n then xs ! ((t + j) mod c) else new ! j)"
  using ring_move_loop_eq [of s xs 0 n new, unfolded assms(1-3) add_0_right] assms(4-) by auto

text \<open>
  The request a growing ring makes can be served: the size in bytes does not wrap and the block is
  granted.
\<close>

text \<open>A block too short for the elements: the move leaves it.\<close>

lemma ring_move_loop_short:
  assumes "new = Some ys" "i \<le> length ys" "length ys < i + n" "ep_runtime (rb_policy s)"
  shows "ring_move_loop s new i n = None"
  using assms
proof (induction n arbitrary: i ys new)
  case (Suc n)
  show ?case
  proof (cases "i < length ys")
    case True
    with Suc.prems Suc.IH [OF refl, of "Suc i"] show ?thesis
      by (auto simp: bind_eq_None_conv)
  next
    case False
    with Suc.prems show ?thesis by (auto simp: bind_eq_None_conv)
  qed
qed simp

definition ring_can_grow :: "'e env \<Rightarrow> 'e ring \<Rightarrow> nat \<Rightarrow> bool" where
  "ring_can_grow env s n \<longleftrightarrow>
     0 < ep_size (rb_policy s) \<and> n * ep_size (rb_policy s) \<le> SIZE_MAX \<and> n \<le> PTRDIFF_MAX \<and>
     fst (ring_new_storage env s (n * ep_size (rb_policy s))) = Ok"

lemma ring_new_storage_block:
  assumes "ring_new_storage env s bytes = (Ok, new, kind)"
  shows "new = Some (new_block env bytes (ep_size (rb_policy s)))"
  using assms by (auto simp: ring_new_storage_def Let_def split: if_splits)

theorem ring_relinearize_ok:
  assumes wf: "ring_wf s" and n: "rb_count s \<le> n" "rb_capacity s < n" and grow: "ring_can_grow env s n"
  shows "\<exists>s'. ring_relinearize env s n = Some (Ok, s') \<and> ring_wf s' \<and>
    ring_contents s' = ring_contents s \<and> rb_capacity s' = n \<and> rb_count s' = rb_count s \<and>
    rb_policy s' = rb_policy s \<and> rb_flags s' = rb_flags s \<and> rb_grow s' = rb_grow s \<and>
    rb_destroyed s' = rb_destroyed s @
      (if \<not> ep_runtime (rb_policy s) \<and> ep_destroy (rb_policy s)
       then map (ep_moved (rb_policy s)) (ring_contents s) else [])"
proof -
  from wf obtain xs where xs: "rb_storage s = Some xs" "0 < rb_capacity s" "rb_capacity s \<le> length xs"
    "rb_capacity s + rb_capacity s < SIZE_MAX" "rb_tail s < rb_capacity s" "rb_count s \<le> rb_capacity s"
    by (rule ring_wfE)
  let ?sz = "ep_size (rb_policy s)"
  obtain new kind where st: "ring_new_storage env s (n * ?sz) = (Ok, new, kind)"
    using grow by (cases "ring_new_storage env s (n * ?sz)") (auto simp: ring_can_grow_def)
  define block where "block = new_block env (n * ?sz) ?sz"
  have new: "new = Some block" "length block = n"
    using ring_new_storage_block [OF st] grow by (simp_all add: block_def ring_can_grow_def)
  obtain ys new' where loop:
    "ring_move_loop (s\<lparr>rb_kind := kind\<rparr>) (Some block) 0 (rb_count s) =
      Some (s\<lparr>rb_kind := kind, rb_storage := Some ys,
              rb_destroyed := rb_destroyed s @
                (if \<not> ep_runtime (rb_policy s) \<and> ep_destroy (rb_policy s)
                 then map (ep_moved (rb_policy s))
                   (ring_items xs (rb_tail s) (rb_capacity s) (rb_count s)) else [])\<rparr>, Some new')"
    "length new' = n"
    "\<forall>j < n. new' ! j = (if j < rb_count s then xs ! ((rb_tail s + j) mod rb_capacity s) else block ! j)"
    using ring_move_loop_at [of "s\<lparr>rb_kind := kind\<rparr>" "rb_policy s" "rb_capacity s" "rb_tail s" xs
        "rb_count s" block] xs n new by auto
  define s' where "s' = s\<lparr>rb_kind := kind, rb_storage := Some new',
      rb_destroyed := rb_destroyed s @
        (if \<not> ep_runtime (rb_policy s) \<and> ep_destroy (rb_policy s)
         then map (ep_moved (rb_policy s)) (ring_items xs (rb_tail s) (rb_capacity s) (rb_count s)) else []),
      rb_capacity := n, rb_head := rb_count s, rb_tail := 0\<rparr>"
  have "ring_relinearize env s n = Some (Ok, s')"
    using n grow st new loop
    by (simp add: ring_relinearize_def ring_can_grow_def sz_mul_eq s'_def)
  moreover have "ring_wf s'"
    using n grow loop(2) xs by (intro ring_wfI [of _ new']) (simp_all add: s'_def ring_can_grow_def)
  moreover have "ring_contents s' = ring_contents s"
    using loop(2,3) n xs by (intro nth_equalityI) (simp_all add: s'_def)
  ultimately show ?thesis
    using xs(1) by (intro exI [of _ s']) (simp add: s'_def)
qed

section \<open>One step of the window\<close>

definition ring_frame :: "'e ring \<Rightarrow> 'e ring \<Rightarrow> bool" where
  "ring_frame s s' \<longleftrightarrow> rb_policy s' = rb_policy s \<and> rb_capacity s' = rb_capacity s \<and>
     rb_flags s' = rb_flags s \<and> rb_kind s' = rb_kind s \<and> rb_grow s' = rb_grow s"

lemma ring_drop_front_ok:
  assumes wf: "ring_wf s" and ne: "0 < rb_count s"
  shows "\<exists>s'. ring_drop_front s = Some s' \<and> ring_wf s' \<and> ring_frame s s' \<and>
    ring_contents s' = tl (ring_contents s) \<and> rb_count s' = rb_count s - 1 \<and>
    rb_destroyed s' = destroy (rb_policy s) (hd (ring_contents s)) (rb_destroyed s)"
proof -
  from wf obtain xs where xs: "rb_storage s = Some xs" "0 < rb_capacity s" "rb_capacity s \<le> length xs"
    "rb_capacity s + rb_capacity s < SIZE_MAX" "rb_tail s < rb_capacity s" "rb_count s \<le> rb_capacity s"
    "rb_head s = (rb_tail s + rb_count s) mod rb_capacity s"
    by (rule ring_wfE)
  obtain n where n: "rb_count s = Suc n" using ne by (cases "rb_count s") auto
  define s' where "s' = s\<lparr>rb_destroyed := destroy (rb_policy s) (xs ! rb_tail s) (rb_destroyed s),
    rb_tail := (rb_tail s + 1) mod rb_capacity s, rb_count := n\<rparr>"
  have "ring_drop_front s = Some s'"
    using xs n by (auto simp: ring_drop_front_def s'_def ring_index_eqs sz_sub_eq
        needs_destroy_on_clear_def)
  moreover have "ring_wf s'"
    using xs n ring_wf_PTRDIFF [OF wf]
    by (intro ring_wfI [of _ xs]) (simp_all add: s'_def mod_add_left_eq)
  moreover have "ring_contents s' = tl (ring_contents s)"
    using xs n ring_items_advance [of xs "rb_tail s" "rb_capacity s" n] by (simp add: s'_def)
  moreover have "hd (ring_contents s) = xs ! rb_tail s"
    using xs n by (simp add: ring_items_Suc)
  ultimately show ?thesis
    using n by (intro exI [of _ s']) (simp add: s'_def ring_frame_def)
qed

lemma ring_drop_back_ok:
  assumes wf: "ring_wf s" and ne: "0 < rb_count s"
  shows "\<exists>s'. ring_drop_back s = Some s' \<and> ring_wf s' \<and> ring_frame s s' \<and>
    ring_contents s' = butlast (ring_contents s) \<and> rb_count s' = rb_count s - 1 \<and>
    rb_destroyed s' = destroy (rb_policy s) (last (ring_contents s)) (rb_destroyed s)"
proof -
  from wf obtain xs where xs: "rb_storage s = Some xs" "0 < rb_capacity s" "rb_capacity s \<le> length xs"
    "rb_capacity s + rb_capacity s < SIZE_MAX" "rb_tail s < rb_capacity s" "rb_count s \<le> rb_capacity s"
    "rb_head s = (rb_tail s + rb_count s) mod rb_capacity s" "rb_head s < rb_capacity s"
    by (rule ring_wfE)
  obtain n where n: "rb_count s = Suc n" using ne by (cases "rb_count s") auto
  note prev = ring_retreat_head [OF wf n]
  have in_block: "(rb_tail s + n) mod rb_capacity s < length xs"
    using xs by (intro mod_less_le)
  define s' where "s' = s\<lparr>rb_destroyed := destroy (rb_policy s) (xs ! ((rb_tail s + n) mod rb_capacity s))
      (rb_destroyed s), rb_head := (rb_tail s + n) mod rb_capacity s, rb_count := n\<rparr>"
  have "ring_drop_back s = Some s'"
    using xs(1-4,6) n in_block
    by (auto simp: prev ring_drop_back_def s'_def ring_index_eqs sz_sub_eq needs_destroy_on_clear_def)
  moreover have "ring_wf s'"
    using xs n ring_wf_PTRDIFF [OF wf] by (intro ring_wfI [of _ xs]) (simp_all add: s'_def)
  moreover have "ring_contents s' = butlast (ring_contents s)"
    using xs n ring_items_butlast [of xs "rb_tail s" "rb_capacity s" n] by (simp add: s'_def)
  moreover have "last (ring_contents s) = xs ! ((rb_tail s + n) mod rb_capacity s)"
    using xs n by (simp add: ring_items_last)
  ultimately show ?thesis
    using n by (intro exI [of _ s']) (simp add: s'_def ring_frame_def)
qed

text \<open>
  Storing at the head. When the user's copy fails, the ring still holds the same elements.
\<close>

lemma ring_push_back_slot_ok:
  assumes wf: "ring_wf s" and room: "rb_count s < rb_capacity s"
  shows "\<exists>old st v s'. copy_construct (rb_policy s) old e = (st, v) \<and>
    ring_push_back_slot s e = Some (st, s') \<and> ring_wf s' \<and> ring_frame s s' \<and>
    rb_destroyed s' = rb_destroyed s \<and>
    ring_contents s' = (if st = Ok then ring_contents s @ [v] else ring_contents s)"
proof -
  from wf obtain xs where xs: "rb_storage s = Some xs" "0 < rb_capacity s" "rb_capacity s \<le> length xs"
    "rb_capacity s + rb_capacity s < SIZE_MAX" "rb_tail s < rb_capacity s" "rb_count s \<le> rb_capacity s"
    "rb_head s = (rb_tail s + rb_count s) mod rb_capacity s" "rb_head s < rb_capacity s"
    by (rule ring_wfE)
  obtain st v where cp: "copy_construct (rb_policy s) (xs ! rb_head s) e = (st, v)"
    by (cases "copy_construct (rb_policy s) (xs ! rb_head s) e")
  define s1 where "s1 = s\<lparr>rb_storage := Some (xs[rb_head s := v])\<rparr>"
  define s' where "s' = (if st = Ok
    then s1\<lparr>rb_head := (rb_head s + 1) mod rb_capacity s, rb_count := rb_count s + 1\<rparr> else s1)"
  have "ring_push_back_slot s e = Some (st, s')"
    using xs(1-4,6,8) room cp
    by (simp add: ring_push_back_slot_def s'_def s1_def ring_advance_eq sz_add_eq)
  moreover have "ring_wf s'"
    using xs room ring_wf_PTRDIFF [OF wf]
    by (intro ring_wfI [of _ "xs[rb_head s := v]"]) (simp_all add: s'_def s1_def mod_Suc_eq)
  moreover have "ring_contents s' = (if st = Ok then ring_contents s @ [v] else ring_contents s)"
    using xs(1,3,6) room ring_items_snoc [of "rb_count s" "rb_capacity s" xs "rb_tail s" v]
      ring_items_outside [of "rb_count s" "rb_count s" "rb_capacity s" xs "rb_tail s" v]
    by (simp add: s'_def s1_def xs(7) [symmetric])
  ultimately show ?thesis
    using cp by (intro exI [of _ "xs ! rb_head s"] exI [of _ st] exI [of _ v] exI [of _ s'])
      (simp add: s'_def s1_def ring_frame_def)
qed

lemma ring_push_front_slot_ok:
  assumes wf: "ring_wf s" and room: "rb_count s < rb_capacity s"
  shows "\<exists>old st v s'. copy_construct (rb_policy s) old e = (st, v) \<and>
    ring_push_front_slot s e = Some (st, s') \<and> ring_wf s' \<and> ring_frame s s' \<and>
    rb_destroyed s' = rb_destroyed s \<and>
    ring_contents s' = (if st = Ok then v # ring_contents s else ring_contents s)"
proof -
  from wf obtain xs where xs: "rb_storage s = Some xs" "0 < rb_capacity s" "rb_capacity s \<le> length xs"
    "rb_capacity s + rb_capacity s < SIZE_MAX" "rb_tail s < rb_capacity s" "rb_count s \<le> rb_capacity s"
    "rb_head s = (rb_tail s + rb_count s) mod rb_capacity s" "rb_head s < rb_capacity s"
    by (rule ring_wfE)
  let ?c = "rb_capacity s"
  define t where "t = (rb_tail s + ?c - 1) mod ?c"
  have t: "t < ?c" "t < length xs" "ring_retreat s (rb_tail s) = Some t" "(t + 1) mod ?c = rb_tail s"
    using xs by (auto simp: t_def ring_retreat_eq mod_Suc_eq intro!: mod_less_le)
  have t_dead: "t = (rb_tail s + (?c - 1)) mod ?c"
    using xs by (simp add: t_def)
  obtain st v where cp: "copy_construct (rb_policy s) (xs ! t) e = (st, v)"
    by (cases "copy_construct (rb_policy s) (xs ! t) e")
  define s1 where "s1 = s\<lparr>rb_storage := Some (xs[t := v])\<rparr>"
  define s' where "s' = (if st = Ok then s1\<lparr>rb_tail := t, rb_count := rb_count s + 1\<rparr> else s1)"
  have "ring_push_front_slot s e = Some (st, s')"
    using xs(1-4,6) room cp t
    by (auto simp: ring_push_front_slot_def s'_def s1_def ring_advance_eq sz_add_eq)
  moreover have "ring_wf s'"
  proof (rule ring_wfI [of _ "xs[t := v]"])
    have "rb_head s = (t + 1 + rb_count s) mod ?c"
      using xs(7) t(4) by (metis mod_add_left_eq)
    then show "rb_head s' = (rb_tail s' + rb_count s') mod rb_capacity s'"
      using xs(7) by (simp add: s'_def s1_def)
  qed (use xs room t ring_wf_PTRDIFF [OF wf] in \<open>simp_all add: s'_def s1_def\<close>)
  moreover have "ring_contents s' = (if st = Ok then v # ring_contents s else ring_contents s)"
    using xs(1,3,5,6) room ring_items_cons [of "rb_count s" ?c xs "rb_tail s" v, folded t_def]
      ring_items_outside [of "rb_count s" "?c - 1" ?c xs "rb_tail s" v, folded t_dead]
    by (simp add: s'_def s1_def)
  ultimately show ?thesis
    using cp by (intro exI [of _ "xs ! t"] exI [of _ st] exI [of _ v] exI [of _ s'])
      (simp add: s'_def s1_def ring_frame_def)
qed

section \<open>Making room\<close>

text \<open>Twice the capacity is still the size of an object: no wrap-around in the request.\<close>

definition ring_can_double :: "'e ring \<Rightarrow> bool" where
  "ring_can_double s \<longleftrightarrow>
     0 < ep_size (rb_policy s) \<and> 2 * rb_capacity s * ep_size (rb_policy s) \<le> PTRDIFF_MAX"

lemma ring_relinearize_refused:
  assumes "rb_count s \<le> n" "n * ep_size (rb_policy s) \<le> SIZE_MAX"
    "fst (ring_new_storage env s (n * ep_size (rb_policy s))) \<noteq> Ok"
  shows "ring_relinearize env s n =
    Some (fst (ring_new_storage env s (n * ep_size (rb_policy s))), s)"
  using assms
  by (cases "ring_new_storage env s (n * ep_size (rb_policy s))")
     (simp add: ring_relinearize_def sz_mul_eq)

text \<open>
  A full growable ring either moves, unchanged, to a block of twice the capacity, or reports the
  status of the refused request and stays as it was.
\<close>

lemma ring_ensure_room_cases:
  assumes wf: "ring_wf s" and full: "rb_count s = rb_capacity s" and g: "growable s"
    and d: "ring_can_double s"
  shows "(\<exists>s'. ring_ensure_room env s = Some (Ok, s') \<and> ring_wf s' \<and>
      ring_contents s' = ring_contents s \<and> rb_capacity s' = 2 * rb_capacity s \<and>
      rb_count s' = rb_count s \<and> rb_policy s' = rb_policy s \<and> rb_flags s' = rb_flags s \<and>
      ring_can_grow env s (2 * rb_capacity s)) \<or>
    (\<exists>st. st \<noteq> Ok \<and> ring_ensure_room env s = Some (st, s) \<and>
      \<not> ring_can_grow env s (2 * rb_capacity s))"
proof -
  let ?n = "2 * rb_capacity s"
  from wf have c: "0 < rb_capacity s" "rb_capacity s + rb_capacity s < SIZE_MAX"
    by (auto elim: ring_wfE)
  have n: "?n * ep_size (rb_policy s) \<le> SIZE_MAX" "?n \<le> PTRDIFF_MAX"
  proof -
    from d show "?n * ep_size (rb_policy s) \<le> SIZE_MAX"
      by (simp add: ring_can_double_def PTRDIFF_MAX_def SIZE_MAX_def)
    from d have "?n \<le> ?n * ep_size (rb_policy s)" by (simp add: ring_can_double_def)
    moreover from d have "?n * ep_size (rb_policy s) \<le> PTRDIFF_MAX" by (simp add: ring_can_double_def)
    ultimately show "?n \<le> PTRDIFF_MAX" by (rule le_trans)
  qed
  have room: "ring_ensure_room env s = ring_relinearize env s ?n"
    using c full g by (simp add: ring_ensure_room_def sz_add_eq grow_capacity_double SIZE_MAX_def)
  show ?thesis
  proof (cases "fst (ring_new_storage env s (?n * ep_size (rb_policy s))) = Ok")
    case True
    with n d have grow: "ring_can_grow env s ?n"
      by (simp add: ring_can_grow_def ring_can_double_def)
    with ring_relinearize_ok [OF wf _ _ grow] full c room show ?thesis by auto
  next
    case False
    then show ?thesis
      using ring_relinearize_refused [of s ?n env] n full room
      by (auto simp: ring_can_grow_def)
  qed
qed

lemma ring_ensure_room_granted:
  assumes wf: "ring_wf s" and full: "rb_count s = rb_capacity s" and g: "growable s"
    and d: "ring_can_double s" and a: "ring_can_grow env s (2 * rb_capacity s)"
  shows "\<exists>s'. ring_ensure_room env s = Some (Ok, s') \<and> ring_wf s' \<and> ring_contents s' = ring_contents s \<and>
    rb_capacity s' = 2 * rb_capacity s \<and> rb_count s' = rb_count s \<and> rb_policy s' = rb_policy s"
  using ring_ensure_room_cases [OF wf full g d, of env] a by auto

section \<open>Pushing\<close>

text \<open>
  Pushing at the back, for any copy callback and any answer of the allocator: the call is memory
  safe and keeps the invariant.
\<close>

lemma ring_push_back_total:
  assumes wf: "ring_wf s" and d: "growable s \<Longrightarrow> ring_can_double s"
  shows "\<exists>st s'. ring_push_back env s elem allow = Some (st, s') \<and> ring_wf s'"
proof (cases elem)
  case None
  with wf show ?thesis by (simp add: ring_push_back_def)
next
  case (Some e)
  from wf have c: "0 < rb_capacity s" "rb_count s \<le> rb_capacity s" by (auto elim: ring_wfE)
  consider (room) "rb_count s < rb_capacity s" | (grow) "rb_count s = rb_capacity s" "growable s"
    | (drop) "rb_count s = rb_capacity s" "\<not> growable s" "allow \<or> overwrites s"
    | (full) "rb_count s = rb_capacity s" "\<not> growable s" "\<not> allow" "\<not> overwrites s"
    using c by linarith
  then show ?thesis
  proof cases
    case room
    with ring_push_back_slot_ok [OF wf room, of e] Some c show ?thesis
      by (auto simp: ring_push_back_def)
  next
    case grow
    from ring_ensure_room_cases [OF wf grow d [OF grow(2)], of env] show ?thesis
    proof (elim disjE exE conjE)
      fix s' assume s': "ring_ensure_room env s = Some (Ok, s')" "ring_wf s'"
        "rb_capacity s' = 2 * rb_capacity s" "rb_count s' = rb_count s"
      then have "rb_count s' < rb_capacity s'" using c grow by simp
      from ring_push_back_slot_ok [OF s'(2) this, of e] s' grow Some c show ?thesis
        by (auto simp: ring_push_back_def)
    next
      fix st assume "st \<noteq> Ok" "ring_ensure_room env s = Some (st, s)"
      with grow Some c wf show ?thesis by (simp add: ring_push_back_def)
    qed
  next
    case drop
    then have "0 < rb_count s" using c by simp
    from ring_drop_front_ok [OF wf this] obtain s' where s': "ring_drop_front s = Some s'"
      "ring_wf s'" "rb_count s' = rb_count s - 1" "rb_capacity s' = rb_capacity s"
      by (auto simp: ring_frame_def)
    then have "rb_count s' < rb_capacity s'" using c drop by simp
    from ring_push_back_slot_ok [OF s'(2) this, of e] s' drop Some c show ?thesis
      by (auto simp: ring_push_back_def)
  next
    case full
    with Some wf c show ?thesis by (simp add: ring_push_back_def)
  qed
qed

text \<open>What a push at the back does, when copies succeed and growing is granted.\<close>

lemma ring_push_back_effect:
  assumes wf: "ring_wf s" and f: "faithful (rb_policy s)"
    and g: "rb_count s = rb_capacity s \<Longrightarrow> growable s \<Longrightarrow>
      ring_can_double s \<and> ring_can_grow env s (2 * rb_capacity s)"
  shows "\<exists>st s'. ring_push_back env s (Some e) allow = Some (st, s') \<and> ring_wf s' \<and>
    rb_policy s' = rb_policy s \<and> rb_flags s' = rb_flags s \<and>
    (if rb_count s < rb_capacity s \<or> growable s
     then st = Ok \<and> ring_contents s' = ring_contents s @ [e]
     else if allow \<or> overwrites s
     then st = Ok \<and> ring_contents s' = tl (ring_contents s) @ [e] \<and> rb_capacity s' = rb_capacity s \<and>
       rb_destroyed s' = destroy (rb_policy s) (hd (ring_contents s)) (rb_destroyed s)
     else st = Full \<and> s' = s)"
proof -
  from wf have c: "0 < rb_capacity s" "rb_count s \<le> rb_capacity s" by (auto elim: ring_wfE)
  have slot: "\<exists>s2. ring_push_back_slot s1 e = Some (Ok, s2) \<and> ring_wf s2 \<and> ring_frame s1 s2 \<and>
      ring_contents s2 = ring_contents s1 @ [e] \<and> rb_destroyed s2 = rb_destroyed s1"
    if "ring_wf s1" "rb_count s1 < rb_capacity s1" "rb_policy s1 = rb_policy s" for s1
    using ring_push_back_slot_ok [OF that(1,2), of e] f that(3) by auto
  consider (room) "rb_count s < rb_capacity s" | (grow) "rb_count s = rb_capacity s" "growable s"
    | (drop) "rb_count s = rb_capacity s" "\<not> growable s" "allow \<or> overwrites s"
    | (full) "rb_count s = rb_capacity s" "\<not> growable s" "\<not> allow" "\<not> overwrites s"
    using c by linarith
  then show ?thesis
  proof cases
    case room
    with slot [OF wf room] c show ?thesis by (auto simp: ring_push_back_def ring_frame_def)
  next
    case grow
    from ring_ensure_room_cases [OF wf grow, of env] g [OF grow] obtain s1 where
      s1: "ring_ensure_room env s = Some (Ok, s1)" "ring_wf s1" "ring_contents s1 = ring_contents s"
        "rb_capacity s1 = 2 * rb_capacity s" "rb_count s1 = rb_count s" "rb_policy s1 = rb_policy s"
        "rb_flags s1 = rb_flags s"
      by auto
    with slot [of s1] c grow show ?thesis by (auto simp: ring_push_back_def ring_frame_def)
  next
    case drop
    then have "0 < rb_count s" using c by simp
    from ring_drop_front_ok [OF wf this] obtain s1 where s1: "ring_drop_front s = Some s1"
      "ring_wf s1" "rb_count s1 = rb_count s - 1" "ring_frame s s1"
      "ring_contents s1 = tl (ring_contents s)"
      "rb_destroyed s1 = destroy (rb_policy s) (hd (ring_contents s)) (rb_destroyed s)"
      by auto
    with slot [of s1] c drop show ?thesis by (auto simp: ring_push_back_def ring_frame_def)
  next
    case full
    with wf c show ?thesis by (simp add: ring_push_back_def)
  qed
qed

text \<open>Pushing at the front.\<close>

lemma ring_push_front_effect:
  assumes wf: "ring_wf s" and f: "faithful (rb_policy s)"
    and g: "rb_count s = rb_capacity s \<Longrightarrow> growable s \<Longrightarrow>
      ring_can_double s \<and> ring_can_grow env s (2 * rb_capacity s)"
  shows "\<exists>st s'. ring_push_front env s (Some e) = Some (st, s') \<and> ring_wf s' \<and>
    rb_policy s' = rb_policy s \<and> rb_flags s' = rb_flags s \<and>
    (if rb_count s < rb_capacity s \<or> growable s
     then st = Ok \<and> ring_contents s' = e # ring_contents s
     else if overwrites s
     then st = Ok \<and> ring_contents s' = e # butlast (ring_contents s) \<and> rb_capacity s' = rb_capacity s \<and>
       rb_destroyed s' = destroy (rb_policy s) (last (ring_contents s)) (rb_destroyed s)
     else st = Full \<and> s' = s)"
proof -
  from wf have c: "0 < rb_capacity s" "rb_count s \<le> rb_capacity s" by (auto elim: ring_wfE)
  have slot: "\<exists>s2. ring_push_front_slot s1 e = Some (Ok, s2) \<and> ring_wf s2 \<and> ring_frame s1 s2 \<and>
      ring_contents s2 = e # ring_contents s1 \<and> rb_destroyed s2 = rb_destroyed s1"
    if "ring_wf s1" "rb_count s1 < rb_capacity s1" "rb_policy s1 = rb_policy s" for s1
    using ring_push_front_slot_ok [OF that(1,2), of e] f that(3) by auto
  consider (room) "rb_count s < rb_capacity s" | (grow) "rb_count s = rb_capacity s" "growable s"
    | (drop) "rb_count s = rb_capacity s" "\<not> growable s" "overwrites s"
    | (full) "rb_count s = rb_capacity s" "\<not> growable s" "\<not> overwrites s"
    using c by linarith
  then show ?thesis
  proof cases
    case room
    with slot [OF wf room] c show ?thesis by (auto simp: ring_push_front_def ring_frame_def)
  next
    case grow
    from ring_ensure_room_cases [OF wf grow, of env] g [OF grow] obtain s1 where
      s1: "ring_ensure_room env s = Some (Ok, s1)" "ring_wf s1" "ring_contents s1 = ring_contents s"
        "rb_capacity s1 = 2 * rb_capacity s" "rb_count s1 = rb_count s" "rb_policy s1 = rb_policy s"
        "rb_flags s1 = rb_flags s"
      by auto
    with slot [of s1] c grow show ?thesis by (auto simp: ring_push_front_def ring_frame_def)
  next
    case drop
    then have "0 < rb_count s" using c by simp
    from ring_drop_back_ok [OF wf this] obtain s1 where s1: "ring_drop_back s = Some s1"
      "ring_wf s1" "rb_count s1 = rb_count s - 1" "ring_frame s s1"
      "ring_contents s1 = butlast (ring_contents s)"
      "rb_destroyed s1 = destroy (rb_policy s) (last (ring_contents s)) (rb_destroyed s)"
      by auto
    with slot [of s1] c drop show ?thesis by (auto simp: ring_push_front_def ring_frame_def)
  next
    case full
    with wf c show ?thesis by (simp add: ring_push_front_def)
  qed
qed

section \<open>Popping\<close>

text \<open>The destructor calls of taking an element out of a slot.\<close>

definition ring_extract_trace :: "'e elem_policy \<Rightarrow> bool \<Rightarrow> bool \<Rightarrow> 'e \<Rightarrow> 'e list \<Rightarrow> 'e list" where
  "ring_extract_trace p has_out move_out v tr =
     (if \<not> has_out then destroy p v tr
      else if \<not> ep_runtime p \<and> move_out then destroy p (ep_moved p v) tr
      else tr)"

definition ring_extract_result :: "'e elem_policy \<Rightarrow> 'e option \<Rightarrow> 'e \<Rightarrow> status \<times> 'e option" where
  "ring_extract_result p out v =
     (case out of None \<Rightarrow> (Ok, None) | Some d \<Rightarrow> map_prod id Some (copy_construct p d v))"

lemma ring_extract_result_faithful [simp]:
  "faithful p \<Longrightarrow> ring_extract_result p out v = (Ok, map_option (\<lambda>_. v) out)"
  by (simp add: ring_extract_result_def split: option.splits)

lemma ring_extract_slot_eq:
  assumes "rb_storage s = Some xs" "slot < length xs"
  defines "p \<equiv> rb_policy s" and "v \<equiv> xs ! slot"
  shows "ring_extract_slot s slot out move_out =
    (let (st, out') = ring_extract_result p out v in
     Some (st, out', s\<lparr>
       rb_storage := Some (if out \<noteq> None \<and> \<not> ep_runtime p \<and> move_out
         then xs[slot := ep_moved p v] else xs),
       rb_destroyed := ring_extract_trace p (out \<noteq> None) move_out v (rb_destroyed s)\<rparr>))"
  using assms
  by (cases out; cases "copy_construct p (the out) v"; cases s)
     (auto simp: ring_extract_slot_def ring_extract_result_def ring_extract_trace_def
       ring_destroy_slot_def needs_destroy_on_clear_def copy_construct_def ring_storage_same
       split: option.splits)

lemma ring_pop_front_effect:
  assumes wf: "ring_wf s" and f: "faithful (rb_policy s)"
  shows "\<exists>st out' s'. ring_pop_front s out move_out = Some (st, out', s') \<and> ring_wf s' \<and>
    ring_frame s s' \<and>
    (if ring_contents s = [] then st = Empty \<and> out' = out \<and> s' = s
     else st = Ok \<and> out' = map_option (\<lambda>_. hd (ring_contents s)) out \<and>
       ring_contents s' = tl (ring_contents s) \<and>
       rb_destroyed s' = ring_extract_trace (rb_policy s) (out \<noteq> None) move_out
         (hd (ring_contents s)) (rb_destroyed s))"
proof (cases "rb_count s")
  case 0
  with wf length_ring_contents [OF wf] show ?thesis
    by (simp add: ring_pop_front_def ring_empty_def ring_frame_def)
next
  case (Suc n)
  from wf obtain xs where xs: "rb_storage s = Some xs" "0 < rb_capacity s" "rb_capacity s \<le> length xs"
    "rb_capacity s + rb_capacity s < SIZE_MAX" "rb_tail s < rb_capacity s" "rb_count s \<le> rb_capacity s"
    "rb_head s = (rb_tail s + rb_count s) mod rb_capacity s"
    by (rule ring_wfE)
  let ?c = "rb_capacity s" and ?t = "rb_tail s" and ?p = "rb_policy s"
  have hd: "hd (ring_contents s) = xs ! ?t" "ring_contents s \<noteq> []"
    using xs Suc by (simp_all add: ring_items_Suc)
  define ys where "ys = (if out \<noteq> None \<and> \<not> ep_runtime ?p \<and> move_out
    then xs[?t := ep_moved ?p (xs ! ?t)] else xs)"
  define s' where "s' = s\<lparr>rb_storage := Some ys,
      rb_destroyed := ring_extract_trace ?p (out \<noteq> None) move_out (xs ! ?t) (rb_destroyed s),
      rb_tail := (?t + 1) mod ?c, rb_count := n\<rparr>"
  have len: "length ys = length xs" by (simp add: ys_def)
  have "ring_pop_front s out move_out = Some (Ok, map_option (\<lambda>_. xs ! ?t) out, s')"
    using xs Suc f
    by (simp add: ring_pop_front_def ring_empty_def ring_extract_slot_eq ring_advance_eq sz_sub_eq
        s'_def ys_def)
  moreover have "ring_wf s'"
    using xs Suc len ring_wf_PTRDIFF [OF wf]
    by (intro ring_wfI [of _ ys]) (simp_all add: s'_def mod_add_left_eq)
  moreover have "ring_contents s' = tl (ring_contents s)"
  proof -
    have "?t = (Suc ?t + (?c - 1)) mod ?c" using xs by simp
    then have "ring_items ys (Suc ?t) ?c n = ring_items xs (Suc ?t) ?c n"
      using ring_items_outside [of n "?c - 1" ?c xs "Suc ?t"] Suc xs(6) by (simp add: ys_def)
    then show ?thesis
      using xs Suc by (simp add: s'_def ring_items_mod ring_items_Suc)
  qed
  ultimately show ?thesis
    using hd by (intro exI [of _ Ok] exI [of _ "map_option (\<lambda>_. xs ! ?t) out"] exI [of _ s'])
      (simp add: s'_def ring_frame_def del: ring_contents_storage)
qed

lemma ring_pop_back_effect:
  assumes wf: "ring_wf s" and f: "faithful (rb_policy s)"
  shows "\<exists>st out' s'. ring_pop_back s out move_out = Some (st, out', s') \<and> ring_wf s' \<and>
    ring_frame s s' \<and>
    (if ring_contents s = [] then st = Empty \<and> out' = out \<and> s' = s
     else st = Ok \<and> out' = map_option (\<lambda>_. last (ring_contents s)) out \<and>
       ring_contents s' = butlast (ring_contents s) \<and>
       rb_destroyed s' = ring_extract_trace (rb_policy s) (out \<noteq> None) move_out
         (last (ring_contents s)) (rb_destroyed s))"
proof (cases "rb_count s")
  case 0
  with wf length_ring_contents [OF wf] show ?thesis
    by (simp add: ring_pop_back_def ring_empty_def ring_frame_def)
next
  case (Suc n)
  from wf obtain xs where xs: "rb_storage s = Some xs" "0 < rb_capacity s" "rb_capacity s \<le> length xs"
    "rb_capacity s + rb_capacity s < SIZE_MAX" "rb_tail s < rb_capacity s" "rb_count s \<le> rb_capacity s"
    "rb_head s = (rb_tail s + rb_count s) mod rb_capacity s"
    by (rule ring_wfE)
  let ?c = "rb_capacity s" and ?p = "rb_policy s"
  define h where "h = (rb_tail s + n) mod ?c"
  have h: "ring_retreat s (rb_head s) = Some h" "h < length xs"
    using ring_retreat_head [OF wf Suc] xs by (auto simp: h_def intro!: mod_less_le)
  have last: "last (ring_contents s) = xs ! h" "ring_contents s \<noteq> []"
    using xs Suc by (simp_all add: ring_items_last h_def ring_items_Suc del: ring_items_Suc)
      (simp add: ring_items_def)
  define ys where "ys = (if out \<noteq> None \<and> \<not> ep_runtime ?p \<and> move_out
    then xs[h := ep_moved ?p (xs ! h)] else xs)"
  define s' where "s' = s\<lparr>rb_head := h, rb_storage := Some ys,
      rb_destroyed := ring_extract_trace ?p (out \<noteq> None) move_out (xs ! h) (rb_destroyed s),
      rb_count := n\<rparr>"
  have len: "length ys = length xs" by (simp add: ys_def)
  have "ring_pop_back s out move_out = Some (Ok, map_option (\<lambda>_. xs ! h) out, s')"
    using xs(1-4,6) Suc f h
    by (simp add: ring_pop_back_def ring_empty_def ring_extract_slot_eq sz_sub_eq s'_def ys_def)
  moreover have "ring_wf s'"
    using xs Suc len ring_wf_PTRDIFF [OF wf]
    by (intro ring_wfI [of _ ys]) (simp_all add: s'_def h_def)
  moreover have "ring_contents s' = butlast (ring_contents s)"
  proof -
    have "ring_items ys (rb_tail s) ?c n = ring_items xs (rb_tail s) ?c n"
      using ring_items_outside [of n n ?c xs "rb_tail s"] Suc xs(6) by (simp add: ys_def h_def)
    then show ?thesis
      using xs Suc ring_items_butlast [of xs "rb_tail s" ?c n] by (simp add: s'_def)
  qed
  ultimately show ?thesis
    using last by (intro exI [of _ Ok] exI [of _ "map_option (\<lambda>_. xs ! h) out"] exI [of _ s'])
      (simp add: s'_def ring_frame_def del: ring_contents_storage)
qed

text \<open>A copy callback that refuses leaves the ring as it was: the element is not lost.\<close>

lemma ring_pop_front_refused:
  assumes wf: "ring_wf s" and ne: "ring_contents s \<noteq> []" and rt: "ep_runtime (rb_policy s)"
    and cp: "copy_construct (rb_policy s) d (hd (ring_contents s)) = (st, d')" and st: "st \<noteq> Ok"
  shows "ring_pop_front s (Some d) move_out = Some (st, Some d', s)"
proof -
  from wf obtain xs where xs: "rb_storage s = Some xs" "0 < rb_capacity s" "rb_capacity s \<le> length xs"
    "rb_tail s < rb_capacity s"
    by (rule ring_wfE)
  obtain n where n: "rb_count s = Suc n" using ne xs by (cases "rb_count s") auto
  with xs have "hd (ring_contents s) = xs ! rb_tail s" by (simp add: ring_items_Suc)
  with xs n rt cp st show ?thesis
    by (simp add: ring_pop_front_def ring_empty_def ring_extract_slot_def)
qed

section \<open>Looking and overwriting\<close>

lemma ring_peek_at_effect:
  assumes wf: "ring_wf s"
  shows "ring_peek_at s i out =
    Some (if out = None then (Null_ptr, out)
          else if length (ring_contents s) \<le> i then (Invalid, out)
          else (Ok, Some (ring_contents s ! i)))"
proof -
  from wf obtain xs where xs: "rb_storage s = Some xs" "0 < rb_capacity s" "rb_capacity s \<le> length xs"
    "rb_capacity s + rb_capacity s < SIZE_MAX" "rb_tail s < rb_capacity s" "rb_count s \<le> rb_capacity s"
    by (rule ring_wfE)
  have "(rb_tail s + i) mod rb_capacity s < length xs" using xs by (intro mod_less_le)
  with xs show ?thesis
    by (auto simp: ring_peek_at_def ring_logical_index_eq)
qed

lemma ring_peek_ends:
  assumes wf: "ring_wf s" and ne: "ring_contents s \<noteq> []"
  shows "ring_peek_front s (Some d) = Some (Ok, Some (hd (ring_contents s)))"
    "ring_peek_back s (Some d) = Some (Ok, Some (last (ring_contents s)))"
proof -
  from wf obtain xs where xs: "rb_storage s = Some xs" "0 < rb_capacity s" "rb_capacity s \<le> length xs"
    "rb_tail s < rb_capacity s"
    by (rule ring_wfE)
  obtain n where n: "rb_count s = Suc n" using ne xs by (cases "rb_count s") auto
  have "(rb_tail s + n) mod rb_capacity s < length xs" using xs by (intro mod_less_le)
  moreover have "last (ring_contents s) = xs ! ((rb_tail s + n) mod rb_capacity s)"
    using xs n by (simp add: ring_items_last)
  moreover have "hd (ring_contents s) = xs ! rb_tail s" using xs n by (simp add: ring_items_Suc)
  ultimately show "ring_peek_front s (Some d) = Some (Ok, Some (hd (ring_contents s)))"
    "ring_peek_back s (Some d) = Some (Ok, Some (last (ring_contents s)))"
    using xs n ring_retreat_head [OF wf n]
    by (simp_all add: ring_peek_front_def ring_peek_back_def ring_empty_def del: ring_contents_storage)
qed

lemma ring_set_at_effect:
  assumes wf: "ring_wf s" and f: "faithful (rb_policy s)"
  shows "\<exists>s'. ring_set_at s i (Some e) = Some (if i < length (ring_contents s) then Ok else Invalid, s') \<and>
    ring_wf s' \<and> ring_frame s s' \<and> ring_contents s' = (ring_contents s)[i := e]"
proof (cases "i < rb_count s")
  case False
  with wf length_ring_contents [OF wf] show ?thesis
    by (simp add: ring_set_at_def ring_frame_def list_update_beyond)
next
  case True
  from wf obtain xs where xs: "rb_storage s = Some xs" "0 < rb_capacity s" "rb_capacity s \<le> length xs"
    "rb_capacity s + rb_capacity s < SIZE_MAX" "rb_tail s < rb_capacity s" "rb_count s \<le> rb_capacity s"
    "rb_head s = (rb_tail s + rb_count s) mod rb_capacity s"
    by (rule ring_wfE)
  let ?slot = "(rb_tail s + i) mod rb_capacity s"
  define s' where "s' = s\<lparr>rb_storage := Some (xs[?slot := e])\<rparr>"
  have slot: "?slot < length xs" using xs by (intro mod_less_le)
  then have "ring_set_at s i (Some e) = Some (Ok, s')"
    using xs True f by (simp add: ring_set_at_def ring_logical_index_eq s'_def)
  moreover have "ring_wf s'"
    using xs ring_wf_PTRDIFF [OF wf]
    by (intro ring_wfI [of _ "xs[?slot := e]"]) (simp_all add: s'_def)
  moreover have "ring_contents s' = (ring_contents s)[i := e]"
    using xs True ring_items_update [of i "rb_count s" "rb_capacity s" xs "rb_tail s" e]
    by (simp add: s'_def)
  ultimately show ?thesis
    using True length_ring_contents [OF wf]
    by (intro exI [of _ s']) (simp add: s'_def ring_frame_def del: ring_contents_storage)
qed

lemma ring_foreach_loop_eq:
  assumes "rb_storage s = Some xs" "0 < rb_capacity s" "rb_capacity s \<le> length xs"
    "rb_tail s + i + n \<le> SIZE_MAX"
  shows "ring_foreach_loop visit s i n w =
    Some (visit_list visit i (ring_items xs (rb_tail s + i) (rb_capacity s) n) w)"
  using assms
proof (induction n arbitrary: i w)
  case (Suc n)
  have "(rb_tail s + i) mod rb_capacity s < length xs"
    using Suc.prems by (intro mod_less_le) simp_all
  with Suc show ?case
    by (auto simp: ring_logical_index_eq ring_items_Suc split: prod.splits)
qed simp

lemma ring_foreach_eq:
  assumes wf: "ring_wf s"
  shows "ring_foreach visit s w = Some (visit_list visit 0 (ring_contents s) w)"
proof -
  from wf obtain xs where xs: "rb_storage s = Some xs" "0 < rb_capacity s" "rb_capacity s \<le> length xs"
    "rb_capacity s + rb_capacity s < SIZE_MAX" "rb_tail s < rb_capacity s" "rb_count s \<le> rb_capacity s"
    by (rule ring_wfE)
  then show ?thesis
    using ring_foreach_loop_eq [of s xs 0 "rb_count s" visit w] by (simp add: ring_foreach_def)
qed

section \<open>Clearing and bulk commits\<close>

lemma ring_clear_effect:
  assumes wf: "ring_wf s"
  shows "\<exists>s'. ring_clear s = Some s' \<and> ring_wf s' \<and> ring_frame s s' \<and> ring_contents s' = [] \<and>
    rb_destroyed s' = rb_destroyed s @ (if ep_destroy (rb_policy s) then ring_contents s else [])"
proof (cases "rb_count s = 0")
  case True
  with wf length_ring_contents [OF wf] show ?thesis
    by (simp add: ring_clear_def ring_frame_def)
next
  case False
  from wf obtain xs where xs: "rb_storage s = Some xs" "0 < rb_capacity s" "rb_capacity s \<le> length xs"
    "rb_capacity s + rb_capacity s < SIZE_MAX" "rb_tail s < rb_capacity s" "rb_count s \<le> rb_capacity s"
    by (rule ring_wfE)
  define s' where "s' = s\<lparr>rb_destroyed := rb_destroyed s @
      (if ep_destroy (rb_policy s) then ring_contents s else []), rb_head := 0, rb_tail := 0, rb_count := 0\<rparr>"
  have "ring_clear s = Some s'"
    using xs False ring_destroy_loop_eq [of s xs 0 "rb_count s"]
    by (auto simp: ring_clear_def needs_destroy_on_clear_def s'_def)
  moreover have "ring_wf s'"
    using xs ring_wf_PTRDIFF [OF wf] by (intro ring_wfI [of _ xs]) (simp_all add: s'_def)
  ultimately show ?thesis
    using xs(1) by (intro exI [of _ s']) (simp add: s'_def ring_frame_def)
qed

text \<open>\<open>commit_read n\<close> drops the oldest \<open>n\<close> elements (all of them when there are fewer).\<close>

lemma ring_commit_read_effect:
  assumes wf: "ring_wf s"
  shows "\<exists>s'. ring_commit_read s n = Some s' \<and> ring_wf s' \<and> ring_frame s s' \<and>
    ring_contents s' = drop n (ring_contents s) \<and>
    rb_destroyed s' = rb_destroyed s @
      (if ep_destroy (rb_policy s) then take n (ring_contents s) else [])"
proof (cases "n = 0 \<or> rb_count s = 0")
  case True
  with wf length_ring_contents [OF wf] show ?thesis
    by (auto simp: ring_commit_read_def ring_empty_def ring_frame_def)
next
  case False
  from wf obtain xs where xs: "rb_storage s = Some xs" "0 < rb_capacity s" "rb_capacity s \<le> length xs"
    "rb_capacity s + rb_capacity s < SIZE_MAX" "rb_tail s < rb_capacity s" "rb_count s \<le> rb_capacity s"
    "rb_head s = (rb_tail s + rb_count s) mod rb_capacity s"
    by (rule ring_wfE)
  let ?c = "rb_capacity s" and ?t = "rb_tail s"
  define m where "m = min n (rb_count s)"
  have m: "(if n > rb_count s then rb_count s else n) = m" "m \<le> rb_count s"
    by (auto simp: m_def)
  have tk: "ring_items xs ?t ?c m = take n (ring_contents s)"
    using xs(1) by (intro nth_equalityI) (simp_all add: m_def)
  define s' where "s' = s\<lparr>rb_destroyed := rb_destroyed s @
      (if ep_destroy (rb_policy s) then take n (ring_contents s) else []),
      rb_tail := (?t + m) mod ?c, rb_count := rb_count s - m\<rparr>"
  have "ring_commit_read s n = Some s'"
    using xs False m ring_destroy_loop_eq [of s xs 0 m] tk
    by (auto simp: ring_commit_read_def ring_empty_def needs_destroy_on_clear_def s'_def
        ring_advance_eq sz_sub_eq Let_def)
  moreover have "((?t + m) mod ?c + (rb_count s - m)) mod ?c = (?t + m + (rb_count s - m)) mod ?c"
    by (rule mod_add_left_eq)
  then have head: "rb_head s' = (rb_tail s' + rb_count s') mod ?c"
    using m(2) xs(7) by (simp add: s'_def)
  have "ring_wf s'"
    by (rule ring_wfI [of _ xs]) (use xs(1-6) head ring_wf_PTRDIFF [OF wf] in \<open>simp_all add: s'_def\<close>)
  moreover have "ring_contents s' = drop n (ring_contents s)"
    using xs(1) m(2) ring_items_drop [of m "rb_count s" xs ?t ?c]
    by (simp add: s'_def m_def min_def)
  ultimately show ?thesis
    using xs(1) by (intro exI [of _ s']) (simp add: s'_def ring_frame_def)
qed

text \<open>
  \<open>commit_write n\<close> makes the next \<open>n\<close> slots live, at most the free ones; the elements are what
  the caller stored there.
\<close>

lemma ring_commit_write_effect:
  assumes wf: "ring_wf s"
  shows "\<exists>s' ys. ring_commit_write s n = Some s' \<and> ring_wf s' \<and> ring_frame s s' \<and>
    ring_contents s' = ring_contents s @ ys \<and> length ys = min n (rb_capacity s - rb_count s)"
proof (cases "n = 0")
  case True
  with wf show ?thesis
    by (intro exI [of _ s] exI [of _ "[]"]) (simp add: ring_commit_write_def ring_frame_def)
next
  case False
  from wf obtain xs where xs: "rb_storage s = Some xs" "0 < rb_capacity s" "rb_capacity s \<le> length xs"
    "rb_capacity s + rb_capacity s < SIZE_MAX" "rb_tail s < rb_capacity s" "rb_count s \<le> rb_capacity s"
    "rb_head s = (rb_tail s + rb_count s) mod rb_capacity s" "rb_head s < rb_capacity s"
    by (rule ring_wfE)
  let ?c = "rb_capacity s" and ?t = "rb_tail s"
  define m where "m = min n (?c - rb_count s)"
  have m: "(if n > ?c - rb_count s then ?c - rb_count s else n) = m" "m \<le> ?c - rb_count s"
    by (auto simp: m_def)
  define s' where "s' = s\<lparr>rb_head := (rb_head s + m) mod ?c, rb_count := rb_count s + m\<rparr>"
  have "ring_commit_write s n = Some s'"
    using xs(1-4,6,8) False m
    by (simp add: ring_commit_write_def sz_sub_eq sz_add_eq ring_advance_eq Let_def s'_def)
  moreover have "((?t + rb_count s) mod ?c + m) mod ?c = (?t + (rb_count s + m)) mod ?c"
    by (simp only: mod_add_left_eq add.assoc)
  then have head: "rb_head s' = (rb_tail s' + rb_count s') mod ?c"
    using xs(7) by (simp add: s'_def)
  have "ring_wf s'"
    by (rule ring_wfI [of _ xs])
      (use xs(1-6) m(2) head ring_wf_PTRDIFF [OF wf] in \<open>simp_all add: s'_def\<close>)
  moreover have "ring_contents s' =
      ring_contents s @ map (\<lambda>i. xs ! ((?t + i) mod ?c)) [rb_count s..<rb_count s + m]"
    using xs(1) by (simp add: s'_def ring_items_def upt_add_eq_append [of 0 "rb_count s" m])
  ultimately show ?thesis
    by (intro exI [of _ s']
        exI [of _ "map (\<lambda>i. xs ! ((?t + i) mod ?c)) [rb_count s..<rb_count s + m]"])
      (simp add: s'_def ring_frame_def m_def)
qed

end
