(* ===== verification/Contracts.thy ===== *)
theory Contracts
  imports Growable
begin

text \<open>
  The interfaces the containers share, as locales: a bounded FIFO queue (Ring, SPSC queue), a
  bounded stack (Vector, Ring), a finite map (hash map, flat map) and a three-way comparison. Each
  states what an operation promises on the abstract value of the container; what follows for
  whole runs of operations is proved once here and reached by the containers through their
  interpretations.

  The locales take the container's invariant \<open>inv\<close>, its abstraction and its operations; an
  operation is a function into \<open>option\<close> as everywhere (\<open>None\<close> is undefined behaviour).
\<close>

section \<open>Bounded FIFO queues\<close>

datatype 'e queue_cmd = Push 'e | Pop

text \<open>
  Running a list of commands on an implementation: the result of each, in order, and the last state.
\<close>

fun queue_run ::
  "('s \<Rightarrow> 'e \<Rightarrow> (status \<times> 's) option) \<Rightarrow> ('s \<Rightarrow> (status \<times> 'e option \<times> 's) option) \<Rightarrow>
   's \<Rightarrow> 'e queue_cmd list \<Rightarrow> ((status \<times> 'e option) list \<times> 's) option" where
  "queue_run push pop s [] = Some ([], s)"
| "queue_run push pop s (Push e # cs) = do {
     (st, s') \<leftarrow> push s e;
     (rs, s'') \<leftarrow> queue_run push pop s' cs;
     Some ((st, None) # rs, s'')
   }"
| "queue_run push pop s (Pop # cs) = do {
     (st, v, s') \<leftarrow> pop s;
     (rs, s'') \<leftarrow> queue_run push pop s' cs;
     Some ((st, if st = Ok then v else None) # rs, s'')
   }"

text \<open>The abstract queue of at most \<open>cap\<close> elements, and the abstract stack.\<close>

fun fifo_spec :: "nat \<Rightarrow> 'e list \<Rightarrow> 'e queue_cmd list \<Rightarrow> (status \<times> 'e option) list \<times> 'e list" where
  "fifo_spec cap q [] = ([], q)"
| "fifo_spec cap q (Push e # cs) =
     (if length q < cap
      then (let (rs, q') = fifo_spec cap (q @ [e]) cs in ((Ok, None) # rs, q'))
      else (let (rs, q') = fifo_spec cap q cs in ((Full, None) # rs, q')))"
| "fifo_spec cap q (Pop # cs) =
     (case q of
        [] \<Rightarrow> (let (rs, q') = fifo_spec cap [] cs in ((Empty, None) # rs, q'))
      | x # xs \<Rightarrow> (let (rs, q') = fifo_spec cap xs cs in ((Ok, Some x) # rs, q')))"

fun lifo_spec :: "nat \<Rightarrow> 'e list \<Rightarrow> 'e queue_cmd list \<Rightarrow> (status \<times> 'e option) list \<times> 'e list" where
  "lifo_spec cap q [] = ([], q)"
| "lifo_spec cap q (Push e # cs) =
     (if length q < cap
      then (let (rs, q') = lifo_spec cap (q @ [e]) cs in ((Ok, None) # rs, q'))
      else (let (rs, q') = lifo_spec cap q cs in ((Full, None) # rs, q')))"
| "lifo_spec cap q (Pop # cs) =
     (if q = [] then (let (rs, q') = lifo_spec cap [] cs in ((Empty, None) # rs, q'))
      else (let (rs, q') = lifo_spec cap (butlast q) cs in ((Ok, Some (last q)) # rs, q')))"

locale bounded_buffer =
  fixes inv :: "'s \<Rightarrow> bool"
    and items :: "'s \<Rightarrow> 'e list"
    and cap :: "'s \<Rightarrow> nat"
    and push :: "'s \<Rightarrow> 'e \<Rightarrow> (status \<times> 's) option"
    and pop :: "'s \<Rightarrow> (status \<times> 'e option \<times> 's) option"
  assumes push_room: "inv s \<Longrightarrow> length (items s) < cap s \<Longrightarrow>
      \<exists>s'. push s e = Some (Ok, s') \<and> inv s' \<and> items s' = items s @ [e] \<and> cap s' = cap s"
    and push_full: "inv s \<Longrightarrow> cap s \<le> length (items s) \<Longrightarrow> push s e = Some (Full, s)"
    and pop_empty: "inv s \<Longrightarrow> items s = [] \<Longrightarrow> \<exists>v. pop s = Some (Empty, v, s)"
begin

text \<open>A push is memory safe, never fails for another reason than a full buffer and keeps the bound.\<close>

lemma push_total:
  assumes "inv s" "length (items s) \<le> cap s"
  shows "\<exists>st s'. push s e = Some (st, s') \<and> inv s' \<and> length (items s') \<le> cap s' \<and>
    (st = Ok \<longleftrightarrow> length (items s) < cap s)"
proof (cases "length (items s) < cap s")
  case True
  with push_room [OF assms(1) True, of e] show ?thesis by auto
next
  case False
  with push_full [of s e] assms show ?thesis by auto
qed

lemma push_within: "inv s \<Longrightarrow> push s e = Some (st, s') \<Longrightarrow> inv s' \<and> cap s' = cap s"
  using push_room [of s e] push_full [of s e] by (cases "length (items s) < cap s") auto

end

locale bounded_fifo = bounded_buffer +
  assumes pop_first: "inv s \<Longrightarrow> items s = x # xs \<Longrightarrow>
      \<exists>s'. pop s = Some (Ok, Some x, s') \<and> inv s' \<and> items s' = xs \<and> cap s' = cap s"
begin

text \<open>Every run of pushes and pops gives the results of the abstract queue.\<close>

lemma run_refines:
  assumes "inv s"
  shows "\<exists>s'. queue_run push pop s cs = Some (fst (fifo_spec (cap s) (items s) cs), s') \<and>
    inv s' \<and> items s' = snd (fifo_spec (cap s) (items s) cs) \<and> cap s' = cap s"
  using assms
proof (induction cs arbitrary: s)
  case (Cons c cs)
  show ?case
  proof (cases c)
    case (Push e)
    show ?thesis
    proof (cases "length (items s) < cap s")
      case True
      from push_room [OF Cons.prems True, of e] obtain s1 where s1: "push s e = Some (Ok, s1)" "inv s1"
        "items s1 = items s @ [e]" "cap s1 = cap s" by auto
      with Cons.IH [OF s1(2)] Push True show ?thesis by (auto simp: split_beta)
    next
      case False
      with push_full [OF Cons.prems, of e] Cons.IH [OF Cons.prems] Push show ?thesis
        by (auto simp: split_beta)
    qed
  next
    case Pop
    show ?thesis
    proof (cases "items s")
      case Nil
      with pop_empty [OF Cons.prems] Cons.IH [OF Cons.prems] Pop show ?thesis
        by (auto simp: split_beta)
    next
      case (Cons x xs)
      from pop_first [OF Cons.prems Cons] obtain s1 where s1: "pop s = Some (Ok, Some x, s1)" "inv s1"
        "items s1 = xs" "cap s1 = cap s" by auto
      with Cons.IH [OF s1(2)] Pop Cons show ?thesis by (auto simp: split_beta)
    qed
  qed
qed simp

end

locale bounded_lifo = bounded_buffer +
  assumes pop_last: "inv s \<Longrightarrow> items s \<noteq> [] \<Longrightarrow>
      \<exists>s'. pop s = Some (Ok, Some (last (items s)), s') \<and> inv s' \<and> items s' = butlast (items s) \<and>
        cap s' = cap s"
begin

lemma run_refines:
  assumes "inv s"
  shows "\<exists>s'. queue_run push pop s cs = Some (fst (lifo_spec (cap s) (items s) cs), s') \<and>
    inv s' \<and> items s' = snd (lifo_spec (cap s) (items s) cs) \<and> cap s' = cap s"
  using assms
proof (induction cs arbitrary: s)
  case (Cons c cs)
  show ?case
  proof (cases c)
    case (Push e)
    show ?thesis
    proof (cases "length (items s) < cap s")
      case True
      from push_room [OF Cons.prems True, of e] obtain s1 where s1: "push s e = Some (Ok, s1)" "inv s1"
        "items s1 = items s @ [e]" "cap s1 = cap s" by auto
      with Cons.IH [OF s1(2)] Push True show ?thesis by (auto simp: split_beta)
    next
      case False
      with push_full [OF Cons.prems, of e] Cons.IH [OF Cons.prems] Push show ?thesis
        by (auto simp: split_beta)
    qed
  next
    case Pop
    show ?thesis
    proof (cases "items s = []")
      case True
      with pop_empty [OF Cons.prems] Cons.IH [OF Cons.prems] Pop show ?thesis
        by (auto simp: split_beta)
    next
      case False
      from pop_last [OF Cons.prems False] obtain s1 where s1: "pop s = Some (Ok, Some (last (items s)), s1)"
        "inv s1" "items s1 = butlast (items s)" "cap s1 = cap s" by auto
      with Cons.IH [OF s1(2)] Pop False show ?thesis by (auto simp: split_beta)
    qed
  qed
qed simp

end

text \<open>The elements that come out of the abstract queue, with those left in it, are those that went in.\<close>

fun accepted :: "'e queue_cmd list \<Rightarrow> (status \<times> 'e option) list \<Rightarrow> 'e list" where
  "accepted (Push e # cs) ((st, v) # rs) = (if st = Ok then [e] else []) @ accepted cs rs"
| "accepted (Pop # cs) (r # rs) = accepted cs rs"
| "accepted _ _ = []"

fun delivered :: "(status \<times> 'e option) list \<Rightarrow> 'e list" where
  "delivered [] = []"
| "delivered ((st, v) # rs) = (case v of None \<Rightarrow> [] | Some x \<Rightarrow> [x]) @ delivered rs"

lemma fifo_spec_order:
  "q @ accepted cs (fst (fifo_spec cap q cs)) = delivered (fst (fifo_spec cap q cs)) @ snd (fifo_spec cap q cs)"
proof (induction cs arbitrary: q)
  case (Cons c cs)
  show ?case
    using Cons.IH [of q] Cons.IH [of "[]"] Cons.IH [of "tl q"] Cons.IH [of "q @ [the (case c of Push e \<Rightarrow> Some e | Pop \<Rightarrow> None)]"]
    by (cases c; cases q) (auto simp: split_beta)
qed simp

lemma fifo_spec_bound: "length q \<le> cap \<Longrightarrow> length (snd (fifo_spec cap q cs)) \<le> cap"
proof (induction cs arbitrary: q)
  case (Cons c cs)
  then show ?case by (cases c; cases q) (auto simp: split_beta)
qed simp

section \<open>Three-way comparison\<close>

text \<open>
  What the containers that order their elements rely on: the sign of \<open>cmp a b\<close> is that of a total
  preorder. \<open>carrier\<close> are the elements it is used on.
\<close>

locale three_way =
  fixes carrier :: "'e \<Rightarrow> bool" and cmp :: "'e \<Rightarrow> 'e \<Rightarrow> int"
  assumes cmp_swap: "carrier a \<Longrightarrow> carrier b \<Longrightarrow> cmp b a \<le> 0 \<longleftrightarrow> 0 \<le> cmp a b"
    and cmp_trans: "carrier a \<Longrightarrow> carrier b \<Longrightarrow> carrier c \<Longrightarrow>
      cmp a b \<le> 0 \<Longrightarrow> cmp b c \<le> 0 \<Longrightarrow> cmp a c \<le> 0"
begin

lemma cmp_refl: "carrier a \<Longrightarrow> cmp a a = 0"
  using cmp_swap [of a a] by linarith

lemma cmp_total: "carrier a \<Longrightarrow> carrier b \<Longrightarrow> cmp a b \<le> 0 \<or> cmp b a \<le> 0"
  using cmp_swap [of a b] by linarith

lemma cmp_zero_sym: "carrier a \<Longrightarrow> carrier b \<Longrightarrow> cmp a b = 0 \<longleftrightarrow> cmp b a = 0"
  using cmp_swap [of a b] cmp_swap [of b a] by linarith

lemma cmp_pos_swap: "carrier a \<Longrightarrow> carrier b \<Longrightarrow> 0 < cmp a b \<longleftrightarrow> cmp b a < 0"
  using cmp_swap [of b a] cmp_swap [of a b] by linarith

lemma cmp_less_trans:
  assumes "carrier a" "carrier b" "carrier c" "cmp a b < 0" "cmp b c \<le> 0"
  shows "cmp a c < 0"
proof (rule ccontr)
  assume "\<not> cmp a c < 0"
  then have "cmp c a \<le> 0" using assms(1,3) cmp_swap [of a c] by simp
  then have "cmp b a \<le> 0" using cmp_trans [of b c a] assms by simp
  with assms cmp_swap [of a b] show False by simp
qed

lemma cmp_le_less_trans:
  assumes "carrier a" "carrier b" "carrier c" "cmp a b \<le> 0" "cmp b c < 0"
  shows "cmp a c < 0"
proof (rule ccontr)
  assume "\<not> cmp a c < 0"
  then have "cmp c a \<le> 0" using assms(1,3) cmp_swap [of a c] by simp
  then have "cmp c b \<le> 0" using cmp_trans [of c a b] assms by simp
  with assms cmp_swap [of b c] show False by simp
qed

end

text \<open>A comparison functor that answers "less": a strict weak order.\<close>

locale strict_weak =
  fixes carrier :: "'e \<Rightarrow> bool" and lt :: "'e \<Rightarrow> 'e \<Rightarrow> bool"
  assumes less_asym: "carrier a \<Longrightarrow> carrier b \<Longrightarrow> lt a b \<Longrightarrow> \<not> lt b a"
    and not_less_trans: "carrier a \<Longrightarrow> carrier b \<Longrightarrow> carrier c \<Longrightarrow>
      \<not> lt a b \<Longrightarrow> \<not> lt b c \<Longrightarrow> \<not> lt a c"
begin

lemma less_irrefl: "carrier a \<Longrightarrow> \<not> lt a a"
  using less_asym [of a a] by blast

lemma not_less_total: "carrier a \<Longrightarrow> carrier b \<Longrightarrow> \<not> lt a b \<or> \<not> lt b a"
  using less_asym by blast

end

sublocale three_way \<subseteq> strict: strict_weak carrier "\<lambda>a b. cmp a b < 0"
proof unfold_locales
  fix a b c
  assume ab: "carrier a" "carrier b"
  show "\<not> cmp b a < 0" if "cmp a b < 0"
    using that cmp_pos_swap [OF ab(2,1)] by simp
  assume c: "carrier c"
  show "\<not> cmp a c < 0" if "\<not> cmp a b < 0" "\<not> cmp b c < 0"
    using that cmp_swap [of a b] cmp_swap [of b c] cmp_swap [of a c] cmp_trans [of c b a] ab c by simp
qed

interpretation typed_order: three_way "\<lambda>_ :: 'a :: linorder. True" type_compare
  by unfold_locales (auto simp: type_compare_def split: if_splits)

text \<open>\<open>runtime_compare\<close> without a callback compares the object representations, all of one size.\<close>

interpretation bytes_order: three_way
  "\<lambda>e. length (cmp_bytes c e) = n" "runtime_compare (c\<lparr>cmp_fn := None\<rparr>)" for c :: "'e compare_policy" and n
proof unfold_locales
  fix a b d :: 'e
  assume ab: "length (cmp_bytes c a) = n" "length (cmp_bytes c b) = n"
  then show "runtime_compare (c\<lparr>cmp_fn := None\<rparr>) b a \<le> 0 \<longleftrightarrow> 0 \<le> runtime_compare (c\<lparr>cmp_fn := None\<rparr>) a b"
    using memcmp_antisym [of "cmp_bytes c a" "cmp_bytes c b"] by (simp add: runtime_compare_def)
  assume "length (cmp_bytes c d) = n" "runtime_compare (c\<lparr>cmp_fn := None\<rparr>) a b \<le> 0"
    "runtime_compare (c\<lparr>cmp_fn := None\<rparr>) b d \<le> 0"
  with ab show "runtime_compare (c\<lparr>cmp_fn := None\<rparr>) a d \<le> 0"
    using memcmp_trans [of "cmp_bytes c a" "cmp_bytes c b" "cmp_bytes c d"] by (simp add: runtime_compare_def)
qed

section \<open>Sets of indices\<close>

text \<open>
  Containers that stand for a set of indices below a bound (Bitset, SparseSet). A run gives the answers
  to its queries, in order.
\<close>

datatype set_cmd = Add nat | Del nat | Has nat

fun set_run ::
  "('s \<Rightarrow> nat \<Rightarrow> (status \<times> 's) option) \<Rightarrow> ('s \<Rightarrow> nat \<Rightarrow> (status \<times> 's) option) \<Rightarrow> ('s \<Rightarrow> nat \<Rightarrow> bool option) \<Rightarrow>
   's \<Rightarrow> set_cmd list \<Rightarrow> (bool list \<times> 's) option" where
  "set_run ins rem mem s [] = Some ([], s)"
| "set_run ins rem mem s (Add i # cs) = do { (_, s') \<leftarrow> ins s i; set_run ins rem mem s' cs }"
| "set_run ins rem mem s (Del i # cs) = do { (_, s') \<leftarrow> rem s i; set_run ins rem mem s' cs }"
| "set_run ins rem mem s (Has i # cs) = do {
     b \<leftarrow> mem s i;
     (bs, s') \<leftarrow> set_run ins rem mem s cs;
     Some (b # bs, s')
   }"

fun set_spec :: "nat \<Rightarrow> nat set \<Rightarrow> set_cmd list \<Rightarrow> bool list \<times> nat set" where
  "set_spec n A [] = ([], A)"
| "set_spec n A (Add i # cs) = set_spec n (if i < n then insert i A else A) cs"
| "set_spec n A (Del i # cs) = set_spec n (A - {i}) cs"
| "set_spec n A (Has i # cs) = (let (bs, B) = set_spec n A cs in ((i \<in> A) # bs, B))"

locale id_set =
  fixes inv :: "'s \<Rightarrow> bool" and elems :: "'s \<Rightarrow> nat set" and bound :: "'s \<Rightarrow> nat"
    and ins :: "'s \<Rightarrow> nat \<Rightarrow> (status \<times> 's) option"
    and rem :: "'s \<Rightarrow> nat \<Rightarrow> (status \<times> 's) option"
    and mem :: "'s \<Rightarrow> nat \<Rightarrow> bool option"
  assumes ins_in: "inv s \<Longrightarrow> i < bound s \<Longrightarrow>
      \<exists>s'. ins s i = Some (Ok, s') \<and> inv s' \<and> elems s' = insert i (elems s) \<and> bound s' = bound s"
    and ins_out: "inv s \<Longrightarrow> bound s \<le> i \<Longrightarrow> ins s i = Some (Invalid, s)"
    and rem_any: "inv s \<Longrightarrow> \<exists>st s'. rem s i = Some (st, s') \<and> inv s' \<and> elems s' = elems s - {i} \<and> bound s' = bound s"
    and mem_iff: "inv s \<Longrightarrow> mem s i = Some (i \<in> elems s)"
    and elems_bound: "inv s \<Longrightarrow> elems s \<subseteq> {..<bound s}"
begin

lemma finite_elems: "inv s \<Longrightarrow> finite (elems s)"
  using elems_bound finite_subset by blast

lemma run_refines:
  assumes "inv s"
  shows "\<exists>s'. set_run ins rem mem s cs = Some (fst (set_spec (bound s) (elems s) cs), s') \<and> inv s' \<and>
    elems s' = snd (set_spec (bound s) (elems s) cs)"
  using assms
proof (induction cs arbitrary: s)
  case (Cons c cs)
  show ?case
  proof (cases c)
    case (Add i)
    show ?thesis
    proof (cases "i < bound s")
      case True
      from ins_in [OF Cons.prems True] obtain t where "ins s i = Some (Ok, t)" "inv t"
        "elems t = insert i (elems s)" "bound t = bound s" by auto
      with Cons.IH [of t] Add True show ?thesis by simp
    next
      case False
      with ins_out [OF Cons.prems, of i] Cons.IH [OF Cons.prems] Add show ?thesis by simp
    qed
  next
    case (Del i)
    from rem_any [OF Cons.prems, of i] obtain st t where "rem s i = Some (st, t)" "inv t"
      "elems t = elems s - {i}" "bound t = bound s" by auto
    with Cons.IH [of t] Del show ?thesis by simp
  next
    case (Has i)
    with mem_iff [OF Cons.prems] Cons.IH [OF Cons.prems] show ?thesis by (auto simp: split_beta)
  qed
qed simp

end

section \<open>Pools\<close>

text \<open>
  A pool hands out at most \<open>cap\<close> references, each different from those in use. What \<open>release\<close> does
  with a reference that is not in use is left open; \<open>checked_pool\<close> promises that it is refused.
\<close>

datatype 'r pool_cmd = Acquire | Release 'r

fun pool_run ::
  "('s \<Rightarrow> (status \<times> 'r \<times> 's) option) \<Rightarrow> ('s \<Rightarrow> 'r \<Rightarrow> (status \<times> 's) option) \<Rightarrow>
   's \<Rightarrow> 'r pool_cmd list \<Rightarrow> ((status \<times> 'r option) list \<times> 's) option" where
  "pool_run acq rel s [] = Some ([], s)"
| "pool_run acq rel s (Acquire # cs) = do {
     (st, r, s') \<leftarrow> acq s;
     (rs, s'') \<leftarrow> pool_run acq rel s' cs;
     Some ((st, Some r) # rs, s'')
   }"
| "pool_run acq rel s (Release r # cs) = do {
     (st, s') \<leftarrow> rel s r;
     (rs, s'') \<leftarrow> pool_run acq rel s' cs;
     Some ((st, None) # rs, s'')
   }"

text \<open>
  \<open>pool_ok n L cs rs\<close>: with the references \<open>L\<close> in use and room for \<open>n\<close>, the results \<open>rs\<close> are those
  of a pool.
\<close>

fun pool_ok :: "nat \<Rightarrow> 'r set \<Rightarrow> 'r pool_cmd list \<Rightarrow> (status \<times> 'r option) list \<Rightarrow> bool" where
  "pool_ok n L [] [] = True"
| "pool_ok n L (Acquire # cs) ((st, Some r) # rs) =
     (if card L < n then st = Ok \<and> r \<notin> L \<and> pool_ok n (insert r L) cs rs else st = Full \<and> pool_ok n L cs rs)"
| "pool_ok n L (Release r # cs) ((st, None) # rs) =
     (if r \<in> L then st = Ok \<and> pool_ok n (L - {r}) cs rs else st \<noteq> Ok \<and> pool_ok n L cs rs)"
| "pool_ok n L _ _ = False"

locale pool =
  fixes inv :: "'s \<Rightarrow> bool" and live :: "'s \<Rightarrow> 'r set" and cap :: "'s \<Rightarrow> nat"
    and acq :: "'s \<Rightarrow> (status \<times> 'r \<times> 's) option"
    and rel :: "'s \<Rightarrow> 'r \<Rightarrow> (status \<times> 's) option"
  assumes acq_room: "inv s \<Longrightarrow> card (live s) < cap s \<Longrightarrow>
      \<exists>r s'. acq s = Some (Ok, r, s') \<and> inv s' \<and> r \<notin> live s \<and> live s' = insert r (live s) \<and> cap s' = cap s"
    and acq_full: "inv s \<Longrightarrow> cap s \<le> card (live s) \<Longrightarrow> \<exists>r. acq s = Some (Full, r, s)"
    and rel_live: "inv s \<Longrightarrow> r \<in> live s \<Longrightarrow>
      \<exists>s'. rel s r = Some (Ok, s') \<and> inv s' \<and> live s' = live s - {r} \<and> cap s' = cap s"
    and live_finite: "inv s \<Longrightarrow> finite (live s)"
begin

text \<open>A reference just acquired can be released, which brings the references in use back.\<close>

lemma acquire_release:
  assumes "inv s" "card (live s) < cap s"
  shows "\<exists>r s' s''. acq s = Some (Ok, r, s') \<and> rel s' r = Some (Ok, s'') \<and> inv s'' \<and> live s'' = live s"
proof -
  from acq_room [OF assms] obtain r s' where s': "acq s = Some (Ok, r, s')" "inv s'" "r \<notin> live s"
    "live s' = insert r (live s)" by blast
  from rel_live [OF s'(2), of r] s'(4) obtain s'' where "rel s' r = Some (Ok, s'')" "inv s''" "live s'' = live s' - {r}"
    by auto
  with s' show ?thesis by (intro exI [of _ r] exI [of _ s'] exI [of _ s'']) simp
qed

text \<open>A pool with room \<open>k\<close> serves \<open>k\<close> requests in a row, all with different references.\<close>

lemma acquire_many:
  assumes "inv s" "card (live s) + k \<le> cap s"
  shows "\<exists>rs s'. pool_run acq rel s (replicate k Acquire) = Some (map (\<lambda>r. (Ok, Some r)) rs, s') \<and> inv s' \<and>
    distinct rs \<and> length rs = k \<and> set rs \<inter> live s = {} \<and> live s' = live s \<union> set rs"
  using assms
proof (induction k arbitrary: s)
  case 0
  then show ?case by simp
next
  case (Suc k)
  from acq_room [OF Suc.prems(1)] Suc.prems(2) obtain r s1 where s1: "acq s = Some (Ok, r, s1)" "inv s1"
    "r \<notin> live s" "live s1 = insert r (live s)" "cap s1 = cap s" by fastforce
  have "card (live s1) + k \<le> cap s1" using Suc.prems s1 live_finite [of s] by simp
  from Suc.IH [OF s1(2) this] obtain rs s' where
    rs: "pool_run acq rel s1 (replicate k Acquire) = Some (map (\<lambda>r. (Ok, Some r)) rs, s')" "inv s'"
    "distinct rs" "length rs = k" "set rs \<inter> live s1 = {}" "live s' = live s1 \<union> set rs" by blast
  then show ?case using s1 by (intro exI [of _ "r # rs"] exI [of _ s']) auto
qed

end

locale checked_pool = pool +
  assumes rel_dead: "inv s \<Longrightarrow> r \<notin> live s \<Longrightarrow> \<exists>st. rel s r = Some (st, s) \<and> st \<noteq> Ok"
begin

lemma run_ok:
  assumes "inv s"
  shows "\<exists>rs s'. pool_run acq rel s cs = Some (rs, s') \<and> inv s' \<and> pool_ok (cap s) (live s) cs rs"
  using assms
proof (induction cs arbitrary: s)
  case Nil
  then show ?case by simp
next
  case (Cons c cs)
  show ?case
  proof (cases c)
    case Acquire
    show ?thesis
    proof (cases "card (live s) < cap s")
      case True
      from acq_room [OF Cons.prems True] obtain r s1 where s1: "acq s = Some (Ok, r, s1)" "inv s1" "r \<notin> live s"
        "live s1 = insert r (live s)" "cap s1 = cap s" by blast
      from Cons.IH [OF s1(2)] obtain rs s' where "pool_run acq rel s1 cs = Some (rs, s')" "inv s'"
        "pool_ok (cap s1) (live s1) cs rs" by blast
      with s1 True Acquire show ?thesis by simp
    next
      case False
      from acq_full [OF Cons.prems] False obtain r where "acq s = Some (Full, r, s)" by auto
      moreover from Cons.IH [OF Cons.prems] obtain rs s' where "pool_run acq rel s cs = Some (rs, s')" "inv s'"
        "pool_ok (cap s) (live s) cs rs" by blast
      ultimately show ?thesis using False Acquire by simp
    qed
  next
    case (Release r)
    show ?thesis
    proof (cases "r \<in> live s")
      case True
      from rel_live [OF Cons.prems True] obtain s1 where s1: "rel s r = Some (Ok, s1)" "inv s1"
        "live s1 = live s - {r}" "cap s1 = cap s" by blast
      from Cons.IH [OF s1(2)] obtain rs s' where "pool_run acq rel s1 cs = Some (rs, s')" "inv s'"
        "pool_ok (cap s1) (live s1) cs rs" by blast
      with s1 True Release show ?thesis by simp
    next
      case False
      from rel_dead [OF Cons.prems False] obtain st where "rel s r = Some (st, s)" "st \<noteq> Ok" by blast
      moreover from Cons.IH [OF Cons.prems] obtain rs s' where "pool_run acq rel s cs = Some (rs, s')" "inv s'"
        "pool_ok (cap s) (live s) cs rs" by blast
      ultimately show ?thesis using False Release by simp
    qed
  qed
qed

end

section \<open>Bump allocators\<close>

text \<open>
  A region from which blocks are handed out upwards: \<open>used\<close> is the first address not handed out,
  \<open>limit\<close> the end of the region. A granted block is aligned, lies above everything handed out before
  and inside the region; a refused request changes nothing.
\<close>

fun alloc_run ::
  "('s \<Rightarrow> u64 \<Rightarrow> u64 \<Rightarrow> u64 option \<times> 's) \<Rightarrow> 's \<Rightarrow> (u64 \<times> u64) list \<Rightarrow> (u64 \<times> u64 \<times> u64) list \<times> 's" where
  "alloc_run alloc s [] = ([], s)"
| "alloc_run alloc s ((n, a) # rs) =
     (let (p, s1) = alloc s n a; (bs, s2) = alloc_run alloc s1 rs
      in ((case p of None \<Rightarrow> bs | Some q \<Rightarrow> (q, n, a) # bs), s2))"

definition block_ok :: "nat \<Rightarrow> nat \<Rightarrow> u64 \<times> u64 \<times> u64 \<Rightarrow> bool" where
  "block_ok lo hi b =
     (case b of (p, n, a) \<Rightarrow> lo \<le> unat p \<and> unat p + unat n \<le> hi \<and> 0 < n \<and> unat p mod unat a = 0)"

definition below :: "u64 \<times> u64 \<times> u64 \<Rightarrow> u64 \<times> u64 \<times> u64 \<Rightarrow> bool" where
  "below b c = (unat (fst b) + unat (fst (snd b)) \<le> unat (fst c))"

locale bump_allocator =
  fixes inv :: "'s \<Rightarrow> bool" and used :: "'s \<Rightarrow> nat" and limit :: "'s \<Rightarrow> nat"
    and alloc :: "'s \<Rightarrow> u64 \<Rightarrow> u64 \<Rightarrow> u64 option \<times> 's"
  assumes granted: "inv s \<Longrightarrow> alloc s n a = (Some p, s') \<Longrightarrow>
      inv s' \<and> used s \<le> unat p \<and> unat p + unat n = used s' \<and> used s' \<le> limit s \<and> limit s' = limit s \<and>
      unat p mod unat a = 0 \<and> 0 < n"
    and refused: "inv s \<Longrightarrow> alloc s n a = (None, s') \<Longrightarrow> s' = s"
begin

lemma used_mono: "inv s \<Longrightarrow> alloc s n a = (r, s') \<Longrightarrow> inv s' \<and> used s \<le> used s' \<and> limit s' = limit s"
  using granted [of s n a] refused [of s n a] by (cases r) fastforce+

lemma alloc_run_blocks:
  assumes "inv s" "alloc_run alloc s rs = (bs, s')"
  shows "inv s' \<and> (\<forall>b \<in> set bs. block_ok (used s) (limit s) b) \<and> sorted_wrt below bs"
  using assms
proof (induction rs arbitrary: s bs)
  case (Cons r rs)
  obtain n a where r: "r = (n, a)" by (cases r)
  obtain p s1 where s1: "alloc s n a = (p, s1)" by (cases "alloc s n a")
  obtain cs where cs: "alloc_run alloc s1 rs = (cs, s')"
    using Cons.prems(2) r s1 by (cases "alloc_run alloc s1 rs") auto
  have bs: "bs = (case p of None \<Rightarrow> cs | Some q \<Rightarrow> (q, n, a) # cs)"
    using Cons.prems(2) r s1 cs by simp
  have mono: "inv s1" "used s \<le> used s1" "limit s1 = limit s"
    using used_mono [OF Cons.prems(1) s1] by simp_all
  have IH: "inv s'" "\<forall>b \<in> set cs. block_ok (used s1) (limit s) b" "sorted_wrt below cs"
    using Cons.IH [OF mono(1) cs] mono(3) by simp_all
  have wide: "\<forall>b \<in> set cs. block_ok (used s) (limit s) b"
    using IH(2) mono(2) by (auto simp: block_ok_def)
  show ?case
  proof (cases p)
    case None
    with IH wide bs show ?thesis by simp
  next
    case (Some q)
    from granted [OF Cons.prems(1) s1 [unfolded Some]]
    have "block_ok (used s) (limit s) (q, n, a)" "\<forall>b \<in> set cs. below (q, n, a) b"
      using IH(2) by (auto simp: block_ok_def below_def)
    with IH wide bs Some show ?thesis by simp
  qed
qed simp

end

lemma below_disjoint:
  "below (p, n, a) (q, m, b) \<Longrightarrow> {unat p..<unat p + unat n} \<inter> {unat q..<unat q + unat m} = {}"
  by (auto simp: below_def)

end
