(* ===== verification/Ring_Props.thy ===== *)
theory Ring_Props
  imports Ring_Correct Contracts
begin

text \<open>
  What the ring buffer guarantees to its users (Ring, Queue, Deque): it is a bounded FIFO queue and
  a bounded stack, every run of operations at both ends gives the results of a list of bounded
  length, growing keeps the elements; and where the contiguous-region and growing functions leave
  their bounds.
\<close>

section \<open>The ring as a queue and as a stack\<close>

definition ring_fixed :: "'e ring \<Rightarrow> bool" where
  "ring_fixed s \<longleftrightarrow> ring_wf s \<and> faithful (rb_policy s) \<and> \<not> growable s \<and> \<not> overwrites s"

lemma ring_fixed_push:
  assumes "ring_fixed s" "rb_count s < rb_capacity s"
  shows "\<exists>s'. ring_push_back env s (Some e) False = Some (Ok, s') \<and> ring_fixed s' \<and>
    ring_contents s' = ring_contents s @ [e] \<and> rb_capacity s' = rb_capacity s"
proof -
  have wf: "ring_wf s" "faithful (rb_policy s)" using assms by (simp_all add: ring_fixed_def)
  from ring_push_back_slot_ok [OF wf(1) assms(2), of e] wf(2)
  obtain s' where s': "ring_push_back_slot s e = Some (Ok, s')" "ring_wf s'" "ring_frame s s'"
    "ring_contents s' = ring_contents s @ [e]" by auto
  have "0 < rb_capacity s" using assms(2) by simp
  with s' assms show ?thesis
    by (intro exI [of _ s']) (auto simp: ring_push_back_def ring_fixed_def ring_frame_def)
qed

interpretation ring_queue: bounded_fifo ring_fixed ring_contents rb_capacity
  "\<lambda>s e. ring_push_back env s (Some e) False" "\<lambda>s. ring_pop_front s (Some d) True" for env d
proof unfold_locales
  fix s :: "'a ring" and e x xs
  assume inv: "ring_fixed s"
  then have wf: "ring_wf s" "faithful (rb_policy s)" "\<not> growable s" "\<not> overwrites s"
    by (simp_all add: ring_fixed_def)
  note len = length_ring_contents [OF wf(1)]
  have cap: "0 < rb_capacity s" "rb_count s \<le> rb_capacity s" using wf(1) by (auto elim: ring_wfE)
  show "\<exists>s'. ring_push_back env s (Some e) False = Some (Ok, s') \<and> ring_fixed s' \<and>
      ring_contents s' = ring_contents s @ [e] \<and> rb_capacity s' = rb_capacity s"
    if "length (ring_contents s) < rb_capacity s"
    using ring_fixed_push [OF inv, of env e] that len by simp
  show "ring_push_back env s (Some e) False = Some (Full, s)"
    if "rb_capacity s \<le> length (ring_contents s)"
    using that len wf cap by (simp add: ring_push_back_def)
  note pop = ring_pop_front_effect [OF wf(1,2), of "Some d" True]
  show "\<exists>v. ring_pop_front s (Some d) True = Some (Empty, v, s)" if "ring_contents s = []"
    using pop that by auto
  show "\<exists>s'. ring_pop_front s (Some d) True = Some (Ok, Some x, s') \<and> ring_fixed s' \<and>
      ring_contents s' = xs \<and> rb_capacity s' = rb_capacity s" if "ring_contents s = x # xs"
    using pop that inv by (auto simp: ring_fixed_def ring_frame_def)
qed

interpretation ring_stack: bounded_lifo ring_fixed ring_contents rb_capacity
  "\<lambda>s e. ring_push_back env s (Some e) False" "\<lambda>s. ring_pop_back s (Some d) True" for env d
proof unfold_locales
  fix s :: "'a ring"
  assume inv: "ring_fixed s"
  then have wf: "ring_wf s" "faithful (rb_policy s)" by (simp_all add: ring_fixed_def)
  note pop = ring_pop_back_effect [OF wf, of "Some d" True]
  show "\<exists>v. ring_pop_back s (Some d) True = Some (Empty, v, s)" if "ring_contents s = []"
    using pop that by auto
  show "\<exists>s'. ring_pop_back s (Some d) True = Some (Ok, Some (last (ring_contents s)), s') \<and>
      ring_fixed s' \<and> ring_contents s' = butlast (ring_contents s) \<and> rb_capacity s' = rb_capacity s"
    if "ring_contents s \<noteq> []"
    using pop that inv by (auto simp: ring_fixed_def ring_frame_def)
qed (rule ring_queue.push_room ring_queue.push_full; assumption)+

section \<open>Runs of operations at both ends\<close>

datatype 'e deque_cmd = Push_back 'e | Push_front 'e | Pop_front | Pop_back

fun ring_run ::
  "'e env \<Rightarrow> 'e \<Rightarrow> 'e ring \<Rightarrow> 'e deque_cmd list \<Rightarrow> ((status \<times> 'e option) list \<times> 'e ring) option" where
  "ring_run env d s [] = Some ([], s)"
| "ring_run env d s (Push_back e # cs) = do {
     (st, s') \<leftarrow> ring_push_back env s (Some e) False;
     (rs, s'') \<leftarrow> ring_run env d s' cs;
     Some ((st, None) # rs, s'')
   }"
| "ring_run env d s (Push_front e # cs) = do {
     (st, s') \<leftarrow> ring_push_front env s (Some e);
     (rs, s'') \<leftarrow> ring_run env d s' cs;
     Some ((st, None) # rs, s'')
   }"
| "ring_run env d s (Pop_front # cs) = do {
     (st, v, s') \<leftarrow> ring_pop_front s (Some d) True;
     (rs, s'') \<leftarrow> ring_run env d s' cs;
     Some ((st, if st = Ok then v else None) # rs, s'')
   }"
| "ring_run env d s (Pop_back # cs) = do {
     (st, v, s') \<leftarrow> ring_pop_back s (Some d) True;
     (rs, s'') \<leftarrow> ring_run env d s' cs;
     Some ((st, if st = Ok then v else None) # rs, s'')
   }"

text \<open>One command on a list of at most \<open>cap\<close> elements; \<open>ow\<close>: a full list drops its far end.\<close>

fun deque_step :: "bool \<Rightarrow> nat \<Rightarrow> 'e list \<Rightarrow> 'e deque_cmd \<Rightarrow> (status \<times> 'e option) \<times> 'e list" where
  "deque_step ow cap q (Push_back e) =
     (if length q < cap then ((Ok, None), q @ [e])
      else if ow then ((Ok, None), tl q @ [e]) else ((Full, None), q))"
| "deque_step ow cap q (Push_front e) =
     (if length q < cap then ((Ok, None), e # q)
      else if ow then ((Ok, None), e # butlast q) else ((Full, None), q))"
| "deque_step ow cap q Pop_front =
     (case q of [] \<Rightarrow> ((Empty, None), []) | x # xs \<Rightarrow> ((Ok, Some x), xs))"
| "deque_step ow cap q Pop_back =
     (if q = [] then ((Empty, None), []) else ((Ok, Some (last q)), butlast q))"

fun deque_spec ::
  "bool \<Rightarrow> nat \<Rightarrow> 'e list \<Rightarrow> 'e deque_cmd list \<Rightarrow> (status \<times> 'e option) list \<times> 'e list" where
  "deque_spec ow cap q [] = ([], q)"
| "deque_spec ow cap q (c # cs) =
     (let (r, q1) = deque_step ow cap q c; (rs, q2) = deque_spec ow cap q1 cs in (r # rs, q2))"

definition ring_bounded :: "'e ring \<Rightarrow> bool" where
  "ring_bounded s \<longleftrightarrow> ring_wf s \<and> faithful (rb_policy s) \<and> \<not> growable s"

lemma ring_push_back_bounded:
  assumes "ring_bounded s"
  shows "\<exists>s'. ring_push_back env s (Some e) False =
      Some (fst (fst (deque_step (overwrites s) (rb_capacity s) (ring_contents s) (Push_back e))), s') \<and>
    ring_bounded s' \<and> overwrites s' = overwrites s \<and> rb_capacity s' = rb_capacity s \<and>
    ring_contents s' = snd (deque_step (overwrites s) (rb_capacity s) (ring_contents s) (Push_back e))"
proof -
  have wf: "ring_wf s" "faithful (rb_policy s)" "\<not> growable s"
    using assms by (simp_all add: ring_bounded_def)
  have cap: "0 < rb_capacity s" "rb_count s \<le> rb_capacity s" using wf(1) by (auto elim: ring_wfE)
  note len = length_ring_contents [OF wf(1)]
  show ?thesis
  proof (cases "rb_count s < rb_capacity s")
    case True
    from ring_push_back_slot_ok [OF wf(1) True, of e] wf(2)
    obtain s' where s': "ring_push_back_slot s e = Some (Ok, s')" "ring_wf s'" "ring_frame s s'"
      "ring_contents s' = ring_contents s @ [e]" by auto
    with True len wf cap show ?thesis
      by (intro exI [of _ s']) (auto simp: ring_push_back_def ring_bounded_def ring_frame_def)
  next
    case False
    with ring_push_back_effect [OF wf(1,2), of env e False] len wf(2,3) cap show ?thesis
      by (cases "overwrites s") (auto simp: ring_bounded_def)
  qed
qed

lemma ring_push_front_bounded:
  assumes "ring_bounded s"
  shows "\<exists>s'. ring_push_front env s (Some e) =
      Some (fst (fst (deque_step (overwrites s) (rb_capacity s) (ring_contents s) (Push_front e))), s') \<and>
    ring_bounded s' \<and> overwrites s' = overwrites s \<and> rb_capacity s' = rb_capacity s \<and>
    ring_contents s' = snd (deque_step (overwrites s) (rb_capacity s) (ring_contents s) (Push_front e))"
proof -
  have wf: "ring_wf s" "faithful (rb_policy s)" "\<not> growable s"
    using assms by (simp_all add: ring_bounded_def)
  have cap: "0 < rb_capacity s" "rb_count s \<le> rb_capacity s" using wf(1) by (auto elim: ring_wfE)
  note len = length_ring_contents [OF wf(1)]
  show ?thesis
  proof (cases "rb_count s < rb_capacity s")
    case True
    from ring_push_front_slot_ok [OF wf(1) True, of e] wf(2)
    obtain s' where s': "ring_push_front_slot s e = Some (Ok, s')" "ring_wf s'" "ring_frame s s'"
      "ring_contents s' = e # ring_contents s" by auto
    with True len wf cap show ?thesis
      by (intro exI [of _ s']) (auto simp: ring_push_front_def ring_bounded_def ring_frame_def)
  next
    case False
    with ring_push_front_effect [OF wf(1,2), of env e] len wf(2,3) cap show ?thesis
      by (cases "overwrites s") (auto simp: ring_bounded_def)
  qed
qed

lemma ring_run_refines:
  assumes "ring_bounded s"
  shows "\<exists>s'. ring_run env d s cs =
      Some (fst (deque_spec (overwrites s) (rb_capacity s) (ring_contents s) cs), s') \<and> ring_bounded s' \<and>
    ring_contents s' = snd (deque_spec (overwrites s) (rb_capacity s) (ring_contents s) cs)"
  using assms
proof (induction cs arbitrary: s)
  case (Cons c cs)
  have wf: "ring_wf s" "faithful (rb_policy s)" using Cons.prems by (simp_all add: ring_bounded_def)
  have keep: "ring_bounded t \<and> overwrites t = overwrites s \<and> rb_capacity t = rb_capacity s"
    if "ring_wf t" "ring_frame s t" for t
    using that Cons.prems by (auto simp: ring_bounded_def ring_frame_def)
  show ?case
  proof (cases c)
    case (Push_back e)
    from ring_push_back_bounded [OF Cons.prems, of env e] obtain t where
      "ring_push_back env s (Some e) False =
        Some (fst (fst (deque_step (overwrites s) (rb_capacity s) (ring_contents s) (Push_back e))), t)"
      "ring_bounded t" "overwrites t = overwrites s" "rb_capacity t = rb_capacity s"
      "ring_contents t = snd (deque_step (overwrites s) (rb_capacity s) (ring_contents s) (Push_back e))"
      by blast
    with Cons.IH [of t] Push_back show ?thesis by (auto simp: split_beta)
  next
    case (Push_front e)
    from ring_push_front_bounded [OF Cons.prems, of env e] obtain t where
      "ring_push_front env s (Some e) =
        Some (fst (fst (deque_step (overwrites s) (rb_capacity s) (ring_contents s) (Push_front e))), t)"
      "ring_bounded t" "overwrites t = overwrites s" "rb_capacity t = rb_capacity s"
      "ring_contents t = snd (deque_step (overwrites s) (rb_capacity s) (ring_contents s) (Push_front e))"
      by blast
    with Cons.IH [of t] Push_front show ?thesis by (auto simp: split_beta)
  next
    case Pop_front
    from ring_pop_front_effect [OF wf, of "Some d" True] obtain st v t where
      t: "ring_pop_front s (Some d) True = Some (st, v, t)" "ring_wf t" "ring_frame s t"
        "if ring_contents s = [] then st = Empty \<and> v = Some d \<and> t = s
         else st = Ok \<and> v = Some (hd (ring_contents s)) \<and> ring_contents t = tl (ring_contents s)"
      by (auto split: if_splits)
    with Cons.IH [of t] keep [OF t(2,3)] Pop_front show ?thesis
      by (auto simp: split_beta split: list.splits if_splits)
  next
    case Pop_back
    from ring_pop_back_effect [OF wf, of "Some d" True] obtain st v t where
      t: "ring_pop_back s (Some d) True = Some (st, v, t)" "ring_wf t" "ring_frame s t"
        "if ring_contents s = [] then st = Empty \<and> v = Some d \<and> t = s
         else st = Ok \<and> v = Some (last (ring_contents s)) \<and> ring_contents t = butlast (ring_contents s)"
      by (auto split: if_splits)
    with Cons.IH [of t] keep [OF t(2,3)] Pop_back show ?thesis
      by (auto simp: split_beta split: if_splits)
  qed
qed simp

text \<open>One operation on a ring that does not grow, whatever its end.\<close>

lemma ring_call_core:
  assumes "ring_bounded s"
  shows "\<exists>s'. ring_bounded s' \<and> overwrites s' = overwrites s \<and> rb_capacity s' = rb_capacity s \<and>
    ring_contents s' = snd (deque_step (overwrites s) (rb_capacity s) (ring_contents s) c) \<and>
    (case c of
       Push_back e \<Rightarrow> ring_push_back env s (Some e) (overwrites s) =
         Some (fst (fst (deque_step (overwrites s) (rb_capacity s) (ring_contents s) c)), s')
     | Push_front e \<Rightarrow> ring_push_front env s (Some e) =
         Some (fst (fst (deque_step (overwrites s) (rb_capacity s) (ring_contents s) c)), s')
     | Pop_front \<Rightarrow> \<exists>st v. ring_pop_front s (Some d) True = Some (st, v, s') \<and>
         (st, if st = Ok then v else None) = fst (deque_step (overwrites s) (rb_capacity s) (ring_contents s) c)
     | Pop_back \<Rightarrow> \<exists>st v. ring_pop_back s (Some d) True = Some (st, v, s') \<and>
         (st, if st = Ok then v else None) = fst (deque_step (overwrites s) (rb_capacity s) (ring_contents s) c))"
proof -
  have wf: "ring_wf s" "faithful (rb_policy s)" using assms by (simp_all add: ring_bounded_def)
  have keep: "ring_bounded t \<and> overwrites t = overwrites s \<and> rb_capacity t = rb_capacity s"
    if "ring_wf t" "ring_frame s t" for t
    using that assms by (auto simp: ring_bounded_def ring_frame_def)
  show ?thesis
  proof (cases c)
    case (Push_back e)
    have "ring_push_back env s (Some e) (overwrites s) = ring_push_back env s (Some e) False"
      by (simp add: ring_push_back_def)
    with ring_push_back_bounded [OF assms, of env e] Push_back show ?thesis by auto
  next
    case (Push_front e)
    with ring_push_front_bounded [OF assms, of env e] show ?thesis by auto
  next
    case Pop_front
    from ring_pop_front_effect [OF wf, of "Some d" True] obtain st v t where
      t: "ring_pop_front s (Some d) True = Some (st, v, t)" "ring_wf t" "ring_frame s t"
        "if ring_contents s = [] then st = Empty \<and> v = Some d \<and> t = s
         else st = Ok \<and> v = Some (hd (ring_contents s)) \<and> ring_contents t = tl (ring_contents s)"
      by (auto split: if_splits)
    with keep [OF t(2,3)] Pop_front show ?thesis by (intro exI [of _ t]) (auto split: list.splits if_splits)
  next
    case Pop_back
    from ring_pop_back_effect [OF wf, of "Some d" True] obtain st v t where
      t: "ring_pop_back s (Some d) True = Some (st, v, t)" "ring_wf t" "ring_frame s t"
        "if ring_contents s = [] then st = Empty \<and> v = Some d \<and> t = s
         else st = Ok \<and> v = Some (last (ring_contents s)) \<and> ring_contents t = butlast (ring_contents s)"
      by (auto split: if_splits)
    with keep [OF t(2,3)] Pop_back show ?thesis by (intro exI [of _ t]) (auto split: if_splits)
  qed
qed

section \<open>Concrete rings for the witnesses\<close>

definition ring_sample :: "flags \<Rightarrow> nat \<Rightarrow> nat ring" where
  "ring_sample fs n =
     snd (ring_init \<lparr>rb_policy = typed_trivial_policy 8 8, rb_storage = None, rb_capacity = 0, rb_head = 0,
        rb_tail = 0, rb_count = 0, rb_flags = 0, rb_kind = storage_heap, rb_grow = False, rb_destroyed = []\<rparr>
       (typed_trivial_policy 8 8) (Some (replicate n 0)) n fs)"

definition env_sample :: "nat env" where
  "env_sample = \<lparr>env_allow_heap = True, env_malloc = (\<lambda>_. True), env_grow = (\<lambda>_ _. Oom), env_junk = (\<lambda>_. 0)\<rparr>"

lemma env_sample_simps [simp]:
  "env_allow_heap env_sample" "env_malloc env_sample n" "env_grow env_sample n a = Oom" "env_junk env_sample i = 0"
  by (simp_all add: env_sample_def)

lemma ring_sample_simps [simp]:
  assumes "0 < n"
  shows "rb_policy (ring_sample fs n) = typed_trivial_policy 8 8"
    "rb_storage (ring_sample fs n) = Some (replicate n 0)" "rb_capacity (ring_sample fs n) = n"
    "rb_head (ring_sample fs n) = 0" "rb_tail (ring_sample fs n) = 0" "rb_count (ring_sample fs n) = 0"
    "rb_flags (ring_sample fs n) = fs" "rb_kind (ring_sample fs n) = storage_heap"
    "\<not> rb_grow (ring_sample fs n)" "ring_contents (ring_sample fs n) = []"
  using assms by (simp_all add: ring_sample_def ring_init_def typed_trivial_policy_def)

lemma ring_sample_wf: "0 < n \<Longrightarrow> n \<le> PTRDIFF_MAX \<Longrightarrow> ring_wf (ring_sample fs n)"
  by (simp add: ring_wf_def)

lemma has_simps [simp]:
  "\<not> has 0 b" "has ring_policy_growable ring_policy_growable"
  "has ring_policy_overwrite_on_full ring_policy_overwrite_on_full"
  "\<not> has ring_policy_overwrite_on_full ring_policy_growable"
  "\<not> has ring_policy_growable ring_policy_overwrite_on_full"
  by (simp_all add: has_def ring_policy_growable_def ring_policy_overwrite_on_full_def)

section \<open>Properties\<close>

text \<open>
  C1. A ring that neither grows nor overwrites is a bounded FIFO queue: any sequence of pushes at
  the back and pops at the front is memory safe, keeps the invariant, gives the statuses and values
  of the abstract queue of \<open>capacity\<close> elements, and what was accepted comes out in order.
\<close>

theorem ring_is_bounded_queue:
  assumes "ring_wf s" "faithful (rb_policy s)" "\<not> growable s" "\<not> overwrites s"
  shows "\<exists>rs s'. queue_run (\<lambda>s e. ring_push_back env s (Some e) False) (\<lambda>s. ring_pop_front s (Some d) True) s cs
      = Some (rs, s') \<and> ring_wf s' \<and> rs = fst (fifo_spec (rb_capacity s) (ring_contents s) cs) \<and>
    ring_contents s @ accepted cs rs = delivered rs @ ring_contents s' \<and>
    length (ring_contents s') \<le> rb_capacity s"
proof -
  have fixed: "ring_fixed s" using assms by (simp add: ring_fixed_def)
  have "length (ring_contents s) \<le> rb_capacity s"
    using assms(1) length_ring_contents [OF assms(1)] by (auto elim: ring_wfE)
  with ring_queue.run_refines [OF fixed, of env d cs] show ?thesis
    by (auto simp: ring_fixed_def fifo_spec_order fifo_spec_bound)
qed

theorem ring_is_bounded_queue_witness:
  "\<exists>rs s'. queue_run (\<lambda>s e. ring_push_back env_sample s (Some e) False) (\<lambda>s. ring_pop_front s (Some 0) True)
      (ring_sample 0 2) [Push 7, Push 8, Push 9, Pop, Push 10, Pop, Pop, Pop] = Some (rs, s') \<and>
    rs = [(Ok, None), (Ok, None), (Full, None), (Ok, Some 7), (Ok, None), (Ok, Some 8), (Ok, Some 10), (Empty, None)]"
  using ring_is_bounded_queue [of "ring_sample 0 2" env_sample 0
      "[Push 7, Push 8, Push 9, Pop, Push 10, Pop, Pop, Pop]"] ring_sample_wf [of 2 0]
  by (auto simp: PTRDIFF_MAX_def)

text \<open>
  C2. Any sequence of pushes and pops at both ends of a ring that does not grow gives the results of
  a list of bounded length; with \<open>overwrite_on_full\<close> a push on a full ring drops the element at the
  other end.
\<close>

theorem ring_is_bounded_deque:
  assumes "ring_wf s" "faithful (rb_policy s)" "\<not> growable s"
  shows "\<exists>s'. ring_run env d s cs =
      Some (fst (deque_spec (overwrites s) (rb_capacity s) (ring_contents s) cs), s') \<and> ring_wf s' \<and>
    ring_contents s' = snd (deque_spec (overwrites s) (rb_capacity s) (ring_contents s) cs)"
  using ring_run_refines [of s env d cs] assms by (auto simp: ring_bounded_def)

theorem ring_is_bounded_deque_witness:
  "\<exists>s'. ring_run env_sample 0 (ring_sample ring_policy_overwrite_on_full 2)
      [Push_back 1, Push_front 2, Push_back 3, Push_front 4, Pop_back, Pop_front, Pop_front] =
    Some ([(Ok, None), (Ok, None), (Ok, None), (Ok, None), (Ok, Some 1), (Ok, Some 4), (Empty, None)], s')"
  using ring_is_bounded_deque [of "ring_sample ring_policy_overwrite_on_full 2" env_sample 0
      "[Push_back 1, Push_front 2, Push_back 3, Push_front 4, Pop_back, Pop_front, Pop_front]"]
    ring_sample_wf [of 2 ring_policy_overwrite_on_full]
  by (auto simp: PTRDIFF_MAX_def)

text \<open>
  C9. A push on any well-formed ring is memory safe and keeps the invariant, whatever the copy
  callback does and whatever the allocators answer; only the doubled capacity must still be
  addressable when the ring may grow.
\<close>

theorem ring_push_back_safe:
  assumes "ring_wf s" and "growable s \<Longrightarrow> ring_can_double s"
  shows "\<exists>st s'. ring_push_back env s elem allow = Some (st, s') \<and> ring_wf s'"
  using assms by (rule ring_push_back_total)

theorem ring_push_back_safe_witness:
  "\<exists>st s'. ring_push_back env_sample (ring_sample ring_policy_growable 1) (Some 5) False = Some (st, s') \<and> ring_wf s'"
  by (rule ring_push_back_safe) (simp_all add: ring_sample_wf PTRDIFF_MAX_def ring_can_double_def)

text \<open>
  C10. A push on a full growable ring, with the memory granted, doubles the capacity, keeps every
  element in order and appends the new one.
\<close>

theorem ring_push_back_grows:
  assumes wf: "ring_wf s" and f: "faithful (rb_policy s)" and g: "growable s" and full: "rb_count s = rb_capacity s"
    and d: "ring_can_double s" and a: "ring_can_grow env s (2 * rb_capacity s)"
  shows "\<exists>s'. ring_push_back env s (Some e) allow = Some (Ok, s') \<and> ring_wf s' \<and>
    rb_capacity s' = 2 * rb_capacity s \<and> ring_contents s' = ring_contents s @ [e]"
proof -
  from ring_ensure_room_granted [OF wf full g d a] obtain t where t: "ring_ensure_room env s = Some (Ok, t)"
    "ring_wf t" "ring_contents t = ring_contents s" "rb_capacity t = 2 * rb_capacity s"
    "rb_count t = rb_count s" "rb_policy t = rb_policy s" by auto
  have c: "0 < rb_capacity s" using wf by (auto elim: ring_wfE)
  with t full have "rb_count t < rb_capacity t" by simp
  from ring_push_back_slot_ok [OF t(2) this, of e] t f full g c show ?thesis
    by (auto simp: ring_push_back_def ring_frame_def)
qed

definition ring_sample_full :: "nat ring" where
  "ring_sample_full = (ring_sample ring_policy_growable 1)\<lparr>rb_count := 1\<rparr>"

theorem ring_push_back_grows_witness:
  "\<exists>s'. ring_push_back env_sample ring_sample_full (Some 5) False = Some (Ok, s') \<and> ring_wf s' \<and>
    rb_capacity s' = 2 \<and> ring_contents s' = [0, 5]"
  using ring_push_back_grows [of ring_sample_full env_sample 5 False]
  by (simp add: ring_sample_full_def ring_wf_def PTRDIFF_MAX_def SIZE_MAX_def ring_can_double_def ring_can_grow_def
      ring_new_storage_def ring_contents_def ring_items_def storage_heap_def)

section \<open>Contiguous regions\<close>

text \<open>
  The readable region \<open>readable_contiguous\<close> reports lies inside the storage exactly when the
  elements do not wrap around the end of the storage; then it holds all of them, in order. When
  they wrap, the count it returns runs past the end of the storage.
\<close>

theorem ring_readable_region:
  assumes wf: "ring_wf s" and ne: "ring_contents s \<noteq> []" and st: "rb_storage s = Some xs"
  shows "\<exists>n. ring_readable_contiguous s True = (n, Some (rb_tail s)) \<and> n = length (ring_contents s) \<and>
    (if rb_tail s + n \<le> rb_capacity s then ring_contents s = take n (drop (rb_tail s) xs)
     else rb_tail s + n > rb_capacity s \<and> rb_head s \<le> rb_tail s)"
proof -
  from wf st have c: "0 < rb_capacity s" "rb_capacity s \<le> length xs" "rb_tail s < rb_capacity s"
    "rb_count s \<le> rb_capacity s" "rb_head s = (rb_tail s + rb_count s) mod rb_capacity s"
    by (auto elim!: ring_wfE)
  have cnt: "0 < rb_count s" using ne length_ring_contents [OF wf] by (metis length_greater_0_conv)
  have le: "rb_capacity s \<le> SIZE_MAX" using ring_wf_PTRDIFF [OF wf] PTRDIFF_MAX_SIZE_MAX by fastforce
  have head: "rb_head s = (if rb_tail s + rb_count s < rb_capacity s then rb_tail s + rb_count s
      else rb_tail s + rb_count s - rb_capacity s)"
    using c by (simp add: mod_if)
  have n: "ring_readable_contiguous s True = (rb_count s, Some (rb_tail s))"
    using cnt head c le by (auto simp: ring_readable_contiguous_def ring_empty_def sz_sub_eq split: if_splits)
  have "ring_contents s = take (rb_count s) (drop (rb_tail s) xs)" if "rb_tail s + rb_count s \<le> rb_capacity s"
    using that st c by (intro nth_equalityI) simp_all
  with n head c length_ring_contents [OF wf] show ?thesis by auto
qed

theorem ring_readable_region_witness:
  "\<exists>n. ring_readable_contiguous ring_sample_full True = (n, Some 0) \<and> n = 1"
  using ring_readable_region [of ring_sample_full "[0]"]
  by (simp add: ring_sample_full_def ring_wf_def PTRDIFF_MAX_def ring_contents_def ring_items_def)

text \<open>
  When the free slots lie between head and tail, \<open>writable_contiguous\<close> computes
  \<open>head - tail\<close>, which wraps below zero: the size it reports exceeds the capacity, while only
  \<open>tail - head\<close> slots may be written.
\<close>

theorem ring_writable_region_underflows:
  assumes wf: "ring_wf s" and room: "rb_count s < rb_capacity s" and wrap: "rb_head s < rb_tail s"
  shows "\<exists>n. ring_writable_contiguous env s True = Some (n, Some (rb_head s), s) \<and>
    n = SIZE_MOD - (rb_tail s - rb_head s) \<and> rb_capacity s < n \<and>
    rb_capacity s - rb_count s = rb_tail s - rb_head s"
proof -
  from wf have c: "0 < rb_capacity s" "rb_tail s < rb_capacity s"
    "rb_count s \<le> rb_capacity s" "rb_head s = (rb_tail s + rb_count s) mod rb_capacity s"
    by (auto elim!: ring_wfE)
  have le: "rb_capacity s \<le> PTRDIFF_MAX" by (rule ring_wf_PTRDIFF [OF wf])
  have head: "rb_head s = rb_tail s + rb_count s - rb_capacity s" "rb_capacity s \<le> rb_tail s + rb_count s"
    using c wrap by (auto simp: mod_if split: if_splits)
  have "rb_tail s mod SIZE_MOD = rb_tail s" using c le by (simp add: PTRDIFF_MAX_def)
  then have "sz_sub (rb_head s) (rb_tail s) = SIZE_MOD - (rb_tail s - rb_head s)"
    using wrap c le by (simp add: sz_sub_def PTRDIFF_MAX_def)
  with room wrap have "ring_writable_contiguous env s True =
      Some (SIZE_MOD - (rb_tail s - rb_head s), Some (rb_head s), s)"
    by (simp add: ring_writable_contiguous_def)
  moreover have "rb_capacity s < SIZE_MOD - (rb_tail s - rb_head s)"
    using c le by (simp add: PTRDIFF_MAX_def)
  ultimately show ?thesis using head c by auto
qed

definition ring_sample_wrapped :: "nat ring" where
  "ring_sample_wrapped = (ring_sample 0 4)\<lparr>rb_tail := 3, rb_head := 1, rb_count := 2\<rparr>"

theorem ring_writable_region_underflows_witness:
  "\<exists>n. ring_writable_contiguous env_sample ring_sample_wrapped True = Some (n, Some 1, ring_sample_wrapped) \<and>
    n = SIZE_MOD - 2 \<and> 4 < n"
  using ring_writable_region_underflows [of ring_sample_wrapped env_sample]
  by (simp add: ring_sample_wrapped_def ring_wf_def PTRDIFF_MAX_def)

section \<open>Growing without an overflow check\<close>

text \<open>
  \<open>reserve\<close> multiplies the new capacity by the element size without an overflow check. When the
  product wraps below the bytes in use and the allocation of the wrapped size succeeds, moving the
  elements writes past the new block.
\<close>

theorem ring_reserve_overflow:
  assumes wf: "ring_wf s" and g: "growable s" and more: "rb_capacity s < m"
    and cap: "grow_capacity (rb_capacity s) m = Some n" and sz: "rb_count s \<le> n"
    and wraps: "sz_mul n (ep_size (rb_policy s)) div ep_size (rb_policy s) < rb_count s"
    and granted: "fst (ring_new_storage env s (sz_mul n (ep_size (rb_policy s)))) = Ok"
    and rt: "ep_runtime (rb_policy s)"
  shows "ring_reserve env s m = None"
proof -
  let ?b = "sz_mul n (ep_size (rb_policy s))"
  obtain new kind where new: "ring_new_storage env s ?b = (Ok, new, kind)"
    using granted by (cases "ring_new_storage env s ?b") auto
  then have "new = Some (new_block env ?b (ep_size (rb_policy s)))" by (rule ring_new_storage_block)
  then have "ring_move_loop (s\<lparr>rb_kind := kind\<rparr>) new 0 (rb_count s) = None"
    using wraps rt by (subst ring_move_loop_short [OF \<open>new = _\<close>]) simp_all
  with new g more cap sz show ?thesis
    by (simp add: ring_reserve_def ring_relinearize_def Let_def)
qed

theorem ring_reserve_overflow_witness:
  "ring_reserve env_sample (ring_sample_full\<lparr>rb_policy := runtime_element_policy 16 8 None False\<rparr>) (2 ^ 61) = None"
proof (rule ring_reserve_overflow)
  show "grow_capacity (rb_capacity (ring_sample_full\<lparr>rb_policy := runtime_element_policy 16 8 None False\<rparr>)) (2 ^ 61)
      = Some (2 ^ 61)"
    using grow_loop_pow2 [of 0 61] by (simp add: ring_sample_full_def grow_capacity_def)
qed (simp_all add: ring_sample_full_def ring_wf_def PTRDIFF_MAX_def runtime_element_policy_def sz_mul_def
    ring_new_storage_def storage_heap_def Let_def)

end
