(* ===== verification/Arena.thy ===== *)
theory Arena
  imports Contracts
begin

text \<open>
  The bump allocator: \<open>memkit::memory::arena\<close> (\<^verbatim>\<open>include/memkit/memory/arena.hpp\<close>)
  and its C twin (\<^verbatim>\<open>src/arena.cpp\<close>, \<^verbatim>\<open>include/arena.h\<close>).

  Addresses and sizes are 64-bit words and every comparison is the unsigned one of the code; address 0
  is the null pointer. An out parameter is \<open>None\<close> when the pointer to it is null and is returned
  updated. What \<open>malloc\<close> and \<open>mmap\<close> answer, and which back ends are compiled in, are
  arguments.
\<close>

section \<open>memory/arena.hpp\<close>

record arena =
  ar_base :: u64
  ar_capacity :: u64
  ar_offset :: u64
  ar_count :: u64

definition arena_remaining :: "arena \<Rightarrow> u64" where
  "arena_remaining s = (if ar_offset s > ar_capacity s then 0 else ar_capacity s - ar_offset s)"

definition arena_reset :: "arena \<Rightarrow> arena" where
  "arena_reset s = s\<lparr>ar_offset := 0, ar_count := 0\<rparr>"

definition arena_allocate :: "arena \<Rightarrow> u64 \<Rightarrow> u64 \<Rightarrow> u64 option \<Rightarrow> status \<times> u64 option \<times> arena" where
  "arena_allocate s n alignment out =
     (if out = None then (Null_ptr, None, s)
      else if ar_base s = 0 \<or> ar_capacity s = 0 then (Null_ptr, Some 0, s)
      else if n = 0 \<or> alignment = 0 \<or> \<not> is_power_of_two alignment then (Invalid, Some 0, s)
      else if ar_offset s > ar_capacity s then (Oom, Some 0, s)
      else
        let raw_addr = ar_base s + ar_offset s in
        if raw_addr < ar_base s then (Oom, Some 0, s)
        else
          let aligned_addr = align_up_address raw_addr alignment;
              aligned_offset = aligned_addr - ar_base s
          in if aligned_offset < ar_offset s then (Oom, Some 0, s)
             else if add_would_overflow aligned_offset n then (Oom, Some 0, s)
             else
               let new_offset = aligned_offset + n in
               if new_offset > ar_capacity s then (Oom, Some 0, s)
               else (Ok, Some aligned_addr, s\<lparr>ar_offset := new_offset, ar_count := ar_count s + 1\<rparr>))"

text \<open>\<open>memset\<close> on a memory from addresses to bytes.\<close>

definition zero_fill :: "(u64 \<Rightarrow> u8) \<Rightarrow> u64 \<Rightarrow> u64 \<Rightarrow> u64 \<Rightarrow> u8" where
  "zero_fill mem p n = (\<lambda>a. if unat p \<le> unat a \<and> unat a < unat p + unat n then 0 else mem a)"

definition arena_calloc ::
  "arena \<Rightarrow> (u64 \<Rightarrow> u8) \<Rightarrow> u64 \<Rightarrow> u64 \<Rightarrow> u64 \<Rightarrow> u64 option \<Rightarrow> status \<times> u64 option \<times> arena \<times> (u64 \<Rightarrow> u8)" where
  "arena_calloc s mem count n alignment out =
     (if count \<noteq> 0 \<and> mul_would_overflow count n then (Invalid, out, s, mem)
      else
        let total = count * n;
            (st, out', s') = arena_allocate s total alignment out
        in if st \<noteq> Ok then (st, out', s', mem)
           else (Ok, out', s', zero_fill mem (the out') total))"

section \<open>src/arena.cpp\<close>

datatype arena_status = Arena_ok | Arena_err_null | Arena_err_invalid | Arena_err_oom | Arena_err_unsupported

record arena_t =
  at_base :: u64
  at_capacity :: u64
  at_offset :: u64
  at_count :: u64
  at_flags :: u32

definition arena_zero :: arena_t where
  "arena_zero = \<lparr>at_base = 0, at_capacity = 0, at_offset = 0, at_count = 0, at_flags = 0\<rparr>"

definition flag_owns :: u32 where "flag_owns = 1"
definition flag_dynamic :: u32 where "flag_dynamic = 2"
definition flag_mmap :: u32 where "flag_mmap = 4"

record arena_config =
  ac_backing :: u64
  ac_bytes :: u64
  ac_flags :: u32

datatype arena_backing = Backing_user_buffer | Backing_heap | Backing_mmap

text \<open>The build options, and what the allocation functions of the platform answer.\<close>

record arena_env =
  ae_allow_heap :: bool
  ae_allow_mmap :: bool
  ae_malloc_arena :: "u64 option"
  ae_malloc :: "u64 \<Rightarrow> u64 option"
  ae_mmap :: "u64 \<Rightarrow> (u64 \<times> u64) option"

datatype release = Munmap u64 u64 | Free u64

definition arena_ptr_is_valid :: "arena_t option \<Rightarrow> bool" where
  "arena_ptr_is_valid arena = (case arena of None \<Rightarrow> False | Some a \<Rightarrow> at_base a \<noteq> 0 \<and> at_capacity a > 0)"

definition arena_validate_config :: "arena_config option \<Rightarrow> arena_status" where
  "arena_validate_config config =
     (case config of
        None \<Rightarrow> Arena_err_null
      | Some c \<Rightarrow> if ac_backing c = 0 \<or> ac_bytes c = 0 then Arena_err_invalid else Arena_ok)"

definition arena_init :: "arena_t option \<Rightarrow> arena_config option \<Rightarrow> arena_status \<times> arena_t option" where
  "arena_init arena config =
     (let st = arena_validate_config config in
      if st \<noteq> Arena_ok then (st, arena)
      else case arena of
        None \<Rightarrow> (Arena_err_null, arena)
      | Some _ \<Rightarrow>
          (Arena_ok, Some \<lparr>at_base = ac_backing (the config), at_capacity = ac_bytes (the config),
             at_offset = 0, at_count = 0,
             at_flags = ac_flags (the config) AND (flag_owns OR flag_dynamic OR flag_mmap)\<rparr>))"

text \<open>What \<open>arena_release_backing\<close> hands back to the platform.\<close>

definition arena_release_backing :: "arena_env \<Rightarrow> arena_t \<Rightarrow> release list" where
  "arena_release_backing env a =
     (if at_flags a AND flag_owns = 0 \<or> at_base a = 0 then []
      else if ae_allow_mmap env \<and> at_flags a AND flag_mmap \<noteq> 0 then [Munmap (at_base a) (at_capacity a)]
      else if ae_allow_heap env \<and> at_flags a AND flag_dynamic \<noteq> 0 then [Free (at_base a)]
      else [])"

definition arena_acquire_backing ::
  "arena_env \<Rightarrow> arena_t \<Rightarrow> u64 \<Rightarrow> arena_backing \<Rightarrow> arena_status \<times> arena_t" where
  "arena_acquire_backing env a bytes backing =
     (if ae_allow_mmap env \<and> backing = Backing_mmap then
        (case ae_mmap env bytes of
           None \<Rightarrow> (Arena_err_oom, a)
         | Some (p, n) \<Rightarrow>
             (Arena_ok, a\<lparr>at_base := p, at_capacity := n, at_flags := at_flags a OR (flag_owns OR flag_mmap)\<rparr>))
      else if ae_allow_heap env \<and> backing = Backing_heap then
        (case ae_malloc env bytes of
           None \<Rightarrow> (Arena_err_oom, a)
         | Some p \<Rightarrow>
             (Arena_ok, a\<lparr>at_base := p, at_capacity := bytes, at_flags := at_flags a OR (flag_owns OR flag_dynamic)\<rparr>))
      else (Arena_err_unsupported, a))"

text \<open>
  The creators return the new arena object, if any, and its address; the object comes from
  \<open>malloc\<close> and is freed again when the backing is not granted.
\<close>

definition arena_create_impl ::
  "arena_env \<Rightarrow> bool \<Rightarrow> u64 \<Rightarrow> arena_backing \<Rightarrow> arena_status \<times> (u64 \<times> arena_t) option \<times> release list" where
  "arena_create_impl env has_out bytes backing =
     (if \<not> has_out then (Arena_err_null, None, [])
      else if bytes = 0 then (Arena_err_invalid, None, [])
      else if ae_allow_heap env \<or> ae_allow_mmap env then
        (case ae_malloc_arena env of
           None \<Rightarrow> (Arena_err_oom, None, [])
         | Some obj \<Rightarrow>
             (let (st, a) = arena_acquire_backing env arena_zero bytes backing in
              if st \<noteq> Arena_ok then (st, None, [Free obj]) else (Arena_ok, Some (obj, a), [])))
      else (Arena_err_unsupported, None, []))"

definition arena_create_with_backing ::
  "arena_env \<Rightarrow> bool \<Rightarrow> u64 \<Rightarrow> arena_backing \<Rightarrow> arena_status \<times> (u64 \<times> arena_t) option \<times> release list" where
  "arena_create_with_backing env has_out bytes backing =
     (if \<not> ae_allow_mmap env \<and> backing = Backing_mmap then (Arena_err_unsupported, None, [])
      else if \<not> ae_allow_heap env \<and> backing = Backing_heap then (Arena_err_unsupported, None, [])
      else arena_create_impl env has_out bytes backing)"

definition arena_deinit :: "arena_env \<Rightarrow> arena_t option \<Rightarrow> arena_t option \<times> release list" where
  "arena_deinit env arena =
     (case arena of
        None \<Rightarrow> (None, [])
      | Some a \<Rightarrow> (Some arena_zero, arena_release_backing env a))"

text \<open>\<open>arena_destroy\<close> on the object at address \<open>obj\<close>.\<close>

definition arena_destroy :: "arena_env \<Rightarrow> (u64 \<times> arena_t) option \<Rightarrow> release list" where
  "arena_destroy env arena =
     (case arena of
        None \<Rightarrow> []
      | Some (obj, a) \<Rightarrow>
          snd (arena_deinit env (Some a)) @ (if ae_allow_heap env \<or> ae_allow_mmap env then [Free obj] else []))"

definition arena_t_reset :: "arena_t option \<Rightarrow> arena_t option" where
  "arena_t_reset arena = map_option (\<lambda>a. a\<lparr>at_offset := 0, at_count := 0\<rparr>) arena"

definition arena_alloc ::
  "arena_t option \<Rightarrow> u64 \<Rightarrow> u64 \<Rightarrow> u64 option \<Rightarrow> arena_status \<times> u64 option \<times> arena_t option" where
  "arena_alloc arena n alignment out =
     (if out = None then (Arena_err_null, None, arena)
      else if \<not> arena_ptr_is_valid arena then (Arena_err_null, Some 0, arena)
      else if n = 0 \<or> alignment = 0 \<or> alignment AND (alignment - 1) \<noteq> 0
      then (Arena_err_invalid, Some 0, arena)
      else
        let a = the arena in
        if at_offset a > at_capacity a then (Arena_err_oom, Some 0, arena)
        else
          let raw_addr = at_base a + at_offset a in
          if raw_addr < at_base a then (Arena_err_oom, Some 0, arena)
          else
            let aligned_addr = (raw_addr + alignment - 1) AND NOT (alignment - 1);
                aligned_offset = aligned_addr - at_base a
            in if aligned_offset < at_offset a then (Arena_err_oom, Some 0, arena)
               else if add_would_overflow aligned_offset n then (Arena_err_oom, Some 0, arena)
               else
                 let new_offset = aligned_offset + n in
                 if new_offset > at_capacity a then (Arena_err_oom, Some 0, arena)
                 else (Arena_ok, Some aligned_addr,
                       Some (a\<lparr>at_offset := new_offset, at_count := at_count a + 1\<rparr>)))"

definition arena_t_calloc ::
  "arena_t option \<Rightarrow> (u64 \<Rightarrow> u8) \<Rightarrow> u64 \<Rightarrow> u64 \<Rightarrow> u64 \<Rightarrow> u64 option \<Rightarrow>
   arena_status \<times> u64 option \<times> arena_t option \<times> (u64 \<Rightarrow> u8)" where
  "arena_t_calloc arena mem count n alignment out =
     (if count \<noteq> 0 \<and> mul_would_overflow count n then (Arena_err_invalid, out, arena, mem)
      else
        let total = count * n;
            (st, out', arena') = arena_alloc arena total alignment out
        in if st \<noteq> Arena_ok then (st, out', arena', mem)
           else (Arena_ok, out', arena', zero_fill mem (the out') total))"

record arena_stats_t =
  as_capacity :: u64
  as_used :: u64
  as_remaining :: u64
  as_count :: u64

definition arena_stats ::
  "arena_t option \<Rightarrow> arena_stats_t option \<Rightarrow> arena_status \<times> arena_stats_t option" where
  "arena_stats arena out =
     (if out = None then (Arena_err_null, out)
      else if \<not> arena_ptr_is_valid arena then (Arena_err_null, out)
      else
        let a = the arena in
        if at_offset a > at_capacity a then (Arena_err_invalid, out)
        else (Arena_ok, Some \<lparr>as_capacity = at_capacity a, as_used = at_offset a,
                as_remaining = at_capacity a - at_offset a, as_count = at_count a\<rparr>))"

section \<open>Correctness\<close>

text \<open>
  The backing is an object of the platform: it does not start at address 0 and ends below
  \<open>2 ^ 64\<close>.
\<close>

definition arena_wf :: "arena \<Rightarrow> bool" where
  "arena_wf s \<longleftrightarrow>
     unat (ar_base s) + unat (ar_capacity s) < 2 ^ 64 \<and> ar_offset s \<le> ar_capacity s"

definition arena_used :: "arena \<Rightarrow> nat" where
  "arena_used s = unat (ar_base s) + unat (ar_offset s)"

definition arena_limit :: "arena \<Rightarrow> nat" where
  "arena_limit s = unat (ar_base s) + unat (ar_capacity s)"

lemma unat_add_u64: "unat a + unat b < 2 ^ 64 \<Longrightarrow> unat (a + b :: u64) = unat a + unat b"
  by (subst unat_add_lem [symmetric]) simp

lemma unat_minus_u64: "b \<le> a \<Longrightarrow> unat (a - b :: u64) = unat a - unat b"
  by (rule unat_sub)

text \<open>The addition in \<open>align_up\<close> wraps only past the end of the address space; then the result is 0.\<close>

lemma align_up_wrapped:
  assumes "k < 64" "2 ^ 64 < unat v + 2 ^ k"
  shows "align_up v (2 ^ k) = 0"
proof -
  have m: "(2 ^ k :: u64) - 1 = mask k" by (simp add: mask_eq_exp_minus_1)
  have um: "unat (mask k :: u64) = 2 ^ k - 1" using assms(1) by (rule unat_mask_u64)
  have "(1::nat) \<le> 2 ^ k" by simp
  then have ge: "2 ^ 64 \<le> unat v + (2 ^ k - 1)" using assms(2) by linarith
  have "unat (v + mask k) = (unat v + (2 ^ k - 1)) mod 2 ^ 64"
    unfolding unat_word_ariths um by simp
  also have "\<dots> = (unat v + (2 ^ k - 1) - 2 ^ 64) mod 2 ^ 64"
    using ge by (rule le_mod_geq)
  also have "\<dots> = unat v + (2 ^ k - 1) - 2 ^ 64"
    using unsigned_less [of v, where 'a = nat] power_strict_increasing [OF assms(1), of "2 :: nat"]
    by (intro mod_less) simp
  also have "\<dots> < 2 ^ k"
  proof -
    have "unat v < 2 ^ 64" using unsigned_less [of v, where 'a = nat] by simp
    with ge \<open>(1::nat) \<le> 2 ^ k\<close> show ?thesis by linarith
  qed
  finally have "unat (v + mask k) < 2 ^ k" .
  then have "unat ((v + mask k) AND NOT (mask k)) = 0"
    by (simp add: unat_and_not_mask)
  then show ?thesis by (simp add: align_up_def m Let_def unat_eq_0)
qed

text \<open>The least multiple of \<open>a\<close> that is not below \<open>v\<close>.\<close>

definition round_up :: "nat \<Rightarrow> nat \<Rightarrow> nat" where
  "round_up v a = (v + (a - 1)) div a * a"

lemma round_up_bounds:
  assumes "0 < a"
  shows "v \<le> round_up v a" "round_up v a < v + a" "round_up v a mod a = 0"
proof -
  have "round_up v a = v + (a - 1) - (v + (a - 1)) mod a"
    by (simp add: round_up_def minus_mod_eq_div_mult)
  moreover have "(v + (a - 1)) mod a \<le> a - 1"
    using mod_less_divisor [OF assms, of "v + (a - 1)"] by linarith
  ultimately show "v \<le> round_up v a" "round_up v a < v + a"
    using assms by simp_all
qed (simp add: round_up_def)

lemma round_up_past_end:
  assumes "k < 64" "2 ^ 64 < v + 2 ^ k"
  shows "2 ^ 64 \<le> round_up v (2 ^ k)"
proof (rule ccontr)
  assume "\<not> 2 ^ 64 \<le> round_up v (2 ^ k)"
  moreover have eq: "(2 :: nat) ^ 64 = 2 ^ (64 - k) * 2 ^ k"
    using assms(1) by (simp add: power_add [symmetric] del: power_numeral)
  moreover obtain q where q: "round_up v (2 ^ k) = q * 2 ^ k" by (simp add: round_up_def)
  ultimately have "q * 2 ^ k < 2 ^ (64 - k) * 2 ^ k" by simp
  then have "q < 2 ^ (64 - k)" by (rule mult_less_cancel2 [THEN iffD1, THEN conjunct2])
  then have "(q + 1) * 2 ^ k \<le> 2 ^ (64 - k) * (2 :: nat) ^ k"
    by (intro mult_le_mono1) simp
  moreover have "v \<le> q * 2 ^ k" using round_up_bounds(1) [of "2 ^ k" v] q by simp
  ultimately show False using assms(2) eq by simp
qed

lemma arena_allocate_spec:
  assumes wf: "arena_wf s" and b: "ar_base s \<noteq> 0" and c: "ar_capacity s \<noteq> 0" and n: "n \<noteq> 0"
    and k: "k < 64"
  defines "a \<equiv> round_up (arena_used s) (2 ^ k)"
  shows "if a + unat n \<le> arena_limit s
    then \<exists>p s'. arena_allocate s n (2 ^ k) (Some q) = (Ok, Some p, s') \<and> unat p = a \<and>
      s' = s\<lparr>ar_offset := p - ar_base s + n, ar_count := ar_count s + 1\<rparr> \<and>
      unat (ar_offset s') = a + unat n - unat (ar_base s)
    else arena_allocate s n (2 ^ k) (Some q) = (Oom, Some 0, s)"
proof -
  let ?base = "ar_base s" and ?off = "ar_offset s" and ?cap = "ar_capacity s"
  define raw where "raw = ?base + ?off"
  define al where "al = align_up_address raw (2 ^ k)"
  define ao where "ao = al - ?base"
  have fit: "unat ?base + unat ?cap < 2 ^ 64" "unat ?off \<le> unat ?cap"
    using wf by (simp_all add: arena_wf_def word_le_nat_alt)
  have raw: "unat raw = unat ?base + unat ?off"
    unfolding raw_def using fit by (intro unat_add_u64) simp
  have used: "arena_used s = unat raw" by (simp add: arena_used_def raw)
  have nowrap: "\<not> raw < ?base" using raw by (simp add: word_less_nat_alt)
  have pw: "is_power_of_two (2 ^ k)" "(2 :: u64) ^ k \<noteq> 0"
    using is_power_of_two_exp [OF k] by (auto simp: is_power_of_two_def)
  have code: "arena_allocate s n (2 ^ k) (Some q) =
      (if ao < ?off \<or> add_would_overflow ao n \<or> ao + n > ?cap then (Oom, Some 0, s)
       else (Ok, Some al, s\<lparr>ar_offset := ao + n, ar_count := ar_count s + 1\<rparr>))"
    using b c n pw nowrap fit
    by (simp add: arena_allocate_def Let_def word_le_nat_alt word_less_nat_alt
        raw_def [symmetric] al_def [symmetric] ao_def [symmetric] not_less)
  show ?thesis
  proof (cases "2 ^ 64 < unat raw + 2 ^ k")
    case True
    have "al = 0" using k True by (simp add: al_def align_up_address_def align_up_wrapped)
    then have ao: "unat ao = 2 ^ 64 - unat ?base"
      using b unat_sub_if_size [of 0 ?base] by (simp add: ao_def word_size unat_eq_0)
    have big: "arena_limit s < a + unat n"
      using round_up_past_end [OF k True] fit(1) used by (simp add: a_def arena_limit_def)
    have "add_would_overflow ao n \<or> ao + n > ?cap"
    proof (cases "add_would_overflow ao n")
      case False
      then have "unat (ao + n) = unat ao + unat n"
        by (intro unat_add_u64) (simp add: add_would_overflow_iff)
      then have "unat ?cap < unat (ao + n)" using ao fit(1) by linarith
      then show ?thesis by (simp add: word_less_nat_alt)
    qed simp
    with code big show ?thesis by simp
  next
    case False
    then have le: "unat raw + 2 ^ k \<le> 2 ^ 64" by simp
    have al: "unat al = a"
      using unat_align_up [OF k le] by (simp add: al_def align_up_address_def a_def used round_up_def)
    have ge: "unat raw \<le> a" using round_up_bounds(1) [of "2 ^ k" "unat raw"] by (simp add: a_def used)
    then have "?base \<le> al" using al raw by (simp add: word_le_nat_alt)
    then have ao: "unat ao = a - unat ?base" using al by (simp add: ao_def unat_minus_u64)
    have off: "\<not> ao < ?off" using ao ge raw by (simp add: word_less_nat_alt)
    have ovf: "add_would_overflow ao n \<longleftrightarrow> 2 ^ 64 \<le> a - unat ?base + unat n"
      by (simp add: add_would_overflow_iff ao)
    have sum: "unat (ao + n) = a - unat ?base + unat n" if "\<not> add_would_overflow ao n"
      using that ovf ao by (subst unat_add_u64) simp_all
    have ba: "unat ?base \<le> a" using ge raw by simp
    show ?thesis
    proof (cases "a + unat n \<le> arena_limit s")
      case True
      then have "\<not> add_would_overflow ao n" using ovf ba fit by (simp add: arena_limit_def)
      moreover from this have "\<not> ao + n > ?cap"
        using sum True ba by (simp add: word_less_nat_alt arena_limit_def)
      ultimately show ?thesis
        using True code off al sum ba by (simp add: ao_def)
    next
      case False
      then have "add_would_overflow ao n \<or> ao + n > ?cap"
        using sum ba by (cases "add_would_overflow ao n") (simp_all add: word_less_nat_alt arena_limit_def)
      with False code show ?thesis by auto
    qed
  qed
qed

text \<open>Every request: what is granted, and that nothing changes otherwise.\<close>

definition arena_try :: "arena \<Rightarrow> u64 \<Rightarrow> u64 \<Rightarrow> u64 option \<times> arena" where
  "arena_try s n a = (let (st, p, s') = arena_allocate s n a (Some 0) in (if st = Ok then p else None, s'))"

lemma arena_allocate_refused:
  "arena_allocate s n a out = (st, p, s') \<Longrightarrow> st \<noteq> Ok \<Longrightarrow> s' = s \<and> p = map_option (\<lambda>_. 0) out"
  by (auto simp: arena_allocate_def Let_def split: if_splits)

lemma arena_allocate_out: "arena_allocate s n a out = (Ok, p, s') \<Longrightarrow> out \<noteq> None \<and> p \<noteq> None"
  by (auto simp: arena_allocate_def Let_def split: if_splits)

lemma arena_allocate_needs:
  assumes "arena_allocate s n a out = (Ok, p, s')"
  shows "ar_base s \<noteq> 0" "ar_capacity s \<noteq> 0" "n \<noteq> 0" "is_power_of_two a" "out \<noteq> None"
  using assms by (auto simp: arena_allocate_def Let_def split: if_splits)

lemma arena_allocate_out_irrelevant:
  "arena_allocate s n a (Some q) = arena_allocate s n a (Some r)"
  by (simp add: arena_allocate_def Let_def)

lemma arena_allocate_granted:
  assumes wf: "arena_wf s" and al: "arena_allocate s n a (Some q) = (Ok, Some p, s')"
  shows "arena_wf s' \<and> arena_used s \<le> unat p \<and> unat p + unat n = arena_used s' \<and>
    arena_used s' \<le> arena_limit s \<and> arena_limit s' = arena_limit s \<and> unat p mod unat a = 0 \<and> 0 < n"
proof -
  note needs = arena_allocate_needs [OF al]
  from needs(4) obtain k where k: "k < 64" and a: "a = 2 ^ k" by (rule is_power_of_two_cases)
  let ?a = "round_up (arena_used s) (2 ^ k)"
  from arena_allocate_spec [OF wf needs(1,2,3) k, of q] al a
  have fit: "?a + unat n \<le> arena_limit s" and s': "unat p = ?a"
    "s' = s\<lparr>ar_offset := p - ar_base s + n, ar_count := ar_count s + 1\<rparr>"
    "unat (ar_offset s') = ?a + unat n - unat (ar_base s)"
    by (auto split: if_splits)
  have ge: "arena_used s \<le> ?a" by (rule round_up_bounds) simp
  then have ba: "unat (ar_base s) \<le> ?a" by (simp add: arena_used_def)
  have same: "ar_base s' = ar_base s" "ar_capacity s' = ar_capacity s" using s'(2) by simp_all
  have used: "arena_used s' = ?a + unat n" using s'(3) same ba by (simp add: arena_used_def)
  then have "ar_offset s' \<le> ar_capacity s'"
    using fit same by (simp add: word_le_nat_alt arena_used_def arena_limit_def)
  with wf same have "arena_wf s'" by (simp add: arena_wf_def)
  with ge fit used s'(1) same a k needs(3) round_up_bounds(3) [of "2 ^ k" "arena_used s"] show ?thesis
    by (simp add: arena_limit_def word_gt_0 unat_power_of_two)
qed

interpretation bump: bump_allocator arena_wf arena_used arena_limit arena_try
proof unfold_locales
  fix s n a p s'
  assume wf: "arena_wf s"
  show "arena_wf s' \<and> arena_used s \<le> unat p \<and> unat p + unat n = arena_used s' \<and> arena_used s' \<le> arena_limit s \<and>
      arena_limit s' = arena_limit s \<and> unat p mod unat a = 0 \<and> 0 < n" if "arena_try s n a = (Some p, s')"
    using that wf arena_allocate_granted [of s n a 0 p s']
    by (auto simp: arena_try_def Let_def split: prod.splits if_splits)
  show "s' = s" if "arena_try s n a = (None, s')"
    using that arena_allocate_refused [of s n a "Some 0"] arena_allocate_out [of s n a "Some 0"]
    by (auto simp: arena_try_def Let_def split: prod.splits if_splits)
qed

section \<open>The C arena is the same allocator\<close>

definition arena_of :: "arena_t \<Rightarrow> arena" where
  "arena_of a = \<lparr>ar_base = at_base a, ar_capacity = at_capacity a, ar_offset = at_offset a, ar_count = at_count a\<rparr>"

fun arena_status_of :: "arena_status \<Rightarrow> status" where
  "arena_status_of Arena_ok = Ok"
| "arena_status_of Arena_err_null = Null_ptr"
| "arena_status_of Arena_err_invalid = Invalid"
| "arena_status_of Arena_err_oom = Oom"
| "arena_status_of Arena_err_unsupported = Unsupported"

lemma arena_alloc_simulates:
  "arena_allocate (arena_of a) n al out =
     (case arena_alloc (Some a) n al out of
        (st, p, a') \<Rightarrow> (arena_status_of st, p, arena_of (the a')))"
  by (simp add: arena_allocate_def arena_alloc_def arena_of_def arena_ptr_is_valid_def align_up_address_def
      align_up_def is_power_of_two_def Let_def word_gt_0 add_diff_eq)

lemma arena_alloc_flags:
  "arena_alloc (Some a) n al out = (st, p, a') \<Longrightarrow> \<exists>b. a' = Some b \<and> at_flags b = at_flags a"
  by (auto simp: arena_alloc_def Let_def split: if_splits)

definition arena_t_try :: "arena_t \<Rightarrow> u64 \<Rightarrow> u64 \<Rightarrow> u64 option \<times> arena_t" where
  "arena_t_try s n a =
     (let (st, p, s') = arena_alloc (Some s) n a (Some 0) in (if st = Arena_ok then p else None, the s'))"

lemma arena_status_of_Ok: "arena_status_of st = Ok \<longleftrightarrow> st = Arena_ok"
  by (cases st) simp_all

lemma arena_t_try_simulates: "arena_try (arena_of s) n a = (fst (arena_t_try s n a), arena_of (snd (arena_t_try s n a)))"
  by (simp add: arena_try_def arena_t_try_def arena_alloc_simulates arena_status_of_Ok Let_def split: prod.splits)

lemma arena_alloc_unchanged:
  "arena_alloc arena n al out = (st, p, arena') \<Longrightarrow> st \<noteq> Arena_ok \<Longrightarrow> arena' = arena"
  by (auto simp: arena_alloc_def Let_def split: if_splits)

interpretation bump_c: bump_allocator "\<lambda>s. arena_wf (arena_of s)" "\<lambda>s. arena_used (arena_of s)"
  "\<lambda>s. arena_limit (arena_of s)" arena_t_try
proof unfold_locales
  fix s n a p s'
  assume wf: "arena_wf (arena_of s)"
  show "arena_wf (arena_of s') \<and> arena_used (arena_of s) \<le> unat p \<and> unat p + unat n = arena_used (arena_of s') \<and>
      arena_used (arena_of s') \<le> arena_limit (arena_of s) \<and> arena_limit (arena_of s') = arena_limit (arena_of s) \<and>
      unat p mod unat a = 0 \<and> 0 < n" if "arena_t_try s n a = (Some p, s')"
    using that arena_t_try_simulates [of s n a] by (intro bump.granted [OF wf]) simp
  show "s' = s" if "arena_t_try s n a = (None, s')"
    using that arena_alloc_unchanged [of "Some s" n a "Some 0"] arena_allocate_out [of "arena_of s" n a "Some 0"]
    by (auto simp: arena_t_try_def arena_alloc_simulates Let_def split: prod.splits if_splits)
qed

section \<open>Properties\<close>

text \<open>
  C4. However many blocks are requested from an arena, the granted ones are aligned as asked, lie
  inside the backing above what was handed out before, and do not overlap.
\<close>

theorem arena_blocks_disjoint:
  assumes "arena_wf s" "alloc_run arena_try s requests = (blocks, s')"
  shows "arena_wf s' \<and> (\<forall>b \<in> set blocks. block_ok (arena_used s) (arena_limit s) b) \<and> sorted_wrt below blocks"
  using assms by (rule bump.alloc_run_blocks)

definition arena_sample :: arena where
  "arena_sample = \<lparr>ar_base = 4100, ar_capacity = 64, ar_offset = 0, ar_count = 0\<rparr>"

lemma arena_sample_run:
  "alloc_run arena_try arena_sample [(5, 8), (3, 3), (16, 16), (64, 1)] =
    ([(4104, 5, 8), (4112, 16, 16)], \<lparr>ar_base = 4100, ar_capacity = 64, ar_offset = 28, ar_count = 2\<rparr>)"
  by code_simp

theorem arena_blocks_disjoint_witness:
  "sorted_wrt below [(4104, 5, 8), (4112, 16, 16)] \<and> block_ok 4100 4164 (4112, 16, 16)"
proof -
  have "arena_wf arena_sample" "arena_used arena_sample = 4100" "arena_limit arena_sample = 4164"
    by (simp_all add: arena_sample_def arena_wf_def arena_used_def arena_limit_def)
  with arena_blocks_disjoint [OF _ arena_sample_run] show ?thesis by simp
qed

text \<open>
  C5. \<open>allocate\<close> fails only for lack of room: a request of \<open>n > 0\<close> bytes at a power-of-two alignment
  is granted, at the least aligned address, exactly when the block ends inside the backing, even
  when rounding up wraps around the address space.
\<close>

theorem arena_allocate_complete:
  assumes "arena_wf s" "ar_base s \<noteq> 0" "ar_capacity s \<noteq> 0" "n \<noteq> 0" "k < 64"
  shows "if round_up (arena_used s) (2 ^ k) + unat n \<le> arena_limit s
    then \<exists>p s'. arena_allocate s n (2 ^ k) (Some q) = (Ok, Some p, s') \<and>
      unat p = round_up (arena_used s) (2 ^ k) \<and> ar_count s' = ar_count s + 1
    else arena_allocate s n (2 ^ k) (Some q) = (Oom, Some 0, s)"
  using arena_allocate_spec [OF assms, of q] by (auto split: if_splits)

theorem arena_allocate_complete_witness:
  "\<exists>p s'. arena_allocate arena_sample 16 (2 ^ 4) (Some 1) = (Ok, Some p, s') \<and> unat p = 4112"
  using arena_allocate_complete [of arena_sample 16 4 1]
  by (auto simp: arena_sample_def arena_wf_def arena_used_def arena_limit_def round_up_def)

text \<open>
  \<open>arena_alloc\<close> of the C API computes what \<open>arena::allocate\<close> computes, status by status and
  field by field, and leaves the flags alone.
\<close>

theorem arena_c_equals_cpp:
  "arena_allocate (arena_of a) n al out =
     (case arena_alloc (Some a) n al out of
        (st, p, a') \<Rightarrow> (arena_status_of st, p, arena_of (the a')))"
  by (rule arena_alloc_simulates)

text \<open>
  \<open>calloc\<close> refuses a product that overflows; a granted block has the full \<open>count * n\<close> bytes, all
  zero, and no byte outside it changes.
\<close>

theorem arena_calloc_zeroes:
  assumes wf: "arena_wf s" and r: "arena_calloc s mem count n a (Some q) = (Ok, Some p, s', mem')"
  shows "unat count * unat n < 2 ^ 64 \<and> unat p + unat count * unat n = arena_used s' \<and>
    arena_used s \<le> unat p \<and> arena_used s' \<le> arena_limit s \<and>
    (\<forall>x. mem' x = (if unat p \<le> unat x \<and> unat x < unat p + unat count * unat n then 0 else mem x))"
proof -
  have nov: "\<not> (count \<noteq> 0 \<and> mul_would_overflow count n)"
    using r by (auto simp: arena_calloc_def)
  then have lt: "unat count * unat n < 2 ^ 64"
    by (auto simp: mul_would_overflow_iff)
  then have prod: "unat (count * n) = unat count * unat n"
    by (subst unat_mult_lem [symmetric]) simp
  from nov r have al: "arena_allocate s (count * n) a (Some q) = (Ok, Some p, s')"
    and mem': "mem' = zero_fill mem p (count * n)"
    by (auto simp: arena_calloc_def Let_def split: prod.splits if_splits)
  from arena_allocate_granted [OF wf al] lt prod mem' show ?thesis
    by (auto simp: zero_fill_def)
qed

theorem arena_calloc_zeroes_witness:
  "\<exists>s' mem'. arena_calloc arena_sample (\<lambda>_. 9) 2 3 4 (Some 1) = (Ok, Some 4100, s', mem') \<and>
    mem' 4105 = 0 \<and> mem' 4106 = 9"
proof -
  have r: "arena_calloc arena_sample (\<lambda>_. 9) 2 3 4 (Some 1) =
      (Ok, Some 4100, arena_sample\<lparr>ar_offset := 6, ar_count := 1\<rparr>, zero_fill (\<lambda>_. 9) 4100 6)"
    by (simp add: arena_calloc_def arena_allocate_def arena_sample_def mul_would_overflow_def
        add_would_overflow_def is_power_of_two_def align_up_address_def align_up_def)
  have wf: "arena_wf arena_sample" by (simp add: arena_sample_def arena_wf_def)
  from arena_calloc_zeroes [OF wf r] r show ?thesis by simp
qed

text \<open>
  Lifecycle of the C arena: what \<open>arena_create_with_backing\<close> obtained, \<open>arena_destroy\<close> gives
  back to where it came from, the mapping with \<open>munmap\<close>, the heap block with \<open>free\<close>, and the
  arena object itself.
\<close>

theorem arena_destroy_releases:
  assumes "arena_create_with_backing env has_out bytes backing = (Arena_ok, Some (obj, a), freed)"
    and "at_base a \<noteq> 0"
  shows "freed = [] \<and> at_offset a = 0 \<and>
    arena_destroy env (Some (obj, a)) =
      (if backing = Backing_mmap then [Munmap (at_base a) (at_capacity a), Free obj]
       else [Free (at_base a), Free obj]) \<and>
    (backing = Backing_heap \<or> backing = Backing_mmap)"
  using assms
  by (cases backing)
     (auto simp: arena_create_with_backing_def arena_create_impl_def arena_acquire_backing_def arena_destroy_def
       arena_deinit_def arena_release_backing_def arena_zero_def flag_owns_def flag_dynamic_def flag_mmap_def Let_def
       split: if_splits option.splits)

theorem arena_destroy_releases_witness:
  "arena_destroy \<lparr>ae_allow_heap = True, ae_allow_mmap = False, ae_malloc_arena = Some 64,
      ae_malloc = (\<lambda>_. Some 4096), ae_mmap = (\<lambda>_. None)\<rparr>
     (Some (64, arena_zero\<lparr>at_base := 4096, at_capacity := 128, at_flags := 3\<rparr>)) = [Free 4096, Free 64]"
  using arena_destroy_releases [of "\<lparr>ae_allow_heap = True, ae_allow_mmap = False, ae_malloc_arena = Some 64,
      ae_malloc = (\<lambda>_. Some 4096), ae_mmap = (\<lambda>_. None)\<rparr>" True 128 Backing_heap 64
      "arena_zero\<lparr>at_base := 4096, at_capacity := 128, at_flags := 3\<rparr>" "[]"]
  by (simp add: arena_create_with_backing_def arena_create_impl_def arena_acquire_backing_def arena_zero_def
      flag_owns_def flag_dynamic_def)

end
