(* ===== verification/Spsc.thy ===== *)
theory Spsc
  imports Contracts
begin

text \<open>
  \<^verbatim>\<open>include/memkit/detail/spsc_queue_core.hpp\<close>: the single-producer single-consumer
  queue. First its operations as functions, as one thread sees them; then the two threads as a step
  relation at the granularity of the atomic accesses.

  The core is instantiated with a typed policy only (a runtime policy has no \<open>move_construct\<close>), so
  copies do not fail. The counters are 64-bit words; the storage is one cell per slot.
\<close>

section \<open>Operations\<close>

definition spsc_overwrite_on_full :: u8 where "spsc_overwrite_on_full = 2"

record 'e spsc =
  sq_pol :: "'e elem_policy"
  sq_storage :: "'e mem"
  sq_cap :: u64
  sq_mask :: u64
  sq_flags :: u8
  sq_head :: u64
  sq_tail :: u64
  sq_destroyed :: "'e list"

definition spsc_init :: "'e spsc \<Rightarrow> 'e elem_policy \<Rightarrow> 'e mem \<Rightarrow> u64 \<Rightarrow> u8 \<Rightarrow> status \<times> 'e spsc" where
  "spsc_init s pol storage capacity_pow2 flags =
     (if storage = None \<or> capacity_pow2 < 2 \<or> \<not> is_power_of_two capacity_pow2 then (Invalid, s)
      else (Ok, s\<lparr>sq_pol := pol, sq_storage := storage, sq_cap := capacity_pow2,
              sq_mask := capacity_pow2 - 1, sq_flags := flags, sq_head := 0, sq_tail := 0\<rparr>))"

definition spsc_reset_state :: "'e elem_policy \<Rightarrow> 'e spsc \<Rightarrow> 'e spsc" where
  "spsc_reset_state default_policy s =
     s\<lparr>sq_pol := default_policy, sq_storage := None, sq_cap := 0, sq_mask := 0, sq_head := 0, sq_tail := 0\<rparr>"

definition spsc_size :: "'e spsc \<Rightarrow> u64" where
  "spsc_size s = sq_tail s - sq_head s"

definition spsc_empty :: "'e spsc \<Rightarrow> bool" where
  "spsc_empty s \<longleftrightarrow> spsc_size s = 0"

definition spsc_full :: "'e spsc \<Rightarrow> bool" where
  "spsc_full s \<longleftrightarrow> spsc_size s \<ge> sq_cap s"

definition spsc_slot :: "'e spsc \<Rightarrow> u64 \<Rightarrow> nat" where
  "spsc_slot s i = unat (i AND sq_mask s)"

definition spsc_overwrites :: "'e spsc \<Rightarrow> bool" where
  "spsc_overwrites s \<longleftrightarrow> sq_flags s AND spsc_overwrite_on_full \<noteq> 0"

text \<open>The element accesses of \<open>push\<close> and \<open>pop\<close>, between their loads and their store.\<close>

definition spsc_put :: "'e spsc \<Rightarrow> u64 \<Rightarrow> 'e \<Rightarrow> 'e spsc option" where
  "spsc_put s tail e = do {
     old \<leftarrow> mem_rd (sq_storage s) (spsc_slot s tail);
     storage \<leftarrow> mem_wr (sq_storage s) (spsc_slot s tail) (copy_assign (sq_pol s) old e);
     Some (s\<lparr>sq_storage := storage\<rparr>)
   }"

definition spsc_replace :: "'e spsc \<Rightarrow> u64 \<Rightarrow> 'e \<Rightarrow> 'e spsc option" where
  "spsc_replace s head e = do {
     old \<leftarrow> mem_rd (sq_storage s) (spsc_slot s head);
     storage \<leftarrow> mem_wr (sq_storage s) (spsc_slot s head) e;
     Some (s\<lparr>sq_storage := storage, sq_destroyed := destroy (sq_pol s) old (sq_destroyed s)\<rparr>)
   }"

definition spsc_take :: "'e spsc \<Rightarrow> u64 \<Rightarrow> 'e option \<Rightarrow> bool \<Rightarrow> ('e option \<times> 'e spsc) option" where
  "spsc_take s head out move_out = do {
     v \<leftarrow> mem_rd (sq_storage s) (spsc_slot s head);
     (case out of
        Some dst \<Rightarrow>
          (if move_out then do {
             storage \<leftarrow> mem_wr (sq_storage s) (spsc_slot s head) (ep_moved (sq_pol s) v);
             Some (Some v, s\<lparr>sq_storage := storage,
                             sq_destroyed := destroy (sq_pol s) (ep_moved (sq_pol s) v) (sq_destroyed s)\<rparr>)
           }
           else Some (Some (copy_assign (sq_pol s) dst v),
                      s\<lparr>sq_destroyed := destroy (sq_pol s) v (sq_destroyed s)\<rparr>))
      | None \<Rightarrow> Some (None, s\<lparr>sq_destroyed := destroy (sq_pol s) v (sq_destroyed s)\<rparr>))
   }"

text \<open>
  \<open>push\<close> also returns the caller's element: the overwriting branch moves out of it, although the
  argument is a pointer to \<open>const\<close>.
\<close>

definition spsc_push :: "'e spsc \<Rightarrow> 'e option \<Rightarrow> (status \<times> 'e option \<times> 'e spsc) option" where
  "spsc_push s elem =
     (case elem of
        None \<Rightarrow> Some (Null_ptr, None, s)
      | Some e \<Rightarrow>
          let tail = sq_tail s; head = sq_head s in
          if tail - head \<ge> sq_cap s then
            (if spsc_overwrites s then do {
               s' \<leftarrow> spsc_replace s head e;
               Some (Ok, Some (ep_moved (sq_pol s) e), s'\<lparr>sq_head := head + 1, sq_tail := tail + 1\<rparr>)
             }
             else Some (Full, elem, s))
          else do {
            s' \<leftarrow> spsc_put s tail e;
            Some (Ok, elem, s'\<lparr>sq_tail := tail + 1\<rparr>)
          })"

definition spsc_pop :: "'e spsc \<Rightarrow> 'e option \<Rightarrow> bool \<Rightarrow> (status \<times> 'e option \<times> 'e spsc) option" where
  "spsc_pop s out move_out =
     (let head = sq_head s; tail = sq_tail s in
      if head = tail then Some (Empty, out, s)
      else do {
        (out', s') \<leftarrow> spsc_take s head out move_out;
        Some (Ok, out', s'\<lparr>sq_head := head + 1\<rparr>)
      })"

definition spsc_peek :: "'e spsc \<Rightarrow> 'e option \<Rightarrow> (status \<times> 'e option) option" where
  "spsc_peek s out =
     (case out of
        None \<Rightarrow> Some (Null_ptr, out)
      | Some dst \<Rightarrow>
          let head = sq_head s; tail = sq_tail s in
          if head = tail then Some (Empty, out)
          else do {
            v \<leftarrow> mem_rd (sq_storage s) (spsc_slot s head);
            Some (Ok, Some (copy_assign (sq_pol s) dst v))
          })"

text \<open>The loop of \<open>clear\<close> pops until the queue is empty.\<close>

partial_function (option) spsc_clear_loop :: "'e spsc \<Rightarrow> 'e spsc option" where
  "spsc_clear_loop s = do {
     (st, _, s') \<leftarrow> spsc_pop s None True;
     if st = Ok then spsc_clear_loop s' else Some s'
   }"

definition spsc_clear :: "'e spsc \<Rightarrow> 'e spsc option" where
  "spsc_clear s = do {
     s' \<leftarrow> spsc_clear_loop s;
     Some (s'\<lparr>sq_head := 0, sq_tail := 0\<rparr>)
   }"

section \<open>The two threads\<close>

text \<open>
  A thread is at one point of its current call. The producer: before the call, after loading the
  tail, after loading the head, after storing the element, and, when it overwrites, after storing
  the head. The consumer: before the call, after loading the head, after loading the tail, after
  taking the element.

  The values an atomic counter has held are kept in order. A load of the other thread's counter may
  return any of them that is not older than the last one this thread has seen (coherence); the
  release store and the acquire load make the element accesses before the store visible.
\<close>

datatype 'e producer =
  P_idle | P_tail 'e u64 | P_head 'e u64 u64 | P_stored 'e u64 | P_replaced 'e u64 u64 | P_moved_head 'e u64

datatype 'e consumer = C_idle | C_head u64 | C_tail u64 u64 | C_taken u64 'e

record 'e threads =
  th_q :: "'e spsc"
  th_heads :: "u64 list"
  th_tails :: "u64 list"
  th_seen_head :: nat
  th_seen_tail :: nat
  th_p :: "'e producer"
  th_c :: "'e consumer"
  th_pushed :: "'e list"
  th_popped :: "'e list"

definition store_head :: "u64 \<Rightarrow> 'e threads \<Rightarrow> 'e threads" where
  "store_head h c = c\<lparr>th_q := (th_q c)\<lparr>sq_head := h\<rparr>, th_heads := th_heads c @ [h]\<rparr>"

definition store_tail :: "u64 \<Rightarrow> 'e threads \<Rightarrow> 'e threads" where
  "store_tail t c = c\<lparr>th_q := (th_q c)\<lparr>sq_tail := t\<rparr>, th_tails := th_tails c @ [t]\<rparr>"

inductive spsc_step :: "'e threads \<Rightarrow> 'e threads \<Rightarrow> bool" where
  push_load_tail: "th_p c = P_idle \<Longrightarrow> spsc_step c (c\<lparr>th_p := P_tail e (sq_tail (th_q c))\<rparr>)"
| push_load_head: "th_p c = P_tail e t \<Longrightarrow> th_seen_head c \<le> i \<Longrightarrow> i < length (th_heads c) \<Longrightarrow>
    spsc_step c (c\<lparr>th_p := P_head e t (th_heads c ! i), th_seen_head := i\<rparr>)"
| push_full: "th_p c = P_head e t h \<Longrightarrow> t - h \<ge> sq_cap (th_q c) \<Longrightarrow> \<not> spsc_overwrites (th_q c) \<Longrightarrow>
    spsc_step c (c\<lparr>th_p := P_idle\<rparr>)"
| push_store: "th_p c = P_head e t h \<Longrightarrow> \<not> t - h \<ge> sq_cap (th_q c) \<Longrightarrow> spsc_put (th_q c) t e = Some q \<Longrightarrow>
    spsc_step c (c\<lparr>th_q := q, th_p := P_stored e t\<rparr>)"
| push_publish: "th_p c = P_stored e t \<Longrightarrow>
    spsc_step c (store_tail (t + 1) (c\<lparr>th_p := P_idle, th_pushed := th_pushed c @ [e]\<rparr>))"
| push_replace: "th_p c = P_head e t h \<Longrightarrow> t - h \<ge> sq_cap (th_q c) \<Longrightarrow> spsc_overwrites (th_q c) \<Longrightarrow>
    spsc_replace (th_q c) h e = Some q \<Longrightarrow> spsc_step c (c\<lparr>th_q := q, th_p := P_replaced e t h\<rparr>)"
| push_skip_oldest: "th_p c = P_replaced e t h \<Longrightarrow>
    spsc_step c (store_head (h + 1) (c\<lparr>th_p := P_moved_head e t\<rparr>))"
| push_publish_replaced: "th_p c = P_moved_head e t \<Longrightarrow>
    spsc_step c (store_tail (t + 1) (c\<lparr>th_p := P_idle, th_pushed := th_pushed c @ [e]\<rparr>))"
| pop_load_head: "th_c c = C_idle \<Longrightarrow> spsc_step c (c\<lparr>th_c := C_head (sq_head (th_q c))\<rparr>)"
| pop_load_tail: "th_c c = C_head h \<Longrightarrow> th_seen_tail c \<le> i \<Longrightarrow> i < length (th_tails c) \<Longrightarrow>
    spsc_step c (c\<lparr>th_c := C_tail h (th_tails c ! i), th_seen_tail := i\<rparr>)"
| pop_empty: "th_c c = C_tail h t \<Longrightarrow> h = t \<Longrightarrow> spsc_step c (c\<lparr>th_c := C_idle\<rparr>)"
| pop_take: "th_c c = C_tail h t \<Longrightarrow> h \<noteq> t \<Longrightarrow> spsc_take (th_q c) h (Some d) True = Some (Some v, q) \<Longrightarrow>
    spsc_step c (c\<lparr>th_q := q, th_c := C_taken h v\<rparr>)"
| pop_publish: "th_c c = C_taken h v \<Longrightarrow>
    spsc_step c (store_head (h + 1) (c\<lparr>th_c := C_idle, th_popped := th_popped c @ [v]\<rparr>))"

definition spsc_start :: "'e spsc \<Rightarrow> 'e threads" where
  "spsc_start q = \<lparr>th_q = q, th_heads = [sq_head q], th_tails = [sq_tail q], th_seen_head = 0, th_seen_tail = 0,
     th_p = P_idle, th_c = C_idle, th_pushed = [], th_popped = []\<rparr>"

text \<open>The slot a thread accesses in its next step, and when two such accesses conflict.\<close>

definition producer_slot :: "'e threads \<Rightarrow> nat option" where
  "producer_slot c =
     (case th_p c of
        P_head e t h \<Rightarrow>
          if \<not> t - h \<ge> sq_cap (th_q c) then Some (spsc_slot (th_q c) t)
          else if spsc_overwrites (th_q c) then Some (spsc_slot (th_q c) h) else None
      | _ \<Rightarrow> None)"

definition consumer_slot :: "'e threads \<Rightarrow> nat option" where
  "consumer_slot c =
     (case th_c c of C_tail h t \<Rightarrow> if h \<noteq> t then Some (spsc_slot (th_q c) h) else None | _ \<Rightarrow> None)"

definition spsc_race :: "'e threads \<Rightarrow> bool" where
  "spsc_race c \<longleftrightarrow> producer_slot c \<noteq> None \<and> producer_slot c = consumer_slot c"

end
