(* ===== verification/Spsc_Correct.thy ===== *)
theory Spsc_Correct
  imports Spsc Window
begin

text \<open>
  Correctness of the SPSC queue: as seen by one thread it is a bounded FIFO queue; with two threads
  it is free of data races, never leaves its storage and delivers what was pushed, in order, as long
  as it does not overwrite.
\<close>

section \<open>One thread\<close>

definition spsc_items :: "'e spsc \<Rightarrow> 'e list" where
  "spsc_items s =
     (case sq_storage s of
        None \<Rightarrow> []
      | Some xs \<Rightarrow> ring_items xs (unat (sq_head s)) (unat (sq_cap s)) (unat (sq_tail s - sq_head s)))"

definition spsc_wf :: "'e spsc \<Rightarrow> bool" where
  "spsc_wf s \<longleftrightarrow>
     (case sq_storage s of
        None \<Rightarrow> False
      | Some xs \<Rightarrow> is_power_of_two (sq_cap s) \<and> unat (sq_cap s) \<le> length xs \<and> 2 \<le> sq_cap s \<and>
          sq_mask s = sq_cap s - 1 \<and> sq_tail s - sq_head s \<le> sq_cap s \<and> \<not> ep_runtime (sq_pol s))"

lemma mask_of_power: "(2 :: u64) ^ k - 1 = mask k"
  by (simp add: mask_eq_exp_minus_1)

lemma spsc_wfE:
  assumes "spsc_wf s"
  obtains xs k where "sq_storage s = Some xs" "k < 64" "sq_cap s = 2 ^ k" "unat (sq_cap s) = 2 ^ k" "2 ^ k \<le> length xs"
    "sq_mask s = mask k" "unat (sq_tail s - sq_head s) \<le> 2 ^ k" "\<not> ep_runtime (sq_pol s)"
    "faithful (sq_pol s)"
proof -
  from assms obtain xs where xs: "sq_storage s = Some xs" "is_power_of_two (sq_cap s)" "unat (sq_cap s) \<le> length xs"
    "sq_mask s = sq_cap s - 1" "sq_tail s - sq_head s \<le> sq_cap s" "\<not> ep_runtime (sq_pol s)"
    by (auto simp: spsc_wf_def split: option.splits)
  from xs(2) obtain k where "k < 64" "sq_cap s = 2 ^ k" by (rule is_power_of_two_cases)
  with xs that [of xs k] show thesis
    by (simp add: unat_power_of_two mask_of_power word_le_nat_alt faithful_typed)
qed

lemma slot_of_head: "sq_mask s = mask k \<Longrightarrow> k \<le> 64 \<Longrightarrow> spsc_slot s h = unat h mod 2 ^ k"
  using counter_slot [of k "unat h"] by (simp add: spsc_slot_def)

lemma word_Suc_diff: "t - h \<noteq> - 1 \<Longrightarrow> unat ((t + 1) - h :: u64) = Suc (unat (t - h))"
proof -
  assume "t - h \<noteq> - 1"
  then have "1 + (t - h) \<noteq> 0" by (metis add.commute eq_neg_iff_add_eq_0)
  then have "unat (1 + (t - h)) = Suc (unat (t - h))" by (rule unatSuc)
  moreover have "(t + 1) - h = 1 + (t - h)" by simp
  ultimately show ?thesis by (simp only:)
qed

lemma word_diff_Suc: "t \<noteq> h \<Longrightarrow> Suc (unat (t - (h + 1) :: u64)) = unat (t - h)"
proof -
  assume "t \<noteq> h"
  then have "0 < unat (t - h)" by (simp add: unat_gt_0)
  moreover have eq: "t - (h + 1) = (t - h) - 1" by simp
  ultimately show ?thesis
    using unat_minus_one [of "t - h"] \<open>t \<noteq> h\<close> unfolding eq by simp
qed

text \<open>The tail is \<open>n\<close> positions after the head.\<close>

lemma tail_slot:
  assumes "k < 64"
  shows "unat t mod 2 ^ k = (unat h + unat (t - h :: u64)) mod 2 ^ k"
proof -
  have "unat (h + (t - h)) = (unat h + unat (t - h)) mod 2 ^ 64"
    by (subst unat_word_ariths(1)) simp
  then have "unat t = (unat h + unat (t - h)) mod 2 ^ 64" by simp
  then show ?thesis using assms by (simp add: mod_mod_cancel le_imp_power_dvd del: power_numeral)
qed

lemma spsc_push_room:
  assumes wf: "spsc_wf s" and room: "length (spsc_items s) < unat (sq_cap s)"
  shows "\<exists>s'. spsc_push s (Some e) = Some (Ok, Some e, s') \<and> spsc_wf s' \<and> sq_flags s' = sq_flags s \<and>
    spsc_items s' = spsc_items s @ [e] \<and> sq_cap s' = sq_cap s \<and> sq_destroyed s' = sq_destroyed s"
proof -
  from wf obtain xs k where s: "sq_storage s = Some xs" "k < 64" "sq_cap s = 2 ^ k" "unat (sq_cap s) = 2 ^ k"
    "2 ^ k \<le> length xs" "sq_mask s = mask k" "\<not> ep_runtime (sq_pol s)" "faithful (sq_pol s)" by (rule spsc_wfE)
  let ?h = "sq_head s" and ?t = "sq_tail s"
  let ?n = "unat (?t - ?h)"
  have n: "?n < 2 ^ k" using room s by (simp add: spsc_items_def)
  have ne: "?t - ?h \<noteq> - 1"
  proof
    assume "?t - ?h = - 1"
    then have "?n = 2 ^ 64 - 1" by (simp add: unsigned_minus_1_eq_mask mask_eq_exp_minus_1)
    moreover have "(2 :: nat) ^ k \<le> 2 ^ 63" using s(2) by (intro power_increasing) simp_all
    ultimately show False using n by simp
  qed
  have slot: "spsc_slot s ?t = (unat ?h + ?n) mod 2 ^ k"
    using s tail_slot [OF s(2), of ?t ?h] by (simp add: slot_of_head)
  then have lt: "spsc_slot s ?t < length xs"
    using s(5) by (simp add: mod_less_le del: of_nat_unat)
  define s' where "s' = s\<lparr>sq_storage := Some (xs[spsc_slot s ?t := e]), sq_tail := ?t + 1\<rparr>"
  have "\<not> ?t - ?h \<ge> sq_cap s" using n s(4) by (simp add: word_le_nat_alt)
  then have "spsc_push s (Some e) = Some (Ok, Some e, s')"
    using s lt by (simp add: spsc_push_def spsc_put_def Let_def s'_def)
  moreover have len: "unat (sq_tail s' - sq_head s') = Suc ?n" using ne by (simp add: s'_def word_Suc_diff)
  moreover have "spsc_wf s'"
    using wf s n len by (simp add: spsc_wf_def s'_def word_le_nat_alt)
  moreover have "spsc_items s' = spsc_items s @ [e]"
    using len s n slot ring_items_snoc [of ?n "2 ^ k" xs "unat ?h" e] by (simp add: spsc_items_def s'_def)
  ultimately show ?thesis by (intro exI [of _ s']) (simp add: s'_def)
qed

lemma spsc_push_full:
  assumes wf: "spsc_wf s" and full: "unat (sq_cap s) \<le> length (spsc_items s)" and no: "\<not> spsc_overwrites s"
  shows "spsc_push s (Some e) = Some (Full, Some e, s)"
proof -
  from wf obtain xs k where s: "sq_storage s = Some xs" by (rule spsc_wfE)
  with full have "sq_tail s - sq_head s \<ge> sq_cap s" by (simp add: spsc_items_def word_le_nat_alt)
  with no show ?thesis by (simp add: spsc_push_def Let_def)
qed

lemma spsc_pop_first:
  assumes wf: "spsc_wf s" and items: "spsc_items s = x # ys"
  shows "\<exists>s'. spsc_pop s out move_out = Some (Ok, map_option (\<lambda>_. x) out, s') \<and> spsc_wf s' \<and>
    sq_flags s' = sq_flags s \<and> spsc_items s' = ys \<and> sq_cap s' = sq_cap s \<and> sq_pol s' = sq_pol s \<and>
    sq_destroyed s' = destroy (sq_pol s) (if out \<noteq> None \<and> move_out then ep_moved (sq_pol s) x else x) (sq_destroyed s)"
proof -
  from wf obtain xs k where s: "sq_storage s = Some xs" "k < 64" "sq_cap s = 2 ^ k" "unat (sq_cap s) = 2 ^ k"
    "2 ^ k \<le> length xs" "sq_mask s = mask k" "unat (sq_tail s - sq_head s) \<le> 2 ^ k"
    "\<not> ep_runtime (sq_pol s)" "faithful (sq_pol s)" by (rule spsc_wfE)
  let ?h = "sq_head s" and ?t = "sq_tail s"
  have ne: "?h \<noteq> ?t" using items s(1) by (auto simp: spsc_items_def)
  define n where "n = unat (?t - (?h + 1))"
  have n: "unat (?t - ?h) = Suc n" using ne by (simp add: n_def word_diff_Suc)
  have slot: "spsc_slot s ?h = unat ?h mod 2 ^ k" using s by (simp add: slot_of_head)
  then have lt: "spsc_slot s ?h < length xs" using s(5) by (simp add: mod_less_le)
  have x: "x = xs ! spsc_slot s ?h" "ys = ring_items xs (Suc (unat ?h)) (2 ^ k) n"
    using items s n slot by (simp_all add: spsc_items_def ring_items_Suc)
  define ys' where "ys' = (if out \<noteq> None \<and> move_out then xs[spsc_slot s ?h := ep_moved (sq_pol s) x] else xs)"
  define s' where "s' = s\<lparr>sq_storage := Some ys', sq_head := ?h + 1,
    sq_destroyed := destroy (sq_pol s) (if out \<noteq> None \<and> move_out then ep_moved (sq_pol s) x else x) (sq_destroyed s)\<rparr>"
  have "spsc_pop s out move_out = Some (Ok, map_option (\<lambda>_. x) out, s')"
    using ne s(1,9) lt x(1) by (cases s; cases out) (auto simp: spsc_pop_def spsc_take_def Let_def s'_def ys'_def)
  moreover have len: "unat (sq_tail s' - sq_head s') = n" by (simp add: s'_def n_def)
  moreover have "spsc_wf s'"
    using wf s n len by (simp add: spsc_wf_def s'_def ys'_def word_le_nat_alt)
  moreover have "spsc_items s' = ys"
  proof -
    have "unat (?h + 1) mod 2 ^ k = Suc (unat ?h) mod 2 ^ k"
      using tail_slot [OF s(2), of "?h + 1" ?h] by simp
    then have "ring_items ys' (unat (?h + 1)) (2 ^ k) n = ring_items ys' (Suc (unat ?h)) (2 ^ k) n"
      by (metis ring_items_mod)
    also have "\<dots> = tl (ring_items ys' (unat ?h) (2 ^ k) (Suc n))" by (simp add: ring_items_Suc)
    also have "\<dots> = tl (ring_items xs (unat ?h) (2 ^ k) (Suc n))"
      using ring_items_update [of 0 "Suc n" "2 ^ k" xs "unat ?h" "ep_moved (sq_pol s) x"] s(5,7) n slot
      by (cases "ring_items xs (unat ?h) (2 ^ k) (Suc n)") (auto simp: ys'_def ring_items_Suc)
    finally show ?thesis using len s x by (simp add: spsc_items_def s'_def ring_items_Suc)
  qed
  ultimately show ?thesis by (intro exI [of _ s']) (simp add: s'_def)
qed

interpretation spsc_queue: bounded_fifo "\<lambda>s. spsc_wf s \<and> \<not> spsc_overwrites s" spsc_items "\<lambda>s. unat (sq_cap s)"
  "\<lambda>s e. map_option (\<lambda>(st, _, s'). (st, s')) (spsc_push s (Some e))" "\<lambda>s. spsc_pop s (Some d) True" for d
proof unfold_locales
  fix s :: "'a spsc" and e x xs
  assume inv: "spsc_wf s \<and> \<not> spsc_overwrites s"
  then have wf: "spsc_wf s" and no: "\<not> spsc_overwrites s" by simp_all
  show "\<exists>s'. map_option (\<lambda>(st, _, s'). (st, s')) (spsc_push s (Some e)) = Some (Ok, s') \<and>
      (spsc_wf s' \<and> \<not> spsc_overwrites s') \<and> spsc_items s' = spsc_items s @ [e] \<and> unat (sq_cap s') = unat (sq_cap s)"
    if "length (spsc_items s) < unat (sq_cap s)"
    using spsc_push_room [OF wf that, of e] no by (auto simp: spsc_overwrites_def)
  show "map_option (\<lambda>(st, _, s'). (st, s')) (spsc_push s (Some e)) = Some (Full, s)"
    if "unat (sq_cap s) \<le> length (spsc_items s)"
    using spsc_push_full [OF wf that no] by simp
  show "\<exists>v. spsc_pop s (Some d) True = Some (Empty, v, s)" if "spsc_items s = []"
  proof -
    from wf obtain xs k where "sq_storage s = Some xs" by (rule spsc_wfE)
    with that have "unat (sq_tail s - sq_head s) = 0" by (metis length_0_conv length_ring_items option.simps(5) spsc_items_def)
    then have "sq_head s = sq_tail s" by (simp add: unat_eq_0)
    then show ?thesis by (simp add: spsc_pop_def)
  qed
  show "\<exists>s'. spsc_pop s (Some d) True = Some (Ok, Some x, s') \<and> (spsc_wf s' \<and> \<not> spsc_overwrites s') \<and>
      spsc_items s' = xs \<and> unat (sq_cap s') = unat (sq_cap s)" if "spsc_items s = x # xs"
    using spsc_pop_first [OF wf that, of "Some d" True] no by (auto simp: spsc_overwrites_def)
qed

lemma spsc_pop_nothing: "spsc_wf s \<Longrightarrow> spsc_items s = [] \<Longrightarrow> spsc_pop s out m = Some (Empty, out, s)"
proof -
  assume wf: "spsc_wf s" and items: "spsc_items s = []"
  from wf obtain xs k where "sq_storage s = Some xs" by (rule spsc_wfE)
  with items have "unat (sq_tail s - sq_head s) = 0"
    by (metis length_0_conv length_ring_items option.simps(5) spsc_items_def)
  then have "sq_head s = sq_tail s" by (simp add: unat_eq_0)
  then show ?thesis by (simp add: spsc_pop_def)
qed

text \<open>\<open>clear\<close> ends, and destroys each element once, from the oldest.\<close>

lemma spsc_clear_loop_returns:
  assumes "spsc_wf s"
  shows "\<exists>s'. spsc_clear_loop s = Some s' \<and> spsc_wf s' \<and> spsc_items s' = [] \<and> sq_cap s' = sq_cap s \<and>
    sq_destroyed s' = sq_destroyed s @ (if ep_destroy (sq_pol s) then spsc_items s else [])"
  using assms
proof (induction "spsc_items s" arbitrary: s)
  case Nil
  with spsc_pop_nothing [of s None True] show ?case by (subst spsc_clear_loop.simps) simp
next
  case (Cons x ys)
  from spsc_pop_first [OF Cons.prems Cons.hyps(2) [symmetric], of None True]
  obtain t where t: "spsc_pop s None True = Some (Ok, None, t)" "spsc_wf t" "spsc_items t = ys"
    "sq_cap t = sq_cap s" "sq_pol t = sq_pol s" "sq_destroyed t = destroy (sq_pol s) x (sq_destroyed s)" by auto
  from Cons.hyps(1) [OF t(3) [symmetric] t(2)] t Cons.hyps(2) [symmetric] show ?case
    by (subst spsc_clear_loop.simps) (auto simp: destroy_def)
qed

lemma spsc_clear_effect:
  assumes "spsc_wf s"
  shows "\<exists>s'. spsc_clear s = Some s' \<and> spsc_wf s' \<and> spsc_items s' = [] \<and> sq_cap s' = sq_cap s \<and>
    sq_destroyed s' = sq_destroyed s @ (if ep_destroy (sq_pol s) then spsc_items s else [])"
proof -
  from spsc_clear_loop_returns [OF assms] obtain t where t: "spsc_clear_loop s = Some t" "spsc_wf t"
    "sq_cap t = sq_cap s"
    "sq_destroyed t = sq_destroyed s @ (if ep_destroy (sq_pol s) then spsc_items s else [])" by auto
  from t(2) obtain xs where "sq_storage t = Some xs" by (rule spsc_wfE)
  with t show ?thesis by (auto simp: spsc_clear_def spsc_wf_def spsc_items_def)
qed

text \<open>Overwriting: the oldest element is destroyed and the new one appended.\<close>

lemma spsc_push_overwrites:
  assumes wf: "spsc_wf s" and ow: "spsc_overwrites s" and items: "spsc_items s = x # ys"
    and full: "length (spsc_items s) = unat (sq_cap s)"
  shows "\<exists>s'. spsc_push s (Some e) = Some (Ok, Some (ep_moved (sq_pol s) e), s') \<and> spsc_wf s' \<and>
    spsc_items s' = ys @ [e] \<and> sq_destroyed s' = destroy (sq_pol s) x (sq_destroyed s)"
proof -
  from wf obtain xs k where s: "sq_storage s = Some xs" "k < 64" "sq_cap s = 2 ^ k" "unat (sq_cap s) = 2 ^ k"
    "2 ^ k \<le> length xs" "sq_mask s = mask k" "\<not> ep_runtime (sq_pol s)" by (rule spsc_wfE)
  let ?h = "sq_head s" and ?t = "sq_tail s"
  have n: "unat (?t - ?h) = 2 ^ k" using full s by (simp add: spsc_items_def)
  obtain m where m: "(2 :: nat) ^ k = Suc m" using not0_implies_Suc [of "2 ^ k"] by auto
  have slot: "spsc_slot s ?h = unat ?h mod 2 ^ k" using s by (simp add: slot_of_head)
  then have lt: "spsc_slot s ?h < length xs" using s(5) by (simp add: mod_less_le)
  have "ring_items xs (unat ?h) (2 ^ k) (2 ^ k) = x # ys" using items s n by (simp add: spsc_items_def)
  then have x: "x = xs ! spsc_slot s ?h" "ys = ring_items xs (Suc (unat ?h)) (2 ^ k) m"
    using slot by (simp_all add: m ring_items_Suc)
  define s' where "s' = s\<lparr>sq_storage := Some (xs[spsc_slot s ?h := e]),
    sq_destroyed := destroy (sq_pol s) x (sq_destroyed s), sq_head := ?h + 1, sq_tail := ?t + 1\<rparr>"
  have "?t - ?h \<ge> sq_cap s" using n s(4) by (simp add: word_le_nat_alt)
  then have "spsc_push s (Some e) = Some (Ok, Some (ep_moved (sq_pol s) e), s')"
    using ow s lt x(1) by (simp add: spsc_push_def spsc_replace_def Let_def s'_def)
  moreover have len: "unat (sq_tail s' - sq_head s') = 2 ^ k" using n by (simp add: s'_def)
  moreover have "spsc_wf s'" using wf s by (simp add: spsc_wf_def s'_def)
  moreover have "spsc_items s' = ys @ [e]"
  proof -
    have head: "(Suc (unat ?h) + m) mod 2 ^ k = spsc_slot s ?h"
      using slot m by (metis add_Suc_right add_Suc_shift mod_add_self2)
    have "unat (?h + 1) mod 2 ^ k = Suc (unat ?h) mod 2 ^ k"
      using tail_slot [OF s(2), of "?h + 1" ?h] by simp
    then have "spsc_items s' = ring_items (xs[spsc_slot s ?h := e]) (Suc (unat ?h)) (2 ^ k) (Suc m)"
      using len s m by (simp add: spsc_items_def s'_def) (metis ring_items_mod)
    then show ?thesis
      using ring_items_snoc [of m "2 ^ k" xs "Suc (unat ?h)" e] head x(2) s(5) m by simp
  qed
  ultimately show ?thesis by (intro exI [of _ s']) (simp add: s'_def)
qed

section \<open>Two threads\<close>

text \<open>
  The invariant of a queue that does not overwrite, over the positions the counters stand for: \<open>H\<close>
  elements have been popped and \<open>T\<close> pushed; each thread's view of the other's counter is not ahead
  of it; the cells between hold the elements under way.
\<close>

fun producer_ok :: "nat \<Rightarrow> 'e list \<Rightarrow> 'e threads \<Rightarrow> 'e producer \<Rightarrow> bool" where
  "producer_ok k xs c P_idle = True"
| "producer_ok k xs c (P_tail e t) = (t = word_of_nat (length (th_pushed c)))"
| "producer_ok k xs c (P_head e t h) =
     (t = word_of_nat (length (th_pushed c)) \<and> h = word_of_nat (th_seen_head c))"
| "producer_ok k xs c (P_stored e t) =
     (t = word_of_nat (length (th_pushed c)) \<and> length (th_pushed c) < th_seen_head c + 2 ^ k \<and>
      xs ! (length (th_pushed c) mod 2 ^ k) = e)"
| "producer_ok k xs c (P_replaced e t h) = False"
| "producer_ok k xs c (P_moved_head e t) = False"

fun consumer_ok :: "'e threads \<Rightarrow> 'e consumer \<Rightarrow> bool" where
  "consumer_ok c C_idle = True"
| "consumer_ok c (C_head h) = (h = word_of_nat (length (th_popped c)))"
| "consumer_ok c (C_tail h t) = (h = word_of_nat (length (th_popped c)) \<and> t = word_of_nat (th_seen_tail c))"
| "consumer_ok c (C_taken h v) =
     (h = word_of_nat (length (th_popped c)) \<and> length (th_popped c) < th_seen_tail c \<and>
      v = th_pushed c ! length (th_popped c))"

fun taken :: "'e consumer \<Rightarrow> nat" where
  "taken (C_taken h v) = 1"
| "taken _ = 0"

definition spsc_inv :: "nat \<Rightarrow> 'e list \<Rightarrow> 'e threads \<Rightarrow> bool" where
  "spsc_inv k xs c \<longleftrightarrow>
     k < 64 \<and> sq_cap (th_q c) = 2 ^ k \<and> sq_mask (th_q c) = mask k \<and> \<not> spsc_overwrites (th_q c) \<and>
     \<not> ep_runtime (sq_pol (th_q c)) \<and> sq_storage (th_q c) = Some xs \<and> 2 ^ k \<le> length xs \<and>
     th_heads c = map word_of_nat [0..<Suc (length (th_popped c))] \<and>
     th_tails c = map word_of_nat [0..<Suc (length (th_pushed c))] \<and>
     sq_head (th_q c) = word_of_nat (length (th_popped c)) \<and>
     sq_tail (th_q c) = word_of_nat (length (th_pushed c)) \<and>
     th_seen_head c \<le> length (th_popped c) \<and> length (th_popped c) \<le> th_seen_tail c \<and>
     th_seen_tail c \<le> length (th_pushed c) \<and> length (th_pushed c) \<le> th_seen_head c + 2 ^ k \<and>
     th_popped c = take (length (th_popped c)) (th_pushed c) \<and>
     (\<forall>i. length (th_popped c) + taken (th_c c) \<le> i \<longrightarrow> i < length (th_pushed c) \<longrightarrow>
        xs ! (i mod 2 ^ k) = th_pushed c ! i) \<and>
     producer_ok k xs c (th_p c) \<and> consumer_ok c (th_c c)"

lemma mod_apart: "i < j \<Longrightarrow> j < i + c \<Longrightarrow> i mod c \<noteq> j mod (c :: nat)"
proof
  assume lt: "i < j" "j < i + c" and eq: "i mod c = j mod c"
  then have "j - i < c" "0 < c" "(i + 0) mod c = (i + (j - i)) mod c" by simp_all
  from mod_add_inj [OF this(2,1,3)] lt show False by simp
qed

lemma word_of_nat_Suc: "(word_of_nat n :: u64) + 1 = word_of_nat (Suc n)"
  by simp

lemma spsc_inv_push_store:
  assumes inv: "spsc_inv k xs c" and p: "th_p c = P_head e t h" and room: "\<not> t - h \<ge> sq_cap (th_q c)"
    and put: "spsc_put (th_q c) t e = Some q"
  shows "spsc_inv k (xs[length (th_pushed c) mod 2 ^ k := e]) (c\<lparr>th_q := q, th_p := P_stored e t\<rparr>)"
proof -
  let ?T = "length (th_pushed c)" and ?H = "length (th_popped c)"
  have i: "k < 64" "sq_cap (th_q c) = 2 ^ k" "sq_mask (th_q c) = mask k" "sq_storage (th_q c) = Some xs"
    "2 ^ k \<le> length xs" "th_seen_head c \<le> ?H" "?T \<le> th_seen_head c + 2 ^ k" "?H \<le> ?T"
    "t = word_of_nat ?T" "h = word_of_nat (th_seen_head c)" "\<not> ep_runtime (sq_pol (th_q c))"
    using inv p by (simp_all add: spsc_inv_def)
  have pw: "(2 :: nat) ^ k < 2 ^ 64" using i(1) by (intro power_strict_increasing) simp_all
  have "unat (t - h) = ?T - th_seen_head c"
    using i pw by (simp only: i(9,10)) (intro counter_diff; linarith)
  then have lt: "?T < th_seen_head c + 2 ^ k"
    using room i(1,2) by (simp add: word_le_nat_alt unat_power_of_two not_le)
  have slot: "spsc_slot (th_q c) t = ?T mod 2 ^ k"
    using i(1,3,9) by (simp add: spsc_slot_def counter_slot)
  have in_block: "?T mod 2 ^ k < length xs" using i(5) by (intro mod_less_le) simp_all
  have q: "q = (th_q c)\<lparr>sq_storage := Some (xs[?T mod 2 ^ k := e])\<rparr>"
    using put slot in_block i(4,11) by (simp add: spsc_put_def faithful_typed)
  have "xs[?T mod 2 ^ k := e] ! (j mod 2 ^ k) = th_pushed c ! j"
    if "?H + taken (th_c c) \<le> j" "j < ?T" for j
  proof -
    have "j mod 2 ^ k \<noteq> ?T mod 2 ^ k" using that lt i(6) by (intro mod_apart) linarith+
    moreover have "xs ! (j mod 2 ^ k) = th_pushed c ! j" using inv that by (simp add: spsc_inv_def)
    ultimately show ?thesis by (metis nth_list_update_neq)
  qed
  with inv q lt in_block i(9) show ?thesis
    by (cases "th_c c") (simp_all add: spsc_inv_def spsc_overwrites_def)
qed

lemma spsc_inv_pop_take:
  assumes inv: "spsc_inv k xs c" and p: "th_c c = C_tail h t" and ne: "h \<noteq> t"
    and take: "spsc_take (th_q c) h (Some d) True = Some (Some v, q)"
  shows "\<exists>ys. spsc_inv k ys (c\<lparr>th_q := q, th_c := C_taken h v\<rparr>)"
proof -
  let ?T = "length (th_pushed c)" and ?H = "length (th_popped c)"
  have i: "k < 64" "sq_mask (th_q c) = mask k" "sq_storage (th_q c) = Some xs"
    "2 ^ k \<le> length xs" "th_seen_head c \<le> ?H" "?T \<le> th_seen_head c + 2 ^ k" "?H \<le> th_seen_tail c"
    "th_seen_tail c \<le> ?T" "h = word_of_nat ?H" "t = word_of_nat (th_seen_tail c)"
    using inv p by (simp_all add: spsc_inv_def)
  have H: "?H < th_seen_tail c" using i(7,9,10) ne by (cases "?H = th_seen_tail c") simp_all
  have slot: "spsc_slot (th_q c) h = ?H mod 2 ^ k"
    using i(1,2,9) by (simp add: spsc_slot_def counter_slot)
  have in_block: "?H mod 2 ^ k < length xs" using i(4) by (intro mod_less_le) simp_all
  define ys where "ys = xs[?H mod 2 ^ k := ep_moved (sq_pol (th_q c)) v]"
  have v: "v = th_pushed c ! ?H"
    using take slot in_block i(3,8) H inv p by (auto simp: spsc_take_def spsc_inv_def)
  have q: "sq_storage q = Some ys" "sq_cap q = sq_cap (th_q c)" "sq_mask q = sq_mask (th_q c)"
    "sq_flags q = sq_flags (th_q c)" "sq_pol q = sq_pol (th_q c)" "sq_head q = sq_head (th_q c)" "sq_tail q = sq_tail (th_q c)"
    using take slot in_block i(3) by (auto simp: spsc_take_def ys_def)
  have cell: "ys ! (j mod 2 ^ k) = xs ! (j mod 2 ^ k)" if "?H < j" "j < ?H + 2 ^ k" for j
    using mod_apart [OF that] by (simp add: ys_def)
  have "ys ! (j mod 2 ^ k) = th_pushed c ! j" if "Suc ?H \<le> j" "j < ?T" for j
    using cell [of j] that i(5,6) inv p by (simp add: spsc_inv_def)
  moreover have "producer_ok k ys c (th_p c)"
  proof -
    have "producer_ok k xs c (th_p c)" using inv by (simp add: spsc_inv_def)
    then show ?thesis using cell [of ?T] i(5,8) H by (cases "th_p c") auto
  qed
  ultimately have "spsc_inv k ys (c\<lparr>th_q := q, th_c := C_taken h v\<rparr>)"
    using inv q v H p by (cases "th_p c") (simp_all add: spsc_inv_def spsc_overwrites_def ys_def)
  then show ?thesis by blast
qed

lemma spsc_inv_push_publish:
  assumes inv: "spsc_inv k xs c" and p: "th_p c = P_stored e t"
  shows "spsc_inv k xs (store_tail (t + 1) (c\<lparr>th_p := P_idle, th_pushed := th_pushed c @ [e]\<rparr>))"
proof -
  let ?T = "length (th_pushed c)" and ?H = "length (th_popped c)"
  have i: "t = word_of_nat ?T" "?T < th_seen_head c + 2 ^ k" "xs ! (?T mod 2 ^ k) = e" "?H \<le> th_seen_tail c"
    "th_seen_tail c \<le> ?T" "consumer_ok c (th_c c)"
    using inv p by (simp_all add: spsc_inv_def)
  have "consumer_ok (store_tail (t + 1) (c\<lparr>th_p := P_idle, th_pushed := th_pushed c @ [e]\<rparr>)) (th_c c)"
    using i by (cases "th_c c") (simp_all add: store_tail_def nth_append)
  moreover have "xs ! (j mod 2 ^ k) = (th_pushed c @ [e]) ! j" if "?H + taken (th_c c) \<le> j" "j < Suc ?T" for j
    using that inv i(3) by (cases "j = ?T") (simp_all add: spsc_inv_def nth_append)
  moreover have "th_popped c = take ?H (th_pushed c @ [e])" using inv i(4,5) by (simp add: spsc_inv_def)
  ultimately show ?thesis
    using inv i by (simp add: spsc_inv_def store_tail_def spsc_overwrites_def word_of_nat_Suc)
qed

lemma spsc_inv_pop_publish:
  assumes inv: "spsc_inv k xs c" and p: "th_c c = C_taken h v"
  shows "spsc_inv k xs (store_head (h + 1) (c\<lparr>th_c := C_idle, th_popped := th_popped c @ [v]\<rparr>))"
proof -
  let ?T = "length (th_pushed c)" and ?H = "length (th_popped c)"
  have i: "h = word_of_nat ?H" "?H < th_seen_tail c" "v = th_pushed c ! ?H" "th_seen_tail c \<le> ?T"
    using inv p by (simp_all add: spsc_inv_def)
  have "producer_ok k xs (store_head (h + 1) (c\<lparr>th_c := C_idle, th_popped := th_popped c @ [v]\<rparr>)) (th_p c)"
    using inv by (cases "th_p c") (simp_all add: spsc_inv_def store_head_def)
  moreover have "th_popped c @ [v] = take (Suc ?H) (th_pushed c)"
    using inv i by (simp add: spsc_inv_def take_Suc_conv_app_nth)
  ultimately show ?thesis
    using inv i p by (simp add: spsc_inv_def store_head_def spsc_overwrites_def word_of_nat_Suc)
qed

text \<open>Every step of either thread keeps the invariant.\<close>

lemma spsc_step_inv:
  assumes inv: "spsc_inv k xs c" and step: "spsc_step c c'"
  shows "\<exists>ys. spsc_inv k ys c'"
  using step
proof cases
  case (push_load_tail e)
  with inv show ?thesis by (intro exI [of _ xs]) (cases "th_c c"; simp add: spsc_inv_def)
next
  case (push_load_head e t i)
  then have "i \<le> length (th_popped c)" "th_heads c ! i = word_of_nat i"
    using inv by (simp_all add: spsc_inv_def del: upt_Suc)
  with inv push_load_head show ?thesis
    by (intro exI [of _ xs]) (cases "th_c c"; simp add: spsc_inv_def)
next
  case (push_full e t h)
  with inv show ?thesis by (intro exI [of _ xs]) (cases "th_c c"; simp add: spsc_inv_def)
next
  case (push_store e t h q)
  with spsc_inv_push_store [OF inv] show ?thesis by auto
next
  case (push_publish e t)
  with spsc_inv_push_publish [OF inv] show ?thesis by auto
next
  case pop_load_head
  with inv show ?thesis by (intro exI [of _ xs]) (cases "th_p c"; simp add: spsc_inv_def)
next
  case (pop_load_tail h i)
  then have "i \<le> length (th_pushed c)" "th_tails c ! i = word_of_nat i"
    using inv by (simp_all add: spsc_inv_def del: upt_Suc)
  with inv pop_load_tail show ?thesis
    by (intro exI [of _ xs]) (cases "th_p c"; simp add: spsc_inv_def)
next
  case (pop_empty h t)
  with inv show ?thesis by (intro exI [of _ xs]) (cases "th_p c"; simp add: spsc_inv_def)
next
  case (pop_take h t d v q)
  with spsc_inv_pop_take [OF inv] show ?thesis by auto
next
  case (pop_publish h v)
  with spsc_inv_pop_publish [OF inv] show ?thesis by auto
qed (use inv in \<open>simp_all add: spsc_inv_def\<close>)

lemma spsc_reachable_inv:
  assumes "spsc_step\<^sup>*\<^sup>* c c'" "spsc_inv k xs c"
  shows "\<exists>ys. spsc_inv k ys c'"
  using assms
proof (induction rule: rtranclp_induct)
  case (step c1 c2)
  then show ?case using spsc_step_inv by blast
qed blast

text \<open>A queue just initialised, from any counter value on.\<close>

lemma spsc_start_inv:
  assumes "spsc_init s0 pol (Some xs) n fl = (Ok, q)" "unat n \<le> length xs" "\<not> spsc_overwrites q" "\<not> ep_runtime pol"
  shows "\<exists>k. spsc_inv k xs (spsc_start q)"
proof -
  from assms(1) have n: "is_power_of_two n" "q = s0\<lparr>sq_pol := pol, sq_storage := Some xs, sq_cap := n,
      sq_mask := n - 1, sq_flags := fl, sq_head := 0, sq_tail := 0\<rparr>"
    by (auto simp: spsc_init_def split: if_splits)
  from n(1) obtain k where "k < 64" "n = 2 ^ k" by (rule is_power_of_two_cases)
  with n assms show ?thesis
    by (intro exI [of _ k]) (simp add: spsc_inv_def spsc_start_def mask_of_power unat_power_of_two)
qed

text \<open>The threads never access one slot at the same time.\<close>

lemma spsc_inv_no_race:
  assumes inv: "spsc_inv k xs c"
  shows "\<not> spsc_race c"
proof
  assume "spsc_race c"
  then obtain e t h h' t' where p: "th_p c = P_head e t h" and c: "th_c c = C_tail h' t'" and ne: "h' \<noteq> t'"
    and room: "\<not> t - h \<ge> sq_cap (th_q c)" and same: "spsc_slot (th_q c) t = spsc_slot (th_q c) h'"
    using inv by (auto simp: spsc_race_def producer_slot_def consumer_slot_def spsc_inv_def
        split: producer.splits consumer.splits if_splits)
  let ?T = "length (th_pushed c)" and ?H = "length (th_popped c)"
  have i: "k < 64" "sq_cap (th_q c) = 2 ^ k" "sq_mask (th_q c) = mask k" "th_seen_head c \<le> ?H"
    "?T \<le> th_seen_head c + 2 ^ k" "?H \<le> th_seen_tail c" "th_seen_tail c \<le> ?T"
    "t = word_of_nat ?T" "h = word_of_nat (th_seen_head c)" "h' = word_of_nat ?H" "t' = word_of_nat (th_seen_tail c)"
    using inv p c by (simp_all add: spsc_inv_def)
  have pw: "(2 :: nat) ^ k < 2 ^ 64" using i(1) by (intro power_strict_increasing) simp_all
  have "unat (t - h) = ?T - th_seen_head c"
    using i(4-7) pw by (simp only: i(8,9)) (intro counter_diff; linarith)
  then have lt: "?T < th_seen_head c + 2 ^ k"
    using room i(1,2) by (simp add: word_le_nat_alt unat_power_of_two not_le)
  have "?H < th_seen_tail c" using i(6,10,11) ne by (cases "?H = th_seen_tail c") simp_all
  with lt i(4,7) have "?H mod 2 ^ k \<noteq> ?T mod 2 ^ k" by (intro mod_apart) linarith+
  with same i(1,3,8,10) show False by (simp add: spsc_slot_def counter_slot)
qed

text \<open>Neither thread is ever stuck: every element access stays in the storage.\<close>

lemma spsc_inv_access:
  assumes inv: "spsc_inv k xs c"
  shows "th_p c = P_head e t h \<Longrightarrow> \<exists>q. spsc_put (th_q c) t e = Some q"
    "th_c c = C_tail h' t' \<Longrightarrow> \<exists>v q. spsc_take (th_q c) h' (Some d) True = Some (Some v, q)"
proof -
  have i: "k < 64" "sq_mask (th_q c) = mask k" "sq_storage (th_q c) = Some xs" "2 ^ k \<le> length xs"
    using inv by (simp_all add: spsc_inv_def)
  have slot: "spsc_slot (th_q c) w < length xs" for w
    using slot_of_head [of "th_q c" k w] i by (simp add: mod_less_le)
  show "\<exists>q. spsc_put (th_q c) t e = Some q" "\<exists>v q. spsc_take (th_q c) h' (Some d) True = Some (Some v, q)"
    using slot i(3) by (simp_all add: spsc_put_def spsc_take_def)
qed

end
