(* ===== verification/Spsc_Props.thy ===== *)
theory Spsc_Props
  imports Spsc_Correct
begin

text \<open>
  The properties of the SPSC queue, and the agreement of the step relation with the operations as
  functions.
\<close>

section \<open>Steps and functions\<close>

text \<open>A call that runs alone, with its own and the other thread's counters up to date.\<close>

definition settled :: "'e threads \<Rightarrow> bool" where
  "settled c \<longleftrightarrow> th_p c = P_idle \<and> th_c c = C_idle \<and> th_heads c \<noteq> [] \<and> th_tails c \<noteq> [] \<and>
     last (th_heads c) = sq_head (th_q c) \<and> last (th_tails c) = sq_tail (th_q c) \<and>
     th_seen_head c < length (th_heads c) \<and> th_seen_tail c < length (th_tails c)"

lemma settled_last:
  assumes "settled c"
  shows "th_heads c ! (length (th_heads c) - 1) = sq_head (th_q c)"
    "th_tails c ! (length (th_tails c) - 1) = sq_tail (th_q c)"
  using assms by (auto simp: settled_def last_conv_nth)

lemma steps2: "spsc_step a b \<Longrightarrow> spsc_step b c \<Longrightarrow> spsc_step\<^sup>*\<^sup>* a c"
  by (meson converse_rtranclp_into_rtranclp r_into_rtranclp)

text \<open>The steps of a producer alone are the function \<open>push\<close>.\<close>

lemma push_as_steps:
  assumes s: "settled c" and call: "spsc_push (th_q c) (Some e) = Some (st, src, q)"
  shows "\<exists>c'. spsc_step\<^sup>*\<^sup>* c c' \<and> th_q c' = q \<and> settled c' \<and>
    th_pushed c' = th_pushed c @ (if st = Ok then [e] else []) \<and> th_popped c' = th_popped c"
proof -
  let ?q = "th_q c" and ?n = "length (th_heads c) - 1"
  let ?t = "sq_tail ?q" and ?h = "sq_head ?q"
  define c1 where "c1 = c\<lparr>th_p := P_tail e ?t\<rparr>"
  define c2 where "c2 = c1\<lparr>th_p := P_head e ?t ?h, th_seen_head := ?n\<rparr>"
  have idle: "th_p c = P_idle" "th_c c = C_idle" using s by (simp_all add: settled_def)
  have n: "th_seen_head c1 \<le> ?n" "?n < length (th_heads c1)" "th_heads c1 ! ?n = ?h"
    using s settled_last [OF s] by (auto simp: settled_def c1_def)
  have "spsc_step c c1" unfolding c1_def by (rule push_load_tail [OF idle(1)])
  moreover have "spsc_step c1 c2"
    using push_load_head [of c1 e ?t ?n] n by (simp add: c2_def c1_def)
  ultimately have run: "spsc_step\<^sup>*\<^sup>* c c2" by (rule steps2)
  have c2: "th_p c2 = P_head e ?t ?h" "th_q c2 = ?q" by (simp_all add: c2_def c1_def)
  note lst = s [unfolded settled_def]
  consider (full) "?t - ?h \<ge> sq_cap ?q" "\<not> spsc_overwrites ?q"
    | (replace) "?t - ?h \<ge> sq_cap ?q" "spsc_overwrites ?q" | (room) "\<not> ?t - ?h \<ge> sq_cap ?q" by blast
  then show ?thesis
  proof cases
    case full
    then have "spsc_step c2 (c2\<lparr>th_p := P_idle\<rparr>)" using push_full [of c2 e ?t ?h] c2 by simp
    with run have "spsc_step\<^sup>*\<^sup>* c (c2\<lparr>th_p := P_idle\<rparr>)" by (rule rtranclp.rtrancl_into_rtrancl)
    with full call lst idle show ?thesis
      by (intro exI [of _ "c2\<lparr>th_p := P_idle\<rparr>"]) (simp add: spsc_push_def c2_def c1_def settled_def Let_def)
  next
    case room
    with call obtain q1 where q1: "spsc_put ?q ?t e = Some q1" "st = Ok" "q = q1\<lparr>sq_tail := ?t + 1\<rparr>"
      by (auto simp: spsc_push_def Let_def bind_eq_Some_conv)
    define c3 where "c3 = c2\<lparr>th_q := q1, th_p := P_stored e ?t\<rparr>"
    define c4 where "c4 = store_tail (?t + 1) (c3\<lparr>th_p := P_idle, th_pushed := th_pushed c3 @ [e]\<rparr>)"
    have "spsc_step c2 c3" unfolding c3_def using push_store [of c2 e ?t ?h q1] c2 room q1(1) by simp
    moreover have "spsc_step c3 c4" unfolding c4_def by (rule push_publish) (simp add: c3_def)
    ultimately have "spsc_step\<^sup>*\<^sup>* c c4" using run by (meson rtranclp_trans steps2)
    moreover have "sq_head q1 = ?h" using q1(1) by (auto simp: spsc_put_def bind_eq_Some_conv)
    ultimately show ?thesis
      using q1 lst idle
      by (intro exI [of _ c4]) (simp add: c4_def c3_def c2_def c1_def settled_def store_tail_def)
  next
    case replace
    with call obtain q1 where q1: "spsc_replace ?q ?h e = Some q1" "st = Ok"
      "q = q1\<lparr>sq_head := ?h + 1, sq_tail := ?t + 1\<rparr>"
      by (auto simp: spsc_push_def Let_def bind_eq_Some_conv)
    define c3 where "c3 = c2\<lparr>th_q := q1, th_p := P_replaced e ?t ?h\<rparr>"
    define c4 where "c4 = store_head (?h + 1) (c3\<lparr>th_p := P_moved_head e ?t\<rparr>)"
    define c5 where "c5 = store_tail (?t + 1) (c4\<lparr>th_p := P_idle, th_pushed := th_pushed c4 @ [e]\<rparr>)"
    have "spsc_step c2 c3" unfolding c3_def using push_replace [of c2 e ?t ?h q1] c2 replace q1(1) by simp
    moreover have "spsc_step c3 c4" unfolding c4_def by (rule push_skip_oldest) (simp add: c3_def)
    moreover have "spsc_step c4 c5" unfolding c5_def by (rule push_publish_replaced) (simp add: c4_def store_head_def)
    ultimately have "spsc_step\<^sup>*\<^sup>* c c5" using run by (meson rtranclp.rtrancl_into_rtrancl)
    then show ?thesis
      using q1 lst idle
      by (intro exI [of _ c5]) (simp add: c5_def c4_def c3_def c2_def c1_def settled_def store_tail_def store_head_def)
  qed
qed

text \<open>The steps of a consumer alone are the function \<open>pop\<close>.\<close>

lemma pop_as_steps:
  assumes s: "settled c" and call: "spsc_pop (th_q c) (Some d) True = Some (st, out, q)"
  shows "\<exists>c'. spsc_step\<^sup>*\<^sup>* c c' \<and> th_q c' = q \<and> settled c' \<and>
    th_popped c' = th_popped c @ (if st = Ok then [the out] else []) \<and> th_pushed c' = th_pushed c"
proof -
  let ?q = "th_q c" and ?n = "length (th_tails c) - 1"
  let ?t = "sq_tail ?q" and ?h = "sq_head ?q"
  define c1 where "c1 = c\<lparr>th_c := C_head ?h\<rparr>"
  define c2 where "c2 = c1\<lparr>th_c := C_tail ?h ?t, th_seen_tail := ?n\<rparr>"
  have idle: "th_p c = P_idle" "th_c c = C_idle" using s by (simp_all add: settled_def)
  have n: "th_seen_tail c1 \<le> ?n" "?n < length (th_tails c1)" "th_tails c1 ! ?n = ?t"
    using s settled_last [OF s] by (auto simp: settled_def c1_def)
  have "spsc_step c c1" unfolding c1_def by (rule pop_load_head [OF idle(2)])
  moreover have "spsc_step c1 c2"
    using pop_load_tail [of c1 ?h ?n] n by (simp add: c2_def c1_def)
  ultimately have run: "spsc_step\<^sup>*\<^sup>* c c2" by (rule steps2)
  have c2: "th_c c2 = C_tail ?h ?t" "th_q c2 = ?q" by (simp_all add: c2_def c1_def)
  note lst = s [unfolded settled_def]
  show ?thesis
  proof (cases "?h = ?t")
    case True
    then have "spsc_step c2 (c2\<lparr>th_c := C_idle\<rparr>)" using pop_empty [of c2 ?h ?t] c2 by simp
    with run have "spsc_step\<^sup>*\<^sup>* c (c2\<lparr>th_c := C_idle\<rparr>)" by (rule rtranclp.rtrancl_into_rtrancl)
    with True call lst idle show ?thesis
      by (intro exI [of _ "c2\<lparr>th_c := C_idle\<rparr>"]) (simp add: spsc_pop_def c2_def c1_def settled_def Let_def)
  next
    case False
    with call obtain v q1 where q1: "spsc_take ?q ?h (Some d) True = Some (Some v, q1)" "st = Ok" "out = Some v"
      "q = q1\<lparr>sq_head := ?h + 1\<rparr>"
      by (auto simp: spsc_pop_def spsc_take_def Let_def bind_eq_Some_conv)
    define c3 where "c3 = c2\<lparr>th_q := q1, th_c := C_taken ?h v\<rparr>"
    define c4 where "c4 = store_head (?h + 1) (c3\<lparr>th_c := C_idle, th_popped := th_popped c3 @ [v]\<rparr>)"
    have "spsc_step c2 c3" unfolding c3_def using pop_take [of c2 ?h ?t d v q1] c2 False q1(1) by simp
    moreover have "spsc_step c3 c4" unfolding c4_def by (rule pop_publish) (simp add: c3_def)
    ultimately have "spsc_step\<^sup>*\<^sup>* c c4" using run by (meson rtranclp_trans steps2)
    moreover have "sq_tail q1 = ?t" using q1(1) by (auto simp: spsc_take_def bind_eq_Some_conv)
    ultimately show ?thesis
      using q1 lst idle
      by (intro exI [of _ c4]) (simp add: c4_def c3_def c2_def c1_def settled_def store_head_def)
  qed
qed

section \<open>Properties\<close>

definition spsc_sample :: "u8 \<Rightarrow> nat spsc" where
  "spsc_sample fl = \<lparr>sq_pol = typed_trivial_policy 8 8, sq_storage = Some [0, 0], sq_cap = 2, sq_mask = 1,
     sq_flags = fl, sq_head = - 1, sq_tail = - 1, sq_destroyed = []\<rparr>"

text \<open>
  C8. As one thread sees it an SPSC queue without \<open>overwrite_on_full\<close> is a bounded FIFO queue, also when its
  64-bit counters wrap around: any sequence of pushes and pops gives the results of the abstract queue. (A queue that
  overwrites drops its oldest element instead of refusing a push, and is not covered.)
\<close>

theorem spsc_is_bounded_queue:
  assumes "spsc_wf s" "\<not> spsc_overwrites s"
  shows "\<exists>s'. queue_run (\<lambda>s e. map_option (\<lambda>(st, _, s'). (st, s')) (spsc_push s (Some e)))
      (\<lambda>s. spsc_pop s (Some d) True) s cs =
    Some (fst (fifo_spec (unat (sq_cap s)) (spsc_items s) cs), s') \<and> spsc_wf s' \<and>
    spsc_items s' = snd (fifo_spec (unat (sq_cap s)) (spsc_items s) cs)"
  using spsc_queue.run_refines [of s d cs] assms by auto

theorem spsc_is_bounded_queue_witness:
  "\<exists>s'. queue_run (\<lambda>s e. map_option (\<lambda>(st, _, s'). (st, s')) (spsc_push s (Some e)))
      (\<lambda>s. spsc_pop s (Some 0) True) (spsc_sample 0) [Push 4, Push 5, Push 6, Pop, Pop, Pop] =
    Some ([(Ok, None), (Ok, None), (Full, None), (Ok, Some 4), (Ok, Some 5), (Empty, None)], s')"
  using spsc_is_bounded_queue [of "spsc_sample 0" 0 "[Push 4, Push 5, Push 6, Pop, Pop, Pop]"]
  by (auto simp: spsc_sample_def spsc_wf_def spsc_overwrites_def spsc_items_def is_power_of_two_def)

text \<open>
  C3. With one producer and one consumer running concurrently on a queue of typed elements without
  \<open>overwrite_on_full\<close> (with it, \<open>spsc_overwrite_races\<close> below), in every interleaving and with stale views of the other's counter: no slot is accessed by both
  threads at once, the popped elements are a prefix of the pushed ones, and at most \<open>capacity\<close>
  elements are under way.
\<close>

theorem spsc_concurrent_fifo:
  assumes "spsc_init s0 pol (Some xs) n fl = (Ok, q)" "unat n \<le> length xs" "\<not> spsc_overwrites q" "\<not> ep_runtime pol"
    and "spsc_step\<^sup>*\<^sup>* (spsc_start q) c"
  shows "\<not> spsc_race c \<and> th_popped c = take (length (th_popped c)) (th_pushed c) \<and>
    length (th_pushed c) \<le> length (th_popped c) + unat n"
proof -
  from spsc_start_inv [OF assms(1-4)] obtain k where k: "spsc_inv k xs (spsc_start q)" by blast
  from spsc_reachable_inv [OF assms(5) k] obtain ys where inv: "spsc_inv k ys c" by blast
  from assms(1) have "sq_cap q = n" by (auto simp: spsc_init_def split: if_splits)
  moreover have "sq_cap q = 2 ^ k" "k < 64" using k by (simp_all add: spsc_inv_def spsc_start_def)
  ultimately have "unat n = 2 ^ k" by (metis unat_power_of_two)
  with inv spsc_inv_no_race [OF inv] show ?thesis by (auto simp: spsc_inv_def)
qed

lemma spsc_sample_init: "spsc_init (spsc_sample 0) (typed_trivial_policy 8 8) (Some [0, 0]) 2 fl =
    (Ok, (spsc_sample fl)\<lparr>sq_head := 0, sq_tail := 0\<rparr>)"
  by (simp add: spsc_init_def spsc_sample_def is_power_of_two_def)

text \<open>A state of the two threads on the sample queue of two slots.\<close>

definition spsc_at :: "nat list \<Rightarrow> u64 list \<Rightarrow> u64 list \<Rightarrow> nat \<Rightarrow> nat \<Rightarrow> nat producer \<Rightarrow> nat consumer \<Rightarrow> nat list \<Rightarrow> nat list \<Rightarrow> nat threads" where
  "spsc_at xs heads tails i j p c pushed popped =
     \<lparr>th_q = (spsc_sample 0)\<lparr>sq_storage := Some xs, sq_head := last heads, sq_tail := last tails\<rparr>, th_heads = heads, th_tails = tails,
      th_seen_head = i, th_seen_tail = j, th_p = p, th_c = c, th_pushed = pushed, th_popped = popped\<rparr>"

lemmas spsc_at_simps = spsc_at_def spsc_start_def spsc_sample_def spsc_put_def spsc_take_def spsc_slot_def store_head_def store_tail_def
  word_le_nat_alt

text \<open>
  Two pushes and a pop, interleaved step by step. At the end the producer is about to write slot 0, with a view of the head that
  is up to date, and the consumer to read slot 1; half-way it wrote slot 1 with a stale one while the consumer read slot 0.
\<close>

lemma spsc_interleaved_run:
  "spsc_step\<^sup>*\<^sup>* (spsc_start ((spsc_sample 0)\<lparr>sq_head := 0, sq_tail := 0\<rparr>))
     (spsc_at [4, 5] [0, 1] [0, 1, 2] 1 2 (P_head 6 2 1) (C_tail 1 2) [4, 5] [4])"
proof -
  note sim = spsc_at_simps
  let ?c1 = "spsc_at [0, 0] [0] [0] 0 0 (P_tail 4 0) C_idle [] []"
  let ?c2 = "spsc_at [0, 0] [0] [0] 0 0 (P_tail 4 0) (C_head 0) [] []"
  let ?c3 = "spsc_at [0, 0] [0] [0] 0 0 (P_head 4 0 0) (C_head 0) [] []"
  let ?c4 = "spsc_at [4, 0] [0] [0] 0 0 (P_stored 4 0) (C_head 0) [] []"
  let ?c5 = "spsc_at [4, 0] [0] [0, 1] 0 0 P_idle (C_head 0) [4] []"
  let ?c6 = "spsc_at [4, 0] [0] [0, 1] 0 1 P_idle (C_tail 0 1) [4] []"
  let ?c7 = "spsc_at [4, 0] [0] [0, 1] 0 1 (P_tail 5 1) (C_tail 0 1) [4] []"
  let ?c8 = "spsc_at [4, 0] [0] [0, 1] 0 1 (P_head 5 1 0) (C_tail 0 1) [4] []"
  let ?c9 = "spsc_at [4, 0] [0] [0, 1] 0 1 (P_head 5 1 0) (C_taken 0 4) [4] []"
  let ?c10 = "spsc_at [4, 5] [0] [0, 1] 0 1 (P_stored 5 1) (C_taken 0 4) [4] []"
  let ?c11 = "spsc_at [4, 5] [0, 1] [0, 1] 0 1 (P_stored 5 1) C_idle [4] [4]"
  let ?c12 = "spsc_at [4, 5] [0, 1] [0, 1, 2] 0 1 P_idle C_idle [4, 5] [4]"
  let ?c13 = "spsc_at [4, 5] [0, 1] [0, 1, 2] 0 1 P_idle (C_head 1) [4, 5] [4]"
  let ?c14 = "spsc_at [4, 5] [0, 1] [0, 1, 2] 0 1 (P_tail 6 2) (C_head 1) [4, 5] [4]"
  let ?c15 = "spsc_at [4, 5] [0, 1] [0, 1, 2] 0 2 (P_tail 6 2) (C_tail 1 2) [4, 5] [4]"
  let ?c16 = "spsc_at [4, 5] [0, 1] [0, 1, 2] 1 2 (P_head 6 2 1) (C_tail 1 2) [4, 5] [4]"
  have "spsc_step (spsc_start ((spsc_sample 0)\<lparr>sq_head := 0, sq_tail := 0\<rparr>)) ?c1"
    using push_load_tail [of "spsc_start ((spsc_sample 0)\<lparr>sq_head := 0, sq_tail := 0\<rparr>)" 4] by (simp add: sim)
  moreover have "spsc_step ?c1 ?c2" using pop_load_head [of ?c1] by (simp add: sim)
  moreover have "spsc_step ?c2 ?c3" using push_load_head [of ?c2 4 0 0] by (simp add: sim)
  moreover have "spsc_step ?c3 ?c4" using push_store [of ?c3 4 0 0] by (simp add: sim)
  moreover have "spsc_step ?c4 ?c5" using push_publish [of ?c4 4 0] by (simp add: sim)
  moreover have "spsc_step ?c5 ?c6" using pop_load_tail [of ?c5 0 1] by (simp add: sim)
  moreover have "spsc_step ?c6 ?c7" using push_load_tail [of ?c6 5] by (simp add: sim)
  moreover have "spsc_step ?c7 ?c8" using push_load_head [of ?c7 5 1 0] by (simp add: sim)
  ultimately have first: "spsc_step\<^sup>*\<^sup>* (spsc_start ((spsc_sample 0)\<lparr>sq_head := 0, sq_tail := 0\<rparr>)) ?c8"
    by (meson converse_rtranclp_into_rtranclp rtranclp.rtrancl_refl)
  have "spsc_step ?c8 ?c9" using pop_take [of ?c8 0 1 0 4] by (simp add: sim)
  moreover have "spsc_step ?c9 ?c10" using push_store [of ?c9 5 1 0] by (simp add: sim)
  moreover have "spsc_step ?c10 ?c11" using pop_publish [of ?c10 0 4] by (simp add: sim)
  moreover have "spsc_step ?c11 ?c12" using push_publish [of ?c11 5 1] by (simp add: sim)
  moreover have "spsc_step ?c12 ?c13" using pop_load_head [of ?c12] by (simp add: sim)
  moreover have "spsc_step ?c13 ?c14" using push_load_tail [of ?c13 6] by (simp add: sim)
  moreover have "spsc_step ?c14 ?c15" using pop_load_tail [of ?c14 1 2] by (simp add: sim)
  moreover have "spsc_step ?c15 ?c16" using push_load_head [of ?c15 6 2 1] by (simp add: sim)
  ultimately have "spsc_step\<^sup>*\<^sup>* ?c8 ?c16" by (meson converse_rtranclp_into_rtranclp rtranclp.rtrancl_refl)
  with first show ?thesis by (rule rtranclp_trans)
qed

theorem spsc_concurrent_fifo_witness:
  "\<exists>c. spsc_step\<^sup>*\<^sup>* (spsc_start ((spsc_sample 0)\<lparr>sq_head := 0, sq_tail := 0\<rparr>)) c \<and>
    producer_slot c = Some 0 \<and> consumer_slot c = Some 1 \<and> \<not> spsc_race c \<and>
    th_pushed c = [4, 5] \<and> th_popped c = [4] \<and> th_popped c = take 1 (th_pushed c) \<and> length (th_pushed c) \<le> 1 + 2"
proof -
  let ?c = "spsc_at [4, 5] [0, 1] [0, 1, 2] 1 2 (P_head 6 2 1) (C_tail 1 2) [4, 5] [4]"
  have "\<not> spsc_overwrites ((spsc_sample 0)\<lparr>sq_head := 0, sq_tail := 0\<rparr>)" "\<not> ep_runtime (typed_trivial_policy 8 8)"
    by (simp_all add: spsc_overwrites_def spsc_sample_def)
  from spsc_concurrent_fifo [OF spsc_sample_init _ this spsc_interleaved_run] have
    "\<not> spsc_race ?c \<and> th_popped ?c = take (length (th_popped ?c)) (th_pushed ?c) \<and>
      length (th_pushed ?c) \<le> length (th_popped ?c) + unat (2 :: u64)" by simp
  moreover have "producer_slot ?c = Some 0" "consumer_slot ?c = Some 1" "th_pushed ?c = [4, 5]" "th_popped ?c = [4]"
    by (simp_all add: spsc_at_def spsc_sample_def producer_slot_def consumer_slot_def spsc_slot_def word_le_nat_alt)
  ultimately show ?thesis by (intro exI [of _ ?c] conjI spsc_interleaved_run) simp_all
qed

text \<open>
  In every reachable state of the two threads each of them can make a step of its own: no
  element access leaves the storage and neither call waits for the other.
\<close>

theorem spsc_threads_progress:
  assumes "spsc_init s0 pol (Some xs) n fl = (Ok, q)" "unat n \<le> length xs" "\<not> spsc_overwrites q" "\<not> ep_runtime pol"
    and "spsc_step\<^sup>*\<^sup>* (spsc_start q) c"
  shows "(\<exists>c'. spsc_step c c' \<and> th_c c' = th_c c) \<and> (\<exists>c'. spsc_step c c' \<and> th_p c' = th_p c)"
proof -
  from spsc_start_inv [OF assms(1-4)] obtain k where k: "spsc_inv k xs (spsc_start q)" by blast
  from spsc_reachable_inv [OF assms(5) k] obtain ys where inv: "spsc_inv k ys c" by blast
  have seen: "th_seen_head c < length (th_heads c)" "th_seen_tail c < length (th_tails c)" "\<not> spsc_overwrites (th_q c)"
    "producer_ok k ys c (th_p c)"
    using inv by (simp_all add: spsc_inv_def)
  have "\<exists>c'. spsc_step c c' \<and> th_c c' = th_c c"
  proof (cases "th_p c")
    case P_idle
    from push_load_tail [OF P_idle, of undefined] show ?thesis by fastforce
  next
    case (P_tail e t)
    from push_load_head [OF P_tail order_refl seen(1)] show ?thesis by fastforce
  next
    case (P_head e t h)
    from spsc_inv_access(1) [OF inv P_head] obtain q' where q': "spsc_put (th_q c) t e = Some q'" ..
    show ?thesis
    proof (cases "t - h \<ge> sq_cap (th_q c)")
      case True
      from push_full [OF P_head True seen(3)] show ?thesis by fastforce
    next
      case False
      from push_store [OF P_head False q'] show ?thesis by fastforce
    qed
  next
    case (P_stored e t)
    from push_publish [OF P_stored] show ?thesis by (fastforce simp: store_tail_def)
  qed (use seen(4) in auto)
  moreover have "\<exists>c'. spsc_step c c' \<and> th_p c' = th_p c"
  proof (cases "th_c c")
    case C_idle
    from pop_load_head [OF C_idle] show ?thesis by fastforce
  next
    case (C_head h)
    from pop_load_tail [OF C_head order_refl seen(2)] show ?thesis by fastforce
  next
    case (C_tail h t)
    from spsc_inv_access(2) [OF inv C_tail] obtain v q' where q': "spsc_take (th_q c) h (Some undefined) True = Some (Some v, q')"
      by blast
    show ?thesis
    proof (cases "h = t")
      case True
      from pop_empty [OF C_tail True] show ?thesis by fastforce
    next
      case False
      from pop_take [OF C_tail False q'] show ?thesis by fastforce
    qed
  next
    case (C_taken h v)
    from pop_publish [OF C_taken] show ?thesis by (fastforce simp: store_head_def)
  qed
  ultimately show ?thesis ..
qed

theorem spsc_threads_progress_witness:
  "\<exists>c'. spsc_step (spsc_start ((spsc_sample 0)\<lparr>sq_head := 0, sq_tail := 0\<rparr>)) c'"
  using spsc_threads_progress [OF spsc_sample_init _ _ _ rtranclp.rtrancl_refl, of 0]
  by (auto simp: spsc_overwrites_def spsc_sample_def)

text \<open>
  With \<open>overwrite_on_full\<close> the producer writes the consumer's slot: the two threads reach a state
  in which the next step of each accesses the same slot.
\<close>

theorem spsc_overwrite_races:
  "\<exists>c. spsc_step\<^sup>*\<^sup>* (spsc_start ((spsc_sample spsc_overwrite_on_full)\<lparr>sq_head := 0, sq_tail := 0\<rparr>)) c \<and> spsc_race c"
proof -
  let ?q = "(spsc_sample spsc_overwrite_on_full)\<lparr>sq_head := 0, sq_tail := 0\<rparr>"
  have sample: "sq_pol ?q = typed_trivial_policy 8 8" "sq_storage ?q = Some [0, 0]" "sq_cap ?q = 2" "sq_mask ?q = 1"
    by (simp_all add: spsc_sample_def)
  have s0: "settled (spsc_start ?q)" by (simp add: settled_def spsc_start_def)
  have call1: "spsc_push (th_q (spsc_start ?q)) (Some 7) =
      Some (Ok, Some 7, ?q\<lparr>sq_storage := Some [7, 0], sq_tail := 1\<rparr>)"
    by (simp add: spsc_start_def spsc_push_def spsc_put_def spsc_slot_def spsc_sample_def)
  from push_as_steps [OF s0 call1] obtain c1 where c1: "spsc_step\<^sup>*\<^sup>* (spsc_start ?q) c1" "settled c1"
    "th_q c1 = ?q\<lparr>sq_storage := Some [7, 0], sq_tail := 1\<rparr>" by blast
  have call2: "spsc_push (th_q c1) (Some 8) = Some (Ok, Some 8, ?q\<lparr>sq_storage := Some [7, 8], sq_tail := 2\<rparr>)"
    using c1(3) by (simp add: spsc_push_def spsc_put_def spsc_slot_def spsc_sample_def word_le_nat_alt)
  from push_as_steps [OF c1(2) call2] obtain c2 where c2: "spsc_step\<^sup>*\<^sup>* c1 c2" "settled c2"
    "th_q c2 = ?q\<lparr>sq_storage := Some [7, 8], sq_tail := 2\<rparr>" by blast
  define c3 where "c3 = c2\<lparr>th_p := P_tail 9 2\<rparr>"
  define c4 where "c4 = c3\<lparr>th_p := P_head 9 2 0, th_seen_head := length (th_heads c2) - 1\<rparr>"
  define c5 where "c5 = c4\<lparr>th_c := C_head 0\<rparr>"
  define c6 where "c6 = c5\<lparr>th_c := C_tail 0 2, th_seen_tail := length (th_tails c2) - 1\<rparr>"
  note last2 = settled_last [OF c2(2)]
  have idle: "th_p c2 = P_idle" "th_c c2 = C_idle" and n: "th_seen_head c2 \<le> length (th_heads c2) - 1"
    "length (th_heads c2) - 1 < length (th_heads c2)" "th_seen_tail c2 \<le> length (th_tails c2) - 1"
    "length (th_tails c2) - 1 < length (th_tails c2)"
    using c2(2) by (auto simp: settled_def)
  have "spsc_step c2 c3" using push_load_tail [OF idle(1), of 9] c2(3) by (simp add: c3_def)
  moreover have "spsc_step c3 c4"
    using push_load_head [of c3 9 2 "length (th_heads c2) - 1"] n last2(1) c2(3) by (simp add: c4_def c3_def)
  moreover have "spsc_step c4 c5" using pop_load_head [of c4] idle c2(3) by (simp add: c5_def c4_def c3_def)
  moreover have "spsc_step c5 c6"
    using pop_load_tail [of c5 0 "length (th_tails c2) - 1"] n last2(2) c2(3)
    by (simp add: c6_def c5_def c4_def c3_def)
  ultimately have "spsc_step\<^sup>*\<^sup>* c2 c6" by (meson converse_rtranclp_into_rtranclp steps2)
  then have "spsc_step\<^sup>*\<^sup>* (spsc_start ?q) c6" using c1(1) c2(1) by (meson rtranclp_trans)
  moreover have "spsc_race c6"
    using c2(3)
    by (simp add: spsc_race_def producer_slot_def consumer_slot_def c6_def c5_def c4_def c3_def spsc_slot_def
        spsc_sample_def spsc_overwrites_def spsc_overwrite_on_full_def)
  ultimately show ?thesis by blast
qed

text \<open>
  The overwriting push moves out of the caller's element, which it received as a pointer to
  \<open>const\<close>; every other push leaves it as it was.
\<close>

theorem spsc_push_source:
  assumes "spsc_push s (Some e) = Some (st, src, s')"
  shows "src = Some (if spsc_overwrites s \<and> spsc_full s then ep_moved (sq_pol s) e else e)"
  using assms
  by (auto simp: spsc_push_def spsc_full_def spsc_size_def Let_def bind_eq_Some_conv split: if_splits)

theorem spsc_push_source_witness:
  "spsc_push (spsc_sample 0) (Some 5) =
     Some (Ok, Some 5, (spsc_sample 0)\<lparr>sq_storage := Some [0, 5], sq_tail := 0\<rparr>) \<and>
   Some (5 :: nat) = Some (if spsc_overwrites (spsc_sample 0) \<and> spsc_full (spsc_sample 0)
     then ep_moved (sq_pol (spsc_sample 0)) 5 else 5)"
proof -
  have call: "spsc_push (spsc_sample 0) (Some 5) =
     Some (Ok, Some 5, (spsc_sample 0)\<lparr>sq_storage := Some [0, 5], sq_tail := 0\<rparr>)"
    by (simp add: spsc_push_def spsc_put_def spsc_slot_def spsc_sample_def)
  with spsc_push_source [OF call] show ?thesis by simp
qed

end
