(* ===== verification/Vector.thy ===== *)
theory Vector
  imports Contracts
begin

text \<open>
  \<^verbatim>\<open>include/memkit/detail/vector_core.hpp\<close>: the dynamic array behind Vector and Stack.

  The storage is one cell per slot. \<open>vc_malloced\<close> says whether the block the vector points to came
  from \<open>malloc\<close>: \<open>free\<close> and \<open>realloc\<close> of any other block are undefined. A block an allocator
  returns is a fresh one.
\<close>

section \<open>State\<close>

definition linear_external :: u8 where "linear_external = 0"
definition linear_owns :: u8 where "linear_owns = 1"
definition linear_arena :: u8 where "linear_arena = 2"
definition linear_heap :: u8 where "linear_heap = 4"

definition policy_growable :: u8 where "policy_growable = 1"

record 'e vec =
  vc_policy :: "'e elem_policy"
  vc_storage :: "'e mem"
  vc_capacity :: nat
  vc_size :: nat
  vc_flags :: u8
  vc_kind :: u8
  vc_grow :: bool
  vc_malloced :: bool
  vc_destroyed :: "'e list"

definition vec_growable :: "'e vec \<Rightarrow> bool" where
  "vec_growable s \<longleftrightarrow> vc_flags s AND policy_growable \<noteq> 0"

definition vec_on_heap :: "'e env \<Rightarrow> u8 \<Rightarrow> bool" where
  "vec_on_heap env kind \<longleftrightarrow> env_allow_heap env \<and> kind AND linear_heap \<noteq> 0"

text \<open>\<open>from_malloc\<close>: where the caller got the storage from.\<close>

definition vec_init :: "'e vec \<Rightarrow> 'e elem_policy \<Rightarrow> 'e mem \<Rightarrow> bool \<Rightarrow> nat \<Rightarrow> u8 \<Rightarrow> status \<times> 'e vec" where
  "vec_init s policy storage from_malloc capacity grow_flags =
     (if storage = None \<or> capacity = 0 \<or> ep_size policy = 0 then (Invalid, s)
      else (Ok, s\<lparr>vc_policy := policy, vc_storage := storage, vc_malloced := from_malloc, vc_capacity := capacity,
              vc_size := 0, vc_flags := grow_flags\<rparr>))"

definition vec_reset_state :: "'e elem_policy \<Rightarrow> 'e vec \<Rightarrow> 'e vec" where
  "vec_reset_state default_policy s =
     s\<lparr>vc_policy := default_policy, vc_storage := None, vc_capacity := 0, vc_size := 0, vc_flags := 0,
       vc_kind := linear_external, vc_grow := False\<rparr>"

definition vec_set_storage_kind :: "'e vec \<Rightarrow> u8 \<Rightarrow> 'e vec" where
  "vec_set_storage_kind s kind = s\<lparr>vc_kind := kind\<rparr>"

definition vec_set_grow_alloc :: "'e vec \<Rightarrow> bool \<Rightarrow> 'e vec" where
  "vec_set_grow_alloc s grow = s\<lparr>vc_grow := grow\<rparr>"

definition vec_empty :: "'e vec \<Rightarrow> bool" where
  "vec_empty s \<longleftrightarrow> vc_size s = 0"

definition vec_destroy_slot :: "'e vec \<Rightarrow> nat \<Rightarrow> 'e vec option" where
  "vec_destroy_slot s i = do {
     v \<leftarrow> mem_rd (vc_storage s) i;
     Some (s\<lparr>vc_destroyed := destroy (vc_policy s) v (vc_destroyed s)\<rparr>)
   }"

fun vec_destroy_loop :: "'e vec \<Rightarrow> nat \<Rightarrow> nat \<Rightarrow> 'e vec option" where
  "vec_destroy_loop s i 0 = Some s"
| "vec_destroy_loop s i (Suc n) = do {
     s' \<leftarrow> vec_destroy_slot s i;
     vec_destroy_loop s' (Suc i) n
   }"

definition vec_clear :: "'e vec \<Rightarrow> 'e vec option" where
  "vec_clear s =
     (if vc_size s = 0 then Some s
      else do {
        s' \<leftarrow> (if needs_destroy_on_clear (vc_policy s) then vec_destroy_loop s 0 (vc_size s) else Some s);
        Some (s'\<lparr>vc_size := 0\<rparr>)
      })"

section \<open>Growing\<close>

text \<open>
  \<open>copy_range\<close> from the storage of \<open>s\<close> to the block \<open>new\<close>: a runtime policy copies, a typed one moves
  and destroys the source.
\<close>

fun vec_copy_range :: "'e vec \<Rightarrow> 'e mem \<Rightarrow> nat \<Rightarrow> nat \<Rightarrow> (status \<times> 'e vec \<times> 'e mem) option" where
  "vec_copy_range s new i 0 = Some (Ok, s, new)"
| "vec_copy_range s new i (Suc n) = do {
     v \<leftarrow> mem_rd (vc_storage s) i;
     old \<leftarrow> mem_rd new i;
     if ep_runtime (vc_policy s) then do {
       let (st, w) = copy_construct (vc_policy s) old v;
       new' \<leftarrow> mem_wr new i w;
       if st \<noteq> Ok then Some (st, s, new') else vec_copy_range s new' (Suc i) n
     }
     else do {
       new' \<leftarrow> mem_wr new i v;
       src \<leftarrow> mem_wr (vc_storage s) i (ep_moved (vc_policy s) v);
       s' \<leftarrow> vec_destroy_slot (s\<lparr>vc_storage := src\<rparr>) i;
       vec_copy_range s' new' (Suc i) n
     }
   }"

text \<open>\<open>realloc\<close>: the cells both blocks have keep their content.\<close>

definition realloc_block :: "'e env \<Rightarrow> nat \<Rightarrow> nat \<Rightarrow> 'e list \<Rightarrow> 'e list" where
  "realloc_block env bytes sz xs =
     map (\<lambda>i. if i < length xs then xs ! i else env_junk env i) [0..<bytes div sz]"

definition vec_reallocate :: "'e env \<Rightarrow> 'e vec \<Rightarrow> nat \<Rightarrow> (status \<times> 'e vec) option" where
  "vec_reallocate env s new_capacity =
     (if new_capacity < vc_size s then Some (Invalid, s)
      else
        let bytes = sz_mul new_capacity (ep_size (vc_policy s));
            fresh = Some (new_block env bytes (ep_size (vc_policy s)))
        in
        if vec_on_heap env (vc_kind s) then
          (case vc_storage s of
             Some xs \<Rightarrow>
               if \<not> vc_malloced s then None
               else if \<not> env_malloc env bytes then Some (Oom, s)
               else Some (Ok, s\<lparr>vc_storage := Some (realloc_block env bytes (ep_size (vc_policy s)) xs),
                               vc_capacity := new_capacity\<rparr>)
           | None \<Rightarrow>
               if \<not> env_malloc env bytes then Some (Oom, s)
               else Some (Ok, s\<lparr>vc_storage := fresh, vc_malloced := True, vc_capacity := new_capacity\<rparr>))
        else
          let (st, kind, from_malloc) =
            (if vc_grow s then (env_grow env bytes (ep_align (vc_policy s)), vc_kind s, False)
             else if env_allow_heap env then
               (if env_malloc env bytes then (Ok, linear_owns OR linear_heap, True) else (Oom, vc_kind s, False))
             else (Unsupported, vc_kind s, False))
          in
          if st \<noteq> Ok then Some (st, s)
          else do {
            (copy_st, s', new') \<leftarrow>
              (if vc_size s > 0 \<and> vc_storage s \<noteq> None
               then vec_copy_range (s\<lparr>vc_kind := kind\<rparr>) fresh 0 (vc_size s)
               else Some (Ok, s\<lparr>vc_kind := kind\<rparr>, fresh));
            if copy_st \<noteq> Ok then Some (copy_st, s')
            else if vec_on_heap env kind \<and> vc_storage s' \<noteq> None \<and> \<not> vc_malloced s' then None
            else Some (Ok, s'\<lparr>vc_storage := new', vc_malloced := from_malloc, vc_capacity := new_capacity\<rparr>)
          })"

definition vec_grow :: "'e env \<Rightarrow> 'e vec \<Rightarrow> nat \<Rightarrow> (status \<times> 'e vec) option" where
  "vec_grow env s min_capacity =
     (if \<not> vec_growable s then Some (Full, s)
      else do {
        new_capacity \<leftarrow> grow_capacity (vc_capacity s) min_capacity;
        if new_capacity < min_capacity then Some (Oom, s) else vec_reallocate env s new_capacity
      })"

definition vec_reserve :: "'e env \<Rightarrow> 'e vec \<Rightarrow> nat \<Rightarrow> (status \<times> 'e vec) option" where
  "vec_reserve env s min_capacity =
     (if min_capacity \<le> vc_capacity s then Some (Ok, s)
      else if \<not> vec_growable s then Some (Full, s)
      else vec_grow env s min_capacity)"

section \<open>Operations\<close>

definition vec_put :: "'e vec \<Rightarrow> 'e \<Rightarrow> (status \<times> 'e vec) option" where
  "vec_put s e = do {
     old \<leftarrow> mem_rd (vc_storage s) (vc_size s);
     let (st, v) = copy_construct (vc_policy s) old e;
     storage \<leftarrow> mem_wr (vc_storage s) (vc_size s) v;
     if st \<noteq> Ok then Some (st, s\<lparr>vc_storage := storage\<rparr>)
     else Some (Ok, s\<lparr>vc_storage := storage, vc_size := sz_add (vc_size s) 1\<rparr>)
   }"

definition vec_push_back :: "'e env \<Rightarrow> 'e vec \<Rightarrow> 'e option \<Rightarrow> (status \<times> 'e vec) option" where
  "vec_push_back env s elem =
     (case elem of
        None \<Rightarrow> Some (Null_ptr, s)
      | Some e \<Rightarrow> do {
          (st, s') \<leftarrow> (if vc_size s = vc_capacity s then vec_grow env s (sz_add (vc_size s) 1) else Some (Ok, s));
          if st \<noteq> Ok then Some (st, s') else vec_put s' e
        })"

definition vec_pop_back :: "'e vec \<Rightarrow> 'e option \<Rightarrow> (status \<times> 'e option \<times> 'e vec) option" where
  "vec_pop_back s out =
     (if vec_empty s then Some (Empty, out, s)
      else
        let s1 = s\<lparr>vc_size := sz_sub (vc_size s) 1\<rparr>; i = vc_size s1 in do {
          v \<leftarrow> mem_rd (vc_storage s1) i;
          (case out of
             Some dst \<Rightarrow>
               (if ep_runtime (vc_policy s1) then
                  (let (st, w) = copy_construct (vc_policy s1) dst v in
                   if st \<noteq> Ok then Some (st, Some w, s1\<lparr>vc_size := sz_add (vc_size s1) 1\<rparr>)
                   else Some (Ok, Some w, s1))
                else do {
                  storage \<leftarrow> mem_wr (vc_storage s1) i (ep_moved (vc_policy s1) v);
                  s2 \<leftarrow> (if needs_destroy_on_clear (vc_policy s1)
                        then vec_destroy_slot (s1\<lparr>vc_storage := storage\<rparr>) i
                        else Some (s1\<lparr>vc_storage := storage\<rparr>));
                  Some (Ok, Some v, s2)
                })
           | None \<Rightarrow>
               (if needs_destroy_on_clear (vc_policy s1) then do {
                  s2 \<leftarrow> vec_destroy_slot s1 i;
                  Some (Ok, None, s2)
                }
                else Some (Ok, None, s1)))
        })"

definition vec_peek_at :: "'e vec \<Rightarrow> nat \<Rightarrow> 'e option \<Rightarrow> (status \<times> 'e option) option" where
  "vec_peek_at s index out =
     (if out = None then Some (Null_ptr, out)
      else if index \<ge> vc_size s then Some (Invalid, out)
      else do {
        v \<leftarrow> mem_rd (vc_storage s) index;
        Some (Ok, Some v)
      })"

definition vec_peek_front :: "'e vec \<Rightarrow> 'e option \<Rightarrow> (status \<times> 'e option) option" where
  "vec_peek_front s out = vec_peek_at s 0 out"

definition vec_peek_back :: "'e vec \<Rightarrow> 'e option \<Rightarrow> (status \<times> 'e option) option" where
  "vec_peek_back s out =
     (if out = None then Some (Null_ptr, out)
      else if vec_empty s then Some (Empty, out)
      else do {
        v \<leftarrow> mem_rd (vc_storage s) (sz_sub (vc_size s) 1);
        Some (Ok, Some v)
      })"

definition vec_set_at :: "'e vec \<Rightarrow> nat \<Rightarrow> 'e option \<Rightarrow> (status \<times> 'e vec) option" where
  "vec_set_at s index elem =
     (case elem of
        None \<Rightarrow> Some (Null_ptr, s)
      | Some e \<Rightarrow>
          if index \<ge> vc_size s then Some (Invalid, s)
          else do {
            old \<leftarrow> mem_rd (vc_storage s) index;
            let (st, v) = copy_construct (vc_policy s) old e;
            storage \<leftarrow> mem_wr (vc_storage s) index v;
            Some (if ep_runtime (vc_policy s) then st else Ok, s\<lparr>vc_storage := storage\<rparr>)
          })"

text \<open>A pointer to a slot is its index; \<open>None\<close> is the null pointer.\<close>

definition vec_at :: "'e vec \<Rightarrow> nat \<Rightarrow> nat option" where
  "vec_at s index = (if index < vc_size s then Some index else None)"

fun vec_foreach_loop ::
  "('e \<Rightarrow> nat \<Rightarrow> 'w \<Rightarrow> status \<times> 'w) \<Rightarrow> 'e vec \<Rightarrow> nat \<Rightarrow> nat \<Rightarrow> 'w \<Rightarrow> (status \<times> 'w) option" where
  "vec_foreach_loop visit s i 0 w = Some (Ok, w)"
| "vec_foreach_loop visit s i (Suc n) w = do {
     v \<leftarrow> mem_rd (vc_storage s) i;
     let (st, w') = visit v i w;
     if st \<noteq> Ok then Some (st, w') else vec_foreach_loop visit s (Suc i) n w'
   }"

definition vec_foreach :: "('e \<Rightarrow> nat \<Rightarrow> 'w \<Rightarrow> status \<times> 'w) \<Rightarrow> 'e vec \<Rightarrow> 'w \<Rightarrow> (status \<times> 'w) option" where
  "vec_foreach visit s w = vec_foreach_loop visit s 0 (vc_size s) w"

end
