(* ===== verification/Vector_Correct.thy ===== *)
theory Vector_Correct
  imports Vector Window
begin

text \<open>
  Correctness of the vector: it is a bounded stack, its other operations act on the list of its
  elements, growing keeps them where the storage may be given up, and is undefined where the
  caller's own storage is passed to \<open>free\<close>.
\<close>

definition vec_wf :: "'e vec \<Rightarrow> bool" where
  "vec_wf s \<longleftrightarrow>
     (case vc_storage s of
        None \<Rightarrow> False
      | Some xs \<Rightarrow> 0 < vc_capacity s \<and> vc_capacity s \<le> length xs \<and> vc_capacity s \<le> PTRDIFF_MAX \<and>
          vc_size s \<le> vc_capacity s)"

definition vec_contents :: "'e vec \<Rightarrow> 'e list" where
  "vec_contents s = (case vc_storage s of None \<Rightarrow> [] | Some xs \<Rightarrow> take (vc_size s) xs)"

lemma vec_wfE:
  assumes "vec_wf s"
  obtains xs where "vc_storage s = Some xs" "0 < vc_capacity s" "vc_capacity s \<le> length xs"
    "vc_capacity s + vc_capacity s < SIZE_MAX" "vc_size s \<le> vc_capacity s" "vc_size s \<le> length xs"
    "vec_contents s = take (vc_size s) xs"
  using assms by (auto simp: vec_wf_def vec_contents_def PTRDIFF_MAX_SIZE_MAX split: option.splits)

lemma vec_wf_PTRDIFF: "vec_wf s \<Longrightarrow> vc_capacity s \<le> PTRDIFF_MAX"
  by (auto simp: vec_wf_def split: option.splits)

lemma length_vec_contents: "vec_wf s \<Longrightarrow> length (vec_contents s) = vc_size s"
  by (auto elim!: vec_wfE)

definition vec_frame :: "'e vec \<Rightarrow> 'e vec \<Rightarrow> bool" where
  "vec_frame s s' \<longleftrightarrow> vc_policy s' = vc_policy s \<and> vc_capacity s' = vc_capacity s \<and> vc_flags s' = vc_flags s \<and>
     vc_kind s' = vc_kind s \<and> vc_grow s' = vc_grow s \<and> vc_malloced s' = vc_malloced s"

lemma vec_frame_refl [simp]: "vec_frame s s"
  by (simp add: vec_frame_def)

section \<open>Pushing and popping\<close>

lemma take_Suc_update: "n < length xs \<Longrightarrow> take (Suc n) (xs[n := e]) = take n xs @ [e]"
  by (simp add: take_Suc_conv_app_nth)

lemma vec_put_ok:
  assumes wf: "vec_wf s" and room: "vc_size s < vc_capacity s"
  shows "\<exists>st s'. vec_put s e = Some (st, s') \<and> vec_wf s' \<and> vec_frame s s' \<and> vc_destroyed s' = vc_destroyed s \<and>
    (faithful (vc_policy s) \<longrightarrow> st = Ok) \<and>
    (if st = Ok then length (vec_contents s') = Suc (length (vec_contents s)) else vec_contents s' = vec_contents s) \<and>
    (faithful (vc_policy s) \<longrightarrow> vec_contents s' = vec_contents s @ [e])"
proof -
  from wf obtain xs where xs: "vc_storage s = Some xs" "0 < vc_capacity s" "vc_capacity s \<le> length xs"
    "vc_capacity s + vc_capacity s < SIZE_MAX" "vec_contents s = take (vc_size s) xs" by (rule vec_wfE)
  obtain st v where cp: "copy_construct (vc_policy s) (xs ! vc_size s) e = (st, v)" by fastforce
  have n: "vc_size s < length xs" "Suc (vc_size s) \<le> SIZE_MAX" using xs room by simp_all
  define s' where "s' = s\<lparr>vc_storage := Some (xs[vc_size s := v]),
    vc_size := if st = Ok then Suc (vc_size s) else vc_size s\<rparr>"
  have "vec_put s e = Some (st, s')"
    using xs n cp by (auto simp: vec_put_def sz_add_eq s'_def)
  moreover have "vec_wf s'" using wf xs room by (simp add: vec_wf_def s'_def)
  moreover have "vec_contents s' = (if st = Ok then take (vc_size s) xs @ [v] else take (vc_size s) xs)"
    using n take_Suc_update [of "vc_size s" xs v] by (simp add: vec_contents_def s'_def)
  ultimately show ?thesis
    using xs(5) cp n by (intro exI [of _ st] exI [of _ s']) (auto simp: vec_frame_def s'_def)
qed

lemma vec_pop_back_effect:
  assumes wf: "vec_wf s" and f: "faithful (vc_policy s)"
  shows "\<exists>st out' s'. vec_pop_back s out = Some (st, out', s') \<and> vec_wf s' \<and> vec_frame s s' \<and>
    (if vec_contents s = [] then st = Empty \<and> out' = out \<and> s' = s
     else st = Ok \<and> out' = map_option (\<lambda>_. last (vec_contents s)) out \<and> vec_contents s' = butlast (vec_contents s) \<and>
       vc_destroyed s' = (if out = None then destroy (vc_policy s) (last (vec_contents s)) (vc_destroyed s)
         else if ep_runtime (vc_policy s) then vc_destroyed s
         else destroy (vc_policy s) (ep_moved (vc_policy s) (last (vec_contents s))) (vc_destroyed s)))"
proof (cases "vc_size s")
  case 0
  with wf length_vec_contents [OF wf] show ?thesis by (simp add: vec_pop_back_def vec_empty_def)
next
  case (Suc n)
  from wf obtain xs where xs: "vc_storage s = Some xs" "0 < vc_capacity s" "vc_capacity s \<le> length xs"
    "vc_capacity s + vc_capacity s < SIZE_MAX" "vc_size s \<le> vc_capacity s" "vec_contents s = take (vc_size s) xs"
    by (rule vec_wfE)
  have n: "n < length xs" "sz_sub (Suc n) 1 = n" using xs Suc by (simp_all add: sz_sub_eq)
  have cont: "vec_contents s = take n xs @ [xs ! n]" using xs Suc n by (simp add: take_Suc_conv_app_nth)
  define s' where "s' = s\<lparr>vc_size := n,
    vc_storage := Some (if out \<noteq> None \<and> \<not> ep_runtime (vc_policy s) then xs[n := ep_moved (vc_policy s) (xs ! n)] else xs),
    vc_destroyed := (if out = None then destroy (vc_policy s) (xs ! n) (vc_destroyed s)
         else if ep_runtime (vc_policy s) then vc_destroyed s
         else destroy (vc_policy s) (ep_moved (vc_policy s) (xs ! n)) (vc_destroyed s))\<rparr>"
  have "vec_pop_back s out = Some (Ok, map_option (\<lambda>_. xs ! n) out, s')"
    using xs Suc n f
    by (cases s; cases out)
       (auto simp: vec_pop_back_def vec_empty_def vec_destroy_slot_def needs_destroy_on_clear_def Let_def s'_def)
  moreover have "vec_wf s'" using wf xs Suc by (auto simp: vec_wf_def s'_def)
  moreover have "vec_contents s' = take n xs" by (simp add: vec_contents_def s'_def)
  moreover have "vec_contents s \<noteq> []" "last (vec_contents s) = xs ! n" "butlast (vec_contents s) = take n xs"
    using cont by simp_all
  ultimately show ?thesis by (simp add: vec_frame_def s'_def)
qed

definition vec_fixed :: "'e vec \<Rightarrow> bool" where
  "vec_fixed s \<longleftrightarrow> vec_wf s \<and> faithful (vc_policy s) \<and> \<not> vec_growable s"

interpretation vec_stack: bounded_lifo vec_fixed vec_contents vc_capacity
  "\<lambda>s e. vec_push_back env s (Some e)" "\<lambda>s. vec_pop_back s (Some d)" for env d
proof unfold_locales
  fix s :: "'a vec" and e
  assume inv: "vec_fixed s"
  then have wf: "vec_wf s" "faithful (vc_policy s)" "\<not> vec_growable s" by (simp_all add: vec_fixed_def)
  note len = length_vec_contents [OF wf(1)]
  have cap: "vc_size s \<le> vc_capacity s" using wf(1) by (auto elim: vec_wfE)
  have keep: "vec_frame s t \<Longrightarrow> vec_wf t \<Longrightarrow> vec_fixed t \<and> vc_capacity t = vc_capacity s" for t
    using wf by (simp add: vec_fixed_def vec_frame_def vec_growable_def)
  show "\<exists>s'. vec_push_back env s (Some e) = Some (Ok, s') \<and> vec_fixed s' \<and>
      vec_contents s' = vec_contents s @ [e] \<and> vc_capacity s' = vc_capacity s"
    if "length (vec_contents s) < vc_capacity s"
    using vec_put_ok [OF wf(1), of e] that len wf(2) keep by (auto simp: vec_push_back_def)
  show "vec_push_back env s (Some e) = Some (Full, s)" if "vc_capacity s \<le> length (vec_contents s)"
    using that len cap wf(3) by (simp add: vec_push_back_def vec_grow_def)
  note pop = vec_pop_back_effect [OF wf(1,2), of "Some d"]
  show "\<exists>v. vec_pop_back s (Some d) = Some (Empty, v, s)" if "vec_contents s = []"
    using pop that by auto
  show "\<exists>s'. vec_pop_back s (Some d) = Some (Ok, Some (last (vec_contents s)), s') \<and> vec_fixed s' \<and>
      vec_contents s' = butlast (vec_contents s) \<and> vc_capacity s' = vc_capacity s" if "vec_contents s \<noteq> []"
    using pop that keep by auto
qed

section \<open>The other operations\<close>

lemma vec_peek_at_effect:
  assumes wf: "vec_wf s"
  shows "vec_peek_at s i out =
    Some (if out = None then (Null_ptr, out) else if length (vec_contents s) \<le> i then (Invalid, out)
          else (Ok, Some (vec_contents s ! i)))"
  using wf length_vec_contents [OF wf] by (auto simp: vec_peek_at_def elim!: vec_wfE)

lemma vec_peek_back_effect:
  assumes wf: "vec_wf s"
  shows "vec_peek_back s out =
    Some (if out = None then (Null_ptr, out) else if vec_contents s = [] then (Empty, out)
          else (Ok, Some (last (vec_contents s))))"
proof (cases "vc_size s")
  case 0
  with wf length_vec_contents [OF wf] show ?thesis by (simp add: vec_peek_back_def vec_empty_def)
next
  case (Suc n)
  from wf obtain xs where xs: "vc_storage s = Some xs" "vc_size s \<le> length xs" "vc_capacity s + vc_capacity s < SIZE_MAX"
    "vc_size s \<le> vc_capacity s" "vec_contents s = take (vc_size s) xs" by (rule vec_wfE)
  then have n: "sz_sub (Suc n) 1 = n" and "vec_contents s = take n xs @ [xs ! n]"
    using Suc by (simp_all add: sz_sub_eq take_Suc_conv_app_nth)
  then have "last (vec_contents s) = xs ! n" "vec_contents s \<noteq> []" by simp_all
  with xs(1,2) Suc n show ?thesis by (simp add: vec_peek_back_def vec_empty_def)
qed

lemma vec_set_at_effect:
  assumes wf: "vec_wf s" and f: "faithful (vc_policy s)"
  shows "\<exists>s'. vec_set_at s i (Some e) = Some (if i < length (vec_contents s) then Ok else Invalid, s') \<and>
    vec_wf s' \<and> vec_frame s s' \<and> vec_contents s' = (vec_contents s)[i := e]"
proof (cases "i < vc_size s")
  case False
  with wf length_vec_contents [OF wf] show ?thesis by (simp add: vec_set_at_def list_update_beyond)
next
  case True
  from wf obtain xs where xs: "vc_storage s = Some xs" "vc_size s \<le> length xs" "vec_contents s = take (vc_size s) xs"
    by (rule vec_wfE)
  with True f length_vec_contents [OF wf] wf show ?thesis
    by (auto simp: vec_set_at_def vec_wf_def vec_frame_def vec_contents_def take_update_swap)
qed

lemma vec_foreach_loop_eq:
  assumes "vc_storage s = Some xs" "i + n \<le> length xs"
  shows "vec_foreach_loop visit s i n w = Some (visit_list visit i (take n (drop i xs)) w)"
  using assms(2)
proof (induction n arbitrary: i w)
  case (Suc n)
  then have "take (Suc n) (drop i xs) = xs ! i # take n (drop (Suc i) xs)"
    by (simp add: Cons_nth_drop_Suc [symmetric])
  with Suc assms(1) show ?case by (auto split: prod.splits)
qed simp

lemma vec_foreach_eq:
  assumes wf: "vec_wf s"
  shows "vec_foreach visit s w = Some (visit_list visit 0 (vec_contents s) w)"
proof -
  from wf obtain xs where xs: "vc_storage s = Some xs" "vc_size s \<le> length xs" "vec_contents s = take (vc_size s) xs"
    by (rule vec_wfE)
  then show ?thesis using vec_foreach_loop_eq [of s xs 0 "vc_size s" visit w] by (simp add: vec_foreach_def)
qed

lemma vec_destroy_loop_eq:
  assumes "vc_storage s = Some xs" "i + n \<le> length xs" "ep_destroy (vc_policy s)"
  shows "vec_destroy_loop s i n = Some (s\<lparr>vc_destroyed := vc_destroyed s @ take n (drop i xs)\<rparr>)"
  using assms
proof (induction n arbitrary: i s)
  case (Suc n)
  then have "take (Suc n) (drop i xs) = xs ! i # take n (drop (Suc i) xs)"
    by (simp add: Cons_nth_drop_Suc [symmetric])
  with Suc show ?case by (simp add: vec_destroy_slot_def)
qed simp

lemma vec_clear_effect:
  assumes wf: "vec_wf s"
  shows "\<exists>s'. vec_clear s = Some s' \<and> vec_wf s' \<and> vec_frame s s' \<and> vec_contents s' = [] \<and>
    vc_destroyed s' = vc_destroyed s @ (if ep_destroy (vc_policy s) then vec_contents s else [])"
proof (cases "vc_size s = 0")
  case True
  with wf length_vec_contents [OF wf] show ?thesis by (simp add: vec_clear_def)
next
  case False
  from wf obtain xs where xs: "vc_storage s = Some xs" "vc_size s \<le> length xs" "vec_contents s = take (vc_size s) xs"
    by (rule vec_wfE)
  then show ?thesis
    using False wf vec_destroy_loop_eq [of s xs 0 "vc_size s"]
    by (auto simp: vec_clear_def needs_destroy_on_clear_def vec_wf_def vec_frame_def vec_contents_def)
qed

section \<open>Growing\<close>

lemma vec_copy_range_faithful:
  assumes "vc_storage s = Some xs" "i + n \<le> length xs" "i + n \<le> length ys" "faithful (vc_policy s)"
  shows "\<exists>xs' zs. vec_copy_range s (Some ys) i n = Some (Ok, s\<lparr>vc_storage := Some xs',
      vc_destroyed := vc_destroyed s @ (if \<not> ep_runtime (vc_policy s) \<and> ep_destroy (vc_policy s)
        then map (ep_moved (vc_policy s)) (take n (drop i xs)) else [])\<rparr>, Some zs) \<and>
    length zs = length ys \<and> take i zs = take i ys \<and> take n (drop i zs) = take n (drop i xs)"
  using assms
proof (induction n arbitrary: i s xs ys)
  case 0
  then show ?case by (intro exI [of _ xs] exI [of _ ys]) simp
next
  case (Suc n)
  have i: "i < length xs" "i < length ys" using Suc.prems by simp_all
  define v where "v = xs ! i"
  define xs1 where "xs1 = (if ep_runtime (vc_policy s) then xs else xs[i := ep_moved (vc_policy s) v])"
  define s1 where "s1 = s\<lparr>vc_storage := Some xs1, vc_destroyed := vc_destroyed s @
    (if \<not> ep_runtime (vc_policy s) \<and> ep_destroy (vc_policy s) then [ep_moved (vc_policy s) v] else [])\<rparr>"
  have step: "vec_copy_range s (Some ys) i (Suc n) = vec_copy_range s1 (Some (ys[i := v])) (Suc i) n"
    using Suc.prems(1,4) i by (cases s) (auto simp: vec_destroy_slot_def destroy_def s1_def xs1_def v_def)
  have d1: "drop (Suc i) xs1 = drop (Suc i) xs" by (simp add: xs1_def)
  have s1: "vc_storage s1 = Some xs1" "vc_policy s1 = vc_policy s" "length xs1 = length xs"
    by (simp_all add: s1_def xs1_def)
  have pre: "Suc i + n \<le> length xs1" "Suc i + n \<le> length (ys[i := v])" "faithful (vc_policy s1)"
    using Suc.prems(2-4) s1(2,3) by simp_all
  from Suc.IH [OF s1(1) pre, unfolded s1(2) d1 length_list_update]
  obtain xs' zs where r: "vec_copy_range s1 (Some (ys[i := v])) (Suc i) n = Some (Ok, s1\<lparr>vc_storage := Some xs',
      vc_destroyed := vc_destroyed s1 @ (if \<not> ep_runtime (vc_policy s) \<and> ep_destroy (vc_policy s)
        then map (ep_moved (vc_policy s)) (take n (drop (Suc i) xs)) else [])\<rparr>, Some zs)"
    "length zs = length ys" "take (Suc i) zs = take (Suc i) (ys[i := v])"
    "take n (drop (Suc i) zs) = take n (drop (Suc i) xs)"
    by blast
  have "take (Suc i) zs = take i ys @ [v]" using r(3) take_Suc_update [OF i(2), of v] by simp
  moreover have "take (Suc i) zs = take i zs @ [zs ! i]" using r(2) i by (simp add: take_Suc_conv_app_nth)
  ultimately have zi: "take i zs = take i ys" "zs ! i = v" by simp_all
  have "take (Suc n) (drop i zs) = v # take n (drop (Suc i) zs)"
    using zi(2) r(2) i by (simp add: Cons_nth_drop_Suc [symmetric])
  moreover have "take (Suc n) (drop i xs) = v # take n (drop (Suc i) xs)"
    using i by (simp add: Cons_nth_drop_Suc [symmetric] v_def)
  ultimately show ?case
    using step r zi by (intro exI [of _ xs'] exI [of _ zs]) (simp add: s1_def)
qed

text \<open>Where the storage may be given up: it came from the heap, or an arena grants the new block.\<close>

definition vec_can_grow :: "'e env \<Rightarrow> 'e vec \<Rightarrow> nat \<Rightarrow> bool" where
  "vec_can_grow env s n \<longleftrightarrow>
     0 < ep_size (vc_policy s) \<and> n * ep_size (vc_policy s) \<le> SIZE_MAX \<and> n \<le> PTRDIFF_MAX \<and>
     (if vec_on_heap env (vc_kind s) then vc_malloced s \<and> env_malloc env (n * ep_size (vc_policy s))
      else vc_grow s \<and> env_grow env (n * ep_size (vc_policy s)) (ep_align (vc_policy s)) = Ok)"

lemma vec_reallocate_ok:
  assumes wf: "vec_wf s" and f: "faithful (vc_policy s)" and n: "vc_size s \<le> n" "0 < n" and g: "vec_can_grow env s n"
  shows "\<exists>s'. vec_reallocate env s n = Some (Ok, s') \<and> vec_wf s' \<and> vec_contents s' = vec_contents s \<and>
    vc_capacity s' = n \<and> vc_size s' = vc_size s \<and> vc_policy s' = vc_policy s \<and> vc_flags s' = vc_flags s \<and>
    vc_kind s' = vc_kind s \<and> vc_grow s' = vc_grow s \<and>
    vc_destroyed s' = vc_destroyed s @ (if \<not> vec_on_heap env (vc_kind s) \<and> \<not> ep_runtime (vc_policy s) \<and>
      ep_destroy (vc_policy s) then map (ep_moved (vc_policy s)) (vec_contents s) else [])"
proof -
  from wf obtain xs where xs: "vc_storage s = Some xs" "vc_size s \<le> length xs" "vec_contents s = take (vc_size s) xs"
    by (rule vec_wfE)
  let ?b = "n * ep_size (vc_policy s)"
  have sz: "0 < ep_size (vc_policy s)" "sz_mul n (ep_size (vc_policy s)) = ?b" "?b div ep_size (vc_policy s) = n"
    "n \<le> PTRDIFF_MAX"
    using g by (simp_all add: vec_can_grow_def sz_mul_eq)
  show ?thesis
  proof (cases "vec_on_heap env (vc_kind s)")
    case True
    define ys where "ys = realloc_block env ?b (ep_size (vc_policy s)) xs"
    have ys: "length ys = n" "take (vc_size s) ys = take (vc_size s) xs"
      using sz n xs(2) by (auto simp: ys_def realloc_block_def intro!: nth_equalityI)
    have "vec_reallocate env s n = Some (Ok, s\<lparr>vc_storage := Some ys, vc_capacity := n\<rparr>)"
      using True g n xs(1) sz by (simp add: vec_reallocate_def vec_can_grow_def ys_def Let_def)
    with True ys n sz xs show ?thesis by (simp add: vec_wf_def vec_contents_def)
  next
    case False
    define ys where "ys = new_block env ?b (ep_size (vc_policy s))"
    have ys: "length ys = n" using sz by (simp add: ys_def)
    have pre: "0 + vc_size s \<le> length xs" "0 + vc_size s \<le> length ys" using xs(2) ys n by simp_all
    from vec_copy_range_faithful [OF xs(1) pre f, unfolded drop_0 xs(3) [symmetric]]
    obtain xs' zs where r: "vec_copy_range s (Some ys) 0 (vc_size s) = Some (Ok, s\<lparr>vc_storage := Some xs',
        vc_destroyed := vc_destroyed s @ (if \<not> ep_runtime (vc_policy s) \<and> ep_destroy (vc_policy s)
          then map (ep_moved (vc_policy s)) (vec_contents s) else [])\<rparr>, Some zs)"
      "length zs = length ys" "take (vc_size s) zs = vec_contents s"
      by blast
    have kind: "s\<lparr>vc_kind := vc_kind s\<rparr> = s" by simp
    define s' where "s' = s\<lparr>vc_storage := Some zs, vc_malloced := False, vc_capacity := n,
      vc_destroyed := vc_destroyed s @ (if \<not> ep_runtime (vc_policy s) \<and> ep_destroy (vc_policy s)
        then map (ep_moved (vc_policy s)) (vec_contents s) else [])\<rparr>"
    have grow: "vc_grow s" "env_grow env ?b (ep_align (vc_policy s)) = Ok"
      using g False by (simp_all add: vec_can_grow_def)
    have "vec_reallocate env s n = Some (Ok, s')"
    proof (cases "vc_size s = 0")
      case True
      then have "vec_contents s = []" using xs by simp
      have "zs = ys" using True r(1) by simp
      with True False grow n xs(1) sz \<open>vec_contents s = []\<close> show ?thesis
        by (cases s) (simp add: vec_reallocate_def Let_def s'_def ys_def)
    next
      case ne: False
      with False grow n xs(1) sz r(1) show ?thesis
        by (simp add: vec_reallocate_def Let_def s'_def ys_def [symmetric] kind)
    qed
    with False r(2,3) ys n sz show ?thesis by (simp add: vec_wf_def vec_contents_def s'_def)
  qed
qed

text \<open>Growing the caller's storage with nothing but the heap: the old block is passed to \<open>free\<close>.\<close>

lemma vec_reallocate_external:
  assumes wf: "vec_wf s" and f: "faithful (vc_policy s)" and n: "vc_size s \<le> n"
    and ext: "\<not> vec_on_heap env (vc_kind s)" "\<not> vc_grow s" "\<not> vc_malloced s" "env_allow_heap env"
    and mem: "0 < ep_size (vc_policy s)" "n * ep_size (vc_policy s) \<le> SIZE_MAX" "env_malloc env (n * ep_size (vc_policy s))"
  shows "vec_reallocate env s n = None"
proof -
  from wf obtain xs where xs: "vc_storage s = Some xs" "vc_size s \<le> length xs" by (rule vec_wfE)
  let ?b = "n * ep_size (vc_policy s)"
  define ys where "ys = new_block env ?b (ep_size (vc_policy s))"
  define s1 where "s1 = s\<lparr>vc_kind := linear_owns OR linear_heap\<rparr>"
  have sz: "sz_mul n (ep_size (vc_policy s)) = ?b" "length ys = n" using mem by (simp_all add: sz_mul_eq ys_def)
  from vec_copy_range_faithful [of s1 xs 0 "vc_size s" ys] xs sz n f
  obtain xs' zs tr where r: "vec_copy_range s1 (Some ys) 0 (vc_size s) =
      Some (Ok, s1\<lparr>vc_storage := Some xs', vc_destroyed := tr\<rparr>, Some zs)"
    by (auto simp: s1_def)
  have heap: "vec_on_heap env (linear_owns OR linear_heap)"
    using ext(4) by (simp add: vec_on_heap_def linear_owns_def linear_heap_def)
  show ?thesis
    using ext mem(3) n xs(1) sz(1) r heap
    by (cases "vc_size s = 0") (simp_all add: vec_reallocate_def Let_def ys_def [symmetric] s1_def [symmetric],
      simp_all add: s1_def)
qed

section \<open>Properties\<close>

definition vec_sample :: "u8 \<Rightarrow> u8 \<Rightarrow> bool \<Rightarrow> nat list \<Rightarrow> nat \<Rightarrow> nat vec" where
  "vec_sample fl kind m xs n = \<lparr>vc_policy = typed_trivial_policy 8 8, vc_storage = Some xs, vc_capacity = length xs,
     vc_size = n, vc_flags = fl, vc_kind = kind, vc_grow = False, vc_malloced = m, vc_destroyed = []\<rparr>"

definition vec_env :: "nat env" where
  "vec_env = \<lparr>env_allow_heap = True, env_malloc = (\<lambda>_. True), env_grow = (\<lambda>_ _. Oom), env_junk = (\<lambda>_. 0)\<rparr>"

text \<open>
  C13. A vector that does not grow is a bounded stack: every sequence of \<open>push_back\<close> and \<open>pop_back\<close>
  gives the results of the abstract stack of \<open>capacity\<close> elements.
\<close>

theorem vec_is_bounded_stack:
  assumes "vec_wf s" "faithful (vc_policy s)" "\<not> vec_growable s"
  shows "\<exists>s'. queue_run (\<lambda>s e. vec_push_back env s (Some e)) (\<lambda>s. vec_pop_back s (Some d)) s cs =
    Some (fst (lifo_spec (vc_capacity s) (vec_contents s) cs), s') \<and> vec_wf s' \<and>
    vec_contents s' = snd (lifo_spec (vc_capacity s) (vec_contents s) cs)"
  using vec_stack.run_refines [of s env d cs] assms by (auto simp: vec_fixed_def)

theorem vec_is_bounded_stack_witness:
  "\<exists>s'. queue_run (\<lambda>s e. vec_push_back vec_env s (Some e)) (\<lambda>s. vec_pop_back s (Some 0))
      (vec_sample 0 0 False [0, 0] 0) [Push 4, Push 5, Push 6, Pop, Push 7, Pop, Pop, Pop] =
    Some ([(Ok, None), (Ok, None), (Full, None), (Ok, Some 5), (Ok, None), (Ok, Some 7), (Ok, Some 4), (Empty, None)], s')"
  using vec_is_bounded_stack [of "vec_sample 0 0 False [0, 0] 0" vec_env 0
      "[Push 4, Push 5, Push 6, Pop, Push 7, Pop, Pop, Pop]"]
  by (auto simp: vec_sample_def vec_wf_def vec_contents_def vec_growable_def PTRDIFF_MAX_def)

text \<open>
  A push on a full growable vector whose storage came from the heap, or that has an allocator,
  doubles the capacity and keeps the elements. The elements a runtime policy leaves in the old block
  of an allocator are copied but never destroyed: the destructor trace does not change.
\<close>

theorem vec_push_back_grows:
  assumes wf: "vec_wf s" and f: "faithful (vc_policy s)" and g: "vec_growable s" and full: "vc_size s = vc_capacity s"
    and can: "vec_can_grow env s (2 * vc_capacity s)"
  shows "\<exists>s'. vec_push_back env s (Some e) = Some (Ok, s') \<and> vec_wf s' \<and> vc_capacity s' = 2 * vc_capacity s \<and>
    vec_contents s' = vec_contents s @ [e] \<and>
    (ep_runtime (vc_policy s) \<longrightarrow> vc_destroyed s' = vc_destroyed s)"
proof -
  have c: "0 < vc_capacity s" "vc_capacity s + vc_capacity s < SIZE_MAX" using wf by (auto elim: vec_wfE)
  from vec_reallocate_ok [OF wf f _ _ can] c full obtain t where t: "vec_reallocate env s (2 * vc_capacity s) = Some (Ok, t)"
    "vec_wf t" "vec_contents t = vec_contents s" "vc_capacity t = 2 * vc_capacity s" "vc_size t = vc_size s"
    "vc_policy t = vc_policy s" "ep_runtime (vc_policy s) \<longrightarrow> vc_destroyed t = vc_destroyed s"
    by auto
  have "vec_grow env s (Suc (vc_capacity s)) = Some (Ok, t)"
    using g c t(1) by (simp add: vec_grow_def grow_capacity_double)
  then have "vec_push_back env s (Some e) = vec_put t e"
    using full c by (simp add: vec_push_back_def sz_add_eq)
  with vec_put_ok [OF t(2), of e] t c full f show ?thesis by (auto simp: vec_frame_def)
qed

theorem vec_push_back_grows_witness:
  "\<exists>s'. vec_push_back vec_env (vec_sample policy_growable linear_heap True [3] 1) (Some 4) = Some (Ok, s') \<and>
    vc_capacity s' = 2 \<and> vec_contents s' = [3, 4]"
  using vec_push_back_grows [of "vec_sample policy_growable linear_heap True [3] 1" vec_env 4]
  by (auto simp: vec_sample_def vec_env_def vec_wf_def vec_contents_def vec_growable_def policy_growable_def
      vec_can_grow_def vec_on_heap_def linear_heap_def PTRDIFF_MAX_def SIZE_MAX_def)

text \<open>
  A growable vector on storage of its caller, without an allocator, passes that storage to
  \<open>free\<close> when it grows: a push that needs room is undefined as soon as \<open>malloc\<close> succeeds.
\<close>

theorem vec_growing_frees_callers_storage:
  assumes wf: "vec_wf s" and f: "faithful (vc_policy s)" and g: "vec_growable s" and full: "vc_size s = vc_capacity s"
    and ext: "vc_kind s = linear_external" "\<not> vc_grow s" "\<not> vc_malloced s" and heap: "env_allow_heap env"
    and mem: "0 < ep_size (vc_policy s)" "2 * vc_capacity s * ep_size (vc_policy s) \<le> SIZE_MAX"
      "env_malloc env (2 * vc_capacity s * ep_size (vc_policy s))"
  shows "vec_push_back env s (Some e) = None"
proof -
  have c: "0 < vc_capacity s" "vc_capacity s + vc_capacity s < SIZE_MAX" using wf by (auto elim: vec_wfE)
  have "vec_reallocate env s (2 * vc_capacity s) = None"
    using vec_reallocate_external [OF wf f, of "2 * vc_capacity s" env] full ext heap mem
    by (simp add: vec_on_heap_def linear_external_def)
  then have "vec_grow env s (Suc (vc_capacity s)) = None"
    using g c by (simp add: vec_grow_def grow_capacity_double)
  then show ?thesis using full c by (simp add: vec_push_back_def sz_add_eq)
qed

theorem vec_growing_frees_callers_storage_witness:
  "vec_push_back vec_env (vec_sample policy_growable linear_external False [3] 1) (Some 4) = None"
  using vec_growing_frees_callers_storage [of "vec_sample policy_growable linear_external False [3] 1" vec_env 4]
  by (simp add: vec_sample_def vec_env_def vec_wf_def vec_growable_def policy_growable_def PTRDIFF_MAX_def SIZE_MAX_def)

end
