(* ===== verification/Bin_Heap.thy ===== *)
theory Bin_Heap
  imports Contracts "HOL-Library.Multiset"
begin

text \<open>
  Binary min-heaps in the first \<open>n\<close> cells of a list, for any strict weak order: moving an element up
  or down restores the heap, permutes the cells and leaves a least element at the root.
\<close>

definition parent :: "nat \<Rightarrow> nat" where
  "parent i = (i - 1) div 2"

lemma parent_less: "0 < i \<Longrightarrow> parent i < i"
  by (simp add: parent_def)

lemma parent_eq_iff: "0 < j \<Longrightarrow> parent j = i \<longleftrightarrow> j = 2 * i + 1 \<or> j = 2 * i + 2"
  by (auto simp: parent_def)

definition swap :: "'e list \<Rightarrow> nat \<Rightarrow> nat \<Rightarrow> 'e list" where
  "swap xs i j = xs[i := xs ! j, j := xs ! i]"

lemma length_swap [simp]: "length (swap xs i j) = length xs"
  by (simp add: swap_def)

lemma nth_swap:
  "i < length xs \<Longrightarrow> j < length xs \<Longrightarrow> swap xs i j ! k = (if k = j then xs ! i else if k = i then xs ! j else xs ! k)"
  by (simp add: swap_def nth_list_update)

lemma mset_take_swap:
  assumes "i < n" "j < n" "n \<le> length xs"
  shows "mset (take n (swap xs i j)) = mset (take n xs)"
proof -
  have "take n (swap xs i j) = (take n xs)[i := take n xs ! j, j := take n xs ! i]"
    using assms by (simp add: swap_def take_update_swap)
  then show ?thesis using assms mset_swap [of j "take n xs" i] by simp
qed

definition heap :: "('e \<Rightarrow> 'e \<Rightarrow> bool) \<Rightarrow> 'e list \<Rightarrow> nat \<Rightarrow> bool" where
  "heap lt xs n \<longleftrightarrow> (\<forall>j. 0 < j \<longrightarrow> j < n \<longrightarrow> \<not> lt (xs ! j) (xs ! parent j))"

text \<open>The loops of \<open>sift_up\<close> and \<open>sift_down\<close> on the list.\<close>

fun up :: "('e \<Rightarrow> 'e \<Rightarrow> bool) \<Rightarrow> 'e list \<Rightarrow> nat \<Rightarrow> 'e list" where
  "up lt xs i = (if 0 < i \<and> lt (xs ! i) (xs ! ((i - 1) div 2)) then up lt (swap xs i ((i - 1) div 2)) ((i - 1) div 2) else xs)"

declare up.simps [simp del]

definition smallest :: "('e \<Rightarrow> 'e \<Rightarrow> bool) \<Rightarrow> 'e list \<Rightarrow> nat \<Rightarrow> nat \<Rightarrow> nat" where
  "smallest lt xs n i =
     (let m = (if 2 * i + 1 < n \<and> lt (xs ! (2 * i + 1)) (xs ! i) then 2 * i + 1 else i) in
      if 2 * i + 2 < n \<and> lt (xs ! (2 * i + 2)) (xs ! m) then 2 * i + 2 else m)"

lemma smallest_cases: "smallest lt xs n i = i \<or> i < smallest lt xs n i \<and> smallest lt xs n i < n"
  by (auto simp: smallest_def Let_def)

function down :: "('e \<Rightarrow> 'e \<Rightarrow> bool) \<Rightarrow> 'e list \<Rightarrow> nat \<Rightarrow> nat \<Rightarrow> 'e list" where
  "down lt xs n i = (let m = smallest lt xs n i in if m = i then xs else down lt (swap xs i m) n m)"
  by auto
termination
proof (relation "measure (\<lambda>(lt, xs, n, i). n - i)")
  fix lt :: "'e \<Rightarrow> 'e \<Rightarrow> bool" and xs n i m
  assume "m = smallest lt xs n i" "m \<noteq> i"
  with smallest_cases [of lt xs n i] show "((lt, swap xs i m, n, m), (lt, xs, n, i)) \<in> measure (\<lambda>(lt, xs, n, i). n - i)"
    by auto
qed simp

declare down.simps [simp del]

lemma length_up [simp]: "length (up lt xs i) = length xs"
  by (induction lt xs i rule: up.induct) (subst up.simps, simp)

lemma length_down [simp]: "length (down lt xs n i) = length xs"
  by (induction lt xs n i rule: down.induct) (subst down.simps, simp add: Let_def)

lemma mset_up: "i < n \<Longrightarrow> n \<le> length xs \<Longrightarrow> mset (take n (up lt xs i)) = mset (take n xs)"
proof (induction lt xs i rule: up.induct)
  case (1 lt xs i)
  then show ?case by (subst up.simps) (auto simp: mset_take_swap)
qed

lemma mset_down: "i < n \<Longrightarrow> n \<le> length xs \<Longrightarrow> mset (take n (down lt xs n i)) = mset (take n xs)"
proof (induction lt xs n i rule: down.induct)
  case (1 lt xs n i)
  then show ?case
    using smallest_cases [of lt xs n i] by (subst down.simps) (auto simp: mset_take_swap Let_def)
qed

text \<open>The cells outside the heap do not change.\<close>

lemma drop_swap: "i < n \<Longrightarrow> j < n \<Longrightarrow> drop n (swap xs i j) = drop n xs"
  by (simp add: swap_def)

lemma drop_up: "i < n \<Longrightarrow> drop n (up lt xs i) = drop n xs"
proof (induction lt xs i rule: up.induct)
  case (1 lt xs i)
  then show ?case by (subst up.simps) (auto simp: drop_swap)
qed

lemma drop_down: "i < n \<Longrightarrow> drop n (down lt xs n i) = drop n xs"
proof (induction lt xs n i rule: down.induct)
  case (1 lt xs n i)
  then show ?case using smallest_cases [of lt xs n i] by (subst down.simps) (auto simp: drop_swap Let_def)
qed

section \<open>Restoring the heap\<close>

text \<open>
  A heap except that the element at \<open>i\<close> may be too small for its parent, or too large for its
  children; the children of \<open>i\<close> are still in order with its parent.
\<close>

definition heap_up :: "('e \<Rightarrow> 'e \<Rightarrow> bool) \<Rightarrow> 'e list \<Rightarrow> nat \<Rightarrow> nat \<Rightarrow> bool" where
  "heap_up lt xs n i \<longleftrightarrow>
     (\<forall>j. 0 < j \<longrightarrow> j < n \<longrightarrow> j \<noteq> i \<longrightarrow> \<not> lt (xs ! j) (xs ! parent j)) \<and>
     (\<forall>j. 0 < j \<longrightarrow> j < n \<longrightarrow> parent j = i \<longrightarrow> 0 < i \<longrightarrow> \<not> lt (xs ! j) (xs ! parent i))"

definition heap_down :: "('e \<Rightarrow> 'e \<Rightarrow> bool) \<Rightarrow> 'e list \<Rightarrow> nat \<Rightarrow> nat \<Rightarrow> bool" where
  "heap_down lt xs n i \<longleftrightarrow>
     (\<forall>j. 0 < j \<longrightarrow> j < n \<longrightarrow> parent j \<noteq> i \<longrightarrow> \<not> lt (xs ! j) (xs ! parent j)) \<and>
     (\<forall>j. 0 < j \<longrightarrow> j < n \<longrightarrow> parent j = i \<longrightarrow> 0 < i \<longrightarrow> \<not> lt (xs ! j) (xs ! parent i))"

context strict_weak
begin

lemma heap_up_step:
  assumes h: "heap_up lt xs n i" and i: "0 < i" "i < n" "n \<le> length xs" and l: "lt (xs ! i) (xs ! parent i)"
    and c: "\<forall>x \<in> set (take n xs). carrier x"
  shows "heap_up lt (swap xs i (parent i)) n (parent i)"
proof -
  let ?p = "parent i"
  have p: "?p < i" "?p < length xs" using i parent_less [of i] by simp_all
  have car: "carrier (xs ! j)" if "j < n" for j
    using c that i(3) by (metis in_set_conv_nth length_take min.absorb2 nth_take)
  have n: "swap xs i ?p ! k = (if k = ?p then xs ! i else if k = i then xs ! ?p else xs ! k)" for k
    using i p by (simp add: nth_swap)
  have ord: "\<not> lt (xs ! j) (xs ! parent j)" if "0 < j" "j < n" "j \<noteq> i" for j
    using h that by (simp add: heap_up_def)
  have kids: "\<not> lt (xs ! j) (xs ! ?p)" if "0 < j" "j < n" "parent j = i" for j
    using h that i(1) by (simp add: heap_up_def)
  have asym: "\<not> lt (xs ! ?p) (xs ! i)" using less_asym [OF car car l] i p by simp
  have "\<not> lt (swap xs i ?p ! j) (swap xs i ?p ! parent j)" if j: "0 < j" "j < n" "j \<noteq> ?p" for j
  proof -
    consider "j = i" | "j \<noteq> i" "parent j = i" | "j \<noteq> i" "parent j = ?p" | "j \<noteq> i" "parent j \<noteq> i" "parent j \<noteq> ?p" by blast
    then show ?thesis
    proof cases
      case 1 with asym p show ?thesis by (simp add: n)
    next
      case 2 with kids [of j] j p show ?thesis by (simp add: n)
    next
      case 3
      have "\<not> lt (xs ! j) (xs ! i)"
        using not_less_trans [of "xs ! j" "xs ! ?p" "xs ! i"] car ord [of j] asym 3 i p j by simp
      with 3 j p show ?thesis by (simp add: n)
    next
      case 4 with ord [of j] j show ?thesis by (simp add: n)
    qed
  qed
  moreover have "\<not> lt (swap xs i ?p ! j) (swap xs i ?p ! parent ?p)" if j: "0 < j" "j < n" "parent j = ?p" "0 < ?p" for j
  proof -
    have pp: "parent ?p < ?p" using that(4) by (rule parent_less)
    have top: "\<not> lt (xs ! ?p) (xs ! parent ?p)" using ord [of ?p] p i that(4) by simp
    show ?thesis
    proof (cases "j = i")
      case True with top pp p show ?thesis by (simp add: n)
    next
      case False
      have "\<not> lt (xs ! j) (xs ! parent ?p)"
        using not_less_trans [of "xs ! j" "xs ! ?p" "xs ! parent ?p"] car ord [of j] top False j p pp i by simp
      moreover have "j \<noteq> ?p" using parent_less [OF j(1)] j(3) by auto
      ultimately show ?thesis using False pp p by (simp add: n)
    qed
  qed
  ultimately show ?thesis by (simp add: heap_up_def)
qed

lemma carrier_swap:
  assumes "\<forall>x \<in> set (take n xs). carrier x" "i < n" "j < n" "n \<le> length xs"
  shows "\<forall>x \<in> set (take n (swap xs i j)). carrier x"
  using assms mset_take_swap [OF assms(2,3,4)] by (metis set_mset_mset)

lemma up_heap:
  assumes "heap_up lt xs n i" "i < n" "n \<le> length xs" "\<forall>x \<in> set (take n xs). carrier x"
  shows "heap lt (up lt xs i) n"
  using assms
proof (induction i arbitrary: xs rule: less_induct)
  case (less i)
  show ?case
  proof (cases "0 < i \<and> lt (xs ! i) (xs ! parent i)")
    case True
    then have "heap_up lt (swap xs i (parent i)) n (parent i)"
      using less.prems by (intro heap_up_step) simp_all
    moreover have "parent i < i" using True by (simp add: parent_less)
    ultimately have "heap lt (up lt (swap xs i (parent i)) (parent i)) n"
      using less.prems by (intro less.IH carrier_swap) simp_all
    then show ?thesis using True by (subst up.simps) (simp add: parent_def)
  next
    case False
    then have "up lt xs i = xs" by (subst up.simps) (auto simp: parent_def)
    with False less.prems(1) show ?thesis by (auto simp: heap_def heap_up_def)
  qed
qed

lemma smallest_least:
  assumes "n \<le> length xs" "i < n" "\<forall>x \<in> set (take n xs). carrier x"
    and "j = i \<or> 0 < j \<and> j < n \<and> parent j = i"
  shows "\<not> lt (xs ! j) (xs ! smallest lt xs n i)"
proof -
  have car: "carrier (xs ! j)" if "j < n" for j
    using assms(1,3) that by (metis in_set_conv_nth length_take min.absorb2 nth_take)
  have irr: "\<not> lt (xs ! j) (xs ! j)" if "j < n" for j using less_irrefl [OF car [OF that]] .
  have asym: "lt (xs ! a) (xs ! b) \<Longrightarrow> \<not> lt (xs ! b) (xs ! a)" if "a < n" "b < n" for a b
    using less_asym car that by blast
  have tr: "\<not> lt (xs ! a) (xs ! b) \<Longrightarrow> \<not> lt (xs ! b) (xs ! c) \<Longrightarrow> \<not> lt (xs ! a) (xs ! c)"
    if "a < n" "b < n" "c < n" for a b c
    using not_less_trans car that by blast
  have jc: "j = i \<or> j = 2 * i + 1 \<or> j = 2 * i + 2" and "j < n"
    using assms(2,4) parent_eq_iff [of j i] by auto
  define m where "m = (if 2 * i + 1 < n \<and> lt (xs ! (2 * i + 1)) (xs ! i) then 2 * i + 1 else i)"
  have m: "m < n \<and> \<not> lt (xs ! i) (xs ! m) \<and> (2 * i + 1 < n \<longrightarrow> \<not> lt (xs ! (2 * i + 1)) (xs ! m))"
  proof (cases "2 * i + 1 < n \<and> lt (xs ! (2 * i + 1)) (xs ! i)")
    case True
    then have "m = 2 * i + 1" by (simp add: m_def)
    with True irr [of "2 * i + 1"] asym [of "2 * i + 1" i] assms(2) show ?thesis by simp
  next
    case False
    then have "m = i" by (auto simp: m_def)
    with False irr [OF assms(2)] assms(2) show ?thesis by simp
  qed
  have sm: "smallest lt xs n i = (if 2 * i + 2 < n \<and> lt (xs ! (2 * i + 2)) (xs ! m) then 2 * i + 2 else m)"
    by (simp add: smallest_def m_def Let_def)
  show ?thesis
  proof (cases "2 * i + 2 < n \<and> lt (xs ! (2 * i + 2)) (xs ! m)")
    case True
    then have mr: "\<not> lt (xs ! m) (xs ! (2 * i + 2))" using asym [of "2 * i + 2" m] m by simp
    have "\<not> lt (xs ! j) (xs ! (2 * i + 2))"
    proof (cases "j = 2 * i + 2")
      case True
      with irr [OF \<open>j < n\<close>] show ?thesis by simp
    next
      case False
      then have "\<not> lt (xs ! j) (xs ! m)" using jc \<open>j < n\<close> m by blast
      with mr tr [of j m "2 * i + 2"] True m \<open>j < n\<close> show ?thesis by simp
    qed
    with True sm show ?thesis by simp
  next
    case False
    then have "\<not> lt (xs ! j) (xs ! m)" using jc \<open>j < n\<close> m by blast
    moreover from False have "smallest lt xs n i = m" using sm by (simp only: if_False)
    ultimately show ?thesis by simp
  qed
qed

lemma heap_down_step:
  assumes h: "heap_down lt xs n i" and i: "i < n" "n \<le> length xs"
    and c: "\<forall>x \<in> set (take n xs). carrier x" and m: "m = smallest lt xs n i" "m \<noteq> i"
  shows "heap_down lt (swap xs i m) n m"
proof -
  have mn: "i < m" "m < n" using smallest_cases [of lt xs n i] m by auto
  have pm: "parent m = i"
    using m by (auto simp: smallest_def Let_def parent_def split: if_splits)
  have least: "\<not> lt (xs ! j) (xs ! m)" if "j = i \<or> 0 < j \<and> j < n \<and> parent j = i" for j
    unfolding m(1) using smallest_least [OF i(2,1) c that] .
  have n: "swap xs i m ! k = (if k = m then xs ! i else if k = i then xs ! m else xs ! k)" for k
    using i mn by (simp add: nth_swap)
  have ord: "\<not> lt (xs ! j) (xs ! parent j)" if "0 < j" "j < n" "parent j \<noteq> i" for j
    using h that by (simp add: heap_down_def)
  have kids: "\<not> lt (xs ! j) (xs ! parent i)" if "0 < j" "j < n" "parent j = i" "0 < i" for j
    using h that by (simp add: heap_down_def)
  have "\<not> lt (swap xs i m ! j) (swap xs i m ! parent j)" if j: "0 < j" "j < n" "parent j \<noteq> m" for j
  proof -
    have "parent j < j" using j(1) by (rule parent_less)
    consider "j = i" | "parent j = i" | "j \<noteq> i" "parent j \<noteq> i" by blast
    then show ?thesis
    proof cases
      case 1
      with kids [of m] pm mn j \<open>parent j < j\<close> show ?thesis by (simp add: n)
    next
      case 2
      with least [of j] least [of i] j \<open>parent j < j\<close> mn show ?thesis by (simp add: n)
    next
      case 3
      then have "j \<noteq> m" using pm by auto
      with 3 ord [of j] j show ?thesis by (simp add: n)
    qed
  qed
  moreover have "\<not> lt (swap xs i m ! j) (swap xs i m ! parent m)" if j: "0 < j" "j < n" "parent j = m" for j
  proof -
    have "m < j" using parent_less [OF j(1)] j(3) by simp
    then show ?thesis using ord [of j] j mn pm by (simp add: n)
  qed
  ultimately show ?thesis by (simp add: heap_down_def)
qed

lemma down_heap:
  assumes "heap_down lt xs n i" "i < n" "n \<le> length xs" "\<forall>x \<in> set (take n xs). carrier x"
  shows "heap lt (down lt xs n i) n"
  using assms
proof (induction "n - i" arbitrary: i xs rule: less_induct)
  case less
  define m where "m = smallest lt xs n i"
  show ?case
  proof (cases "m = i")
    case True
    then have "down lt xs n i = xs" by (subst down.simps) (simp add: m_def Let_def)
    moreover have "\<not> lt (xs ! j) (xs ! parent j)" if "0 < j" "j < n" for j
      using smallest_least [OF less.prems(3,2,4), of j] that less.prems(1) True m_def
      by (cases "parent j = i") (auto simp: heap_down_def)
    ultimately show ?thesis by (simp add: heap_def)
  next
    case False
    then have mn: "i < m" "m < n" using smallest_cases [of lt xs n i] by (auto simp: m_def)
    have "heap_down lt (swap xs i m) n m"
      using less.prems False m_def by (intro heap_down_step) simp_all
    with mn less.prems have "heap lt (down lt (swap xs i m) n m) n"
      by (intro less.hyps carrier_swap) simp_all
    then show ?thesis using False by (subst down.simps) (simp add: m_def Let_def)
  qed
qed

text \<open>The root of a heap is least.\<close>

lemma heap_root_least:
  assumes h: "heap lt xs n" and n: "n \<le> length xs" and c: "\<forall>x \<in> set (take n xs). carrier x"
  shows "i < n \<Longrightarrow> \<not> lt (xs ! i) (xs ! 0)"
proof (induction i rule: less_induct)
  case (less i)
  have car: "carrier (xs ! j)" if "j < n" for j
    using c n that by (metis in_set_conv_nth length_take min.absorb2 nth_take)
  show ?case
  proof (cases "i = 0")
    case True
    then show ?thesis using less_irrefl [OF car [OF less.prems]] by simp
  next
    case False
    then have p: "parent i < i" "parent i < n" using parent_less [of i] less.prems by simp_all
    have "\<not> lt (xs ! i) (xs ! parent i)" using h False less.prems by (simp add: heap_def)
    with less.IH [OF p] show ?thesis
      using not_less_trans [of "xs ! i" "xs ! parent i" "xs ! 0"] car less.prems p by simp
  qed
qed

end

end
