(* ===== verification/Pqueue.thy ===== *)
theory Pqueue
  imports Bin_Heap Window
begin

text \<open>
  \<^verbatim>\<open>include/memkit/detail/pqueue_core.hpp\<close>: the priority queue, a binary heap in the storage
  of its caller.

  The comparison is a runtime policy (negative means less) or a functor answering "less". \<open>pq_temp\<close> is
  the content of the uninitialised buffer \<open>swap_elements\<close> copies through.
\<close>

section \<open>State\<close>

datatype 'e comparator = Runtime_cmp "'e compare_policy" | Functor "'e \<Rightarrow> 'e \<Rightarrow> bool"

definition pq_policy_growable :: u8 where "pq_policy_growable = 1"
definition pq_storage_external :: u8 where "pq_storage_external = 0"

record 'e pq =
  pq_policy :: "'e elem_policy"
  pq_compare :: "'e comparator"
  pq_storage :: "'e mem"
  pq_capacity :: nat
  pq_size :: nat
  pq_flags :: u8
  pq_kind :: u8
  pq_temp :: 'e
  pq_destroyed :: "'e list"

definition pq_init :: "'e pq \<Rightarrow> 'e elem_policy \<Rightarrow> 'e comparator \<Rightarrow> 'e mem \<Rightarrow> nat \<Rightarrow> u8 \<Rightarrow> status \<times> 'e pq" where
  "pq_init s policy compare storage capacity queue_policy =
     (if storage = None \<or> capacity = 0 then (Invalid, s)
      else (Ok, s\<lparr>pq_policy := policy, pq_compare := compare, pq_storage := storage, pq_capacity := capacity,
              pq_size := 0, pq_flags := queue_policy, pq_kind := pq_storage_external\<rparr>))"

definition pq_set_storage :: "'e pq \<Rightarrow> 'e mem \<Rightarrow> nat \<Rightarrow> 'e pq" where
  "pq_set_storage s storage capacity = s\<lparr>pq_storage := storage, pq_capacity := capacity\<rparr>"

definition pq_set_storage_kind :: "'e pq \<Rightarrow> u8 \<Rightarrow> 'e pq" where
  "pq_set_storage_kind s kind = s\<lparr>pq_kind := kind\<rparr>"

definition pq_set_capacity :: "'e pq \<Rightarrow> nat \<Rightarrow> 'e pq" where
  "pq_set_capacity s capacity = s\<lparr>pq_capacity := capacity\<rparr>"

text \<open>\<open>reset_state\<close>; the default-constructed policy and comparison are parameters.\<close>

definition pq_reset_state :: "'e elem_policy \<Rightarrow> 'e comparator \<Rightarrow> 'e pq \<Rightarrow> 'e pq" where
  "pq_reset_state default_policy default_compare s =
     s\<lparr>pq_policy := default_policy, pq_compare := default_compare, pq_storage := None, pq_capacity := 0, pq_size := 0,
       pq_flags := 0, pq_kind := pq_storage_external\<rparr>"

definition pq_empty :: "'e pq \<Rightarrow> bool" where
  "pq_empty s \<longleftrightarrow> pq_size s = 0"

definition pq_full :: "'e pq \<Rightarrow> bool" where
  "pq_full s \<longleftrightarrow> (if pq_flags s AND pq_policy_growable \<noteq> 0 then False else pq_size s \<ge> pq_capacity s)"

definition pq_less_than :: "'e pq \<Rightarrow> 'e \<Rightarrow> 'e \<Rightarrow> bool" where
  "pq_less_than s a b = (case pq_compare s of Runtime_cmp c \<Rightarrow> runtime_compare c a b < 0 | Functor f \<Rightarrow> f a b)"

definition pq_destroy_at :: "'e pq \<Rightarrow> nat \<Rightarrow> 'e pq option" where
  "pq_destroy_at s i = do {
     v \<leftarrow> mem_rd (pq_storage s) i;
     Some (s\<lparr>pq_destroyed := destroy (pq_policy s) v (pq_destroyed s)\<rparr>)
   }"

fun pq_destroy_loop :: "'e pq \<Rightarrow> nat \<Rightarrow> nat \<Rightarrow> 'e pq option" where
  "pq_destroy_loop s i 0 = Some s"
| "pq_destroy_loop s i (Suc n) = do {
     s' \<leftarrow> pq_destroy_at s i;
     pq_destroy_loop s' (Suc i) n
   }"

definition pq_clear :: "'e pq \<Rightarrow> 'e pq option" where
  "pq_clear s = do {
     s' \<leftarrow> (if needs_destroy_on_clear (pq_policy s) then pq_destroy_loop s 0 (pq_size s) else Some s);
     Some (s'\<lparr>pq_size := 0\<rparr>)
   }"

section \<open>The heap\<close>

text \<open>A runtime policy swaps through a buffer of 256 bytes, by copying; a typed one moves.\<close>

definition pq_swap :: "'e pq \<Rightarrow> nat \<Rightarrow> nat \<Rightarrow> (status \<times> 'e pq) option" where
  "pq_swap s left right =
     (if ep_runtime (pq_policy s) then
        (if ep_size (pq_policy s) > 256 then Some (Invalid, s)
         else do {
           a \<leftarrow> mem_rd (pq_storage s) left;
           let (st1, temp) = copy_construct (pq_policy s) (pq_temp s) a;
           if st1 \<noteq> Ok then Some (st1, s)
           else do {
             b \<leftarrow> mem_rd (pq_storage s) right;
             let (st2, a') = copy_construct (pq_policy s) a b;
             m1 \<leftarrow> mem_wr (pq_storage s) left a';
             if st2 \<noteq> Ok then Some (st2, s\<lparr>pq_storage := m1\<rparr>)
             else do {
               b0 \<leftarrow> mem_rd m1 right;
               let (st3, b') = copy_construct (pq_policy s) b0 temp;
               m2 \<leftarrow> mem_wr m1 right b';
               Some (st3, s\<lparr>pq_storage := m2\<rparr>)
             }
           }
         })
      else do {
        temp \<leftarrow> mem_rd (pq_storage s) left;
        m1 \<leftarrow> mem_wr (pq_storage s) left (ep_moved (pq_policy s) temp);
        b \<leftarrow> mem_rd m1 right;
        m2 \<leftarrow> mem_wr m1 left b;
        m3 \<leftarrow> mem_wr m2 right temp;
        Some (Ok, s\<lparr>pq_storage := m3,
                    pq_destroyed := destroy (pq_policy s) (ep_moved (pq_policy s) temp) (pq_destroyed s)\<rparr>)
      })"

lemma sz_sub_1_less: "0 < i \<Longrightarrow> sz_sub i 1 < i"
proof -
  assume "0 < i"
  then have "sz_sub i 1 = (i - 1 + SIZE_MOD) mod SIZE_MOD" by (simp add: sz_sub_def add.commute)
  also have "\<dots> = (i - 1) mod SIZE_MOD" by (rule mod_add_self2)
  also have "\<dots> \<le> i - 1" by (rule mod_less_eq_dividend)
  finally show "sz_sub i 1 < i" using \<open>0 < i\<close> by simp
qed

lemma half_sz_sub_less: "0 < i \<Longrightarrow> sz_sub i (Suc 0) div 2 < i"
  using sz_sub_1_less [of i] by simp

function (sequential) pq_sift_up :: "'e pq \<Rightarrow> nat \<Rightarrow> (status \<times> 'e pq) option" where
  "pq_sift_up s index =
     (if index > 0 then do {
        let up = sz_sub index 1 div 2;
        a \<leftarrow> mem_rd (pq_storage s) index;
        b \<leftarrow> mem_rd (pq_storage s) up;
        if \<not> pq_less_than s a b then Some (Ok, s)
        else do {
          (st, s') \<leftarrow> pq_swap s index up;
          if st \<noteq> Ok then Some (st, s') else pq_sift_up s' up
        }
      }
      else Some (Ok, s))"
  by pat_completeness auto
termination
  by (relation "measure snd") (simp_all add: half_sz_sub_less)

declare pq_sift_up.simps [simp del]

text \<open>The smaller child, when there is one below the element at \<open>index\<close>.\<close>

definition pq_smallest :: "'e pq \<Rightarrow> nat \<Rightarrow> nat option" where
  "pq_smallest s index = do {
     let left = sz_add (sz_mul index 2) 1;
     let right = sz_add left 1;
     smallest \<leftarrow> (if left < pq_size s then do {
         a \<leftarrow> mem_rd (pq_storage s) left;
         b \<leftarrow> mem_rd (pq_storage s) index;
         Some (if pq_less_than s a b then left else index)
       } else Some index);
     (if right < pq_size s then do {
        a \<leftarrow> mem_rd (pq_storage s) right;
        b \<leftarrow> mem_rd (pq_storage s) smallest;
        Some (if pq_less_than s a b then right else smallest)
      } else Some smallest)
   }"

partial_function (option) pq_sift_down :: "'e pq \<Rightarrow> nat \<Rightarrow> (status \<times> 'e pq) option" where
  "pq_sift_down s index = do {
     smallest \<leftarrow> pq_smallest s index;
     if smallest = index then Some (Ok, s)
     else do {
       (st, s') \<leftarrow> pq_swap s index smallest;
       if st \<noteq> Ok then Some (st, s') else pq_sift_down s' smallest
     }
   }"

section \<open>Operations\<close>

definition pq_push :: "'e pq \<Rightarrow> 'e option \<Rightarrow> (status \<times> 'e pq) option" where
  "pq_push s value =
     (case value of
        None \<Rightarrow> Some (Null_ptr, s)
      | Some e \<Rightarrow>
          if pq_full s then Some (Full, s)
          else do {
            old \<leftarrow> mem_rd (pq_storage s) (pq_size s);
            let (st, v) = copy_construct (pq_policy s) old e;
            storage \<leftarrow> mem_wr (pq_storage s) (pq_size s) v;
            if st \<noteq> Ok then Some (st, s\<lparr>pq_storage := storage\<rparr>)
            else
              let s' = s\<lparr>pq_storage := storage, pq_size := sz_add (pq_size s) 1\<rparr>
              in pq_sift_up s' (sz_sub (pq_size s') 1)
          })"

definition pq_pop :: "'e pq \<Rightarrow> 'e option \<Rightarrow> (status \<times> 'e option \<times> 'e pq) option" where
  "pq_pop s out =
     (if pq_empty s then Some (Empty, out, s)
      else do {
        root \<leftarrow> mem_rd (pq_storage s) 0;
        let (st, out') = (case out of
            Some dst \<Rightarrow> (let (st, w) = copy_construct (pq_policy s) dst root in (st, Some w))
          | None \<Rightarrow> (Ok, None));
        if st \<noteq> Ok then Some (st, out', s)
        else do {
          s1 \<leftarrow> (if out = None \<and> needs_destroy_on_clear (pq_policy s) then pq_destroy_at s 0 else Some s);
          let s2 = s1\<lparr>pq_size := sz_sub (pq_size s1) 1\<rparr>;
          if pq_size s2 = 0 then Some (Ok, out', s2)
          else do {
            let last_index = pq_size s2;
            old \<leftarrow> mem_rd (pq_storage s2) 0;
            l \<leftarrow> mem_rd (pq_storage s2) last_index;
            let (st2, v) = (if ep_runtime (pq_policy s2) then copy_construct (pq_policy s2) old l else (Ok, l));
            m1 \<leftarrow> mem_wr (pq_storage s2) 0 v;
            if st2 \<noteq> Ok then Some (st2, out', s2\<lparr>pq_storage := m1, pq_size := sz_add (pq_size s2) 1\<rparr>)
            else do {
              m2 \<leftarrow> (if ep_runtime (pq_policy s2) then Some m1
                    else mem_wr m1 last_index (ep_moved (pq_policy s2) l));
              s3 \<leftarrow> (if needs_destroy_on_clear (pq_policy s2) then pq_destroy_at (s2\<lparr>pq_storage := m2\<rparr>) last_index
                    else Some (s2\<lparr>pq_storage := m2\<rparr>));
              (st3, s4) \<leftarrow> pq_sift_down s3 0;
              Some (st3, out', s4)
            }
          }
        }
      })"

definition pq_peek :: "'e pq \<Rightarrow> 'e option \<Rightarrow> (status \<times> 'e option) option" where
  "pq_peek s out =
     (if out = None then Some (Null_ptr, out)
      else if pq_empty s then Some (Empty, out)
      else do {
        v \<leftarrow> mem_rd (pq_storage s) 0;
        Some (Ok, Some v)
      })"

text \<open>The slot \<open>top\<close> points to; \<open>None\<close> is the null pointer.\<close>

definition pq_top :: "'e pq \<Rightarrow> nat option" where
  "pq_top s = (if pq_empty s then None else Some 0)"

fun pq_for_each_loop ::
  "('e \<Rightarrow> nat \<Rightarrow> 'w \<Rightarrow> status \<times> 'w) \<Rightarrow> 'e pq \<Rightarrow> nat \<Rightarrow> nat \<Rightarrow> 'w \<Rightarrow> (status \<times> 'w) option" where
  "pq_for_each_loop visit s i 0 w = Some (Ok, w)"
| "pq_for_each_loop visit s i (Suc n) w = do {
     v \<leftarrow> mem_rd (pq_storage s) i;
     let (st, w') = visit v i w;
     if st \<noteq> Ok then Some (st, w') else pq_for_each_loop visit s (Suc i) n w'
   }"

definition pq_for_each :: "('e \<Rightarrow> nat \<Rightarrow> 'w \<Rightarrow> status \<times> 'w) \<Rightarrow> 'e pq \<Rightarrow> 'w \<Rightarrow> (status \<times> 'w) option" where
  "pq_for_each visit s w =
     (if pq_storage s = None then Some (Null_ptr, w) else pq_for_each_loop visit s 0 (pq_size s) w)"

end
