(* ===== verification/Pqueue_Correct.thy ===== *)
theory Pqueue_Correct
  imports Pqueue
begin

text \<open>
  Correctness of the priority queue: pushes and pops keep the heap and act on the multiset of its
  elements, the popped element is a least one, and popping everything sorts.
\<close>

definition pq_wf :: "'e pq \<Rightarrow> bool" where
  "pq_wf s \<longleftrightarrow>
     (case pq_storage s of
        None \<Rightarrow> False
      | Some xs \<Rightarrow> 0 < pq_capacity s \<and> pq_capacity s \<le> length xs \<and> pq_capacity s \<le> PTRDIFF_MAX \<and>
          pq_size s \<le> pq_capacity s \<and> heap (pq_less_than s) xs (pq_size s))"

definition pq_items :: "'e pq \<Rightarrow> 'e list" where
  "pq_items s = (case pq_storage s of None \<Rightarrow> [] | Some xs \<Rightarrow> take (pq_size s) xs)"

text \<open>A queue whose copies succeed, with elements that fit the swap buffer.\<close>

definition pq_simple :: "'e pq \<Rightarrow> bool" where
  "pq_simple s \<longleftrightarrow> faithful (pq_policy s) \<and> (ep_runtime (pq_policy s) \<longrightarrow> ep_size (pq_policy s) \<le> 256)"

definition pq_frame :: "'e pq \<Rightarrow> 'e pq \<Rightarrow> bool" where
  "pq_frame s s' \<longleftrightarrow> pq_policy s' = pq_policy s \<and> pq_compare s' = pq_compare s \<and>
     pq_capacity s' = pq_capacity s \<and> pq_flags s' = pq_flags s"

lemma pq_frame_less: "pq_frame s s' \<Longrightarrow> pq_less_than s' = pq_less_than s"
  by (simp add: pq_frame_def pq_less_than_def fun_eq_iff)

lemma pq_less_than_update [simp]:
  "pq_less_than (s\<lparr>pq_storage := m\<rparr>) = pq_less_than s" "pq_less_than (s\<lparr>pq_size := n\<rparr>) = pq_less_than s"
  "pq_less_than (s\<lparr>pq_destroyed := tr\<rparr>) = pq_less_than s"
  by (simp_all add: pq_less_than_def fun_eq_iff)

lemma pq_wfE:
  assumes "pq_wf s"
  obtains xs where "pq_storage s = Some xs" "0 < pq_capacity s" "pq_capacity s \<le> length xs"
    "pq_capacity s + pq_capacity s < SIZE_MAX" "pq_size s \<le> pq_capacity s" "pq_size s \<le> length xs"
    "pq_items s = take (pq_size s) xs" "heap (pq_less_than s) xs (pq_size s)"
  using assms by (auto simp: pq_wf_def pq_items_def PTRDIFF_MAX_SIZE_MAX split: option.splits)

lemma pq_wf_PTRDIFF: "pq_wf s \<Longrightarrow> pq_capacity s \<le> PTRDIFF_MAX"
  by (auto simp: pq_wf_def split: option.splits)

section \<open>The loops compute on the list\<close>

lemma pq_swap_eq:
  assumes "pq_simple s" "pq_storage s = Some xs" "i < length xs" "j < length xs" "i \<noteq> j"
  shows "\<exists>tr. pq_swap s i j = Some (Ok, s\<lparr>pq_storage := Some (swap xs i j), pq_destroyed := tr\<rparr>)"
proof -
  have "xs[i := xs ! j, j := xs ! i] = swap xs i j" by (simp add: swap_def)
  then show ?thesis
    using assms by (cases s) (auto simp: pq_swap_def pq_simple_def)
qed

lemma pq_sift_up_eq:
  assumes "pq_simple s" "pq_storage s = Some xs" "i < length xs" "i \<le> SIZE_MAX"
  shows "\<exists>tr. pq_sift_up s i = Some (Ok, s\<lparr>pq_storage := Some (up (pq_less_than s) xs i), pq_destroyed := tr\<rparr>)"
  using assms
proof (induction i arbitrary: s xs rule: less_induct)
  case (less i)
  show ?case
  proof (cases "0 < i \<and> pq_less_than s (xs ! i) (xs ! ((i - 1) div 2))")
    case True
    let ?p = "(i - 1) div 2"
    have p: "?p < i" "sz_sub i 1 div 2 = ?p" using True less.prems(4) by (auto simp: sz_sub_eq)
    then have pl: "?p < length xs" "?p \<le> SIZE_MAX" using less.prems by simp_all
    from pq_swap_eq [OF less.prems(1-3) pl(1)] p obtain tr where
      sw: "pq_swap s i ?p = Some (Ok, s\<lparr>pq_storage := Some (swap xs i ?p), pq_destroyed := tr\<rparr>)" by auto
    let ?s = "s\<lparr>pq_storage := Some (swap xs i ?p), pq_destroyed := tr\<rparr>"
    have s': "pq_simple ?s" "pq_storage ?s = Some (swap xs i ?p)" "?p < length (swap xs i ?p)"
      "pq_less_than ?s = pq_less_than s"
      using less.prems(1) pl(1) by (simp_all add: pq_simple_def pq_less_than_def fun_eq_iff)
    from less.IH [OF p(1) s'(1-3) pl(2)] obtain tr' where
      "pq_sift_up ?s ?p = Some (Ok, ?s\<lparr>pq_storage := Some (up (pq_less_than s) (swap xs i ?p) ?p), pq_destroyed := tr'\<rparr>)"
      using s'(4) by auto
    moreover have "pq_sift_up s i = pq_sift_up ?s ?p"
      using True less.prems p(2) pl(1) sw by (subst pq_sift_up.simps) (simp add: Let_def)
    moreover have "up (pq_less_than s) xs i = up (pq_less_than s) (swap xs i ?p) ?p"
      using True by (subst up.simps) simp
    ultimately show ?thesis by auto
  next
    case False
    then have "up (pq_less_than s) xs i = xs" by (subst up.simps) auto
    moreover have "pq_sift_up s i = Some (Ok, s)"
    proof (cases "i = 0")
      case True
      then show ?thesis by (subst pq_sift_up.simps) simp
    next
      case nz: False
      have "sz_sub i (Suc 0) div 2 = (i - 1) div 2" "(i - 1) div 2 < length xs"
        using nz less.prems by (simp_all add: sz_sub_eq)
      with nz False less.prems show ?thesis by (subst pq_sift_up.simps) (simp add: Let_def)
    qed
    ultimately show ?thesis
      using less.prems(2) by (intro exI [of _ "pq_destroyed s"]) (cases s; simp)
  qed
qed

lemma pq_smallest_eq:
  assumes "pq_storage s = Some xs" "pq_size s \<le> length xs" "i < pq_size s" "2 * i + 2 \<le> SIZE_MAX"
  shows "pq_smallest s i = Some (smallest (pq_less_than s) xs (pq_size s) i)"
proof -
  have "sz_mul i 2 = 2 * i" using assms(4) by (simp add: sz_mul_eq)
  moreover have "sz_add (2 * i) 1 = 2 * i + 1" "sz_add (2 * i + 1) 1 = 2 * i + 2"
    using assms(4) by (simp_all add: sz_add_eq)
  ultimately show ?thesis
    using assms(1-3) by (auto simp: pq_smallest_def smallest_def Let_def)
qed

lemma pq_sift_down_eq:
  assumes "pq_simple s" "pq_storage s = Some xs" "pq_size s \<le> length xs" "i < pq_size s"
    "2 * pq_size s \<le> SIZE_MAX"
  shows "\<exists>tr. pq_sift_down s i =
    Some (Ok, s\<lparr>pq_storage := Some (down (pq_less_than s) xs (pq_size s) i), pq_destroyed := tr\<rparr>)"
  using assms
proof (induction "pq_size s - i" arbitrary: i s xs rule: less_induct)
  case less
  let ?m = "smallest (pq_less_than s) xs (pq_size s) i"
  have sm: "pq_smallest s i = Some ?m" using less.prems by (intro pq_smallest_eq) simp_all
  show ?case
  proof (cases "?m = i")
    case True
    then have "down (pq_less_than s) xs (pq_size s) i = xs" by (subst down.simps) (simp add: Let_def)
    with True sm less.prems(2) show ?thesis
      by (intro exI [of _ "pq_destroyed s"]) (subst pq_sift_down.simps, cases s, simp)
  next
    case False
    then have m: "i < ?m" "?m < pq_size s" using smallest_cases [of "pq_less_than s" xs "pq_size s" i] by auto
    then have il: "i < length xs" "?m < length xs" using less.prems(3) by simp_all
    from pq_swap_eq [OF less.prems(1,2) il] False obtain tr where
      sw: "pq_swap s i ?m = Some (Ok, s\<lparr>pq_storage := Some (swap xs i ?m), pq_destroyed := tr\<rparr>)" by auto
    let ?s = "s\<lparr>pq_storage := Some (swap xs i ?m), pq_destroyed := tr\<rparr>"
    have s': "pq_simple ?s" "pq_storage ?s = Some (swap xs i ?m)" "pq_size ?s \<le> length (swap xs i ?m)"
      "?m < pq_size ?s" "2 * pq_size ?s \<le> SIZE_MAX" "pq_size ?s - ?m < pq_size s - i"
      "pq_less_than ?s = pq_less_than s" "pq_size ?s = pq_size s"
      using less.prems m by (simp_all add: pq_simple_def pq_less_than_def fun_eq_iff)
    from less.hyps [OF s'(6,1-5)] obtain tr' where
      "pq_sift_down ?s ?m = Some (Ok, ?s\<lparr>pq_storage := Some (down (pq_less_than s) (swap xs i ?m) (pq_size s) ?m),
         pq_destroyed := tr'\<rparr>)"
      unfolding s'(7,8) by blast
    moreover have "pq_sift_down s i = pq_sift_down ?s ?m"
      using False sm sw by (subst pq_sift_down.simps) simp
    moreover have "down (pq_less_than s) xs (pq_size s) i = down (pq_less_than s) (swap xs i ?m) (pq_size s) ?m"
      using False by (subst down.simps) (simp add: Let_def)
    ultimately show ?thesis by auto
  qed
qed

section \<open>Operations\<close>

definition pq_all :: "('e \<Rightarrow> bool) \<Rightarrow> 'e pq \<Rightarrow> bool" where
  "pq_all C s \<longleftrightarrow> (\<forall>x \<in> set (pq_items s). C x)"

lemma pq_push_effect:
  assumes wf: "pq_wf s" and p: "pq_simple s" and sw: "strict_weak C (pq_less_than s)" and all: "pq_all C s" and e: "C e"
    and room: "pq_size s < pq_capacity s"
  shows "\<exists>s'. pq_push s (Some e) = Some (Ok, s') \<and> pq_wf s' \<and> pq_frame s s' \<and> pq_all C s' \<and>
    mset (pq_items s') = add_mset e (mset (pq_items s)) \<and> pq_size s' = Suc (pq_size s)"
proof -
  from wf obtain xs where xs: "pq_storage s = Some xs" "0 < pq_capacity s" "pq_capacity s \<le> length xs"
    "pq_capacity s + pq_capacity s < SIZE_MAX" "pq_items s = take (pq_size s) xs"
    "heap (pq_less_than s) xs (pq_size s)" by (rule pq_wfE)
  let ?n = "pq_size s"
  define xs1 where "xs1 = xs[?n := e]"
  define s1 where "s1 = s\<lparr>pq_storage := Some xs1, pq_size := Suc ?n\<rparr>"
  have n: "?n < length xs" "Suc ?n \<le> SIZE_MAX" using room xs by simp_all
  have s1: "pq_storage s1 = Some xs1" "pq_simple s1" "pq_less_than s1 = pq_less_than s" "pq_size s1 = Suc ?n"
    using p by (simp_all add: s1_def pq_simple_def pq_less_than_def fun_eq_iff)
  from pq_sift_up_eq [OF s1(2,1), of ?n] n obtain tr where
    r: "pq_sift_up s1 ?n = Some (Ok, s1\<lparr>pq_storage := Some (up (pq_less_than s) xs1 ?n), pq_destroyed := tr\<rparr>)"
    using s1(3) by (auto simp: xs1_def)
  have "\<not> pq_full s" using room by (simp add: pq_full_def)
  moreover have "sz_add ?n 1 = Suc ?n" "sz_sub (Suc ?n) 1 = ?n" using n by (simp_all add: sz_add_eq sz_sub_eq)
  ultimately have "pq_push s (Some e) = pq_sift_up s1 ?n"
    using xs(1) n p by (simp add: pq_push_def pq_simple_def Let_def s1_def xs1_def)
  with r have call: "pq_push s (Some e) = Some (Ok, s1\<lparr>pq_storage := Some (up (pq_less_than s) xs1 ?n), pq_destroyed := tr\<rparr>)"
    (is "_ = Some (Ok, ?s)") by simp
  have tk: "take (Suc ?n) xs1 = pq_items s @ [e]" using n(1) xs(5) by (simp add: xs1_def take_Suc_conv_app_nth)
  have car: "\<forall>x \<in> set (take (Suc ?n) xs1). C x" using all e by (simp add: tk pq_all_def)
  have hu: "heap_up (pq_less_than s) xs1 (Suc ?n) ?n"
  proof -
    have "\<not> pq_less_than s (xs1 ! j) (xs1 ! parent j)" if "0 < j" "j < Suc ?n" "j \<noteq> ?n" for j
      using xs(6) that parent_less [of j] by (simp add: heap_def xs1_def)
    moreover have "parent j \<noteq> ?n" if "0 < j" "j < Suc ?n" for j
      using that parent_less [of j] by simp
    ultimately show ?thesis by (auto simp: heap_up_def)
  qed
  have len: "Suc ?n \<le> length xs1" using n by (simp add: xs1_def)
  from strict_weak.up_heap [OF sw hu _ len car]
  have "heap (pq_less_than s) (up (pq_less_than s) xs1 ?n) (Suc ?n)" by simp
  then have wf': "pq_wf ?s"
    using wf xs room by (simp add: pq_wf_def s1_def xs1_def)
  have items: "pq_items ?s = take (Suc ?n) (up (pq_less_than s) xs1 ?n)" by (simp add: pq_items_def s1_def)
  then have ms: "mset (pq_items ?s) = add_mset e (mset (pq_items s))"
    using mset_up [of ?n "Suc ?n" xs1 "pq_less_than s"] len tk by simp
  then have "pq_all C ?s" using all e unfolding pq_all_def by (metis insert_iff set_mset_add_mset_insert set_mset_mset)
  with call wf' ms show ?thesis by (intro exI [of _ ?s]) (simp add: pq_frame_def s1_def)
qed

lemma pq_push_full: "pq_wf s \<Longrightarrow> pq_flags s AND pq_policy_growable = 0 \<Longrightarrow> pq_capacity s \<le> pq_size s \<Longrightarrow>
  pq_push s (Some e) = Some (Full, s)"
  by (simp add: pq_push_def pq_full_def)

lemma pq_pop_effect:
  assumes wf: "pq_wf s" and p: "pq_simple s" and sw: "strict_weak C (pq_less_than s)" and all: "pq_all C s"
    and ne: "pq_items s \<noteq> []"
  shows "\<exists>x s'. pq_pop s out = Some (Ok, map_option (\<lambda>_. x) out, s') \<and> pq_wf s' \<and> pq_frame s s' \<and> pq_all C s' \<and>
    mset (pq_items s) = add_mset x (mset (pq_items s')) \<and> (\<forall>y \<in> set (pq_items s). \<not> pq_less_than s y x) \<and>
    x = hd (pq_items s)"
proof -
  from wf obtain xs where xs: "pq_storage s = Some xs" "0 < pq_capacity s" "pq_capacity s \<le> length xs"
    "pq_capacity s + pq_capacity s < SIZE_MAX" "pq_size s \<le> pq_capacity s" "pq_size s \<le> length xs"
    "pq_items s = take (pq_size s) xs" "heap (pq_less_than s) xs (pq_size s)" by (rule pq_wfE)
  obtain n where n: "pq_size s = Suc n" using ne xs(7) by (cases "pq_size s") auto
  let ?x = "xs ! 0" and ?lt = "pq_less_than s"
  have x0: "hd (pq_items s) = ?x" using xs(6,7) n by (cases xs) simp_all
  have nl: "n < length xs" "sz_sub (Suc n) 1 = n" using xs n by (simp_all add: sz_sub_eq)
  have least: "\<forall>y \<in> set (pq_items s). \<not> ?lt y ?x"
  proof
    fix y assume "y \<in> set (pq_items s)"
    then obtain i where "i < pq_size s" "y = xs ! i" using xs(6,7) by (auto simp: in_set_conv_nth)
    with strict_weak.heap_root_least [OF sw xs(8,6)] all xs(7) show "\<not> ?lt y ?x" by (simp add: pq_all_def)
  qed
  have copy: "copy_construct (pq_policy s) d v = (Ok, v)" for d v using p by (simp add: pq_simple_def)
  define tr where "tr = (if out = None then destroy (pq_policy s) ?x (pq_destroyed s) else pq_destroyed s)"
  define s2 where "s2 = s\<lparr>pq_size := n, pq_destroyed := tr\<rparr>"
  show ?thesis
  proof (cases "n = 0")
    case True
    have "pq_pop s out = Some (Ok, map_option (\<lambda>_. ?x) out, s2)"
      using xs(1) n nl True copy
      by (cases s; cases out) (auto simp: pq_pop_def pq_empty_def pq_destroy_at_def needs_destroy_on_clear_def Let_def s2_def tr_def)
    moreover have "pq_wf s2" using wf True by (auto simp: pq_wf_def s2_def heap_def split: option.splits)
    moreover have "pq_items s2 = []" by (simp add: pq_items_def s2_def xs(1) True)
    moreover have "pq_items s = [?x]" using xs(6,7) n True by (cases xs) simp_all
    ultimately show ?thesis
      using least x0 by (intro exI [of _ ?x] exI [of _ s2]) (simp add: pq_frame_def s2_def pq_all_def)
  next
    case False
    define v where "v = xs ! n"
    define xs1 where "xs1 = (if ep_runtime (pq_policy s) then xs[0 := v] else xs[0 := v, n := ep_moved (pq_policy s) v])"
    define s3 where "s3 = s2\<lparr>pq_storage := Some xs1, pq_destroyed := destroy (pq_policy s) (xs1 ! n) tr\<rparr>"
    have len: "length xs1 = length xs" by (simp add: xs1_def)
    have s3: "pq_simple s3" "pq_storage s3 = Some xs1" "pq_size s3 \<le> length xs1" "0 < pq_size s3"
      "2 * pq_size s3 \<le> SIZE_MAX" "pq_less_than s3 = ?lt" "pq_size s3 = n"
      using p nl False xs n len by (simp_all add: s3_def s2_def pq_simple_def pq_less_than_def fun_eq_iff)
    from pq_sift_down_eq [OF s3(1-5)] obtain tr' where
      r: "pq_sift_down s3 0 = Some (Ok, s3\<lparr>pq_storage := Some (down ?lt xs1 n 0), pq_destroyed := tr'\<rparr>)"
      unfolding s3(6,7) by blast
    have "xs \<noteq> []" using nl by auto
    then have "pq_pop s out = (case pq_sift_down s3 0 of None \<Rightarrow> None | Some (st, s4) \<Rightarrow> Some (st, map_option (\<lambda>_. ?x) out, s4))"
      using xs(1) n nl False copy
      by (cases s; cases out; cases "ep_runtime (pq_policy s)")
         (auto simp: pq_pop_def pq_empty_def pq_destroy_at_def needs_destroy_on_clear_def Let_def s3_def s2_def tr_def
           xs1_def v_def bind_eq_Some_conv split: option.splits)
    with r have call: "pq_pop s out = Some (Ok, map_option (\<lambda>_. ?x) out, s3\<lparr>pq_storage := Some (down ?lt xs1 n 0), pq_destroyed := tr'\<rparr>)"
      (is "_ = Some (Ok, _, ?s)") by simp
    have tk: "take n xs1 = (take n xs)[0 := v]"
      by (simp add: xs1_def take_update_swap list_update_beyond)
    have split: "pq_items s = take n xs @ [v]" using xs(7) n nl by (simp add: take_Suc_conv_app_nth v_def)
    have ms1: "mset (take n xs1) = add_mset v (mset (take n xs) - {#?x#})"
      using tk False nl by (simp add: mset_update)
    have "?x \<in># mset (take n xs)" using False nl by (cases xs; cases n) simp_all
    then have ms: "mset (pq_items s) = add_mset ?x (mset (take n xs1))"
      using ms1 split by simp
    have hd1: "heap_down ?lt xs1 n 0"
    proof -
      have "xs1 ! j = xs ! j" if "0 < j" "j < n" for j using that by (simp add: xs1_def)
      then have "\<not> ?lt (xs1 ! j) (xs1 ! parent j)" if "0 < j" "j < n" "parent j \<noteq> 0" for j
        using xs(8) that n parent_less [of j] by (simp add: heap_def)
      then show ?thesis by (simp add: heap_down_def)
    qed
    have car: "\<forall>x \<in> set (take n xs1). C x"
      using all ms unfolding pq_all_def by (metis insertCI set_mset_add_mset_insert set_mset_mset)
    have "heap ?lt (down ?lt xs1 n 0) n"
      using strict_weak.down_heap [OF sw hd1 _ _ car] False nl len by simp
    then have "pq_wf ?s"
      using wf xs n len by (auto simp: pq_wf_def s3_def s2_def split: option.splits)
    moreover have "mset (pq_items ?s) = mset (take n xs1)"
      using mset_down [of 0 n xs1 ?lt] False nl len by (simp add: pq_items_def s3_def s2_def)
    moreover from this have "pq_all C ?s" using car unfolding pq_all_def by (metis set_mset_mset)
    ultimately show ?thesis
      using call ms least x0 by (intro exI [of _ ?x] exI [of _ ?s]) (simp add: pq_frame_def s3_def s2_def)
  qed
qed

text \<open>Looking, visiting, clearing.\<close>

lemma pq_peek_effect:
  assumes wf: "pq_wf s"
  shows "pq_peek s out = Some (if out = None then (Null_ptr, out) else if pq_items s = [] then (Empty, out)
    else (Ok, Some (hd (pq_items s))))"
proof -
  from wf obtain xs where xs: "pq_storage s = Some xs" "pq_size s \<le> length xs" "pq_items s = take (pq_size s) xs"
    by (rule pq_wfE)
  then show ?thesis by (cases "pq_size s"; cases xs) (auto simp: pq_peek_def pq_empty_def)
qed

lemma pq_for_each_loop_eq:
  assumes "pq_storage s = Some xs" "i + n \<le> length xs"
  shows "pq_for_each_loop visit s i n w = Some (visit_list visit i (take n (drop i xs)) w)"
  using assms(2)
proof (induction n arbitrary: i w)
  case (Suc n)
  then have "take (Suc n) (drop i xs) = xs ! i # take n (drop (Suc i) xs)"
    by (simp add: Cons_nth_drop_Suc [symmetric])
  with Suc assms(1) show ?case by (auto split: prod.splits)
qed simp

lemma pq_for_each_eq:
  assumes wf: "pq_wf s"
  shows "pq_for_each visit s w = Some (visit_list visit 0 (pq_items s) w)"
proof -
  from wf obtain xs where xs: "pq_storage s = Some xs" "pq_size s \<le> length xs" "pq_items s = take (pq_size s) xs"
    by (rule pq_wfE)
  then show ?thesis using pq_for_each_loop_eq [of s xs 0 "pq_size s" visit w] by (simp add: pq_for_each_def)
qed

lemma pq_destroy_loop_eq:
  assumes "pq_storage s = Some xs" "i + n \<le> length xs" "ep_destroy (pq_policy s)"
  shows "pq_destroy_loop s i n = Some (s\<lparr>pq_destroyed := pq_destroyed s @ take n (drop i xs)\<rparr>)"
  using assms
proof (induction n arbitrary: i s)
  case (Suc n)
  then have "take (Suc n) (drop i xs) = xs ! i # take n (drop (Suc i) xs)"
    by (simp add: Cons_nth_drop_Suc [symmetric])
  with Suc show ?case by (simp add: pq_destroy_at_def)
qed simp

lemma pq_clear_effect:
  assumes wf: "pq_wf s"
  shows "\<exists>s'. pq_clear s = Some s' \<and> pq_wf s' \<and> pq_items s' = [] \<and>
    pq_destroyed s' = pq_destroyed s @ (if ep_destroy (pq_policy s) then pq_items s else [])"
proof -
  from wf obtain xs where xs: "pq_storage s = Some xs" "pq_size s \<le> length xs" "pq_items s = take (pq_size s) xs"
    by (rule pq_wfE)
  then show ?thesis
    using wf pq_destroy_loop_eq [of s xs 0 "pq_size s"]
    by (auto simp: pq_clear_def needs_destroy_on_clear_def pq_wf_def pq_items_def heap_def)
qed

text \<open>Popping \<open>n\<close> times.\<close>

fun pq_drain :: "'e \<Rightarrow> 'e pq \<Rightarrow> nat \<Rightarrow> ('e list \<times> 'e pq) option" where
  "pq_drain d s 0 = Some ([], s)"
| "pq_drain d s (Suc n) = do {
     (st, v, s') \<leftarrow> pq_pop s (Some d);
     (vs, s'') \<leftarrow> pq_drain d s' n;
     Some ((if st = Ok then the v # vs else vs), s'')
   }"

lemma pq_drain_effect:
  assumes "pq_wf s" "pq_simple s" "strict_weak C (pq_less_than s)" "pq_all C s"
  shows "\<exists>ys s'. pq_drain d s (length (pq_items s)) = Some (ys, s') \<and> mset ys = mset (pq_items s) \<and>
    sorted_wrt (\<lambda>a b. \<not> pq_less_than s b a) ys \<and> pq_items s' = []"
  using assms
proof (induction "length (pq_items s)" arbitrary: s)
  case (Suc n)
  then have ne: "pq_items s \<noteq> []" by auto
  from pq_pop_effect [OF Suc.prems ne, of "Some d"] obtain x t where t: "pq_pop s (Some d) = Some (Ok, Some x, t)"
    "pq_wf t" "pq_frame s t" "pq_all C t" "mset (pq_items s) = add_mset x (mset (pq_items t))"
    "\<forall>y \<in> set (pq_items s). \<not> pq_less_than s y x" by auto
  have less: "pq_less_than t = pq_less_than s" using t(3) by (rule pq_frame_less)
  have simple: "pq_simple t" using t(3) Suc.prems(2) by (simp add: pq_simple_def pq_frame_def)
  have "size (mset (pq_items s)) = Suc (size (mset (pq_items t)))" using t(5) by simp
  then have len: "n = length (pq_items t)" using Suc.hyps(2) by simp
  from Suc.hyps(1) [OF len t(2) simple _ t(4)] Suc.prems(3) less obtain ys s' where
    r: "pq_drain d t n = Some (ys, s')" "mset ys = mset (pq_items t)"
      "sorted_wrt (\<lambda>a b. \<not> pq_less_than s b a) ys" "pq_items s' = []"
    using len by auto
  have "set ys = set (pq_items t)" using r(2) by (rule mset_eq_setD)
  moreover have "set (pq_items s) = insert x (set (pq_items t))"
    using t(5) by (metis set_mset_add_mset_insert set_mset_mset)
  ultimately have "set ys \<subseteq> set (pq_items s)" by blast
  then have "\<forall>y \<in> set ys. \<not> pq_less_than s y x" using t(6) by blast
  with t(1,5) r Suc.hyps(2) [symmetric] show ?case by simp
qed auto

text \<open>Without a callback the elements are ordered by their bytes, which is a strict weak order.\<close>

interpretation pq_bytes: strict_weak "\<lambda>e. length (cmp_bytes c e) = n"
  "pq_less_than (s\<lparr>pq_compare := Runtime_cmp (c\<lparr>cmp_fn := None\<rparr>)\<rparr>)" for s :: "'e pq" and c n
proof -
  have "pq_less_than (s\<lparr>pq_compare := Runtime_cmp (c\<lparr>cmp_fn := None\<rparr>)\<rparr>) =
      (\<lambda>a b. runtime_compare (c\<lparr>cmp_fn := None\<rparr>) a b < 0)"
    by (simp add: pq_less_than_def fun_eq_iff)
  then show "strict_weak (\<lambda>e. length (cmp_bytes c e) = n)
      (pq_less_than (s\<lparr>pq_compare := Runtime_cmp (c\<lparr>cmp_fn := None\<rparr>)\<rparr>))"
    using bytes_order.strict.strict_weak_axioms by simp
qed

section \<open>Properties\<close>

definition pq_sample :: "nat list \<Rightarrow> nat \<Rightarrow> nat \<Rightarrow> nat pq" where
  "pq_sample xs n sz = \<lparr>pq_policy = runtime_element_policy 16 (word_of_nat sz) None False, pq_compare = Functor (<),
     pq_storage = Some xs, pq_capacity = length xs, pq_size = n, pq_flags = 0, pq_kind = 0, pq_temp = 0, pq_destroyed = []\<rparr>"

lemma pq_sample_less [simp]: "pq_less_than (pq_sample xs n sz) = (<)"
  by (simp add: pq_less_than_def pq_sample_def fun_eq_iff)

lemma pq_sample_simple: "sz \<le> 256 \<Longrightarrow> pq_simple (pq_sample xs n sz)"
  by (simp add: pq_simple_def pq_sample_def runtime_element_policy_def faithful_def unsigned_of_nat take_bit_nat_eq_self_iff)
     (metis take_bit_nat_less_eq_self le_trans)

lemma nat_strict_weak: "strict_weak (\<lambda>_. True) ((<) :: nat \<Rightarrow> nat \<Rightarrow> bool)"
  by unfold_locales auto

lemma heap_3: "heap (<) [2, 5, 3, 0 :: nat] 3"
proof -
  have "parent 1 = 0" "parent 2 = 0" by (simp_all add: parent_def)
  then have "\<not> [2, 5, 3, 0 :: nat] ! j < [2, 5, 3, 0] ! parent j" if "j = 1 \<or> j = 2" for j using that by auto
  then show ?thesis unfolding heap_def by (metis One_nat_def less_2_cases less_Suc_eq neq0_conv numeral_2_eq_2 numeral_3_eq_3)
qed

lemma pq_sample_facts:
  "pq_wf (pq_sample [2, 5, 3, 0] 3 sz)" "pq_items (pq_sample xs n sz) = take n xs" "pq_size (pq_sample xs n sz) = n"
  "pq_capacity (pq_sample xs n sz) = length xs" "pq_storage (pq_sample xs n sz) = Some xs"
proof -
  have "pq_storage (pq_sample xs n sz) = Some xs" "pq_size (pq_sample xs n sz) = n"
    "pq_capacity (pq_sample xs n sz) = length xs" for xs n
    by (simp_all add: pq_sample_def)
  with heap_3 show "pq_wf (pq_sample [2, 5, 3, 0] 3 sz)" "pq_items (pq_sample xs n sz) = take n xs"
    "pq_size (pq_sample xs n sz) = n" "pq_capacity (pq_sample xs n sz) = length xs"
    "pq_storage (pq_sample xs n sz) = Some xs"
    by (simp_all add: pq_wf_def pq_items_def PTRDIFF_MAX_def)
qed

text \<open>
  C14. \<open>push\<close> on a queue with room adds the element to the multiset of elements and keeps the heap, for any strict weak
  order. The copies must succeed and runtime elements have at most 256 bytes, the size of the buffer for swaps (\<open>pq_simple\<close>);
  for larger ones the claim is false, by \<open>pq_push_large_breaks_heap\<close> below.
\<close>

theorem pq_push_adds:
  assumes "pq_wf s" "pq_simple s" "strict_weak C (pq_less_than s)" "\<forall>x \<in> set (pq_items s). C x" "C e"
    and "pq_size s < pq_capacity s"
  shows "\<exists>s'. pq_push s (Some e) = Some (Ok, s') \<and> pq_wf s' \<and>
    mset (pq_items s') = add_mset e (mset (pq_items s))"
  using pq_push_effect [of s C e] assms by (auto simp: pq_all_def)

theorem pq_push_adds_witness:
  "\<exists>s'. pq_push (pq_sample [2, 5, 3, 0] 3 8) (Some 0) = Some (Ok, s') \<and> mset (pq_items s') = {#0, 2, 5, 3#}"
  using pq_push_adds [of "pq_sample [2, 5, 3, 0] 3 8" "\<lambda>_. True" 0] pq_sample_simple [of 8] nat_strict_weak
  by (auto simp: pq_sample_facts)

text \<open>
  C15. Popping a queue empty gives its elements in order: the results are a permutation of the elements and sorted, for any
  strict weak order. As for \<open>push\<close>, the copies must succeed and runtime elements have at most 256 bytes (\<open>pq_simple\<close>).
\<close>

theorem pq_drain_sorts:
  assumes "pq_wf s" "pq_simple s" "strict_weak C (pq_less_than s)" "\<forall>x \<in> set (pq_items s). C x"
  shows "\<exists>ys s'. pq_drain d s (length (pq_items s)) = Some (ys, s') \<and> mset ys = mset (pq_items s) \<and>
    sorted_wrt (\<lambda>a b. \<not> pq_less_than s b a) ys \<and> pq_items s' = []"
  using pq_drain_effect [of s C d] assms by (simp add: pq_all_def)

theorem pq_drain_sorts_witness:
  "\<exists>ys s'. pq_drain 0 (pq_sample [2, 5, 3, 0] 3 8) 3 = Some (ys, s') \<and> mset ys = {#2, 5, 3#} \<and> sorted_wrt (\<lambda>a b. \<not> b < a) ys"
proof -
  have "length (pq_items (pq_sample [2, 5, 3, 0] 3 8)) = 3" "mset (pq_items (pq_sample [2, 5, 3, 0] 3 8)) = {#2, 5, 3#}"
    by (simp_all add: pq_sample_facts)
  with pq_drain_sorts [of "pq_sample [2, 5, 3, 0] 3 8" "\<lambda>_. True" 0] pq_sample_simple [of 8] nat_strict_weak
  show ?thesis by (simp add: pq_sample_facts(1) del: pq_drain.simps) blast
qed

text \<open>
  Elements of a runtime policy larger than the 256-byte swap buffer: a push that must move the
  element up reports \<open>invalid\<close>, but the element stays in the queue and the heap is broken.
\<close>

theorem pq_push_large_breaks_heap:
  assumes wf: "pq_wf s" and rt: "ep_runtime (pq_policy s)" and f: "faithful (pq_policy s)" and big: "256 < ep_size (pq_policy s)"
    and st: "pq_storage s = Some xs" and room: "pq_size s < pq_capacity s" and n: "0 < pq_size s"
    and up: "pq_less_than s e (xs ! parent (pq_size s))"
  shows "\<exists>s'. pq_push s (Some e) = Some (Invalid, s') \<and> pq_size s' = Suc (pq_size s) \<and>
    pq_items s' = pq_items s @ [e] \<and> \<not> pq_wf s'"
proof -
  let ?n = "pq_size s"
  from wf st have xs: "pq_capacity s \<le> length xs" "pq_capacity s + pq_capacity s < SIZE_MAX" "pq_items s = take ?n xs"
    by (auto elim!: pq_wfE)
  have sz: "sz_add ?n 1 = Suc ?n" "sz_sub (Suc ?n) 1 = ?n" "sz_sub ?n 1 div 2 = parent ?n" "?n < length xs"
    using room xs n by (simp_all add: sz_add_eq sz_sub_eq parent_def)
  have p: "parent ?n < ?n" using n by (rule parent_less)
  define s' where "s' = s\<lparr>pq_storage := Some (xs[?n := e]), pq_size := Suc ?n\<rparr>"
  have "pq_sift_up s' ?n = Some (Invalid, s')"
    using n up p sz rt big by (subst pq_sift_up.simps) (simp add: s'_def Let_def pq_swap_def)
  moreover have "\<not> pq_full s" using room by (simp add: pq_full_def)
  ultimately have "pq_push s (Some e) = Some (Invalid, s')"
    using st sz f by (simp add: pq_push_def Let_def s'_def)
  moreover have "\<not> heap (pq_less_than s') (xs[?n := e]) (Suc ?n)"
    using n up p sz unfolding heap_def s'_def by (auto intro!: exI [of _ ?n])
  then have "\<not> pq_wf s'" by (simp add: pq_wf_def s'_def)
  moreover have "pq_items s' = pq_items s @ [e]"
    using sz xs by (simp add: pq_items_def s'_def take_Suc_conv_app_nth)
  ultimately show ?thesis by (intro exI [of _ s']) (simp add: s'_def)
qed

theorem pq_push_large_breaks_heap_witness:
  "\<exists>s'. pq_push (pq_sample [2, 5, 3, 0] 3 512) (Some 0) = Some (Invalid, s') \<and> \<not> pq_wf s'"
proof -
  have "pq_policy (pq_sample [2, 5, 3, 0] 3 512) = runtime_element_policy 16 512 None False"
    by (simp add: pq_sample_def)
  then have "ep_runtime (pq_policy (pq_sample [2, 5, 3, 0] 3 512))" "faithful (pq_policy (pq_sample [2, 5, 3, 0] 3 512))"
    "256 < ep_size (pq_policy (pq_sample [2, 5, 3, 0] 3 512))"
    by (simp_all add: runtime_element_policy_def faithful_def)
  with pq_push_large_breaks_heap [of "pq_sample [2, 5, 3, 0] 3 512" "[2, 5, 3, 0]" 0] show ?thesis
    by (auto simp: pq_sample_facts parent_def)
qed

end
