(* ===== verification/Bits.thy ===== *)
theory Bits
  imports Utility
begin

text \<open>
  Sets of indices packed into bytes, as Bitset and the object pool keep them: index \<open>i\<close> is bit
  \<open>i mod 8\<close> of byte \<open>i div 8\<close>.
\<close>

definition byte_mask :: "nat \<Rightarrow> u8" where
  "byte_mask index = push_bit (index mod 8) 1"

definition bit_of :: "u8 list \<Rightarrow> nat \<Rightarrow> bool" where
  "bit_of xs i \<longleftrightarrow> bit (xs ! (i div 8)) (i mod 8)"

lemma bit_byte_mask: "bit (byte_mask i) k \<longleftrightarrow> k = i mod 8"
  by (auto simp: byte_mask_def bit_simps)

lemma and_byte_mask: "w AND byte_mask i \<noteq> 0 \<longleftrightarrow> bit w (i mod 8)"
proof
  assume "w AND byte_mask i \<noteq> 0"
  then obtain k where "bit (w AND byte_mask i) k" by (auto simp: bit_eq_iff)
  then show "bit w (i mod 8)" by (auto simp: bit_and_iff bit_byte_mask)
next
  assume "bit w (i mod 8)"
  then have "bit (w AND byte_mask i) (i mod 8)" by (simp add: bit_and_iff bit_byte_mask)
  then show "w AND byte_mask i \<noteq> 0" by (auto simp del: bit_and_iff)
qed

lemma same_bit: "i div 8 = j div 8 \<Longrightarrow> i mod 8 = j mod 8 \<Longrightarrow> i = (j :: nat)"
  by (metis div_mult_mod_eq)

text \<open>Writing one byte changes only its own eight bits.\<close>

lemma bit_of_update:
  assumes "i div 8 < length xs"
  shows "bit_of (xs[i div 8 := w]) j = (if j div 8 = i div 8 then bit w (j mod 8) else bit_of xs j)"
  using assms by (auto simp: bit_of_def nth_list_update)

lemma bit_of_set:
  assumes "i div 8 < length xs"
  shows "bit_of (xs[i div 8 := xs ! (i div 8) OR byte_mask i]) j \<longleftrightarrow> j = i \<or> bit_of xs j"
  unfolding bit_of_update [OF assms] by (auto simp: bit_or_iff bit_byte_mask bit_of_def dest: same_bit)

lemma bit_of_clear:
  assumes "i div 8 < length xs"
  shows "bit_of (xs[i div 8 := xs ! (i div 8) AND NOT (byte_mask i)]) j \<longleftrightarrow> j \<noteq> i \<and> bit_of xs j"
  unfolding bit_of_update [OF assms]
  by (auto simp: bit_and_iff bit_not_iff bit_byte_mask bit_of_def dest: same_bit)

lemma bit_of_flip:
  assumes "i div 8 < length xs"
  shows "bit_of (xs[i div 8 := xs ! (i div 8) XOR byte_mask i]) j \<longleftrightarrow> (if j = i then \<not> bit_of xs i else bit_of xs j)"
  unfolding bit_of_update [OF assms] by (auto simp: bit_xor_iff bit_byte_mask bit_of_def dest: same_bit)

lemma bytes_index: "i < c \<Longrightarrow> i div 8 < (c + 7) div (8 :: nat)"
  by linarith

lemma bit_of_replicate_0: "i div 8 < n \<Longrightarrow> \<not> bit_of (replicate n 0 @ xs) i"
  by (simp add: bit_of_def nth_append)

lemma bit_u8_le: "bit (w :: u8) k \<Longrightarrow> k < 8"
  using bit_imp_le_length [of w k] by simp

end
