(* ===== verification/Bitset.thy ===== *)
theory Bitset
  imports Contracts Bits
begin

text \<open>
  \<^verbatim>\<open>include/memkit/detail/bitset_core.hpp\<close>: a fixed-size set of indices, one bit each, in the
  bytes of its caller.
\<close>

section \<open>Model\<close>

record bitset =
  bs_storage :: "u8 mem"
  bs_capacity :: nat
  bs_bytes :: nat
  bs_kind :: u8

definition bitset_storage_bytes :: "nat \<Rightarrow> nat" where
  "bitset_storage_bytes capacity = sz_add capacity 7 div 8"

definition tail_mask :: "nat \<Rightarrow> u8" where
  "tail_mask capacity =
     (let remainder = capacity mod 8 in if remainder = 0 then 255 else push_bit remainder 1 - 1)"

text \<open>\<open>memset\<close> and \<open>memcpy\<close> of the first \<open>n\<close> bytes.\<close>

definition fill_bytes :: "u8 mem \<Rightarrow> nat \<Rightarrow> u8 \<Rightarrow> u8 mem option" where
  "fill_bytes m n v =
     (case m of None \<Rightarrow> None | Some xs \<Rightarrow> if n \<le> length xs then Some (Some (replicate n v @ drop n xs)) else None)"

definition copy_bytes :: "u8 mem \<Rightarrow> u8 mem \<Rightarrow> nat \<Rightarrow> u8 mem option" where
  "copy_bytes dst src n =
     (case (dst, src) of
        (Some ds, Some ss) \<Rightarrow>
          if n \<le> length ds \<and> n \<le> length ss then Some (Some (take n ss @ drop n ds)) else None
      | _ \<Rightarrow> None)"

definition bitset_clear :: "bitset \<Rightarrow> bitset option" where
  "bitset_clear s =
     (if bs_storage s \<noteq> None then do {
        m \<leftarrow> fill_bytes (bs_storage s) (bs_bytes s) 0;
        Some (s\<lparr>bs_storage := m\<rparr>)
      } else Some s)"

definition bitset_init :: "bitset \<Rightarrow> u8 mem \<Rightarrow> nat \<Rightarrow> (status \<times> bitset) option" where
  "bitset_init s storage capacity =
     (if storage = None \<or> capacity = 0 then Some (Invalid, s)
      else do {
        s' \<leftarrow> bitset_clear (s\<lparr>bs_storage := storage, bs_capacity := capacity,
                             bs_bytes := bitset_storage_bytes capacity, bs_kind := 0\<rparr>);
        Some (Ok, s')
      })"

definition bitset_reset_state :: "bitset \<Rightarrow> bitset" where
  "bitset_reset_state s = s\<lparr>bs_storage := None, bs_capacity := 0, bs_bytes := 0, bs_kind := 0\<rparr>"

definition bitset_set_storage_kind :: "bitset \<Rightarrow> u8 \<Rightarrow> bitset" where
  "bitset_set_storage_kind s kind = s\<lparr>bs_kind := kind\<rparr>"

function popcount_byte :: "u8 \<Rightarrow> nat" where
  "popcount_byte v = (if v \<noteq> 0 then unat (v AND 1) + popcount_byte (drop_bit 1 v) else 0)"
  by auto
termination
proof (relation "measure unat")
  fix v :: u8
  assume "v \<noteq> 0"
  then have "0 < unat v" by (simp add: unat_gt_0)
  then have "unat v div 2 < unat v" by simp
  then show "(drop_bit 1 v, v) \<in> measure unat"
    by (simp add: drop_bit_eq_div unat_div_distrib)
qed simp

declare popcount_byte.simps [simp del]

fun bitset_size_loop :: "bitset \<Rightarrow> nat \<Rightarrow> nat \<Rightarrow> nat \<Rightarrow> nat option" where
  "bitset_size_loop s i 0 count = Some count"
| "bitset_size_loop s i (Suc n) count = do {
     v \<leftarrow> mem_rd (bs_storage s) i;
     bitset_size_loop s (Suc i) n (sz_add count (popcount_byte v))
   }"

text \<open>The loop runs over \<open>i + 1 < storage_bytes_\<close>; the last byte is counted after it.\<close>

definition bitset_size :: "bitset \<Rightarrow> nat option" where
  "bitset_size s =
     (if bs_storage s = None \<or> bs_bytes s = 0 then Some 0
      else do {
        count \<leftarrow> bitset_size_loop s 0 (bs_bytes s - 1) 0;
        v \<leftarrow> mem_rd (bs_storage s) (sz_sub (bs_bytes s) 1);
        Some (sz_add count (popcount_byte v))
      })"

definition bitset_apply_tail_mask :: "bitset \<Rightarrow> bitset option" where
  "bitset_apply_tail_mask s =
     (if bs_storage s \<noteq> None \<and> bs_bytes s > 0 then do {
        v \<leftarrow> mem_rd (bs_storage s) (sz_sub (bs_bytes s) 1);
        m \<leftarrow> mem_wr (bs_storage s) (sz_sub (bs_bytes s) 1) (v AND tail_mask (bs_capacity s));
        Some (s\<lparr>bs_storage := m\<rparr>)
      } else Some s)"

definition bitset_set_all :: "bitset \<Rightarrow> (status \<times> bitset) option" where
  "bitset_set_all s =
     (if bs_storage s = None then Some (Null_ptr, s)
      else do {
        m \<leftarrow> fill_bytes (bs_storage s) (bs_bytes s) 255;
        s' \<leftarrow> bitset_apply_tail_mask (s\<lparr>bs_storage := m\<rparr>);
        Some (Ok, s')
      })"

definition bitset_test :: "bitset \<Rightarrow> nat \<Rightarrow> bool option" where
  "bitset_test s index =
     (if index \<ge> bs_capacity s \<or> bs_storage s = None then Some False
      else do {
        v \<leftarrow> mem_rd (bs_storage s) (index div 8);
        Some (v AND byte_mask index \<noteq> 0)
      })"

text \<open>\<open>set\<close>, \<open>reset\<close> and \<open>toggle\<close> share their guards.\<close>

definition bitset_modify :: "(u8 \<Rightarrow> u8 \<Rightarrow> u8) \<Rightarrow> bitset \<Rightarrow> nat \<Rightarrow> (status \<times> bitset) option" where
  "bitset_modify f s index =
     (if bs_storage s = None then Some (Null_ptr, s)
      else if index \<ge> bs_capacity s then Some (Invalid, s)
      else do {
        v \<leftarrow> mem_rd (bs_storage s) (index div 8);
        m \<leftarrow> mem_wr (bs_storage s) (index div 8) (f v (byte_mask index));
        Some (Ok, s\<lparr>bs_storage := m\<rparr>)
      })"

definition bitset_set :: "bitset \<Rightarrow> nat \<Rightarrow> (status \<times> bitset) option" where
  "bitset_set = bitset_modify (\<lambda>v m. v OR m)"

definition bitset_reset :: "bitset \<Rightarrow> nat \<Rightarrow> (status \<times> bitset) option" where
  "bitset_reset = bitset_modify (\<lambda>v m. v AND NOT m)"

definition bitset_toggle :: "bitset \<Rightarrow> nat \<Rightarrow> (status \<times> bitset) option" where
  "bitset_toggle = bitset_modify (\<lambda>v m. v XOR m)"

definition bitset_assign :: "bitset \<Rightarrow> bool \<Rightarrow> nat \<Rightarrow> (status \<times> bitset) option" where
  "bitset_assign s v index = (if v then bitset_set s index else bitset_reset s index)"

text \<open>\<open>find_from\<close>: the remaining indices are \<open>n\<close>; the out index is returned only when found.\<close>

fun bitset_find_loop :: "bitset \<Rightarrow> nat \<Rightarrow> nat \<Rightarrow> bool \<Rightarrow> (status \<times> nat option) option" where
  "bitset_find_loop s index 0 want = Some (Not_found, None)"
| "bitset_find_loop s index (Suc n) want = do {
     b \<leftarrow> bitset_test s index;
     if b = want then Some (Ok, Some index) else bitset_find_loop s (Suc index) n want
   }"

definition bitset_find_from :: "bitset \<Rightarrow> nat \<Rightarrow> bool \<Rightarrow> (status \<times> nat option) option" where
  "bitset_find_from s start_index want =
     (if bs_storage s = None then Some (Null_ptr, None)
      else if start_index \<ge> bs_capacity s then Some (Not_found, None)
      else bitset_find_loop s start_index (bs_capacity s - start_index) want)"

definition bitset_find_first_set :: "bitset \<Rightarrow> nat \<Rightarrow> (status \<times> nat option) option" where
  "bitset_find_first_set s start_index = bitset_find_from s start_index True"

definition bitset_find_first_clear :: "bitset \<Rightarrow> nat \<Rightarrow> (status \<times> nat option) option" where
  "bitset_find_first_clear s start_index = bitset_find_from s start_index False"

definition bitset_copy_from :: "bitset \<Rightarrow> bitset \<Rightarrow> (status \<times> bitset) option" where
  "bitset_copy_from s src =
     (if bs_storage s = None \<or> bs_storage src = None then Some (Invalid, s)
      else if bs_capacity s \<noteq> bs_capacity src then Some (Invalid, s)
      else do {
        m \<leftarrow> copy_bytes (bs_storage s) (bs_storage src) (bs_bytes s);
        s' \<leftarrow> bitset_apply_tail_mask (s\<lparr>bs_storage := m\<rparr>);
        Some (Ok, s')
      })"

definition bitset_equal :: "bitset \<Rightarrow> bitset \<Rightarrow> bool option" where
  "bitset_equal s other =
     (if bs_capacity s \<noteq> bs_capacity other \<or> bs_storage s = None \<or> bs_storage other = None then Some False
      else
        let xs = the (bs_storage s); ys = the (bs_storage other); n = bs_bytes s in
        if n \<le> length xs \<and> n \<le> length ys then Some (take n xs = take n ys) else None)"

fun bitset_combine_loop :: "(u8 \<Rightarrow> u8 \<Rightarrow> u8) \<Rightarrow> bitset \<Rightarrow> bitset \<Rightarrow> nat \<Rightarrow> nat \<Rightarrow> bitset option" where
  "bitset_combine_loop f s other i 0 = Some s"
| "bitset_combine_loop f s other i (Suc n) = do {
     a \<leftarrow> mem_rd (bs_storage s) i;
     b \<leftarrow> mem_rd (bs_storage other) i;
     m \<leftarrow> mem_wr (bs_storage s) i (f a b);
     bitset_combine_loop f (s\<lparr>bs_storage := m\<rparr>) other (Suc i) n
   }"

definition bitset_combine :: "(u8 \<Rightarrow> u8 \<Rightarrow> u8) \<Rightarrow> bitset \<Rightarrow> bitset \<Rightarrow> (status \<times> bitset) option" where
  "bitset_combine f s other =
     (if bs_storage s = None \<or> bs_storage other = None then Some (Invalid, s)
      else if bs_capacity s \<noteq> bs_capacity other then Some (Invalid, s)
      else do {
        s1 \<leftarrow> bitset_combine_loop f s other 0 (bs_bytes s);
        s2 \<leftarrow> bitset_apply_tail_mask s1;
        Some (Ok, s2)
      })"

definition bitset_union :: "bitset \<Rightarrow> bitset \<Rightarrow> (status \<times> bitset) option" where
  "bitset_union = bitset_combine (\<lambda>a b. a OR b)"

definition bitset_intersect :: "bitset \<Rightarrow> bitset \<Rightarrow> (status \<times> bitset) option" where
  "bitset_intersect = bitset_combine (\<lambda>a b. a AND b)"

definition bitset_xor :: "bitset \<Rightarrow> bitset \<Rightarrow> (status \<times> bitset) option" where
  "bitset_xor = bitset_combine (\<lambda>a b. a XOR b)"

fun bitset_not_loop :: "bitset \<Rightarrow> nat \<Rightarrow> nat \<Rightarrow> bitset option" where
  "bitset_not_loop s i 0 = Some s"
| "bitset_not_loop s i (Suc n) = do {
     v \<leftarrow> mem_rd (bs_storage s) i;
     m \<leftarrow> mem_wr (bs_storage s) i (NOT v);
     bitset_not_loop (s\<lparr>bs_storage := m\<rparr>) (Suc i) n
   }"

definition bitset_complement :: "bitset \<Rightarrow> (status \<times> bitset) option" where
  "bitset_complement s =
     (if bs_storage s = None then Some (Null_ptr, s)
      else do {
        s1 \<leftarrow> bitset_not_loop s 0 (bs_bytes s);
        s2 \<leftarrow> bitset_apply_tail_mask s1;
        Some (Ok, s2)
      })"

definition bitset_load_bytes :: "bitset \<Rightarrow> u8 mem \<Rightarrow> nat \<Rightarrow> (status \<times> bitset) option" where
  "bitset_load_bytes s bytes bytes_len =
     (if bs_storage s = None \<or> bytes = None then Some (Null_ptr, s)
      else if bytes_len < bs_bytes s then Some (Invalid, s)
      else do {
        m \<leftarrow> copy_bytes (bs_storage s) bytes (bs_bytes s);
        s' \<leftarrow> bitset_apply_tail_mask (s\<lparr>bs_storage := m\<rparr>);
        Some (Ok, s')
      })"

definition bitset_store_bytes :: "bitset \<Rightarrow> u8 mem \<Rightarrow> nat \<Rightarrow> (status \<times> u8 mem) option" where
  "bitset_store_bytes s bytes bytes_len =
     (if bs_storage s = None \<or> bytes = None then Some (Null_ptr, bytes)
      else if bytes_len < bs_bytes s then Some (Invalid, bytes)
      else do {
        m \<leftarrow> copy_bytes bytes (bs_storage s) (bs_bytes s);
        Some (Ok, m)
      })"

fun bitset_for_each_loop :: "(nat \<Rightarrow> 'w \<Rightarrow> status \<times> 'w) \<Rightarrow> bitset \<Rightarrow> nat \<Rightarrow> nat \<Rightarrow> 'w \<Rightarrow> (status \<times> 'w) option" where
  "bitset_for_each_loop visit s index 0 w = Some (Ok, w)"
| "bitset_for_each_loop visit s index (Suc n) w = do {
     b \<leftarrow> bitset_test s index;
     if \<not> b then bitset_for_each_loop visit s (Suc index) n w
     else do {
       let (st, w') = visit index w;
       if st \<noteq> Ok then Some (st, w') else bitset_for_each_loop visit s (Suc index) n w'
     }
   }"

definition bitset_for_each :: "(nat \<Rightarrow> 'w \<Rightarrow> status \<times> 'w) \<Rightarrow> bitset \<Rightarrow> 'w \<Rightarrow> (status \<times> 'w) option" where
  "bitset_for_each visit s w =
     (if bs_storage s = None then Some (Null_ptr, w) else bitset_for_each_loop visit s 0 (bs_capacity s) w)"

end
