(* ===== verification/Bitset_Correct.thy ===== *)
theory Bitset_Correct
  imports Bitset
begin

text \<open>
  Correctness of the bitset: every operation acts on the set of indices it stands for; \<open>size\<close> is the
  cardinality; the bits past the capacity stay clear.
\<close>

definition bitset_wf :: "bitset \<Rightarrow> bool" where
  "bitset_wf s \<longleftrightarrow>
     (case bs_storage s of
        None \<Rightarrow> False
      | Some xs \<Rightarrow> 0 < bs_capacity s \<and> bs_capacity s + 7 \<le> SIZE_MAX \<and> bs_bytes s = (bs_capacity s + 7) div 8 \<and>
          bs_bytes s \<le> length xs \<and>
          (\<forall>j. bs_capacity s \<le> j \<longrightarrow> j < 8 * bs_bytes s \<longrightarrow> \<not> bit_of xs j))"

definition bitset_elems :: "bitset \<Rightarrow> nat set" where
  "bitset_elems s = (case bs_storage s of None \<Rightarrow> {} | Some xs \<Rightarrow> {i. i < bs_capacity s \<and> bit_of xs i})"

lemma bitset_wfE:
  assumes "bitset_wf s"
  obtains xs where "bs_storage s = Some xs" "0 < bs_capacity s" "bs_capacity s + 7 \<le> SIZE_MAX"
    "bs_bytes s = (bs_capacity s + 7) div 8" "bs_bytes s \<le> length xs"
    "\<And>j. bs_capacity s \<le> j \<Longrightarrow> j < 8 * bs_bytes s \<Longrightarrow> \<not> bit_of xs j"
    "bitset_elems s = {i. i < bs_capacity s \<and> bit_of xs i}"
  using assms by (auto simp: bitset_wf_def bitset_elems_def split: option.splits)

lemma bitset_index_ok: "bitset_wf s \<Longrightarrow> bs_storage s = Some xs \<Longrightarrow> i < bs_capacity s \<Longrightarrow> i div 8 < length xs"
proof -
  assume wf: "bitset_wf s" and xs: "bs_storage s = Some xs" and i: "i < bs_capacity s"
  from wf xs have "bs_bytes s = (bs_capacity s + 7) div 8" "bs_bytes s \<le> length xs"
    by (auto elim!: bitset_wfE)
  with bytes_index [OF i] show "i div 8 < length xs" by simp
qed

section \<open>Single bits\<close>

lemma bitset_test_eq:
  assumes wf: "bitset_wf s"
  shows "bitset_test s i = Some (i \<in> bitset_elems s)"
proof -
  from wf obtain xs where xs: "bs_storage s = Some xs" "bitset_elems s = {i. i < bs_capacity s \<and> bit_of xs i}"
    by (rule bitset_wfE)
  then show ?thesis
    using bitset_index_ok [OF wf xs(1), of i] by (auto simp: bitset_test_def and_byte_mask bit_of_def)
qed

lemma bitset_modify_eq:
  assumes wf: "bitset_wf s" and i: "i < bs_capacity s" and xs: "bs_storage s = Some xs"
    and f: "\<And>j. bit_of (xs[i div 8 := f (xs ! (i div 8)) (byte_mask i)]) j \<longleftrightarrow> (if j = i then b else bit_of xs j)"
  shows "\<exists>s'. bitset_modify f s i = Some (Ok, s') \<and> bitset_wf s' \<and> bs_capacity s' = bs_capacity s \<and>
    bitset_elems s' = (if b then insert i (bitset_elems s) else bitset_elems s - {i})"
proof -
  let ?ys = "xs[i div 8 := f (xs ! (i div 8)) (byte_mask i)]"
  have "bitset_modify f s i = Some (Ok, s\<lparr>bs_storage := Some ?ys\<rparr>)"
    using bitset_index_ok [OF wf xs i] xs i by (simp add: bitset_modify_def)
  moreover have "bitset_wf (s\<lparr>bs_storage := Some ?ys\<rparr>)"
    using wf xs i by (auto simp: bitset_wf_def f)
  ultimately show ?thesis
    using xs i by (auto simp: bitset_elems_def f)
qed

lemma bitset_set_eq:
  assumes wf: "bitset_wf s" and i: "i < bs_capacity s"
  shows "\<exists>s'. bitset_set s i = Some (Ok, s') \<and> bitset_wf s' \<and> bs_capacity s' = bs_capacity s \<and>
    bitset_elems s' = insert i (bitset_elems s)"
proof -
  from wf obtain xs where xs: "bs_storage s = Some xs" by (rule bitset_wfE)
  from bitset_modify_eq [OF wf i xs, of "\<lambda>v m. v OR m" True] bit_of_set [OF bitset_index_ok [OF wf xs i]]
  show ?thesis by (simp add: bitset_set_def)
qed

lemma bitset_reset_eq:
  assumes wf: "bitset_wf s" and i: "i < bs_capacity s"
  shows "\<exists>s'. bitset_reset s i = Some (Ok, s') \<and> bitset_wf s' \<and> bs_capacity s' = bs_capacity s \<and>
    bitset_elems s' = bitset_elems s - {i}"
proof -
  from wf obtain xs where xs: "bs_storage s = Some xs" by (rule bitset_wfE)
  from bitset_modify_eq [OF wf i xs, of "\<lambda>v m. v AND NOT m" False] bit_of_clear [OF bitset_index_ok [OF wf xs i]]
  show ?thesis by (auto simp: bitset_reset_def)
qed

lemma bitset_toggle_eq:
  assumes wf: "bitset_wf s" and i: "i < bs_capacity s"
  shows "\<exists>s'. bitset_toggle s i = Some (Ok, s') \<and> bitset_wf s' \<and> bs_capacity s' = bs_capacity s \<and>
    bitset_elems s' = (if i \<in> bitset_elems s then bitset_elems s - {i} else insert i (bitset_elems s))"
proof -
  from wf obtain xs where xs: "bs_storage s = Some xs" "bitset_elems s = {i. i < bs_capacity s \<and> bit_of xs i}"
    by (rule bitset_wfE)
  from bitset_modify_eq [OF wf i xs(1), of "\<lambda>v m. v XOR m" "\<not> bit_of xs i"] bit_of_flip [OF bitset_index_ok [OF wf xs(1) i]]
  show ?thesis using xs(2) i by (cases "bit_of xs i") (auto simp: bitset_toggle_def)
qed

lemma bitset_out_of_range:
  assumes "bitset_wf s" "bs_capacity s \<le> i"
  shows "bitset_set s i = Some (Invalid, s)" "bitset_reset s i = Some (Invalid, s)" "bitset_toggle s i = Some (Invalid, s)"
  using assms by (auto simp: bitset_set_def bitset_reset_def bitset_toggle_def bitset_modify_def elim!: bitset_wfE)

interpretation bits: id_set bitset_wf bitset_elems bs_capacity bitset_set bitset_reset bitset_test
proof unfold_locales
  fix s i
  assume wf: "bitset_wf s"
  show "\<exists>s'. bitset_set s i = Some (Ok, s') \<and> bitset_wf s' \<and> bitset_elems s' = insert i (bitset_elems s) \<and>
      bs_capacity s' = bs_capacity s" if "i < bs_capacity s"
    using bitset_set_eq [OF wf that] by blast
  show "bitset_set s i = Some (Invalid, s)" if "bs_capacity s \<le> i"
    using bitset_out_of_range [OF wf that] by simp
  show "\<exists>st s'. bitset_reset s i = Some (st, s') \<and> bitset_wf s' \<and> bitset_elems s' = bitset_elems s - {i} \<and>
      bs_capacity s' = bs_capacity s"
  proof (cases "i < bs_capacity s")
    case True
    from bitset_reset_eq [OF wf True] show ?thesis by blast
  next
    case False
    then have "i \<notin> bitset_elems s" using wf by (auto elim!: bitset_wfE)
    with False bitset_out_of_range [OF wf, of i] wf show ?thesis by simp
  qed
  show "bitset_test s i = Some (i \<in> bitset_elems s)" using wf by (rule bitset_test_eq)
  show "bitset_elems s \<subseteq> {..<bs_capacity s}" using wf by (auto elim!: bitset_wfE)
qed

section \<open>Counting\<close>

lemma popcount_byte_card: "popcount_byte v = card {k. bit v k}"
proof (induction v rule: popcount_byte.induct)
  case (1 v)
  show ?case
  proof (cases "v = 0")
    case True
    then have "{k. bit v k} = {}" by simp
    then show ?thesis using True by (subst popcount_byte.simps) (simp only: card.empty, simp)
  next
    case False
    have fin: "finite {k. bit w k}" for w :: u8
      by (rule finite_subset [of _ "{..<8}"]) (auto dest: bit_u8_le)
    have "{k. bit v k} = (if bit v 0 then {0} else {}) \<union> Suc ` {k. bit (drop_bit 1 v) k}"
    proof (rule set_eqI)
      fix k
      show "k \<in> {k. bit v k} \<longleftrightarrow> k \<in> (if bit v 0 then {0} else {}) \<union> Suc ` {k. bit (drop_bit 1 v) k}"
        by (cases k) (auto simp: bit_drop_bit_eq)
    qed
    then have "card {k. bit v k} = (if bit v 0 then 1 else 0) + card {k. bit (drop_bit 1 v) k}"
      using fin [of "drop_bit 1 v"] by (simp add: card_insert_if card_image)
    moreover have "unat (v AND 1) = (if bit v 0 then 1 else 0)"
      by (simp add: and_one_eq odd_iff_mod_2_eq_one bit_0 mod2_eq_if)
    ultimately show ?thesis
      using False 1 by (subst popcount_byte.simps) simp
  qed
qed

lemma popcount_byte_le: "popcount_byte v \<le> 8"
proof -
  have "card {k. bit v k} \<le> card {..<8 :: nat}" by (rule card_mono) (auto dest: bit_u8_le)
  then show ?thesis by (simp add: popcount_byte_card)
qed

lemma card_bits_Suc:
  "card {i. i < 8 * Suc n \<and> bit_of xs i} = card {i. i < 8 * n \<and> bit_of xs i} + popcount_byte (xs ! n)"
proof -
  have "{i. i < 8 * Suc n \<and> bit_of xs i} = {i. i < 8 * n \<and> bit_of xs i} \<union> (\<lambda>k. 8 * n + k) ` {k. bit (xs ! n) k}"
  proof (rule set_eqI)
    fix i
    show "i \<in> {i. i < 8 * Suc n \<and> bit_of xs i} \<longleftrightarrow>
        i \<in> {i. i < 8 * n \<and> bit_of xs i} \<union> (\<lambda>k. 8 * n + k) ` {k. bit (xs ! n) k}"
    proof (cases "i < 8 * n")
      case False
      then have "i < 8 * Suc n \<longleftrightarrow> i div 8 = n" by auto
      moreover have "i div 8 = n \<and> bit (xs ! n) (i mod 8) \<longleftrightarrow> (\<exists>k. bit (xs ! n) k \<and> i = 8 * n + k)"
      proof
        assume "i div 8 = n \<and> bit (xs ! n) (i mod 8)"
        then show "\<exists>k. bit (xs ! n) k \<and> i = 8 * n + k"
          by (intro exI [of _ "i mod 8"]) (metis div_mult_mod_eq mult.commute)
      next
        assume "\<exists>k. bit (xs ! n) k \<and> i = 8 * n + k"
        then obtain k where "bit (xs ! n) k" "i = 8 * n + k" by blast
        with bit_u8_le show "i div 8 = n \<and> bit (xs ! n) (i mod 8)" by simp
      qed
      ultimately show ?thesis using False by (auto simp: bit_of_def image_iff)
    qed (auto dest: bit_u8_le)
  qed
  moreover have "finite {k. bit (xs ! n) k}"
    by (rule finite_subset [of _ "{..<8}"]) (auto dest: bit_u8_le)
  moreover have "card ((\<lambda>k. 8 * n + k) ` {k. bit (xs ! n) k}) = popcount_byte (xs ! n)"
    by (simp add: card_image inj_on_def popcount_byte_card)
  moreover have "{i. i < 8 * n \<and> bit_of xs i} \<inter> (\<lambda>k. 8 * n + k) ` {k. bit (xs ! n) k} = {}" by auto
  ultimately show ?thesis
    using card_Un_disjoint [of "{i. i < 8 * n \<and> bit_of xs i}" "(\<lambda>k. 8 * n + k) ` {k. bit (xs ! n) k}"]
    by simp
qed

lemma sz_add_card:
  assumes "8 * n + 8 \<le> SIZE_MAX"
  shows "sz_add (card {j. j < 8 * n \<and> bit_of xs j}) (popcount_byte (xs ! n)) = card {j. j < 8 * Suc n \<and> bit_of xs j}"
proof -
  have "card {j. j < 8 * n \<and> bit_of xs j} \<le> 8 * n"
    using card_mono [of "{..<8 * n}" "{j. j < 8 * n \<and> bit_of xs j}"] by auto
  with assms popcount_byte_le [of "xs ! n"]
  have "card {j. j < 8 * n \<and> bit_of xs j} + popcount_byte (xs ! n) \<le> SIZE_MAX" by linarith
  then show ?thesis using card_bits_Suc [of n xs] by (simp add: sz_add_eq)
qed

lemma bitset_size_loop_eq:
  assumes "bs_storage s = Some xs" "i + n \<le> length xs" "8 * (i + n) \<le> SIZE_MAX"
    "c = card {j. j < 8 * i \<and> bit_of xs j}"
  shows "bitset_size_loop s i n c = Some (card {j. j < 8 * (i + n) \<and> bit_of xs j})"
  using assms(2-)
proof (induction n arbitrary: i c)
  case (Suc n)
  have "8 * i + 8 \<le> SIZE_MAX" using Suc.prems(2) by simp
  then have "sz_add c (popcount_byte (xs ! i)) = card {j. j < 8 * Suc i \<and> bit_of xs j}"
    using Suc.prems(3) sz_add_card [of i xs] by simp
  with Suc.prems Suc.IH [of "Suc i"] assms(1) show ?case by (simp del: mult_Suc_right)
qed simp

lemma bitset_size_eq:
  assumes wf: "bitset_wf s"
  shows "bitset_size s = Some (card (bitset_elems s))"
proof -
  from wf obtain xs where xs: "bs_storage s = Some xs" "0 < bs_capacity s" "bs_capacity s + 7 \<le> SIZE_MAX"
    "bs_bytes s = (bs_capacity s + 7) div 8" "bs_bytes s \<le> length xs"
    "\<And>j. bs_capacity s \<le> j \<Longrightarrow> j < 8 * bs_bytes s \<Longrightarrow> \<not> bit_of xs j"
    "bitset_elems s = {i. i < bs_capacity s \<and> bit_of xs i}" by (rule bitset_wfE) blast
  obtain n where n: "bs_bytes s = Suc n" using xs(2,4) not0_implies_Suc [of "bs_bytes s"] by fastforce
  have "8 * ((bs_capacity s + 7) div 8) \<le> bs_capacity s + 7" by (rule times_div_less_eq_dividend)
  then have max: "8 * Suc n \<le> SIZE_MAX" using xs(3,4) n by simp
  have le: "8 * n \<le> SIZE_MAX" using max by simp
  have "bitset_elems s = {j. j < 8 * Suc n \<and> bit_of xs j}"
    using xs(4,6,7) n by (auto simp: not_le [symmetric])
  moreover have "sz_add (card {j. j < 8 * n \<and> bit_of xs j}) (popcount_byte (xs ! n)) = card {j. j < 8 * Suc n \<and> bit_of xs j}"
    using max by (intro sz_add_card) simp
  moreover have "sz_sub (Suc n) 1 = n" using max by (simp add: sz_sub_eq)
  ultimately show ?thesis
    using bitset_size_loop_eq [of s xs 0 n 0] xs(1,5) n le by (simp add: bitset_size_def del: mult_Suc_right)
qed

section \<open>Whole-set operations\<close>

lemma bit_tail_mask: "k < 8 \<Longrightarrow> bit (tail_mask c) k \<longleftrightarrow> c mod 8 = 0 \<or> k < c mod 8"
proof -
  assume k: "k < 8"
  show ?thesis
  proof (cases "c mod 8 = 0")
    case True
    have "(255 :: u8) = mask 8" by (simp add: mask_eq_exp_minus_1)
    then have "tail_mask c = mask 8" using True by (simp add: tail_mask_def)
    then show ?thesis using True k by (simp add: bit_mask_iff)
  next
    case False
    then have "tail_mask c = mask (c mod 8)"
      by (simp add: tail_mask_def mask_eq_exp_minus_1 push_bit_of_1 Let_def)
    then show ?thesis using False k by (simp add: bit_mask_iff)
  qed
qed

text \<open>
  The tail mask clears exactly the bits past the capacity, so a storage with the right bits below the
  capacity becomes well formed.
\<close>

lemma below_capacity:
  assumes c: "0 < c" and j: "j < 8 * ((c + 7) div 8)"
  shows "j < c \<longleftrightarrow> j div 8 \<noteq> (c + 7) div 8 - 1 \<or> c mod 8 = 0 \<or> j mod 8 < c mod (8 :: nat)"
proof (cases "c mod 8 = 0")
  case True
  then obtain q where q: "c = 8 * q" by auto
  then have "j < c" using j by simp
  with True show ?thesis by simp
next
  case False
  have jd: "8 * (j div 8) + j mod 8 = j" and cd: "8 * (c div 8) + c mod 8 = c" by simp_all
  have lt: "j mod 8 < 8" "c mod 8 < 8" by simp_all
  have q: "(c + 7) div 8 = Suc (c div 8)" using False by presburger
  have le: "j div 8 \<le> c div 8" using j q by linarith
  have "j < c \<longleftrightarrow> j div 8 < c div 8 \<or> j mod 8 < c mod 8"
  proof (cases "j div 8 < c div 8")
    case True
    then show ?thesis using jd cd lt by linarith
  next
    case False
    then have "j div 8 = c div 8" using le by simp
    then show ?thesis using jd cd by linarith
  qed
  with q le False show ?thesis by auto
qed

lemma bitset_tail_mask_ok:
  assumes st: "bs_storage s = Some xs" and c: "0 < bs_capacity s" "bs_capacity s + 7 \<le> SIZE_MAX"
    and n: "bs_bytes s = (bs_capacity s + 7) div 8" "bs_bytes s \<le> length xs"
  shows "\<exists>s'. bitset_apply_tail_mask s = Some s' \<and> bitset_wf s' \<and> bs_capacity s' = bs_capacity s \<and>
    bitset_elems s' = {i. i < bs_capacity s \<and> bit_of xs i}"
proof -
  let ?l = "bs_bytes s - 1"
  have pos: "0 < bs_bytes s" using c n(1) by (simp add: div_greater_zero_iff)
  then have l: "?l < length xs" "sz_sub (bs_bytes s) 1 = ?l" using n c(2) by (simp_all add: sz_sub_eq)
  define ys where "ys = xs[?l := xs ! ?l AND tail_mask (bs_capacity s)]"
  have bits: "bit_of ys j \<longleftrightarrow> bit_of xs j \<and> j < bs_capacity s" if j: "j < 8 * bs_bytes s" for j
  proof -
    have "bit_of ys j \<longleftrightarrow> (if j div 8 = ?l then bit_of xs j \<and> bit (tail_mask (bs_capacity s)) (j mod 8) else bit_of xs j)"
      using l by (auto simp: ys_def bit_of_def bit_and_iff)
    then show ?thesis
      using below_capacity [OF c(1), of j] j n(1) bit_tail_mask [of "j mod 8" "bs_capacity s"] by auto
  qed
  have "bitset_apply_tail_mask s = Some (s\<lparr>bs_storage := Some ys\<rparr>)"
    using st l pos by (simp add: bitset_apply_tail_mask_def ys_def)
  moreover have "bitset_wf (s\<lparr>bs_storage := Some ys\<rparr>)"
    using c n bits by (simp add: bitset_wf_def) (simp add: ys_def)
  moreover have "bit_of ys i \<longleftrightarrow> bit_of xs i" if "i < bs_capacity s" for i
    using bits [of i] that n(1) bytes_index [OF that] by simp
  ultimately show ?thesis by (auto simp: bitset_elems_def)
qed

text \<open>A loop over the bytes followed by the tail mask.\<close>

lemma bitset_combine_loop_eq:
  assumes "bs_storage s = Some xs" "bs_storage t = Some ys" "i + n \<le> length xs" "i + n \<le> length ys"
  shows "\<exists>zs. bitset_combine_loop f s t i n = Some (s\<lparr>bs_storage := Some zs\<rparr>) \<and> length zs = length xs \<and>
    (\<forall>k. zs ! k = (if i \<le> k \<and> k < i + n then f (xs ! k) (ys ! k) else xs ! k))"
  using assms
proof (induction n arbitrary: i s xs)
  case 0
  then show ?case by (intro exI [of _ xs]) auto
next
  case (Suc n)
  let ?s = "s\<lparr>bs_storage := Some (xs[i := f (xs ! i) (ys ! i)])\<rparr>"
  from Suc.IH [of ?s "xs[i := f (xs ! i) (ys ! i)]" "Suc i"] Suc.prems obtain zs where
    zs: "bitset_combine_loop f ?s t (Suc i) n = Some (?s\<lparr>bs_storage := Some zs\<rparr>)" "length zs = length xs"
    "\<forall>k. zs ! k = (if Suc i \<le> k \<and> k < Suc i + n then f (xs[i := f (xs ! i) (ys ! i)] ! k) (ys ! k)
      else xs[i := f (xs ! i) (ys ! i)] ! k)" by auto
  have "zs ! k = (if i \<le> k \<and> k < i + Suc n then f (xs ! k) (ys ! k) else xs ! k)" for k
    using zs(3) Suc.prems(3) by (cases "k = i") auto
  with zs(1,2) Suc.prems show ?case by (intro exI [of _ zs]) simp
qed

lemma bitset_combine_eq:
  assumes s: "bitset_wf s" and t: "bitset_wf t" and c: "bs_capacity t = bs_capacity s"
    and f: "\<And>a b k. k < 8 \<Longrightarrow> bit (f a b) k \<longleftrightarrow> g (bit a k) (bit b k)"
  shows "\<exists>s'. bitset_combine f s t = Some (Ok, s') \<and> bitset_wf s' \<and> bs_capacity s' = bs_capacity s \<and>
    bitset_elems s' = {i. i < bs_capacity s \<and> g (i \<in> bitset_elems s) (i \<in> bitset_elems t)}"
proof -
  from s obtain xs where xs: "bs_storage s = Some xs" "0 < bs_capacity s" "bs_capacity s + 7 \<le> SIZE_MAX"
    "bs_bytes s = (bs_capacity s + 7) div 8" "bs_bytes s \<le> length xs"
    "bitset_elems s = {i. i < bs_capacity s \<and> bit_of xs i}" by (rule bitset_wfE) blast
  from t obtain ys where ys: "bs_storage t = Some ys" "bs_bytes t = (bs_capacity t + 7) div 8" "bs_bytes t \<le> length ys"
    "bitset_elems t = {i. i < bs_capacity t \<and> bit_of ys i}" by (rule bitset_wfE) blast
  have len: "bs_bytes s \<le> length ys" using xs(4) ys(2,3) c by simp
  from bitset_combine_loop_eq [OF xs(1) ys(1), of 0 "bs_bytes s" f] xs(5) len obtain zs where
    zs: "bitset_combine_loop f s t 0 (bs_bytes s) = Some (s\<lparr>bs_storage := Some zs\<rparr>)" "length zs = length xs"
    "\<forall>k. zs ! k = (if k < bs_bytes s then f (xs ! k) (ys ! k) else xs ! k)" by auto
  from bitset_tail_mask_ok [of "s\<lparr>bs_storage := Some zs\<rparr>" zs] xs zs(2) obtain s' where
    s': "bitset_apply_tail_mask (s\<lparr>bs_storage := Some zs\<rparr>) = Some s'" "bitset_wf s'" "bs_capacity s' = bs_capacity s"
    "bitset_elems s' = {i. i < bs_capacity s \<and> bit_of zs i}" by auto
  have "bit_of zs i \<longleftrightarrow> g (bit_of xs i) (bit_of ys i)" if "i < bs_capacity s" for i
    using zs(3) bytes_index [OF that] xs(4) f [of "i mod 8"] by (simp add: bit_of_def)
  with s' zs(1) xs(1,6) ys(1,4) c show ?thesis by (auto simp: bitset_combine_def)
qed

lemma bitset_union_eq:
  assumes "bitset_wf s" "bitset_wf t" "bs_capacity t = bs_capacity s"
  shows "\<exists>s'. bitset_union s t = Some (Ok, s') \<and> bitset_wf s' \<and> bs_capacity s' = bs_capacity s \<and>
    bitset_elems s' = bitset_elems s \<union> bitset_elems t"
proof -
  have set: "{i. i < bs_capacity s \<and> (i \<in> bitset_elems s \<or> i \<in> bitset_elems t)} = bitset_elems s \<union> bitset_elems t"
    using assms(3) by (auto simp: bitset_elems_def split: option.splits)
  show ?thesis
    unfolding bitset_union_def set [symmetric] by (rule bitset_combine_eq [OF assms]) (rule bit_or_iff)
qed

lemma bitset_intersect_eq:
  assumes "bitset_wf s" "bitset_wf t" "bs_capacity t = bs_capacity s"
  shows "\<exists>s'. bitset_intersect s t = Some (Ok, s') \<and> bitset_wf s' \<and> bs_capacity s' = bs_capacity s \<and>
    bitset_elems s' = bitset_elems s \<inter> bitset_elems t"
proof -
  have set: "{i. i < bs_capacity s \<and> (i \<in> bitset_elems s \<and> i \<in> bitset_elems t)} = bitset_elems s \<inter> bitset_elems t"
    using assms(3) by (auto simp: bitset_elems_def split: option.splits)
  show ?thesis
    unfolding bitset_intersect_def set [symmetric] by (rule bitset_combine_eq [OF assms]) (rule bit_and_iff)
qed

lemma bitset_xor_eq:
  assumes "bitset_wf s" "bitset_wf t" "bs_capacity t = bs_capacity s"
  shows "\<exists>s'. bitset_xor s t = Some (Ok, s') \<and> bitset_wf s' \<and> bs_capacity s' = bs_capacity s \<and>
    bitset_elems s' = sym_diff (bitset_elems s) (bitset_elems t)"
proof -
  have set: "{i. i < bs_capacity s \<and> ((i \<in> bitset_elems s) \<noteq> (i \<in> bitset_elems t))} = sym_diff (bitset_elems s) (bitset_elems t)"
    using assms(3) by (auto simp: bitset_elems_def split: option.splits)
  show ?thesis
    unfolding bitset_xor_def set [symmetric] by (rule bitset_combine_eq [OF assms]) (rule bit_xor_iff)
qed

lemma bitset_not_loop_eq:
  assumes "bs_storage s = Some xs" "i + n \<le> length xs"
  shows "\<exists>zs. bitset_not_loop s i n = Some (s\<lparr>bs_storage := Some zs\<rparr>) \<and> length zs = length xs \<and>
    (\<forall>k. zs ! k = (if i \<le> k \<and> k < i + n then NOT (xs ! k) else xs ! k))"
  using assms
proof (induction n arbitrary: i s xs)
  case 0
  then show ?case by (intro exI [of _ xs]) auto
next
  case (Suc n)
  let ?s = "s\<lparr>bs_storage := Some (xs[i := NOT (xs ! i)])\<rparr>"
  from Suc.IH [of ?s "xs[i := NOT (xs ! i)]" "Suc i"] Suc.prems obtain zs where
    zs: "bitset_not_loop ?s (Suc i) n = Some (?s\<lparr>bs_storage := Some zs\<rparr>)" "length zs = length xs"
    "\<forall>k. zs ! k = (if Suc i \<le> k \<and> k < Suc i + n then NOT (xs[i := NOT (xs ! i)] ! k)
      else xs[i := NOT (xs ! i)] ! k)" by auto
  have "zs ! k = (if i \<le> k \<and> k < i + Suc n then NOT (xs ! k) else xs ! k)" for k
    using zs(3) Suc.prems(2) by (cases "k = i") auto
  with zs(1,2) Suc.prems show ?case by (intro exI [of _ zs]) simp
qed

lemma bitset_complement_eq:
  assumes s: "bitset_wf s"
  shows "\<exists>s'. bitset_complement s = Some (Ok, s') \<and> bitset_wf s' \<and> bs_capacity s' = bs_capacity s \<and>
    bitset_elems s' = {..<bs_capacity s} - bitset_elems s"
proof -
  from s obtain xs where xs: "bs_storage s = Some xs" "0 < bs_capacity s" "bs_capacity s + 7 \<le> SIZE_MAX"
    "bs_bytes s = (bs_capacity s + 7) div 8" "bs_bytes s \<le> length xs"
    "bitset_elems s = {i. i < bs_capacity s \<and> bit_of xs i}" by (rule bitset_wfE) blast
  from bitset_not_loop_eq [OF xs(1), of 0 "bs_bytes s"] xs(5) obtain zs where
    zs: "bitset_not_loop s 0 (bs_bytes s) = Some (s\<lparr>bs_storage := Some zs\<rparr>)" "length zs = length xs"
    "\<forall>k. zs ! k = (if k < bs_bytes s then NOT (xs ! k) else xs ! k)" by auto
  from bitset_tail_mask_ok [of "s\<lparr>bs_storage := Some zs\<rparr>" zs] xs zs(2) obtain s' where
    s': "bitset_apply_tail_mask (s\<lparr>bs_storage := Some zs\<rparr>) = Some s'" "bitset_wf s'" "bs_capacity s' = bs_capacity s"
    "bitset_elems s' = {i. i < bs_capacity s \<and> bit_of zs i}" by auto
  have "bit_of zs i \<longleftrightarrow> \<not> bit_of xs i" if "i < bs_capacity s" for i
    using zs(3) bytes_index [OF that] xs(4) by (simp add: bit_of_def bit_not_iff)
  with s' zs(1) xs(1,6) show ?thesis by (auto simp: bitset_complement_def)
qed

text \<open>Filling and copying whole storages.\<close>

lemma bit_of_append_left: "i < 8 * length ys \<Longrightarrow> bit_of (ys @ zs) i = bit_of ys i"
  by (auto simp: bit_of_def nth_append)

lemma bit_of_take: "i < 8 * n \<Longrightarrow> n \<le> length ys \<Longrightarrow> bit_of (take n ys) i = bit_of ys i"
  by (auto simp: bit_of_def)

lemma bitset_bytes_bound: "i < bs_capacity s \<Longrightarrow> bs_bytes s = (bs_capacity s + 7) div 8 \<Longrightarrow> i < 8 * bs_bytes s"
  using bytes_index [of i "bs_capacity s"] by auto

lemma bitset_init_eq:
  assumes "0 < capacity" "capacity + 7 \<le> SIZE_MAX" "bitset_storage_bytes capacity \<le> length xs"
  shows "\<exists>s'. bitset_init s (Some xs) capacity = Some (Ok, s') \<and> bitset_wf s' \<and> bs_capacity s' = capacity \<and>
    bitset_elems s' = {}"
proof -
  let ?n = "(capacity + 7) div 8"
  have n: "bitset_storage_bytes capacity = ?n" using assms(2) by (simp add: bitset_storage_bytes_def sz_add_eq)
  have zero: "\<not> bit_of (replicate ?n 0 @ drop ?n xs) j" if "j < 8 * ?n" for j
    using that by (intro bit_of_replicate_0) linarith
  then show ?thesis
    using assms n
    by (auto simp: bitset_init_def bitset_clear_def fill_bytes_def bitset_wf_def bitset_elems_def bytes_index
          dest: bytes_index)
qed

lemma bitset_clear_eq:
  assumes wf: "bitset_wf s"
  shows "\<exists>s'. bitset_clear s = Some s' \<and> bitset_wf s' \<and> bs_capacity s' = bs_capacity s \<and> bitset_elems s' = {}"
proof -
  from wf obtain xs where xs: "bs_storage s = Some xs" "0 < bs_capacity s" "bs_capacity s + 7 \<le> SIZE_MAX"
    "bs_bytes s = (bs_capacity s + 7) div 8" "bs_bytes s \<le> length xs" by (rule bitset_wfE) blast
  have "\<not> bit_of (replicate (bs_bytes s) 0 @ drop (bs_bytes s) xs) j" if "j < 8 * bs_bytes s" for j
    using that by (intro bit_of_replicate_0) linarith
  then show ?thesis
    using xs bitset_bytes_bound [of _ s] by (auto simp: bitset_clear_def fill_bytes_def bitset_wf_def bitset_elems_def)
qed

lemma bitset_set_all_eq:
  assumes wf: "bitset_wf s"
  shows "\<exists>s'. bitset_set_all s = Some (Ok, s') \<and> bitset_wf s' \<and> bs_capacity s' = bs_capacity s \<and>
    bitset_elems s' = {..<bs_capacity s}"
proof -
  from wf obtain xs where xs: "bs_storage s = Some xs" "0 < bs_capacity s" "bs_capacity s + 7 \<le> SIZE_MAX"
    "bs_bytes s = (bs_capacity s + 7) div 8" "bs_bytes s \<le> length xs" by (rule bitset_wfE) blast
  let ?ys = "replicate (bs_bytes s) 255 @ drop (bs_bytes s) xs"
  have full: "(255 :: u8) = mask 8" by (simp add: mask_eq_exp_minus_1)
  have "bit (255 :: u8) (j mod 8)" for j unfolding full bit_mask_iff by simp
  then have bits: "bit_of ?ys j" if "j < bs_capacity s" for j
    using bytes_index [OF that] xs(4) by (simp add: bit_of_def nth_append)
  from bitset_tail_mask_ok [of "s\<lparr>bs_storage := Some ?ys\<rparr>" ?ys] xs obtain s' where
    "bitset_apply_tail_mask (s\<lparr>bs_storage := Some ?ys\<rparr>) = Some s'" "bitset_wf s'" "bs_capacity s' = bs_capacity s"
    "bitset_elems s' = {i. i < bs_capacity s \<and> bit_of ?ys i}" by auto
  with xs bits show ?thesis by (auto simp: bitset_set_all_def fill_bytes_def)
qed

lemma bitset_load_bytes_eq:
  assumes wf: "bitset_wf s" and ys: "bs_bytes s \<le> length ys" "bs_bytes s \<le> n"
  shows "\<exists>s'. bitset_load_bytes s (Some ys) n = Some (Ok, s') \<and> bitset_wf s' \<and> bs_capacity s' = bs_capacity s \<and>
    bitset_elems s' = {i. i < bs_capacity s \<and> bit_of ys i}"
proof -
  from wf obtain xs where xs: "bs_storage s = Some xs" "0 < bs_capacity s" "bs_capacity s + 7 \<le> SIZE_MAX"
    "bs_bytes s = (bs_capacity s + 7) div 8" "bs_bytes s \<le> length xs" by (rule bitset_wfE) blast
  let ?zs = "take (bs_bytes s) ys @ drop (bs_bytes s) xs"
  have bits: "bit_of ?zs j \<longleftrightarrow> bit_of ys j" if "j < bs_capacity s" for j
    using bytes_index [OF that] xs(4) ys(1) by (simp add: bit_of_def nth_append)
  from bitset_tail_mask_ok [of "s\<lparr>bs_storage := Some ?zs\<rparr>" ?zs] xs ys obtain s' where
    "bitset_apply_tail_mask (s\<lparr>bs_storage := Some ?zs\<rparr>) = Some s'" "bitset_wf s'" "bs_capacity s' = bs_capacity s"
    "bitset_elems s' = {i. i < bs_capacity s \<and> bit_of ?zs i}" by auto
  with xs bits ys show ?thesis by (auto simp: bitset_load_bytes_def copy_bytes_def)
qed

text \<open>Storing the bytes and loading them into any bitset of the same capacity copies the set.\<close>

lemma bitset_store_load:
  assumes s: "bitset_wf s" and t: "bitset_wf t" and c: "bs_capacity t = bs_capacity s"
    and n: "bs_bytes s \<le> n" "bs_bytes s \<le> length buf"
  shows "\<exists>buf' t'. bitset_store_bytes s (Some buf) n = Some (Ok, Some buf') \<and>
    bitset_load_bytes t (Some buf') n = Some (Ok, t') \<and> bitset_wf t' \<and> bitset_elems t' = bitset_elems s"
proof -
  from s obtain xs where xs: "bs_storage s = Some xs" "bs_bytes s = (bs_capacity s + 7) div 8" "bs_bytes s \<le> length xs"
    "bitset_elems s = {i. i < bs_capacity s \<and> bit_of xs i}" by (rule bitset_wfE) blast
  from t have bt: "bs_bytes t = bs_bytes s" using xs(2) c by (auto elim!: bitset_wfE)
  let ?buf = "take (bs_bytes s) xs @ drop (bs_bytes s) buf"
  have "bitset_store_bytes s (Some buf) n = Some (Ok, Some ?buf)"
    using xs n by (simp add: bitset_store_bytes_def copy_bytes_def)
  moreover have "bit_of ?buf j \<longleftrightarrow> bit_of xs j" if "j < bs_capacity s" for j
    using bytes_index [OF that] xs(2,3) by (simp add: bit_of_def nth_append)
  moreover have "\<exists>t'. bitset_load_bytes t (Some ?buf) n = Some (Ok, t') \<and> bitset_wf t' \<and> bs_capacity t' = bs_capacity t \<and>
    bitset_elems t' = {i. i < bs_capacity t \<and> bit_of ?buf i}"
    using xs(3) n bt by (intro bitset_load_bytes_eq [OF t]) auto
  ultimately show ?thesis using xs(4) c by (auto intro!: exI [of _ ?buf])
qed

section \<open>Comparison, search and iteration\<close>

lemma bytes_equal_iff:
  assumes "n \<le> length xs" "n \<le> length ys"
  shows "take n xs = take n ys \<longleftrightarrow> (\<forall>j < 8 * n. bit_of xs j = bit_of ys j)"
proof
  assume "take n xs = take n ys"
  then have "xs ! k = ys ! k" if "k < n" for k using that by (metis nth_take)
  then show "\<forall>j < 8 * n. bit_of xs j = bit_of ys j" by (auto simp: bit_of_def)
next
  assume eq: "\<forall>j < 8 * n. bit_of xs j = bit_of ys j"
  have "xs ! k = ys ! k" if k: "k < n" for k
  proof (rule bit_eqI)
    fix b
    assume "possible_bit TYPE(u8) b"
    then have "b < 8" by simp
    moreover from this k have "8 * k + b < 8 * n" by linarith
    ultimately show "bit (xs ! k) b \<longleftrightarrow> bit (ys ! k) b" using eq by (auto simp: bit_of_def dest!: spec [of _ "8 * k + b"])
  qed
  then show "take n xs = take n ys" using assms by (intro nth_equalityI) auto
qed

lemma bitset_equal_eq:
  assumes s: "bitset_wf s" and t: "bitset_wf t"
  shows "bitset_equal s t = Some (bs_capacity s = bs_capacity t \<and> bitset_elems s = bitset_elems t)"
proof (cases "bs_capacity s = bs_capacity t")
  case True
  from s obtain xs where xs: "bs_storage s = Some xs" "bs_bytes s = (bs_capacity s + 7) div 8" "bs_bytes s \<le> length xs"
    "\<And>j. bs_capacity s \<le> j \<Longrightarrow> j < 8 * bs_bytes s \<Longrightarrow> \<not> bit_of xs j"
    "bitset_elems s = {i. i < bs_capacity s \<and> bit_of xs i}" by (rule bitset_wfE) blast
  from t obtain ys where ys: "bs_storage t = Some ys" "bs_bytes t = (bs_capacity t + 7) div 8" "bs_bytes t \<le> length ys"
    "\<And>j. bs_capacity t \<le> j \<Longrightarrow> j < 8 * bs_bytes t \<Longrightarrow> \<not> bit_of ys j"
    "bitset_elems t = {i. i < bs_capacity t \<and> bit_of ys i}" by (rule bitset_wfE) blast
  have "(\<forall>j < 8 * bs_bytes s. bit_of xs j = bit_of ys j) \<longleftrightarrow> (\<forall>j < bs_capacity s. bit_of xs j = bit_of ys j)"
    using xs(2,4) ys(2,4) True bitset_bytes_bound [of _ s] by (metis not_le)
  also have "\<dots> \<longleftrightarrow> bitset_elems s = bitset_elems t" using xs(5) ys(5) True by auto
  finally show ?thesis
    using bytes_equal_iff [of "bs_bytes s" xs ys] xs(1,2,3) ys(1,2,3) True by (simp add: bitset_equal_def Let_def)
next
  case False
  then show ?thesis by (simp add: bitset_equal_def)
qed

lemma bitset_find_loop_eq:
  assumes "bitset_wf s"
  shows "bitset_find_loop s i n want =
    Some (case find (\<lambda>j. (j \<in> bitset_elems s) = want) [i..<i + n] of None \<Rightarrow> (Not_found, None) | Some j \<Rightarrow> (Ok, Some j))"
proof (induction n arbitrary: i)
  case (Suc n)
  have "[i..<i + Suc n] = i # [Suc i..<Suc i + n]" by (simp add: upt_conv_Cons)
  with Suc [of "Suc i"] show ?case by (auto simp: bitset_test_eq [OF assms] simp del: upt_Suc)
qed simp

lemma bitset_find_from_eq:
  assumes wf: "bitset_wf s"
  shows "bitset_find_from s i want =
    Some (case find (\<lambda>j. (j \<in> bitset_elems s) = want) [i..<bs_capacity s] of None \<Rightarrow> (Not_found, None) | Some j \<Rightarrow> (Ok, Some j))"
  using wf bitset_find_loop_eq [OF wf, of i "bs_capacity s - i" want]
  by (auto simp: bitset_find_from_def elim: bitset_wfE)

lemma find_upt_least:
  assumes "i \<le> j" "j < n" "P j" "\<And>k. i \<le> k \<Longrightarrow> k < j \<Longrightarrow> \<not> P k"
  shows "find P [i..<n] = Some j"
proof -
  have "[i..<n] = [i..<j] @ j # [Suc j..<n]"
    using assms(1,2) upt_add_eq_append [of i j "n - j"] by (simp add: upt_conv_Cons)
  moreover have "find P [i..<j] = None" using assms(4) by (simp add: find_None_iff)
  moreover have "find P (xs @ y # ys) = Some y" if "find P xs = None" "P y" for xs y ys
    using that by (induction xs) (auto split: if_splits)
  ultimately show ?thesis using assms(3) by simp
qed

lemma bitset_for_each_loop_eq:
  assumes "bitset_wf s"
  shows "bitset_for_each_loop visit s i n w =
    Some (visit_list (\<lambda>j _. visit j) k (filter (\<lambda>j. j \<in> bitset_elems s) [i..<i + n]) w)"
proof (induction n arbitrary: i w k)
  case (Suc n)
  have "filter (\<lambda>j. j \<in> bitset_elems s) [i..<i + Suc n] =
    (if i \<in> bitset_elems s then [i] else []) @ filter (\<lambda>j. j \<in> bitset_elems s) [Suc i..<Suc i + n]"
    by (simp add: upt_conv_Cons del: upt_Suc)
  with Suc [of "Suc i" _ "Suc k"] Suc [of "Suc i" w k] show ?case
    by (auto simp: bitset_test_eq [OF assms] split: prod.splits simp del: upt_Suc)
qed simp

lemma bitset_for_each_eq:
  assumes wf: "bitset_wf s"
  shows "bitset_for_each visit s w = Some (visit_list (\<lambda>j k. visit j) 0 (sorted_list_of_set (bitset_elems s)) w)"
proof -
  obtain xs where "bs_storage s = Some xs" using wf by (auto elim: bitset_wfE)
  then show ?thesis
    using bitset_for_each_loop_eq [OF wf, of visit 0 "bs_capacity s" w]
      filter_upt_sorted_list_of_set [OF bits.elems_bound [OF wf]]
    by (simp add: bitset_for_each_def)
qed

section \<open>Guarantees\<close>

text \<open>
  A three-element bitset in two bytes, the second unused; witnesses and examples below use it.
\<close>

definition sample_bitset :: bitset where
  "sample_bitset = \<lparr>bs_storage = Some [byte_mask 0 OR byte_mask 2, 0], bs_capacity = 3, bs_bytes = (3 + 7) div 8, bs_kind = 0\<rparr>"

lemma sample_bitset_wf: "bitset_wf sample_bitset"
  by (auto simp: bitset_wf_def sample_bitset_def bit_of_def SIZE_MAX_def bit_or_iff bit_byte_mask)

lemma sample_bitset_elems: "bitset_elems sample_bitset = {0, 2}"
  by (auto simp: bitset_elems_def sample_bitset_def bit_of_def bit_or_iff bit_byte_mask)

text \<open>
  Every sequence of set, reset and test on a bitset behaves as on a set of indices below the
  capacity: set beyond the capacity is refused, reset there does nothing, every access stays inside
  the storage.
\<close>

theorem bitset_is_index_set:
  assumes "bitset_wf s"
  shows "\<exists>s'. set_run bitset_set bitset_reset bitset_test s cs =
      Some (fst (set_spec (bs_capacity s) (bitset_elems s) cs), s') \<and>
    bitset_wf s' \<and> bitset_elems s' = snd (set_spec (bs_capacity s) (bitset_elems s) cs)"
  using assms by (rule bits.run_refines)

theorem bitset_is_index_set_witness:
  "\<exists>s'. set_run bitset_set bitset_reset bitset_test sample_bitset [Add 1, Add 9, Del 0, Has 0, Has 1, Has 9] =
      Some ([False, True, False], s') \<and> bitset_elems s' = {1, 2}"
proof -
  have cap: "bs_capacity sample_bitset = 3" by (simp add: sample_bitset_def)
  have spec: "set_spec 3 {0, 2} [Add 1, Add 9, Del 0, Has 0, Has 1, Has 9] = ([False, True, False], {1, 2})"
    by auto
  show ?thesis
    using bitset_is_index_set [OF sample_bitset_wf, of "[Add 1, Add 9, Del 0, Has 0, Has 1, Has 9]"]
    unfolding sample_bitset_elems cap spec fst_conv snd_conv by blast
qed

text \<open>
  C16. The whole-set operations are the operations on sets: size is the cardinality, union,
  intersection, symmetric difference and complement within the capacity, with the bits past the
  capacity kept clear.
\<close>

theorem bitset_algebra:
  assumes "bitset_wf s" "bitset_wf t" "bs_capacity t = bs_capacity s"
  shows "bitset_size s = Some (card (bitset_elems s)) \<and>
    (\<exists>r. bitset_union s t = Some (Ok, r) \<and> bitset_wf r \<and> bitset_elems r = bitset_elems s \<union> bitset_elems t) \<and>
    (\<exists>r. bitset_intersect s t = Some (Ok, r) \<and> bitset_wf r \<and> bitset_elems r = bitset_elems s \<inter> bitset_elems t) \<and>
    (\<exists>r. bitset_xor s t = Some (Ok, r) \<and> bitset_wf r \<and> bitset_elems r = sym_diff (bitset_elems s) (bitset_elems t)) \<and>
    (\<exists>r. bitset_complement s = Some (Ok, r) \<and> bitset_wf r \<and> bitset_elems r = {..<bs_capacity s} - bitset_elems s) \<and>
    bitset_equal s t = Some (bitset_elems s = bitset_elems t)"
proof (intro conjI)
  show "bitset_size s = Some (card (bitset_elems s))" by (rule bitset_size_eq [OF assms(1)])
  show "bitset_equal s t = Some (bitset_elems s = bitset_elems t)"
    using bitset_equal_eq [OF assms(1,2)] assms(3) by simp
qed (use bitset_union_eq [OF assms] in blast, use bitset_intersect_eq [OF assms] in blast,
  use bitset_xor_eq [OF assms] in blast, use bitset_complement_eq [OF assms(1)] in blast)

theorem bitset_algebra_witness:
  "bitset_size sample_bitset = Some 2 \<and>
   (\<exists>r. bitset_complement sample_bitset = Some (Ok, r) \<and> bitset_elems r = {1})"
proof -
  have "{..<bs_capacity sample_bitset} - bitset_elems sample_bitset = {1}"
    by (auto simp: sample_bitset_elems) (auto simp: sample_bitset_def)
  with bitset_algebra [OF sample_bitset_wf sample_bitset_wf refl] show ?thesis
    by (auto simp: sample_bitset_elems)
qed

text \<open>
  find_from returns the least index at or after the start whose bit has the wanted value, and
  not_found exactly when there is none below the capacity.
\<close>

theorem bitset_find_least:
  assumes "bitset_wf s"
  shows "(\<exists>j. bitset_find_from s i want = Some (Ok, Some j) \<and> i \<le> j \<and> j < bs_capacity s \<and>
      (j \<in> bitset_elems s) = want \<and> (\<forall>k. i \<le> k \<and> k < j \<longrightarrow> (k \<in> bitset_elems s) \<noteq> want)) \<or>
    bitset_find_from s i want = Some (Not_found, None) \<and>
      (\<forall>k. i \<le> k \<and> k < bs_capacity s \<longrightarrow> (k \<in> bitset_elems s) \<noteq> want)"
proof (cases "\<exists>k. i \<le> k \<and> k < bs_capacity s \<and> (k \<in> bitset_elems s) = want")
  case True
  define P where "P k \<longleftrightarrow> i \<le> k \<and> k < bs_capacity s \<and> (k \<in> bitset_elems s) = want" for k
  define j where "j = (LEAST k. P k)"
  have P: "P j" using True unfolding j_def P_def by (rule LeastI_ex)
  have min: "\<not> P k" if "k < j" for k using that unfolding j_def by (rule not_less_Least)
  have before: "(k \<in> bitset_elems s) \<noteq> want" if "i \<le> k" "k < j" for k
    using min [OF that(2)] that P by (auto simp: P_def)
  then have "find (\<lambda>j. (j \<in> bitset_elems s) = want) [i..<bs_capacity s] = Some j"
    using P by (intro find_upt_least) (auto simp: P_def)
  with bitset_find_from_eq [OF assms, of i want] P before show ?thesis by (auto simp: P_def)
next
  case False
  then have "find (\<lambda>j. (j \<in> bitset_elems s) = want) [i..<bs_capacity s] = None"
    by (auto simp: find_None_iff)
  with bitset_find_from_eq [OF assms, of i want] False show ?thesis by auto
qed

theorem bitset_find_least_witness: "bitset_find_from sample_bitset 1 True = Some (Ok, Some 2)"
proof -
  have cap: "bs_capacity sample_bitset = 3" by (simp add: sample_bitset_def)
  from bitset_find_least [OF sample_bitset_wf, of 1 True] show ?thesis
    by (auto simp: sample_bitset_elems cap dest: spec [of _ 2])
qed

end
