(* ===== verification/Sparse_Set.thy ===== *)
theory Sparse_Set
  imports Contracts
begin

text \<open>
  \<^verbatim>\<open>include/memkit/detail/sparse_set_core.hpp\<close>: a set of ids below \<open>max_id\<close> in two
  arrays. \<open>dense\<close> lists the members, \<open>sparse\<close> gives each member its place in \<open>dense\<close>. Neither array
  is ever initialised: the invariant says nothing about the cells the set does not use.
\<close>

section \<open>Model\<close>

record sparse_set =
  ss_dense :: "nat mem"
  ss_sparse :: "nat mem"
  ss_max_id :: nat
  ss_size :: nat

definition sparse_set_init :: "sparse_set \<Rightarrow> nat mem \<Rightarrow> nat mem \<Rightarrow> nat \<Rightarrow> status \<times> sparse_set" where
  "sparse_set_init s dense sparse max_id =
     (if dense = None \<or> sparse = None \<or> max_id = 0 then (Invalid, s)
      else (Ok, s\<lparr>ss_dense := dense, ss_sparse := sparse, ss_max_id := max_id, ss_size := 0\<rparr>))"

definition sparse_set_reset_state :: "sparse_set \<Rightarrow> sparse_set" where
  "sparse_set_reset_state s = s\<lparr>ss_dense := None, ss_sparse := None, ss_max_id := 0, ss_size := 0\<rparr>"

definition sparse_set_contains :: "sparse_set \<Rightarrow> nat \<Rightarrow> bool option" where
  "sparse_set_contains s x =
     (if x \<ge> ss_max_id s then Some False
      else do {
        pos \<leftarrow> mem_rd (ss_sparse s) x;
        if pos < ss_size s then do {
          d \<leftarrow> mem_rd (ss_dense s) pos;
          Some (d = x)
        } else Some False
      })"

definition sparse_set_insert :: "sparse_set \<Rightarrow> nat \<Rightarrow> (status \<times> sparse_set) option" where
  "sparse_set_insert s x =
     (if x \<ge> ss_max_id s then Some (Invalid, s)
      else do {
        present \<leftarrow> sparse_set_contains s x;
        if present then Some (Ok, s)
        else do {
          dense \<leftarrow> mem_wr (ss_dense s) (ss_size s) x;
          sparse \<leftarrow> mem_wr (ss_sparse s) x (ss_size s);
          Some (Ok, s\<lparr>ss_dense := dense, ss_sparse := sparse, ss_size := sz_add (ss_size s) 1\<rparr>)
        }
      })"

definition sparse_set_remove :: "sparse_set \<Rightarrow> nat \<Rightarrow> (status \<times> sparse_set) option" where
  "sparse_set_remove s x = do {
     present \<leftarrow> sparse_set_contains s x;
     if \<not> present then Some (Not_found, s)
     else do {
       pos \<leftarrow> mem_rd (ss_sparse s) x;
       last_id \<leftarrow> mem_rd (ss_dense s) (sz_sub (ss_size s) 1);
       dense \<leftarrow> mem_wr (ss_dense s) pos last_id;
       sparse1 \<leftarrow> mem_wr (ss_sparse s) last_id pos;
       sparse2 \<leftarrow> mem_wr sparse1 x 0;
       Some (Ok, s\<lparr>ss_dense := dense, ss_sparse := sparse2, ss_size := sz_sub (ss_size s) 1\<rparr>)
     }
   }"

definition sparse_set_at :: "sparse_set \<Rightarrow> nat \<Rightarrow> nat option" where
  "sparse_set_at s index = mem_rd (ss_dense s) index"

definition sparse_set_clear :: "sparse_set \<Rightarrow> sparse_set" where
  "sparse_set_clear s = s\<lparr>ss_size := 0\<rparr>"

section \<open>Invariant\<close>

definition sparse_set_wf :: "sparse_set \<Rightarrow> bool" where
  "sparse_set_wf s \<longleftrightarrow>
     (case (ss_dense s, ss_sparse s) of
        (Some ds, Some ps) \<Rightarrow>
          ss_max_id s \<le> length ds \<and> ss_max_id s \<le> length ps \<and> ss_max_id s \<le> SIZE_MAX \<and> ss_size s \<le> ss_max_id s \<and>
          (\<forall>k < ss_size s. ds ! k < ss_max_id s \<and> ps ! (ds ! k) = k)
      | _ \<Rightarrow> False)"

text \<open>The members, in the order in which \<open>at\<close> lists them.\<close>

definition sparse_set_list :: "sparse_set \<Rightarrow> nat list" where
  "sparse_set_list s = (case ss_dense s of None \<Rightarrow> [] | Some ds \<Rightarrow> take (ss_size s) ds)"

lemma sparse_set_wfE:
  assumes "sparse_set_wf s"
  obtains ds ps where "ss_dense s = Some ds" "ss_sparse s = Some ps" "ss_max_id s \<le> length ds" "ss_max_id s \<le> length ps"
    "ss_max_id s \<le> SIZE_MAX" "ss_size s \<le> ss_max_id s"
    "\<And>k. k < ss_size s \<Longrightarrow> ds ! k < ss_max_id s" "\<And>k. k < ss_size s \<Longrightarrow> ps ! (ds ! k) = k"
    "sparse_set_list s = take (ss_size s) ds"
  using assms by (auto simp: sparse_set_wf_def sparse_set_list_def split: option.splits)

lemma length_sparse_set_list [simp]: "sparse_set_wf s \<Longrightarrow> length (sparse_set_list s) = ss_size s"
  by (auto elim!: sparse_set_wfE)

lemma sparse_set_list_bound: "sparse_set_wf s \<Longrightarrow> set (sparse_set_list s) \<subseteq> {..<ss_max_id s}"
  by (auto elim!: sparse_set_wfE simp: in_set_conv_nth)

lemma sparse_set_list_distinct: "sparse_set_wf s \<Longrightarrow> distinct (sparse_set_list s)"
proof (rule distinct_conv_nth [THEN iffD2], intro allI impI)
  fix i j
  assume wf: "sparse_set_wf s" and ij: "i < length (sparse_set_list s)" "j < length (sparse_set_list s)" "i \<noteq> j"
  from wf obtain ds ps where d: "\<And>k. k < ss_size s \<Longrightarrow> ps ! (ds ! k) = k" "sparse_set_list s = take (ss_size s) ds"
    by (rule sparse_set_wfE) blast
  from ij wf have "i < ss_size s" "j < ss_size s" by simp_all
  with d(1) [of i] d(1) [of j] ij(3) d(2) show "sparse_set_list s ! i \<noteq> sparse_set_list s ! j" by auto
qed

text \<open>A set that misses an id below \<open>max_id\<close> has room for it.\<close>

lemma sparse_set_room:
  assumes wf: "sparse_set_wf s" and "x < ss_max_id s" "x \<notin> set (sparse_set_list s)"
  shows "ss_size s < ss_max_id s"
proof -
  have "set (sparse_set_list s) \<subset> {..<ss_max_id s}" using sparse_set_list_bound [OF wf] assms(2,3) by blast
  then have "card (set (sparse_set_list s)) < ss_max_id s" using psubset_card_mono [of "{..<ss_max_id s}"] by simp
  with wf show ?thesis using distinct_card [OF sparse_set_list_distinct [OF wf]] by simp
qed

section \<open>Operations\<close>

text \<open>Removing a list element by moving the last one into its place.\<close>

lemma set_remove_by_last:
  assumes "distinct xs" "k < length xs"
  shows "set (butlast (xs[k := last xs])) = set xs - {xs ! k}"
proof (cases xs rule: rev_cases)
  case (snoc ys y)
  show ?thesis
  proof (cases "k = length ys")
    case True
    then show ?thesis using snoc assms by auto
  next
    case False
    then have k: "k < length ys" using snoc assms(2) by simp
    then have "butlast (xs[k := last xs]) = ys[k := y]" using snoc by (simp add: list_update_append butlast_append)
    moreover have "set (ys[k := y]) = insert y (set ys - {ys ! k})" using assms(1) snoc k by (simp add: set_update_distinct)
    moreover have "y \<noteq> ys ! k" using assms(1) snoc k nth_mem by fastforce
    ultimately show ?thesis using snoc k assms(1) by (auto simp: nth_append)
  qed
qed (use assms in simp)

lemma sparse_set_contains_eq:
  assumes wf: "sparse_set_wf s"
  shows "sparse_set_contains s x = Some (x \<in> set (sparse_set_list s))"
proof -
  from wf obtain ds ps where d: "ss_dense s = Some ds" "ss_sparse s = Some ps" "ss_max_id s \<le> length ds"
    "ss_max_id s \<le> length ps" "ss_size s \<le> ss_max_id s" "\<And>k. k < ss_size s \<Longrightarrow> ds ! k < ss_max_id s"
    "\<And>k. k < ss_size s \<Longrightarrow> ps ! (ds ! k) = k" "sparse_set_list s = take (ss_size s) ds" by (rule sparse_set_wfE) blast
  have mem: "x \<in> set (sparse_set_list s) \<longleftrightarrow> (\<exists>k < ss_size s. ds ! k = x)"
    using d(3,5,8) by (auto simp: in_set_conv_nth)
  show ?thesis
    unfolding mem using d(1-5) d(7) by (auto simp: sparse_set_contains_def dest: d(6))
qed

lemma sparse_set_insert_eq:
  assumes wf: "sparse_set_wf s" and x: "x < ss_max_id s"
  shows "\<exists>s'. sparse_set_insert s x = Some (Ok, s') \<and> sparse_set_wf s' \<and> ss_max_id s' = ss_max_id s \<and>
    sparse_set_list s' = (if x \<in> set (sparse_set_list s) then sparse_set_list s else sparse_set_list s @ [x])"
proof (cases "x \<in> set (sparse_set_list s)")
  case True
  then show ?thesis using wf x sparse_set_contains_eq [OF wf] by (simp add: sparse_set_insert_def)
next
  case False
  from wf obtain ds ps where d: "ss_dense s = Some ds" "ss_sparse s = Some ps" "ss_max_id s \<le> length ds"
    "ss_max_id s \<le> length ps" "ss_max_id s \<le> SIZE_MAX" "\<And>k. k < ss_size s \<Longrightarrow> ds ! k < ss_max_id s"
    "\<And>k. k < ss_size s \<Longrightarrow> ps ! (ds ! k) = k" "sparse_set_list s = take (ss_size s) ds" by (rule sparse_set_wfE) blast
  note room = sparse_set_room [OF wf x False]
  let ?s = "s\<lparr>ss_dense := Some (ds[ss_size s := x]), ss_sparse := Some (ps[x := ss_size s]), ss_size := Suc (ss_size s)\<rparr>"
  have ne: "ds ! k \<noteq> x" if "k < ss_size s" for k
    using that False d(3,8) room by (auto simp: in_set_conv_nth)
  have "sparse_set_wf ?s"
    using d(3-7) x room ne by (auto simp: sparse_set_wf_def nth_list_update less_Suc_eq)
  moreover have "sparse_set_insert s x = Some (Ok, ?s)"
    using d(1-5) x room False sparse_set_contains_eq [OF wf, of x] by (simp add: sparse_set_insert_def sz_add_eq)
  moreover have "sparse_set_list ?s = sparse_set_list s @ [x]"
    using d(3,8) room by (simp add: sparse_set_list_def take_Suc_conv_app_nth)
  ultimately show ?thesis using False by simp
qed

text \<open>The last member takes the removed member's place.\<close>

lemma sparse_set_remove_eq:
  assumes wf: "sparse_set_wf s" and mem: "x \<in> set (sparse_set_list s)"
  shows "\<exists>s' k. sparse_set_remove s x = Some (Ok, s') \<and> sparse_set_wf s' \<and> ss_max_id s' = ss_max_id s \<and>
    k < ss_size s \<and> sparse_set_list s ! k = x \<and>
    sparse_set_list s' = butlast ((sparse_set_list s)[k := last (sparse_set_list s)])"
proof -
  from wf obtain ds ps where d: "ss_dense s = Some ds" "ss_sparse s = Some ps" "ss_max_id s \<le> length ds"
    "ss_max_id s \<le> length ps" "ss_max_id s \<le> SIZE_MAX" "ss_size s \<le> ss_max_id s"
    "\<And>k. k < ss_size s \<Longrightarrow> ds ! k < ss_max_id s" "\<And>k. k < ss_size s \<Longrightarrow> ps ! (ds ! k) = k"
    "sparse_set_list s = take (ss_size s) ds" by (rule sparse_set_wfE) blast
  from mem d(3,6,9) obtain k where k: "k < ss_size s" "ds ! k = x" by (auto simp: in_set_conv_nth)
  obtain n where n: "ss_size s = Suc n" using k(1) by (cases "ss_size s") auto
  have pos: "ps ! x = k" "x < ss_max_id s" using d(7,8) [of k] k by auto
  have inj: "i = j" if "i < ss_size s" "j < ss_size s" "ds ! i = ds ! j" for i j
    using d(8) [OF that(1)] d(8) [OF that(2)] unfolding that(3) by (rule trans [OF sym])
  let ?l = "ds ! n"
  let ?s = "s\<lparr>ss_dense := Some (ds[k := ?l]), ss_sparse := Some (ps[?l := k, x := 0]), ss_size := n\<rparr>"
  have l: "?l < ss_max_id s" using d(7) [of n] n by simp
  have "sz_sub (ss_size s) 1 = n" using d(5,6) n by (simp add: sz_sub_eq)
  then have "sparse_set_remove s x = Some (Ok, ?s)"
    using d(1-6) k pos l n mem sparse_set_contains_eq [OF wf, of x] by (simp add: sparse_set_remove_def)
  moreover have "ds[k := ?l] ! j < ss_max_id s \<and> ps[?l := k, x := 0] ! (ds[k := ?l] ! j) = j" if j: "j < n" for j
  proof (cases "j = k")
    case True
    then have "x \<noteq> ?l" using inj [of k n] j k n by auto
    with True k l d(3,4,6) n show ?thesis by simp
  next
    case False
    then have "ds ! j \<noteq> x" "ds ! j \<noteq> ?l" using inj [of j k] inj [of j n] j k n by auto
    with False j n d(7) [of j] d(8) [of j] show ?thesis by simp
  qed
  then have "sparse_set_wf ?s" using d(3-6) n by (simp add: sparse_set_wf_def)
  moreover have "last (sparse_set_list s) = ?l" using d(3,6,9) n by (simp add: take_Suc_conv_app_nth)
  then have "sparse_set_list ?s = butlast ((sparse_set_list s)[k := last (sparse_set_list s)])"
    using d(3,6,9) n k by (simp add: sparse_set_list_def butlast_list_update take_update_swap butlast_take list_update_beyond)
  moreover have "sparse_set_list s ! k = x" using d(9) k by simp
  ultimately show ?thesis using k(1) by (intro exI [of _ ?s] exI [of _ k]) simp
qed

interpretation sparse: id_set sparse_set_wf "\<lambda>s. set (sparse_set_list s)" ss_max_id
  sparse_set_insert sparse_set_remove sparse_set_contains
proof unfold_locales
  fix s i
  assume wf: "sparse_set_wf s"
  show "\<exists>s'. sparse_set_insert s i = Some (Ok, s') \<and> sparse_set_wf s' \<and>
      set (sparse_set_list s') = insert i (set (sparse_set_list s)) \<and> ss_max_id s' = ss_max_id s"
    if "i < ss_max_id s"
    using sparse_set_insert_eq [OF wf that] by auto
  show "sparse_set_insert s i = Some (Invalid, s)" if "ss_max_id s \<le> i"
    using that by (simp add: sparse_set_insert_def)
  show "\<exists>st s'. sparse_set_remove s i = Some (st, s') \<and> sparse_set_wf s' \<and>
      set (sparse_set_list s') = set (sparse_set_list s) - {i} \<and> ss_max_id s' = ss_max_id s"
  proof (cases "i \<in> set (sparse_set_list s)")
    case True
    from sparse_set_remove_eq [OF wf True] obtain s' k where s': "sparse_set_remove s i = Some (Ok, s')" "sparse_set_wf s'"
      "ss_max_id s' = ss_max_id s" "k < ss_size s" "sparse_set_list s ! k = i"
      "sparse_set_list s' = butlast ((sparse_set_list s)[k := last (sparse_set_list s)])" by blast
    have "set (sparse_set_list s') = set (sparse_set_list s) - {sparse_set_list s ! k}"
      unfolding s'(6) using s'(4) wf by (intro set_remove_by_last sparse_set_list_distinct) simp_all
    with s' show ?thesis by blast
  next
    case False
    then show ?thesis using wf sparse_set_contains_eq [OF wf, of i] by (simp add: sparse_set_remove_def)
  qed
  show "sparse_set_contains s i = Some (i \<in> set (sparse_set_list s))" using wf by (rule sparse_set_contains_eq)
  show "set (sparse_set_list s) \<subseteq> {..<ss_max_id s}" using wf by (rule sparse_set_list_bound)
qed

section \<open>Guarantees\<close>

definition sample_sparse_set :: sparse_set where
  "sample_sparse_set = \<lparr>ss_dense = Some [2, 0, 7, 9], ss_sparse = Some [2 - 1, 5, 0, 6], ss_max_id = 4, ss_size = 2\<rparr>"

lemma sample_sparse_set_wf: "sparse_set_wf sample_sparse_set"
  by (auto simp: sparse_set_wf_def sample_sparse_set_def SIZE_MAX_def less_Suc_eq numeral_2_eq_2)

lemma sample_sparse_set_list: "sparse_set_list sample_sparse_set = [2, 0]"
  by (simp add: sparse_set_list_def sample_sparse_set_def)

text \<open>
  C17. Whatever the two arrays held before init, every sequence of insert, remove and contains on a
  sparse set behaves as on a set of ids below max_id, and no access leaves the arrays.
\<close>

theorem sparse_set_is_id_set:
  assumes "0 < max_id" "max_id \<le> SIZE_MAX" "max_id \<le> length ds" "max_id \<le> length ps"
    "sparse_set_init s0 (Some ds) (Some ps) max_id = (st, s)"
  shows "st = Ok \<and> (\<exists>s'. set_run sparse_set_insert sparse_set_remove sparse_set_contains s cs =
      Some (fst (set_spec max_id {} cs), s') \<and>
    sparse_set_wf s' \<and> set (sparse_set_list s') = snd (set_spec max_id {} cs))"
proof -
  have s: "st = Ok" "ss_max_id s = max_id" "sparse_set_wf s" "sparse_set_list s = []"
    using assms by (auto simp: sparse_set_init_def sparse_set_wf_def sparse_set_list_def)
  with sparse.run_refines [OF s(3), of cs] show ?thesis by simp
qed

theorem sparse_set_is_id_set_witness:
  "\<exists>s'. set_run sparse_set_insert sparse_set_remove sparse_set_contains
      (snd (sparse_set_init sample_sparse_set (Some [9, 9, 9]) (Some [0, 0, 0]) 3)) [Add 2, Add 5, Add 0, Del 2, Has 2, Has 0] =
    Some ([False, True], s') \<and> set (sparse_set_list s') = {0}"
proof -
  have spec: "set_spec 3 {} [Add 2, Add 5, Add 0, Del 2, Has 2, Has 0] = ([False, True], {0})" by auto
  have "\<exists>s'. set_run sparse_set_insert sparse_set_remove sparse_set_contains
      (snd (sparse_set_init sample_sparse_set (Some [9, 9, 9]) (Some [0, 0, 0]) 3)) [Add 2, Add 5, Add 0, Del 2, Has 2, Has 0] =
      Some (fst (set_spec 3 {} [Add 2, Add 5, Add 0, Del 2, Has 2, Has 0]), s') \<and> sparse_set_wf s' \<and>
      set (sparse_set_list s') = snd (set_spec 3 {} [Add 2, Add 5, Add 0, Del 2, Has 2, Has 0])"
    by (rule conjunct2, rule sparse_set_is_id_set [OF _ _ _ _ prod.collapse [symmetric]]) (simp_all add: SIZE_MAX_def)
  then show ?thesis unfolding spec fst_conv snd_conv by blast
qed

text \<open>
  at enumerates the members, each at exactly one index below size; insert puts a new id at the
  end; remove moves the last member into the removed one's place and reports not_found for an id
  that is not a member.
\<close>

theorem sparse_set_enumerates:
  assumes "sparse_set_wf s"
  shows "distinct (sparse_set_list s) \<and> length (sparse_set_list s) = ss_size s \<and>
    (\<forall>k < ss_size s. sparse_set_at s k = Some (sparse_set_list s ! k)) \<and>
    (x < ss_max_id s \<longrightarrow> x \<notin> set (sparse_set_list s) \<longrightarrow>
      (\<exists>s'. sparse_set_insert s x = Some (Ok, s') \<and> sparse_set_list s' = sparse_set_list s @ [x])) \<and>
    (\<forall>k < ss_size s. \<exists>s'. sparse_set_remove s (sparse_set_list s ! k) = Some (Ok, s') \<and>
      sparse_set_list s' = butlast ((sparse_set_list s)[k := last (sparse_set_list s)])) \<and>
    (y \<notin> set (sparse_set_list s) \<longrightarrow> sparse_set_remove s y = Some (Not_found, s))"
proof (intro conjI impI allI)
  note len = length_sparse_set_list [OF assms]
  note dist = sparse_set_list_distinct [OF assms]
  show "distinct (sparse_set_list s)" by (rule dist)
  show "length (sparse_set_list s) = ss_size s" by (rule len)
  show "sparse_set_at s k = Some (sparse_set_list s ! k)" if "k < ss_size s" for k
    using assms that by (auto simp: sparse_set_at_def elim!: sparse_set_wfE)
  show "\<exists>s'. sparse_set_insert s x = Some (Ok, s') \<and> sparse_set_list s' = sparse_set_list s @ [x]"
    if "x < ss_max_id s" "x \<notin> set (sparse_set_list s)"
    using sparse_set_insert_eq [OF assms that(1)] that(2) by auto
  show "sparse_set_remove s y = Some (Not_found, s)" if "y \<notin> set (sparse_set_list s)"
    using that sparse_set_contains_eq [OF assms, of y] by (simp add: sparse_set_remove_def)
  show "\<exists>s'. sparse_set_remove s (sparse_set_list s ! k) = Some (Ok, s') \<and>
      sparse_set_list s' = butlast ((sparse_set_list s)[k := last (sparse_set_list s)])" if k: "k < ss_size s" for k
  proof -
    have "sparse_set_list s ! k \<in> set (sparse_set_list s)" using k len by simp
    from sparse_set_remove_eq [OF assms this] obtain s' j where
      s': "sparse_set_remove s (sparse_set_list s ! k) = Some (Ok, s')" "j < ss_size s"
      "sparse_set_list s ! j = sparse_set_list s ! k"
      "sparse_set_list s' = butlast ((sparse_set_list s)[j := last (sparse_set_list s)])" by blast
    moreover have "j = k" using s'(2,3) k len dist by (simp add: nth_eq_iff_index_eq)
    ultimately show ?thesis by blast
  qed
qed

theorem sparse_set_enumerates_witness:
  "\<exists>s'. sparse_set_remove sample_sparse_set 2 = Some (Ok, s') \<and> sparse_set_list s' = [0]"
proof -
  have "0 < ss_size sample_sparse_set" by (simp add: sample_sparse_set_def)
  with sparse_set_enumerates [OF sample_sparse_set_wf, of 0 0]
  have "\<exists>s'. sparse_set_remove sample_sparse_set (sparse_set_list sample_sparse_set ! 0) = Some (Ok, s') \<and>
      sparse_set_list s' = butlast ((sparse_set_list sample_sparse_set)[0 := last (sparse_set_list sample_sparse_set)])"
    by blast
  then show ?thesis by (simp add: sample_sparse_set_list)
qed

end
