(* ===== verification/Obj_Pool.thy ===== *)
theory Obj_Pool
  imports Contracts Policy Bits
begin

text \<open>
  \<^verbatim>\<open>include/memkit/detail/objpool_core.hpp\<close>: a pool of equal slots with a stack of free
  indices and one bit per slot that is in use.

  An element pointer is its address (0 is the null pointer); \<open>op_base\<close> is the address of
  \<open>storage_\<close>, \<open>op_cells\<close> the content of its slots.
\<close>

section \<open>Model\<close>

record 'e objpool =
  op_policy :: "'e elem_policy"
  op_base :: nat
  op_cells :: "'e list"
  op_free :: "u32 mem"
  op_bits :: "u8 mem"
  op_capacity :: nat
  op_used_count :: nat
  op_free_count :: nat
  op_kind :: u8
  op_destroyed :: "'e list"

definition used_bits_bytes :: "nat \<Rightarrow> nat" where
  "used_bits_bytes capacity = sz_add capacity 7 div 8"

definition objpool_set_storage_kind :: "'e objpool \<Rightarrow> u8 \<Rightarrow> 'e objpool" where
  "objpool_set_storage_kind s kind = s\<lparr>op_kind := kind\<rparr>"

definition objpool_full :: "'e objpool \<Rightarrow> bool" where
  "objpool_full s \<longleftrightarrow> op_free_count s = 0"

definition objpool_elem_at :: "'e objpool \<Rightarrow> nat \<Rightarrow> nat" where
  "objpool_elem_at s index = sz_add (op_base s) (sz_mul index (ep_size (op_policy s)))"

definition objpool_bit_test :: "'e objpool \<Rightarrow> nat \<Rightarrow> bool option" where
  "objpool_bit_test s index = do {
     v \<leftarrow> mem_rd (op_bits s) (index div 8);
     Some (v AND byte_mask index \<noteq> 0)
   }"

definition objpool_bit_set :: "'e objpool \<Rightarrow> nat \<Rightarrow> 'e objpool option" where
  "objpool_bit_set s index = do {
     v \<leftarrow> mem_rd (op_bits s) (index div 8);
     m \<leftarrow> mem_wr (op_bits s) (index div 8) (v OR byte_mask index);
     Some (s\<lparr>op_bits := m\<rparr>)
   }"

definition objpool_bit_clear :: "'e objpool \<Rightarrow> nat \<Rightarrow> 'e objpool option" where
  "objpool_bit_clear s index = do {
     v \<leftarrow> mem_rd (op_bits s) (index div 8);
     m \<leftarrow> mem_wr (op_bits s) (index div 8) (v AND NOT (byte_mask index));
     Some (s\<lparr>op_bits := m\<rparr>)
   }"

text \<open>The loop of \<open>reset_free_list\<close>: index \<open>capacity - 1 - i\<close> goes to place \<open>i\<close>, truncated to 32 bits.\<close>

fun objpool_fill_free :: "u32 mem \<Rightarrow> nat \<Rightarrow> nat \<Rightarrow> nat \<Rightarrow> u32 mem option" where
  "objpool_fill_free m capacity i 0 = Some m"
| "objpool_fill_free m capacity i (Suc n) = do {
     m' \<leftarrow> mem_wr m i (of_nat (sz_sub (sz_sub capacity 1) i));
     objpool_fill_free m' capacity (Suc i) n
   }"

definition objpool_reset_free_list :: "'e objpool \<Rightarrow> (status \<times> 'e objpool) option" where
  "objpool_reset_free_list s =
     (if op_base s = 0 \<or> op_free s = None \<or> op_bits s = None then Some (Invalid, s)
      else do {
        bits \<leftarrow> (case op_bits s of
                   None \<Rightarrow> None
                 | Some xs \<Rightarrow>
                     let n = used_bits_bytes (op_capacity s) in
                     if n \<le> length xs then Some (Some (replicate n 0 @ drop n xs)) else None);
        free \<leftarrow> objpool_fill_free (op_free s) (op_capacity s) 0 (op_capacity s);
        Some (Ok, s\<lparr>op_bits := bits, op_used_count := 0, op_free_count := op_capacity s, op_free := free\<rparr>)
      })"

definition objpool_init ::
  "'e objpool \<Rightarrow> 'e elem_policy \<Rightarrow> nat \<Rightarrow> 'e list \<Rightarrow> u32 mem \<Rightarrow> u8 mem \<Rightarrow> nat \<Rightarrow> (status \<times> 'e objpool) option" where
  "objpool_init s policy storage cells free_stack used_bits capacity =
     (if storage = 0 \<or> free_stack = None \<or> used_bits = None \<or> capacity = 0 then Some (Invalid, s)
      else objpool_reset_free_list (s\<lparr>op_policy := policy, op_base := storage, op_cells := cells,
             op_free := free_stack, op_bits := used_bits, op_capacity := capacity, op_kind := 0\<rparr>))"

definition objpool_destroy_at :: "'e objpool \<Rightarrow> nat \<Rightarrow> 'e objpool option" where
  "objpool_destroy_at s i =
     (if i < length (op_cells s)
      then Some (s\<lparr>op_destroyed := destroy (op_policy s) (op_cells s ! i) (op_destroyed s)\<rparr>)
      else None)"

fun objpool_clear_loop :: "'e objpool \<Rightarrow> nat \<Rightarrow> nat \<Rightarrow> 'e objpool option" where
  "objpool_clear_loop s i 0 = Some s"
| "objpool_clear_loop s i (Suc n) = do {
     b \<leftarrow> objpool_bit_test s i;
     s' \<leftarrow> (if b then objpool_destroy_at s i else Some s);
     objpool_clear_loop s' (Suc i) n
   }"

definition objpool_clear :: "'e objpool \<Rightarrow> 'e objpool option" where
  "objpool_clear s =
     (if op_used_count s = 0 then Some s
      else do {
        s1 \<leftarrow> (if needs_destroy_on_clear (op_policy s) then objpool_clear_loop s 0 (op_capacity s) else Some s);
        (_, s2) \<leftarrow> objpool_reset_free_list s1;
        Some s2
      })"

text \<open>\<open>out\<close> is the pointer \<open>out_elem\<close> refers to, \<open>None\<close> when \<open>out_elem\<close> is null.\<close>

definition objpool_alloc :: "'e objpool \<Rightarrow> nat option \<Rightarrow> (status \<times> nat option \<times> 'e objpool) option" where
  "objpool_alloc s out =
     (if out = None then Some (Null_ptr, out, s)
      else if op_free_count s = 0 then Some (Full, out, s)
      else
        let fc = sz_sub (op_free_count s) 1; s1 = s\<lparr>op_free_count := fc\<rparr> in do {
          w \<leftarrow> mem_rd (op_free s) fc;
          let index = unat w;
          if index \<ge> op_capacity s then Some (Invalid, out, s1\<lparr>op_free_count := sz_add fc 1\<rparr>)
          else do {
            s2 \<leftarrow> objpool_bit_set s1 index;
            Some (Ok, Some (objpool_elem_at s index), s2\<lparr>op_used_count := sz_add (op_used_count s) 1\<rparr>)
          }
        })"

definition objpool_index :: "'e objpool \<Rightarrow> nat \<Rightarrow> (status \<times> nat option) option" where
  "objpool_index s elem =
     (if elem = 0 \<or> op_base s = 0 then Some (Null_ptr, None)
      else if elem < op_base s then Some (Not_found, None)
      else
        let offset = elem - op_base s in do {
          r \<leftarrow> sz_mod offset (ep_size (op_policy s));
          if r \<noteq> 0 then Some (Not_found, None)
          else
            let idx = offset div ep_size (op_policy s) in
            if idx \<ge> op_capacity s then Some (Not_found, None) else Some (Ok, Some idx)
        })"

definition objpool_contains :: "'e objpool \<Rightarrow> nat \<Rightarrow> bool option" where
  "objpool_contains s elem = do {
     (st, idx) \<leftarrow> objpool_index s elem;
     if st \<noteq> Ok then Some False else objpool_bit_test s (the idx)
   }"

definition objpool_free :: "'e objpool \<Rightarrow> nat \<Rightarrow> (status \<times> 'e objpool) option" where
  "objpool_free s elem =
     (if elem = 0 then Some (Null_ptr, s)
      else do {
        (st, i) \<leftarrow> objpool_index s elem;
        if st \<noteq> Ok then Some (st, s)
        else
          let idx = the i in do {
            b \<leftarrow> objpool_bit_test s idx;
            if \<not> b then Some (Not_found, s)
            else do {
              s1 \<leftarrow> (if needs_destroy_on_clear (op_policy s) then objpool_destroy_at s idx else Some s);
              s2 \<leftarrow> objpool_bit_clear s1 idx;
              free \<leftarrow> mem_wr (op_free s2) (op_free_count s2) (of_nat idx);
              Some (Ok, s2\<lparr>op_free := free, op_free_count := sz_add (op_free_count s2) 1,
                          op_used_count := sz_sub (op_used_count s2) 1\<rparr>)
            }
          }
      })"

text \<open>
  \<open>alloc_copy\<close>; \<open>out\<close> is the content of \<open>*out_elem\<close>, which is written without a null check: \<open>None\<close>
  (a null \<open>out_elem\<close>) is undefined once the allocation succeeded.
\<close>

definition objpool_alloc_copy :: "'e objpool \<Rightarrow> 'e \<Rightarrow> nat option \<Rightarrow> (status \<times> nat option \<times> 'e objpool) option" where
  "objpool_alloc_copy s src out = do {
     (st, e, s1) \<leftarrow> objpool_alloc s (Some 0);
     if st \<noteq> Ok then Some (st, out, s1)
     else
       let elem = the e in do {
         (_, i) \<leftarrow> objpool_index s1 elem;
         old \<leftarrow> mem_rd (Some (op_cells s1)) (the i);
         let (cst, v) = copy_construct (op_policy s1) old src;
         let s2 = s1\<lparr>op_cells := (op_cells s1)[the i := v]\<rparr>;
         if ep_runtime (op_policy s1) \<and> cst \<noteq> Ok then do {
           (_, s3) \<leftarrow> objpool_free s2 elem;
           Some (cst, out, s3)
         }
         else if out = None then None
         else Some (Ok, Some elem, s2)
       }
   }"

fun objpool_for_each_loop ::
  "(nat \<Rightarrow> nat \<Rightarrow> 'w \<Rightarrow> status \<times> 'w) \<Rightarrow> 'e objpool \<Rightarrow> nat \<Rightarrow> nat \<Rightarrow> nat \<Rightarrow> 'w \<Rightarrow> (status \<times> 'w) option" where
  "objpool_for_each_loop visit s i 0 visit_index w = Some (Ok, w)"
| "objpool_for_each_loop visit s i (Suc n) visit_index w = do {
     b \<leftarrow> objpool_bit_test s i;
     if \<not> b then objpool_for_each_loop visit s (Suc i) n visit_index w
     else do {
       let (st, w') = visit (objpool_elem_at s i) visit_index w;
       if st \<noteq> Ok then Some (st, w') else objpool_for_each_loop visit s (Suc i) n (sz_add visit_index 1) w'
     }
   }"

definition objpool_for_each ::
  "(nat \<Rightarrow> nat \<Rightarrow> 'w \<Rightarrow> status \<times> 'w) \<Rightarrow> 'e objpool \<Rightarrow> 'w \<Rightarrow> (status \<times> 'w) option" where
  "objpool_for_each visit s w =
     (if op_base s = 0 then Some (Null_ptr, w) else objpool_for_each_loop visit s 0 (op_capacity s) 0 w)"

definition objpool_reset_state :: "'e elem_policy \<Rightarrow> 'e objpool \<Rightarrow> 'e objpool" where
  "objpool_reset_state default_policy s =
     s\<lparr>op_policy := default_policy, op_base := 0, op_cells := [], op_free := None, op_bits := None, op_capacity := 0,
       op_used_count := 0, op_free_count := 0, op_kind := 0\<rparr>"

end
