(* ===== verification/Obj_Pool_Correct.thy ===== *)
theory Obj_Pool_Correct
  imports Obj_Pool
begin

text \<open>
  Correctness of the object pool: the bits and the free stack partition the slots, so a pointer is
  handed out only while its slot is unused, and only pointers in use can be freed.
\<close>

section \<open>Invariant\<close>

definition objpool_live :: "'e objpool \<Rightarrow> nat set" where
  "objpool_live s = (case op_bits s of None \<Rightarrow> {} | Some xs \<Rightarrow> {i. i < op_capacity s \<and> bit_of xs i})"

definition objpool_free_list :: "'e objpool \<Rightarrow> nat list" where
  "objpool_free_list s = (case op_free s of None \<Rightarrow> [] | Some fs \<Rightarrow> map unat (take (op_free_count s) fs))"

text \<open>Everything but the two sets: the arrays are as large as the capacity needs.\<close>

definition objpool_shape :: "'e objpool \<Rightarrow> bool" where
  "objpool_shape s \<longleftrightarrow>
     (case (op_free s, op_bits s) of
        (Some fs, Some xs) \<Rightarrow>
          op_capacity s \<le> length fs \<and> (op_capacity s + 7) div 8 \<le> length xs \<and> op_capacity s \<le> length (op_cells s) \<and>
          0 < op_capacity s \<and> op_capacity s \<le> 2 ^ 32 \<and> 0 < op_base s \<and> 0 < ep_size (op_policy s) \<and>
          op_base s + op_capacity s * ep_size (op_policy s) \<le> SIZE_MAX
      | _ \<Rightarrow> False)"

definition objpool_wf :: "'e objpool \<Rightarrow> bool" where
  "objpool_wf s \<longleftrightarrow> objpool_shape s \<and> op_free_count s \<le> op_capacity s \<and> op_used_count s = card (objpool_live s) \<and>
     distinct (objpool_free_list s) \<and> set (objpool_free_list s) = {..<op_capacity s} - objpool_live s"

definition objpool_ref :: "'e objpool \<Rightarrow> nat \<Rightarrow> nat" where
  "objpool_ref s i = op_base s + i * ep_size (op_policy s)"

definition objpool_refs :: "'e objpool \<Rightarrow> nat set" where
  "objpool_refs s = objpool_ref s ` objpool_live s"

lemma objpool_shapeE:
  assumes "objpool_shape s"
  obtains fs xs where "op_free s = Some fs" "op_bits s = Some xs" "op_capacity s \<le> length fs"
    "(op_capacity s + 7) div 8 \<le> length xs" "op_capacity s \<le> length (op_cells s)" "0 < op_capacity s"
    "op_capacity s \<le> 2 ^ 32" "0 < op_base s" "0 < ep_size (op_policy s)"
    "op_base s + op_capacity s * ep_size (op_policy s) \<le> SIZE_MAX"
    "objpool_live s = {i. i < op_capacity s \<and> bit_of xs i}"
    "objpool_free_list s = map unat (take (op_free_count s) fs)"
  using assms by (auto simp: objpool_shape_def objpool_live_def objpool_free_list_def split: option.splits)

lemma objpool_shapeD:
  assumes "objpool_shape s"
  shows "0 < op_capacity s" "op_capacity s \<le> 2 ^ 32" "0 < op_base s" "0 < ep_size (op_policy s)"
    "op_base s + op_capacity s * ep_size (op_policy s) \<le> SIZE_MAX" "op_capacity s \<le> length (op_cells s)"
  by (rule objpool_shapeE [OF assms], assumption)+

lemma objpool_wf_shape: "objpool_wf s \<Longrightarrow> objpool_shape s"
  by (simp add: objpool_wf_def)

lemma objpool_live_bound: "objpool_live s \<subseteq> {..<op_capacity s}"
  by (auto simp: objpool_live_def split: option.splits)

lemma finite_objpool_live [simp]: "finite (objpool_live s)"
  using objpool_live_bound finite_subset by blast

lemma objpool_counts:
  assumes "objpool_wf s"
  shows "op_free_count s + op_used_count s = op_capacity s"
proof -
  have "length (objpool_free_list s) = op_free_count s"
  proof (rule objpool_shapeE [OF objpool_wf_shape [OF assms]])
    fix fs
    assume "op_capacity s \<le> length fs" "objpool_free_list s = map unat (take (op_free_count s) fs)"
    then show ?thesis using assms by (simp add: objpool_wf_def)
  qed
  moreover have "length (objpool_free_list s) = card ({..<op_capacity s} - objpool_live s)"
    using assms distinct_card [of "objpool_free_list s"] by (simp add: objpool_wf_def)
  moreover have "card ({..<op_capacity s} - objpool_live s) = op_capacity s - card (objpool_live s)"
    using objpool_live_bound [of s] by (simp add: card_Diff_subset)
  moreover have "card (objpool_live s) \<le> op_capacity s"
    using card_mono [OF _ objpool_live_bound, of s] by simp
  ultimately show ?thesis using assms by (simp add: objpool_wf_def)
qed

lemma inj_objpool_ref: "objpool_shape s \<Longrightarrow> inj (objpool_ref s)"
  using objpool_shapeD(4) [of s] by (simp add: inj_on_def objpool_ref_def)

lemma card_objpool_refs: "objpool_shape s \<Longrightarrow> card (objpool_refs s) = card (objpool_live s)"
  by (simp add: objpool_refs_def card_image inj_on_subset [OF inj_objpool_ref])

lemma objpool_elem_at_eq:
  assumes "objpool_shape s" "i < op_capacity s"
  shows "objpool_elem_at s i = objpool_ref s i"
proof -
  have "op_base s + op_capacity s * ep_size (op_policy s) \<le> SIZE_MAX" using assms(1) by (rule objpool_shapeD)
  moreover have "i * ep_size (op_policy s) \<le> op_capacity s * ep_size (op_policy s)" using assms(2) by simp
  ultimately have "op_base s + i * ep_size (op_policy s) \<le> SIZE_MAX" by linarith
  then show ?thesis by (simp add: objpool_elem_at_def objpool_ref_def sz_mul_eq sz_add_eq)
qed

section \<open>Pointers and indices\<close>

lemma objpool_index_ref:
  assumes "objpool_shape s" "i < op_capacity s"
  shows "objpool_index s (objpool_ref s i) = Some (Ok, Some i)"
  using objpool_shapeD [OF assms(1)] assms(2) by (simp add: objpool_index_def objpool_ref_def Let_def)

lemma objpool_index_cases:
  assumes "objpool_shape s"
  obtains (slot) i where "i < op_capacity s" "elem = objpool_ref s i" "objpool_index s elem = Some (Ok, Some i)"
  | (other) st where "objpool_index s elem = Some (st, None)" "st \<noteq> Ok" "elem \<notin> objpool_ref s ` {..<op_capacity s}"
proof (cases "elem \<in> objpool_ref s ` {..<op_capacity s}")
  case True
  then obtain i where "i < op_capacity s" "elem = objpool_ref s i" by auto
  with objpool_index_ref [OF assms] slot show ?thesis by simp
next
  case False
  have pos: "0 < op_base s" "0 < ep_size (op_policy s)" using assms by (rule objpool_shapeD)+
  let ?q = "(elem - op_base s) div ep_size (op_policy s)"
  have "\<not> ?q < op_capacity s" if "op_base s \<le> elem" "(elem - op_base s) mod ep_size (op_policy s) = 0"
  proof
    assume q: "?q < op_capacity s"
    have "?q * ep_size (op_policy s) = elem - op_base s" using that(2) by auto
    then have "elem = objpool_ref s ?q" using that(1) by (simp add: objpool_ref_def)
    with q False show False by blast
  qed
  with pos have "\<exists>st. objpool_index s elem = Some (st, None) \<and> st \<noteq> Ok"
    by (cases "op_base s \<le> elem") (auto simp: objpool_index_def Let_def not_le)
  with False other show ?thesis by blast
qed

lemma objpool_bit_ok:
  assumes "objpool_shape s" "op_bits s = Some xs" "i < op_capacity s"
  shows "i div 8 < length xs"
proof (rule objpool_shapeE [OF assms(1)])
  fix ys
  assume "op_bits s = Some ys" "(op_capacity s + 7) div 8 \<le> length ys"
  then show ?thesis using assms(2) bytes_index [OF assms(3)] by simp
qed

lemma objpool_bit_test_eq:
  assumes "objpool_shape s" "i < op_capacity s"
  shows "objpool_bit_test s i = Some (i \<in> objpool_live s)"
proof -
  from assms(1) obtain xs where "op_bits s = Some xs" "objpool_live s = {i. i < op_capacity s \<and> bit_of xs i}"
    by (rule objpool_shapeE) blast
  then show ?thesis
    using assms objpool_bit_ok [OF assms(1) _ assms(2)] by (simp add: objpool_bit_test_def and_byte_mask bit_of_def)
qed

lemma objpool_contains_eq:
  assumes wf: "objpool_shape s"
  shows "objpool_contains s elem = Some (elem \<in> objpool_refs s)"
proof (rule objpool_index_cases [OF wf, of elem])
  fix i
  assume i: "i < op_capacity s" "elem = objpool_ref s i" "objpool_index s elem = Some (Ok, Some i)"
  then show ?thesis
    using objpool_bit_test_eq [OF wf i(1)] inj_objpool_ref [OF wf]
    by (simp add: objpool_contains_def objpool_refs_def inj_image_mem_iff)
next
  fix st
  assume "objpool_index s elem = Some (st, None)" "st \<noteq> Ok" "elem \<notin> objpool_ref s ` {..<op_capacity s}"
  then show ?thesis using objpool_live_bound [of s] by (auto simp: objpool_contains_def objpool_refs_def)
qed

text \<open>Changing the bit of a slot.\<close>

lemma objpool_bit_set_eq:
  assumes "objpool_shape s" "i < op_capacity s"
  shows "\<exists>m. objpool_bit_set s i = Some (s\<lparr>op_bits := m\<rparr>) \<and> objpool_shape (s\<lparr>op_bits := m\<rparr>) \<and>
    objpool_live (s\<lparr>op_bits := m\<rparr>) = insert i (objpool_live s)"
proof -
  from assms(1) obtain xs where xs: "op_bits s = Some xs" "objpool_live s = {i. i < op_capacity s \<and> bit_of xs i}"
    by (rule objpool_shapeE) blast
  note ok = objpool_bit_ok [OF assms(1) xs(1) assms(2)]
  let ?m = "Some (xs[i div 8 := xs ! (i div 8) OR byte_mask i])"
  have "objpool_live (s\<lparr>op_bits := ?m\<rparr>) = insert i (objpool_live s)"
    using assms(2) xs(2) by (auto simp: objpool_live_def bit_of_set [OF ok])
  moreover have "objpool_shape (s\<lparr>op_bits := ?m\<rparr>)"
    using assms(1) xs by (auto simp: objpool_shape_def split: option.splits)
  ultimately show ?thesis using xs ok by (intro exI [of _ ?m]) (simp add: objpool_bit_set_def)
qed

lemma objpool_bit_clear_eq:
  assumes "objpool_shape s" "i < op_capacity s"
  shows "\<exists>m. objpool_bit_clear s i = Some (s\<lparr>op_bits := m\<rparr>) \<and> objpool_shape (s\<lparr>op_bits := m\<rparr>) \<and>
    objpool_live (s\<lparr>op_bits := m\<rparr>) = objpool_live s - {i}"
proof -
  from assms(1) obtain xs where xs: "op_bits s = Some xs" "objpool_live s = {i. i < op_capacity s \<and> bit_of xs i}"
    by (rule objpool_shapeE) blast
  note ok = objpool_bit_ok [OF assms(1) xs(1) assms(2)]
  let ?m = "Some (xs[i div 8 := xs ! (i div 8) AND NOT (byte_mask i)])"
  have "objpool_live (s\<lparr>op_bits := ?m\<rparr>) = objpool_live s - {i}"
    using assms(2) xs(2) by (auto simp: objpool_live_def bit_of_clear [OF ok])
  moreover have "objpool_shape (s\<lparr>op_bits := ?m\<rparr>)"
    using assms(1) xs by (auto simp: objpool_shape_def split: option.splits)
  ultimately show ?thesis using xs ok by (intro exI [of _ ?m]) (simp add: objpool_bit_clear_def)
qed

text \<open>The sets depend on their own fields only.\<close>

lemma objpool_live_update [simp]:
  "objpool_live (s\<lparr>op_free_count := n\<rparr>) = objpool_live s" "objpool_live (s\<lparr>op_used_count := n\<rparr>) = objpool_live s"
  "objpool_live (s\<lparr>op_free := f\<rparr>) = objpool_live s" "objpool_live (s\<lparr>op_destroyed := d\<rparr>) = objpool_live s"
  "objpool_live (s\<lparr>op_cells := c\<rparr>) = objpool_live s"
  by (simp_all add: objpool_live_def split: option.splits)

lemma objpool_shape_update [simp]:
  "objpool_shape (s\<lparr>op_free_count := n\<rparr>) = objpool_shape s" "objpool_shape (s\<lparr>op_used_count := n\<rparr>) = objpool_shape s"
  "objpool_shape (s\<lparr>op_destroyed := d\<rparr>) = objpool_shape s"
  "objpool_shape (s\<lparr>op_cells := c\<rparr>) = (objpool_shape s \<and> op_capacity s \<le> length c)" if "objpool_shape s"
  using that by (auto simp: objpool_shape_def split: option.splits)

lemma objpool_ref_update [simp]:
  "objpool_ref (s\<lparr>op_bits := b\<rparr>) = objpool_ref s" "objpool_ref (s\<lparr>op_free := f\<rparr>) = objpool_ref s"
  "objpool_ref (s\<lparr>op_free_count := n\<rparr>) = objpool_ref s" "objpool_ref (s\<lparr>op_used_count := n\<rparr>) = objpool_ref s"
  "objpool_ref (s\<lparr>op_destroyed := d\<rparr>) = objpool_ref s" "objpool_ref (s\<lparr>op_cells := c\<rparr>) = objpool_ref s"
  by (simp_all add: objpool_ref_def fun_eq_iff)

section \<open>Allocating and freeing\<close>

text \<open>What the pool does not change: only the slot's bit, the free stack and the counters.\<close>

definition objpool_frame :: "'e objpool \<Rightarrow> 'e objpool \<Rightarrow> bool" where
  "objpool_frame s s' \<longleftrightarrow> op_policy s' = op_policy s \<and> op_base s' = op_base s \<and> op_capacity s' = op_capacity s \<and>
     op_cells s' = op_cells s"

lemma objpool_frame_ref: "objpool_frame s s' \<Longrightarrow> objpool_ref s' = objpool_ref s"
  by (simp add: objpool_frame_def objpool_ref_def fun_eq_iff)

lemma objpool_alloc_room:
  assumes wf: "objpool_wf s" and room: "card (objpool_live s) < op_capacity s"
  shows "\<exists>i s'. objpool_alloc s (Some q) = Some (Ok, Some (objpool_ref s i), s') \<and> objpool_wf s' \<and> objpool_frame s s' \<and>
    i < op_capacity s \<and> i \<notin> objpool_live s \<and> objpool_live s' = insert i (objpool_live s) \<and>
    objpool_free_list s = objpool_free_list s' @ [i] \<and> op_destroyed s' = op_destroyed s"
proof -
  note shape = objpool_wf_shape [OF wf]
  from shape obtain fs where fs: "op_free s = Some fs" "op_capacity s \<le> length fs"
    "objpool_free_list s = map unat (take (op_free_count s) fs)" by (rule objpool_shapeE) blast
  have counts: "op_free_count s + card (objpool_live s) = op_capacity s"
    using objpool_counts [OF wf] wf by (simp add: objpool_wf_def)
  then obtain n where n: "op_free_count s = Suc n" using room by (cases "op_free_count s") auto
  have len: "n < length fs" and le: "Suc n \<le> op_capacity s" using counts n fs(2) by simp_all
  let ?i = "unat (fs ! n)"
  let ?s1 = "s\<lparr>op_free_count := n\<rparr>"
  have list: "objpool_free_list s = map unat (take n fs) @ [?i]"
    using fs(3) n len by (simp add: take_Suc_conv_app_nth)
  then have i: "?i < op_capacity s" "?i \<notin> objpool_live s" and dist: "distinct (map unat (take n fs) @ [?i])"
    and set: "insert ?i (set (map unat (take n fs))) = {..<op_capacity s} - objpool_live s"
    using wf by (auto simp: objpool_wf_def)
  have cap: "op_capacity s \<le> SIZE_MAX" using objpool_shapeD(2) [OF shape] by (simp add: SIZE_MAX_def)
  have "objpool_shape ?s1" using shape by simp
  from objpool_bit_set_eq [OF this, of ?i] i(1) obtain m where m: "objpool_bit_set ?s1 ?i = Some (?s1\<lparr>op_bits := m\<rparr>)"
    "objpool_shape (?s1\<lparr>op_bits := m\<rparr>)" "objpool_live (?s1\<lparr>op_bits := m\<rparr>) = insert ?i (objpool_live s)" by auto
  let ?s2 = "?s1\<lparr>op_bits := m\<rparr>\<lparr>op_used_count := Suc (op_used_count s)\<rparr>"
  have used: "sz_add (op_used_count s) 1 = Suc (op_used_count s)" "sz_sub (op_free_count s) 1 = n"
    using counts n le cap wf by (simp_all add: objpool_wf_def sz_add_eq sz_sub_eq)
  have live: "objpool_live ?s2 = insert ?i (objpool_live s)" using m(3) by simp
  have free: "objpool_free_list ?s2 = map unat (take n fs)" using fs(1) by (simp add: objpool_free_list_def)
  have "set (map unat (take n fs)) = {..<op_capacity s} - insert ?i (objpool_live s)"
  proof -
    have "?i \<notin> set (map unat (take n fs))"
      using dist by (simp only: distinct_append disjoint_iff list.set) blast
    with set show ?thesis by blast
  qed
  then have "objpool_wf ?s2"
    unfolding objpool_wf_def live free using m(2) le i(2) wf dist by (simp add: objpool_wf_def)
  moreover have "objpool_alloc s (Some q) = Some (Ok, Some (objpool_ref s ?i), ?s2)"
    using n used fs(1) len i(1) m(1) objpool_elem_at_eq [OF shape i(1)] by (simp add: objpool_alloc_def Let_def)
  ultimately show ?thesis
    using i live list free by (intro exI [of _ ?i] exI [of _ ?s2]) (simp add: objpool_frame_def)
qed

lemma objpool_alloc_full:
  assumes wf: "objpool_wf s" and "op_capacity s \<le> card (objpool_live s)"
  shows "objpool_alloc s (Some q) = Some (Full, Some q, s)"
  using objpool_counts [OF wf] assms by (simp add: objpool_alloc_def objpool_wf_def)

lemma objpool_free_live:
  assumes wf: "objpool_wf s" and i: "i \<in> objpool_live s"
  shows "\<exists>s'. objpool_free s (objpool_ref s i) = Some (Ok, s') \<and> objpool_wf s' \<and> objpool_frame s s' \<and>
    objpool_live s' = objpool_live s - {i} \<and> objpool_free_list s' = objpool_free_list s @ [i] \<and>
    op_destroyed s' = destroy (op_policy s) (op_cells s ! i) (op_destroyed s)"
proof -
  note shape = objpool_wf_shape [OF wf]
  have cap: "i < op_capacity s" using i objpool_live_bound [of s] by auto
  from shape obtain fs where fs: "op_free s = Some fs" "op_capacity s \<le> length fs"
    "objpool_free_list s = map unat (take (op_free_count s) fs)" by (rule objpool_shapeE) blast
  define s1 where "s1 = s\<lparr>op_destroyed := destroy (op_policy s) (op_cells s ! i) (op_destroyed s)\<rparr>"
  have s1: "(if needs_destroy_on_clear (op_policy s) then objpool_destroy_at s i else Some s) = Some s1"
    using objpool_shapeD(6) [OF shape] cap by (simp add: s1_def objpool_destroy_at_def needs_destroy_on_clear_def)
  have sh1: "objpool_shape s1" using shape by (simp add: s1_def)
  have same: "op_capacity s1 = op_capacity s" "op_free s1 = op_free s" "op_free_count s1 = op_free_count s"
    "op_used_count s1 = op_used_count s" "objpool_live s1 = objpool_live s" by (simp_all add: s1_def)
  from objpool_bit_clear_eq [OF sh1, of i] cap same obtain m where m: "objpool_bit_clear s1 i = Some (s1\<lparr>op_bits := m\<rparr>)"
    "objpool_shape (s1\<lparr>op_bits := m\<rparr>)" "objpool_live (s1\<lparr>op_bits := m\<rparr>) = objpool_live s - {i}" by auto
  have pos: "0 < card (objpool_live s)" using i by (auto simp: card_gt_0_iff)
  have counts: "op_free_count s + card (objpool_live s) = op_capacity s" "op_used_count s = card (objpool_live s)"
    using objpool_counts [OF wf] wf by (simp_all add: objpool_wf_def)
  then have lt: "op_free_count s < op_capacity s" using pos by simp
  have max: "op_capacity s \<le> 2 ^ 32" by (rule objpool_shapeD(2) [OF shape])
  have idx: "unat (of_nat i :: u32) = i" using cap max by (simp add: unat_of_nat)
  have max': "op_capacity s \<le> SIZE_MAX" using max by (simp add: SIZE_MAX_def)
  let ?f = "Some (fs[op_free_count s := of_nat i])"
  let ?s2 = "s1\<lparr>op_bits := m\<rparr>\<lparr>op_free := ?f, op_free_count := Suc (op_free_count s), op_used_count := op_used_count s - 1\<rparr>"
  have arith: "sz_add (op_free_count s) 1 = Suc (op_free_count s)" "sz_sub (op_used_count s) 1 = op_used_count s - 1"
    using lt pos counts max' by (simp_all add: sz_add_eq sz_sub_eq)
  have "objpool_free s (objpool_ref s i) = Some (Ok, ?s2)"
    using objpool_index_ref [OF shape cap] objpool_bit_test_eq [OF shape cap] i s1 m(1) same fs(1,2) lt arith
      objpool_shapeD(3) [OF shape]
    by (simp add: objpool_free_def Let_def objpool_ref_def split del: if_split cong: if_cong)
  moreover have live: "objpool_live ?s2 = objpool_live s - {i}" using m(3) by simp
  moreover have free: "objpool_free_list ?s2 = objpool_free_list s @ [i]"
    using fs lt idx by (simp add: objpool_free_list_def take_Suc_conv_app_nth)
  moreover have "objpool_shape ?s2"
    using m(2) fs by (auto simp: objpool_shape_def same split: option.splits)
  then have "objpool_wf ?s2"
    unfolding objpool_wf_def live free using wf i cap lt pos counts same
    by (auto simp: objpool_wf_def card_Diff_singleton)
  ultimately show ?thesis by (intro exI [of _ ?s2]) (simp add: objpool_frame_def s1_def)
qed

lemma objpool_free_dead:
  assumes wf: "objpool_wf s" and e: "elem \<notin> objpool_refs s"
  shows "\<exists>st. objpool_free s elem = Some (st, s) \<and> st \<noteq> Ok"
proof (cases "elem = 0")
  case False
  note shape = objpool_wf_shape [OF wf]
  show ?thesis
  proof (rule objpool_index_cases [OF shape, of elem])
    fix i
    assume i: "i < op_capacity s" "elem = objpool_ref s i" "objpool_index s elem = Some (Ok, Some i)"
    with e have "i \<notin> objpool_live s" by (auto simp: objpool_refs_def)
    with False i objpool_bit_test_eq [OF shape i(1)] show ?thesis by (simp add: objpool_free_def)
  next
    fix st
    assume "objpool_index s elem = Some (st, None)" "st \<noteq> Ok"
    with False show ?thesis by (simp add: objpool_free_def)
  qed
qed (simp add: objpool_free_def)

section \<open>The pool contract\<close>

text \<open>References in use are addresses; \<open>alloc\<close> is called with a non-null \<open>out_elem\<close>.\<close>

definition objpool_acquire :: "'e objpool \<Rightarrow> (status \<times> nat \<times> 'e objpool) option" where
  "objpool_acquire s = do {
     (st, out, s') \<leftarrow> objpool_alloc s (Some 0);
     Some (st, the out, s')
   }"

lemma objpool_frame_refs: "objpool_frame s s' \<Longrightarrow> objpool_refs s' = objpool_ref s ` objpool_live s'"
  by (simp add: objpool_refs_def objpool_frame_ref)

lemma objpool_ref_notin:
  "objpool_shape s \<Longrightarrow> i \<notin> objpool_live s \<Longrightarrow> objpool_ref s i \<notin> objpool_refs s"
  using inj_objpool_ref [of s] by (simp add: objpool_refs_def inj_image_mem_iff)

interpretation slots: checked_pool objpool_wf objpool_refs op_capacity objpool_acquire objpool_free
proof unfold_locales
  fix s :: "'a objpool" and r
  assume wf: "objpool_wf s"
  note shape = objpool_wf_shape [OF wf]
  note card = card_objpool_refs [OF shape]
  show "\<exists>r s'. objpool_acquire s = Some (Ok, r, s') \<and> objpool_wf s' \<and> r \<notin> objpool_refs s \<and>
      objpool_refs s' = insert r (objpool_refs s) \<and> op_capacity s' = op_capacity s"
    if "card (objpool_refs s) < op_capacity s"
  proof -
    have "card (objpool_live s) < op_capacity s" using that card by simp
    from objpool_alloc_room [OF wf this, of 0] obtain i s' where
      "objpool_alloc s (Some 0) = Some (Ok, Some (objpool_ref s i), s')" "objpool_wf s'" "objpool_frame s s'"
      "i \<notin> objpool_live s" "objpool_live s' = insert i (objpool_live s)" by blast
    then show ?thesis
      using objpool_ref_notin [OF shape, of i] objpool_frame_refs [of s s']
      by (simp add: objpool_acquire_def objpool_refs_def [of s] objpool_frame_def)
  qed
  show "\<exists>r. objpool_acquire s = Some (Full, r, s)" if "op_capacity s \<le> card (objpool_refs s)"
    using objpool_alloc_full [OF wf, of 0] that card by (simp add: objpool_acquire_def)
  show "\<exists>s'. objpool_free s r = Some (Ok, s') \<and> objpool_wf s' \<and> objpool_refs s' = objpool_refs s - {r} \<and>
      op_capacity s' = op_capacity s" if r: "r \<in> objpool_refs s"
  proof -
    from r obtain i where i: "i \<in> objpool_live s" "r = objpool_ref s i" by (auto simp: objpool_refs_def)
    from objpool_free_live [OF wf i(1)] obtain s' where s': "objpool_free s (objpool_ref s i) = Some (Ok, s')"
      "objpool_wf s'" "objpool_frame s s'" "objpool_live s' = objpool_live s - {i}" by blast
    have "objpool_refs s' = objpool_refs s - {r}"
      using objpool_frame_refs [OF s'(3)] s'(4) i(2) inj_objpool_ref [OF shape]
      by (simp add: objpool_refs_def [of s] image_set_diff)
    with s' i(2) show ?thesis by (auto simp: objpool_frame_def)
  qed
  show "finite (objpool_refs s)" by (simp add: objpool_refs_def)
  show "\<exists>st. objpool_free s r = Some (st, s) \<and> st \<noteq> Ok" if "r \<notin> objpool_refs s"
    using objpool_free_dead [OF wf that] .
qed

section \<open>Initialisation and clearing\<close>

lemma objpool_fill_free_eq:
  assumes "i + n \<le> length fs" "i + n \<le> c" "c \<le> 2 ^ 32"
  shows "\<exists>gs. objpool_fill_free (Some fs) c i n = Some (Some gs) \<and> length gs = length fs \<and>
    (\<forall>k. gs ! k = (if i \<le> k \<and> k < i + n then of_nat (c - 1 - k) else fs ! k))"
  using assms
proof (induction n arbitrary: i fs)
  case 0
  then show ?case by auto
next
  case (Suc n)
  have "sz_sub (sz_sub c 1) i = c - 1 - i" using Suc.prems by (simp add: sz_sub_eq SIZE_MAX_def)
  moreover from Suc.IH [of "Suc i" "fs[i := of_nat (c - 1 - i)]"] Suc.prems obtain gs where
    gs: "objpool_fill_free (Some (fs[i := of_nat (c - 1 - i)])) c (Suc i) n = Some (Some gs)" "length gs = length fs"
    "\<forall>k. gs ! k = (if Suc i \<le> k \<and> k < Suc i + n then of_nat (c - 1 - k) else fs[i := of_nat (c - 1 - i)] ! k)" by auto
  moreover have "gs ! k = (if i \<le> k \<and> k < i + Suc n then of_nat (c - 1 - k) else fs ! k)" for k
    using gs(3) Suc.prems(1) by (cases "k = i") auto
  ultimately show ?case using Suc.prems by (intro exI [of _ gs]) simp
qed

lemma objpool_reset_free_list_eq:
  assumes shape: "objpool_shape s"
  shows "\<exists>s'. objpool_reset_free_list s = Some (Ok, s') \<and> objpool_wf s' \<and> objpool_frame s s' \<and> objpool_live s' = {} \<and>
    objpool_free_list s' = rev [0..<op_capacity s] \<and> op_destroyed s' = op_destroyed s \<and> op_used_count s' = 0"
proof -
  from shape obtain fs xs where d: "op_free s = Some fs" "op_bits s = Some xs" "op_capacity s \<le> length fs"
    "(op_capacity s + 7) div 8 \<le> length xs" by (rule objpool_shapeE) blast
  note max = objpool_shapeD(2) [OF shape]
  from objpool_fill_free_eq [of 0 "op_capacity s" fs "op_capacity s"] d(3) max obtain gs where
    gs: "objpool_fill_free (Some fs) (op_capacity s) 0 (op_capacity s) = Some (Some gs)" "length gs = length fs"
    "\<And>k. k < op_capacity s \<Longrightarrow> gs ! k = of_nat (op_capacity s - 1 - k)" by auto
  let ?n = "(op_capacity s + 7) div 8"
  let ?xs = "replicate ?n 0 @ drop ?n xs"
  have n: "used_bits_bytes (op_capacity s) = ?n" using max by (simp add: used_bits_bytes_def sz_add_eq SIZE_MAX_def)
  let ?s = "s\<lparr>op_bits := Some ?xs, op_used_count := 0, op_free_count := op_capacity s, op_free := Some gs\<rparr>"
  have "objpool_reset_free_list s = Some (Ok, ?s)"
    using d gs(1) n objpool_shapeD(3) [OF shape] by (simp add: objpool_reset_free_list_def Let_def)
  moreover have live: "objpool_live ?s = {}"
    by (auto simp: objpool_live_def dest: bytes_index bit_of_replicate_0)
  moreover have "unat (gs ! k) = op_capacity s - 1 - k" if "k < op_capacity s" for k
    unfolding gs(3) [OF that] unat_of_nat using that max by simp
  then have free: "objpool_free_list ?s = rev [0..<op_capacity s]"
    using gs(2) d(3) by (intro nth_equalityI) (simp_all add: objpool_free_list_def rev_nth)
  moreover have "objpool_shape ?s"
    using shape d gs(2) by (auto simp: objpool_shape_def)
  then have "objpool_wf ?s" unfolding objpool_wf_def live free by (simp add: atLeast0LessThan)
  ultimately show ?thesis by (intro exI [of _ ?s]) (simp add: objpool_frame_def)
qed

text \<open>The clear loop destroys the elements in use, in index order.\<close>

lemma objpool_clear_loop_eq:
  assumes "objpool_shape s" "i + n \<le> op_capacity s" "ep_destroy (op_policy s)"
  shows "objpool_clear_loop s i n =
    Some (s\<lparr>op_destroyed := op_destroyed s @ map ((!) (op_cells s)) (filter (\<lambda>j. j \<in> objpool_live s) [i..<i + n])\<rparr>)"
  using assms
proof (induction n arbitrary: i s)
  case (Suc n)
  have i: "i < op_capacity s" "i < length (op_cells s)" using Suc.prems(2) objpool_shapeD(6) [OF Suc.prems(1)] by simp_all
  have split: "[i..<i + Suc n] = i # [Suc i..<Suc i + n]" by (simp add: upt_conv_Cons del: upt_Suc)
  let ?s = "s\<lparr>op_destroyed := op_destroyed s @ [op_cells s ! i]\<rparr>"
  have "objpool_shape ?s" using Suc.prems(1) by simp
  then show ?case
    using Suc.IH [of ?s "Suc i"] Suc.IH [of s "Suc i"] Suc.prems i objpool_bit_test_eq [OF Suc.prems(1) i(1)]
    unfolding split by (simp add: objpool_destroy_at_def del: upt_Suc)
qed simp

lemma objpool_clear_eq:
  assumes wf: "objpool_wf s"
  shows "\<exists>s'. objpool_clear s = Some s' \<and> objpool_wf s' \<and> objpool_frame s s' \<and> objpool_live s' = {} \<and>
    op_destroyed s' = op_destroyed s @
      (if ep_destroy (op_policy s) then map ((!) (op_cells s)) (sorted_list_of_set (objpool_live s)) else [])"
proof (cases "op_used_count s = 0")
  case True
  then have "objpool_live s = {}" using wf by (simp add: objpool_wf_def)
  with True wf show ?thesis by (simp add: objpool_clear_def objpool_frame_def)
next
  case False
  note shape = objpool_wf_shape [OF wf]
  define s1 where "s1 = s\<lparr>op_destroyed := op_destroyed s @
      (if ep_destroy (op_policy s) then map ((!) (op_cells s)) (sorted_list_of_set (objpool_live s)) else [])\<rparr>"
  have "(if needs_destroy_on_clear (op_policy s) then objpool_clear_loop s 0 (op_capacity s) else Some s) = Some s1"
    using objpool_clear_loop_eq [OF shape, of 0 "op_capacity s"] filter_upt_sorted_list_of_set [OF objpool_live_bound [of s]]
    by (simp add: s1_def needs_destroy_on_clear_def)
  moreover have "objpool_shape s1" using shape by (simp add: s1_def)
  from objpool_reset_free_list_eq [OF this] obtain s' where "objpool_reset_free_list s1 = Some (Ok, s')"
    "objpool_wf s'" "objpool_frame s1 s'" "objpool_live s' = {}" "op_destroyed s' = op_destroyed s1" by blast
  ultimately show ?thesis
    using False by (intro exI [of _ s']) (simp add: objpool_clear_def s1_def objpool_frame_def split del: if_split)
qed

lemma objpool_init_eq:
  assumes "0 < storage" "0 < capacity" "capacity \<le> 2 ^ 32" "0 < ep_size policy" "capacity \<le> length cells"
    "capacity \<le> length fs" "(capacity + 7) div 8 \<le> length xs" "storage + capacity * ep_size policy \<le> SIZE_MAX"
  shows "\<exists>s'. objpool_init s policy storage cells (Some fs) (Some xs) capacity = Some (Ok, s') \<and> objpool_wf s' \<and>
    objpool_live s' = {} \<and> op_capacity s' = capacity \<and> op_base s' = storage \<and> op_policy s' = policy \<and> op_cells s' = cells \<and>
    objpool_free_list s' = rev [0..<capacity] \<and> op_destroyed s' = op_destroyed s"
proof -
  let ?s = "s\<lparr>op_policy := policy, op_base := storage, op_cells := cells, op_free := Some fs, op_bits := Some xs,
    op_capacity := capacity, op_kind := 0\<rparr>"
  have "objpool_shape ?s" using assms by (simp add: objpool_shape_def)
  from objpool_reset_free_list_eq [OF this] assms(1,2) show ?thesis
    by (auto simp: objpool_init_def objpool_frame_def)
qed

lemma objpool_alloc_copy_eq:
  assumes wf: "objpool_wf s" and room: "card (objpool_live s) < op_capacity s"
    and cst: "\<And>old. \<not> (ep_runtime (op_policy s) \<and> fst (copy_construct (op_policy s) old src) \<noteq> Ok)"
  shows "\<exists>i s'. objpool_alloc_copy s src (Some q) = Some (Ok, Some (objpool_ref s i), s') \<and> objpool_wf s' \<and>
    i < op_capacity s \<and> i \<notin> objpool_live s \<and> objpool_live s' = insert i (objpool_live s) \<and>
    op_cells s' = (op_cells s)[i := snd (copy_construct (op_policy s) (op_cells s ! i) src)] \<and>
    op_destroyed s' = op_destroyed s"
proof -
  from objpool_alloc_room [OF wf room, of 0] obtain i s1 where s1:
    "objpool_alloc s (Some 0) = Some (Ok, Some (objpool_ref s i), s1)" "objpool_wf s1" "objpool_frame s s1"
    "i < op_capacity s" "i \<notin> objpool_live s" "objpool_live s1 = insert i (objpool_live s)"
    "op_destroyed s1 = op_destroyed s" by blast
  have same: "op_policy s1 = op_policy s" "op_cells s1 = op_cells s" "op_capacity s1 = op_capacity s"
    using s1(3) by (simp_all add: objpool_frame_def)
  have idx: "objpool_index s1 (objpool_ref s i) = Some (Ok, Some i)"
    using objpool_index_ref [OF objpool_wf_shape [OF s1(2)], of i] s1(4) same objpool_frame_ref [OF s1(3)] by simp
  have len: "i < length (op_cells s)" using objpool_shapeD(6) [OF objpool_wf_shape [OF wf]] s1(4) by simp
  let ?s2 = "s1\<lparr>op_cells := (op_cells s)[i := snd (copy_construct (op_policy s) (op_cells s ! i) src)]\<rparr>"
  have "objpool_wf ?s2"
    using s1(2) len same by (auto simp: objpool_wf_def objpool_shape_def objpool_free_list_def split: option.splits)
  moreover have "objpool_alloc_copy s src (Some q) = Some (Ok, Some (objpool_ref s i), ?s2)"
    using s1(1) idx len same cst [of "op_cells s ! i"] by (auto simp: objpool_alloc_copy_def split_beta)
  ultimately show ?thesis using s1 by (intro exI [of _ i] exI [of _ ?s2]) simp
qed

section \<open>Guarantees\<close>

definition blank_objpool :: "nat objpool" where
  "blank_objpool = \<lparr>op_policy = typed_trivial_policy 8 8, op_base = 0, op_cells = [], op_free = None, op_bits = None,
     op_capacity = 0, op_used_count = 0, op_free_count = 0, op_kind = 0, op_destroyed = []\<rparr>"

text \<open>A pool of two 8-byte slots, one in use.\<close>

definition sample_objpool :: "nat objpool" where
  "sample_objpool = \<lparr>op_policy = typed_trivial_policy 8 8, op_base = 4096, op_cells = [5, 6], op_free = Some [1, 0],
     op_bits = Some [byte_mask 0], op_capacity = 2, op_used_count = card {0 :: nat}, op_free_count = card {0 :: nat}, op_kind = 0,
     op_destroyed = []\<rparr>"

lemma sample_objpool_live: "objpool_live sample_objpool = {0}"
  by (auto simp: objpool_live_def sample_objpool_def bit_of_def bit_byte_mask)

lemma sample_objpool_wf: "objpool_wf sample_objpool"
proof -
  have "{..<2 :: nat} - {0} = {Suc 0}" by auto
  then show ?thesis
    unfolding objpool_wf_def sample_objpool_live
    by (simp add: sample_objpool_def objpool_shape_def objpool_free_list_def SIZE_MAX_def)
qed

text \<open>
  C18. For every sequence of alloc and free the object pool hands out a pointer exactly when fewer
  than capacity are in use, never one that is in use, takes back exactly the pointers in use, and
  refuses all other pointers (misaligned, foreign, already freed) without changing anything.
\<close>

theorem objpool_is_pool:
  assumes "objpool_wf s"
  shows "\<exists>rs s'. pool_run objpool_acquire objpool_free s cs = Some (rs, s') \<and> objpool_wf s' \<and>
    pool_ok (op_capacity s) (objpool_refs s) cs rs"
  using assms by (rule slots.run_ok)

theorem objpool_is_pool_witness:
  "\<exists>rs s'. pool_run objpool_acquire objpool_free sample_objpool [Acquire, Acquire, Release 4096, Release 4097] = Some (rs, s') \<and>
    pool_ok 2 {4096} [Acquire, Acquire, Release 4096, Release 4097] rs"
proof -
  have "objpool_refs sample_objpool = {4096}" "op_capacity sample_objpool = 2"
    unfolding objpool_refs_def sample_objpool_live by (simp_all add: objpool_ref_def sample_objpool_def)
  with objpool_is_pool [OF sample_objpool_wf, of "[Acquire, Acquire, Release 4096, Release 4097]"] show ?thesis
    by (simp del: pool_ok.simps pool_run.simps) blast
qed

text \<open>
  alloc_copy stores the copy in a slot that was not in use and changes no other; clear destroys
  every element in use exactly once, in index order, and makes every slot free again.
\<close>

theorem objpool_copy_and_clear:
  assumes "objpool_wf s" "faithful (op_policy s)"
  shows "(if card (objpool_live s) < op_capacity s
      then \<exists>i s'. objpool_alloc_copy s src (Some q) = Some (Ok, Some (objpool_ref s i), s') \<and> objpool_wf s' \<and>
        i \<notin> objpool_live s \<and> objpool_live s' = insert i (objpool_live s) \<and> op_cells s' = (op_cells s)[i := src]
      else objpool_alloc_copy s src (Some q) = Some (Full, Some q, s)) \<and>
    (\<exists>s'. objpool_clear s = Some s' \<and> objpool_wf s' \<and> objpool_live s' = {} \<and> op_capacity s' = op_capacity s \<and>
      op_destroyed s' = op_destroyed s @
        (if ep_destroy (op_policy s) then map ((!) (op_cells s)) (sorted_list_of_set (objpool_live s)) else []))"
proof (rule conjI)
  have cst: "\<not> (ep_runtime (op_policy s) \<and> fst (copy_construct (op_policy s) old src) \<noteq> Ok)" for old
    using assms(2) by simp
  show "if card (objpool_live s) < op_capacity s
      then \<exists>i s'. objpool_alloc_copy s src (Some q) = Some (Ok, Some (objpool_ref s i), s') \<and> objpool_wf s' \<and>
        i \<notin> objpool_live s \<and> objpool_live s' = insert i (objpool_live s) \<and> op_cells s' = (op_cells s)[i := src]
      else objpool_alloc_copy s src (Some q) = Some (Full, Some q, s)"
  proof (cases "card (objpool_live s) < op_capacity s")
    case True
    from objpool_alloc_copy_eq [OF assms(1) True, of src q] cst assms(2) have
      "\<exists>i s'. objpool_alloc_copy s src (Some q) = Some (Ok, Some (objpool_ref s i), s') \<and> objpool_wf s' \<and>
        i \<notin> objpool_live s \<and> objpool_live s' = insert i (objpool_live s) \<and> op_cells s' = (op_cells s)[i := src]"
      by auto
    with True show ?thesis by simp
  next
    case False
    with objpool_alloc_full [OF assms(1), of 0] show ?thesis by (simp add: objpool_alloc_copy_def)
  qed
qed (use objpool_clear_eq [OF assms(1)] in \<open>auto simp: objpool_frame_def\<close>)

theorem objpool_copy_and_clear_witness:
  "\<exists>i s'. objpool_alloc_copy sample_objpool 9 (Some 0) = Some (Ok, Some (objpool_ref sample_objpool i), s') \<and>
    op_cells s' = [5, 6][i := 9]"
proof -
  have "faithful (op_policy sample_objpool)" "card (objpool_live sample_objpool) < op_capacity sample_objpool"
    "op_cells sample_objpool = [5, 6]"
    unfolding sample_objpool_live by (simp_all add: sample_objpool_def)
  with objpool_copy_and_clear [OF sample_objpool_wf, of 9 0] show ?thesis by (auto split del: if_split cong: if_cong)
qed

text \<open>
  When the copy callback of a runtime policy fails, alloc_copy gives the slot back and leaves
  the pool's contents as they were, but first it runs the destructor on the object the callback did
  not construct.
\<close>

theorem objpool_failed_copy_destroys:
  assumes "objpool_wf s" "card (objpool_live s) < op_capacity s" "ep_runtime (op_policy s)"
    "ep_copy_fn (op_policy s) = Some f" "\<And>old. f old src = (st, junk)" "st \<noteq> Ok" "ep_destroy (op_policy s)"
  shows "\<exists>s'. objpool_alloc_copy s src out = Some (st, out, s') \<and> objpool_wf s' \<and> objpool_live s' = objpool_live s \<and>
    objpool_free_list s' = objpool_free_list s \<and> op_destroyed s' = op_destroyed s @ [junk]"
proof -
  from objpool_alloc_room [OF assms(1,2), of 0] obtain i s1 where s1:
    "objpool_alloc s (Some 0) = Some (Ok, Some (objpool_ref s i), s1)" "objpool_wf s1" "objpool_frame s s1"
    "i < op_capacity s" "i \<notin> objpool_live s" "objpool_live s1 = insert i (objpool_live s)"
    "objpool_free_list s = objpool_free_list s1 @ [i]" "op_destroyed s1 = op_destroyed s" by blast
  have same: "op_policy s1 = op_policy s" "op_cells s1 = op_cells s" "op_capacity s1 = op_capacity s"
    using s1(3) by (simp_all add: objpool_frame_def)
  have idx: "objpool_index s1 (objpool_ref s i) = Some (Ok, Some i)"
    using objpool_index_ref [OF objpool_wf_shape [OF s1(2)], of i] s1(4) same objpool_frame_ref [OF s1(3)] by simp
  have len: "i < length (op_cells s)" using objpool_shapeD(6) [OF objpool_wf_shape [OF assms(1)]] s1(4) by simp
  let ?s2 = "s1\<lparr>op_cells := (op_cells s)[i := junk]\<rparr>"
  have wf2: "objpool_wf ?s2"
    using s1(2) len same by (auto simp: objpool_wf_def objpool_shape_def objpool_free_list_def split: option.splits)
  have live2: "i \<in> objpool_live ?s2" using s1(6) by simp
  have ref2: "objpool_ref ?s2 i = objpool_ref s i" using objpool_frame_ref [OF s1(3)] by simp
  from objpool_free_live [OF wf2 live2] obtain s3 where s3: "objpool_free ?s2 (objpool_ref s i) = Some (Ok, s3)" "objpool_wf s3"
    "objpool_live s3 = objpool_live ?s2 - {i}" "objpool_free_list s3 = objpool_free_list ?s2 @ [i]"
    "op_destroyed s3 = destroy (op_policy ?s2) (op_cells ?s2 ! i) (op_destroyed ?s2)" unfolding ref2 by blast
  have copy: "copy_construct (op_policy s) (op_cells s ! i) src = (st, junk)"
    using assms(3-5) by (simp add: copy_construct_def)
  have "objpool_alloc_copy s src out = Some (st, out, s3)"
    using s1(1) idx len same copy assms(3,6) s3(1) by (simp add: objpool_alloc_copy_def)
  moreover have "objpool_free_list ?s2 = objpool_free_list s1"
    by (simp add: objpool_free_list_def split: option.splits)
  ultimately show ?thesis
    using s3(2-5) s1(5-8) same assms(7) len by (intro exI [of _ s3]) auto
qed

theorem objpool_failed_copy_destroys_witness:
  "\<exists>s'. objpool_alloc_copy (sample_objpool\<lparr>op_policy := (typed_trivial_policy 8 8)\<lparr>ep_runtime := True, ep_destroy := True,
      ep_copy_fn := Some (\<lambda>old src. (Oom, 77))\<rparr>\<rparr>) 9 None = Some (Oom, None, s') \<and> op_destroyed s' = [77]"
proof -
  let ?s = "sample_objpool\<lparr>op_policy := (typed_trivial_policy 8 8)\<lparr>ep_runtime := True, ep_destroy := True,
      ep_copy_fn := Some (\<lambda>old src. (Oom, 77))\<rparr>\<rparr>"
  have live: "objpool_live ?s = {0}"
    by (auto simp: objpool_live_def sample_objpool_def bit_of_def bit_byte_mask)
  have "{..<2 :: nat} - {0} = {Suc 0}" by auto
  then have "objpool_wf ?s"
    unfolding objpool_wf_def live by (simp add: sample_objpool_def objpool_shape_def objpool_free_list_def SIZE_MAX_def)
  then have "\<exists>s'. objpool_alloc_copy ?s 9 None = Some (Oom, None, s') \<and> objpool_wf s' \<and> objpool_live s' = objpool_live ?s \<and>
    objpool_free_list s' = objpool_free_list ?s \<and> op_destroyed s' = op_destroyed ?s @ [77]"
    by (rule objpool_failed_copy_destroys) (simp_all only: live, simp_all add: sample_objpool_def)
  then show ?thesis by (auto simp: sample_objpool_def)
qed

end
