(* ===== verification/Handle_Pool.thy ===== *)
theory Handle_Pool
  imports Contracts Utility
begin

text \<open>
  \<^verbatim>\<open>include/memkit/detail/handle_pool_core.hpp\<close>: a pool whose slots are named by 32-bit
  handles, the generation of the slot above its 16-bit index. A pointer into the storage is its
  address.
\<close>

section \<open>Handles\<close>

type_synonym u16 = "16 word"

definition invalid_handle :: u32 where
  "invalid_handle = 0"

definition index_mask :: u32 where
  "index_mask = push_bit 16 1 - 1"

definition make_handle :: "u16 \<Rightarrow> u16 \<Rightarrow> u32" where
  "make_handle index generation = push_bit 16 (ucast generation) OR ucast index"

definition handle_index :: "u32 \<Rightarrow> u16" where
  "handle_index handle = ucast (handle AND index_mask)"

definition handle_generation :: "u32 \<Rightarrow> u16" where
  "handle_generation handle = ucast (drop_bit 16 handle)"

section \<open>Model\<close>

record handle_pool =
  hpl_storage :: nat
  hpl_generations :: "u16 mem"
  hpl_free :: "u32 mem"
  hpl_capacity :: nat
  hpl_elem_size :: nat
  hpl_elem_align :: nat
  hpl_live_count :: nat
  hpl_free_count :: nat
  hpl_kind :: u8

fun handle_pool_reset_loop :: "u16 mem \<Rightarrow> u32 mem \<Rightarrow> nat \<Rightarrow> nat \<Rightarrow> nat \<Rightarrow> (u16 mem \<times> u32 mem) option" where
  "handle_pool_reset_loop g f capacity i 0 = Some (g, f)"
| "handle_pool_reset_loop g f capacity i (Suc n) = do {
     g' \<leftarrow> mem_wr g i 0;
     f' \<leftarrow> mem_wr f i (of_nat (sz_sub (sz_sub capacity 1) i));
     handle_pool_reset_loop g' f' capacity (Suc i) n
   }"

definition handle_pool_reset_free_list :: "handle_pool \<Rightarrow> (status \<times> handle_pool) option" where
  "handle_pool_reset_free_list s = do {
     (g, f) \<leftarrow> handle_pool_reset_loop (hpl_generations s) (hpl_free s) (hpl_capacity s) 0 (hpl_capacity s);
     Some (Ok, s\<lparr>hpl_generations := g, hpl_free := f, hpl_free_count := hpl_capacity s, hpl_live_count := 0\<rparr>)
   }"

definition handle_pool_init ::
  "handle_pool \<Rightarrow> nat \<Rightarrow> u16 mem \<Rightarrow> u32 mem \<Rightarrow> nat \<Rightarrow> nat \<Rightarrow> nat \<Rightarrow> (status \<times> handle_pool) option" where
  "handle_pool_init s storage generations free_stack capacity elem_size elem_alignment =
     (if storage = 0 \<or> generations = None \<or> free_stack = None \<or> capacity = 0 \<or> elem_size = 0 then Some (Invalid, s)
      else if sz_sub capacity 1 > unat index_mask then Some (Invalid, s)
      else handle_pool_reset_free_list (s\<lparr>hpl_storage := storage, hpl_generations := generations, hpl_free := free_stack,
             hpl_capacity := capacity, hpl_elem_size := elem_size,
             hpl_elem_align := (if elem_alignment > 0 then elem_alignment else 1),
             hpl_live_count := 0, hpl_free_count := capacity, hpl_kind := 0\<rparr>))"

definition handle_pool_reset_state :: "handle_pool \<Rightarrow> handle_pool" where
  "handle_pool_reset_state s =
     s\<lparr>hpl_storage := 0, hpl_generations := None, hpl_free := None, hpl_capacity := 0, hpl_elem_size := 0,
       hpl_elem_align := 0, hpl_live_count := 0, hpl_free_count := 0, hpl_kind := 0\<rparr>"

definition handle_pool_set_storage_kind :: "handle_pool \<Rightarrow> u8 \<Rightarrow> handle_pool" where
  "handle_pool_set_storage_kind s kind = s\<lparr>hpl_kind := kind\<rparr>"

definition handle_pool_slot :: "handle_pool \<Rightarrow> nat \<Rightarrow> nat" where
  "handle_pool_slot s index = sz_add (hpl_storage s) (sz_mul index (hpl_elem_size s))"

text \<open>
  \<open>acquire\<close> with both out pointers non-null returns what it writes to them; \<open>nulls\<close> says that one
  of them is null.
\<close>

definition handle_pool_acquire :: "handle_pool \<Rightarrow> bool \<Rightarrow> (status \<times> (nat \<times> u32) option \<times> handle_pool) option" where
  "handle_pool_acquire s nulls =
     (if nulls then Some (Null_ptr, None, s)
      else if hpl_free_count s = 0 then Some (Full, Some (0, invalid_handle), s)
      else
        let fc = sz_sub (hpl_free_count s) 1; s1 = s\<lparr>hpl_free_count := fc\<rparr> in do {
          w \<leftarrow> mem_rd (hpl_free s) fc;
          let index = unat w;
          if index \<ge> hpl_capacity s then Some (Invalid, Some (0, invalid_handle), s1)
          else do {
            g0 \<leftarrow> mem_rd (hpl_generations s1) index;
            gs \<leftarrow> (if g0 = 0 then mem_wr (hpl_generations s1) index 1 else Some (hpl_generations s1));
            g \<leftarrow> mem_rd gs index;
            Some (Ok, Some (handle_pool_slot s index, make_handle (ucast w) g),
              s1\<lparr>hpl_generations := gs, hpl_live_count := sz_add (hpl_live_count s) 1\<rparr>)
          }
        })"

definition handle_pool_bump_generation :: "handle_pool \<Rightarrow> nat \<Rightarrow> handle_pool option" where
  "handle_pool_bump_generation s index = do {
     g \<leftarrow> mem_rd (hpl_generations s) index;
     gs \<leftarrow> mem_wr (hpl_generations s) index (if g = 0xFFFF then 1 else g + 1);
     Some (s\<lparr>hpl_generations := gs\<rparr>)
   }"

text \<open>The check \<open>release\<close>, \<open>get\<close> and \<open>valid\<close> share: the slot's generation is the handle's.\<close>

definition handle_pool_matches :: "handle_pool \<Rightarrow> u32 \<Rightarrow> bool option" where
  "handle_pool_matches s handle =
     (let index = unat (handle_index handle) in
      if index \<ge> hpl_capacity s then Some False
      else do {
        g \<leftarrow> mem_rd (hpl_generations s) index;
        Some (g = handle_generation handle)
      })"

definition handle_pool_release :: "handle_pool \<Rightarrow> u32 \<Rightarrow> (status \<times> handle_pool) option" where
  "handle_pool_release s handle =
     (if handle = invalid_handle then Some (Invalid, s)
      else do {
        b \<leftarrow> handle_pool_matches s handle;
        if \<not> b then Some (Invalid, s)
        else do {
          s1 \<leftarrow> handle_pool_bump_generation s (unat (handle_index handle));
          f \<leftarrow> mem_wr (hpl_free s1) (hpl_free_count s1) (ucast (handle_index handle));
          Some (Ok, s1\<lparr>hpl_free := f, hpl_free_count := sz_add (hpl_free_count s1) 1,
                      hpl_live_count := sz_sub (hpl_live_count s1) 1\<rparr>)
        }
      })"

definition handle_pool_get :: "handle_pool \<Rightarrow> u32 \<Rightarrow> bool \<Rightarrow> (status \<times> nat option) option" where
  "handle_pool_get s handle null =
     (if null then Some (Null_ptr, None)
      else if handle = invalid_handle then Some (Invalid, Some 0)
      else do {
        b \<leftarrow> handle_pool_matches s handle;
        if \<not> b then Some (Invalid, Some 0)
        else Some (Ok, Some (handle_pool_slot s (unat (handle_index handle))))
      })"

definition handle_pool_valid :: "handle_pool \<Rightarrow> u32 \<Rightarrow> bool option" where
  "handle_pool_valid s handle =
     (if handle = invalid_handle then Some False else handle_pool_matches s handle)"

section \<open>Handles are pairs\<close>

lemma index_mask_mask: "index_mask = mask 16"
  by (simp only: index_mask_def mask_eq_exp_minus_1 push_bit_of_1)

lemma bit_index_mask: "bit index_mask n \<longleftrightarrow> n < 16"
  unfolding index_mask_mask bit_mask_iff by auto

lemma not_bit_beyond: "\<not> bit (i :: u16) (16 + n)"
  using bit_imp_le_length [of i "16 + n"] by auto

lemma handle_index_make [simp]: "handle_index (make_handle i g) = i"
  by (rule bit_word_eqI) (simp add: handle_index_def make_handle_def bit_index_mask bit_simps)

lemma handle_generation_make [simp]: "handle_generation (make_handle i g) = g"
  by (rule bit_word_eqI) (auto simp: handle_generation_def make_handle_def bit_simps not_bit_beyond)

lemma make_handle_cases: "make_handle (handle_index h) (handle_generation h) = h"
  by (rule bit_word_eqI)
    (auto simp: handle_generation_def handle_index_def make_handle_def bit_index_mask bit_simps)

lemma make_handle_eq_iff: "make_handle i g = make_handle j h \<longleftrightarrow> i = j \<and> g = h"
  by (metis handle_index_make handle_generation_make)

lemma make_handle_invalid: "make_handle i g = invalid_handle \<longleftrightarrow> i = 0 \<and> g = 0"
proof -
  have zero: "invalid_handle = make_handle 0 0" by (simp add: invalid_handle_def make_handle_def)
  show ?thesis unfolding zero by (rule make_handle_eq_iff)
qed

end
