(* ===== verification/Handle_Pool_Correct.thy ===== *)
theory Handle_Pool_Correct
  imports Handle_Pool
begin

text \<open>
  Correctness of the handle pool: handles in use name different slots; a released handle is refused
  until its slot has been released 65535 times; and the handles \<open>release\<close> and \<open>valid\<close> accept
  although no \<open>acquire\<close> has returned them.
\<close>

section \<open>Invariant\<close>

definition handle_pool_free_list :: "handle_pool \<Rightarrow> nat list" where
  "handle_pool_free_list s = (case hpl_free s of None \<Rightarrow> [] | Some fs \<Rightarrow> map unat (take (hpl_free_count s) fs))"

definition handle_pool_gen :: "handle_pool \<Rightarrow> nat \<Rightarrow> u16" where
  "handle_pool_gen s i = (case hpl_generations s of None \<Rightarrow> 0 | Some gs \<Rightarrow> gs ! i)"

definition handle_pool_live :: "handle_pool \<Rightarrow> nat set" where
  "handle_pool_live s = {..<hpl_capacity s} - set (handle_pool_free_list s)"

definition handle_pool_handle :: "handle_pool \<Rightarrow> nat \<Rightarrow> u32" where
  "handle_pool_handle s i = make_handle (of_nat i) (handle_pool_gen s i)"

definition handle_pool_handles :: "handle_pool \<Rightarrow> u32 set" where
  "handle_pool_handles s = handle_pool_handle s ` handle_pool_live s"

definition handle_pool_wf :: "handle_pool \<Rightarrow> bool" where
  "handle_pool_wf s \<longleftrightarrow>
     (case (hpl_generations s, hpl_free s) of
        (Some gs, Some fs) \<Rightarrow>
          hpl_capacity s \<le> length gs \<and> hpl_capacity s \<le> length fs \<and> hpl_capacity s \<le> 65536 \<and>
          hpl_free_count s \<le> hpl_capacity s \<and> hpl_live_count s = hpl_capacity s - hpl_free_count s \<and>
          distinct (handle_pool_free_list s) \<and> set (handle_pool_free_list s) \<subseteq> {..<hpl_capacity s} \<and>
          (\<forall>i \<in> handle_pool_live s. gs ! i \<noteq> 0) \<and>
          hpl_storage s + hpl_capacity s * hpl_elem_size s \<le> SIZE_MAX
      | _ \<Rightarrow> False)"

lemma handle_pool_wfE:
  assumes "handle_pool_wf s"
  obtains gs fs where "hpl_generations s = Some gs" "hpl_free s = Some fs" "hpl_capacity s \<le> length gs"
    "hpl_capacity s \<le> length fs" "hpl_capacity s \<le> 65536" "hpl_free_count s \<le> hpl_capacity s"
    "hpl_live_count s = hpl_capacity s - hpl_free_count s" "distinct (handle_pool_free_list s)"
    "set (handle_pool_free_list s) \<subseteq> {..<hpl_capacity s}" "\<And>i. i \<in> handle_pool_live s \<Longrightarrow> gs ! i \<noteq> 0"
    "hpl_storage s + hpl_capacity s * hpl_elem_size s \<le> SIZE_MAX"
    "handle_pool_free_list s = map unat (take (hpl_free_count s) fs)" "\<And>i. handle_pool_gen s i = gs ! i"
  using assms by (auto simp: handle_pool_wf_def handle_pool_free_list_def handle_pool_gen_def split: option.splits)

lemma handle_pool_wfD:
  assumes "handle_pool_wf s"
  shows "hpl_capacity s \<le> 65536" "hpl_free_count s \<le> hpl_capacity s" "distinct (handle_pool_free_list s)"
    "set (handle_pool_free_list s) \<subseteq> {..<hpl_capacity s}" "hpl_storage s + hpl_capacity s * hpl_elem_size s \<le> SIZE_MAX"
  by (rule handle_pool_wfE [OF assms], assumption)+

lemma handle_pool_gen_live: "handle_pool_wf s \<Longrightarrow> i \<in> handle_pool_live s \<Longrightarrow> handle_pool_gen s i \<noteq> 0"
  by (erule handle_pool_wfE) simp

lemma handle_pool_live_bound: "i \<in> handle_pool_live s \<Longrightarrow> i < hpl_capacity s"
  by (simp add: handle_pool_live_def)

lemma finite_handle_pool_live [simp]: "finite (handle_pool_live s)"
  by (simp add: handle_pool_live_def)

lemma handle_pool_counts:
  assumes "handle_pool_wf s"
  shows "hpl_free_count s + card (handle_pool_live s) = hpl_capacity s" "hpl_live_count s = card (handle_pool_live s)"
proof -
  from assms obtain fs where d: "hpl_capacity s \<le> length (fs :: u32 list)" "hpl_free_count s \<le> hpl_capacity s"
    "hpl_live_count s = hpl_capacity s - hpl_free_count s" "distinct (handle_pool_free_list s)"
    "set (handle_pool_free_list s) \<subseteq> {..<hpl_capacity s}"
    "handle_pool_free_list s = map unat (take (hpl_free_count s) fs)" by (rule handle_pool_wfE) (rule that; assumption)
  have "card (set (handle_pool_free_list s)) = hpl_free_count s"
    using distinct_card [OF d(4)] d(1,2,6) by simp
  with d show "hpl_free_count s + card (handle_pool_live s) = hpl_capacity s" "hpl_live_count s = card (handle_pool_live s)"
    by (simp_all add: handle_pool_live_def card_Diff_subset)
qed

text \<open>An index below the capacity survives the trip through 16 bits.\<close>

lemma index_of_nat:
  assumes "handle_pool_wf s" "i < hpl_capacity s"
  shows "unat (of_nat i :: u16) = i"
  using assms(2) handle_pool_wfD(1) [OF assms(1)] by (simp add: unat_of_nat)

lemma handle_pool_handle_inj:
  assumes "handle_pool_wf s" "i < hpl_capacity s" "j < hpl_capacity s" "handle_pool_handle s i = handle_pool_handle s j"
  shows "i = j"
proof -
  have "(of_nat i :: u16) = of_nat j" using assms(4) by (simp only: handle_pool_handle_def make_handle_eq_iff)
  then have "unat (of_nat i :: u16) = unat (of_nat j :: u16)" by (rule arg_cong)
  then show ?thesis unfolding index_of_nat [OF assms(1,2)] index_of_nat [OF assms(1,3)] .
qed

lemma card_handle_pool_handles:
  assumes "handle_pool_wf s"
  shows "card (handle_pool_handles s) = card (handle_pool_live s)"
  unfolding handle_pool_handles_def
  by (intro card_image inj_onI, rule handle_pool_handle_inj [OF assms]) (simp_all add: handle_pool_live_bound)

text \<open>What the generation check accepts: the current generation of a slot, in use or not.\<close>

lemma handle_pool_matches_eq:
  assumes wf: "handle_pool_wf s"
  shows "handle_pool_matches s h =
    Some (unat (handle_index h) < hpl_capacity s \<and> handle_generation h = handle_pool_gen s (unat (handle_index h)))"
proof -
  from wf obtain gs where "hpl_generations s = Some gs" "hpl_capacity s \<le> length gs" "\<And>i. handle_pool_gen s i = gs ! i"
    by (rule handle_pool_wfE) blast
  then show ?thesis by (auto simp: handle_pool_matches_def Let_def)
qed

lemma handle_pool_handle_simps:
  assumes "handle_pool_wf s" "i \<in> handle_pool_live s"
  shows "unat (handle_index (handle_pool_handle s i)) = i"
    "handle_pool_matches s (handle_pool_handle s i) = Some True"
    "handle_pool_handle s i \<noteq> invalid_handle"
proof -
  have i: "i < hpl_capacity s" using assms(2) by (rule handle_pool_live_bound)
  note handle_pool_gen_live [OF assms]
  with i show "unat (handle_index (handle_pool_handle s i)) = i"
    "handle_pool_matches s (handle_pool_handle s i) = Some True" "handle_pool_handle s i \<noteq> invalid_handle"
    using index_of_nat [OF assms(1) i] i handle_pool_matches_eq [OF assms(1), of "handle_pool_handle s i"]
    by (simp_all add: handle_pool_handle_def make_handle_invalid)
qed

section \<open>Acquiring and releasing\<close>

definition handle_pool_frame :: "handle_pool \<Rightarrow> handle_pool \<Rightarrow> bool" where
  "handle_pool_frame s s' \<longleftrightarrow> hpl_capacity s' = hpl_capacity s \<and> hpl_storage s' = hpl_storage s \<and>
     hpl_elem_size s' = hpl_elem_size s"

lemma handle_pool_slot_eq:
  assumes "handle_pool_wf s" "i < hpl_capacity s"
  shows "handle_pool_slot s i = hpl_storage s + i * hpl_elem_size s"
proof -
  have "i * hpl_elem_size s \<le> hpl_capacity s * hpl_elem_size s" using assms(2) by simp
  then have "hpl_storage s + i * hpl_elem_size s \<le> SIZE_MAX" using handle_pool_wfD(5) [OF assms(1)] by linarith
  then show ?thesis by (simp add: handle_pool_slot_def sz_add_eq sz_mul_eq)
qed

lemma handle_pool_acquire_room:
  assumes wf: "handle_pool_wf s" and room: "card (handle_pool_live s) < hpl_capacity s"
  shows "\<exists>i s'. handle_pool_acquire s False = Some (Ok, Some (handle_pool_slot s i, handle_pool_handle s' i), s') \<and>
    handle_pool_wf s' \<and> handle_pool_frame s s' \<and> i < hpl_capacity s \<and> i \<notin> handle_pool_live s \<and>
    handle_pool_live s' = insert i (handle_pool_live s) \<and>
    (\<forall>j < hpl_capacity s. handle_pool_gen s' j = (if j = i \<and> handle_pool_gen s i = 0 then 1 else handle_pool_gen s j))"
proof -
  from wf obtain gs fs where d: "hpl_generations s = Some gs" "hpl_free s = Some fs" "hpl_capacity s \<le> length gs"
    "hpl_capacity s \<le> length fs" "handle_pool_free_list s = map unat (take (hpl_free_count s) fs)"
    "\<And>i. handle_pool_gen s i = gs ! i" "\<And>i. i \<in> handle_pool_live s \<Longrightarrow> gs ! i \<noteq> 0"
    by (rule handle_pool_wfE) (rule that; assumption)
  note w = handle_pool_wfD [OF wf]
  note counts = handle_pool_counts [OF wf]
  obtain n where n: "hpl_free_count s = Suc n" using counts(1) room by (cases "hpl_free_count s") auto
  have len: "n < length fs" "Suc n \<le> hpl_capacity s" using n w(2) d(4) by simp_all
  let ?i = "unat (fs ! n)"
  have list: "handle_pool_free_list s = map unat (take n fs) @ [?i]"
    using d(5) n len by (simp add: take_Suc_conv_app_nth)
  have i: "?i < hpl_capacity s" using w(4) list by auto
  have dist: "distinct (map unat (take n fs))" "?i \<notin> set (map unat (take n fs))"
    using w(3) unfolding list distinct_append disjoint_iff list.set by blast+
  let ?gs = "if gs ! ?i = 0 then gs[?i := 1] else gs"
  let ?s = "s\<lparr>hpl_free_count := n, hpl_generations := Some ?gs, hpl_live_count := Suc (hpl_live_count s)\<rparr>"
  have free: "handle_pool_free_list ?s = map unat (take n fs)" using d(2) by (simp add: handle_pool_free_list_def)
  have live: "handle_pool_live ?s = insert ?i (handle_pool_live s)"
    using list dist(2) i unfolding handle_pool_live_def free by auto
  have gen: "handle_pool_gen ?s j = ?gs ! j" for j by (simp add: handle_pool_gen_def)
  have il: "?i < length gs" using i d(3) by simp
  have nz: "?gs ! j \<noteq> 0" if "j \<in> handle_pool_live ?s" for j
    using that d(7) [of j] il unfolding live by (cases "j = ?i") auto
  have "hpl_live_count s = hpl_capacity s - hpl_free_count s" using counts by simp
  then have "handle_pool_wf ?s"
    unfolding handle_pool_wf_def free using d(2-4) w dist len n nz list
    by (simp add: subset_iff)
  moreover have "handle_pool_acquire s False = Some (Ok, Some (handle_pool_slot s ?i, handle_pool_handle ?s ?i), ?s)"
  proof -
    have "ucast (fs ! n) = (of_nat ?i :: u16)" by simp
    moreover have "sz_sub (hpl_free_count s) 1 = n" "sz_add (hpl_live_count s) 1 = Suc (hpl_live_count s)"
      using n w(1,2) counts by (simp_all add: sz_sub_eq sz_add_eq SIZE_MAX_def)
    ultimately show ?thesis
      using n d(1,2) len(1) i il by (simp add: handle_pool_acquire_def Let_def handle_pool_handle_def gen)
  qed
  moreover have "?i \<notin> handle_pool_live s" using list by (simp add: handle_pool_live_def)
  moreover have "?gs ! j = (if j = ?i \<and> gs ! ?i = 0 then 1 else gs ! j)" for j using il by auto
  ultimately show ?thesis
    using i live by (intro exI [of _ ?i] exI [of _ ?s]) (simp add: handle_pool_frame_def gen d(6))
qed

lemma handle_pool_acquire_full:
  assumes "handle_pool_wf s" "hpl_capacity s \<le> card (handle_pool_live s)"
  shows "handle_pool_acquire s False = Some (Full, Some (0, invalid_handle), s)"
  using handle_pool_counts(1) [OF assms(1)] assms(2) by (simp add: handle_pool_acquire_def)

text \<open>The generation after \<open>g\<close>: it skips 0.\<close>

definition next_generation :: "u16 \<Rightarrow> u16" where
  "next_generation g = (if g = 0xFFFF then 1 else g + 1)"

lemma u16_bound: "unat (w :: u16) < 65536"
  using unsigned_less [of w] by simp

lemma unat_inverse: "(of_nat (unat w) :: u16) = w"
  by simp

lemma unat_next_generation:
  assumes "g \<noteq> 0"
  shows "unat (next_generation g) = (unat g - 1 + 1) mod 65535 + 1"
proof (cases "g = 0xFFFF")
  case True
  then show ?thesis by (simp add: next_generation_def)
next
  case False
  have "unat g \<noteq> 65535"
  proof
    assume e: "unat g = 65535"
    have "g = of_nat (unat g)" by simp
    also have "\<dots> = 0xFFFF" unfolding e by simp
    finally show False using False by simp
  qed
  moreover have "unat g < 65536" using u16_bound [of g] by simp
  moreover have "0 < unat g" using assms by (simp add: unat_gt_0)
  ultimately have "unat g < 65535" "unat (g + 1) = unat g + 1"
    by (simp_all add: unat_word_ariths)
  then show ?thesis using False \<open>0 < unat g\<close> by (simp add: next_generation_def)
qed

lemma next_generation_nonzero: "g \<noteq> 0 \<Longrightarrow> next_generation g \<noteq> 0"
  using unat_next_generation [of g] by (auto simp: unat_eq_0)

lemma unat_generation_iterate:
  assumes "g \<noteq> 0"
  shows "unat ((next_generation ^^ k) g) = (unat g - 1 + k) mod 65535 + 1 \<and> (next_generation ^^ k) g \<noteq> 0"
proof (induction k)
  case 0
  have "0 < unat g" "unat g < 65536" using assms u16_bound [of g] by (simp_all add: unat_gt_0)
  then show ?case using assms by simp
next
  case (Suc k)
  let ?h = "(next_generation ^^ k) g"
  have "unat (next_generation ?h) = (unat ?h - 1 + 1) mod 65535 + 1"
    using Suc by (intro unat_next_generation) simp
  then show ?case using Suc next_generation_nonzero [of ?h] by (simp add: mod_Suc_eq)
qed

text \<open>The generations of a slot repeat with period 65535.\<close>

lemma generation_period:
  assumes "g \<noteq> 0"
  shows "(next_generation ^^ k) g = g \<longleftrightarrow> k mod 65535 = 0"
proof -
  have g: "0 < unat g" "unat g < 65536" using assms u16_bound [of g] by (simp_all add: unat_gt_0)
  have "(next_generation ^^ k) g = g \<longleftrightarrow> (unat g - 1 + k) mod 65535 + 1 = unat g"
    using unat_generation_iterate [OF assms, of k] by (metis unat_inverse)
  also have "\<dots> \<longleftrightarrow> (unat g - 1 + k) mod 65535 = (unat g - 1 + 0) mod 65535" using g by auto
  also have "\<dots> \<longleftrightarrow> k mod 65535 = 0"
    using mod_add_inj_iff [of "k mod 65535" 65535 0 "unat g - 1"] by (simp add: mod_add_right_eq)
  finally show ?thesis .
qed

text \<open>Any handle the generation check accepts is released, whether its slot is in use or not.\<close>

lemma handle_pool_release_live:
  assumes wf: "handle_pool_wf s" and i: "i \<in> handle_pool_live s"
  shows "\<exists>s'. handle_pool_release s (handle_pool_handle s i) = Some (Ok, s') \<and> handle_pool_wf s' \<and>
    handle_pool_frame s s' \<and> handle_pool_live s' = handle_pool_live s - {i} \<and>
    (\<forall>j < hpl_capacity s. handle_pool_gen s' j = (if j = i then next_generation (handle_pool_gen s i) else handle_pool_gen s j))"
proof -
  from wf obtain gs fs where d: "hpl_generations s = Some gs" "hpl_free s = Some fs" "hpl_capacity s \<le> length gs"
    "hpl_capacity s \<le> length fs" "handle_pool_free_list s = map unat (take (hpl_free_count s) fs)"
    "\<And>i. handle_pool_gen s i = gs ! i" "\<And>i. i \<in> handle_pool_live s \<Longrightarrow> gs ! i \<noteq> 0"
    by (rule handle_pool_wfE) (rule that; assumption)
  note w = handle_pool_wfD [OF wf]
  note counts = handle_pool_counts [OF wf]
  note h = handle_pool_handle_simps [OF wf i]
  have cap: "i < hpl_capacity s" using i by (rule handle_pool_live_bound)
  have pos: "0 < card (handle_pool_live s)" using i by (auto simp: card_gt_0_iff)
  have lt: "hpl_free_count s < hpl_capacity s" using counts pos by simp
  let ?w = "ucast (handle_index (handle_pool_handle s i)) :: u32"
  have w_i: "unat ?w = i"
    using h(1) u16_bound [of "handle_index (handle_pool_handle s i)"] by (simp add: unsigned_ucast_eq take_bit_nat_eq_self)
  let ?gs = "gs[i := next_generation (gs ! i)]"
  let ?s = "s\<lparr>hpl_generations := Some ?gs, hpl_free := Some (fs[hpl_free_count s := ?w]),
    hpl_free_count := Suc (hpl_free_count s), hpl_live_count := hpl_live_count s - Suc 0\<rparr>"
  have free: "handle_pool_free_list ?s = handle_pool_free_list s @ [i]"
    using d(2,4,5) lt w_i by (simp add: handle_pool_free_list_def take_Suc_conv_app_nth)
  have live: "handle_pool_live ?s = handle_pool_live s - {i}"
    unfolding handle_pool_live_def free by auto
  have gen: "handle_pool_gen ?s j = ?gs ! j" for j by (simp add: handle_pool_gen_def)
  have fresh: "i \<notin> set (handle_pool_free_list s)" using i by (simp add: handle_pool_live_def)
  have nz: "?gs ! j \<noteq> 0" if "j \<in> handle_pool_live ?s" for j
    using that d(7) [of j] unfolding live by simp
  have "handle_pool_wf ?s"
    unfolding handle_pool_wf_def free using d(2-4) w fresh cap lt nz counts
    by (simp add: subset_iff)
  moreover have "handle_pool_release s (handle_pool_handle s i) = Some (Ok, ?s)"
  proof -
    have "sz_sub (hpl_live_count s) 1 = hpl_live_count s - 1" "sz_add (hpl_free_count s) 1 = Suc (hpl_free_count s)"
      using w(1) counts pos lt by (simp_all add: sz_sub_eq sz_add_eq SIZE_MAX_def)
    then show ?thesis
      using h d(1-4) cap lt
      by (simp add: handle_pool_release_def handle_pool_bump_generation_def next_generation_def)
  qed
  moreover have "?gs ! j = (if j = i then next_generation (gs ! i) else gs ! j)" for j using cap d(3) by auto
  ultimately show ?thesis
    using live by (intro exI [of _ ?s]) (simp add: handle_pool_frame_def gen d(6))
qed

section \<open>The pool contract\<close>

definition handle_pool_take :: "handle_pool \<Rightarrow> (status \<times> u32 \<times> handle_pool) option" where
  "handle_pool_take s = do {
     (st, out, s') \<leftarrow> handle_pool_acquire s False;
     Some (st, snd (the out), s')
   }"

lemma handle_pool_handles_cong:
  assumes "A = handle_pool_live s'" "\<And>j. j \<in> A \<Longrightarrow> handle_pool_gen s' j = handle_pool_gen s j"
  shows "handle_pool_handles s' = handle_pool_handle s ` A"
  using assms by (auto simp: handle_pool_handles_def handle_pool_handle_def)

interpretation handles: pool handle_pool_wf handle_pool_handles hpl_capacity handle_pool_take handle_pool_release
proof unfold_locales
  fix s r
  assume wf: "handle_pool_wf s"
  note card = card_handle_pool_handles [OF wf]
  show "finite (handle_pool_handles s)" by (simp add: handle_pool_handles_def)
  show "\<exists>r s'. handle_pool_take s = Some (Ok, r, s') \<and> handle_pool_wf s' \<and> r \<notin> handle_pool_handles s \<and>
      handle_pool_handles s' = insert r (handle_pool_handles s) \<and> hpl_capacity s' = hpl_capacity s"
    if "card (handle_pool_handles s) < hpl_capacity s"
  proof -
    from handle_pool_acquire_room [OF wf] that card obtain i s' where s':
      "handle_pool_acquire s False = Some (Ok, Some (handle_pool_slot s i, handle_pool_handle s' i), s')"
      "handle_pool_wf s'" "handle_pool_frame s s'" "i < hpl_capacity s" "i \<notin> handle_pool_live s"
      "handle_pool_live s' = insert i (handle_pool_live s)"
      "\<forall>j < hpl_capacity s. handle_pool_gen s' j = (if j = i \<and> handle_pool_gen s i = 0 then 1 else handle_pool_gen s j)"
      by auto
    have old: "handle_pool_handle s' j = handle_pool_handle s j" if "j \<in> handle_pool_live s" for j
      using that s'(5,7) handle_pool_live_bound [OF that] by (auto simp: handle_pool_handle_def)
    then have "handle_pool_handles s' = insert (handle_pool_handle s' i) (handle_pool_handles s)"
      by (simp add: handle_pool_handles_def s'(6))
    moreover have "handle_pool_handle s' i \<notin> handle_pool_handles s"
    proof
      assume "handle_pool_handle s' i \<in> handle_pool_handles s"
      then obtain j where j: "j \<in> handle_pool_live s" "handle_pool_handle s' i = handle_pool_handle s' j"
        using old by (auto simp: handle_pool_handles_def)
      then have "i = j"
        using s'(2,3,4) handle_pool_live_bound [OF j(1)] by (intro handle_pool_handle_inj [of s']) (auto simp: handle_pool_frame_def)
      with j(1) s'(5) show False by simp
    qed
    ultimately show ?thesis using s'(1-3) by (simp add: handle_pool_take_def handle_pool_frame_def)
  qed
  show "\<exists>r. handle_pool_take s = Some (Full, r, s)" if "hpl_capacity s \<le> card (handle_pool_handles s)"
    using handle_pool_acquire_full [OF wf] that card by (simp add: handle_pool_take_def)
  show "\<exists>s'. handle_pool_release s r = Some (Ok, s') \<and> handle_pool_wf s' \<and>
      handle_pool_handles s' = handle_pool_handles s - {r} \<and> hpl_capacity s' = hpl_capacity s"
    if r: "r \<in> handle_pool_handles s"
  proof -
    from r obtain i where i: "i \<in> handle_pool_live s" "r = handle_pool_handle s i" by (auto simp: handle_pool_handles_def)
    from handle_pool_release_live [OF wf i(1)] obtain s' where s': "handle_pool_release s (handle_pool_handle s i) = Some (Ok, s')"
      "handle_pool_wf s'" "handle_pool_frame s s'" "handle_pool_live s' = handle_pool_live s - {i}"
      "\<forall>j < hpl_capacity s. handle_pool_gen s' j = (if j = i then next_generation (handle_pool_gen s i) else handle_pool_gen s j)"
      by blast
    have "handle_pool_handles s' = handle_pool_handle s ` (handle_pool_live s - {i})"
      using s'(4,5) by (intro handle_pool_handles_cong) (auto dest: handle_pool_live_bound)
    also have "\<dots> = handle_pool_handles s - {r}"
      unfolding handle_pool_handles_def i(2)
      by (subst inj_on_image_set_diff [of _ "handle_pool_live s"])
        (use i(1) handle_pool_handle_inj [OF wf] handle_pool_live_bound in \<open>auto simp: inj_on_def\<close>)
    finally show ?thesis using s'(1-3) i(2) by (simp add: handle_pool_frame_def)
  qed
qed

section \<open>Initialisation\<close>

lemma handle_pool_reset_loop_eq:
  assumes "i + n \<le> length gs" "i + n \<le> length fs" "i + n \<le> c" "c \<le> 65536"
  shows "\<exists>gs' fs'. handle_pool_reset_loop (Some gs) (Some fs) c i n = Some (Some gs', Some fs') \<and>
    length gs' = length gs \<and> length fs' = length fs \<and>
    (\<forall>k. i \<le> k \<and> k < i + n \<longrightarrow> gs' ! k = 0 \<and> fs' ! k = of_nat (c - 1 - k)) \<and>
    (\<forall>k < i. gs' ! k = gs ! k \<and> fs' ! k = fs ! k)"
  using assms
proof (induction n arbitrary: i gs fs)
  case (Suc n)
  have "sz_sub (sz_sub c 1) i = c - 1 - i" using Suc.prems by (simp add: sz_sub_eq SIZE_MAX_def)
  moreover from Suc.IH [of "Suc i" "gs[i := 0]" "fs[i := of_nat (c - 1 - i)]"] Suc.prems obtain gs' fs' where
    r: "handle_pool_reset_loop (Some (gs[i := 0])) (Some (fs[i := of_nat (c - 1 - i)])) c (Suc i) n = Some (Some gs', Some fs')"
    "length gs' = length gs" "length fs' = length fs"
    "\<forall>k. Suc i \<le> k \<and> k < Suc i + n \<longrightarrow> gs' ! k = 0 \<and> fs' ! k = of_nat (c - 1 - k)"
    "\<forall>k < Suc i. gs' ! k = gs[i := 0] ! k \<and> fs' ! k = fs[i := of_nat (c - 1 - i)] ! k" by auto
  moreover have "gs' ! k = 0 \<and> fs' ! k = of_nat (c - 1 - k)" if "i \<le> k" "k < i + Suc n" for k
    using r(4,5) that Suc.prems(1,2) by (cases "k = i") auto
  moreover have "gs' ! k = gs ! k \<and> fs' ! k = fs ! k" if "k < i" for k
    using r(5) that by auto
  ultimately show ?case using Suc.prems by (intro exI [of _ gs'] exI [of _ fs']) simp
qed auto

lemma handle_pool_init_eq:
  assumes "0 < storage" "0 < capacity" "capacity \<le> 65536" "0 < elem_size" "capacity \<le> length gs" "capacity \<le> length fs"
    "storage + capacity * elem_size \<le> SIZE_MAX"
  shows "\<exists>s' fs'. handle_pool_init s storage (Some gs) (Some fs) capacity elem_size align = Some (Ok, s') \<and> handle_pool_wf s' \<and>
    handle_pool_live s' = {} \<and> hpl_capacity s' = capacity \<and> (\<forall>i < capacity. handle_pool_gen s' i = 0) \<and>
    hpl_free s' = Some fs' \<and> length fs' = length fs \<and> hpl_free_count s' = capacity"
proof -
  from handle_pool_reset_loop_eq [of 0 capacity gs fs capacity] assms obtain gs' fs' where
    r: "handle_pool_reset_loop (Some gs) (Some fs) capacity 0 capacity = Some (Some gs', Some fs')"
    "length gs' = length gs" "length fs' = length fs"
    "\<And>k. k < capacity \<Longrightarrow> gs' ! k = 0" "\<And>k. k < capacity \<Longrightarrow> fs' ! k = of_nat (capacity - 1 - k)" by auto
  let ?s = "s\<lparr>hpl_storage := storage, hpl_generations := Some gs', hpl_free := Some fs', hpl_capacity := capacity,
    hpl_elem_size := elem_size, hpl_elem_align := (if align > 0 then align else 1), hpl_live_count := 0,
    hpl_free_count := capacity, hpl_kind := 0\<rparr>"
  have "unat (fs' ! k) = capacity - 1 - k" if "k < capacity" for k
    unfolding r(5) [OF that] unat_of_nat using that assms(3) by simp
  then have free: "handle_pool_free_list ?s = rev [0..<capacity]"
    using r(3) assms(6) by (intro nth_equalityI) (simp_all add: handle_pool_free_list_def rev_nth)
  then have live: "handle_pool_live ?s = {}" by (auto simp: handle_pool_live_def)
  have gen: "handle_pool_gen ?s i = 0" if "i < capacity" for i using r(4) [OF that] by (simp add: handle_pool_gen_def)
  have mask: "unat index_mask = 65535" by (simp add: index_mask_def)
  have "sz_sub capacity 1 = capacity - 1" using assms(2,3) by (simp add: sz_sub_eq SIZE_MAX_def)
  then have "handle_pool_init s storage (Some gs) (Some fs) capacity elem_size align = Some (Ok, ?s)"
    using assms(1-4) r(1) mask by (simp add: handle_pool_init_def handle_pool_reset_free_list_def)
  moreover have "handle_pool_wf ?s"
    unfolding handle_pool_wf_def free live using assms r(2,3) by auto
  ultimately show ?thesis using live gen r(3) by (intro exI [of _ ?s] exI [of _ fs']) simp
qed

section \<open>Runs of a well-behaved client\<close>

text \<open>
  A step acquires a handle or releases one in use; \<open>handle_pool_steps i k s s'\<close> is a run from \<open>s\<close> to
  \<open>s'\<close> in which slot \<open>i\<close> is released \<open>k\<close> times.
\<close>

inductive handle_pool_steps :: "nat \<Rightarrow> nat \<Rightarrow> handle_pool \<Rightarrow> handle_pool \<Rightarrow> bool" for i where
  steps_none: "handle_pool_steps i 0 s s"
| steps_acquire: "handle_pool_steps i k s s' \<Longrightarrow> handle_pool_acquire s' False = Some (st, out, s'') \<Longrightarrow>
    handle_pool_steps i k s s''"
| steps_release: "handle_pool_steps i k s s' \<Longrightarrow> j \<in> handle_pool_live s' \<Longrightarrow>
    handle_pool_release s' (handle_pool_handle s' j) = Some (st, s'') \<Longrightarrow>
    handle_pool_steps i (if j = i then Suc k else k) s s''"

text \<open>The generation of a slot counts its releases.\<close>

lemma handle_pool_steps_gen:
  assumes "handle_pool_steps i k s s'" "handle_pool_wf s" "i < hpl_capacity s" "handle_pool_gen s i \<noteq> 0"
  shows "handle_pool_wf s' \<and> hpl_capacity s' = hpl_capacity s \<and>
    handle_pool_gen s' i = (next_generation ^^ k) (handle_pool_gen s i)"
  using assms
proof (induction rule: handle_pool_steps.induct)
  case (steps_none s)
  then show ?case by simp
next
  case (steps_acquire k s s' st out s'')
  then have IH: "handle_pool_wf s'" "hpl_capacity s' = hpl_capacity s"
    "handle_pool_gen s' i = (next_generation ^^ k) (handle_pool_gen s i)" by auto
  have nz: "handle_pool_gen s' i \<noteq> 0" using IH(3) steps_acquire.prems(3) unat_generation_iterate by simp
  show ?case
  proof (cases "card (handle_pool_live s') < hpl_capacity s'")
    case True
    from handle_pool_acquire_room [OF IH(1) True] steps_acquire.hyps(2) IH nz steps_acquire.prems(2) show ?thesis
      by (auto simp: handle_pool_frame_def)
  next
    case False
    with handle_pool_acquire_full [OF IH(1)] steps_acquire.hyps(2) IH show ?thesis by simp
  qed
next
  case (steps_release k s s' j st s'')
  then have IH: "handle_pool_wf s'" "hpl_capacity s' = hpl_capacity s"
    "handle_pool_gen s' i = (next_generation ^^ k) (handle_pool_gen s i)" by auto
  from handle_pool_release_live [OF IH(1) steps_release.hyps(2)] steps_release.hyps(3) IH steps_release.prems(2) show ?case
    by (auto simp: handle_pool_frame_def)
qed

section \<open>Guarantees\<close>

text \<open>Three slots of 8 bytes; slot 2 is in use with generation 7.\<close>

definition sample_handle_pool :: handle_pool where
  "sample_handle_pool = \<lparr>hpl_storage = 4096, hpl_generations = Some [0, 4, 7], hpl_free = Some [1, 0, 9], hpl_capacity = 3,
     hpl_elem_size = 8, hpl_elem_align = 8, hpl_live_count = card {0 :: nat}, hpl_free_count = 2, hpl_kind = 0\<rparr>"

lemma sample_handle_pool_free_list: "handle_pool_free_list sample_handle_pool = [1, 0]"
  by (simp add: handle_pool_free_list_def sample_handle_pool_def)

lemma sample_handle_pool_live: "handle_pool_live sample_handle_pool = {2}"
  unfolding handle_pool_live_def sample_handle_pool_free_list by (auto simp: sample_handle_pool_def)

lemma sample_handle_pool_wf: "handle_pool_wf sample_handle_pool"
  unfolding handle_pool_wf_def sample_handle_pool_live sample_handle_pool_free_list
  by (simp add: sample_handle_pool_def SIZE_MAX_def)

lemma sample_handle_pool_handle: "handle_pool_handle sample_handle_pool 2 = make_handle 2 7"
  by (simp add: handle_pool_handle_def handle_pool_gen_def sample_handle_pool_def)

text \<open>
  C19. A handle pool with room serves any number of requests up to its capacity, all with different
  handles, none of them in use; a handle just acquired can be released, which gives back exactly
  that handle; a full pool answers full.
\<close>

theorem handle_pool_serves:
  assumes "handle_pool_wf s" "card (handle_pool_handles s) + k \<le> hpl_capacity s"
  shows "(\<exists>hs s'. pool_run handle_pool_take handle_pool_release s (replicate k Acquire) = Some (map (\<lambda>h. (Ok, Some h)) hs, s') \<and>
      handle_pool_wf s' \<and> distinct hs \<and> length hs = k \<and> set hs \<inter> handle_pool_handles s = {} \<and>
      handle_pool_handles s' = handle_pool_handles s \<union> set hs) \<and>
    (if card (handle_pool_handles s) < hpl_capacity s
     then \<exists>h s' s''. handle_pool_take s = Some (Ok, h, s') \<and> handle_pool_release s' h = Some (Ok, s'') \<and> handle_pool_wf s'' \<and>
       handle_pool_handles s'' = handle_pool_handles s
     else \<exists>h. handle_pool_take s = Some (Full, h, s))"
  using handles.acquire_many [OF assms] handles.acquire_release [OF assms(1)] handles.acq_full [OF assms(1)] by simp

theorem handle_pool_serves_witness:
  "\<exists>hs s'. pool_run handle_pool_take handle_pool_release sample_handle_pool [Acquire, Acquire] = Some (map (\<lambda>h. (Ok, Some h)) hs, s') \<and>
     distinct hs \<and> length hs = 2 \<and> make_handle 2 7 \<notin> set hs"
proof -
  have h: "handle_pool_handles sample_handle_pool = {make_handle 2 7}"
    by (simp add: handle_pool_handles_def sample_handle_pool_live sample_handle_pool_handle)
  have "card (handle_pool_handles sample_handle_pool) + 2 \<le> hpl_capacity sample_handle_pool"
    unfolding h by (simp add: sample_handle_pool_def)
  from handle_pool_serves [OF sample_handle_pool_wf this] show ?thesis unfolding h numeral_2_eq_2 by auto
qed

text \<open>
  C20. get maps the handles in use to the addresses of different slots. Once a handle is released,
  valid, get and release refuse it through every further run of acquires and releases of handles in
  use, as long as its slot is released fewer than 65534 more times.
\<close>

theorem handle_pool_stale_handles:
  assumes "handle_pool_wf s" "i \<in> handle_pool_live s" "handle_pool_release s (handle_pool_handle s i) = Some (st, s1)"
    "handle_pool_steps i k s1 s2" "k < 65534"
  shows "handle_pool_get s (handle_pool_handle s i) False = Some (Ok, Some (hpl_storage s + i * hpl_elem_size s)) \<and> st = Ok \<and>
    handle_pool_valid s2 (handle_pool_handle s i) = Some False \<and>
    handle_pool_get s2 (handle_pool_handle s i) False = Some (Invalid, Some 0) \<and>
    handle_pool_release s2 (handle_pool_handle s i) = Some (Invalid, s2)"
proof -
  note h = handle_pool_handle_simps [OF assms(1,2)]
  note nz = handle_pool_gen_live [OF assms(1,2)]
  have i: "i < hpl_capacity s" using assms(2) by (rule handle_pool_live_bound)
  from handle_pool_release_live [OF assms(1,2)] assms(3) i have s1: "st = Ok" "handle_pool_wf s1" "hpl_capacity s1 = hpl_capacity s"
    "handle_pool_gen s1 i = next_generation (handle_pool_gen s i)" by (auto simp: handle_pool_frame_def)
  have "handle_pool_wf s2 \<and> hpl_capacity s2 = hpl_capacity s1 \<and>
      handle_pool_gen s2 i = (next_generation ^^ k) (handle_pool_gen s1 i)"
    using s1(2-4) i next_generation_nonzero [OF nz] by (intro handle_pool_steps_gen [OF assms(4)]) simp_all
  then have s2: "handle_pool_wf s2" "handle_pool_gen s2 i = (next_generation ^^ Suc k) (handle_pool_gen s i)"
    using s1(4) by (simp_all add: funpow_swap1)
  have "handle_pool_gen s2 i \<noteq> handle_pool_gen s i"
    unfolding s2(2) using generation_period [OF nz, of "Suc k"] assms(5) by simp
  moreover have "handle_generation (handle_pool_handle s i) = handle_pool_gen s i" by (simp add: handle_pool_handle_def)
  ultimately have "handle_pool_matches s2 (handle_pool_handle s i) = Some False"
    using handle_pool_matches_eq [OF s2(1), of "handle_pool_handle s i"] h(1) by auto
  then show ?thesis
    using h s1(1) handle_pool_slot_eq [OF assms(1) i]
    by (simp add: handle_pool_valid_def handle_pool_get_def handle_pool_release_def)
qed

theorem handle_pool_stale_handles_witness:
  "\<exists>s1. handle_pool_release sample_handle_pool (make_handle 2 7) = Some (Ok, s1) \<and>
     handle_pool_valid s1 (make_handle 2 7) = Some False"
proof -
  have "2 \<in> handle_pool_live sample_handle_pool" by (simp add: sample_handle_pool_live)
  from handle_pool_release_live [OF sample_handle_pool_wf this] obtain s1 where
    s1: "handle_pool_release sample_handle_pool (handle_pool_handle sample_handle_pool 2) = Some (Ok, s1)" by blast
  from handle_pool_stale_handles [OF sample_handle_pool_wf \<open>2 \<in> _\<close> s1 steps_none] s1 show ?thesis
    unfolding sample_handle_pool_handle by simp
qed

text \<open>
  The check is not complete: after init, before any acquire, every handle of a nonzero index
  with generation 0 is valid, and releasing it writes behind the free stack when that has exactly
  capacity entries.
\<close>

theorem handle_pool_accepts_free_slot:
  assumes "0 < storage" "capacity \<le> 65536" "0 < elem_size" "capacity \<le> length gs" "length fs = capacity"
    "storage + capacity * elem_size \<le> SIZE_MAX" "0 < i" "i < capacity"
  shows "\<exists>s. handle_pool_init s0 storage (Some gs) (Some fs) capacity elem_size align = Some (Ok, s) \<and> handle_pool_live s = {} \<and>
    handle_pool_valid s (make_handle (of_nat i) 0) = Some True \<and> handle_pool_release s (make_handle (of_nat i) 0) = None"
proof -
  from handle_pool_init_eq [of storage capacity elem_size gs fs s0 align] assms obtain s fs' where
    s: "handle_pool_init s0 storage (Some gs) (Some fs) capacity elem_size align = Some (Ok, s)" "handle_pool_wf s"
    "handle_pool_live s = {}" "hpl_capacity s = capacity" "handle_pool_gen s i = 0"
    "hpl_free s = Some fs'" "length fs' = capacity" "hpl_free_count s = capacity" by auto
  have i: "unat (of_nat i :: u16) = i" by (rule index_of_nat [OF s(2)]) (simp only: s(4) assms(8))
  have ne: "make_handle (of_nat i) 0 \<noteq> invalid_handle"
    using i assms(7) unfolding make_handle_invalid by (metis less_irrefl unsigned_0)
  have m: "handle_pool_matches s (make_handle (of_nat i) 0) = Some True"
    unfolding handle_pool_matches_eq [OF s(2)] handle_index_make handle_generation_make i using s(4,5) assms(8) by simp
  have "handle_pool_release s (make_handle (of_nat i) 0) = None"
    using ne m s(6-8) by (auto simp: handle_pool_release_def handle_pool_bump_generation_def bind_eq_None_conv)
  with s(1,3) ne m show ?thesis by (auto simp: handle_pool_valid_def)
qed

theorem handle_pool_accepts_free_slot_witness:
  "\<exists>s. handle_pool_init sample_handle_pool 4096 (Some [5, 5]) (Some [5, 5]) 2 8 8 = Some (Ok, s) \<and>
     handle_pool_valid s (make_handle 1 0) = Some True \<and> handle_pool_release s (make_handle 1 0) = None"
  using handle_pool_accepts_free_slot [of 4096 2 8 "[5, 5]" "[5, 5]" 1 sample_handle_pool 8] by (auto simp: SIZE_MAX_def)

end
