(* ===== verification/Map_Contract.thy ===== *)
theory Map_Contract
  imports Contracts
begin

text \<open>
  What the map containers (FlatMap, HashMap) promise: keys compared by an equivalence, at most one
  value per key, at most \<open>cap\<close> keys. Association lists give the meaning of a container's entries.
\<close>

section \<open>Keys up to an equivalence\<close>

fun assoc :: "('k \<Rightarrow> 'k \<Rightarrow> bool) \<Rightarrow> ('k \<times> 'v) list \<Rightarrow> 'k \<Rightarrow> 'v option" where
  "assoc eq [] x = None"
| "assoc eq ((k, v) # ps) x = (if eq k x then Some v else assoc eq ps x)"

text \<open>No two entries have equivalent keys.\<close>

definition distinct_keys :: "('k \<Rightarrow> 'k \<Rightarrow> bool) \<Rightarrow> ('k \<times> 'v) list \<Rightarrow> bool" where
  "distinct_keys eq ps \<longleftrightarrow> (\<forall>i < length ps. \<forall>j < length ps. eq (fst (ps ! i)) (fst (ps ! j)) \<longrightarrow> i = j)"

lemma assoc_append: "assoc eq (ps @ qs) x = (case assoc eq ps x of None \<Rightarrow> assoc eq qs x | Some v \<Rightarrow> Some v)"
  by (induction ps) auto

lemma assoc_None_iff: "assoc eq ps x = None \<longleftrightarrow> (\<forall>p \<in> set ps. \<not> eq (fst p) x)"
proof (induction ps)
  case (Cons p ps)
  then show ?case by (cases p) simp
qed simp

lemma assoc_Some_ex: "assoc eq ps x = Some v \<Longrightarrow> \<exists>k. (k, v) \<in> set ps \<and> eq k x"
  by (induction ps) (auto split: if_splits)

lemma assoc_first:
  "\<forall>p \<in> set ps. \<not> eq (fst p) x \<Longrightarrow> eq k x \<Longrightarrow> assoc eq (ps @ (k, v) # qs) x = Some v"
  by (induction ps) auto

lemma length_append_Cons_mid: "length ps < length (ps @ p # qs)"
  by simp

locale key_equiv =
  fixes carrier :: "'k \<Rightarrow> bool" and eq :: "'k \<Rightarrow> 'k \<Rightarrow> bool"
  assumes eq_refl: "carrier a \<Longrightarrow> eq a a"
    and eq_sym: "carrier a \<Longrightarrow> carrier b \<Longrightarrow> eq a b \<Longrightarrow> eq b a"
    and eq_trans: "carrier a \<Longrightarrow> carrier b \<Longrightarrow> carrier c \<Longrightarrow> eq a b \<Longrightarrow> eq b c \<Longrightarrow> eq a c"
begin

lemma eq_cong_left: "carrier a \<Longrightarrow> carrier b \<Longrightarrow> carrier x \<Longrightarrow> eq a b \<Longrightarrow> eq a x \<longleftrightarrow> eq b x"
  using eq_sym [of a b] eq_trans [of b a x] eq_trans [of a b x] by blast

lemma eq_cong_right: "carrier a \<Longrightarrow> carrier b \<Longrightarrow> carrier x \<Longrightarrow> eq a b \<Longrightarrow> eq x a \<longleftrightarrow> eq x b"
  using eq_sym [of a b] eq_trans [of x b a] eq_trans [of x a b] by blast

text \<open>An entry under a new key goes anywhere in the list; so does the removal of one.\<close>

lemma assoc_insert:
  assumes "\<forall>p \<in> set (ps @ qs). carrier (fst p) \<and> \<not> eq (fst p) k" "carrier k" "carrier x"
  shows "assoc eq (ps @ (k, v) # qs) x = (if eq k x then Some v else assoc eq (ps @ qs) x)"
proof (cases "eq k x")
  case True
  have "\<not> eq (fst p) x" if "p \<in> set ps" for p
    using that assms True eq_sym [of k x] eq_trans [of "fst p" x k] by auto
  with True show ?thesis by (simp add: assoc_first)
next
  case False
  then show ?thesis by (simp add: assoc_append split: option.splits)
qed

lemma assoc_delete:
  assumes "\<forall>p \<in> set (ps @ qs). carrier (fst p) \<and> \<not> eq (fst p) k" "carrier k" "carrier x"
  shows "assoc eq (ps @ qs) x = (if eq k x then None else assoc eq (ps @ (k, v) # qs) x)"
proof (cases "eq k x")
  case True
  have "\<not> eq (fst p) x" if "p \<in> set (ps @ qs)" for p
    using that assms True eq_sym [of k x] eq_trans [of "fst p" x k] by auto
  then show ?thesis using True by (simp add: assoc_None_iff del: set_append)
next
  case False
  then show ?thesis by (simp add: assoc_append split: option.splits)
qed

text \<open>Overwriting the value of the entry whose key is equivalent to \<open>y\<close>.\<close>

lemma assoc_overwrite:
  assumes "\<forall>p \<in> set (ps @ qs). carrier (fst p) \<and> \<not> eq (fst p) k" "carrier k" "carrier y" "carrier x" "eq k y"
  shows "assoc eq (ps @ (k, v) # qs) x = (if eq y x then Some v else assoc eq (ps @ (k, w) # qs) x)"
proof -
  have "eq k x \<longleftrightarrow> eq y x"
    using assms eq_sym [of k y] eq_trans [of y k x] eq_trans [of k y x] by blast
  then show ?thesis using assoc_insert [OF assms(1,2,4)] by simp
qed

lemma assoc_found:
  assumes "\<forall>p \<in> set (ps @ qs). carrier (fst p) \<and> \<not> eq (fst p) k" "carrier k" "carrier x" "eq k x"
  shows "assoc eq (ps @ (k, v) # qs) x = Some v"
  using assoc_insert [OF assms(1-3)] assms(4) by simp

lemma distinct_keys_split:
  assumes "distinct_keys eq (ps @ (k, v) # qs)" "\<forall>p \<in> set (ps @ (k, v) # qs). carrier (fst p)"
  shows "\<forall>p \<in> set (ps @ qs). carrier (fst p) \<and> \<not> eq (fst p) k"
proof
  fix p
  assume p: "p \<in> set (ps @ qs)"
  let ?l = "ps @ (k, v) # qs"
  from p obtain i where i: "i < length ?l" "?l ! i = p" "i \<noteq> length ps"
  proof (cases "p \<in> set ps")
    case True
    then obtain i where "i < length ps" "ps ! i = p" by (auto simp: in_set_conv_nth)
    then show ?thesis by (intro that [of i]) (simp_all add: nth_append)
  next
    case False
    with p obtain i where "i < length qs" "qs ! i = p" by (auto simp: in_set_conv_nth)
    then show ?thesis by (intro that [of "Suc (length ps + i)"]) (simp_all add: nth_append)
  qed
  have "\<not> eq (fst (?l ! i)) (fst (?l ! length ps))"
    using assms(1) i(1,3) unfolding distinct_keys_def by (metis length_append_Cons_mid)
  then have "\<not> eq (fst p) k" using i(2) by simp
  with p assms(2) show "carrier (fst p) \<and> \<not> eq (fst p) k" by auto
qed

end

sublocale three_way \<subseteq> key_equiv carrier "\<lambda>a b. cmp a b = 0"
proof unfold_locales
  fix a b c
  show "cmp a a = 0" if "carrier a" by (rule cmp_refl [OF that])
  assume ab: "carrier a" "carrier b"
  show "cmp b a = 0" if "cmp a b = 0" using that cmp_zero_sym [OF ab] by simp
  assume c: "carrier c"
  show "cmp a c = 0" if "cmp a b = 0" "cmp b c = 0"
    using that cmp_trans [of a b c] cmp_trans [of c b a] cmp_swap [of a b] cmp_swap [of b c] cmp_swap [of a c] ab c
    by simp
qed

section \<open>Runs of map operations\<close>

datatype ('k, 'v) map_cmd = Put (map_key: 'k) 'v | Get (map_key: 'k) | Remove (map_key: 'k) | Contains (map_key: 'k)

fun map_run ::
  "('s \<Rightarrow> 'k \<Rightarrow> 'v \<Rightarrow> (status \<times> 's) option) \<Rightarrow> ('s \<Rightarrow> 'k \<Rightarrow> (status \<times> 'v option) option) \<Rightarrow>
   ('s \<Rightarrow> 'k \<Rightarrow> (status \<times> 's) option) \<Rightarrow> ('s \<Rightarrow> 'k \<Rightarrow> bool option) \<Rightarrow>
   's \<Rightarrow> ('k, 'v) map_cmd list \<Rightarrow> ((status \<times> 'v option) list \<times> 's) option" where
  "map_run put get rem has s [] = Some ([], s)"
| "map_run put get rem has s (Put k v # cs) = do {
     (st, s') \<leftarrow> put s k v;
     (rs, s'') \<leftarrow> map_run put get rem has s' cs;
     Some ((st, None) # rs, s'')
   }"
| "map_run put get rem has s (Get k # cs) = do {
     r \<leftarrow> get s k;
     (rs, s') \<leftarrow> map_run put get rem has s cs;
     Some (r # rs, s')
   }"
| "map_run put get rem has s (Remove k # cs) = do {
     (st, s') \<leftarrow> rem s k;
     (rs, s'') \<leftarrow> map_run put get rem has s' cs;
     Some ((st, None) # rs, s'')
   }"
| "map_run put get rem has s (Contains k # cs) = do {
     b \<leftarrow> has s k;
     (rs, s') \<leftarrow> map_run put get rem has s cs;
     Some ((if b then Ok else Not_found, None) # rs, s')
   }"

definition map_upd :: "('k \<Rightarrow> 'k \<Rightarrow> bool) \<Rightarrow> ('k \<Rightarrow> 'v option) \<Rightarrow> 'k \<Rightarrow> 'v option \<Rightarrow> 'k \<Rightarrow> 'v option" where
  "map_upd eq m k r = (\<lambda>x. if eq k x then r else m x)"

text \<open>The specification: a function from keys to values and the number of keys it holds.\<close>

fun map_spec ::
  "('k \<Rightarrow> 'k \<Rightarrow> bool) \<Rightarrow> nat \<Rightarrow> ('k \<Rightarrow> 'v option) \<times> nat \<Rightarrow> ('k, 'v) map_cmd list \<Rightarrow>
   (status \<times> 'v option) list \<times> ('k \<Rightarrow> 'v option) \<times> nat" where
  "map_spec eq cap (m, n) [] = ([], m, n)"
| "map_spec eq cap (m, n) (Put k v # cs) =
     (if m k \<noteq> None \<or> n < cap
      then let (rs, r) = map_spec eq cap (map_upd eq m k (Some v), if m k \<noteq> None then n else Suc n) cs in ((Ok, None) # rs, r)
      else let (rs, r) = map_spec eq cap (m, n) cs in ((Full, None) # rs, r))"
| "map_spec eq cap (m, n) (Get k # cs) =
     (let (rs, r) = map_spec eq cap (m, n) cs in ((if m k = None then Not_found else Ok, m k) # rs, r))"
| "map_spec eq cap (m, n) (Remove k # cs) =
     (if m k \<noteq> None
      then let (rs, r) = map_spec eq cap (map_upd eq m k None, n - 1) cs in ((Ok, None) # rs, r)
      else let (rs, r) = map_spec eq cap (m, n) cs in ((Not_found, None) # rs, r))"
| "map_spec eq cap (m, n) (Contains k # cs) =
     (let (rs, r) = map_spec eq cap (m, n) cs in ((if m k = None then Not_found else Ok, None) # rs, r))"

locale finite_map =
  fixes carrier :: "'k \<Rightarrow> bool" and eq :: "'k \<Rightarrow> 'k \<Rightarrow> bool" and inv :: "'s \<Rightarrow> bool"
    and lookup :: "'s \<Rightarrow> 'k \<Rightarrow> 'v option" and count :: "'s \<Rightarrow> nat" and cap :: "'s \<Rightarrow> nat"
    and put :: "'s \<Rightarrow> 'k \<Rightarrow> 'v \<Rightarrow> (status \<times> 's) option" and get :: "'s \<Rightarrow> 'k \<Rightarrow> (status \<times> 'v option) option"
    and rem :: "'s \<Rightarrow> 'k \<Rightarrow> (status \<times> 's) option" and has :: "'s \<Rightarrow> 'k \<Rightarrow> bool option"
  assumes put_old: "inv s \<Longrightarrow> carrier k \<Longrightarrow> lookup s k \<noteq> None \<Longrightarrow>
      \<exists>s'. put s k v = Some (Ok, s') \<and> inv s' \<and> count s' = count s \<and> cap s' = cap s \<and>
        (\<forall>x. carrier x \<longrightarrow> lookup s' x = (if eq k x then Some v else lookup s x))"
    and put_new: "inv s \<Longrightarrow> carrier k \<Longrightarrow> lookup s k = None \<Longrightarrow> count s < cap s \<Longrightarrow>
      \<exists>s'. put s k v = Some (Ok, s') \<and> inv s' \<and> count s' = Suc (count s) \<and> cap s' = cap s \<and>
        (\<forall>x. carrier x \<longrightarrow> lookup s' x = (if eq k x then Some v else lookup s x))"
    and put_full: "inv s \<Longrightarrow> carrier k \<Longrightarrow> lookup s k = None \<Longrightarrow> cap s \<le> count s \<Longrightarrow> put s k v = Some (Full, s)"
    and get_eq: "inv s \<Longrightarrow> carrier k \<Longrightarrow> get s k = Some (if lookup s k = None then Not_found else Ok, lookup s k)"
    and rem_old: "inv s \<Longrightarrow> carrier k \<Longrightarrow> lookup s k \<noteq> None \<Longrightarrow>
      \<exists>s'. rem s k = Some (Ok, s') \<and> inv s' \<and> count s' = count s - 1 \<and> cap s' = cap s \<and>
        (\<forall>x. carrier x \<longrightarrow> lookup s' x = (if eq k x then None else lookup s x))"
    and rem_none: "inv s \<Longrightarrow> carrier k \<Longrightarrow> lookup s k = None \<Longrightarrow> rem s k = Some (Not_found, s)"
    and has_eq: "inv s \<Longrightarrow> carrier k \<Longrightarrow> has s k = Some (lookup s k \<noteq> None)"
begin

lemma put_any:
  assumes "inv s" "carrier k" "lookup s k \<noteq> None \<or> count s < cap s"
  shows "\<exists>s'. put s k v = Some (Ok, s') \<and> inv s' \<and> count s' = (if lookup s k \<noteq> None then count s else Suc (count s)) \<and>
    cap s' = cap s \<and> (\<forall>x. carrier x \<longrightarrow> lookup s' x = (if eq k x then Some v else lookup s x))"
proof (cases "lookup s k = None")
  case True
  with put_new [OF assms(1,2), of v] assms(3) show ?thesis by simp
next
  case False
  with put_old [OF assms(1,2), of v] show ?thesis by simp
qed

text \<open>What is put can be read back.\<close>

lemma put_get:
  assumes "inv s" "carrier k" "eq k k" "lookup s k \<noteq> None \<or> count s < cap s"
  shows "\<exists>s'. put s k v = Some (Ok, s') \<and> inv s' \<and> get s' k = Some (Ok, Some v)"
proof -
  from put_any [OF assms(1,2,4), of v] obtain s' where
    "put s k v = Some (Ok, s')" "inv s'" "\<forall>x. carrier x \<longrightarrow> lookup s' x = (if eq k x then Some v else lookup s x)"
    by blast
  with get_eq [of s' k] assms(2,3) show ?thesis by auto
qed

lemma run_refines:
  assumes "inv s" "list_all (\<lambda>c. carrier (map_key c)) cs"
    "\<And>x. carrier x \<Longrightarrow> m x = lookup s x"
  shows "\<exists>rs s' m'. map_run put get rem has s cs = Some (rs, s') \<and> inv s' \<and> cap s' = cap s \<and>
    map_spec eq (cap s) (m, count s) cs = (rs, m', count s') \<and> (\<forall>x. carrier x \<longrightarrow> m' x = lookup s' x)"
  using assms
proof (induction cs arbitrary: s m)
  case Nil
  then show ?case by simp
next
  case (Cons c cs)
  then have car: "carrier (map_key c)" "list_all (\<lambda>c. carrier (map_key c)) cs" and m: "m (map_key c) = lookup s (map_key c)"
    by simp_all
  note same = Cons.IH [OF Cons.prems(1) car(2) Cons.prems(3)]
  show ?case
  proof (cases c)
    case (Put k v)
    show ?thesis
    proof (cases "lookup s k \<noteq> None \<or> count s < cap s")
      case True
      from put_any [OF Cons.prems(1) _ True, of v] car(1) Put obtain s' where
        s': "put s k v = Some (Ok, s')" "inv s'" "count s' = (if lookup s k \<noteq> None then count s else Suc (count s))"
        "cap s' = cap s" "\<forall>x. carrier x \<longrightarrow> lookup s' x = (if eq k x then Some v else lookup s x)" by auto
      have "map_upd eq m k (Some v) x = lookup s' x" if "carrier x" for x
        using s'(5) that Cons.prems(3) by (simp add: map_upd_def)
      from Cons.IH [OF s'(2) car(2) this] obtain rs s2 m2 where
        "map_run put get rem has s' cs = Some (rs, s2)" "inv s2" "cap s2 = cap s'"
        "map_spec eq (cap s') (map_upd eq m k (Some v), count s') cs = (rs, m2, count s2)"
        "\<forall>x. carrier x \<longrightarrow> m2 x = lookup s2 x" by blast
      with s' True m Put show ?thesis by auto
    next
      case False
      with put_full [OF Cons.prems(1), of k v] car(1) Put have "put s k v = Some (Full, s)" by simp
      with same False m Put show ?thesis by auto
    qed
  next
    case (Get k)
    with get_eq [OF Cons.prems(1), of k] car(1) same m show ?thesis by auto
  next
    case (Remove k)
    show ?thesis
    proof (cases "lookup s k = None")
      case True
      with rem_none [OF Cons.prems(1), of k] car(1) Remove same m show ?thesis by auto
    next
      case False
      with rem_old [OF Cons.prems(1), of k] car(1) Remove obtain s' where
        s': "rem s k = Some (Ok, s')" "inv s'" "count s' = count s - 1" "cap s' = cap s"
        "\<forall>x. carrier x \<longrightarrow> lookup s' x = (if eq k x then None else lookup s x)" by auto
      have "map_upd eq m k None x = lookup s' x" if "carrier x" for x
        using s'(5) that Cons.prems(3) by (simp add: map_upd_def)
      from Cons.IH [OF s'(2) car(2) this] obtain rs s2 m2 where
        "map_run put get rem has s' cs = Some (rs, s2)" "inv s2" "cap s2 = cap s'"
        "map_spec eq (cap s') (map_upd eq m k None, count s') cs = (rs, m2, count s2)"
        "\<forall>x. carrier x \<longrightarrow> m2 x = lookup s2 x" by blast
      with s' False m Remove show ?thesis by auto
    qed
  next
    case (Contains k)
    with has_eq [OF Cons.prems(1), of k] car(1) same m show ?thesis by auto
  qed
qed

end

section \<open>Maps that make room\<close>

text \<open>
  A map that grows on demand promises less: \<open>inv p r s\<close> says that \<open>p\<close> more calls of put and \<open>r\<close> more
  calls of remove are within its means (free slots, address space). Within them no put is refused.
\<close>

fun puts :: "('k, 'v) map_cmd list \<Rightarrow> nat" where
  "puts [] = 0"
| "puts (Put k v # cs) = Suc (puts cs)"
| "puts (c # cs) = puts cs"

fun removes :: "('k, 'v) map_cmd list \<Rightarrow> nat" where
  "removes [] = 0"
| "removes (Remove k # cs) = Suc (removes cs)"
| "removes (c # cs) = removes cs"

locale growing_map =
  fixes carrier :: "'k \<Rightarrow> bool" and eq :: "'k \<Rightarrow> 'k \<Rightarrow> bool" and inv :: "nat \<Rightarrow> nat \<Rightarrow> 's \<Rightarrow> bool"
    and lookup :: "'s \<Rightarrow> 'k \<Rightarrow> 'v option" and count :: "'s \<Rightarrow> nat"
    and put :: "'s \<Rightarrow> 'k \<Rightarrow> 'v \<Rightarrow> (status \<times> 's) option" and get :: "'s \<Rightarrow> 'k \<Rightarrow> (status \<times> 'v option) option"
    and rem :: "'s \<Rightarrow> 'k \<Rightarrow> (status \<times> 's) option" and has :: "'s \<Rightarrow> 'k \<Rightarrow> bool option"
  assumes inv_mono: "inv p (Suc r) s \<Longrightarrow> inv p r s"
    and put_ok: "inv (Suc p) r s \<Longrightarrow> carrier k \<Longrightarrow>
      \<exists>s'. put s k v = Some (Ok, s') \<and> inv p r s' \<and> count s' = (if lookup s k \<noteq> None then count s else Suc (count s)) \<and>
        (\<forall>x. carrier x \<longrightarrow> lookup s' x = (if eq k x then Some v else lookup s x))"
    and get_eq: "inv p r s \<Longrightarrow> carrier k \<Longrightarrow> get s k = Some (if lookup s k = None then Not_found else Ok, lookup s k)"
    and rem_old: "inv p (Suc r) s \<Longrightarrow> carrier k \<Longrightarrow> lookup s k \<noteq> None \<Longrightarrow>
      \<exists>s'. rem s k = Some (Ok, s') \<and> inv p r s' \<and> count s' = count s - 1 \<and>
        (\<forall>x. carrier x \<longrightarrow> lookup s' x = (if eq k x then None else lookup s x))"
    and rem_none: "inv p r s \<Longrightarrow> carrier k \<Longrightarrow> lookup s k = None \<Longrightarrow> rem s k = Some (Not_found, s)"
    and has_eq: "inv p r s \<Longrightarrow> carrier k \<Longrightarrow> has s k = Some (lookup s k \<noteq> None)"
begin

lemma put_get:
  assumes "inv (Suc p) r s" "carrier k" "eq k k"
  shows "\<exists>s'. put s k v = Some (Ok, s') \<and> get s' k = Some (Ok, Some v)"
proof -
  from put_ok [OF assms(1,2), of v] obtain s' where
    "put s k v = Some (Ok, s')" "inv p r s'" "\<forall>x. carrier x \<longrightarrow> lookup s' x = (if eq k x then Some v else lookup s x)"
    by blast
  with get_eq [of p r s' k] assms(2,3) show ?thesis by auto
qed

lemma run_refines:
  assumes "inv (p + puts cs) (r + removes cs) s" "list_all (\<lambda>c. carrier (map_key c)) cs" "count s + puts cs \<le> cap"
    "\<And>x. carrier x \<Longrightarrow> m x = lookup s x"
  shows "\<exists>rs s' m'. map_run put get rem has s cs = Some (rs, s') \<and> inv p r s' \<and>
    map_spec eq cap (m, count s) cs = (rs, m', count s') \<and> (\<forall>x. carrier x \<longrightarrow> m' x = lookup s' x)"
  using assms
proof (induction cs arbitrary: s m)
  case Nil
  then show ?case by simp
next
  case (Cons c cs)
  then have car: "carrier (map_key c)" "list_all (\<lambda>c. carrier (map_key c)) cs" and m: "m (map_key c) = lookup s (map_key c)"
    by simp_all
  show ?case
  proof (cases c)
    case (Put k v)
    with Cons.prems car have pre: "inv (Suc (p + puts cs)) (r + removes cs) s" "carrier k" "count s < cap" by simp_all
    from put_ok [OF pre(1,2), of v] obtain s' where
      s': "put s k v = Some (Ok, s')" "inv (p + puts cs) (r + removes cs) s'" "count s' = (if lookup s k \<noteq> None then count s else Suc (count s))"
      "\<forall>x. carrier x \<longrightarrow> lookup s' x = (if eq k x then Some v else lookup s x)" by blast
    have u: "map_upd eq m k (Some v) x = lookup s' x" if "carrier x" for x
      using s'(4) that Cons.prems(4) by (simp add: map_upd_def)
    have c': "count s' + puts cs \<le> cap" using s'(3) Put Cons.prems(3) by (simp split: if_splits)
    from Cons.IH [OF s'(2) car(2) c' u] obtain rs s2 m2 where
      "map_run put get rem has s' cs = Some (rs, s2)" "inv p r s2"
      "map_spec eq cap (map_upd eq m k (Some v), count s') cs = (rs, m2, count s2)"
      "\<forall>x. carrier x \<longrightarrow> m2 x = lookup s2 x" by blast
    with s' pre(3) m Put show ?thesis by (auto simp del: not_None_eq)
  next
    case (Get k)
    with Cons.prems have "inv (p + puts cs) (r + removes cs) s" "count s + puts cs \<le> cap" by simp_all
    from Cons.IH [OF this(1) car(2) this(2) Cons.prems(4)] get_eq [OF this(1), of k] car(1) m Get show ?thesis by auto
  next
    case (Remove k)
    with Cons.prems have i: "inv (p + puts cs) (Suc (r + removes cs)) s" "count s + puts cs \<le> cap" by simp_all
    show ?thesis
    proof (cases "lookup s k = None")
      case True
      with Cons.IH [OF inv_mono [OF i(1)] car(2) i(2) Cons.prems(4)] rem_none [OF i(1), of k] car(1) Remove m show ?thesis by auto
    next
      case False
      with rem_old [OF i(1), of k] car(1) Remove obtain s' where
        s': "rem s k = Some (Ok, s')" "inv (p + puts cs) (r + removes cs) s'" "count s' = count s - 1"
        "\<forall>x. carrier x \<longrightarrow> lookup s' x = (if eq k x then None else lookup s x)" by auto
      have u: "map_upd eq m k None x = lookup s' x" if "carrier x" for x
        using s'(4) that Cons.prems(4) by (simp add: map_upd_def)
      have c': "count s' + puts cs \<le> cap" using s'(3) i(2) by simp
      from Cons.IH [OF s'(2) car(2) c' u] obtain rs s2 m2 where
        "map_run put get rem has s' cs = Some (rs, s2)" "inv p r s2"
        "map_spec eq cap (map_upd eq m k None, count s') cs = (rs, m2, count s2)"
        "\<forall>x. carrier x \<longrightarrow> m2 x = lookup s2 x" by blast
      with s' False m Remove show ?thesis by auto
    qed
  next
    case (Contains k)
    with Cons.prems have "inv (p + puts cs) (r + removes cs) s" "count s + puts cs \<le> cap" by simp_all
    from Cons.IH [OF this(1) car(2) this(2) Cons.prems(4)] has_eq [OF this(1), of k] car(1) m Contains show ?thesis by auto
  qed
qed

end

end
