(* ===== verification/Flat_Map.thy ===== *)
theory Flat_Map
  imports Map_Contract Policy
begin

text \<open>
  \<^verbatim>\<open>include/memkit/detail/flat_map_core.hpp\<close>: a map as an array of entries sorted by key,
  searched by bisection.

  A slot of the array holds a key and a value. The core is used with typed policies (a runtime policy
  has no \<open>move_construct\<close>), so copying cannot fail. \<open>fm_destroyed\<close> is the trace of the keys
  (\<open>Inl\<close>) and values (\<open>Inr\<close>) whose destructors ran.
\<close>

section \<open>Model\<close>

record ('k, 'v) flat_map =
  fm_key_policy :: "'k elem_policy"
  fm_value_policy :: "'v elem_policy"
  fm_compare :: "'k \<Rightarrow> 'k \<Rightarrow> int"
  fm_storage :: "('k \<times> 'v) mem"
  fm_capacity :: nat
  fm_size :: nat
  fm_stride :: u64
  fm_value_offset :: u64
  fm_policy :: u8
  fm_kind :: u8
  fm_destroyed :: "('k + 'v) list"

definition entry_stride :: "u64 \<Rightarrow> u64 \<Rightarrow> u64 \<Rightarrow> u64" where
  "entry_stride max_align key_size value_size =
     (let value_off = align_up key_size (bytes_alignment max_align value_size) in value_off + value_size)"

definition flat_map_init ::
  "u64 \<Rightarrow> ('k, 'v) flat_map \<Rightarrow> 'k elem_policy \<Rightarrow> 'v elem_policy \<Rightarrow> ('k \<Rightarrow> 'k \<Rightarrow> int) \<Rightarrow> ('k \<times> 'v) mem \<Rightarrow> nat \<Rightarrow> u8 \<Rightarrow>
   status \<times> ('k, 'v) flat_map" where
  "flat_map_init max_align s key_policy value_policy compare entry_storage capacity policy =
     (if entry_storage = None \<or> capacity = 0 then (Invalid, s)
      else (Ok, s\<lparr>fm_key_policy := key_policy, fm_value_policy := value_policy, fm_compare := compare,
              fm_storage := entry_storage, fm_capacity := capacity, fm_size := 0,
              fm_stride := entry_stride max_align (of_nat (ep_size key_policy)) (of_nat (ep_size value_policy)),
              fm_value_offset := align_up (of_nat (ep_size key_policy)) (of_nat (ep_align value_policy)),
              fm_policy := policy, fm_kind := 0\<rparr>))"

definition flat_map_reset_state ::
  "'k elem_policy \<Rightarrow> 'v elem_policy \<Rightarrow> ('k \<Rightarrow> 'k \<Rightarrow> int) \<Rightarrow> ('k, 'v) flat_map \<Rightarrow> ('k, 'v) flat_map" where
  "flat_map_reset_state key_policy value_policy compare s =
     s\<lparr>fm_key_policy := key_policy, fm_value_policy := value_policy, fm_compare := compare, fm_storage := None,
       fm_capacity := 0, fm_size := 0, fm_stride := 0, fm_value_offset := 0, fm_kind := 0\<rparr>"

definition flat_map_set_storage_kind :: "('k, 'v) flat_map \<Rightarrow> u8 \<Rightarrow> ('k, 'v) flat_map" where
  "flat_map_set_storage_kind s kind = s\<lparr>fm_kind := kind\<rparr>"

definition flat_map_full :: "('k, 'v) flat_map \<Rightarrow> bool" where
  "flat_map_full s \<longleftrightarrow> fm_size s \<ge> fm_capacity s"

definition destroy_key :: "'k \<Rightarrow> ('k, 'v) flat_map \<Rightarrow> ('k, 'v) flat_map" where
  "destroy_key k s = (if ep_destroy (fm_key_policy s) then s\<lparr>fm_destroyed := fm_destroyed s @ [Inl k]\<rparr> else s)"

definition destroy_value :: "'v \<Rightarrow> ('k, 'v) flat_map \<Rightarrow> ('k, 'v) flat_map" where
  "destroy_value v s = (if ep_destroy (fm_value_policy s) then s\<lparr>fm_destroyed := fm_destroyed s @ [Inr v]\<rparr> else s)"

definition destroy_entry_at :: "('k, 'v) flat_map \<Rightarrow> nat \<Rightarrow> ('k, 'v) flat_map option" where
  "destroy_entry_at s index = do {
     (k, v) \<leftarrow> mem_rd (fm_storage s) index;
     Some (destroy_value v (destroy_key k s))
   }"

definition move_entry :: "('k, 'v) flat_map \<Rightarrow> nat \<Rightarrow> nat \<Rightarrow> ('k, 'v) flat_map option" where
  "move_entry s from to = do {
     (k, v) \<leftarrow> mem_rd (fm_storage s) from;
     m \<leftarrow> mem_wr (fm_storage s) to (k, v);
     let k' = ep_moved (fm_key_policy s) k;
     let v' = ep_moved (fm_value_policy s) v;
     m' \<leftarrow> mem_wr m from (k', v');
     Some (destroy_value v' (destroy_key k' (s\<lparr>fm_storage := m'\<rparr>)))
   }"

text \<open>The loops over \<open>i\<close>, with \<open>n\<close> rounds left: from \<open>size_\<close> down to \<open>index\<close>, and from \<open>index\<close> up.\<close>

fun shift_right_from :: "('k, 'v) flat_map \<Rightarrow> nat \<Rightarrow> nat \<Rightarrow> ('k, 'v) flat_map option" where
  "shift_right_from s i 0 = Some s"
| "shift_right_from s i (Suc n) = do {
     s' \<leftarrow> move_entry s (i - 1) i;
     shift_right_from s' (i - 1) n
   }"

fun shift_left_from :: "('k, 'v) flat_map \<Rightarrow> nat \<Rightarrow> nat \<Rightarrow> ('k, 'v) flat_map option" where
  "shift_left_from s i 0 = Some s"
| "shift_left_from s i (Suc n) = do {
     s' \<leftarrow> move_entry s i (i - 1);
     shift_left_from s' (Suc i) n
   }"

fun flat_map_clear_loop :: "('k, 'v) flat_map \<Rightarrow> nat \<Rightarrow> nat \<Rightarrow> ('k, 'v) flat_map option" where
  "flat_map_clear_loop s i 0 = Some s"
| "flat_map_clear_loop s i (Suc n) = do {
     s' \<leftarrow> destroy_entry_at s i;
     flat_map_clear_loop s' (Suc i) n
   }"

definition flat_map_clear :: "('k, 'v) flat_map \<Rightarrow> ('k, 'v) flat_map option" where
  "flat_map_clear s = do {
     s' \<leftarrow> flat_map_clear_loop s 0 (fm_size s);
     Some (s'\<lparr>fm_size := 0\<rparr>)
   }"

text \<open>The bisection; as \<open>lo < hi\<close>, none of its additions wraps.\<close>

function flat_map_find_loop :: "('k, 'v) flat_map \<Rightarrow> 'k \<Rightarrow> nat \<Rightarrow> nat \<Rightarrow> (status \<times> nat) option" where
  "flat_map_find_loop s key lo hi =
     (if lo < hi then
        let mid = lo + (hi - lo) div 2 in do {
          (k, _) \<leftarrow> mem_rd (fm_storage s) mid;
          let cmp = fm_compare s k key;
          if cmp < 0 then flat_map_find_loop s key (mid + 1) hi
          else if cmp > 0 then flat_map_find_loop s key lo mid
          else Some (Ok, mid)
        }
      else Some (Not_found, lo))"
  by auto
termination
  by (relation "measure (\<lambda>(s, key, lo, hi). hi - lo)") auto

declare flat_map_find_loop.simps [simp del]

text \<open>\<open>null_out\<close>: whether \<open>out_index\<close> is null. The index is returned when it is written.\<close>

definition flat_map_find_index :: "('k, 'v) flat_map \<Rightarrow> 'k option \<Rightarrow> bool \<Rightarrow> (status \<times> nat option) option" where
  "flat_map_find_index s key null_out =
     (if key = None \<or> null_out then Some (Null_ptr, None)
      else do {
        (st, i) \<leftarrow> flat_map_find_loop s (the key) 0 (fm_size s);
        Some (st, Some i)
      })"

text \<open>\<open>get\<close> writes through \<open>out_value\<close> without a null check.\<close>

definition flat_map_get :: "('k, 'v) flat_map \<Rightarrow> 'k option \<Rightarrow> 'v option \<Rightarrow> (status \<times> 'v option) option" where
  "flat_map_get s key out_value = do {
     (st, i) \<leftarrow> flat_map_find_index s key False;
     if st \<noteq> Ok then Some (Not_found, out_value)
     else do {
       (_, v) \<leftarrow> mem_rd (fm_storage s) (the i);
       out \<leftarrow> out_value;
       Some (Ok, Some (snd (copy_construct (fm_value_policy s) out v)))
     }
   }"

definition flat_map_put :: "('k, 'v) flat_map \<Rightarrow> 'k option \<Rightarrow> 'v option \<Rightarrow> (status \<times> ('k, 'v) flat_map) option" where
  "flat_map_put s key value =
     (case (key, value) of
        (Some k, Some v) \<Rightarrow> do {
          (st, i) \<leftarrow> flat_map_find_index s (Some k) False;
          let index = the i;
          if st = Ok then do {
            (k0, v0) \<leftarrow> mem_rd (fm_storage s) index;
            let s1 = destroy_value v0 s;
            m \<leftarrow> mem_wr (fm_storage s1) index (k0, snd (copy_construct (fm_value_policy s1) v0 v));
            Some (Ok, s1\<lparr>fm_storage := m\<rparr>)
          }
          else if flat_map_full s then Some (Full, s)
          else do {
            s1 \<leftarrow> (if index < fm_size s then shift_right_from s (fm_size s) (fm_size s - index) else Some s);
            (k0, v0) \<leftarrow> mem_rd (fm_storage s1) index;
            m \<leftarrow> mem_wr (fm_storage s1) index
              (snd (copy_construct (fm_key_policy s1) k0 k), snd (copy_construct (fm_value_policy s1) v0 v));
            Some (Ok, s1\<lparr>fm_storage := m, fm_size := sz_add (fm_size s1) 1\<rparr>)
          }
        }
      | _ \<Rightarrow> Some (Null_ptr, s))"

text \<open>\<open>remove\<close>; the out value is \<open>None\<close> when \<open>out_value\<close> is null.\<close>

definition flat_map_remove ::
  "('k, 'v) flat_map \<Rightarrow> 'k option \<Rightarrow> 'v option \<Rightarrow> (status \<times> 'v option \<times> ('k, 'v) flat_map) option" where
  "flat_map_remove s key out_value = do {
     (st, i) \<leftarrow> flat_map_find_index s key False;
     if st \<noteq> Ok then Some (Not_found, out_value, s)
     else
       let index = the i in do {
         (_, v) \<leftarrow> mem_rd (fm_storage s) index;
         let out = map_option (\<lambda>o0. snd (copy_construct (fm_value_policy s) o0 v)) out_value;
         s1 \<leftarrow> destroy_entry_at s index;
         s2 \<leftarrow> shift_left_from s1 (index + 1) (fm_size s1 - (index + 1));
         Some (Ok, out, s2\<lparr>fm_size := sz_sub (fm_size s2) 1\<rparr>)
       }
   }"

definition flat_map_contains :: "('k, 'v) flat_map \<Rightarrow> 'k option \<Rightarrow> bool option" where
  "flat_map_contains s key = do {
     (st, _) \<leftarrow> flat_map_find_index s key False;
     Some (st = Ok)
   }"

end
