(* ===== verification/Flat_Map_Correct.thy ===== *)
theory Flat_Map_Correct
  imports Flat_Map
begin

text \<open>
  Correctness of the flat map: the entries stay sorted by key, bisection finds the place of a key, and
  put, get, remove and contains are those of a finite map with at most \<open>capacity\<close> keys.
\<close>

section \<open>Moving entries\<close>

definition flat_map_frame :: "('k, 'v) flat_map \<Rightarrow> ('k, 'v) flat_map \<Rightarrow> bool" where
  "flat_map_frame s s' \<longleftrightarrow> fm_key_policy s' = fm_key_policy s \<and> fm_value_policy s' = fm_value_policy s \<and>
     fm_compare s' = fm_compare s \<and> fm_capacity s' = fm_capacity s"

lemma flat_map_frame_refl [simp]: "flat_map_frame s s"
  by (simp add: flat_map_frame_def)

lemma destroy_simps [simp]:
  "fm_storage (destroy_key k s) = fm_storage s" "fm_storage (destroy_value v s) = fm_storage s"
  "fm_size (destroy_key k s) = fm_size s" "fm_size (destroy_value v s) = fm_size s"
  "fm_capacity (destroy_key k s) = fm_capacity s" "fm_capacity (destroy_value v s) = fm_capacity s"
  "fm_key_policy (destroy_key k s) = fm_key_policy s" "fm_key_policy (destroy_value v s) = fm_key_policy s"
  "fm_value_policy (destroy_key k s) = fm_value_policy s" "fm_value_policy (destroy_value v s) = fm_value_policy s"
  "fm_compare (destroy_key k s) = fm_compare s" "fm_compare (destroy_value v s) = fm_compare s"
  by (simp_all add: destroy_key_def destroy_value_def)

text \<open>Shifting right by one opens slot \<open>i - n\<close>; the slots outside keep their entries.\<close>

lemma shift_right_from_eq:
  assumes "fm_storage s = Some es" "i < length es" "n \<le> i"
  shows "\<exists>s' fs. shift_right_from s i n = Some s' \<and> fm_storage s' = Some fs \<and> length fs = length es \<and>
    flat_map_frame s s' \<and> fm_size s' = fm_size s \<and>
    (\<forall>k < length es. k \<noteq> i - n \<or> n = 0 \<longrightarrow> fs ! k = (if i - n < k \<and> k \<le> i then es ! (k - 1) else es ! k))"
  using assms
proof (induction n arbitrary: i s es)
  case 0
  then show ?case by (intro exI [of _ s] exI [of _ es]) auto
next
  case (Suc n)
  obtain k v where kv: "es ! (i - 1) = (k, v)" by (cases "es ! (i - 1)") auto
  let ?k = "ep_moved (fm_key_policy s) k" and ?v = "ep_moved (fm_value_policy s) v"
  let ?es = "es[i := (k, v), i - 1 := (?k, ?v)]"
  let ?s = "destroy_value ?v (destroy_key ?k (s\<lparr>fm_storage := Some ?es\<rparr>))"
  have step: "move_entry s (i - 1) i = Some ?s" using Suc.prems kv by (simp add: move_entry_def Let_def)
  have pre: "fm_storage ?s = Some ?es" "i - 1 < length ?es" "n \<le> i - 1" using Suc.prems by simp_all
  from Suc.IH [OF pre] obtain s' fs where
    s': "shift_right_from ?s (i - 1) n = Some s'" "fm_storage s' = Some fs" "length fs = length ?es"
    "flat_map_frame ?s s'" "fm_size s' = fm_size ?s"
    "\<forall>k < length ?es. k \<noteq> i - 1 - n \<or> n = 0 \<longrightarrow> fs ! k = (if i - 1 - n < k \<and> k \<le> i - 1 then ?es ! (k - 1) else ?es ! k)"
    by blast
  have "fs ! j = (if i - Suc n < j \<and> j \<le> i then es ! (j - 1) else es ! j)" if "j < length es" "j \<noteq> i - Suc n" for j
  proof (cases "n = 0")
    case True
    then show ?thesis using s'(6) that Suc.prems kv by (cases "j = i") auto
  next
    case False
    then show ?thesis using s'(6) that Suc.prems kv by (cases "j = i"; cases "j = i - 1") (auto simp: nth_list_update)
  qed
  moreover have "flat_map_frame s s'" using s'(4) by (simp add: flat_map_frame_def)
  ultimately show ?case using step s'(1-3,5) by (intro exI [of _ s'] exI [of _ fs]) simp
qed

lemma shift_left_from_eq:
  assumes "fm_storage s = Some es" "i + n \<le> length es" "0 < i"
  shows "\<exists>s' fs. shift_left_from s i n = Some s' \<and> fm_storage s' = Some fs \<and> length fs = length es \<and>
    flat_map_frame s s' \<and> fm_size s' = fm_size s \<and>
    (\<forall>k < length es. k \<noteq> i + n - 1 \<or> n = 0 \<longrightarrow> fs ! k = (if i \<le> Suc k \<and> Suc k < i + n then es ! Suc k else es ! k))"
  using assms
proof (induction n arbitrary: i s es)
  case 0
  then show ?case by (intro exI [of _ s] exI [of _ es]) auto
next
  case (Suc n)
  obtain k v where kv: "es ! i = (k, v)" by (cases "es ! i") auto
  let ?k = "ep_moved (fm_key_policy s) k" and ?v = "ep_moved (fm_value_policy s) v"
  let ?es = "es[i - 1 := (k, v), i := (?k, ?v)]"
  let ?s = "destroy_value ?v (destroy_key ?k (s\<lparr>fm_storage := Some ?es\<rparr>))"
  have step: "move_entry s i (i - 1) = Some ?s" using Suc.prems kv by (simp add: move_entry_def Let_def)
  have pre: "fm_storage ?s = Some ?es" "Suc i + n \<le> length ?es" "0 < Suc i" using Suc.prems by simp_all
  from Suc.IH [OF pre] obtain s' fs where
    s': "shift_left_from ?s (Suc i) n = Some s'" "fm_storage s' = Some fs" "length fs = length ?es"
    "flat_map_frame ?s s'" "fm_size s' = fm_size ?s"
    "\<forall>k < length ?es. k \<noteq> Suc i + n - 1 \<or> n = 0 \<longrightarrow>
      fs ! k = (if Suc i \<le> Suc k \<and> Suc k < Suc i + n then ?es ! Suc k else ?es ! k)"
    by blast
  have "fs ! j = (if i \<le> Suc j \<and> Suc j < i + Suc n then es ! Suc j else es ! j)" if "j < length es" "j \<noteq> i + n" for j
    using s'(6) that Suc.prems kv by (cases "Suc j = i") (auto simp: nth_list_update)
  moreover have "flat_map_frame s s'" using s'(4) by (simp add: flat_map_frame_def)
  ultimately show ?case using step s'(1-3,5) by (intro exI [of _ s'] exI [of _ fs]) simp
qed

section \<open>Invariant\<close>

definition flat_map_entries :: "('k, 'v) flat_map \<Rightarrow> ('k \<times> 'v) list" where
  "flat_map_entries s = (case fm_storage s of None \<Rightarrow> [] | Some es \<Rightarrow> take (fm_size s) es)"

definition flat_map_wf :: "('k \<Rightarrow> bool) \<Rightarrow> ('k \<Rightarrow> 'k \<Rightarrow> int) \<Rightarrow> ('k, 'v) flat_map \<Rightarrow> bool" where
  "flat_map_wf carrier cmp s \<longleftrightarrow> fm_compare s = cmp \<and> faithful (fm_key_policy s) \<and> faithful (fm_value_policy s) \<and>
     fm_size s \<le> fm_capacity s \<and> fm_capacity s \<le> SIZE_MAX \<and>
     (\<exists>es. fm_storage s = Some es \<and> fm_capacity s \<le> length es) \<and>
     list_all (\<lambda>p. carrier (fst p)) (flat_map_entries s) \<and>
     sorted_wrt (\<lambda>p q. cmp (fst p) (fst q) < 0) (flat_map_entries s)"

lemma flat_map_wfE:
  assumes "flat_map_wf carrier cmp s"
  obtains es where "fm_storage s = Some es" "fm_capacity s \<le> length es" "fm_compare s = cmp"
    "faithful (fm_key_policy s)" "faithful (fm_value_policy s)" "fm_size s \<le> fm_capacity s" "fm_capacity s \<le> SIZE_MAX"
    "flat_map_entries s = take (fm_size s) es" "\<And>i. i < fm_size s \<Longrightarrow> carrier (fst (es ! i))"
    "\<And>i j. i < j \<Longrightarrow> j < fm_size s \<Longrightarrow> cmp (fst (es ! i)) (fst (es ! j)) < 0"
proof -
  from assms obtain es where es: "fm_storage s = Some es" "fm_capacity s \<le> length es" by (auto simp: flat_map_wf_def)
  then have ent: "flat_map_entries s = take (fm_size s) es" by (simp add: flat_map_entries_def)
  with assms es show ?thesis
    by (intro that [of es]) (auto simp: flat_map_wf_def list_all_length sorted_wrt_iff_nth_less)
qed

lemma length_flat_map_entries: "flat_map_wf carrier cmp s \<Longrightarrow> length (flat_map_entries s) = fm_size s"
  by (auto elim!: flat_map_wfE)

definition flat_map_lookup :: "('k, 'v) flat_map \<Rightarrow> 'k \<Rightarrow> 'v option" where
  "flat_map_lookup s = assoc (\<lambda>a b. fm_compare s a b = 0) (flat_map_entries s)"

section \<open>Searching\<close>

text \<open>
  \<open>i\<close> is the place of the key: the keys before it are less, those from it on are greater, except that
  an equivalent key is at \<open>i\<close> when the search succeeds.
\<close>

definition place :: "('k \<Rightarrow> 'k \<Rightarrow> int) \<Rightarrow> ('k \<times> 'v) list \<Rightarrow> 'k \<Rightarrow> status \<Rightarrow> nat \<Rightarrow> bool" where
  "place cmp ps key st i \<longleftrightarrow>
     (\<forall>j < i. cmp (fst (ps ! j)) key < 0) \<and>
     (st = Ok \<and> i < length ps \<and> cmp (fst (ps ! i)) key = 0 \<and> (\<forall>j. i < j \<and> j < length ps \<longrightarrow> 0 < cmp (fst (ps ! j)) key) \<or>
      st = Not_found \<and> i \<le> length ps \<and> (\<forall>j. i \<le> j \<and> j < length ps \<longrightarrow> 0 < cmp (fst (ps ! j)) key))"

context three_way
begin

lemma flat_map_find_loop_eq:
  assumes wf: "flat_map_wf carrier cmp s" and key: "carrier key"
    and "lo \<le> hi" "hi \<le> fm_size s"
    and "\<forall>j < lo. cmp (fst (flat_map_entries s ! j)) key < 0"
    and "\<forall>j. hi \<le> j \<and> j < fm_size s \<longrightarrow> 0 < cmp (fst (flat_map_entries s ! j)) key"
  shows "\<exists>st i. flat_map_find_loop s key lo hi = Some (st, i) \<and> place cmp (flat_map_entries s) key st i"
  using assms(3-)
proof (induction "hi - lo" arbitrary: lo hi rule: less_induct)
  case less
  from wf obtain es where es: "fm_storage s = Some es" "fm_capacity s \<le> length es" "fm_compare s = cmp" "fm_size s \<le> fm_capacity s"
    "flat_map_entries s = take (fm_size s) es" "\<And>i. i < fm_size s \<Longrightarrow> carrier (fst (es ! i))"
    "\<And>i j. i < j \<Longrightarrow> j < fm_size s \<Longrightarrow> cmp (fst (es ! i)) (fst (es ! j)) < 0" by (rule flat_map_wfE) blast
  have ent: "flat_map_entries s ! j = es ! j" if "j < fm_size s" for j using that es(5) by simp
  have len: "length (flat_map_entries s) = fm_size s" using wf by (rule length_flat_map_entries)
  let ?P = "place cmp (flat_map_entries s) key"
  show ?case
  proof (cases "lo < hi")
    case False
    then have "flat_map_find_loop s key lo hi = Some (Not_found, lo)" by (simp add: flat_map_find_loop.simps)
    moreover have "?P Not_found lo" using less.prems False len by (simp add: place_def)
    ultimately show ?thesis by blast
  next
    case True
    define mid where "mid = lo + (hi - lo) div 2"
    have mid: "lo \<le> mid" "mid < hi" "mid < fm_size s" using True less.prems by (auto simp: mid_def)
    obtain k v where kv: "es ! mid = (k, v)" by (cases "es ! mid") auto
    have ck: "carrier k" using es(6) [OF mid(3)] kv by simp
    have below: "cmp (fst (es ! j)) key < 0" if "j < mid" "cmp k key \<le> 0" for j
    proof -
      have lt: "cmp (fst (es ! j)) k < 0" using es(7) [OF that(1) mid(3)] kv by simp
      have "carrier (fst (es ! j))" using es(6) [of j] that(1) mid(3) by simp
      then show ?thesis by (rule cmp_less_trans [OF _ ck key lt that(2)])
    qed
    have above: "0 < cmp (fst (es ! j)) key" if "mid < j" "j < fm_size s" "0 \<le> cmp k key" for j
    proof -
      have lt: "cmp k (fst (es ! j)) < 0" using es(7) [OF that(1,2)] kv by simp
      have le: "cmp key k \<le> 0" using cmp_swap [OF ck key] that(3) by simp
      have "cmp key (fst (es ! j)) < 0" by (rule cmp_le_less_trans [OF key ck es(6) [OF that(2)] le lt])
      then show ?thesis using es(6) [OF that(2)] key by (simp add: cmp_pos_swap)
    qed
    have loop: "flat_map_find_loop s key lo hi =
      (if cmp k key < 0 then flat_map_find_loop s key (mid + 1) hi
       else if cmp k key > 0 then flat_map_find_loop s key lo mid else Some (Ok, mid))"
      using True es(1-4) mid(3) kv by (subst flat_map_find_loop.simps) (simp add: mid_def [symmetric] Let_def)
    consider "cmp k key < 0" | "0 < cmp k key" | "cmp k key = 0" by linarith
    then show ?thesis
    proof cases
      case 1
      have "\<exists>st i. flat_map_find_loop s key (mid + 1) hi = Some (st, i) \<and> ?P st i"
      proof (rule less.hyps)
        show "\<forall>j < mid + 1. cmp (fst (flat_map_entries s ! j)) key < 0"
          using below 1 kv mid(3) ent by (auto simp: less_Suc_eq)
      qed (use mid less.prems in auto)
      with loop 1 show ?thesis by simp
    next
      case 2
      have "\<exists>st i. flat_map_find_loop s key lo mid = Some (st, i) \<and> ?P st i"
      proof (rule less.hyps)
        show "\<forall>j. mid \<le> j \<and> j < fm_size s \<longrightarrow> 0 < cmp (fst (flat_map_entries s ! j)) key"
          using above 2 kv ent by (auto simp: le_less)
      qed (use mid less.prems in auto)
      with loop 2 show ?thesis by simp
    next
      case 3
      have "?P Ok mid" using 3 below above mid(3) kv len ent by (auto simp: place_def)
      with loop 3 show ?thesis by simp
    qed
  qed
qed

lemma flat_map_find_index_eq:
  assumes "flat_map_wf carrier cmp s" "carrier key"
  shows "\<exists>st i. flat_map_find_index s (Some key) False = Some (st, Some i) \<and> place cmp (flat_map_entries s) key st i"
proof -
  from flat_map_find_loop_eq [OF assms, of 0 "fm_size s"] obtain st i where
    "flat_map_find_loop s key 0 (fm_size s) = Some (st, i)" "place cmp (flat_map_entries s) key st i" by auto
  then show ?thesis by (simp add: flat_map_find_index_def)
qed

text \<open>Whether the search succeeds tells whether the map has the key.\<close>

lemma place_lookup:
  assumes "place cmp ps key st i"
  shows "assoc (\<lambda>a b. cmp a b = 0) ps key = (if st = Ok then Some (snd (ps ! i)) else None)"
proof (cases "st = Ok")
  case True
  with assms have i: "i < length ps" "cmp (fst (ps ! i)) key = 0" "\<forall>j < i. cmp (fst (ps ! j)) key < 0"
    by (auto simp: place_def)
  have "assoc (\<lambda>a b. cmp a b = 0) (take i ps @ (fst (ps ! i), snd (ps ! i)) # drop (Suc i) ps) key = Some (snd (ps ! i))"
  proof (rule assoc_first)
    show "\<forall>p \<in> set (take i ps). \<not> cmp (fst p) key = 0"
      unfolding all_set_conv_all_nth using i by (auto dest: spec)
  qed (rule i(2))
  with True i(1) show ?thesis by (simp add: id_take_nth_drop [symmetric])
next
  case False
  have "cmp (fst (ps ! j)) key \<noteq> 0" if "j < length ps" for j
    using assms False that by (cases "j < i") (auto simp: place_def not_less dest: spec [of _ j])
  then have "\<forall>p \<in> set ps. \<not> cmp (fst p) key = 0" unfolding all_set_conv_all_nth by simp
  with False show ?thesis by (simp add: assoc_None_iff)
qed

end

section \<open>Operations on the entries\<close>

lemma flat_map_put_old_eq:
  assumes wf: "flat_map_wf carrier cmp s" and find: "flat_map_find_index s (Some k) False = Some (Ok, Some i)"
    and i: "i < fm_size s"
  shows "\<exists>s'. flat_map_put s (Some k) (Some v) = Some (Ok, s') \<and> flat_map_frame s s' \<and> fm_size s' = fm_size s \<and>
    (\<exists>es. fm_storage s' = Some es \<and> fm_capacity s \<le> length es) \<and>
    flat_map_entries s' = (flat_map_entries s)[i := (fst (flat_map_entries s ! i), v)]"
proof -
  from wf obtain es where es: "fm_storage s = Some es" "fm_capacity s \<le> length es" "faithful (fm_value_policy s)"
    "fm_size s \<le> fm_capacity s" "flat_map_entries s = take (fm_size s) es" by (rule flat_map_wfE) blast
  obtain k0 v0 where kv: "es ! i = (k0, v0)" by (cases "es ! i") auto
  let ?s = "(destroy_value v0 s)\<lparr>fm_storage := Some (es[i := (k0, v)])\<rparr>"
  have "flat_map_put s (Some k) (Some v) = Some (Ok, ?s)"
    using find es i kv by (simp add: flat_map_put_def)
  moreover have "flat_map_entries ?s = (flat_map_entries s)[i := (fst (flat_map_entries s ! i), v)]"
    using es i kv by (simp add: flat_map_entries_def take_update_swap)
  ultimately show ?thesis using es by (intro exI [of _ ?s]) (simp add: flat_map_frame_def)
qed

lemma flat_map_put_new_eq:
  assumes wf: "flat_map_wf carrier cmp s" and find: "flat_map_find_index s (Some k) False = Some (Not_found, Some i)"
    and i: "i \<le> fm_size s" and room: "fm_size s < fm_capacity s"
  shows "\<exists>s'. flat_map_put s (Some k) (Some v) = Some (Ok, s') \<and> flat_map_frame s s' \<and> fm_size s' = Suc (fm_size s) \<and>
    (\<exists>es. fm_storage s' = Some es \<and> fm_capacity s \<le> length es) \<and>
    flat_map_entries s' = take i (flat_map_entries s) @ (k, v) # drop i (flat_map_entries s)"
proof -
  from wf obtain es where es: "fm_storage s = Some es" "fm_capacity s \<le> length es"
    "faithful (fm_key_policy s)" "faithful (fm_value_policy s)" "fm_capacity s \<le> SIZE_MAX"
    "flat_map_entries s = take (fm_size s) es" by (rule flat_map_wfE) blast
  have "\<exists>s1 fs. (if i < fm_size s then shift_right_from s (fm_size s) (fm_size s - i) else Some s) = Some s1 \<and>
      fm_storage s1 = Some fs \<and> length fs = length es \<and> flat_map_frame s s1 \<and> fm_size s1 = fm_size s \<and>
      (\<forall>j < length es. j \<noteq> i \<longrightarrow> fs ! j = (if i < j \<and> j \<le> fm_size s then es ! (j - 1) else es ! j))"
  proof (cases "i < fm_size s")
    case True
    have "fm_size s < length es" using room es(2) by simp
    from shift_right_from_eq [OF es(1) this diff_le_self, of i] True show ?thesis by simp
  next
    case False
    then have "i = fm_size s" using i by simp
    then show ?thesis using es(1) by (intro exI [of _ s] exI [of _ es]) simp
  qed
  then obtain s1 fs where s1: "(if i < fm_size s then shift_right_from s (fm_size s) (fm_size s - i) else Some s) = Some s1"
    "fm_storage s1 = Some fs" "length fs = length es" "flat_map_frame s s1" "fm_size s1 = fm_size s"
    and fs: "\<And>j. j < length es \<Longrightarrow> j \<noteq> i \<Longrightarrow> fs ! j = (if i < j \<and> j \<le> fm_size s then es ! (j - 1) else es ! j)"
    by blast
  have len: "i < length fs" "Suc (fm_size s) \<le> length es" using i room es(2) s1(3) by simp_all
  let ?s = "s1\<lparr>fm_storage := Some (fs[i := (k, v)]), fm_size := Suc (fm_size s)\<rparr>"
  have pol: "faithful (fm_key_policy s1)" "faithful (fm_value_policy s1)" "fm_capacity s1 = fm_capacity s"
    using s1(4) es(3,4) by (simp_all add: flat_map_frame_def)
  have "sz_add (fm_size s) 1 = Suc (fm_size s)" using room es(5) by (simp add: sz_add_eq)
  then have "flat_map_put s (Some k) (Some v) = Some (Ok, ?s)"
    using find s1 len(1) pol room
    by (simp add: flat_map_put_def flat_map_full_def split_beta split del: if_split cong: if_cong)
  moreover have "flat_map_entries ?s = take i (flat_map_entries s) @ (k, v) # drop i (flat_map_entries s)"
  proof (rule nth_equalityI)
    show "length (flat_map_entries ?s) = length (take i (flat_map_entries s) @ (k, v) # drop i (flat_map_entries s))"
      using es len i s1(3) by (simp add: flat_map_entries_def)
    fix j
    assume "j < length (flat_map_entries ?s)"
    then have j: "j < Suc (fm_size s)" using len s1(3) by (simp add: flat_map_entries_def)
    then have "flat_map_entries ?s ! j = (if j = i then (k, v) else fs ! j)"
      using len(1) by (simp add: flat_map_entries_def)
    then show "flat_map_entries ?s ! j = (take i (flat_map_entries s) @ (k, v) # drop i (flat_map_entries s)) ! j"
      using fs [of j] j len(2) i es(6) by (cases "j < i") (auto simp: nth_append nth_Cons' min_def)
  qed
  ultimately show ?thesis
    using s1 es(2) by (intro exI [of _ ?s]) (simp add: flat_map_frame_def)
qed

lemma flat_map_remove_eq:
  assumes wf: "flat_map_wf carrier cmp s" and find: "flat_map_find_index s (Some k) False = Some (Ok, Some i)"
    and i: "i < fm_size s"
  shows "\<exists>out' s'. flat_map_remove s (Some k) out = Some (Ok, out', s') \<and> flat_map_frame s s' \<and> fm_size s' = fm_size s - 1 \<and>
    (\<exists>es. fm_storage s' = Some es \<and> fm_capacity s \<le> length es) \<and>
    out' = map_option (\<lambda>_. snd (flat_map_entries s ! i)) out \<and>
    flat_map_entries s' = take i (flat_map_entries s) @ drop (Suc i) (flat_map_entries s)"
proof -
  from wf obtain es where es: "fm_storage s = Some es" "fm_capacity s \<le> length es" "fm_size s \<le> fm_capacity s"
    "faithful (fm_value_policy s)" "fm_capacity s \<le> SIZE_MAX"
    "flat_map_entries s = take (fm_size s) es" by (rule flat_map_wfE) blast
  obtain k0 v0 where kv: "es ! i = (k0, v0)" by (cases "es ! i") auto
  let ?s1 = "destroy_value v0 (destroy_key k0 s)"
  have pre: "fm_storage ?s1 = Some es" "Suc i + (fm_size s - Suc i) \<le> length es" "0 < Suc i" using es(1-3) i by simp_all
  from shift_left_from_eq [OF pre] obtain s2 fs where s2: "shift_left_from ?s1 (Suc i) (fm_size s - Suc i) = Some s2"
    "fm_storage s2 = Some fs" "length fs = length es" "flat_map_frame ?s1 s2" "fm_size s2 = fm_size s"
    and fs: "\<And>j. j < length es \<Longrightarrow> j \<noteq> fm_size s - 1 \<or> fm_size s - Suc i = 0 \<Longrightarrow>
      fs ! j = (if i \<le> j \<and> Suc j < fm_size s then es ! Suc j else es ! j)"
    using i by auto
  let ?s = "s2\<lparr>fm_size := fm_size s - 1\<rparr>"
  have "sz_sub (fm_size s) 1 = fm_size s - 1" using i es(3,5) by (simp add: sz_sub_eq)
  moreover have "destroy_entry_at s i = Some ?s1" using es(1-3) i kv by (simp add: destroy_entry_at_def)
  ultimately have "flat_map_remove s (Some k) out = Some (Ok, map_option (\<lambda>_. v0) out, ?s)"
    using find es i kv s2(1,5) by (simp add: flat_map_remove_def Let_def cong: option.map_cong)
  moreover have "flat_map_entries ?s = take i (flat_map_entries s) @ drop (Suc i) (flat_map_entries s)"
  proof (rule nth_equalityI)
    show "length (flat_map_entries ?s) = length (take i (flat_map_entries s) @ drop (Suc i) (flat_map_entries s))"
      using es i s2(2,3) by (simp add: flat_map_entries_def)
    fix j
    assume "j < length (flat_map_entries ?s)"
    then have j: "j < fm_size s - 1" "j < length es" using s2(2,3) by (simp_all add: flat_map_entries_def)
    then show "flat_map_entries ?s ! j = (take i (flat_map_entries s) @ drop (Suc i) (flat_map_entries s)) ! j"
      using fs [of j] i es(2,3,6) s2(2) by (cases "j < i") (auto simp: nth_append flat_map_entries_def min_def)
  qed
  moreover have "snd (flat_map_entries s ! i) = v0" using es(6) i kv by simp
  ultimately show ?thesis
    using s2 es(2) by (intro exI [of _ "map_option (\<lambda>_. v0) out"] exI [of _ ?s]) (simp add: flat_map_frame_def)
qed

section \<open>The map contract\<close>

text \<open>The operations as the contract names them, on non-null arguments.\<close>

definition flat_put :: "('k, 'v) flat_map \<Rightarrow> 'k \<Rightarrow> 'v \<Rightarrow> (status \<times> ('k, 'v) flat_map) option" where
  "flat_put s k v = flat_map_put s (Some k) (Some v)"

definition flat_get :: "'v \<Rightarrow> ('k, 'v) flat_map \<Rightarrow> 'k \<Rightarrow> (status \<times> 'v option) option" where
  "flat_get d s k = do {
     (st, out) \<leftarrow> flat_map_get s (Some k) (Some d);
     Some (st, if st = Ok then out else None)
   }"

definition flat_remove :: "('k, 'v) flat_map \<Rightarrow> 'k \<Rightarrow> (status \<times> ('k, 'v) flat_map) option" where
  "flat_remove s k = do {
     (st, _, s') \<leftarrow> flat_map_remove s (Some k) None;
     Some (st, s')
   }"

definition flat_contains :: "('k, 'v) flat_map \<Rightarrow> 'k \<Rightarrow> bool option" where
  "flat_contains s k = flat_map_contains s (Some k)"

lemma flat_map_wf_intro:
  assumes "flat_map_wf carrier cmp s" "flat_map_frame s s'" "fm_size s' \<le> fm_capacity s"
    "\<exists>es. fm_storage s' = Some es \<and> fm_capacity s \<le> length es"
    "list_all (\<lambda>p. carrier (fst p)) (flat_map_entries s')" "sorted_wrt (\<lambda>p q. cmp (fst p) (fst q) < 0) (flat_map_entries s')"
  shows "flat_map_wf carrier cmp s'"
  using assms by (auto simp: flat_map_wf_def flat_map_frame_def)

context three_way
begin

lemma flat_map_cases:
  assumes "flat_map_wf carrier cmp s" "carrier k"
  obtains (found) i where "flat_map_find_index s (Some k) False = Some (Ok, Some i)" "i < fm_size s"
      "flat_map_lookup s k = Some (snd (flat_map_entries s ! i))" "place cmp (flat_map_entries s) k Ok i"
  | (absent) i where "flat_map_find_index s (Some k) False = Some (Not_found, Some i)" "i \<le> fm_size s"
      "flat_map_lookup s k = None" "place cmp (flat_map_entries s) k Not_found i"
proof -
  from flat_map_find_index_eq [OF assms] obtain st i where
    r: "flat_map_find_index s (Some k) False = Some (st, Some i)" "place cmp (flat_map_entries s) k st i" by blast
  have c: "fm_compare s = cmp" using assms(1) by (simp add: flat_map_wf_def)
  note len = length_flat_map_entries [OF assms(1)]
  have l: "flat_map_lookup s k = (if st = Ok then Some (snd (flat_map_entries s ! i)) else None)"
    unfolding flat_map_lookup_def c by (rule place_lookup [OF r(2)])
  from r(2) have "st = Ok \<and> i < fm_size s \<or> st = Not_found \<and> i \<le> fm_size s" by (auto simp: place_def len)
  then show ?thesis using r l by (auto intro: that)
qed

text \<open>Every entry but the one found is inequivalent to the key.\<close>

lemma place_others:
  assumes "place cmp ps k Ok i" "list_all (\<lambda>p. carrier (fst p)) ps" "carrier k"
  shows "\<forall>p \<in> set (take i ps @ drop (Suc i) ps). carrier (fst p) \<and> cmp (fst p) (fst (ps ! i)) \<noteq> 0"
proof -
  have i: "i < length ps" "cmp (fst (ps ! i)) k = 0" using assms(1) by (auto simp: place_def)
  have ci: "carrier (fst (ps ! i))" using assms(2) i(1) by (simp add: list_all_length)
  have "carrier (fst (ps ! j)) \<and> cmp (fst (ps ! j)) (fst (ps ! i)) \<noteq> 0" if "j < length ps" "j \<noteq> i" for j
  proof -
    have cj: "carrier (fst (ps ! j))" using assms(2) that(1) by (simp add: list_all_length)
    have "cmp (fst (ps ! j)) k \<noteq> 0" using assms(1) that by (cases "j < i") (auto simp: place_def dest: spec [of _ j])
    then show ?thesis using cj eq_trans [OF cj ci assms(3)] i(2) by blast
  qed
  then show ?thesis
    by (auto simp: in_set_conv_nth) (metis add.commute add_Suc_right fst_conv less_add_Suc1 less_diff_conv nat_neq_iff add_Suc_right)+
qed

lemma flat_put_old:
  assumes wf: "flat_map_wf carrier cmp s" and k: "carrier k" and old: "flat_map_lookup s k \<noteq> None"
  shows "\<exists>s'. flat_put s k v = Some (Ok, s') \<and> flat_map_wf carrier cmp s' \<and> fm_size s' = fm_size s \<and>
    fm_capacity s' = fm_capacity s \<and>
    (\<forall>x. carrier x \<longrightarrow> flat_map_lookup s' x = (if cmp k x = 0 then Some v else flat_map_lookup s x))"
proof (rule flat_map_cases [OF wf k])
  fix i
  assume i: "flat_map_find_index s (Some k) False = Some (Ok, Some i)" "i < fm_size s" "place cmp (flat_map_entries s) k Ok i"
  let ?ps = "flat_map_entries s"
  note len = length_flat_map_entries [OF wf]
  have w: "list_all (\<lambda>p. carrier (fst p)) ?ps" "sorted_wrt (\<lambda>p q. cmp (fst p) (fst q) < 0) ?ps" "fm_compare s = cmp"
    "fm_size s \<le> fm_capacity s" using wf by (simp_all add: flat_map_wf_def)
  from flat_map_put_old_eq [OF wf i(1,2), of v] obtain s' where
    s': "flat_map_put s (Some k) (Some v) = Some (Ok, s')" "flat_map_frame s s'" "fm_size s' = fm_size s"
    "\<exists>es. fm_storage s' = Some es \<and> fm_capacity s \<le> length es"
    "flat_map_entries s' = ?ps[i := (fst (?ps ! i), v)]" by blast
  have fst_eq: "fst (?ps[i := (fst (?ps ! i), v)] ! j) = fst (?ps ! j)" if "j < length ?ps" for j
    using that by (cases "j = i") auto
  have "flat_map_wf carrier cmp s'"
    using w s'(3) fst_eq by (intro flat_map_wf_intro [OF wf s'(2) _ s'(4)])
      (simp_all add: s'(5) list_all_length sorted_wrt_iff_nth_less)
  moreover have "flat_map_lookup s' x = (if cmp k x = 0 then Some v else flat_map_lookup s x)" if x: "carrier x" for x
  proof -
    let ?k = "fst (?ps ! i)"
    have ck: "carrier ?k" using w(1) i(2) len by (simp add: list_all_length)
    have kk: "cmp ?k k = 0" using i(3) by (simp add: place_def)
    have split: "take i ?ps @ ?ps ! i # drop (Suc i) ?ps = ?ps"
      using i(2) len by (simp add: id_take_nth_drop [symmetric])
    have split': "?ps[i := (?k, v)] = take i ?ps @ (?k, v) # drop (Suc i) ?ps"
      using i(2) len by (simp add: upd_conv_take_nth_drop)
    have "assoc (\<lambda>a b. cmp a b = 0) (take i ?ps @ (?k, v) # drop (Suc i) ?ps) x =
      (if cmp k x = 0 then Some v else assoc (\<lambda>a b. cmp a b = 0) (take i ?ps @ (?k, snd (?ps ! i)) # drop (Suc i) ?ps) x)"
      by (rule assoc_overwrite [OF place_others [OF i(3) w(1) k] ck k x kk])
    then show ?thesis
      using s'(2) w(3) unfolding flat_map_lookup_def s'(5) split' flat_map_frame_def by (simp add: split)
  qed
  ultimately show ?thesis using s' by (intro exI [of _ s']) (simp add: flat_put_def flat_map_frame_def)
qed (use old in simp)

lemma flat_put_new:
  assumes wf: "flat_map_wf carrier cmp s" and k: "carrier k" and new: "flat_map_lookup s k = None"
    and room: "fm_size s < fm_capacity s"
  shows "\<exists>s'. flat_put s k v = Some (Ok, s') \<and> flat_map_wf carrier cmp s' \<and> fm_size s' = Suc (fm_size s) \<and>
    fm_capacity s' = fm_capacity s \<and>
    (\<forall>x. carrier x \<longrightarrow> flat_map_lookup s' x = (if cmp k x = 0 then Some v else flat_map_lookup s x))"
proof (rule flat_map_cases [OF wf k])
  fix i
  assume i: "flat_map_find_index s (Some k) False = Some (Not_found, Some i)" "i \<le> fm_size s"
    "place cmp (flat_map_entries s) k Not_found i"
  let ?ps = "flat_map_entries s"
  note len = length_flat_map_entries [OF wf]
  have w: "list_all (\<lambda>p. carrier (fst p)) ?ps" "sorted_wrt (\<lambda>p q. cmp (fst p) (fst q) < 0) ?ps" "fm_compare s = cmp"
    using wf by (simp_all add: flat_map_wf_def)
  from flat_map_put_new_eq [OF wf i(1,2) room, of v] obtain s' where
    s': "flat_map_put s (Some k) (Some v) = Some (Ok, s')" "flat_map_frame s s'" "fm_size s' = Suc (fm_size s)"
    "\<exists>es. fm_storage s' = Some es \<and> fm_capacity s \<le> length es"
    "flat_map_entries s' = take i ?ps @ (k, v) # drop i ?ps" by blast
  have car: "carrier (fst (?ps ! j))" if "j < length ?ps" for j using w(1) that by (simp add: list_all_length)
  have below: "\<forall>p \<in> set (take i ?ps). cmp (fst p) k < 0"
    unfolding all_set_conv_all_nth using i(3) by (simp add: place_def)
  have "cmp k (fst (?ps ! j)) < 0" if "i \<le> j" "j < length ?ps" for j
    using i(3) that car [OF that(2)] k cmp_pos_swap [of "fst (?ps ! j)" k] by (auto simp: place_def)
  then have above: "\<forall>p \<in> set (drop i ?ps). cmp k (fst p) < 0" unfolding all_set_conv_all_nth by simp
  have "sorted_wrt (\<lambda>p q. cmp (fst p) (fst q) < 0) (take i ?ps @ drop i ?ps)" using w(2) by simp
  then have "sorted_wrt (\<lambda>p q. cmp (fst p) (fst q) < 0) (flat_map_entries s')"
    using below above unfolding s'(5) by (auto simp: sorted_wrt_append simp del: append_take_drop_id)
  moreover have "list_all (\<lambda>p. carrier (fst p)) (flat_map_entries s')"
    using w(1) k unfolding s'(5) list_all_iff by (auto dest: in_set_takeD in_set_dropD)
  ultimately have "flat_map_wf carrier cmp s'"
    using s'(3) room by (intro flat_map_wf_intro [OF wf s'(2) _ s'(4)]) simp_all
  moreover have "flat_map_lookup s' x = (if cmp k x = 0 then Some v else flat_map_lookup s x)" if x: "carrier x" for x
  proof -
    have "\<forall>p \<in> set (take i ?ps @ drop i ?ps). carrier (fst p) \<and> cmp (fst p) k \<noteq> 0"
      using new w(1,3) by (simp add: flat_map_lookup_def assoc_None_iff list_all_iff)
    from assoc_insert [OF this k x, of v] s'(2) w(3) show ?thesis
      by (simp add: flat_map_lookup_def s'(5) flat_map_frame_def)
  qed
  ultimately show ?thesis using s' by (intro exI [of _ s']) (simp add: flat_put_def flat_map_frame_def)
qed (use new in simp)

lemma flat_remove_old:
  assumes wf: "flat_map_wf carrier cmp s" and k: "carrier k" and old: "flat_map_lookup s k \<noteq> None"
  shows "\<exists>s'. flat_remove s k = Some (Ok, s') \<and> flat_map_wf carrier cmp s' \<and> fm_size s' = fm_size s - 1 \<and>
    fm_capacity s' = fm_capacity s \<and>
    (\<forall>x. carrier x \<longrightarrow> flat_map_lookup s' x = (if cmp k x = 0 then None else flat_map_lookup s x))"
proof (rule flat_map_cases [OF wf k])
  fix i
  assume i: "flat_map_find_index s (Some k) False = Some (Ok, Some i)" "i < fm_size s" "place cmp (flat_map_entries s) k Ok i"
  let ?ps = "flat_map_entries s"
  let ?k = "fst (?ps ! i)"
  note len = length_flat_map_entries [OF wf]
  have w: "list_all (\<lambda>p. carrier (fst p)) ?ps" "sorted_wrt (\<lambda>p q. cmp (fst p) (fst q) < 0) ?ps" "fm_compare s = cmp"
    "fm_size s \<le> fm_capacity s" using wf by (simp_all add: flat_map_wf_def)
  from flat_map_remove_eq [OF wf i(1,2), of None] obtain s' where
    s': "flat_map_remove s (Some k) None = Some (Ok, None, s')" "flat_map_frame s s'" "fm_size s' = fm_size s - 1"
    "\<exists>es. fm_storage s' = Some es \<and> fm_capacity s \<le> length es"
    "flat_map_entries s' = take i ?ps @ drop (Suc i) ?ps" by auto
  have split: "take i ?ps @ ?ps ! i # drop (Suc i) ?ps = ?ps" using i(2) len by (simp add: id_take_nth_drop [symmetric])
  have "sorted_wrt (\<lambda>p q. cmp (fst p) (fst q) < 0) (take i ?ps @ ?ps ! i # drop (Suc i) ?ps)" unfolding split by (rule w(2))
  then have "sorted_wrt (\<lambda>p q. cmp (fst p) (fst q) < 0) (flat_map_entries s')"
    unfolding s'(5) by (simp add: sorted_wrt_append)
  moreover have "list_all (\<lambda>p. carrier (fst p)) (flat_map_entries s')"
    using w(1) unfolding s'(5) list_all_iff by (auto dest: in_set_takeD in_set_dropD)
  ultimately have "flat_map_wf carrier cmp s'"
    using s'(3) w(4) by (intro flat_map_wf_intro [OF wf s'(2) _ s'(4)]) simp_all
  moreover have "flat_map_lookup s' x = (if cmp k x = 0 then None else flat_map_lookup s x)" if x: "carrier x" for x
  proof -
    have ck: "carrier ?k" using w(1) i(2) len by (simp add: list_all_length)
    have "cmp ?k k = 0" using i(3) by (simp add: place_def)
    then have "cmp ?k x = 0 \<longleftrightarrow> cmp k x = 0" by (rule eq_cong_left [OF ck k x])
    with assoc_delete [OF place_others [OF i(3) w(1) k] ck x, of "snd (?ps ! i)"] s'(2) w(3) show ?thesis
      by (simp add: flat_map_lookup_def s'(5) flat_map_frame_def split)
  qed
  ultimately show ?thesis using s' by (intro exI [of _ s']) (simp add: flat_remove_def flat_map_frame_def)
qed (use old in simp)

lemma flat_map_is_map:
  "finite_map carrier (\<lambda>a b. cmp a b = 0) (flat_map_wf carrier cmp) flat_map_lookup fm_size fm_capacity
     flat_put (flat_get d) flat_remove flat_contains"
proof (unfold_locales, goal_cases)
  case (1 s k v)
  then show ?case by (rule flat_put_old)
next
  case (2 s k v)
  then show ?case by (rule flat_put_new)
next
  case (3 s k v)
  show ?case
    using 3(3,4) by (cases rule: flat_map_cases [OF 3(1,2)]) (simp_all add: flat_put_def flat_map_put_def flat_map_full_def)
next
  case (4 s k)
  then have w: "faithful (fm_value_policy s)" by (simp add: flat_map_wf_def)
  from 4(1) obtain es where es: "fm_storage s = Some es" "fm_capacity s \<le> length es" "fm_size s \<le> fm_capacity s"
    "flat_map_entries s = take (fm_size s) es" by (rule flat_map_wfE) blast
  show ?case
    using w es by (cases rule: flat_map_cases [OF 4]) (auto simp: flat_get_def flat_map_get_def split_beta)
next
  case (5 s k)
  then show ?case by (rule flat_remove_old)
next
  case (6 s k)
  show ?case
    using 6(3) by (cases rule: flat_map_cases [OF 6(1,2)]) (simp_all add: flat_remove_def flat_map_remove_def)
next
  case (7 s k)
  show ?case
    by (cases rule: flat_map_cases [OF 7]) (simp_all add: flat_contains_def flat_map_contains_def)
qed

end

interpretation typed_flat_map: finite_map "\<lambda>_ :: 'k :: linorder. True" "\<lambda>a b. type_compare a b = 0"
  "flat_map_wf (\<lambda>_. True) type_compare" flat_map_lookup fm_size fm_capacity flat_put "flat_get d" flat_remove flat_contains
  for d :: 'v
  by (rule typed_order.flat_map_is_map)

section \<open>Guarantees\<close>

definition sample_flat_map :: "(nat, nat) flat_map" where
  "sample_flat_map = \<lparr>fm_key_policy = typed_trivial_policy 8 8, fm_value_policy = typed_trivial_policy 8 8,
     fm_compare = type_compare, fm_storage = Some [(3, 30), (5, 50), (0, 0)], fm_capacity = 3, fm_size = 2, fm_stride = 16,
     fm_value_offset = 8, fm_policy = 0, fm_kind = 0, fm_destroyed = []\<rparr>"

lemma sample_flat_map_wf: "flat_map_wf (\<lambda>_. True) type_compare sample_flat_map"
  by (simp add: flat_map_wf_def sample_flat_map_def flat_map_entries_def type_compare_def SIZE_MAX_def list_all_iff)

text \<open>
  C22. For keys with a linear order, every sequence of put, get, remove and contains on a flat map
  gives the results of a finite map that holds at most capacity keys: put overwrites an existing
  key, refuses a new one with full when capacity keys are in the map, and get returns what was put.
\<close>

theorem flat_map_is_finite_map:
  fixes s :: "('k :: linorder, 'v) flat_map"
  assumes "flat_map_wf (\<lambda>_. True) type_compare s"
  shows "\<exists>rs s'. map_run flat_put (flat_get d) flat_remove flat_contains s cs = Some (rs, s') \<and>
    flat_map_wf (\<lambda>_. True) type_compare s' \<and>
    map_spec (\<lambda>a b. type_compare a b = 0) (fm_capacity s) (flat_map_lookup s, fm_size s) cs =
      (rs, flat_map_lookup s', fm_size s')"
proof -
  have "list_all (\<lambda>c :: ('k, 'v) map_cmd. True) cs" by (simp add: list_all_iff)
  from typed_flat_map.run_refines [OF assms this, of "flat_map_lookup s" d] obtain rs s' m where
    r: "map_run flat_put (flat_get d) flat_remove flat_contains s cs = Some (rs, s')"
    "flat_map_wf (\<lambda>_. True) type_compare s'"
    "map_spec (\<lambda>a b. type_compare a b = 0) (fm_capacity s) (flat_map_lookup s, fm_size s) cs = (rs, m, fm_size s')"
    "\<forall>x. m x = flat_map_lookup s' x" by auto
  from r(4) have "m = flat_map_lookup s'" by blast
  with r show ?thesis by blast
qed

theorem flat_map_is_finite_map_witness:
  "\<exists>rs s'. map_run flat_put (flat_get 0) flat_remove flat_contains sample_flat_map
      [Put 4 40, Put 9 90, Get 4, Remove 3, Put 9 90, Contains 3] = Some (rs, s') \<and>
    map fst rs = [Ok, Full, Ok, Ok, Ok, Not_found]"
proof -
  have cap: "fm_capacity sample_flat_map = 3" "fm_size sample_flat_map = 2" by (simp_all add: sample_flat_map_def)
  have eq: "type_compare (a :: nat) b = 0 \<longleftrightarrow> a = b" for a b by (auto simp: type_compare_def)
  have l: "flat_map_lookup sample_flat_map = (\<lambda>x. if 3 = x then Some 30 else if 5 = x then Some 50 else None)"
    by (simp add: fun_eq_iff flat_map_lookup_def flat_map_entries_def sample_flat_map_def eq)
  have "map fst (fst (map_spec (\<lambda>a b. type_compare a b = 0) 3 (flat_map_lookup sample_flat_map, 2)
      [Put 4 40, Put 9 90, Get 4, Remove 3, Put 9 90, Contains 3])) = [Ok, Full, Ok, Ok, Ok, Not_found]"
    unfolding l eq by (simp add: map_upd_def)
  with flat_map_is_finite_map [OF sample_flat_map_wf, of 0 "[Put 4 40, Put 9 90, Get 4, Remove 3, Put 9 90, Contains 3]"]
  show ?thesis unfolding cap by (metis fst_conv)
qed

text \<open>
  The entry stride is not a multiple of the key's alignment: with 8-byte keys and 1-byte values,
  key i of an aligned storage is misaligned for every i that is not a multiple of 8.
\<close>

theorem flat_map_keys_misaligned:
  assumes "fst (flat_map_init max_align s (typed_trivial_policy 8 8) (typed_trivial_policy 1 1) cmp (Some es) cap pol) = Ok"
    "base mod 8 = 0" "i mod 8 \<noteq> 0"
  shows "(base + i * unat (fm_stride (snd (flat_map_init max_align s (typed_trivial_policy 8 8) (typed_trivial_policy 1 1)
    cmp (Some es) cap pol)))) mod 8 \<noteq> (0 :: nat)"
proof -
  have "entry_stride max_align 8 1 = 9"
    by (simp add: entry_stride_def bytes_alignment_def align_up_def)
  moreover have "cap \<noteq> 0"
  proof
    assume "cap = 0"
    then show False using assms(1) by (simp add: flat_map_init_def)
  qed
  ultimately have "fm_stride (snd (flat_map_init max_align s (typed_trivial_policy 8 8) (typed_trivial_policy 1 1)
      cmp (Some es) cap pol)) = 9"
    by (simp add: flat_map_init_def)
  then have "unat (fm_stride (snd (flat_map_init max_align s (typed_trivial_policy 8 8) (typed_trivial_policy 1 1)
      cmp (Some es) cap pol))) = 9" by simp
  moreover have "(base + i * 9) mod 8 = i mod 8"
  proof -
    have "(base + i * 9) mod 8 = (base mod 8 + (i * 9) mod 8) mod 8" by (rule mod_add_eq [symmetric])
    also have "(i * 9) mod 8 = i mod 8" by (simp add: mod_mult_right_eq [of i 9 8, symmetric])
    finally show ?thesis using assms(2) by simp
  qed
  ultimately show ?thesis using assms(3) by simp
qed

theorem flat_map_keys_misaligned_witness:
  "(4096 + 1 * unat (fm_stride (snd (flat_map_init 16 sample_flat_map (typed_trivial_policy 8 8) (typed_trivial_policy 1 1)
    type_compare (Some [(0, 0), (0, 0)]) 2 0)))) mod 8 \<noteq> (0 :: nat)"
  by (rule flat_map_keys_misaligned) (simp_all add: flat_map_init_def)

end
