(* ===== verification/Hash_Map.thy ===== *)
theory Hash_Map
  imports Map_Contract Policy
begin

text \<open>
  \<^verbatim>\<open>include/memkit/detail/hashmap_map_core.hpp\<close>: the hash map with chaining and with open
  addressing.

  Chain nodes live in a store from addresses to nodes, 0 being the null pointer. \<open>hm_allocs\<close> counts the
  calls of \<open>alloc_raw\<close>; the block of call \<open>n\<close> has address \<open>n + 1\<close>, so a block is always fresh.
  \<open>malloc\<close> and the arena are parameters that decide call by call whether they succeed.
  \<open>hm_destroyed\<close> is the trace of the keys (\<open>Inl\<close>) and values (\<open>Inr\<close>) whose destructors ran.
\<close>

section \<open>State\<close>

datatype hashmap_strategy = Chaining | Open_addressing

datatype slot_state = Slot_empty | Slot_deleted | Slot_occupied

record ('k, 'v) open_slot =
  sl_state :: slot_state
  sl_key :: 'k
  sl_value :: 'v

record ('k, 'v) chain_node =
  cn_next :: nat
  cn_key :: 'k
  cn_value :: 'v

definition hashmap_growable :: u8 where "hashmap_growable = 1"
definition hashmap_external :: u8 where "hashmap_external = 0"
definition hashmap_owns :: u8 where "hashmap_owns = 1"
definition hashmap_arena :: u8 where "hashmap_arena = 2"
definition hashmap_heap :: u8 where "hashmap_heap = 4"

record ('k, 'v) hashmap =
  hm_strategy :: hashmap_strategy
  hm_bucket_count :: nat
  hm_size :: nat
  hm_key_offset :: u64
  hm_value_offset :: u64
  hm_stride :: u64
  hm_buckets :: "nat mem"
  hm_slots :: "('k, 'v) open_slot mem"
  hm_nodes :: "nat \<Rightarrow> ('k, 'v) chain_node option"
  hm_key_policy :: "'k elem_policy"
  hm_value_policy :: "'v elem_policy"
  hm_hash :: "'k hash_policy"
  hm_policy :: u8
  hm_arena :: bool
  hm_kind :: u8
  hm_allocs :: nat
  hm_destroyed :: "('k + 'v) list"

text \<open>
  The environment: whether the heap is compiled in, the answers of \<open>malloc\<close> and of the arena to a
  call, what fresh memory holds, and the default-constructed policies.
\<close>

record ('k, 'v) hm_env =
  he_allow_heap :: bool
  he_malloc :: "nat \<Rightarrow> nat \<Rightarrow> bool"
  he_arena :: "nat \<Rightarrow> nat \<Rightarrow> nat \<Rightarrow> status"
  he_junk_key :: 'k
  he_junk_value :: 'v
  he_max_align :: u64
  he_key_policy :: "'k elem_policy"
  he_value_policy :: "'v elem_policy"
  he_hash :: "'k hash_policy"

definition open_slot_stride :: "u64 \<Rightarrow> u64 \<Rightarrow> u64 \<Rightarrow> u64" where
  "open_slot_stride max_align key_size value_size =
     (let key_offset = align_up 1 (bytes_alignment max_align key_size); value_offset = key_offset + key_size
      in value_offset + value_size)"

definition chain_node_bytes :: "nat \<Rightarrow> nat \<Rightarrow> nat" where
  "chain_node_bytes key_size value_size = sz_add (sz_add 8 key_size) value_size"

definition hashmap_reset_state :: "('k, 'v) hm_env \<Rightarrow> ('k, 'v) hashmap \<Rightarrow> ('k, 'v) hashmap" where
  "hashmap_reset_state env s =
     s\<lparr>hm_strategy := Chaining, hm_bucket_count := 0, hm_size := 0, hm_key_offset := 0, hm_value_offset := 0,
       hm_stride := 0, hm_buckets := None, hm_slots := None, hm_key_policy := he_key_policy env,
       hm_value_policy := he_value_policy env, hm_hash := he_hash env, hm_policy := 0, hm_arena := False,
       hm_kind := hashmap_external\<rparr>"

definition hashmap_set_storage_kind :: "('k, 'v) hashmap \<Rightarrow> u8 \<Rightarrow> ('k, 'v) hashmap" where
  "hashmap_set_storage_kind s kind = s\<lparr>hm_kind := kind\<rparr>"

definition hashmap_bind_allocator :: "('k, 'v) hashmap \<Rightarrow> bool \<Rightarrow> ('k, 'v) hashmap" where
  "hashmap_bind_allocator s fn = s\<lparr>hm_arena := fn\<rparr>"

section \<open>Allocation\<close>

definition hashmap_alloc_raw :: "('k, 'v) hm_env \<Rightarrow> ('k, 'v) hashmap \<Rightarrow> nat \<Rightarrow> nat \<Rightarrow> status \<times> nat \<times> ('k, 'v) hashmap" where
  "hashmap_alloc_raw env s bytes alignment =
     (let s' = s\<lparr>hm_allocs := Suc (hm_allocs s)\<rparr>; addr = Suc (hm_allocs s) in
      if hm_arena s then (he_arena env (hm_allocs s) bytes alignment, addr, s')
      else if he_allow_heap env then (if he_malloc env (hm_allocs s) bytes then Ok else Oom, addr, s')
      else (Oom, addr, s'))"

text \<open>\<open>free_raw\<close> of a chain node; arrays that are freed are dropped from the state.\<close>

definition free_chain_node :: "('k, 'v) hm_env \<Rightarrow> ('k, 'v) hashmap \<Rightarrow> nat \<Rightarrow> ('k, 'v) hashmap" where
  "free_chain_node env s node =
     (if node = 0 \<or> hm_arena s then s
      else if he_allow_heap env then s\<lparr>hm_nodes := (hm_nodes s)(node := None)\<rparr>
      else s)"

definition hm_destroy_key :: "'k \<Rightarrow> ('k, 'v) hashmap \<Rightarrow> ('k, 'v) hashmap" where
  "hm_destroy_key k s = (if ep_destroy (hm_key_policy s) then s\<lparr>hm_destroyed := hm_destroyed s @ [Inl k]\<rparr> else s)"

definition hm_destroy_value :: "'v \<Rightarrow> ('k, 'v) hashmap \<Rightarrow> ('k, 'v) hashmap" where
  "hm_destroy_value v s = (if ep_destroy (hm_value_policy s) then s\<lparr>hm_destroyed := hm_destroyed s @ [Inr v]\<rparr> else s)"

definition destroy_chain_node :: "('k, 'v) hashmap \<Rightarrow> nat \<Rightarrow> ('k, 'v) hashmap option" where
  "destroy_chain_node s node =
     (if node = 0 then Some s
      else do {
        nd \<leftarrow> hm_nodes s node;
        Some (hm_destroy_value (cn_value nd) (hm_destroy_key (cn_key nd) s))
      })"

definition alloc_chain_node ::
  "('k, 'v) hm_env \<Rightarrow> ('k, 'v) hashmap \<Rightarrow> 'k \<Rightarrow> 'v \<Rightarrow> status \<times> nat \<times> ('k, 'v) hashmap" where
  "alloc_chain_node env s key value =
     (let (st, node, s1) = hashmap_alloc_raw env s
        (chain_node_bytes (ep_size (hm_key_policy s)) (ep_size (hm_value_policy s))) 8
      in if st \<noteq> Ok then (st, 0, s1)
      else
        let (kst, k) = copy_construct (hm_key_policy s1) (he_junk_key env) key;
            s2 = s1\<lparr>hm_nodes := (hm_nodes s1)(node \<mapsto> \<lparr>cn_next = 0, cn_key = k, cn_value = he_junk_value env\<rparr>)\<rparr>
        in if kst \<noteq> Ok then (kst, 0, free_chain_node env s2 node)
        else
          let (vst, v) = copy_construct (hm_value_policy s2) (he_junk_value env) value;
              s3 = s2\<lparr>hm_nodes := (hm_nodes s2)(node \<mapsto> \<lparr>cn_next = 0, cn_key = k, cn_value = v\<rparr>)\<rparr>
          in if vst \<noteq> Ok then (vst, 0, free_chain_node env (hm_destroy_key k s3) node)
          else (Ok, node, s3))"

section \<open>Initialisation\<close>

text \<open>The loop that clears the bucket heads, and the one that marks the slots empty.\<close>

fun null_buckets :: "nat mem \<Rightarrow> nat \<Rightarrow> nat \<Rightarrow> nat mem option" where
  "null_buckets m i 0 = Some m"
| "null_buckets m i (Suc n) = do {
     m' \<leftarrow> mem_wr m i 0;
     null_buckets m' (Suc i) n
   }"

definition set_slot_state :: "('k, 'v) open_slot mem \<Rightarrow> nat \<Rightarrow> slot_state \<Rightarrow> ('k, 'v) open_slot mem option" where
  "set_slot_state m i st = do {
     sl \<leftarrow> mem_rd m i;
     mem_wr m i (sl\<lparr>sl_state := st\<rparr>)
   }"

fun empty_slots :: "('k, 'v) open_slot mem \<Rightarrow> nat \<Rightarrow> nat \<Rightarrow> ('k, 'v) open_slot mem option" where
  "empty_slots m i 0 = Some m"
| "empty_slots m i (Suc n) = do {
     m' \<leftarrow> set_slot_state m i Slot_empty;
     empty_slots m' (Suc i) n
   }"

definition init_chaining ::
  "('k, 'v) hm_env \<Rightarrow> ('k, 'v) hashmap \<Rightarrow> nat mem \<Rightarrow> nat \<Rightarrow> 'k elem_policy \<Rightarrow> 'v elem_policy \<Rightarrow> 'k hash_policy \<Rightarrow> u8 \<Rightarrow>
   (status \<times> ('k, 'v) hashmap) option" where
  "init_chaining env s buckets bucket_count key_policy value_policy hash policy =
     (if buckets = None \<or> bucket_count = 0 then Some (Invalid, s)
      else do {
        m \<leftarrow> null_buckets buckets 0 bucket_count;
        Some (Ok, (hashmap_reset_state env s)\<lparr>hm_strategy := Chaining, hm_buckets := m, hm_bucket_count := bucket_count,
          hm_key_policy := key_policy, hm_value_policy := value_policy, hm_hash := hash, hm_policy := policy\<rparr>)
      })"

definition init_open ::
  "('k, 'v) hm_env \<Rightarrow> ('k, 'v) hashmap \<Rightarrow> ('k, 'v) open_slot mem \<Rightarrow> nat \<Rightarrow> u64 \<Rightarrow> u64 \<Rightarrow> u64 \<Rightarrow>
   'k elem_policy \<Rightarrow> 'v elem_policy \<Rightarrow> 'k hash_policy \<Rightarrow> u8 \<Rightarrow> (status \<times> ('k, 'v) hashmap) option" where
  "init_open env s slots bucket_count key_offset value_offset slot_stride key_policy value_policy hash policy =
     (if slots = None \<or> bucket_count = 0 \<or> slot_stride = 0 then Some (Invalid, s)
      else do {
        m \<leftarrow> empty_slots slots 0 bucket_count;
        Some (Ok, (hashmap_reset_state env s)\<lparr>hm_strategy := Open_addressing, hm_slots := m, hm_bucket_count := bucket_count,
          hm_key_offset := key_offset, hm_value_offset := value_offset, hm_stride := slot_stride,
          hm_key_policy := key_policy, hm_value_policy := value_policy, hm_hash := hash, hm_policy := policy\<rparr>)
      })"

text \<open>Fresh, zeroed arrays of \<open>bytes\<close> bytes.\<close>

definition new_buckets :: "nat \<Rightarrow> nat list" where
  "new_buckets bytes = replicate (bytes div 8) 0"

definition new_slots :: "('k, 'v) hm_env \<Rightarrow> nat \<Rightarrow> nat \<Rightarrow> ('k, 'v) open_slot list" where
  "new_slots env bytes stride =
     replicate (bytes div stride) \<lparr>sl_state = Slot_empty, sl_key = he_junk_key env, sl_value = he_junk_value env\<rparr>"

definition hashmap_init_from_arena ::
  "('k, 'v) hm_env \<Rightarrow> ('k, 'v) hashmap \<Rightarrow> nat \<Rightarrow> hashmap_strategy \<Rightarrow> 'k elem_policy \<Rightarrow> 'v elem_policy \<Rightarrow> 'k hash_policy \<Rightarrow> u8 \<Rightarrow>
   (status \<times> ('k, 'v) hashmap) option" where
  "hashmap_init_from_arena env s initial_buckets strategy key_policy value_policy hash policy =
     (let n = (if initial_buckets = 0 then 8 else initial_buckets);
          s1 = (hashmap_reset_state env s)\<lparr>hm_strategy := strategy, hm_key_policy := key_policy,
                 hm_value_policy := value_policy, hm_hash := hash, hm_policy := policy, hm_size := 0, hm_arena := True\<rparr>
      in
      if strategy = Chaining then
        let bytes = sz_mul n 8; (st, _, s2) = hashmap_alloc_raw env s1 bytes 8 in
        if st \<noteq> Ok then Some (st, s2\<lparr>hm_arena := False\<rparr>)
        else do {
          m \<leftarrow> null_buckets (Some (new_buckets bytes)) 0 n;
          Some (Ok, s2\<lparr>hm_buckets := m, hm_bucket_count := n, hm_kind := hashmap_owns OR hashmap_arena\<rparr>)
        }
      else
        let key_offset = align_up 1 (of_nat (ep_align key_policy));
            value_offset = key_offset + of_nat (ep_size key_policy);
            stride = value_offset + of_nat (ep_size value_policy);
            s2 = s1\<lparr>hm_key_offset := key_offset, hm_value_offset := value_offset, hm_stride := stride\<rparr>;
            bytes = sz_mul n (unat stride);
            (st, _, s3) = hashmap_alloc_raw env s2 bytes (unat key_offset)
        in
        if st \<noteq> Ok then Some (st, s3\<lparr>hm_arena := False\<rparr>)
        else do {
          m \<leftarrow> empty_slots (Some (new_slots env bytes (unat stride))) 0 n;
          Some (Ok, s3\<lparr>hm_slots := m, hm_bucket_count := n, hm_kind := hashmap_owns OR hashmap_arena\<rparr>)
        })"

section \<open>Chaining\<close>

partial_function (option) chain_find_loop ::
  "('k, 'v) hashmap \<Rightarrow> 'k \<Rightarrow> nat \<Rightarrow> nat \<Rightarrow> (nat \<times> nat) option" where
  "chain_find_loop s key prev node =
     (if node = 0 then Some (0, prev)
      else do {
        nd \<leftarrow> hm_nodes s node;
        if key_equal (hm_hash s) (cn_key nd) key then Some (node, prev)
        else chain_find_loop s key node (cn_next nd)
      })"

text \<open>The node and its predecessor.\<close>

definition chain_find :: "('k, 'v) hashmap \<Rightarrow> nat \<Rightarrow> 'k \<Rightarrow> (nat \<times> nat) option" where
  "chain_find s bucket_index key = do {
     node \<leftarrow> mem_rd (hm_buckets s) bucket_index;
     chain_find_loop s key 0 node
   }"

definition chain_put :: "('k, 'v) hm_env \<Rightarrow> ('k, 'v) hashmap \<Rightarrow> 'k \<Rightarrow> 'v \<Rightarrow> (status \<times> ('k, 'v) hashmap) option" where
  "chain_put env s key value = do {
     bucket_index \<leftarrow> sz_mod (hash_key (hm_hash s) key) (hm_bucket_count s);
     (existing, _) \<leftarrow> chain_find s bucket_index key;
     if existing \<noteq> 0 then do {
       nd \<leftarrow> hm_nodes s existing;
       let nd' = nd\<lparr>cn_value := copy_assign (hm_value_policy s) (cn_value nd) value\<rparr>;
       Some (Ok, s\<lparr>hm_nodes := (hm_nodes s)(existing \<mapsto> nd')\<rparr>)
     }
     else
       let (st, node, s1) = alloc_chain_node env s key value in
       if st \<noteq> Ok then Some (st, s1)
       else do {
         head \<leftarrow> mem_rd (hm_buckets s1) bucket_index;
         nd \<leftarrow> hm_nodes s1 node;
         buckets \<leftarrow> mem_wr (hm_buckets s1) bucket_index node;
         Some (Ok, s1\<lparr>hm_nodes := (hm_nodes s1)(node \<mapsto> nd\<lparr>cn_next := head\<rparr>), hm_buckets := buckets,
                    hm_size := sz_add (hm_size s1) 1\<rparr>)
       }
   }"

partial_function (option) chain_get_loop :: "('k, 'v) hashmap \<Rightarrow> 'k \<Rightarrow> nat \<Rightarrow> 'v \<Rightarrow> (status \<times> 'v) option" where
  "chain_get_loop s key node out =
     (if node = 0 then Some (Not_found, out)
      else do {
        nd \<leftarrow> hm_nodes s node;
        if key_equal (hm_hash s) (cn_key nd) key then Some (Ok, copy_assign (hm_value_policy s) out (cn_value nd))
        else chain_get_loop s key (cn_next nd) out
      })"

definition chain_get :: "('k, 'v) hashmap \<Rightarrow> 'k \<Rightarrow> 'v \<Rightarrow> (status \<times> 'v) option" where
  "chain_get s key out = do {
     bucket_index \<leftarrow> sz_mod (hash_key (hm_hash s) key) (hm_bucket_count s);
     node \<leftarrow> mem_rd (hm_buckets s) bucket_index;
     chain_get_loop s key node out
   }"

definition chain_remove :: "('k, 'v) hm_env \<Rightarrow> ('k, 'v) hashmap \<Rightarrow> 'k \<Rightarrow> (status \<times> ('k, 'v) hashmap) option" where
  "chain_remove env s key = do {
     bucket_index \<leftarrow> sz_mod (hash_key (hm_hash s) key) (hm_bucket_count s);
     (node, prev) \<leftarrow> chain_find s bucket_index key;
     if node = 0 then Some (Not_found, s)
     else do {
       nd \<leftarrow> hm_nodes s node;
       s1 \<leftarrow> (if prev = 0 then do {
                buckets \<leftarrow> mem_wr (hm_buckets s) bucket_index (cn_next nd);
                Some (s\<lparr>hm_buckets := buckets\<rparr>)
              } else do {
                pd \<leftarrow> hm_nodes s prev;
                Some (s\<lparr>hm_nodes := (hm_nodes s)(prev \<mapsto> pd\<lparr>cn_next := cn_next nd\<rparr>)\<rparr>)
              });
       s2 \<leftarrow> destroy_chain_node s1 node;
       let s3 = free_chain_node env s2 node;
       Some (Ok, s3\<lparr>hm_size := sz_sub (hm_size s3) 1\<rparr>)
     }
   }"

definition chain_contains :: "('k, 'v) hashmap \<Rightarrow> 'k \<Rightarrow> bool option" where
  "chain_contains s key = do {
     bucket_index \<leftarrow> sz_mod (hash_key (hm_hash s) key) (hm_bucket_count s);
     (node, _) \<leftarrow> chain_find s bucket_index key;
     Some (node \<noteq> 0)
   }"

partial_function (option) chain_clear_bucket :: "('k, 'v) hm_env \<Rightarrow> ('k, 'v) hashmap \<Rightarrow> nat \<Rightarrow> ('k, 'v) hashmap option" where
  "chain_clear_bucket env s node =
     (if node = 0 then Some s
      else do {
        nd \<leftarrow> hm_nodes s node;
        s1 \<leftarrow> destroy_chain_node s node;
        chain_clear_bucket env (free_chain_node env s1 node) (cn_next nd)
      })"

fun chain_clear_loop :: "('k, 'v) hm_env \<Rightarrow> ('k, 'v) hashmap \<Rightarrow> nat \<Rightarrow> nat \<Rightarrow> ('k, 'v) hashmap option" where
  "chain_clear_loop env s i 0 = Some s"
| "chain_clear_loop env s i (Suc n) = do {
     node \<leftarrow> mem_rd (hm_buckets s) i;
     s1 \<leftarrow> chain_clear_bucket env s node;
     buckets \<leftarrow> mem_wr (hm_buckets s1) i 0;
     chain_clear_loop env (s1\<lparr>hm_buckets := buckets\<rparr>) (Suc i) n
   }"

text \<open>Rehashing relinks the nodes of one bucket after the other at the heads of the new buckets.\<close>

partial_function (option) chain_rehash_bucket ::
  "('k, 'v) hashmap \<Rightarrow> nat mem \<Rightarrow> nat \<Rightarrow> nat \<Rightarrow> (('k, 'v) hashmap \<times> nat mem) option" where
  "chain_rehash_bucket s new new_count node =
     (if node = 0 then Some (s, new)
      else do {
        nd \<leftarrow> hm_nodes s node;
        index \<leftarrow> sz_mod (hash_key (hm_hash s) (cn_key nd)) new_count;
        head \<leftarrow> mem_rd new index;
        new' \<leftarrow> mem_wr new index node;
        chain_rehash_bucket (s\<lparr>hm_nodes := (hm_nodes s)(node \<mapsto> nd\<lparr>cn_next := head\<rparr>)\<rparr>) new' new_count (cn_next nd)
      })"

fun chain_rehash_loop ::
  "('k, 'v) hashmap \<Rightarrow> nat mem \<Rightarrow> nat \<Rightarrow> nat \<Rightarrow> nat \<Rightarrow> (('k, 'v) hashmap \<times> nat mem) option" where
  "chain_rehash_loop s new new_count i 0 = Some (s, new)"
| "chain_rehash_loop s new new_count i (Suc n) = do {
     node \<leftarrow> mem_rd (hm_buckets s) i;
     (s', new') \<leftarrow> chain_rehash_bucket s new new_count node;
     chain_rehash_loop s' new' new_count (Suc i) n
   }"

text \<open>The kind of storage a rehash leaves behind.\<close>

definition grown_kind :: "('k, 'v) hashmap \<Rightarrow> u8" where
  "grown_kind s = (if hm_arena s then hashmap_owns OR hashmap_arena else hashmap_owns OR hashmap_heap)"

definition chain_rehash :: "('k, 'v) hm_env \<Rightarrow> ('k, 'v) hashmap \<Rightarrow> nat \<Rightarrow> (status \<times> ('k, 'v) hashmap) option" where
  "chain_rehash env s new_bucket_count =
     (let bytes = sz_mul new_bucket_count 8; (st, _, s1) = hashmap_alloc_raw env s bytes 8 in
      if st \<noteq> Ok then Some (st, s1)
      else do {
        (s2, new) \<leftarrow> chain_rehash_loop s1 (Some (new_buckets bytes)) new_bucket_count 0 (hm_bucket_count s1);
        Some (Ok, s2\<lparr>hm_buckets := new, hm_bucket_count := new_bucket_count, hm_kind := grown_kind s2\<rparr>)
      })"

section \<open>Open addressing\<close>

text \<open>
  \<open>open_probe\<close>: the remaining probes are \<open>n\<close>; \<open>first_deleted\<close> is \<open>SIZE_MAX\<close> until a deleted slot was
  seen by an insertion.
\<close>

fun open_probe_loop ::
  "('k, 'v) hashmap \<Rightarrow> 'k \<Rightarrow> bool \<Rightarrow> nat \<Rightarrow> nat \<Rightarrow> nat \<Rightarrow> (slot_state \<times> nat) option" where
  "open_probe_loop s key for_insert index first_deleted 0 =
     Some (Slot_occupied, if for_insert \<and> first_deleted \<noteq> SIZE_MAX then first_deleted else index)"
| "open_probe_loop s key for_insert index first_deleted (Suc n) = do {
     sl \<leftarrow> mem_rd (hm_slots s) index;
     next_index \<leftarrow> sz_mod (sz_add index 1) (hm_bucket_count s);
     case sl_state sl of
       Slot_empty \<Rightarrow> Some (Slot_empty, if for_insert \<and> first_deleted \<noteq> SIZE_MAX then first_deleted else index)
     | Slot_deleted \<Rightarrow>
         open_probe_loop s key for_insert next_index
           (if for_insert \<and> first_deleted = SIZE_MAX then index else first_deleted) n
     | Slot_occupied \<Rightarrow>
         if key_equal (hm_hash s) (sl_key sl) key then Some (Slot_occupied, index)
         else open_probe_loop s key for_insert next_index first_deleted n
   }"

definition open_probe :: "('k, 'v) hashmap \<Rightarrow> 'k \<Rightarrow> bool \<Rightarrow> (slot_state \<times> nat) option" where
  "open_probe s key for_insert = do {
     index \<leftarrow> sz_mod (hash_key (hm_hash s) key) (hm_bucket_count s);
     open_probe_loop s key for_insert index SIZE_MAX (hm_bucket_count s)
   }"

definition open_put :: "('k, 'v) hashmap \<Rightarrow> 'k \<Rightarrow> 'v \<Rightarrow> (status \<times> ('k, 'v) hashmap) option" where
  "open_put s key value = do {
     (state, index) \<leftarrow> open_probe s key True;
     sl \<leftarrow> mem_rd (hm_slots s) index;
     if state = Slot_occupied then
       if key_equal (hm_hash s) (sl_key sl) key then do {
         m \<leftarrow> mem_wr (hm_slots s) index (sl\<lparr>sl_value := copy_assign (hm_value_policy s) (sl_value sl) value\<rparr>);
         Some (Ok, s\<lparr>hm_slots := m\<rparr>)
       }
       else Some (Full, s)
     else do {
       let (kst, k) = copy_construct (hm_key_policy s) (sl_key sl) key;
       m1 \<leftarrow> mem_wr (hm_slots s) index (sl\<lparr>sl_key := k\<rparr>);
       if kst \<noteq> Ok then Some (kst, s\<lparr>hm_slots := m1\<rparr>)
       else do {
         let (vst, v) = copy_construct (hm_value_policy s) (sl_value sl) value;
         if vst \<noteq> Ok then do {
           m2 \<leftarrow> mem_wr m1 index (sl\<lparr>sl_key := k, sl_value := v, sl_state := Slot_empty\<rparr>);
           Some (vst, hm_destroy_key k (s\<lparr>hm_slots := m2\<rparr>))
         }
         else do {
           m2 \<leftarrow> mem_wr m1 index (sl\<lparr>sl_key := k, sl_value := v, sl_state := Slot_occupied\<rparr>);
           Some (Ok, s\<lparr>hm_slots := m2, hm_size := sz_add (hm_size s) 1\<rparr>)
         }
       }
     }
   }"

definition open_get :: "('k, 'v) hashmap \<Rightarrow> 'k \<Rightarrow> 'v \<Rightarrow> (status \<times> 'v) option" where
  "open_get s key out = do {
     (state, index) \<leftarrow> open_probe s key False;
     if state \<noteq> Slot_occupied then Some (Not_found, out)
     else do {
       sl \<leftarrow> mem_rd (hm_slots s) index;
       Some (Ok, copy_assign (hm_value_policy s) out (sl_value sl))
     }
   }"

definition open_remove :: "('k, 'v) hashmap \<Rightarrow> 'k \<Rightarrow> (status \<times> ('k, 'v) hashmap) option" where
  "open_remove s key = do {
     (state, index) \<leftarrow> open_probe s key False;
     if state \<noteq> Slot_occupied then Some (Not_found, s)
     else do {
       sl \<leftarrow> mem_rd (hm_slots s) index;
       m \<leftarrow> mem_wr (hm_slots s) index (sl\<lparr>sl_state := Slot_deleted\<rparr>);
       Some (Ok, (hm_destroy_value (sl_value sl) (hm_destroy_key (sl_key sl) s))\<lparr>hm_slots := m, hm_size := sz_sub (hm_size s) 1\<rparr>)
     }
   }"

definition open_contains :: "('k, 'v) hashmap \<Rightarrow> 'k \<Rightarrow> bool option" where
  "open_contains s key = do {
     (state, _) \<leftarrow> open_probe s key False;
     Some (state = Slot_occupied)
   }"

fun open_clear_loop :: "('k, 'v) hashmap \<Rightarrow> nat \<Rightarrow> nat \<Rightarrow> ('k, 'v) hashmap option" where
  "open_clear_loop s i 0 = Some s"
| "open_clear_loop s i (Suc n) = do {
     sl \<leftarrow> mem_rd (hm_slots s) i;
     let s1 = (if sl_state sl = Slot_occupied then hm_destroy_value (sl_value sl) (hm_destroy_key (sl_key sl) s) else s);
     m \<leftarrow> set_slot_state (hm_slots s1) i Slot_empty;
     open_clear_loop (s1\<lparr>hm_slots := m\<rparr>) (Suc i) n
   }"

text \<open>The loop over the old slots; it stops at the first put that fails.\<close>

fun open_rehash_loop ::
  "('k, 'v) open_slot mem \<Rightarrow> ('k, 'v) hashmap \<Rightarrow> nat \<Rightarrow> nat \<Rightarrow> (status \<times> ('k, 'v) hashmap) option" where
  "open_rehash_loop old s i 0 = Some (Ok, s)"
| "open_rehash_loop old s i (Suc n) = do {
     sl \<leftarrow> mem_rd old i;
     if sl_state sl \<noteq> Slot_occupied then open_rehash_loop old s (Suc i) n
     else do {
       (st, s') \<leftarrow> open_put s (sl_key sl) (sl_value sl);
       if st \<noteq> Ok then Some (st, s') else open_rehash_loop old s' (Suc i) n
     }
   }"

definition open_rehash :: "('k, 'v) hm_env \<Rightarrow> ('k, 'v) hashmap \<Rightarrow> nat \<Rightarrow> (status \<times> ('k, 'v) hashmap) option" where
  "open_rehash env s new_bucket_count =
     (let old = hm_slots s; stride = unat (hm_stride s); bytes = sz_mul new_bucket_count stride;
          (ast, _, s1) = hashmap_alloc_raw env s bytes (unat (hm_key_offset s)) in
      if ast \<noteq> Ok then Some (ast, s1)
      else do {
        m \<leftarrow> empty_slots (Some (new_slots env bytes stride)) 0 new_bucket_count;
        (st, s2) \<leftarrow> open_rehash_loop old (s1\<lparr>hm_slots := m, hm_bucket_count := new_bucket_count, hm_size := 0\<rparr>) 0 (hm_bucket_count s);
        if st \<noteq> Ok then Some (st, s2\<lparr>hm_slots := old, hm_bucket_count := hm_bucket_count s, hm_size := hm_size s\<rparr>)
        else Some (Ok, s2\<lparr>hm_kind := grown_kind s2\<rparr>)
      })"

section \<open>Operations\<close>

definition should_grow :: "('k, 'v) hashmap \<Rightarrow> bool" where
  "should_grow s \<longleftrightarrow> hm_policy s AND hashmap_growable \<noteq> 0 \<and>
     sz_mul (sz_add (hm_size s) 1) 4 \<ge> sz_mul (hm_bucket_count s) 3"

definition grow_bucket_count :: "nat \<Rightarrow> nat" where
  "grow_bucket_count current = (if current = 0 then 8 else if current > SIZE_MAX div 2 then current else sz_mul current 2)"

definition maybe_grow :: "('k, 'v) hm_env \<Rightarrow> ('k, 'v) hashmap \<Rightarrow> (status \<times> ('k, 'v) hashmap) option" where
  "maybe_grow env s =
     (let new_count = grow_bucket_count (hm_bucket_count s) in
      if new_count = hm_bucket_count s then Some (Full, s)
      else if hm_strategy s = Chaining then chain_rehash env s new_count
      else open_rehash env s new_count)"

definition hashmap_clear :: "('k, 'v) hm_env \<Rightarrow> ('k, 'v) hashmap \<Rightarrow> ('k, 'v) hashmap option" where
  "hashmap_clear env s =
     (if hm_bucket_count s = 0 then Some (s\<lparr>hm_size := 0\<rparr>)
      else do {
        s' \<leftarrow> (if hm_strategy s = Chaining then chain_clear_loop env s 0 (hm_bucket_count s)
               else open_clear_loop s 0 (hm_bucket_count s));
        Some (s'\<lparr>hm_size := 0\<rparr>)
      })"

definition hashmap_put :: "('k, 'v) hm_env \<Rightarrow> ('k, 'v) hashmap \<Rightarrow> 'k option \<Rightarrow> 'v option \<Rightarrow> (status \<times> ('k, 'v) hashmap) option" where
  "hashmap_put env s key value =
     (if hm_bucket_count s = 0 \<or> key = None \<or> value = None then Some (Null_ptr, s)
      else do {
        (st, s1) \<leftarrow> (if should_grow s then maybe_grow env s else Some (Ok, s));
        if st \<noteq> Ok then Some (st, s1)
        else if hm_strategy s1 = Chaining then chain_put env s1 (the key) (the value)
        else open_put s1 (the key) (the value)
      })"

definition hashmap_get :: "('k, 'v) hashmap \<Rightarrow> 'k option \<Rightarrow> 'v option \<Rightarrow> (status \<times> 'v option) option" where
  "hashmap_get s key out =
     (case (key, out) of
        (Some k, Some o0) \<Rightarrow> do {
          (st, v) \<leftarrow> (if hm_strategy s = Chaining then chain_get s k o0 else open_get s k o0);
          Some (st, Some v)
        }
      | _ \<Rightarrow> Some (Null_ptr, out))"

definition hashmap_remove :: "('k, 'v) hm_env \<Rightarrow> ('k, 'v) hashmap \<Rightarrow> 'k option \<Rightarrow> (status \<times> ('k, 'v) hashmap) option" where
  "hashmap_remove env s key =
     (case key of
        None \<Rightarrow> Some (Null_ptr, s)
      | Some k \<Rightarrow> if hm_strategy s = Chaining then chain_remove env s k else open_remove s k)"

definition hashmap_contains :: "('k, 'v) hashmap \<Rightarrow> 'k option \<Rightarrow> bool option" where
  "hashmap_contains s key =
     (case key of
        None \<Rightarrow> Some False
      | Some k \<Rightarrow> if hm_strategy s = Chaining then chain_contains s k else open_contains s k)"

partial_function (option) chain_foreach_bucket ::
  "('k \<Rightarrow> 'v \<Rightarrow> 'w \<Rightarrow> status \<times> 'w) \<Rightarrow> ('k, 'v) hashmap \<Rightarrow> nat \<Rightarrow> 'w \<Rightarrow> (status \<times> 'w) option" where
  "chain_foreach_bucket visit s node w =
     (if node = 0 then Some (Ok, w)
      else do {
        nd \<leftarrow> hm_nodes s node;
        let (st, w') = visit (cn_key nd) (cn_value nd) w;
        if st \<noteq> Ok then Some (st, w') else chain_foreach_bucket visit s (cn_next nd) w'
      })"

fun hashmap_foreach_loop ::
  "('k \<Rightarrow> 'v \<Rightarrow> 'w \<Rightarrow> status \<times> 'w) \<Rightarrow> ('k, 'v) hashmap \<Rightarrow> nat \<Rightarrow> nat \<Rightarrow> 'w \<Rightarrow> (status \<times> 'w) option" where
  "hashmap_foreach_loop visit s i 0 w = Some (Ok, w)"
| "hashmap_foreach_loop visit s i (Suc n) w =
     (if hm_strategy s = Chaining then do {
        node \<leftarrow> mem_rd (hm_buckets s) i;
        (st, w') \<leftarrow> chain_foreach_bucket visit s node w;
        if st \<noteq> Ok then Some (st, w') else hashmap_foreach_loop visit s (Suc i) n w'
      }
      else do {
        sl \<leftarrow> mem_rd (hm_slots s) i;
        if sl_state sl \<noteq> Slot_occupied then hashmap_foreach_loop visit s (Suc i) n w
        else do {
          let (st, w') = visit (sl_key sl) (sl_value sl) w;
          if st \<noteq> Ok then Some (st, w') else hashmap_foreach_loop visit s (Suc i) n w'
        }
      })"

definition hashmap_foreach ::
  "('k \<Rightarrow> 'v \<Rightarrow> 'w \<Rightarrow> status \<times> 'w) \<Rightarrow> ('k, 'v) hashmap \<Rightarrow> 'w \<Rightarrow> (status \<times> 'w) option" where
  "hashmap_foreach visit s w = hashmap_foreach_loop visit s 0 (hm_bucket_count s) w"

text \<open>\<open>release_storage\<close> frees an owned heap array, which the state then no longer has.\<close>

definition hashmap_release_storage :: "('k, 'v) hashmap \<Rightarrow> ('k, 'v) hashmap" where
  "hashmap_release_storage s =
     s\<lparr>hm_buckets := None, hm_slots := None, hm_bucket_count := 0, hm_kind := hashmap_external, hm_arena := False\<rparr>"

end
