(* ===== verification/Hash_Common.thy ===== *)
theory Hash_Common
  imports Hash_Map
begin

text \<open>
  What both strategies of the hash map share: hash functions that respect the equality of keys, the
  results of the operations in the form of the map contract, allocators that serve every request.
\<close>

section \<open>Hash policies\<close>

locale hashing = key_equiv carrier "key_equal hp" for carrier :: "'k \<Rightarrow> bool" and hp :: "'k hash_policy" +
  assumes hash_eq: "carrier a \<Longrightarrow> carrier b \<Longrightarrow> key_equal hp a b \<Longrightarrow> hash_key hp a = hash_key hp b"

text \<open>The default policy: FNV-1a and \<open>memcmp\<close> on the object representations, all of one size.\<close>

definition bytes_hash_policy :: "('k \<Rightarrow> u8 list) \<Rightarrow> 'k hash_policy" where
  "bytes_hash_policy bytes = \<lparr>hp_hash_fn = None, hp_eq_fn = None, hp_bytes = bytes\<rparr>"

interpretation bytes_hashing: hashing "\<lambda>k. length (bytes k) = n" "bytes_hash_policy bytes" for n bytes
  by unfold_locales (simp_all add: key_equal_def hash_key_def bytes_hash_policy_def memcmp_eq_iff)

section \<open>Operations\<close>

definition hash_put :: "('k, 'v) hm_env \<Rightarrow> ('k, 'v) hashmap \<Rightarrow> 'k \<Rightarrow> 'v \<Rightarrow> (status \<times> ('k, 'v) hashmap) option" where
  "hash_put env s k v = hashmap_put env s (Some k) (Some v)"

definition hash_get :: "'v \<Rightarrow> ('k, 'v) hashmap \<Rightarrow> 'k \<Rightarrow> (status \<times> 'v option) option" where
  "hash_get d s k = do {
     (st, out) \<leftarrow> hashmap_get s (Some k) (Some d);
     Some (st, if st = Ok then out else None)
   }"

definition hash_remove :: "('k, 'v) hm_env \<Rightarrow> ('k, 'v) hashmap \<Rightarrow> 'k \<Rightarrow> (status \<times> ('k, 'v) hashmap) option" where
  "hash_remove env s k = hashmap_remove env s (Some k)"

definition hash_contains :: "('k, 'v) hashmap \<Rightarrow> 'k \<Rightarrow> bool option" where
  "hash_contains s k = hashmap_contains s (Some k)"

section \<open>Frames\<close>

lemma hm_destroy_simps [simp]:
  "hm_slots (hm_destroy_key k s) = hm_slots s" "hm_slots (hm_destroy_value v s) = hm_slots s"
  "hm_buckets (hm_destroy_key k s) = hm_buckets s" "hm_buckets (hm_destroy_value v s) = hm_buckets s"
  "hm_nodes (hm_destroy_key k s) = hm_nodes s" "hm_nodes (hm_destroy_value v s) = hm_nodes s"
  "hm_size (hm_destroy_key k s) = hm_size s" "hm_size (hm_destroy_value v s) = hm_size s"
  "hm_bucket_count (hm_destroy_key k s) = hm_bucket_count s" "hm_bucket_count (hm_destroy_value v s) = hm_bucket_count s"
  "hm_key_policy (hm_destroy_key k s) = hm_key_policy s" "hm_key_policy (hm_destroy_value v s) = hm_key_policy s"
  "hm_value_policy (hm_destroy_key k s) = hm_value_policy s" "hm_value_policy (hm_destroy_value v s) = hm_value_policy s"
  "hm_hash (hm_destroy_key k s) = hm_hash s" "hm_hash (hm_destroy_value v s) = hm_hash s"
  "hm_strategy (hm_destroy_key k s) = hm_strategy s" "hm_strategy (hm_destroy_value v s) = hm_strategy s"
  "hm_stride (hm_destroy_key k s) = hm_stride s" "hm_stride (hm_destroy_value v s) = hm_stride s"
  "hm_arena (hm_destroy_key k s) = hm_arena s" "hm_arena (hm_destroy_value v s) = hm_arena s"
  "hm_policy (hm_destroy_key k s) = hm_policy s" "hm_policy (hm_destroy_value v s) = hm_policy s"
  "hm_allocs (hm_destroy_key k s) = hm_allocs s" "hm_allocs (hm_destroy_value v s) = hm_allocs s"
  by (simp_all add: hm_destroy_key_def hm_destroy_value_def)

text \<open>An allocator that serves every request, and the state after a call.\<close>

definition serves :: "('k, 'v) hm_env \<Rightarrow> ('k, 'v) hashmap \<Rightarrow> bool" where
  "serves env s \<longleftrightarrow> (if hm_arena s then \<forall>n b a. he_arena env n b a = Ok
     else he_allow_heap env \<and> (\<forall>n b. he_malloc env n b))"

lemma hashmap_alloc_raw_serves:
  "serves env s \<Longrightarrow> hashmap_alloc_raw env s bytes al = (Ok, Suc (hm_allocs s), s\<lparr>hm_allocs := Suc (hm_allocs s)\<rparr>)"
  by (simp add: serves_def hashmap_alloc_raw_def Let_def split: if_splits)

lemma serves_arena: "serves env s \<Longrightarrow> hm_arena s' = hm_arena s \<Longrightarrow> serves env s'"
  by (simp add: serves_def)

section \<open>Samples\<close>

definition sample_hm_env :: "(u8, nat) hm_env" where
  "sample_hm_env = \<lparr>he_allow_heap = True, he_malloc = (\<lambda>_ _. True), he_arena = (\<lambda>_ _ _. Oom), he_junk_key = 0, he_junk_value = 0,
     he_max_align = 16, he_key_policy = typed_trivial_policy 1 1, he_value_policy = typed_trivial_policy 8 8,
     he_hash = bytes_hash_policy (\<lambda>k. [k])\<rparr>"

definition sample_hm :: "(u8, nat) hashmap" where
  "sample_hm = \<lparr>hm_strategy = Chaining, hm_bucket_count = 0, hm_size = 0, hm_key_offset = 0, hm_value_offset = 0, hm_stride = 0,
     hm_buckets = None, hm_slots = None, hm_nodes = (\<lambda>_. None), hm_key_policy = typed_trivial_policy 1 1,
     hm_value_policy = typed_trivial_policy 8 8, hm_hash = bytes_hash_policy (\<lambda>k. [k]), hm_policy = 0, hm_arena = False,
     hm_kind = 0, hm_allocs = 0, hm_destroyed = []\<rparr>"

lemma sample_hash_eq: "key_equal (bytes_hash_policy (\<lambda>k :: u8. [k])) a b \<longleftrightarrow> a = b"
  by (auto simp: key_equal_def bytes_hash_policy_def)

end
