(* ===== verification/Hash_Open.thy ===== *)
theory Hash_Open
  imports Hash_Common
begin

text \<open>
  Open addressing: as long as one slot was never used, probing finds a key exactly when it is in the
  table, and the operations are those of a map; growing keeps the contents and drops the deleted
  slots. A table without an empty slot reports every key as present.
\<close>

section \<open>Tables\<close>

abbreviation occ :: "('k, 'v) open_slot \<Rightarrow> bool" where
  "occ r \<equiv> sl_state r = Slot_occupied"

definition entries :: "('k, 'v) open_slot list \<Rightarrow> ('k \<times> 'v) list" where
  "entries sl = map (\<lambda>r. (sl_key r, sl_value r)) (filter occ sl)"

definition empties :: "('k, 'v) open_slot list \<Rightarrow> nat" where
  "empties sl = length (filter (\<lambda>r. sl_state r = Slot_empty) sl)"

lemma entries_simps [simp]:
  "entries [] = []" "entries (r # sl) = (if occ r then [(sl_key r, sl_value r)] else []) @ entries sl"
  "entries (xs @ ys) = entries xs @ entries ys"
  by (simp_all add: entries_def)

lemma length_entries_le: "length (entries sl) + empties sl \<le> length sl"
  by (induction sl) (auto simp: empties_def entries_def)

lemma empties_pos: "0 < empties sl \<longleftrightarrow> (\<exists>i < length sl. sl_state (sl ! i) = Slot_empty)"
  by (simp add: empties_def filter_empty_conv) (metis in_set_conv_nth)

text \<open>Slot \<open>e\<close> of the probe path that starts at hash \<open>h\<close>.\<close>

definition path :: "('k, 'v) open_slot list \<Rightarrow> nat \<Rightarrow> nat \<Rightarrow> nat" where
  "path sl h e = (h + e) mod length sl"

text \<open>Slot \<open>i\<close> is on the path of \<open>h\<close>, and no slot before it was never used.\<close>

definition reach :: "('k, 'v) open_slot list \<Rightarrow> nat \<Rightarrow> nat \<Rightarrow> bool" where
  "reach sl h i \<longleftrightarrow> (\<exists>d < length sl. path sl h d = i \<and> (\<forall>e < d. sl_state (sl ! path sl h e) \<noteq> Slot_empty))"

lemma path_less [simp]: "sl \<noteq> [] \<Longrightarrow> path sl h e < length sl"
  by (simp add: path_def)

lemma path_surj:
  assumes "i < length sl"
  shows "\<exists>e < length sl. path sl h e = i"
proof -
  let ?c = "length sl"
  have c: "0 < ?c" using assms by linarith
  have "(h + (i + ?c - h mod ?c) mod ?c) mod ?c = (h mod ?c + (i + ?c - h mod ?c)) mod ?c"
    by (simp add: mod_add_right_eq mod_add_left_eq)
  also have "h mod ?c + (i + ?c - h mod ?c) = i + ?c" using mod_less_divisor [OF c, of h] by simp
  finally have "path sl h ((i + ?c - h mod ?c) mod ?c) = i" using assms by (simp add: path_def)
  then show ?thesis using c by (intro exI [of _ "(i + ?c - h mod ?c) mod ?c"]) simp
qed

lemma reach_update:
  assumes "reach sl h i" "sl_state r \<noteq> Slot_empty"
  shows "reach (sl[j := r]) h i"
proof -
  from assms(1) obtain d where d: "d < length sl" "path sl h d = i" "\<forall>e < d. sl_state (sl ! path sl h e) \<noteq> Slot_empty"
    by (auto simp: reach_def)
  have "sl_state (sl[j := r] ! path sl h e) \<noteq> Slot_empty" if "e < d" for e
  proof (cases "path sl h e = j")
    case True
    have "path sl h e < length sl" using d(1) by (intro path_less) auto
    with True assms(2) show ?thesis by auto
  qed (use d(3) that in simp)
  with d(1,2) show ?thesis unfolding reach_def by (intro exI [of _ d]) (simp add: path_def)
qed

section \<open>Probing\<close>

text \<open>The table as the operations see it.\<close>

definition table :: "('k, 'v) hashmap \<Rightarrow> ('k, 'v) open_slot list \<Rightarrow> bool" where
  "table s sl \<longleftrightarrow> hm_slots s = Some sl \<and> hm_bucket_count s = length sl \<and> sl \<noteq> [] \<and> length sl \<le> SIZE_MAX"

lemma path_step: "table s sl \<Longrightarrow> sz_mod (sz_add (path sl h d) 1) (hm_bucket_count s) = Some (path sl h (Suc d))"
proof -
  assume t: "table s sl"
  then have "path sl h d < length sl" "length sl \<le> SIZE_MAX" by (simp_all add: table_def)
  then have "path sl h d + 1 \<le> SIZE_MAX" by linarith
  then have "sz_add (path sl h d) 1 = path sl h d + 1" by (simp add: sz_add_eq)
  with t show ?thesis by (simp add: table_def path_def mod_Suc_eq)
qed

lemma probe_hit:
  assumes "table s sl" "d \<le> d0" "d0 < length sl" "n + d = length sl"
    "\<forall>e < d0. sl_state (sl ! path sl h e) \<noteq> Slot_empty \<and> (occ (sl ! path sl h e) \<longrightarrow> \<not> key_equal (hm_hash s) (sl_key (sl ! path sl h e)) x)"
    "occ (sl ! path sl h d0)" "key_equal (hm_hash s) (sl_key (sl ! path sl h d0)) x"
  shows "open_probe_loop s x ins (path sl h d) fd n = Some (Slot_occupied, path sl h d0)"
  using assms
proof (induction n arbitrary: d fd)
  case (Suc n)
  have rd: "mem_rd (hm_slots s) (path sl h d) = Some (sl ! path sl h d)" using Suc.prems(1) by (simp add: table_def)
  show ?case
  proof (cases "d = d0")
    case True
    with Suc.prems rd path_step [OF Suc.prems(1), of h d] show ?thesis by simp
  next
    case False
    with Suc.prems have "Suc d \<le> d0" "n + Suc d = length sl" "d < d0" by simp_all
    with Suc.IH [OF Suc.prems(1) this(1) Suc.prems(3) this(2) Suc.prems(5-7)] Suc.prems(5) rd
      path_step [OF Suc.prems(1), of h d]
    show ?thesis by (auto split: slot_state.split)
  qed
qed simp

text \<open>A miss ends at the first empty slot, an insertion takes the first deleted slot before it.\<close>

lemma probe_miss:
  assumes "table s sl" "d \<le> d0" "d0 < length sl" "n + d = length sl"
    "\<forall>e < d0. sl_state (sl ! path sl h e) \<noteq> Slot_empty \<and> (occ (sl ! path sl h e) \<longrightarrow> \<not> key_equal (hm_hash s) (sl_key (sl ! path sl h e)) x)"
    "sl_state (sl ! path sl h d0) = Slot_empty"
    "fd = SIZE_MAX \<or> (\<exists>e < d0. fd = path sl h e \<and> \<not> occ (sl ! fd))"
  shows "\<exists>e \<le> d0. open_probe_loop s x ins (path sl h d) fd n = Some (Slot_empty, path sl h e) \<and> \<not> occ (sl ! path sl h e)"
  using assms
proof (induction n arbitrary: d fd)
  case (Suc n)
  have rd: "mem_rd (hm_slots s) (path sl h d) = Some (sl ! path sl h d)" using Suc.prems(1) by (simp add: table_def)
  show ?case
  proof (cases "d = d0")
    case True
    with Suc.prems(6,7) rd path_step [OF Suc.prems(1), of h d] show ?thesis by (auto intro: less_imp_le)
  next
    case False
    with Suc.prems have d: "Suc d \<le> d0" "n + Suc d = length sl" "d < d0" by simp_all
    note IH = Suc.IH [OF Suc.prems(1) d(1) Suc.prems(3) d(2) Suc.prems(5,6)]
    show ?thesis
    proof (cases "sl_state (sl ! path sl h d)")
      case Slot_empty
      with Suc.prems(5) d(3) show ?thesis by blast
    next
      case Slot_deleted
      let ?fd = "if ins \<and> fd = SIZE_MAX then path sl h d else fd"
      have "?fd = SIZE_MAX \<or> (\<exists>e < d0. ?fd = path sl h e \<and> \<not> occ (sl ! ?fd))"
        using Suc.prems(7) d(3) Slot_deleted by auto
      from IH [OF this] show ?thesis using Slot_deleted rd path_step [OF Suc.prems(1), of h d] by simp
    next
      case Slot_occupied
      from IH [OF Suc.prems(7)] Suc.prems(5) d(3) Slot_occupied rd path_step [OF Suc.prems(1), of h d]
      show ?thesis by simp
    qed
  qed
qed simp

text \<open>Without an empty slot the loop runs out and answers as for a hit.\<close>

lemma probe_exhausted:
  assumes "table s sl" "n + d = length sl"
    "\<forall>i < length sl. sl_state (sl ! i) \<noteq> Slot_empty \<and> (occ (sl ! i) \<longrightarrow> \<not> key_equal (hm_hash s) (sl_key (sl ! i)) x)"
  shows "open_probe_loop s x False (path sl h d) fd n = Some (Slot_occupied, path sl h (length sl))"
  using assms
proof (induction n arbitrary: d fd)
  case (Suc n)
  have p: "path sl h d < length sl" using Suc.prems(1) by (simp add: table_def)
  have rd: "mem_rd (hm_slots s) (path sl h d) = Some (sl ! path sl h d)" using Suc.prems(1) by (simp add: table_def)
  from Suc.prems(2) have "n + Suc d = length sl" by simp
  from Suc.IH [OF Suc.prems(1) this Suc.prems(3)] rd path_step [OF Suc.prems(1), of h d] Suc.prems(3) p
  show ?case by (auto split: slot_state.split)
qed simp

section \<open>Well-formed tables\<close>

definition open_wf :: "('k \<Rightarrow> bool) \<Rightarrow> 'k hash_policy \<Rightarrow> ('k, 'v) open_slot list \<Rightarrow> bool" where
  "open_wf carrier hp sl \<longleftrightarrow>
     (\<forall>i < length sl. occ (sl ! i) \<longrightarrow> carrier (sl_key (sl ! i)) \<and> reach sl (hash_key hp (sl_key (sl ! i))) i) \<and>
     (\<forall>i < length sl. \<forall>j < length sl. occ (sl ! i) \<longrightarrow> occ (sl ! j) \<longrightarrow>
        key_equal hp (sl_key (sl ! i)) (sl_key (sl ! j)) \<longrightarrow> i = j)"

lemma entries_split:
  "i < length sl \<Longrightarrow> entries sl = entries (take i sl) @
     (if occ (sl ! i) then [(sl_key (sl ! i), sl_value (sl ! i))] else []) @ entries (drop (Suc i) sl)"
  by (subst id_take_nth_drop [of i sl]) simp_all

lemma entries_update:
  "i < length sl \<Longrightarrow> entries (sl[i := r]) = entries (take i sl) @
     (if occ r then [(sl_key r, sl_value r)] else []) @ entries (drop (Suc i) sl)"
  by (simp add: upd_conv_take_nth_drop)

lemma entries_memD: "p \<in> set (entries sl) \<Longrightarrow> \<exists>i < length sl. occ (sl ! i) \<and> p = (sl_key (sl ! i), sl_value (sl ! i))"
  by (auto simp: entries_def in_set_conv_nth)

lemma entries_others:
  assumes "p \<in> set (entries (take i sl) @ entries (drop (Suc i) sl))"
  shows "\<exists>j < length sl. j \<noteq> i \<and> occ (sl ! j) \<and> p = (sl_key (sl ! j), sl_value (sl ! j))"
proof (cases "p \<in> set (entries (take i sl))")
  case True
  from entries_memD [OF this] obtain j where "j < length (take i sl)" "occ (take i sl ! j)"
    "p = (sl_key (take i sl ! j), sl_value (take i sl ! j))" by blast
  then show ?thesis by (intro exI [of _ j]) simp
next
  case False
  with assms have "p \<in> set (entries (drop (Suc i) sl))" by simp
  from entries_memD [OF this] obtain j where "j < length (drop (Suc i) sl)" "occ (drop (Suc i) sl ! j)"
    "p = (sl_key (drop (Suc i) sl ! j), sl_value (drop (Suc i) sl ! j))" by blast
  then show ?thesis by (intro exI [of _ "Suc i + j"]) simp
qed

lemma empties_update:
  assumes "i < length sl"
  shows "empties sl \<le> Suc (empties (sl[i := r]))"
    and "sl_state (sl ! i) \<noteq> Slot_empty \<Longrightarrow> empties sl \<le> empties (sl[i := r])"
proof -
  let ?e = "\<lambda>r. sl_state r = Slot_empty"
  have a: "empties sl = length (filter ?e (take i sl)) + (if ?e (sl ! i) then 1 else 0) + length (filter ?e (drop (Suc i) sl))"
    unfolding empties_def by (subst id_take_nth_drop [OF assms]) simp
  have b: "empties (sl[i := r]) = length (filter ?e (take i sl)) + (if ?e r then 1 else 0) + length (filter ?e (drop (Suc i) sl))"
    unfolding empties_def using assms by (simp add: upd_conv_take_nth_drop)
  from a b show "empties sl \<le> Suc (empties (sl[i := r]))"
    and "sl_state (sl ! i) \<noteq> Slot_empty \<Longrightarrow> empties sl \<le> empties (sl[i := r])" by simp_all
qed

context hashing
begin

lemma open_wfD:
  assumes "open_wf carrier hp sl" "i < length sl" "occ (sl ! i)"
  shows "carrier (sl_key (sl ! i))" "reach sl (hash_key hp (sl_key (sl ! i))) i"
    "j < length sl \<Longrightarrow> occ (sl ! j) \<Longrightarrow> key_equal hp (sl_key (sl ! i)) (sl_key (sl ! j)) \<Longrightarrow> i = j"
  using assms by (simp_all add: open_wf_def)

lemma open_wf_update:
  assumes wf: "open_wf carrier hp sl" and i: "i < length sl" and r: "sl_state r \<noteq> Slot_empty"
    and new: "occ r \<Longrightarrow> carrier (sl_key r) \<and> reach sl (hash_key hp (sl_key r)) i \<and>
      (\<forall>j < length sl. j \<noteq> i \<longrightarrow> occ (sl ! j) \<longrightarrow> \<not> key_equal hp (sl_key (sl ! j)) (sl_key r))"
  shows "open_wf carrier hp (sl[i := r])"
proof -
  let ?sl = "sl[i := r]"
  have "carrier (sl_key (?sl ! j)) \<and> reach ?sl (hash_key hp (sl_key (?sl ! j))) j" if j: "j < length sl" "occ (?sl ! j)" for j
  proof (cases "j = i")
    case True
    with j new i reach_update [OF _ r] show ?thesis by simp
  next
    case False
    with j open_wfD [OF wf j(1)] reach_update [OF _ r] show ?thesis by simp
  qed
  moreover have "j = k" if jk: "j < length sl" "k < length sl" "occ (?sl ! j)" "occ (?sl ! k)"
    "key_equal hp (sl_key (?sl ! j)) (sl_key (?sl ! k))" for j k
  proof (rule ccontr)
    assume ne: "j \<noteq> k"
    consider "j = i" "k \<noteq> i" | "k = i" "j \<noteq> i" | "j \<noteq> i" "k \<noteq> i" using ne by blast
    then show False
    proof cases
      case 1
      then have k: "occ (sl ! k)" "occ r" "key_equal hp (sl_key r) (sl_key (sl ! k))" using jk i by simp_all
      with eq_sym [of "sl_key r" "sl_key (sl ! k)"] new [OF k(2)] 1 jk(2) open_wfD(1) [OF wf jk(2) k(1)] show False by blast
    next
      case 2
      then have "occ (sl ! j)" "occ r" "key_equal hp (sl_key (sl ! j)) (sl_key r)" using jk i by simp_all
      with new 2 jk(1) show False by blast
    next
      case 3
      with open_wfD(3) [OF wf jk(1)] jk ne show False by simp
    qed
  qed
  ultimately show ?thesis unfolding open_wf_def length_list_update by blast
qed

lemma open_others:
  assumes "open_wf carrier hp sl" "i < length sl"
    "\<forall>j < length sl. j \<noteq> i \<longrightarrow> occ (sl ! j) \<longrightarrow> \<not> key_equal hp (sl_key (sl ! j)) k"
  shows "\<forall>p \<in> set (entries (take i sl) @ entries (drop (Suc i) sl)). carrier (fst p) \<and> \<not> key_equal hp (fst p) k"
proof
  fix p
  assume "p \<in> set (entries (take i sl) @ entries (drop (Suc i) sl))"
  from entries_others [OF this] obtain j where j: "j < length sl" "j \<noteq> i" "occ (sl ! j)" "fst p = sl_key (sl ! j)" by auto
  with assms(3) open_wfD(1) [OF assms(1) j(1,3)] show "carrier (fst p) \<and> \<not> key_equal hp (fst p) k" by simp
qed

lemma open_distinct:
  assumes "open_wf carrier hp sl" "i < length sl" "occ (sl ! i)"
  shows "\<forall>j < length sl. j \<noteq> i \<longrightarrow> occ (sl ! j) \<longrightarrow> \<not> key_equal hp (sl_key (sl ! j)) (sl_key (sl ! i))"
  using assms open_wfD(3) by blast

lemma assoc_entries_hit:
  assumes "open_wf carrier hp sl" "i < length sl" "occ (sl ! i)" "carrier x" "key_equal hp (sl_key (sl ! i)) x"
  shows "assoc (key_equal hp) (entries sl) x = Some (sl_value (sl ! i))"
  using assoc_found [OF open_others [OF assms(1,2) open_distinct [OF assms(1-3)]] open_wfD(1) [OF assms(1-3)] assms(4,5)]
    assms(3) by (simp add: entries_split [OF assms(2)])

lemma assoc_entries_miss:
  "assoc (key_equal hp) (entries sl) x = None \<longleftrightarrow> (\<forall>i < length sl. occ (sl ! i) \<longrightarrow> \<not> key_equal hp (sl_key (sl ! i)) x)"
  by (auto simp: assoc_None_iff entries_def in_set_conv_nth)

text \<open>The two outcomes of a probe.\<close>

lemma probe_cases [consumes 5, case_names hit miss]:
  assumes t: "table s sl" "hm_hash s = hp" and wf: "open_wf carrier hp sl" and e: "0 < empties sl" and k: "carrier k"
  obtains (hit) i where "i < length sl" "occ (sl ! i)" "key_equal hp (sl_key (sl ! i)) k"
      "\<And>ins. open_probe s k ins = Some (Slot_occupied, i)"
      "assoc (key_equal hp) (entries sl) k = Some (sl_value (sl ! i))"
    | (miss) "assoc (key_equal hp) (entries sl) k = None"
      "\<And>ins. \<exists>j < length sl. open_probe s k ins = Some (Slot_empty, j) \<and> \<not> occ (sl ! j) \<and> reach sl (hash_key hp k) j"
proof (cases "assoc (key_equal hp) (entries sl) k = None")
  case True
  from e obtain i where i: "i < length sl" "sl_state (sl ! i) = Slot_empty" using empties_pos by blast
  from path_surj [OF i(1), of "hash_key hp k"] i(2)
  have "\<exists>d. d < length sl \<and> sl_state (sl ! path sl (hash_key hp k) d) = Slot_empty" by auto
  then obtain d0 where d0: "d0 < length sl" "sl_state (sl ! path sl (hash_key hp k) d0) = Slot_empty"
    "\<forall>d < d0. \<not> (d < length sl \<and> sl_state (sl ! path sl (hash_key hp k) d) = Slot_empty)"
    using exists_least_iff [of "\<lambda>d. d < length sl \<and> sl_state (sl ! path sl (hash_key hp k) d) = Slot_empty"] by blast
  have p: "path sl (hash_key hp k) d < length sl" for d using t by (simp add: table_def)
  have before: "\<forall>d < d0. sl_state (sl ! path sl (hash_key hp k) d) \<noteq> Slot_empty \<and>
    (occ (sl ! path sl (hash_key hp k) d) \<longrightarrow> \<not> key_equal (hm_hash s) (sl_key (sl ! path sl (hash_key hp k) d)) k)"
    using d0(1,3) True p t(2) by (simp add: assoc_entries_miss)
  have start: "open_probe s k ins = open_probe_loop s k ins (path sl (hash_key hp k) 0) SIZE_MAX (length sl)" for ins
    using t by (simp add: open_probe_def table_def path_def)
  have "\<exists>j < length sl. open_probe s k ins = Some (Slot_empty, j) \<and> \<not> occ (sl ! j) \<and> reach sl (hash_key hp k) j" for ins
  proof -
    from probe_miss [OF t(1) le0 d0(1) _ before d0(2), of "length sl" SIZE_MAX ins] obtain c where
      c: "c \<le> d0" "open_probe_loop s k ins (path sl (hash_key hp k) 0) SIZE_MAX (length sl) = Some (Slot_empty, path sl (hash_key hp k) c)"
      "\<not> occ (sl ! path sl (hash_key hp k) c)" by auto
    moreover have "reach sl (hash_key hp k) (path sl (hash_key hp k) c)"
      unfolding reach_def using before c(1) d0(1) by (intro exI [of _ c]) simp
    ultimately show ?thesis using start p by auto
  qed
  with True show ?thesis by (rule miss)
next
  case False
  then have "\<exists>i. i < length sl \<and> occ (sl ! i) \<and> key_equal hp (sl_key (sl ! i)) k"
    unfolding assoc_entries_miss by simp
  then obtain i where i: "i < length sl" "occ (sl ! i)" "key_equal hp (sl_key (sl ! i)) k" by (elim exE conjE)
  note ci = open_wfD(1) [OF wf i(1,2)]
  from open_wfD(2) [OF wf i(1,2)] hash_eq [OF ci k i(3)] obtain d0 where
    d0: "d0 < length sl" "path sl (hash_key hp k) d0 = i" "\<forall>e < d0. sl_state (sl ! path sl (hash_key hp k) e) \<noteq> Slot_empty"
    by (auto simp: reach_def)
  have before: "\<forall>d < d0. sl_state (sl ! path sl (hash_key hp k) d) \<noteq> Slot_empty \<and>
    (occ (sl ! path sl (hash_key hp k) d) \<longrightarrow> \<not> key_equal (hm_hash s) (sl_key (sl ! path sl (hash_key hp k) d)) k)"
  proof (intro allI impI conjI notI)
    fix d
    assume d: "d < d0" "occ (sl ! path sl (hash_key hp k) d)" "key_equal (hm_hash s) (sl_key (sl ! path sl (hash_key hp k) d)) k"
    let ?j = "path sl (hash_key hp k) d"
    have j: "?j < length sl" using t by (simp add: table_def)
    have "key_equal hp (sl_key (sl ! ?j)) (sl_key (sl ! i))"
      using eq_trans [of "sl_key (sl ! ?j)" k "sl_key (sl ! i)"] eq_sym [OF ci k i(3)] open_wfD(1) [OF wf j d(2)] ci k d(3) t(2)
      by simp
    with open_wfD(3) [OF wf j d(2) i(1,2)] have "?j = path sl (hash_key hp k) d0" using d0(2) by simp
    then have "d = d0" unfolding path_def using d(1) d0(1) by (intro mod_add_inj [of d "length sl" d0]) simp_all
    with d(1) show False by simp
  qed (use d0(3) in blast)
  have "open_probe s k ins = Some (Slot_occupied, i)" for ins
  proof -
    have "open_probe_loop s k ins (path sl (hash_key hp k) 0) SIZE_MAX (length sl) = Some (Slot_occupied, path sl (hash_key hp k) d0)"
      by (rule probe_hit [OF t(1) le0 d0(1) _ before]) (use i d0(2) t(2) in simp_all)
    then show ?thesis using d0(2) t by (simp add: open_probe_def table_def path_def)
  qed
  with i assoc_entries_hit [OF wf i(1,2) k i(3)] show ?thesis by (intro hit) simp_all
qed

end

section \<open>The operations\<close>

definition open_slots :: "('k, 'v) hashmap \<Rightarrow> ('k, 'v) open_slot list" where
  "open_slots s = (case hm_slots s of None \<Rightarrow> [] | Some sl \<Rightarrow> sl)"

definition open_lookup :: "('k, 'v) hashmap \<Rightarrow> 'k \<Rightarrow> 'v option" where
  "open_lookup s k = assoc (key_equal (hm_hash s)) (entries (open_slots s)) k"

definition open_ok :: "('k \<Rightarrow> bool) \<Rightarrow> 'k hash_policy \<Rightarrow> ('k, 'v) hashmap \<Rightarrow> bool" where
  "open_ok carrier hp s \<longleftrightarrow> table s (open_slots s) \<and> hm_hash s = hp \<and> open_wf carrier hp (open_slots s) \<and>
     hm_size s = length (entries (open_slots s)) \<and> faithful (hm_key_policy s) \<and> faithful (hm_value_policy s)"

text \<open>The state after the table was replaced by \<open>sl\<close>.\<close>

definition with_table :: "('k, 'v) hashmap \<Rightarrow> ('k, 'v) open_slot list \<Rightarrow> ('k, 'v) hashmap" where
  "with_table s sl = s\<lparr>hm_slots := Some sl, hm_size := length (entries sl)\<rparr>"

lemma with_table_simps [simp]:
  "open_slots (with_table s sl) = sl" "hm_slots (with_table s sl) = Some sl" "hm_size (with_table s sl) = length (entries sl)"
  "hm_bucket_count (with_table s sl) = hm_bucket_count s" "hm_hash (with_table s sl) = hm_hash s"
  "hm_key_policy (with_table s sl) = hm_key_policy s" "hm_value_policy (with_table s sl) = hm_value_policy s"
  "hm_strategy (with_table s sl) = hm_strategy s" "hm_policy (with_table s sl) = hm_policy s"
  "hm_arena (with_table s sl) = hm_arena s" "hm_stride (with_table s sl) = hm_stride s"
  "with_table (with_table s sl) sl' = with_table s sl'"
  by (simp_all add: with_table_def open_slots_def)

lemma table_slots: "table s sl \<Longrightarrow> open_slots s = sl"
  by (simp add: table_def open_slots_def)

lemma sz_add_entries: "length sl \<le> SIZE_MAX \<Longrightarrow> length (entries sl) < length sl \<Longrightarrow>
  sz_add (length (entries sl)) 1 = Suc (length (entries sl))"
  by (simp add: sz_add_eq)

context hashing
begin

lemma open_ok_with_table:
  "open_ok carrier hp s \<Longrightarrow> length sl = length (open_slots s) \<Longrightarrow> open_wf carrier hp sl \<Longrightarrow> open_ok carrier hp (with_table s sl)"
  by (auto simp: open_ok_def table_def)

lemma open_put_ok:
  assumes ok: "open_ok carrier hp s" and e: "0 < empties (open_slots s)" and k: "carrier k"
  shows "\<exists>sl. open_put s k v = Some (Ok, with_table s sl) \<and> open_ok carrier hp (with_table s sl) \<and>
    length sl = length (open_slots s) \<and> empties (open_slots s) \<le> (if open_lookup s k \<noteq> None then empties sl else Suc (empties sl)) \<and>
    length (entries sl) = (if open_lookup s k \<noteq> None then hm_size s else Suc (hm_size s)) \<and>
    (\<forall>x. carrier x \<longrightarrow> assoc (key_equal hp) (entries sl) x = (if key_equal hp k x then Some v else open_lookup s x))"
proof -
  define sl where "sl = open_slots s"
  from ok have t: "table s sl" "hm_hash s = hp" "open_wf carrier hp sl" "hm_size s = length (entries sl)"
    "faithful (hm_key_policy s)" "faithful (hm_value_policy s)" by (simp_all add: open_ok_def sl_def)
  have sl: "hm_slots s = Some sl" "length sl \<le> SIZE_MAX" using t(1) by (simp_all add: table_def)
  note e' = e [folded sl_def]
  from t(1-3) e' k show ?thesis
  proof (cases rule: probe_cases)
    case (hit i)
    let ?r = "(sl ! i)\<lparr>sl_value := v\<rparr>"
    let ?sl = "sl[i := ?r]"
    have len: "length (entries ?sl) = length (entries sl)"
      using hit(1,2) by (simp add: entries_update entries_split [OF hit(1)])
    have eq: "with_table s ?sl = s\<lparr>hm_slots := Some ?sl\<rparr>"
      unfolding with_table_def len using t(4) by simp
    have "open_put s k v = Some (Ok, with_table s ?sl)"
      unfolding eq using hit(1-4) sl t by (simp add: open_put_def)
    moreover have "open_wf carrier hp ?sl"
      using hit(1,2) open_distinct [OF t(3) hit(1,2)] open_wfD [OF t(3) hit(1,2)]
      by (intro open_wf_update [OF t(3)]) simp_all
    moreover have "assoc (key_equal hp) (entries ?sl) x = (if key_equal hp k x then Some v else open_lookup s x)"
      if x: "carrier x" for x
      using assoc_overwrite [OF open_others [OF t(3) hit(1) open_distinct [OF t(3) hit(1,2)]] open_wfD(1) [OF t(3) hit(1,2)] k x hit(3),
          of v "sl_value (sl ! i)"] hit(1,2) t(2)
      by (simp add: open_lookup_def entries_update entries_split [OF hit(1), symmetric] sl_def [symmetric]
          entries_split [OF hit(1)] cong: if_cong)
    moreover have "empties sl \<le> empties ?sl" using hit(1,2) by (intro empties_update) simp_all
    moreover have "open_lookup s k = Some (sl_value (sl ! i))" using hit(5) t(2) by (simp add: open_lookup_def sl_def)
    ultimately show ?thesis
      using len t(4) open_ok_with_table [OF ok, of ?sl] by (intro exI [of _ ?sl]) (simp add: sl_def [symmetric])
  next
    case miss
    from miss(2) obtain j where j: "j < length sl" "open_probe s k True = Some (Slot_empty, j)" "\<not> occ (sl ! j)"
      "reach sl (hash_key hp k) j" by blast
    let ?r = "(sl ! j)\<lparr>sl_key := k, sl_value := v, sl_state := Slot_occupied\<rparr>"
    let ?sl = "sl[j := ?r]"
    have none: "\<forall>i < length sl. i \<noteq> j \<longrightarrow> occ (sl ! i) \<longrightarrow> \<not> key_equal hp (sl_key (sl ! i)) k"
      using miss(1) assoc_entries_miss by blast
    have len: "length (entries ?sl) = Suc (length (entries sl))"
      using j(1,3) by (simp add: entries_update entries_split [OF j(1)])
    have "length (entries sl) < length sl" using length_entries_le [of sl] e' by linarith
    from sz_add_entries [OF sl(2) this] have eq: "with_table s ?sl = s\<lparr>hm_slots := Some ?sl, hm_size := sz_add (hm_size s) 1\<rparr>"
      unfolding with_table_def len using t(4) by simp
    have "open_put s k v = Some (Ok, with_table s ?sl)"
      unfolding eq using j sl t by (simp add: open_put_def)
    moreover have "open_wf carrier hp ?sl"
      using none j(1,4) k by (intro open_wf_update [OF t(3)]) simp_all
    moreover have "assoc (key_equal hp) (entries ?sl) x = (if key_equal hp k x then Some v else open_lookup s x)"
      if x: "carrier x" for x
      using assoc_insert [OF open_others [OF t(3) j(1) none] k x, of v] j(1,3) t(2)
      by (simp add: open_lookup_def entries_update sl_def [symmetric] entries_split [OF j(1)] cong: if_cong)
    moreover have "empties sl \<le> Suc (empties ?sl)" using j(1) by (rule empties_update)
    moreover have "open_lookup s k = None" using miss(1) t(2) by (simp add: open_lookup_def sl_def)
    ultimately show ?thesis
      using len t(4) open_ok_with_table [OF ok, of ?sl] by (intro exI [of _ ?sl]) (simp add: sl_def [symmetric])
  qed
qed

lemma open_get_eq:
  assumes ok: "open_ok carrier hp s" and e: "0 < empties (open_slots s)" and k: "carrier k"
  shows "open_get s k d = Some (case open_lookup s k of None \<Rightarrow> (Not_found, d) | Some v \<Rightarrow> (Ok, v))"
    and "open_contains s k = Some (open_lookup s k \<noteq> None)"
proof -
  from ok have t: "table s (open_slots s)" "hm_hash s = hp" "open_wf carrier hp (open_slots s)" "faithful (hm_value_policy s)"
    by (simp_all add: open_ok_def)
  from t(1-3) e k have "open_get s k d = Some (case open_lookup s k of None \<Rightarrow> (Not_found, d) | Some v \<Rightarrow> (Ok, v)) \<and>
    open_contains s k = Some (open_lookup s k \<noteq> None)"
  proof (cases rule: probe_cases)
    case (hit i)
    with t show ?thesis by (simp add: open_get_def open_contains_def open_lookup_def table_def)
  next
    case miss
    from miss(2) [of False] miss(1) t(2) show ?thesis by (auto simp: open_get_def open_contains_def open_lookup_def)
  qed
  then show "open_get s k d = Some (case open_lookup s k of None \<Rightarrow> (Not_found, d) | Some v \<Rightarrow> (Ok, v))"
    "open_contains s k = Some (open_lookup s k \<noteq> None)" by blast+
qed

lemma open_remove_ok:
  assumes ok: "open_ok carrier hp s" and e: "0 < empties (open_slots s)" and k: "carrier k" and old: "open_lookup s k \<noteq> None"
  shows "\<exists>s'. open_remove s k = Some (Ok, s') \<and> open_ok carrier hp s' \<and> hm_bucket_count s' = hm_bucket_count s \<and>
    hm_strategy s' = hm_strategy s \<and> hm_policy s' = hm_policy s \<and> hm_arena s' = hm_arena s \<and> hm_stride s' = hm_stride s \<and>
    empties (open_slots s) \<le> empties (open_slots s') \<and> hm_size s' = hm_size s - 1 \<and>
    (\<forall>x. carrier x \<longrightarrow> open_lookup s' x = (if key_equal hp k x then None else open_lookup s x))"
proof -
  define sl where "sl = open_slots s"
  from ok have t: "table s sl" "hm_hash s = hp" "open_wf carrier hp sl" "hm_size s = length (entries sl)"
    "faithful (hm_key_policy s)" "faithful (hm_value_policy s)" by (simp_all add: open_ok_def sl_def)
  have sl: "hm_slots s = Some sl" "length sl \<le> SIZE_MAX" using t(1) by (simp_all add: table_def)
  from t(1-3) e [folded sl_def] k show ?thesis
  proof (cases rule: probe_cases)
    case (hit i)
    let ?r = "(sl ! i)\<lparr>sl_state := Slot_deleted\<rparr>"
    let ?sl = "sl[i := ?r]"
    let ?d = "hm_destroy_value (sl_value (sl ! i)) (hm_destroy_key (sl_key (sl ! i)) s)"
    have len: "length (entries sl) = Suc (length (entries ?sl))"
      using hit(1,2) by (simp add: entries_update entries_split [OF hit(1)])
    then have sub: "sz_sub (hm_size s) 1 = length (entries ?sl)"
      using length_entries_le [of sl] sl(2) t(4) by (simp add: sz_sub_eq)
    have rem: "open_remove s k = Some (Ok, with_table ?d ?sl)"
      using hit(1,2,4) sl sub by (simp add: open_remove_def with_table_def)
    have "open_wf carrier hp ?sl" using hit(1) by (intro open_wf_update [OF t(3)]) simp_all
    then have wf: "open_ok carrier hp (with_table ?d ?sl)" using t by (auto simp: open_ok_def table_def)
    have ck: "carrier (sl_key (sl ! i))" by (rule open_wfD(1) [OF t(3) hit(1,2)])
    have kx: "key_equal hp (sl_key (sl ! i)) x \<longleftrightarrow> key_equal hp k x" if "carrier x" for x
      using eq_cong_left [OF ck k that hit(3)] .
    have "open_lookup (with_table ?d ?sl) x = (if key_equal hp k x then None else open_lookup s x)" if x: "carrier x" for x
      using assoc_delete [OF open_others [OF t(3) hit(1) open_distinct [OF t(3) hit(1,2)]] ck x, of "sl_value (sl ! i)"]
        hit(1,2) t(2) kx [OF x]
      by (simp add: open_lookup_def entries_update sl_def [symmetric] entries_split [OF hit(1)] cong: if_cong)
    moreover have "empties sl \<le> empties ?sl" using hit(1,2) by (intro empties_update) simp_all
    ultimately show ?thesis
      using rem wf len t(4) by (intro exI [of _ "with_table ?d ?sl"]) (simp add: sl_def [symmetric])
  next
    case miss
    with old t(2) show ?thesis by (simp add: open_lookup_def sl_def)
  qed
qed

lemma open_remove_none:
  assumes ok: "open_ok carrier hp s" and e: "0 < empties (open_slots s)" and k: "carrier k" and new: "open_lookup s k = None"
  shows "open_remove s k = Some (Not_found, s)"
proof -
  from ok have t: "table s (open_slots s)" "hm_hash s = hp" "open_wf carrier hp (open_slots s)" by (simp_all add: open_ok_def)
  from t e k show ?thesis
  proof (cases rule: probe_cases)
    case (hit i)
    with new t(2) show ?thesis by (simp add: open_lookup_def)
  next
    case miss
    from miss(2) [of False] show ?thesis by (auto simp: open_remove_def)
  qed
qed

end

section \<open>Growing\<close>

lemma empty_slots_eq:
  assumes "i + n \<le> length xs"
  shows "\<exists>ys. empty_slots (Some xs) i n = Some (Some ys) \<and> length ys = length xs \<and>
    (\<forall>j < length xs. sl_state (ys ! j) = (if i \<le> j \<and> j < i + n then Slot_empty else sl_state (xs ! j)))"
  using assms
proof (induction n arbitrary: i xs)
  case (Suc n)
  let ?xs = "xs[i := (xs ! i)\<lparr>sl_state := Slot_empty\<rparr>]"
  from Suc.IH [of "Suc i" ?xs] Suc.prems obtain ys where ys: "empty_slots (Some ?xs) (Suc i) n = Some (Some ys)"
    "length ys = length xs"
    "\<forall>j < length xs. sl_state (ys ! j) = (if Suc i \<le> j \<and> j < Suc i + n then Slot_empty else sl_state (?xs ! j))"
    by auto
  have "sl_state (ys ! j) = (if i \<le> j \<and> j < i + Suc n then Slot_empty else sl_state (xs ! j))" if "j < length xs" for j
    using ys(3) that Suc.prems by (cases "j = i") auto
  with ys(1,2) Suc.prems show ?case by (intro exI [of _ ys]) (simp add: set_slot_state_def)
qed auto

text \<open>A table without occupied slots.\<close>

lemma all_empty:
  assumes "\<forall>j < length sl. sl_state (sl ! j) = Slot_empty"
  shows "entries sl = []" "empties sl = length sl" "open_wf carrier hp sl"
  using assms by (auto simp: entries_def empties_def open_wf_def filter_empty_conv in_set_conv_nth filter_id_conv
      intro!: arg_cong [of _ _ length])

context hashing
begin

text \<open>Reinserting the slots from \<open>i\<close> on.\<close>

lemma open_rehash_loop_ok:
  assumes "open_wf carrier hp old" "i + n = length old" "open_ok carrier hp s"
    "length (entries (drop i old)) < empties (open_slots s)"
    "\<And>x. carrier x \<Longrightarrow> open_lookup s x = assoc (key_equal hp) (entries (take i old)) x"
  shows "\<exists>sl. open_rehash_loop (Some old) s i n = Some (Ok, with_table s sl) \<and> open_ok carrier hp (with_table s sl) \<and>
    length sl = length (open_slots s) \<and> length (entries sl) = hm_size s + length (entries (drop i old)) \<and>
    empties (open_slots s) \<le> empties sl + length (entries (drop i old)) \<and>
    (\<forall>x. carrier x \<longrightarrow> assoc (key_equal hp) (entries sl) x = assoc (key_equal hp) (entries old) x)"
  using assms(2-)
proof (induction n arbitrary: i s)
  case 0
  from 0(2) have e: "hm_size s = length (entries (open_slots s))" "hm_hash s = hp" "hm_slots s = Some (open_slots s)"
    by (simp_all add: open_ok_def table_def)
  then have "with_table s (open_slots s) = s" by (simp add: with_table_def)
  with 0 e show ?case by (intro exI [of _ "open_slots s"]) (simp add: open_lookup_def)
next
  case (Suc n)
  from Suc.prems(1) have i: "i < length old" by simp
  have d: "entries (drop i old) = (if occ (old ! i) then [(sl_key (old ! i), sl_value (old ! i))] else []) @ entries (drop (Suc i) old)"
    using i by (simp add: Cons_nth_drop_Suc [symmetric])
  have tk: "entries (take (Suc i) old) = entries (take i old) @ (if occ (old ! i) then [(sl_key (old ! i), sl_value (old ! i))] else [])"
    using i by (simp add: take_Suc_conv_app_nth)
  have Si: "Suc i + n = length old" using Suc.prems(1) by simp
  show ?case
  proof (cases "occ (old ! i)")
    case False
    from Suc.IH [OF Si Suc.prems(2)] Suc.prems(3,4) False d tk i show ?thesis by (simp add: mem_rd_Some)
  next
    case True
    let ?k = "sl_key (old ! i)" and ?v = "sl_value (old ! i)"
    have k: "carrier ?k" by (rule open_wfD(1) [OF assms(1) i True])
    have oth: "\<forall>p \<in> set (entries (take i old) @ []). carrier (fst p) \<and> \<not> key_equal hp (fst p) ?k"
      using open_others [OF assms(1) i open_distinct [OF assms(1) i True]] by simp
    then have none: "open_lookup s ?k = None" using Suc.prems(4) [OF k] by (simp add: assoc_None_iff)
    have "0 < empties (open_slots s)" using Suc.prems(3) by simp
    from open_put_ok [OF Suc.prems(2) this k, of ?v] none obtain sl where
      sl: "open_put s ?k ?v = Some (Ok, with_table s sl)" "open_ok carrier hp (with_table s sl)" "length sl = length (open_slots s)"
      "empties (open_slots s) \<le> Suc (empties sl)" "length (entries sl) = Suc (hm_size s)"
      "\<forall>x. carrier x \<longrightarrow> assoc (key_equal hp) (entries sl) x = (if key_equal hp ?k x then Some ?v else open_lookup s x)"
      by auto
    have "hm_hash s = hp" using Suc.prems(2) by (simp add: open_ok_def)
    then have "open_lookup (with_table s sl) x = assoc (key_equal hp) (entries (take (Suc i) old)) x" if x: "carrier x" for x
      using sl(6) x Suc.prems(4) [OF x] assoc_insert [OF oth k x, of ?v] True tk by (simp add: open_lookup_def)
    moreover have "length (entries (drop (Suc i) old)) < empties (open_slots (with_table s sl))"
      using Suc.prems(3) sl(4) d True by simp
    ultimately obtain sl' where sl':
      "open_rehash_loop (Some old) (with_table s sl) (Suc i) n = Some (Ok, with_table (with_table s sl) sl')"
      "open_ok carrier hp (with_table (with_table s sl) sl')" "length sl' = length (open_slots (with_table s sl))"
      "length (entries sl') = hm_size (with_table s sl) + length (entries (drop (Suc i) old))"
      "empties (open_slots (with_table s sl)) \<le> empties sl' + length (entries (drop (Suc i) old))"
      "\<forall>x. carrier x \<longrightarrow> assoc (key_equal hp) (entries sl') x = assoc (key_equal hp) (entries old) x"
      using Suc.IH [OF Si sl(2)] by blast
    have "open_rehash_loop (Some old) s i (Suc n) = Some (Ok, with_table s sl')"
      using i True sl(1) sl'(1) by simp
    with sl' sl(3-5) d True show ?thesis by (intro exI [of _ sl']) simp
  qed
qed

lemma open_rehash_ok:
  assumes ok: "open_ok carrier hp s" and env: "serves env s" and stride: "0 < hm_stride s"
    and room: "hm_size s < new_count" "new_count * unat (hm_stride s) \<le> SIZE_MAX"
  shows "\<exists>s'. open_rehash env s new_count = Some (Ok, s') \<and> open_ok carrier hp s' \<and> hm_bucket_count s' = new_count \<and>
    hm_strategy s' = hm_strategy s \<and> hm_policy s' = hm_policy s \<and> hm_arena s' = hm_arena s \<and> hm_stride s' = hm_stride s \<and>
    hm_size s' = hm_size s \<and> new_count \<le> empties (open_slots s') + hm_size s \<and>
    (\<forall>x. carrier x \<longrightarrow> open_lookup s' x = open_lookup s x)"
proof -
  let ?old = "open_slots s" and ?st = "unat (hm_stride s)"
  from ok have t: "table s ?old" "hm_hash s = hp" "open_wf carrier hp ?old" "hm_size s = length (entries ?old)"
    "faithful (hm_key_policy s)" "faithful (hm_value_policy s)" by (simp_all add: open_ok_def)
  have st: "0 < ?st" using stride by (simp add: unat_gt_0 word_neq_0_conv)
  have bytes: "sz_mul new_count ?st = new_count * ?st" using room(2) by (rule sz_mul_eq)
  have len: "length (new_slots env (new_count * ?st) ?st) = new_count" using st by (simp add: new_slots_def)
  from empty_slots_eq [of 0 new_count "new_slots env (new_count * ?st) ?st"] len obtain ys where
    ys: "empty_slots (Some (new_slots env (new_count * ?st) ?st)) 0 new_count = Some (Some ys)" "length ys = new_count"
    "\<forall>j < length ys. sl_state (ys ! j) = Slot_empty" by auto
  note e = all_empty [OF ys(3)]
  let ?s = "s\<lparr>hm_allocs := Suc (hm_allocs s), hm_slots := Some ys, hm_bucket_count := new_count, hm_size := 0\<rparr>"
  have "new_count \<le> SIZE_MAX" using room(2) st by (metis le_trans le_square mult_le_mono2 nat_mult_1_right Suc_leI One_nat_def)
  then have ok': "open_ok carrier hp ?s" using t ys(2) room(1) e by (auto simp: open_ok_def table_def open_slots_def)
  have ys': "open_slots ?s = ys" by (simp add: open_slots_def)
  have look: "open_lookup ?s x = assoc (key_equal hp) (entries (take 0 ?old)) x" for x
    using e(1) by (simp add: open_lookup_def ys')
  have "length (entries (drop 0 ?old)) < empties (open_slots ?s)" using e(2) ys(2) room(1) t(4) by (simp add: ys')
  from open_rehash_loop_ok [OF t(3) _ ok' this look, of "length ?old"] obtain sl where
    sl: "open_rehash_loop (Some ?old) ?s 0 (length ?old) = Some (Ok, with_table ?s sl)" "open_ok carrier hp (with_table ?s sl)"
    "length (entries sl) = length (entries ?old)" "empties ys \<le> empties sl + length (entries ?old)"
    "\<forall>x. carrier x \<longrightarrow> assoc (key_equal hp) (entries sl) x = assoc (key_equal hp) (entries ?old) x"
    by (auto simp: ys')
  let ?t = "(with_table ?s sl)\<lparr>hm_kind := grown_kind (with_table ?s sl)\<rparr>"
  have "open_rehash env s new_count = Some (Ok, ?t)"
    using t(1) ys(1) sl(1) by (simp add: open_rehash_def hashmap_alloc_raw_serves [OF env] bytes table_def Let_def)
  moreover have "open_slots ?t = sl" by (simp add: open_slots_def)
  moreover have "open_ok carrier hp ?t" using sl(2) by (simp add: open_ok_def table_def open_slots_def)
  ultimately show ?thesis
    using sl(3-5) e(2) ys(2) t(2,4) by (intro exI [of _ ?t]) (simp add: open_lookup_def)
qed

end

section \<open>The map\<close>

text \<open>
  A map that does not grow has more empty slots than puts to come. A map that may grow has an allocator
  that serves, sizes that do not wrap, at most three quarters of its slots occupied, and its deleted
  slots together with the removals to come are fewer than a quarter.
\<close>

definition deleted :: "('k, 'v) hashmap \<Rightarrow> nat" where
  "deleted s = hm_bucket_count s - hm_size s - empties (open_slots s)"

definition open_inv :: "('k \<Rightarrow> bool) \<Rightarrow> 'k hash_policy \<Rightarrow> ('k, 'v) hm_env \<Rightarrow> nat \<Rightarrow> nat \<Rightarrow> ('k, 'v) hashmap \<Rightarrow> bool" where
  "open_inv carrier hp env p r s \<longleftrightarrow> hm_strategy s = Open_addressing \<and> open_ok carrier hp s \<and>
     (if hm_policy s AND hashmap_growable \<noteq> 0
      then serves env s \<and> 0 < hm_stride s \<and> max (hm_bucket_count s) (4 * (hm_size s + p)) * unat (hm_stride s) \<le> 2 ^ 62 \<and>
        4 * hm_size s \<le> 3 * hm_bucket_count s \<and> 4 * (deleted s + r) < hm_bucket_count s
      else p < empties (open_slots s))"

lemma max_mult_bound:
  assumes "max a b * c \<le> (m :: nat)" "0 < c" "a' \<le> max a b" "b' \<le> max a b"
  shows "max a' b' * c \<le> m"
  using assms(1,3,4) mult_le_mono1 [of "max a' b'" "max a b" c] by linarith

lemma max_bound_le: "max a b * c \<le> (m :: nat) \<Longrightarrow> 0 < c \<Longrightarrow> a \<le> m \<and> b \<le> m"
  by (metis le_trans le_square max.cobounded1 max.cobounded2 mult_le_mono2 nat_mult_1_right Suc_leI One_nat_def)

lemma stride_pos: "0 < (w :: u64) \<Longrightarrow> 0 < unat w"
  by (simp add: unat_gt_0 word_neq_0_conv)

lemma slot_counts: "open_ok carrier hp s \<Longrightarrow> hm_size s + empties (open_slots s) + deleted s = hm_bucket_count s"
  using length_entries_le [of "open_slots s"] by (auto simp: open_ok_def table_def deleted_def)

context hashing
begin

lemma open_invD:
  assumes "open_inv carrier hp env p r s"
  shows "open_ok carrier hp s" "0 < empties (open_slots s)" "hm_strategy s = Open_addressing"
  using assms slot_counts [of carrier hp s] by (auto simp: open_inv_def split: if_splits)

text \<open>Growing before a put.\<close>

lemma open_grow_ok:
  assumes inv: "open_inv carrier hp env (Suc p) r s" and grow: "should_grow s"
  shows "\<exists>s'. maybe_grow env s = Some (Ok, s') \<and> open_inv carrier hp env (Suc p) r s' \<and> hm_size s' = hm_size s \<and>
    4 * (hm_size s + 1) \<le> 3 * hm_bucket_count s' \<and> (\<forall>x. carrier x \<longrightarrow> open_lookup s' x = open_lookup s x)"
proof -
  let ?B = "hm_bucket_count s" and ?st = "unat (hm_stride s)"
  from inv grow have g: "serves env s" "0 < hm_stride s" "max ?B (4 * (hm_size s + Suc p)) * ?st \<le> 2 ^ 62" "open_ok carrier hp s"
    "hm_strategy s = Open_addressing" "4 * hm_size s \<le> 3 * ?B" "4 * (deleted s + r) < ?B" "hm_policy s AND hashmap_growable \<noteq> 0"
    by (auto simp: open_inv_def should_grow_def)
  note st = stride_pos [OF g(2)]
  note b = max_bound_le [OF g(3) st]
  have B: "0 < ?B" using g(7) by linarith
  have "sz_mul (sz_add (hm_size s) 1) 4 = (hm_size s + 1) * 4" "sz_mul ?B 3 = ?B * 3"
    using b by (simp_all add: sz_add_eq sz_mul_eq SIZE_MAX_def)
  with grow have load: "3 * ?B \<le> 4 * (hm_size s + 1)" by (simp add: should_grow_def)
  have new: "grow_bucket_count ?B = 2 * ?B"
    using B b by (simp add: grow_bucket_count_def sz_mul_eq SIZE_MAX_def)
  have "?B * ?st \<le> 2 ^ 62" by (rule le_trans [OF mult_le_mono1 [OF max.cobounded1] g(3)])
  then have "2 * ?B * ?st \<le> SIZE_MAX" by (simp add: SIZE_MAX_def mult.assoc)
  from open_rehash_ok [OF g(4,1,2) _ this] B g(6) obtain s' where
    s': "open_rehash env s (2 * ?B) = Some (Ok, s')" "open_ok carrier hp s'" "hm_bucket_count s' = 2 * ?B"
    "hm_strategy s' = hm_strategy s" "hm_policy s' = hm_policy s" "hm_arena s' = hm_arena s" "hm_stride s' = hm_stride s"
    "hm_size s' = hm_size s" "2 * ?B \<le> empties (open_slots s') + hm_size s"
    "\<forall>x. carrier x \<longrightarrow> open_lookup s' x = open_lookup s x" by force
  have "max (2 * ?B) (4 * (hm_size s + Suc p)) * ?st \<le> 2 ^ 62"
    using load by (intro max_mult_bound [OF g(3) st]) simp_all
  moreover have "deleted s' = 0" using s'(3,8,9) by (simp add: deleted_def)
  ultimately have "open_inv carrier hp env (Suc p) r s'"
    using s' g serves_arena [OF g(1) s'(6)] by (simp add: open_inv_def)
  moreover have "maybe_grow env s = Some (Ok, s')" using s'(1) new B g(5) by (simp add: maybe_grow_def)
  moreover have "4 * (hm_size s + 1) \<le> 3 * hm_bucket_count s'"
  proof (cases "?B = 1")
    case True
    with g(6) have "hm_size s = 0" by simp
    with True s'(3) show ?thesis by simp
  qed (use B g(6) s'(3) in simp)
  ultimately show ?thesis using s'(8,10) by blast
qed

lemma open_inv_put:
  assumes inv: "open_inv carrier hp env (Suc p) r s" and k: "carrier k"
    and load: "hm_policy s AND hashmap_growable \<noteq> 0 \<Longrightarrow> 4 * (hm_size s + 1) \<le> 3 * hm_bucket_count s"
  shows "\<exists>s'. open_put s k v = Some (Ok, s') \<and> open_inv carrier hp env p r s' \<and>
    hm_size s' = (if open_lookup s k \<noteq> None then hm_size s else Suc (hm_size s)) \<and>
    (\<forall>x. carrier x \<longrightarrow> open_lookup s' x = (if key_equal hp k x then Some v else open_lookup s x))"
proof -
  from open_put_ok [OF open_invD(1,2) [OF inv] k, of v] obtain sl where
    sl: "open_put s k v = Some (Ok, with_table s sl)" "open_ok carrier hp (with_table s sl)" "length sl = length (open_slots s)"
    "empties (open_slots s) \<le> (if open_lookup s k \<noteq> None then empties sl else Suc (empties sl))"
    "length (entries sl) = (if open_lookup s k \<noteq> None then hm_size s else Suc (hm_size s))"
    "\<forall>x. carrier x \<longrightarrow> assoc (key_equal hp) (entries sl) x = (if key_equal hp k x then Some v else open_lookup s x)"
    by blast
  have "max (hm_bucket_count s) (4 * (length (entries sl) + p)) * unat (hm_stride s) \<le> 2 ^ 62"
    if "max (hm_bucket_count s) (4 * (hm_size s + Suc p)) * unat (hm_stride s) \<le> 2 ^ 62" "0 < hm_stride s"
    using sl(5) by (intro max_mult_bound [OF that(1) stride_pos [OF that(2)]]) (simp_all split: if_splits)
  moreover have "deleted (with_table s sl) \<le> deleted s"
    using slot_counts [OF sl(2)] slot_counts [OF open_invD(1) [OF inv]] sl(4,5) by (simp split: if_splits)
  moreover have "p < empties sl" if "Suc p < empties (open_slots s)" using that sl(4) by (simp split: if_splits)
  moreover have "4 * length (entries sl) \<le> 3 * hm_bucket_count s" if "hm_policy s AND hashmap_growable \<noteq> 0"
    using load [OF that] sl(5) by (simp split: if_splits)
  ultimately have "open_inv carrier hp env p r (with_table s sl)"
    using inv sl(2) unfolding open_inv_def by (auto simp: serves_def)
  moreover have "hm_hash s = hp" using inv by (simp add: open_inv_def open_ok_def)
  ultimately show ?thesis using sl(1,5,6) by (intro exI [of _ "with_table s sl"]) (simp add: open_lookup_def)
qed

lemma open_hash_put:
  assumes inv: "open_inv carrier hp env (Suc p) r s" and k: "carrier k"
  shows "\<exists>s'. hash_put env s k v = Some (Ok, s') \<and> open_inv carrier hp env p r s' \<and>
    hm_size s' = (if open_lookup s k \<noteq> None then hm_size s else Suc (hm_size s)) \<and>
    (\<forall>x. carrier x \<longrightarrow> open_lookup s' x = (if key_equal hp k x then Some v else open_lookup s x))"
proof -
  have "\<exists>s'. (if should_grow s then maybe_grow env s else Some (Ok, s)) = Some (Ok, s') \<and>
    open_inv carrier hp env (Suc p) r s' \<and> hm_size s' = hm_size s \<and>
    (hm_policy s' AND hashmap_growable \<noteq> 0 \<longrightarrow> 4 * (hm_size s' + 1) \<le> 3 * hm_bucket_count s') \<and>
    (\<forall>x. carrier x \<longrightarrow> open_lookup s' x = open_lookup s x)"
  proof (cases "should_grow s")
    case True
    with open_grow_ok [OF inv True] show ?thesis by auto
  next
    case False
    have "4 * (hm_size s + 1) \<le> 3 * hm_bucket_count s" if g: "hm_policy s AND hashmap_growable \<noteq> 0"
    proof -
      from inv g have "max (hm_bucket_count s) (4 * (hm_size s + Suc p)) * unat (hm_stride s) \<le> 2 ^ 62" "0 < hm_stride s"
        by (auto simp: open_inv_def)
      from max_bound_le [OF this(1) stride_pos [OF this(2)]]
      have "sz_mul (sz_add (hm_size s) 1) 4 = (hm_size s + 1) * 4" "sz_mul (hm_bucket_count s) 3 = hm_bucket_count s * 3"
        by (simp_all add: sz_add_eq sz_mul_eq SIZE_MAX_def)
      with False g show ?thesis by (simp add: should_grow_def)
    qed
    with inv False show ?thesis by auto
  qed
  then obtain s1 where s1: "(if should_grow s then maybe_grow env s else Some (Ok, s)) = Some (Ok, s1)"
    "open_inv carrier hp env (Suc p) r s1" "hm_size s1 = hm_size s"
    "hm_policy s1 AND hashmap_growable \<noteq> 0 \<longrightarrow> 4 * (hm_size s1 + 1) \<le> 3 * hm_bucket_count s1"
    "\<forall>x. carrier x \<longrightarrow> open_lookup s1 x = open_lookup s x"
    by (elim exE conjE)
  have "0 < hm_bucket_count s" using inv by (auto simp: open_inv_def open_ok_def table_def)
  with s1(1) open_invD(3) [OF s1(2)] have "hash_put env s k v = open_put s1 k v" by (simp add: hash_put_def hashmap_put_def)
  with open_inv_put [OF s1(2) k, of v] s1(3-5) k show ?thesis by auto
qed

lemma open_growing_map:
  "growing_map carrier (key_equal hp) (open_inv carrier hp env) open_lookup hm_size (hash_put env) (hash_get d) (hash_remove env)
     hash_contains"
proof (unfold_locales, goal_cases)
  case (1 p r s)
  then show ?case by (auto simp: open_inv_def split: if_splits)
next
  case (2 p r s k v)
  then show ?case by (rule open_hash_put)
next
  case (3 p r s k)
  from open_get_eq(1) [OF open_invD(1,2) [OF 3(1)] 3(2), of d] open_invD(3) [OF 3(1)] show ?case
    by (auto simp: hash_get_def hashmap_get_def split: option.split)
next
  case (4 p r s k)
  from open_remove_ok [OF open_invD(1,2) [OF 4(1)] 4(2,3)] obtain s' where
    s': "open_remove s k = Some (Ok, s')" "open_ok carrier hp s'" "hm_bucket_count s' = hm_bucket_count s"
    "hm_strategy s' = hm_strategy s" "hm_policy s' = hm_policy s" "hm_arena s' = hm_arena s" "hm_stride s' = hm_stride s"
    "empties (open_slots s) \<le> empties (open_slots s')" "hm_size s' = hm_size s - 1"
    "\<forall>x. carrier x \<longrightarrow> open_lookup s' x = (if key_equal hp k x then None else open_lookup s x)" by blast
  have "max (hm_bucket_count s) (4 * (hm_size s' + p)) * unat (hm_stride s) \<le> 2 ^ 62"
    if "max (hm_bucket_count s) (4 * (hm_size s + p)) * unat (hm_stride s) \<le> 2 ^ 62" "0 < hm_stride s"
    using s'(9) by (intro max_mult_bound [OF that(1) stride_pos [OF that(2)]]) simp_all
  moreover have "deleted s' \<le> Suc (deleted s)"
    using slot_counts [OF s'(2)] slot_counts [OF open_invD(1) [OF 4(1)]] s'(3,8,9) by linarith
  ultimately have "open_inv carrier hp env p r s'"
    using 4(1) s'(2-9) unfolding open_inv_def by (auto simp: serves_def)
  with s' open_invD(3) [OF 4(1)] show ?case by (intro exI [of _ s']) (simp add: hash_remove_def hashmap_remove_def)
next
  case (5 p r s k)
  from open_remove_none [OF open_invD(1,2) [OF 5(1)] 5(2,3)] open_invD(3) [OF 5(1)] show ?case
    by (simp add: hash_remove_def hashmap_remove_def)
next
  case (6 p r s k)
  from open_get_eq(2) [OF open_invD(1,2) [OF 6(1)] 6(2)] open_invD(3) [OF 6(1)] show ?case
    by (simp add: hash_contains_def hashmap_contains_def)
qed

end

interpretation bytes_open_map: growing_map "\<lambda>k. length (bytes k) = n" "key_equal (bytes_hash_policy bytes)"
  "open_inv (\<lambda>k. length (bytes k) = n) (bytes_hash_policy bytes) env" open_lookup hm_size "hash_put env" "hash_get d"
  "hash_remove env" hash_contains
  for bytes :: "'k \<Rightarrow> u8 list" and n and env :: "('k, 'v) hm_env" and d
  by (rule bytes_hashing.open_growing_map)

section \<open>Guarantees\<close>

lemma init_open_inv:
  assumes "faithful kp" "faithful vp" "slots \<noteq> []" "length slots \<le> SIZE_MAX" "stride \<noteq> 0"
    "if pol AND hashmap_growable \<noteq> 0
     then he_allow_heap env \<and> (\<forall>n b. he_malloc env n b) \<and> max (length slots) (4 * p) * unat stride \<le> 2 ^ 62 \<and> 4 * r < length slots
     else p < length slots"
  shows "\<exists>s0. init_open env s (Some slots) (length slots) ko vo stride kp vp hp pol = Some (Ok, s0) \<and>
    open_inv carrier hp env p r s0 \<and> hm_size s0 = 0 \<and> (\<forall>x. open_lookup s0 x = None)"
proof -
  from empty_slots_eq [of 0 "length slots" slots] obtain ys where
    ys: "empty_slots (Some slots) 0 (length slots) = Some (Some ys)" "length ys = length slots"
    "\<forall>j < length ys. sl_state (ys ! j) = Slot_empty" by auto
  note e = all_empty [OF ys(3)]
  let ?s0 = "(hashmap_reset_state env s)\<lparr>hm_strategy := Open_addressing, hm_slots := Some ys, hm_bucket_count := length slots,
    hm_key_offset := ko, hm_value_offset := vo, hm_stride := stride, hm_key_policy := kp, hm_value_policy := vp,
    hm_hash := hp, hm_policy := pol\<rparr>"
  have s0: "open_slots ?s0 = ys" "hm_size ?s0 = 0" "hm_arena ?s0 = False" by (simp_all add: open_slots_def hashmap_reset_state_def)
  have ok: "open_ok carrier hp ?s0"
    using ys(2) e assms(1-4) s0 by (auto simp: open_ok_def table_def)
  moreover have "open_inv carrier hp env p r ?s0"
    using ok assms(5,6) s0 e(2) ys(2)
    by (cases "pol AND hashmap_growable = 0") (auto simp: open_inv_def serves_def deleted_def word_neq_0_conv [symmetric])
  moreover have "open_lookup ?s0 x = None" for x using e(1) s0(1) by (simp add: open_lookup_def)
  moreover have "init_open env s (Some slots) (length slots) ko vo stride kp vp hp pol = Some (Ok, ?s0)"
    using ys(1) assms(3,5) by (simp add: init_open_def)
  ultimately show ?thesis using s0(2) by blast
qed

text \<open>
  C23. Open addressing, for every hash policy whose hash respects its equality: after init_open every
  sequence of put, get, remove and contains gives the results of a map, no put is refused. For a map that
  does not grow this holds for fewer puts than slots. For a map that grows it holds for any number of
  puts when malloc serves, and for removals fewer than a quarter of the slots: growing reinserts every
  entry, but only growing ever clears a deleted slot.
\<close>

theorem hash_open_is_map:
  assumes "hashing carrier hp" "faithful kp" "faithful vp" "slots \<noteq> []" "length slots \<le> SIZE_MAX" "stride \<noteq> 0"
    "if pol AND hashmap_growable \<noteq> 0
     then he_allow_heap env \<and> (\<forall>n b. he_malloc env n b) \<and> max (length slots) (4 * puts cs) * unat stride \<le> 2 ^ 62 \<and>
       4 * removes cs < length slots
     else puts cs < length slots"
    "list_all (\<lambda>c. carrier (map_key c)) cs"
  shows "\<exists>s0 rs s' m. init_open env s (Some slots) (length slots) ko vo stride kp vp hp pol = Some (Ok, s0) \<and>
    map_run (hash_put env) (hash_get d) (hash_remove env) hash_contains s0 cs = Some (rs, s') \<and>
    map_spec (key_equal hp) (puts cs) (\<lambda>_. None, 0) cs = (rs, m, hm_size s') \<and>
    (\<forall>x. carrier x \<longrightarrow> m x = open_lookup s' x)"
proof -
  from init_open_inv [OF assms(2-7), where carrier = carrier and hp = hp and s = s and ko = ko and vo = vo] obtain s0 where
    s0: "init_open env s (Some slots) (length slots) ko vo stride kp vp hp pol = Some (Ok, s0)"
    "open_inv carrier hp env (0 + puts cs) (0 + removes cs) s0" "hm_size s0 = 0" "\<And>x. carrier x \<Longrightarrow> None = open_lookup s0 x"
    by auto
  have "hm_size s0 + puts cs \<le> puts cs" using s0(3) by simp
  from growing_map.run_refines [OF hashing.open_growing_map [OF assms(1), where d = d] s0(2) assms(8) this s0(4)] s0(1,3)
  show ?thesis by auto
qed

definition sample_slots :: "nat \<Rightarrow> (u8, nat) open_slot list" where
  "sample_slots n = replicate n \<lparr>sl_state = Slot_occupied, sl_key = 7, sl_value = 77\<rparr>"

theorem hash_open_is_map_witness:
  "\<exists>s0 rs s'. init_open sample_hm_env sample_hm (Some (sample_slots 5)) 5 1 2 10 (typed_trivial_policy 1 1)
      (typed_trivial_policy 8 8) (bytes_hash_policy (\<lambda>k. [k])) hashmap_growable = Some (Ok, s0) \<and>
    map_run (hash_put sample_hm_env) (hash_get 0) (hash_remove sample_hm_env) hash_contains s0
      [Put 1 10, Put 5 50, Put 9 90, Put 2 20, Remove 5, Get 9, Contains 5] = Some (rs, s') \<and>
    rs = [(Ok, None), (Ok, None), (Ok, None), (Ok, None), (Ok, None), (Ok, Some 90), (Not_found, None)]"
proof -
  let ?hp = "bytes_hash_policy (\<lambda>k :: u8. [k])"
  let ?cs = "[Put 1 10, Put 5 50, Put 9 90, Put 2 20, Remove 5, Get 9, Contains 5] :: (u8, nat) map_cmd list"
  have h: "hashing (\<lambda>k. length [k] = 1) ?hp" by (rule bytes_hashing.hashing_axioms)
  have len: "length (sample_slots 5) = 5" by (simp add: sample_slots_def)
  have spec: "fst (map_spec (key_equal ?hp) (puts ?cs) (\<lambda>_. None, 0) ?cs) =
    [(Ok, None), (Ok, None), (Ok, None), (Ok, None), (Ok, None), (Ok, Some 90), (Not_found, None)]"
    by (simp add: map_upd_def sample_hash_eq)
  have "\<exists>s0 rs s' m. init_open sample_hm_env sample_hm (Some (sample_slots 5)) (length (sample_slots 5)) 1 2 10
      (typed_trivial_policy 1 1) (typed_trivial_policy 8 8) ?hp hashmap_growable = Some (Ok, s0) \<and>
    map_run (hash_put sample_hm_env) (hash_get 0) (hash_remove sample_hm_env) hash_contains s0 ?cs = Some (rs, s') \<and>
    map_spec (key_equal ?hp) (puts ?cs) (\<lambda>_. None, 0) ?cs = (rs, m, hm_size s') \<and> (\<forall>x. length [x] = 1 \<longrightarrow> m x = open_lookup s' x)"
    by (rule hash_open_is_map [OF h]) (simp_all add: len SIZE_MAX_def sample_hm_env_def hashmap_growable_def sample_slots_def)
  then show ?thesis using spec unfolding len by (metis fst_conv)
qed

text \<open>
  A table without an empty slot answers for every key that is not in it as if it were: contains is
  true, get returns ok with some other entry's or a deleted value, and remove returns ok, marks a slot
  deleted and decrements the size, below zero when it was zero. In a map that grows on size alone,
  deleted slots fill the table while the map stays empty.
\<close>

theorem hash_open_full_table:
  assumes "hm_strategy s = Open_addressing" "table s sl"
    "\<forall>r \<in> set sl. sl_state r \<noteq> Slot_empty \<and> (sl_state r = Slot_occupied \<longrightarrow> \<not> key_equal (hm_hash s) (sl_key r) k)"
  shows "hashmap_contains s (Some k) = Some True \<and>
    (\<exists>r \<in> set sl. hashmap_get s (Some k) (Some d) = Some (Ok, Some (copy_assign (hm_value_policy s) d (sl_value r)))) \<and>
    (\<exists>s'. hashmap_remove env s (Some k) = Some (Ok, s') \<and> hm_size s' = sz_sub (hm_size s) 1)"
proof (intro conjI)
  let ?i = "path sl (hash_key (hm_hash s) k) (length sl)"
  have "\<forall>i < length sl. sl_state (sl ! i) \<noteq> Slot_empty \<and> (occ (sl ! i) \<longrightarrow> \<not> key_equal (hm_hash s) (sl_key (sl ! i)) k)"
    using assms(3) by simp
  from probe_exhausted [OF assms(2) _ this, of "length sl" 0 "hash_key (hm_hash s) k" SIZE_MAX] assms(2)
  have p: "open_probe s k False = Some (Slot_occupied, ?i)" by (simp add: open_probe_def table_def path_def)
  have i: "?i < length sl" "hm_slots s = Some sl" using assms(2) by (simp_all add: table_def)
  show "hashmap_contains s (Some k) = Some True" using p assms(1) by (simp add: hashmap_contains_def open_contains_def)
  show "\<exists>r \<in> set sl. hashmap_get s (Some k) (Some d) = Some (Ok, Some (copy_assign (hm_value_policy s) d (sl_value r)))"
    using p i assms(1) by (intro bexI [of _ "sl ! ?i"]) (simp_all add: hashmap_get_def open_get_def)
  show "\<exists>s'. hashmap_remove env s (Some k) = Some (Ok, s') \<and> hm_size s' = sz_sub (hm_size s) 1"
    using p i assms(1) by (simp add: hashmap_remove_def open_remove_def)
qed

text \<open>Two keys are put and removed in a growable map of two slots; then every key is in it.\<close>

definition worn_hm :: "(u8, nat) hashmap" where
  "worn_hm = sample_hm\<lparr>hm_strategy := Open_addressing, hm_bucket_count := 2, hm_key_offset := 1, hm_value_offset := 2,
     hm_stride := 10, hm_policy := hashmap_growable, hm_hash := \<lparr>hp_hash_fn = Some ucast, hp_eq_fn = None, hp_bytes = (\<lambda>k. [k])\<rparr>,
     hm_slots := Some [\<lparr>sl_state = Slot_deleted, sl_key = 0, sl_value = 10\<rparr>, \<lparr>sl_state = Slot_deleted, sl_key = 1, sl_value = 11\<rparr>]\<rparr>"

lemma two_slots:
  "sample_slots 2 = [\<lparr>sl_state = Slot_occupied, sl_key = 7, sl_value = 77\<rparr>, \<lparr>sl_state = Slot_occupied, sl_key = 7, sl_value = 77\<rparr>]"
  "empty_slots m i 2 = empty_slots m i (Suc (Suc 0))"
  "open_probe_loop t key ins index fd 2 = open_probe_loop t key ins index fd (Suc (Suc 0))"
  by (simp_all add: sample_slots_def numeral_2_eq_2)

lemma worn_hm_reached:
  "(do {
     (_, s0) \<leftarrow> init_open sample_hm_env sample_hm (Some (sample_slots 2)) 2 1 2 10 (typed_trivial_policy 1 1)
       (typed_trivial_policy 8 8) \<lparr>hp_hash_fn = Some ucast, hp_eq_fn = None, hp_bytes = (\<lambda>k. [k])\<rparr> hashmap_growable;
     map_run (hash_put sample_hm_env) (hash_get 0) (hash_remove sample_hm_env) hash_contains s0
       [Put 0 10, Remove 0, Put 1 11, Remove 1]
   }) = Some ([(Ok, None), (Ok, None), (Ok, None), (Ok, None)], worn_hm)"
  by (simp add: init_open_def two_slots set_slot_state_def hash_put_def hashmap_put_def should_grow_def
      hash_remove_def hashmap_remove_def open_put_def open_remove_def open_probe_def hash_key_def key_equal_def
      hashmap_reset_state_def sample_hm_def sample_hm_env_def worn_hm_def hm_destroy_key_def hm_destroy_value_def
      sz_add_def sz_sub_def sz_mul_def hashmap_growable_def hashmap_external_def SIZE_MAX_def)

theorem hash_open_full_table_witness:
  "hm_size worn_hm = 0 \<and> hashmap_contains worn_hm (Some 42) = Some True \<and>
   (\<exists>s'. hashmap_remove sample_hm_env worn_hm (Some 42) = Some (Ok, s') \<and> hm_size s' = SIZE_MAX)"
proof -
  have t: "table worn_hm (open_slots worn_hm)" "hm_strategy worn_hm = Open_addressing"
    by (simp_all add: table_def worn_hm_def open_slots_def SIZE_MAX_def)
  have z: "hm_size worn_hm = 0" by (simp add: worn_hm_def sample_hm_def)
  show ?thesis
    using hash_open_full_table [OF t(2,1), of 42 0 sample_hm_env] z sz_sub_underflow by (simp add: worn_hm_def open_slots_def)
qed

end
