(* ===== verification/Hash_Chain.thy ===== *)
theory Hash_Chain
  imports Hash_Common
begin

text \<open>
  Chaining: every bucket is a null-terminated list of nodes whose keys hash to it. The walks along the
  lists end, put, get, remove and contains are those of a map, and growing relinks every node.
\<close>

section \<open>Lists of nodes\<close>

fun is_chain :: "(nat \<Rightarrow> ('k, 'v) chain_node option) \<Rightarrow> nat \<Rightarrow> nat list \<Rightarrow> bool" where
  "is_chain h p [] \<longleftrightarrow> p = 0"
| "is_chain h p (a # as) \<longleftrightarrow> p = a \<and> a \<noteq> 0 \<and> (case h a of None \<Rightarrow> False | Some nd \<Rightarrow> is_chain h (cn_next nd) as)"

text \<open>The addresses on a list, walking at most \<open>n\<close> nodes.\<close>

fun walk :: "(nat \<Rightarrow> ('k, 'v) chain_node option) \<Rightarrow> nat \<Rightarrow> nat \<Rightarrow> nat list" where
  "walk h p 0 = []"
| "walk h p (Suc n) = (if p = 0 then [] else case h p of None \<Rightarrow> [] | Some nd \<Rightarrow> p # walk h (cn_next nd) n)"

abbreviation key_at :: "(nat \<Rightarrow> ('k, 'v) chain_node option) \<Rightarrow> nat \<Rightarrow> 'k" where
  "key_at h a \<equiv> cn_key (the (h a))"

abbreviation value_at :: "(nat \<Rightarrow> ('k, 'v) chain_node option) \<Rightarrow> nat \<Rightarrow> 'v" where
  "value_at h a \<equiv> cn_value (the (h a))"

definition pairs :: "(nat \<Rightarrow> ('k, 'v) chain_node option) \<Rightarrow> nat list \<Rightarrow> ('k \<times> 'v) list" where
  "pairs h as = map (\<lambda>a. (key_at h a, value_at h a)) as"

lemma pairs_simps [simp]:
  "pairs h [] = []" "pairs h (a # as) = (key_at h a, value_at h a) # pairs h as" "pairs h (as @ bs) = pairs h as @ pairs h bs"
  "length (pairs h as) = length as"
  by (simp_all add: pairs_def)

lemma pairs_cong: "\<forall>a \<in> set as. key_at h' a = key_at h a \<and> value_at h' a = value_at h a \<Longrightarrow> pairs h' as = pairs h as"
  by (simp add: pairs_def)

lemma is_chain_walk: "is_chain h p as \<Longrightarrow> length as \<le> n \<Longrightarrow> walk h p n = as"
proof (induction as arbitrary: p n)
  case Nil
  then show ?case by (cases n) simp_all
next
  case (Cons a as)
  then show ?case by (cases n) (auto split: option.splits)
qed

lemma is_chain_nodes: "is_chain h p as \<Longrightarrow> a \<in> set as \<Longrightarrow> a \<noteq> 0 \<and> (\<exists>nd. h a = Some nd)"
  by (induction as arbitrary: p) (auto split: option.splits)

lemma is_chain_frame: "is_chain h p as \<Longrightarrow> \<forall>a \<in> set as. h' a = h a \<Longrightarrow> is_chain h' p as"
  by (induction as arbitrary: p) (auto split: option.splits)

lemma is_chain_update_value:
  "is_chain h p as \<Longrightarrow> h a = Some nd \<Longrightarrow> cn_next nd' = cn_next nd \<Longrightarrow> is_chain (h(a \<mapsto> nd')) p as"
  by (induction as arbitrary: p) (auto split: option.splits)

lemma is_chain_split:
  "is_chain h p (as @ b # bs) \<Longrightarrow> \<exists>nd. h b = Some nd \<and> b \<noteq> 0 \<and> is_chain h b (b # bs) \<and> is_chain h (cn_next nd) bs"
  by (induction as arbitrary: p) (auto split: option.splits)

text \<open>Unlinking \<open>a\<close> behind \<open>b\<close>.\<close>

lemma is_chain_unlink:
  assumes "is_chain h p (as @ b # a # bs)" "distinct (as @ b # a # bs)" "h b = Some nb" "h a = Some na"
  shows "is_chain (h(b \<mapsto> nb\<lparr>cn_next := cn_next na\<rparr>)) p (as @ b # bs)"
  using assms
proof (induction as arbitrary: p)
  case Nil
  have "is_chain h (cn_next na) bs" using Nil by (auto split: option.splits)
  then have "is_chain (h(b \<mapsto> nb\<lparr>cn_next := cn_next na\<rparr>)) (cn_next na) bs"
    using Nil(2) by (elim is_chain_frame) auto
  with Nil show ?case by (auto simp: fun_upd_def split: option.splits)
next
  case (Cons c as)
  then show ?case by (auto split: option.splits)
qed

section \<open>Searching\<close>

lemma chain_find_hit:
  assumes "is_chain (hm_nodes s) p (xs @ a # ys)"
    "\<forall>b \<in> set xs. \<not> key_equal (hm_hash s) (key_at (hm_nodes s) b) k" "key_equal (hm_hash s) (key_at (hm_nodes s) a) k"
  shows "chain_find_loop s k prev p = Some (a, last (prev # xs))"
    and "chain_get_loop s k p out = Some (Ok, copy_assign (hm_value_policy s) out (value_at (hm_nodes s) a))"
  using assms
proof (induction xs arbitrary: p prev)
  case Nil
  { case 1 with Nil show ?case by (subst chain_find_loop.simps) (auto split: option.splits) }
  { case 2 with Nil show ?case by (subst chain_get_loop.simps) (auto split: option.splits) }
next
  case (Cons b xs)
  { case 1 then show ?case using Cons.IH(1) by (subst chain_find_loop.simps) (auto split: option.splits) }
  { case 2 then show ?case using Cons.IH(2) by (subst chain_get_loop.simps) (auto split: option.splits) }
qed

lemma chain_find_miss:
  assumes "is_chain (hm_nodes s) p as" "\<forall>b \<in> set as. \<not> key_equal (hm_hash s) (key_at (hm_nodes s) b) k"
  shows "chain_find_loop s k prev p = Some (0, last (prev # as))" and "chain_get_loop s k p out = Some (Not_found, out)"
  using assms
proof (induction as arbitrary: p prev)
  case Nil
  { case 1 with Nil show ?case by (subst chain_find_loop.simps) simp }
  { case 2 with Nil show ?case by (subst chain_get_loop.simps) simp }
next
  case (Cons b as)
  { case 1 then show ?case using Cons.IH(1) by (subst chain_find_loop.simps) (auto split: option.splits) }
  { case 2 then show ?case using Cons.IH(2) by (subst chain_get_loop.simps) (auto split: option.splits) }
qed

section \<open>Buckets\<close>

text \<open>The lists \<open>css\<close> of the \<open>n\<close> buckets: a key is in the bucket it hashes to, and there only once.\<close>

definition chains ::
  "('k \<Rightarrow> bool) \<Rightarrow> 'k hash_policy \<Rightarrow> (nat \<Rightarrow> ('k, 'v) chain_node option) \<Rightarrow> nat list \<Rightarrow> (nat \<Rightarrow> nat list) \<Rightarrow> bool" where
  "chains carrier hp h bs css \<longleftrightarrow> (\<forall>i < length bs. is_chain h (bs ! i) (css i) \<and> distinct (css i) \<and>
     (\<forall>a \<in> set (css i). carrier (key_at h a) \<and> hash_key hp (key_at h a) mod length bs = i) \<and>
     (\<forall>a \<in> set (css i). \<forall>b \<in> set (css i). key_equal hp (key_at h a) (key_at h b) \<longrightarrow> a = b))"

lemma chainsD:
  assumes "chains carrier hp h bs css" "i < length bs"
  shows "is_chain h (bs ! i) (css i)" "distinct (css i)"
    "a \<in> set (css i) \<Longrightarrow> carrier (key_at h a)" "a \<in> set (css i) \<Longrightarrow> hash_key hp (key_at h a) mod length bs = i"
    "a \<in> set (css i) \<Longrightarrow> b \<in> set (css i) \<Longrightarrow> key_equal hp (key_at h a) (key_at h b) \<Longrightarrow> a = b"
  using assms by (simp_all add: chains_def)

lemma chains_disjoint:
  "chains carrier hp h bs css \<Longrightarrow> i < length bs \<Longrightarrow> j < length bs \<Longrightarrow> i \<noteq> j \<Longrightarrow> set (css i) \<inter> set (css j) = {}"
  using chainsD(4) [of carrier hp h bs css] by blast

text \<open>
  Replacing one bucket: outside it the heap may change only where no other bucket looks.
\<close>

lemma chains_update:
  assumes c: "chains carrier hp h bs css" and i: "i < length bs"
    and frame: "\<And>j a. j < length bs \<Longrightarrow> j \<noteq> i \<Longrightarrow> a \<in> set (css j) \<Longrightarrow> h' a = h a"
    and new: "is_chain h' p as" "distinct as"
      "\<And>a. a \<in> set as \<Longrightarrow> carrier (key_at h' a) \<and> hash_key hp (key_at h' a) mod length bs = i"
      "\<And>a b. a \<in> set as \<Longrightarrow> b \<in> set as \<Longrightarrow> key_equal hp (key_at h' a) (key_at h' b) \<Longrightarrow> a = b"
  shows "chains carrier hp h' (bs[i := p]) (css(i := as))"
proof -
  have "is_chain h' (bs ! j) (css j) \<and> distinct (css j) \<and>
     (\<forall>a \<in> set (css j). carrier (key_at h' a) \<and> hash_key hp (key_at h' a) mod length bs = j) \<and>
     (\<forall>a \<in> set (css j). \<forall>b \<in> set (css j). key_equal hp (key_at h' a) (key_at h' b) \<longrightarrow> a = b)"
    if j: "j < length bs" "j \<noteq> i" for j
  proof (intro conjI)
    show "is_chain h' (bs ! j) (css j)" by (rule is_chain_frame [OF chainsD(1) [OF c j(1)]]) (use frame [OF j] in blast)
  qed (use chainsD [OF c j(1)] frame [OF j] in simp_all)
  with new i show ?thesis by (auto simp: chains_def nth_list_update)
qed

text \<open>The state, and the lookup of a key: in the list of its bucket.\<close>

definition bucket :: "('k, 'v) hashmap \<Rightarrow> nat \<Rightarrow> nat list" where
  "bucket s i = walk (hm_nodes s) (the (hm_buckets s) ! i) (hm_allocs s)"

definition chain_lookup :: "('k, 'v) hashmap \<Rightarrow> 'k \<Rightarrow> 'v option" where
  "chain_lookup s k =
     assoc (key_equal (hm_hash s)) (pairs (hm_nodes s) (bucket s (hash_key (hm_hash s) k mod hm_bucket_count s))) k"

definition chain_rel :: "('k \<Rightarrow> bool) \<Rightarrow> 'k hash_policy \<Rightarrow> ('k, 'v) hashmap \<Rightarrow> nat list \<Rightarrow> (nat \<Rightarrow> nat list) \<Rightarrow> bool" where
  "chain_rel carrier hp s bs css \<longleftrightarrow> hm_buckets s = Some bs \<and> bs \<noteq> [] \<and> hm_bucket_count s = length bs \<and> hm_hash s = hp \<and>
     chains carrier hp (hm_nodes s) bs css \<and> (\<forall>i < length bs. \<forall>a \<in> set (css i). a \<le> hm_allocs s) \<and>
     hm_size s = (\<Sum>i < length bs. length (css i)) \<and> faithful (hm_key_policy s) \<and> faithful (hm_value_policy s)"

lemma chain_rel_bucket:
  assumes r: "chain_rel carrier hp s bs css" and i: "i < length bs"
  shows "bucket s i = css i"
proof -
  from r have c: "chains carrier hp (hm_nodes s) bs css" "\<forall>a \<in> set (css i). a \<le> hm_allocs s" "hm_buckets s = Some bs"
    using i by (simp_all add: chain_rel_def)
  have "set (css i) \<subseteq> {1..hm_allocs s}"
    using is_chain_nodes [OF chainsD(1) [OF c(1) i]] c(2) by (auto simp: Suc_le_eq)
  then have "card (set (css i)) \<le> hm_allocs s" using card_mono [of "{1..hm_allocs s}"] by fastforce
  then have "length (css i) \<le> hm_allocs s" using chainsD(2) [OF c(1) i] by (simp add: distinct_card)
  with is_chain_walk [OF chainsD(1) [OF c(1) i]] c(3) show ?thesis by (simp add: bucket_def)
qed

lemma chain_rel_lookup:
  "chain_rel carrier hp s bs css \<Longrightarrow>
   chain_lookup s k = assoc (key_equal hp) (pairs (hm_nodes s) (css (hash_key hp k mod length bs))) k"
  using chain_rel_bucket [of carrier hp s bs css "hash_key hp k mod length bs"] by (simp add: chain_lookup_def chain_rel_def)

lemma sum_update:
  fixes n :: nat
  shows "i < n \<Longrightarrow> (\<Sum>j < n. length ((css(i := as)) j)) + length (css i) = (\<Sum>j < n. length (css j)) + length (as :: nat list)"
proof -
  assume i: "i < n"
  have "(\<Sum>j < n. length ((css(i := as)) j)) = length as + (\<Sum>j \<in> {..<n} - {i}. length (css j))"
    using i by (subst sum.remove [of "{..<n}" i]) (auto intro!: sum.cong)
  moreover have "(\<Sum>j < n. length (css j)) = length (css i) + (\<Sum>j \<in> {..<n} - {i}. length (css j))"
    using i by (subst sum.remove [of "{..<n}" i]) auto
  ultimately show ?thesis by simp
qed

context hashing
begin

text \<open>The list of the bucket of a key is split at its node, or has none.\<close>

lemma chain_cases [consumes 2, case_names hit miss]:
  assumes r: "chain_rel carrier hp s bs css" and k: "carrier k"
  obtains (hit) xs a ys where "css (hash_key hp k mod length bs) = xs @ a # ys" "carrier (key_at (hm_nodes s) a)"
      "key_equal hp (key_at (hm_nodes s) a) k"
      "\<forall>b \<in> set xs. \<not> key_equal (hm_hash s) (key_at (hm_nodes s) b) k"
      "\<forall>p \<in> set (pairs (hm_nodes s) xs @ pairs (hm_nodes s) ys). carrier (fst p) \<and> \<not> key_equal hp (fst p) (key_at (hm_nodes s) a)"
      "chain_lookup s k = Some (value_at (hm_nodes s) a)"
    | (miss) "\<forall>b \<in> set (css (hash_key hp k mod length bs)). \<not> key_equal (hm_hash s) (key_at (hm_nodes s) b) k" "chain_lookup s k = None"
proof -
  let ?h = "hm_nodes s" and ?i = "hash_key hp k mod length bs"
  from r have c: "chains carrier hp ?h bs css" and hp: "hm_hash s = hp" and i: "?i < length bs" by (auto simp: chain_rel_def)
  show ?thesis
  proof (cases "\<exists>b \<in> set (css ?i). key_equal hp (key_at ?h b) k")
    case True
    from split_list_first_prop [OF True] obtain xs a ys where
      a: "css ?i = xs @ a # ys" "key_equal hp (key_at ?h a) k" "\<forall>b \<in> set xs. \<not> key_equal hp (key_at ?h b) k" by blast
    have ca: "carrier (key_at ?h a)" using chainsD(3) [OF c i] a(1) by simp
    have oth: "\<forall>p \<in> set (pairs ?h xs @ pairs ?h ys). carrier (fst p) \<and> \<not> key_equal hp (fst p) (key_at ?h a)"
    proof
      fix p
      assume "p \<in> set (pairs ?h xs @ pairs ?h ys)"
      then have "\<exists>b. b \<in> set xs \<union> set ys \<and> fst p = key_at ?h b" by (auto simp: pairs_def)
      then obtain b where b: "b \<in> set xs \<union> set ys" "fst p = key_at ?h b" by blast
      with a(1) have m: "b \<in> set (css ?i)" "a \<in> set (css ?i)" by auto
      have "b \<noteq> a" using chainsD(2) [OF c i] a(1) b(1) by auto
      with chainsD(5) [OF c i m] chainsD(3) [OF c i m(1)] b(2) show "carrier (fst p) \<and> \<not> key_equal hp (fst p) (key_at ?h a)"
        by auto
    qed
    have "chain_lookup s k = Some (value_at ?h a)"
      using assoc_found [OF oth ca k a(2)] a(1) by (simp add: chain_rel_lookup [OF r])
    with a ca oth hp show ?thesis by (intro hit) simp_all
  next
    case False
    then have "chain_lookup s k = None" by (auto simp: chain_rel_lookup [OF r] assoc_None_iff pairs_def)
    with False hp show ?thesis by (intro miss) simp_all
  qed
qed

end

section \<open>The operations\<close>

definition chain_frame :: "('k, 'v) hashmap \<Rightarrow> ('k, 'v) hashmap \<Rightarrow> bool" where
  "chain_frame s s' \<longleftrightarrow> hm_strategy s' = hm_strategy s \<and> hm_policy s' = hm_policy s \<and> hm_arena s' = hm_arena s"

lemma alloc_chain_node_serves:
  assumes "serves env s" "faithful (hm_key_policy s)" "faithful (hm_value_policy s)"
  shows "alloc_chain_node env s k v = (Ok, Suc (hm_allocs s), s\<lparr>hm_allocs := Suc (hm_allocs s),
    hm_nodes := (hm_nodes s)(Suc (hm_allocs s) \<mapsto> \<lparr>cn_next = 0, cn_key = k, cn_value = v\<rparr>)\<rparr>)"
  using assms by (simp add: alloc_chain_node_def hashmap_alloc_raw_serves)

context hashing
begin

lemma chain_put_ok:
  assumes r: "chain_rel carrier hp s bs css" and env: "serves env s" and k: "carrier k" and room: "hm_size s < SIZE_MAX"
  shows "\<exists>s' bs' css'. chain_put env s k v = Some (Ok, s') \<and> chain_rel carrier hp s' bs' css' \<and> length bs' = length bs \<and>
    chain_frame s s' \<and> hm_size s' = (if chain_lookup s k \<noteq> None then hm_size s else Suc (hm_size s)) \<and>
    (\<forall>x. carrier x \<longrightarrow> chain_lookup s' x = (if key_equal hp k x then Some v else chain_lookup s x))"
proof -
  let ?h = "hm_nodes s" and ?i = "hash_key hp k mod length bs"
  from r have c: "chains carrier hp ?h bs css" and f: "hm_buckets s = Some bs" "bs \<noteq> []" "hm_bucket_count s = length bs" "hm_hash s = hp"
    "\<And>i a. i < length bs \<Longrightarrow> a \<in> set (css i) \<Longrightarrow> a \<le> hm_allocs s" "hm_size s = (\<Sum>i < length bs. length (css i))"
    "faithful (hm_key_policy s)" "faithful (hm_value_policy s)" by (simp_all add: chain_rel_def)
  have i: "?i < length bs" using f(2) by simp
  have same: "hash_key hp x mod length bs = ?i" if "carrier x" "key_equal hp k x" for x
    using hash_eq [OF k that] by simp
  from r k show ?thesis
  proof (cases rule: chain_cases)
    case (hit xs a ys)
    from is_chain_split [of ?h _ xs a ys] chainsD(1) [OF c i] hit(1) obtain nd where nd: "?h a = Some nd" "a \<noteq> 0" by auto
    let ?s = "s\<lparr>hm_nodes := ?h(a \<mapsto> nd\<lparr>cn_value := v\<rparr>)\<rparr>"
    have "chain_find_loop s k 0 (bs ! ?i) = Some (a, last (0 # xs))"
      by (rule chain_find_hit(1)) (use chainsD(1) [OF c i] hit(1,3,4) f(4) in simp_all)
    then have put: "chain_put env s k v = Some (Ok, ?s)"
      using f i nd by (simp add: chain_put_def chain_find_def)
    have keys: "key_at (hm_nodes ?s) b = key_at ?h b" for b using nd(1) by simp
    have "chains carrier hp (hm_nodes ?s) bs css"
      unfolding chains_def
      using chainsD [OF c] is_chain_update_value [OF chainsD(1) [OF c] nd(1), where nd' = "nd\<lparr>cn_value := v\<rparr>"] keys by simp
    then have rel: "chain_rel carrier hp ?s bs css" using r by (simp add: chain_rel_def)
    have "chain_lookup ?s x = (if key_equal hp k x then Some v else chain_lookup s x)" if x: "carrier x" for x
    proof (cases "hash_key hp x mod length bs = ?i")
      case True
      have d: "distinct (xs @ a # ys)" using chainsD(2) [OF c i] hit(1) by simp
      then have "pairs (hm_nodes ?s) xs = pairs ?h xs" "pairs (hm_nodes ?s) ys = pairs ?h ys"
        by (intro pairs_cong; auto)+
      with assoc_overwrite [OF hit(5) hit(2) k x hit(3), of v "value_at ?h a"] True hit(1) nd(1) show ?thesis
        by (simp add: chain_rel_lookup [OF rel] chain_rel_lookup [OF r] cong: if_cong)
    next
      case False
      then have "\<not> key_equal hp k x" using same [OF x] by blast
      moreover have "pairs (hm_nodes ?s) (css (hash_key hp x mod length bs)) = pairs ?h (css (hash_key hp x mod length bs))"
        using chains_disjoint [OF c i _ False [symmetric]] f(2) hit(1) by (intro pairs_cong) auto
      ultimately show ?thesis by (simp add: chain_rel_lookup [OF rel] chain_rel_lookup [OF r])
    qed
    with put rel hit(6) show ?thesis
      by (intro exI [of _ ?s] exI [of _ bs] exI [of _ css]) (simp add: chain_frame_def)
  next
    case miss
    let ?a = "Suc (hm_allocs s)" and ?nd = "\<lparr>cn_next = bs ! ?i, cn_key = k, cn_value = v\<rparr>"
    let ?s = "s\<lparr>hm_allocs := ?a, hm_nodes := ?h(?a \<mapsto> ?nd), hm_buckets := Some (bs[?i := ?a]), hm_size := Suc (hm_size s)\<rparr>"
    let ?css = "css(?i := ?a # css ?i)"
    have "chain_find_loop s k 0 (bs ! ?i) = Some (0, last (0 # css ?i))"
      by (rule chain_find_miss(1) [OF chainsD(1) [OF c i] miss(1)])
    then have put: "chain_put env s k v = Some (Ok, ?s)"
      using f i room by (simp add: chain_put_def chain_find_def alloc_chain_node_serves [OF env] sz_add_eq)
    have fresh: "?a \<notin> set (css j)" if "j < length bs" for j using f(5) [OF that, of ?a] by auto
    have other: "(hm_nodes ?s) a = ?h a" if "j < length bs" "a \<in> set (css j)" for a j using fresh [OF that(1)] that(2) by auto
    have "chains carrier hp (hm_nodes ?s) (bs[?i := ?a]) ?css"
    proof (rule chains_update [OF c i])
      show "hm_nodes ?s a = ?h a" if "j < length bs" "a \<in> set (css j)" for j a by (rule other [OF that])
      show "is_chain (hm_nodes ?s) ?a (?a # css ?i)"
        using is_chain_frame [OF chainsD(1) [OF c i], of "hm_nodes ?s"] other [OF i] by simp
      show "distinct (?a # css ?i)" using fresh [OF i] chainsD(2) [OF c i] by simp
      show "carrier (key_at (hm_nodes ?s) a) \<and> hash_key hp (key_at (hm_nodes ?s) a) mod length bs = ?i"
        if "a \<in> set (?a # css ?i)" for a
        using that k chainsD(3,4) [OF c i] fresh [OF i] by auto
      fix a b
      assume ab: "a \<in> set (?a # css ?i)" "b \<in> set (?a # css ?i)" "key_equal hp (key_at (hm_nodes ?s) a) (key_at (hm_nodes ?s) b)"
      have no: "\<not> key_equal hp (key_at ?h b) k" "\<not> key_equal hp k (key_at ?h b)" if "b \<in> set (css ?i)" for b
        using miss(1) that f(4) eq_sym [OF k chainsD(3) [OF c i that]] by auto
      from ab fresh [OF i] no chainsD(5) [OF c i, of a b] show "a = b" by (auto split: if_splits)
    qed
    moreover have "a \<le> ?a" if "j < length bs" "a \<in> set (?css j)" for j a
      using that f(5) [OF that(1)] i by (auto split: if_splits intro: le_SucI)
    moreover have "Suc (hm_size s) = (\<Sum>j < length bs. length (?css j))" using sum_update [OF i, of css "?a # css ?i"] f(6) by simp
    ultimately have rel: "chain_rel carrier hp ?s (bs[?i := ?a]) ?css" using f by (simp add: chain_rel_def)
    have "chain_lookup ?s x = (if key_equal hp k x then Some v else chain_lookup s x)" if x: "carrier x" for x
    proof (cases "hash_key hp x mod length bs = ?i")
      case True
      have "pairs (hm_nodes ?s) (css ?i) = pairs ?h (css ?i)" using other [OF i] by (intro pairs_cong) simp
      with True show ?thesis by (simp add: chain_rel_lookup [OF rel] chain_rel_lookup [OF r])
    next
      case False
      have "pairs (hm_nodes ?s) (css (hash_key hp x mod length bs)) = pairs ?h (css (hash_key hp x mod length bs))"
        using other [of "hash_key hp x mod length bs"] f(2) by (intro pairs_cong) simp
      with False same [OF x] show ?thesis by (auto simp: chain_rel_lookup [OF rel] chain_rel_lookup [OF r])
    qed
    with put rel miss(2) show ?thesis
      by (intro exI [of _ ?s] exI [of _ "bs[?i := ?a]"] exI [of _ ?css]) (simp add: chain_frame_def)
  qed
qed

lemma chain_get_eq:
  assumes r: "chain_rel carrier hp s bs css" and k: "carrier k"
  shows "chain_get s k d = Some (case chain_lookup s k of None \<Rightarrow> (Not_found, d) | Some v \<Rightarrow> (Ok, v))"
    and "chain_contains s k = Some (chain_lookup s k \<noteq> None)"
proof -
  let ?h = "hm_nodes s" and ?i = "hash_key hp k mod length bs"
  from r have c: "chains carrier hp ?h bs css" and f: "hm_buckets s = Some bs" "bs \<noteq> []" "hm_bucket_count s = length bs" "hm_hash s = hp"
    "faithful (hm_value_policy s)" by (simp_all add: chain_rel_def)
  have i: "?i < length bs" using f(2) by simp
  note ch = chainsD(1) [OF c i]
  from r k have "chain_get s k d = Some (case chain_lookup s k of None \<Rightarrow> (Not_found, d) | Some v \<Rightarrow> (Ok, v)) \<and>
    chain_contains s k = Some (chain_lookup s k \<noteq> None)"
  proof (cases rule: chain_cases)
    case (hit xs a ys)
    note h = ch [unfolded hit(1)]
    have "a \<noteq> 0" using is_chain_split [OF h] by auto
    with chain_find_hit(1) [OF h hit(4), of 0] chain_find_hit(2) [OF h hit(4), of d] hit(3,6) f i show ?thesis
      by (simp add: chain_get_def chain_contains_def chain_find_def)
  next
    case miss
    with chain_find_miss [OF ch miss(1)] f i show ?thesis by (simp add: chain_get_def chain_contains_def chain_find_def)
  qed
  then show "chain_get s k d = Some (case chain_lookup s k of None \<Rightarrow> (Not_found, d) | Some v \<Rightarrow> (Ok, v))"
    "chain_contains s k = Some (chain_lookup s k \<noteq> None)" by blast+
qed

text \<open>Unlinking a node and giving it back.\<close>

lemma chain_unlink:
  assumes c: "chains carrier hp h bs css" and i: "i < length bs" and a: "css i = xs @ a # ys" "h a = Some na"
    and upd: "if xs = [] then h1 = h \<and> p = cn_next na
      else \<exists>nb. h (last xs) = Some nb \<and> h1 = h(last xs \<mapsto> nb\<lparr>cn_next := cn_next na\<rparr>) \<and> p = bs ! i"
    and free: "\<And>b. b \<noteq> a \<Longrightarrow> h2 b = h1 b"
  shows "chains carrier hp h2 (bs[i := p]) (css(i := xs @ ys))"
    and "\<forall>j < length bs. \<forall>b \<in> set (css j). b \<noteq> a \<longrightarrow> key_at h2 b = key_at h b \<and> value_at h2 b = value_at h b"
proof -
  have kv: "key_at h2 b = key_at h b \<and> value_at h2 b = value_at h b" if "b \<noteq> a" for b
    using upd free [OF that] by (auto split: if_splits)
  then show "\<forall>j < length bs. \<forall>b \<in> set (css j). b \<noteq> a \<longrightarrow> key_at h2 b = key_at h b \<and> value_at h2 b = value_at h b"
    by blast
  note ch = chainsD(1) [OF c i] and d = chainsD(2) [OF c i]
  have na: "a \<notin> set (xs @ ys)" using d a(1) by auto
  show "chains carrier hp h2 (bs[i := p]) (css(i := xs @ ys))"
  proof (rule chains_update [OF c i])
    fix j b
    assume j: "j < length bs" "j \<noteq> i" "b \<in> set (css j)"
    with chains_disjoint [OF c j(1) i j(2)] a(1) have ne: "b \<noteq> a" "b \<notin> set xs" by auto
    then have "xs \<noteq> [] \<Longrightarrow> b \<noteq> last xs" by auto
    with upd free [OF ne(1)] show "h2 b = h b" by (auto split: if_splits)
  next
    have "is_chain h1 p (xs @ ys)"
    proof (cases "xs = []")
      case True
      with upd ch a show ?thesis by auto
    next
      case False
      then obtain zs b where xs: "xs = zs @ [b]" by (metis append_butlast_last_id)
      from upd False obtain nb where nb: "h b = Some nb" "h1 = h(b \<mapsto> nb\<lparr>cn_next := cn_next na\<rparr>)" "p = bs ! i"
        using xs by auto
      from is_chain_unlink [of h "bs ! i" zs b a ys nb na] ch d a xs nb show ?thesis by simp
    qed
    moreover have "\<forall>b \<in> set (xs @ ys). h2 b = h1 b"
    proof
      fix b
      assume "b \<in> set (xs @ ys)"
      with na have "b \<noteq> a" by auto
      then show "h2 b = h1 b" by (rule free)
    qed
    ultimately show "is_chain h2 p (xs @ ys)" by (rule is_chain_frame)
    show "distinct (xs @ ys)" using d a(1) by simp
    show "carrier (key_at h2 b) \<and> hash_key hp (key_at h2 b) mod length bs = i" if "b \<in> set (xs @ ys)" for b
    proof -
      have "b \<noteq> a" using that na by auto
      with kv chainsD(3,4) [OF c i, of b] that a(1) show ?thesis by simp
    qed
    fix b b'
    assume b: "b \<in> set (xs @ ys)" "b' \<in> set (xs @ ys)" "key_equal hp (key_at h2 b) (key_at h2 b')"
    then have "b \<noteq> a" "b' \<noteq> a" using na by auto
    with kv chainsD(5) [OF c i, of b b'] b a(1) show "b = b'" by simp
  qed
qed

lemma chain_remove_ok:
  assumes r: "chain_rel carrier hp s bs css" and k: "carrier k" and old: "chain_lookup s k \<noteq> None" and sz: "hm_size s \<le> SIZE_MAX"
  shows "\<exists>s' bs' css'. chain_remove env s k = Some (Ok, s') \<and> chain_rel carrier hp s' bs' css' \<and> length bs' = length bs \<and>
    chain_frame s s' \<and> hm_size s' = hm_size s - 1 \<and>
    (\<forall>x. carrier x \<longrightarrow> chain_lookup s' x = (if key_equal hp k x then None else chain_lookup s x))"
proof -
  let ?h = "hm_nodes s" and ?i = "hash_key hp k mod length bs"
  from r have c: "chains carrier hp ?h bs css" and f: "hm_buckets s = Some bs" "bs \<noteq> []" "hm_bucket_count s = length bs" "hm_hash s = hp"
    "\<And>i a. i < length bs \<Longrightarrow> a \<in> set (css i) \<Longrightarrow> a \<le> hm_allocs s" "hm_size s = (\<Sum>i < length bs. length (css i))"
    "faithful (hm_key_policy s)" "faithful (hm_value_policy s)" by (simp_all add: chain_rel_def)
  have i: "?i < length bs" using f(2) by simp
  note ch = chainsD(1) [OF c i] and d = chainsD(2) [OF c i]
  from r k show ?thesis
  proof (cases rule: chain_cases)
    case (hit xs a ys)
    note h = ch [unfolded hit(1)]
    from is_chain_split [OF h] obtain na where na: "?h a = Some na" "a \<noteq> 0" by auto
    have find: "chain_find s ?i k = Some (a, last (0 # xs))"
      using chain_find_hit(1) [OF h hit(4), of 0] hit(3) f(1,4) i by (simp add: chain_find_def)
    define p where "p = (if xs = [] then cn_next na else bs ! ?i)"
    define h1 where "h1 = (if xs = [] then ?h else ?h(last xs \<mapsto> (the (?h (last xs)))\<lparr>cn_next := cn_next na\<rparr>))"
    define h2 where "h2 = (if \<not> hm_arena s \<and> he_allow_heap env then h1(a := None) else h1)"
    have la: "xs \<noteq> [] \<Longrightarrow> last xs \<noteq> a \<and> last xs \<noteq> 0 \<and> (\<exists>nb. ?h (last xs) = Some nb)"
      using d hit(1) is_chain_nodes [OF ch, of "last xs"] by auto
    have upd: "if xs = [] then h1 = ?h \<and> p = cn_next na
      else \<exists>nb. ?h (last xs) = Some nb \<and> h1 = ?h(last xs \<mapsto> nb\<lparr>cn_next := cn_next na\<rparr>) \<and> p = bs ! ?i"
      using la by (auto simp: h1_def p_def)
    have free: "b \<noteq> a \<Longrightarrow> h2 b = h1 b" for b by (simp add: h2_def)
    note un = chain_unlink [OF c i hit(1) na(1) upd free]
    have len: "hm_size s = Suc (\<Sum>j < length bs. length ((css(?i := xs @ ys)) j))"
      using sum_update [OF i, of css "xs @ ys"] f(6) hit(1) by simp
    define tr where "tr = hm_destroyed (hm_destroy_value (cn_value na) (hm_destroy_key (cn_key na) s))"
    let ?s = "s\<lparr>hm_nodes := h2, hm_buckets := Some (bs[?i := p]), hm_size := hm_size s - 1, hm_destroyed := tr\<rparr>"
    have h1a: "h1 a = Some na" using la na(1) by (auto simp: h1_def)
    have sub: "sz_sub (hm_size s) (Suc 0) = hm_size s - 1" using sz_sub_eq [of 1 "hm_size s"] len sz by simp
    have "chain_remove env s k = Some (Ok, ?s)"
    proof (cases "xs = []")
      case True
      with find f i na sub show ?thesis
        by (simp add: chain_remove_def destroy_chain_node_def free_chain_node_def h2_def h1_def p_def tr_def
            hm_destroy_key_def hm_destroy_value_def)
    next
      case False
      with la obtain nb where nb: "?h (last xs) = Some nb" by blast
      with find f i na la [OF False] sub h1a False show ?thesis
        by (simp add: chain_remove_def destroy_chain_node_def free_chain_node_def h2_def h1_def p_def tr_def
            hm_destroy_key_def hm_destroy_value_def)
    qed
    moreover have "a' \<le> hm_allocs s" if "j < length bs" "a' \<in> set ((css(?i := xs @ ys)) j)" for j a'
      using f(5) [OF that(1), of a'] that(2) hit(1) by (auto split: if_splits)
    with un(1) len f have rel: "chain_rel carrier hp ?s (bs[?i := p]) (css(?i := xs @ ys))"
      by (simp add: chain_rel_def del: fun_upd_apply)
    moreover have "chain_lookup ?s x = (if key_equal hp k x then None else chain_lookup s x)" if x: "carrier x" for x
    proof (cases "hash_key hp x mod length bs = ?i")
      case True
      have "b \<in> set (css ?i) \<and> b \<noteq> a" if "b \<in> set (xs @ ys)" for b using that d hit(1) by auto
      with un(2) i have "pairs h2 (xs @ ys) = pairs ?h (xs @ ys)" by (intro pairs_cong) blast
      with assoc_delete [OF hit(5) hit(2) x, of "value_at ?h a"] eq_cong_left [OF hit(2) k x hit(3)] True hit(1) show ?thesis
        unfolding chain_rel_lookup [OF rel] chain_rel_lookup [OF r] by (simp cong: if_cong)
    next
      case False
      then have nk: "\<not> key_equal hp k x" using hash_eq [OF k x] by auto
      have x': "hash_key hp x mod length bs < length bs" using f(2) by simp
      have "a \<notin> set (css (hash_key hp x mod length bs))"
        using chains_disjoint [OF c i x' False [symmetric]] hit(1) by auto
      with un(2) x' have px: "pairs h2 (css (hash_key hp x mod length bs)) = pairs ?h (css (hash_key hp x mod length bs))"
        by (intro pairs_cong) (metis (lifting))
      show ?thesis unfolding chain_rel_lookup [OF rel] chain_rel_lookup [OF r] using False nk px by simp
    qed
    ultimately show ?thesis
      by (intro exI [of _ ?s] exI [of _ "bs[?i := p]"] exI [of _ "css(?i := xs @ ys)"]) (simp add: chain_frame_def)
  next
    case miss
    with old show ?thesis by simp
  qed
qed

lemma chain_remove_none:
  assumes r: "chain_rel carrier hp s bs css" and k: "carrier k" and new: "chain_lookup s k = None"
  shows "chain_remove env s k = Some (Not_found, s)"
proof -
  from r have c: "chains carrier hp (hm_nodes s) bs css" and f: "hm_buckets s = Some bs" "bs \<noteq> []" "hm_bucket_count s = length bs"
    "hm_hash s = hp" by (simp_all add: chain_rel_def)
  have i: "hash_key hp k mod length bs < length bs" using f(2) by simp
  from r k show ?thesis
  proof (cases rule: chain_cases)
    case miss
    from chain_find_miss(1) [OF chainsD(1) [OF c i] miss(1), of 0] f i show ?thesis
      by (simp add: chain_remove_def chain_find_def)
  qed (use new in simp)
qed

end

section \<open>Growing\<close>

definition live :: "nat \<Rightarrow> (nat \<Rightarrow> nat list) \<Rightarrow> nat set" where
  "live n css = (\<Union>i < n. set (css i))"

definition same_entries :: "(nat \<Rightarrow> ('k, 'v) chain_node option) \<Rightarrow> (nat \<Rightarrow> ('k, 'v) chain_node option) \<Rightarrow> bool" where
  "same_entries h h' \<longleftrightarrow> (\<forall>a. key_at h' a = key_at h a \<and> value_at h' a = value_at h a)"

lemma same_entries_next: "h a = Some nd \<Longrightarrow> same_entries h (h(a \<mapsto> nd\<lparr>cn_next := q\<rparr>))"
  by (simp add: same_entries_def)

lemma live_update: "i < n \<Longrightarrow> live n (css(i := a # css i)) = insert a (live n css)"
  by (auto simp: live_def split: if_splits)

context hashing
begin

lemma chain_lookup_iff:
  assumes r: "chain_rel carrier hp s bs css" and x: "carrier x"
  shows "chain_lookup s x = Some v \<longleftrightarrow>
    (\<exists>a \<in> live (length bs) css. key_equal hp (key_at (hm_nodes s) a) x \<and> value_at (hm_nodes s) a = v)"
proof -
  let ?h = "hm_nodes s" and ?i = "hash_key hp x mod length bs"
  from r have c: "chains carrier hp ?h bs css" and hp: "hm_hash s = hp" and i: "?i < length bs" by (auto simp: chain_rel_def)
  have here: "b \<in> set (css ?i) \<and> carrier (key_at ?h b)" if b: "b \<in> live (length bs) css" "key_equal hp (key_at ?h b) x" for b
  proof -
    from b(1) obtain j where j: "j < length bs" "b \<in> set (css j)" by (auto simp: live_def)
    from hash_eq [OF chainsD(3) [OF c j] x b(2)] chainsD(4) [OF c j] j chainsD(3) [OF c j] show ?thesis by auto
  qed
  from r x show ?thesis
  proof (cases rule: chain_cases)
    case (hit xs a ys)
    have a: "a \<in> set (css ?i)" using hit(1) by simp
    then have la: "a \<in> live (length bs) css" using i by (auto simp: live_def)
    have "b = a" if b: "b \<in> live (length bs) css" "key_equal hp (key_at ?h b) x" for b
    proof -
      from here [OF b] have bi: "b \<in> set (css ?i)" "carrier (key_at ?h b)" by simp_all
      have "key_equal hp (key_at ?h b) (key_at ?h a)"
        using eq_trans [OF bi(2) x hit(2) b(2) eq_sym [OF hit(2) x hit(3)]] .
      with chainsD(5) [OF c i bi(1) a] show ?thesis by simp
    qed
    then have "(\<exists>b \<in> live (length bs) css. key_equal hp (key_at ?h b) x \<and> value_at ?h b = v) \<longleftrightarrow> value_at ?h a = v"
      using la hit(3) by blast
    with hit(6) show ?thesis by simp
  next
    case miss
    with here hp show ?thesis by auto
  qed
qed

lemma chain_rehash_bucket_ok:
  assumes "chains carrier hp (hm_nodes s) nb cs" "nb \<noteq> []" "is_chain (hm_nodes s) p as" "distinct as"
    "set as \<inter> live (length nb) cs = {}" "\<forall>a \<in> set as. carrier (key_at (hm_nodes s) a)"
    "\<forall>a \<in> set as \<union> live (length nb) cs. \<forall>b \<in> set as \<union> live (length nb) cs.
       key_equal hp (key_at (hm_nodes s) a) (key_at (hm_nodes s) b) \<longrightarrow> a = b"
    "hm_hash s = hp"
  shows "\<exists>h' nb' cs'. chain_rehash_bucket s (Some nb) (length nb) p = Some (s\<lparr>hm_nodes := h'\<rparr>, Some nb') \<and>
    chains carrier hp h' nb' cs' \<and> length nb' = length nb \<and> live (length nb) cs' = live (length nb) cs \<union> set as \<and>
    (\<forall>b. b \<notin> set as \<longrightarrow> h' b = hm_nodes s b) \<and> same_entries (hm_nodes s) h' \<and>
    (\<Sum>j < length nb. length (cs' j)) = (\<Sum>j < length nb. length (cs j)) + length as"
  using assms
proof (induction as arbitrary: s p nb cs)
  case Nil
  then show ?case
    by (intro exI [of _ "hm_nodes s"] exI [of _ nb] exI [of _ cs]) (simp add: chain_rehash_bucket.simps same_entries_def)
next
  case (Cons a as)
  let ?h = "hm_nodes s"
  from Cons.prems(3) obtain nd where nd: "p = a" "a \<noteq> 0" "?h a = Some nd" "is_chain ?h (cn_next nd) as"
    by (auto split: option.splits)
  let ?j = "hash_key hp (cn_key nd) mod length nb"
  have j: "?j < length nb" using Cons.prems(2) by simp
  let ?h1 = "?h(a \<mapsto> nd\<lparr>cn_next := nb ! ?j\<rparr>)" and ?nb = "nb[?j := a]" and ?cs = "cs(?j := a # cs ?j)"
  let ?s = "s\<lparr>hm_nodes := ?h1\<rparr>"
  have same: "same_entries ?h ?h1" using nd(3) by (rule same_entries_next)
  then have kv: "key_at ?h1 b = key_at ?h b" for b by (simp add: same_entries_def)
  have fresh: "a \<notin> set (cs i)" if "i < length nb" for i using Cons.prems(5) that by (auto simp: live_def)
  have c1: "chains carrier hp ?h1 ?nb ?cs"
  proof (rule chains_update [OF Cons.prems(1) j])
    show "?h1 b = ?h b" if "i < length nb" "b \<in> set (cs i)" for i b using fresh [OF that(1)] that(2) by auto
    have "is_chain ?h1 (nb ! ?j) (cs ?j)"
      by (rule is_chain_frame [OF chainsD(1) [OF Cons.prems(1) j]]) (use fresh [OF j] in auto)
    then show "is_chain ?h1 a (a # cs ?j)" using nd(2) by simp
    show "distinct (a # cs ?j)" using fresh [OF j] chainsD(2) [OF Cons.prems(1) j] by simp
    show "carrier (key_at ?h1 b) \<and> hash_key hp (key_at ?h1 b) mod length nb = ?j" if "b \<in> set (a # cs ?j)" for b
      unfolding kv using that chainsD(3,4) [OF Cons.prems(1) j] Cons.prems(6) nd(3) by auto
    fix b b'
    assume "b \<in> set (a # cs ?j)" "b' \<in> set (a # cs ?j)" "key_equal hp (key_at ?h1 b) (key_at ?h1 b')"
    moreover have "set (a # cs ?j) \<subseteq> set (a # as) \<union> live (length nb) cs" using j by (auto simp: live_def)
    ultimately show "b = b'" unfolding kv using Cons.prems(7) by blast
  qed
  have live: "live (length nb) ?cs = insert a (live (length nb) cs)" by (rule live_update [OF j])
  have ch: "is_chain ?h1 (cn_next nd) as" by (rule is_chain_frame [OF nd(4)]) (use Cons.prems(4) in auto)
  have IH: "\<exists>h' nb' cs'. chain_rehash_bucket ?s (Some ?nb) (length ?nb) (cn_next nd) = Some (?s\<lparr>hm_nodes := h'\<rparr>, Some nb') \<and>
    chains carrier hp h' nb' cs' \<and> length nb' = length ?nb \<and> live (length ?nb) cs' = live (length ?nb) ?cs \<union> set as \<and>
    (\<forall>b. b \<notin> set as \<longrightarrow> h' b = hm_nodes ?s b) \<and> same_entries (hm_nodes ?s) h' \<and>
    (\<Sum>j < length ?nb. length (cs' j)) = (\<Sum>j < length ?nb. length (?cs j)) + length as"
  proof (rule Cons.IH)
    show "chains carrier hp (hm_nodes ?s) ?nb ?cs" using c1 by simp
    show "is_chain (hm_nodes ?s) (cn_next nd) as" using ch by simp
    show "set as \<inter> live (length ?nb) ?cs = {}" using Cons.prems(4,5) live by auto
    show "\<forall>b \<in> set as. carrier (key_at (hm_nodes ?s) b)" using Cons.prems(6) kv by simp
    have sub: "set as \<union> live (length ?nb) ?cs = set (a # as) \<union> live (length nb) cs" using live by auto
    show "\<forall>b \<in> set as \<union> live (length ?nb) ?cs. \<forall>b' \<in> set as \<union> live (length ?nb) ?cs.
       key_equal hp (key_at (hm_nodes ?s) b) (key_at (hm_nodes ?s) b') \<longrightarrow> b = b'"
      unfolding sub using Cons.prems(7) kv by simp
    show "?nb \<noteq> []" "distinct as" "hm_hash ?s = hp" using Cons.prems(2,4,8) by simp_all
  qed
  then obtain h' nb' cs' where IH: "chain_rehash_bucket ?s (Some ?nb) (length nb) (cn_next nd) = Some (s\<lparr>hm_nodes := h'\<rparr>, Some nb')"
    "chains carrier hp h' nb' cs'" "length nb' = length nb" "live (length nb) cs' = live (length nb) ?cs \<union> set as"
    "\<forall>b. b \<notin> set as \<longrightarrow> h' b = ?h1 b" "same_entries ?h1 h'"
    "(\<Sum>j < length nb. length (cs' j)) = (\<Sum>j < length nb. length (?cs j)) + length as" by auto
  have "chain_rehash_bucket s (Some nb) (length nb) p = Some (s\<lparr>hm_nodes := h'\<rparr>, Some nb')"
    using IH(1) nd(1-3) j Cons.prems(2,8) by (subst chain_rehash_bucket.simps) simp
  moreover have "same_entries ?h h'" using same IH(6) by (simp add: same_entries_def)
  moreover have "(\<Sum>j < length nb. length (cs' j)) = (\<Sum>j < length nb. length (cs j)) + length (a # as)"
    using IH(7) sum_update [OF j, of cs "a # cs ?j"] by simp
  moreover have "live (length nb) cs' = live (length nb) cs \<union> set (a # as)" using IH(4) live by auto
  moreover have "\<forall>b. b \<notin> set (a # as) \<longrightarrow> h' b = ?h b" using IH(5) by simp
  ultimately show ?case using IH(2,3) by blast
qed

lemma chains_keys_distinct:
  assumes "chains carrier hp h bs css" "a \<in> live (length bs) css" "b \<in> live (length bs) css"
    "key_equal hp (key_at h a) (key_at h b)"
  shows "a = b"
proof -
  from assms(2,3) obtain i j where ij: "i < length bs" "a \<in> set (css i)" "j < length bs" "b \<in> set (css j)"
    by (auto simp: live_def)
  from hash_eq [OF chainsD(3) [OF assms(1) ij(1,2)] chainsD(3) [OF assms(1) ij(3,4)] assms(4)]
    chainsD(4) [OF assms(1) ij(1,2)] chainsD(4) [OF assms(1) ij(3,4)] have "i = j" by simp
  with chainsD(5) [OF assms(1) ij(1,2)] ij(4) assms(4) show ?thesis by simp
qed

lemma live_iff: "a \<in> live n css \<longleftrightarrow> (\<exists>j < n. a \<in> set (css j))"
  by (auto simp: live_def)

lemma live_Suc: "live (Suc i) css = live i css \<union> set (css i)"
  by (auto simp: live_def less_Suc_eq)

lemma live_upto: "i < n \<Longrightarrow> set (css i) \<union> live i css \<subseteq> live n css"
proof -
  assume "i < n"
  then have "live (Suc i) css \<subseteq> live n css" unfolding live_def by (intro UN_mono) auto
  then show ?thesis by (simp add: live_Suc Un_commute)
qed

lemma chain_rehash_loop_ok:
  assumes old: "chains carrier hp h0 bs css"
  shows "i + n = length bs \<Longrightarrow> hm_buckets s = Some bs \<Longrightarrow> hm_hash s = hp \<Longrightarrow> same_entries h0 (hm_nodes s) \<Longrightarrow>
    (\<And>j a. i \<le> j \<Longrightarrow> j < length bs \<Longrightarrow> a \<in> set (css j) \<Longrightarrow> hm_nodes s a = h0 a) \<Longrightarrow>
    chains carrier hp (hm_nodes s) nb cs \<Longrightarrow> nb \<noteq> [] \<Longrightarrow> live (length nb) cs = live i css \<Longrightarrow>
    (\<Sum>j < length nb. length (cs j)) = (\<Sum>j < i. length (css j)) \<Longrightarrow>
    \<exists>h' nb' cs'. chain_rehash_loop s (Some nb) (length nb) i n = Some (s\<lparr>hm_nodes := h'\<rparr>, Some nb') \<and>
      chains carrier hp h' nb' cs' \<and> length nb' = length nb \<and> live (length nb) cs' = live (length bs) css \<and>
      same_entries h0 h' \<and> (\<Sum>j < length nb. length (cs' j)) = (\<Sum>j < length bs. length (css j))"
proof (induction n arbitrary: i s nb cs)
  case 0
  then show ?case by (intro exI [of _ "hm_nodes s"] exI [of _ nb] exI [of _ cs]) simp
next
  case (Suc n)
  let ?h = "hm_nodes s"
  have i: "i < length bs" using Suc.prems(1) by simp
  have kv: "key_at ?h a = key_at h0 a" for a using Suc.prems(4) by (simp add: same_entries_def)
  have ch: "is_chain ?h (bs ! i) (css i)"
    by (rule is_chain_frame [OF chainsD(1) [OF old i]]) (use Suc.prems(5) i in auto)
  have disj: "set (css i) \<inter> live (length nb) cs = {}"
  proof -
    have "a \<notin> set (css j)" if "a \<in> set (css i)" "j < i" for a j
      using chains_disjoint [OF old i, of j] that i by auto
    then show ?thesis unfolding Suc.prems(8) by (auto simp: live_def)
  qed
  have car: "\<forall>a \<in> set (css i). carrier (key_at ?h a)" unfolding kv using chainsD(3) [OF old i] by simp
  have sub: "set (css i) \<union> live (length nb) cs \<subseteq> live (length bs) css"
    unfolding Suc.prems(8) by (rule live_upto [OF i])
  have dist: "\<forall>a \<in> set (css i) \<union> live (length nb) cs. \<forall>b \<in> set (css i) \<union> live (length nb) cs.
      key_equal hp (key_at ?h a) (key_at ?h b) \<longrightarrow> a = b"
  proof (intro ballI impI)
    fix a b
    assume ab: "a \<in> set (css i) \<union> live (length nb) cs" "b \<in> set (css i) \<union> live (length nb) cs"
      "key_equal hp (key_at ?h a) (key_at ?h b)"
    from chains_keys_distinct [OF old subsetD [OF sub ab(1)] subsetD [OF sub ab(2)]] ab(3) kv show "a = b" by simp
  qed
  from chain_rehash_bucket_ok [OF Suc.prems(6,7) ch chainsD(2) [OF old i] disj car dist Suc.prems(3)] obtain h1 nb1 cs1 where
    b: "chain_rehash_bucket s (Some nb) (length nb) (bs ! i) = Some (s\<lparr>hm_nodes := h1\<rparr>, Some nb1)"
    "chains carrier hp h1 nb1 cs1" "length nb1 = length nb" "live (length nb) cs1 = live (length nb) cs \<union> set (css i)"
    "\<forall>b. b \<notin> set (css i) \<longrightarrow> h1 b = ?h b" "same_entries ?h h1"
    "(\<Sum>j < length nb. length (cs1 j)) = (\<Sum>j < length nb. length (cs j)) + length (css i)" by (elim exE conjE)
  let ?s = "s\<lparr>hm_nodes := h1\<rparr>"
  have "\<exists>h' nb' cs'. chain_rehash_loop ?s (Some nb1) (length nb1) (Suc i) n = Some (?s\<lparr>hm_nodes := h'\<rparr>, Some nb') \<and>
      chains carrier hp h' nb' cs' \<and> length nb' = length nb1 \<and> live (length nb1) cs' = live (length bs) css \<and>
      same_entries h0 h' \<and> (\<Sum>j < length nb1. length (cs' j)) = (\<Sum>j < length bs. length (css j))"
  proof (rule Suc.IH)
    show "same_entries h0 (hm_nodes ?s)" using Suc.prems(4) b(6) by (simp add: same_entries_def)
    show "hm_nodes ?s a = h0 a" if "Suc i \<le> j" "j < length bs" "a \<in> set (css j)" for j a
    proof -
      have "a \<notin> set (css i)" using chains_disjoint [OF old i that(2)] that(1,3) by auto
      with b(5) Suc.prems(5) [of j a] that show ?thesis by simp
    qed
    show "live (length nb1) cs1 = live (Suc i) css" using b(3,4) Suc.prems(8) live_Suc by simp
    show "(\<Sum>j < length nb1. length (cs1 j)) = (\<Sum>j < Suc i. length (css j))" using b(3,7) Suc.prems(9) by simp
    show "nb1 \<noteq> []" using b(3) Suc.prems(7) by auto
    show "Suc i + n = length bs" "hm_buckets ?s = Some bs" "hm_hash ?s = hp" "chains carrier hp (hm_nodes ?s) nb1 cs1"
      using Suc.prems(1-3) b(2) by simp_all
  qed
  then show ?case using b(1,3) i Suc.prems(2) by simp
qed

lemma chain_rehash_ok:
  assumes r: "chain_rel carrier hp s bs css" and env: "serves env s" and n: "0 < new_count" "new_count * 8 \<le> SIZE_MAX"
  shows "\<exists>s' nb cs. chain_rehash env s new_count = Some (Ok, s') \<and> chain_rel carrier hp s' nb cs \<and> length nb = new_count \<and>
    chain_frame s s' \<and> hm_size s' = hm_size s \<and> (\<forall>x. carrier x \<longrightarrow> chain_lookup s' x = chain_lookup s x)"
proof -
  let ?h = "hm_nodes s"
  from r have c: "chains carrier hp ?h bs css" and f: "hm_buckets s = Some bs" "bs \<noteq> []" "hm_bucket_count s = length bs" "hm_hash s = hp"
    "\<And>i a. i < length bs \<Longrightarrow> a \<in> set (css i) \<Longrightarrow> a \<le> hm_allocs s" "hm_size s = (\<Sum>i < length bs. length (css i))"
    by (simp_all add: chain_rel_def)
  let ?s = "s\<lparr>hm_allocs := Suc (hm_allocs s)\<rparr>" and ?nb = "replicate new_count (0 :: nat)"
  have e: "chains carrier hp (hm_nodes ?s) ?nb (\<lambda>_. [])" by (simp add: chains_def)
  have "\<exists>h' nb' cs'. chain_rehash_loop ?s (Some ?nb) (length ?nb) 0 (length bs) = Some (?s\<lparr>hm_nodes := h'\<rparr>, Some nb') \<and>
      chains carrier hp h' nb' cs' \<and> length nb' = length ?nb \<and> live (length ?nb) cs' = live (length bs) css \<and>
      same_entries ?h h' \<and> (\<Sum>j < length ?nb. length (cs' j)) = (\<Sum>j < length bs. length (css j))"
    by (rule chain_rehash_loop_ok [OF c _ _ _ _ _ e]) (use f n in \<open>simp_all add: same_entries_def live_def\<close>)
  then obtain h' nb' cs' where l: "chain_rehash_loop ?s (Some ?nb) new_count 0 (length bs) = Some (?s\<lparr>hm_nodes := h'\<rparr>, Some nb')"
    "chains carrier hp h' nb' cs'" "length nb' = new_count" "live new_count cs' = live (length bs) css"
    "same_entries ?h h'" "(\<Sum>j < new_count. length (cs' j)) = (\<Sum>j < length bs. length (css j))" by auto
  let ?t = "?s\<lparr>hm_nodes := h', hm_buckets := Some nb', hm_bucket_count := new_count, hm_kind := grown_kind (?s\<lparr>hm_nodes := h'\<rparr>)\<rparr>"
  have "chain_rehash env s new_count = Some (Ok, ?t)"
    using l(1) f(3) n(2) by (simp add: chain_rehash_def hashmap_alloc_raw_serves [OF env] sz_mul_eq new_buckets_def)
  moreover have "a \<le> Suc (hm_allocs s)" if "i < new_count" "a \<in> set (cs' i)" for i a
  proof -
    have "a \<in> live (length bs) css" using that l(4) by (auto simp: live_def)
    then obtain j where "j < length bs" "a \<in> set (css j)" by (auto simp: live_def)
    with f(5) show ?thesis by (simp add: le_SucI)
  qed
  with l n(1) r f(4,6) have rel: "chain_rel carrier hp ?t nb' cs'" by (auto simp: chain_rel_def)
  moreover have "chain_lookup ?t x = chain_lookup s x" if x: "carrier x" for x
  proof -
    have "chain_lookup ?t x = Some v \<longleftrightarrow> chain_lookup s x = Some v" for v
      unfolding chain_lookup_iff [OF rel x] chain_lookup_iff [OF r x] using l(3-5) by (simp add: same_entries_def)
    then show ?thesis by (metis option.exhaust)
  qed
  ultimately show ?thesis using l(3)
    by (intro exI [of _ ?t] exI [of _ nb'] exI [of _ cs']) (simp add: chain_frame_def)
qed

end

section \<open>The map\<close>

text \<open>\<open>p\<close> more puts: an allocator that serves, and sizes that do not wrap.\<close>

definition chain_inv :: "('k \<Rightarrow> bool) \<Rightarrow> 'k hash_policy \<Rightarrow> ('k, 'v) hm_env \<Rightarrow> nat \<Rightarrow> nat \<Rightarrow> ('k, 'v) hashmap \<Rightarrow> bool" where
  "chain_inv carrier hp env p r s \<longleftrightarrow> hm_strategy s = Chaining \<and> (\<exists>bs css. chain_rel carrier hp s bs css) \<and> serves env s \<and>
     hm_size s + p \<le> SIZE_MAX \<and>
     (hm_policy s AND hashmap_growable \<noteq> 0 \<longrightarrow> hm_bucket_count s \<le> 2 ^ 59 \<and> 4 * (hm_size s + p) \<le> 2 ^ 59)"

context hashing
begin

lemma chain_grow_ok:
  assumes inv: "chain_inv carrier hp env (Suc p) r s" and grow: "should_grow s"
  shows "\<exists>s'. maybe_grow env s = Some (Ok, s') \<and> chain_inv carrier hp env (Suc p) r s' \<and> hm_size s' = hm_size s \<and>
    (\<forall>x. carrier x \<longrightarrow> chain_lookup s' x = chain_lookup s x)"
proof -
  let ?B = "hm_bucket_count s"
  from inv obtain bs css where rel: "chain_rel carrier hp s bs css" by (auto simp: chain_inv_def)
  from inv grow have g: "serves env s" "?B \<le> 2 ^ 59" "4 * (hm_size s + Suc p) \<le> 2 ^ 59" "hm_strategy s = Chaining"
    "hm_size s + Suc p \<le> SIZE_MAX" by (auto simp: chain_inv_def should_grow_def)
  have B: "0 < ?B" using rel by (simp add: chain_rel_def)
  have "sz_mul (sz_add (hm_size s) 1) 4 = (hm_size s + 1) * 4" "sz_mul ?B 3 = ?B * 3"
    using g(2,3) by (simp_all add: sz_add_eq sz_mul_eq SIZE_MAX_def)
  with grow have load: "3 * ?B \<le> 4 * (hm_size s + 1)" by (simp add: should_grow_def)
  have new: "grow_bucket_count ?B = 2 * ?B" using B g(2) by (simp add: grow_bucket_count_def sz_mul_eq SIZE_MAX_def)
  have "0 < 2 * ?B" "2 * ?B * 8 \<le> SIZE_MAX" using B g(2) by (simp_all add: SIZE_MAX_def)
  from chain_rehash_ok [OF rel g(1) this] obtain s' nb cs where
    s': "chain_rehash env s (2 * ?B) = Some (Ok, s')" "chain_rel carrier hp s' nb cs" "length nb = 2 * ?B" "chain_frame s s'"
    "hm_size s' = hm_size s" "\<forall>x. carrier x \<longrightarrow> chain_lookup s' x = chain_lookup s x" by blast
  have "hm_bucket_count s' = 2 * ?B" using s'(2,3) by (simp add: chain_rel_def)
  moreover have "2 * ?B \<le> 2 ^ 59" using load g(3) by simp
  ultimately have "chain_inv carrier hp env (Suc p) r s'"
    using s'(2,4,5) g serves_arena [OF g(1), of s'] by (auto simp: chain_inv_def chain_frame_def)
  moreover have "maybe_grow env s = Some (Ok, s')" using s'(1) new B g(4) by (simp add: maybe_grow_def)
  ultimately show ?thesis using s'(5,6) by blast
qed

lemma chain_hash_put:
  assumes inv: "chain_inv carrier hp env (Suc p) r s" and k: "carrier k"
  shows "\<exists>s'. hash_put env s k v = Some (Ok, s') \<and> chain_inv carrier hp env p r s' \<and>
    hm_size s' = (if chain_lookup s k \<noteq> None then hm_size s else Suc (hm_size s)) \<and>
    (\<forall>x. carrier x \<longrightarrow> chain_lookup s' x = (if key_equal hp k x then Some v else chain_lookup s x))"
proof -
  have "\<exists>s'. (if should_grow s then maybe_grow env s else Some (Ok, s)) = Some (Ok, s') \<and>
    chain_inv carrier hp env (Suc p) r s' \<and> hm_size s' = hm_size s \<and> (\<forall>x. carrier x \<longrightarrow> chain_lookup s' x = chain_lookup s x)"
    using chain_grow_ok [OF inv] inv by (cases "should_grow s") auto
  then obtain s1 where s1: "(if should_grow s then maybe_grow env s else Some (Ok, s)) = Some (Ok, s1)"
    "chain_inv carrier hp env (Suc p) r s1" "hm_size s1 = hm_size s" "\<forall>x. carrier x \<longrightarrow> chain_lookup s1 x = chain_lookup s x"
    by (elim exE conjE)
  from s1(2) obtain bs css where rel: "chain_rel carrier hp s1 bs css" and g: "serves env s1" "hm_size s1 < SIZE_MAX"
    "hm_strategy s1 = Chaining" by (auto simp: chain_inv_def)
  from chain_put_ok [OF rel g(1) k g(2), of v] obtain s' bs' css' where
    s': "chain_put env s1 k v = Some (Ok, s')" "chain_rel carrier hp s' bs' css'" "length bs' = length bs" "chain_frame s1 s'"
    "hm_size s' = (if chain_lookup s1 k \<noteq> None then hm_size s1 else Suc (hm_size s1))"
    "\<forall>x. carrier x \<longrightarrow> chain_lookup s' x = (if key_equal hp k x then Some v else chain_lookup s1 x)" by blast
  have "hm_bucket_count s' = hm_bucket_count s1" using s'(2,3) rel by (simp add: chain_rel_def)
  moreover have "hm_size s' + p \<le> hm_size s1 + Suc p" using s'(5) by (simp split: if_splits)
  ultimately have "chain_inv carrier hp env p r s'"
    using s1(2) s'(2,4) serves_arena [OF g(1), of s'] by (auto simp: chain_inv_def chain_frame_def)
  moreover have "0 < hm_bucket_count s" using inv by (auto simp: chain_inv_def chain_rel_def)
  with s1(1) g(3) have "hash_put env s k v = chain_put env s1 k v" by (simp add: hash_put_def hashmap_put_def)
  ultimately show ?thesis using s' s1(3,4) k by auto
qed

lemma chain_growing_map:
  "growing_map carrier (key_equal hp) (chain_inv carrier hp env) chain_lookup hm_size (hash_put env) (hash_get d) (hash_remove env)
     hash_contains"
proof (unfold_locales, goal_cases)
  case (1 p r s)
  then show ?case by (simp add: chain_inv_def)
next
  case (2 p r s k v)
  then show ?case by (rule chain_hash_put)
next
  case (3 p r s k)
  then obtain bs css where rel: "chain_rel carrier hp s bs css" "hm_strategy s = Chaining" by (auto simp: chain_inv_def)
  from chain_get_eq(1) [OF rel(1) 3(2), of d] rel(2) show ?case
    by (auto simp: hash_get_def hashmap_get_def split: option.split)
next
  case (4 p r s k)
  then obtain bs css where rel: "chain_rel carrier hp s bs css" "hm_strategy s = Chaining" "serves env s" "hm_size s \<le> SIZE_MAX"
    by (auto simp: chain_inv_def)
  from chain_remove_ok [OF rel(1) 4(2,3) rel(4)] obtain s' bs' css' where
    s': "chain_remove env s k = Some (Ok, s')" "chain_rel carrier hp s' bs' css'" "length bs' = length bs" "chain_frame s s'"
    "hm_size s' = hm_size s - 1"
    "\<forall>x. carrier x \<longrightarrow> chain_lookup s' x = (if key_equal hp k x then None else chain_lookup s x)" by blast
  have "hm_bucket_count s' = hm_bucket_count s" using s'(2,3) rel(1) by (simp add: chain_rel_def)
  then have "chain_inv carrier hp env p r s'"
    using 4(1) s'(2,4,5) serves_arena [OF rel(3), of s'] by (auto simp: chain_inv_def chain_frame_def)
  with s' rel(2) show ?case by (intro exI [of _ s']) (simp add: hash_remove_def hashmap_remove_def)
next
  case (5 p r s k)
  then obtain bs css where rel: "chain_rel carrier hp s bs css" "hm_strategy s = Chaining" by (auto simp: chain_inv_def)
  from chain_remove_none [OF rel(1) 5(2,3)] rel(2) show ?case by (simp add: hash_remove_def hashmap_remove_def)
next
  case (6 p r s k)
  then obtain bs css where rel: "chain_rel carrier hp s bs css" "hm_strategy s = Chaining" by (auto simp: chain_inv_def)
  from chain_get_eq(2) [OF rel(1) 6(2)] rel(2) show ?case by (simp add: hash_contains_def hashmap_contains_def)
qed

end

interpretation bytes_chain_map: growing_map "\<lambda>k. length (bytes k) = n" "key_equal (bytes_hash_policy bytes)"
  "chain_inv (\<lambda>k. length (bytes k) = n) (bytes_hash_policy bytes) env" chain_lookup hm_size "hash_put env" "hash_get d"
  "hash_remove env" hash_contains
  for bytes :: "'k \<Rightarrow> u8 list" and n and env :: "('k, 'v) hm_env" and d
  by (rule bytes_hashing.chain_growing_map)

section \<open>Clearing and visiting\<close>

definition chain_entries :: "('k, 'v) hashmap \<Rightarrow> ('k \<times> 'v) list" where
  "chain_entries s = concat (map (\<lambda>i. pairs (hm_nodes s) (bucket s i)) [0..<hm_bucket_count s])"

text \<open>What the destructors of entries append to the trace.\<close>

definition destroyed_pairs :: "('k, 'v) hashmap \<Rightarrow> ('k \<times> 'v) list \<Rightarrow> ('k + 'v) list" where
  "destroyed_pairs s ps = concat (map (\<lambda>(k, v). (if ep_destroy (hm_key_policy s) then [Inl k] else []) @
     (if ep_destroy (hm_value_policy s) then [Inr v] else [])) ps)"

lemma destroyed_pairs_simps [simp]:
  "destroyed_pairs s [] = []" "destroyed_pairs s (ps @ qs) = destroyed_pairs s ps @ destroyed_pairs s qs"
  by (simp_all add: destroyed_pairs_def)

definition freed :: "('k, 'v) hm_env \<Rightarrow> ('k, 'v) hashmap \<Rightarrow> nat set \<Rightarrow> nat \<Rightarrow> ('k, 'v) chain_node option" where
  "freed env s A = (\<lambda>a. if \<not> hm_arena s \<and> he_allow_heap env \<and> a \<in> A then None else hm_nodes s a)"

text \<open>Clearing one list: the successor is read before the node is freed.\<close>

lemma chain_clear_bucket_eq:
  "is_chain (hm_nodes s) p as \<Longrightarrow> distinct as \<Longrightarrow>
   chain_clear_bucket env s p = Some (s\<lparr>hm_nodes := freed env s (set as),
     hm_destroyed := hm_destroyed s @ destroyed_pairs s (pairs (hm_nodes s) as)\<rparr>)"
proof (induction as arbitrary: s p)
  case Nil
  then show ?case by (subst chain_clear_bucket.simps) (simp add: freed_def)
next
  case (Cons a as)
  then obtain nd where nd: "p = a" "a \<noteq> 0" "hm_nodes s a = Some nd" "is_chain (hm_nodes s) (cn_next nd) as"
    by (auto split: option.splits)
  define s1 where "s1 = s\<lparr>hm_nodes := freed env s {a},
    hm_destroyed := hm_destroyed s @ destroyed_pairs s (pairs (hm_nodes s) [a])\<rparr>"
  have step: "chain_clear_bucket env s p = chain_clear_bucket env s1 (cn_next nd)"
    using nd by (subst chain_clear_bucket.simps)
      (auto simp: destroy_chain_node_def free_chain_node_def hm_destroy_key_def hm_destroy_value_def s1_def freed_def
        destroyed_pairs_def fun_upd_def intro!: arg_cong2 [of _ _ _ _ "chain_clear_bucket env"])
  have f: "hm_nodes s1 = freed env s {a}" "hm_arena s1 = hm_arena s" "hm_key_policy s1 = hm_key_policy s"
    "hm_value_policy s1 = hm_value_policy s" by (simp_all add: s1_def)
  have na: "a \<notin> set as" using Cons.prems(2) by simp
  have ch: "is_chain (hm_nodes s1) (cn_next nd) as"
    unfolding f by (rule is_chain_frame [OF nd(4)]) (use na in \<open>auto simp: freed_def\<close>)
  have "pairs (hm_nodes s1) as = pairs (hm_nodes s) as" unfolding f using na by (intro pairs_cong) (auto simp: freed_def)
  moreover have "freed env s1 (set as) = freed env s (set (a # as))" by (auto simp: freed_def fun_eq_iff f)
  moreover have "destroyed_pairs s1 ps = destroyed_pairs s ps" for ps by (simp add: destroyed_pairs_def f)
  moreover have "destroyed_pairs s (pairs (hm_nodes s) (a # as)) =
      destroyed_pairs s (pairs (hm_nodes s) [a]) @ destroyed_pairs s (pairs (hm_nodes s) as)"
    by (simp add: destroyed_pairs_def)
  ultimately show ?case using Cons.IH [OF ch] Cons.prems(2) step by (simp add: s1_def)
qed

lemma freed_Un: "freed env (s\<lparr>hm_nodes := freed env s A, hm_destroyed := tr, hm_buckets := b\<rparr>) B = freed env s (A \<union> B)"
  by (auto simp: freed_def fun_eq_iff)

context hashing
begin

lemma chain_clear_loop_eq:
  assumes "chains carrier hp h0 bs0 css"
  shows "i + n = length bs \<Longrightarrow> length bs0 = length bs \<Longrightarrow> hm_buckets s = Some bs \<Longrightarrow>
    (\<And>j. i \<le> j \<Longrightarrow> j < length bs \<Longrightarrow> bs ! j = bs0 ! j) \<Longrightarrow>
    (\<And>j a. i \<le> j \<Longrightarrow> j < length bs \<Longrightarrow> a \<in> set (css j) \<Longrightarrow> hm_nodes s a = h0 a) \<Longrightarrow>
    chain_clear_loop env s i n = Some (s\<lparr>hm_nodes := freed env s (\<Union>j \<in> {i..<i + n}. set (css j)),
      hm_destroyed := hm_destroyed s @ destroyed_pairs s (concat (map (\<lambda>j. pairs h0 (css j)) [i..<i + n])),
      hm_buckets := Some (take i bs @ replicate n 0)\<rparr>)"
proof (induction n arbitrary: i s bs)
  case 0
  then show ?case by (simp add: freed_def)
next
  case (Suc n)
  have i: "i < length bs" "i < length bs0" using Suc.prems(1,2) by simp_all
  have ch: "is_chain (hm_nodes s) (bs ! i) (css i)"
    using is_chain_frame [OF chainsD(1) [OF assms i(2)], of "hm_nodes s"] Suc.prems(4) [of i] Suc.prems(5) [of i] i by simp
  have d: "distinct (css i)" by (rule chainsD(2) [OF assms i(2)])
  let ?s = "s\<lparr>hm_nodes := freed env s (set (css i)),
    hm_destroyed := hm_destroyed s @ destroyed_pairs s (pairs (hm_nodes s) (css i)), hm_buckets := Some (bs[i := 0])\<rparr>"
  have p: "pairs (hm_nodes s) (css i) = pairs h0 (css i)" using Suc.prems(5) [of i] i by (intro pairs_cong) simp
  have IH: "chain_clear_loop env ?s (Suc i) n = Some (?s\<lparr>hm_nodes := freed env ?s (\<Union>j \<in> {Suc i..<Suc i + n}. set (css j)),
      hm_destroyed := hm_destroyed ?s @ destroyed_pairs ?s (concat (map (\<lambda>j. pairs h0 (css j)) [Suc i..<Suc i + n])),
      hm_buckets := Some (take (Suc i) (bs[i := 0]) @ replicate n 0)\<rparr>)"
  proof (rule Suc.IH)
    show "hm_nodes ?s a = h0 a" if "Suc i \<le> j" "j < length (bs[i := 0])" "a \<in> set (css j)" for j a
    proof -
      have "a \<notin> set (css i)" using chains_disjoint [OF assms i(2), of j] that Suc.prems(2) by auto
      then show ?thesis using Suc.prems(5) [of j a] that by (simp add: freed_def)
    qed
  qed (use Suc.prems in simp_all)
  have "set (css i) \<union> (\<Union>j \<in> {Suc i..<Suc i + n}. set (css j)) = (\<Union>j \<in> {i..<i + Suc n}. set (css j))"
  proof -
    have "{i..<i + Suc n} = insert i {Suc i..<Suc i + n}" by auto
    then show ?thesis by simp
  qed
  moreover have "[i..<i + Suc n] = i # [Suc i..<Suc i + n]" by (simp add: upt_conv_Cons)
  moreover have "take (Suc i) (bs[i := 0]) @ replicate n 0 = take i bs @ replicate (Suc n) 0"
    using i(1) by (simp add: take_Suc_conv_app_nth)
  moreover have "destroyed_pairs ?s ps = destroyed_pairs s ps" for ps by (simp add: destroyed_pairs_def)
  moreover have "chain_clear_loop env s i (Suc n) = chain_clear_loop env ?s (Suc i) n"
    using Suc.prems(3) i(1) by (simp add: chain_clear_bucket_eq [OF ch d])
  ultimately show ?case using IH by (simp add: freed_Un p del: upt_Suc)
qed

lemma chain_entries_eq:
  "chain_rel carrier hp s bs css \<Longrightarrow> chain_entries s = concat (map (\<lambda>i. pairs (hm_nodes s) (css i)) [0..<length bs])"
proof -
  assume r: "chain_rel carrier hp s bs css"
  then have eq: "map (\<lambda>i. pairs (hm_nodes s) (bucket s i)) [0..<length bs] = map (\<lambda>i. pairs (hm_nodes s) (css i)) [0..<length bs]"
    by (simp add: chain_rel_bucket [OF r])
  have n: "hm_bucket_count s = length bs" using r by (simp add: chain_rel_def)
  show ?thesis unfolding chain_entries_def n eq ..
qed

lemma chain_rel_empty:
  assumes "hm_buckets s = Some (replicate n 0)" "0 < n" "hm_bucket_count s = n" "hm_hash s = hp" "hm_size s = 0"
    "faithful (hm_key_policy s)" "faithful (hm_value_policy s)"
  shows "chain_rel carrier hp s (replicate n 0) (\<lambda>_. [])" and "chain_lookup s x = None"
proof -
  show r: "chain_rel carrier hp s (replicate n 0) (\<lambda>_. [])" using assms by (simp add: chain_rel_def chains_def)
  show "chain_lookup s x = None" by (simp add: chain_rel_lookup [OF r])
qed

lemma chain_clear_ok:
  assumes r: "chain_rel carrier hp s bs css" and st: "hm_strategy s = Chaining"
  shows "\<exists>s'. hashmap_clear env s = Some s' \<and> hm_size s' = 0 \<and> hm_bucket_count s' = hm_bucket_count s \<and>
    (\<forall>x. chain_lookup s' x = None) \<and> chain_rel carrier hp s' (replicate (length bs) 0) (\<lambda>_. []) \<and>
    hm_destroyed s' = hm_destroyed s @ destroyed_pairs s (chain_entries s) \<and>
    hm_nodes s' = freed env s (\<Union>j < length bs. set (css j))"
proof -
  from r have c: "chains carrier hp (hm_nodes s) bs css" and f: "hm_buckets s = Some bs" "bs \<noteq> []" "hm_bucket_count s = length bs"
    "hm_hash s = hp" "faithful (hm_key_policy s)" "faithful (hm_value_policy s)" by (simp_all add: chain_rel_def)
  let ?s = "s\<lparr>hm_nodes := freed env s (\<Union>j < length bs. set (css j)),
      hm_destroyed := hm_destroyed s @ destroyed_pairs s (chain_entries s), hm_buckets := Some (replicate (length bs) 0), hm_size := 0\<rparr>"
  have "chain_clear_loop env s 0 (length bs) = Some (s\<lparr>hm_nodes := freed env s (\<Union>j \<in> {0..<0 + length bs}. set (css j)),
      hm_destroyed := hm_destroyed s @ destroyed_pairs s (concat (map (\<lambda>j. pairs (hm_nodes s) (css j)) [0..<0 + length bs])),
      hm_buckets := Some (take 0 bs @ replicate (length bs) 0)\<rparr>)"
    by (rule chain_clear_loop_eq [OF c]) (use f in simp_all)
  then have clear: "hashmap_clear env s = Some ?s"
    using f st by (simp add: hashmap_clear_def chain_entries_eq [OF r] lessThan_atLeast0)
  from chain_rel_empty [of ?s "length bs"] f have "chain_rel carrier hp ?s (replicate (length bs) 0) (\<lambda>_. [])"
    "\<And>x. chain_lookup ?s x = None" by simp_all
  with clear show ?thesis by (intro exI [of _ ?s]) simp
qed

end

text \<open>Visiting the entries of one bucket after the other until the visitor fails.\<close>

fun visit_pairs :: "('k \<Rightarrow> 'v \<Rightarrow> 'w \<Rightarrow> status \<times> 'w) \<Rightarrow> ('k \<times> 'v) list \<Rightarrow> 'w \<Rightarrow> status \<times> 'w" where
  "visit_pairs visit [] w = (Ok, w)"
| "visit_pairs visit ((k, v) # ps) w =
     (let (st, w') = visit k v w in if st \<noteq> Ok then (st, w') else visit_pairs visit ps w')"

lemma visit_pairs_append:
  "visit_pairs visit (ps @ qs) w =
     (let (st, w') = visit_pairs visit ps w in if st \<noteq> Ok then (st, w') else visit_pairs visit qs w')"
  by (induction ps arbitrary: w) (auto split: prod.splits)

lemma chain_foreach_bucket_eq:
  "is_chain (hm_nodes s) p as \<Longrightarrow> chain_foreach_bucket visit s p w = Some (visit_pairs visit (pairs (hm_nodes s) as) w)"
proof (induction as arbitrary: p w)
  case Nil
  then show ?case by (subst chain_foreach_bucket.simps) simp
next
  case (Cons a as)
  then show ?case by (subst chain_foreach_bucket.simps) (auto split: option.splits prod.splits)
qed

lemma chain_foreach_loop_eq:
  assumes "chains carrier hp (hm_nodes s) bs css" "hm_buckets s = Some bs" "hm_strategy s = Chaining"
  shows "i + n = length bs \<Longrightarrow> hashmap_foreach_loop visit s i n w =
    Some (visit_pairs visit (concat (map (\<lambda>j. pairs (hm_nodes s) (css j)) [i..<i + n])) w)"
proof (induction n arbitrary: i w)
  case (Suc n)
  then have i: "i < length bs" by simp
  have "[i..<i + Suc n] = i # [Suc i..<Suc i + n]" by (simp add: upt_conv_Cons)
  with Suc i assms(2,3) chain_foreach_bucket_eq [OF chainsD(1) [OF assms(1) i], of visit w] show ?case
    by (simp add: visit_pairs_append split_beta Let_def prod_eq_iff del: upt_Suc)
qed simp

section \<open>Guarantees\<close>

lemma null_buckets_eq:
  "i + n \<le> length xs \<Longrightarrow> null_buckets (Some xs) i n = Some (Some (take i xs @ replicate n 0 @ drop (i + n) xs))"
proof (induction n arbitrary: i xs)
  case (Suc n)
  then show ?case by (simp add: take_Suc_conv_app_nth drop_update_swap)
qed simp

text \<open>
  C24. Chaining, for every hash policy whose hash respects its equality and an allocator that serves:
  after init_chaining every sequence of put, get, remove and contains gives the results of a map without
  a limit; growing relinks every node into its new bucket.
\<close>

theorem hash_chain_is_map:
  assumes "hashing carrier hp" "faithful kp" "faithful vp" "buckets \<noteq> []" "he_allow_heap env" "\<forall>n b. he_malloc env n b"
    "puts cs \<le> 2 ^ 57" "length buckets \<le> 2 ^ 59" "list_all (\<lambda>c. carrier (map_key c)) cs"
  shows "\<exists>s0 rs s' m. init_chaining env s (Some buckets) (length buckets) kp vp hp pol = Some (Ok, s0) \<and>
    map_run (hash_put env) (hash_get d) (hash_remove env) hash_contains s0 cs = Some (rs, s') \<and>
    map_spec (key_equal hp) (puts cs) (\<lambda>_. None, 0) cs = (rs, m, hm_size s') \<and>
    (\<forall>x. carrier x \<longrightarrow> m x = chain_lookup s' x)"
proof -
  let ?n = "length buckets"
  let ?s0 = "(hashmap_reset_state env s)\<lparr>hm_strategy := Chaining, hm_buckets := Some (replicate ?n 0), hm_bucket_count := ?n,
    hm_key_policy := kp, hm_value_policy := vp, hm_hash := hp, hm_policy := pol\<rparr>"
  have n: "0 < ?n" using assms(4) by simp
  have init: "init_chaining env s (Some buckets) ?n kp vp hp pol = Some (Ok, ?s0)"
    using assms(4) null_buckets_eq [of 0 ?n buckets] by (simp add: init_chaining_def)
  have s0: "hm_buckets ?s0 = Some (replicate ?n 0)" "hm_size ?s0 = 0" "hm_arena ?s0 = False" "hm_bucket_count ?s0 = ?n"
    "hm_hash ?s0 = hp" "hm_key_policy ?s0 = kp" "hm_value_policy ?s0 = vp" by (simp_all add: hashmap_reset_state_def)
  from hashing.chain_rel_empty [OF assms(1) s0(1) n s0(4,5,2)] s0(6,7) assms(2,3)
  have rel: "chain_rel carrier hp ?s0 (replicate ?n 0) (\<lambda>_. [])" and look: "\<And>x. carrier x \<Longrightarrow> None = chain_lookup ?s0 x" by simp_all
  have "chain_inv carrier hp env (0 + puts cs) (0 + removes cs) ?s0"
    using rel s0(2-4) assms(5-8) by (auto simp: chain_inv_def serves_def SIZE_MAX_def)
  moreover have "hm_size ?s0 + puts cs \<le> puts cs" using s0(2) by simp
  ultimately have "\<exists>rs s' m'. map_run (hash_put env) (hash_get d) (hash_remove env) hash_contains ?s0 cs = Some (rs, s') \<and>
    chain_inv carrier hp env 0 0 s' \<and> map_spec (key_equal hp) (puts cs) (\<lambda>_. None, hm_size ?s0) cs = (rs, m', hm_size s') \<and>
    (\<forall>x. carrier x \<longrightarrow> m' x = chain_lookup s' x)"
    by (rule growing_map.run_refines [OF hashing.chain_growing_map [OF assms(1)] _ assms(9) _ look])
  with init s0(2) show ?thesis by auto
qed

theorem hash_chain_is_map_witness:
  "\<exists>s0 rs s'. init_chaining sample_hm_env sample_hm (Some [99, 98]) 2 (typed_trivial_policy 1 1) (typed_trivial_policy 8 8)
      (bytes_hash_policy (\<lambda>k. [k])) hashmap_growable = Some (Ok, s0) \<and>
    map_run (hash_put sample_hm_env) (hash_get 0) (hash_remove sample_hm_env) hash_contains s0
      [Put 1 10, Put 5 50, Put 9 90, Put 5 55, Remove 1, Get 5, Remove 1, Contains 9] = Some (rs, s') \<and>
    rs = [(Ok, None), (Ok, None), (Ok, None), (Ok, None), (Ok, None), (Ok, Some 55), (Not_found, None), (Ok, None)] \<and>
    hm_size s' = 2"
proof -
  let ?hp = "bytes_hash_policy (\<lambda>k :: u8. [k])"
  let ?cs = "[Put 1 10, Put 5 50, Put 9 90, Put 5 55, Remove 1, Get 5, Remove 1, Contains 9] :: (u8, nat) map_cmd list"
  have h: "hashing (\<lambda>k. length [k] = 1) ?hp" by (rule bytes_hashing.hashing_axioms)
  have spec: "\<exists>m. map_spec (key_equal ?hp) (puts ?cs) (\<lambda>_. None, 0) ?cs =
    ([(Ok, None), (Ok, None), (Ok, None), (Ok, None), (Ok, None), (Ok, Some 55), (Not_found, None), (Ok, None)], m, 2)"
    by (simp add: map_upd_def sample_hash_eq)
  have "\<exists>s0 rs s' m. init_chaining sample_hm_env sample_hm (Some [99, 98]) (length [99, 98 :: nat])
      (typed_trivial_policy 1 1) (typed_trivial_policy 8 8) ?hp hashmap_growable = Some (Ok, s0) \<and>
    map_run (hash_put sample_hm_env) (hash_get 0) (hash_remove sample_hm_env) hash_contains s0 ?cs = Some (rs, s') \<and>
    map_spec (key_equal ?hp) (puts ?cs) (\<lambda>_. None, 0) ?cs = (rs, m, hm_size s') \<and> (\<forall>x. length [x] = 1 \<longrightarrow> m x = chain_lookup s' x)"
    by (rule hash_chain_is_map [OF h]) (simp_all add: sample_hm_env_def)
  moreover have "length [99, 98 :: nat] = 2" by simp
  ultimately show ?thesis using spec by (metis Pair_inject)
qed

text \<open>
  On a chaining map clear and foreach come to their ends. clear runs the destructors of all entries
  in bucket order, gives every node back to the heap and leaves an empty map; foreach visits exactly the
  entries, in the same order, until the visitor fails.
\<close>

theorem hash_chain_walks_end:
  assumes "hashing carrier hp" "chain_rel carrier hp s bs css" "hm_strategy s = Chaining"
  shows "(\<exists>s'. hashmap_clear env s = Some s' \<and> hm_size s' = 0 \<and> (\<forall>x. chain_lookup s' x = None) \<and>
      hm_destroyed s' = hm_destroyed s @ destroyed_pairs s (chain_entries s) \<and>
      (\<not> hm_arena s \<and> he_allow_heap env \<longrightarrow> (\<forall>i < length bs. \<forall>a \<in> set (css i). hm_nodes s' a = None))) \<and>
    hashmap_foreach visit s w = Some (visit_pairs visit (chain_entries s) w) \<and> length (chain_entries s) = hm_size s"
proof (intro conjI)
  from assms(2) have f: "chains carrier hp (hm_nodes s) bs css" "hm_buckets s = Some bs" "hm_bucket_count s = length bs"
    "hm_size s = (\<Sum>i < length bs. length (css i))" by (simp_all add: chain_rel_def)
  from hashing.chain_clear_ok [OF assms, of env] obtain s' where s': "hashmap_clear env s = Some s'" "hm_size s' = 0"
    "\<forall>x. chain_lookup s' x = None" "hm_destroyed s' = hm_destroyed s @ destroyed_pairs s (chain_entries s)"
    "hm_nodes s' = freed env s (\<Union>j < length bs. set (css j))" by blast
  have "hm_nodes s' a = None" if "\<not> hm_arena s" "he_allow_heap env" "i < length bs" "a \<in> set (css i)" for i a
    using s'(5) that by (auto simp: freed_def)
  with s'(1-4) show "\<exists>s'. hashmap_clear env s = Some s' \<and> hm_size s' = 0 \<and> (\<forall>x. chain_lookup s' x = None) \<and>
      hm_destroyed s' = hm_destroyed s @ destroyed_pairs s (chain_entries s) \<and>
      (\<not> hm_arena s \<and> he_allow_heap env \<longrightarrow> (\<forall>i < length bs. \<forall>a \<in> set (css i). hm_nodes s' a = None))" by blast
  note e = hashing.chain_entries_eq [OF assms(1,2)]
  show "hashmap_foreach visit s w = Some (visit_pairs visit (chain_entries s) w)"
    using chain_foreach_loop_eq [OF f(1,2) assms(3), of 0 "length bs" visit w] f(3) by (simp add: hashmap_foreach_def e)
  show "length (chain_entries s) = hm_size s"
    by (simp add: e f(4) length_concat o_def interv_sum_list_conv_sum_set_nat lessThan_atLeast0)
qed

text \<open>A map with two entries in one bucket.\<close>

definition sample_chain :: "(u8, nat) hashmap" where
  "sample_chain = sample_hm\<lparr>hm_hash := bytes_hash_policy (\<lambda>k. [k]), hm_bucket_count := 1, hm_buckets := Some [2], hm_allocs := 2,
     hm_size := 2, hm_nodes := (\<lambda>_. None)(1 \<mapsto> \<lparr>cn_next = 0, cn_key = 4, cn_value = 40\<rparr>, 2 \<mapsto> \<lparr>cn_next = 1, cn_key = 6, cn_value = 60\<rparr>)\<rparr>"

theorem hash_chain_walks_end_witness:
  "(\<exists>s'. hashmap_clear sample_hm_env sample_chain = Some s' \<and> hm_size s' = 0 \<and> hm_nodes s' 1 = None \<and> hm_nodes s' 2 = None) \<and>
   hashmap_foreach (\<lambda>k v w. (Ok, w @ [v])) sample_chain [] = Some (Ok, [60, 40])"
proof -
  let ?hp = "bytes_hash_policy (\<lambda>k :: u8. [k])"
  have h: "hashing (\<lambda>k. length [k] = 1) ?hp" by (rule bytes_hashing.hashing_axioms)
  have r: "chain_rel (\<lambda>k. length [k] = 1) ?hp sample_chain [2] (\<lambda>_. [2, 1])"
    by (simp add: chain_rel_def chains_def sample_chain_def sample_hm_def sample_hash_eq)
  have st: "hm_strategy sample_chain = Chaining" "\<not> hm_arena sample_chain" "he_allow_heap sample_hm_env"
    by (simp_all add: sample_chain_def sample_hm_def sample_hm_env_def)
  have "chain_entries sample_chain = [(6, 60), (4, 40)]"
    unfolding hashing.chain_entries_eq [OF h r] by (simp add: sample_chain_def)
  with hash_chain_walks_end [OF h r st(1), of sample_hm_env "\<lambda>k v w. (Ok, w @ [v])" "[]"] st(2,3) show ?thesis by auto
qed

end
