(* ===== verification/Mpsc.thy ===== *)
theory Mpsc
  imports Policy
begin

text \<open>
  \<^verbatim>\<open>include/memkit/detail/mpsc_queue_core.hpp\<close>: the queue of many producers and one consumer. First
  its operations as functions, as one thread sees them; then the threads as a step relation at the
  granularity of the atomic accesses.

  The core is instantiated with typed policies, so copies do not fail. Positions and sequence numbers
  are 64-bit words. A cell is its sequence number and its element.
\<close>

section \<open>Operations\<close>

record 'e mpsc_cell =
  mc_seq :: u64
  mc_data :: 'e

record 'e mpsc =
  mq_pol :: "'e elem_policy"
  mq_cells :: "'e mpsc_cell mem"
  mq_cap :: u64
  mq_mask :: u64
  mq_stride :: u64
  mq_enqueue :: u64
  mq_dequeue :: u64
  mq_destroyed :: "'e list"

definition cell_stride :: "'e elem_policy \<Rightarrow> u64" where
  "cell_stride pol = align_up (8 + of_nat (ep_size pol)) 8"

definition mpsc_storage_bytes :: "'e elem_policy \<Rightarrow> u64 \<Rightarrow> u64" where
  "mpsc_storage_bytes pol capacity_pow2 = cell_stride pol * capacity_pow2"

text \<open>The loop that numbers the cells.\<close>

fun number_cells :: "'e mpsc_cell mem \<Rightarrow> nat \<Rightarrow> nat \<Rightarrow> 'e mpsc_cell mem option" where
  "number_cells m i 0 = Some m"
| "number_cells m i (Suc n) = do {
     cell \<leftarrow> mem_rd m i;
     m' \<leftarrow> mem_wr m i (cell\<lparr>mc_seq := of_nat i\<rparr>);
     number_cells m' (Suc i) n
   }"

definition mpsc_init :: "'e mpsc \<Rightarrow> 'e elem_policy \<Rightarrow> 'e mpsc_cell mem \<Rightarrow> u64 \<Rightarrow> (status \<times> 'e mpsc) option" where
  "mpsc_init s pol cell_storage capacity_pow2 =
     (if cell_storage = None \<or> capacity_pow2 < 2 \<or> \<not> is_power_of_two capacity_pow2 then Some (Invalid, s)
      else do {
        m \<leftarrow> number_cells cell_storage 0 (unat capacity_pow2);
        Some (Ok, s\<lparr>mq_pol := pol, mq_cells := m, mq_cap := capacity_pow2, mq_mask := capacity_pow2 - 1,
                   mq_stride := cell_stride pol, mq_enqueue := 0, mq_dequeue := 0\<rparr>)
      })"

definition mpsc_reset_state :: "'e elem_policy \<Rightarrow> 'e mpsc \<Rightarrow> 'e mpsc" where
  "mpsc_reset_state default_policy s =
     s\<lparr>mq_pol := default_policy, mq_cells := None, mq_cap := 0, mq_mask := 0, mq_stride := 0, mq_enqueue := 0, mq_dequeue := 0\<rparr>"

definition mpsc_size :: "'e mpsc \<Rightarrow> u64" where
  "mpsc_size s = mq_enqueue s - mq_dequeue s"

definition mpsc_empty :: "'e mpsc \<Rightarrow> bool" where
  "mpsc_empty s \<longleftrightarrow> mpsc_size s = 0"

definition mpsc_full :: "'e mpsc \<Rightarrow> bool" where
  "mpsc_full s \<longleftrightarrow> mpsc_size s \<ge> mq_cap s"

definition mpsc_slot :: "'e mpsc \<Rightarrow> u64 \<Rightarrow> nat" where
  "mpsc_slot s pos = unat (pos AND mq_mask s)"

text \<open>The accesses to a cell: its sequence number, and its element.\<close>

definition cell_seq :: "'e mpsc \<Rightarrow> u64 \<Rightarrow> u64 option" where
  "cell_seq s pos = map_option mc_seq (mem_rd (mq_cells s) (mpsc_slot s pos))"

definition set_cell_seq :: "'e mpsc \<Rightarrow> u64 \<Rightarrow> u64 \<Rightarrow> 'e mpsc option" where
  "set_cell_seq s pos sequence = do {
     cell \<leftarrow> mem_rd (mq_cells s) (mpsc_slot s pos);
     m \<leftarrow> mem_wr (mq_cells s) (mpsc_slot s pos) (cell\<lparr>mc_seq := sequence\<rparr>);
     Some (s\<lparr>mq_cells := m\<rparr>)
   }"

definition mpsc_store :: "'e mpsc \<Rightarrow> u64 \<Rightarrow> 'e \<Rightarrow> 'e mpsc option" where
  "mpsc_store s pos e = do {
     cell \<leftarrow> mem_rd (mq_cells s) (mpsc_slot s pos);
     m \<leftarrow> mem_wr (mq_cells s) (mpsc_slot s pos) (cell\<lparr>mc_data := snd (copy_construct (mq_pol s) (mc_data cell) e)\<rparr>);
     Some (s\<lparr>mq_cells := m\<rparr>)
   }"

definition mpsc_take :: "'e mpsc \<Rightarrow> u64 \<Rightarrow> 'e option \<Rightarrow> bool \<Rightarrow> ('e option \<times> 'e mpsc) option" where
  "mpsc_take s pos out move_out = do {
     cell \<leftarrow> mem_rd (mq_cells s) (mpsc_slot s pos);
     let v = mc_data cell;
     (case out of
        None \<Rightarrow> Some (None, s\<lparr>mq_destroyed := destroy (mq_pol s) v (mq_destroyed s)\<rparr>)
      | Some dst \<Rightarrow>
          (if move_out then do {
             m \<leftarrow> mem_wr (mq_cells s) (mpsc_slot s pos) (cell\<lparr>mc_data := ep_moved (mq_pol s) v\<rparr>);
             Some (Some v, s\<lparr>mq_cells := m, mq_destroyed := destroy (mq_pol s) (ep_moved (mq_pol s) v) (mq_destroyed s)\<rparr>)
           }
           else Some (Some (snd (copy_construct (mq_pol s) dst v)),
                      s\<lparr>mq_destroyed := destroy (mq_pol s) v (mq_destroyed s)\<rparr>)))
   }"

text \<open>The spinning loops, with the rounds left; a thread that is alone always loads the same number.\<close>

fun push_spin :: "'e mpsc \<Rightarrow> u64 \<Rightarrow> 'e \<Rightarrow> nat \<Rightarrow> (status \<times> 'e mpsc) option" where
  "push_spin s pos e 0 = Some (Full, s)"
| "push_spin s pos e (Suc n) = do {
     sequence \<leftarrow> cell_seq s pos;
     if sequence = pos then do {
       s1 \<leftarrow> mpsc_store s pos e;
       s2 \<leftarrow> set_cell_seq s1 pos (pos + 1);
       Some (Ok, s2)
     }
     else push_spin s pos e n
   }"

definition mpsc_push :: "'e mpsc \<Rightarrow> 'e option \<Rightarrow> nat \<Rightarrow> (status \<times> 'e mpsc) option" where
  "mpsc_push s elem max_spins =
     (case elem of
        None \<Rightarrow> Some (Null_ptr, s)
      | Some e \<Rightarrow> let pos = mq_enqueue s in push_spin (s\<lparr>mq_enqueue := pos + 1\<rparr>) pos e max_spins)"

fun pop_spin :: "'e mpsc \<Rightarrow> u64 \<Rightarrow> 'e option \<Rightarrow> bool \<Rightarrow> nat \<Rightarrow> (status \<times> 'e option \<times> 'e mpsc) option" where
  "pop_spin s pos out move_out 0 = Some (Full, out, s)"
| "pop_spin s pos out move_out (Suc n) = do {
     sequence \<leftarrow> cell_seq s pos;
     if sequence = pos + 1 then do {
       (out', s1) \<leftarrow> mpsc_take s pos out move_out;
       s2 \<leftarrow> set_cell_seq s1 pos (pos + mq_cap s);
       Some (Ok, out', s2\<lparr>mq_dequeue := pos + 1\<rparr>)
     }
     else if sequence = pos \<and> mq_enqueue s = pos then Some (Empty, out, s)
     else pop_spin s pos out move_out n
   }"

definition mpsc_pop :: "'e mpsc \<Rightarrow> 'e option \<Rightarrow> bool \<Rightarrow> nat \<Rightarrow> (status \<times> 'e option \<times> 'e mpsc) option" where
  "mpsc_pop s out move_out max_spins = pop_spin s (mq_dequeue s) out move_out max_spins"

partial_function (option) mpsc_clear :: "'e mpsc \<Rightarrow> 'e mpsc option" where
  "mpsc_clear s = do {
     (st, _, s') \<leftarrow> mpsc_pop s None True 1024;
     if st = Ok then mpsc_clear s' else Some s'
   }"

section \<open>The threads\<close>

text \<open>
  A producer is before its call, has claimed a position, has loaded the sequence number it waits for,
  or has stored its element. The consumer is before its call, has loaded the sequence number it waits
  for, has taken the element, or has stored the cell's next sequence number.

  Loads that return another number than the awaited one, stale ones included, only spin; they change
  nothing and are not steps. A load of the awaited number is a load of the newest one, since only the
  waiting thread could replace it. A producer that has spun \<open>max_spins\<close> times gives up: its position
  stays claimed. \<open>mt_claimed\<close> is the sequence of the elements in the order their positions were claimed,
  \<open>mt_lost\<close> the positions given up.
\<close>

datatype 'e mpsc_producer = Q_idle | Q_claimed 'e u64 | Q_seen 'e u64 | Q_stored 'e u64

datatype 'e mpsc_consumer = D_idle | D_seen u64 | D_taken u64 'e | D_released u64

record 'e mpsc_threads =
  mt_q :: "'e mpsc"
  mt_p :: "'e mpsc_producer list"
  mt_c :: "'e mpsc_consumer"
  mt_claimed :: "'e list"
  mt_lost :: "nat list"
  mt_popped :: "'e list"

text \<open>The number of the position \<open>w\<close> claimed last before the current one: its index in \<open>mt_claimed\<close>.\<close>

definition claim_index :: "'e mpsc_threads \<Rightarrow> u64 \<Rightarrow> nat" where
  "claim_index c w = length (mt_claimed c) - unat (mq_enqueue (mt_q c) - w)"

inductive mpsc_step :: "'e mpsc_threads \<Rightarrow> 'e mpsc_threads \<Rightarrow> bool" where
  mpsc_claim: "t < length (mt_p c) \<Longrightarrow> mt_p c ! t = Q_idle \<Longrightarrow> q = mt_q c \<Longrightarrow>
    mpsc_step c (c\<lparr>mt_q := q\<lparr>mq_enqueue := mq_enqueue q + 1\<rparr>, mt_p := (mt_p c)[t := Q_claimed e (mq_enqueue q)],
      mt_claimed := mt_claimed c @ [e]\<rparr>)"
| mpsc_see: "t < length (mt_p c) \<Longrightarrow> mt_p c ! t = Q_claimed e w \<Longrightarrow> cell_seq (mt_q c) w = Some w \<Longrightarrow>
    mpsc_step c (c\<lparr>mt_p := (mt_p c)[t := Q_seen e w]\<rparr>)"
| mpsc_give_up: "t < length (mt_p c) \<Longrightarrow> mt_p c ! t = Q_claimed e w \<Longrightarrow>
    mpsc_step c (c\<lparr>mt_p := (mt_p c)[t := Q_idle], mt_lost := claim_index c w # mt_lost c\<rparr>)"
| mpsc_write: "t < length (mt_p c) \<Longrightarrow> mt_p c ! t = Q_seen e w \<Longrightarrow> mpsc_store (mt_q c) w e = Some q \<Longrightarrow>
    mpsc_step c (c\<lparr>mt_q := q, mt_p := (mt_p c)[t := Q_stored e w]\<rparr>)"
| mpsc_publish: "t < length (mt_p c) \<Longrightarrow> mt_p c ! t = Q_stored e w \<Longrightarrow> set_cell_seq (mt_q c) w (w + 1) = Some q \<Longrightarrow>
    mpsc_step c (c\<lparr>mt_q := q, mt_p := (mt_p c)[t := Q_idle]\<rparr>)"
| mpsc_look: "mt_c c = D_idle \<Longrightarrow> w = mq_dequeue (mt_q c) \<Longrightarrow> cell_seq (mt_q c) w = Some (w + 1) \<Longrightarrow>
    mpsc_step c (c\<lparr>mt_c := D_seen w\<rparr>)"
| mpsc_read: "mt_c c = D_seen w \<Longrightarrow> mpsc_take (mt_q c) w (Some d) True = Some (Some v, q) \<Longrightarrow>
    mpsc_step c (c\<lparr>mt_q := q, mt_c := D_taken w v\<rparr>)"
| mpsc_release: "mt_c c = D_taken w v \<Longrightarrow> set_cell_seq (mt_q c) w (w + mq_cap (mt_q c)) = Some q \<Longrightarrow>
    mpsc_step c (c\<lparr>mt_q := q, mt_c := D_released w, mt_popped := mt_popped c @ [v]\<rparr>)"
| mpsc_advance: "mt_c c = D_released w \<Longrightarrow>
    mpsc_step c (c\<lparr>mt_q := (mt_q c)\<lparr>mq_dequeue := w + 1\<rparr>, mt_c := D_idle\<rparr>)"

definition mpsc_start :: "'e mpsc \<Rightarrow> nat \<Rightarrow> 'e mpsc_threads" where
  "mpsc_start q producers = \<lparr>mt_q = q, mt_p = replicate producers Q_idle, mt_c = D_idle, mt_claimed = [], mt_lost = [], mt_popped = []\<rparr>"

text \<open>The cell whose element a thread accesses in its next step, and when two accesses conflict.\<close>

definition mpsc_writes :: "'e mpsc_threads \<Rightarrow> nat \<Rightarrow> nat option" where
  "mpsc_writes c t = (case mt_p c ! t of Q_seen e w \<Rightarrow> Some (mpsc_slot (mt_q c) w) | _ \<Rightarrow> None)"

definition mpsc_reads :: "'e mpsc_threads \<Rightarrow> nat option" where
  "mpsc_reads c = (case mt_c c of D_seen w \<Rightarrow> Some (mpsc_slot (mt_q c) w) | _ \<Rightarrow> None)"

definition mpsc_race :: "'e mpsc_threads \<Rightarrow> bool" where
  "mpsc_race c \<longleftrightarrow> (\<exists>t < length (mt_p c). mpsc_writes c t \<noteq> None \<and>
     (mpsc_writes c t = mpsc_reads c \<or> (\<exists>t' < length (mt_p c). t' \<noteq> t \<and> mpsc_writes c t' = mpsc_writes c t)))"

text \<open>
  Runs in which the producers are never \<open>2\<^sup>6\<^sup>3\<close> positions ahead of the consumer: without losses that
  would take as many threads.
\<close>

definition mpsc_near :: "'e mpsc_threads \<Rightarrow> bool" where
  "mpsc_near c \<longleftrightarrow> length (mt_claimed c) - length (mt_popped c) < 2 ^ 63"

definition mpsc_next :: "'e mpsc_threads \<Rightarrow> 'e mpsc_threads \<Rightarrow> bool" where
  "mpsc_next c c' \<longleftrightarrow> mpsc_step c c' \<and> mpsc_near c'"

end
