(* ===== verification/Mpsc_Correct.thy ===== *)
theory Mpsc_Correct
  imports Mpsc Spsc_Correct
begin

text \<open>
  In every interleaving of any number of producers with the consumer the queue is free of races and
  delivers the elements in the order in which their positions were claimed. A position that a producer
  gave up is never passed.
\<close>

section \<open>Positions\<close>

lemma word_of_nat_near:
  assumes "(word_of_nat a :: u64) = word_of_nat b" "a \<le> b" "b - a < 2 ^ 64"
  shows "a = b"
proof -
  have "a mod 2 ^ 64 = b mod 2 ^ 64" using assms(1) by (simp add: word_of_nat_eq_iff take_bit_eq_mod)
  then have "(a + 0) mod 2 ^ 64 = (a + (b - a)) mod 2 ^ 64" using assms(2) by simp
  then have "0 = b - a" by (rule mod_add_inj [rotated 2]) (use assms(3) in simp_all)
  with assms(2) show ?thesis by simp
qed

lemma mpsc_slot_of_nat: "mq_mask s = mask k \<Longrightarrow> k < 64 \<Longrightarrow> mpsc_slot s (word_of_nat p) = p mod 2 ^ k"
  using counter_slot [of k p] by (simp add: mpsc_slot_def)

section \<open>The invariant\<close>

text \<open>
  \<open>pub\<close> are the positions whose sequence number says that the element is there, \<open>pos t\<close> is the position
  thread \<open>t\<close> holds. The cells hold the positions from the consumer's \<open>d\<close> on, one lap.
\<close>

definition held :: "'e mpsc_producer \<Rightarrow> ('e \<times> u64) option" where
  "held p = (case p of Q_idle \<Rightarrow> None | Q_claimed e w \<Rightarrow> Some (e, w) | Q_seen e w \<Rightarrow> Some (e, w) | Q_stored e w \<Rightarrow> Some (e, w))"

definition mpsc_queue_ok :: "'e mpsc \<Rightarrow> 'e mpsc_cell list \<Rightarrow> nat \<Rightarrow> bool" where
  "mpsc_queue_ok q xs k \<longleftrightarrow> mq_cells q = Some xs \<and> 1 \<le> k \<and> k < 64 \<and> mq_cap q = 2 ^ k \<and> mq_mask q = mask k \<and>
     2 ^ k \<le> length xs \<and> \<not> ep_runtime (mq_pol q)"

text \<open>The cells: sequence numbers, and the elements that are there and not yet taken.\<close>

definition cells_ok :: "'e mpsc_cell list \<Rightarrow> nat \<Rightarrow> nat \<Rightarrow> nat set \<Rightarrow> 'e list \<Rightarrow> 'e mpsc_consumer \<Rightarrow> bool" where
  "cells_ok xs k d pub claimed cons \<longleftrightarrow>
     (\<forall>p. d \<le> p \<longrightarrow> p < d + 2 ^ k \<longrightarrow> mc_seq (xs ! (p mod 2 ^ k)) = word_of_nat (if p \<in> pub then Suc p else p)) \<and>
     (\<forall>p \<in> pub. d \<le> p \<longrightarrow> (p = d \<longrightarrow> (\<forall>w v. cons \<noteq> D_taken w v)) \<longrightarrow> mc_data (xs ! (p mod 2 ^ k)) = claimed ! p)"

definition producers_ok ::
  "'e mpsc_cell list \<Rightarrow> nat \<Rightarrow> nat \<Rightarrow> nat set \<Rightarrow> 'e list \<Rightarrow> nat list \<Rightarrow> 'e mpsc_producer list \<Rightarrow> (nat \<Rightarrow> nat) \<Rightarrow> bool" where
  "producers_ok xs k d pub claimed lost ps pos \<longleftrightarrow>
     (\<forall>t < length ps. \<forall>e w. held (ps ! t) = Some (e, w) \<longrightarrow> w = word_of_nat (pos t) \<and> pos t < length claimed \<and>
        claimed ! pos t = e \<and> pos t \<notin> pub \<and> pos t \<notin> set lost \<and>
        (\<forall>t' < length ps. t' \<noteq> t \<longrightarrow> held (ps ! t') \<noteq> None \<longrightarrow> pos t' \<noteq> pos t) \<and>
        ((\<exists>e w. ps ! t = Q_seen e w \<or> ps ! t = Q_stored e w) \<longrightarrow> pos t < d + 2 ^ k) \<and>
        ((\<exists>e w. ps ! t = Q_stored e w) \<longrightarrow> mc_data (xs ! (pos t mod 2 ^ k)) = e))"

definition consumer_ok :: "nat \<Rightarrow> nat set \<Rightarrow> 'e list \<Rightarrow> u64 \<Rightarrow> 'e mpsc_consumer \<Rightarrow> bool" where
  "consumer_ok d pub claimed dq cons \<longleftrightarrow>
     (case cons of
        D_idle \<Rightarrow> dq = word_of_nat d
      | D_seen w \<Rightarrow> dq = word_of_nat d \<and> w = word_of_nat d \<and> d \<in> pub
      | D_taken w v \<Rightarrow> dq = word_of_nat d \<and> w = word_of_nat d \<and> d \<in> pub \<and> v = claimed ! d
      | D_released w \<Rightarrow> w + 1 = word_of_nat d)"

definition mpsc_inv :: "'e mpsc_threads \<Rightarrow> nat set \<Rightarrow> (nat \<Rightarrow> nat) \<Rightarrow> 'e mpsc_cell list \<Rightarrow> nat \<Rightarrow> bool" where
  "mpsc_inv c pub pos xs k \<longleftrightarrow> (let d = length (mt_popped c); n = length (mt_claimed c) in
     mpsc_queue_ok (mt_q c) xs k \<and> mq_enqueue (mt_q c) = word_of_nat n \<and>
     {..<d} \<subseteq> pub \<and> (\<forall>p \<in> pub. p < n \<and> p < d + 2 ^ k) \<and> set (mt_lost c) \<subseteq> {..<n} - pub \<and>
     mt_popped c = take d (mt_claimed c) \<and>
     cells_ok xs k d pub (mt_claimed c) (mt_c c) \<and> producers_ok xs k d pub (mt_claimed c) (mt_lost c) (mt_p c) pos \<and>
     consumer_ok d pub (mt_claimed c) (mq_dequeue (mt_q c)) (mt_c c))"

lemma mpsc_queue_okD:
  assumes "mpsc_queue_ok q xs k"
  shows "cell_seq q (word_of_nat p) = Some (mc_seq (xs ! (p mod 2 ^ k)))" "p mod 2 ^ k < length xs"
    "mpsc_slot q (word_of_nat p) = p mod 2 ^ k"
    "set_cell_seq q (word_of_nat p) s = Some (q\<lparr>mq_cells := Some (xs[p mod 2 ^ k := (xs ! (p mod 2 ^ k))\<lparr>mc_seq := s\<rparr>])\<rparr>)"
    "mpsc_store q (word_of_nat p) e = Some (q\<lparr>mq_cells := Some (xs[p mod 2 ^ k := (xs ! (p mod 2 ^ k))\<lparr>mc_data := e\<rparr>])\<rparr>)"
proof -
  have lt: "p mod 2 ^ k < length xs" using assms by (intro mod_less_le) (simp_all add: mpsc_queue_ok_def)
  then show "p mod 2 ^ k < length xs" .
  have slot: "mpsc_slot q (word_of_nat p) = p mod 2 ^ k" using assms by (intro mpsc_slot_of_nat) (simp_all add: mpsc_queue_ok_def)
  then show "mpsc_slot q (word_of_nat p) = p mod 2 ^ k" .
  from assms have x: "mq_cells q = Some xs" "faithful (mq_pol q)" by (simp_all add: mpsc_queue_ok_def faithful_typed)
  show "cell_seq q (word_of_nat p) = Some (mc_seq (xs ! (p mod 2 ^ k)))"
    "set_cell_seq q (word_of_nat p) s = Some (q\<lparr>mq_cells := Some (xs[p mod 2 ^ k := (xs ! (p mod 2 ^ k))\<lparr>mc_seq := s\<rparr>])\<rparr>)"
    "mpsc_store q (word_of_nat p) e = Some (q\<lparr>mq_cells := Some (xs[p mod 2 ^ k := (xs ! (p mod 2 ^ k))\<lparr>mc_data := e\<rparr>])\<rparr>)"
    using x lt slot by (simp_all add: cell_seq_def set_cell_seq_def mpsc_store_def)
qed

lemma mpsc_queue_ok_update:
  "mpsc_queue_ok q xs k \<Longrightarrow> length ys = length xs \<Longrightarrow> mpsc_queue_ok (q\<lparr>mq_cells := Some ys\<rparr>) ys k"
  by (simp add: mpsc_queue_ok_def)

text \<open>The position of the current lap in the cell of \<open>p\<close>.\<close>

lemma current_lap:
  assumes "d \<le> p" "(0 :: nat) < c"
  obtains p' where "d \<le> p'" "p' < d + c" "p' mod c = p mod c" "p' = p \<or> p' + c \<le> p"
proof
  let ?p = "d + (p - d) mod c"
  show "d \<le> ?p" by simp
  show "?p < d + c" using assms(2) by simp
  have "?p mod c = (d + (p - d)) mod c" by (rule mod_add_right_eq)
  then show "?p mod c = p mod c" using assms(1) by simp
  show "?p = p \<or> ?p + c \<le> p"
  proof (cases "p - d < c")
    case True
    then show ?thesis using assms(1) by simp
  next
    case False
    have "(p - d) mod c + c \<le> p - d"
      using False by (metis add.commute add_le_cancel_left div_mult_mod_eq le_add2 mult.commute mult_le_mono2 mod_if nat_mult_1_right not_less One_nat_def Suc_leI div_greater_zero_iff assms(2))
    then show ?thesis using assms(1) by linarith
  qed
qed

lemma window_apart: "d \<le> p \<Longrightarrow> p < d + c \<Longrightarrow> d \<le> q \<Longrightarrow> q < d + c \<Longrightarrow> p \<noteq> q \<Longrightarrow> p mod c \<noteq> q mod (c :: nat)"
proof
  assume a: "d \<le> p" "p < d + c" "d \<le> q" "q < d + c" "p \<noteq> q" "p mod c = q mod c"
  then have "(d + (p - d)) mod c = (d + (q - d)) mod c" by simp
  then have "p - d = q - d" by (rule mod_add_inj [rotated 2]) (use a in linarith)+
  with a show False by simp
qed

lemma cells_okD:
  assumes "cells_ok xs k d pub claimed cons"
  shows "d \<le> p \<Longrightarrow> p < d + 2 ^ k \<Longrightarrow> mc_seq (xs ! (p mod 2 ^ k)) = word_of_nat (if p \<in> pub then Suc p else p)"
    "p \<in> pub \<Longrightarrow> d \<le> p \<Longrightarrow> (p = d \<Longrightarrow> \<forall>w v. cons \<noteq> D_taken w v) \<Longrightarrow> mc_data (xs ! (p mod 2 ^ k)) = claimed ! p"
  using assms unfolding cells_ok_def by blast+

lemma producers_okD:
  assumes "producers_ok xs k d pub claimed lost ps pos" "t < length ps" "held (ps ! t) = Some (e, w)"
  shows "w = word_of_nat (pos t)" "pos t < length claimed" "claimed ! pos t = e" "pos t \<notin> pub" "pos t \<notin> set lost"
    "t' < length ps \<Longrightarrow> t' \<noteq> t \<Longrightarrow> held (ps ! t') \<noteq> None \<Longrightarrow> pos t' \<noteq> pos t"
    "ps ! t = Q_seen e' w' \<Longrightarrow> pos t < d + 2 ^ k" "ps ! t = Q_stored e' w' \<Longrightarrow> pos t < d + 2 ^ k"
    "ps ! t = Q_stored e' w' \<Longrightarrow> mc_data (xs ! (pos t mod 2 ^ k)) = e"
  using assms unfolding producers_ok_def by blast+

lemma held_simps [simp]:
  "held Q_idle = None" "held (Q_claimed e w) = Some (e, w)" "held (Q_seen e w) = Some (e, w)" "held (Q_stored e w) = Some (e, w)"
  by (simp_all add: held_def)

text \<open>One thread changes, the cells and the other threads keep what they rely on.\<close>

lemma producers_ok_update:
  assumes p: "producers_ok xs k d pub claimed lost ps pos" and t: "t < length ps"
    and others: "\<And>t' e w. t' < length ps \<Longrightarrow> t' \<noteq> t \<Longrightarrow> held (ps ! t') = Some (e, w) \<Longrightarrow>
      pos' t' = pos t' \<and> pos t' < length claimed' \<and> claimed' ! pos t' = claimed ! pos t' \<and> pos t' \<notin> pub' \<and> pos t' \<notin> set lost' \<and>
      (held s \<noteq> None \<longrightarrow> pos' t \<noteq> pos t') \<and>
      (ps ! t' = Q_stored e w \<longrightarrow> mc_data (ys ! (pos t' mod 2 ^ k)) = mc_data (xs ! (pos t' mod 2 ^ k)))"
    and own: "\<And>e w. held s = Some (e, w) \<Longrightarrow> w = word_of_nat (pos' t) \<and> pos' t < length claimed' \<and> claimed' ! pos' t = e \<and>
      pos' t \<notin> pub' \<and> pos' t \<notin> set lost' \<and> ((\<exists>e w. s = Q_seen e w \<or> s = Q_stored e w) \<longrightarrow> pos' t < d' + 2 ^ k) \<and>
      ((\<exists>e w. s = Q_stored e w) \<longrightarrow> mc_data (ys ! (pos' t mod 2 ^ k)) = e)"
    and d: "d \<le> d'"
  shows "producers_ok ys k d' pub' claimed' lost' (ps[t := s]) pos'"
  unfolding producers_ok_def length_list_update
proof (intro allI impI)
  fix t' e w
  assume t': "t' < length ps" "held (ps[t := s] ! t') = Some (e, w)"
  show "w = word_of_nat (pos' t') \<and> pos' t' < length claimed' \<and> claimed' ! pos' t' = e \<and> pos' t' \<notin> pub' \<and> pos' t' \<notin> set lost' \<and>
        (\<forall>t'' < length ps. t'' \<noteq> t' \<longrightarrow> held (ps[t := s] ! t'') \<noteq> None \<longrightarrow> pos' t'' \<noteq> pos' t') \<and>
        ((\<exists>e w. ps[t := s] ! t' = Q_seen e w \<or> ps[t := s] ! t' = Q_stored e w) \<longrightarrow> pos' t' < d' + 2 ^ k) \<and>
        ((\<exists>e w. ps[t := s] ! t' = Q_stored e w) \<longrightarrow> mc_data (ys ! (pos' t' mod 2 ^ k)) = e)"
  proof (cases "t' = t")
    case True
    with t' t have h: "held s = Some (e, w)" by simp
    have "\<forall>t'' < length ps. t'' \<noteq> t \<longrightarrow> held (ps[t := s] ! t'') \<noteq> None \<longrightarrow> pos' t'' \<noteq> pos' t"
    proof (intro allI impI)
      fix t''
      assume u: "t'' < length ps" "t'' \<noteq> t" "held (ps[t := s] ! t'') \<noteq> None"
      then obtain e' w' where "held (ps ! t'') = Some (e', w')" by auto
      from others [OF u(1,2) this] h show "pos' t'' \<noteq> pos' t" by auto
    qed
    with own [OF h] True t show ?thesis by simp
  next
    case False
    with t' have h: "held (ps ! t') = Some (e, w)" by simp
    note o = others [OF t'(1) False h]
    have "pos' t'' \<noteq> pos' t'" if u: "t'' < length ps" "t'' \<noteq> t'" "held (ps[t := s] ! t'') \<noteq> None" for t''
    proof (cases "t'' = t")
      case True
      with u t o show ?thesis by simp
    next
      case ne: False
      with u have h'': "held (ps ! t'') \<noteq> None" by simp
      then obtain e' w' where "held (ps ! t'') = Some (e', w')" by auto
      from others [OF u(1) ne this] producers_okD(6) [OF p t'(1) h u(1,2) h''] o show ?thesis by simp
    qed
    moreover have "pos t' < d' + 2 ^ k" if "ps ! t' = Q_seen e' w' \<or> ps ! t' = Q_stored e' w'" for e' w'
      using producers_okD(7,8) [OF p t'(1) h] that d by fastforce
    moreover have "mc_data (ys ! (pos t' mod 2 ^ k)) = e" if st: "ps ! t' = Q_stored e' w'" for e' w'
      using producers_okD(9) [OF p t'(1) h st] o h st by simp
    ultimately show ?thesis using False o producers_okD(1-3) [OF p t'(1) h] by auto
  qed
qed

lemma mpsc_invD:
  assumes "mpsc_inv c pub pos xs k"
  shows "mpsc_queue_ok (mt_q c) xs k" "mq_enqueue (mt_q c) = word_of_nat (length (mt_claimed c))" "{..<length (mt_popped c)} \<subseteq> pub"
    "p \<in> pub \<Longrightarrow> p < length (mt_claimed c) \<and> p < length (mt_popped c) + 2 ^ k"
    "set (mt_lost c) \<subseteq> {..<length (mt_claimed c)} - pub" "mt_popped c = take (length (mt_popped c)) (mt_claimed c)"
    "cells_ok xs k (length (mt_popped c)) pub (mt_claimed c) (mt_c c)"
    "producers_ok xs k (length (mt_popped c)) pub (mt_claimed c) (mt_lost c) (mt_p c) pos"
    "consumer_ok (length (mt_popped c)) pub (mt_claimed c) (mq_dequeue (mt_q c)) (mt_c c)"
    "length (mt_popped c) \<le> length (mt_claimed c)"
proof -
  from assms show "mpsc_queue_ok (mt_q c) xs k" "mq_enqueue (mt_q c) = word_of_nat (length (mt_claimed c))"
    "{..<length (mt_popped c)} \<subseteq> pub" "p \<in> pub \<Longrightarrow> p < length (mt_claimed c) \<and> p < length (mt_popped c) + 2 ^ k"
    "set (mt_lost c) \<subseteq> {..<length (mt_claimed c)} - pub"
    "cells_ok xs k (length (mt_popped c)) pub (mt_claimed c) (mt_c c)"
    "producers_ok xs k (length (mt_popped c)) pub (mt_claimed c) (mt_lost c) (mt_p c) pos"
    "consumer_ok (length (mt_popped c)) pub (mt_claimed c) (mq_dequeue (mt_q c)) (mt_c c)"
    by (simp_all add: mpsc_inv_def Let_def)
  from assms show eq: "mt_popped c = take (length (mt_popped c)) (mt_claimed c)" unfolding mpsc_inv_def Let_def by blast
  have "length (mt_popped c) = min (length (mt_claimed c)) (length (mt_popped c))" using arg_cong [OF eq, of length] by simp
  then show "length (mt_popped c) \<le> length (mt_claimed c)" by linarith
qed

lemma inv_claim:
  assumes inv: "mpsc_inv c pub pos xs k" and t: "t < length (mt_p c)" "mt_p c ! t = Q_idle"
  shows "mpsc_inv (c\<lparr>mt_q := (mt_q c)\<lparr>mq_enqueue := mq_enqueue (mt_q c) + 1\<rparr>,
      mt_p := (mt_p c)[t := Q_claimed e (mq_enqueue (mt_q c))], mt_claimed := mt_claimed c @ [e]\<rparr>) pub
      (pos(t := length (mt_claimed c))) xs k"
proof -
  let ?n = "length (mt_claimed c)" and ?d = "length (mt_popped c)"
  note i = mpsc_invD [OF inv]
  have "?n \<notin> pub" using i(4) by blast
  moreover have "?n \<notin> set (mt_lost c)" using i(5) by auto
  ultimately have "producers_ok xs k ?d pub (mt_claimed c @ [e]) (mt_lost c) ((mt_p c)[t := Q_claimed e (mq_enqueue (mt_q c))])
      (pos(t := ?n))"
  proof (intro producers_ok_update [OF i(8) t(1)])
    fix t' e' w'
    assume h: "t' < length (mt_p c)" "t' \<noteq> t" "held (mt_p c ! t') = Some (e', w')"
    note o = producers_okD(1-5) [OF i(8) h(1,3)]
    then show "(pos(t := ?n)) t' = pos t' \<and> pos t' < length (mt_claimed c @ [e]) \<and> (mt_claimed c @ [e]) ! pos t' = mt_claimed c ! pos t' \<and>
        pos t' \<notin> pub \<and> pos t' \<notin> set (mt_lost c) \<and>
        (held (Q_claimed e (mq_enqueue (mt_q c))) \<noteq> None \<longrightarrow> (pos(t := ?n)) t \<noteq> pos t') \<and>
        (mt_p c ! t' = Q_stored e' w' \<longrightarrow> mc_data (xs ! (pos t' mod 2 ^ k)) = mc_data (xs ! (pos t' mod 2 ^ k)))"
      using h(2) by (simp add: nth_append)
  qed (use i(2) in simp_all)
  moreover have "cells_ok xs k ?d pub (mt_claimed c @ [e]) (mt_c c)"
    using i(4,7) by (simp add: cells_ok_def nth_append)
  moreover have "consumer_ok ?d pub (mt_claimed c @ [e]) (mq_dequeue (mt_q c)) (mt_c c)"
    using i(4,9) by (auto simp: consumer_ok_def nth_append split: mpsc_consumer.splits)
  moreover have "mpsc_queue_ok ((mt_q c)\<lparr>mq_enqueue := mq_enqueue (mt_q c) + 1\<rparr>) xs k" using i(1) by (simp add: mpsc_queue_ok_def)
  moreover have "mt_popped c = take ?d (mt_claimed c @ [e])" using i(6,10) by simp
  moreover have "set (mt_lost c) \<subseteq> {..<Suc ?n} - pub" using i(5) by auto
  ultimately show ?thesis unfolding mpsc_inv_def Let_def using i(2-4) by (simp add: less_SucI add.commute)
qed

text \<open>Positions that are held are not behind the consumer.\<close>

lemma held_position:
  assumes inv: "mpsc_inv c pub pos xs k" and near: "mpsc_near c" and t: "t < length (mt_p c)" "held (mt_p c ! t) = Some (e, w)"
  shows "length (mt_popped c) \<le> pos t" "pos t - length (mt_popped c) < 2 ^ 63" "w = word_of_nat (pos t)" "pos t < length (mt_claimed c)"
    "claim_index c w = pos t"
proof -
  note i = mpsc_invD [OF inv]
  note o = producers_okD [OF i(8) t]
  have "\<not> pos t < length (mt_popped c)" using i(3) o(4) by auto
  then show le: "length (mt_popped c) \<le> pos t" by simp
  show "w = word_of_nat (pos t)" "pos t < length (mt_claimed c)" by (rule o)+
  with near show "pos t - length (mt_popped c) < 2 ^ 63" by (simp add: mpsc_near_def)
  have "mq_enqueue (mt_q c) - w = word_of_nat (length (mt_claimed c) - pos t)"
    using i(2) o(1,2) by (simp add: of_nat_diff)
  moreover have "length (mt_claimed c) - pos t < 2 ^ 64" using near le o(2) by (simp add: mpsc_near_def)
  ultimately have "unat (mq_enqueue (mt_q c) - w) = length (mt_claimed c) - pos t"
    by (simp add: unsigned_of_nat take_bit_nat_eq_self)
  then show "claim_index c w = pos t" using o(2) by (simp add: claim_index_def)
qed

lemma inv_give_up:
  assumes inv: "mpsc_inv c pub pos xs k" and near: "mpsc_near c" and t: "t < length (mt_p c)" "mt_p c ! t = Q_claimed e w"
  shows "mpsc_inv (c\<lparr>mt_p := (mt_p c)[t := Q_idle], mt_lost := claim_index c w # mt_lost c\<rparr>) pub pos xs k"
proof -
  note i = mpsc_invD [OF inv]
  have h: "held (mt_p c ! t) = Some (e, w)" using t(2) by simp
  note own = held_position [OF inv near t(1) h]
  have "producers_ok xs k (length (mt_popped c)) pub (mt_claimed c) (pos t # mt_lost c) ((mt_p c)[t := Q_idle]) pos"
  proof (intro producers_ok_update [OF i(8) t(1)])
    fix t' e' w'
    assume h': "t' < length (mt_p c)" "t' \<noteq> t" "held (mt_p c ! t') = Some (e', w')"
    note o = producers_okD(1-5) [OF i(8) h'(1,3)]
    have "pos t' \<noteq> pos t" by (rule producers_okD(6) [OF i(8) t(1) h h'(1,2)]) (use h'(3) in simp)
    with o show "pos t' = pos t' \<and> pos t' < length (mt_claimed c) \<and> mt_claimed c ! pos t' = mt_claimed c ! pos t' \<and>
        pos t' \<notin> pub \<and> pos t' \<notin> set (pos t # mt_lost c) \<and> (held Q_idle \<noteq> None \<longrightarrow> pos t \<noteq> pos t') \<and>
        (mt_p c ! t' = Q_stored e' w' \<longrightarrow> mc_data (xs ! (pos t' mod 2 ^ k)) = mc_data (xs ! (pos t' mod 2 ^ k)))" by simp
  qed simp_all
  moreover have "pos t \<notin> pub" by (rule producers_okD(4) [OF i(8) t(1) h])
  ultimately show ?thesis unfolding mpsc_inv_def Let_def using i own(4,5) by auto
qed

lemma inv_see:
  assumes inv: "mpsc_inv c pub pos xs k" and near: "mpsc_near c" and t: "t < length (mt_p c)" "mt_p c ! t = Q_claimed e w"
    and seq: "cell_seq (mt_q c) w = Some w"
  shows "mpsc_inv (c\<lparr>mt_p := (mt_p c)[t := Q_seen e w]\<rparr>) pub pos xs k"
proof -
  let ?d = "length (mt_popped c)"
  note i = mpsc_invD [OF inv]
  have h: "held (mt_p c ! t) = Some (e, w)" using t(2) by simp
  note own = held_position [OF inv near t(1) h]
  have C: "2 \<le> (2 :: nat) ^ k" "(2 :: nat) ^ k \<le> 2 ^ 63"
    using i(1) power_increasing [of 1 k "2 :: nat"] power_increasing [of k 63 "2 :: nat"] by (simp_all add: mpsc_queue_ok_def)
  have "pos t < ?d + 2 ^ k"
  proof -
    obtain p' where p': "?d \<le> p'" "p' < ?d + 2 ^ k" "p' mod 2 ^ k = pos t mod 2 ^ k" "p' = pos t \<or> p' + 2 ^ k \<le> pos t"
      by (rule current_lap [OF own(1), of "2 ^ k"]) simp
    have "mc_seq (xs ! (pos t mod 2 ^ k)) = word_of_nat (if p' \<in> pub then Suc p' else p')"
      using cells_okD(1) [OF i(7) p'(1,2)] unfolding p'(3) .
    moreover have "mc_seq (xs ! (pos t mod 2 ^ k)) = word_of_nat (pos t)"
      using seq own(3) mpsc_queue_okD(1) [OF i(1), of "pos t"] by simp
    ultimately have e: "(word_of_nat (if p' \<in> pub then Suc p' else p') :: u64) = word_of_nat (pos t)" by simp
    show ?thesis
    proof (rule ccontr)
      assume "\<not> pos t < ?d + 2 ^ k"
      then have far: "p' + 2 ^ k \<le> pos t" using p'(2,4) by auto
      then have "(if p' \<in> pub then Suc p' else p') = pos t"
        using C own(2) p'(1) by (intro word_of_nat_near [OF e]) auto
      with far C show False by (simp split: if_splits)
    qed
  qed
  note lap = this
  have "producers_ok xs k ?d pub (mt_claimed c) (mt_lost c) ((mt_p c)[t := Q_seen e w]) pos"
  proof (intro producers_ok_update [OF i(8) t(1)])
    fix t' e' w'
    assume h': "t' < length (mt_p c)" "t' \<noteq> t" "held (mt_p c ! t') = Some (e', w')"
    note o = producers_okD(1-5) [OF i(8) h'(1,3)]
    have "pos t' \<noteq> pos t" by (rule producers_okD(6) [OF i(8) t(1) h h'(1,2)]) (use h'(3) in simp)
    with o show "pos t' = pos t' \<and> pos t' < length (mt_claimed c) \<and> mt_claimed c ! pos t' = mt_claimed c ! pos t' \<and>
        pos t' \<notin> pub \<and> pos t' \<notin> set (mt_lost c) \<and> (held (Q_seen e w) \<noteq> None \<longrightarrow> pos t \<noteq> pos t') \<and>
        (mt_p c ! t' = Q_stored e' w' \<longrightarrow> mc_data (xs ! (pos t' mod 2 ^ k)) = mc_data (xs ! (pos t' mod 2 ^ k)))" by simp
  qed (use lap producers_okD(1-5) [OF i(8) t(1) h] in simp_all)
  then show ?thesis unfolding mpsc_inv_def Let_def using i by simp
qed

text \<open>Replacing the cell of position \<open>p\<close>, which is in the current lap.\<close>

lemma cell_update:
  assumes inv: "mpsc_inv c pub pos xs k" and p: "length (mt_popped c) \<le> p" "p < length (mt_popped c) + 2 ^ k"
  shows "q < length (mt_popped c) + 2 ^ k \<Longrightarrow> length (mt_popped c) \<le> q \<Longrightarrow>
      xs[p mod 2 ^ k := cell] ! (q mod 2 ^ k) = (if q = p then cell else xs ! (q mod 2 ^ k))"
    and "t < length (mt_p c) \<Longrightarrow> held (mt_p c ! t) = Some (e, w) \<Longrightarrow> mt_p c ! t = Q_stored e w \<Longrightarrow> pos t \<noteq> p \<Longrightarrow>
      xs[p mod 2 ^ k := cell] ! (pos t mod 2 ^ k) = xs ! (pos t mod 2 ^ k)"
proof -
  note i = mpsc_invD [OF inv]
  show a: "xs[p mod 2 ^ k := cell] ! (q mod 2 ^ k) = (if q = p then cell else xs ! (q mod 2 ^ k))"
    if "q < length (mt_popped c) + 2 ^ k" "length (mt_popped c) \<le> q" for q
    using window_apart [of "length (mt_popped c)" q "2 ^ k" p] that p mpsc_queue_okD(2) [OF i(1), of p] by auto
  assume t: "t < length (mt_p c)" "held (mt_p c ! t) = Some (e, w)" "mt_p c ! t = Q_stored e w" "pos t \<noteq> p"
  have "\<not> pos t < length (mt_popped c)" using i(3) producers_okD(4) [OF i(8) t(1,2)] by auto
  with a [of "pos t"] producers_okD(8) [OF i(8) t(1,2,3)] t(4)
  show "xs[p mod 2 ^ k := cell] ! (pos t mod 2 ^ k) = xs ! (pos t mod 2 ^ k)" by simp
qed

lemma inv_write:
  assumes inv: "mpsc_inv c pub pos xs k" and near: "mpsc_near c" and t: "t < length (mt_p c)" "mt_p c ! t = Q_seen e w"
    and store: "mpsc_store (mt_q c) w e = Some q"
  shows "\<exists>ys. mpsc_inv (c\<lparr>mt_q := q, mt_p := (mt_p c)[t := Q_stored e w]\<rparr>) pub pos ys k"
proof -
  let ?d = "length (mt_popped c)"
  note i = mpsc_invD [OF inv]
  have h: "held (mt_p c ! t) = Some (e, w)" using t(2) by simp
  note own = held_position [OF inv near t(1) h] and ok = producers_okD [OF i(8) t(1) h]
  have lap: "pos t < ?d + 2 ^ k" using ok(7) t(2) by simp
  let ?cell = "(xs ! (pos t mod 2 ^ k))\<lparr>mc_data := e\<rparr>"
  let ?ys = "xs[pos t mod 2 ^ k := ?cell]"
  have q: "q = (mt_q c)\<lparr>mq_cells := Some ?ys\<rparr>" using store own(3) mpsc_queue_okD(5) [OF i(1), of "pos t" e] by simp
  note cell = cell_update [OF inv own(1) lap, where cell = ?cell]
  have pub: "r \<in> pub \<Longrightarrow> r < ?d + 2 ^ k \<and> r \<noteq> pos t" for r using i(4) ok(4) by auto
  have "cells_ok ?ys k ?d pub (mt_claimed c) (mt_c c)"
    unfolding cells_ok_def
  proof (intro conjI allI ballI impI)
    fix r
    assume "?d \<le> r" "r < ?d + 2 ^ k"
    with cell(1) [of r] i(7) show "mc_seq (?ys ! (r mod 2 ^ k)) = word_of_nat (if r \<in> pub then Suc r else r)"
      by (auto simp: cells_ok_def)
  next
    fix r
    assume r: "r \<in> pub" "?d \<le> r" "r = ?d \<longrightarrow> (\<forall>w v. mt_c c \<noteq> D_taken w v)"
    with cell(1) [of r] pub [OF r(1)] i(7) show "mc_data (?ys ! (r mod 2 ^ k)) = mt_claimed c ! r" by (auto simp: cells_ok_def)
  qed
  moreover have "producers_ok ?ys k ?d pub (mt_claimed c) (mt_lost c) ((mt_p c)[t := Q_stored e w]) pos"
  proof (intro producers_ok_update [OF i(8) t(1)])
    fix t' e' w'
    assume h': "t' < length (mt_p c)" "t' \<noteq> t" "held (mt_p c ! t') = Some (e', w')"
    note o = producers_okD(1-5) [OF i(8) h'(1,3)]
    have ne: "pos t' \<noteq> pos t" by (rule ok(6) [OF h'(1,2)]) (use h'(3) in simp)
    with o cell(2) [OF h'(1,3)] show "pos t' = pos t' \<and> pos t' < length (mt_claimed c) \<and> mt_claimed c ! pos t' = mt_claimed c ! pos t' \<and>
        pos t' \<notin> pub \<and> pos t' \<notin> set (mt_lost c) \<and> (held (Q_stored e w) \<noteq> None \<longrightarrow> pos t \<noteq> pos t') \<and>
        (mt_p c ! t' = Q_stored e' w' \<longrightarrow> mc_data (?ys ! (pos t' mod 2 ^ k)) = mc_data (xs ! (pos t' mod 2 ^ k)))" by simp
  qed (use lap ok(1-5) mpsc_queue_okD(2) [OF i(1), of "pos t"] in simp_all)
  moreover have "mpsc_queue_ok q ?ys k" unfolding q by (rule mpsc_queue_ok_update [OF i(1)]) simp
  moreover have "mq_enqueue q = mq_enqueue (mt_q c)" "mq_dequeue q = mq_dequeue (mt_q c)" unfolding q by simp_all
  ultimately show ?thesis using i by (intro exI [of _ ?ys]) (simp add: mpsc_inv_def)
qed

lemma inv_publish:
  assumes inv: "mpsc_inv c pub pos xs k" and near: "mpsc_near c" and t: "t < length (mt_p c)" "mt_p c ! t = Q_stored e w"
    and set_seq: "set_cell_seq (mt_q c) w (w + 1) = Some q"
  shows "\<exists>ys. mpsc_inv (c\<lparr>mt_q := q, mt_p := (mt_p c)[t := Q_idle]\<rparr>) (insert (pos t) pub) pos ys k"
proof -
  let ?d = "length (mt_popped c)"
  note i = mpsc_invD [OF inv]
  have h: "held (mt_p c ! t) = Some (e, w)" using t(2) by simp
  note own = held_position [OF inv near t(1) h] and ok = producers_okD [OF i(8) t(1) h]
  have lap: "pos t < ?d + 2 ^ k" using ok(8) t(2) by simp
  have data: "mc_data (xs ! (pos t mod 2 ^ k)) = mt_claimed c ! pos t" using ok(3) ok(9) [OF t(2)] by simp
  let ?cell = "(xs ! (pos t mod 2 ^ k))\<lparr>mc_seq := word_of_nat (pos t) + 1\<rparr>" and ?pub = "insert (pos t) pub"
  let ?ys = "xs[pos t mod 2 ^ k := ?cell]"
  have q: "q = (mt_q c)\<lparr>mq_cells := Some ?ys\<rparr>"
    using set_seq own(3) mpsc_queue_okD(4) [OF i(1), of "pos t" "word_of_nat (pos t) + 1"] by simp
  note cell = cell_update [OF inv own(1) lap, where cell = ?cell]
  have "cells_ok ?ys k ?d ?pub (mt_claimed c) (mt_c c)"
    unfolding cells_ok_def
  proof (intro conjI allI ballI impI)
    fix r
    assume r: "?d \<le> r" "r < ?d + 2 ^ k"
    show "mc_seq (?ys ! (r mod 2 ^ k)) = word_of_nat (if r \<in> ?pub then Suc r else r)"
      using cell(1) [OF r(2,1)] cells_okD(1) [OF i(7) r] by (simp add: add.commute)
  next
    fix r
    assume r: "r \<in> ?pub" "?d \<le> r" "r = ?d \<longrightarrow> (\<forall>w v. mt_c c \<noteq> D_taken w v)"
    then have "r < ?d + 2 ^ k" using i(4) lap by auto
    with cell(1) [OF this r(2)] r data cells_okD(2) [OF i(7), of r] show "mc_data (?ys ! (r mod 2 ^ k)) = mt_claimed c ! r"
      by (cases "r = pos t") simp_all
  qed
  moreover have "producers_ok ?ys k ?d ?pub (mt_claimed c) (mt_lost c) ((mt_p c)[t := Q_idle]) pos"
  proof (intro producers_ok_update [OF i(8) t(1)])
    fix t' e' w'
    assume h': "t' < length (mt_p c)" "t' \<noteq> t" "held (mt_p c ! t') = Some (e', w')"
    note o = producers_okD(1-5) [OF i(8) h'(1,3)]
    have ne: "pos t' \<noteq> pos t" by (rule ok(6) [OF h'(1,2)]) (use h'(3) in simp)
    with o cell(2) [OF h'(1,3)] show "pos t' = pos t' \<and> pos t' < length (mt_claimed c) \<and> mt_claimed c ! pos t' = mt_claimed c ! pos t' \<and>
        pos t' \<notin> ?pub \<and> pos t' \<notin> set (mt_lost c) \<and> (held Q_idle \<noteq> None \<longrightarrow> pos t \<noteq> pos t') \<and>
        (mt_p c ! t' = Q_stored e' w' \<longrightarrow> mc_data (?ys ! (pos t' mod 2 ^ k)) = mc_data (xs ! (pos t' mod 2 ^ k)))" by simp
  qed simp_all
  moreover have "mpsc_queue_ok q ?ys k" unfolding q by (rule mpsc_queue_ok_update [OF i(1)]) simp
  moreover have "mq_enqueue q = mq_enqueue (mt_q c)" "mq_dequeue q = mq_dequeue (mt_q c)" unfolding q by simp_all
  moreover have "consumer_ok ?d ?pub (mt_claimed c) (mq_dequeue (mt_q c)) (mt_c c)"
    using i(9) by (auto simp: consumer_ok_def split: mpsc_consumer.splits)
  moreover have "set (mt_lost c) \<subseteq> {..<length (mt_claimed c)} - ?pub" using i(5) ok(5) by auto
  ultimately show ?thesis using i own(4) lap by (intro exI [of _ ?ys]) (simp add: mpsc_inv_def subset_insertI2)
qed

lemma inv_look:
  assumes inv: "mpsc_inv c pub pos xs k" and c: "mt_c c = D_idle" "cell_seq (mt_q c) (mq_dequeue (mt_q c)) = Some (mq_dequeue (mt_q c) + 1)"
  shows "mpsc_inv (c\<lparr>mt_c := D_seen (mq_dequeue (mt_q c))\<rparr>) pub pos xs k"
proof -
  let ?d = "length (mt_popped c)"
  note i = mpsc_invD [OF inv]
  have dq: "mq_dequeue (mt_q c) = word_of_nat ?d" using i(9) c(1) by (simp add: consumer_ok_def)
  have "mc_seq (xs ! (?d mod 2 ^ k)) = word_of_nat (if ?d \<in> pub then Suc ?d else ?d)" by (rule cells_okD(1) [OF i(7)]) simp_all
  moreover have "mc_seq (xs ! (?d mod 2 ^ k)) = word_of_nat ?d + 1" using c(2) mpsc_queue_okD(1) [OF i(1), of ?d] dq by simp
  ultimately have "?d \<in> pub" by (auto split: if_splits)
  moreover have "cells_ok xs k ?d pub (mt_claimed c) (D_seen (mq_dequeue (mt_q c)))" using i(7) c(1) by (simp add: cells_ok_def)
  ultimately show ?thesis using i dq by (simp add: mpsc_inv_def consumer_ok_def)
qed

text \<open>The producers while the consumer replaces the cell of its own position.\<close>

lemma producers_ok_taken:
  assumes inv: "mpsc_inv c pub pos xs k" and d: "length (mt_popped c) \<in> pub" "length (mt_popped c) \<le> d'"
  shows "producers_ok (xs[length (mt_popped c) mod 2 ^ k := cell]) k d' pub (mt_claimed c) (mt_lost c) (mt_p c) pos"
  unfolding producers_ok_def
proof (intro allI impI)
  let ?d = "length (mt_popped c)" and ?ys = "xs[length (mt_popped c) mod 2 ^ k := cell]"
  note i = mpsc_invD [OF inv]
  fix t e w'
  assume h: "t < length (mt_p c)" "held (mt_p c ! t) = Some (e, w')"
  note o = producers_okD [OF i(8) h]
  have "pos t \<noteq> ?d" using o(4) d(1) by metis
  then have "mt_p c ! t = Q_stored e w' \<Longrightarrow> ?ys ! (pos t mod 2 ^ k) = xs ! (pos t mod 2 ^ k)"
    by (intro cell_update(2) [OF inv _ _ h]) simp_all
  then have st: "\<exists>e w. mt_p c ! t = Q_stored e w \<Longrightarrow> mc_data (?ys ! (pos t mod 2 ^ k)) = e" using h(2) o(9) by auto
  have bd: "\<exists>e w. mt_p c ! t = Q_seen e w \<or> mt_p c ! t = Q_stored e w \<Longrightarrow> pos t < d' + 2 ^ k"
    using o(7,8) d(2) by fastforce
  show "w' = word_of_nat (pos t) \<and> pos t < length (mt_claimed c) \<and> mt_claimed c ! pos t = e \<and> pos t \<notin> pub \<and> pos t \<notin> set (mt_lost c) \<and>
      (\<forall>t' < length (mt_p c). t' \<noteq> t \<longrightarrow> held (mt_p c ! t') \<noteq> None \<longrightarrow> pos t' \<noteq> pos t) \<and>
      ((\<exists>e w. mt_p c ! t = Q_seen e w \<or> mt_p c ! t = Q_stored e w) \<longrightarrow> pos t < d' + 2 ^ k) \<and>
      ((\<exists>e w. mt_p c ! t = Q_stored e w) \<longrightarrow> mc_data (?ys ! (pos t mod 2 ^ k)) = e)"
    using o(1-6) st bd by blast
qed

lemma inv_read:
  assumes inv: "mpsc_inv c pub pos xs k" and c: "mt_c c = D_seen w" and take: "mpsc_take (mt_q c) w (Some dst) True = Some (Some v, q)"
  shows "\<exists>ys. mpsc_inv (c\<lparr>mt_q := q, mt_c := D_taken w v\<rparr>) pub pos ys k"
proof -
  let ?d = "length (mt_popped c)"
  note i = mpsc_invD [OF inv]
  have w: "w = word_of_nat ?d" "mq_dequeue (mt_q c) = word_of_nat ?d" "?d \<in> pub" using i(9) c by (simp_all add: consumer_ok_def)
  have data: "mc_data (xs ! (?d mod 2 ^ k)) = mt_claimed c ! ?d" by (rule cells_okD(2) [OF i(7) w(3)]) (simp_all add: c)
  let ?cell = "(xs ! (?d mod 2 ^ k))\<lparr>mc_data := ep_moved (mq_pol (mt_q c)) (mt_claimed c ! ?d)\<rparr>"
  let ?ys = "xs[?d mod 2 ^ k := ?cell]"
  have x: "mq_cells (mt_q c) = Some xs" using i(1) by (simp add: mpsc_queue_ok_def)
  have v: "v = mt_claimed c ! ?d" and q: "\<exists>tr. q = (mt_q c)\<lparr>mq_cells := Some ?ys, mq_destroyed := tr\<rparr>"
    using take x data mpsc_queue_okD(2,3) [OF i(1), of ?d] by (auto simp: mpsc_take_def w(1) Let_def)
  have cell: "?ys ! (r mod 2 ^ k) = (if r = ?d then ?cell else xs ! (r mod 2 ^ k))" if "?d \<le> r" "r < ?d + 2 ^ k" for r
    by (rule cell_update(1) [OF inv _ _ that(2,1)]) simp_all
  have "cells_ok ?ys k ?d pub (mt_claimed c) (D_taken w v)"
    unfolding cells_ok_def
  proof (intro conjI allI ballI impI)
    fix r
    assume r: "?d \<le> r" "r < ?d + 2 ^ k"
    show "mc_seq (?ys ! (r mod 2 ^ k)) = word_of_nat (if r \<in> pub then Suc r else r)"
      using cell [OF r] cells_okD(1) [OF i(7) r] by (cases "r = ?d") simp_all
  next
    fix r
    assume r: "r \<in> pub" "?d \<le> r" "r = ?d \<longrightarrow> (\<forall>w' v'. D_taken w v \<noteq> D_taken w' v')"
    then have "r \<noteq> ?d" by blast
    moreover have "r < ?d + 2 ^ k" using i(4) r(1) by simp
    ultimately show "mc_data (?ys ! (r mod 2 ^ k)) = mt_claimed c ! r"
      using cell [OF r(2)] cells_okD(2) [OF i(7) r(1,2)] by simp
  qed
  moreover have "producers_ok ?ys k ?d pub (mt_claimed c) (mt_lost c) (mt_p c) pos"
    by (rule producers_ok_taken [OF inv w(3)]) simp
  moreover have "mpsc_queue_ok q ?ys k" "mq_enqueue q = mq_enqueue (mt_q c)" "mq_dequeue q = mq_dequeue (mt_q c)"
    using q i(1) by (auto simp: mpsc_queue_ok_def)
  ultimately show ?thesis using i w v by (intro exI [of _ ?ys]) (simp add: mpsc_inv_def consumer_ok_def)
qed

lemma inv_release:
  assumes inv: "mpsc_inv c pub pos xs k" and c: "mt_c c = D_taken w v"
    and set_seq: "set_cell_seq (mt_q c) w (w + mq_cap (mt_q c)) = Some q"
  shows "\<exists>ys. mpsc_inv (c\<lparr>mt_q := q, mt_c := D_released w, mt_popped := mt_popped c @ [v]\<rparr>) pub pos ys k"
proof -
  let ?d = "length (mt_popped c)"
  note i = mpsc_invD [OF inv]
  have w: "w = word_of_nat ?d" "?d \<in> pub" "v = mt_claimed c ! ?d" using i(9) c by (simp_all add: consumer_ok_def)
  let ?cell = "(xs ! (?d mod 2 ^ k))\<lparr>mc_seq := word_of_nat ?d + 2 ^ k\<rparr>"
  let ?ys = "xs[?d mod 2 ^ k := ?cell]"
  have cap: "mq_cap (mt_q c) = 2 ^ k" using i(1) by (simp add: mpsc_queue_ok_def)
  have q: "q = (mt_q c)\<lparr>mq_cells := Some ?ys\<rparr>"
    using set_seq cap w(1) mpsc_queue_okD(4) [OF i(1), of ?d "word_of_nat ?d + 2 ^ k"] by simp
  have cell: "?ys ! (r mod 2 ^ k) = (if r = ?d then ?cell else xs ! (r mod 2 ^ k))" if "?d \<le> r" "r < ?d + 2 ^ k" for r
    by (rule cell_update(1) [OF inv _ _ that(2,1)]) simp_all
  have "cells_ok ?ys k (Suc ?d) pub (mt_claimed c) (D_released w)"
    unfolding cells_ok_def
  proof (intro conjI allI ballI impI)
    fix r
    assume r: "Suc ?d \<le> r" "r < Suc ?d + 2 ^ k"
    show "mc_seq (?ys ! (r mod 2 ^ k)) = word_of_nat (if r \<in> pub then Suc r else r)"
    proof (cases "r = ?d + 2 ^ k")
      case True
      then have "r \<notin> pub" using i(4) by blast
      moreover have "r mod 2 ^ k = ?d mod 2 ^ k" using True by simp
      ultimately show ?thesis using True mpsc_queue_okD(2) [OF i(1), of ?d] by simp
    next
      case False
      with r have "?d \<le> r" "r < ?d + 2 ^ k" "r \<noteq> ?d" by linarith+
      with cell cells_okD(1) [OF i(7)] show ?thesis by simp
    qed
  next
    fix r
    assume r: "r \<in> pub" "Suc ?d \<le> r"
    then have "?d \<le> r" "r < ?d + 2 ^ k" "r \<noteq> ?d" using i(4) by auto
    with cell cells_okD(2) [OF i(7) r(1)] show "mc_data (?ys ! (r mod 2 ^ k)) = mt_claimed c ! r" by simp
  qed
  moreover have "producers_ok ?ys k (Suc ?d) pub (mt_claimed c) (mt_lost c) (mt_p c) pos"
    by (rule producers_ok_taken [OF inv w(2)]) simp
  moreover have "mpsc_queue_ok q ?ys k" unfolding q by (rule mpsc_queue_ok_update [OF i(1)]) simp
  moreover have "mq_enqueue q = mq_enqueue (mt_q c)" unfolding q by simp
  moreover have "mt_popped c @ [v] = take (Suc ?d) (mt_claimed c)"
    using i(4) [OF w(2)] i(6) w(3) by (simp add: take_Suc_conv_app_nth)
  moreover have "min (length (mt_claimed c)) (Suc ?d) = Suc ?d" using i(4) [OF w(2)] by simp
  moreover have "{..<Suc ?d} \<subseteq> pub" using i(3) w(2) by (auto simp: less_Suc_eq)
  moreover have "\<forall>p \<in> pub. p < length (mt_claimed c) \<and> p < Suc ?d + 2 ^ k" using i(4) by (meson add_less_mono1 less_Suc_eq less_trans)
  ultimately show ?thesis using i w by (intro exI [of _ ?ys]) (simp add: mpsc_inv_def consumer_ok_def)
qed

lemma inv_advance:
  assumes inv: "mpsc_inv c pub pos xs k" and c: "mt_c c = D_released w"
  shows "mpsc_inv (c\<lparr>mt_q := (mt_q c)\<lparr>mq_dequeue := w + 1\<rparr>, mt_c := D_idle\<rparr>) pub pos xs k"
proof -
  note i = mpsc_invD [OF inv]
  have "w + 1 = word_of_nat (length (mt_popped c))" using i(9) c by (simp add: consumer_ok_def)
  moreover have "cells_ok xs k (length (mt_popped c)) pub (mt_claimed c) D_idle" using i(7) c by (simp add: cells_ok_def)
  moreover have "mpsc_queue_ok ((mt_q c)\<lparr>mq_dequeue := w + 1\<rparr>) xs k" using i(1) by (simp add: mpsc_queue_ok_def)
  ultimately show ?thesis using i by (simp add: mpsc_inv_def consumer_ok_def)
qed

lemma mpsc_step_inv:
  assumes "mpsc_step c c'" "mpsc_inv c pub pos xs k" "mpsc_near c"
  shows "\<exists>pub pos xs. mpsc_inv c' pub pos xs k"
  using assms
proof cases
  case (mpsc_claim t q e)
  with inv_claim [OF assms(2), of t e] show ?thesis by blast
next
  case (mpsc_see t e w)
  with inv_see [OF assms(2,3), of t e w] show ?thesis by blast
next
  case (mpsc_give_up t e w)
  with inv_give_up [OF assms(2,3), of t e w] show ?thesis by blast
next
  case (mpsc_write t e w q)
  with inv_write [OF assms(2,3), of t e w q] show ?thesis by blast
next
  case (mpsc_publish t e w q)
  with inv_publish [OF assms(2,3), of t e w q] show ?thesis by blast
next
  case (mpsc_look w)
  with inv_look [OF assms(2)] show ?thesis by blast
next
  case (mpsc_read w d v q)
  with inv_read [OF assms(2), of w d v q] show ?thesis by blast
next
  case (mpsc_release w v q)
  with inv_release [OF assms(2), of w v q] show ?thesis by blast
next
  case (mpsc_advance w)
  with inv_advance [OF assms(2), of w] show ?thesis by blast
qed

section \<open>Reachable states\<close>

lemma number_cells_result:
  "number_cells (Some xs) i n = Some m \<Longrightarrow>
     \<exists>ys. m = Some ys \<and> length ys = length xs \<and> (n = 0 \<or> i + n \<le> length xs) \<and>
       (\<forall>j < length xs. ys ! j = (if i \<le> j \<and> j < i + n then (xs ! j)\<lparr>mc_seq := word_of_nat j\<rparr> else xs ! j))"
proof (induction n arbitrary: i xs)
  case 0
  then show ?case by (intro exI [of _ xs]) auto
next
  case (Suc n)
  then have i: "i < length xs" by (cases "i < length xs") (simp_all add: not_less)
  let ?xs = "xs[i := (xs ! i)\<lparr>mc_seq := word_of_nat i\<rparr>]"
  from Suc.prems i have "number_cells (Some ?xs) (Suc i) n = Some m" by simp
  from Suc.IH [OF this] obtain ys where ys: "m = Some ys" "length ys = length xs" "n = 0 \<or> Suc i + n \<le> length xs"
    "\<forall>j < length xs. ys ! j = (if Suc i \<le> j \<and> j < Suc i + n then (?xs ! j)\<lparr>mc_seq := word_of_nat j\<rparr> else ?xs ! j)"
    by auto
  have "ys ! j = (if i \<le> j \<and> j < i + Suc n then (xs ! j)\<lparr>mc_seq := word_of_nat j\<rparr> else xs ! j)" if "j < length xs" for j
    using ys(4) that i by (cases "j = i") simp_all
  with ys(1-3) i show ?case by auto
qed

lemma mpsc_start_inv:
  assumes init: "mpsc_init s0 pol cells n = Some (Ok, q)" and "\<not> ep_runtime pol"
  shows "\<exists>xs k. mpsc_inv (mpsc_start q producers) {} (\<lambda>_. 0) xs k \<and> mq_cap q = 2 ^ k"
proof -
  from init obtain xs m where n: "cells = Some xs" "is_power_of_two n" "2 \<le> n" "number_cells (Some xs) 0 (unat n) = Some m"
    and q: "q = s0\<lparr>mq_pol := pol, mq_cells := m, mq_cap := n, mq_mask := n - 1, mq_stride := cell_stride pol,
      mq_enqueue := 0, mq_dequeue := 0\<rparr>"
    by (auto simp: mpsc_init_def bind_eq_Some_conv split: if_splits)
  from number_cells_result [OF n(4)] obtain ys where m: "m = Some ys" "length ys = length xs" "unat n \<le> length xs"
    and cells: "\<forall>j < length xs. ys ! j = (if j < unat n then (xs ! j)\<lparr>mc_seq := word_of_nat j\<rparr> else xs ! j)"
    by auto
  from n(2) obtain k where k: "k < 64" "n = 2 ^ k" by (rule is_power_of_two_cases)
  then have un: "unat n = 2 ^ k" by (simp add: unat_power_of_two)
  have "1 \<le> k" using n(3) k by (cases k) (auto simp: word_le_nat_alt)
  then have "mpsc_queue_ok q ys k"
    using q m k un assms(2) by (simp add: mpsc_queue_ok_def mask_of_power)
  moreover have "cells_ok ys k 0 {} [] D_idle"
    using cells m un by (simp add: cells_ok_def)
  moreover have "producers_ok ys k 0 {} [] [] (replicate producers Q_idle) (\<lambda>_. 0)" by (simp add: producers_ok_def)
  ultimately show ?thesis
    using q k by (intro exI [of _ ys] exI [of _ k]) (simp add: mpsc_inv_def mpsc_start_def consumer_ok_def)
qed

lemma mpsc_reachable_inv:
  assumes "mpsc_next\<^sup>*\<^sup>* c c'" "mpsc_inv c pub pos xs k" "mpsc_near c"
  shows "mpsc_near c' \<and> (\<exists>pub pos xs. mpsc_inv c' pub pos xs k)"
  using assms
proof induction
  case (step c1 c2)
  with mpsc_step_inv [of c1 c2] show ?case unfolding mpsc_next_def by blast
qed blast

lemma mpsc_reachable:
  assumes "mpsc_init s0 pol cells n = Some (Ok, q)" "\<not> ep_runtime pol" "mpsc_next\<^sup>*\<^sup>* (mpsc_start q producers) c"
  obtains pub pos xs k where "mpsc_inv c pub pos xs k" "mpsc_near c"
proof -
  from mpsc_start_inv [OF assms(1,2)] obtain xs k where "mpsc_inv (mpsc_start q producers) {} (\<lambda>_. 0) xs k" by blast
  moreover have "mpsc_near (mpsc_start q producers)" by (simp add: mpsc_near_def mpsc_start_def)
  ultimately show thesis using mpsc_reachable_inv [OF assms(3)] that by blast
qed

lemma mpsc_inv_no_race:
  assumes inv: "mpsc_inv c pub pos xs k"
  shows "\<not> mpsc_race c"
proof
  let ?d = "length (mt_popped c)"
  note i = mpsc_invD [OF inv]
  have slot: "mpsc_writes c t = Some (pos t mod 2 ^ k) \<and> ?d \<le> pos t \<and> pos t < ?d + 2 ^ k \<and> pos t \<notin> pub \<and> held (mt_p c ! t) \<noteq> None"
    if "t < length (mt_p c)" "mpsc_writes c t \<noteq> None" for t
  proof -
    from that(2) obtain e w where p: "mt_p c ! t = Q_seen e w" by (auto simp: mpsc_writes_def split: mpsc_producer.splits)
    then have h: "held (mt_p c ! t) = Some (e, w)" by simp
    note o = producers_okD [OF i(8) that(1) h]
    have "\<not> pos t < ?d" using i(3) o(4) by auto
    with o(1,4) o(7) [OF p] p mpsc_queue_okD(3) [OF i(1), of "pos t"] show ?thesis by (simp add: mpsc_writes_def)
  qed
  assume "mpsc_race c"
  then obtain t where t: "t < length (mt_p c)" "mpsc_writes c t \<noteq> None"
    and clash: "mpsc_writes c t = mpsc_reads c \<or> (\<exists>t' < length (mt_p c). t' \<noteq> t \<and> mpsc_writes c t' = mpsc_writes c t)"
    unfolding mpsc_race_def by blast
  note st = slot [OF t]
  from clash show False
  proof
    assume rd: "mpsc_writes c t = mpsc_reads c"
    with t(2) obtain w where cs: "mt_c c = D_seen w" by (auto simp: mpsc_reads_def split: mpsc_consumer.splits)
    with i(9) have w: "w = word_of_nat ?d" "?d \<in> pub" by (simp_all add: consumer_ok_def)
    have "pos t mod 2 ^ k = ?d mod 2 ^ k" using rd st cs w mpsc_queue_okD(3) [OF i(1), of ?d] by (simp add: mpsc_reads_def)
    moreover have "pos t \<noteq> ?d" using st w(2) by metis
    ultimately show False using window_apart [of ?d "pos t" "2 ^ k" ?d] st by simp
  next
    assume "\<exists>t' < length (mt_p c). t' \<noteq> t \<and> mpsc_writes c t' = mpsc_writes c t"
    then obtain t' where t': "t' < length (mt_p c)" "t' \<noteq> t" "mpsc_writes c t' = mpsc_writes c t" by blast
    with t(2) slot [of t'] have st': "mpsc_writes c t' = Some (pos t' mod 2 ^ k)" "?d \<le> pos t'" "pos t' < ?d + 2 ^ k"
      "held (mt_p c ! t') \<noteq> None" by simp_all
    from st obtain e w where "held (mt_p c ! t) = Some (e, w)" by auto
    then have "pos t' \<noteq> pos t" by (rule producers_okD(6) [OF i(8) t(1) _ t'(1,2) st'(4)])
    then show False using window_apart [of ?d "pos t'" "2 ^ k" "pos t"] st st' t'(3) by simp
  qed
qed

lemma mpsc_lost_stays:
  assumes "mpsc_next\<^sup>*\<^sup>* c c'"
  shows "set (mt_lost c) \<subseteq> set (mt_lost c')"
  using assms
proof induction
  case (step c1 c2)
  from step.hyps(2) have "mpsc_step c1 c2" by (simp add: mpsc_next_def)
  then have "set (mt_lost c1) \<subseteq> set (mt_lost c2)" by cases (simp_all add: subset_insertI)
  with step.IH show ?case by blast
qed simp

section \<open>Properties\<close>

definition sample_mpsc :: "nat mpsc" where
  "sample_mpsc = \<lparr>mq_pol = typed_trivial_policy 8 8,
     mq_cells = Some [\<lparr>mc_seq = 0, mc_data = 0\<rparr>, \<lparr>mc_seq = 1, mc_data = 0\<rparr>],
     mq_cap = 2, mq_mask = 1, mq_stride = 16, mq_enqueue = 0, mq_dequeue = 0, mq_destroyed = []\<rparr>"

lemma sample_mpsc_init: "mpsc_init sample_mpsc (typed_trivial_policy 8 8) (mq_cells sample_mpsc) 2 = Some (Ok, sample_mpsc)"
proof -
  let ?cells = "Some [\<lparr>mc_seq = 0, mc_data = 0\<rparr>, \<lparr>mc_seq = 1, mc_data = 0\<rparr>] :: nat mpsc_cell mem"
  have "number_cells ?cells 0 2 = Some ?cells" by (simp add: numeral_2_eq_2)
  then show ?thesis by (simp add: mpsc_init_def sample_mpsc_def is_power_of_two_def cell_stride_def align_up_def)
qed

lemma next_steps: "mpsc_next\<^sup>*\<^sup>* a b \<Longrightarrow> mpsc_step b c \<Longrightarrow> mpsc_near c \<Longrightarrow> mpsc_next\<^sup>*\<^sup>* a c"
  by (rule rtranclp.rtrancl_into_rtrancl) (simp_all add: mpsc_next_def)

text \<open>Two producers claim; the second one gives up, the first one delivers.\<close>

lemma sample_mpsc_run:
  "\<exists>c. mpsc_next\<^sup>*\<^sup>* (mpsc_start sample_mpsc 2) c \<and> mt_popped c = [5] \<and> mt_claimed c = [5, 6] \<and> mt_lost c = [1]"
proof -
  let ?start = "mpsc_start sample_mpsc 2"
  let ?cells = "\<lambda>s d. Some [\<lparr>mc_seq = s, mc_data = d\<rparr>, \<lparr>mc_seq = 1, mc_data = 0\<rparr>] :: nat mpsc_cell mem"
  let ?q = "\<lambda>s d tr. sample_mpsc\<lparr>mq_enqueue := 2, mq_cells := ?cells s d, mq_destroyed := tr\<rparr>"
  let ?c = "\<lambda>q p cs l out. \<lparr>mt_q = q, mt_p = p, mt_c = cs, mt_claimed = [5, 6], mt_lost = l, mt_popped = out\<rparr>"
  define c1 where "c1 = ?start\<lparr>mt_q := sample_mpsc\<lparr>mq_enqueue := 1\<rparr>, mt_p := [Q_claimed 5 0, Q_idle], mt_claimed := [5]\<rparr>"
  define c2 where "c2 = ?c (?q 0 0 []) [Q_claimed 5 0, Q_claimed 6 1] D_idle [] []"
  define c3 where "c3 = ?c (?q 0 0 []) [Q_claimed 5 0, Q_idle] D_idle [1] []"
  define c4 where "c4 = ?c (?q 0 0 []) [Q_seen 5 0, Q_idle] D_idle [1] []"
  define c5 where "c5 = ?c (?q 0 5 []) [Q_stored 5 0, Q_idle] D_idle [1] []"
  define c6 where "c6 = ?c (?q 1 5 []) [Q_idle, Q_idle] D_idle [1] []"
  define c7 where "c7 = ?c (?q 1 5 []) [Q_idle, Q_idle] (D_seen 0) [1] []"
  define c8 where "c8 = ?c (?q 1 5 []) [Q_idle, Q_idle] (D_taken 0 5) [1] []"
  define c9 where "c9 = ?c (?q 2 5 []) [Q_idle, Q_idle] (D_released 0) [1] [5]"
  have two: "replicate 2 x = [x, x]" for x :: "nat mpsc_producer" by (simp add: numeral_2_eq_2)
  note defs = two mpsc_start_def sample_mpsc_def claim_index_def mpsc_near_def cell_seq_def set_cell_seq_def mpsc_store_def
    mpsc_take_def mpsc_slot_def
  have "mpsc_step ?start c1" using mpsc_claim [of 0 ?start _ 5] by (simp add: c1_def defs)
  then have "mpsc_next\<^sup>*\<^sup>* ?start c1" by (rule next_steps [rotated]) (simp_all add: c1_def defs)
  moreover have "mpsc_step c1 c2" using mpsc_claim [of 1 c1 _ 6] by (simp add: c1_def c2_def defs)
  ultimately have "mpsc_next\<^sup>*\<^sup>* ?start c2" by (rule next_steps) (simp add: c2_def defs)
  moreover have "mpsc_step c2 c3" using mpsc_give_up [of 1 c2 6 1] by (simp add: c2_def c3_def defs)
  ultimately have "mpsc_next\<^sup>*\<^sup>* ?start c3" by (rule next_steps) (simp add: c3_def defs)
  moreover have "mpsc_step c3 c4" using mpsc_see [of 0 c3 5 0] by (simp add: c3_def c4_def defs)
  ultimately have "mpsc_next\<^sup>*\<^sup>* ?start c4" by (rule next_steps) (simp add: c4_def defs)
  moreover have "mpsc_step c4 c5" using mpsc_write [of 0 c4 5 0] by (simp add: c4_def c5_def defs)
  ultimately have "mpsc_next\<^sup>*\<^sup>* ?start c5" by (rule next_steps) (simp add: c5_def defs)
  moreover have "mpsc_step c5 c6" using mpsc_publish [of 0 c5 5 0] by (simp add: c5_def c6_def defs)
  ultimately have "mpsc_next\<^sup>*\<^sup>* ?start c6" by (rule next_steps) (simp add: c6_def defs)
  moreover have "mpsc_step c6 c7" using mpsc_look [of c6 0] by (simp add: c6_def c7_def defs)
  ultimately have "mpsc_next\<^sup>*\<^sup>* ?start c7" by (rule next_steps) (simp add: c7_def defs)
  moreover have "mpsc_step c7 c8" using mpsc_read [of c7 0 0 5] by (simp add: c7_def c8_def defs)
  ultimately have "mpsc_next\<^sup>*\<^sup>* ?start c8" by (rule next_steps) (simp add: c8_def defs)
  moreover have "mpsc_step c8 c9" using mpsc_release [of c8 0 5] by (simp add: c8_def c9_def defs)
  ultimately have "mpsc_next\<^sup>*\<^sup>* ?start c9" by (rule next_steps) (simp add: c9_def defs)
  then show ?thesis by (intro exI [of _ c9]) (simp add: c9_def)
qed

text \<open>
  The same by the operations: a \<open>push\<close> to a full queue of two that gives up, two pops, one more push,
  which succeeds; from there every \<open>pop\<close> fails, however long it spins.
\<close>

lemma blocked_pop:
  assumes "cell_seq s (mq_dequeue s) = Some (mq_dequeue s)" "mq_enqueue s \<noteq> mq_dequeue s"
  shows "mpsc_pop s out m n = Some (Full, out, s)"
  unfolding mpsc_pop_def using assms by (induction n) simp_all

lemma mpsc_full_push_breaks:
  "\<exists>s1 s2 s3 s4 s5 s6. mpsc_push sample_mpsc (Some 5) 1 = Some (Ok, s1) \<and> mpsc_push s1 (Some 6) 1 = Some (Ok, s2) \<and>
     mpsc_push s2 (Some 7) 1 = Some (Full, s3) \<and> mpsc_pop s3 (Some 0) True 1 = Some (Ok, Some 5, s4) \<and>
     mpsc_pop s4 (Some 0) True 1 = Some (Ok, Some 6, s5) \<and> mpsc_push s5 (Some 8) 1 = Some (Ok, s6) \<and>
     (\<forall>spins. mpsc_pop s6 (Some 0) True spins = Some (Full, Some 0, s6))"
  apply (simp add: mpsc_push_def mpsc_pop_def sample_mpsc_def cell_seq_def set_cell_seq_def mpsc_store_def mpsc_take_def
      mpsc_slot_def Let_def)
  apply (intro allI, induct_tac spins)
   apply (simp_all add: cell_seq_def mpsc_slot_def)
  done

text \<open> C11.
  Under every interleaving of any number of producers with the one consumer, from a queue just
  initialised: no two threads ever access the same cell's element at the same time (two producers, or a
  producer and the consumer), the elements popped are a prefix of the elements in the order in which
  their positions were claimed - first in first out, nothing lost in between, nothing twice - and no
  producer stores an element beyond one lap ahead of the consumer.
\<close>

theorem mpsc_concurrent_fifo:
  assumes "mpsc_init s0 pol cells n = Some (Ok, q)" "\<not> ep_runtime pol" "mpsc_next\<^sup>*\<^sup>* (mpsc_start q producers) c"
  shows "\<not> mpsc_race c \<and> mt_popped c = take (length (mt_popped c)) (mt_claimed c) \<and>
    length (mt_popped c) \<le> length (mt_claimed c) \<and>
    (\<forall>t e w. t < length (mt_p c) \<longrightarrow> mt_p c ! t = Q_stored e w \<longrightarrow>
       length (mt_popped c) \<le> claim_index c w \<and> claim_index c w < length (mt_popped c) + unat (mq_cap (mt_q c)) \<and>
       mt_claimed c ! claim_index c w = e)"
proof -
  from mpsc_reachable [OF assms] obtain pub pos xs k where inv: "mpsc_inv c pub pos xs k" and near: "mpsc_near c" by blast
  note i = mpsc_invD [OF inv]
  have "length (mt_popped c) \<le> claim_index c w \<and> claim_index c w < length (mt_popped c) + unat (mq_cap (mt_q c)) \<and>
      mt_claimed c ! claim_index c w = e" if t: "t < length (mt_p c)" "mt_p c ! t = Q_stored e w" for t e w
  proof -
    have h: "held (mt_p c ! t) = Some (e, w)" using t(2) by simp
    note own = held_position [OF inv near t(1) h] and o = producers_okD [OF i(8) t(1) h]
    have "unat (mq_cap (mt_q c)) = 2 ^ k" using i(1) by (simp add: mpsc_queue_ok_def unat_power_of_two)
    with own(1,5) o(3) o(8) [OF t(2)] show ?thesis by simp
  qed
  with mpsc_inv_no_race [OF inv] i(6,10) show ?thesis by blast
qed

theorem mpsc_concurrent_fifo_witness:
  "\<exists>c. mpsc_next\<^sup>*\<^sup>* (mpsc_start sample_mpsc 2) c \<and> \<not> mpsc_race c \<and> mt_popped c = [5]"
  using sample_mpsc_run mpsc_concurrent_fifo [OF sample_mpsc_init, of 2] by auto

text \<open> C12.
  A producer that gives up its position after its spins leaves a hole: from then on, in every run, the
  consumer pops no element whose position was claimed later. One failed \<open>push\<close> ends the queue.
\<close>

theorem mpsc_lost_position_blocks:
  assumes "mpsc_init s0 pol cells n = Some (Ok, q)" "\<not> ep_runtime pol" "mpsc_next\<^sup>*\<^sup>* (mpsc_start q producers) c"
    and "mpsc_next\<^sup>*\<^sup>* c c'" "p \<in> set (mt_lost c)"
  shows "length (mt_popped c') \<le> p"
proof -
  from mpsc_reachable [OF assms(1,2) rtranclp_trans [OF assms(3,4)]] obtain pub pos xs k where inv: "mpsc_inv c' pub pos xs k" .
  note i = mpsc_invD [OF inv]
  have "p \<in> set (mt_lost c')" using mpsc_lost_stays [OF assms(4)] assms(5) by blast
  then have "p \<notin> pub" using i(5) by blast
  with i(3) have "p \<notin> {..<length (mt_popped c')}" by blast
  then show ?thesis by simp
qed

theorem mpsc_lost_position_blocks_witness:
  "\<exists>c. mpsc_next\<^sup>*\<^sup>* (mpsc_start sample_mpsc 2) c \<and> mt_lost c = [1] \<and> length (mt_popped c) \<le> 1"
proof -
  from sample_mpsc_run obtain c where c: "mpsc_next\<^sup>*\<^sup>* (mpsc_start sample_mpsc 2) c" "mt_lost c = [1]" by blast
  have "length (mt_popped c) \<le> 1"
    by (rule mpsc_lost_position_blocks [OF sample_mpsc_init _ c(1) rtranclp.rtrancl_refl]) (simp_all add: c)
  with c show ?thesis by blast
qed

end
