(* ===== verification/Bit_Stream.thy ===== *)
theory Bit_Stream
  imports Policy Bits
begin

text \<open>
  \<^verbatim>\<open>include/memkit/containers/bit_stream.hpp\<close>: BitReader and BitWriter, most significant bit first.
  A span is a pointer to bytes and a length.
\<close>

section \<open>BitReader\<close>

record bit_reader =
  br_bytes :: "u8 mem"
  br_len :: nat
  br_pos :: nat

definition bit_reader_init :: "bit_reader \<Rightarrow> u8 mem \<Rightarrow> nat \<Rightarrow> status \<times> bit_reader" where
  "bit_reader_init s bytes len =
     (if bytes = None \<and> len > 0 then (Null_ptr, s)
      else (Ok, s\<lparr>br_bytes := bytes, br_len := len, br_pos := 0\<rparr>))"

definition bits_remaining :: "bit_reader \<Rightarrow> nat" where
  "bits_remaining s =
     (let total_bits = sz_mul (br_len s) 8 in if br_pos s \<ge> total_bits then 0 else sz_sub total_bits (br_pos s))"

definition bit_reader_empty :: "bit_reader \<Rightarrow> bool" where
  "bit_reader_empty s \<longleftrightarrow> bits_remaining s = 0"

definition bit_reader_reset :: "bit_reader \<Rightarrow> bit_reader" where
  "bit_reader_reset s = s\<lparr>br_pos := 0\<rparr>"

text \<open>The loop over \<open>i\<close>, with \<open>n\<close> rounds left.\<close>

fun read_bits_loop :: "bit_reader \<Rightarrow> nat \<Rightarrow> nat \<Rightarrow> u32 \<Rightarrow> u32 option" where
  "read_bits_loop s i 0 value = Some value"
| "read_bits_loop s i (Suc n) value =
     (let absolute_bit = sz_add (br_pos s) i; byte_index = absolute_bit div 8; bit_index = 7 - absolute_bit mod 8 in do {
        byte \<leftarrow> mem_rd (br_bytes s) byte_index;
        let b = drop_bit bit_index (ucast byte :: u32) AND 1;
        read_bits_loop s (Suc i) n (push_bit 1 value OR b)
      })"

definition read_bits :: "bit_reader \<Rightarrow> u8 \<Rightarrow> u32 \<Rightarrow> (status \<times> u32 \<times> bit_reader) option" where
  "read_bits s count out =
     (if count = 0 \<or> count > 32 then Some (Invalid, out, s)
      else if unat count > bits_remaining s then Some (Empty, out, s)
      else do {
        v \<leftarrow> read_bits_loop s 0 (unat count) 0;
        Some (Ok, v, s\<lparr>br_pos := sz_add (br_pos s) (unat count)\<rparr>)
      })"

definition read_bit :: "bit_reader \<Rightarrow> bool \<Rightarrow> (status \<times> bool \<times> bit_reader) option" where
  "read_bit s out = do {
     (st, bits, s') \<leftarrow> read_bits s 1 0;
     if st \<noteq> Ok then Some (st, out, s') else Some (Ok, bits AND 1 \<noteq> 0, s')
   }"

definition skip_bits :: "bit_reader \<Rightarrow> nat \<Rightarrow> status \<times> bit_reader" where
  "skip_bits s count =
     (if count > bits_remaining s then (Empty, s) else (Ok, s\<lparr>br_pos := sz_add (br_pos s) count\<rparr>))"

definition reader_align_to_byte :: "bit_reader \<Rightarrow> status \<times> bit_reader" where
  "reader_align_to_byte s =
     (let offset = br_pos s mod 8 in if offset = 0 then (Ok, s) else skip_bits s (8 - offset))"

section \<open>BitWriter\<close>

record bit_writer =
  bw_bytes :: "u8 mem"
  bw_len :: nat
  bw_pos :: nat

text \<open>The loop that clears the bytes from \<open>i\<close> on.\<close>

fun zero_bytes :: "u8 mem \<Rightarrow> nat \<Rightarrow> nat \<Rightarrow> u8 mem option" where
  "zero_bytes m i 0 = Some m"
| "zero_bytes m i (Suc n) = do {
     m' \<leftarrow> mem_wr m i 0;
     zero_bytes m' (Suc i) n
   }"

definition bit_writer_init :: "bit_writer \<Rightarrow> u8 mem \<Rightarrow> nat \<Rightarrow> (status \<times> bit_writer) option" where
  "bit_writer_init s bytes len =
     (if bytes = None \<and> len > 0 then Some (Null_ptr, s)
      else do {
        m \<leftarrow> zero_bytes bytes 0 len;
        Some (Ok, s\<lparr>bw_bytes := m, bw_len := len, bw_pos := 0\<rparr>)
      })"

definition capacity_bits :: "bit_writer \<Rightarrow> nat" where
  "capacity_bits s = sz_mul (bw_len s) 8"

definition bits_available :: "bit_writer \<Rightarrow> nat" where
  "bits_available s = (let cap = capacity_bits s in if bw_pos s \<ge> cap then 0 else sz_sub cap (bw_pos s))"

definition byte_length :: "bit_writer \<Rightarrow> nat" where
  "byte_length s = sz_add (bw_pos s) 7 div 8"

definition bit_writer_reset :: "bit_writer \<Rightarrow> bit_writer option" where
  "bit_writer_reset s = do {
     m \<leftarrow> zero_bytes (bw_bytes s) 0 (bw_len s);
     Some (s\<lparr>bw_pos := 0, bw_bytes := m\<rparr>)
   }"

text \<open>The loop from bit \<open>i - 1\<close> of the value down to bit 0.\<close>

fun write_bits_loop :: "bit_writer \<Rightarrow> u32 \<Rightarrow> nat \<Rightarrow> bit_writer option" where
  "write_bits_loop s value 0 = Some s"
| "write_bits_loop s value (Suc i) =
     (let b = drop_bit i value AND 1 \<noteq> 0;
          byte_index = bw_pos s div 8; bit_index = 7 - bw_pos s mod 8;
          mask = push_bit bit_index (1 :: u8)
      in do {
        byte \<leftarrow> mem_rd (bw_bytes s) byte_index;
        m \<leftarrow> mem_wr (bw_bytes s) byte_index (if b then byte OR mask else byte AND NOT mask);
        write_bits_loop (s\<lparr>bw_bytes := m, bw_pos := sz_add (bw_pos s) 1\<rparr>) value i
      })"

definition write_bits :: "bit_writer \<Rightarrow> u32 \<Rightarrow> u8 \<Rightarrow> (status \<times> bit_writer) option" where
  "write_bits s value count =
     (if count = 0 \<or> count > 32 then Some (Invalid, s)
      else if unat count > bits_available s then Some (Full, s)
      else do {
        s' \<leftarrow> write_bits_loop s value (unat count);
        Some (Ok, s')
      })"

definition write_bit :: "bit_writer \<Rightarrow> bool \<Rightarrow> (status \<times> bit_writer) option" where
  "write_bit s value = write_bits s (if value then 1 else 0) 1"

definition writer_align_to_byte :: "bit_writer \<Rightarrow> (status \<times> bit_writer) option" where
  "writer_align_to_byte s =
     (let offset = bw_pos s mod 8 in if offset = 0 then Some (Ok, s) else write_bits s 0 (of_nat (8 - offset)))"

section \<open>Streams of bits\<close>

text \<open>Bit \<open>k\<close> of a buffer, the most significant bit of a byte first.\<close>

definition stream :: "u8 list \<Rightarrow> nat \<Rightarrow> bool" where
  "stream bs k = bit (bs ! (k div 8)) (7 - k mod 8)"

text \<open>The value of the \<open>n\<close> bits of \<open>f\<close> from \<open>p\<close> on.\<close>

fun bits_value :: "(nat \<Rightarrow> bool) \<Rightarrow> nat \<Rightarrow> nat \<Rightarrow> u32" where
  "bits_value f p 0 = 0"
| "bits_value f p (Suc n) = push_bit 1 (bits_value f p n) OR of_bool (f (p + n))"

lemma bit_append:
  fixes w :: u32
  shows "bit (push_bit 1 w OR of_bool b) j \<longleftrightarrow> (if j = 0 then b else j < 32 \<and> bit w (j - 1))"
  unfolding bit_or_iff bit_push_bit_iff by (auto simp: bit_of_bool_iff)

lemma bit_bits_value: "bit (bits_value f p n) j \<longleftrightarrow> j < n \<and> j < 32 \<and> f (p + (n - Suc j))"
proof (induction n arbitrary: j)
  case (Suc n)
  show ?case
  proof (cases j)
    case 0
    then show ?thesis by (simp only: bits_value.simps bit_append) simp
  next
    case (Suc i)
    with Suc.IH [of i] show ?thesis by (simp only: bits_value.simps bit_append) auto
  qed
qed simp

lemma bits_value_cong: "(\<And>k. p \<le> k \<Longrightarrow> k < p + n \<Longrightarrow> f k = g k) \<Longrightarrow> bits_value f p n = bits_value g p n"
  by (induction n) auto

lemma ucast_bit_at: "drop_bit i (ucast (b :: u8) :: u32) AND 1 = of_bool (bit b i)"
  by (rule bit_eqI) (auto simp: bit_simps dest: bit_imp_le_length)

lemma read_bits_loop_eq:
  assumes "br_bytes s = Some bs" "br_pos s + (i + n) \<le> 8 * length bs" "br_pos s + (i + n) \<le> SIZE_MAX"
  shows "read_bits_loop s i n (bits_value (stream bs) (br_pos s) i) = Some (bits_value (stream bs) (br_pos s) (i + n))"
  using assms(2,3)
proof (induction n arbitrary: i)
  case (Suc n)
  have "(br_pos s + i) div 8 < length bs" using Suc.prems(1) by (simp add: div_less_iff_less_mult)
  then have rd: "mem_rd (br_bytes s) ((br_pos s + i) div 8) = Some (bs ! ((br_pos s + i) div 8))" using assms(1) by simp
  have a: "sz_add (br_pos s) i = br_pos s + i" using Suc.prems(2) by (simp add: sz_add_eq)
  have "read_bits_loop s i (Suc n) (bits_value (stream bs) (br_pos s) i) =
      read_bits_loop s (Suc i) n (bits_value (stream bs) (br_pos s) (Suc i))"
    unfolding read_bits_loop.simps Let_def a rd ucast_bit_at by (simp add: stream_def)
  with Suc.IH [of "Suc i"] Suc.prems show ?case by simp
qed simp

lemma stream_write:
  assumes "p < 8 * length bs"
  shows "stream (bs[p div 8 := (if b then bs ! (p div 8) OR push_bit (7 - p mod 8) 1 else bs ! (p div 8) AND NOT (push_bit (7 - p mod 8) 1))]) k =
    (if k = p then b else stream bs k)"
proof -
  have p: "p div 8 < length bs" using assms by (simp add: div_less_iff_less_mult)
  show ?thesis
  proof (cases "k div 8 = p div 8")
    case False
    then show ?thesis by (auto simp: stream_def)
  next
    case True
    have eq: "7 - k mod 8 = 7 - p mod 8 \<longleftrightarrow> k = p"
    proof
      assume e: "7 - k mod 8 = 7 - p mod 8"
      have "k mod 8 < 8" "p mod 8 < 8" by simp_all
      with e have "k mod 8 = p mod 8" by arith
      with True show "k = p" by (metis div_mult_mod_eq)
    qed simp
    have "7 - k mod 8 < 8" by simp
    with True p eq show ?thesis by (auto simp: stream_def bit_simps)
  qed
qed

section \<open>Reading and writing\<close>

definition writer_ok :: "bit_writer \<Rightarrow> u8 list \<Rightarrow> bool" where
  "writer_ok s bs \<longleftrightarrow> bw_bytes s = Some bs \<and> bw_len s = length bs \<and> 8 * length bs \<le> SIZE_MAX \<and> bw_pos s \<le> 8 * length bs"

definition reader_ok :: "bit_reader \<Rightarrow> u8 list \<Rightarrow> bool" where
  "reader_ok s bs \<longleftrightarrow> br_bytes s = Some bs \<and> br_len s = length bs \<and> 8 * length bs \<le> SIZE_MAX \<and> br_pos s \<le> 8 * length bs"

lemma bits_available_eq: "writer_ok s bs \<Longrightarrow> bits_available s = 8 * length bs - bw_pos s"
  by (simp add: bits_available_def capacity_bits_def writer_ok_def sz_mul_eq sz_sub_eq Let_def mult.commute)

lemma bits_remaining_eq: "reader_ok s bs \<Longrightarrow> bits_remaining s = 8 * length bs - br_pos s"
  by (simp add: bits_remaining_def reader_ok_def sz_mul_eq sz_sub_eq Let_def mult.commute)

lemma drop_bit_and_1: "drop_bit i (w :: u32) AND 1 \<noteq> 0 \<longleftrightarrow> bit w i"
  by (simp add: and_one_eq bit_iff_odd_drop_bit odd_iff_mod_2_eq_one)

lemma write_bits_loop_eq:
  "writer_ok s bs \<Longrightarrow> bw_pos s + i \<le> 8 * length bs \<Longrightarrow>
   \<exists>bs'. write_bits_loop s value i = Some (s\<lparr>bw_bytes := Some bs', bw_pos := bw_pos s + i\<rparr>) \<and> length bs' = length bs \<and>
     (\<forall>k. stream bs' k = (if bw_pos s \<le> k \<and> k < bw_pos s + i then bit value (i - Suc (k - bw_pos s)) else stream bs k))"
proof (induction i arbitrary: s bs)
  case 0
  then show ?case by (intro exI [of _ bs]) (auto simp: writer_ok_def)
next
  case (Suc i)
  let ?p = "bw_pos s"
  let ?m = "push_bit (7 - ?p mod 8) (1 :: u8)"
  let ?bs = "bs[?p div 8 := (if bit value i then bs ! (?p div 8) OR ?m else bs ! (?p div 8) AND NOT ?m)]"
  let ?s = "s\<lparr>bw_bytes := Some ?bs, bw_pos := ?p + 1\<rparr>"
  from Suc.prems have p: "?p < 8 * length bs" "bw_bytes s = Some bs" "?p + 1 \<le> SIZE_MAX" by (simp_all add: writer_ok_def)
  have i: "?p div 8 < length bs" using p(1) by (simp add: div_less_iff_less_mult)
  have step: "write_bits_loop s value (Suc i) = write_bits_loop ?s value i"
    using i p(2,3) unfolding write_bits_loop.simps Let_def drop_bit_and_1 by (simp add: sz_add_eq)
  have "writer_ok ?s ?bs" "bw_pos ?s + i \<le> 8 * length ?bs" using Suc.prems by (simp_all add: writer_ok_def)
  from Suc.IH [OF this] obtain bs' where
    bs': "write_bits_loop ?s value i = Some (?s\<lparr>bw_bytes := Some bs', bw_pos := bw_pos ?s + i\<rparr>)" "length bs' = length ?bs"
    "\<forall>k. stream bs' k = (if bw_pos ?s \<le> k \<and> k < bw_pos ?s + i then bit value (i - Suc (k - bw_pos ?s)) else stream ?bs k)"
    by blast
  have "stream bs' k = (if ?p \<le> k \<and> k < ?p + Suc i then bit value (Suc i - Suc (k - ?p)) else stream bs k)" for k
  proof (cases "k = ?p")
    case True
    then show ?thesis using bs'(3) stream_write [OF p(1), of "bit value i"] by simp
  next
    case False
    then have "?p < k \<Longrightarrow> i - Suc (k - Suc ?p) = i - (k - ?p)" by arith
    with False bs'(3) stream_write [OF p(1), of "bit value i"] show ?thesis by auto
  qed
  with bs'(1,2) step show ?case by (intro exI [of _ bs']) simp
qed

lemma count_range: "1 \<le> c \<Longrightarrow> c \<le> 32 \<Longrightarrow> c \<noteq> 0 \<and> \<not> 32 < c \<and> unat (c :: u8) \<le> 32 \<and> 0 < unat c"
  by (auto simp: word_le_nat_alt word_less_nat_alt unat_gt_0)

lemma write_bits_ok:
  assumes "writer_ok s bs" "1 \<le> c" "c \<le> 32" "bw_pos s + unat c \<le> 8 * length bs"
  shows "\<exists>bs' s'. write_bits s x c = Some (Ok, s') \<and> writer_ok s' bs' \<and> length bs' = length bs \<and> bw_pos s' = bw_pos s + unat c \<and>
    (\<forall>k. stream bs' k = (if bw_pos s \<le> k \<and> k < bw_pos s + unat c then bit x (unat c - Suc (k - bw_pos s)) else stream bs k))"
proof -
  from write_bits_loop_eq [OF assms(1,4), of x] obtain bs' where
    bs': "write_bits_loop s x (unat c) = Some (s\<lparr>bw_bytes := Some bs', bw_pos := bw_pos s + unat c\<rparr>)" "length bs' = length bs"
    "\<forall>k. stream bs' k = (if bw_pos s \<le> k \<and> k < bw_pos s + unat c then bit x (unat c - Suc (k - bw_pos s)) else stream bs k)"
    by blast
  moreover have "write_bits s x c = Some (Ok, s\<lparr>bw_bytes := Some bs', bw_pos := bw_pos s + unat c\<rparr>)"
    using bs'(1) count_range [OF assms(2,3)] assms(4) bits_available_eq [OF assms(1)] by (simp add: write_bits_def)
  ultimately show ?thesis using assms(1,4)
    by (intro exI [of _ bs'] exI [of _ "s\<lparr>bw_bytes := Some bs', bw_pos := bw_pos s + unat c\<rparr>"]) (simp add: writer_ok_def)
qed

lemma read_bits_ok:
  assumes "reader_ok s bs" "1 \<le> c" "c \<le> 32" "br_pos s + unat c \<le> 8 * length bs"
  shows "read_bits s c out = Some (Ok, bits_value (stream bs) (br_pos s) (unat c), s\<lparr>br_pos := br_pos s + unat c\<rparr>)"
  using read_bits_loop_eq [of s bs 0 "unat c"] assms(1,4) count_range [OF assms(2,3)] bits_remaining_eq [OF assms(1)]
  by (simp add: read_bits_def reader_ok_def sz_add_eq)

lemma bits_value_written:
  assumes "\<forall>k. p \<le> k \<longrightarrow> k < p + n \<longrightarrow> (f k \<longleftrightarrow> bit value (n - Suc (k - p)))" "n \<le> 32"
  shows "bits_value f p n = take_bit n value"
proof (rule bit_word_eqI)
  fix j
  assume j: "j < LENGTH(32)"
  show "bit (bits_value f p n) j = bit (take_bit n value) j"
  proof (cases "j < n")
    case True
    then have "n - Suc (p + (n - Suc j) - p) = j" by arith
    with assms(1) [rule_format, of "p + (n - Suc j)"] True j show ?thesis by (simp add: bit_bits_value bit_take_bit_iff)
  qed (simp add: bit_bits_value bit_take_bit_iff)
qed

text \<open>Sequences of fields: a value and the number of its low bits that are written.\<close>

fun write_fields :: "bit_writer \<Rightarrow> (u32 \<times> u8) list \<Rightarrow> (status \<times> bit_writer) option" where
  "write_fields s [] = Some (Ok, s)"
| "write_fields s ((v, c) # fs) = do {
     (st, s') \<leftarrow> write_bits s v c;
     if st \<noteq> Ok then Some (st, s') else write_fields s' fs
   }"

fun read_fields :: "bit_reader \<Rightarrow> u8 list \<Rightarrow> (status \<times> u32 list \<times> bit_reader) option" where
  "read_fields s [] = Some (Ok, [], s)"
| "read_fields s (c # cs) = do {
     (st, v, s') \<leftarrow> read_bits s c 0;
     if st \<noteq> Ok then Some (st, [], s')
     else do {
       (st', vs, s'') \<leftarrow> read_fields s' cs;
       Some (st', v # vs, s'')
     }
   }"

definition fields_bits :: "(u32 \<times> u8) list \<Rightarrow> nat" where
  "fields_bits fs = sum_list (map (\<lambda>(v, c). unat c) fs)"

lemma write_fields_ok:
  assumes "writer_ok s bs" "\<forall>(v, c) \<in> set fs. 1 \<le> c \<and> c \<le> 32" "bw_pos s + fields_bits fs \<le> 8 * length bs"
  shows "\<exists>bs' s'. write_fields s fs = Some (Ok, s') \<and> writer_ok s' bs' \<and> length bs' = length bs \<and>
    bw_pos s' = bw_pos s + fields_bits fs \<and> (\<forall>k < bw_pos s. stream bs' k = stream bs k) \<and>
    (\<forall>r. reader_ok r bs' \<longrightarrow> br_pos r = bw_pos s \<longrightarrow>
      read_fields r (map snd fs) = Some (Ok, map (\<lambda>(v, c). take_bit (unat c) v) fs, r\<lparr>br_pos := bw_pos s'\<rparr>))"
  using assms
proof (induction fs arbitrary: s bs)
  case Nil
  then show ?case by (intro exI [of _ bs] exI [of _ s]) (simp add: fields_bits_def)
next
  case (Cons f fs)
  obtain v c where f: "f = (v, c)" by (cases f)
  have fb: "fields_bits (f # fs) = unat c + fields_bits fs" by (simp add: fields_bits_def f)
  from Cons.prems(2) f have c: "1 \<le> c" "c \<le> 32" by simp_all
  from Cons.prems(3) fb have "bw_pos s + unat c \<le> 8 * length bs" by simp
  from write_bits_ok [OF Cons.prems(1) c this, of v] obtain bs1 s1 where
    w: "write_bits s v c = Some (Ok, s1)" "writer_ok s1 bs1" "length bs1 = length bs" "bw_pos s1 = bw_pos s + unat c"
    "\<forall>k. stream bs1 k = (if bw_pos s \<le> k \<and> k < bw_pos s + unat c then bit v (unat c - Suc (k - bw_pos s)) else stream bs k)"
    by blast
  from Cons.IH [OF w(2)] Cons.prems(2,3) w(3,4) fb obtain bs' s' where
    i: "write_fields s1 fs = Some (Ok, s')" "writer_ok s' bs'" "length bs' = length bs" "bw_pos s' = bw_pos s1 + fields_bits fs"
    "\<forall>k < bw_pos s1. stream bs' k = stream bs1 k"
    "\<And>r. reader_ok r bs' \<Longrightarrow> br_pos r = bw_pos s1 \<Longrightarrow>
      read_fields r (map snd fs) = Some (Ok, map (\<lambda>(v, c). take_bit (unat c) v) fs, r\<lparr>br_pos := bw_pos s'\<rparr>)" by auto
  have "read_fields r (map snd (f # fs)) = Some (Ok, map (\<lambda>(v, c). take_bit (unat c) v) (f # fs), r\<lparr>br_pos := bw_pos s'\<rparr>)"
    if r: "reader_ok r bs'" "br_pos r = bw_pos s" for r
  proof -
    have le: "br_pos r + unat c \<le> 8 * length bs'" using r(2) Cons.prems(3) fb i(3) by simp
    have val: "bits_value (stream bs') (br_pos r) (unat c) = take_bit (unat c) v"
      using w(5) i(5) w(4) r(2) count_range [OF c] by (intro bits_value_written) simp_all
    have "reader_ok (r\<lparr>br_pos := bw_pos s1\<rparr>) bs'" using r le w(4) by (simp add: reader_ok_def)
    from i(6) [OF this] read_bits_ok [OF r(1) c le, of 0] val r(2) w(4) f show ?thesis by simp
  qed
  moreover have "\<forall>k < bw_pos s. stream bs' k = stream bs k" using i(5) w(4,5) by simp
  moreover have "write_fields s (f # fs) = Some (Ok, s')" using f w(1) i(1) by simp
  ultimately show ?case using i(2-4) w(4) fb by (intro exI [of _ bs'] exI [of _ s']) simp
qed

lemma zero_bytes_eq: "i + n \<le> length xs \<Longrightarrow> zero_bytes (Some xs) i n = Some (Some (take i xs @ replicate n 0 @ drop (i + n) xs))"
proof (induction n arbitrary: i xs)
  case (Suc n)
  then show ?case by (simp add: take_Suc_conv_app_nth drop_update_swap)
qed simp

text \<open>
  C33. Fields of 1 to 32 bits that fit into the buffer are all written, and a reader over the buffer
  reads back the low bits of every value, in order, wherever the fields cross byte boundaries.
\<close>

theorem bit_stream_roundtrip:
  assumes "\<forall>(v, c) \<in> set fs. 1 \<le> c \<and> c \<le> 32" "fields_bits fs \<le> 8 * length buf" "8 * length buf \<le> SIZE_MAX"
  shows "\<exists>w w' bs r r'. bit_writer_init w0 (Some buf) (length buf) = Some (Ok, w) \<and> write_fields w fs = Some (Ok, w') \<and>
    bw_bytes w' = Some bs \<and> length bs = length buf \<and> bit_reader_init r0 (Some bs) (length bs) = (Ok, r) \<and>
    read_fields r (map snd fs) = Some (Ok, map (\<lambda>(v, c). take_bit (unat c) v) fs, r') \<and> br_pos r' = bw_pos w'"
proof -
  let ?z = "replicate (length buf) (0 :: u8)"
  let ?w = "w0\<lparr>bw_bytes := Some ?z, bw_len := length buf, bw_pos := 0\<rparr>"
  have init: "bit_writer_init w0 (Some buf) (length buf) = Some (Ok, ?w)"
    using zero_bytes_eq [of 0 "length buf" buf] by (simp add: bit_writer_init_def)
  have "writer_ok ?w ?z" "bw_pos ?w + fields_bits fs \<le> 8 * length ?z" using assms(2,3) by (simp_all add: writer_ok_def)
  from write_fields_ok [OF this(1) assms(1) this(2)] obtain bs w' where
    w: "write_fields ?w fs = Some (Ok, w')" "writer_ok w' bs" "length bs = length buf"
    "\<And>r. reader_ok r bs \<Longrightarrow> br_pos r = 0 \<Longrightarrow>
      read_fields r (map snd fs) = Some (Ok, map (\<lambda>(v, c). take_bit (unat c) v) fs, r\<lparr>br_pos := bw_pos w'\<rparr>)" by auto
  let ?r = "r0\<lparr>br_bytes := Some bs, br_len := length bs, br_pos := 0\<rparr>"
  have "reader_ok ?r bs" using assms(3) w(3) by (simp add: reader_ok_def)
  from w(4) [OF this] have "read_fields ?r (map snd fs) = Some (Ok, map (\<lambda>(v, c). take_bit (unat c) v) fs, ?r\<lparr>br_pos := bw_pos w'\<rparr>)"
    by simp
  moreover have "bit_reader_init r0 (Some bs) (length bs) = (Ok, ?r)" by (simp add: bit_reader_init_def)
  ultimately show ?thesis using init w(1-3) by (auto simp: writer_ok_def)
qed

theorem bit_stream_roundtrip_witness:
  "\<exists>w w' bs r r'. bit_writer_init \<lparr>bw_bytes = None, bw_len = 0, bw_pos = 0\<rparr> (Some [1, 2, 3]) 3 = Some (Ok, w) \<and>
    write_fields w [(5, 3), (0x3FF, 7), (0xFFFFFFFF, 12)] = Some (Ok, w') \<and> bw_bytes w' = Some bs \<and>
    bit_reader_init \<lparr>br_bytes = None, br_len = 0, br_pos = 0\<rparr> (Some bs) 3 = (Ok, r) \<and>
    read_fields r [3, 7, 12] = Some (Ok, [5, 0x7F, 0xFFF], r')"
proof -
  let ?fs = "[(5, 3), (0x3FF, 7), (0xFFFFFFFF, 12)] :: (u32 \<times> u8) list"
  have f: "\<forall>(v, c) \<in> set ?fs. 1 \<le> c \<and> c \<le> 32" by simp
  have b: "fields_bits ?fs \<le> 8 * length [1, 2, 3 :: u8]" "8 * length [1, 2, 3 :: u8] \<le> SIZE_MAX"
    by (simp_all add: fields_bits_def SIZE_MAX_def)
  have v: "map (\<lambda>(v, c). take_bit (unat c) v) ?fs = [5, 0x7F, 0xFFF]" by code_simp
  have l: "length [1, 2, 3 :: u8] = 3" "map snd ?fs = [3, 7, 12]" by simp_all
  from bit_stream_roundtrip [OF f b, of "\<lparr>bw_bytes = None, bw_len = 0, bw_pos = 0\<rparr>" "\<lparr>br_bytes = None, br_len = 0, br_pos = 0\<rparr>"]
  show ?thesis unfolding v l by (auto simp only:) blast
qed

end
