(* ===== verification/Token_Bucket.thy ===== *)
theory Token_Bucket
  imports Utility
begin

text \<open>
  \<^verbatim>\<open>include/memkit/containers/token_bucket.hpp\<close>: a bucket of at most \<open>capacity\<close> tokens that is
  refilled tick by tick. Its counters are 32-bit words, the sum of a refill is computed in 64 bits.
\<close>

section \<open>Model\<close>

record token_bucket =
  tb_capacity :: u32
  tb_refill_per_tick :: u32
  tb_tokens :: u32

definition token_bucket_init :: "token_bucket \<Rightarrow> u32 \<Rightarrow> u32 \<Rightarrow> status \<times> token_bucket" where
  "token_bucket_init s capacity refill_per_tick =
     (if capacity = 0 then (Invalid, s)
      else (Ok, s\<lparr>tb_capacity := capacity, tb_refill_per_tick := refill_per_tick, tb_tokens := capacity\<rparr>))"

definition token_bucket_refill :: "token_bucket \<Rightarrow> u32 \<Rightarrow> token_bucket" where
  "token_bucket_refill s ticks =
     (if ticks = 0 \<or> tb_capacity s = 0 then s
      else
        let added = (ucast (tb_refill_per_tick s) :: u64) * ucast ticks;
            next = ucast (tb_tokens s) + added
        in s\<lparr>tb_tokens := ucast (min next (ucast (tb_capacity s)))\<rparr>)"

definition try_consume :: "token_bucket \<Rightarrow> u32 \<Rightarrow> status \<times> token_bucket" where
  "try_consume s count =
     (if count = 0 then (Invalid, s)
      else if tb_tokens s < count then (Empty, s)
      else (Ok, s\<lparr>tb_tokens := tb_tokens s - count\<rparr>))"

definition token_bucket_consume :: "token_bucket \<Rightarrow> u32 \<Rightarrow> status \<times> token_bucket" where
  "token_bucket_consume s count = try_consume s count"

definition token_bucket_reset :: "token_bucket \<Rightarrow> token_bucket" where
  "token_bucket_reset s = s\<lparr>tb_tokens := tb_capacity s\<rparr>"

section \<open>Arithmetic\<close>

text \<open>No refill wraps: the product of two 32-bit words plus a third fits into 64 bits.\<close>

lemma unat_u32_less: "unat (w :: u32) < 2 ^ 32"
  using unsigned_less [of w, where ?'a = nat] by simp

lemma unat_widen: "unat (ucast (w :: u32) :: u64) = unat w"
  using unat_u32_less [of w] by (simp add: unsigned_ucast_eq take_bit_nat_eq_self)

lemma refill_no_wrap:
  "unat ((ucast (a :: u32) :: u64) + ucast (r :: u32) * ucast (t :: u32)) = unat a + unat r * unat t"
proof -
  have b: "unat a < 2 ^ 32" "unat r < 2 ^ 32" "unat t < 2 ^ 32" using unat_u32_less by simp_all
  then have "unat r * unat t \<le> (2 ^ 32 - 1) * (2 ^ 32 - 1)" by (intro mult_le_mono) simp_all
  with b(1) have m: "unat r * unat t < 2 ^ 64" "unat a + unat r * unat t < 2 ^ 64" by simp_all
  have "unat ((ucast r :: u64) * ucast t) = unat r * unat t"
    using m(1) by (subst unat_mult_lem [THEN iffD1]) (simp_all add: unat_widen)
  then show ?thesis using m(2) by (subst unat_add_lem [THEN iffD1]) (simp_all add: unat_widen)
qed

lemma token_bucket_refill_tokens:
  assumes "unat (tb_tokens s) \<le> unat (tb_capacity s)"
  shows "unat (tb_tokens (token_bucket_refill s ticks)) =
    min (unat (tb_tokens s) + unat (tb_refill_per_tick s) * unat ticks) (unat (tb_capacity s))"
proof (cases "ticks = 0 \<or> tb_capacity s = 0")
  case True
  with assms show ?thesis by (auto simp: token_bucket_refill_def)
next
  case False
  let ?next = "(ucast (tb_tokens s) :: u64) + ucast (tb_refill_per_tick s) * ucast ticks" and ?cap = "ucast (tb_capacity s) :: u64"
  have cap: "unat ?cap = unat (tb_capacity s)" by (rule unat_widen)
  have m: "unat (min ?next ?cap) = min (unat (tb_tokens s) + unat (tb_refill_per_tick s) * unat ticks) (unat (tb_capacity s))"
    using refill_no_wrap [of "tb_tokens s" "tb_refill_per_tick s" ticks] cap by (simp add: min_def word_le_nat_alt)
  have "unat (ucast (min ?next ?cap) :: u32) = take_bit 32 (unat (min ?next ?cap))" by (simp add: unsigned_ucast_eq)
  also have "\<dots> = unat (min ?next ?cap)" using m unat_u32_less [of "tb_capacity s"] by (simp add: take_bit_nat_eq_self)
  finally show ?thesis using False m by (simp add: token_bucket_refill_def Let_def)
qed

section \<open>Guarantees\<close>

datatype bucket_cmd = Refill u32 | Consume u32

text \<open>A run, with the number of tokens consumed.\<close>

fun bucket_run :: "token_bucket \<Rightarrow> bucket_cmd list \<Rightarrow> nat \<times> token_bucket" where
  "bucket_run s [] = (0, s)"
| "bucket_run s (Refill t # cs) = bucket_run (token_bucket_refill s t) cs"
| "bucket_run s (Consume c # cs) =
     (let (st, s') = try_consume s c; (n, s'') = bucket_run s' cs in ((if st = Ok then unat c else 0) + n, s''))"

fun bucket_ticks :: "bucket_cmd list \<Rightarrow> nat" where
  "bucket_ticks [] = 0"
| "bucket_ticks (Refill t # cs) = unat t + bucket_ticks cs"
| "bucket_ticks (Consume c # cs) = bucket_ticks cs"

lemma token_bucket_refill_frame [simp]:
  "tb_capacity (token_bucket_refill s t) = tb_capacity s" "tb_refill_per_tick (token_bucket_refill s t) = tb_refill_per_tick s"
  by (simp_all add: token_bucket_refill_def Let_def)

lemma bucket_run_bound:
  "unat (tb_tokens s) \<le> unat (tb_capacity s) \<Longrightarrow> bucket_run s cs = (n, s') \<Longrightarrow>
   n + unat (tb_tokens s') \<le> unat (tb_tokens s) + unat (tb_refill_per_tick s) * bucket_ticks cs \<and>
   tb_capacity s' = tb_capacity s \<and> unat (tb_tokens s') \<le> unat (tb_capacity s)"
proof (induction cs arbitrary: s n rule: bucket_ticks.induct)
  case 1
  then show ?case by simp
next
  case (2 t cs)
  let ?s = "token_bucket_refill s t"
  have tok: "unat (tb_tokens ?s) = min (unat (tb_tokens s) + unat (tb_refill_per_tick s) * unat t) (unat (tb_capacity s))"
    by (rule token_bucket_refill_tokens [OF 2(2)])
  have "unat (tb_tokens ?s) \<le> unat (tb_tokens s) + unat (tb_refill_per_tick s) * unat t" using tok by simp
  moreover have "n + unat (tb_tokens s') \<le> unat (tb_tokens ?s) + unat (tb_refill_per_tick s) * bucket_ticks cs \<and>
      tb_capacity s' = tb_capacity s \<and> unat (tb_tokens s') \<le> unat (tb_capacity s)"
    using 2(1) [of ?s n] 2(3) tok by simp
  ultimately show ?case unfolding bucket_ticks.simps distrib_left by linarith
next
  case (3 c cs)
  show ?case
  proof (cases "c = 0 \<or> tb_tokens s < c")
    case True
    then have "try_consume s c = (if c = 0 then Invalid else Empty, s)" by (auto simp: try_consume_def)
    with 3 show ?thesis by (auto split: prod.splits)
  next
    case False
    then have le: "unat c \<le> unat (tb_tokens s)" by (simp add: word_le_nat_alt [symmetric] not_less)
    let ?s = "s\<lparr>tb_tokens := tb_tokens s - c\<rparr>"
    have tok: "unat (tb_tokens ?s) = unat (tb_tokens s) - unat c" using False by (simp add: unat_sub not_less)
    obtain m where m: "bucket_run ?s cs = (m, s')" "n = unat c + m"
    proof -
      have "try_consume s c = (Ok, ?s)" using False by (simp add: try_consume_def)
      with 3(3) that show ?thesis by (auto split: prod.splits)
    qed
    have "m + unat (tb_tokens s') \<le> unat (tb_tokens ?s) + unat (tb_refill_per_tick s) * bucket_ticks cs \<and>
        tb_capacity s' = tb_capacity s \<and> unat (tb_tokens s') \<le> unat (tb_capacity s)"
      using 3(1) [of ?s m] m(1) tok 3(2) by simp
    with m(2) tok le show ?thesis unfolding bucket_ticks.simps by linarith
  qed
qed

text \<open>
  C40. The rate limit: from init on, whatever the order of refills and consumptions, the tokens consumed
  never exceed the capacity plus refill_per_tick tokens for every tick, and the bucket never holds more
  than its capacity; no counter wraps.
\<close>

theorem token_bucket_rate_limit:
  assumes "capacity \<noteq> 0"
  shows "\<exists>s0 n s'. token_bucket_init s capacity rate = (Ok, s0) \<and> bucket_run s0 cs = (n, s') \<and>
    n + unat (tb_tokens s') \<le> unat capacity + unat rate * bucket_ticks cs \<and> unat (tb_tokens s') \<le> unat capacity"
proof -
  let ?s0 = "s\<lparr>tb_capacity := capacity, tb_refill_per_tick := rate, tb_tokens := capacity\<rparr>"
  obtain n s' where r: "bucket_run ?s0 cs = (n, s')" by (cases "bucket_run ?s0 cs") auto
  from bucket_run_bound [OF _ r] assms r show ?thesis by (auto simp: token_bucket_init_def)
qed

theorem token_bucket_rate_limit_witness:
  "\<exists>s0 n s'. token_bucket_init \<lparr>tb_capacity = 0, tb_refill_per_tick = 0, tb_tokens = 0\<rparr> 10 3 = (Ok, s0) \<and>
    bucket_run s0 [Consume 8, Consume 8, Refill 2, Consume 8, Refill 0xFFFFFFFF, Consume 10] = (n, s') \<and> n \<le> 10 + 3 * (2 + 0xFFFFFFFF)"
proof -
  have t: "unat (10 :: u32) + unat (3 :: u32) * bucket_ticks [Consume 8, Consume 8, Refill 2, Consume 8, Refill 0xFFFFFFFF, Consume 10] =
    10 + 3 * (2 + 0xFFFFFFFF)" by simp
  have "(10 :: u32) \<noteq> 0" by simp
  from token_bucket_rate_limit [OF this, of "\<lparr>tb_capacity = 0, tb_refill_per_tick = 0, tb_tokens = 0\<rparr>" 3
      "[Consume 8, Consume 8, Refill 2, Consume 8, Refill 0xFFFFFFFF, Consume 10]"]
  show ?thesis unfolding t by (meson add_leD1)
qed

end
