(* ===== verification/Linked.thy ===== *)
theory Linked
  imports Policy
begin

text \<open>
  Shared by the containers made of linked nodes: the environment that provides nodes, the part of the
  pops that hands an element out, lists of addresses along a link, and the contract of a sequence.

  A pointer is an address, 0 is the null pointer. The nodes of a container are a map from addresses to
  nodes; an address that is not in it is not a live node, and reading it is undefined.
\<close>

section \<open>The environment\<close>

text \<open>
  Whether the heap is compiled in, whether \<open>malloc\<close> succeeds (by the number of the call and the bytes),
  and what fresh memory holds. The block of call \<open>n\<close> has address \<open>n + 1\<close>.
\<close>

record 'e node_env =
  ne_allow_heap :: bool
  ne_malloc :: "nat \<Rightarrow> nat \<Rightarrow> bool"
  ne_junk :: 'e

text \<open>
  Handing out the element of a node: it is copied to \<open>out\<close> when there is one, and destroyed only when
  there is none.
\<close>

definition take_out :: "'e elem_policy \<Rightarrow> 'e \<Rightarrow> 'e option \<Rightarrow> 'e list \<Rightarrow> status \<times> 'e option \<times> 'e list" where
  "take_out p e out trace =
     (case out of
        Some dst \<Rightarrow> let (st, v) = copy_construct p dst e in (st, Some v, trace)
      | None \<Rightarrow> (Ok, None, if needs_destroy_on_clear p then destroy p e trace else trace))"

lemma take_out_faithful [simp]:
  "faithful p \<Longrightarrow> take_out p e out tr = (Ok, map_option (\<lambda>_. e) out, if out = None then destroy p e tr else tr)"
  by (simp add: take_out_def needs_destroy_on_clear_def destroy_def split: option.splits)

section \<open>Paths\<close>

text \<open>The addresses \<open>as\<close> met along the links \<open>nx\<close> from \<open>p\<close> until \<open>q\<close>.\<close>

fun path :: "(nat \<Rightarrow> nat option) \<Rightarrow> nat \<Rightarrow> nat list \<Rightarrow> nat \<Rightarrow> bool" where
  "path nx p [] q \<longleftrightarrow> p = q"
| "path nx p (a # as) q \<longleftrightarrow> p = a \<and> a \<noteq> 0 \<and> (\<exists>b. nx a = Some b \<and> path nx b as q)"

lemma path_append [simp]: "path nx p (as @ bs) q \<longleftrightarrow> (\<exists>r. path nx p as r \<and> path nx r bs q)"
  by (induction as arbitrary: p) auto

lemma path_other [simp]: "a \<notin> set as \<Longrightarrow> path (nx(a := v)) p as q = path nx p as q"
  by (induction as arbitrary: p) auto

lemma path_frame: "path nx p as q \<Longrightarrow> \<forall>a \<in> set as. nx' a = nx a \<Longrightarrow> path nx' p as q"
  by (induction as arbitrary: p) auto

lemma path_nodes: "path nx p as q \<Longrightarrow> a \<in> set as \<Longrightarrow> a \<noteq> 0 \<and> (\<exists>b. nx a = Some b)"
  by (induction as arbitrary: p) auto

lemma path_null [simp]: "path nx 0 as 0 \<longleftrightarrow> as = []"
  by (cases as) auto

lemma path_empty_iff: "path nx p as 0 \<Longrightarrow> p = 0 \<longleftrightarrow> as = []"
  by (cases as) auto

lemma path_start: "path nx p as q \<Longrightarrow> as \<noteq> [] \<Longrightarrow> p = hd as"
  by (cases as) auto

lemma path_unique: "path nx p as 0 \<Longrightarrow> path nx p bs 0 \<Longrightarrow> as = bs"
proof (induction as arbitrary: p bs)
  case (Cons a as)
  then show ?case by (cases bs) auto
qed simp

text \<open>The walk from \<open>p\<close> to the position \<open>i\<close> and the one before.\<close>

lemma path_split_at:
  assumes "path nx p as 0" "i < length as"
  shows "path nx p (take i as) (as ! i)" "as ! i \<noteq> 0" "\<exists>b. nx (as ! i) = Some b \<and> path nx b (drop (Suc i) as) 0"
proof -
  have "as = take i as @ as ! i # drop (Suc i) as" using assms(2) by (simp add: id_take_nth_drop)
  with assms(1) have "path nx p (take i as @ as ! i # drop (Suc i) as) 0" by simp
  then show "path nx p (take i as) (as ! i)" "as ! i \<noteq> 0" "\<exists>b. nx (as ! i) = Some b \<and> path nx b (drop (Suc i) as) 0"
    by auto
qed

text \<open>Giving the last node of a path another successor.\<close>

lemma path_redirect: "path nx p (as @ [b]) q \<Longrightarrow> b \<notin> set as \<Longrightarrow> path (nx(b \<mapsto> r)) p (as @ [b]) r"
  by auto

section \<open>Paths in both directions\<close>

definition dpath :: "(nat \<Rightarrow> nat option) \<Rightarrow> (nat \<Rightarrow> nat option) \<Rightarrow> nat \<Rightarrow> nat \<Rightarrow> nat list \<Rightarrow> bool" where
  "dpath nx pv p q as \<longleftrightarrow> path nx p as 0 \<and> path pv q (rev as) 0"

lemma dpath_frame:
  assumes "dpath nx pv p q as" "\<And>a. a \<in> set as \<Longrightarrow> nx' a = nx a \<and> pv' a = pv a"
  shows "dpath nx' pv' p q as"
proof -
  have "path nx' p as 0" using assms by (intro path_frame [of nx p as 0 nx']) (simp_all add: dpath_def)
  moreover have "path pv' q (rev as) 0" using assms by (intro path_frame [of pv q "rev as" 0 pv']) (simp_all add: dpath_def)
  ultimately show ?thesis by (simp add: dpath_def)
qed

lemma dpath_ends:
  assumes "dpath nx pv p q as"
  shows "p = hd (as @ [0])" "q = last (0 # as)" "p = 0 \<longleftrightarrow> as = []" "q = 0 \<longleftrightarrow> as = []"
proof -
  from assms have p: "path nx p as 0" and q: "path pv q (rev as) 0" by (simp_all add: dpath_def)
  show "p = hd (as @ [0])" using p by (cases as) auto
  show "q = last (0 # as)" using q by (cases as rule: rev_cases) auto
  show "p = 0 \<longleftrightarrow> as = []" using path_empty_iff [OF p] .
  show "q = 0 \<longleftrightarrow> as = []" using path_empty_iff [OF q] by simp
qed

lemma dpath_nodes: "dpath nx pv p q as \<Longrightarrow> a \<in> set as \<Longrightarrow> a \<noteq> 0 \<and> nx a \<noteq> None \<and> pv a \<noteq> None"
  using path_nodes [of nx p as 0 a] path_nodes [of pv q "rev as" 0 a] by (auto simp: dpath_def)

lemma dpath_neighbours:
  assumes "dpath nx pv p q (bs @ a # cs)"
  shows "nx a = Some (hd (cs @ [0]))" "pv a = Some (last (0 # bs))"
proof -
  from assms obtain n m where "nx a = Some n" "path nx n cs 0" "pv a = Some m" "path pv m (rev bs) 0" by (auto simp: dpath_def)
  moreover from this have "n = hd (cs @ [0])" by (cases cs) auto
  moreover from \<open>path pv m (rev bs) 0\<close> have "m = last (0 # bs)" by (cases bs rule: rev_cases) auto
  ultimately show "nx a = Some (hd (cs @ [0]))" "pv a = Some (last (0 # bs))" by simp_all
qed

text \<open>Taking a node out: its neighbours are linked to each other.\<close>

lemma dpath_unlink:
  assumes d: "dpath nx pv p q (bs @ a # cs)" and dist: "distinct (bs @ a # cs)"
    and n: "n = hd (cs @ [0])" and m: "m = last (0 # bs)"
  shows "dpath (if m = 0 then nx else nx(m \<mapsto> n)) (if n = 0 then pv else pv(n \<mapsto> m)) (if m = 0 then n else p) (if n = 0 then m else q) (bs @ cs)"
proof -
  note nb = dpath_neighbours [OF d]
  have nodes: "b \<noteq> 0" if "b \<in> set (bs @ cs)" for b using dpath_nodes [OF d, of b] that by auto
  have f: "path nx p bs a" "path nx n cs 0" using d nb(1) n by (auto simp: dpath_def)
  have b: "path pv q (rev cs) a" "path pv m (rev bs) 0" using d nb(2) m by (auto simp: dpath_def)
  have "path (if m = 0 then nx else nx(m \<mapsto> n)) (if m = 0 then n else p) (bs @ cs) 0"
    using f dist nodes m by (cases bs rule: rev_cases) auto
  moreover have "path (if n = 0 then pv else pv(n \<mapsto> m)) (if n = 0 then m else q) (rev cs @ rev bs) 0"
    using b dist nodes n by (cases cs) auto
  ultimately show ?thesis by (simp add: dpath_def)
qed

lemma dpath_push_front:
  assumes d: "dpath nx pv p q as" and a: "a \<notin> set as" "a \<noteq> 0" "distinct as"
  shows "dpath (nx(a \<mapsto> p)) ((if p = 0 then pv else pv(p \<mapsto> a))(a \<mapsto> 0)) a (if p = 0 then a else q) (a # as)"
proof (cases as)
  case Nil
  with d a show ?thesis by (auto simp: dpath_def)
next
  case (Cons b bs)
  with d have [simp]: "p = b" "b \<noteq> 0" by (auto simp: dpath_def)
  have "path pv q (rev bs) b" using d Cons by (auto simp: dpath_def)
  moreover have "b \<notin> set bs" "a \<noteq> b" "a \<notin> set bs" using a Cons by auto
  ultimately show ?thesis using d a Cons by (auto simp: dpath_def)
qed

section \<open>Pools of nodes\<close>

text \<open>The nodes of a pool lie one stride apart, below the end of the address space.\<close>

lemma pool_address:
  assumes "base + n * w \<le> SIZE_MAX" "i < n"
  shows "sz_add base (sz_mul i w) = base + i * w" "w \<le> SIZE_MAX"
proof -
  have "Suc i * w \<le> n * w" using assms(2) by (intro mult_le_mono1) simp
  then have "i * w + w \<le> n * w" by simp
  with assms(1) have "base + i * w \<le> SIZE_MAX" "w \<le> SIZE_MAX" by linarith+
  then show "sz_add base (sz_mul i w) = base + i * w" "w \<le> SIZE_MAX" by (simp_all add: sz_add_eq sz_mul_eq)
qed

text \<open>Visiting from the last element to the first; the first has index 0.\<close>

fun visit_back :: "('e \<Rightarrow> nat \<Rightarrow> 'w \<Rightarrow> status \<times> 'w) \<Rightarrow> 'e list \<Rightarrow> 'w \<Rightarrow> status \<times> 'w" where
  "visit_back visit [] w = (Ok, w)"
| "visit_back visit (x # xs) w =
     (let (st, w') = visit x (length xs) w in if st \<noteq> Ok then (st, w') else visit_back visit xs w')"

section \<open>Sequences\<close>

text \<open>
  The contract of a list: elements are inserted, removed and looked at by position and at the ends. A run
  gives the status of every call and the element it handed out.
\<close>

datatype 'e seq_cmd = Seq_push_front 'e | Seq_push_back 'e | Seq_insert nat 'e | Seq_pop_front | Seq_pop_back | Seq_remove nat | Seq_at nat
  | Seq_front | Seq_back

definition seq_room :: "nat option \<Rightarrow> 'e list \<Rightarrow> bool" where
  "seq_room n xs \<longleftrightarrow> (case n of None \<Rightarrow> True | Some k \<Rightarrow> length xs < k)"

definition seq_put :: "nat option \<Rightarrow> 'e list \<Rightarrow> nat \<Rightarrow> 'e \<Rightarrow> status \<times> 'e option \<times> 'e list" where
  "seq_put n xs i e = (if seq_room n xs then (Ok, None, take i xs @ e # drop i xs) else (Full, None, xs))"

definition seq_take :: "'e list \<Rightarrow> nat \<Rightarrow> status \<times> 'e option \<times> 'e list" where
  "seq_take xs i = (Ok, Some (xs ! i), take i xs @ drop (Suc i) xs)"

fun seq_step :: "nat option \<Rightarrow> 'e list \<Rightarrow> 'e seq_cmd \<Rightarrow> status \<times> 'e option \<times> 'e list" where
  "seq_step n xs (Seq_push_front e) = seq_put n xs 0 e"
| "seq_step n xs (Seq_push_back e) = seq_put n xs (length xs) e"
| "seq_step n xs (Seq_insert i e) = (if i \<le> length xs then seq_put n xs i e else (Invalid, None, xs))"
| "seq_step n xs Seq_pop_front = (if xs = [] then (Empty, None, xs) else seq_take xs 0)"
| "seq_step n xs Seq_pop_back = (if xs = [] then (Empty, None, xs) else seq_take xs (length xs - 1))"
| "seq_step n xs (Seq_remove i) = (if i < length xs then seq_take xs i else (Invalid, None, xs))"
| "seq_step n xs (Seq_at i) = (if i < length xs then (Ok, Some (xs ! i), xs) else (Invalid, None, xs))"
| "seq_step n xs Seq_front = (if xs = [] then (Empty, None, xs) else (Ok, Some (xs ! 0), xs))"
| "seq_step n xs Seq_back = (if xs = [] then (Empty, None, xs) else (Ok, Some (xs ! (length xs - 1)), xs))"

fun seq_spec :: "nat option \<Rightarrow> 'e list \<Rightarrow> 'e seq_cmd list \<Rightarrow> (status \<times> 'e option) list \<times> 'e list" where
  "seq_spec n xs [] = ([], xs)"
| "seq_spec n xs (c # cs) =
     (let (st, out, ys) = seq_step n xs c; (rs, zs) = seq_spec n ys cs in ((st, out) # rs, zs))"

fun seq_inserts :: "'e seq_cmd \<Rightarrow> bool" where
  "seq_inserts (Seq_push_front e) = True"
| "seq_inserts (Seq_push_back e) = True"
| "seq_inserts (Seq_insert i e) = True"
| "seq_inserts _ = False"

fun seq_call ::
  "('s \<Rightarrow> 'e \<Rightarrow> (status \<times> 's) option) \<Rightarrow> ('s \<Rightarrow> 'e \<Rightarrow> (status \<times> 's) option) \<Rightarrow> ('s \<Rightarrow> nat \<Rightarrow> 'e \<Rightarrow> (status \<times> 's) option) \<Rightarrow>
   ('s \<Rightarrow> (status \<times> 'e option \<times> 's) option) \<Rightarrow> ('s \<Rightarrow> (status \<times> 'e option \<times> 's) option) \<Rightarrow>
   ('s \<Rightarrow> nat \<Rightarrow> (status \<times> 'e option \<times> 's) option) \<Rightarrow> ('s \<Rightarrow> nat \<Rightarrow> (status \<times> 'e option) option) \<Rightarrow>
   ('s \<Rightarrow> (status \<times> 'e option) option) \<Rightarrow> ('s \<Rightarrow> (status \<times> 'e option) option) \<Rightarrow>
   's \<Rightarrow> 'e seq_cmd \<Rightarrow> (status \<times> 'e option \<times> 's) option" where
  "seq_call pf pb ia fp bp ra pk fk bk s (Seq_push_front e) = map_option (\<lambda>(st, s'). (st, None, s')) (pf s e)"
| "seq_call pf pb ia fp bp ra pk fk bk s (Seq_push_back e) = map_option (\<lambda>(st, s'). (st, None, s')) (pb s e)"
| "seq_call pf pb ia fp bp ra pk fk bk s (Seq_insert i e) = map_option (\<lambda>(st, s'). (st, None, s')) (ia s i e)"
| "seq_call pf pb ia fp bp ra pk fk bk s Seq_pop_front = fp s"
| "seq_call pf pb ia fp bp ra pk fk bk s Seq_pop_back = bp s"
| "seq_call pf pb ia fp bp ra pk fk bk s (Seq_remove i) = ra s i"
| "seq_call pf pb ia fp bp ra pk fk bk s (Seq_at i) = map_option (\<lambda>(st, out). (st, out, s)) (pk s i)"
| "seq_call pf pb ia fp bp ra pk fk bk s Seq_front = map_option (\<lambda>(st, out). (st, out, s)) (fk s)"
| "seq_call pf pb ia fp bp ra pk fk bk s Seq_back = map_option (\<lambda>(st, out). (st, out, s)) (bk s)"

fun seq_run :: "('s \<Rightarrow> 'e seq_cmd \<Rightarrow> (status \<times> 'e option \<times> 's) option) \<Rightarrow> 's \<Rightarrow> 'e seq_cmd list \<Rightarrow>
    ((status \<times> 'e option) list \<times> 's) option" where
  "seq_run call s [] = Some ([], s)"
| "seq_run call s (c # cs) = do {
     (st, out, s1) \<leftarrow> call s c;
     (rs, s2) \<leftarrow> seq_run call s1 cs;
     Some ((st, if st = Ok then out else None) # rs, s2)
   }"

text \<open>
  \<open>seq_meets\<close>: a call has the result the contract asks for. The invariant carries the number of insertions
  that are still allowed, which keeps the element counter from wrapping when there is no capacity.
\<close>

definition seq_meets ::
  "(nat \<Rightarrow> 's \<Rightarrow> bool) \<Rightarrow> ('s \<Rightarrow> 'e list) \<Rightarrow> ('s \<Rightarrow> nat option) \<Rightarrow> nat \<Rightarrow> 's \<Rightarrow> 'e seq_cmd \<Rightarrow> (status \<times> 'e option \<times> 's) option \<Rightarrow> bool" where
  "seq_meets good items limit m s c r \<longleftrightarrow>
     (\<exists>st out s'. r = Some (st, out, s') \<and> good m s' \<and> limit s' = limit s \<and>
        seq_step (limit s) (items s) c = (st, if st = Ok then out else None, items s'))"

locale sequence =
  fixes inv :: "nat \<Rightarrow> 's \<Rightarrow> bool" and items :: "'s \<Rightarrow> 'e list" and limit :: "'s \<Rightarrow> nat option"
    and push_front :: "'s \<Rightarrow> 'e \<Rightarrow> (status \<times> 's) option" and push_back :: "'s \<Rightarrow> 'e \<Rightarrow> (status \<times> 's) option"
    and insert_at :: "'s \<Rightarrow> nat \<Rightarrow> 'e \<Rightarrow> (status \<times> 's) option"
    and pop_front :: "'s \<Rightarrow> (status \<times> 'e option \<times> 's) option" and pop_back :: "'s \<Rightarrow> (status \<times> 'e option \<times> 's) option"
    and remove_at :: "'s \<Rightarrow> nat \<Rightarrow> (status \<times> 'e option \<times> 's) option"
    and peek_at :: "'s \<Rightarrow> nat \<Rightarrow> (status \<times> 'e option) option"
    and peek_front :: "'s \<Rightarrow> (status \<times> 'e option) option" and peek_back :: "'s \<Rightarrow> (status \<times> 'e option) option"
  assumes push_front_law: "inv (Suc m) s \<Longrightarrow> seq_meets inv items limit m s (Seq_push_front e) (map_option (\<lambda>(st, s'). (st, None, s')) (push_front s e))"
    and push_back_law: "inv (Suc m) s \<Longrightarrow> seq_meets inv items limit m s (Seq_push_back e) (map_option (\<lambda>(st, s'). (st, None, s')) (push_back s e))"
    and insert_at_law: "inv (Suc m) s \<Longrightarrow> seq_meets inv items limit m s (Seq_insert i e) (map_option (\<lambda>(st, s'). (st, None, s')) (insert_at s i e))"
    and pop_front_law: "inv m s \<Longrightarrow> seq_meets inv items limit m s Seq_pop_front (pop_front s)"
    and pop_back_law: "inv m s \<Longrightarrow> seq_meets inv items limit m s Seq_pop_back (pop_back s)"
    and remove_at_law: "inv m s \<Longrightarrow> seq_meets inv items limit m s (Seq_remove i) (remove_at s i)"
    and peek_at_law: "inv m s \<Longrightarrow> seq_meets inv items limit m s (Seq_at i) (map_option (\<lambda>(st, out). (st, out, s)) (peek_at s i))"
    and peek_front_law: "inv m s \<Longrightarrow> seq_meets inv items limit m s Seq_front (map_option (\<lambda>(st, out). (st, out, s)) (peek_front s))"
    and peek_back_law: "inv m s \<Longrightarrow> seq_meets inv items limit m s Seq_back (map_option (\<lambda>(st, out). (st, out, s)) (peek_back s))"
begin

abbreviation call :: "'s \<Rightarrow> 'e seq_cmd \<Rightarrow> (status \<times> 'e option \<times> 's) option" where
  "call \<equiv> seq_call push_front push_back insert_at pop_front pop_back remove_at peek_at peek_front peek_back"

lemma call_meets: "inv (if seq_inserts c then Suc m else m) s \<Longrightarrow> seq_meets inv items limit m s c (call s c)"
  by (cases c) (simp_all add: push_front_law push_back_law insert_at_law pop_front_law pop_back_law remove_at_law peek_at_law peek_front_law peek_back_law)

lemma run_refines:
  assumes "inv (length (filter seq_inserts cs) + m) s"
  shows "\<exists>s'. seq_run call s cs = Some (fst (seq_spec (limit s) (items s) cs), s') \<and> inv m s' \<and> limit s' = limit s \<and>
    items s' = snd (seq_spec (limit s) (items s) cs)"
  using assms
proof (induction cs arbitrary: s)
  case (Cons c cs)
  have "inv (if seq_inserts c then Suc (length (filter seq_inserts cs) + m) else length (filter seq_inserts cs) + m) s"
    using Cons.prems by (simp split: if_splits)
  from call_meets [OF this] obtain st out s1 where s1: "call s c = Some (st, out, s1)"
    "inv (length (filter seq_inserts cs) + m) s1" "limit s1 = limit s"
    "seq_step (limit s) (items s) c = (st, if st = Ok then out else None, items s1)"
    unfolding seq_meets_def by blast
  from Cons.IH [OF s1(2)] s1 show ?case by (auto simp: split_beta)
qed simp

text \<open>An element inserted at a position is the one removed from it.\<close>

lemma insert_remove:
  assumes "inv (Suc m) s" "seq_room (limit s) (items s)" "i \<le> length (items s)"
  shows "\<exists>s1 s2. insert_at s i e = Some (Ok, s1) \<and> remove_at s1 i = Some (Ok, Some e, s2) \<and> items s2 = items s \<and> inv m s2"
proof -
  from insert_at_law [OF assms(1), of i e] assms obtain s1 where
    s1: "insert_at s i e = Some (Ok, s1)" "inv m s1" "items s1 = take i (items s) @ e # drop i (items s)"
    by (auto simp: seq_meets_def seq_put_def)
  from remove_at_law [OF s1(2), of i] s1(3) assms(3) obtain s2 where "remove_at s1 i = Some (Ok, Some e, s2)" "items s2 = items s" "inv m s2"
    by (auto simp: seq_meets_def seq_take_def nth_append split: if_splits)
  with s1 show ?thesis by blast
qed

end

section \<open>Sequences of nodes\<close>

text \<open>
  What the containers made of nodes share: \<open>links s as vs fs\<close> says that the nodes \<open>as\<close> hold the elements
  \<open>vs\<close> and that the nodes \<open>fs\<close> are free; a pool has a capacity, the heap has none. \<open>node_seq_ok\<close> is the
  invariant: the element counter is right and has room for \<open>m\<close> more elements.
\<close>

definition node_seq_ok ::
  "('s \<Rightarrow> nat list \<Rightarrow> 'e list \<Rightarrow> nat list \<Rightarrow> bool) \<Rightarrow> ('s \<Rightarrow> nat) \<Rightarrow> ('s \<Rightarrow> 'e list) \<Rightarrow> ('s \<Rightarrow> nat option) \<Rightarrow> bool \<Rightarrow> nat \<Rightarrow> 's \<Rightarrow> bool" where
  "node_seq_ok links count items cap heap m s \<longleftrightarrow>
     (\<exists>as fs. links s as (items s) fs \<and> count s = length as) \<and>
     (case cap s of Some c \<Rightarrow> c \<le> SIZE_MAX | None \<Rightarrow> heap \<and> count s + m \<le> SIZE_MAX)"

definition heap_serves :: "'e node_env \<Rightarrow> bool" where
  "heap_serves env \<longleftrightarrow> ne_allow_heap env \<and> (\<forall>n b. ne_malloc env n b)"

definition node_room :: "bool \<Rightarrow> nat option \<Rightarrow> nat list \<Rightarrow> bool" where
  "node_room heap cap fs \<longleftrightarrow> (case cap of Some _ \<Rightarrow> fs \<noteq> [] | None \<Rightarrow> heap)"

locale node_seq =
  fixes links :: "'s \<Rightarrow> nat list \<Rightarrow> 'e list \<Rightarrow> nat list \<Rightarrow> bool" and frame :: "'s \<Rightarrow> 's \<Rightarrow> bool"
    and count :: "'s \<Rightarrow> nat" and items :: "'s \<Rightarrow> 'e list" and cap :: "'s \<Rightarrow> nat option"
  assumes links_length: "links s as vs fs \<Longrightarrow> length vs = length as"
    and links_cap: "links s as vs fs \<Longrightarrow> cap s = Some c \<Longrightarrow> length as + length fs = c"
    and links_items: "links s as vs fs \<Longrightarrow> count s = length as \<Longrightarrow> items s = vs"
    and frame_cap: "frame s s' \<Longrightarrow> cap s' = cap s"
begin

abbreviation good :: "bool \<Rightarrow> nat \<Rightarrow> 's \<Rightarrow> bool" where
  "good \<equiv> node_seq_ok links count items cap"

lemma goodE:
  assumes "good heap m s"
  obtains as fs where "links s as (items s) fs" "count s = length as" "length (items s) = length as" "count s \<le> SIZE_MAX"
    "node_room heap (cap s) fs \<longleftrightarrow> seq_room (cap s) (items s)" "\<not> node_room heap (cap s) fs \<Longrightarrow> fs = [] \<and> cap s \<noteq> None"
    "node_room heap (cap s) fs \<Longrightarrow> cap s = None \<or> Suc (length as) \<le> SIZE_MAX"
proof -
  from assms obtain as fs where l: "links s as (items s) fs" "count s = length as" by (auto simp: node_seq_ok_def)
  note len = links_length [OF l(1)]
  show thesis
  proof (cases "cap s")
    case None
    with assms l len show thesis by (intro that [OF l len]) (simp_all add: node_seq_ok_def node_room_def seq_room_def)
  next
    case (Some c)
    with assms l len links_cap [OF l(1) Some] show thesis
      by (intro that [OF l len]) (cases fs; simp add: node_seq_ok_def node_room_def seq_room_def)+
  qed
qed

lemma good_Suc: "good heap (Suc m) s \<Longrightarrow> good heap m s"
  by (auto simp: node_seq_ok_def split: option.splits)

lemma good_result:
  assumes "good heap n s" "links s' as' vs fs'" "frame s s'" "count s' = length as'" "count s' + m \<le> count s + n"
  shows "good heap m s' \<and> items s' = vs \<and> cap s' = cap s"
proof -
  have "items s' = vs" by (rule links_items [OF assms(2,4)])
  with assms frame_cap [OF assms(3)] show ?thesis by (auto simp: node_seq_ok_def split: option.splits)
qed

text \<open>An insertion, a removal, and a call that changes nothing.\<close>

lemma put_meets:
  assumes ok: "good heap (Suc m) s" and i: "i \<le> length (items s)"
    and step: "seq_step (cap s) (items s) c = seq_put (cap s) (items s) i e"
    and room: "\<And>as fs. links s as (items s) fs \<Longrightarrow> count s = length as \<Longrightarrow> length (items s) = length as \<Longrightarrow> node_room heap (cap s) fs \<Longrightarrow>
      \<exists>s' as' fs'. r = Some (Ok, s') \<and> links s' as' (take i (items s) @ e # drop i (items s)) fs' \<and>
        frame s s' \<and> count s' = sz_add (count s) 1"
    and full: "\<And>as. links s as (items s) [] \<Longrightarrow> count s = length as \<Longrightarrow> length (items s) = length as \<Longrightarrow> cap s \<noteq> None \<Longrightarrow> r = Some (Full, s)"
  shows "seq_meets (good heap) items cap m s c (map_option (\<lambda>(st, s'). (st, None, s')) r)"
proof -
  from goodE [OF ok] obtain as fs where l: "links s as (items s) fs" "count s = length as" "length (items s) = length as" "count s \<le> SIZE_MAX"
    "node_room heap (cap s) fs \<longleftrightarrow> seq_room (cap s) (items s)" "\<not> node_room heap (cap s) fs \<Longrightarrow> fs = [] \<and> cap s \<noteq> None"
    "node_room heap (cap s) fs \<Longrightarrow> cap s = None \<or> Suc (length as) \<le> SIZE_MAX" by metis
  show ?thesis
  proof (cases "node_room heap (cap s) fs")
    case True
    from room [OF l(1-3) True] obtain s' as' fs' where s': "r = Some (Ok, s')"
      "links s' as' (take i (items s) @ e # drop i (items s)) fs'" "frame s s'" "count s' = sz_add (count s) 1"
      by blast
    have len: "length as' = Suc (length as)" using links_length [OF s'(2)] i l(3) by simp
    have "Suc (length as) \<le> SIZE_MAX"
      using l(7) [OF True] ok l(2) by (auto simp: node_seq_ok_def)
    then have size: "count s' = length as'" using s'(4) l(2) len by (simp add: size_simps)
    have "count s' + m \<le> count s + Suc m" using size len l(2) by simp
    from good_result [OF ok s'(2,3) size this] s'(1) True l(5) step show ?thesis
      by (simp add: seq_meets_def seq_put_def)
  next
    case False
    with full [of as] l have "r = Some (Full, s)" by simp
    with False l(5) step good_Suc [OF ok] show ?thesis by (simp add: seq_meets_def seq_put_def)
  qed
qed

lemma take_meets:
  assumes ok: "good heap m s" and i: "i < length (items s)"
    and step: "seq_step (cap s) (items s) c = seq_take (items s) i"
    and taken: "\<And>as fs. links s as (items s) fs \<Longrightarrow> count s = length as \<Longrightarrow> length as \<le> SIZE_MAX \<Longrightarrow> length (items s) = length as \<Longrightarrow>
      \<exists>s' as' fs'. r = Some (Ok, Some (items s ! i), s') \<and> links s' as' (take i (items s) @ drop (Suc i) (items s)) fs' \<and>
        frame s s' \<and> count s' = sz_sub (count s) 1"
  shows "seq_meets (good heap) items cap m s c r"
proof -
  from goodE [OF ok] obtain as fs where l: "links s as (items s) fs" "count s = length as" "length (items s) = length as" "count s \<le> SIZE_MAX"
    by metis
  from taken [OF l(1,2) _ l(3)] l(2,4) obtain s' as' fs' where s': "r = Some (Ok, Some (items s ! i), s')"
    "links s' as' (take i (items s) @ drop (Suc i) (items s)) fs'" "frame s s'" "count s' = sz_sub (count s) 1" by auto
  have len: "Suc (length as') = length as" using links_length [OF s'(2)] i l(3) by simp
  have size: "count s' = length as'" using s'(4) l(2,4) len by (simp add: size_simps)
  then have "count s' + m \<le> count s + m" using len l(2) by simp
  from good_result [OF ok s'(2,3) size this] s'(1) step show ?thesis by (simp add: seq_meets_def seq_take_def)
qed

lemma same_meets:
  "good heap m s \<Longrightarrow> r = Some (st, out, s) \<Longrightarrow> seq_step (cap s) (items s) c = (st, if st = Ok then out else None, items s) \<Longrightarrow>
   seq_meets (good heap) items cap m s c r"
  by (simp add: seq_meets_def)

end

end
