(* ===== verification/List_Core.thy ===== *)
theory List_Core
  imports Linked
begin

text \<open>
  \<^verbatim>\<open>include/memkit/detail/list_core.hpp\<close>: the singly linked list, with nodes from a fixed pool or from
  the heap. \<open>li_nodes\<close> are the nodes that exist: the slots of the pool, or the blocks from \<open>malloc\<close> that
  are not freed.
\<close>

record 'e list_node =
  ln_next :: nat
  ln_data :: 'e

record 'e list_core =
  li_policy :: "'e elem_policy"
  li_head :: nat
  li_tail :: nat
  li_free :: nat
  li_size :: nat
  li_capacity :: nat
  li_pool :: nat
  li_flags :: u8
  li_kind :: u8
  li_nodes :: "nat \<Rightarrow> 'e list_node option"
  li_allocs :: nat
  li_destroyed :: "'e list"

definition list_fixed_pool :: u8 where "list_fixed_pool = 1"
definition list_heap_dynamic :: u8 where "list_heap_dynamic = 2"

definition list_node_stride :: "nat \<Rightarrow> nat" where
  "list_node_stride elem_size = sz_add 8 elem_size"

definition list_pool_bytes :: "nat \<Rightarrow> nat \<Rightarrow> nat" where
  "list_pool_bytes node_capacity elem_size = sz_mul (list_node_stride elem_size) node_capacity"

definition list_is_fixed :: "'e list_core \<Rightarrow> bool" where
  "list_is_fixed s \<longleftrightarrow> li_flags s AND list_fixed_pool \<noteq> 0"

definition list_capacity :: "'e list_core \<Rightarrow> nat" where
  "list_capacity s = (if list_is_fixed s then li_capacity s else SIZE_MAX)"

definition list_empty :: "'e list_core \<Rightarrow> bool" where
  "list_empty s \<longleftrightarrow> li_size s = 0"

definition list_full :: "'e list_core \<Rightarrow> bool" where
  "list_full s \<longleftrightarrow> list_is_fixed s \<and> li_size s \<ge> li_capacity s"

definition list_set_storage_kind :: "'e list_core \<Rightarrow> u8 \<Rightarrow> 'e list_core" where
  "list_set_storage_kind s kind = s\<lparr>li_kind := kind\<rparr>"

section \<open>Nodes\<close>

definition list_pool_node_at :: "'e list_core \<Rightarrow> nat \<Rightarrow> nat" where
  "list_pool_node_at s index = sz_add (li_pool s) (sz_mul index (list_node_stride (ep_size (li_policy s))))"

definition list_set_next :: "'e list_core \<Rightarrow> nat \<Rightarrow> nat \<Rightarrow> 'e list_core option" where
  "list_set_next s a p = do {
     nd \<leftarrow> li_nodes s a;
     Some (s\<lparr>li_nodes := (li_nodes s)(a \<mapsto> nd\<lparr>ln_next := p\<rparr>)\<rparr>)
   }"

fun list_free_loop :: "'e list_core \<Rightarrow> nat \<Rightarrow> nat \<Rightarrow> 'e list_core option" where
  "list_free_loop s i 0 = Some s"
| "list_free_loop s i (Suc n) = do {
     let slot = list_pool_node_at s i;
     s1 \<leftarrow> list_set_next s slot (li_free s);
     list_free_loop (s1\<lparr>li_free := slot\<rparr>) (Suc i) n
   }"

definition list_init_free_list :: "'e list_core \<Rightarrow> (status \<times> 'e list_core) option" where
  "list_init_free_list s = do {
     s' \<leftarrow> list_free_loop (s\<lparr>li_free := 0\<rparr>) 0 (li_capacity s);
     Some (Ok, s')
   }"

text \<open>\<open>nodes\<close> is the memory of the pool, whatever it holds.\<close>

definition list_init ::
  "'e list_core \<Rightarrow> 'e elem_policy \<Rightarrow> nat \<Rightarrow> (nat \<Rightarrow> 'e list_node option) \<Rightarrow> nat \<Rightarrow> u8 \<Rightarrow> (status \<times> 'e list_core) option" where
  "list_init s policy node_pool nodes node_capacity flags =
     (if node_pool = 0 \<or> node_capacity = 0 then Some (Invalid, s)
      else list_init_free_list (s\<lparr>li_policy := policy, li_pool := node_pool, li_nodes := nodes, li_capacity := node_capacity,
             li_head := 0, li_tail := 0, li_size := 0, li_flags := flags, li_kind := 0\<rparr>))"

definition list_init_dynamic :: "'e list_core \<Rightarrow> 'e elem_policy \<Rightarrow> status \<times> 'e list_core" where
  "list_init_dynamic s policy =
     (Ok, s\<lparr>li_policy := policy, li_pool := 0, li_capacity := 0, li_head := 0, li_tail := 0, li_free := 0, li_size := 0,
            li_flags := list_heap_dynamic, li_kind := 0\<rparr>)"

definition list_reset_state :: "'e elem_policy \<Rightarrow> 'e list_core \<Rightarrow> 'e list_core" where
  "list_reset_state default_policy s =
     s\<lparr>li_policy := default_policy, li_head := 0, li_tail := 0, li_free := 0, li_size := 0, li_capacity := 0, li_pool := 0,
       li_flags := 0, li_kind := 0\<rparr>"

definition list_acquire_node :: "'e node_env \<Rightarrow> 'e list_core \<Rightarrow> (status \<times> nat \<times> 'e list_core) option" where
  "list_acquire_node env s =
     (if list_is_fixed s then
        (if li_free s = 0 then Some (Full, 0, s)
         else do {
           let slot = li_free s;
           nd \<leftarrow> li_nodes s slot;
           s1 \<leftarrow> list_set_next (s\<lparr>li_free := ln_next nd\<rparr>) slot 0;
           Some (Ok, slot, s1)
         })
      else if \<not> ne_allow_heap env then Some (Unsupported, 0, s)
      else
        let s1 = s\<lparr>li_allocs := Suc (li_allocs s)\<rparr>; slot = Suc (li_allocs s) in
        if ne_malloc env (li_allocs s) (list_node_stride (ep_size (li_policy s)))
        then Some (Ok, slot, s1\<lparr>li_nodes := (li_nodes s1)(slot \<mapsto> \<lparr>ln_next = 0, ln_data = ne_junk env\<rparr>)\<rparr>)
        else Some (Oom, 0, s1))"

definition list_release_node :: "'e node_env \<Rightarrow> 'e list_core \<Rightarrow> nat \<Rightarrow> 'e list_core option" where
  "list_release_node env s slot =
     (if slot = 0 then Some s
      else if list_is_fixed s then do {
        s1 \<leftarrow> list_set_next s slot (li_free s);
        Some (s1\<lparr>li_free := slot\<rparr>)
      }
      else if \<not> ne_allow_heap env then Some s
      else do {
        _ \<leftarrow> li_nodes s slot;
        Some (s\<lparr>li_nodes := (li_nodes s)(slot := None)\<rparr>)
      })"

definition list_make_node :: "'e node_env \<Rightarrow> 'e list_core \<Rightarrow> 'e option \<Rightarrow> (status \<times> nat \<times> 'e list_core) option" where
  "list_make_node env s val = do {
     (st, slot, s1) \<leftarrow> list_acquire_node env s;
     if \<not> ok st then Some (st, 0, s1)
     else do {
       nd \<leftarrow> li_nodes s1 slot;
       v \<leftarrow> val;
       let (cst, e) = copy_construct (li_policy s1) (ln_data nd) v;
       let s2 = s1\<lparr>li_nodes := (li_nodes s1)(slot \<mapsto> nd\<lparr>ln_data := e\<rparr>)\<rparr>;
       if \<not> ok cst then do {
         s3 \<leftarrow> list_release_node env s2 slot;
         Some (cst, 0, s3)
       }
       else Some (Ok, slot, s2)
     }
   }"

definition list_destroy_node_value :: "'e list_core \<Rightarrow> nat \<Rightarrow> 'e list_core option" where
  "list_destroy_node_value s slot =
     (if needs_destroy_on_clear (li_policy s) then do {
        nd \<leftarrow> li_nodes s slot;
        Some (s\<lparr>li_destroyed := destroy (li_policy s) (ln_data nd) (li_destroyed s)\<rparr>)
      }
      else Some s)"

definition list_unlink_front :: "'e list_core \<Rightarrow> 'e list_core option" where
  "list_unlink_front s =
     (if li_head s = 0 then Some s
      else do {
        nd \<leftarrow> li_nodes s (li_head s);
        let s1 = s\<lparr>li_head := ln_next nd\<rparr>;
        Some (if li_head s1 = 0 then s1\<lparr>li_tail := 0\<rparr> else s1)
      })"

text \<open>The node \<open>i\<close> links ahead and the one before it.\<close>

fun list_node_at_loop :: "'e list_core \<Rightarrow> nat \<Rightarrow> nat \<Rightarrow> nat \<Rightarrow> (nat \<times> nat) option" where
  "list_node_at_loop s 0 prev current = Some (current, prev)"
| "list_node_at_loop s (Suc i) prev current =
     (if current = 0 then Some (current, prev)
      else do {
        nd \<leftarrow> li_nodes s current;
        list_node_at_loop s i current (ln_next nd)
      })"

definition list_node_at :: "'e list_core \<Rightarrow> nat \<Rightarrow> (nat \<times> nat) option" where
  "list_node_at s index = list_node_at_loop s index 0 (li_head s)"

section \<open>Operations\<close>

definition list_insert_front :: "'e node_env \<Rightarrow> 'e list_core \<Rightarrow> 'e option \<Rightarrow> (status \<times> 'e list_core) option" where
  "list_insert_front env s val = do {
     (st, new, s1) \<leftarrow> list_make_node env s val;
     if \<not> ok st then Some (st, s1)
     else do {
       s2 \<leftarrow> list_set_next s1 new (li_head s1);
       let s3 = s2\<lparr>li_head := new\<rparr>;
       let s4 = (if li_tail s3 = 0 then s3\<lparr>li_tail := new\<rparr> else s3);
       Some (Ok, s4\<lparr>li_size := sz_add (li_size s4) 1\<rparr>)
     }
   }"

definition list_insert_back :: "'e node_env \<Rightarrow> 'e list_core \<Rightarrow> 'e option \<Rightarrow> (status \<times> 'e list_core) option" where
  "list_insert_back env s val = do {
     (st, new, s1) \<leftarrow> list_make_node env s val;
     if \<not> ok st then Some (st, s1)
     else do {
       s2 \<leftarrow> list_set_next s1 new 0;
       s3 \<leftarrow> (if li_tail s2 = 0 then Some (s2\<lparr>li_head := new, li_tail := new\<rparr>)
               else do {
                 s' \<leftarrow> list_set_next s2 (li_tail s2) new;
                 Some (s'\<lparr>li_tail := new\<rparr>)
               });
       Some (Ok, s3\<lparr>li_size := sz_add (li_size s3) 1\<rparr>)
     }
   }"

definition list_push_front :: "'e node_env \<Rightarrow> 'e list_core \<Rightarrow> 'e option \<Rightarrow> (status \<times> 'e list_core) option" where
  "list_push_front = list_insert_front"

definition list_push_back :: "'e node_env \<Rightarrow> 'e list_core \<Rightarrow> 'e option \<Rightarrow> (status \<times> 'e list_core) option" where
  "list_push_back = list_insert_back"

text \<open>The element of a node is handed out, or destroyed when there is no \<open>out\<close>.\<close>

definition list_hand_out :: "'e list_core \<Rightarrow> nat \<Rightarrow> 'e option \<Rightarrow> (status \<times> 'e option \<times> 'e list_core) option" where
  "list_hand_out s current out = do {
     nd \<leftarrow> li_nodes s current;
     let (st, out', trace) = take_out (li_policy s) (ln_data nd) out (li_destroyed s);
     Some (st, out', s\<lparr>li_destroyed := trace\<rparr>)
   }"

definition list_pop_front :: "'e node_env \<Rightarrow> 'e list_core \<Rightarrow> 'e option \<Rightarrow> (status \<times> 'e option \<times> 'e list_core) option" where
  "list_pop_front env s out =
     (if list_empty s then Some (Empty, out, s)
      else do {
        let current = li_head s;
        (st, out', s1) \<leftarrow> list_hand_out s current out;
        if \<not> ok st then Some (st, out', s1)
        else do {
          s2 \<leftarrow> list_unlink_front s1;
          s3 \<leftarrow> list_release_node env s2 current;
          Some (Ok, out', s3\<lparr>li_size := sz_sub (li_size s3) 1\<rparr>)
        }
      })"

definition list_pop_back :: "'e node_env \<Rightarrow> 'e list_core \<Rightarrow> 'e option \<Rightarrow> (status \<times> 'e option \<times> 'e list_core) option" where
  "list_pop_back env s out =
     (if list_empty s then Some (Empty, out, s)
      else do {
        (current, prev) \<leftarrow> list_node_at s (sz_sub (li_size s) 1);
        if current = 0 then Some (Empty, out, s)
        else do {
          (st, out', s1) \<leftarrow> list_hand_out s current out;
          if \<not> ok st then Some (st, out', s1)
          else do {
            s2 \<leftarrow> (if prev = 0 then Some (s1\<lparr>li_head := 0, li_tail := 0\<rparr>)
                    else do {
                      s' \<leftarrow> list_set_next s1 prev 0;
                      Some (s'\<lparr>li_tail := prev\<rparr>)
                    });
            s3 \<leftarrow> list_release_node env s2 current;
            Some (Ok, out', s3\<lparr>li_size := sz_sub (li_size s3) 1\<rparr>)
          }
        }
      })"

definition list_peek_front :: "'e list_core \<Rightarrow> 'e option \<Rightarrow> (status \<times> 'e option) option" where
  "list_peek_front s out =
     (if out = None then Some (Null_ptr, out)
      else if list_empty s then Some (Empty, out)
      else do {
        nd \<leftarrow> li_nodes s (li_head s);
        Some (Ok, Some (ln_data nd))
      })"

definition list_peek_back :: "'e list_core \<Rightarrow> 'e option \<Rightarrow> (status \<times> 'e option) option" where
  "list_peek_back s out =
     (if out = None then Some (Null_ptr, out)
      else if list_empty s then Some (Empty, out)
      else do {
        nd \<leftarrow> li_nodes s (li_tail s);
        Some (Ok, Some (ln_data nd))
      })"

text \<open>The walk of \<open>peek_at\<close>, which does not look for the end of the list.\<close>

fun list_walk :: "'e list_core \<Rightarrow> nat \<Rightarrow> nat \<Rightarrow> nat option" where
  "list_walk s 0 current = Some current"
| "list_walk s (Suc i) current = do {
     nd \<leftarrow> li_nodes s current;
     list_walk s i (ln_next nd)
   }"

definition list_peek_at :: "'e list_core \<Rightarrow> nat \<Rightarrow> 'e option \<Rightarrow> (status \<times> 'e option) option" where
  "list_peek_at s index out =
     (if out = None then Some (Null_ptr, out)
      else if index \<ge> li_size s then Some (Invalid, out)
      else do {
        current \<leftarrow> list_walk s index (li_head s);
        nd \<leftarrow> li_nodes s current;
        Some (Ok, Some (ln_data nd))
      })"

definition list_insert_at :: "'e node_env \<Rightarrow> 'e list_core \<Rightarrow> nat \<Rightarrow> 'e option \<Rightarrow> (status \<times> 'e list_core) option" where
  "list_insert_at env s index val =
     (if val = None then Some (Null_ptr, s)
      else if index > li_size s then Some (Invalid, s)
      else if index = 0 then list_insert_front env s val
      else if index = li_size s then list_insert_back env s val
      else do {
        (current, prev) \<leftarrow> list_node_at s index;
        if current = 0 \<or> prev = 0 then Some (Invalid, s)
        else do {
          (st, new, s1) \<leftarrow> list_make_node env s val;
          if \<not> ok st then Some (st, s1)
          else do {
            s2 \<leftarrow> list_set_next s1 new current;
            s3 \<leftarrow> list_set_next s2 prev new;
            Some (Ok, s3\<lparr>li_size := sz_add (li_size s3) 1\<rparr>)
          }
        }
      })"

definition list_remove_at :: "'e node_env \<Rightarrow> 'e list_core \<Rightarrow> nat \<Rightarrow> 'e option \<Rightarrow> (status \<times> 'e option \<times> 'e list_core) option" where
  "list_remove_at env s index out =
     (if index \<ge> li_size s then Some (Invalid, out, s)
      else if index = 0 then list_pop_front env s out
      else if index = sz_sub (li_size s) 1 then list_pop_back env s out
      else do {
        (current, prev) \<leftarrow> list_node_at s index;
        if current = 0 \<or> prev = 0 then Some (Invalid, out, s)
        else do {
          (st, out', s1) \<leftarrow> list_hand_out s current out;
          if \<not> ok st then Some (st, out', s1)
          else do {
            nd \<leftarrow> li_nodes s1 current;
            s2 \<leftarrow> list_set_next s1 prev (ln_next nd);
            s3 \<leftarrow> list_release_node env s2 current;
            Some (Ok, out', s3\<lparr>li_size := sz_sub (li_size s3) 1\<rparr>)
          }
        }
      })"

text \<open>The walks that end at the null pointer: searching, visiting, clearing.\<close>

partial_function (option) list_find :: "'e list_core \<Rightarrow> ('e \<Rightarrow> bool) \<Rightarrow> nat \<Rightarrow> nat \<Rightarrow> nat option option" where
  "list_find s pred index current =
     (if current = 0 then Some None
      else do {
        nd \<leftarrow> li_nodes s current;
        if pred (ln_data nd) then Some (Some index)
        else list_find s pred (sz_add index 1) (ln_next nd)
      })"

definition list_remove_first :: "'e node_env \<Rightarrow> 'e list_core \<Rightarrow> ('e \<Rightarrow> bool) \<Rightarrow> 'e option \<Rightarrow> (status \<times> 'e option \<times> 'e list_core) option" where
  "list_remove_first env s pred out = do {
     found \<leftarrow> list_find s pred 0 (li_head s);
     case found of None \<Rightarrow> Some (Not_found, out, s) | Some index \<Rightarrow> list_remove_at env s index out
   }"

definition list_front :: "'e list_core \<Rightarrow> nat" where
  "list_front s = (if list_empty s then 0 else li_head s)"

partial_function (option) list_for_each_loop ::
  "'e list_core \<Rightarrow> ('e \<Rightarrow> nat \<Rightarrow> 'w \<Rightarrow> status \<times> 'w) \<Rightarrow> nat \<Rightarrow> nat \<Rightarrow> 'w \<Rightarrow> (status \<times> 'w) option" where
  "list_for_each_loop s visit index current w =
     (if current = 0 then Some (Ok, w)
      else do {
        nd \<leftarrow> li_nodes s current;
        let (st, w') = visit (ln_data nd) index w;
        if \<not> ok st then Some (st, w') else list_for_each_loop s visit (sz_add index 1) (ln_next nd) w'
      })"

definition list_for_each :: "'e list_core \<Rightarrow> ('e \<Rightarrow> nat \<Rightarrow> 'w \<Rightarrow> status \<times> 'w) \<Rightarrow> 'w \<Rightarrow> (status \<times> 'w) option" where
  "list_for_each s visit w = list_for_each_loop s visit 0 (li_head s) w"

partial_function (option) list_clear_loop :: "'e node_env \<Rightarrow> 'e list_core \<Rightarrow> 'e list_core option" where
  "list_clear_loop env s =
     (if li_head s = 0 then Some s
      else do {
        let current = li_head s;
        s1 \<leftarrow> list_unlink_front s;
        s2 \<leftarrow> list_destroy_node_value s1 current;
        s3 \<leftarrow> list_release_node env s2 current;
        list_clear_loop env s3
      })"

definition list_clear :: "'e node_env \<Rightarrow> 'e list_core \<Rightarrow> 'e list_core option" where
  "list_clear env s = do {
     s' \<leftarrow> list_clear_loop env s;
     Some (s'\<lparr>li_tail := 0, li_size := 0\<rparr>)
   }"

end
