(* ===== verification/List_Correct.thy ===== *)
theory List_Correct
  imports List_Core
begin

text \<open>
  The singly linked list is a sequence: bounded by its pool, or unbounded on the heap. The walks to its
  end terminate.
\<close>

section \<open>The links\<close>

definition nxt :: "(nat \<Rightarrow> 'e list_node option) \<Rightarrow> nat \<Rightarrow> nat option" where
  "nxt h a = map_option ln_next (h a)"

lemma nxt_Some [simp]: "h a = Some nd \<Longrightarrow> nxt h a = Some (ln_next nd)"
  by (simp add: nxt_def)

lemma nxt_eq_Some: "nxt h a = Some b \<longleftrightarrow> (\<exists>nd. h a = Some nd \<and> ln_next nd = b)"
  by (auto simp: nxt_def)

definition list_data :: "(nat \<Rightarrow> 'e list_node option) \<Rightarrow> nat list \<Rightarrow> 'e list" where
  "list_data h as = map (\<lambda>a. ln_data (the (h a))) as"

lemma list_data_simps [simp]:
  "list_data h [] = []" "list_data h (a # as) = ln_data (the (h a)) # list_data h as"
  "list_data h (as @ bs) = list_data h as @ list_data h bs" "length (list_data h as) = length as"
  by (simp_all add: list_data_def)

lemma list_data_other [simp]: "a \<notin> set as \<Longrightarrow> list_data (h(a := v)) as = list_data h as"
  by (auto simp: list_data_def)

lemma nxt_upd [simp]: "nxt (h(a := v)) = (nxt h)(a := map_option ln_next v)"
  by (auto simp: nxt_def)

text \<open>
  The nodes \<open>as\<close> of the list with the elements \<open>vs\<close>, a node \<open>xs\<close> that is in no list, the free nodes \<open>fs\<close>.
\<close>

definition list_links :: "'e list_core \<Rightarrow> nat list \<Rightarrow> 'e list \<Rightarrow> nat list \<Rightarrow> nat list \<Rightarrow> bool" where
  "list_links s as vs xs fs \<longleftrightarrow>
     path (nxt (li_nodes s)) (li_head s) as 0 \<and> li_tail s = (if as = [] then 0 else last as) \<and>
     list_data (li_nodes s) as = vs \<and> distinct (as @ xs @ fs) \<and> (\<forall>x \<in> set xs. x \<noteq> 0 \<and> li_nodes s x \<noteq> None) \<and>
     faithful (li_policy s) \<and>
     (if list_is_fixed s
      then path (nxt (li_nodes s)) (li_free s) fs 0 \<and> length as + length xs + length fs = li_capacity s
      else fs = [] \<and> (\<forall>a \<in> set as \<union> set xs. a \<le> li_allocs s))"

definition list_frame :: "'e list_core \<Rightarrow> 'e list_core \<Rightarrow> bool" where
  "list_frame s s' \<longleftrightarrow> li_policy s' = li_policy s \<and> li_flags s' = li_flags s \<and> li_capacity s' = li_capacity s"

lemma list_frame_refl [simp]: "list_frame s s"
  by (simp add: list_frame_def)

lemma list_frame_trans: "list_frame s s' \<Longrightarrow> list_frame s' s'' \<Longrightarrow> list_frame s s''"
  by (simp add: list_frame_def)

definition list_limit :: "'e list_core \<Rightarrow> nat option" where
  "list_limit s = (if list_is_fixed s then Some (li_capacity s) else None)"

lemma list_make_node_ok:
  assumes l: "list_links s as vs [] fs" and room: "node_room (heap_serves env) (list_limit s) fs"
  shows "\<exists>a s1 fs1. list_make_node env s (Some v) = Some (Ok, a, s1) \<and> list_links s1 as vs [a] fs1 \<and>
    ln_data (the (li_nodes s1 a)) = v \<and> list_frame s s1 \<and> li_size s1 = li_size s"
proof (cases "list_is_fixed s")
  case True
  with room obtain a fs1 where fs: "fs = a # fs1" by (auto simp: node_room_def list_limit_def neq_Nil_conv)
  from l True fs obtain nd where nd: "li_nodes s a = Some nd" "li_free s = a" "a \<noteq> 0" "path (nxt (li_nodes s)) (ln_next nd) fs1 0"
    by (auto simp: list_links_def nxt_eq_Some)
  define s1 where "s1 = s\<lparr>li_free := ln_next nd, li_nodes := (li_nodes s)(a \<mapsto> nd\<lparr>ln_next := 0, ln_data := v\<rparr>)\<rparr>"
  have "list_make_node env s (Some v) = Some (Ok, a, s1)"
    using l True nd by (simp add: list_make_node_def list_acquire_node_def list_set_next_def list_links_def Let_def s1_def)
  moreover have "list_links s1 as vs [a] fs1"
    using l True nd fs by (auto simp: list_links_def s1_def list_is_fixed_def)
  ultimately show ?thesis by (intro exI [of _ a] exI [of _ s1] exI [of _ fs1]) (simp add: list_frame_def s1_def)
next
  case False
  let ?a = "Suc (li_allocs s)"
  define s1 where "s1 = s\<lparr>li_allocs := ?a, li_nodes := (li_nodes s)(?a \<mapsto> \<lparr>ln_next = 0, ln_data = v\<rparr>)\<rparr>"
  have new: "?a \<notin> set as" using l False by (auto simp: list_links_def)
  have "list_make_node env s (Some v) = Some (Ok, ?a, s1)"
    using l False room by (simp add: list_make_node_def list_acquire_node_def list_links_def node_room_def list_limit_def heap_serves_def Let_def s1_def)
  moreover have "list_links s1 as vs [?a] []"
    using l False new by (auto simp: list_links_def s1_def list_is_fixed_def le_SucI)
  ultimately show ?thesis by (intro exI [of _ ?a] exI [of _ s1] exI [of _ "[]"]) (simp add: list_frame_def s1_def)
qed

lemma list_make_node_full:
  "list_links s as vs [] [] \<Longrightarrow> list_is_fixed s \<Longrightarrow> list_make_node env s v = Some (Full, 0, s)"
  by (simp add: list_links_def list_make_node_def list_acquire_node_def)

lemma list_release_node_ok:
  assumes l: "list_links s as vs [a] fs"
  shows "\<exists>s1 fs1. list_release_node env s a = Some s1 \<and> list_links s1 as vs [] fs1 \<and> list_frame s s1 \<and> li_size s1 = li_size s \<and>
    li_destroyed s1 = li_destroyed s"
proof -
  from l obtain nd where nd: "li_nodes s a = Some nd" "a \<noteq> 0" "a \<notin> set as" "a \<notin> set fs" by (auto simp: list_links_def)
  show ?thesis
  proof (cases "list_is_fixed s")
    case True
    then show ?thesis using l nd
      by (intro exI [of _ "s\<lparr>li_nodes := (li_nodes s)(a \<mapsto> nd\<lparr>ln_next := li_free s\<rparr>), li_free := a\<rparr>"] exI [of _ "a # fs"])
         (auto simp: list_release_node_def list_set_next_def list_links_def list_frame_def list_is_fixed_def)
  next
    case False
    then show ?thesis using l nd
      by (intro exI [of _ "if ne_allow_heap env then s\<lparr>li_nodes := (li_nodes s)(a := None)\<rparr> else s"] exI [of _ "[]"])
         (auto simp: list_release_node_def list_links_def list_frame_def list_is_fixed_def)
  qed
qed

section \<open>Insertion\<close>

lemma list_insert_front_ok:
  assumes l: "list_links s as vs [] fs" and room: "node_room (heap_serves env) (list_limit s) fs"
  shows "\<exists>s' as' fs'. list_insert_front env s (Some v) = Some (Ok, s') \<and> list_links s' as' (v # vs) [] fs' \<and> list_frame s s' \<and>
    li_size s' = sz_add (li_size s) 1"
proof -
  from list_make_node_ok [OF l room, of v] obtain a s1 fs1 where mk: "list_make_node env s (Some v) = Some (Ok, a, s1)"
    and l1: "list_links s1 as vs [a] fs1" and d: "ln_data (the (li_nodes s1 a)) = v" and fr: "list_frame s s1" "li_size s1 = li_size s"
    by blast
  from l1 obtain nd where nd: "li_nodes s1 a = Some nd" "a \<noteq> 0" "a \<notin> set as" "a \<notin> set fs1" by (auto simp: list_links_def)
  define s' where "s' = s1\<lparr>li_nodes := (li_nodes s1)(a \<mapsto> nd\<lparr>ln_next := li_head s1\<rparr>), li_head := a,
    li_tail := (if li_tail s1 = 0 then a else li_tail s1), li_size := sz_add (li_size s1) 1\<rparr>"
  have tl: "li_tail s1 = 0 \<longleftrightarrow> as = []"
    using l1 path_nodes [of "nxt (li_nodes s1)" "li_head s1" as 0 "last as"] by (auto simp: list_links_def)
  have "list_insert_front env s (Some v) = Some (Ok, s')"
    using mk nd by (simp add: list_insert_front_def list_set_next_def s'_def Let_def)
  moreover have "list_links s' (a # as) (v # vs) [] fs1"
    using l1 nd d tl by (auto simp: list_links_def s'_def list_is_fixed_def)
  ultimately show ?thesis using fr by (intro exI [of _ s'] exI [of _ "a # as"] exI [of _ fs1]) (simp add: list_frame_def s'_def)
qed

lemma list_insert_back_ok:
  assumes l: "list_links s as vs [] fs" and room: "node_room (heap_serves env) (list_limit s) fs"
  shows "\<exists>s' as' fs'. list_insert_back env s (Some v) = Some (Ok, s') \<and> list_links s' as' (vs @ [v]) [] fs' \<and> list_frame s s' \<and>
    li_size s' = sz_add (li_size s) 1"
proof -
  from list_make_node_ok [OF l room, of v] obtain a s1 fs1 where mk: "list_make_node env s (Some v) = Some (Ok, a, s1)"
    and l1: "list_links s1 as vs [a] fs1" and d: "ln_data (the (li_nodes s1 a)) = v" and fr: "list_frame s s1" "li_size s1 = li_size s"
    by blast
  from l1 obtain nd where nd: "li_nodes s1 a = Some nd" "a \<noteq> 0" "a \<notin> set as" "a \<notin> set fs1" by (auto simp: list_links_def)
  show ?thesis
  proof (cases as rule: rev_cases)
    case Nil
    define s' where "s' = s1\<lparr>li_nodes := (li_nodes s1)(a \<mapsto> nd\<lparr>ln_next := 0\<rparr>), li_head := a, li_tail := a, li_size := sz_add (li_size s1) 1\<rparr>"
    have "list_insert_back env s (Some v) = Some (Ok, s')"
      using mk nd l1 Nil by (simp add: list_insert_back_def list_set_next_def list_links_def s'_def)
    moreover have "list_links s' [a] (vs @ [v]) [] fs1"
      using l1 nd d Nil by (auto simp: list_links_def s'_def list_is_fixed_def)
    ultimately show ?thesis using fr by (intro exI [of _ s'] exI [of _ "[a]"] exI [of _ fs1]) (simp add: list_frame_def s'_def)
  next
    case (snoc bs b)
    from l1 snoc obtain nb where nb: "li_nodes s1 b = Some nb" "b \<noteq> 0" "b \<noteq> a" "b \<notin> set bs" "b \<notin> set fs1" "li_tail s1 = b"
      by (auto simp: list_links_def nxt_eq_Some)
    define s' where "s' = s1\<lparr>li_nodes := (li_nodes s1)(a \<mapsto> nd\<lparr>ln_next := 0\<rparr>, b \<mapsto> nb\<lparr>ln_next := a\<rparr>), li_tail := a,
      li_size := sz_add (li_size s1) 1\<rparr>"
    have "list_insert_back env s (Some v) = Some (Ok, s')"
      using mk nd nb by (simp add: list_insert_back_def list_set_next_def s'_def)
    moreover have "list_links s' (as @ [a]) (vs @ [v]) [] fs1"
      using l1 nd nb d snoc by (auto simp: list_links_def s'_def list_is_fixed_def)
    ultimately show ?thesis using fr by (intro exI [of _ s'] exI [of _ "as @ [a]"] exI [of _ fs1]) (simp add: list_frame_def s'_def)
  qed
qed

lemma list_node_at_loop_path:
  "path (nxt (li_nodes s)) current as 0 \<Longrightarrow> i < length as \<Longrightarrow>
   list_node_at_loop s i prev current = Some (as ! i, last (prev # take i as))"
proof (induction i arbitrary: prev current as)
  case 0
  then show ?case by (cases as) auto
next
  case (Suc i)
  then obtain a bs where as: "as = a # bs" by (cases as) auto
  with Suc.prems obtain nd where "li_nodes s current = Some nd" "current = a" "a \<noteq> 0" "path (nxt (li_nodes s)) (ln_next nd) bs 0" "i < length bs"
    by (auto simp: nxt_eq_Some)
  with Suc.IH [of "ln_next nd" bs current] as show ?case by simp
qed

lemma list_insert_at_ok:
  assumes l: "list_links s as vs [] fs" and room: "node_room (heap_serves env) (list_limit s) fs" and size: "li_size s = length as" and i: "i \<le> length as"
  shows "\<exists>s' as' fs'. list_insert_at env s i (Some v) = Some (Ok, s') \<and> list_links s' as' (take i vs @ v # drop i vs) [] fs' \<and>
    list_frame s s' \<and> li_size s' = sz_add (li_size s) 1"
proof -
  have len: "length vs = length as" using l by (auto simp: list_links_def)
  consider (front) "i = 0" | (behind) "0 < i" "i = length as" | (mid) "0 < i" "i < length as" using i by linarith
  then show ?thesis
  proof cases
    case front
    with list_insert_front_ok [OF l room, of v] show ?thesis by (simp add: list_insert_at_def)
  next
    case behind
    with list_insert_back_ok [OF l room, of v] size len show ?thesis by (simp add: list_insert_at_def)
  next
    case mid
    from list_make_node_ok [OF l room, of v] obtain a s1 fs1 where mk: "list_make_node env s (Some v) = Some (Ok, a, s1)"
      and l1: "list_links s1 as vs [a] fs1" and d: "ln_data (the (li_nodes s1 a)) = v" and fr: "list_frame s s1" "li_size s1 = li_size s"
      by blast
    define bs where "bs = take (i - 1) as"
    define b where "b = as ! (i - 1)"
    define c where "c = as ! i"
    define cs where "cs = drop (Suc i) as"
    have tk: "take i as = bs @ [b]" using mid take_Suc_conv_app_nth [of "i - 1" as] by (simp add: bs_def b_def)
    have as: "as = bs @ b # c # cs" using id_take_nth_drop [OF mid(2)] tk by (simp add: c_def cs_def)
    have ib: "i = Suc (length bs)" using mid by (simp add: bs_def)
    have p: "path (nxt (li_nodes s)) (li_head s) as 0" using l by (simp add: list_links_def)
    have found: "list_node_at s i = Some (c, b)"
      using list_node_at_loop_path [OF p mid(2), of 0] tk by (simp add: list_node_at_def c_def)
    from l1 obtain nd where nd: "li_nodes s1 a = Some nd" "a \<noteq> 0" "a \<notin> set as" "a \<notin> set fs1" by (auto simp: list_links_def)
    from l1 as obtain nb where nb: "li_nodes s1 b = Some nb" "b \<noteq> 0" "c \<noteq> 0" "b \<noteq> a" "b \<notin> set bs" "b \<noteq> c" "b \<notin> set cs" "b \<notin> set fs1"
      "ln_next nb = c"
      by (auto simp: list_links_def nxt_eq_Some)
    define s' where "s' = s1\<lparr>li_nodes := (li_nodes s1)(a \<mapsto> nd\<lparr>ln_next := c\<rparr>, b \<mapsto> nb\<lparr>ln_next := a\<rparr>), li_size := sz_add (li_size s1) 1\<rparr>"
    have "list_insert_at env s i (Some v) = Some (Ok, s')"
      using mid size found mk nd nb by (simp add: list_insert_at_def list_set_next_def s'_def)
    moreover have "list_links s' (bs @ b # a # c # cs) (take i vs @ v # drop i vs) [] fs1"
    proof -
      have "vs = list_data (li_nodes s1) bs @ ln_data nb # list_data (li_nodes s1) (c # cs)"
        using l1 as nb(1) by (simp add: list_links_def)
      then have "take i vs @ v # drop i vs = list_data (li_nodes s1) bs @ ln_data nb # v # list_data (li_nodes s1) (c # cs)"
        using ib by simp
      moreover have "list_links s' (bs @ b # a # c # cs) (list_data (li_nodes s1) bs @ ln_data nb # v # list_data (li_nodes s1) (c # cs)) [] fs1"
        using l1 nd nb d as by (auto simp: list_links_def s'_def list_is_fixed_def)
      ultimately show ?thesis by simp
    qed
    ultimately show ?thesis using fr by (intro exI [of _ s'] exI [of _ "bs @ b # a # c # cs"] exI [of _ fs1]) (simp add: list_frame_def s'_def)
  qed
qed

section \<open>Removal\<close>

text \<open>What a removal does with the element: handed out, or destroyed.\<close>

definition list_removed :: "'e list_core \<Rightarrow> 'e list_core \<Rightarrow> 'e option \<Rightarrow> 'e \<Rightarrow> bool" where
  "list_removed s s' out v \<longleftrightarrow> list_frame s s' \<and> li_size s' = sz_sub (li_size s) 1 \<and>
     li_destroyed s' = (if out = None then destroy (li_policy s) v (li_destroyed s) else li_destroyed s)"

lemma list_hand_out_ok:
  "faithful (li_policy s) \<Longrightarrow> li_nodes s a = Some nd \<Longrightarrow> list_hand_out s a out =
     Some (Ok, map_option (\<lambda>_. ln_data nd) out,
       s\<lparr>li_destroyed := if out = None then destroy (li_policy s) (ln_data nd) (li_destroyed s) else li_destroyed s\<rparr>)"
  by (simp add: list_hand_out_def)

text \<open>Releasing the node that was taken out of the list.\<close>

lemma list_links_release:
  assumes l: "list_links s1 as' vs' [a] fs" and s1: "list_frame s s1" "li_size s1 = li_size s"
    "li_destroyed s1 = (if out = None then destroy (li_policy s) v (li_destroyed s) else li_destroyed s)"
  shows "\<exists>s2 fs'. list_release_node env s1 a = Some s2 \<and> list_links (s2\<lparr>li_size := sz_sub (li_size s2) 1\<rparr>) as' vs' [] fs' \<and>
    list_removed s (s2\<lparr>li_size := sz_sub (li_size s2) 1\<rparr>) out v"
proof -
  from list_release_node_ok [OF l] obtain s2 fs' where r: "list_release_node env s1 a = Some s2" "list_links s2 as' vs' [] fs'"
    "list_frame s1 s2" "li_size s2 = li_size s1" "li_destroyed s2 = li_destroyed s1" by blast
  from r(2) have "list_links (s2\<lparr>li_size := sz_sub (li_size s2) 1\<rparr>) as' vs' [] fs'" by (auto simp: list_links_def list_is_fixed_def)
  with r s1 show ?thesis
    by (intro exI [of _ s2] exI [of _ fs']) (simp add: list_removed_def list_frame_def)
qed

lemma list_pop_front_ok:
  assumes l: "list_links s as (v # vs) [] fs" and size: "li_size s = length as"
  shows "\<exists>s' as' fs'. list_pop_front env s out = Some (Ok, map_option (\<lambda>_. v) out, s') \<and> list_links s' as' vs [] fs' \<and> list_removed s s' out v"
proof -
  from l obtain a bs where as: "as = a # bs" by (cases as) (auto simp: list_links_def)
  from l as obtain nd where nd: "li_nodes s a = Some nd" "li_head s = a" "a \<noteq> 0" "a \<notin> set bs" "a \<notin> set fs"
    "path (nxt (li_nodes s)) (ln_next nd) bs 0" "ln_data nd = v" "list_data (li_nodes s) bs = vs"
    by (auto simp: list_links_def nxt_eq_Some)
  let ?tr = "if out = None then destroy (li_policy s) v (li_destroyed s) else li_destroyed s"
  define s1 where "s1 = s\<lparr>li_destroyed := ?tr, li_head := ln_next nd, li_tail := (if ln_next nd = 0 then 0 else li_tail s)\<rparr>"
  have e: "ln_next nd = 0 \<longleftrightarrow> bs = []" using path_empty_iff [OF nd(6)] .
  have l1: "list_links s1 bs vs [a] fs"
    using l as nd e by (auto simp: list_links_def s1_def list_is_fixed_def)
  have f: "faithful (li_policy s)" using l by (simp add: list_links_def)
  have u: "list_unlink_front (s\<lparr>li_destroyed := ?tr\<rparr>) = Some s1"
    using nd by (simp add: list_unlink_front_def s1_def Let_def)
  have s1: "list_frame s s1" "li_size s1 = li_size s" "li_destroyed s1 = ?tr" by (simp_all add: s1_def list_frame_def)
  from list_links_release [OF l1 s1] obtain s2 fs' where
    "list_release_node env s1 a = Some s2" "list_links (s2\<lparr>li_size := sz_sub (li_size s2) 1\<rparr>) bs vs [] fs'"
    "list_removed s (s2\<lparr>li_size := sz_sub (li_size s2) 1\<rparr>) out v" by blast
  then show ?thesis
    using size as nd u list_hand_out_ok [OF f nd(1), of out]
    by (intro exI [of _ "s2\<lparr>li_size := sz_sub (li_size s2) 1\<rparr>"]) (auto simp: list_pop_front_def list_empty_def Let_def)
qed

lemma list_pop_back_ok:
  assumes l: "list_links s as (vs @ [v]) [] fs" and size: "li_size s = length as" "length as \<le> SIZE_MAX"
  shows "\<exists>s' as' fs'. list_pop_back env s out = Some (Ok, map_option (\<lambda>_. v) out, s') \<and> list_links s' as' vs [] fs' \<and> list_removed s s' out v"
proof -
  from l obtain bs a where as: "as = bs @ [a]" by (cases as rule: rev_cases) (auto simp: list_links_def)
  from l as obtain nd where nd: "li_nodes s a = Some nd" "a \<noteq> 0" "a \<notin> set bs" "a \<notin> set fs" "ln_data nd = v" "list_data (li_nodes s) bs = vs"
    "path (nxt (li_nodes s)) (li_head s) bs a"
    by (auto simp: list_links_def nxt_eq_Some)
  let ?tr = "if out = None then destroy (li_policy s) v (li_destroyed s) else li_destroyed s"
  have f: "faithful (li_policy s)" using l by (simp add: list_links_def)
  have p: "path (nxt (li_nodes s)) (li_head s) as 0" using l by (simp add: list_links_def)
  have i: "sz_sub (li_size s) 1 = length bs" using size as by (simp add: size_simps)
  have found: "list_node_at s (sz_sub (li_size s) 1) = Some (a, last (0 # bs))"
    using list_node_at_loop_path [OF p, of "length bs" 0] as i by (simp add: list_node_at_def)
  define s1 where "s1 = (if bs = [] then s\<lparr>li_destroyed := ?tr, li_head := 0, li_tail := 0\<rparr>
    else s\<lparr>li_destroyed := ?tr, li_nodes := (li_nodes s)(last bs \<mapsto> (the (li_nodes s (last bs)))\<lparr>ln_next := 0\<rparr>), li_tail := last bs\<rparr>)"
  have "last (0 # bs) = 0 \<longleftrightarrow> bs = []" using path_nodes [OF nd(7)] by (cases bs rule: rev_cases) auto
  moreover have "bs \<noteq> [] \<Longrightarrow> \<exists>nb. li_nodes s (last bs) = Some nb" using path_nodes [OF nd(7), of "last bs"] by (auto simp: nxt_eq_Some)
  ultimately have u: "(if last (0 # bs) = 0 then Some (s\<lparr>li_destroyed := ?tr, li_head := 0, li_tail := 0\<rparr>)
      else do { s' \<leftarrow> list_set_next (s\<lparr>li_destroyed := ?tr\<rparr>) (last (0 # bs)) 0; Some (s'\<lparr>li_tail := last (0 # bs)\<rparr>) }) = Some s1"
    by (auto simp: s1_def list_set_next_def)
  have l1: "list_links s1 bs vs [a] fs"
  proof (cases bs rule: rev_cases)
    case Nil
    with l as nd show ?thesis by (auto simp: list_links_def s1_def list_is_fixed_def)
  next
    case (snoc cs b)
    with l as nd show ?thesis by (auto simp: list_links_def s1_def list_is_fixed_def nxt_eq_Some)
  qed
  have s1: "list_frame s s1" "li_size s1 = li_size s" "li_destroyed s1 = ?tr" by (simp_all add: s1_def list_frame_def)
  from list_links_release [OF l1 s1] obtain s2 fs' where
    "list_release_node env s1 a = Some s2" "list_links (s2\<lparr>li_size := sz_sub (li_size s2) 1\<rparr>) bs vs [] fs'"
    "list_removed s (s2\<lparr>li_size := sz_sub (li_size s2) 1\<rparr>) out v" by blast
  moreover have "\<not> list_empty s" using size as by (simp add: list_empty_def)
  ultimately show ?thesis
    using found nd u list_hand_out_ok [OF f nd(1), of out]
    by (intro exI [of _ "s2\<lparr>li_size := sz_sub (li_size s2) 1\<rparr>"]) (auto simp: list_pop_back_def bind_eq_Some_conv)
qed

lemma list_remove_at_ok:
  assumes l: "list_links s as vs [] fs" and size: "li_size s = length as" "length as \<le> SIZE_MAX" and i: "i < length as"
  shows "\<exists>s' as' fs'. list_remove_at env s i out = Some (Ok, map_option (\<lambda>_. vs ! i) out, s') \<and>
    list_links s' as' (take i vs @ drop (Suc i) vs) [] fs' \<and> list_removed s s' out (vs ! i)"
proof -
  have len: "length vs = length as" using l by (auto simp: list_links_def)
  consider (front) "i = 0" | (behind) "0 < i" "i = length as - 1" | (mid) "0 < i" "i < length as - 1" using i by linarith
  then show ?thesis
  proof cases
    case front
    then obtain v ws where vs: "vs = v # ws" using i len by (cases vs) auto
    from list_pop_front_ok [OF l [unfolded vs] size(1), of env out] front size i vs show ?thesis by (simp add: list_remove_at_def)
  next
    case behind
    then obtain ws v where vs: "vs = ws @ [v]" using i len by (cases vs rule: rev_cases) auto
    have iw: "i = length ws" using behind vs len by simp
    then have "vs ! i = v" using vs by simp
    with iw list_pop_back_ok [OF l [unfolded vs] size, of env out] behind size i vs show ?thesis
      by (simp add: list_remove_at_def size_simps)
  next
    case mid
    define bs where "bs = take (i - 1) as"
    define b where "b = as ! (i - 1)"
    define a where "a = as ! i"
    define cs where "cs = drop (Suc i) as"
    have tk: "take i as = bs @ [b]" using mid take_Suc_conv_app_nth [of "i - 1" as] by (simp add: bs_def b_def)
    have as: "as = bs @ b # a # cs" using id_take_nth_drop [OF i] tk by (simp add: a_def cs_def)
    have ib: "i = Suc (length bs)" and ne: "cs \<noteq> []" using mid by (simp_all add: bs_def cs_def)
    have f: "faithful (li_policy s)" and p: "path (nxt (li_nodes s)) (li_head s) as 0" using l by (simp_all add: list_links_def)
    have found: "list_node_at s i = Some (a, b)"
      using list_node_at_loop_path [OF p i, of 0] tk by (simp add: list_node_at_def a_def)
    from l as obtain nb nd where nb: "li_nodes s b = Some nb" "b \<noteq> 0" "a \<noteq> 0" "b \<noteq> a" "b \<notin> set bs" "b \<notin> set cs" "b \<notin> set fs" "ln_next nb = a"
      and nd: "li_nodes s a = Some nd" "a \<notin> set bs" "a \<notin> set cs" "a \<notin> set fs"
      by (auto simp: list_links_def nxt_eq_Some)
    have vs: "vs = list_data (li_nodes s) bs @ ln_data nb # ln_data nd # list_data (li_nodes s) cs"
      using l as nb(1) nd(1) by (simp add: list_links_def)
    then have v: "vs ! i = ln_data nd" "take i vs @ drop (Suc i) vs = list_data (li_nodes s) bs @ ln_data nb # list_data (li_nodes s) cs"
      using ib by (simp_all add: nth_append)
    let ?tr = "if out = None then destroy (li_policy s) (vs ! i) (li_destroyed s) else li_destroyed s"
    define s1 where "s1 = s\<lparr>li_destroyed := ?tr, li_nodes := (li_nodes s)(b \<mapsto> nb\<lparr>ln_next := ln_next nd\<rparr>)\<rparr>"
    have l1: "list_links s1 (bs @ b # cs) (take i vs @ drop (Suc i) vs) [a] fs"
      unfolding v using l as nb nd ne by (auto simp: list_links_def s1_def list_is_fixed_def nxt_eq_Some)
    have s1: "list_frame s s1" "li_size s1 = li_size s" "li_destroyed s1 = ?tr" by (simp_all add: s1_def list_frame_def)
    from list_links_release [OF l1 s1] obtain s2 fs' where
      "list_release_node env s1 a = Some s2" "list_links (s2\<lparr>li_size := sz_sub (li_size s2) 1\<rparr>) (bs @ b # cs) (take i vs @ drop (Suc i) vs) [] fs'"
      "list_removed s (s2\<lparr>li_size := sz_sub (li_size s2) 1\<rparr>) out (vs ! i)" by blast
    moreover have "list_set_next (s\<lparr>li_destroyed := ?tr\<rparr>) b (ln_next nd) = Some s1"
      using nb by (simp add: list_set_next_def s1_def)
    ultimately show ?thesis
      using mid size found nb nd v list_hand_out_ok [OF f nd(1), of out]
      by (intro exI [of _ "s2\<lparr>li_size := sz_sub (li_size s2) 1\<rparr>"]) (auto simp: list_remove_at_def size_simps)
  qed
qed

section \<open>The contract\<close>

text \<open>The addresses on the list, walking \<open>n\<close> nodes.\<close>

fun list_addrs :: "'e list_core \<Rightarrow> nat \<Rightarrow> nat \<Rightarrow> nat list" where
  "list_addrs s p 0 = []"
| "list_addrs s p (Suc n) = (case li_nodes s p of None \<Rightarrow> [] | Some nd \<Rightarrow> p # list_addrs s (ln_next nd) n)"

definition list_items :: "'e list_core \<Rightarrow> 'e list" where
  "list_items s = list_data (li_nodes s) (list_addrs s (li_head s) (li_size s))"

lemma list_addrs_path: "path (nxt (li_nodes s)) p as 0 \<Longrightarrow> list_addrs s p (length as) = as"
  by (induction as arbitrary: p) (auto simp: nxt_eq_Some)

lemma list_items_links: "list_links s as vs xs fs \<Longrightarrow> li_size s = length as \<Longrightarrow> list_items s = vs"
  using list_addrs_path [of s "li_head s" as] by (simp add: list_items_def list_links_def)

definition list_ok :: "'e node_env \<Rightarrow> nat \<Rightarrow> 'e list_core \<Rightarrow> bool" where
  "list_ok env = node_seq_ok (\<lambda>s as vs fs. list_links s as vs [] fs) li_size list_items list_limit (heap_serves env)"

interpretation list_nodes: node_seq "\<lambda>s as vs fs. list_links s as vs [] fs" list_frame li_size list_items list_limit
proof unfold_locales
  fix s as vs fs c
  assume l: "list_links s as vs [] fs"
  show "length vs = length as" using l by (auto simp: list_links_def)
  show "list_limit s = Some c \<Longrightarrow> length as + length fs = c" using l by (auto simp: list_links_def list_limit_def split: if_splits)
  show "li_size s = length as \<Longrightarrow> list_items s = vs" by (rule list_items_links [OF l])
qed (simp add: list_frame_def list_limit_def list_is_fixed_def)

lemma list_insert_full:
  assumes l: "list_links s as vs [] []" "list_is_fixed s"
  shows "list_insert_front env s v = Some (Full, s)" "list_insert_back env s v = Some (Full, s)"
    "li_size s = length as \<Longrightarrow> i \<le> length as \<Longrightarrow> v = Some e \<Longrightarrow> list_insert_at env s i v = Some (Full, s)"
proof -
  note full = list_make_node_full [OF l]
  show f: "list_insert_front env s v = Some (Full, s)" "list_insert_back env s v = Some (Full, s)"
    by (simp_all add: list_insert_front_def list_insert_back_def full)
  assume a: "li_size s = length as" "i \<le> length as" "v = Some e"
  show "list_insert_at env s i v = Some (Full, s)"
  proof (cases "i = 0 \<or> i = length as")
    case True
    with a f show ?thesis by (auto simp: list_insert_at_def)
  next
    case False
    with a(2) have i: "0 < i" "i < length as" by auto
    have p: "path (nxt (li_nodes s)) (li_head s) as 0" using l by (simp add: list_links_def)
    have "as ! i \<noteq> 0" by (rule path_split_at(2) [OF p i(2)])
    moreover have "last (0 # take i as) \<noteq> 0"
      using path_nodes [OF p, of "last (take i as)"] i in_set_takeD [of "last (take i as)" i as] last_in_set [of "take i as"] by auto
    ultimately show ?thesis
      using a i list_node_at_loop_path [OF p i(2), of 0] by (simp add: list_insert_at_def list_node_at_def full)
  qed
qed

lemma list_walk_path: "path (nxt (li_nodes s)) current as 0 \<Longrightarrow> i < length as \<Longrightarrow> list_walk s i current = Some (as ! i)"
proof (induction i arbitrary: current as)
  case 0
  then show ?case by (cases as) auto
next
  case (Suc i)
  then show ?case by (cases as) (auto simp: nxt_eq_Some)
qed

lemma list_peek_at_ok:
  assumes l: "list_links s as vs xs fs" "li_size s = length as" "i < length as"
  shows "list_peek_at s i (Some d) = Some (Ok, Some (vs ! i))"
proof -
  have p: "path (nxt (li_nodes s)) (li_head s) as 0" using l by (simp add: list_links_def)
  from path_split_at(3) [OF p l(3)] obtain nd where nd: "li_nodes s (as ! i) = Some nd" by (auto simp: nxt_eq_Some)
  moreover have "vs ! i = ln_data (the (li_nodes s (as ! i)))" using l by (auto simp: list_links_def list_data_def)
  ultimately show ?thesis using l list_walk_path [OF p l(3)] by (simp add: list_peek_at_def)
qed

lemma list_peek_ends_ok:
  assumes l: "list_links s as vs xs fs" "li_size s = length as" "as \<noteq> []"
  shows "list_peek_front s (Some d) = Some (Ok, Some (vs ! 0))" "list_peek_back s (Some d) = Some (Ok, Some (vs ! (length vs - 1)))"
proof -
  have p: "path (nxt (li_nodes s)) (li_head s) as 0" using l by (simp add: list_links_def)
  have node: "\<exists>nd. li_nodes s (as ! i) = Some nd \<and> vs ! i = ln_data nd" if "i < length as" for i
    using path_split_at(3) [OF p that] l(1) that by (auto simp: nxt_eq_Some list_links_def list_data_def)
  have ends: "li_head s = as ! 0" "li_tail s = as ! (length as - 1)" "length vs = length as"
    using p l(1,3) by (cases as; auto simp: list_links_def list_data_def last_conv_nth)+
  show "list_peek_front s (Some d) = Some (Ok, Some (vs ! 0))" "list_peek_back s (Some d) = Some (Ok, Some (vs ! (length vs - 1)))"
    using node [of 0] node [of "length as - 1"] l(2,3) ends by (auto simp: list_peek_front_def list_peek_back_def list_empty_def)
qed

interpretation list_seq: sequence "list_ok env" list_items list_limit
  "\<lambda>s e. list_push_front env s (Some e)" "\<lambda>s e. list_push_back env s (Some e)" "\<lambda>s i e. list_insert_at env s i (Some e)"
  "\<lambda>s. list_pop_front env s (Some d)" "\<lambda>s. list_pop_back env s (Some d)" "\<lambda>s i. list_remove_at env s i (Some d)"
  "\<lambda>s i. list_peek_at s i (Some d)" "\<lambda>s. list_peek_front s (Some d)" "\<lambda>s. list_peek_back s (Some d)" for env :: "'e node_env" and d
proof (unfold_locales, unfold list_ok_def)
  let ?good = "node_seq_ok (\<lambda>s as vs fs. list_links s as vs [] fs) li_size list_items list_limit (heap_serves env)"
  fix m and s :: "'e list_core" and e i
  assume ok: "?good (Suc m) s"
  note ok' = list_nodes.good_Suc [OF ok]
  have fixed: "list_limit s \<noteq> None \<longleftrightarrow> list_is_fixed s" by (simp add: list_limit_def)
  show "seq_meets ?good list_items list_limit m s (Seq_push_front e) (map_option (\<lambda>(st, s'). (st, None, s')) (list_push_front env s (Some e)))"
    unfolding list_push_front_def
    by (rule list_nodes.put_meets [OF ok, of 0]) (use list_insert_front_ok [of s _ "list_items s" _ env e] list_insert_full fixed in auto)
  show "seq_meets ?good list_items list_limit m s (Seq_push_back e) (map_option (\<lambda>(st, s'). (st, None, s')) (list_push_back env s (Some e)))"
    unfolding list_push_back_def
    by (rule list_nodes.put_meets [OF ok, of "length (list_items s)"])
       (use list_insert_back_ok [of s _ "list_items s" _ env e] list_insert_full fixed in auto)
  from list_nodes.goodE [OF ok] obtain as fs where l: "list_links s as (list_items s) [] fs" "li_size s = length as"
    "length (list_items s) = length as" by metis
  show "seq_meets ?good list_items list_limit m s (Seq_insert i e) (map_option (\<lambda>(st, s'). (st, None, s')) (list_insert_at env s i (Some e)))"
  proof (cases "i \<le> length (list_items s)")
    case True
    then show ?thesis
      by (intro list_nodes.put_meets [OF ok True])
         (use list_insert_at_ok [of s _ "list_items s" _ env i e] list_insert_full(3) [of s _ "list_items s" i "Some e" e env] fixed in auto)
  next
    case False
    then show ?thesis using l by (intro list_nodes.same_meets [OF ok', of _ Invalid None]) (simp_all add: list_insert_at_def)
  qed
next
  let ?good = "node_seq_ok (\<lambda>s as vs fs. list_links s as vs [] fs) li_size list_items list_limit (heap_serves env)"
  fix m and s :: "'e list_core" and i
  assume ok: "?good m s"
  from list_nodes.goodE [OF ok] obtain as fs where l: "list_links s as (list_items s) [] fs" "li_size s = length as"
    "length (list_items s) = length as" by metis
  show "seq_meets ?good list_items list_limit m s Seq_pop_front (list_pop_front env s (Some d))"
  proof (cases "list_items s")
    case Nil
    with l show ?thesis by (intro list_nodes.same_meets [OF ok, of _ Empty "Some d"]) (simp_all add: list_pop_front_def list_empty_def)
  next
    case (Cons v vs)
    show ?thesis
    proof (rule list_nodes.take_meets [OF ok, of 0])
      fix as fs
      assume "list_links s as (list_items s) [] fs" "li_size s = length as"
      with list_pop_front_ok [of s as v vs fs env "Some d"] Cons
      show "\<exists>s' as' fs'. list_pop_front env s (Some d) = Some (Ok, Some (list_items s ! 0), s') \<and>
        list_links s' as' (take 0 (list_items s) @ drop (Suc 0) (list_items s)) [] fs' \<and> list_frame s s' \<and> li_size s' = sz_sub (li_size s) 1"
        by (auto simp: list_removed_def)
    qed (simp_all add: Cons)
  qed
  show "seq_meets ?good list_items list_limit m s Seq_pop_back (list_pop_back env s (Some d))"
  proof (cases "list_items s" rule: rev_cases)
    case Nil
    with l show ?thesis by (intro list_nodes.same_meets [OF ok, of _ Empty "Some d"]) (simp_all add: list_pop_back_def list_empty_def)
  next
    case (snoc vs v)
    show ?thesis
    proof (rule list_nodes.take_meets [OF ok, of "length vs"])
      fix as fs
      assume "list_links s as (list_items s) [] fs" "li_size s = length as" "length as \<le> SIZE_MAX"
      with list_pop_back_ok [of s as vs v fs env "Some d"] snoc
      show "\<exists>s' as' fs'. list_pop_back env s (Some d) = Some (Ok, Some (list_items s ! length vs), s') \<and>
        list_links s' as' (take (length vs) (list_items s) @ drop (Suc (length vs)) (list_items s)) [] fs' \<and> list_frame s s' \<and>
        li_size s' = sz_sub (li_size s) 1"
        by (auto simp: list_removed_def)
    qed (simp_all add: snoc)
  qed
  show "seq_meets ?good list_items list_limit m s (Seq_remove i) (list_remove_at env s i (Some d))"
  proof (cases "i < length (list_items s)")
    case True
    show ?thesis
    proof (rule list_nodes.take_meets [OF ok True])
      fix as fs
      assume "list_links s as (list_items s) [] fs" "li_size s = length as" "length as \<le> SIZE_MAX" "length (list_items s) = length as"
      with list_remove_at_ok [of s as "list_items s" fs i env "Some d"] True
      show "\<exists>s' as' fs'. list_remove_at env s i (Some d) = Some (Ok, Some (list_items s ! i), s') \<and>
        list_links s' as' (take i (list_items s) @ drop (Suc i) (list_items s)) [] fs' \<and> list_frame s s' \<and> li_size s' = sz_sub (li_size s) 1"
        by (auto simp: list_removed_def)
    qed (simp add: True)
  next
    case False
    with l show ?thesis by (intro list_nodes.same_meets [OF ok, of _ Invalid "Some d"]) (simp_all add: list_remove_at_def)
  qed
  show "seq_meets ?good list_items list_limit m s (Seq_at i) (map_option (\<lambda>(st, out). (st, out, s)) (list_peek_at s i (Some d)))"
  proof (cases "i < length (list_items s)")
    case True
    with l list_peek_at_ok [OF l(1,2), of i d] show ?thesis by (intro list_nodes.same_meets [OF ok, of _ Ok "Some (list_items s ! i)"]) simp_all
  next
    case False
    with l show ?thesis by (intro list_nodes.same_meets [OF ok, of _ Invalid "Some d"]) (simp_all add: list_peek_at_def)
  qed
  show "seq_meets ?good list_items list_limit m s Seq_front (map_option (\<lambda>(st, out). (st, out, s)) (list_peek_front s (Some d)))"
  proof (cases "list_items s = []")
    case True
    with l show ?thesis by (intro list_nodes.same_meets [OF ok, of _ Empty "Some d"]) (simp_all add: list_peek_front_def list_empty_def)
  next
    case False
    with l have "as \<noteq> []" by auto
    with l list_peek_ends_ok [OF l(1,2), of d] False show ?thesis
      by (intro list_nodes.same_meets [OF ok, of _ Ok "Some (list_items s ! 0)"]) simp_all
  qed
  show "seq_meets ?good list_items list_limit m s Seq_back (map_option (\<lambda>(st, out). (st, out, s)) (list_peek_back s (Some d)))"
  proof (cases "list_items s = []")
    case True
    with l show ?thesis by (intro list_nodes.same_meets [OF ok, of _ Empty "Some d"]) (simp_all add: list_peek_back_def list_empty_def)
  next
    case False
    with l have "as \<noteq> []" by auto
    with l list_peek_ends_ok [OF l(1,2), of d] False show ?thesis
      by (intro list_nodes.same_meets [OF ok, of _ Ok "Some (list_items s ! (length (list_items s) - 1))"]) simp_all
  qed
qed

section \<open>Initialisation\<close>

text \<open>The caller's pool: \<open>n\<close> nodes one stride apart, below the end of the address space.\<close>

definition list_pool_memory :: "'e elem_policy \<Rightarrow> nat \<Rightarrow> (nat \<Rightarrow> 'e list_node option) \<Rightarrow> nat \<Rightarrow> bool" where
  "list_pool_memory pol base nodes n \<longleftrightarrow> base \<noteq> 0 \<and> base + n * (8 + ep_size pol) \<le> SIZE_MAX \<and>
     (\<forall>i < n. nodes (base + i * (8 + ep_size pol)) \<noteq> None)"

lemma list_pool_node_at_eq:
  assumes "list_pool_memory (li_policy s) (li_pool s) nodes n" "i < n"
  shows "list_pool_node_at s i = li_pool s + i * (8 + ep_size (li_policy s))"
  using assms pool_address [of "li_pool s" n "8 + ep_size (li_policy s)" i]
  by (simp add: list_pool_memory_def list_pool_node_at_def list_node_stride_def sz_add_eq)

lemma list_free_loop_ok:
  assumes "\<forall>j < i + n. list_pool_node_at s j \<noteq> 0 \<and> li_nodes s (list_pool_node_at s j) \<noteq> None"
    "inj_on (list_pool_node_at s) {..<i + n}" "path (nxt (li_nodes s)) (li_free s) fs 0" "distinct fs" "set fs = list_pool_node_at s ` {..<i}"
  shows "\<exists>p h fs'. list_free_loop s i n = Some (s\<lparr>li_free := p, li_nodes := h\<rparr>) \<and> path (nxt h) p fs' 0 \<and> distinct fs' \<and>
    length fs' = length fs + n"
  using assms
proof (induction n arbitrary: i s fs)
  case 0
  then show ?case by (intro exI [of _ "li_free s"] exI [of _ "li_nodes s"] exI [of _ fs]) simp
next
  case (Suc n)
  let ?a = "list_pool_node_at s i"
  from Suc.prems(1) have "?a \<noteq> 0 \<and> li_nodes s ?a \<noteq> None" by simp
  then obtain nd where nd: "?a \<noteq> 0" "li_nodes s ?a = Some nd" by blast
  have new: "?a \<notin> set fs"
  proof
    assume "?a \<in> set fs"
    then obtain j where "j < i" "list_pool_node_at s j = ?a" using Suc.prems(5) by auto
    with inj_onD [OF Suc.prems(2), of j i] show False by simp
  qed
  define s1 where "s1 = s\<lparr>li_nodes := (li_nodes s)(?a \<mapsto> nd\<lparr>ln_next := li_free s\<rparr>), li_free := ?a\<rparr>"
  have na: "list_pool_node_at s1 = list_pool_node_at s" by (rule ext) (simp add: list_pool_node_at_def s1_def)
  have "\<exists>p h fs'. list_free_loop s1 (Suc i) n = Some (s1\<lparr>li_free := p, li_nodes := h\<rparr>) \<and> path (nxt h) p fs' 0 \<and> distinct fs' \<and>
    length fs' = length (?a # fs) + n"
  proof (rule Suc.IH, unfold na)
    show "\<forall>j < Suc i + n. list_pool_node_at s j \<noteq> 0 \<and> li_nodes s1 (list_pool_node_at s j) \<noteq> None"
      using Suc.prems(1) by (simp add: s1_def)
    show "inj_on (list_pool_node_at s) {..<Suc i + n}" using Suc.prems(2) by simp
    show "path (nxt (li_nodes s1)) (li_free s1) (?a # fs) 0" using Suc.prems(3) nd new by (simp add: s1_def)
    show "distinct (?a # fs)" using Suc.prems(4) new by simp
    show "set (?a # fs) = list_pool_node_at s ` {..<Suc i}" using Suc.prems(5) by (simp add: lessThan_Suc)
  qed
  moreover have "list_free_loop s i (Suc n) = list_free_loop s1 (Suc i) n"
    using nd by (simp add: list_set_next_def s1_def Let_def)
  ultimately show ?case by (auto simp: s1_def)
qed

lemma list_init_ok:
  assumes pool: "list_pool_memory pol base nodes n" and "faithful pol" "n \<noteq> 0" "n \<le> SIZE_MAX" "fl AND list_fixed_pool \<noteq> 0"
  shows "\<exists>s. list_init s0 pol base nodes n fl = Some (Ok, s) \<and> list_ok env m s \<and> list_items s = [] \<and> list_limit s = Some n \<and>
    li_policy s = pol \<and> li_destroyed s = li_destroyed s0"
proof -
  let ?s = "s0\<lparr>li_policy := pol, li_pool := base, li_nodes := nodes, li_capacity := n, li_head := 0, li_tail := 0, li_size := 0,
    li_flags := fl, li_kind := 0, li_free := 0\<rparr>"
  have nodes: "list_pool_node_at ?s i = base + i * (8 + ep_size pol)" if "i < n" for i
    using list_pool_node_at_eq [of ?s nodes n i] pool that by simp
  have "\<exists>p h fs'. list_free_loop ?s 0 n = Some (?s\<lparr>li_free := p, li_nodes := h\<rparr>) \<and> path (nxt h) p fs' 0 \<and> distinct fs' \<and>
    length fs' = length ([] :: nat list) + n"
  proof (rule list_free_loop_ok)
    show "\<forall>j < 0 + n. list_pool_node_at ?s j \<noteq> 0 \<and> li_nodes ?s (list_pool_node_at ?s j) \<noteq> None"
      using pool nodes by (simp add: list_pool_memory_def)
    show "inj_on (list_pool_node_at ?s) {..<0 + n}" using nodes by (auto simp: inj_on_def)
  qed simp_all
  then obtain p h fs where fs: "list_free_loop ?s 0 n = Some (?s\<lparr>li_free := p, li_nodes := h\<rparr>)" "path (nxt h) p fs 0" "distinct fs" "length fs = n"
    by auto
  let ?r = "?s\<lparr>li_free := p, li_nodes := h\<rparr>"
  have "list_links ?r [] [] [] fs" using assms fs by (simp add: list_links_def list_is_fixed_def)
  moreover from list_items_links [OF this] have "list_items ?r = []" by simp
  ultimately have "list_ok env m ?r" using assms by (auto simp: list_ok_def node_seq_ok_def list_limit_def list_is_fixed_def)
  moreover have "list_init s0 pol base nodes n fl = Some (Ok, ?r)"
    using fs(1) pool assms(3) by (simp add: list_init_def list_init_free_list_def list_pool_memory_def)
  ultimately show ?thesis using \<open>list_items ?r = []\<close> assms by (intro exI [of _ ?r]) (simp add: list_limit_def list_is_fixed_def)
qed

lemma list_init_dynamic_ok:
  assumes "faithful pol" "heap_serves env" "m \<le> SIZE_MAX"
  shows "\<exists>s. list_init_dynamic s0 pol = (Ok, s) \<and> list_ok env m s \<and> list_items s = [] \<and> list_limit s = None"
proof -
  obtain s where s: "list_init_dynamic s0 pol = (Ok, s)" "li_head s = 0" "li_tail s = 0" "li_size s = 0" "li_policy s = pol" "\<not> list_is_fixed s"
    by (simp add: list_init_dynamic_def list_is_fixed_def list_heap_dynamic_def list_fixed_pool_def)
  then have "list_links s [] [] [] []" using assms by (simp add: list_links_def)
  moreover from list_items_links [OF this] s have "list_items s = []" by simp
  ultimately have "list_ok env m s" using assms s by (auto simp: list_ok_def node_seq_ok_def list_limit_def)
  with s \<open>list_items s = []\<close> show ?thesis by (simp add: list_limit_def)
qed

section \<open>Walks to the end\<close>

lemma list_for_each_ok:
  assumes "path (nxt (li_nodes s)) p as 0" "i + length as \<le> SIZE_MAX"
  shows "list_for_each_loop s visit i p w = Some (visit_list visit i (list_data (li_nodes s) as) w)"
  using assms
proof (induction as arbitrary: p i w)
  case Nil
  then show ?case by (subst list_for_each_loop.simps) simp
next
  case (Cons a as)
  from Cons.prems obtain nd where nd: "li_nodes s p = Some nd" "p = a" "a \<noteq> 0" "path (nxt (li_nodes s)) (ln_next nd) as 0"
    by (auto simp: nxt_eq_Some)
  obtain st w' where v: "visit (ln_data nd) i w = (st, w')" by (cases "visit (ln_data nd) i w")
  from Cons.IH [OF nd(4), of "Suc i"] Cons.prems(2) nd v show ?case
    by (subst list_for_each_loop.simps) (simp add: size_simps ok_iff)
qed

lemma list_find_ok:
  assumes "path (nxt (li_nodes s)) p as 0" "i + length as \<le> SIZE_MAX"
  shows "list_find s pred i p = Some (if \<exists>v \<in> set (list_data (li_nodes s) as). pred v
    then Some (i + length (takeWhile (\<lambda>v. \<not> pred v) (list_data (li_nodes s) as))) else None)"
  using assms
proof (induction as arbitrary: p i)
  case Nil
  then show ?case by (subst list_find.simps) simp
next
  case (Cons a as)
  from Cons.prems obtain nd where nd: "li_nodes s p = Some nd" "p = a" "a \<noteq> 0" "path (nxt (li_nodes s)) (ln_next nd) as 0"
    by (auto simp: nxt_eq_Some)
  from Cons.IH [OF nd(4), of "Suc i"] Cons.prems(2) nd show ?case
    by (subst list_find.simps) (simp add: size_simps)
qed

lemma list_clear_loop_ok:
  assumes "list_links s as vs [] fs"
  shows "\<exists>s' fs'. list_clear_loop env s = Some s' \<and> list_links s' [] [] [] fs' \<and> list_frame s s' \<and>
    li_destroyed s' = (if ep_destroy (li_policy s) then li_destroyed s @ vs else li_destroyed s)"
  using assms
proof (induction as arbitrary: s vs fs)
  case Nil
  then have "li_head s = 0" "vs = []" by (simp_all add: list_links_def)
  with Nil show ?case
    by (intro exI [of _ s] exI [of _ fs]) (subst list_clear_loop.simps, simp)
next
  case (Cons a as)
  note l = Cons.prems
  from l obtain nd ws where nd: "li_nodes s a = Some nd" "li_head s = a" "a \<noteq> 0" "a \<notin> set as" "a \<notin> set fs"
    "path (nxt (li_nodes s)) (ln_next nd) as 0" "vs = ln_data nd # ws" "list_data (li_nodes s) as = ws"
    by (auto simp: list_links_def nxt_eq_Some)
  define s1 where "s1 = s\<lparr>li_head := ln_next nd, li_tail := (if ln_next nd = 0 then 0 else li_tail s)\<rparr>"
  define s2 where "s2 = (if ep_destroy (li_policy s) then s1\<lparr>li_destroyed := li_destroyed s @ [ln_data nd]\<rparr> else s1)"
  have e: "ln_next nd = 0 \<longleftrightarrow> as = []" using path_empty_iff [OF nd(6)] .
  have u: "list_unlink_front s = Some s1" using nd by (simp add: list_unlink_front_def s1_def Let_def)
  have dv: "list_destroy_node_value s1 a = Some s2"
    using nd by (simp add: list_destroy_node_value_def s2_def s1_def needs_destroy_on_clear_def)
  have l2: "list_links s2 as ws [a] fs"
    using l nd e by (auto simp: list_links_def s2_def s1_def list_is_fixed_def)
  from list_release_node_ok [OF l2, of env] obtain s3 fs1 where r: "list_release_node env s2 a = Some s3" "list_links s3 as ws [] fs1"
    "list_frame s2 s3" "li_destroyed s3 = li_destroyed s2" by blast
  from Cons.IH [OF r(2)] obtain s' fs' where s': "list_clear_loop env s3 = Some s'" "list_links s' [] [] [] fs'" "list_frame s3 s'"
    "li_destroyed s' = (if ep_destroy (li_policy s3) then li_destroyed s3 @ ws else li_destroyed s3)" by blast
  have "list_clear_loop env s = Some s'"
    using nd u dv r(1) s'(1) by (subst list_clear_loop.simps) simp
  moreover have "list_frame s s2" by (simp add: list_frame_def s2_def s1_def)
  moreover have "li_policy s3 = li_policy s" using r(3) by (simp add: list_frame_def s2_def s1_def)
  moreover have "li_destroyed s2 = (if ep_destroy (li_policy s) then li_destroyed s @ [ln_data nd] else li_destroyed s)"
    by (simp add: s2_def s1_def)
  ultimately show ?case
    using s' r(3,4) nd(7) by (intro exI [of _ s'] exI [of _ fs']) (auto elim: list_frame_trans)
qed

lemma list_walks_end:
  assumes ok: "list_ok env m s"
  shows "list_for_each s visit w = Some (visit_list visit 0 (list_items s) w) \<and>
    (\<exists>s'. list_clear env s = Some s' \<and> list_ok env m s' \<and> list_items s' = [] \<and> list_limit s' = list_limit s \<and>
       li_destroyed s' = (if ep_destroy (li_policy s) then li_destroyed s @ list_items s else li_destroyed s))"
proof -
  from list_nodes.goodE [OF ok [unfolded list_ok_def]] obtain as fs where l: "list_links s as (list_items s) [] fs" "li_size s = length as"
    "li_size s \<le> SIZE_MAX" by metis
  have "list_for_each s visit w = Some (visit_list visit 0 (list_items s) w)"
    using list_for_each_ok [of s "li_head s" as 0 visit w] l by (simp add: list_for_each_def list_links_def)
  moreover from list_clear_loop_ok [OF l(1)] obtain s' fs' where s': "list_clear_loop env s = Some s'" "list_links s' [] [] [] fs'"
    "list_frame s s'" "li_destroyed s' = (if ep_destroy (li_policy s) then li_destroyed s @ list_items s else li_destroyed s)" by blast
  let ?r = "s'\<lparr>li_tail := 0, li_size := 0\<rparr>"
  have "list_links ?r [] [] [] fs'" using s'(2) by (auto simp: list_links_def list_is_fixed_def)
  from list_nodes.good_result [OF ok [unfolded list_ok_def] this, of m, folded list_ok_def] s'(3) have "list_ok env m ?r \<and> list_items ?r = [] \<and> list_limit ?r = list_limit s"
    by (simp add: list_frame_def)
  moreover have "list_clear env s = Some ?r" using s'(1) by (simp add: list_clear_def)
  ultimately show ?thesis using s'(4) by simp
qed

text \<open>\<open>remove_first\<close> removes the first element with the property.\<close>

lemma list_remove_first_ok:
  assumes ok: "list_ok env m s"
  shows "list_remove_first env s pred out =
    (if \<exists>v \<in> set (list_items s). pred v
     then list_remove_at env s (length (takeWhile (\<lambda>v. \<not> pred v) (list_items s))) out else Some (Not_found, out, s))"
proof -
  from list_nodes.goodE [OF ok [unfolded list_ok_def]] obtain as fs where l: "list_links s as (list_items s) [] fs" "li_size s = length as"
    "li_size s \<le> SIZE_MAX" by metis
  with list_find_ok [of s "li_head s" as 0 pred] show ?thesis by (simp add: list_remove_first_def list_links_def)
qed

section \<open>Properties\<close>

text \<open> C25.
  A singly linked list over a pool of \<open>n\<close> nodes, from \<open>init\<close> on: every sequence of insertions, removals
  and peeks at the front, at the back and by position has the results of a list bounded by \<open>n\<close>, and leaves
  a well-formed list with its elements. Nodes are never lost nor used twice.
\<close>

theorem list_is_sequence:
  assumes "list_pool_memory pol base nodes n" "faithful pol" "n \<noteq> 0" "n \<le> SIZE_MAX" "fl AND list_fixed_pool \<noteq> 0"
  shows "\<exists>s s'. list_init s0 pol base nodes n fl = Some (Ok, s) \<and>
    seq_run (seq_call (\<lambda>s e. list_push_front env s (Some e)) (\<lambda>s e. list_push_back env s (Some e)) (\<lambda>s i e. list_insert_at env s i (Some e))
      (\<lambda>s. list_pop_front env s (Some d)) (\<lambda>s. list_pop_back env s (Some d)) (\<lambda>s i. list_remove_at env s i (Some d))
      (\<lambda>s i. list_peek_at s i (Some d)) (\<lambda>s. list_peek_front s (Some d)) (\<lambda>s. list_peek_back s (Some d))) s cs = Some (fst (seq_spec (Some n) [] cs), s') \<and>
    list_ok env 0 s' \<and> list_items s' = snd (seq_spec (Some n) [] cs)"
proof -
  from list_init_ok [OF assms, of s0 env "length (filter seq_inserts cs) + 0"] obtain s where
    s: "list_init s0 pol base nodes n fl = Some (Ok, s)" "list_ok env (length (filter seq_inserts cs) + 0) s" "list_items s = []"
    "list_limit s = Some n" by blast
  from list_seq.run_refines [OF s(2), of d] s show ?thesis by auto
qed

definition sample_list_nodes :: "nat \<Rightarrow> nat list_node option" where
  "sample_list_nodes a = (if a = 1000 \<or> a = 1016 then Some \<lparr>ln_next = 7, ln_data = 0\<rparr> else None)"

definition sample_list :: "nat list_core" where
  "sample_list = \<lparr>li_policy = typed_trivial_policy 8 8, li_head = 0, li_tail = 0, li_free = 0, li_size = 0, li_capacity = 0, li_pool = 0,
     li_flags = 0, li_kind = 0, li_nodes = (\<lambda>_. None), li_allocs = 0, li_destroyed = []\<rparr>"

definition sample_node_env :: "nat node_env" where
  "sample_node_env = \<lparr>ne_allow_heap = False, ne_malloc = (\<lambda>_ _. False), ne_junk = 0\<rparr>"

theorem list_is_sequence_witness:
  "\<exists>s s'. list_init sample_list (typed_trivial_policy 8 8) 1000 sample_list_nodes 2 1 = Some (Ok, s) \<and>
    seq_run (seq_call (\<lambda>s e. list_push_front sample_node_env s (Some e)) (\<lambda>s e. list_push_back sample_node_env s (Some e))
      (\<lambda>s i e. list_insert_at sample_node_env s i (Some e))
      (\<lambda>s. list_pop_front sample_node_env s (Some 0)) (\<lambda>s. list_pop_back sample_node_env s (Some 0)) (\<lambda>s i. list_remove_at sample_node_env s i (Some 0))
      (\<lambda>s i. list_peek_at s i (Some 0)) (\<lambda>s. list_peek_front s (Some 0)) (\<lambda>s. list_peek_back s (Some 0))) s [Seq_push_back 5, Seq_push_front 6, Seq_push_back 7, Seq_at 1, Seq_front, Seq_back, Seq_remove 0, Seq_pop_back, Seq_pop_front] =
    Some ([(Ok, None), (Ok, None), (Full, None), (Ok, Some 5), (Ok, Some 6), (Ok, Some 5), (Ok, Some 6), (Ok, Some 5), (Empty, None)], s')"
proof -
  have "i = 0 \<or> i = 1" if "i < 2" for i :: nat using that by linarith
  then have pool: "list_pool_memory (typed_trivial_policy 8 8) 1000 sample_list_nodes 2"
    by (force simp: list_pool_memory_def sample_list_nodes_def SIZE_MAX_def)
  have fl: "(1 :: u8) AND list_fixed_pool \<noteq> 0" by (simp add: list_fixed_pool_def)
  have r: "fst (seq_spec (Some 2) [] [Seq_push_back 5, Seq_push_front 6, Seq_push_back 7, Seq_at 1, Seq_front, Seq_back, Seq_remove 0, Seq_pop_back, Seq_pop_front]) =
    [(Ok, None), (Ok, None), (Full, None), (Ok, Some (5 :: nat)), (Ok, Some 6), (Ok, Some 5), (Ok, Some 6), (Ok, Some 5), (Empty, None)]"
    by (simp add: seq_put_def seq_take_def seq_room_def)
  show ?thesis
    using list_is_sequence [OF pool _ _ _ fl, of sample_list sample_node_env 0
        "[Seq_push_back 5, Seq_push_front 6, Seq_push_back 7, Seq_at 1, Seq_front, Seq_back, Seq_remove 0, Seq_pop_back, Seq_pop_front]"] r
    by (auto simp: SIZE_MAX_def)
qed

end
