(* ===== verification/Dlist_Core.thy ===== *)
theory Dlist_Core
  imports Linked
begin

text \<open>
  \<^verbatim>\<open>include/memkit/detail/dlist_core.hpp\<close>: the doubly linked list, with nodes from a fixed pool or from
  the heap.
\<close>

record 'e dlist_node =
  dn_prev :: nat
  dn_next :: nat
  dn_data :: 'e

record 'e dlist_core =
  dl_policy :: "'e elem_policy"
  dl_head :: nat
  dl_tail :: nat
  dl_free :: nat
  dl_size :: nat
  dl_capacity :: nat
  dl_pool :: nat
  dl_flags :: u8
  dl_kind :: u8
  dl_nodes :: "nat \<Rightarrow> 'e dlist_node option"
  dl_allocs :: nat
  dl_destroyed :: "'e list"

definition dlist_fixed_pool :: u8 where "dlist_fixed_pool = 1"
definition dlist_heap_dynamic :: u8 where "dlist_heap_dynamic = 2"

definition dlist_node_stride :: "nat \<Rightarrow> nat" where
  "dlist_node_stride elem_size = sz_add 16 elem_size"

definition dlist_pool_bytes :: "nat \<Rightarrow> nat \<Rightarrow> nat" where
  "dlist_pool_bytes node_capacity elem_size = sz_mul (dlist_node_stride elem_size) node_capacity"

definition dlist_is_fixed :: "'e dlist_core \<Rightarrow> bool" where
  "dlist_is_fixed s \<longleftrightarrow> dl_flags s AND dlist_fixed_pool \<noteq> 0"

definition dlist_capacity :: "'e dlist_core \<Rightarrow> nat" where
  "dlist_capacity s = (if dlist_is_fixed s then dl_capacity s else SIZE_MAX)"

definition dlist_empty :: "'e dlist_core \<Rightarrow> bool" where
  "dlist_empty s \<longleftrightarrow> dl_size s = 0"

definition dlist_full :: "'e dlist_core \<Rightarrow> bool" where
  "dlist_full s \<longleftrightarrow> dlist_is_fixed s \<and> dl_size s \<ge> dl_capacity s"

definition dlist_set_storage_kind :: "'e dlist_core \<Rightarrow> u8 \<Rightarrow> 'e dlist_core" where
  "dlist_set_storage_kind s kind = s\<lparr>dl_kind := kind\<rparr>"

section \<open>Nodes\<close>

definition dlist_pool_node_at :: "'e dlist_core \<Rightarrow> nat \<Rightarrow> nat" where
  "dlist_pool_node_at s index = sz_add (dl_pool s) (sz_mul index (dlist_node_stride (ep_size (dl_policy s))))"

text \<open>Assignments through a node pointer.\<close>

definition dlist_set_next :: "'e dlist_core \<Rightarrow> nat \<Rightarrow> nat \<Rightarrow> 'e dlist_core option" where
  "dlist_set_next s a p = do {
     nd \<leftarrow> dl_nodes s a;
     Some (s\<lparr>dl_nodes := (dl_nodes s)(a \<mapsto> nd\<lparr>dn_next := p\<rparr>)\<rparr>)
   }"

definition dlist_set_prev :: "'e dlist_core \<Rightarrow> nat \<Rightarrow> nat \<Rightarrow> 'e dlist_core option" where
  "dlist_set_prev s a p = do {
     nd \<leftarrow> dl_nodes s a;
     Some (s\<lparr>dl_nodes := (dl_nodes s)(a \<mapsto> nd\<lparr>dn_prev := p\<rparr>)\<rparr>)
   }"

fun dlist_free_loop :: "'e dlist_core \<Rightarrow> nat \<Rightarrow> nat \<Rightarrow> 'e dlist_core option" where
  "dlist_free_loop s i 0 = Some s"
| "dlist_free_loop s i (Suc n) = do {
     let slot = dlist_pool_node_at s i;
     s1 \<leftarrow> dlist_set_prev s slot 0;
     s2 \<leftarrow> dlist_set_next s1 slot (dl_free s1);
     dlist_free_loop (s2\<lparr>dl_free := slot\<rparr>) (Suc i) n
   }"

definition dlist_init_free_list :: "'e dlist_core \<Rightarrow> (status \<times> 'e dlist_core) option" where
  "dlist_init_free_list s = do {
     s' \<leftarrow> dlist_free_loop (s\<lparr>dl_free := 0\<rparr>) 0 (dl_capacity s);
     Some (Ok, s')
   }"

text \<open>\<open>nodes\<close> is the memory of the pool, whatever it holds.\<close>

definition dlist_init ::
  "'e dlist_core \<Rightarrow> 'e elem_policy \<Rightarrow> nat \<Rightarrow> (nat \<Rightarrow> 'e dlist_node option) \<Rightarrow> nat \<Rightarrow> u8 \<Rightarrow> (status \<times> 'e dlist_core) option" where
  "dlist_init s policy node_pool nodes node_capacity flags =
     (if node_pool = 0 \<or> node_capacity = 0 then Some (Invalid, s)
      else dlist_init_free_list (s\<lparr>dl_policy := policy, dl_pool := node_pool, dl_nodes := nodes, dl_capacity := node_capacity,
             dl_head := 0, dl_tail := 0, dl_size := 0, dl_flags := flags, dl_kind := 0\<rparr>))"

definition dlist_init_dynamic :: "'e dlist_core \<Rightarrow> 'e elem_policy \<Rightarrow> status \<times> 'e dlist_core" where
  "dlist_init_dynamic s policy =
     (Ok, s\<lparr>dl_policy := policy, dl_pool := 0, dl_capacity := 0, dl_head := 0, dl_tail := 0, dl_free := 0, dl_size := 0,
            dl_flags := dlist_heap_dynamic, dl_kind := 0\<rparr>)"

definition dlist_reset_state :: "'e elem_policy \<Rightarrow> 'e dlist_core \<Rightarrow> 'e dlist_core" where
  "dlist_reset_state default_policy s =
     s\<lparr>dl_policy := default_policy, dl_head := 0, dl_tail := 0, dl_free := 0, dl_size := 0, dl_capacity := 0, dl_pool := 0,
       dl_flags := 0, dl_kind := 0\<rparr>"

definition dlist_acquire_node :: "'e node_env \<Rightarrow> 'e dlist_core \<Rightarrow> (status \<times> nat \<times> 'e dlist_core) option" where
  "dlist_acquire_node env s =
     (if dlist_is_fixed s then
        (if dl_free s = 0 then Some (Full, 0, s)
         else do {
           let slot = dl_free s;
           nd \<leftarrow> dl_nodes s slot;
           s1 \<leftarrow> dlist_set_prev (s\<lparr>dl_free := dn_next nd\<rparr>) slot 0;
           s2 \<leftarrow> dlist_set_next s1 slot 0;
           Some (Ok, slot, s2)
         })
      else if \<not> ne_allow_heap env then Some (Unsupported, 0, s)
      else
        let s1 = s\<lparr>dl_allocs := Suc (dl_allocs s)\<rparr>; slot = Suc (dl_allocs s) in
        if ne_malloc env (dl_allocs s) (dlist_node_stride (ep_size (dl_policy s)))
        then Some (Ok, slot, s1\<lparr>dl_nodes := (dl_nodes s1)(slot \<mapsto> \<lparr>dn_prev = 0, dn_next = 0, dn_data = ne_junk env\<rparr>)\<rparr>)
        else Some (Oom, 0, s1))"

definition dlist_release_node :: "'e node_env \<Rightarrow> 'e dlist_core \<Rightarrow> nat \<Rightarrow> 'e dlist_core option" where
  "dlist_release_node env s slot =
     (if slot = 0 then Some s
      else if dlist_is_fixed s then do {
        s1 \<leftarrow> dlist_set_prev s slot 0;
        s2 \<leftarrow> dlist_set_next s1 slot (dl_free s1);
        Some (s2\<lparr>dl_free := slot\<rparr>)
      }
      else if \<not> ne_allow_heap env then Some s
      else do {
        _ \<leftarrow> dl_nodes s slot;
        Some (s\<lparr>dl_nodes := (dl_nodes s)(slot := None)\<rparr>)
      })"

definition dlist_make_node :: "'e node_env \<Rightarrow> 'e dlist_core \<Rightarrow> 'e option \<Rightarrow> (status \<times> nat \<times> 'e dlist_core) option" where
  "dlist_make_node env s val = do {
     (st, slot, s1) \<leftarrow> dlist_acquire_node env s;
     if \<not> ok st then Some (st, 0, s1)
     else do {
       nd \<leftarrow> dl_nodes s1 slot;
       v \<leftarrow> val;
       let (cst, e) = copy_construct (dl_policy s1) (dn_data nd) v;
       let s2 = s1\<lparr>dl_nodes := (dl_nodes s1)(slot \<mapsto> nd\<lparr>dn_data := e\<rparr>)\<rparr>;
       if \<not> ok cst then do {
         s3 \<leftarrow> dlist_release_node env s2 slot;
         Some (cst, 0, s3)
       }
       else Some (Ok, slot, s2)
     }
   }"

definition dlist_destroy_node_value :: "'e dlist_core \<Rightarrow> nat \<Rightarrow> 'e dlist_core option" where
  "dlist_destroy_node_value s slot =
     (if needs_destroy_on_clear (dl_policy s) then do {
        nd \<leftarrow> dl_nodes s slot;
        Some (s\<lparr>dl_destroyed := destroy (dl_policy s) (dn_data nd) (dl_destroyed s)\<rparr>)
      }
      else Some s)"

section \<open>Links\<close>

definition dlist_link_front :: "'e dlist_core \<Rightarrow> nat \<Rightarrow> 'e dlist_core option" where
  "dlist_link_front s slot = do {
     s1 \<leftarrow> dlist_set_prev s slot 0;
     s2 \<leftarrow> dlist_set_next s1 slot (dl_head s1);
     s3 \<leftarrow> (if dl_head s2 \<noteq> 0 then dlist_set_prev s2 (dl_head s2) slot else Some (s2\<lparr>dl_tail := slot\<rparr>));
     Some (s3\<lparr>dl_head := slot\<rparr>)
   }"

definition dlist_link_back :: "'e dlist_core \<Rightarrow> nat \<Rightarrow> 'e dlist_core option" where
  "dlist_link_back s slot = do {
     s1 \<leftarrow> dlist_set_next s slot 0;
     s2 \<leftarrow> dlist_set_prev s1 slot (dl_tail s1);
     s3 \<leftarrow> (if dl_tail s2 \<noteq> 0 then dlist_set_next s2 (dl_tail s2) slot else Some (s2\<lparr>dl_head := slot\<rparr>));
     Some (s3\<lparr>dl_tail := slot\<rparr>)
   }"

definition dlist_link_before :: "'e dlist_core \<Rightarrow> nat \<Rightarrow> nat \<Rightarrow> 'e dlist_core option" where
  "dlist_link_before s target new_node = do {
     s1 \<leftarrow> dlist_set_next s new_node target;
     td \<leftarrow> dl_nodes s1 target;
     s2 \<leftarrow> dlist_set_prev s1 new_node (dn_prev td);
     td' \<leftarrow> dl_nodes s2 target;
     s3 \<leftarrow> (if dn_prev td' \<noteq> 0 then dlist_set_next s2 (dn_prev td') new_node else Some (s2\<lparr>dl_head := new_node\<rparr>));
     dlist_set_prev s3 target new_node
   }"

definition dlist_unlink_node :: "'e dlist_core \<Rightarrow> nat \<Rightarrow> 'e dlist_core option" where
  "dlist_unlink_node s slot = do {
     nd \<leftarrow> dl_nodes s slot;
     s1 \<leftarrow> (if dn_prev nd \<noteq> 0 then dlist_set_next s (dn_prev nd) (dn_next nd) else Some (s\<lparr>dl_head := dn_next nd\<rparr>));
     nd' \<leftarrow> dl_nodes s1 slot;
     s2 \<leftarrow> (if dn_next nd' \<noteq> 0 then dlist_set_prev s1 (dn_next nd') (dn_prev nd') else Some (s1\<lparr>dl_tail := dn_prev nd'\<rparr>));
     s3 \<leftarrow> dlist_set_prev s2 slot 0;
     dlist_set_next s3 slot 0
   }"

fun dlist_walk_next :: "'e dlist_core \<Rightarrow> nat \<Rightarrow> nat \<Rightarrow> nat option" where
  "dlist_walk_next s 0 current = Some current"
| "dlist_walk_next s (Suc i) current = do {
     nd \<leftarrow> dl_nodes s current;
     dlist_walk_next s i (dn_next nd)
   }"

fun dlist_walk_prev :: "'e dlist_core \<Rightarrow> nat \<Rightarrow> nat \<Rightarrow> nat option" where
  "dlist_walk_prev s 0 current = Some current"
| "dlist_walk_prev s (Suc i) current = do {
     nd \<leftarrow> dl_nodes s current;
     dlist_walk_prev s i (dn_prev nd)
   }"

text \<open>The node at an index, from the end that is nearer.\<close>

definition dlist_node_at :: "'e dlist_core \<Rightarrow> nat \<Rightarrow> nat option" where
  "dlist_node_at s index =
     (if index \<ge> dl_size s then Some 0
      else if index \<le> dl_size s div 2 then dlist_walk_next s index (dl_head s)
      else dlist_walk_prev s (sz_sub (dl_size s) 1 - index) (dl_tail s))"

section \<open>Operations\<close>

definition dlist_insert_front :: "'e node_env \<Rightarrow> 'e dlist_core \<Rightarrow> 'e option \<Rightarrow> (status \<times> 'e dlist_core) option" where
  "dlist_insert_front env s val = do {
     (st, new, s1) \<leftarrow> dlist_make_node env s val;
     if \<not> ok st then Some (st, s1)
     else do {
       s2 \<leftarrow> dlist_link_front s1 new;
       Some (Ok, s2\<lparr>dl_size := sz_add (dl_size s2) 1\<rparr>)
     }
   }"

definition dlist_insert_back :: "'e node_env \<Rightarrow> 'e dlist_core \<Rightarrow> 'e option \<Rightarrow> (status \<times> 'e dlist_core) option" where
  "dlist_insert_back env s val = do {
     (st, new, s1) \<leftarrow> dlist_make_node env s val;
     if \<not> ok st then Some (st, s1)
     else do {
       s2 \<leftarrow> dlist_link_back s1 new;
       Some (Ok, s2\<lparr>dl_size := sz_add (dl_size s2) 1\<rparr>)
     }
   }"

definition dlist_push_front :: "'e node_env \<Rightarrow> 'e dlist_core \<Rightarrow> 'e option \<Rightarrow> (status \<times> 'e dlist_core) option" where
  "dlist_push_front = dlist_insert_front"

definition dlist_push_back :: "'e node_env \<Rightarrow> 'e dlist_core \<Rightarrow> 'e option \<Rightarrow> (status \<times> 'e dlist_core) option" where
  "dlist_push_back = dlist_insert_back"

definition dlist_pop_node :: "'e node_env \<Rightarrow> 'e dlist_core \<Rightarrow> nat \<Rightarrow> 'e option \<Rightarrow> (status \<times> 'e option \<times> 'e dlist_core) option" where
  "dlist_pop_node env s slot out = do {
     nd \<leftarrow> dl_nodes s slot;
     let (st, out', trace) = take_out (dl_policy s) (dn_data nd) out (dl_destroyed s);
     let s1 = s\<lparr>dl_destroyed := trace\<rparr>;
     if \<not> ok st then Some (st, out', s1)
     else do {
       s2 \<leftarrow> dlist_unlink_node s1 slot;
       s3 \<leftarrow> dlist_release_node env s2 slot;
       Some (Ok, out', s3\<lparr>dl_size := sz_sub (dl_size s3) 1\<rparr>)
     }
   }"

definition dlist_pop_front :: "'e node_env \<Rightarrow> 'e dlist_core \<Rightarrow> 'e option \<Rightarrow> (status \<times> 'e option \<times> 'e dlist_core) option" where
  "dlist_pop_front env s out = (if dlist_empty s then Some (Empty, out, s) else dlist_pop_node env s (dl_head s) out)"

definition dlist_pop_back :: "'e node_env \<Rightarrow> 'e dlist_core \<Rightarrow> 'e option \<Rightarrow> (status \<times> 'e option \<times> 'e dlist_core) option" where
  "dlist_pop_back env s out = (if dlist_empty s then Some (Empty, out, s) else dlist_pop_node env s (dl_tail s) out)"

definition dlist_peek_front :: "'e dlist_core \<Rightarrow> 'e option \<Rightarrow> (status \<times> 'e option) option" where
  "dlist_peek_front s out =
     (if out = None then Some (Null_ptr, out)
      else if dlist_empty s then Some (Empty, out)
      else do {
        nd \<leftarrow> dl_nodes s (dl_head s);
        Some (Ok, Some (dn_data nd))
      })"

definition dlist_peek_back :: "'e dlist_core \<Rightarrow> 'e option \<Rightarrow> (status \<times> 'e option) option" where
  "dlist_peek_back s out =
     (if out = None then Some (Null_ptr, out)
      else if dlist_empty s then Some (Empty, out)
      else do {
        nd \<leftarrow> dl_nodes s (dl_tail s);
        Some (Ok, Some (dn_data nd))
      })"

definition dlist_peek_at :: "'e dlist_core \<Rightarrow> nat \<Rightarrow> 'e option \<Rightarrow> (status \<times> 'e option) option" where
  "dlist_peek_at s index out =
     (if out = None then Some (Null_ptr, out)
      else do {
        current \<leftarrow> dlist_node_at s index;
        if current = 0 then Some (Invalid, out)
        else do {
          nd \<leftarrow> dl_nodes s current;
          Some (Ok, Some (dn_data nd))
        }
      })"

definition dlist_insert_at :: "'e node_env \<Rightarrow> 'e dlist_core \<Rightarrow> nat \<Rightarrow> 'e option \<Rightarrow> (status \<times> 'e dlist_core) option" where
  "dlist_insert_at env s index val =
     (if val = None then Some (Null_ptr, s)
      else if index > dl_size s then Some (Invalid, s)
      else if index = 0 then dlist_insert_front env s val
      else if index = dl_size s then dlist_insert_back env s val
      else do {
        target \<leftarrow> dlist_node_at s index;
        if target = 0 then Some (Invalid, s)
        else do {
          (st, new, s1) \<leftarrow> dlist_make_node env s val;
          if \<not> ok st then Some (st, s1)
          else do {
            s2 \<leftarrow> dlist_link_before s1 target new;
            Some (Ok, s2\<lparr>dl_size := sz_add (dl_size s2) 1\<rparr>)
          }
        }
      })"

definition dlist_remove_at :: "'e node_env \<Rightarrow> 'e dlist_core \<Rightarrow> nat \<Rightarrow> 'e option \<Rightarrow> (status \<times> 'e option \<times> 'e dlist_core) option" where
  "dlist_remove_at env s index out =
     (if index \<ge> dl_size s then Some (Invalid, out, s)
      else if index = 0 then dlist_pop_front env s out
      else if index = sz_sub (dl_size s) 1 then dlist_pop_back env s out
      else do {
        target \<leftarrow> dlist_node_at s index;
        if target = 0 then Some (Invalid, out, s) else dlist_pop_node env s target out
      })"

text \<open>The walks that end at the null pointer: searching, visiting, clearing.\<close>

partial_function (option) dlist_find :: "'e dlist_core \<Rightarrow> ('e \<Rightarrow> bool) \<Rightarrow> nat \<Rightarrow> nat \<Rightarrow> nat option option" where
  "dlist_find s pred index current =
     (if current = 0 then Some None
      else do {
        nd \<leftarrow> dl_nodes s current;
        if pred (dn_data nd) then Some (Some index)
        else dlist_find s pred (sz_add index 1) (dn_next nd)
      })"

definition dlist_remove_first :: "'e node_env \<Rightarrow> 'e dlist_core \<Rightarrow> ('e \<Rightarrow> bool) \<Rightarrow> 'e option \<Rightarrow> (status \<times> 'e option \<times> 'e dlist_core) option" where
  "dlist_remove_first env s pred out = do {
     found \<leftarrow> dlist_find s pred 0 (dl_head s);
     case found of None \<Rightarrow> Some (Not_found, out, s) | Some index \<Rightarrow> dlist_remove_at env s index out
   }"

definition dlist_front :: "'e dlist_core \<Rightarrow> nat" where
  "dlist_front s = (if dlist_empty s then 0 else dl_head s)"

definition dlist_back :: "'e dlist_core \<Rightarrow> nat" where
  "dlist_back s = (if dlist_empty s then 0 else dl_tail s)"

partial_function (option) dlist_for_each_loop ::
  "'e dlist_core \<Rightarrow> ('e \<Rightarrow> nat \<Rightarrow> 'w \<Rightarrow> status \<times> 'w) \<Rightarrow> nat \<Rightarrow> nat \<Rightarrow> 'w \<Rightarrow> (status \<times> 'w) option" where
  "dlist_for_each_loop s visit index current w =
     (if current = 0 then Some (Ok, w)
      else do {
        nd \<leftarrow> dl_nodes s current;
        let (st, w') = visit (dn_data nd) index w;
        if \<not> ok st then Some (st, w') else dlist_for_each_loop s visit (sz_add index 1) (dn_next nd) w'
      })"

definition dlist_for_each :: "'e dlist_core \<Rightarrow> ('e \<Rightarrow> nat \<Rightarrow> 'w \<Rightarrow> status \<times> 'w) \<Rightarrow> 'w \<Rightarrow> (status \<times> 'w) option" where
  "dlist_for_each s visit w = dlist_for_each_loop s visit 0 (dl_head s) w"

partial_function (option) dlist_for_each_reverse_loop ::
  "'e dlist_core \<Rightarrow> ('e \<Rightarrow> nat \<Rightarrow> 'w \<Rightarrow> status \<times> 'w) \<Rightarrow> nat \<Rightarrow> nat \<Rightarrow> 'w \<Rightarrow> (status \<times> 'w) option" where
  "dlist_for_each_reverse_loop s visit index current w =
     (if current = 0 then Some (Ok, w)
      else do {
        nd \<leftarrow> dl_nodes s current;
        let (st, w') = visit (dn_data nd) index w;
        if \<not> ok st then Some (st, w')
        else if index = 0 then Some (Ok, w')
        else dlist_for_each_reverse_loop s visit (sz_sub index 1) (dn_prev nd) w'
      })"

definition dlist_for_each_reverse :: "'e dlist_core \<Rightarrow> ('e \<Rightarrow> nat \<Rightarrow> 'w \<Rightarrow> status \<times> 'w) \<Rightarrow> 'w \<Rightarrow> (status \<times> 'w) option" where
  "dlist_for_each_reverse s visit w =
     (if dl_size s = 0 then Some (Ok, w)
      else dlist_for_each_reverse_loop s visit (sz_sub (dl_size s) 1) (dl_tail s) w)"

partial_function (option) dlist_clear_loop :: "'e node_env \<Rightarrow> 'e dlist_core \<Rightarrow> 'e dlist_core option" where
  "dlist_clear_loop env s =
     (if dl_head s = 0 then Some s
      else do {
        let current = dl_head s;
        s1 \<leftarrow> dlist_unlink_node s current;
        s2 \<leftarrow> dlist_destroy_node_value s1 current;
        s3 \<leftarrow> dlist_release_node env s2 current;
        dlist_clear_loop env s3
      })"

definition dlist_clear :: "'e node_env \<Rightarrow> 'e dlist_core \<Rightarrow> 'e dlist_core option" where
  "dlist_clear env s = do {
     s' \<leftarrow> dlist_clear_loop env s;
     Some (s'\<lparr>dl_head := 0, dl_tail := 0, dl_size := 0\<rparr>)
   }"

end
