(* ===== verification/Dlist_Correct.thy ===== *)
theory Dlist_Correct
  imports Dlist_Core
begin

text \<open>
  The doubly linked list is a sequence, and its backward links are the reverse of the forward ones.
\<close>

section \<open>The links\<close>

definition dnx :: "(nat \<Rightarrow> 'e dlist_node option) \<Rightarrow> nat \<Rightarrow> nat option" where
  "dnx h a = map_option dn_next (h a)"

definition dpv :: "(nat \<Rightarrow> 'e dlist_node option) \<Rightarrow> nat \<Rightarrow> nat option" where
  "dpv h a = map_option dn_prev (h a)"

definition dlist_data :: "(nat \<Rightarrow> 'e dlist_node option) \<Rightarrow> nat list \<Rightarrow> 'e list" where
  "dlist_data h as = map (\<lambda>a. dn_data (the (h a))) as"

lemma dlink_simps [simp]:
  "h a = Some nd \<Longrightarrow> dnx h a = Some (dn_next nd)" "h a = Some nd \<Longrightarrow> dpv h a = Some (dn_prev nd)"
  "dnx (h(a := v)) = (dnx h)(a := map_option dn_next v)" "dpv (h(a := v)) = (dpv h)(a := map_option dn_prev v)"
  "h a = Some nd \<Longrightarrow> (dnx h)(a \<mapsto> dn_next nd) = dnx h" "h a = Some nd \<Longrightarrow> (dpv h)(a \<mapsto> dn_prev nd) = dpv h"
  by (auto simp: dnx_def dpv_def)

lemma dlink_Some: "dnx h a = Some b \<longleftrightarrow> (\<exists>nd. h a = Some nd \<and> dn_next nd = b)" "dpv h a = Some b \<longleftrightarrow> (\<exists>nd. h a = Some nd \<and> dn_prev nd = b)"
  by (auto simp: dnx_def dpv_def)

lemma dlist_data_simps [simp]:
  "dlist_data h [] = []" "dlist_data h (a # as) = dn_data (the (h a)) # dlist_data h as"
  "dlist_data h (as @ bs) = dlist_data h as @ dlist_data h bs" "length (dlist_data h as) = length as"
  by (simp_all add: dlist_data_def)

lemma dlist_data_other [simp]: "a \<notin> set as \<Longrightarrow> dlist_data (h(a := v)) as = dlist_data h as"
  by (auto simp: dlist_data_def)

text \<open>Rewriting the links of a node keeps the elements.\<close>

lemma dlist_data_same [simp]:
  "h a = Some nd \<Longrightarrow> dn_data nd' = dn_data nd \<Longrightarrow> dlist_data (h(a \<mapsto> nd')) as = dlist_data h as"
  by (auto simp: dlist_data_def)

definition dlist_links :: "'e dlist_core \<Rightarrow> nat list \<Rightarrow> 'e list \<Rightarrow> nat list \<Rightarrow> nat list \<Rightarrow> bool" where
  "dlist_links s as vs xs fs \<longleftrightarrow>
     path (dnx (dl_nodes s)) (dl_head s) as 0 \<and> path (dpv (dl_nodes s)) (dl_tail s) (rev as) 0 \<and>
     dlist_data (dl_nodes s) as = vs \<and> distinct (as @ xs @ fs) \<and> (\<forall>x \<in> set xs. x \<noteq> 0 \<and> dl_nodes s x \<noteq> None) \<and>
     faithful (dl_policy s) \<and>
     (if dlist_is_fixed s
      then path (dnx (dl_nodes s)) (dl_free s) fs 0 \<and> length as + length xs + length fs = dl_capacity s
      else fs = [] \<and> (\<forall>a \<in> set as \<union> set xs. a \<le> dl_allocs s))"

definition dlist_frame :: "'e dlist_core \<Rightarrow> 'e dlist_core \<Rightarrow> bool" where
  "dlist_frame s s' \<longleftrightarrow> dl_policy s' = dl_policy s \<and> dl_flags s' = dl_flags s \<and> dl_capacity s' = dl_capacity s"

lemma dlist_frame_refl [simp]: "dlist_frame s s"
  by (simp add: dlist_frame_def)

lemma dlist_frame_trans: "dlist_frame s s' \<Longrightarrow> dlist_frame s' s'' \<Longrightarrow> dlist_frame s s''"
  by (simp add: dlist_frame_def)

definition dlist_limit :: "'e dlist_core \<Rightarrow> nat option" where
  "dlist_limit s = (if dlist_is_fixed s then Some (dl_capacity s) else None)"

lemma dlist_links_ends:
  assumes "dlist_links s as vs xs fs"
  shows "dl_head s = 0 \<longleftrightarrow> as = []" "dl_tail s = 0 \<longleftrightarrow> as = []"
  using assms path_empty_iff [of "dnx (dl_nodes s)" "dl_head s" as] path_empty_iff [of "dpv (dl_nodes s)" "dl_tail s" "rev as"]
  by (simp_all add: dlist_links_def)

section \<open>Nodes\<close>

lemma dlist_make_node_ok:
  assumes l: "dlist_links s as vs [] fs" and room: "node_room (heap_serves env) (dlist_limit s) fs"
  shows "\<exists>a s1 fs1. dlist_make_node env s (Some v) = Some (Ok, a, s1) \<and> dlist_links s1 as vs [a] fs1 \<and>
    dn_data (the (dl_nodes s1 a)) = v \<and> dlist_frame s s1 \<and> dl_size s1 = dl_size s"
proof (cases "dlist_is_fixed s")
  case True
  with room obtain a fs1 where fs: "fs = a # fs1" by (auto simp: node_room_def dlist_limit_def neq_Nil_conv)
  from l True fs obtain nd where nd: "dl_nodes s a = Some nd" "dl_free s = a" "a \<noteq> 0" "path (dnx (dl_nodes s)) (dn_next nd) fs1 0"
    by (auto simp: dlist_links_def dlink_Some)
  define s1 where "s1 = s\<lparr>dl_free := dn_next nd, dl_nodes := (dl_nodes s)(a \<mapsto> nd\<lparr>dn_prev := 0, dn_next := 0, dn_data := v\<rparr>)\<rparr>"
  have "dlist_make_node env s (Some v) = Some (Ok, a, s1)"
    using l True nd
    by (simp add: dlist_make_node_def dlist_acquire_node_def dlist_set_next_def dlist_set_prev_def dlist_links_def Let_def s1_def)
  moreover have "dlist_links s1 as vs [a] fs1"
    using l True nd fs by (auto simp: dlist_links_def s1_def dlist_is_fixed_def)
  ultimately show ?thesis by (intro exI [of _ a] exI [of _ s1] exI [of _ fs1]) (simp add: dlist_frame_def s1_def)
next
  case False
  let ?a = "Suc (dl_allocs s)"
  define s1 where "s1 = s\<lparr>dl_allocs := ?a, dl_nodes := (dl_nodes s)(?a \<mapsto> \<lparr>dn_prev = 0, dn_next = 0, dn_data = v\<rparr>)\<rparr>"
  have new: "?a \<notin> set as" using l False by (auto simp: dlist_links_def)
  have "dlist_make_node env s (Some v) = Some (Ok, ?a, s1)"
    using l False room
    by (simp add: dlist_make_node_def dlist_acquire_node_def dlist_links_def node_room_def dlist_limit_def heap_serves_def Let_def s1_def)
  moreover have "dlist_links s1 as vs [?a] []"
    using l False new by (auto simp: dlist_links_def s1_def dlist_is_fixed_def le_SucI)
  ultimately show ?thesis by (intro exI [of _ ?a] exI [of _ s1] exI [of _ "[]"]) (simp add: dlist_frame_def s1_def)
qed

lemma dlist_make_node_full:
  "dlist_links s as vs [] [] \<Longrightarrow> dlist_is_fixed s \<Longrightarrow> dlist_make_node env s v = Some (Full, 0, s)"
  by (simp add: dlist_links_def dlist_make_node_def dlist_acquire_node_def)

lemma dlist_release_node_ok:
  assumes l: "dlist_links s as vs [a] fs"
  shows "\<exists>s1 fs1. dlist_release_node env s a = Some s1 \<and> dlist_links s1 as vs [] fs1 \<and> dlist_frame s s1 \<and> dl_size s1 = dl_size s \<and>
    dl_destroyed s1 = dl_destroyed s"
proof -
  from l obtain nd where nd: "dl_nodes s a = Some nd" "a \<noteq> 0" "a \<notin> set as" "a \<notin> set fs" by (auto simp: dlist_links_def)
  show ?thesis
  proof (cases "dlist_is_fixed s")
    case True
    then show ?thesis using l nd
      by (intro exI [of _ "s\<lparr>dl_nodes := (dl_nodes s)(a \<mapsto> nd\<lparr>dn_prev := 0, dn_next := dl_free s\<rparr>), dl_free := a\<rparr>"] exI [of _ "a # fs"])
         (auto simp: dlist_release_node_def dlist_set_next_def dlist_set_prev_def dlist_links_def dlist_frame_def dlist_is_fixed_def)
  next
    case False
    then show ?thesis using l nd
      by (intro exI [of _ "if ne_allow_heap env then s\<lparr>dl_nodes := (dl_nodes s)(a := None)\<rparr> else s"] exI [of _ "[]"])
         (auto simp: dlist_release_node_def dlist_links_def dlist_frame_def dlist_is_fixed_def)
  qed
qed

section \<open>Linking and unlinking\<close>

text \<open>\<open>dlist_link\<close>: the node \<open>a\<close> comes between \<open>bs\<close> and \<open>cs\<close>.\<close>

definition dlist_linked :: "'e dlist_core \<Rightarrow> 'e dlist_core \<Rightarrow> nat list \<Rightarrow> nat list \<Rightarrow> 'e list \<Rightarrow> nat list \<Rightarrow> bool" where
  "dlist_linked s s' as xs vs fs \<longleftrightarrow> dlist_links s' as vs xs fs \<and> dlist_frame s s' \<and> dl_size s' = dl_size s \<and> dl_destroyed s' = dl_destroyed s"

lemma dlist_link_front_ok:
  assumes l: "dlist_links s cs vs [a] fs" and d: "dn_data (the (dl_nodes s a)) = v"
  shows "\<exists>s'. dlist_link_front s a = Some s' \<and> dlist_linked s s' (a # cs) [] (v # vs) fs"
proof -
  from l d obtain nd where nd: "dl_nodes s a = Some nd" "a \<noteq> 0" "a \<notin> set cs" "a \<notin> set fs" "dn_data nd = v" by (auto simp: dlist_links_def)
  show ?thesis
  proof (cases cs)
    case Nil
    with l nd show ?thesis
      by (auto simp: dlist_link_front_def dlist_set_next_def dlist_set_prev_def dlist_links_def dlist_linked_def dlist_frame_def dlist_is_fixed_def)
  next
    case (Cons c ds)
    with l obtain nc where "dl_nodes s c = Some nc" "c \<noteq> 0" "c \<noteq> a" "c \<notin> set ds" "dl_head s = c" "c \<notin> set fs"
      by (auto simp: dlist_links_def dlink_Some)
    with l nd Cons show ?thesis
      by (auto simp: dlist_link_front_def dlist_set_next_def dlist_set_prev_def dlist_links_def dlist_linked_def dlist_frame_def dlist_is_fixed_def)
  qed
qed

lemma dlist_link_back_ok:
  assumes l: "dlist_links s bs vs [a] fs" and d: "dn_data (the (dl_nodes s a)) = v"
  shows "\<exists>s'. dlist_link_back s a = Some s' \<and> dlist_linked s s' (bs @ [a]) [] (vs @ [v]) fs"
proof -
  from l d obtain nd where nd: "dl_nodes s a = Some nd" "a \<noteq> 0" "a \<notin> set bs" "a \<notin> set fs" "dn_data nd = v" by (auto simp: dlist_links_def)
  show ?thesis
  proof (cases bs rule: rev_cases)
    case Nil
    with l nd show ?thesis
      by (auto simp: dlist_link_back_def dlist_set_next_def dlist_set_prev_def dlist_links_def dlist_linked_def dlist_frame_def dlist_is_fixed_def)
  next
    case (snoc ds b)
    with l obtain nb where "dl_nodes s b = Some nb" "b \<noteq> 0" "b \<noteq> a" "b \<notin> set ds" "dl_tail s = b" "b \<notin> set fs"
      by (auto simp: dlist_links_def dlink_Some)
    with l nd snoc show ?thesis
      by (auto simp: dlist_link_back_def dlist_set_next_def dlist_set_prev_def dlist_links_def dlist_linked_def dlist_frame_def dlist_is_fixed_def)
  qed
qed

text \<open>What the node \<open>a\<close> of a list looks like.\<close>

lemma dlist_node_links:
  assumes "dlist_links s (bs @ a # cs) vs xs fs"
  obtains nd where "dl_nodes s a = Some nd" "a \<noteq> 0" "a \<notin> set bs" "a \<notin> set cs" "a \<notin> set fs" "dn_next nd = hd (cs @ [0])" "dn_prev nd = last (0 # bs)"
    "path (dnx (dl_nodes s)) (dl_head s) bs a" "path (dnx (dl_nodes s)) (dn_next nd) cs 0"
    "path (dpv (dl_nodes s)) (dl_tail s) (rev cs) a" "path (dpv (dl_nodes s)) (dn_prev nd) (rev bs) 0"
proof -
  from assms obtain nd where nd: "dl_nodes s a = Some nd" "a \<noteq> 0" "a \<notin> set bs" "a \<notin> set cs" "a \<notin> set fs"
    "path (dnx (dl_nodes s)) (dl_head s) bs a" "path (dnx (dl_nodes s)) (dn_next nd) cs 0"
    "path (dpv (dl_nodes s)) (dl_tail s) (rev cs) a" "path (dpv (dl_nodes s)) (dn_prev nd) (rev bs) 0"
    by (auto simp: dlist_links_def dlink_Some)
  moreover have "dn_next nd = hd (cs @ [0])" using nd(7) by (cases cs) auto
  moreover have "dn_prev nd = last (0 # bs)" using nd(9) by (cases bs rule: rev_cases) auto
  ultimately show thesis using that by blast
qed

lemma dlist_link_before_ok:
  assumes l: "dlist_links s (bs @ c # cs) vs [a] fs" and d: "dn_data (the (dl_nodes s a)) = v"
  shows "\<exists>s'. dlist_link_before s c a = Some s' \<and>
    dlist_linked s s' (bs @ a # c # cs) [] (take (length bs) vs @ v # drop (length bs) vs) fs"
proof -
  from l d obtain nd where nd: "dl_nodes s a = Some nd" "a \<noteq> 0" "a \<notin> set bs" "a \<noteq> c" "a \<notin> set cs" "a \<notin> set fs" "dn_data nd = v"
    by (auto simp: dlist_links_def)
  from l obtain nc where nc: "dl_nodes s c = Some nc" "c \<noteq> 0" "c \<notin> set bs" "c \<notin> set cs" "c \<notin> set fs" "dn_prev nc = last (0 # bs)"
    "path (dpv (dl_nodes s)) (dl_tail s) (rev cs) c"
    by (blast elim: dlist_node_links)
  have vs: "vs = dlist_data (dl_nodes s) bs @ dlist_data (dl_nodes s) (c # cs)" using l by (simp add: dlist_links_def)
  show ?thesis
  proof (cases bs rule: rev_cases)
    case Nil
    with l nd nc vs show ?thesis
      by (auto simp: dlist_link_before_def dlist_set_next_def dlist_set_prev_def dlist_links_def dlist_linked_def dlist_frame_def dlist_is_fixed_def)
  next
    case (snoc ds b)
    with l obtain nb where nb: "dl_nodes s b = Some nb" "b \<noteq> 0" "b \<noteq> a" "b \<noteq> c" "b \<notin> set ds" "b \<notin> set cs" "b \<notin> set fs"
      by (auto simp: dlist_links_def dlink_Some)
    let ?h = "(dl_nodes s)(a \<mapsto> nd\<lparr>dn_next := c, dn_prev := b\<rparr>, b \<mapsto> nb\<lparr>dn_next := a\<rparr>, c \<mapsto> nc\<lparr>dn_prev := a\<rparr>)"
    have "dlist_link_before s c a = Some (s\<lparr>dl_nodes := ?h\<rparr>)"
      using nd nc nb snoc by (simp add: dlist_link_before_def dlist_set_next_def dlist_set_prev_def)
    moreover have "dlist_linked s (s\<lparr>dl_nodes := ?h\<rparr>) (bs @ a # c # cs) [] (take (length bs) vs @ v # drop (length bs) vs) fs"
      using l nd nc nb snoc vs by (auto simp: dlist_links_def dlist_linked_def dlist_frame_def dlist_is_fixed_def)
    ultimately show ?thesis by blast
  qed
qed

lemma dlist_unlink_ok:
  assumes l: "dlist_links s (bs @ a # cs) vs [] fs"
  shows "\<exists>s'. dlist_unlink_node s a = Some s' \<and> dlist_linked s s' (bs @ cs) [a] (take (length bs) vs @ drop (Suc (length bs)) vs) fs"
proof -
  from l obtain nd where nd: "dl_nodes s a = Some nd" "a \<noteq> 0" "a \<notin> set bs" "a \<notin> set cs" "a \<notin> set fs" "dn_next nd = hd (cs @ [0])" "dn_prev nd = last (0 # bs)"
    "path (dnx (dl_nodes s)) (dl_head s) bs a" "path (dnx (dl_nodes s)) (dn_next nd) cs 0"
    "path (dpv (dl_nodes s)) (dl_tail s) (rev cs) a" "path (dpv (dl_nodes s)) (dn_prev nd) (rev bs) 0"
    by (rule dlist_node_links)
  have vs: "take (length bs) vs @ drop (Suc (length bs)) vs = dlist_data (dl_nodes s) bs @ dlist_data (dl_nodes s) cs"
    using l by (auto simp: dlist_links_def)
  note defs = dlist_unlink_node_def dlist_set_next_def dlist_set_prev_def dlist_links_def dlist_linked_def dlist_frame_def dlist_is_fixed_def
  consider "bs = []" "cs = []" | c es where "bs = []" "cs = c # es" | ds b where "bs = ds @ [b]" "cs = []"
    | ds b c es where "bs = ds @ [b]" "cs = c # es" by (metis list.exhaust rev_exhaust)
  then have "\<exists>s'. dlist_unlink_node s a = Some s' \<and>
    dlist_linked s s' (bs @ cs) [a] (dlist_data (dl_nodes s) bs @ dlist_data (dl_nodes s) cs) fs"
  proof cases
    case 1
    with l nd show ?thesis by (auto simp: defs)
  next
    case (2 c es)
    with l obtain nc where "dl_nodes s c = Some nc" "c \<noteq> 0" "c \<noteq> a" "c \<notin> set es" "c \<notin> set fs" by (auto simp: dlist_links_def dlink_Some)
    with 2 l nd show ?thesis by (auto simp: defs)
  next
    case (3 ds b)
    with l obtain nb where "dl_nodes s b = Some nb" "b \<noteq> 0" "b \<noteq> a" "b \<notin> set ds" "b \<notin> set fs" by (auto simp: dlist_links_def dlink_Some)
    with 3 l nd show ?thesis by (auto simp: defs)
  next
    case (4 ds b c es)
    with l obtain nb where nb: "dl_nodes s b = Some nb" "b \<noteq> 0" "b \<noteq> a" "b \<notin> set ds" "b \<noteq> c" "b \<notin> set es" "b \<notin> set fs"
      by (auto simp: dlist_links_def dlink_Some)
    from 4 l obtain nc where nc: "dl_nodes s c = Some nc" "c \<noteq> 0" "c \<noteq> a" "c \<notin> set ds" "c \<notin> set es" "c \<notin> set fs"
      by (auto simp: dlist_links_def dlink_Some)
    let ?h = "(dl_nodes s)(b \<mapsto> nb\<lparr>dn_next := c\<rparr>, c \<mapsto> nc\<lparr>dn_prev := b\<rparr>, a \<mapsto> nd\<lparr>dn_prev := 0, dn_next := 0\<rparr>)"
    have "dlist_unlink_node s a = Some (s\<lparr>dl_nodes := ?h\<rparr>)"
      using nd nb nc 4 by (simp add: dlist_unlink_node_def dlist_set_next_def dlist_set_prev_def)
    moreover have "dlist_linked s (s\<lparr>dl_nodes := ?h\<rparr>) (bs @ cs) [a] (dlist_data (dl_nodes s) bs @ dlist_data (dl_nodes s) cs) fs"
      using l nd nb nc 4 by (auto simp: dlist_links_def dlist_linked_def dlist_frame_def dlist_is_fixed_def)
    ultimately show ?thesis by blast
  qed
  then show ?thesis unfolding vs .
qed

section \<open>Positions\<close>

lemma dlist_walk_next_path: "path (dnx (dl_nodes s)) p as 0 \<Longrightarrow> i < length as \<Longrightarrow> dlist_walk_next s i p = Some (as ! i)"
proof (induction i arbitrary: p as)
  case 0
  then show ?case by (cases as) auto
next
  case (Suc i)
  then show ?case by (cases as) (auto simp: dlink_Some)
qed

lemma dlist_walk_prev_path: "path (dpv (dl_nodes s)) p as 0 \<Longrightarrow> i < length as \<Longrightarrow> dlist_walk_prev s i p = Some (as ! i)"
proof (induction i arbitrary: p as)
  case 0
  then show ?case by (cases as) auto
next
  case (Suc i)
  then show ?case by (cases as) (auto simp: dlink_Some)
qed

lemma dlist_node_at_ok:
  assumes l: "dlist_links s as vs xs fs" and size: "dl_size s = length as" "length as \<le> SIZE_MAX" and i: "i < length as"
  shows "dlist_node_at s i = Some (as ! i)"
proof (cases "i \<le> dl_size s div 2")
  case True
  with assms dlist_walk_next_path [of s "dl_head s" as i] show ?thesis by (simp add: dlist_node_at_def dlist_links_def)
next
  case False
  have "dlist_walk_prev s (length as - 1 - i) (dl_tail s) = Some (rev as ! (length as - 1 - i))"
    using l i by (intro dlist_walk_prev_path) (simp_all add: dlist_links_def)
  moreover have "rev as ! (length as - 1 - i) = as ! i" using i by (simp add: rev_nth)
  moreover have "sz_sub (dl_size s) 1 - i = length as - 1 - i" using size i by (simp add: size_simps)
  ultimately show ?thesis using False i size by (simp add: dlist_node_at_def)
qed

section \<open>Operations\<close>

text \<open>What an insertion and a removal have in common.\<close>

definition dlist_inserted :: "'e dlist_core \<Rightarrow> 'e dlist_core \<Rightarrow> 'e list \<Rightarrow> bool" where
  "dlist_inserted s s' vs \<longleftrightarrow> (\<exists>as fs. dlist_links s' as vs [] fs) \<and> dlist_frame s s' \<and> dl_size s' = sz_add (dl_size s) 1"

definition dlist_removed :: "'e dlist_core \<Rightarrow> 'e dlist_core \<Rightarrow> 'e option \<Rightarrow> 'e \<Rightarrow> 'e list \<Rightarrow> bool" where
  "dlist_removed s s' out v vs \<longleftrightarrow> (\<exists>as fs. dlist_links s' as vs [] fs) \<and> dlist_frame s s' \<and> dl_size s' = sz_sub (dl_size s) 1 \<and>
     dl_destroyed s' = (if out = None then destroy (dl_policy s) v (dl_destroyed s) else dl_destroyed s)"

lemma dlist_size_links [simp]:
  "dlist_links (s\<lparr>dl_size := n\<rparr>) as vs xs fs = dlist_links s as vs xs fs"
  "dlist_links (s\<lparr>dl_destroyed := tr\<rparr>) as vs xs fs = dlist_links s as vs xs fs"
  by (simp_all add: dlist_links_def dlist_is_fixed_def)

lemma dlist_linked_inserted:
  assumes "dlist_frame s s1" "dl_size s1 = dl_size s" "dlist_linked s1 s2 as [] vs fs"
  shows "dlist_inserted s (s2\<lparr>dl_size := sz_add (dl_size s2) 1\<rparr>) vs"
  using assms by (auto simp: dlist_inserted_def dlist_linked_def dlist_frame_def dlist_size_links)

lemma dlist_insert_front_ok:
  assumes l: "dlist_links s as vs [] fs" and room: "node_room (heap_serves env) (dlist_limit s) fs"
  shows "\<exists>s'. dlist_insert_front env s (Some v) = Some (Ok, s') \<and> dlist_inserted s s' (v # vs)"
proof -
  from dlist_make_node_ok [OF l room, of v] obtain a s1 fs1 where mk: "dlist_make_node env s (Some v) = Some (Ok, a, s1)"
    "dlist_links s1 as vs [a] fs1" "dn_data (the (dl_nodes s1 a)) = v" "dlist_frame s s1" "dl_size s1 = dl_size s" by blast
  from dlist_link_front_ok [OF mk(2,3)] obtain s2 where "dlist_link_front s1 a = Some s2" "dlist_linked s1 s2 (a # as) [] (v # vs) fs1" by blast
  with mk(1) dlist_linked_inserted [OF mk(4,5)] show ?thesis by (simp add: dlist_insert_front_def)
qed

lemma dlist_insert_back_ok:
  assumes l: "dlist_links s as vs [] fs" and room: "node_room (heap_serves env) (dlist_limit s) fs"
  shows "\<exists>s'. dlist_insert_back env s (Some v) = Some (Ok, s') \<and> dlist_inserted s s' (vs @ [v])"
proof -
  from dlist_make_node_ok [OF l room, of v] obtain a s1 fs1 where mk: "dlist_make_node env s (Some v) = Some (Ok, a, s1)"
    "dlist_links s1 as vs [a] fs1" "dn_data (the (dl_nodes s1 a)) = v" "dlist_frame s s1" "dl_size s1 = dl_size s" by blast
  from dlist_link_back_ok [OF mk(2,3)] obtain s2 where "dlist_link_back s1 a = Some s2" "dlist_linked s1 s2 (as @ [a]) [] (vs @ [v]) fs1" by blast
  with mk(1) dlist_linked_inserted [OF mk(4,5)] show ?thesis by (simp add: dlist_insert_back_def)
qed

lemma dlist_insert_at_ok:
  assumes l: "dlist_links s as vs [] fs" and room: "node_room (heap_serves env) (dlist_limit s) fs"
    and size: "dl_size s = length as" "length as \<le> SIZE_MAX" and i: "i \<le> length as"
  shows "\<exists>s'. dlist_insert_at env s i (Some v) = Some (Ok, s') \<and> dlist_inserted s s' (take i vs @ v # drop i vs)"
proof -
  have len: "length vs = length as" using l by (auto simp: dlist_links_def)
  consider "i = 0" | "0 < i" "i = length as" | "0 < i" "i < length as" using i by linarith
  then show ?thesis
  proof cases
    case 1
    with dlist_insert_front_ok [OF l room, of v] show ?thesis by (simp add: dlist_insert_at_def)
  next
    case 2
    with dlist_insert_back_ok [OF l room, of v] size len show ?thesis by (simp add: dlist_insert_at_def)
  next
    case 3
    from dlist_make_node_ok [OF l room, of v] obtain a s1 fs1 where mk: "dlist_make_node env s (Some v) = Some (Ok, a, s1)"
      "dlist_links s1 as vs [a] fs1" "dn_data (the (dl_nodes s1 a)) = v" "dlist_frame s s1" "dl_size s1 = dl_size s" by blast
    have as: "as = take i as @ as ! i # drop (Suc i) as" by (rule id_take_nth_drop [OF 3(2)])
    have li: "length (take i as) = i" using 3 by simp
    have "\<exists>s2. dlist_link_before s1 (as ! i) a = Some s2 \<and>
      dlist_linked s1 s2 (take i as @ a # as ! i # drop (Suc i) as) [] (take i vs @ v # drop i vs) fs1"
      using dlist_link_before_ok [of s1 "take i as" "as ! i" "drop (Suc i) as" vs a fs1 v] mk(2,3) as li by simp
    then obtain s2 where s2: "dlist_link_before s1 (as ! i) a = Some s2"
      "dlist_linked s1 s2 (take i as @ a # as ! i # drop (Suc i) as) [] (take i vs @ v # drop i vs) fs1" by blast
    have "as ! i \<noteq> 0" using l path_split_at(2) [of "dnx (dl_nodes s)" "dl_head s" as i] 3 by (simp add: dlist_links_def)
    with 3 size dlist_node_at_ok [OF l size 3(2)] mk(1) s2(1) dlist_linked_inserted [OF mk(4,5) s2(2)] show ?thesis
      by (simp add: dlist_insert_at_def)
  qed
qed

lemma dlist_insert_full:
  assumes l: "dlist_links s as vs [] []" "dlist_is_fixed s"
  shows "dlist_insert_front env s v = Some (Full, s)" "dlist_insert_back env s v = Some (Full, s)"
    "dl_size s = length as \<Longrightarrow> length as \<le> SIZE_MAX \<Longrightarrow> i \<le> length as \<Longrightarrow> v = Some e \<Longrightarrow> dlist_insert_at env s i v = Some (Full, s)"
proof -
  note full = dlist_make_node_full [OF l]
  show f: "dlist_insert_front env s v = Some (Full, s)" "dlist_insert_back env s v = Some (Full, s)"
    by (simp_all add: dlist_insert_front_def dlist_insert_back_def full)
  assume a: "dl_size s = length as" "length as \<le> SIZE_MAX" "i \<le> length as" "v = Some e"
  show "dlist_insert_at env s i v = Some (Full, s)"
  proof (cases "i = 0 \<or> i = length as")
    case True
    with a f show ?thesis by (auto simp: dlist_insert_at_def)
  next
    case False
    with a(3) have i: "i < length as" by auto
    have "as ! i \<noteq> 0" using l path_split_at(2) [of "dnx (dl_nodes s)" "dl_head s" as i] i by (simp add: dlist_links_def)
    with False i a dlist_node_at_ok [OF l(1) a(1,2) i] show ?thesis by (simp add: dlist_insert_at_def full)
  qed
qed

lemma dlist_pop_node_ok:
  assumes l: "dlist_links s (bs @ a # cs) vs [] fs"
  shows "\<exists>s'. dlist_pop_node env s a out = Some (Ok, map_option (\<lambda>_. vs ! length bs) out, s') \<and>
    dlist_removed s s' out (vs ! length bs) (take (length bs) vs @ drop (Suc (length bs)) vs)"
proof -
  from l obtain nd where nd: "dl_nodes s a = Some nd" "dn_data nd = vs ! length bs"
    by (auto simp: dlist_links_def dlink_Some nth_append)
  have f: "faithful (dl_policy s)" using l by (simp add: dlist_links_def)
  let ?tr = "if out = None then destroy (dl_policy s) (dn_data nd) (dl_destroyed s) else dl_destroyed s"
  have "dlist_links (s\<lparr>dl_destroyed := ?tr\<rparr>) (bs @ a # cs) vs [] fs" using l by simp
  from dlist_unlink_ok [OF this] obtain s1 where s1: "dlist_unlink_node (s\<lparr>dl_destroyed := ?tr\<rparr>) a = Some s1"
    "dlist_linked (s\<lparr>dl_destroyed := ?tr\<rparr>) s1 (bs @ cs) [a] (take (length bs) vs @ drop (Suc (length bs)) vs) fs" by blast
  then have "dlist_links s1 (bs @ cs) (take (length bs) vs @ drop (Suc (length bs)) vs) [a] fs" by (simp add: dlist_linked_def)
  from dlist_release_node_ok [OF this, of env] obtain s2 fs2 where s2: "dlist_release_node env s1 a = Some s2"
    "dlist_links s2 (bs @ cs) (take (length bs) vs @ drop (Suc (length bs)) vs) [] fs2" "dlist_frame s1 s2" "dl_size s2 = dl_size s1"
    "dl_destroyed s2 = dl_destroyed s1" by blast
  have "dlist_pop_node env s a out = Some (Ok, map_option (\<lambda>_. vs ! length bs) out, s2\<lparr>dl_size := sz_sub (dl_size s2) 1\<rparr>)"
    using nd f s1(1) s2(1) by (simp add: dlist_pop_node_def)
  moreover have "dlist_removed s (s2\<lparr>dl_size := sz_sub (dl_size s2) 1\<rparr>) out (vs ! length bs) (take (length bs) vs @ drop (Suc (length bs)) vs)"
    using s1(2) s2 nd(2) by (auto simp: dlist_removed_def dlist_linked_def dlist_frame_def dlist_size_links)
  ultimately show ?thesis by blast
qed

lemma dlist_pop_nth:
  assumes l: "dlist_links s as vs [] fs" and i: "i < length as"
  shows "\<exists>s'. dlist_pop_node env s (as ! i) out = Some (Ok, map_option (\<lambda>_. vs ! i) out, s') \<and>
    dlist_removed s s' out (vs ! i) (take i vs @ drop (Suc i) vs)"
  using dlist_pop_node_ok [of s "take i as" "as ! i" "drop (Suc i) as" vs fs env out] l i id_take_nth_drop [OF i] by simp

lemma dlist_remove_at_ok:
  assumes l: "dlist_links s as vs [] fs" and size: "dl_size s = length as" "length as \<le> SIZE_MAX" and i: "i < length as"
  shows "\<exists>s'. dlist_remove_at env s i out = Some (Ok, map_option (\<lambda>_. vs ! i) out, s') \<and>
    dlist_removed s s' out (vs ! i) (take i vs @ drop (Suc i) vs)"
proof -
  have ne: "\<not> dlist_empty s" "as \<noteq> []" using size i by (auto simp: dlist_empty_def)
  have hd: "dl_head s = as ! 0" using l ne path_start [of "dnx (dl_nodes s)" "dl_head s" as 0] by (simp add: dlist_links_def hd_conv_nth)
  have tl: "dl_tail s = as ! (length as - 1)"
    using l ne path_start [of "dpv (dl_nodes s)" "dl_tail s" "rev as" 0] by (simp add: dlist_links_def hd_rev last_conv_nth)
  have "as ! i \<noteq> 0" using l path_split_at(2) [of "dnx (dl_nodes s)" "dl_head s" as i] i by (simp add: dlist_links_def)
  then have "dlist_remove_at env s i out = dlist_pop_node env s (as ! i) out"
    using i size ne hd tl dlist_node_at_ok [OF l size i]
    by (auto simp: dlist_remove_at_def dlist_pop_front_def dlist_pop_back_def size_simps)
  with dlist_pop_nth [OF l i] show ?thesis by simp
qed

lemma dlist_pop_ends:
  assumes l: "dlist_links s as vs [] fs" and size: "dl_size s = length as" "as \<noteq> []"
  shows "dlist_pop_front env s out = dlist_pop_node env s (as ! 0) out" "dlist_pop_back env s out = dlist_pop_node env s (as ! (length as - 1)) out"
proof -
  have "dl_head s = as ! 0" using l size path_start [of "dnx (dl_nodes s)" "dl_head s" as 0] by (simp add: dlist_links_def hd_conv_nth)
  moreover have "dl_tail s = as ! (length as - 1)"
    using l size path_start [of "dpv (dl_nodes s)" "dl_tail s" "rev as" 0] by (simp add: dlist_links_def hd_rev last_conv_nth)
  ultimately show "dlist_pop_front env s out = dlist_pop_node env s (as ! 0) out" "dlist_pop_back env s out = dlist_pop_node env s (as ! (length as - 1)) out"
    using size by (simp_all add: dlist_pop_front_def dlist_pop_back_def dlist_empty_def)
qed

section \<open>The contract\<close>

text \<open>The addresses on the list, walking \<open>n\<close> nodes.\<close>

fun dlist_addrs :: "'e dlist_core \<Rightarrow> nat \<Rightarrow> nat \<Rightarrow> nat list" where
  "dlist_addrs s p 0 = []"
| "dlist_addrs s p (Suc n) = (case dl_nodes s p of None \<Rightarrow> [] | Some nd \<Rightarrow> p # dlist_addrs s (dn_next nd) n)"

definition dlist_items :: "'e dlist_core \<Rightarrow> 'e list" where
  "dlist_items s = dlist_data (dl_nodes s) (dlist_addrs s (dl_head s) (dl_size s))"

lemma dlist_addrs_path: "path (dnx (dl_nodes s)) p as 0 \<Longrightarrow> dlist_addrs s p (length as) = as"
  by (induction as arbitrary: p) (auto simp: dlink_Some)

lemma dlist_items_links: "dlist_links s as vs xs fs \<Longrightarrow> dl_size s = length as \<Longrightarrow> dlist_items s = vs"
  using dlist_addrs_path [of s "dl_head s" as] by (simp add: dlist_items_def dlist_links_def)

definition dlist_ok :: "'e node_env \<Rightarrow> nat \<Rightarrow> 'e dlist_core \<Rightarrow> bool" where
  "dlist_ok env = node_seq_ok (\<lambda>s as vs fs. dlist_links s as vs [] fs) dl_size dlist_items dlist_limit (heap_serves env)"

interpretation dlist_nodes: node_seq "\<lambda>s as vs fs. dlist_links s as vs [] fs" dlist_frame dl_size dlist_items dlist_limit
proof unfold_locales
  fix s as vs fs c
  assume l: "dlist_links s as vs [] fs"
  show "length vs = length as" using l by (auto simp: dlist_links_def)
  show "dlist_limit s = Some c \<Longrightarrow> length as + length fs = c" using l by (auto simp: dlist_links_def dlist_limit_def split: if_splits)
  show "dl_size s = length as \<Longrightarrow> dlist_items s = vs" by (rule dlist_items_links [OF l])
qed (simp add: dlist_frame_def dlist_limit_def dlist_is_fixed_def)

lemma dlist_put_meets:
  assumes "node_seq_ok (\<lambda>s as vs fs. dlist_links s as vs [] fs) dl_size dlist_items dlist_limit heap (Suc m) s" "i \<le> length (dlist_items s)"
    and "seq_step (dlist_limit s) (dlist_items s) c = seq_put (dlist_limit s) (dlist_items s) i e"
    and room: "\<And>as fs. dlist_links s as (dlist_items s) [] fs \<Longrightarrow> dl_size s = length as \<Longrightarrow> length (dlist_items s) = length as \<Longrightarrow>
      length as \<le> SIZE_MAX \<Longrightarrow> node_room heap (dlist_limit s) fs \<Longrightarrow>
      \<exists>s'. r = Some (Ok, s') \<and> dlist_inserted s s' (take i (dlist_items s) @ e # drop i (dlist_items s))"
    and full: "\<And>as. dlist_links s as (dlist_items s) [] [] \<Longrightarrow> dl_size s = length as \<Longrightarrow> length (dlist_items s) = length as \<Longrightarrow>
      length as \<le> SIZE_MAX \<Longrightarrow> dlist_is_fixed s \<Longrightarrow> r = Some (Full, s)"
  shows "seq_meets (node_seq_ok (\<lambda>s as vs fs. dlist_links s as vs [] fs) dl_size dlist_items dlist_limit heap) dlist_items dlist_limit m s c
    (map_option (\<lambda>(st, s'). (st, None, s')) r)"
proof (rule dlist_nodes.put_meets [OF assms(1-3)])
  from dlist_nodes.goodE [OF assms(1)] have size: "dl_size s \<le> SIZE_MAX" by metis
  fix as fs
  assume a: "dlist_links s as (dlist_items s) [] fs" "dl_size s = length as" "length (dlist_items s) = length as" "node_room heap (dlist_limit s) fs"
  from room [OF a(1-3) _ a(4)] size a(2) obtain s' where "r = Some (Ok, s')"
    "dlist_inserted s s' (take i (dlist_items s) @ e # drop i (dlist_items s))" by auto
  then show "\<exists>s' as' fs'. r = Some (Ok, s') \<and> dlist_links s' as' (take i (dlist_items s) @ e # drop i (dlist_items s)) [] fs' \<and>
    dlist_frame s s' \<and> dl_size s' = sz_add (dl_size s) 1" by (auto simp: dlist_inserted_def)
next
  from dlist_nodes.goodE [OF assms(1)] have size: "dl_size s \<le> SIZE_MAX" by metis
  fix as
  assume a: "dlist_links s as (dlist_items s) [] []" "dl_size s = length as" "length (dlist_items s) = length as" "dlist_limit s \<noteq> None"
  from full [OF a(1-3)] size a(2,4) show "r = Some (Full, s)" by (simp add: dlist_limit_def split: if_splits)
qed

lemma dlist_take_meets:
  assumes "node_seq_ok (\<lambda>s as vs fs. dlist_links s as vs [] fs) dl_size dlist_items dlist_limit heap m s" "i < length (dlist_items s)"
    and "seq_step (dlist_limit s) (dlist_items s) c = seq_take (dlist_items s) i"
    and taken: "\<And>as fs. dlist_links s as (dlist_items s) [] fs \<Longrightarrow> dl_size s = length as \<Longrightarrow> length as \<le> SIZE_MAX \<Longrightarrow> length (dlist_items s) = length as \<Longrightarrow>
      \<exists>s'. r = Some (Ok, Some (dlist_items s ! i), s') \<and>
        dlist_removed s s' out (dlist_items s ! i) (take i (dlist_items s) @ drop (Suc i) (dlist_items s))"
  shows "seq_meets (node_seq_ok (\<lambda>s as vs fs. dlist_links s as vs [] fs) dl_size dlist_items dlist_limit heap) dlist_items dlist_limit m s c r"
proof (rule dlist_nodes.take_meets [OF assms(1-3)])
  fix as fs
  assume "dlist_links s as (dlist_items s) [] fs" "dl_size s = length as" "length as \<le> SIZE_MAX" "length (dlist_items s) = length as"
  from taken [OF this] show "\<exists>s' as' fs'. r = Some (Ok, Some (dlist_items s ! i), s') \<and>
    dlist_links s' as' (take i (dlist_items s) @ drop (Suc i) (dlist_items s)) [] fs' \<and> dlist_frame s s' \<and> dl_size s' = sz_sub (dl_size s) 1"
    unfolding dlist_removed_def by blast
qed

lemma dlist_peek_ends_ok:
  assumes l: "dlist_links s as vs xs fs" "dl_size s = length as" "as \<noteq> []"
  shows "dlist_peek_front s (Some d) = Some (Ok, Some (vs ! 0))" "dlist_peek_back s (Some d) = Some (Ok, Some (vs ! (length vs - 1)))"
proof -
  have p: "path (dnx (dl_nodes s)) (dl_head s) as 0" "path (dpv (dl_nodes s)) (dl_tail s) (rev as) 0" using l by (simp_all add: dlist_links_def)
  have node: "\<exists>nd. dl_nodes s (as ! i) = Some nd \<and> vs ! i = dn_data nd" if "i < length as" for i
    using path_split_at(3) [OF p(1) that] l(1) that by (auto simp: dlink_Some dlist_links_def dlist_data_def)
  have "dl_head s = as ! 0" using p(1) l(3) by (cases as) auto
  moreover have "dl_tail s = as ! (length as - 1)" using p(2) l(3) by (cases as rule: rev_cases) auto
  moreover have "length vs = length as" using l(1) by (auto simp: dlist_links_def dlist_data_def)
  ultimately show "dlist_peek_front s (Some d) = Some (Ok, Some (vs ! 0))" "dlist_peek_back s (Some d) = Some (Ok, Some (vs ! (length vs - 1)))"
    using node [of 0] node [of "length as - 1"] l(2,3) by (auto simp: dlist_peek_front_def dlist_peek_back_def dlist_empty_def)
qed

interpretation dlist_seq: sequence "dlist_ok env" dlist_items dlist_limit
  "\<lambda>s e. dlist_push_front env s (Some e)" "\<lambda>s e. dlist_push_back env s (Some e)" "\<lambda>s i e. dlist_insert_at env s i (Some e)"
  "\<lambda>s. dlist_pop_front env s (Some d)" "\<lambda>s. dlist_pop_back env s (Some d)" "\<lambda>s i. dlist_remove_at env s i (Some d)"
  "\<lambda>s i. dlist_peek_at s i (Some d)" "\<lambda>s. dlist_peek_front s (Some d)" "\<lambda>s. dlist_peek_back s (Some d)" for env :: "'e node_env" and d
proof (unfold_locales, unfold dlist_ok_def)
  let ?good = "node_seq_ok (\<lambda>s as vs fs. dlist_links s as vs [] fs) dl_size dlist_items dlist_limit (heap_serves env)"
  fix m and s :: "'e dlist_core" and e i
  assume ok: "?good (Suc m) s"
  note ok' = dlist_nodes.good_Suc [OF ok]
  show "seq_meets ?good dlist_items dlist_limit m s (Seq_push_front e) (map_option (\<lambda>(st, s'). (st, None, s')) (dlist_push_front env s (Some e)))"
    unfolding dlist_push_front_def
    by (rule dlist_put_meets [OF ok, of 0]) (use dlist_insert_front_ok [of s _ "dlist_items s" _ env e] dlist_insert_full in auto)
  show "seq_meets ?good dlist_items dlist_limit m s (Seq_push_back e) (map_option (\<lambda>(st, s'). (st, None, s')) (dlist_push_back env s (Some e)))"
    unfolding dlist_push_back_def
    by (rule dlist_put_meets [OF ok, of "length (dlist_items s)"])
       (use dlist_insert_back_ok [of s _ "dlist_items s" _ env e] dlist_insert_full in auto)
  from dlist_nodes.goodE [OF ok] obtain as fs where l: "dlist_links s as (dlist_items s) [] fs" "dl_size s = length as"
    "length (dlist_items s) = length as" by metis
  show "seq_meets ?good dlist_items dlist_limit m s (Seq_insert i e) (map_option (\<lambda>(st, s'). (st, None, s')) (dlist_insert_at env s i (Some e)))"
  proof (cases "i \<le> length (dlist_items s)")
    case True
    then show ?thesis
      by (intro dlist_put_meets [OF ok True])
         (use dlist_insert_at_ok [of s _ "dlist_items s" _ env i e] dlist_insert_full(3) [of s _ "dlist_items s" i "Some e" e env] in auto)
  next
    case False
    then show ?thesis using l by (intro dlist_nodes.same_meets [OF ok', of _ Invalid None]) (simp_all add: dlist_insert_at_def)
  qed
next
  let ?good = "node_seq_ok (\<lambda>s as vs fs. dlist_links s as vs [] fs) dl_size dlist_items dlist_limit (heap_serves env)"
  fix m and s :: "'e dlist_core" and i
  assume ok: "?good m s"
  from dlist_nodes.goodE [OF ok] obtain as fs where l: "dlist_links s as (dlist_items s) [] fs" "dl_size s = length as"
    "length (dlist_items s) = length as" "dl_size s \<le> SIZE_MAX" by metis
  show "seq_meets ?good dlist_items dlist_limit m s Seq_pop_front (dlist_pop_front env s (Some d))"
  proof (cases "dlist_items s = []")
    case True
    with l show ?thesis by (intro dlist_nodes.same_meets [OF ok, of _ Empty "Some d"]) (simp_all add: dlist_pop_front_def dlist_empty_def)
  next
    case False
    show ?thesis
    proof (rule dlist_take_meets [OF ok, of 0])
      fix as fs
      assume a: "dlist_links s as (dlist_items s) [] fs" "dl_size s = length as" "length (dlist_items s) = length as"
      then have ne: "as \<noteq> []" using False by auto
      show "\<exists>s'. dlist_pop_front env s (Some d) = Some (Ok, Some (dlist_items s ! 0), s') \<and>
        dlist_removed s s' (Some d) (dlist_items s ! 0) (take 0 (dlist_items s) @ drop (Suc 0) (dlist_items s))"
        using dlist_pop_nth [OF a(1), of 0 env "Some d"] ne unfolding dlist_pop_ends(1) [OF a(1,2) ne] by simp
    qed (use False in simp_all)
  qed
  show "seq_meets ?good dlist_items dlist_limit m s Seq_pop_back (dlist_pop_back env s (Some d))"
  proof (cases "dlist_items s = []")
    case True
    with l show ?thesis by (intro dlist_nodes.same_meets [OF ok, of _ Empty "Some d"]) (simp_all add: dlist_pop_back_def dlist_empty_def)
  next
    case False
    show ?thesis
    proof (rule dlist_take_meets [OF ok, of "length (dlist_items s) - 1"])
      fix as fs
      assume a: "dlist_links s as (dlist_items s) [] fs" "dl_size s = length as" "length (dlist_items s) = length as"
      then have ne: "as \<noteq> []" using False by auto
      show "\<exists>s'. dlist_pop_back env s (Some d) = Some (Ok, Some (dlist_items s ! (length (dlist_items s) - 1)), s') \<and>
        dlist_removed s s' (Some d) (dlist_items s ! (length (dlist_items s) - 1))
          (take (length (dlist_items s) - 1) (dlist_items s) @ drop (Suc (length (dlist_items s) - 1)) (dlist_items s))"
        using dlist_pop_nth [OF a(1), of "length as - 1" env "Some d"] ne unfolding dlist_pop_ends(2) [OF a(1,2) ne] a(3) by simp
    qed (use False in simp_all)
  qed
  show "seq_meets ?good dlist_items dlist_limit m s (Seq_remove i) (dlist_remove_at env s i (Some d))"
  proof (cases "i < length (dlist_items s)")
    case True
    then show ?thesis
      by (intro dlist_take_meets [OF ok True]) (use dlist_remove_at_ok [of s _ "dlist_items s" _ i env "Some d"] in auto)
  next
    case False
    with l show ?thesis by (intro dlist_nodes.same_meets [OF ok, of _ Invalid "Some d"]) (simp_all add: dlist_remove_at_def)
  qed
  show "seq_meets ?good dlist_items dlist_limit m s (Seq_at i) (map_option (\<lambda>(st, out). (st, out, s)) (dlist_peek_at s i (Some d)))"
  proof (cases "i < length (dlist_items s)")
    case True
    with l have i: "i < length as" by simp
    have p: "path (dnx (dl_nodes s)) (dl_head s) as 0" using l by (simp add: dlist_links_def)
    from path_split_at(2,3) [OF p i] obtain nd where nd: "as ! i \<noteq> 0" "dl_nodes s (as ! i) = Some nd" by (auto simp: dlink_Some)
    have "dlist_items s ! i = dn_data nd"
      using l(1) i nd(2) by (auto simp: dlist_links_def dlist_data_def) (metis nth_map option.sel)
    with nd True dlist_node_at_ok [OF l(1,2) _ i] l(2,4) show ?thesis
      by (intro dlist_nodes.same_meets [OF ok, of _ Ok "Some (dlist_items s ! i)"]) (simp_all add: dlist_peek_at_def)
  next
    case False
    with l show ?thesis by (intro dlist_nodes.same_meets [OF ok, of _ Invalid "Some d"]) (simp_all add: dlist_peek_at_def dlist_node_at_def)
  qed
  show "seq_meets ?good dlist_items dlist_limit m s Seq_front (map_option (\<lambda>(st, out). (st, out, s)) (dlist_peek_front s (Some d)))"
  proof (cases "dlist_items s = []")
    case True
    with l show ?thesis by (intro dlist_nodes.same_meets [OF ok, of _ Empty "Some d"]) (simp_all add: dlist_peek_front_def dlist_empty_def)
  next
    case False
    with l have "as \<noteq> []" by auto
    with l dlist_peek_ends_ok [OF l(1,2), of d] False show ?thesis
      by (intro dlist_nodes.same_meets [OF ok, of _ Ok "Some (dlist_items s ! 0)"]) simp_all
  qed
  show "seq_meets ?good dlist_items dlist_limit m s Seq_back (map_option (\<lambda>(st, out). (st, out, s)) (dlist_peek_back s (Some d)))"
  proof (cases "dlist_items s = []")
    case True
    with l show ?thesis by (intro dlist_nodes.same_meets [OF ok, of _ Empty "Some d"]) (simp_all add: dlist_peek_back_def dlist_empty_def)
  next
    case False
    with l have "as \<noteq> []" by auto
    with l dlist_peek_ends_ok [OF l(1,2), of d] False show ?thesis
      by (intro dlist_nodes.same_meets [OF ok, of _ Ok "Some (dlist_items s ! (length (dlist_items s) - 1))"]) simp_all
  qed
qed

section \<open>Initialisation\<close>

text \<open>The caller's pool.\<close>

definition dlist_pool_memory :: "'e elem_policy \<Rightarrow> nat \<Rightarrow> (nat \<Rightarrow> 'e dlist_node option) \<Rightarrow> nat \<Rightarrow> bool" where
  "dlist_pool_memory pol base nodes n \<longleftrightarrow> base \<noteq> 0 \<and> base + n * (16 + ep_size pol) \<le> SIZE_MAX \<and>
     (\<forall>i < n. nodes (base + i * (16 + ep_size pol)) \<noteq> None)"

lemma dlist_pool_node_at_eq:
  assumes "dlist_pool_memory (dl_policy s) (dl_pool s) nodes n" "i < n"
  shows "dlist_pool_node_at s i = dl_pool s + i * (16 + ep_size (dl_policy s))"
  using assms pool_address [of "dl_pool s" n "16 + ep_size (dl_policy s)" i]
  by (simp add: dlist_pool_memory_def dlist_pool_node_at_def dlist_node_stride_def sz_add_eq)

lemma dlist_free_loop_ok:
  assumes "\<forall>j < i + n. dlist_pool_node_at s j \<noteq> 0 \<and> dl_nodes s (dlist_pool_node_at s j) \<noteq> None"
    "inj_on (dlist_pool_node_at s) {..<i + n}" "path (dnx (dl_nodes s)) (dl_free s) fs 0" "distinct fs" "set fs = dlist_pool_node_at s ` {..<i}"
  shows "\<exists>p h fs'. dlist_free_loop s i n = Some (s\<lparr>dl_free := p, dl_nodes := h\<rparr>) \<and> path (dnx h) p fs' 0 \<and> distinct fs' \<and>
    length fs' = length fs + n"
  using assms
proof (induction n arbitrary: i s fs)
  case 0
  then show ?case by (intro exI [of _ "dl_free s"] exI [of _ "dl_nodes s"] exI [of _ fs]) simp
next
  case (Suc n)
  let ?a = "dlist_pool_node_at s i"
  from Suc.prems(1) have "?a \<noteq> 0 \<and> dl_nodes s ?a \<noteq> None" by simp
  then obtain nd where nd: "?a \<noteq> 0" "dl_nodes s ?a = Some nd" by blast
  have new: "?a \<notin> set fs"
  proof
    assume "?a \<in> set fs"
    then obtain j where "j < i" "dlist_pool_node_at s j = ?a" using Suc.prems(5) by auto
    with inj_onD [OF Suc.prems(2), of j i] show False by simp
  qed
  define s1 where "s1 = s\<lparr>dl_nodes := (dl_nodes s)(?a \<mapsto> nd\<lparr>dn_prev := 0, dn_next := dl_free s\<rparr>), dl_free := ?a\<rparr>"
  have na: "dlist_pool_node_at s1 = dlist_pool_node_at s" by (rule ext) (simp add: dlist_pool_node_at_def s1_def)
  have "\<exists>p h fs'. dlist_free_loop s1 (Suc i) n = Some (s1\<lparr>dl_free := p, dl_nodes := h\<rparr>) \<and> path (dnx h) p fs' 0 \<and> distinct fs' \<and>
    length fs' = length (?a # fs) + n"
  proof (rule Suc.IH, unfold na)
    show "\<forall>j < Suc i + n. dlist_pool_node_at s j \<noteq> 0 \<and> dl_nodes s1 (dlist_pool_node_at s j) \<noteq> None"
      using Suc.prems(1) by (simp add: s1_def)
    show "inj_on (dlist_pool_node_at s) {..<Suc i + n}" using Suc.prems(2) by simp
    show "path (dnx (dl_nodes s1)) (dl_free s1) (?a # fs) 0" using Suc.prems(3) nd new by (simp add: s1_def)
    show "distinct (?a # fs)" using Suc.prems(4) new by simp
    show "set (?a # fs) = dlist_pool_node_at s ` {..<Suc i}" using Suc.prems(5) by (simp add: lessThan_Suc)
  qed
  moreover have "dlist_free_loop s i (Suc n) = dlist_free_loop s1 (Suc i) n"
    using nd by (simp add: dlist_set_next_def dlist_set_prev_def s1_def Let_def)
  ultimately show ?case by (auto simp: s1_def)
qed

lemma dlist_init_ok:
  assumes pool: "dlist_pool_memory pol base nodes n" and "faithful pol" "n \<noteq> 0" "n \<le> SIZE_MAX" "fl AND dlist_fixed_pool \<noteq> 0"
  shows "\<exists>s. dlist_init s0 pol base nodes n fl = Some (Ok, s) \<and> dlist_ok env m s \<and> dlist_items s = [] \<and> dlist_limit s = Some n"
proof -
  let ?s = "s0\<lparr>dl_policy := pol, dl_pool := base, dl_nodes := nodes, dl_capacity := n, dl_head := 0, dl_tail := 0, dl_size := 0,
    dl_flags := fl, dl_kind := 0, dl_free := 0\<rparr>"
  have nodes: "dlist_pool_node_at ?s i = base + i * (16 + ep_size pol)" if "i < n" for i
    using dlist_pool_node_at_eq [of ?s nodes n i] pool that by simp
  have "\<exists>p h fs'. dlist_free_loop ?s 0 n = Some (?s\<lparr>dl_free := p, dl_nodes := h\<rparr>) \<and> path (dnx h) p fs' 0 \<and> distinct fs' \<and>
    length fs' = length ([] :: nat list) + n"
  proof (rule dlist_free_loop_ok)
    show "\<forall>j < 0 + n. dlist_pool_node_at ?s j \<noteq> 0 \<and> dl_nodes ?s (dlist_pool_node_at ?s j) \<noteq> None"
      using pool nodes by (simp add: dlist_pool_memory_def)
    show "inj_on (dlist_pool_node_at ?s) {..<0 + n}" using nodes by (auto simp: inj_on_def)
  qed simp_all
  then obtain p h fs where fs: "dlist_free_loop ?s 0 n = Some (?s\<lparr>dl_free := p, dl_nodes := h\<rparr>)" "path (dnx h) p fs 0" "distinct fs" "length fs = n"
    by auto
  let ?r = "?s\<lparr>dl_free := p, dl_nodes := h\<rparr>"
  have l: "dlist_links ?r [] [] [] fs" using assms fs by (simp add: dlist_links_def dlist_is_fixed_def)
  from dlist_items_links [OF l] have e: "dlist_items ?r = []" by simp
  have "dlist_ok env m ?r"
    unfolding dlist_ok_def node_seq_ok_def e using l assms by (auto simp: dlist_limit_def dlist_is_fixed_def)
  moreover have "dlist_init s0 pol base nodes n fl = Some (Ok, ?r)"
    using fs(1) pool assms(3) by (simp add: dlist_init_def dlist_init_free_list_def dlist_pool_memory_def)
  ultimately show ?thesis using e assms by (intro exI [of _ ?r]) (simp add: dlist_limit_def dlist_is_fixed_def)
qed

lemma dlist_init_dynamic_ok:
  assumes "faithful pol" "heap_serves env" "m \<le> SIZE_MAX"
  shows "\<exists>s. dlist_init_dynamic s0 pol = (Ok, s) \<and> dlist_ok env m s \<and> dlist_items s = [] \<and> dlist_limit s = None"
proof -
  obtain s where s: "dlist_init_dynamic s0 pol = (Ok, s)" "dl_head s = 0" "dl_tail s = 0" "dl_size s = 0" "dl_policy s = pol" "\<not> dlist_is_fixed s"
    by (simp add: dlist_init_dynamic_def dlist_is_fixed_def dlist_heap_dynamic_def dlist_fixed_pool_def)
  then have l: "dlist_links s [] [] [] []" using assms by (simp add: dlist_links_def)
  from dlist_items_links [OF l] s have e: "dlist_items s = []" by simp
  have "dlist_ok env m s" unfolding dlist_ok_def node_seq_ok_def e using l assms s by (auto simp: dlist_limit_def)
  with s e show ?thesis by (simp add: dlist_limit_def)
qed

section \<open>Walks to the end\<close>

lemma dlist_for_each_ok:
  assumes "path (dnx (dl_nodes s)) p as 0" "i + length as \<le> SIZE_MAX"
  shows "dlist_for_each_loop s visit i p w = Some (visit_list visit i (dlist_data (dl_nodes s) as) w)"
  using assms
proof (induction as arbitrary: p i w)
  case Nil
  then show ?case by (subst dlist_for_each_loop.simps) simp
next
  case (Cons a as)
  from Cons.prems obtain nd where nd: "dl_nodes s p = Some nd" "p = a" "a \<noteq> 0" "path (dnx (dl_nodes s)) (dn_next nd) as 0"
    by (auto simp: dlink_Some)
  obtain st w' where v: "visit (dn_data nd) i w = (st, w')" by (cases "visit (dn_data nd) i w")
  from Cons.IH [OF nd(4), of "Suc i"] Cons.prems(2) nd v show ?case
    by (subst dlist_for_each_loop.simps) (simp add: size_simps ok_iff)
qed

lemma dlist_for_each_reverse_ok:
  assumes "path (dpv (dl_nodes s)) p (a # as) 0" "length as \<le> SIZE_MAX"
  shows "dlist_for_each_reverse_loop s visit (length as) p w = Some (visit_back visit (dlist_data (dl_nodes s) (a # as)) w)"
  using assms
proof (induction as arbitrary: p a w)
  case Nil
  then obtain nd where nd: "dl_nodes s p = Some nd" "p = a" "a \<noteq> 0" by (auto simp: dlink_Some)
  obtain st w' where v: "visit (dn_data nd) 0 w = (st, w')" by (cases "visit (dn_data nd) 0 w")
  with nd show ?case by (subst dlist_for_each_reverse_loop.simps) (simp add: ok_iff)
next
  case (Cons b as)
  from Cons.prems obtain nd where nd: "dl_nodes s p = Some nd" "p = a" "a \<noteq> 0" "path (dpv (dl_nodes s)) (dn_prev nd) (b # as) 0"
    by (auto simp: dlink_Some)
  obtain st w' where v: "visit (dn_data nd) (Suc (length as)) w = (st, w')" by (cases "visit (dn_data nd) (Suc (length as)) w")
  from Cons.IH [OF nd(4)] Cons.prems(2) nd v show ?case
    by (subst dlist_for_each_reverse_loop.simps) (simp add: size_simps ok_iff)
qed

lemma dlist_clear_loop_ok:
  assumes "dlist_links s as vs [] fs"
  shows "\<exists>s' fs'. dlist_clear_loop env s = Some s' \<and> dlist_links s' [] [] [] fs' \<and> dlist_frame s s' \<and>
    dl_destroyed s' = (if ep_destroy (dl_policy s) then dl_destroyed s @ vs else dl_destroyed s)"
  using assms
proof (induction as arbitrary: s vs fs)
  case Nil
  then have "dl_head s = 0" "vs = []" by (simp_all add: dlist_links_def)
  with Nil show ?case
    by (intro exI [of _ s] exI [of _ fs]) (subst dlist_clear_loop.simps, simp)
next
  case (Cons a as)
  note l = Cons.prems
  from l obtain v ws where vs: "vs = v # ws" by (cases vs) (auto simp: dlist_links_def)
  have hd: "dl_head s = a" "a \<noteq> 0" using l by (simp_all add: dlist_links_def)
  from dlist_unlink_ok [of s "[]" a as vs fs] l vs obtain s1 where u: "dlist_unlink_node s a = Some s1" "dlist_linked s s1 as [a] ws fs"
    by auto
  have "dlist_data (dl_nodes s1) [a] = [v]"
  proof -
    from l vs obtain nd where nd: "dl_nodes s a = Some nd" "dn_data nd = v" by (auto simp: dlist_links_def dlink_Some)
    with u(1) show ?thesis
      by (auto simp: dlist_unlink_node_def dlist_set_next_def dlist_set_prev_def bind_eq_Some_conv split: if_splits)
  qed
  then have dv: "dlist_destroy_node_value s1 a = Some (if ep_destroy (dl_policy s1) then s1\<lparr>dl_destroyed := dl_destroyed s1 @ [v]\<rparr> else s1)"
    using u(2) by (auto simp: dlist_destroy_node_value_def dlist_linked_def dlist_links_def needs_destroy_on_clear_def)
  let ?s2 = "if ep_destroy (dl_policy s1) then s1\<lparr>dl_destroyed := dl_destroyed s1 @ [v]\<rparr> else s1"
  have l2: "dlist_links ?s2 as ws [a] fs" using u(2) by (simp add: dlist_linked_def)
  from dlist_release_node_ok [OF l2, of env] obtain s3 fs1 where r: "dlist_release_node env ?s2 a = Some s3" "dlist_links s3 as ws [] fs1"
    "dlist_frame ?s2 s3" "dl_destroyed s3 = dl_destroyed ?s2" by blast
  from Cons.IH [OF r(2)] obtain s' fs' where s': "dlist_clear_loop env s3 = Some s'" "dlist_links s' [] [] [] fs'" "dlist_frame s3 s'"
    "dl_destroyed s' = (if ep_destroy (dl_policy s3) then dl_destroyed s3 @ ws else dl_destroyed s3)" by blast
  have "dlist_clear_loop env s = Some s'"
    using hd u(1) dv r(1) s'(1) by (subst dlist_clear_loop.simps) simp
  moreover have "dlist_frame s ?s2" "dl_policy s3 = dl_policy s" "dl_policy s1 = dl_policy s" "dl_destroyed s1 = dl_destroyed s"
    using u(2) r(3) by (simp_all add: dlist_linked_def dlist_frame_def split: if_splits)
  ultimately show ?case
    using s' r(3,4) vs by (intro exI [of _ s'] exI [of _ fs']) (auto elim!: dlist_frame_trans)
qed

section \<open>Properties\<close>

text \<open> C26.
  A doubly linked list over a pool of \<open>n\<close> nodes, from \<open>init\<close> on: every sequence of insertions, removals
  and peeks at the front, at the back and by position - walking from the nearer end - has the results of a
  list bounded by \<open>n\<close>.
\<close>

theorem dlist_is_sequence:
  assumes "dlist_pool_memory pol base nodes n" "faithful pol" "n \<noteq> 0" "n \<le> SIZE_MAX" "fl AND dlist_fixed_pool \<noteq> 0"
  shows "\<exists>s s'. dlist_init s0 pol base nodes n fl = Some (Ok, s) \<and>
    seq_run (seq_call (\<lambda>s e. dlist_push_front env s (Some e)) (\<lambda>s e. dlist_push_back env s (Some e)) (\<lambda>s i e. dlist_insert_at env s i (Some e))
      (\<lambda>s. dlist_pop_front env s (Some d)) (\<lambda>s. dlist_pop_back env s (Some d)) (\<lambda>s i. dlist_remove_at env s i (Some d))
      (\<lambda>s i. dlist_peek_at s i (Some d)) (\<lambda>s. dlist_peek_front s (Some d)) (\<lambda>s. dlist_peek_back s (Some d))) s cs = Some (fst (seq_spec (Some n) [] cs), s') \<and>
    dlist_ok env 0 s' \<and> dlist_items s' = snd (seq_spec (Some n) [] cs)"
proof -
  from dlist_init_ok [OF assms, of s0 env "length (filter seq_inserts cs) + 0"] obtain s where
    s: "dlist_init s0 pol base nodes n fl = Some (Ok, s)" "dlist_ok env (length (filter seq_inserts cs) + 0) s" "dlist_items s = []"
    "dlist_limit s = Some n" by blast
  from dlist_seq.run_refines [OF s(2), of d] s show ?thesis by auto
qed

definition sample_dlist_nodes :: "nat \<Rightarrow> nat dlist_node option" where
  "sample_dlist_nodes a = (if a = 1000 \<or> a = 1024 then Some \<lparr>dn_prev = 3, dn_next = 7, dn_data = 0\<rparr> else None)"

definition sample_dlist :: "nat dlist_core" where
  "sample_dlist = \<lparr>dl_policy = typed_trivial_policy 8 8, dl_head = 0, dl_tail = 0, dl_free = 0, dl_size = 0, dl_capacity = 0, dl_pool = 0,
     dl_flags = 0, dl_kind = 0, dl_nodes = (\<lambda>_. None), dl_allocs = 0, dl_destroyed = []\<rparr>"

definition sample_dlist_env :: "nat node_env" where
  "sample_dlist_env = \<lparr>ne_allow_heap = False, ne_malloc = (\<lambda>_ _. False), ne_junk = 0\<rparr>"

lemma sample_dlist_pool: "dlist_pool_memory (typed_trivial_policy 8 8) 1000 sample_dlist_nodes 2"
proof -
  have "i = 0 \<or> i = 1" if "i < 2" for i :: nat using that by linarith
  then show ?thesis by (force simp: dlist_pool_memory_def sample_dlist_nodes_def SIZE_MAX_def)
qed

theorem dlist_is_sequence_witness:
  "\<exists>s s'. dlist_init sample_dlist (typed_trivial_policy 8 8) 1000 sample_dlist_nodes 2 1 = Some (Ok, s) \<and>
    seq_run (seq_call (\<lambda>s e. dlist_push_front sample_dlist_env s (Some e)) (\<lambda>s e. dlist_push_back sample_dlist_env s (Some e))
      (\<lambda>s i e. dlist_insert_at sample_dlist_env s i (Some e))
      (\<lambda>s. dlist_pop_front sample_dlist_env s (Some 0)) (\<lambda>s. dlist_pop_back sample_dlist_env s (Some 0)) (\<lambda>s i. dlist_remove_at sample_dlist_env s i (Some 0))
      (\<lambda>s i. dlist_peek_at s i (Some 0)) (\<lambda>s. dlist_peek_front s (Some 0)) (\<lambda>s. dlist_peek_back s (Some 0))) s [Seq_push_back 5, Seq_insert 0 6, Seq_push_back 7, Seq_at 1, Seq_front, Seq_back, Seq_remove 0, Seq_pop_back, Seq_pop_front] =
    Some ([(Ok, None), (Ok, None), (Full, None), (Ok, Some 5), (Ok, Some 6), (Ok, Some 5), (Ok, Some 6), (Ok, Some 5), (Empty, None)], s')"
proof -
  have fl: "(1 :: u8) AND dlist_fixed_pool \<noteq> 0" by (simp add: dlist_fixed_pool_def)
  have r: "fst (seq_spec (Some 2) [] [Seq_push_back 5, Seq_insert 0 6, Seq_push_back 7, Seq_at 1, Seq_front, Seq_back, Seq_remove 0, Seq_pop_back, Seq_pop_front]) =
    [(Ok, None), (Ok, None), (Full, None), (Ok, Some (5 :: nat)), (Ok, Some 6), (Ok, Some 5), (Ok, Some 6), (Ok, Some 5), (Empty, None)]"
    by (simp add: seq_put_def seq_take_def seq_room_def)
  show ?thesis
    using dlist_is_sequence [OF sample_dlist_pool _ _ _ fl, of sample_dlist sample_dlist_env 0
        "[Seq_push_back 5, Seq_insert 0 6, Seq_push_back 7, Seq_at 1, Seq_front, Seq_back, Seq_remove 0, Seq_pop_back, Seq_pop_front]"] r
    by (auto simp: SIZE_MAX_def)
qed

text \<open>
  The walks over a well-formed doubly linked list end: \<open>for_each\<close> visits the elements from front to back,
  \<open>for_each_reverse\<close> from back to front, each with its index and up to the first error; \<open>clear\<close> destroys the
  elements in order and gives every node back.
\<close>

theorem dlist_walks_end:
  assumes "dlist_ok env m s"
  shows "dlist_for_each s visit w = Some (visit_list visit 0 (dlist_items s) w) \<and>
    dlist_for_each_reverse s visit w = Some (visit_back visit (rev (dlist_items s)) w) \<and>
    (\<exists>s'. dlist_clear env s = Some s' \<and> dlist_ok env m s' \<and> dlist_items s' = [] \<and> dlist_limit s' = dlist_limit s \<and>
       dl_destroyed s' = (if ep_destroy (dl_policy s) then dl_destroyed s @ dlist_items s else dl_destroyed s))"
proof -
  from dlist_nodes.goodE [OF assms [unfolded dlist_ok_def]] obtain as fs where
    l: "dlist_links s as (dlist_items s) [] fs" "dl_size s = length as" "dl_size s \<le> SIZE_MAX" by metis
  have data: "dlist_data (dl_nodes s) as = dlist_items s" and bwd: "path (dpv (dl_nodes s)) (dl_tail s) (rev as) 0"
    using l by (simp_all add: dlist_links_def)
  have "dlist_for_each s visit w = Some (visit_list visit 0 (dlist_items s) w)"
    using dlist_for_each_ok [of s "dl_head s" as 0 visit w] l by (simp add: dlist_for_each_def dlist_links_def)
  moreover have "dlist_for_each_reverse s visit w = Some (visit_back visit (rev (dlist_items s)) w)"
  proof (cases as rule: rev_cases)
    case Nil
    with l data show ?thesis by (simp add: dlist_for_each_reverse_def)
  next
    case (snoc bs b)
    have "rev (dlist_items s) = dlist_data (dl_nodes s) (b # rev bs)" using data snoc by (auto simp: dlist_data_def rev_map)
    with bwd snoc l dlist_for_each_reverse_ok [of s "dl_tail s" b "rev bs" visit w] show ?thesis
      by (simp add: dlist_for_each_reverse_def size_simps)
  qed
  moreover from dlist_clear_loop_ok [OF l(1)] obtain s' fs' where s': "dlist_clear_loop env s = Some s'" "dlist_links s' [] [] [] fs'"
    "dlist_frame s s'" "dl_destroyed s' = (if ep_destroy (dl_policy s) then dl_destroyed s @ dlist_items s else dl_destroyed s)" by blast
  let ?r = "s'\<lparr>dl_head := 0, dl_tail := 0, dl_size := 0\<rparr>"
  have "dlist_links ?r [] [] [] fs'" using s'(2) by (auto simp: dlist_links_def dlist_is_fixed_def)
  from dlist_nodes.good_result [OF assms [unfolded dlist_ok_def] this, of m, folded dlist_ok_def] s'(3)
  have "dlist_ok env m ?r \<and> dlist_items ?r = [] \<and> dlist_limit ?r = dlist_limit s" by (simp add: dlist_frame_def)
  moreover have "dlist_clear env s = Some ?r" using s'(1) by (simp add: dlist_clear_def)
  ultimately show ?thesis using s'(4) by simp
qed

theorem dlist_walks_end_witness:
  "\<exists>s s'. dlist_init sample_dlist (typed_trivial_policy 8 8) 1000 sample_dlist_nodes 2 1 = Some (Ok, s) \<and>
    dlist_for_each s (\<lambda>v i w. (Ok, w + v)) 0 = Some (Ok, 0) \<and> dlist_clear sample_dlist_env s = Some s' \<and> dlist_items s' = []"
proof -
  have fl: "(1 :: u8) AND dlist_fixed_pool \<noteq> 0" by (simp add: dlist_fixed_pool_def)
  from dlist_init_ok [OF sample_dlist_pool _ _ _ fl, of sample_dlist sample_dlist_env 0] obtain s where
    s: "dlist_init sample_dlist (typed_trivial_policy 8 8) 1000 sample_dlist_nodes 2 1 = Some (Ok, s)" "dlist_ok sample_dlist_env 0 s" "dlist_items s = []"
    by (auto simp: SIZE_MAX_def)
  from dlist_walks_end [OF s(2), of "\<lambda>v i w. (Ok, w + v)" 0] s show ?thesis by auto
qed

end
