(* ===== verification/Lru_Cache.thy ===== *)
theory Lru_Cache
  imports Linked
begin

text \<open>
  \<^verbatim>\<open>include/memkit/detail/lrucache_map_core.hpp\<close>: a cache of at most \<open>capacity\<close> entries. Every entry is in
  the chain of its bucket and in the list of all entries from the most to the least recently used one;
  free entries are chained through \<open>hash_next\<close>.

  Entries live in a store from addresses to entries, 0 is the null pointer. \<open>lr_destroyed\<close> is the trace
  of the destroyed keys (\<open>Inl\<close>) and values (\<open>Inr\<close>).
\<close>

section \<open>State\<close>

record ('k, 'v) lru_entry =
  le_hash_next :: nat
  le_prev :: nat
  le_next :: nat
  le_key :: 'k
  le_value :: 'v

record ('k, 'v) lru_cache =
  lr_key_policy :: "'k elem_policy"
  lr_value_policy :: "'v elem_policy"
  lr_hash :: "'k hash_policy"
  lr_buckets :: "nat mem"
  lr_head :: nat
  lr_tail :: nat
  lr_free :: nat
  lr_pool :: nat
  lr_capacity :: nat
  lr_bucket_count :: nat
  lr_size :: nat
  lr_flags :: u8
  lr_kind :: u8
  lr_owns_buckets :: bool
  lr_entries :: "nat \<Rightarrow> ('k, 'v) lru_entry option"
  lr_destroyed :: "('k + 'v) list"

definition lru_entry_stride :: "nat \<Rightarrow> nat \<Rightarrow> nat" where
  "lru_entry_stride key_size value_size = sz_add (sz_add 24 key_size) value_size"

definition lru_entry_pool_bytes :: "nat \<Rightarrow> nat \<Rightarrow> nat \<Rightarrow> nat" where
  "lru_entry_pool_bytes capacity key_size value_size = sz_mul capacity (lru_entry_stride key_size value_size)"

definition lru_buckets_bytes :: "nat \<Rightarrow> nat" where
  "lru_buckets_bytes bucket_count = sz_mul bucket_count 8"

partial_function (option) lru_bucket_count_loop :: "nat \<Rightarrow> nat \<Rightarrow> nat option" where
  "lru_bucket_count_loop capacity buckets =
     (if buckets < capacity then
        (if buckets > SIZE_MAX div 2 then Some capacity else lru_bucket_count_loop capacity (sz_mul buckets 2))
      else Some buckets)"

definition lru_default_bucket_count :: "nat \<Rightarrow> nat option" where
  "lru_default_bucket_count capacity = lru_bucket_count_loop capacity 4"

definition lru_empty :: "('k, 'v) lru_cache \<Rightarrow> bool" where
  "lru_empty s \<longleftrightarrow> lr_size s = 0"

definition lru_full :: "('k, 'v) lru_cache \<Rightarrow> bool" where
  "lru_full s \<longleftrightarrow> lr_size s \<ge> lr_capacity s"

definition lru_set_storage_kind :: "('k, 'v) lru_cache \<Rightarrow> u8 \<Rightarrow> ('k, 'v) lru_cache" where
  "lru_set_storage_kind s kind = s\<lparr>lr_kind := kind\<rparr>"

definition lru_set_owns_buckets :: "('k, 'v) lru_cache \<Rightarrow> bool \<Rightarrow> ('k, 'v) lru_cache" where
  "lru_set_owns_buckets s owns = s\<lparr>lr_owns_buckets := owns\<rparr>"

text \<open>Assignments through an entry pointer.\<close>

definition lru_update :: "('k, 'v) lru_cache \<Rightarrow> nat \<Rightarrow> (('k, 'v) lru_entry \<Rightarrow> ('k, 'v) lru_entry) \<Rightarrow> ('k, 'v) lru_cache option" where
  "lru_update s a f = do {
     e \<leftarrow> lr_entries s a;
     Some (s\<lparr>lr_entries := (lr_entries s)(a \<mapsto> f e)\<rparr>)
   }"

section \<open>Initialisation\<close>

definition lru_entry_at :: "('k, 'v) lru_cache \<Rightarrow> nat \<Rightarrow> nat" where
  "lru_entry_at s index =
     sz_add (lr_pool s) (sz_mul index (lru_entry_stride (ep_size (lr_key_policy s)) (ep_size (lr_value_policy s))))"

fun lru_free_loop :: "('k, 'v) lru_cache \<Rightarrow> nat \<Rightarrow> nat \<Rightarrow> ('k, 'v) lru_cache option" where
  "lru_free_loop s i 0 = Some s"
| "lru_free_loop s i (Suc n) = do {
     let slot = lru_entry_at s i;
     s1 \<leftarrow> lru_update s slot (\<lambda>e. e\<lparr>le_prev := 0, le_next := 0, le_hash_next := lr_free s\<rparr>);
     lru_free_loop (s1\<lparr>lr_free := slot\<rparr>) (Suc i) n
   }"

definition lru_reset_free_list :: "('k, 'v) lru_cache \<Rightarrow> (status \<times> ('k, 'v) lru_cache) option" where
  "lru_reset_free_list s = do {
     bs \<leftarrow> lr_buckets s;
     let n = lru_buckets_bytes (lr_bucket_count s) div 8;
     m \<leftarrow> (if n \<le> length bs then Some (Some (replicate n 0 @ drop n bs)) else None);
     s' \<leftarrow> lru_free_loop (s\<lparr>lr_free := 0, lr_head := 0, lr_tail := 0, lr_size := 0, lr_buckets := m\<rparr>) 0 (lr_capacity s);
     Some (Ok, s')
   }"

text \<open>\<open>entries\<close> is the memory of the pool, whatever it holds.\<close>

definition lru_init ::
  "('k, 'v) lru_cache \<Rightarrow> 'k elem_policy \<Rightarrow> 'v elem_policy \<Rightarrow> 'k hash_policy \<Rightarrow> nat \<Rightarrow> (nat \<Rightarrow> ('k, 'v) lru_entry option) \<Rightarrow>
   nat \<Rightarrow> nat mem \<Rightarrow> nat \<Rightarrow> u8 \<Rightarrow> (status \<times> ('k, 'v) lru_cache) option" where
  "lru_init s key_policy value_policy hash entry_pool entries capacity buckets bucket_count flags =
     (if entry_pool = 0 \<or> buckets = None \<or> capacity = 0 \<or> bucket_count = 0 then Some (Invalid, s)
      else lru_reset_free_list (s\<lparr>lr_key_policy := key_policy, lr_value_policy := value_policy, lr_hash := hash,
             lr_pool := entry_pool, lr_entries := entries, lr_buckets := buckets, lr_capacity := capacity,
             lr_bucket_count := bucket_count, lr_flags := flags, lr_kind := 0, lr_owns_buckets := False\<rparr>))"

definition lru_reset_state ::
  "'k elem_policy \<Rightarrow> 'v elem_policy \<Rightarrow> 'k hash_policy \<Rightarrow> ('k, 'v) lru_cache \<Rightarrow> ('k, 'v) lru_cache" where
  "lru_reset_state default_key default_value default_hash s =
     s\<lparr>lr_key_policy := default_key, lr_value_policy := default_value, lr_hash := default_hash, lr_buckets := None,
       lr_head := 0, lr_tail := 0, lr_free := 0, lr_pool := 0, lr_capacity := 0, lr_bucket_count := 0, lr_size := 0,
       lr_flags := 0, lr_kind := 0, lr_owns_buckets := False\<rparr>"

section \<open>Links\<close>

partial_function (option) lru_find_loop :: "('k, 'v) lru_cache \<Rightarrow> 'k \<Rightarrow> nat \<Rightarrow> nat \<Rightarrow> (nat \<times> nat) option" where
  "lru_find_loop s key prev current =
     (if current = 0 then Some (0, prev)
      else do {
        e \<leftarrow> lr_entries s current;
        if key_equal (lr_hash s) (le_key e) key then Some (current, prev)
        else lru_find_loop s key current (le_hash_next e)
      })"

text \<open>The entry (or null), its bucket, and the entry before it in the chain.\<close>

definition lru_find_entry :: "('k, 'v) lru_cache \<Rightarrow> 'k \<Rightarrow> (nat \<times> nat \<times> nat) option" where
  "lru_find_entry s key = do {
     bucket_index \<leftarrow> sz_mod (hash_key (lr_hash s) key) (lr_bucket_count s);
     current \<leftarrow> mem_rd (lr_buckets s) bucket_index;
     (found, prev) \<leftarrow> lru_find_loop s key 0 current;
     Some (found, bucket_index, prev)
   }"

definition lru_unlink :: "('k, 'v) lru_cache \<Rightarrow> nat \<Rightarrow> ('k, 'v) lru_cache option" where
  "lru_unlink s slot = do {
     e \<leftarrow> lr_entries s slot;
     s1 \<leftarrow> (if le_prev e \<noteq> 0 then lru_update s (le_prev e) (\<lambda>p. p\<lparr>le_next := le_next e\<rparr>)
             else Some (s\<lparr>lr_head := le_next e\<rparr>));
     e1 \<leftarrow> lr_entries s1 slot;
     s2 \<leftarrow> (if le_next e1 \<noteq> 0 then lru_update s1 (le_next e1) (\<lambda>n. n\<lparr>le_prev := le_prev e1\<rparr>)
             else Some (s1\<lparr>lr_tail := le_prev e1\<rparr>));
     lru_update s2 slot (\<lambda>e. e\<lparr>le_prev := 0, le_next := 0\<rparr>)
   }"

definition lru_push_front :: "('k, 'v) lru_cache \<Rightarrow> nat \<Rightarrow> ('k, 'v) lru_cache option" where
  "lru_push_front s slot = do {
     s1 \<leftarrow> lru_update s slot (\<lambda>e. e\<lparr>le_prev := 0, le_next := lr_head s\<rparr>);
     s2 \<leftarrow> (if lr_head s1 \<noteq> 0 then lru_update s1 (lr_head s1) (\<lambda>h. h\<lparr>le_prev := slot\<rparr>)
             else Some (s1\<lparr>lr_tail := slot\<rparr>));
     Some (s2\<lparr>lr_head := slot\<rparr>)
   }"

definition lru_promote :: "('k, 'v) lru_cache \<Rightarrow> nat \<Rightarrow> ('k, 'v) lru_cache option" where
  "lru_promote s slot =
     (if lr_head s = slot then Some s
      else do {
        s1 \<leftarrow> lru_unlink s slot;
        lru_push_front s1 slot
      })"

definition lru_hash_unlink :: "('k, 'v) lru_cache \<Rightarrow> nat \<Rightarrow> nat \<Rightarrow> nat \<Rightarrow> ('k, 'v) lru_cache option" where
  "lru_hash_unlink s bucket_index slot prev = do {
     e \<leftarrow> lr_entries s slot;
     s1 \<leftarrow> (if prev = 0 then do {
              m \<leftarrow> mem_wr (lr_buckets s) bucket_index (le_hash_next e);
              Some (s\<lparr>lr_buckets := m\<rparr>)
            }
            else lru_update s prev (\<lambda>p. p\<lparr>le_hash_next := le_hash_next e\<rparr>));
     lru_update s1 slot (\<lambda>e. e\<lparr>le_hash_next := 0\<rparr>)
   }"

definition lru_acquire_entry :: "('k, 'v) lru_cache \<Rightarrow> (nat \<times> ('k, 'v) lru_cache) option" where
  "lru_acquire_entry s =
     (if lr_free s = 0 then Some (0, s)
      else do {
        let slot = lr_free s;
        e \<leftarrow> lr_entries s slot;
        s1 \<leftarrow> lru_update (s\<lparr>lr_free := le_hash_next e\<rparr>) slot (\<lambda>e. e\<lparr>le_hash_next := 0\<rparr>);
        Some (slot, s1)
      })"

definition lru_release_entry :: "('k, 'v) lru_cache \<Rightarrow> nat \<Rightarrow> ('k, 'v) lru_cache option" where
  "lru_release_entry s slot = do {
     s1 \<leftarrow> lru_update s slot (\<lambda>e. e\<lparr>le_prev := 0, le_next := 0, le_hash_next := lr_free s\<rparr>);
     Some (s1\<lparr>lr_free := slot\<rparr>)
   }"

definition lru_destroy_entry :: "('k, 'v) lru_cache \<Rightarrow> nat \<Rightarrow> ('k, 'v) lru_cache option" where
  "lru_destroy_entry s slot = do {
     e \<leftarrow> lr_entries s slot;
     Some (s\<lparr>lr_destroyed := lr_destroyed s @ (if ep_destroy (lr_key_policy s) then [Inl (le_key e)] else []) @
                             (if ep_destroy (lr_value_policy s) then [Inr (le_value e)] else [])\<rparr>)
   }"

section \<open>Operations\<close>

text \<open>Getting an entry for a new key: a free one, or the least recently used one.\<close>

definition lru_evict :: "('k, 'v) lru_cache \<Rightarrow> nat \<Rightarrow> ('k, 'v) lru_cache option" where
  "lru_evict s slot = do {
     e \<leftarrow> lr_entries s slot;
     (_, old_bucket, prev) \<leftarrow> lru_find_entry s (le_key e);
     s1 \<leftarrow> lru_destroy_entry s slot;
     s2 \<leftarrow> lru_unlink s1 slot;
     s3 \<leftarrow> lru_hash_unlink s2 old_bucket slot prev;
     Some (s3\<lparr>lr_size := sz_sub (lr_size s3) 1\<rparr>)
   }"

text \<open>Filling the entry; only an entry from the free list goes back when a copy fails.\<close>

definition lru_fill :: "('k, 'v) lru_cache \<Rightarrow> nat \<Rightarrow> bool \<Rightarrow> 'k \<Rightarrow> 'v \<Rightarrow> (status \<times> nat \<times> nat \<times> ('k, 'v) lru_cache) option" where
  "lru_fill s slot from_free key val = do {
     e \<leftarrow> lr_entries s slot;
     let (kst, k) = copy_construct (lr_key_policy s) (le_key e) key;
     s1 \<leftarrow> lru_update s slot (\<lambda>e. e\<lparr>le_key := k\<rparr>);
     if \<not> ok kst then do {
       s2 \<leftarrow> (if from_free then lru_release_entry s1 slot else Some s1);
       Some (kst, 0, 0, s2)
     }
     else do {
       let (vst, v) = copy_construct (lr_value_policy s) (le_value e) val;
       s2 \<leftarrow> lru_update s1 slot (\<lambda>e. e\<lparr>le_value := v\<rparr>);
       if \<not> ok vst then do {
         let s3 = (if ep_destroy (lr_key_policy s) then s2\<lparr>lr_destroyed := lr_destroyed s2 @ [Inl k]\<rparr> else s2);
         s4 \<leftarrow> (if from_free then lru_release_entry s3 slot else Some s3);
         Some (vst, 0, 0, s4)
       }
       else do {
         bucket_index \<leftarrow> sz_mod (hash_key (lr_hash s2) key) (lr_bucket_count s2);
         Some (Ok, slot, bucket_index, s2)
       }
     }
   }"

definition lru_prepare_entry :: "('k, 'v) lru_cache \<Rightarrow> 'k \<Rightarrow> 'v \<Rightarrow> (status \<times> nat \<times> nat \<times> ('k, 'v) lru_cache) option" where
  "lru_prepare_entry s key val = do {
     (slot, s1) \<leftarrow> lru_acquire_entry s;
     if slot \<noteq> 0 then lru_fill s1 slot True key val
     else if lr_size s1 < lr_capacity s1 \<or> lr_tail s1 = 0 then Some (Full, 0, 0, s1)
     else do {
       let victim = lr_tail s1;
       s2 \<leftarrow> lru_evict s1 victim;
       lru_fill s2 victim False key val
     }
   }"

definition lru_get :: "('k, 'v) lru_cache \<Rightarrow> 'k option \<Rightarrow> 'v option \<Rightarrow> (status \<times> 'v option \<times> ('k, 'v) lru_cache) option" where
  "lru_get s key out =
     (case key of None \<Rightarrow> Some (Null_ptr, out, s)
      | Some k \<Rightarrow> do {
          (found, _, _) \<leftarrow> lru_find_entry s k;
          if found = 0 then Some (Not_found, out, s)
          else do {
            e \<leftarrow> lr_entries s found;
            let (st, out') = (case out of None \<Rightarrow> (Ok, None)
                              | Some dst \<Rightarrow> let (st, v) = copy_construct (lr_value_policy s) dst (le_value e) in (st, Some v));
            if \<not> ok st then Some (st, out', s)
            else do {
              s' \<leftarrow> lru_promote s found;
              Some (Ok, out', s')
            }
          }
        })"

definition lru_peek :: "('k, 'v) lru_cache \<Rightarrow> 'k option \<Rightarrow> 'v option \<Rightarrow> (status \<times> 'v option) option" where
  "lru_peek s key out =
     (case key of None \<Rightarrow> Some (Null_ptr, out)
      | Some k \<Rightarrow> do {
          (found, _, _) \<leftarrow> lru_find_entry s k;
          if found = 0 then Some (Not_found, out)
          else (case out of None \<Rightarrow> Some (Ok, None)
                | Some dst \<Rightarrow> do {
                    e \<leftarrow> lr_entries s found;
                    let (st, v) = copy_construct (lr_value_policy s) dst (le_value e);
                    Some (st, Some v)
                  })
        })"

definition lru_put :: "('k, 'v) lru_cache \<Rightarrow> 'k option \<Rightarrow> 'v option \<Rightarrow> (status \<times> ('k, 'v) lru_cache) option" where
  "lru_put s key val =
     (case (key, val) of
        (Some k, Some v) \<Rightarrow> do {
          (existing, _, _) \<leftarrow> lru_find_entry s k;
          if existing \<noteq> 0 then do {
            e \<leftarrow> lr_entries s existing;
            let (st, v') = copy_construct (lr_value_policy s) (le_value e) v;
            s1 \<leftarrow> lru_update s existing (\<lambda>e. e\<lparr>le_value := v'\<rparr>);
            if \<not> ok st then Some (st, s1)
            else do {
              s2 \<leftarrow> lru_promote s1 existing;
              Some (Ok, s2)
            }
          }
          else do {
            (st, slot, bucket_index, s1) \<leftarrow> lru_prepare_entry s k v;
            if \<not> ok st then Some (st, s1)
            else do {
              head \<leftarrow> mem_rd (lr_buckets s1) bucket_index;
              s2 \<leftarrow> lru_update s1 slot (\<lambda>e. e\<lparr>le_hash_next := head\<rparr>);
              m \<leftarrow> mem_wr (lr_buckets s2) bucket_index slot;
              s3 \<leftarrow> lru_push_front (s2\<lparr>lr_buckets := m\<rparr>) slot;
              Some (Ok, s3\<lparr>lr_size := sz_add (lr_size s3) 1\<rparr>)
            }
          }
        }
      | _ \<Rightarrow> Some (Null_ptr, s))"

definition lru_remove :: "('k, 'v) lru_cache \<Rightarrow> 'k option \<Rightarrow> (status \<times> ('k, 'v) lru_cache) option" where
  "lru_remove s key =
     (case key of None \<Rightarrow> Some (Null_ptr, s)
      | Some k \<Rightarrow> do {
          (found, bucket_index, prev) \<leftarrow> lru_find_entry s k;
          if found = 0 then Some (Not_found, s)
          else do {
            s1 \<leftarrow> lru_destroy_entry s found;
            s2 \<leftarrow> lru_unlink s1 found;
            s3 \<leftarrow> lru_hash_unlink s2 bucket_index found prev;
            s4 \<leftarrow> lru_release_entry s3 found;
            Some (Ok, s4\<lparr>lr_size := sz_sub (lr_size s4) 1\<rparr>)
          }
        })"

definition lru_contains :: "('k, 'v) lru_cache \<Rightarrow> 'k option \<Rightarrow> bool option" where
  "lru_contains s key =
     (case key of None \<Rightarrow> Some False
      | Some k \<Rightarrow> do {
          (found, _, _) \<leftarrow> lru_find_entry s k;
          Some (found \<noteq> 0)
        })"

definition lru_touch :: "('k, 'v) lru_cache \<Rightarrow> 'k option \<Rightarrow> (status \<times> ('k, 'v) lru_cache) option" where
  "lru_touch s key =
     (case key of None \<Rightarrow> Some (Null_ptr, s)
      | Some k \<Rightarrow> do {
          (found, _, _) \<leftarrow> lru_find_entry s k;
          if found = 0 then Some (Not_found, s)
          else do {
            s' \<leftarrow> lru_promote s found;
            Some (Ok, s')
          }
        })"

section \<open>Walks\<close>

partial_function (option) lru_clear_bucket :: "('k, 'v) lru_cache \<Rightarrow> nat \<Rightarrow> ('k, 'v) lru_cache option" where
  "lru_clear_bucket s current =
     (if current = 0 then Some s
      else do {
        e \<leftarrow> lr_entries s current;
        s1 \<leftarrow> lru_destroy_entry s current;
        s2 \<leftarrow> lru_release_entry s1 current;
        lru_clear_bucket s2 (le_hash_next e)
      })"

fun lru_clear_loop :: "('k, 'v) lru_cache \<Rightarrow> nat \<Rightarrow> nat \<Rightarrow> ('k, 'v) lru_cache option" where
  "lru_clear_loop s i 0 = Some s"
| "lru_clear_loop s i (Suc n) = do {
     current \<leftarrow> mem_rd (lr_buckets s) i;
     s1 \<leftarrow> lru_clear_bucket s current;
     m \<leftarrow> mem_wr (lr_buckets s1) i 0;
     lru_clear_loop (s1\<lparr>lr_buckets := m\<rparr>) (Suc i) n
   }"

definition lru_clear :: "('k, 'v) lru_cache \<Rightarrow> ('k, 'v) lru_cache option" where
  "lru_clear s =
     (if lr_size s = 0 then Some s
      else do {
        s' \<leftarrow> lru_clear_loop s 0 (lr_bucket_count s);
        Some (s'\<lparr>lr_head := 0, lr_tail := 0, lr_size := 0\<rparr>)
      })"

partial_function (option) lru_foreach_loop ::
  "('k, 'v) lru_cache \<Rightarrow> ('k \<Rightarrow> 'v \<Rightarrow> 'w \<Rightarrow> status \<times> 'w) \<Rightarrow> bool \<Rightarrow> nat \<Rightarrow> 'w \<Rightarrow> (status \<times> 'w) option" where
  "lru_foreach_loop s visit mru_order current w =
     (if current = 0 then Some (Ok, w)
      else do {
        e \<leftarrow> lr_entries s current;
        let (st, w') = visit (le_key e) (le_value e) w;
        if \<not> ok st then Some (st, w')
        else lru_foreach_loop s visit mru_order (if mru_order then le_next e else le_prev e) w'
      })"

definition lru_foreach_list ::
  "('k, 'v) lru_cache \<Rightarrow> ('k \<Rightarrow> 'v \<Rightarrow> 'w \<Rightarrow> status \<times> 'w) \<Rightarrow> bool \<Rightarrow> 'w \<Rightarrow> (status \<times> 'w) option" where
  "lru_foreach_list s visit mru_order w = lru_foreach_loop s visit mru_order (if mru_order then lr_head s else lr_tail s) w"

definition lru_foreach_mru :: "('k, 'v) lru_cache \<Rightarrow> ('k \<Rightarrow> 'v \<Rightarrow> 'w \<Rightarrow> status \<times> 'w) \<Rightarrow> 'w \<Rightarrow> (status \<times> 'w) option" where
  "lru_foreach_mru s visit w = lru_foreach_list s visit True w"

definition lru_foreach_lru :: "('k, 'v) lru_cache \<Rightarrow> ('k \<Rightarrow> 'v \<Rightarrow> 'w \<Rightarrow> status \<times> 'w) \<Rightarrow> 'w \<Rightarrow> (status \<times> 'w) option" where
  "lru_foreach_lru s visit w = lru_foreach_list s visit False w"

end
