(* ===== verification/Lru_Correct.thy ===== *)
theory Lru_Correct
  imports Lru_Cache Hash_Common "HOL-Library.Multiset"
begin

text \<open>
  The cache is a map that drops the least recently used entry. The links of the entries are read as
  four maps: the list of all entries in both directions, the chain, and key and value.
\<close>

section \<open>The links\<close>

definition lnx :: "(nat \<Rightarrow> ('k, 'v) lru_entry option) \<Rightarrow> nat \<Rightarrow> nat option" where
  "lnx h a = map_option le_next (h a)"

definition lpv :: "(nat \<Rightarrow> ('k, 'v) lru_entry option) \<Rightarrow> nat \<Rightarrow> nat option" where
  "lpv h a = map_option le_prev (h a)"

definition lhn :: "(nat \<Rightarrow> ('k, 'v) lru_entry option) \<Rightarrow> nat \<Rightarrow> nat option" where
  "lhn h a = map_option le_hash_next (h a)"

definition lkv :: "(nat \<Rightarrow> ('k, 'v) lru_entry option) \<Rightarrow> nat \<Rightarrow> ('k \<times> 'v) option" where
  "lkv h a = map_option (\<lambda>e. (le_key e, le_value e)) (h a)"

lemma lru_map_update [simp]:
  "lnx (h(a \<mapsto> e)) = (lnx h)(a \<mapsto> le_next e)" "lpv (h(a \<mapsto> e)) = (lpv h)(a \<mapsto> le_prev e)"
  "lhn (h(a \<mapsto> e)) = (lhn h)(a \<mapsto> le_hash_next e)" "lkv (h(a \<mapsto> e)) = (lkv h)(a \<mapsto> (le_key e, le_value e))"
  by (auto simp: lnx_def lpv_def lhn_def lkv_def)

lemma lru_map_same [simp]:
  "h a = Some e \<Longrightarrow> (lnx h)(a \<mapsto> le_next e) = lnx h" "h a = Some e \<Longrightarrow> (lpv h)(a \<mapsto> le_prev e) = lpv h"
  "h a = Some e \<Longrightarrow> (lhn h)(a \<mapsto> le_hash_next e) = lhn h" "h a = Some e \<Longrightarrow> (lkv h)(a \<mapsto> (le_key e, le_value e)) = lkv h"
  by (auto simp: lnx_def lpv_def lhn_def lkv_def)

lemma lru_map_eval [simp]:
  "h a = Some e \<Longrightarrow> lnx h a = Some (le_next e)" "h a = Some e \<Longrightarrow> lpv h a = Some (le_prev e)"
  "h a = Some e \<Longrightarrow> lhn h a = Some (le_hash_next e)" "h a = Some e \<Longrightarrow> lkv h a = Some (le_key e, le_value e)"
  by (simp_all add: lnx_def lpv_def lhn_def lkv_def)

lemma lru_live: "lnx h a \<noteq> None \<longleftrightarrow> h a \<noteq> None" "lpv h a \<noteq> None \<longleftrightarrow> h a \<noteq> None" "lhn h a \<noteq> None \<longleftrightarrow> h a \<noteq> None"
  "lkv h a \<noteq> None \<longleftrightarrow> h a \<noteq> None"
  by (simp_all add: lnx_def lpv_def lhn_def lkv_def)

lemma lru_map_Some:
  "lnx h a = Some b \<longleftrightarrow> (\<exists>e. h a = Some e \<and> le_next e = b)" "lpv h a = Some b \<longleftrightarrow> (\<exists>e. h a = Some e \<and> le_prev e = b)"
  "lhn h a = Some b \<longleftrightarrow> (\<exists>e. h a = Some e \<and> le_hash_next e = b)"
  by (auto simp: lnx_def lpv_def lhn_def)

lemma lkv_eq_live: "lkv h' = lkv h \<Longrightarrow> h' a \<noteq> None \<longleftrightarrow> h a \<noteq> None"
  using lru_live(4) by metis

abbreviation lru_key :: "(nat \<Rightarrow> ('k, 'v) lru_entry option) \<Rightarrow> nat \<Rightarrow> 'k" where
  "lru_key h a \<equiv> fst (the (lkv h a))"

abbreviation lru_items :: "(nat \<Rightarrow> ('k, 'v) lru_entry option) \<Rightarrow> nat list \<Rightarrow> ('k \<times> 'v) list" where
  "lru_items h as \<equiv> map (\<lambda>a. the (lkv h a)) as"

abbreviation lru_list :: "('k, 'v) lru_cache \<Rightarrow> nat list \<Rightarrow> bool" where
  "lru_list s as \<equiv> dpath (lnx (lr_entries s)) (lpv (lr_entries s)) (lr_head s) (lr_tail s) as"

section \<open>The list of all entries\<close>

lemma lru_unlink_ok:
  assumes d: "lru_list s (bs @ a # cs)" and dist: "distinct (bs @ a # cs)"
  shows "\<exists>h p q. lru_unlink s a = Some (s\<lparr>lr_entries := h, lr_head := p, lr_tail := q\<rparr>) \<and>
    dpath (lnx h) (lpv h) p q (bs @ cs) \<and> lhn h = lhn (lr_entries s) \<and> lkv h = lkv (lr_entries s)"
proof -
  let ?h = "lr_entries s" and ?n = "hd (cs @ [0])" and ?m = "last (0 # bs)"
  from dpath_nodes [OF d, of a] obtain e where e: "a \<noteq> 0" "?h a = Some e" by (auto simp: lru_map_Some)
  from dpath_neighbours [OF d] e(2) have nb: "le_next e = ?n" "le_prev e = ?m" by simp_all
  have live: "x \<noteq> 0 \<and> ?h x \<noteq> None" if "x \<in> set (bs @ cs)" for x using dpath_nodes [OF d, of x] that by (auto simp: lru_map_Some)
  have m: "\<exists>em. ?h ?m = Some em \<and> ?m \<noteq> a" if "?m \<noteq> 0" using that live [of ?m] dist by (cases bs rule: rev_cases) auto
  have n: "\<exists>en. ?h ?n = Some en \<and> ?n \<noteq> a" if "?n \<noteq> 0" using that live [of ?n] dist by (cases cs) auto
  have mn: "?m \<noteq> ?n" if "?m \<noteq> 0" using that live dist by (cases bs rule: rev_cases; cases cs) auto
  define h1 where "h1 = (if ?m = 0 then ?h else ?h(?m \<mapsto> (the (?h ?m))\<lparr>le_next := ?n\<rparr>))"
  define h2 where "h2 = (if ?n = 0 then h1 else h1(?n \<mapsto> (the (?h ?n))\<lparr>le_prev := ?m\<rparr>))"
  define h3 where "h3 = h2(a \<mapsto> e\<lparr>le_prev := 0, le_next := 0\<rparr>)"
  let ?p = "if ?m = 0 then ?n else lr_head s" and ?q = "if ?n = 0 then ?m else lr_tail s"
  have "lru_unlink s a = Some (s\<lparr>lr_entries := h3, lr_head := ?p, lr_tail := ?q\<rparr>)"
    using e nb m n mn
    by (cases "?m = 0"; cases "?n = 0") (auto simp: lru_unlink_def lru_update_def h1_def h2_def h3_def)
  moreover have "dpath (lnx h3) (lpv h3) ?p ?q (bs @ cs)"
  proof (rule dpath_frame [OF dpath_unlink [OF d dist refl refl]])
    fix x
    assume "x \<in> set (bs @ cs)"
    then have "x \<noteq> a" using dist by auto
    then show "lnx h3 x = (if ?m = 0 then lnx ?h else (lnx ?h)(?m \<mapsto> ?n)) x \<and> lpv h3 x = (if ?n = 0 then lpv ?h else (lpv ?h)(?n \<mapsto> ?m)) x"
      using m n mn by (cases "?m = 0"; cases "?n = 0") (auto simp: h1_def h2_def h3_def)
  qed
  moreover have "lhn h3 = lhn ?h" "lkv h3 = lkv ?h"
    using e m n mn by (cases "?m = 0"; cases "?n = 0"; auto simp: h1_def h2_def h3_def)+
  ultimately show ?thesis by blast
qed

lemma lru_push_front_ok:
  assumes d: "lru_list s as" and a: "a \<notin> set as" "a \<noteq> 0" "lr_entries s a \<noteq> None" and dist: "distinct as"
  shows "\<exists>h p q. lru_push_front s a = Some (s\<lparr>lr_entries := h, lr_head := p, lr_tail := q\<rparr>) \<and>
    dpath (lnx h) (lpv h) p q (a # as) \<and> lhn h = lhn (lr_entries s) \<and> lkv h = lkv (lr_entries s)"
proof -
  let ?h = "lr_entries s" and ?p = "lr_head s"
  from a obtain e where e: "?h a = Some e" by blast
  have p: "\<exists>ep. ?h ?p = Some ep \<and> ?p \<noteq> a" if "?p \<noteq> 0"
    using that dpath_ends(1,3) [OF d] dpath_nodes [OF d, of ?p] a(1) by (cases as) (auto simp: lru_map_Some)
  define h1 where "h1 = ?h(a \<mapsto> e\<lparr>le_prev := 0, le_next := ?p\<rparr>)"
  define h2 where "h2 = (if ?p = 0 then h1 else h1(?p \<mapsto> (the (?h ?p))\<lparr>le_prev := a\<rparr>))"
  let ?q = "if ?p = 0 then a else lr_tail s"
  have "lru_push_front s a = Some (s\<lparr>lr_entries := h2, lr_head := a, lr_tail := ?q\<rparr>)"
    using e p by (cases "?p = 0") (auto simp: lru_push_front_def lru_update_def h1_def h2_def)
  moreover have "dpath (lnx h2) (lpv h2) a ?q (a # as)"
  proof (rule dpath_frame [OF dpath_push_front [OF d a(1,2) dist]])
    fix x
    show "lnx h2 x = ((lnx ?h)(a \<mapsto> ?p)) x \<and> lpv h2 x = ((if ?p = 0 then lpv ?h else (lpv ?h)(?p \<mapsto> a))(a \<mapsto> 0)) x"
      using p e by (cases "?p = 0") (auto simp: h1_def h2_def)
  qed
  moreover have "lhn h2 = lhn ?h" "lkv h2 = lkv ?h"
    using e p by (cases "?p = 0"; auto simp: h1_def h2_def fun_upd_twist)+
  ultimately show ?thesis by blast
qed

lemma lru_promote_ok:
  assumes d: "lru_list s (bs @ a # cs)" and dist: "distinct (bs @ a # cs)"
  shows "\<exists>h p q. lru_promote s a = Some (s\<lparr>lr_entries := h, lr_head := p, lr_tail := q\<rparr>) \<and>
    dpath (lnx h) (lpv h) p q (a # bs @ cs) \<and> lhn h = lhn (lr_entries s) \<and> lkv h = lkv (lr_entries s)"
proof (cases "lr_head s = a")
  case True
  with dpath_ends(1) [OF d] dist have "bs = []" by (cases bs) auto
  with True d show ?thesis
    by (intro exI [of _ "lr_entries s"] exI [of _ "lr_head s"] exI [of _ "lr_tail s"]) (simp add: lru_promote_def)
next
  case False
  from lru_unlink_ok [OF d dist] obtain h p q where u: "lru_unlink s a = Some (s\<lparr>lr_entries := h, lr_head := p, lr_tail := q\<rparr>)"
    "dpath (lnx h) (lpv h) p q (bs @ cs)" "lhn h = lhn (lr_entries s)" "lkv h = lkv (lr_entries s)" by blast
  have a: "a \<noteq> 0" "lr_entries s a \<noteq> None" using dpath_nodes [OF d, of a] by (auto simp: lru_map_Some)
  let ?s = "s\<lparr>lr_entries := h, lr_head := p, lr_tail := q\<rparr>"
  from lru_push_front_ok [of ?s "bs @ cs" a] u(2-4) a dist lkv_eq_live [OF u(4), of a] obtain h' p' q' where
    "lru_push_front ?s a = Some (?s\<lparr>lr_entries := h', lr_head := p', lr_tail := q'\<rparr>)"
    "dpath (lnx h') (lpv h') p' q' (a # bs @ cs)" "lhn h' = lhn h" "lkv h' = lkv h" by auto
  with False u(1,3,4) show ?thesis by (intro exI [of _ h'] exI [of _ p'] exI [of _ q']) (simp add: lru_promote_def)
qed

section \<open>The free entries\<close>

lemma lru_acquire_ok:
  assumes "path (lhn (lr_entries s)) (lr_free s) (a # fs) 0" "a \<notin> set fs"
  shows "\<exists>h p. lru_acquire_entry s = Some (a, s\<lparr>lr_entries := h, lr_free := p\<rparr>) \<and> path (lhn h) p fs 0 \<and>
    lhn h = (lhn (lr_entries s))(a \<mapsto> 0) \<and> lnx h = lnx (lr_entries s) \<and> lpv h = lpv (lr_entries s) \<and> lkv h = lkv (lr_entries s)"
proof -
  from assms obtain e where e: "lr_free s = a" "a \<noteq> 0" "lr_entries s a = Some e" "path (lhn (lr_entries s)) (le_hash_next e) fs 0"
    by (auto simp: lru_map_Some)
  with assms(2) show ?thesis
    by (intro exI [of _ "(lr_entries s)(a \<mapsto> e\<lparr>le_hash_next := 0\<rparr>)"] exI [of _ "le_hash_next e"])
       (simp add: lru_acquire_entry_def lru_update_def)
qed

lemma lru_release_ok:
  assumes "path (lhn (lr_entries s)) (lr_free s) fs 0" "a \<notin> set fs" "a \<noteq> 0" "lr_entries s a \<noteq> None"
  shows "\<exists>h. lru_release_entry s a = Some (s\<lparr>lr_entries := h, lr_free := a\<rparr>) \<and> path (lhn h) a (a # fs) 0 \<and>
    lhn h = (lhn (lr_entries s))(a \<mapsto> lr_free s) \<and> lnx h = (lnx (lr_entries s))(a \<mapsto> 0) \<and> lpv h = (lpv (lr_entries s))(a \<mapsto> 0) \<and>
    lkv h = lkv (lr_entries s)"
proof -
  from assms(4) obtain e where e: "lr_entries s a = Some e" by blast
  with assms show ?thesis
    by (intro exI [of _ "(lr_entries s)(a \<mapsto> e\<lparr>le_prev := 0, le_next := 0, le_hash_next := lr_free s\<rparr>)"])
       (simp add: lru_release_entry_def lru_update_def)
qed

section \<open>The chains\<close>

lemma lru_find_hit:
  assumes "path (lhn (lr_entries s)) p (xs @ a # ys) 0"
    "\<forall>b \<in> set xs. \<not> key_equal (lr_hash s) (lru_key (lr_entries s) b) k" "key_equal (lr_hash s) (lru_key (lr_entries s) a) k"
  shows "lru_find_loop s k prev p = Some (a, last (prev # xs))"
  using assms
proof (induction xs arbitrary: p prev)
  case Nil
  then show ?case by (subst lru_find_loop.simps) (auto simp: lru_map_Some)
next
  case (Cons b xs)
  then show ?case by (subst lru_find_loop.simps) (auto simp: lru_map_Some)
qed

lemma lru_find_miss:
  assumes "path (lhn (lr_entries s)) p as 0" "\<forall>b \<in> set as. \<not> key_equal (lr_hash s) (lru_key (lr_entries s) b) k"
  shows "lru_find_loop s k prev p = Some (0, last (prev # as))"
  using assms
proof (induction as arbitrary: p prev)
  case Nil
  then show ?case by (subst lru_find_loop.simps) simp
next
  case (Cons b as)
  then show ?case by (subst lru_find_loop.simps) (auto simp: lru_map_Some)
qed

text \<open>The chains \<open>css\<close> of the buckets \<open>bs\<close>: every key is in the bucket it hashes to.\<close>

definition lru_chains :: "'k hash_policy \<Rightarrow> (nat \<Rightarrow> ('k, 'v) lru_entry option) \<Rightarrow> nat list \<Rightarrow> (nat \<Rightarrow> nat list) \<Rightarrow> bool" where
  "lru_chains hp h bs css \<longleftrightarrow> (\<forall>i < length bs. path (lhn h) (bs ! i) (css i) 0 \<and> distinct (css i) \<and>
     (\<forall>a \<in> set (css i). hash_key hp (lru_key h a) mod length bs = i))"

definition lru_linked :: "nat list \<Rightarrow> (nat \<Rightarrow> nat list) \<Rightarrow> nat set" where
  "lru_linked bs css = (\<Union>i < length bs. set (css i))"

lemma lru_chainsD:
  assumes "lru_chains hp h bs css" "i < length bs"
  shows "path (lhn h) (bs ! i) (css i) 0" "distinct (css i)" "a \<in> set (css i) \<Longrightarrow> hash_key hp (lru_key h a) mod length bs = i"
  using assms by (simp_all add: lru_chains_def)

lemma lru_chains_frame:
  assumes "lru_chains hp h bs css" "\<And>a. a \<in> lru_linked bs css \<Longrightarrow> lhn h' a = lhn h a \<and> lru_key h' a = lru_key h a"
  shows "lru_chains hp h' bs css"
  unfolding lru_chains_def
proof (intro allI impI conjI)
  fix i assume i: "i < length bs"
  have m: "a \<in> lru_linked bs css" if "a \<in> set (css i)" for a using that i by (auto simp: lru_linked_def)
  show "path (lhn h') (bs ! i) (css i) 0" by (rule path_frame [OF lru_chainsD(1) [OF assms(1) i]]) (use assms(2) m in blast)
  show "distinct (css i)" by (rule lru_chainsD(2) [OF assms(1) i])
  show "\<forall>a \<in> set (css i). hash_key hp (lru_key h' a) mod length bs = i" using lru_chainsD(3) [OF assms(1) i] assms(2) m by auto
qed

lemma lru_chains_update:
  assumes c: "lru_chains hp h bs css" and i: "i < length bs"
    and frame: "\<And>j a. j < length bs \<Longrightarrow> j \<noteq> i \<Longrightarrow> a \<in> set (css j) \<Longrightarrow> lhn h' a = lhn h a \<and> lru_key h' a = lru_key h a"
    and new: "path (lhn h') p as 0" "distinct as" "\<And>a. a \<in> set as \<Longrightarrow> hash_key hp (lru_key h' a) mod length bs = i"
  shows "lru_chains hp h' (bs[i := p]) (css(i := as))"
proof -
  have "path (lhn h') (bs ! j) (css j) 0 \<and> distinct (css j) \<and> (\<forall>a \<in> set (css j). hash_key hp (lru_key h' a) mod length bs = j)"
    if j: "j < length bs" "j \<noteq> i" for j
  proof (intro conjI)
    show "path (lhn h') (bs ! j) (css j) 0" by (rule path_frame [OF lru_chainsD(1) [OF c j(1)]]) (use frame [OF j] in blast)
  qed (use lru_chainsD [OF c j(1)] frame [OF j] in simp_all)
  with new i show ?thesis by (auto simp: lru_chains_def nth_list_update)
qed

lemma lru_linked_update:
  assumes "lru_chains hp h bs css" "i < length bs"
  shows "lru_linked (bs[i := p]) (css(i := as)) = (lru_linked bs css - set (css i)) \<union> set as"
proof -
  have "x \<notin> set (css i)" if "j < length bs" "j \<noteq> i" "x \<in> set (css j)" for j x
    using lru_chainsD(3) [OF assms(1) that(1,3)] lru_chainsD(3) [OF assms, of x] that(2) by blast
  then show ?thesis using assms(2) by (fastforce simp: lru_linked_def split: if_splits)
qed

lemma lru_hash_unlink_ok:
  assumes c: "lru_chains hp (lr_entries s) bs css" and b: "lr_buckets s = Some bs" and i: "i < length bs" and ci: "css i = xs @ a # ys"
  shows "\<exists>h m. lru_hash_unlink s i a (last (0 # xs)) = Some (s\<lparr>lr_entries := h, lr_buckets := Some m\<rparr>) \<and>
    lru_chains hp h m (css(i := xs @ ys)) \<and> length m = length bs \<and> lru_linked m (css(i := xs @ ys)) = lru_linked bs css - {a} \<and>
    (\<forall>x. x \<notin> set (css i) \<longrightarrow> lhn h x = lhn (lr_entries s) x) \<and>
    lnx h = lnx (lr_entries s) \<and> lpv h = lpv (lr_entries s) \<and> lkv h = lkv (lr_entries s)"
proof -
  let ?h = "lr_entries s"
  note ch = lru_chainsD [OF c i, unfolded ci]
  have "a \<in> set (css i)" using ci by simp
  then have a: "a \<in> lru_linked bs css" "a \<notin> set (xs @ ys)" using i ch(2) by (auto simp: lru_linked_def)
  from ch(1) obtain e where e: "?h a = Some e" "a \<noteq> 0" "path (lhn ?h) (bs ! i) xs a" "path (lhn ?h) (le_hash_next e) ys 0"
    by (auto simp: lru_map_Some)
  have frame: "x \<noteq> a \<and> x \<notin> set xs" if "j < length bs" "j \<noteq> i" "x \<in> set (css j)" for j x
    using lru_chainsD(3) [OF c that(1,3)] lru_chainsD(3) [OF c i, of x] that(2) ci by auto
  have linked: "lru_linked (bs[i := p]) (css(i := xs @ ys)) = lru_linked bs css - {a}" for p
    unfolding lru_linked_update [OF c i] using a ci i by (auto simp: lru_linked_def)
  have hash: "hash_key hp (lru_key h x) mod length bs = i" if "lkv h = lkv ?h" "x \<in> set (xs @ ys)" for h x
    using ch(3) [of x] that by auto
  show ?thesis
  proof (cases xs rule: rev_cases)
    case Nil
    let ?h1 = "?h(a \<mapsto> e\<lparr>le_hash_next := 0\<rparr>)" and ?m = "bs[i := le_hash_next e]"
    have kv: "lkv ?h1 = lkv ?h" using e(1) by simp
    have "lru_chains hp ?h1 ?m (css(i := xs @ ys))"
    proof (rule lru_chains_update [OF c i])
      show "path (lhn ?h1) (le_hash_next e) (xs @ ys) 0" using e(4) a(2) Nil by simp
      show "distinct (xs @ ys)" using ch(2) by simp
      show "hash_key hp (lru_key ?h1 x) mod length bs = i" if "x \<in> set (xs @ ys)" for x by (rule hash [OF kv that])
      show "lhn ?h1 x = lhn ?h x \<and> lru_key ?h1 x = lru_key ?h x" if "j < length bs" "j \<noteq> i" "x \<in> set (css j)" for j x
        using frame [OF that] by simp
    qed
    moreover have "lru_hash_unlink s i a (last (0 # xs)) = Some (s\<lparr>lr_entries := ?h1, lr_buckets := Some ?m\<rparr>)"
      using e Nil b i by (simp add: lru_hash_unlink_def lru_update_def)
    ultimately show ?thesis using linked [of "le_hash_next e"] e(1) ci by (intro exI [of _ ?h1] exI [of _ ?m]) simp
  next
    case (snoc zs b)
    from ch(1) snoc obtain eb where eb: "?h b = Some eb" "b \<noteq> 0" by (auto simp: lru_map_Some)
    have ba: "b \<noteq> a" using ch(2) snoc by auto
    let ?h1 = "?h(b \<mapsto> eb\<lparr>le_hash_next := le_hash_next e\<rparr>, a \<mapsto> e\<lparr>le_hash_next := 0\<rparr>)"
    have kv: "lkv ?h1 = lkv ?h" using e(1) eb(1) ba by (simp add: fun_upd_twist)
    have "lru_chains hp ?h1 (bs[i := bs ! i]) (css(i := xs @ ys))"
    proof (rule lru_chains_update [OF c i])
      show "path (lhn ?h1) (bs ! i) (xs @ ys) 0" using e(3,4) a(2) snoc ch(2) eb ba by (auto simp: fun_upd_twist)
      show "distinct (xs @ ys)" using ch(2) by simp
      show "hash_key hp (lru_key ?h1 x) mod length bs = i" if "x \<in> set (xs @ ys)" for x by (rule hash [OF kv that])
      show "lhn ?h1 x = lhn ?h x \<and> lru_key ?h1 x = lru_key ?h x" if "j < length bs" "j \<noteq> i" "x \<in> set (css j)" for j x
        using frame [OF that] snoc kv by simp
    qed
    moreover have "lru_hash_unlink s i a (last (0 # xs)) = Some (s\<lparr>lr_entries := ?h1, lr_buckets := Some (bs[i := bs ! i])\<rparr>)"
      using e eb ba snoc b by (simp add: lru_hash_unlink_def lru_update_def)
    ultimately show ?thesis using linked [of "bs ! i"] e(1) eb(1) ba kv ci snoc
      by (intro exI [of _ ?h1] exI [of _ "bs[i := bs ! i]"]) (simp add: fun_upd_twist)
  qed
qed

section \<open>The state\<close>

text \<open>
  The entries \<open>as\<close> are linked, from the most to the least recently used one, and are those of the chains;
  the entries \<open>fs\<close> are free, the entries \<open>xs\<close> are neither.
\<close>

definition lru_rel ::
  "('k \<Rightarrow> bool) \<Rightarrow> 'k hash_policy \<Rightarrow> ('k, 'v) lru_cache \<Rightarrow> nat list \<Rightarrow> nat list \<Rightarrow> (nat \<Rightarrow> nat list) \<Rightarrow> nat list \<Rightarrow> nat list \<Rightarrow> bool" where
  "lru_rel carrier hp s as bs css fs xs \<longleftrightarrow>
     lr_hash s = hp \<and> faithful (lr_key_policy s) \<and> faithful (lr_value_policy s) \<and>
     lr_buckets s = Some bs \<and> bs \<noteq> [] \<and> lr_bucket_count s = length bs \<and>
     lru_chains hp (lr_entries s) bs css \<and> lru_linked bs css = set as \<and> lru_list s as \<and>
     path (lhn (lr_entries s)) (lr_free s) fs 0 \<and> distinct (as @ fs @ xs) \<and> (\<forall>x \<in> set xs. x \<noteq> 0 \<and> lr_entries s x \<noteq> None) \<and>
     lr_size s = length as \<and> lr_capacity s = length as + length fs + length xs \<and> lr_capacity s \<le> SIZE_MAX \<and>
     (\<forall>a \<in> set as. carrier (lru_key (lr_entries s) a)) \<and>
     (\<forall>a \<in> set as. \<forall>b \<in> set as. key_equal hp (lru_key (lr_entries s) a) (lru_key (lr_entries s) b) \<longrightarrow> a = b)"

text \<open>Only the list changes, and the entries keep their keys and values.\<close>

lemma lru_rel_relist:
  assumes r: "lru_rel carrier hp s as bs css fs xs"
    and d: "dpath (lnx h) (lpv h) p q as'" and keep: "lhn h = lhn (lr_entries s)" "lkv h = lkv (lr_entries s)"
    and perm: "set as' = set as" "distinct as'"
  shows "lru_rel carrier hp (s\<lparr>lr_entries := h, lr_head := p, lr_tail := q\<rparr>) as' bs css fs xs"
proof -
  have "length as' = length as" using r perm by (metis lru_rel_def distinct_append distinct_card)
  moreover have "lru_chains hp h bs css" using r keep by (auto simp: lru_rel_def elim: lru_chains_frame)
  ultimately show ?thesis
    using r d keep perm lkv_eq_live [OF keep(2)] by (auto simp: lru_rel_def)
qed

lemma lru_rel_split_chain:
  assumes r: "lru_rel carrier hp s as bs css fs xs" and a: "a \<in> set as"
  obtains i us vs where "i < length bs" "css i = us @ a # vs" "i = hash_key hp (lru_key (lr_entries s) a) mod length bs"
proof -
  from r a have "a \<in> lru_linked bs css" by (simp add: lru_rel_def)
  then obtain i where i: "i < length bs" "a \<in> set (css i)" by (auto simp: lru_linked_def)
  from r have c: "lru_chains hp (lr_entries s) bs css" by (simp add: lru_rel_def)
  from i(2) obtain us vs where "css i = us @ a # vs" by (auto dest: split_list)
  with i lru_chainsD(3) [OF c i] that show thesis by blast
qed

section \<open>The steps of the operations\<close>

context hashing
begin

lemma lru_find_cases [consumes 2, case_names hit miss]:
  assumes r: "lru_rel carrier hp s as bs css fs xs" and k: "carrier k"
  obtains (hit) us a vs i cs ds where "as = us @ a # vs" "a \<noteq> 0" "i < length bs" "css i = cs @ a # ds" "i = hash_key hp k mod length bs"
      "lru_find_entry s k = Some (a, i, last (0 # cs))" "key_equal hp (lru_key (lr_entries s) a) k" "carrier (lru_key (lr_entries s) a)"
      "\<forall>b \<in> set (us @ vs). \<not> key_equal hp (lru_key (lr_entries s) b) k"
  | (miss) i p where "lru_find_entry s k = Some (0, i, p)" "i = hash_key hp k mod length bs" "i < length bs"
      "\<forall>b \<in> set as. \<not> key_equal hp (lru_key (lr_entries s) b) k"
proof -
  let ?key = "lru_key (lr_entries s)" and ?i = "hash_key hp k mod length bs"
  from r have c: "lru_chains hp (lr_entries s) bs css" and hp: "lr_hash s = hp" and i: "?i < length bs"
    and as: "lru_linked bs css = set as" and uniq: "\<And>a b. a \<in> set as \<Longrightarrow> b \<in> set as \<Longrightarrow> key_equal hp (?key a) (?key b) \<Longrightarrow> a = b"
    and car: "\<And>a. a \<in> set as \<Longrightarrow> carrier (?key a)" and dist: "distinct as" and l: "lru_list s as"
    by (simp_all add: lru_rel_def)
  have find: "lru_find_entry s k = map_option (\<lambda>(f, p). (f, ?i, p)) (lru_find_loop s k 0 (bs ! ?i))"
    using r by (auto simp: lru_find_entry_def lru_rel_def sz_mod_def split: option.splits bind_splits)
  show ?thesis
  proof (cases "\<exists>b \<in> set (css ?i). key_equal hp (?key b) k")
    case True
    from split_list_first_prop [OF True] obtain cs a ds where
      a: "css ?i = cs @ a # ds" "key_equal hp (?key a) k" "\<forall>b \<in> set cs. \<not> key_equal hp (?key b) k" by blast
    have "a \<in> lru_linked bs css" using i a(1) by (force simp: lru_linked_def)
    then have m: "a \<in> set as" using as by simp
    then obtain us vs where us: "as = us @ a # vs" by (auto dest: split_list)
    have oth: "\<not> key_equal hp (?key b) k" if b: "b \<in> set (us @ vs)" for b
    proof
      assume "key_equal hp (?key b) k"
      moreover have bm: "b \<in> set as" "b \<noteq> a" using b us dist by auto
      ultimately have "key_equal hp (?key b) (?key a)"
        using eq_trans [OF car [OF bm(1)] k car [OF m]] eq_sym [OF car [OF m] k a(2)] by blast
      with uniq [OF bm(1) m] bm(2) show False by blast
    qed
    have "a \<noteq> 0" using dpath_nodes [OF l m] by simp
    moreover have "lru_find_entry s k = Some (a, ?i, last (0 # cs))"
      using lru_find_hit [of s "bs ! ?i" cs a ds k 0] lru_chainsD(1) [OF c i] a hp by (simp add: find)
    ultimately show ?thesis using us i a m car [OF m] oth by (intro hit) auto
  next
    case False
    have "\<not> key_equal hp (?key b) k" if b: "b \<in> set as" for b
    proof
      assume eq: "key_equal hp (?key b) k"
      from b as obtain j where j: "j < length bs" "b \<in> set (css j)" by (auto simp: lru_linked_def)
      have "j = ?i" using lru_chainsD(3) [OF c j] hash_eq [OF car [OF b] k eq] by simp
      with False j(2) eq show False by blast
    qed
    moreover have "lru_find_entry s k = Some (0, ?i, last (0 # css ?i))"
      using lru_find_miss [of s "bs ! ?i" "css ?i" k 0] lru_chainsD(1) [OF c i] False hp by (simp add: find)
    ultimately show ?thesis using i by (intro miss) simp_all
  qed
qed

end

lemma lru_rel_acquire:
  assumes r: "lru_rel carrier hp s as bs css (a # fs) []"
  shows "\<exists>s'. lru_acquire_entry s = Some (a, s') \<and> lru_rel carrier hp s' as bs css fs [a] \<and> lkv (lr_entries s') = lkv (lr_entries s) \<and> a \<noteq> 0"
proof -
  from r have f: "path (lhn (lr_entries s)) (lr_free s) (a # fs) 0" "a \<notin> set fs" "a \<notin> set as" "a \<noteq> 0" by (auto simp: lru_rel_def)
  from lru_acquire_ok [OF f(1,2)] obtain h p where h: "lru_acquire_entry s = Some (a, s\<lparr>lr_entries := h, lr_free := p\<rparr>)" "path (lhn h) p fs 0"
    "lhn h = (lhn (lr_entries s))(a \<mapsto> 0)" "lnx h = lnx (lr_entries s)" "lpv h = lpv (lr_entries s)" "lkv h = lkv (lr_entries s)" by blast
  have "h a \<noteq> None" using h(3) lru_live(3) [of h a] by simp
  moreover have "lru_chains hp h bs css" using r f(3) h(3,6) by (auto simp: lru_rel_def elim!: lru_chains_frame)
  ultimately have "lru_rel carrier hp (s\<lparr>lr_entries := h, lr_free := p\<rparr>) as bs css fs [a]"
    using r h f by (simp add: lru_rel_def)
  with h f show ?thesis by (intro exI [of _ "s\<lparr>lr_entries := h, lr_free := p\<rparr>"]) simp
qed

lemma lru_rel_release:
  assumes r: "lru_rel carrier hp s as bs css fs [a]"
  shows "\<exists>s'. lru_release_entry s a = Some s' \<and> lru_rel carrier hp s' as bs css (a # fs) [] \<and> lkv (lr_entries s') = lkv (lr_entries s) \<and>
    lr_size s' = lr_size s"
proof -
  from r have f: "path (lhn (lr_entries s)) (lr_free s) fs 0" "a \<notin> set fs" "a \<noteq> 0" "lr_entries s a \<noteq> None" "a \<notin> set as"
    by (auto simp: lru_rel_def)
  from lru_release_ok [OF f(1-4)] obtain h where h: "lru_release_entry s a = Some (s\<lparr>lr_entries := h, lr_free := a\<rparr>)"
    "path (lhn h) a (a # fs) 0" "lhn h = (lhn (lr_entries s))(a \<mapsto> lr_free s)" "lnx h = (lnx (lr_entries s))(a \<mapsto> 0)"
    "lpv h = (lpv (lr_entries s))(a \<mapsto> 0)" "lkv h = lkv (lr_entries s)" by blast
  have "lru_chains hp h bs css" using r f(5) h(3,6) by (auto simp: lru_rel_def elim!: lru_chains_frame)
  moreover have "dpath (lnx h) (lpv h) (lr_head s) (lr_tail s) as" using r f(5) h(4,5) by (auto simp: lru_rel_def elim!: dpath_frame)
  ultimately have "lru_rel carrier hp (s\<lparr>lr_entries := h, lr_free := a\<rparr>) as bs css (a # fs) []"
    using r h f by (auto simp: lru_rel_def)
  with h f show ?thesis by (intro exI [of _ "s\<lparr>lr_entries := h, lr_free := a\<rparr>"]) simp
qed

text \<open>Unlinking an entry from the list and from its chain.\<close>

lemma lru_rel_detach:
  assumes r: "lru_rel carrier hp s (us @ a # vs) bs css fs []" and i: "i < length bs" "css i = cs @ a # ds"
  shows "\<exists>s1 s2 s3 bs' css'. lru_destroy_entry s a = Some s1 \<and> lru_unlink s1 a = Some s2 \<and> lru_hash_unlink s2 i a (last (0 # cs)) = Some s3 \<and>
    lru_rel carrier hp (s3\<lparr>lr_size := sz_sub (lr_size s3) 1\<rparr>) (us @ vs) bs' css' fs [a] \<and> lkv (lr_entries s3) = lkv (lr_entries s) \<and>
    length bs' = length bs \<and> lr_size s3 = lr_size s"
proof -
  from r have l: "lru_list s (us @ a # vs)" and dist: "distinct (us @ a # vs)" "a \<notin> set fs" and c: "lru_chains hp (lr_entries s) bs css"
    by (auto simp: lru_rel_def)
  have a: "a \<noteq> 0" "lr_entries s a \<noteq> None" using dpath_nodes [OF l, of a] by (auto simp: lru_map_Some)
  obtain tr where d: "lru_destroy_entry s a = Some (s\<lparr>lr_destroyed := tr\<rparr>)" using a(2) by (auto simp: lru_destroy_entry_def)
  let ?s1 = "s\<lparr>lr_destroyed := tr\<rparr>"
  from lru_unlink_ok [of ?s1 us a vs] l dist obtain h p q where u: "lru_unlink ?s1 a = Some (?s1\<lparr>lr_entries := h, lr_head := p, lr_tail := q\<rparr>)"
    "dpath (lnx h) (lpv h) p q (us @ vs)" "lhn h = lhn (lr_entries s)" "lkv h = lkv (lr_entries s)" by auto
  let ?s2 = "?s1\<lparr>lr_entries := h, lr_head := p, lr_tail := q\<rparr>"
  have "lru_chains hp (lr_entries ?s2) bs css" using u(3,4) by (simp, intro lru_chains_frame [OF c]) simp
  from lru_hash_unlink_ok [OF this _ i] r obtain h' m where v: "lru_hash_unlink ?s2 i a (last (0 # cs)) = Some (?s2\<lparr>lr_entries := h', lr_buckets := Some m\<rparr>)"
    "lru_chains hp h' m (css(i := cs @ ds))" "length m = length bs" "lru_linked m (css(i := cs @ ds)) = lru_linked bs css - {a}"
    "\<forall>x. x \<notin> set (css i) \<longrightarrow> lhn h' x = lhn h x" "lnx h' = lnx h" "lpv h' = lpv h" "lkv h' = lkv h"
    by (auto simp: lru_rel_def)
  let ?s3 = "?s2\<lparr>lr_entries := h', lr_buckets := Some m\<rparr>"
  have kv: "lkv h' = lkv (lr_entries s)" using u(4) v(8) by simp
  have "path (lhn h') (lr_free s) fs 0"
  proof (rule path_frame)
    show "path (lhn (lr_entries s)) (lr_free s) fs 0" using r by (simp add: lru_rel_def)
    have "set (css i) \<subseteq> set (us @ a # vs)" using r i(1) by (auto simp: lru_rel_def lru_linked_def)
    then have "x \<notin> set (css i)" if "x \<in> set fs" for x using r that by (auto simp: lru_rel_def)
    then show "\<forall>x \<in> set fs. lhn h' x = lhn (lr_entries s) x" using v(5) u(3) by simp
  qed
  moreover have "set (us @ a # vs) - {a} = set (us @ vs)" using dist by auto
  ultimately have "lru_rel carrier hp (?s3\<lparr>lr_size := sz_sub (lr_size ?s3) 1\<rparr>) (us @ vs) m (css(i := cs @ ds)) fs [a]"
    using r u v a kv lkv_eq_live [OF kv, of a] by (auto simp: lru_rel_def size_simps)
  with d u v kv show ?thesis
    by (intro exI [of _ ?s1] exI [of _ ?s2] exI [of _ ?s3] exI [of _ m] exI [of _ "css(i := cs @ ds)"]) simp
qed

text \<open>Storing key and value in a detached entry, and linking it under the key.\<close>

lemma lru_rel_fill:
  assumes r: "lru_rel carrier hp s as bs css fs [a]"
  shows "\<exists>s'. lru_fill s a from_free k v = Some (Ok, a, hash_key hp k mod length bs, s') \<and> lru_rel carrier hp s' as bs css fs [a] \<and>
    lkv (lr_entries s') = (lkv (lr_entries s))(a \<mapsto> (k, v)) \<and> lr_capacity s' = lr_capacity s"
proof -
  from r have f: "a \<notin> set as" "a \<notin> set fs" by (auto simp: lru_rel_def)
  from r obtain e where e: "lr_entries s a = Some e" by (auto simp: lru_rel_def)
  let ?h = "(lr_entries s)(a \<mapsto> e\<lparr>le_key := k, le_value := v\<rparr>)"
  have keep: "lhn ?h = lhn (lr_entries s)" "lnx ?h = lnx (lr_entries s)" "lpv ?h = lpv (lr_entries s)" using e by simp_all
  have "lru_fill s a from_free k v = Some (Ok, a, hash_key hp k mod length bs, s\<lparr>lr_entries := ?h\<rparr>)"
    using r e by (simp add: lru_fill_def lru_update_def lru_rel_def)
  moreover have "lru_chains hp ?h bs css" using r f(1) by (auto simp: lru_rel_def elim!: lru_chains_frame)
  then have "lru_rel carrier hp (s\<lparr>lr_entries := ?h\<rparr>) as bs css fs [a]"
    using r f keep unfolding lru_rel_def by auto
  ultimately show ?thesis using e by (intro exI [of _ "s\<lparr>lr_entries := ?h\<rparr>"]) (simp add: fun_upd_twist)
qed

lemma lru_rel_insert:
  assumes r: "lru_rel carrier hp s as bs css fs [a]" and k: "lkv (lr_entries s) a = Some (k, v)" "carrier k"
    and i: "i = hash_key hp k mod length bs"
    and refl: "\<And>x. carrier x \<Longrightarrow> key_equal hp x x"
    and new: "\<forall>b \<in> set as. \<not> key_equal hp (lru_key (lr_entries s) b) k \<and> \<not> key_equal hp k (lru_key (lr_entries s) b)"
  shows "\<exists>head s2 m s3 css'. mem_rd (lr_buckets s) i = Some head \<and> lru_update s a (\<lambda>e. e\<lparr>le_hash_next := head\<rparr>) = Some s2 \<and>
    mem_wr (lr_buckets s2) i a = Some m \<and> lru_push_front (s2\<lparr>lr_buckets := m\<rparr>) a = Some s3 \<and>
    lru_rel carrier hp (s3\<lparr>lr_size := sz_add (lr_size s3) 1\<rparr>) (a # as) (bs[i := a]) css' fs [] \<and> lkv (lr_entries s3) = lkv (lr_entries s)"
proof -
  from r have f: "a \<notin> set as" "a \<notin> set fs" "a \<noteq> 0" and b: "lr_buckets s = Some bs" "bs \<noteq> []" and c: "lru_chains hp (lr_entries s) bs css"
    and lk: "lru_linked bs css = set as" by (auto simp: lru_rel_def)
  from r obtain e where e: "lr_entries s a = Some e" by (auto simp: lru_rel_def)
  have il: "i < length bs" using b(2) i by simp
  have ai: "a \<notin> set (css i)" using f(1) lk il by (auto simp: lru_linked_def)
  let ?h2 = "(lr_entries s)(a \<mapsto> e\<lparr>le_hash_next := bs ! i\<rparr>)"
  have keep: "lkv ?h2 = lkv (lr_entries s)" "lnx ?h2 = lnx (lr_entries s)" "lpv ?h2 = lpv (lr_entries s)" using e by simp_all
  have c2: "lru_chains hp ?h2 (bs[i := a]) (css(i := a # css i))"
  proof (rule lru_chains_update [OF c il])
    show "path (lhn ?h2) a (a # css i) 0" using lru_chainsD(1) [OF c il] ai f(3) by simp
    show "distinct (a # css i)" using lru_chainsD(2) [OF c il] ai by simp
    show "hash_key hp (lru_key ?h2 x) mod length bs = i" if "x \<in> set (a # css i)" for x
      using that lru_chainsD(3) [OF c il] k(1) i unfolding keep(1) by auto
    show "lhn ?h2 x = lhn (lr_entries s) x \<and> lru_key ?h2 x = lru_key (lr_entries s) x" if "j < length bs" "j \<noteq> i" "x \<in> set (css j)" for j x
    proof -
      have "x \<noteq> a" using f(1) lk that by (auto simp: lru_linked_def)
      then show ?thesis by simp
    qed
  qed
  let ?s2 = "s\<lparr>lr_entries := ?h2, lr_buckets := Some (bs[i := a])\<rparr>"
  from lru_push_front_ok [of ?s2 as a] r f keep obtain h p q where p: "lru_push_front ?s2 a = Some (?s2\<lparr>lr_entries := h, lr_head := p, lr_tail := q\<rparr>)"
    "dpath (lnx h) (lpv h) p q (a # as)" "lhn h = lhn ?h2" "lkv h = lkv ?h2" by (auto simp: lru_rel_def)
  let ?s3 = "?s2\<lparr>lr_entries := h, lr_head := p, lr_tail := q\<rparr>"
  have c3: "lru_chains hp h (bs[i := a]) (css(i := a # css i))" by (rule lru_chains_frame [OF c2]) (simp add: p(3,4))
  have lk3: "lru_linked (bs[i := a]) (css(i := a # css i)) = set (a # as)"
    unfolding lru_linked_update [OF c il] using lk il by (auto simp: lru_linked_def)
  have kv: "lkv h = lkv (lr_entries s)" unfolding p(4) by (rule keep(1))
  have hn: "path (lhn h) (lr_free s) fs 0" using r f(2) p(3) by (simp add: lru_rel_def)
  have "lru_rel carrier hp (?s3\<lparr>lr_size := sz_add (lr_size ?s3) 1\<rparr>) (a # as) (bs[i := a]) (css(i := a # css i)) fs []"
    using r p(2) c3 lk3 kv hn k new refl by (auto simp: lru_rel_def size_simps)
  then show ?thesis
    using b(1) e il p(1) kv
    by (intro exI [of _ "bs ! i"] exI [of _ "s\<lparr>lr_entries := ?h2\<rparr>"] exI [of _ "Some (bs[i := a])"] exI [of _ ?s3] exI [of _ "css(i := a # css i)"])
       (simp add: lru_update_def)
qed

section \<open>The contract of a cache\<close>

text \<open>
  A cache is the list of its entries, the most recently used one first. Looking an entry up, or
  overwriting its value, moves it to the front; a new entry drives out the last one when there are
  \<open>cap\<close> of them already. \<open>peek\<close> and \<open>contains\<close> do not count as uses.
\<close>

datatype ('k, 'v) lru_cmd = Lru_put 'k 'v | Lru_get 'k | Lru_peek 'k | Lru_touch 'k | Lru_remove 'k | Lru_contains 'k

fun lru_cmd_key :: "('k, 'v) lru_cmd \<Rightarrow> 'k" where
  "lru_cmd_key (Lru_put k v) = k"
| "lru_cmd_key (Lru_get k) = k"
| "lru_cmd_key (Lru_peek k) = k"
| "lru_cmd_key (Lru_touch k) = k"
| "lru_cmd_key (Lru_remove k) = k"
| "lru_cmd_key (Lru_contains k) = k"

definition entry_of :: "('k \<Rightarrow> 'k \<Rightarrow> bool) \<Rightarrow> ('k \<times> 'v) list \<Rightarrow> 'k \<Rightarrow> ('k \<times> 'v) option" where
  "entry_of eq ps k = find (\<lambda>p. eq (fst p) k) ps"

lemma entry_of_eq: "entry_of eq ps k = Some (k', v) \<Longrightarrow> eq k' k"
  by (induction ps) (auto simp: entry_of_def split: if_splits)

definition entries_but :: "('k \<Rightarrow> 'k \<Rightarrow> bool) \<Rightarrow> ('k \<times> 'v) list \<Rightarrow> 'k \<Rightarrow> ('k \<times> 'v) list" where
  "entries_but eq ps k = filter (\<lambda>p. \<not> eq (fst p) k) ps"

fun recency_step :: "('k \<Rightarrow> 'k \<Rightarrow> bool) \<Rightarrow> nat \<Rightarrow> ('k \<times> 'v) list \<Rightarrow> ('k, 'v) lru_cmd \<Rightarrow> status \<times> 'v option \<times> ('k \<times> 'v) list" where
  "recency_step eq cap ps (Lru_put k v) =
     (case entry_of eq ps k of Some (k', _) \<Rightarrow> (Ok, None, (k', v) # entries_but eq ps k)
      | None \<Rightarrow> (Ok, None, (k, v) # (if length ps < cap then ps else butlast ps)))"
| "recency_step eq cap ps (Lru_get k) =
     (case entry_of eq ps k of Some (k', v) \<Rightarrow> (Ok, Some v, (k', v) # entries_but eq ps k) | None \<Rightarrow> (Not_found, None, ps))"
| "recency_step eq cap ps (Lru_peek k) =
     (case entry_of eq ps k of Some (k', v) \<Rightarrow> (Ok, Some v, ps) | None \<Rightarrow> (Not_found, None, ps))"
| "recency_step eq cap ps (Lru_touch k) =
     (case entry_of eq ps k of Some p \<Rightarrow> (Ok, None, p # entries_but eq ps k) | None \<Rightarrow> (Not_found, None, ps))"
| "recency_step eq cap ps (Lru_remove k) =
     (case entry_of eq ps k of Some p \<Rightarrow> (Ok, None, entries_but eq ps k) | None \<Rightarrow> (Not_found, None, ps))"
| "recency_step eq cap ps (Lru_contains k) = (if entry_of eq ps k = None then Not_found else Ok, None, ps)"

fun recency_spec :: "('k \<Rightarrow> 'k \<Rightarrow> bool) \<Rightarrow> nat \<Rightarrow> ('k \<times> 'v) list \<Rightarrow> ('k, 'v) lru_cmd list \<Rightarrow> (status \<times> 'v option) list \<times> ('k \<times> 'v) list" where
  "recency_spec eq cap ps [] = ([], ps)"
| "recency_spec eq cap ps (c # cs) =
     (let (st, out, ps') = recency_step eq cap ps c; (rs, ps'') = recency_spec eq cap ps' cs in ((st, out) # rs, ps''))"

fun recency_call ::
  "('s \<Rightarrow> 'k \<Rightarrow> 'v \<Rightarrow> (status \<times> 's) option) \<Rightarrow> ('s \<Rightarrow> 'k \<Rightarrow> (status \<times> 'v option \<times> 's) option) \<Rightarrow>
   ('s \<Rightarrow> 'k \<Rightarrow> (status \<times> 'v option) option) \<Rightarrow> ('s \<Rightarrow> 'k \<Rightarrow> (status \<times> 's) option) \<Rightarrow>
   ('s \<Rightarrow> 'k \<Rightarrow> (status \<times> 's) option) \<Rightarrow> ('s \<Rightarrow> 'k \<Rightarrow> bool option) \<Rightarrow> 's \<Rightarrow> ('k, 'v) lru_cmd \<Rightarrow> (status \<times> 'v option \<times> 's) option" where
  "recency_call put get peek touch rem has s (Lru_put k v) = map_option (\<lambda>(st, s'). (st, None, s')) (put s k v)"
| "recency_call put get peek touch rem has s (Lru_get k) = get s k"
| "recency_call put get peek touch rem has s (Lru_peek k) = map_option (\<lambda>(st, out). (st, out, s)) (peek s k)"
| "recency_call put get peek touch rem has s (Lru_touch k) = map_option (\<lambda>(st, s'). (st, None, s')) (touch s k)"
| "recency_call put get peek touch rem has s (Lru_remove k) = map_option (\<lambda>(st, s'). (st, None, s')) (rem s k)"
| "recency_call put get peek touch rem has s (Lru_contains k) = map_option (\<lambda>b. (if b then Ok else Not_found, None, s)) (has s k)"

fun recency_run :: "('s \<Rightarrow> ('k, 'v) lru_cmd \<Rightarrow> (status \<times> 'v option \<times> 's) option) \<Rightarrow> 's \<Rightarrow> ('k, 'v) lru_cmd list \<Rightarrow>
    ((status \<times> 'v option) list \<times> 's) option" where
  "recency_run call s [] = Some ([], s)"
| "recency_run call s (c # cs) = do {
     (st, out, s1) \<leftarrow> call s c;
     (rs, s2) \<leftarrow> recency_run call s1 cs;
     Some ((st, if st = Ok then out else None) # rs, s2)
   }"

definition recency_meets ::
  "('s \<Rightarrow> ('k \<times> 'v) list \<Rightarrow> bool) \<Rightarrow> ('k \<Rightarrow> 'k \<Rightarrow> bool) \<Rightarrow> nat \<Rightarrow> ('k \<times> 'v) list \<Rightarrow> ('k, 'v) lru_cmd \<Rightarrow> (status \<times> 'v option \<times> 's) option \<Rightarrow> bool" where
  "recency_meets holds eq cap ps c r \<longleftrightarrow>
     (\<exists>st out s' ps'. r = Some (st, out, s') \<and> holds s' ps' \<and> recency_step eq cap ps c = (st, if st = Ok then out else None, ps'))"

locale recency_map =
  fixes carrier :: "'k \<Rightarrow> bool" and eq :: "'k \<Rightarrow> 'k \<Rightarrow> bool" and cap :: nat and holds :: "'s \<Rightarrow> ('k \<times> 'v) list \<Rightarrow> bool"
    and put :: "'s \<Rightarrow> 'k \<Rightarrow> 'v \<Rightarrow> (status \<times> 's) option" and get :: "'s \<Rightarrow> 'k \<Rightarrow> (status \<times> 'v option \<times> 's) option"
    and peek :: "'s \<Rightarrow> 'k \<Rightarrow> (status \<times> 'v option) option" and touch :: "'s \<Rightarrow> 'k \<Rightarrow> (status \<times> 's) option"
    and rem :: "'s \<Rightarrow> 'k \<Rightarrow> (status \<times> 's) option" and has :: "'s \<Rightarrow> 'k \<Rightarrow> bool option"
  assumes call_law: "holds s ps \<Longrightarrow> carrier (lru_cmd_key c) \<Longrightarrow> recency_meets holds eq cap ps c (recency_call put get peek touch rem has s c)"
    and bounded: "holds s ps \<Longrightarrow> length ps \<le> cap"
begin

lemma run_refines:
  assumes "holds s ps" "\<forall>c \<in> set cs. carrier (lru_cmd_key c)"
  shows "\<exists>s'. recency_run (recency_call put get peek touch rem has) s cs = Some (fst (recency_spec eq cap ps cs), s') \<and>
    holds s' (snd (recency_spec eq cap ps cs))"
  using assms
proof (induction cs arbitrary: s ps)
  case (Cons c cs)
  from call_law [OF Cons.prems(1), of c] Cons.prems(2) obtain st out s1 ps1 where
    s1: "recency_call put get peek touch rem has s c = Some (st, out, s1)" "holds s1 ps1"
      "recency_step eq cap ps c = (st, if st = Ok then out else None, ps1)"
    unfolding recency_meets_def by auto
  from Cons.IH [OF s1(2)] Cons.prems(2) s1 show ?case by (auto simp: split_beta)
qed simp

text \<open>What was put can be got until it is removed or driven out: right away, it can.\<close>

lemma put_get:
  assumes "holds s ps" "carrier k" "eq k k"
  shows "\<exists>s1 s2. put s k v = Some (Ok, s1) \<and> get s1 k = Some (Ok, Some v, s2)"
proof -
  from call_law [OF assms(1), of "Lru_put k v"] assms(2) obtain s1 ps1 where
    s1: "put s k v = Some (Ok, s1)" "holds s1 ps1" "\<exists>k' qs. ps1 = (k', v) # qs \<and> eq k' k"
    using assms(3) by (auto simp: recency_meets_def dest: entry_of_eq split: option.splits)
  from call_law [OF s1(2), of "Lru_get k"] assms(2) s1(3) obtain s2 where "get s1 k = Some (Ok, Some v, s2)"
    by (auto simp: recency_meets_def entry_of_def split: if_splits)
  with s1(1) show ?thesis by blast
qed

end

section \<open>The operations meet the contract\<close>

definition lru_holds :: "('k \<Rightarrow> bool) \<Rightarrow> 'k hash_policy \<Rightarrow> nat \<Rightarrow> ('k, 'v) lru_cache \<Rightarrow> ('k \<times> 'v) list \<Rightarrow> bool" where
  "lru_holds carrier hp cap s ps \<longleftrightarrow>
     (\<exists>as bs css fs. lru_rel carrier hp s as bs css fs [] \<and> lru_items (lr_entries s) as = ps \<and> lr_capacity s = cap \<and> 0 < cap)"

abbreviation lru_call :: "'v \<Rightarrow> ('k, 'v) lru_cache \<Rightarrow> ('k, 'v) lru_cmd \<Rightarrow> (status \<times> 'v option \<times> ('k, 'v) lru_cache) option" where
  "lru_call d \<equiv> recency_call (\<lambda>s k v. lru_put s (Some k) (Some v)) (\<lambda>s k. lru_get s (Some k) (Some d)) (\<lambda>s k. lru_peek s (Some k) (Some d))
     (\<lambda>s k. lru_touch s (Some k)) (\<lambda>s k. lru_remove s (Some k)) (\<lambda>s k. lru_contains s (Some k))"

lemma entry_of_hit:
  "\<forall>p \<in> set us. \<not> eq (fst p) k \<Longrightarrow> eq (fst p) k \<Longrightarrow> entry_of eq (us @ p # vs) k = Some p"
  by (induction us) (auto simp: entry_of_def)

lemma entry_of_miss: "\<forall>p \<in> set ps. \<not> eq (fst p) k \<Longrightarrow> entry_of eq ps k = None"
  by (auto simp: entry_of_def find_None_iff)

lemma entries_but_hit:
  "\<forall>p \<in> set (us @ vs). \<not> eq (fst p) k \<Longrightarrow> eq (fst p) k \<Longrightarrow> entries_but eq (us @ p # vs) k = us @ vs"
  by (auto simp: entries_but_def intro!: filter_True)

context hashing
begin

abbreviation holds :: "nat \<Rightarrow> ('k, 'v) lru_cache \<Rightarrow> ('k \<times> 'v) list \<Rightarrow> bool" where
  "holds \<equiv> lru_holds carrier hp"

text \<open>Looking a key up in a cache, in terms of its entries.\<close>

lemma lru_holds_cases [consumes 2, case_names hit miss]:
  assumes h: "holds cap s ps" and k: "carrier k"
  obtains (hit) us a vs bs css fs i cs ds k' v where "lru_rel carrier hp s (us @ a # vs) bs css fs []" "a \<noteq> 0" "i < length bs" "css i = cs @ a # ds"
      "lru_find_entry s k = Some (a, i, last (0 # cs))" "lkv (lr_entries s) a = Some (k', v)"
      "lru_items (lr_entries s) (us @ vs) = entries_but (key_equal hp) ps k" "entry_of (key_equal hp) ps k = Some (k', v)"
      "ps = lru_items (lr_entries s) (us @ a # vs)" "lr_capacity s = cap" "0 < cap"
  | (miss) as bs css fs i p where "lru_rel carrier hp s as bs css fs []" "lru_find_entry s k = Some (0, i, p)"
      "\<forall>b \<in> set as. \<not> key_equal hp (lru_key (lr_entries s) b) k" "entry_of (key_equal hp) ps k = None"
      "ps = lru_items (lr_entries s) as" "lr_capacity s = cap" "0 < cap"
proof -
  from h obtain as bs css fs where r: "lru_rel carrier hp s as bs css fs []" "lru_items (lr_entries s) as = ps" "lr_capacity s = cap" "0 < cap"
    by (auto simp: lru_holds_def)
  from r(1) k show ?thesis
  proof (cases rule: lru_find_cases)
    case (hit us a vs i cs ds)
    have "lr_entries s a \<noteq> None" using r(1) dpath_nodes [of "lnx (lr_entries s)" "lpv (lr_entries s)" "lr_head s" "lr_tail s" as a] hit(1)
      by (auto simp: lru_rel_def lru_map_Some)
    then obtain k' v where kv: "lkv (lr_entries s) a = Some (k', v)" by (auto simp: lkv_def)
    have oth: "\<forall>p \<in> set (lru_items (lr_entries s) us @ lru_items (lr_entries s) vs). \<not> key_equal hp (fst p) k" using hit(9) by auto
    have e: "key_equal hp (fst (k', v)) k" using hit(7) kv by simp
    have ps: "ps = lru_items (lr_entries s) us @ (k', v) # lru_items (lr_entries s) vs" using r(2) hit(1) kv by auto
    have but: "lru_items (lr_entries s) (us @ vs) = entries_but (key_equal hp) ps k"
      unfolding ps using oth e by (subst entries_but_hit) auto
    have "entry_of (key_equal hp) ps k = Some (k', v)" unfolding ps using oth e by (intro entry_of_hit) auto
    from that(1) [OF r(1) [unfolded hit(1)] hit(2-4,6) kv but this] r(2-4) hit(1) show ?thesis by simp
  next
    case (miss i p)
    have "entry_of (key_equal hp) ps k = None" unfolding r(2) [symmetric] by (rule entry_of_miss) (use miss(4) in simp)
    with miss r that(2) show ?thesis by blast
  qed
qed

lemma lru_promote_holds:
  assumes r: "lru_rel carrier hp s (us @ a # vs) bs css fs []"
  shows "\<exists>s'. lru_promote s a = Some s' \<and> lru_rel carrier hp s' (a # us @ vs) bs css fs [] \<and> lkv (lr_entries s') = lkv (lr_entries s) \<and>
    lr_capacity s' = lr_capacity s"
proof -
  have d: "lru_list s (us @ a # vs)" "distinct (us @ a # vs)" using r by (auto simp: lru_rel_def)
  from lru_promote_ok [OF d] obtain h p q where p: "lru_promote s a = Some (s\<lparr>lr_entries := h, lr_head := p, lr_tail := q\<rparr>)"
    "dpath (lnx h) (lpv h) p q (a # us @ vs)" "lhn h = lhn (lr_entries s)" "lkv h = lkv (lr_entries s)" by blast
  have "lru_rel carrier hp (s\<lparr>lr_entries := h, lr_head := p, lr_tail := q\<rparr>) (a # us @ vs) bs css fs []"
    using lru_rel_relist [OF r p(2-4)] d(2) by auto
  with p show ?thesis by (intro exI [of _ "s\<lparr>lr_entries := h, lr_head := p, lr_tail := q\<rparr>"]) simp
qed

end

context hashing
begin

lemma lru_lookup_laws:
  assumes h: "holds cap s ps" and k: "carrier k"
  shows "recency_meets (holds cap) (key_equal hp) cap ps (Lru_get k) (lru_get s (Some k) (Some d))"
    and "recency_meets (holds cap) (key_equal hp) cap ps (Lru_peek k) (map_option (\<lambda>(st, out). (st, out, s)) (lru_peek s (Some k) (Some d)))"
    and "recency_meets (holds cap) (key_equal hp) cap ps (Lru_touch k) (map_option (\<lambda>(st, s'). (st, None, s')) (lru_touch s (Some k)))"
    and "recency_meets (holds cap) (key_equal hp) cap ps (Lru_contains k) (map_option (\<lambda>b. (if b then Ok else Not_found, None, s)) (lru_contains s (Some k)))"
proof -
  let ?get = "recency_meets (holds cap) (key_equal hp) cap ps (Lru_get k) (lru_get s (Some k) (Some d))"
    and ?peek = "recency_meets (holds cap) (key_equal hp) cap ps (Lru_peek k) (map_option (\<lambda>(st, out). (st, out, s)) (lru_peek s (Some k) (Some d)))"
    and ?touch = "recency_meets (holds cap) (key_equal hp) cap ps (Lru_touch k) (map_option (\<lambda>(st, s'). (st, None, s')) (lru_touch s (Some k)))"
    and ?has = "recency_meets (holds cap) (key_equal hp) cap ps (Lru_contains k) (map_option (\<lambda>b. (if b then Ok else Not_found, None, s)) (lru_contains s (Some k)))"
  from h k have "?get \<and> ?peek \<and> ?touch \<and> ?has"
  proof (cases rule: lru_holds_cases)
    case (hit us a vs bs css fs i cs ds k' v)
    from lru_promote_holds [OF hit(1)] obtain s' where s': "lru_promote s a = Some s'" "lru_rel carrier hp s' (a # us @ vs) bs css fs []"
      "lkv (lr_entries s') = lkv (lr_entries s)" "lr_capacity s' = lr_capacity s" by blast
    have "lru_items (lr_entries s') (a # us @ vs) = (k', v) # entries_but (key_equal hp) ps k" using s'(3) hit(6,7) by simp
    with s' hit(10,11) have h': "holds cap s' ((k', v) # entries_but (key_equal hp) ps k)" unfolding lru_holds_def by metis
    from hit(6) obtain e where e: "lr_entries s a = Some e" "le_value e = v" by (auto simp: lkv_def)
    have f: "faithful (lr_value_policy s)" using hit(1) by (simp add: lru_rel_def)
    show ?thesis
      using hit(2,5,8) s'(1) h h' e f by (simp add: recency_meets_def lru_get_def lru_peek_def lru_touch_def lru_contains_def)
  next
    case (miss as bs css fs i p)
    with h show ?thesis by (simp add: recency_meets_def lru_get_def lru_peek_def lru_touch_def lru_contains_def)
  qed
  then show ?get ?peek ?touch ?has by simp_all
qed

lemma lru_remove_law:
  assumes h: "holds cap s ps" and k: "carrier k"
  shows "recency_meets (holds cap) (key_equal hp) cap ps (Lru_remove k) (map_option (\<lambda>(st, s'). (st, None, s')) (lru_remove s (Some k)))"
  using assms
proof (cases rule: lru_holds_cases)
  case (hit us a vs bs css fs i cs ds k' v)
  from lru_rel_detach [OF hit(1,3,4)] obtain s1 s2 s3 bs' css' where d: "lru_destroy_entry s a = Some s1" "lru_unlink s1 a = Some s2"
    "lru_hash_unlink s2 i a (last (0 # cs)) = Some s3" "lru_rel carrier hp (s3\<lparr>lr_size := sz_sub (lr_size s3) 1\<rparr>) (us @ vs) bs' css' fs [a]"
    "lkv (lr_entries s3) = lkv (lr_entries s)" by blast
  from lru_rel_release [OF d(4)] obtain s4 where r: "lru_release_entry (s3\<lparr>lr_size := sz_sub (lr_size s3) 1\<rparr>) a = Some s4"
    "lru_rel carrier hp s4 (us @ vs) bs' css' (a # fs) []" "lkv (lr_entries s4) = lkv (lr_entries s)"
    using d(5) by auto
  have swap: "lru_release_entry (s3\<lparr>lr_size := sz_sub (lr_size s3) 1\<rparr>) a =
      map_option (\<lambda>s4. s4\<lparr>lr_size := sz_sub (lr_size s4) 1\<rparr>) (lru_release_entry s3 a)"
    by (auto simp: lru_release_entry_def lru_update_def split: option.splits bind_splits)
  from swap r(1) obtain s5 where s5: "lru_release_entry s3 a = Some s5" "s4 = s5\<lparr>lr_size := sz_sub (lr_size s5) 1\<rparr>" by auto
  have cap: "lr_capacity s4 = lr_capacity s" using r(2) hit(1) by (simp add: lru_rel_def)
  have items: "lru_items (lr_entries s4) (us @ vs) = entries_but (key_equal hp) ps k" unfolding r(3) by (rule hit(7))
  have "holds cap s4 (entries_but (key_equal hp) ps k)" using r(2) items cap hit(10,11) unfolding lru_holds_def by metis
  moreover have "lru_remove s (Some k) = Some (Ok, s4)"
    using hit(2,5) d(1-3) s5 by (simp add: lru_remove_def)
  ultimately show ?thesis using hit(8) by (simp add: recency_meets_def)
next
  case (miss as bs css fs i p)
  with h show ?thesis by (simp add: recency_meets_def lru_remove_def)
qed

text \<open>An entry for a new key: a free one, or the last one of the list.\<close>

lemma lru_prepare_ok:
  assumes r: "lru_rel carrier hp s as bs css fs []" and cap: "0 < lr_capacity s"
  shows "\<exists>a s1 as1 bs1 css1 fs1. lru_prepare_entry s k v = Some (Ok, a, hash_key hp k mod length bs1, s1) \<and>
    lru_rel carrier hp s1 as1 bs1 css1 fs1 [a] \<and> lkv (lr_entries s1) = (lkv (lr_entries s))(a \<mapsto> (k, v)) \<and>
    as1 = (if length as < lr_capacity s then as else butlast as) \<and> lr_capacity s1 = lr_capacity s"
proof (cases fs)
  case Nil
  have full: "length as = lr_capacity s" "as \<noteq> []" using r cap Nil by (auto simp: lru_rel_def)
  then obtain us a where as: "as = us @ [a]" by (metis rev_exhaust)
  from lru_rel_split_chain [OF r, of a] as obtain i cs ds where i: "i < length bs" "css i = cs @ a # ds"
    "i = hash_key hp (lru_key (lr_entries s) a) mod length bs" by auto
  have key: "carrier (lru_key (lr_entries s) a)" "lru_list s as" using r as by (auto simp: lru_rel_def)
  have tail: "lr_tail s = a" "a \<noteq> 0" using dpath_ends(2) [OF key(2)] dpath_nodes [OF key(2), of a] as by auto
  from dpath_nodes [OF key(2), of a] as obtain e where e: "lr_entries s a = Some e" by (auto simp: lru_map_Some)
  from r key(1) have find: "lru_find_entry s (le_key e) = Some (a, i, last (0 # cs))"
  proof (cases rule: lru_find_cases)
    case (hit us' b vs' j cs' ds')
    have "b \<in> set as" using hit(1) by simp
    moreover have "a \<in> set as" using as by simp
    ultimately have ba: "b = a" using hit(7) r by (metis lru_rel_def)
    have ji: "j = i" using hit(5) i(3) by simp
    have "distinct (css i)" using lru_chainsD(2) [of hp "lr_entries s" bs css i] r i(1) by (simp add: lru_rel_def)
    then have "a \<notin> set cs'" "a \<notin> set ds'" using hit(4) ba ji by auto
    then have "cs' = cs" using hit(4) i(2) append_Cons_eq_iff [of a cs' ds' cs ds] ba ji by simp
    moreover note ba ji
    ultimately show ?thesis using hit(6) e by simp
  next
    case (miss j p)
    with eq_refl [OF key(1)] as show ?thesis by auto
  qed
  from lru_rel_detach [of carrier hp s us a "[]" bs css "[]" i cs ds] r as Nil i obtain s1 s2 s3 bs' css' where
    d: "lru_destroy_entry s a = Some s1" "lru_unlink s1 a = Some s2" "lru_hash_unlink s2 i a (last (0 # cs)) = Some s3"
      "lru_rel carrier hp (s3\<lparr>lr_size := sz_sub (lr_size s3) 1\<rparr>) us bs' css' [] [a]" "lkv (lr_entries s3) = lkv (lr_entries s)" by auto
  let ?s4 = "s3\<lparr>lr_size := sz_sub (lr_size s3) 1\<rparr>"
  have ev: "lru_evict s a = Some ?s4" using e find d by (simp add: lru_evict_def)
  from lru_rel_fill [OF d(4), of False k v] obtain s5 where s5: "lru_fill ?s4 a False k v = Some (Ok, a, hash_key hp k mod length bs', s5)"
    "lru_rel carrier hp s5 us bs' css' [] [a]" "lkv (lr_entries s5) = (lkv (lr_entries s))(a \<mapsto> (k, v))" using d(5) by auto
  have "lru_acquire_entry s = Some (0, s)" using r Nil by (simp add: lru_rel_def lru_acquire_entry_def)
  moreover have "lr_size s = lr_capacity s" using full r by (simp add: lru_rel_def)
  ultimately have "lru_prepare_entry s k v = Some (Ok, a, hash_key hp k mod length bs', s5)"
    using tail ev s5(1) by (simp add: lru_prepare_entry_def)
  with s5 full as r show ?thesis
    by (intro exI [of _ a] exI [of _ s5] exI [of _ us] exI [of _ bs'] exI [of _ css'] exI [of _ "[]"]) (simp add: lru_rel_def)
next
  case (Cons a fs1)
  from lru_rel_acquire [of carrier hp s as bs css a fs1] r Cons obtain s1 where s1: "lru_acquire_entry s = Some (a, s1)"
    "lru_rel carrier hp s1 as bs css fs1 [a]" "lkv (lr_entries s1) = lkv (lr_entries s)" "a \<noteq> 0" by auto
  from lru_rel_fill [OF s1(2), of True k v] obtain s2 where s2: "lru_fill s1 a True k v = Some (Ok, a, hash_key hp k mod length bs, s2)"
    "lru_rel carrier hp s2 as bs css fs1 [a]" "lkv (lr_entries s2) = (lkv (lr_entries s))(a \<mapsto> (k, v))" using s1(3) by auto
  have "lru_prepare_entry s k v = Some (Ok, a, hash_key hp k mod length bs, s2)"
    using s1(1,4) s2(1) by (simp add: lru_prepare_entry_def)
  with s2 r Cons show ?thesis
    by (intro exI [of _ a] exI [of _ s2] exI [of _ as] exI [of _ bs] exI [of _ css] exI [of _ fs1]) (simp add: lru_rel_def)
qed

end

context hashing
begin

lemma lru_put_law:
  assumes h: "holds cap s ps" and k: "carrier k"
  shows "recency_meets (holds cap) (key_equal hp) cap ps (Lru_put k v) (map_option (\<lambda>(st, s'). (st, None, s')) (lru_put s (Some k) (Some v)))"
  using assms
proof (cases rule: lru_holds_cases)
  case (hit us a vs bs css fs i cs ds k' w)
  from hit(6) obtain e where e: "lr_entries s a = Some e" "le_key e = k'" by (auto simp: lkv_def)
  define h' where "h' = (lr_entries s)(a \<mapsto> e\<lparr>le_value := v\<rparr>)"
  have f: "faithful (lr_value_policy s)" using hit(1) by (simp add: lru_rel_def)
  have key: "lru_key h' x = lru_key (lr_entries s) x" for x using e by (simp add: h'_def)
  have kv: "lkv h' = (lkv (lr_entries s))(a \<mapsto> (k', v))" using e by (simp add: h'_def)
  have keep: "lhn h' = lhn (lr_entries s)" "lnx h' = lnx (lr_entries s)" "lpv h' = lpv (lr_entries s)" using e by (simp_all add: h'_def)
  have "lru_chains hp h' bs css"
    by (rule lru_chains_frame [of hp "lr_entries s"]) (use hit(1) keep key in \<open>auto simp: lru_rel_def\<close>)
  then have r1: "lru_rel carrier hp (s\<lparr>lr_entries := h'\<rparr>) (us @ a # vs) bs css fs []"
    using hit(1) keep key by (simp add: lru_rel_def)
  from lru_promote_holds [OF r1] obtain s' where s': "lru_promote (s\<lparr>lr_entries := h'\<rparr>) a = Some s'"
    "lru_rel carrier hp s' (a # us @ vs) bs css fs []" "lkv (lr_entries s') = lkv h'" "lr_capacity s' = lr_capacity s" by auto
  have "a \<notin> set (us @ vs)" using hit(1) by (auto simp: lru_rel_def)
  then have "lru_items (lr_entries s') (us @ vs) = lru_items (lr_entries s) (us @ vs)" using s'(3) kv by auto
  then have "lru_items (lr_entries s') (us @ vs) = entries_but (key_equal hp) ps k" unfolding hit(7) .
  moreover have "the (lkv (lr_entries s') a) = (k', v)" unfolding s'(3) kv by simp
  ultimately have "lru_items (lr_entries s') (a # us @ vs) = (k', v) # entries_but (key_equal hp) ps k" by simp
  with s' hit(10,11) have res: "holds cap s' ((k', v) # entries_but (key_equal hp) ps k)" unfolding lru_holds_def by metis
  have "lru_put s (Some k) (Some v) = Some (Ok, s')"
    using hit(2,5) e f s'(1) by (simp add: lru_put_def lru_update_def h'_def)
  with res hit(8) show ?thesis by (simp add: recency_meets_def)
next
  case (miss as bs css fs i p)
  from lru_prepare_ok [OF miss(1), of k v] miss(6,7) obtain a s1 as1 bs1 css1 fs1 where
    s1: "lru_prepare_entry s k v = Some (Ok, a, hash_key hp k mod length bs1, s1)" "lru_rel carrier hp s1 as1 bs1 css1 fs1 [a]"
      "lkv (lr_entries s1) = (lkv (lr_entries s))(a \<mapsto> (k, v))" "as1 = (if length as < cap then as else butlast as)" "lr_capacity s1 = cap" by auto
  have sub: "set as1 \<subseteq> set as" using s1(4) in_set_butlastD [of _ as] by auto
  have "a \<notin> set as1" using s1(2) by (auto simp: lru_rel_def)
  then have items1: "lru_key (lr_entries s1) b = lru_key (lr_entries s) b" "the (lkv (lr_entries s1) b) = the (lkv (lr_entries s) b)" if "b \<in> set as1" for b
    using that s1(3) by auto
  have car: "carrier (lru_key (lr_entries s) b)" if "b \<in> set as1" for b using that sub miss(1) by (auto simp: lru_rel_def)
  have new: "\<forall>b \<in> set as1. \<not> key_equal hp (lru_key (lr_entries s1) b) k \<and> \<not> key_equal hp k (lru_key (lr_entries s1) b)"
    using miss(3) sub items1(1) eq_sym [OF k car] by fastforce
  have kv: "lkv (lr_entries s1) a = Some (k, v)" using s1(3) by simp
  from lru_rel_insert [OF s1(2) kv k refl eq_refl new] obtain head s2 m s3 css' where
    s3: "mem_rd (lr_buckets s1) (hash_key hp k mod length bs1) = Some head" "lru_update s1 a (\<lambda>e. e\<lparr>le_hash_next := head\<rparr>) = Some s2"
      "mem_wr (lr_buckets s2) (hash_key hp k mod length bs1) a = Some m" "lru_push_front (s2\<lparr>lr_buckets := m\<rparr>) a = Some s3"
      "lru_rel carrier hp (s3\<lparr>lr_size := sz_add (lr_size s3) 1\<rparr>) (a # as1) (bs1[hash_key hp k mod length bs1 := a]) css' fs1 []"
      "lkv (lr_entries s3) = lkv (lr_entries s1)" by blast
  let ?r = "s3\<lparr>lr_size := sz_add (lr_size s3) 1\<rparr>"
  have "lru_items (lr_entries ?r) (a # as1) = (k, v) # lru_items (lr_entries s) as1" using s3(6) kv items1(2) by simp
  moreover have "lru_items (lr_entries s) as1 = (if length ps < cap then ps else butlast ps)" using miss(5) s1(4) by (simp add: map_butlast)
  moreover have "lr_capacity ?r = cap" using s3(5) s1(2,5) by (simp add: lru_rel_def)
  ultimately have h': "holds cap ?r ((k, v) # (if length ps < cap then ps else butlast ps))"
    using s3(5) miss(7) unfolding lru_holds_def by (intro exI conjI) (assumption | simp)+
  have "lru_put s (Some k) (Some v) = Some (Ok, ?r)"
    using miss(2) s1(1) s3(1-4) by (simp add: lru_put_def)
  with h' miss(4) show ?thesis by (simp add: recency_meets_def)
qed

lemma lru_call_law:
  "holds cap s ps \<Longrightarrow> carrier (lru_cmd_key c) \<Longrightarrow> recency_meets (holds cap) (key_equal hp) cap ps c (lru_call d s c)"
  by (cases c) (simp_all add: lru_put_law lru_lookup_laws lru_remove_law)

lemma lru_holds_bounded: "holds cap s ps \<Longrightarrow> length ps \<le> cap"
  by (auto simp: lru_holds_def lru_rel_def)

lemma lru_recency_map:
  "recency_map carrier (key_equal hp) cap (holds cap) (\<lambda>s k v. lru_put s (Some k) (Some v)) (\<lambda>s k. lru_get s (Some k) (Some d))
     (\<lambda>s k. lru_peek s (Some k) (Some d)) (\<lambda>s k. lru_touch s (Some k)) (\<lambda>s k. lru_remove s (Some k)) (\<lambda>s k. lru_contains s (Some k))"
  by unfold_locales (rule lru_call_law lru_holds_bounded; assumption)+

end

interpretation bytes_lru: recency_map "\<lambda>k. length (bytes k) = n" "key_equal (bytes_hash_policy bytes)" cap
  "lru_holds (\<lambda>k. length (bytes k) = n) (bytes_hash_policy bytes) cap"
  "\<lambda>s k v. lru_put s (Some k) (Some v)" "\<lambda>s k. lru_get s (Some k) (Some d)" "\<lambda>s k. lru_peek s (Some k) (Some d)"
  "\<lambda>s k. lru_touch s (Some k)" "\<lambda>s k. lru_remove s (Some k)" "\<lambda>s k. lru_contains s (Some k)"
  for bytes :: "'k \<Rightarrow> u8 list" and n cap and d :: 'v
  by (rule bytes_hashing.lru_recency_map)

section \<open>Initialisation\<close>

text \<open>The caller's pool of entries.\<close>

definition lru_pool_memory :: "'k elem_policy \<Rightarrow> 'v elem_policy \<Rightarrow> nat \<Rightarrow> (nat \<Rightarrow> ('k, 'v) lru_entry option) \<Rightarrow> nat \<Rightarrow> bool" where
  "lru_pool_memory kp vp base h n \<longleftrightarrow> base \<noteq> 0 \<and> base + n * (24 + ep_size kp + ep_size vp) \<le> SIZE_MAX \<and>
     (\<forall>i < n. h (base + i * (24 + ep_size kp + ep_size vp)) \<noteq> None)"

lemma lru_entry_at_eq:
  assumes "lru_pool_memory (lr_key_policy s) (lr_value_policy s) (lr_pool s) h n" "i < n"
  shows "lru_entry_at s i = lr_pool s + i * (24 + ep_size (lr_key_policy s) + ep_size (lr_value_policy s))"
proof -
  let ?w = "24 + ep_size (lr_key_policy s) + ep_size (lr_value_policy s)"
  have b: "lr_pool s + n * ?w \<le> SIZE_MAX" using assms(1) by (simp add: lru_pool_memory_def)
  note p = pool_address [OF b assms(2)]
  then have "lru_entry_stride (ep_size (lr_key_policy s)) (ep_size (lr_value_policy s)) = ?w"
    by (simp add: lru_entry_stride_def size_simps)
  with p show ?thesis by (simp add: lru_entry_at_def)
qed

lemma lru_free_loop_ok:
  assumes "\<forall>j < i + n. lru_entry_at s j \<noteq> 0 \<and> lr_entries s (lru_entry_at s j) \<noteq> None"
    "inj_on (lru_entry_at s) {..<i + n}" "path (lhn (lr_entries s)) (lr_free s) fs 0" "distinct fs" "set fs = lru_entry_at s ` {..<i}"
  shows "\<exists>p h fs'. lru_free_loop s i n = Some (s\<lparr>lr_free := p, lr_entries := h\<rparr>) \<and> path (lhn h) p fs' 0 \<and> distinct fs' \<and>
    length fs' = length fs + n"
  using assms
proof (induction n arbitrary: i s fs)
  case 0
  then show ?case by (intro exI [of _ "lr_free s"] exI [of _ "lr_entries s"] exI [of _ fs]) simp
next
  case (Suc n)
  let ?a = "lru_entry_at s i"
  from Suc.prems(1) have "?a \<noteq> 0 \<and> lr_entries s ?a \<noteq> None" by simp
  then obtain e where e: "?a \<noteq> 0" "lr_entries s ?a = Some e" by blast
  have new: "?a \<notin> set fs"
  proof
    assume "?a \<in> set fs"
    then obtain j where "j < i" "lru_entry_at s j = ?a" using Suc.prems(5) by auto
    with inj_onD [OF Suc.prems(2), of j i] show False by simp
  qed
  define s1 where "s1 = s\<lparr>lr_entries := (lr_entries s)(?a \<mapsto> e\<lparr>le_prev := 0, le_next := 0, le_hash_next := lr_free s\<rparr>), lr_free := ?a\<rparr>"
  have na: "lru_entry_at s1 = lru_entry_at s" by (rule ext) (simp add: lru_entry_at_def s1_def)
  have "\<exists>p h fs'. lru_free_loop s1 (Suc i) n = Some (s1\<lparr>lr_free := p, lr_entries := h\<rparr>) \<and> path (lhn h) p fs' 0 \<and> distinct fs' \<and>
    length fs' = length (?a # fs) + n"
  proof (rule Suc.IH, unfold na)
    show "\<forall>j < Suc i + n. lru_entry_at s j \<noteq> 0 \<and> lr_entries s1 (lru_entry_at s j) \<noteq> None"
      using Suc.prems(1) by (simp add: s1_def)
    show "inj_on (lru_entry_at s) {..<Suc i + n}" using Suc.prems(2) by simp
    show "path (lhn (lr_entries s1)) (lr_free s1) (?a # fs) 0" using Suc.prems(3) e new by (simp add: s1_def)
    show "distinct (?a # fs)" using Suc.prems(4) new by simp
    show "set (?a # fs) = lru_entry_at s ` {..<Suc i}" using Suc.prems(5) by (simp add: lessThan_Suc)
  qed
  moreover have "lru_free_loop s i (Suc n) = lru_free_loop s1 (Suc i) n"
    using e by (simp add: lru_update_def s1_def Let_def)
  ultimately show ?case by (auto simp: s1_def)
qed

lemma lru_init_ok:
  assumes pool: "lru_pool_memory kp vp base h n" and "faithful kp" "faithful vp" "0 < n" "n \<le> SIZE_MAX"
    and nb: "length bs = nb" "0 < nb" "nb \<le> 2 ^ 60"
  shows "\<exists>s. lru_init s0 kp vp hp base h n (Some bs) nb fl = Some (Ok, s) \<and> lru_holds carrier hp n s [] \<and>
    lr_destroyed s = lr_destroyed s0"
proof -
  from nb have bs: "bs \<noteq> []" "length bs \<le> 2 ^ 60" by auto
  let ?s = "s0\<lparr>lr_key_policy := kp, lr_value_policy := vp, lr_hash := hp, lr_pool := base, lr_entries := h, lr_capacity := n,
    lr_bucket_count := length bs, lr_flags := fl, lr_kind := 0, lr_owns_buckets := False, lr_free := 0, lr_head := 0, lr_tail := 0, lr_size := 0,
    lr_buckets := Some (replicate (length bs) 0)\<rparr>"
  have entries: "lru_entry_at ?s i = base + i * (24 + ep_size kp + ep_size vp)" if "i < n" for i
    using lru_entry_at_eq [of ?s h n i] pool that by simp
  have "\<exists>p h' fs'. lru_free_loop ?s 0 n = Some (?s\<lparr>lr_free := p, lr_entries := h'\<rparr>) \<and> path (lhn h') p fs' 0 \<and> distinct fs' \<and>
    length fs' = length ([] :: nat list) + n"
  proof (rule lru_free_loop_ok)
    show "\<forall>j < 0 + n. lru_entry_at ?s j \<noteq> 0 \<and> lr_entries ?s (lru_entry_at ?s j) \<noteq> None"
      using pool entries by (simp add: lru_pool_memory_def)
    show "inj_on (lru_entry_at ?s) {..<0 + n}" using entries by (auto simp: inj_on_def)
  qed simp_all
  then obtain p h' fs where fs: "lru_free_loop ?s 0 n = Some (?s\<lparr>lr_free := p, lr_entries := h'\<rparr>)" "path (lhn h') p fs 0" "distinct fs" "length fs = n"
    by auto
  let ?r = "?s\<lparr>lr_free := p, lr_entries := h'\<rparr>"
  have "sz_mul (length bs) 8 = length bs * 8" using bs(2) by (intro sz_mul_eq) (simp add: SIZE_MAX_def)
  then have n: "lru_buckets_bytes (length bs) div 8 = length bs" by (simp add: lru_buckets_bytes_def)
  have "lru_init s0 kp vp hp base h n (Some bs) (length bs) fl = Some (Ok, ?r)"
    using pool assms(4) bs(1) n fs(1) by (simp add: lru_init_def lru_pool_memory_def lru_reset_free_list_def Let_def)
  moreover have "lru_chains hp h' (replicate (length bs) 0) (\<lambda>_. [])" "lru_linked (replicate (length bs) 0) (\<lambda>_. []) = {}"
    by (simp_all add: lru_chains_def lru_linked_def)
  then have "lru_rel carrier hp ?r [] (replicate (length bs) 0) (\<lambda>_. []) fs []"
    using assms fs by (simp add: lru_rel_def dpath_def)
  then have "lru_holds carrier hp n ?r []"
    unfolding lru_holds_def using assms(4)
    by (intro exI [of _ "[]"] exI [of _ "replicate (length bs) 0"] exI [of _ "\<lambda>_. []"] exI [of _ fs]) simp
  ultimately show ?thesis using nb(1) by (intro exI [of _ ?r]) simp
qed

section \<open>Walks\<close>

fun visit_entries :: "('k \<Rightarrow> 'v \<Rightarrow> 'w \<Rightarrow> status \<times> 'w) \<Rightarrow> ('k \<times> 'v) list \<Rightarrow> 'w \<Rightarrow> status \<times> 'w" where
  "visit_entries visit [] w = (Ok, w)"
| "visit_entries visit (p # ps) w = (let (st, w') = visit (fst p) (snd p) w in if st \<noteq> Ok then (st, w') else visit_entries visit ps w')"

lemma lru_foreach_ok:
  assumes "path (if mru then lnx (lr_entries s) else lpv (lr_entries s)) p as 0"
  shows "lru_foreach_loop s visit mru p w = Some (visit_entries visit (lru_items (lr_entries s) as) w)"
  using assms
proof (induction as arbitrary: p w)
  case Nil
  then show ?case by (subst lru_foreach_loop.simps) simp
next
  case (Cons a as)
  then obtain e where e: "lr_entries s p = Some e" "p = a" "a \<noteq> 0"
    "path (if mru then lnx (lr_entries s) else lpv (lr_entries s)) (if mru then le_next e else le_prev e) as 0"
    by (auto simp: lru_map_Some split: if_splits)
  obtain st w' where v: "visit (le_key e) (le_value e) w = (st, w')" by (cases "visit (le_key e) (le_value e) w")
  from Cons.IH [OF e(4)] e(1-3) v show ?case by (subst lru_foreach_loop.simps) (simp add: ok_iff)
qed

definition lru_dead :: "('k, 'v) lru_cache \<Rightarrow> 'k \<times> 'v \<Rightarrow> ('k + 'v) list" where
  "lru_dead s p = (if ep_destroy (lr_key_policy s) then [Inl (fst p)] else []) @ (if ep_destroy (lr_value_policy s) then [Inr (snd p)] else [])"

lemma lru_clear_bucket_ok:
  assumes "path (lhn (lr_entries s)) p cs 0" "path (lhn (lr_entries s)) (lr_free s) fs 0" "distinct (cs @ fs)"
  shows "\<exists>h q. lru_clear_bucket s p = Some (s\<lparr>lr_entries := h, lr_free := q,
      lr_destroyed := lr_destroyed s @ concat (map (lru_dead s) (lru_items (lr_entries s) cs))\<rparr>) \<and>
    path (lhn h) q (rev cs @ fs) 0 \<and> (\<forall>x. x \<notin> set cs \<longrightarrow> h x = lr_entries s x)"
  using assms
proof (induction cs arbitrary: s p fs)
  case Nil
  then show ?case
    by (intro exI [of _ "lr_entries s"] exI [of _ "lr_free s"]) (subst lru_clear_bucket.simps, simp)
next
  case (Cons a cs)
  from Cons.prems obtain e where e: "lr_entries s a = Some e" "a \<noteq> 0" "p = a" "path (lhn (lr_entries s)) (le_hash_next e) cs 0"
    by (auto simp: lru_map_Some)
  define s1 where "s1 = s\<lparr>lr_destroyed := lr_destroyed s @ lru_dead s (le_key e, le_value e)\<rparr>"
  define s2 where "s2 = s1\<lparr>lr_entries := (lr_entries s)(a \<mapsto> e\<lparr>le_prev := 0, le_next := 0, le_hash_next := lr_free s\<rparr>), lr_free := a\<rparr>"
  have step: "lru_clear_bucket s p = lru_clear_bucket s2 (le_hash_next e)"
    using e by (subst lru_clear_bucket.simps)
      (simp add: lru_destroy_entry_def lru_release_entry_def lru_update_def s1_def s2_def lru_dead_def)
  have "path (lhn (lr_entries s2)) (le_hash_next e) cs 0" "path (lhn (lr_entries s2)) (lr_free s2) (a # fs) 0" "distinct (cs @ a # fs)"
    using Cons.prems e by (simp_all add: s2_def s1_def)
  from Cons.IH [OF this] obtain h q where h: "lru_clear_bucket s2 (le_hash_next e) = Some (s2\<lparr>lr_entries := h, lr_free := q,
      lr_destroyed := lr_destroyed s2 @ concat (map (lru_dead s2) (lru_items (lr_entries s2) cs))\<rparr>)"
    "path (lhn h) q (rev cs @ a # fs) 0" "\<forall>x. x \<notin> set cs \<longrightarrow> h x = lr_entries s2 x" by blast
  have "a \<notin> set cs" using Cons.prems(3) by simp
  then have "lru_items (lr_entries s2) cs = lru_items (lr_entries s) cs" by (auto simp: s2_def)
  moreover have "lru_dead s2 = lru_dead s" by (rule ext) (simp add: lru_dead_def s2_def s1_def)
  ultimately have "lru_clear_bucket s p = Some (s\<lparr>lr_entries := h, lr_free := q,
      lr_destroyed := lr_destroyed s @ concat (map (lru_dead s) (lru_items (lr_entries s) (a # cs)))\<rparr>)"
    using step h(1) e(1) by (simp add: s2_def s1_def)
  with h(2,3) e show ?case
    by (intro exI [of _ h] exI [of _ q]) (auto simp: s2_def)
qed

lemma lru_clear_loop_ok:
  assumes "lr_buckets s = Some bs" "i + n = length bs" "\<forall>j < i. bs ! j = 0"
    "\<And>j. i \<le> j \<Longrightarrow> j < length bs \<Longrightarrow> path (lhn (lr_entries s)) (bs ! j) (css j) 0"
    "path (lhn (lr_entries s)) (lr_free s) fs 0" "distinct (concat (map css [i..<length bs]) @ fs)"
  shows "\<exists>h q fs'. lru_clear_loop s i n = Some (s\<lparr>lr_buckets := Some (replicate (length bs) 0), lr_entries := h, lr_free := q,
      lr_destroyed := lr_destroyed s @ concat (map (lru_dead s) (lru_items (lr_entries s) (concat (map css [i..<length bs]))))\<rparr>) \<and>
    path (lhn h) q fs' 0 \<and> distinct fs' \<and> length fs' = length fs + length (concat (map css [i..<length bs]))"
  using assms
proof (induction n arbitrary: s i bs fs)
  case 0
  then have "bs = replicate (length bs) 0" by (intro nth_equalityI) simp_all
  with 0 show ?case by (intro exI [of _ "lr_entries s"] exI [of _ "lr_free s"] exI [of _ fs]) simp
next
  case (Suc n)
  have i: "i < length bs" and upt: "[i..<length bs] = i # [Suc i..<length bs]" using Suc.prems(2) by (simp_all add: upt_conv_Cons)
  have d: "distinct (css i @ fs)" using Suc.prems(6) unfolding upt by auto
  from lru_clear_bucket_ok [OF Suc.prems(4) [OF order.refl i] Suc.prems(5) d] obtain h q where
    h: "lru_clear_bucket s (bs ! i) = Some (s\<lparr>lr_entries := h, lr_free := q,
        lr_destroyed := lr_destroyed s @ concat (map (lru_dead s) (lru_items (lr_entries s) (css i)))\<rparr>)"
      "path (lhn h) q (rev (css i) @ fs) 0" "\<forall>x. x \<notin> set (css i) \<longrightarrow> h x = lr_entries s x" by blast
  define s1 where "s1 = s\<lparr>lr_entries := h, lr_free := q,
    lr_destroyed := lr_destroyed s @ concat (map (lru_dead s) (lru_items (lr_entries s) (css i))), lr_buckets := Some (bs[i := 0])\<rparr>"
  have "set (css i) \<inter> (\<Union>j \<in> {Suc i..<length bs}. set (css j)) = {}" using Suc.prems(6) unfolding upt by auto
  then have other: "x \<notin> set (css i)" if "Suc i \<le> j" "j < length bs" "x \<in> set (css j)" for j x
    using that by (meson UN_I atLeastLessThan_iff disjoint_iff)
  have c1: "path (lhn (lr_entries s1)) (bs[i := 0] ! j) (css j) 0" if j: "Suc i \<le> j" "j < length (bs[i := 0])" for j
  proof -
    have "path (lhn h) (bs ! j) (css j) 0"
      by (rule path_frame [OF Suc.prems(4)]) (use j other h(3) in \<open>auto simp: lhn_def\<close>)
    with j show ?thesis by (simp add: s1_def)
  qed
  have c2: "lr_buckets s1 = Some (bs[i := 0])" "Suc i + n = length (bs[i := 0])" "\<forall>j < Suc i. bs[i := 0] ! j = 0"
    using Suc.prems(2,3) by (auto simp: s1_def nth_list_update less_Suc_eq)
  have c3: "path (lhn (lr_entries s1)) (lr_free s1) (rev (css i) @ fs) 0" using h(2) by (simp add: s1_def)
  have c4: "distinct (concat (map css [Suc i..<length (bs[i := 0])]) @ rev (css i) @ fs)" using Suc.prems(6) unfolding upt by auto
  note Suc.IH [OF c2 c1 c3 c4]
  then obtain h2 q2 fs2 where h2: "lru_clear_loop s1 (Suc i) n = Some (s1\<lparr>lr_buckets := Some (replicate (length bs) 0), lr_entries := h2, lr_free := q2,
      lr_destroyed := lr_destroyed s1 @ concat (map (lru_dead s1) (lru_items (lr_entries s1) (concat (map css [Suc i..<length bs]))))\<rparr>)"
    "path (lhn h2) q2 fs2 0" "distinct fs2" "length fs2 = length (css i) + length fs + length (concat (map css [Suc i..<length bs]))" by auto
  have items: "lru_items (lr_entries s1) (concat (map css [Suc i..<length bs])) = lru_items (lr_entries s) (concat (map css [Suc i..<length bs]))"
    using other h(3) by (intro map_cong) (auto simp: s1_def lkv_def)
  have dead: "lru_dead s1 = lru_dead s" by (rule ext) (simp add: lru_dead_def s1_def)
  have "lru_clear_loop s i (Suc n) = lru_clear_loop s1 (Suc i) n"
    using Suc.prems(1) i h(1) by (simp add: s1_def)
  then have "lru_clear_loop s i (Suc n) = Some (s1\<lparr>lr_buckets := Some (replicate (length bs) 0), lr_entries := h2, lr_free := q2,
      lr_destroyed := lr_destroyed s1 @ concat (map (lru_dead s) (lru_items (lr_entries s) (concat (map css [Suc i..<length bs]))))\<rparr>)"
    unfolding h2(1) items dead .
  with h2(2-4) upt show ?case
    by (intro exI [of _ h2] exI [of _ q2] exI [of _ fs2]) (simp add: s1_def)
qed


lemma mset_concat_map: "mset (concat (map f xs)) = (\<Sum>x \<in># mset xs. mset (f x))"
  by (induction xs) auto

lemma mset_chains:
  assumes "lru_rel carrier hp s as bs css fs xs"
  shows "distinct (concat (map css [0..<length bs]))" "mset (concat (map css [0..<length bs])) = mset as"
proof -
  from assms have c: "lru_chains hp (lr_entries s) bs css" and as: "lru_linked bs css = set as" "distinct as" by (auto simp: lru_rel_def)
  have "distinct (concat (map css [0..<n]))" if "n \<le> length bs" for n
    using that
  proof (induction n)
    case (Suc n)
    then have "set (css i) \<inter> set (css n) = {}" if "i < n" for i
      using lru_chainsD(3) [OF c, of i] lru_chainsD(3) [OF c, of n] that by force
    then have "(\<Union>i \<in> {0..<n}. set (css i)) \<inter> set (css n) = {}" by fastforce
    with Suc lru_chainsD(2) [OF c, of n] show ?case by simp
  qed simp
  then show d: "distinct (concat (map css [0..<length bs]))" by simp
  have "set (concat (map css [0..<length bs])) = set as" using as(1) by (auto simp: lru_linked_def atLeast0LessThan)
  then show "mset (concat (map css [0..<length bs])) = mset as" using set_eq_iff_mset_eq_distinct [OF d as(2)] by blast
qed

section \<open>Properties\<close>

text \<open> C27.
  From \<open>init\<close> on a pool of \<open>n\<close> entries, every sequence of put, get, peek, touch, remove and contains gives the
  results of a map that keeps the \<open>n\<close> most recently used keys: a put of a new key into a full cache drops
  exactly the entry whose last use is the oldest.
\<close>

theorem lru_keeps_recent:
  assumes "hashing carrier hp" "lru_pool_memory kp vp base h n" "faithful kp" "faithful vp" "0 < n" "n \<le> SIZE_MAX"
    "length bs = nb" "0 < nb" "nb \<le> 2 ^ 60" "list_all (\<lambda>c. carrier (lru_cmd_key c)) cs"
  shows "\<exists>s s'. lru_init s0 kp vp hp base h n (Some bs) nb fl = Some (Ok, s) \<and>
    recency_run (recency_call (\<lambda>s k v. lru_put s (Some k) (Some v)) (\<lambda>s k. lru_get s (Some k) (Some d)) (\<lambda>s k. lru_peek s (Some k) (Some d))
      (\<lambda>s k. lru_touch s (Some k)) (\<lambda>s k. lru_remove s (Some k)) (\<lambda>s k. lru_contains s (Some k))) s cs =
      Some (fst (recency_spec (key_equal hp) n [] cs), s') \<and>
    lru_holds carrier hp n s' (snd (recency_spec (key_equal hp) n [] cs))"
proof -
  from lru_init_ok [OF assms(2-9)] obtain s where
    s: "lru_init s0 kp vp hp base h n (Some bs) nb fl = Some (Ok, s)" "lru_holds carrier hp n s []" by blast
  have "\<forall>c \<in> set cs. carrier (lru_cmd_key c)" using assms(10) by (simp add: list_all_iff)
  from recency_map.run_refines [OF hashing.lru_recency_map [OF assms(1)] s(2) this, of d] s(1) show ?thesis by auto
qed

definition sample_lru_entries :: "nat \<Rightarrow> (u8, nat) lru_entry option" where
  "sample_lru_entries a = (if a = 1000 \<or> a = 1033 then Some \<lparr>le_hash_next = 9, le_prev = 3, le_next = 7, le_key = 0, le_value = 0\<rparr> else None)"

definition sample_lru :: "(u8, nat) lru_cache" where
  "sample_lru = \<lparr>lr_key_policy = typed_trivial_policy 1 1, lr_value_policy = typed_trivial_policy 8 8, lr_hash = bytes_hash_policy (\<lambda>k. [k]),
     lr_buckets = None, lr_head = 0, lr_tail = 0, lr_free = 0, lr_pool = 0, lr_capacity = 0, lr_bucket_count = 0, lr_size = 0, lr_flags = 0,
     lr_kind = 0, lr_owns_buckets = False, lr_entries = (\<lambda>_. None), lr_destroyed = []\<rparr>"

lemma sample_lru_pool: "lru_pool_memory (typed_trivial_policy 1 1) (typed_trivial_policy 8 8) 1000 sample_lru_entries 2"
proof -
  have "i = 0 \<or> i = 1" if "i < 2" for i :: nat using that by linarith
  then show ?thesis by (force simp: lru_pool_memory_def sample_lru_entries_def SIZE_MAX_def)
qed

theorem lru_keeps_recent_witness:
  "\<exists>s s'. lru_init sample_lru (typed_trivial_policy 1 1) (typed_trivial_policy 8 8) (bytes_hash_policy (\<lambda>k. [k])) 1000 sample_lru_entries 2
      (Some [0, 0]) 2 0 = Some (Ok, s) \<and>
    recency_run (recency_call (\<lambda>s k v. lru_put s (Some k) (Some v)) (\<lambda>s k. lru_get s (Some k) (Some 0)) (\<lambda>s k. lru_peek s (Some k) (Some 0))
      (\<lambda>s k. lru_touch s (Some k)) (\<lambda>s k. lru_remove s (Some k)) (\<lambda>s k. lru_contains s (Some k))) s
      [Lru_put 1 10, Lru_put 2 20, Lru_get 1, Lru_put 3 30, Lru_contains 2, Lru_peek 1, Lru_remove 3] =
    Some ([(Ok, None), (Ok, None), (Ok, Some 10), (Ok, None), (Not_found, None), (Ok, Some 10), (Ok, None)], s')"
proof -
  have hp: "hashing (\<lambda>k. length [k] = 1) (bytes_hash_policy (\<lambda>k :: u8. [k]))" by (rule bytes_hashing.hashing_axioms)
  let ?cs = "[Lru_put 1 10, Lru_put 2 20, Lru_get 1, Lru_put 3 30, Lru_contains 2, Lru_peek 1, Lru_remove 3] :: (u8, nat) lru_cmd list"
  have "fst (recency_spec (key_equal (bytes_hash_policy (\<lambda>k. [k]))) 2 [] ?cs) =
    [(Ok, None), (Ok, None), (Ok, Some 10), (Ok, None), (Not_found, None), (Ok, Some 10), (Ok, None)]"
    by (simp add: entry_of_def entries_but_def sample_hash_eq)
  note spec = this
  have "\<exists>s s'. lru_init sample_lru (typed_trivial_policy 1 1) (typed_trivial_policy 8 8) (bytes_hash_policy (\<lambda>k. [k])) 1000 sample_lru_entries 2
      (Some [0, 0]) 2 0 = Some (Ok, s) \<and>
    recency_run (recency_call (\<lambda>s k v. lru_put s (Some k) (Some v)) (\<lambda>s k. lru_get s (Some k) (Some 0)) (\<lambda>s k. lru_peek s (Some k) (Some 0))
      (\<lambda>s k. lru_touch s (Some k)) (\<lambda>s k. lru_remove s (Some k)) (\<lambda>s k. lru_contains s (Some k))) s ?cs =
    Some (fst (recency_spec (key_equal (bytes_hash_policy (\<lambda>k. [k]))) 2 [] ?cs), s') \<and>
    lru_holds (\<lambda>k. length [k] = 1) (bytes_hash_policy (\<lambda>k. [k])) 2 s' (snd (recency_spec (key_equal (bytes_hash_policy (\<lambda>k. [k]))) 2 [] ?cs))"
    by (rule lru_keeps_recent [OF hp sample_lru_pool]) (simp_all add: SIZE_MAX_def)
  then show ?thesis unfolding spec by blast
qed

text \<open>
  The walks over a well-formed cache end: \<open>foreach_mru\<close> visits the entries from the most to the least recently
  used one, \<open>foreach_lru\<close> the other way round, both up to the first error, and \<open>clear\<close> empties the cache and
  destroys every key and every value exactly once.
\<close>

theorem lru_walks_end:
  assumes "lru_holds carrier hp n s ps"
  shows "lru_foreach_mru s visit w = Some (visit_entries visit ps w) \<and>
    lru_foreach_lru s visit w = Some (visit_entries visit (rev ps) w) \<and>
    (\<exists>s'. lru_clear s = Some s' \<and> lru_holds carrier hp n s' [] \<and>
       mset (lr_destroyed s') = mset (lr_destroyed s) + mset (concat (map (lru_dead s) ps)))"
proof -
  from assms obtain as bs css fs where r: "lru_rel carrier hp s as bs css fs []" and ps: "lru_items (lr_entries s) as = ps"
    and n: "lr_capacity s = n" "0 < n" by (auto simp: lru_holds_def)
  have l: "path (lnx (lr_entries s)) (lr_head s) as 0" "path (lpv (lr_entries s)) (lr_tail s) (rev as) 0"
    using r by (simp_all add: lru_rel_def dpath_def)
  have walks: "lru_foreach_mru s visit w = Some (visit_entries visit ps w)" "lru_foreach_lru s visit w = Some (visit_entries visit (rev ps) w)"
    using lru_foreach_ok [of True s "lr_head s" as visit w] lru_foreach_ok [of False s "lr_tail s" "rev as" visit w] l
    by (simp_all add: lru_foreach_mru_def lru_foreach_lru_def lru_foreach_list_def rev_map ps [symmetric])
  have "\<exists>s'. lru_clear s = Some s' \<and> lru_holds carrier hp n s' [] \<and>
      mset (lr_destroyed s') = mset (lr_destroyed s) + mset (concat (map (lru_dead s) ps))"
  proof (cases "lr_size s = 0")
    case True
    with r ps have "ps = []" by (simp add: lru_rel_def)
    with True assms show ?thesis by (simp add: lru_clear_def)
  next
    case False
    note m = mset_chains [OF r]
    have "set (concat (map css [0..<length bs])) = set as" using mset_eq_setD [OF m(2)] .
    then have d: "distinct (concat (map css [0..<length bs]) @ fs)" using m(1) r by (simp add: lru_rel_def)
    have b: "lr_buckets s = Some bs" "bs \<noteq> []" "lr_bucket_count s = length bs" using r by (auto simp: lru_rel_def)
    from lru_clear_loop_ok [of s bs 0 "length bs" css fs] r d obtain h q fs' where
      c: "lru_clear_loop s 0 (length bs) = Some (s\<lparr>lr_buckets := Some (replicate (length bs) 0), lr_entries := h, lr_free := q,
        lr_destroyed := lr_destroyed s @ concat (map (lru_dead s) (lru_items (lr_entries s) (concat (map css [0..<length bs]))))\<rparr>)"
      "path (lhn h) q fs' 0" "distinct fs'" "length fs' = length fs + length (concat (map css [0..<length bs]))"
      by (auto simp: lru_rel_def lru_chains_def)
    let ?tr = "lr_destroyed s @ concat (map (lru_dead s) (lru_items (lr_entries s) (concat (map css [0..<length bs]))))"
    let ?r = "s\<lparr>lr_buckets := Some (replicate (length bs) 0), lr_entries := h, lr_free := q, lr_destroyed := ?tr, lr_head := 0, lr_tail := 0, lr_size := 0\<rparr>"
    have "lru_rel carrier hp ?r [] (replicate (length bs) 0) (\<lambda>_. []) fs' []"
      using r c(2-4) b(2) mset_eq_length [OF m(2)] by (simp add: lru_rel_def dpath_def lru_chains_def lru_linked_def)
    then have "lru_holds carrier hp n ?r []" unfolding lru_holds_def using n
      by (intro exI [of _ "[]"] exI [of _ "replicate (length bs) 0"] exI [of _ "\<lambda>_. []"] exI [of _ fs']) simp
    moreover have "mset (lru_items (lr_entries s) (concat (map css [0..<length bs]))) = mset ps"
      using m(2) unfolding ps [symmetric] mset_map by simp
    then have "mset (concat (map (lru_dead s) (lru_items (lr_entries s) (concat (map css [0..<length bs]))))) = mset (concat (map (lru_dead s) ps))"
      by (simp only: mset_concat_map)
    moreover have "lru_clear s = Some ?r" using False b(3) c(1) by (simp add: lru_clear_def)
    ultimately show ?thesis by (intro exI [of _ ?r]) simp
  qed
  with walks show ?thesis by blast
qed

theorem lru_walks_end_witness:
  "\<exists>s s'. lru_init sample_lru (typed_trivial_policy 1 1) (typed_trivial_policy 8 8) (bytes_hash_policy (\<lambda>k. [k])) 1000 sample_lru_entries 2
      (Some [0, 0]) 2 0 = Some (Ok, s) \<and> lru_foreach_mru s (\<lambda>k v w. (Ok, w + v)) 0 = Some (Ok, 0) \<and> lru_clear s = Some s' \<and> lr_destroyed s' = []"
proof -
  have "\<exists>s. lru_init sample_lru (typed_trivial_policy 1 1) (typed_trivial_policy 8 8) (bytes_hash_policy (\<lambda>k. [k])) 1000 sample_lru_entries 2
      (Some [0, 0]) 2 0 = Some (Ok, s) \<and> lru_holds (\<lambda>_. True) (bytes_hash_policy (\<lambda>k. [k])) 2 s [] \<and> lr_destroyed s = lr_destroyed sample_lru"
    by (rule lru_init_ok [OF sample_lru_pool]) (simp_all add: SIZE_MAX_def)
  then obtain s where
    s: "lru_init sample_lru (typed_trivial_policy 1 1) (typed_trivial_policy 8 8) (bytes_hash_policy (\<lambda>k. [k])) 1000 sample_lru_entries 2
      (Some [0, 0]) 2 0 = Some (Ok, s)" "lru_holds (\<lambda>_. True) (bytes_hash_policy (\<lambda>k. [k])) 2 s []" "lr_destroyed s = []"
    by (auto simp: sample_lru_def)
  with lru_walks_end [OF s(2), of "\<lambda>k v w. (Ok, w + v)" 0] s(1,3) show ?thesis by auto
qed

section \<open>Losing an entry\<close>

text \<open>The operations that leave the free list and the counters alone.\<close>

definition lru_counts :: "('k, 'v) lru_cache \<Rightarrow> nat \<times> nat \<times> nat" where
  "lru_counts s = (lr_free s, lr_capacity s, lr_size s)"

lemma lru_counts_update: "lru_update s a f = Some s' \<Longrightarrow> lru_counts s' = lru_counts s"
  by (auto simp: lru_update_def lru_counts_def bind_eq_Some_conv)

lemma lru_counts_destroy: "lru_destroy_entry s a = Some s' \<Longrightarrow> lru_counts s' = lru_counts s"
  by (auto simp: lru_destroy_entry_def lru_counts_def bind_eq_Some_conv)

lemma lru_counts_fields [simp]:
  "lru_counts (s\<lparr>lr_head := p\<rparr>) = lru_counts s" "lru_counts (s\<lparr>lr_tail := p\<rparr>) = lru_counts s" "lru_counts (s\<lparr>lr_buckets := m\<rparr>) = lru_counts s"
  "lru_counts (s\<lparr>lr_destroyed := tr\<rparr>) = lru_counts s"
  by (simp_all add: lru_counts_def)

lemma lru_counts_unlink: "lru_unlink s a = Some s' \<Longrightarrow> lru_counts s' = lru_counts s"
  by (auto simp: lru_unlink_def bind_eq_Some_conv dest!: lru_counts_update split: if_splits)

lemma lru_counts_hash_unlink: "lru_hash_unlink s i a p = Some s' \<Longrightarrow> lru_counts s' = lru_counts s"
  by (auto simp: lru_hash_unlink_def bind_eq_Some_conv dest!: lru_counts_update split: if_splits)

lemma lru_counts_fill:
  assumes "lru_fill s a False k v = Some (st, b, i, s')"
  shows "lru_counts s' = lru_counts s"
proof -
  from assms obtain e where e: "lr_entries s a = Some e" by (auto simp: lru_fill_def bind_eq_Some_conv)
  obtain kst k' where k': "copy_construct (lr_key_policy s) (le_key e) k = (kst, k')" by fastforce
  obtain vst v' where v': "copy_construct (lr_value_policy s) (le_value e) v = (vst, v')" by fastforce
  show ?thesis
    using assms e k' v'
    by (cases "ok kst"; cases "ok vst"; cases "ep_destroy (lr_key_policy s)")
       (auto simp: lru_fill_def lru_update_def lru_counts_def bind_eq_Some_conv)
qed

lemma lru_evict_counts:
  assumes "lru_evict s a = Some s'"
  shows "lru_counts s' = (lr_free s, lr_capacity s, sz_sub (lr_size s) 1)"
proof -
  from assms obtain e where e: "lr_entries s a = Some e" by (cases "lr_entries s a") (auto simp: lru_evict_def)
  from assms e obtain f i p where f: "lru_find_entry s (le_key e) = Some (f, i, p)"
    by (cases "lru_find_entry s (le_key e)") (auto simp: lru_evict_def)
  from assms e f have "lru_destroy_entry s a \<bind> (\<lambda>s1. lru_unlink s1 a \<bind> (\<lambda>s2. lru_hash_unlink s2 i a p \<bind>
      (\<lambda>s3. Some (s3\<lparr>lr_size := sz_sub (lr_size s3) 1\<rparr>)))) = Some s'"
    by (simp add: lru_evict_def)
  then obtain s1 s2 s3 where "lru_destroy_entry s a = Some s1" "lru_unlink s1 a = Some s2" "lru_hash_unlink s2 i a p = Some s3"
    "s' = s3\<lparr>lr_size := sz_sub (lr_size s3) 1\<rparr>" unfolding bind_eq_Some_conv by blast
  with lru_counts_destroy [of s a s1] lru_counts_unlink [of s1 a s2] lru_counts_hash_unlink [of s2 i a p s3] show ?thesis
    by (simp add: lru_counts_def)
qed

lemma lru_counts_push_front: "lru_push_front s a = Some s' \<Longrightarrow> lru_counts s' = lru_counts s"
  by (auto simp: lru_push_front_def bind_eq_Some_conv dest!: lru_counts_update split: if_splits)

lemma lru_counts_promote: "lru_promote s a = Some s' \<Longrightarrow> lru_counts s' = lru_counts s"
  by (auto simp: lru_promote_def bind_eq_Some_conv dest!: lru_counts_unlink lru_counts_push_front split: if_splits)

text \<open>A cache below its capacity without a free entry: it takes no new key, and only a removal changes that.\<close>

lemma lru_put_stuck:
  assumes "lr_free s = 0" "lr_size s < lr_capacity s" "lru_find_entry s k = Some (0, i, p)"
  shows "lru_put s (Some k) (Some v) = Some (Full, s)"
  using assms by (simp add: lru_put_def lru_prepare_entry_def lru_acquire_entry_def)

abbreviation lru_client :: "'v \<Rightarrow> ('k, 'v) lru_cache \<Rightarrow> ('k, 'v) lru_cmd \<Rightarrow> (status \<times> 'v option \<times> ('k, 'v) lru_cache) option" where
  "lru_client d \<equiv> recency_call (\<lambda>s k v. lru_put s (Some k) (Some v)) (\<lambda>s k. lru_get s (Some k) (Some d))
     (\<lambda>s k. lru_peek s (Some k) (Some d)) (\<lambda>s k. lru_touch s (Some k)) (\<lambda>s k. lru_remove s (Some k)) (\<lambda>s k. lru_contains s (Some k))"

lemma lru_put_counts:
  assumes "lr_free s = 0" "lr_size s < lr_capacity s" "lru_put s (Some k) (Some v) = Some (st, s')"
  shows "lru_counts s' = lru_counts s"
proof -
  from assms(3) obtain a i p where f: "lru_find_entry s k = Some (a, i, p)"
    by (cases "lru_find_entry s k") (auto simp: lru_put_def)
  show ?thesis
  proof (cases "a = 0")
    case True
    with lru_put_stuck [OF assms(1,2)] f assms(3) show ?thesis by simp
  next
    case False
    with f assms(3) show ?thesis
      by (auto simp: lru_put_def bind_eq_Some_conv split_beta Let_def dest!: lru_counts_update lru_counts_promote split: if_splits)
  qed
qed

lemma lru_client_counts:
  assumes "lr_free s = 0" "lr_size s < lr_capacity s" "\<forall>k. c \<noteq> Lru_remove k" "lru_client d s c = Some (st, out, s')"
  shows "lru_counts s' = lru_counts s"
proof (cases c)
  case (Lru_put k v)
  with assms(4) show ?thesis using lru_put_counts [OF assms(1,2)] by auto
next
  case (Lru_get k)
  with assms(4) show ?thesis
    by (auto simp: lru_get_def bind_eq_Some_conv split_beta Let_def dest!: lru_counts_promote split: if_splits)
next
  case (Lru_touch k)
  with assms(4) show ?thesis
    by (auto simp: lru_touch_def bind_eq_Some_conv split_beta dest!: lru_counts_promote split: if_splits)
qed (use assms(3,4) in auto)

lemma lru_run_counts:
  assumes "lr_free s = 0" "lr_size s < lr_capacity s" "\<forall>c \<in> set cs. \<forall>k. c \<noteq> Lru_remove k" "recency_run (lru_client d) s cs = Some (rs, s')"
  shows "lru_counts s' = lru_counts s"
  using assms
proof (induction cs arbitrary: s rs)
  case (Cons c cs)
  from Cons.prems(4) obtain st out s1 rs1 where s1: "lru_client d s c = Some (st, out, s1)" "recency_run (lru_client d) s1 cs = Some (rs1, s')"
    by (auto simp: bind_eq_Some_conv)
  have "lru_counts s1 = lru_counts s" using Cons.prems(3) s1(1) by (intro lru_client_counts [OF Cons.prems(1,2)]) auto
  with Cons.IH [OF _ _ _ s1(2)] Cons.prems(1-3) show ?case by (simp add: lru_counts_def)
qed simp

text \<open> C28.
  A put that drives out the last entry and then fails to copy the key or the value gives the entry's slot to nobody: the
  cache is one below its capacity with no free entry. Until an entry is removed, whatever sequence of puts, gets, peeks,
  touches and lookups follows, it stays like that and refuses every new key as \<open>full\<close>.
\<close>

theorem lru_failed_eviction_leaks:
  assumes "lr_free s = 0" "lr_tail s \<noteq> 0" "lr_size s = lr_capacity s" "0 < lr_capacity s" "lr_capacity s \<le> SIZE_MAX"
    "lru_find_entry s k = Some (0, i, p)" "lru_put s (Some k) (Some v) = Some (st, s')" "st \<noteq> Ok"
    and later: "\<forall>c \<in> set cs. \<forall>k. c \<noteq> Lru_remove k" "recency_run (lru_client d) s' cs = Some (rs, s'')"
  shows "lr_size s'' = lr_capacity s - 1 \<and> lr_capacity s'' = lr_capacity s \<and>
    (lru_find_entry s'' k' = Some (0, i', p') \<longrightarrow> lru_put s'' (Some k') (Some v') = Some (Full, s''))"
proof -
  have "lru_acquire_entry s = Some (0, s)" using assms(1) by (simp add: lru_acquire_entry_def)
  with assms(2,3,6,7) obtain s1 where e: "lru_evict s (lr_tail s) = Some s1"
    and f: "\<exists>a b. lru_fill s1 (lr_tail s) False k v = Some (st, a, b, s')"
    using assms(8) by (auto simp: lru_put_def lru_prepare_entry_def bind_eq_Some_conv ok_iff Let_def split: if_splits)
  from f obtain a b where "lru_fill s1 (lr_tail s) False k v = Some (st, a, b, s')" by blast
  from lru_counts_fill [OF this] lru_evict_counts [OF e] assms(1,3-5)
  have s': "lr_free s' = 0" "lr_capacity s' = lr_capacity s" "lr_size s' = lr_capacity s - 1" by (simp_all add: lru_counts_def size_simps)
  with assms(4) have "lr_size s' < lr_capacity s'" by simp
  from lru_run_counts [OF s'(1) this later] s'
  have s'': "lr_free s'' = 0" "lr_capacity s'' = lr_capacity s" "lr_size s'' = lr_capacity s - 1" by (simp_all add: lru_counts_def)
  with assms(4) lru_put_stuck [of s'' k' i' p' v'] show ?thesis by simp
qed

text \<open>A cache of one entry whose key callback refuses the key 7.\<close>

definition sample_full_lru :: "(u8, nat) lru_cache" where
  "sample_full_lru = sample_lru\<lparr>lr_key_policy := \<lparr>ep_runtime = True, ep_size = 1, ep_align = 1,
       ep_copy_fn = Some (\<lambda>d s. if s = 7 then (Oom, d) else (Ok, s)), ep_destroy = False, ep_moved = (\<lambda>e. e)\<rparr>,
     lr_buckets := Some [1000], lr_bucket_count := 1, lr_head := 1000, lr_tail := 1000, lr_size := 1, lr_capacity := 1,
     lr_entries := [1000 \<mapsto> \<lparr>le_hash_next = 0, le_prev = 0, le_next = 0, le_key = 5, le_value = 50\<rparr>]\<rparr>"

theorem lru_failed_eviction_leaks_witness:
  "\<exists>s'. lru_put sample_full_lru (Some 7) (Some 70) = Some (Oom, s') \<and>
    recency_run (lru_client 0) s' [Lru_contains 5, Lru_put 8 80] = Some ([(Not_found, None), (Full, None)], s') \<and> lr_size s' = 0 \<and>
    lru_put s' (Some 6) (Some 60) = Some (Full, s')"
proof -
  define s' where "s' = sample_full_lru\<lparr>lr_buckets := Some [0], lr_head := 0, lr_tail := 0, lr_size := 0\<rparr>"
  have find: "lru_find_entry sample_full_lru 7 = Some (0, 0, 1000)"
    unfolding lru_find_entry_def
    by (simp add: sample_full_lru_def sample_lru_def lru_find_loop.simps sample_hash_eq)
  have evict: "lru_find_entry sample_full_lru 5 = Some (1000, 0, 0)"
    unfolding lru_find_entry_def
    by (simp add: sample_full_lru_def sample_lru_def lru_find_loop.simps sample_hash_eq)
  have ev: "lru_evict sample_full_lru 1000 = Some s'"
    using evict
    by (simp add: lru_evict_def lru_destroy_entry_def lru_unlink_def lru_hash_unlink_def lru_update_def sample_full_lru_def sample_lru_def s'_def
        typed_trivial_policy_def size_simps SIZE_MAX_def)
  have fill: "lru_fill s' 1000 False 7 70 = Some (Oom, 0, 0, s')"
    by (simp add: lru_fill_def lru_update_def s'_def sample_full_lru_def copy_construct_def)
  have prep: "lru_prepare_entry sample_full_lru 7 70 = Some (Oom, 0, 0, s')"
    using ev fill by (simp add: lru_prepare_entry_def lru_acquire_entry_def sample_full_lru_def sample_lru_def)
  have put: "lru_put sample_full_lru (Some 7) (Some 70) = Some (Oom, s')" using find prep by (simp add: lru_put_def)
  have absent: "lru_find_entry s' k = Some (0, 0, 0)" for k
    unfolding lru_find_entry_def by (simp add: s'_def sample_full_lru_def lru_find_loop.simps)
  have "lr_free s' = 0" "lr_size s' < lr_capacity s'" by (simp_all add: s'_def sample_full_lru_def sample_lru_def)
  from lru_put_stuck [OF this absent] absent have
    run: "recency_run (lru_client 0) s' [Lru_contains 5, Lru_put 8 80] = Some ([(Not_found, None), (Full, None)], s')"
    by (simp add: lru_contains_def)
  have kept: "\<forall>c \<in> set [Lru_contains 5, Lru_put 8 80]. \<forall>k. c \<noteq> Lru_remove k" by simp
  have pre: "lr_free sample_full_lru = 0" "lr_tail sample_full_lru \<noteq> 0" "lr_size sample_full_lru = lr_capacity sample_full_lru"
    "0 < lr_capacity sample_full_lru" "lr_capacity sample_full_lru \<le> SIZE_MAX"
    by (simp_all add: sample_full_lru_def sample_lru_def SIZE_MAX_def)
  have "lr_capacity sample_full_lru = 1" by (simp add: sample_full_lru_def)
  with lru_failed_eviction_leaks [OF pre find put _ kept run, of 6 0 0 60] absent put run show ?thesis by simp
qed

end
