(* ===== verification/Btree.thy ===== *)
theory Btree
  imports Linked
begin

text \<open>
  \<^verbatim>\<open>include/memkit/detail/btree_map_core.hpp\<close>: a set of elements in a binary search tree (not balanced,
  despite the name), with nodes from a pool, an arena or the heap.

  Nodes live in a store from addresses to nodes, 0 is the null pointer. The code descends with a pointer
  to the pointer it came through (\<open>btree_node_header**\<close>); such a link is the root or a child field of a
  node. \<open>bt_arena\<close> says that an allocator is bound, \<open>bt_destroyed\<close> is the trace of destroyed elements.
\<close>

section \<open>State\<close>

record 'e btree_node =
  bn_left :: nat
  bn_right :: nat
  bn_data :: 'e

record 'e btree_env = "'e node_env" +
  be_arena :: "nat \<Rightarrow> nat \<Rightarrow> status"

record 'e btree =
  bt_policy :: "'e elem_policy"
  bt_compare :: "'e \<Rightarrow> 'e \<Rightarrow> int"
  bt_root :: nat
  bt_free :: nat
  bt_pool :: nat
  bt_size :: nat
  bt_capacity :: nat
  bt_flags :: u8
  bt_kind :: u8
  bt_arena :: bool
  bt_nodes :: "nat \<Rightarrow> 'e btree_node option"
  bt_allocs :: nat
  bt_destroyed :: "'e list"

datatype traversal = Inorder | Preorder | Postorder

definition btree_fixed_pool :: u8 where "btree_fixed_pool = 1"
definition btree_heap_dynamic :: u8 where "btree_heap_dynamic = 2"

definition btree_node_stride :: "nat \<Rightarrow> nat" where
  "btree_node_stride elem_size = sz_add 16 elem_size"

definition btree_pool_bytes :: "nat \<Rightarrow> nat \<Rightarrow> nat" where
  "btree_pool_bytes node_capacity elem_size = sz_mul (btree_node_stride elem_size) node_capacity"

definition btree_is_fixed :: "'e btree \<Rightarrow> bool" where
  "btree_is_fixed s \<longleftrightarrow> bt_flags s AND btree_fixed_pool \<noteq> 0"

definition btree_capacity :: "'e btree \<Rightarrow> nat" where
  "btree_capacity s = (if btree_is_fixed s then bt_capacity s else SIZE_MAX)"

definition btree_empty :: "'e btree \<Rightarrow> bool" where
  "btree_empty s \<longleftrightarrow> bt_size s = 0"

definition btree_full :: "'e btree \<Rightarrow> bool" where
  "btree_full s \<longleftrightarrow> btree_is_fixed s \<and> bt_size s \<ge> bt_capacity s"

definition btree_set_storage_kind :: "'e btree \<Rightarrow> u8 \<Rightarrow> 'e btree" where
  "btree_set_storage_kind s kind = s\<lparr>bt_kind := kind\<rparr>"

definition btree_bind_allocator :: "'e btree \<Rightarrow> 'e btree" where
  "btree_bind_allocator s = s\<lparr>bt_arena := True\<rparr>"

definition btree_unbind_allocator :: "'e btree \<Rightarrow> 'e btree" where
  "btree_unbind_allocator s = s\<lparr>bt_arena := False\<rparr>"

section \<open>Links\<close>

datatype link = Root_link | Left_link nat | Right_link nat

fun read_link :: "'e btree \<Rightarrow> link \<Rightarrow> nat option" where
  "read_link s Root_link = Some (bt_root s)"
| "read_link s (Left_link a) = map_option bn_left (bt_nodes s a)"
| "read_link s (Right_link a) = map_option bn_right (bt_nodes s a)"

definition btree_update :: "'e btree \<Rightarrow> nat \<Rightarrow> ('e btree_node \<Rightarrow> 'e btree_node) \<Rightarrow> 'e btree option" where
  "btree_update s a f = do {
     nd \<leftarrow> bt_nodes s a;
     Some (s\<lparr>bt_nodes := (bt_nodes s)(a \<mapsto> f nd)\<rparr>)
   }"

fun write_link :: "'e btree \<Rightarrow> link \<Rightarrow> nat \<Rightarrow> 'e btree option" where
  "write_link s Root_link p = Some (s\<lparr>bt_root := p\<rparr>)"
| "write_link s (Left_link a) p = btree_update s a (\<lambda>nd. nd\<lparr>bn_left := p\<rparr>)"
| "write_link s (Right_link a) p = btree_update s a (\<lambda>nd. nd\<lparr>bn_right := p\<rparr>)"

section \<open>Initialisation\<close>

definition btree_pool_node_at :: "'e btree \<Rightarrow> nat \<Rightarrow> nat" where
  "btree_pool_node_at s index = sz_add (bt_pool s) (sz_mul index (btree_node_stride (ep_size (bt_policy s))))"

fun btree_free_loop :: "'e btree \<Rightarrow> nat \<Rightarrow> nat \<Rightarrow> 'e btree option" where
  "btree_free_loop s i 0 = Some s"
| "btree_free_loop s i (Suc n) = do {
     let slot = btree_pool_node_at s i;
     s1 \<leftarrow> btree_update s slot (\<lambda>nd. nd\<lparr>bn_left := bt_free s, bn_right := 0\<rparr>);
     btree_free_loop (s1\<lparr>bt_free := slot\<rparr>) (Suc i) n
   }"

definition btree_init_free_list :: "'e btree \<Rightarrow> (status \<times> 'e btree) option" where
  "btree_init_free_list s = do {
     s' \<leftarrow> btree_free_loop (s\<lparr>bt_free := 0\<rparr>) 0 (bt_capacity s);
     Some (Ok, s')
   }"

text \<open>\<open>nodes\<close> is the memory of the pool, whatever it holds.\<close>

definition btree_init ::
  "'e btree \<Rightarrow> 'e elem_policy \<Rightarrow> ('e \<Rightarrow> 'e \<Rightarrow> int) \<Rightarrow> nat \<Rightarrow> (nat \<Rightarrow> 'e btree_node option) \<Rightarrow> nat \<Rightarrow> u8 \<Rightarrow> (status \<times> 'e btree) option" where
  "btree_init s policy compare node_pool nodes node_capacity flags =
     (if node_pool = 0 \<or> node_capacity = 0 then Some (Invalid, s)
      else btree_init_free_list (s\<lparr>bt_policy := policy, bt_compare := compare, bt_pool := node_pool, bt_nodes := nodes,
             bt_capacity := node_capacity, bt_root := 0, bt_size := 0, bt_flags := flags, bt_kind := 0\<rparr>))"

definition btree_init_dynamic :: "'e btree \<Rightarrow> 'e elem_policy \<Rightarrow> ('e \<Rightarrow> 'e \<Rightarrow> int) \<Rightarrow> status \<times> 'e btree" where
  "btree_init_dynamic s policy compare =
     (Ok, s\<lparr>bt_policy := policy, bt_compare := compare, bt_pool := 0, bt_capacity := 0, bt_root := 0, bt_free := 0, bt_size := 0,
            bt_flags := btree_heap_dynamic, bt_kind := 0\<rparr>)"

definition btree_init_from_arena :: "'e btree \<Rightarrow> 'e elem_policy \<Rightarrow> ('e \<Rightarrow> 'e \<Rightarrow> int) \<Rightarrow> status \<times> 'e btree" where
  "btree_init_from_arena s policy compare =
     (let (st, s1) = btree_init_dynamic s policy compare in
      if \<not> ok st then (st, s1) else (Ok, (btree_bind_allocator s1)\<lparr>bt_kind := 2\<rparr>))"

definition btree_reset_state :: "'e elem_policy \<Rightarrow> ('e \<Rightarrow> 'e \<Rightarrow> int) \<Rightarrow> 'e btree \<Rightarrow> 'e btree" where
  "btree_reset_state default_policy default_compare s =
     btree_unbind_allocator (s\<lparr>bt_policy := default_policy, bt_compare := default_compare, bt_root := 0, bt_free := 0, bt_size := 0,
       bt_capacity := 0, bt_pool := 0, bt_flags := 0, bt_kind := 0\<rparr>)"

section \<open>Nodes\<close>

definition btree_acquire_node :: "('e, 'z) btree_env_scheme \<Rightarrow> 'e btree \<Rightarrow> (status \<times> nat \<times> 'e btree) option" where
  "btree_acquire_node env s =
     (let slot = Suc (bt_allocs s); node = \<lparr>bn_left = 0, bn_right = 0, bn_data = ne_junk env\<rparr>;
          fresh = s\<lparr>bt_allocs := slot, bt_nodes := (bt_nodes s)(slot \<mapsto> node)\<rparr>;
          bytes = btree_node_stride (ep_size (bt_policy s)) in
      if btree_is_fixed s then
        (if bt_free s = 0 then Some (Full, 0, s)
         else do {
           let slot = bt_free s;
           nd \<leftarrow> bt_nodes s slot;
           s1 \<leftarrow> btree_update (s\<lparr>bt_free := bn_left nd\<rparr>) slot (\<lambda>nd. nd\<lparr>bn_left := 0, bn_right := 0\<rparr>);
           Some (Ok, slot, s1)
         })
      else if bt_arena s then
        (let st = be_arena env (bt_allocs s) bytes in
         if \<not> ok st then Some (st, 0, s\<lparr>bt_allocs := slot\<rparr>) else Some (Ok, slot, fresh))
      else if \<not> ne_allow_heap env then Some (Unsupported, 0, s)
      else if \<not> ne_malloc env (bt_allocs s) bytes then Some (Oom, 0, s\<lparr>bt_allocs := slot\<rparr>)
      else Some (Ok, slot, fresh))"

definition btree_release_node :: "('e, 'z) btree_env_scheme \<Rightarrow> 'e btree \<Rightarrow> nat \<Rightarrow> 'e btree option" where
  "btree_release_node env s slot =
     (if slot = 0 then Some s
      else if btree_is_fixed s then do {
        s1 \<leftarrow> btree_update s slot (\<lambda>nd. nd\<lparr>bn_left := bt_free s, bn_right := 0\<rparr>);
        Some (s1\<lparr>bt_free := slot\<rparr>)
      }
      else if ne_allow_heap env \<and> \<not> bt_arena s then
        (if bt_nodes s slot = None then None else Some (s\<lparr>bt_nodes := (bt_nodes s)(slot := None)\<rparr>))
      else Some s)"

definition btree_make_node :: "('e, 'z) btree_env_scheme \<Rightarrow> 'e btree \<Rightarrow> 'e \<Rightarrow> (status \<times> nat \<times> 'e btree) option" where
  "btree_make_node env s elem = do {
     (st, slot, s1) \<leftarrow> btree_acquire_node env s;
     if \<not> ok st then Some (st, 0, s1)
     else do {
       nd \<leftarrow> bt_nodes s1 slot;
       let (cst, v) = copy_construct (bt_policy s1) (bn_data nd) elem;
       s2 \<leftarrow> btree_update s1 slot (\<lambda>nd. nd\<lparr>bn_data := v\<rparr>);
       if \<not> ok cst then do {
         s3 \<leftarrow> btree_release_node env s2 slot;
         Some (cst, 0, s3)
       }
       else Some (Ok, slot, s2)
     }
   }"

definition btree_destroy_node_value :: "'e btree \<Rightarrow> nat \<Rightarrow> 'e btree option" where
  "btree_destroy_node_value s slot =
     (if needs_destroy_on_clear (bt_policy s) then do {
        nd \<leftarrow> bt_nodes s slot;
        Some (s\<lparr>bt_destroyed := destroy (bt_policy s) (bn_data nd) (bt_destroyed s)\<rparr>)
      }
      else Some s)"

section \<open>Searching, inserting, removing\<close>

partial_function (option) btree_find_loop :: "'e btree \<Rightarrow> 'e \<Rightarrow> nat \<Rightarrow> nat option" where
  "btree_find_loop s key current =
     (if current = 0 then Some 0
      else do {
        nd \<leftarrow> bt_nodes s current;
        let cmp = bt_compare s key (bn_data nd);
        if cmp = 0 then Some current
        else btree_find_loop s key (if cmp < 0 then bn_left nd else bn_right nd)
      })"

definition btree_find_node :: "'e btree \<Rightarrow> 'e \<Rightarrow> nat option" where
  "btree_find_node s key = btree_find_loop s key (bt_root s)"

partial_function (option) btree_insert_node ::
  "('e, 'z) btree_env_scheme \<Rightarrow> 'e btree \<Rightarrow> link \<Rightarrow> 'e \<Rightarrow> (status \<times> bool \<times> 'e btree) option" where
  "btree_insert_node env s l elem = do {
     p \<leftarrow> read_link s l;
     if p = 0 then do {
       (st, slot, s1) \<leftarrow> btree_make_node env s elem;
       if \<not> ok st then Some (st, False, s1)
       else do {
         s2 \<leftarrow> write_link s1 l slot;
         Some (Ok, True, s2)
       }
     }
     else do {
       nd \<leftarrow> bt_nodes s p;
       let cmp = bt_compare s elem (bn_data nd);
       if cmp = 0 then do {
         s1 \<leftarrow> btree_update s p (\<lambda>nd. nd\<lparr>bn_data := copy_assign (bt_policy s) (bn_data nd) elem\<rparr>);
         Some (Ok, False, s1)
       }
       else if cmp < 0 then btree_insert_node env s (Left_link p) elem
       else btree_insert_node env s (Right_link p) elem
     }
   }"

text \<open>The link to the leftmost node below \<open>l\<close>.\<close>

partial_function (option) btree_succ_link :: "'e btree \<Rightarrow> link \<Rightarrow> link option" where
  "btree_succ_link s l = do {
     p \<leftarrow> read_link s l;
     nd \<leftarrow> bt_nodes s p;
     if bn_left nd = 0 then Some l else btree_succ_link s (Left_link p)
   }"

text \<open>Removing a node with two children: its successor is unlinked and copied over it.\<close>

definition btree_remove_inner :: "('e, 'z) btree_env_scheme \<Rightarrow> 'e btree \<Rightarrow> nat \<Rightarrow> (status \<times> bool \<times> 'e btree) option" where
  "btree_remove_inner env s target = do {
     succ_link \<leftarrow> btree_succ_link s (Right_link target);
     successor \<leftarrow> read_link s succ_link;
     saved_right \<leftarrow> read_link s (Right_link successor);
     s1 \<leftarrow> write_link s succ_link saved_right;
     td \<leftarrow> bt_nodes s1 target;
     sd \<leftarrow> bt_nodes s1 successor;
     let (st, v) = copy_construct (bt_policy s1) (bn_data td) (bn_data sd);
     s2 \<leftarrow> btree_update s1 target (\<lambda>nd. nd\<lparr>bn_data := v\<rparr>);
     if \<not> ok st then do {
       s3 \<leftarrow> write_link s2 (Right_link successor) saved_right;
       s4 \<leftarrow> write_link s3 succ_link successor;
       Some (st, False, s4)
     }
     else do {
       s3 \<leftarrow> btree_destroy_node_value s2 successor;
       s4 \<leftarrow> btree_release_node env s3 successor;
       Some (Ok, True, s4)
     }
   }"

partial_function (option) btree_remove_node ::
  "('e, 'z) btree_env_scheme \<Rightarrow> 'e btree \<Rightarrow> link \<Rightarrow> 'e \<Rightarrow> (status \<times> bool \<times> 'e btree) option" where
  "btree_remove_node env s l key = do {
     p \<leftarrow> read_link s l;
     if p = 0 then Some (Not_found, False, s)
     else do {
       nd \<leftarrow> bt_nodes s p;
       let cmp = bt_compare s key (bn_data nd);
       if cmp < 0 then btree_remove_node env s (Left_link p) key
       else if cmp > 0 then btree_remove_node env s (Right_link p) key
       else if bn_left nd \<noteq> 0 \<and> bn_right nd \<noteq> 0 then btree_remove_inner env s p
       else do {
         s1 \<leftarrow> write_link s l (if bn_left nd \<noteq> 0 then bn_left nd else bn_right nd);
         s2 \<leftarrow> btree_destroy_node_value s1 p;
         s3 \<leftarrow> btree_release_node env s2 p;
         Some (Ok, True, s3)
       }
     }
   }"

section \<open>Operations\<close>

definition btree_insert :: "('e, 'z) btree_env_scheme \<Rightarrow> 'e btree \<Rightarrow> 'e option \<Rightarrow> (status \<times> 'e btree) option" where
  "btree_insert env s elem =
     (case elem of None \<Rightarrow> Some (Null_ptr, s)
      | Some e \<Rightarrow> do {
          (st, inserted, s1) \<leftarrow> btree_insert_node env s Root_link e;
          Some (st, if ok st \<and> inserted then s1\<lparr>bt_size := sz_add (bt_size s1) 1\<rparr> else s1)
        })"

definition btree_get :: "'e btree \<Rightarrow> 'e option \<Rightarrow> 'e option \<Rightarrow> (status \<times> 'e option) option" where
  "btree_get s key out =
     (case key of None \<Rightarrow> Some (Null_ptr, out)
      | Some k \<Rightarrow>
          (if out = None then Some (Null_ptr, out)
           else do {
             p \<leftarrow> btree_find_node s k;
             if p = 0 then Some (Not_found, out)
             else do {
               nd \<leftarrow> bt_nodes s p;
               Some (Ok, Some (bn_data nd))
             }
           }))"

definition btree_contains :: "'e btree \<Rightarrow> 'e option \<Rightarrow> bool option" where
  "btree_contains s key =
     (case key of None \<Rightarrow> Some False
      | Some k \<Rightarrow> do {
          p \<leftarrow> btree_find_node s k;
          Some (p \<noteq> 0)
        })"

definition btree_remove :: "('e, 'z) btree_env_scheme \<Rightarrow> 'e btree \<Rightarrow> 'e option \<Rightarrow> (status \<times> 'e btree) option" where
  "btree_remove env s key =
     (case key of None \<Rightarrow> Some (Null_ptr, s)
      | Some k \<Rightarrow> do {
          (st, removed, s1) \<leftarrow> btree_remove_node env s Root_link k;
          if \<not> ok st then Some (st, s1)
          else Some (Ok, if removed then s1\<lparr>bt_size := sz_sub (bt_size s1) 1\<rparr> else s1)
        })"

partial_function (option) btree_min_loop :: "'e btree \<Rightarrow> nat \<Rightarrow> nat option" where
  "btree_min_loop s node = do {
     nd \<leftarrow> bt_nodes s node;
     if bn_left nd \<noteq> 0 then btree_min_loop s (bn_left nd) else Some node
   }"

partial_function (option) btree_max_loop :: "'e btree \<Rightarrow> nat \<Rightarrow> nat option" where
  "btree_max_loop s node = do {
     nd \<leftarrow> bt_nodes s node;
     if bn_right nd \<noteq> 0 then btree_max_loop s (bn_right nd) else Some node
   }"

definition btree_peek_min :: "'e btree \<Rightarrow> 'e option \<Rightarrow> (status \<times> 'e option) option" where
  "btree_peek_min s out =
     (if out = None then Some (Null_ptr, out)
      else if btree_empty s then Some (Empty, out)
      else do {
        p \<leftarrow> btree_min_loop s (bt_root s);
        nd \<leftarrow> bt_nodes s p;
        Some (Ok, Some (bn_data nd))
      })"

definition btree_peek_max :: "'e btree \<Rightarrow> 'e option \<Rightarrow> (status \<times> 'e option) option" where
  "btree_peek_max s out =
     (if out = None then Some (Null_ptr, out)
      else if btree_empty s then Some (Empty, out)
      else do {
        p \<leftarrow> btree_max_loop s (bt_root s);
        nd \<leftarrow> bt_nodes s p;
        Some (Ok, Some (bn_data nd))
      })"

partial_function (option) btree_clear_subtree :: "('e, 'z) btree_env_scheme \<Rightarrow> 'e btree \<Rightarrow> nat \<Rightarrow> 'e btree option" where
  "btree_clear_subtree env s current =
     (if current = 0 then Some s
      else do {
        nd \<leftarrow> bt_nodes s current;
        s1 \<leftarrow> btree_clear_subtree env s (bn_left nd);
        nd1 \<leftarrow> bt_nodes s1 current;
        s2 \<leftarrow> btree_clear_subtree env s1 (bn_right nd1);
        s3 \<leftarrow> btree_destroy_node_value s2 current;
        btree_release_node env s3 current
      })"

definition btree_clear :: "('e, 'z) btree_env_scheme \<Rightarrow> 'e btree \<Rightarrow> 'e btree option" where
  "btree_clear env s = do {
     s1 \<leftarrow> (if bt_root s \<noteq> 0 then do {
              s1 \<leftarrow> btree_clear_subtree env s (bt_root s);
              Some (s1\<lparr>bt_root := 0\<rparr>)
            }
            else Some s);
     let s2 = s1\<lparr>bt_size := 0\<rparr>;
     if btree_is_fixed s2 \<and> bt_pool s2 \<noteq> 0 then map_option snd (btree_init_free_list s2) else Some s2
   }"

partial_function (option) btree_traverse ::
  "'e btree \<Rightarrow> traversal \<Rightarrow> ('e \<Rightarrow> 'w \<Rightarrow> status \<times> 'w) \<Rightarrow> nat \<Rightarrow> 'w \<Rightarrow> (status \<times> 'w) option" where
  "btree_traverse s order visit current w =
     (if current = 0 then Some (Ok, w)
      else do {
        nd \<leftarrow> bt_nodes s current;
        let (st1, w1) = (if order = Preorder then visit (bn_data nd) w else (Ok, w));
        if \<not> ok st1 then Some (st1, w1)
        else do {
          (st2, w2) \<leftarrow> btree_traverse s order visit (bn_left nd) w1;
          if \<not> ok st2 then Some (st2, w2)
          else do {
            let (st3, w3) = (if order = Inorder then visit (bn_data nd) w2 else (Ok, w2));
            if \<not> ok st3 then Some (st3, w3)
            else do {
              (st4, w4) \<leftarrow> btree_traverse s order visit (bn_right nd) w3;
              if \<not> ok st4 then Some (st4, w4)
              else if order = Postorder then Some (visit (bn_data nd) w4)
              else Some (Ok, w4)
            }
          }
        }
      })"

definition btree_foreach :: "'e btree \<Rightarrow> traversal \<Rightarrow> ('e \<Rightarrow> 'w \<Rightarrow> status \<times> 'w) \<Rightarrow> 'w \<Rightarrow> (status \<times> 'w) option" where
  "btree_foreach s order visit w = btree_traverse s order visit (bt_root s) w"

end
