(* ===== verification/Simulation.thy ===== *)
theory Simulation
  imports Prelude
begin

text \<open>
  Runs of calls against an abstract specification. A container refines its specification when every call
  has the result of the abstract step; the results of whole runs follow once for all containers.

  \<open>holds m s a\<close> says that the state \<open>s\<close> stands for the abstract value \<open>a\<close> and can take \<open>m\<close> more units of
  growth (calls that make a counter or an address advance); \<open>cost\<close> is what a call uses up.
\<close>

fun sim_run :: "('s \<Rightarrow> 'c \<Rightarrow> (status \<times> 'o option \<times> 's) option) \<Rightarrow> 's \<Rightarrow> 'c list \<Rightarrow> ((status \<times> 'o option) list \<times> 's) option" where
  "sim_run call s [] = Some ([], s)"
| "sim_run call s (c # cs) = do {
     (st, out, s1) \<leftarrow> call s c;
     (rs, s2) \<leftarrow> sim_run call s1 cs;
     Some ((st, if st = Ok then out else None) # rs, s2)
   }"

fun sim_spec :: "('a \<Rightarrow> 'c \<Rightarrow> status \<times> 'o option \<times> 'a) \<Rightarrow> 'a \<Rightarrow> 'c list \<Rightarrow> (status \<times> 'o option) list \<times> 'a" where
  "sim_spec step a [] = ([], a)"
| "sim_spec step a (c # cs) =
     (let (st, out, a1) = step a c; (rs, a2) = sim_spec step a1 cs in ((st, if st = Ok then out else None) # rs, a2))"

definition sim_meets :: "('s \<Rightarrow> 'a \<Rightarrow> bool) \<Rightarrow> status \<times> 'o option \<times> 'a \<Rightarrow> (status \<times> 'o option \<times> 's) option \<Rightarrow> bool" where
  "sim_meets holds r call \<longleftrightarrow>
     (\<exists>st out s' out' a'. call = Some (st, out, s') \<and> r = (st, out', a') \<and> (st = Ok \<longrightarrow> out' = out) \<and> holds s' a')"

lemma sim_meetsI:
  "call = Some (st, out, s') \<Longrightarrow> r = (st, out', a') \<Longrightarrow> (st = Ok \<Longrightarrow> out' = out) \<Longrightarrow> holds s' a' \<Longrightarrow> sim_meets holds r call"
  by (auto simp: sim_meets_def)

text \<open>A call without an output, and a call that leaves the state alone.\<close>

abbreviation no_out :: "(status \<times> 's) option \<Rightarrow> (status \<times> 'o option \<times> 's) option" where
  "no_out \<equiv> map_option (\<lambda>(st, s'). (st, None, s'))"

abbreviation reading :: "'s \<Rightarrow> (status \<times> 'o option) option \<Rightarrow> (status \<times> 'o option \<times> 's) option" where
  "reading s \<equiv> map_option (\<lambda>(st, out). (st, out, s))"

locale simulation =
  fixes good :: "'c \<Rightarrow> bool" and cost :: "'c \<Rightarrow> nat" and step :: "'a \<Rightarrow> 'c \<Rightarrow> status \<times> 'o option \<times> 'a"
    and call :: "'s \<Rightarrow> 'c \<Rightarrow> (status \<times> 'o option \<times> 's) option" and holds :: "nat \<Rightarrow> 's \<Rightarrow> 'a \<Rightarrow> bool"
  assumes call_law: "holds (cost c + m) s a \<Longrightarrow> good c \<Longrightarrow> sim_meets (holds m) (step a c) (call s c)"
begin

lemma run_refines:
  assumes "holds (sum_list (map cost cs) + m) s a" "\<forall>c \<in> set cs. good c"
  shows "\<exists>s'. sim_run call s cs = Some (fst (sim_spec step a cs), s') \<and> holds m s' (snd (sim_spec step a cs))"
  using assms
proof (induction cs arbitrary: s a)
  case (Cons c cs)
  have "holds (cost c + (sum_list (map cost cs) + m)) s a" using Cons.prems(1) by (simp add: add.assoc)
  from call_law [OF this] Cons.prems(2) obtain st out s1 out1 a1 where
    s1: "call s c = Some (st, out, s1)" "step a c = (st, out1, a1)" "st = Ok \<longrightarrow> out1 = out" "holds (sum_list (map cost cs) + m) s1 a1"
    unfolding sim_meets_def by auto
  from Cons.IH [OF s1(4)] Cons.prems(2) s1(1-3) show ?case by (auto simp: split_beta)
qed simp

text \<open>No call of a run is undefined, and none but the last sees a state that stands for nothing.\<close>

lemma run_safe:
  assumes "holds (sum_list (map cost cs) + m) s a" "\<forall>c \<in> set cs. good c"
  shows "sim_run call s cs \<noteq> None"
  using run_refines [OF assms] by blast

end

end
