(* ===== verification/Btree_Correct.thy ===== *)
theory Btree_Correct
  imports Btree Contracts Simulation "HOL-Library.Tree"
begin

text \<open>
  The nodes of the search tree form a tree in the mathematical sense, every link of it is read once, and
  the operations are those of a sorted list of distinct elements. A subtree is reached through a context
  (the frames above it), so that a change below a link leaves the rest of the tree alone.
\<close>

section \<open>Trees in the store\<close>

declare read_link.simps [simp del]

definition bdata :: "'e btree \<Rightarrow> nat \<Rightarrow> 'e option" where
  "bdata s a = map_option bn_data (bt_nodes s a)"

fun owner :: "link \<Rightarrow> nat option" where
  "owner Root_link = None"
| "owner (Left_link a) = Some a"
| "owner (Right_link a) = Some a"

fun tree_at :: "'e btree \<Rightarrow> link \<Rightarrow> (nat \<times> 'e) tree \<Rightarrow> bool" where
  "tree_at s l \<langle>\<rangle> \<longleftrightarrow> read_link s l = Some 0"
| "tree_at s l \<langle>L, (a, x), R\<rangle> \<longleftrightarrow> read_link s l = Some a \<and> a \<noteq> 0 \<and> bdata s a = Some x \<and> tree_at s (Left_link a) L \<and> tree_at s (Right_link a) R"

abbreviation addrs :: "(nat \<times> 'e) tree \<Rightarrow> nat list" where
  "addrs t \<equiv> map fst (inorder t)"

abbreviation elems :: "(nat \<times> 'e) tree \<Rightarrow> 'e list" where
  "elems t \<equiv> map snd (inorder t)"

fun tnodes :: "(nat \<times> 'e) tree \<Rightarrow> nat set" where
  "tnodes \<langle>\<rangle> = {}"
| "tnodes \<langle>L, ax, R\<rangle> = insert (fst ax) (tnodes L \<union> tnodes R)"

lemma tnodes_set [simp]: "fst ` set_tree t = tnodes t"
  by (induction t) (auto simp: image_Un)

lemma tree_at_Node:
  "tree_at s l \<langle>L, ax, R\<rangle> \<longleftrightarrow> read_link s l = Some (fst ax) \<and> fst ax \<noteq> 0 \<and> bdata s (fst ax) = Some (snd ax) \<and>
     tree_at s (Left_link (fst ax)) L \<and> tree_at s (Right_link (fst ax)) R"
  by (cases ax) (simp)

lemma tree_at_null: "tree_at s l t \<Longrightarrow> read_link s l = Some 0 \<longleftrightarrow> t = \<langle>\<rangle>"
  by (cases t) (auto simp: tree_at_Node)

text \<open>\<open>keeps A s s'\<close>: the nodes \<open>A\<close> have kept their links and their data.\<close>

definition keeps :: "nat set \<Rightarrow> 'e btree \<Rightarrow> 'e btree \<Rightarrow> bool" where
  "keeps A s s' \<longleftrightarrow> (\<forall>a \<in> A. read_link s' (Left_link a) = read_link s (Left_link a) \<and>
     read_link s' (Right_link a) = read_link s (Right_link a) \<and> bdata s' a = bdata s a)"

lemma keepsD:
  "keeps A s s' \<Longrightarrow> a \<in> A \<Longrightarrow> read_link s' (Left_link a) = read_link s (Left_link a)"
  "keeps A s s' \<Longrightarrow> a \<in> A \<Longrightarrow> read_link s' (Right_link a) = read_link s (Right_link a)"
  "keeps A s s' \<Longrightarrow> a \<in> A \<Longrightarrow> bdata s' a = bdata s a"
  by (simp_all add: keeps_def)

lemma keeps_trans: "keeps A s s' \<Longrightarrow> keeps A s' s'' \<Longrightarrow> keeps A s s''"
  by (simp add: keeps_def)

lemma keeps_mono: "keeps B s s' \<Longrightarrow> A \<subseteq> B \<Longrightarrow> keeps A s s'"
  by (auto simp: keeps_def)

lemma keeps_node:
  assumes "keeps (tnodes \<langle>L, ax, R\<rangle>) s s'"
  shows "keeps {fst ax} s s'" "keeps (tnodes L) s s'" "keeps (tnodes R) s s'"
  using assms by (auto elim!: keeps_mono)

lemma tree_frame:
  "tree_at s l t \<Longrightarrow> keeps (tnodes t) s s' \<Longrightarrow> read_link s' l' = read_link s l \<Longrightarrow> tree_at s' l' t"
proof (induction t arbitrary: l l')
  case (Node L ax R)
  note k = keeps_node [OF Node.prems(2)]
  note n = keepsD [OF k(1), of "fst ax", simplified]
  from Node.prems(1,3) Node.IH(1) [OF _ k(2), of "Left_link (fst ax)" "Left_link (fst ax)"] Node.IH(2) [OF _ k(3), of "Right_link (fst ax)" "Right_link (fst ax)"] n
  show ?case by (simp add: tree_at_Node)
qed simp

lemma tree_nodes: "tree_at s l t \<Longrightarrow> a \<in> tnodes t \<Longrightarrow> a \<noteq> 0 \<and> (\<exists>nd. bt_nodes s a = Some nd)"
  by (induction t arbitrary: l) (auto simp: tree_at_Node bdata_def)

text \<open>Reading a link and a node, as the code does it.\<close>

lemma tree_at_node:
  assumes "tree_at s l \<langle>L, (a, x), R\<rangle>"
  obtains nd where "read_link s l = Some a" "a \<noteq> 0" "bt_nodes s a = Some nd" "bn_data nd = x"
    "tree_at s (Left_link a) L" "tree_at s (Right_link a) R" "bn_left nd = 0 \<longleftrightarrow> L = \<langle>\<rangle>" "bn_right nd = 0 \<longleftrightarrow> R = \<langle>\<rangle>"
proof -
  from assms obtain nd where nd: "read_link s l = Some a" "a \<noteq> 0" "bt_nodes s a = Some nd" "bn_data nd = x"
    "tree_at s (Left_link a) L" "tree_at s (Right_link a) R" by (auto simp: bdata_def)
  moreover have "bn_left nd = 0 \<longleftrightarrow> L = \<langle>\<rangle>" using nd(3) tree_at_null [OF nd(5)] by (simp add: read_link.simps)
  moreover have "bn_right nd = 0 \<longleftrightarrow> R = \<langle>\<rangle>" using nd(3) tree_at_null [OF nd(6)] by (simp add: read_link.simps)
  ultimately show thesis by (rule that)
qed

section \<open>Contexts\<close>

datatype 'e frame = Go_left nat 'e "(nat \<times> 'e) tree" | Go_right "(nat \<times> 'e) tree" nat 'e

fun plug :: "'e frame list \<Rightarrow> (nat \<times> 'e) tree \<Rightarrow> (nat \<times> 'e) tree" where
  "plug [] t = t"
| "plug (Go_left b x R # fs) t = \<langle>plug fs t, (b, x), R\<rangle>"
| "plug (Go_right L b x # fs) t = \<langle>L, (b, x), plug fs t\<rangle>"

fun before :: "'e frame list \<Rightarrow> (nat \<times> 'e) list" where
  "before [] = []"
| "before (Go_left b x R # fs) = before fs"
| "before (Go_right L b x # fs) = inorder L @ (b, x) # before fs"

fun after :: "'e frame list \<Rightarrow> (nat \<times> 'e) list" where
  "after [] = []"
| "after (Go_left b x R # fs) = after fs @ (b, x) # inorder R"
| "after (Go_right L b x # fs) = after fs"

fun hole :: "link \<Rightarrow> 'e frame list \<Rightarrow> link" where
  "hole l [] = l"
| "hole l (Go_left b x R # fs) = hole (Left_link b) fs"
| "hole l (Go_right L b x # fs) = hole (Right_link b) fs"

fun ctx_at :: "'e btree \<Rightarrow> link \<Rightarrow> 'e frame list \<Rightarrow> bool" where
  "ctx_at s l [] \<longleftrightarrow> True"
| "ctx_at s l (Go_left b x R # fs) \<longleftrightarrow> read_link s l = Some b \<and> b \<noteq> 0 \<and> bdata s b = Some x \<and> tree_at s (Right_link b) R \<and> ctx_at s (Left_link b) fs"
| "ctx_at s l (Go_right L b x # fs) \<longleftrightarrow> read_link s l = Some b \<and> b \<noteq> 0 \<and> bdata s b = Some x \<and> tree_at s (Left_link b) L \<and> ctx_at s (Right_link b) fs"

fun ctx_nodes :: "'e frame list \<Rightarrow> nat set" where
  "ctx_nodes [] = {}"
| "ctx_nodes (Go_left b x R # fs) = insert b (tnodes R \<union> ctx_nodes fs)"
| "ctx_nodes (Go_right L b x # fs) = insert b (tnodes L \<union> ctx_nodes fs)"

lemma ctx_nodes_eq: "ctx_nodes fs = fst ` (set (before fs) \<union> set (after fs))"
  by (induction fs rule: before.induct) (auto simp: image_Un)

abbreviation ctx_distinct :: "'e frame list \<Rightarrow> bool" where
  "ctx_distinct fs \<equiv> distinct (map fst (before fs @ after fs))"

lemma ctx_distinctD:
  "ctx_distinct (Go_left b x R # fs) \<Longrightarrow> b \<notin> ctx_nodes fs \<and> b \<notin> tnodes R \<and> tnodes R \<inter> ctx_nodes fs = {} \<and> ctx_distinct fs"
  "ctx_distinct (Go_right L b x # fs) \<Longrightarrow> b \<notin> ctx_nodes fs \<and> b \<notin> tnodes L \<and> tnodes L \<inter> ctx_nodes fs = {} \<and> ctx_distinct fs"
  by (auto simp: ctx_nodes_eq image_Un)

lemma inorder_plug [simp]: "inorder (plug fs t) = before fs @ inorder t @ after fs"
  by (induction fs t rule: plug.induct) auto

lemma tree_plug: "tree_at s l (plug fs t) \<longleftrightarrow> ctx_at s l fs \<and> tree_at s (hole l fs) t"
  by (induction fs arbitrary: l rule: before.induct) (auto)

lemma hole_in: "hole l fs = l \<and> fs = [] \<or> (\<exists>a \<in> ctx_nodes fs. owner (hole l fs) = Some a)"
proof (induction fs arbitrary: l rule: before.induct)
  case (2 b x R fs)
  from 2 [of "Left_link b"] show ?case by auto
next
  case (3 L b x fs)
  from 3 [of "Right_link b"] show ?case by auto
qed simp

lemma hole_other: "owner k = Some a \<Longrightarrow> a \<notin> ctx_nodes fs \<Longrightarrow> k \<noteq> l \<Longrightarrow> k \<noteq> hole l fs"
  using hole_in [of l fs] by auto

lemma hole_inner:
  assumes "owner l = None \<or> the (owner l) \<notin> insert b (ctx_nodes fs)" "owner l' = Some b"
  shows "l \<noteq> hole l' fs"
proof
  assume "l = hole l' fs"
  with hole_in [of l' fs] assms(2) have "owner l = Some b \<or> (\<exists>a \<in> ctx_nodes fs. owner l = Some a)" by auto
  with assms(1) show False by auto
qed

text \<open>A context stays when only its hole and nodes outside it change.\<close>

definition ctx_keeps :: "link \<Rightarrow> 'e frame list \<Rightarrow> link \<Rightarrow> 'e btree \<Rightarrow> 'e btree \<Rightarrow> bool" where
  "ctx_keeps l fs h s s' \<longleftrightarrow> (\<forall>k. k \<noteq> h \<longrightarrow> k = l \<or> (\<exists>a \<in> ctx_nodes fs. owner k = Some a) \<longrightarrow> read_link s' k = read_link s k) \<and>
     (\<forall>a \<in> ctx_nodes fs. bdata s' a = bdata s a)"

lemma ctx_keepsD:
  "ctx_keeps l fs h s s' \<Longrightarrow> k \<noteq> h \<Longrightarrow> k = l \<or> (\<exists>a \<in> ctx_nodes fs. owner k = Some a) \<Longrightarrow> read_link s' k = read_link s k"
  "ctx_keeps l fs h s s' \<Longrightarrow> a \<in> ctx_nodes fs \<Longrightarrow> bdata s' a = bdata s a"
  by (auto simp: ctx_keeps_def)

lemma ctx_keeps_tree:
  assumes "ctx_keeps l fs h s s'" "tnodes t \<subseteq> ctx_nodes fs" "\<And>k a. owner k = Some a \<Longrightarrow> a \<in> tnodes t \<Longrightarrow> k \<noteq> h"
  shows "keeps (tnodes t) s s'"
  unfolding keeps_def
proof (intro ballI conjI)
  fix a assume a: "a \<in> tnodes t"
  show "read_link s' (Left_link a) = read_link s (Left_link a)" by (rule ctx_keepsD(1) [OF assms(1)]) (use a assms(2,3) in auto)
  show "read_link s' (Right_link a) = read_link s (Right_link a)" by (rule ctx_keepsD(1) [OF assms(1)]) (use a assms(2,3) in auto)
  show "bdata s' a = bdata s a" by (rule ctx_keepsD(2) [OF assms(1)]) (use a assms(2) in auto)
qed

lemma ctx_frame:
  assumes "ctx_at s l fs" "ctx_distinct fs" "owner l = None \<or> the (owner l) \<notin> ctx_nodes fs" "ctx_keeps l fs (hole l fs) s s'"
  shows "ctx_at s' l fs"
  using assms
proof (induction fs arbitrary: l rule: before.induct)
  case (2 b x R fs)
  note d = ctx_distinctD(1) [OF 2(3)]
  note k = 2(5) [simplified]
  have l: "l \<noteq> hole (Left_link b) fs" using 2(4) by (intro hole_inner [of _ b]) auto
  have "Right_link b \<noteq> hole (Left_link b) fs" using d by (intro hole_other) auto
  then have rb: "read_link s' (Right_link b) = read_link s (Right_link b)" by (intro ctx_keepsD(1) [OF k]) auto
  have "keeps (tnodes R) s s'"
  proof (rule ctx_keeps_tree [OF k])
    fix k' a assume "owner k' = Some a" "a \<in> tnodes R"
    with d show "k' \<noteq> hole (Left_link b) fs" by (intro hole_other [of k' a]) auto
  qed auto
  with tree_frame [OF _ this rb] 2(2) have R: "tree_at s' (Right_link b) R" by (simp)
  have "ctx_keeps (Left_link b) fs (hole (Left_link b) fs) s s'"
    using k by (auto simp: ctx_keeps_def)
  then have "ctx_at s' (Left_link b) fs" using 2(2) d by (intro 2(1)) auto
  moreover have "read_link s' l = read_link s l" using l by (intro ctx_keepsD(1) [OF k]) auto
  moreover have "bdata s' b = bdata s b" by (intro ctx_keepsD(2) [OF k]) auto
  ultimately show ?case using 2(2) R by (simp)
next
  case (3 L b x fs)
  note d = ctx_distinctD(2) [OF 3(3)]
  note k = 3(5) [simplified]
  have l: "l \<noteq> hole (Right_link b) fs" using 3(4) by (intro hole_inner [of _ b]) auto
  have "Left_link b \<noteq> hole (Right_link b) fs" using d by (intro hole_other) auto
  then have rb: "read_link s' (Left_link b) = read_link s (Left_link b)" by (intro ctx_keepsD(1) [OF k]) auto
  have "keeps (tnodes L) s s'"
  proof (rule ctx_keeps_tree [OF k])
    fix k' a assume "owner k' = Some a" "a \<in> tnodes L"
    with d show "k' \<noteq> hole (Right_link b) fs" by (intro hole_other [of k' a]) auto
  qed auto
  with tree_frame [OF _ this rb] 3(2) have L: "tree_at s' (Left_link b) L" by (simp)
  have "ctx_keeps (Right_link b) fs (hole (Right_link b) fs) s s'"
    using k by (auto simp: ctx_keeps_def)
  then have "ctx_at s' (Right_link b) fs" using 3(2) d by (intro 3(1)) auto
  moreover have "read_link s' l = read_link s l" using l by (intro ctx_keepsD(1) [OF k]) auto
  moreover have "bdata s' b = bdata s b" by (intro ctx_keepsD(2) [OF k]) auto
  ultimately show ?case using 3(2) L by (simp)
qed simp

lemma plug_append [simp]: "plug (fs @ gs) t = plug fs (plug gs t)"
  by (induction fs rule: before.induct) auto

lemma hole_append [simp]: "hole l (fs @ gs) = hole (hole l fs) gs"
  by (induction fs arbitrary: l rule: before.induct) auto

lemma ctx_at_append [simp]: "ctx_at s l (fs @ gs) \<longleftrightarrow> ctx_at s l fs \<and> ctx_at s (hole l fs) gs"
  by (induction fs arbitrary: l rule: before.induct) auto

lemma before_append [simp]: "before (fs @ gs) = before fs @ before gs"
  by (induction fs rule: before.induct) auto

lemma after_append [simp]: "after (fs @ gs) = after gs @ after fs"
  by (induction fs rule: before.induct) auto

section \<open>Writes\<close>

fun link_at :: "nat \<Rightarrow> (nat \<Rightarrow> 'e btree_node option) \<Rightarrow> link \<Rightarrow> nat option" where
  "link_at r h Root_link = Some r"
| "link_at r h (Left_link a) = map_option bn_left (h a)"
| "link_at r h (Right_link a) = map_option bn_right (h a)"

lemma read_link_eq: "read_link s k = link_at (bt_root s) (bt_nodes s) k"
  by (cases k) (simp_all add: read_link.simps)

lemma link_at_update: "link_at r (h(a \<mapsto> nd)) k =
    (if k = Left_link a then Some (bn_left nd) else if k = Right_link a then Some (bn_right nd) else link_at r h k)"
  by (cases k) auto

lemma write_link_ok:
  assumes "read_link s k = Some q"
  shows "\<exists>r h. write_link s k p = Some (s\<lparr>bt_root := r, bt_nodes := h\<rparr>) \<and> (\<forall>k'. link_at r h k' = (if k' = k then Some p else read_link s k')) \<and>
    (\<forall>a. map_option bn_data (h a) = bdata s a)"
proof (cases k)
  case Root_link
  have "link_at p (bt_nodes s) k' = (if k' = k then Some p else read_link s k')" for k'
    using Root_link by (cases k') (simp_all add: read_link.simps)
  with Root_link show ?thesis by (intro exI [of _ p] exI [of _ "bt_nodes s"]) (simp add: bdata_def)
next
  case (Left_link a)
  with assms obtain nd where nd: "bt_nodes s a = Some nd" by (auto simp: read_link.simps)
  then have "link_at (bt_root s) ((bt_nodes s)(a \<mapsto> nd\<lparr>bn_left := p\<rparr>)) k' = (if k' = k then Some p else read_link s k')" for k'
    using Left_link by (cases k') (simp_all add: read_link.simps)
  with Left_link nd show ?thesis
    by (intro exI [of _ "bt_root s"] exI [of _ "(bt_nodes s)(a \<mapsto> nd\<lparr>bn_left := p\<rparr>)"]) (simp add: bdata_def btree_update_def)
next
  case (Right_link a)
  with assms obtain nd where nd: "bt_nodes s a = Some nd" by (auto simp: read_link.simps)
  then have "link_at (bt_root s) ((bt_nodes s)(a \<mapsto> nd\<lparr>bn_right := p\<rparr>)) k' = (if k' = k then Some p else read_link s k')" for k'
    using Right_link by (cases k') (simp_all add: read_link.simps)
  with Right_link nd show ?thesis
    by (intro exI [of _ "bt_root s"] exI [of _ "(bt_nodes s)(a \<mapsto> nd\<lparr>bn_right := p\<rparr>)"]) (simp add: bdata_def btree_update_def)
qed

section \<open>The state\<close>

abbreviation bleft :: "'e btree \<Rightarrow> nat \<Rightarrow> nat option" where
  "bleft s a \<equiv> map_option bn_left (bt_nodes s a)"

text \<open>The nodes of the pool are distinct and live.\<close>

definition btree_pool_ok :: "'e btree \<Rightarrow> bool" where
  "btree_pool_ok s \<longleftrightarrow> inj_on (btree_pool_node_at s) {..<bt_capacity s} \<and>
     (\<forall>i < bt_capacity s. btree_pool_node_at s i \<noteq> 0 \<and> bt_nodes s (btree_pool_node_at s i) \<noteq> None)"

text \<open>The nodes of \<open>t\<close> are linked, those of \<open>fs\<close> are free, those of \<open>xs\<close> neither.\<close>

definition btree_rel :: "'e btree \<Rightarrow> (nat \<times> 'e) tree \<Rightarrow> nat list \<Rightarrow> nat list \<Rightarrow> bool" where
  "btree_rel s t xs fs \<longleftrightarrow> tree_at s Root_link t \<and> distinct (addrs t @ xs @ fs) \<and> faithful (bt_policy s) \<and>
     (\<forall>x \<in> set xs. x \<noteq> 0 \<and> bt_nodes s x \<noteq> None) \<and>
     (if btree_is_fixed s
      then path (bleft s) (bt_free s) fs 0 \<and> btree_pool_ok s \<and> tnodes t \<union> set xs \<union> set fs = btree_pool_node_at s ` {..<bt_capacity s}
      else fs = [] \<and> (\<forall>a \<in> tnodes t \<union> set xs. a \<le> bt_allocs s))"

definition btree_frame :: "'e btree \<Rightarrow> 'e btree \<Rightarrow> bool" where
  "btree_frame s s' \<longleftrightarrow> bt_policy s' = bt_policy s \<and> bt_compare s' = bt_compare s \<and> bt_flags s' = bt_flags s \<and> bt_capacity s' = bt_capacity s \<and>
     bt_pool s' = bt_pool s \<and> bt_arena s' = bt_arena s"

lemma btree_frame_refl [simp]: "btree_frame s s"
  by (simp add: btree_frame_def)

lemma btree_frame_trans: "btree_frame s s' \<Longrightarrow> btree_frame s' s'' \<Longrightarrow> btree_frame s s''"
  by (simp add: btree_frame_def)

lemma btree_frame_simps:
  assumes "btree_frame s s'"
  shows "bt_policy s' = bt_policy s" "bt_compare s' = bt_compare s" "bt_capacity s' = bt_capacity s" "btree_is_fixed s' = btree_is_fixed s"
    "btree_pool_node_at s' = btree_pool_node_at s" "bt_arena s' = bt_arena s" "bt_pool s' = bt_pool s"
  using assms by (auto simp: btree_frame_def btree_is_fixed_def btree_pool_node_at_def)

lemma btree_relI:
  assumes "tree_at s Root_link t" "distinct (addrs t @ xs @ fs)" "faithful (bt_policy s)" "\<And>x. x \<in> set xs \<Longrightarrow> x \<noteq> 0 \<and> bt_nodes s x \<noteq> None"
    "btree_is_fixed s \<Longrightarrow> path (bleft s) (bt_free s) fs 0" "btree_is_fixed s \<Longrightarrow> btree_pool_ok s"
    "btree_is_fixed s \<Longrightarrow> tnodes t \<union> set xs \<union> set fs = btree_pool_node_at s ` {..<bt_capacity s}"
    "\<not> btree_is_fixed s \<Longrightarrow> fs = []" "\<And>a. \<not> btree_is_fixed s \<Longrightarrow> a \<in> tnodes t \<union> set xs \<Longrightarrow> a \<le> bt_allocs s"
  shows "btree_rel s t xs fs"
  unfolding btree_rel_def using assms by (simp del: distinct_append)

lemma btree_relD:
  assumes "btree_rel s t xs fs"
  shows "tree_at s Root_link t" "distinct (addrs t @ xs @ fs)" "faithful (bt_policy s)" "x \<in> set xs \<Longrightarrow> x \<noteq> 0 \<and> bt_nodes s x \<noteq> None"
    "btree_is_fixed s \<Longrightarrow> path (bleft s) (bt_free s) fs 0" "btree_is_fixed s \<Longrightarrow> btree_pool_ok s"
    "btree_is_fixed s \<Longrightarrow> tnodes t \<union> set xs \<union> set fs = btree_pool_node_at s ` {..<bt_capacity s}"
    "\<not> btree_is_fixed s \<Longrightarrow> fs = []" "\<not> btree_is_fixed s \<Longrightarrow> a \<in> tnodes t \<union> set xs \<Longrightarrow> a \<le> bt_allocs s"
  using assms unfolding btree_rel_def by (simp_all del: distinct_append split: if_splits)

lemma tnodes_plug: "tnodes (plug gs v) = ctx_nodes gs \<union> tnodes v"
  by (induction gs rule: before.induct) auto

lemma btree_rel_length:
  assumes "btree_rel s t xs fs" "btree_is_fixed s"
  shows "length (addrs t) + length xs + length fs = bt_capacity s"
proof -
  note rd = btree_relD [OF assms(1)]
  have d: "distinct (addrs t @ xs @ fs)" "set (addrs t @ xs @ fs) = btree_pool_node_at s ` {..<bt_capacity s}"
    "inj_on (btree_pool_node_at s) {..<bt_capacity s}" using rd(2,6,7) assms(2) by (auto simp: btree_pool_ok_def Un_assoc)
  have "length (addrs t @ xs @ fs) = card (set (addrs t @ xs @ fs))" by (rule distinct_card [OF d(1), symmetric])
  also have "\<dots> = bt_capacity s" unfolding d(2) using d(3) by (simp add: card_image)
  finally show ?thesis by simp
qed

text \<open>Replacing the subtree in the hole of a context by what hangs below \<open>p\<close>.\<close>

lemma btree_relink:
  assumes r: "btree_rel s (plug gs u) xs fs"
    and v: "\<And>s'. keeps (tnodes v) s s' \<Longrightarrow> read_link s' (hole Root_link gs) = Some p \<Longrightarrow> tree_at s' (hole Root_link gs) v"
    and nodes: "distinct (addrs v @ xs')" "set (addrs v @ xs') = set (addrs u @ xs)"
  shows "\<exists>s'. write_link s (hole Root_link gs) p = Some s' \<and> btree_rel s' (plug gs v) xs' fs \<and> btree_frame s s' \<and>
    bt_size s' = bt_size s \<and> bt_destroyed s' = bt_destroyed s \<and> bt_allocs s' = bt_allocs s \<and> bdata s' = bdata s \<and>
    (\<forall>k. k \<noteq> hole Root_link gs \<longrightarrow> read_link s' k = read_link s k)"
proof -
  let ?k = "hole Root_link gs"
  from r have c: "ctx_at s Root_link gs" and u: "tree_at s ?k u"
    by (auto simp: btree_rel_def tree_plug)
  from r have d: "distinct (map fst (before gs @ inorder u @ after gs) @ xs @ fs)" by (simp add: btree_rel_def)
  from u obtain q where "read_link s ?k = Some q" by (cases u) (auto simp: tree_at_Node)
  from write_link_ok [OF this, of p] obtain r h where
    w: "write_link s ?k p = Some (s\<lparr>bt_root := r, bt_nodes := h\<rparr>)" "\<And>k'. link_at r h k' = (if k' = ?k then Some p else read_link s k')"
      "\<And>a. map_option bn_data (h a) = bdata s a" by blast
  let ?s = "s\<lparr>bt_root := r, bt_nodes := h\<rparr>"
  have reads: "read_link ?s k' = (if k' = ?k then Some p else read_link s k')" for k' by (simp add: read_link_eq w(2))
  have data: "bdata ?s = bdata s" by (rule ext) (simp add: bdata_def [of ?s] w(3))
  have live: "h a \<noteq> None \<longleftrightarrow> bt_nodes s a \<noteq> None" for a using w(3) [of a] by (cases "h a"; cases "bt_nodes s a") (auto simp: bdata_def)
  have "ctx_at ?s Root_link gs"
  proof (rule ctx_frame [OF c])
    show "ctx_distinct gs" using d by auto
    show "ctx_keeps Root_link gs ?k s ?s" by (simp add: ctx_keeps_def reads data)
  qed simp
  moreover have "tree_at ?s ?k v"
  proof (rule v)
    have "Left_link a \<noteq> ?k \<and> Right_link a \<noteq> ?k" if "a \<in> tnodes v" for a
    proof -
      have "a \<in> tnodes u \<union> set xs" using nodes(2) that by auto
      then have "a \<notin> ctx_nodes gs" using d by (auto simp: ctx_nodes_eq)
      then show ?thesis
        using hole_other [of "Left_link a" a gs Root_link] hole_other [of "Right_link a" a gs Root_link] by simp
    qed
    then show "keeps (tnodes v) s ?s" by (simp add: keeps_def reads data)
    show "read_link ?s ?k = Some p" by (simp add: reads)
  qed
  ultimately have t: "tree_at ?s Root_link (plug gs v)" by (simp add: tree_plug)
  have sets: "tnodes v \<union> set xs' = tnodes u \<union> set xs" using nodes(2) by simp
  have fr: "btree_frame s ?s" by (simp add: btree_frame_def)
  note f = btree_frame_simps [OF fr]
  have "fst ` set (before gs) \<inter> (tnodes u \<union> set xs) = {}" "fst ` set (after gs) \<inter> (tnodes u \<union> set xs) = {}" "set fs \<inter> (tnodes u \<union> set xs) = {}"
    using d by auto
  note disj = this [folded sets]
  have dist: "distinct (addrs (plug gs v) @ xs' @ fs)" using d nodes(1) disj by auto
  note rd = btree_relD [OF r]
  have all: "tnodes (plug gs v) \<union> set xs' = tnodes (plug gs u) \<union> set xs" using sets by (auto simp: tnodes_plug)
  have "btree_rel ?s (plug gs v) xs' fs"
  proof (rule btree_relI [OF t dist], unfold f)
    show "x \<noteq> 0 \<and> bt_nodes ?s x \<noteq> None" if "x \<in> set xs'" for x
    proof -
      have "x \<in> tnodes u \<union> set xs" using sets that by blast
      then have "x \<noteq> 0 \<and> bt_nodes s x \<noteq> None" using tree_nodes [OF u, of x] rd(4) [of x] by auto
      then show ?thesis using live [of x] by simp
    qed
    show "path (bleft ?s) (bt_free ?s) fs 0" if "btree_is_fixed s"
    proof (rule path_frame)
      show "path (bleft s) (bt_free ?s) fs 0" using rd(5) that by simp
      have "Left_link a \<noteq> ?k" if "a \<in> set fs" for a using d that by (intro hole_other) (auto simp: ctx_nodes_eq)
      then show "\<forall>a \<in> set fs. bleft ?s a = bleft s a" using reads [of "Left_link _"] by (auto simp: read_link.simps)
    qed
    show "btree_pool_ok ?s" if "btree_is_fixed s" using rd(6) [OF that] live unfolding btree_pool_ok_def f by simp
    show "tnodes (plug gs v) \<union> set xs' \<union> set fs = btree_pool_node_at s ` {..<bt_capacity s}" if "btree_is_fixed s"
      unfolding all by (rule rd(7) [OF that])
    show "a \<le> bt_allocs ?s" if "\<not> btree_is_fixed s" "a \<in> tnodes (plug gs v) \<union> set xs'" for a
      using rd(9) [OF that(1), of a] that(2) unfolding all by simp
  qed (use rd(3,8) in simp_all)
  with w(1) reads data fr show ?thesis by (intro exI [of _ ?s]) simp
qed

text \<open>Storing another element in a node of the tree.\<close>

lemma btree_set_data:
  assumes r: "btree_rel s (plug gs \<langle>L, (a, x), R\<rangle>) xs fs"
  shows "\<exists>s'. btree_update s a (\<lambda>nd. nd\<lparr>bn_data := y\<rparr>) = Some s' \<and> btree_rel s' (plug gs \<langle>L, (a, y), R\<rangle>) xs fs \<and> btree_frame s s' \<and>
    bt_size s' = bt_size s \<and> bt_destroyed s' = bt_destroyed s \<and> (\<forall>b. b \<noteq> a \<longrightarrow> bdata s' b = bdata s b)"
proof -
  from r have c: "ctx_at s Root_link gs" and u: "tree_at s (hole Root_link gs) \<langle>L, (a, x), R\<rangle>" by (simp_all add: btree_rel_def tree_plug)
  from u obtain nd where nd: "bt_nodes s a = Some nd" by (rule tree_at_node)
  let ?s = "s\<lparr>bt_nodes := (bt_nodes s)(a \<mapsto> nd\<lparr>bn_data := y\<rparr>)\<rparr>"
  have d: "distinct (map fst (before gs @ inorder L @ (a, x) # inorder R @ after gs))" using r by (auto simp: btree_rel_def)
  have reads: "read_link ?s k = read_link s k" for k using nd by (cases k) (simp_all add: read_link.simps)
  have data: "bdata ?s b = (if b = a then Some y else bdata s b)" for b by (simp add: bdata_def)
  have "ctx_at ?s Root_link gs"
  proof (rule ctx_frame [OF c])
    show "ctx_distinct gs" using d by auto
    have "a \<notin> ctx_nodes gs" using d by (auto simp: ctx_nodes_eq)
    then show "ctx_keeps Root_link gs (hole Root_link gs) s ?s" by (auto simp: ctx_keeps_def reads data)
  qed simp
  moreover have "tree_at ?s (hole Root_link gs) \<langle>L, (a, y), R\<rangle>"
  proof -
    have "a \<notin> tnodes L" "a \<notin> tnodes R" using d by auto
    then have "keeps (tnodes L) s ?s" "keeps (tnodes R) s ?s" by (auto simp: keeps_def reads data)
    then have "tree_at ?s (Left_link a) L" "tree_at ?s (Right_link a) R"
      using u tree_frame [of s "Left_link a" L ?s "Left_link a"] tree_frame [of s "Right_link a" R ?s "Right_link a"] by (simp_all add: reads)
    then show ?thesis using u by (simp add: reads data)
  qed
  ultimately have t: "tree_at ?s Root_link (plug gs \<langle>L, (a, y), R\<rangle>)" by (simp add: tree_plug)
  have fr: "btree_frame s ?s" by (simp add: btree_frame_def)
  note f = btree_frame_simps [OF fr]
  have bl: "bleft ?s = bleft s" using nd by auto
  note rd = btree_relD [OF r]
  have "distinct (addrs (plug gs \<langle>L, (a, y), R\<rangle>) @ xs @ fs)" using rd(2) by simp
  from t this have "btree_rel ?s (plug gs \<langle>L, (a, y), R\<rangle>) xs fs"
  proof (rule btree_relI, unfold f bl)
    show "x \<noteq> 0 \<and> bt_nodes ?s x \<noteq> None" if "x \<in> set xs" for x using rd(4) [OF that] by simp
    show "btree_pool_ok ?s" if "btree_is_fixed s" using rd(6) [OF that] nd unfolding btree_pool_ok_def f by simp
    show "path (bleft s) (bt_free ?s) fs 0" if "btree_is_fixed s" using rd(5) [OF that] by simp
    show "b \<le> bt_allocs ?s" if "\<not> btree_is_fixed s" "b \<in> tnodes (plug gs \<langle>L, (a, y), R\<rangle>) \<union> set xs" for b
      using rd(9) [OF that(1), of b] that(2) by (simp add: tnodes_plug)
  qed (use rd(3,7,8) in \<open>simp_all add: tnodes_plug\<close>)
  with nd fr data show ?thesis by (intro exI [of _ ?s]) (simp add: btree_update_def)
qed

section \<open>Nodes from the pool, an arena or the heap\<close>

definition btree_serves :: "('e, 'z) btree_env_scheme \<Rightarrow> 'e btree \<Rightarrow> bool" where
  "btree_serves env s \<longleftrightarrow> (if bt_arena s then \<forall>n b. be_arena env n b = Ok else ne_allow_heap env \<and> (\<forall>n b. ne_malloc env n b))"

text \<open>A node is outside the tree: its links and data may change.\<close>

lemma btree_rel_outside:
  assumes r: "btree_rel s t xs fs" and out: "\<And>a. a \<in> tnodes t \<Longrightarrow> bt_nodes s' a = bt_nodes s a" "bt_root s' = bt_root s"
  shows "tree_at s' Root_link t"
proof (rule tree_frame)
  show "tree_at s Root_link t" using r by (simp add: btree_rel_def)
  show "keeps (tnodes t) s s'" using out(1) by (simp add: keeps_def bdata_def read_link.simps)
qed (simp add: read_link.simps out(2))

lemma btree_make_node_ok:
  assumes r: "btree_rel s t [] fs" and room: "if btree_is_fixed s then fs \<noteq> [] else btree_serves env s"
  shows "\<exists>a s1 fs1. btree_make_node env s e = Some (Ok, a, s1) \<and> btree_rel s1 t [a] fs1 \<and> btree_frame s s1 \<and> bt_size s1 = bt_size s \<and>
    bt_destroyed s1 = bt_destroyed s \<and> bt_nodes s1 a = Some \<lparr>bn_left = 0, bn_right = 0, bn_data = e\<rparr>"
proof (cases "btree_is_fixed s")
  case True
  with room obtain a fs1 where fs: "fs = a # fs1" by (auto simp: neq_Nil_conv)
  from r True fs obtain nd where nd: "bt_nodes s a = Some nd" "bt_free s = a" "a \<noteq> 0" "path (bleft s) (bn_left nd) fs1 0"
    by (auto simp: btree_rel_def)
  define s1 where "s1 = s\<lparr>bt_free := bn_left nd, bt_nodes := (bt_nodes s)(a \<mapsto> nd\<lparr>bn_left := 0, bn_right := 0, bn_data := e\<rparr>)\<rparr>"
  have s1a: "bt_nodes s1 a = Some \<lparr>bn_left = 0, bn_right = 0, bn_data = e\<rparr>" by (cases nd) (simp add: s1_def)
  have fr: "btree_frame s s1" by (simp add: btree_frame_def s1_def)
  note f = btree_frame_simps [OF fr]
  have "btree_make_node env s e = Some (Ok, a, s1)"
    using r True nd by (simp add: btree_make_node_def btree_acquire_node_def btree_update_def btree_rel_def Let_def s1_def)
  moreover have "btree_rel s1 t [a] fs1"
  proof (rule btree_relI, unfold f)
    note rd = btree_relD [OF r]
    have new: "a \<notin> tnodes t" "a \<notin> set fs1" using rd(2) fs by auto
    show "tree_at s1 Root_link t" by (rule btree_rel_outside [OF r]) (use new in \<open>auto simp: s1_def\<close>)
    show "distinct (addrs t @ [a] @ fs1)" using rd(2) fs by simp
    show "path (bleft s1) (bt_free s1) fs1 0" using path_frame [OF nd(4), of "bleft s1"] new by (auto simp: s1_def)
    show "btree_pool_ok s1" using rd(6) [OF True] unfolding btree_pool_ok_def f by (simp add: s1_def)
    show "tnodes t \<union> set [a] \<union> set fs1 = btree_pool_node_at s ` {..<bt_capacity s}" using rd(7) [OF True] fs by simp
    show "x \<noteq> 0 \<and> bt_nodes s1 x \<noteq> None" if "x \<in> set [a]" for x using that nd(3) s1a by simp
  qed (use btree_relD(3) [OF r] True in simp_all)
  ultimately have "btree_rel s1 t [a] fs1" "btree_make_node env s e = Some (Ok, a, s1)" by simp_all
  then show ?thesis using fr s1a by (intro exI [of _ a] exI [of _ s1] exI [of _ fs1]) (simp add: s1_def)
next
  case False
  let ?a = "Suc (bt_allocs s)"
  define s1 where "s1 = s\<lparr>bt_allocs := ?a, bt_nodes := (bt_nodes s)(?a \<mapsto> \<lparr>bn_left = 0, bn_right = 0, bn_data = e\<rparr>)\<rparr>"
  have fr: "btree_frame s s1" by (simp add: btree_frame_def s1_def)
  note f = btree_frame_simps [OF fr]
  have new: "?a \<notin> tnodes t" using btree_relD(9) [OF r False, of ?a] by auto
  have "btree_make_node env s e = Some (Ok, ?a, s1)"
    using r False room
    by (simp add: btree_make_node_def btree_acquire_node_def btree_update_def btree_rel_def btree_serves_def Let_def s1_def split: if_splits)
  moreover have "btree_rel s1 t [?a] []"
  proof (rule btree_relI, unfold f)
    note rd = btree_relD [OF r]
    show "tree_at s1 Root_link t" by (rule btree_rel_outside [OF r]) (use new in \<open>auto simp: s1_def\<close>)
    show "distinct (addrs t @ [?a] @ [])" using rd(2) new by simp
    show "b \<le> bt_allocs s1" if "b \<in> tnodes t \<union> set [?a]" for b using rd(9) [OF False, of b] that by (auto simp: s1_def)
  qed (use btree_relD(3) [OF r] False in \<open>simp_all add: s1_def\<close>)
  ultimately show ?thesis using fr by (intro exI [of _ ?a] exI [of _ s1] exI [of _ "[]"]) (simp add: s1_def)
qed

lemma btree_make_node_full: "btree_rel s t [] [] \<Longrightarrow> btree_is_fixed s \<Longrightarrow> btree_make_node env s e = Some (Full, 0, s)"
  by (simp add: btree_rel_def btree_make_node_def btree_acquire_node_def)

lemma btree_release_ok:
  assumes r: "btree_rel s t [a] fs"
  shows "\<exists>s1 fs1. btree_release_node env s a = Some s1 \<and> btree_rel s1 t [] fs1 \<and> btree_frame s s1 \<and> bt_size s1 = bt_size s \<and>
    bt_destroyed s1 = bt_destroyed s"
proof -
  from r obtain nd where nd: "bt_nodes s a = Some nd" "a \<noteq> 0" "a \<notin> tnodes t" "a \<notin> set fs" by (auto simp: btree_rel_def)
  show ?thesis
  proof (cases "btree_is_fixed s")
    case True
    define s1 where "s1 = s\<lparr>bt_nodes := (bt_nodes s)(a \<mapsto> nd\<lparr>bn_left := bt_free s, bn_right := 0\<rparr>), bt_free := a\<rparr>"
    have fr: "btree_frame s s1" by (simp add: btree_frame_def s1_def)
    note f = btree_frame_simps [OF fr]
    have "path (bleft s) (bt_free s) fs 0" using r True by (simp add: btree_rel_def)
    then have "path (bleft s1) (bt_free s) fs 0" by (rule path_frame) (use nd(4) in \<open>auto simp: s1_def\<close>)
    then have free: "path (bleft s1) (bt_free s1) (a # fs) 0" using nd by (simp add: s1_def)
    have "btree_rel s1 t [] (a # fs)"
    proof (rule btree_relI, unfold f)
      note rd = btree_relD [OF r]
      show "tree_at s1 Root_link t" by (rule btree_rel_outside [OF r]) (use nd(3) in \<open>auto simp: s1_def\<close>)
      show "distinct (addrs t @ [] @ a # fs)" using rd(2) by simp
      show "btree_pool_ok s1" using rd(6) [OF True] unfolding btree_pool_ok_def f by (simp add: s1_def)
      show "tnodes t \<union> set [] \<union> set (a # fs) = btree_pool_node_at s ` {..<bt_capacity s}" using rd(7) [OF True] by simp
    qed (use btree_relD(3) [OF r] True free in simp_all)
    moreover have "btree_release_node env s a = Some s1" using True nd by (simp add: btree_release_node_def btree_update_def s1_def)
    ultimately show ?thesis using fr by (intro exI [of _ s1] exI [of _ "a # fs"]) (simp add: s1_def)
  next
    case False
    define s1 where "s1 = (if ne_allow_heap env \<and> \<not> bt_arena s then s\<lparr>bt_nodes := (bt_nodes s)(a := None)\<rparr> else s)"
    have fr: "btree_frame s s1" by (simp add: btree_frame_def s1_def)
    note f = btree_frame_simps [OF fr]
    have "btree_rel s1 t [] []"
    proof (rule btree_relI, unfold f)
      note rd = btree_relD [OF r]
      show "tree_at s1 Root_link t" by (rule btree_rel_outside [OF r]) (use nd(3) in \<open>auto simp: s1_def\<close>)
      show "distinct (addrs t @ [] @ [])" using rd(2) by simp
      show "b \<le> bt_allocs s1" if "b \<in> tnodes t \<union> set []" for b using rd(9) [OF False, of b] that by (auto simp: s1_def)
    qed (use btree_relD(3) [OF r] False in simp_all)
    moreover have "btree_release_node env s a = Some s1" using False nd by (simp add: btree_release_node_def s1_def)
    ultimately show ?thesis using fr by (intro exI [of _ s1] exI [of _ "[]"]) (simp add: s1_def)
  qed
qed

end
