(* ===== verification/Btree_Set.thy ===== *)
theory Btree_Set
  imports Btree_Correct
begin

text \<open>
  Searching the tree, and the operations as those of an ordered set: a list of elements in strictly
  increasing order, at most one for every key.
\<close>

section \<open>Fields the tree does not depend on\<close>

lemma tree_at_fields [simp]:
  "tree_at (s\<lparr>bt_size := n\<rparr>) l t = tree_at s l t" "tree_at (s\<lparr>bt_destroyed := tr\<rparr>) l t = tree_at s l t"
  by (induction t arbitrary: l) (auto simp: tree_at_Node read_link_eq bdata_def)

lemma pool_node_at_fields [simp]:
  "btree_pool_node_at (s\<lparr>bt_size := n\<rparr>) = btree_pool_node_at s" "btree_pool_node_at (s\<lparr>bt_destroyed := tr\<rparr>) = btree_pool_node_at s"
  by (rule ext; simp add: btree_pool_node_at_def)+

lemma btree_rel_fields [simp]:
  "btree_rel (s\<lparr>bt_size := n\<rparr>) t xs fs = btree_rel s t xs fs" "btree_rel (s\<lparr>bt_destroyed := tr\<rparr>) t xs fs = btree_rel s t xs fs"
  by (simp_all add: btree_rel_def btree_is_fixed_def btree_pool_ok_def)

lemma btree_frame_fields [simp]:
  "btree_frame s (s'\<lparr>bt_size := n\<rparr>) = btree_frame s s'" "btree_frame s (s'\<lparr>bt_destroyed := tr\<rparr>) = btree_frame s s'"
  by (simp_all add: btree_frame_def)

section \<open>Descending\<close>

fun descends :: "('e \<Rightarrow> 'e \<Rightarrow> int) \<Rightarrow> 'e \<Rightarrow> 'e frame list \<Rightarrow> bool" where
  "descends cmp k [] \<longleftrightarrow> True"
| "descends cmp k (Go_left b x R # gs) \<longleftrightarrow> cmp k x < 0 \<and> descends cmp k gs"
| "descends cmp k (Go_right L b x # gs) \<longleftrightarrow> 0 < cmp k x \<and> descends cmp k gs"

lemma descent:
  "\<exists>gs u. t = plug gs u \<and> descends cmp k gs \<and> (u = \<langle>\<rangle> \<or> (\<exists>L a x R. u = \<langle>L, (a, x), R\<rangle> \<and> cmp k x = 0))"
proof (induction t)
  case Leaf
  show ?case by (intro exI [of _ "[]"] exI [of _ "\<langle>\<rangle>"]) simp
next
  case (Node L ax R)
  obtain a x where ax: "ax = (a, x)" by fastforce
  consider "cmp k x = 0" | "cmp k x < 0" | "0 < cmp k x" by linarith
  then show ?case
  proof cases
    case 1
    with ax show ?thesis by (intro exI [of _ "[]"] exI [of _ "\<langle>L, ax, R\<rangle>"]) simp
  next
    case 2
    from Node.IH(1) obtain gs u where "L = plug gs u" "descends cmp k gs" "u = \<langle>\<rangle> \<or> (\<exists>L a x R. u = \<langle>L, (a, x), R\<rangle> \<and> cmp k x = 0)" by blast
    with 2 ax show ?thesis by (intro exI [of _ "Go_left a x R # gs"] exI [of _ u]) simp
  next
    case 3
    from Node.IH(2) obtain gs u where "R = plug gs u" "descends cmp k gs" "u = \<langle>\<rangle> \<or> (\<exists>L a x R. u = \<langle>L, (a, x), R\<rangle> \<and> cmp k x = 0)" by blast
    with 3 ax show ?thesis by (intro exI [of _ "Go_right L a x # gs"] exI [of _ u]) simp
  qed
qed

lemma bdata_Some: "bdata s a = Some x \<longleftrightarrow> (\<exists>nd. bt_nodes s a = Some nd \<and> bn_data nd = x)"
  by (auto simp: bdata_def)

lemma insert_descends:
  "ctx_at s l gs \<Longrightarrow> descends (bt_compare s) e gs \<Longrightarrow> btree_insert_node env s l e = btree_insert_node env s (hole l gs) e"
proof (induction gs arbitrary: l rule: before.induct)
  case (2 b x R gs)
  then show ?case by (subst btree_insert_node.simps) (auto simp: bdata_Some)
next
  case (3 L b x gs)
  then show ?case by (subst btree_insert_node.simps) (auto simp: bdata_Some)
qed simp

lemma remove_descends:
  "ctx_at s l gs \<Longrightarrow> descends (bt_compare s) k gs \<Longrightarrow> btree_remove_node env s l k = btree_remove_node env s (hole l gs) k"
proof (induction gs arbitrary: l rule: before.induct)
  case (2 b x R gs)
  then show ?case by (subst btree_remove_node.simps) (auto simp: bdata_Some)
next
  case (3 L b x gs)
  then show ?case by (subst btree_remove_node.simps) (auto simp: bdata_Some)
qed simp

definition find_from :: "'e btree \<Rightarrow> 'e \<Rightarrow> link \<Rightarrow> nat option" where
  "find_from s k l = read_link s l \<bind> btree_find_loop s k"

lemma find_descends: "ctx_at s l gs \<Longrightarrow> descends (bt_compare s) k gs \<Longrightarrow> find_from s k l = find_from s k (hole l gs)"
proof (induction gs arbitrary: l rule: before.induct)
  case (2 b x R gs)
  then have "find_from s k (Left_link b) = find_from s k (hole (Left_link b) gs)" by simp
  with 2(2,3) show ?case by (auto simp: find_from_def bdata_Some read_link.simps btree_find_loop.simps [of s k b])
next
  case (3 L b x gs)
  then have "find_from s k (Right_link b) = find_from s k (hole (Right_link b) gs)" by simp
  with 3(2,3) show ?case by (auto simp: find_from_def bdata_Some read_link.simps btree_find_loop.simps [of s k b])
qed simp

text \<open>The outermost nodes.\<close>

fun lefts :: "'e frame list \<Rightarrow> bool" where
  "lefts [] \<longleftrightarrow> True"
| "lefts (Go_left b x R # gs) \<longleftrightarrow> lefts gs"
| "lefts (Go_right L b x # gs) \<longleftrightarrow> False"

fun rights :: "'e frame list \<Rightarrow> bool" where
  "rights [] \<longleftrightarrow> True"
| "rights (Go_left b x R # gs) \<longleftrightarrow> False"
| "rights (Go_right L b x # gs) \<longleftrightarrow> rights gs"

lemma leftmost: "t \<noteq> \<langle>\<rangle> \<Longrightarrow> \<exists>gs a x R. t = plug gs \<langle>\<langle>\<rangle>, (a, x), R\<rangle> \<and> lefts gs"
proof (induction t)
  case (Node L ax R)
  obtain a x where ax: "ax = (a, x)" by fastforce
  show ?case
  proof (cases "L = \<langle>\<rangle>")
    case True
    with ax show ?thesis by (intro exI [of _ "[]"]) simp
  next
    case False
    with Node.IH(1) obtain gs c y Q where "L = plug gs \<langle>\<langle>\<rangle>, (c, y), Q\<rangle>" "lefts gs" by blast
    with ax show ?thesis by (intro exI [of _ "Go_left a x R # gs"] exI [of _ c] exI [of _ y] exI [of _ Q]) simp
  qed
qed simp

lemma rightmost: "t \<noteq> \<langle>\<rangle> \<Longrightarrow> \<exists>gs a x L. t = plug gs \<langle>L, (a, x), \<langle>\<rangle>\<rangle> \<and> rights gs"
proof (induction t)
  case (Node L ax R)
  obtain a x where ax: "ax = (a, x)" by fastforce
  show ?case
  proof (cases "R = \<langle>\<rangle>")
    case True
    with ax show ?thesis by (intro exI [of _ "[]"]) simp
  next
    case False
    with Node.IH(2) obtain gs c y Q where "R = plug gs \<langle>Q, (c, y), \<langle>\<rangle>\<rangle>" "rights gs" by blast
    with ax show ?thesis by (intro exI [of _ "Go_right L a x # gs"] exI [of _ c] exI [of _ y] exI [of _ Q]) simp
  qed
qed simp

lemma lefts_before [simp]: "lefts gs \<Longrightarrow> before gs = []"
  by (induction gs rule: before.induct) auto

lemma rights_after [simp]: "rights gs \<Longrightarrow> after gs = []"
  by (induction gs rule: before.induct) auto

lemma plug_leaf: "plug gs \<langle>L, ax, R\<rangle> \<noteq> \<langle>\<rangle>"
  by (cases gs rule: before.cases) auto

lemma min_loop_ok:
  "tree_at s l (plug gs \<langle>\<langle>\<rangle>, (a, x), R\<rangle>) \<Longrightarrow> lefts gs \<Longrightarrow> read_link s l = Some p \<Longrightarrow> btree_min_loop s p = Some a \<and> bdata s a = Some x"
proof (induction gs arbitrary: l p rule: before.induct)
  case 1
  then show ?case by (subst btree_min_loop.simps) (auto simp: bdata_Some read_link.simps)
next
  case (2 b y R' gs)
  then obtain nd where nd: "bt_nodes s b = Some nd" "tree_at s (Left_link b) (plug gs \<langle>\<langle>\<rangle>, (a, x), R\<rangle>)" "p = b" "lefts gs" by (auto simp: bdata_Some)
  then have "read_link s (Left_link b) = Some (bn_left nd)" by (simp add: read_link.simps)
  moreover have "bn_left nd \<noteq> 0" using tree_at_null [OF nd(2)] calculation plug_leaf [of gs] by auto
  ultimately show ?case using 2(1) [OF nd(2,4)] nd(1,3) by (subst btree_min_loop.simps) auto
qed simp

lemma succ_link_ok:
  "tree_at s l (plug gs \<langle>\<langle>\<rangle>, (a, x), R\<rangle>) \<Longrightarrow> lefts gs \<Longrightarrow> btree_succ_link s l = Some (hole l gs)"
proof (induction gs arbitrary: l rule: before.induct)
  case 1
  then show ?case by (subst btree_succ_link.simps) (auto simp: bdata_Some read_link.simps)
next
  case (2 b y R' gs)
  then obtain nd where nd: "bt_nodes s b = Some nd" "tree_at s (Left_link b) (plug gs \<langle>\<langle>\<rangle>, (a, x), R\<rangle>)" "read_link s l = Some b" "lefts gs"
    by (auto simp: bdata_Some)
  then have "read_link s (Left_link b) = Some (bn_left nd)" by (simp add: read_link.simps)
  moreover have "bn_left nd \<noteq> 0" using tree_at_null [OF nd(2)] calculation plug_leaf [of gs] by auto
  ultimately show ?case using 2(1) [OF nd(2,4)] nd(1,3) by (subst btree_succ_link.simps) auto
qed simp

lemma max_loop_ok:
  "tree_at s l (plug gs \<langle>L, (a, x), \<langle>\<rangle>\<rangle>) \<Longrightarrow> rights gs \<Longrightarrow> read_link s l = Some p \<Longrightarrow> btree_max_loop s p = Some a \<and> bdata s a = Some x"
proof (induction gs arbitrary: l p rule: before.induct)
  case 1
  then show ?case by (subst btree_max_loop.simps) (auto simp: bdata_Some read_link.simps)
next
  case (3 L' b y gs)
  then obtain nd where nd: "bt_nodes s b = Some nd" "tree_at s (Right_link b) (plug gs \<langle>L, (a, x), \<langle>\<rangle>\<rangle>)" "p = b" "rights gs" by (auto simp: bdata_Some)
  then have "read_link s (Right_link b) = Some (bn_right nd)" by (simp add: read_link.simps)
  moreover have "bn_right nd \<noteq> 0" using tree_at_null [OF nd(2)] calculation plug_leaf [of gs] by auto
  ultimately show ?case using 3(1) [OF nd(2,4)] nd(1,3) by (subst btree_max_loop.simps) auto
qed simp

section \<open>Removing a node\<close>

lemma destroy_node_value_ok:
  "bdata s a = Some x \<Longrightarrow> btree_destroy_node_value s a = Some (s\<lparr>bt_destroyed := destroy (bt_policy s) x (bt_destroyed s)\<rparr>)"
  by (auto simp: btree_destroy_node_value_def bdata_Some needs_destroy_on_clear_def)

text \<open>A node without a left or without a right subtree is replaced by the other one.\<close>

lemma remove_outer:
  assumes r: "btree_rel s (plug gs \<langle>L, (a, x), R\<rangle>) [] fs" and k: "bt_compare s k x = 0" and one: "L = \<langle>\<rangle> \<or> R = \<langle>\<rangle>"
  shows "\<exists>s' fs'. btree_remove_node env s (hole Root_link gs) k = Some (Ok, True, s') \<and>
    btree_rel s' (plug gs (if L = \<langle>\<rangle> then R else L)) [] fs' \<and> btree_frame s s' \<and> bt_size s' = bt_size s \<and>
    bt_destroyed s' = destroy (bt_policy s) x (bt_destroyed s)"
proof -
  let ?k = "hole Root_link gs" and ?v = "if L = \<langle>\<rangle> then R else L"
  from r have u: "tree_at s ?k \<langle>L, (a, x), R\<rangle>" by (simp add: btree_rel_def tree_plug)
  then obtain nd where nd: "read_link s ?k = Some a" "a \<noteq> 0" "bt_nodes s a = Some nd" "bn_data nd = x"
    "tree_at s (Left_link a) L" "tree_at s (Right_link a) R" "bn_left nd = 0 \<longleftrightarrow> L = \<langle>\<rangle>" "bn_right nd = 0 \<longleftrightarrow> R = \<langle>\<rangle>"
    by (rule tree_at_node)
  let ?p = "if bn_left nd \<noteq> 0 then bn_left nd else bn_right nd"
  let ?l = "if L = \<langle>\<rangle> then Right_link a else Left_link a"
  have v: "tree_at s ?l ?v" "read_link s ?l = Some ?p" using nd by (simp_all add: read_link.simps)
  have d: "distinct (addrs \<langle>L, (a, x), R\<rangle>)" using btree_relD(2) [OF r] by auto
  have "\<exists>s'. write_link s ?k ?p = Some s' \<and> btree_rel s' (plug gs ?v) [a] fs \<and> btree_frame s s' \<and>
    bt_size s' = bt_size s \<and> bt_destroyed s' = bt_destroyed s \<and> bt_allocs s' = bt_allocs s \<and> bdata s' = bdata s \<and>
    (\<forall>k. k \<noteq> ?k \<longrightarrow> read_link s' k = read_link s k)"
  proof (rule btree_relink [OF r])
    show "tree_at s' ?k ?v" if "keeps (tnodes ?v) s s'" "read_link s' ?k = Some ?p" for s'
      by (rule tree_frame [OF v(1) that(1)]) (simp add: that(2) v(2))
    show "distinct (addrs ?v @ [a])" "set (addrs ?v @ [a]) = set (addrs \<langle>L, (a, x), R\<rangle> @ [])" using d one by auto
  qed
  then obtain s1 where s1: "write_link s ?k ?p = Some s1" "btree_rel s1 (plug gs ?v) [a] fs" "btree_frame s s1" "bt_size s1 = bt_size s"
    "bt_destroyed s1 = bt_destroyed s" "bdata s1 = bdata s" by blast
  let ?s2 = "s1\<lparr>bt_destroyed := destroy (bt_policy s1) x (bt_destroyed s1)\<rparr>"
  have "bdata s1 a = Some x" using s1(6) nd by (simp add: bdata_Some)
  note dv = destroy_node_value_ok [OF this]
  have "btree_rel ?s2 (plug gs ?v) [a] fs" using s1(2) by simp
  from btree_release_ok [OF this, of env] obtain s3 fs' where s3: "btree_release_node env ?s2 a = Some s3" "btree_rel s3 (plug gs ?v) [] fs'"
    "btree_frame ?s2 s3" "bt_size s3 = bt_size s1" "bt_destroyed s3 = destroy (bt_policy s1) x (bt_destroyed s1)" by auto
  have "btree_remove_node env s ?k k = Some (Ok, True, s3)"
    using nd k one s1(1) dv s3(1) by (subst btree_remove_node.simps) auto
  moreover have "btree_frame s s3" using btree_frame_trans [of s ?s2 s3] s1(3) s3(3) by simp
  ultimately show ?thesis using s1(3-5) s3(2,4,5) btree_frame_simps(1) [OF s1(3)] by (intro exI [of _ s3] exI [of _ fs']) simp
qed

text \<open>
  A node with two subtrees gets the element of its successor, whose node is unlinked; the element that is
  destroyed is the successor's.
\<close>

lemma remove_inner:
  assumes r: "btree_rel s (plug gs \<langle>L, (a, x), R\<rangle>) [] fs" and k: "bt_compare s k x = 0" and two: "L \<noteq> \<langle>\<rangle>" "R \<noteq> \<langle>\<rangle>"
  shows "\<exists>s' fs' y R'. btree_remove_node env s (hole Root_link gs) k = Some (Ok, True, s') \<and> elems R = y # elems R' \<and>
    btree_rel s' (plug gs \<langle>L, (a, y), R'\<rangle>) [] fs' \<and> btree_frame s s' \<and> bt_size s' = bt_size s \<and>
    bt_destroyed s' = destroy (bt_policy s) y (bt_destroyed s)"
proof -
  let ?k = "hole Root_link gs"
  from leftmost [OF two(2)] obtain hs c y Q where R: "R = plug hs \<langle>\<langle>\<rangle>, (c, y), Q\<rangle>" "lefts hs" by blast
  let ?gs = "gs @ Go_right L a x # hs"
  have r': "btree_rel s (plug ?gs \<langle>\<langle>\<rangle>, (c, y), Q\<rangle>) [] fs" using r R by simp
  from r have u: "tree_at s ?k \<langle>L, (a, x), R\<rangle>" by (simp add: btree_rel_def tree_plug)
  then obtain nd where nd: "read_link s ?k = Some a" "a \<noteq> 0" "bt_nodes s a = Some nd" "bn_data nd = x"
    "tree_at s (Left_link a) L" "tree_at s (Right_link a) R" "bn_left nd = 0 \<longleftrightarrow> L = \<langle>\<rangle>" "bn_right nd = 0 \<longleftrightarrow> R = \<langle>\<rangle>"
    by (rule tree_at_node)
  let ?l = "hole Root_link ?gs"
  have sl: "btree_succ_link s (Right_link a) = Some ?l" using succ_link_ok [of s "Right_link a" hs c y Q] nd(6) R by simp
  from r' have "tree_at s ?l \<langle>\<langle>\<rangle>, (c, y), Q\<rangle>" unfolding btree_rel_def tree_plug by blast
  then obtain nc where nc: "read_link s ?l = Some c" "c \<noteq> 0" "bt_nodes s c = Some nc" "bn_data nc = y" "tree_at s (Right_link c) Q"
    by (rule tree_at_node)
  have rc: "read_link s (Right_link c) = Some (bn_right nc)" using nc(3) by (simp add: read_link.simps)
  have d: "distinct (addrs \<langle>\<langle>\<rangle>, (c, y), Q\<rangle>)" "a \<noteq> c" using btree_relD(2) [OF r'] by auto
  have "\<exists>s'. write_link s ?l (bn_right nc) = Some s' \<and> btree_rel s' (plug ?gs Q) [c] fs \<and> btree_frame s s' \<and>
    bt_size s' = bt_size s \<and> bt_destroyed s' = bt_destroyed s \<and> bt_allocs s' = bt_allocs s \<and> bdata s' = bdata s \<and>
    (\<forall>k. k \<noteq> ?l \<longrightarrow> read_link s' k = read_link s k)"
  proof (rule btree_relink [OF r'])
    show "tree_at s' ?l Q" if "keeps (tnodes Q) s s'" "read_link s' ?l = Some (bn_right nc)" for s'
      by (rule tree_frame [OF nc(5) that(1)]) (simp only: that(2) rc)
    show "distinct (addrs Q @ [c])" "set (addrs Q @ [c]) = set (addrs \<langle>\<langle>\<rangle>, (c, y), Q\<rangle> @ [])" using d(1) by auto
  qed
  then obtain s1 where s1: "write_link s ?l (bn_right nc) = Some s1" "btree_rel s1 (plug ?gs Q) [c] fs" "btree_frame s s1" "bt_size s1 = bt_size s"
    "bt_destroyed s1 = bt_destroyed s" "bdata s1 = bdata s" by blast
  have r1: "btree_rel s1 (plug gs \<langle>L, (a, x), plug hs Q\<rangle>) [c] fs" using s1(2) by simp
  from s1(6) nd nc have "bdata s1 a = Some x" "bdata s1 c = Some y" by (simp_all add: bdata_Some)
  then obtain td sd where tsd: "bt_nodes s1 a = Some td" "bt_nodes s1 c = Some sd" "bn_data sd = y" by (auto simp: bdata_Some)
  from btree_set_data [OF r1, of y] obtain s2 where s2: "btree_update s1 a (\<lambda>nd. nd\<lparr>bn_data := y\<rparr>) = Some s2"
    "btree_rel s2 (plug gs \<langle>L, (a, y), plug hs Q\<rangle>) [c] fs" "btree_frame s1 s2" "bt_size s2 = bt_size s1" "bt_destroyed s2 = bt_destroyed s1"
    "\<forall>b. b \<noteq> a \<longrightarrow> bdata s2 b = bdata s1 b" by blast
  let ?s3 = "s2\<lparr>bt_destroyed := destroy (bt_policy s2) y (bt_destroyed s2)\<rparr>"
  have "bdata s2 c = Some y" using s2(6) d(2) \<open>bdata s1 c = Some y\<close> by simp
  note dv = destroy_node_value_ok [OF this]
  have "btree_rel ?s3 (plug gs \<langle>L, (a, y), plug hs Q\<rangle>) [c] fs" using s2(2) by simp
  from btree_release_ok [OF this, of env] obtain s4 fs' where s4: "btree_release_node env ?s3 c = Some s4"
    "btree_rel s4 (plug gs \<langle>L, (a, y), plug hs Q\<rangle>) [] fs'" "btree_frame ?s3 s4" "bt_size s4 = bt_size s2"
    "bt_destroyed s4 = destroy (bt_policy s2) y (bt_destroyed s2)" by auto
  have "btree_remove_inner env s a = Some (Ok, True, s4)"
    using sl nc(1) rc s1(1) tsd s2(1) dv s4(1) btree_relD(3) [OF r1] by (simp add: btree_remove_inner_def del: hole_append)
  then have "btree_remove_node env s ?k k = Some (Ok, True, s4)"
    using nd k two by (subst btree_remove_node.simps) auto
  moreover have "btree_frame s s4" using btree_frame_trans [of s1 s2 s4] btree_frame_trans [of s s1 s4] s1(3) s2(3) s4(3)
    by (simp add: btree_frame_def)
  moreover have "elems R = y # elems (plug hs Q)" using R by simp
  moreover have "bt_policy s2 = bt_policy s" using s1(3) s2(3) by (simp add: btree_frame_def)
  ultimately show ?thesis using s1(4,5) s2(4,5) s4(2,4,5) by (intro exI [of _ s4] exI [of _ fs'] exI [of _ y] exI [of _ "plug hs Q"]) simp
qed

section \<open>Ordered sets\<close>

text \<open>
  The contract: a list of elements in increasing order. An element replaces the one with an equal key,
  \<open>limit\<close> is the number of elements that fit.
\<close>

datatype 'e ord_cmd = Ord_insert (ord_key: 'e) | Ord_get (ord_key: 'e) | Ord_remove (ord_key: 'e) | Ord_contains (ord_key: 'e) | Ord_min | Ord_max

definition ord_below :: "('e \<Rightarrow> 'e \<Rightarrow> int) \<Rightarrow> 'e \<Rightarrow> 'e list \<Rightarrow> 'e list" where
  "ord_below cmp k xs = filter (\<lambda>x. 0 < cmp k x) xs"

definition ord_above :: "('e \<Rightarrow> 'e \<Rightarrow> int) \<Rightarrow> 'e \<Rightarrow> 'e list \<Rightarrow> 'e list" where
  "ord_above cmp k xs = filter (\<lambda>x. cmp k x < 0) xs"

definition element_at :: "('e \<Rightarrow> 'e \<Rightarrow> int) \<Rightarrow> 'e \<Rightarrow> 'e list \<Rightarrow> 'e option" where
  "element_at cmp k xs = find (\<lambda>x. cmp k x = 0) xs"

fun ord_step :: "('e \<Rightarrow> 'e \<Rightarrow> int) \<Rightarrow> nat option \<Rightarrow> 'e list \<Rightarrow> 'e ord_cmd \<Rightarrow> status \<times> 'e option \<times> 'e list" where
  "ord_step cmp limit xs (Ord_insert e) =
     (if element_at cmp e xs \<noteq> None \<or> seq_room limit xs then (Ok, None, ord_below cmp e xs @ e # ord_above cmp e xs) else (Full, None, xs))"
| "ord_step cmp limit xs (Ord_get k) = (case element_at cmp k xs of Some x \<Rightarrow> (Ok, Some x, xs) | None \<Rightarrow> (Not_found, None, xs))"
| "ord_step cmp limit xs (Ord_remove k) =
     (if element_at cmp k xs \<noteq> None then (Ok, None, ord_below cmp k xs @ ord_above cmp k xs) else (Not_found, None, xs))"
| "ord_step cmp limit xs (Ord_contains k) = (if element_at cmp k xs \<noteq> None then Ok else Not_found, None, xs)"
| "ord_step cmp limit xs Ord_min = (if xs = [] then (Empty, None, xs) else (Ok, Some (hd xs), xs))"
| "ord_step cmp limit xs Ord_max = (if xs = [] then (Empty, None, xs) else (Ok, Some (last xs), xs))"

fun ord_cost :: "'e ord_cmd \<Rightarrow> nat" where
  "ord_cost (Ord_insert e) = 1"
| "ord_cost _ = 0"

fun ord_carrier :: "('e \<Rightarrow> bool) \<Rightarrow> 'e ord_cmd \<Rightarrow> bool" where
  "ord_carrier carrier Ord_min \<longleftrightarrow> True"
| "ord_carrier carrier Ord_max \<longleftrightarrow> True"
| "ord_carrier carrier c \<longleftrightarrow> carrier (ord_key c)"

fun btree_call :: "('e, 'z) btree_env_scheme \<Rightarrow> 'e \<Rightarrow> 'e btree \<Rightarrow> 'e ord_cmd \<Rightarrow> (status \<times> 'e option \<times> 'e btree) option" where
  "btree_call env d s (Ord_insert e) = no_out (btree_insert env s (Some e))"
| "btree_call env d s (Ord_get k) = reading s (btree_get s (Some k) (Some d))"
| "btree_call env d s (Ord_remove k) = no_out (btree_remove env s (Some k))"
| "btree_call env d s (Ord_contains k) = map_option (\<lambda>b. (if b then Ok else Not_found, None, s)) (btree_contains s (Some k))"
| "btree_call env d s Ord_min = reading s (btree_peek_min s (Some d))"
| "btree_call env d s Ord_max = reading s (btree_peek_max s (Some d))"

definition ascending :: "('e \<Rightarrow> bool) \<Rightarrow> ('e \<Rightarrow> 'e \<Rightarrow> int) \<Rightarrow> 'e list \<Rightarrow> bool" where
  "ascending carrier cmp xs \<longleftrightarrow> sorted_wrt (\<lambda>x y. cmp x y < 0) xs \<and> (\<forall>x \<in> set xs. carrier x)"

lemma ascending_append: "ascending carrier cmp (xs @ ys) \<longleftrightarrow>
    ascending carrier cmp xs \<and> ascending carrier cmp ys \<and> (\<forall>x \<in> set xs. \<forall>y \<in> set ys. cmp x y < 0)"
  by (auto simp: ascending_def sorted_wrt_append)

lemma ascending_Cons: "ascending carrier cmp (x # xs) \<longleftrightarrow> carrier x \<and> (\<forall>y \<in> set xs. cmp x y < 0) \<and> ascending carrier cmp xs"
  by (auto simp: ascending_def)

lemma ascending_carrier: "ascending carrier cmp xs \<Longrightarrow> x \<in> set xs \<Longrightarrow> carrier x"
  by (simp add: ascending_def)

lemma ascending_mid:
  assumes "ascending carrier cmp (xs @ x # ys)"
  shows "ascending carrier cmp xs" "ascending carrier cmp ys" "carrier x" "\<forall>y \<in> set xs. cmp y x < 0 \<and> carrier y" "\<forall>y \<in> set ys. cmp x y < 0 \<and> carrier y"
  using assms by (auto simp: ascending_def sorted_wrt_append)

definition btree_holds ::
  "('e \<Rightarrow> bool) \<Rightarrow> ('e \<Rightarrow> 'e \<Rightarrow> int) \<Rightarrow> ('e, 'z) btree_env_scheme \<Rightarrow> nat option \<Rightarrow> nat \<Rightarrow> 'e btree \<Rightarrow> 'e list \<Rightarrow> bool" where
  "btree_holds carrier cmp env limit m s xs \<longleftrightarrow>
     (\<exists>t fs. btree_rel s t [] fs \<and> elems t = xs) \<and> ascending carrier cmp xs \<and> bt_compare s = cmp \<and> bt_size s = length xs \<and>
     limit = (if btree_is_fixed s then Some (bt_capacity s) else None) \<and>
     (case limit of Some c \<Rightarrow> c \<le> SIZE_MAX | None \<Rightarrow> btree_serves env s \<and> length xs + m \<le> SIZE_MAX)"

context three_way
begin

text \<open>The way down splits the elements at the key.\<close>

lemma descends_split:
  assumes "ascending carrier cmp (elems (plug gs u))" "carrier k" "descends cmp k gs"
  shows "(\<forall>x \<in> set (map snd (before gs)). 0 < cmp k x) \<and> (\<forall>x \<in> set (map snd (after gs)). cmp k x < 0)"
  using assms
proof (induction gs rule: before.induct)
  case (2 b x R gs)
  have e: "elems (plug (Go_left b x R # gs) u) = elems (plug gs u) @ x # elems R" by simp
  from 2(2) have a: "ascending carrier cmp (elems (plug gs u))" "\<forall>y \<in> set (elems R). cmp x y < 0 \<and> carrier y" "carrier x"
    unfolding e by (rule ascending_mid)+
  from 2(4) have "cmp k x < 0" by simp
  then have "cmp k y < 0" if "y \<in> set (elems R)" for y
    using a(2,3) that 2(3) cmp_less_trans [of k x y] by auto
  with 2(1) [OF a(1) 2(3)] 2(4) \<open>cmp k x < 0\<close> show ?case by auto
next
  case (3 L b x gs)
  have e: "elems (plug (Go_right L b x # gs) u) = elems L @ x # elems (plug gs u)" by simp
  from 3(2) have a: "ascending carrier cmp (elems (plug gs u))" "\<forall>y \<in> set (elems L). cmp y x < 0 \<and> carrier y" "carrier x"
    unfolding e by (rule ascending_mid)+
  from 3(4) have "cmp x k < 0" using cmp_pos_swap [OF 3(3) a(3)] by simp
  then have "0 < cmp k y" if "y \<in> set (elems L)" for y
    using a(2,3) that 3(3) cmp_less_trans [of y x k] cmp_pos_swap [of k y] by auto
  with 3(1) [OF a(1) 3(3)] 3(4) show ?case by auto
qed simp

lemma split_simps:
  "\<forall>x \<in> set xs. 0 < cmp k x \<Longrightarrow> ord_below cmp k xs = xs \<and> ord_above cmp k xs = [] \<and> element_at cmp k xs = None"
  "\<forall>x \<in> set xs. cmp k x < 0 \<Longrightarrow> ord_below cmp k xs = [] \<and> ord_above cmp k xs = xs \<and> element_at cmp k xs = None"
  by (auto simp: ord_below_def ord_above_def element_at_def find_None_iff filter_empty_conv intro!: filter_True)

lemma split_append:
  "ord_below cmp k (xs @ ys) = ord_below cmp k xs @ ord_below cmp k ys" "ord_above cmp k (xs @ ys) = ord_above cmp k xs @ ord_above cmp k ys"
  "element_at cmp k (xs @ ys) = (case element_at cmp k xs of None \<Rightarrow> element_at cmp k ys | Some x \<Rightarrow> Some x)"
  by (auto simp: ord_below_def ord_above_def element_at_def split: option.splits) (induction xs; auto)+

text \<open>Where the key is, in the tree and in the list.\<close>

lemma btree_cases [consumes 4, case_names hit miss]:
  assumes r: "btree_rel s t [] fs" "bt_compare s = cmp" and k: "carrier k" and a: "ascending carrier cmp (elems t)"
  obtains (hit) gs L a x R where "t = plug gs \<langle>L, (a, x), R\<rangle>" "descends cmp k gs" "cmp k x = 0"
      "ord_below cmp k (elems t) = map snd (before gs) @ elems L" "ord_above cmp k (elems t) = elems R @ map snd (after gs)"
      "element_at cmp k (elems t) = Some x" "ctx_at s Root_link gs" "tree_at s (hole Root_link gs) \<langle>L, (a, x), R\<rangle>"
  | (miss) gs where "t = plug gs \<langle>\<rangle>" "descends cmp k gs" "ord_below cmp k (elems t) = map snd (before gs)"
      "ord_above cmp k (elems t) = map snd (after gs)" "element_at cmp k (elems t) = None" "ctx_at s Root_link gs" "read_link s (hole Root_link gs) = Some 0"
proof -
  from descent [of t cmp k] obtain gs u where u: "t = plug gs u" "descends cmp k gs" "u = \<langle>\<rangle> \<or> (\<exists>L a x R. u = \<langle>L, (a, x), R\<rangle> \<and> cmp k x = 0)"
    by blast
  from r(1) u(1) have at: "ctx_at s Root_link gs" "tree_at s (hole Root_link gs) u" by (simp_all add: btree_rel_def tree_plug)
  note sp = descends_split [OF a [unfolded u(1)] k u(2)]
  note b = split_simps(1) [of "map snd (before gs)" k] split_simps(2) [of "map snd (after gs)" k]
  from u(3) show ?thesis
  proof
    assume "u = \<langle>\<rangle>"
    with u at sp b show ?thesis by (intro miss [of gs]) (auto simp: split_append)
  next
    assume "\<exists>L a x R. u = \<langle>L, (a, x), R\<rangle> \<and> cmp k x = 0"
    then obtain L a x R where n: "u = \<langle>L, (a, x), R\<rangle>" "cmp k x = 0" by blast
    have o: "\<forall>y \<in> set (elems L). cmp y x < 0 \<and> carrier y" "\<forall>y \<in> set (elems R). cmp x y < 0 \<and> carrier y" "carrier x"
    proof -
      have e: "elems (plug gs u) = map snd (before gs) @ (elems L @ x # elems R) @ map snd (after gs)" using n(1) by simp
      from a have "ascending carrier cmp (elems L @ x # elems R)" unfolding u(1) e ascending_append by blast
      then show "\<forall>y \<in> set (elems L). cmp y x < 0 \<and> carrier y" "\<forall>y \<in> set (elems R). cmp x y < 0 \<and> carrier y" "carrier x"
        by (rule ascending_mid)+
    qed
    have xk: "cmp x k = 0" using cmp_zero_sym [OF k o(3)] n(2) by simp
    have "0 < cmp k y" if "y \<in> set (elems L)" for y
      using o(1,3) that k xk cmp_less_trans [of y x k] cmp_pos_swap [of k y] by auto
    moreover have "cmp k y < 0" if "y \<in> set (elems R)" for y
      using o(2,3) that k n(2) cmp_le_less_trans [of k x y] by auto
    ultimately have lr: "\<forall>y \<in> set (elems L). 0 < cmp k y" "\<forall>y \<in> set (elems R). cmp k y < 0" by blast+
    have x: "ord_below cmp k (x # zs) = ord_below cmp k zs" "ord_above cmp k (x # zs) = ord_above cmp k zs" "element_at cmp k (x # zs) = Some x" for zs
      using n(2) by (simp_all add: ord_below_def ord_above_def element_at_def)
    from split_simps(1) [OF lr(1)] split_simps(2) [OF lr(2)] sp b u n at show ?thesis
      by (intro hit [of gs L a x R]) (auto simp: split_append x)
  qed
qed

end

context three_way
begin

lemma ascending_insert:
  assumes a: "ascending carrier cmp xs" and e: "carrier e"
  shows "ascending carrier cmp (ord_below cmp e xs @ e # ord_above cmp e xs)" "ascending carrier cmp (ord_below cmp e xs @ ord_above cmp e xs)"
proof -
  have b: "cmp x e < 0 \<and> carrier x" if "x \<in> set (ord_below cmp e xs)" for x
    using that a e cmp_pos_swap [of e x] by (auto simp: ord_below_def ascending_def)
  have c: "cmp e y < 0 \<and> carrier y" if "y \<in> set (ord_above cmp e xs)" for y
    using that a by (auto simp: ord_above_def ascending_def)
  have f: "ascending carrier cmp (ord_below cmp e xs)" "ascending carrier cmp (ord_above cmp e xs)"
    using a by (simp_all add: ascending_def ord_below_def ord_above_def sorted_wrt_filter)
  have bc: "cmp x y < 0" if "x \<in> set (ord_below cmp e xs)" "y \<in> set (ord_above cmp e xs)" for x y
    using b [OF that(1)] c [OF that(2)] e cmp_less_trans [of x e y] by auto
  show "ascending carrier cmp (ord_below cmp e xs @ ord_above cmp e xs)"
    unfolding ascending_append using f bc by blast
  show "ascending carrier cmp (ord_below cmp e xs @ e # ord_above cmp e xs)"
    unfolding ascending_append ascending_Cons set_simps using f b c bc e by blast
qed

abbreviation bholds :: "('e, 'z) btree_env_scheme \<Rightarrow> nat option \<Rightarrow> nat \<Rightarrow> 'e btree \<Rightarrow> 'e list \<Rightarrow> bool" where
  "bholds \<equiv> btree_holds carrier cmp"

lemma bholds_less: "bholds env limit (n + m) s xs \<Longrightarrow> bholds env limit m s xs"
  by (auto simp: btree_holds_def split: option.splits)

text \<open>The state after a change of the tree.\<close>

lemma bholds_change:
  assumes h: "bholds env limit n s xs" and r: "btree_rel s' t [] fs" "elems t = ys" "ascending carrier cmp ys"
    and f: "btree_frame s s'" "bt_size s' = length ys" "length ys + m \<le> length xs + n"
  shows "bholds env limit m s' ys"
proof -
  note fs = btree_frame_simps [OF f(1)]
  have "btree_serves env s' = btree_serves env s" by (simp add: btree_serves_def fs)
  with h r f show ?thesis by (auto simp: btree_holds_def fs split: option.splits)
qed

lemma bholdsE:
  assumes "bholds env limit m s xs"
  obtains t fs where "btree_rel s t [] fs" "elems t = xs" "ascending carrier cmp xs" "bt_compare s = cmp" "bt_size s = length xs"
    "length xs \<le> SIZE_MAX" "limit = (if btree_is_fixed s then Some (bt_capacity s) else None)"
    "btree_is_fixed s \<Longrightarrow> length xs + length fs = bt_capacity s"
proof -
  from assms obtain t fs where t: "btree_rel s t [] fs" "elems t = xs" by (auto simp: btree_holds_def)
  from assms have rest: "ascending carrier cmp xs" "bt_compare s = cmp" "bt_size s = length xs"
    "limit = (if btree_is_fixed s then Some (bt_capacity s) else None)"
    by (simp_all add: btree_holds_def)
  from assms have max: "if btree_is_fixed s then bt_capacity s \<le> SIZE_MAX else length xs + m \<le> SIZE_MAX"
    by (auto simp: btree_holds_def)
  have "length (addrs t) = length xs" using t(2) by auto
  with btree_rel_length [OF t(1)] have c: "btree_is_fixed s \<Longrightarrow> length xs + length fs = bt_capacity s" by simp
  have "length xs \<le> SIZE_MAX" using max c by (cases "btree_is_fixed s") auto
  with t rest(1-4) c show thesis by (intro that)
qed

lemma btree_insert_law:
  assumes h: "bholds env limit (Suc m) s xs" and e: "carrier e"
  shows "sim_meets (bholds env limit m) (ord_step cmp limit xs (Ord_insert e)) (no_out (btree_insert env s (Some e)))"
proof -
  from bholdsE [OF h] obtain t fs where t: "btree_rel s t [] fs" "elems t = xs" "ascending carrier cmp xs" "bt_compare s = cmp"
    "bt_size s = length xs" "length xs \<le> SIZE_MAX" "limit = (if btree_is_fixed s then Some (bt_capacity s) else None)"
    "btree_is_fixed s \<Longrightarrow> length xs + length fs = bt_capacity s" by metis
  note asc = ascending_insert(1) [OF t(3) e]
  from t(1,4) e t(3) [folded t(2)] show ?thesis
  proof (cases rule: btree_cases)
    case (hit gs L a x R)
    note split = hit(4-6) [unfolded t(2)]
    from hit(8) obtain nd where nd: "read_link s (hole Root_link gs) = Some a" "a \<noteq> 0" "bt_nodes s a = Some nd" "bn_data nd = x"
      by (rule tree_at_node)
    from btree_set_data [OF t(1) [unfolded hit(1)], of e] obtain s' where s': "btree_update s a (\<lambda>nd. nd\<lparr>bn_data := e\<rparr>) = Some s'"
      "btree_rel s' (plug gs \<langle>L, (a, e), R\<rangle>) [] fs" "btree_frame s s'" "bt_size s' = bt_size s" by blast
    have "btree_update s a (\<lambda>nd. nd\<lparr>bn_data := copy_assign (bt_policy s) x e\<rparr>) = Some s'"
      using s'(1) btree_relD(3) [OF t(1)] by simp
    then have "btree_insert_node env s (hole Root_link gs) e = Some (Ok, False, s')"
      using nd hit(3) t(4) btree_relD(3) [OF t(1)] by (subst btree_insert_node.simps) (simp add: btree_update_def)
    then have "btree_insert env s (Some e) = Some (Ok, s')"
      using insert_descends [OF hit(7), of e env] hit(2) t(4) by (simp add: btree_insert_def)
    moreover have el: "elems (plug gs \<langle>L, (a, e), R\<rangle>) = ord_below cmp e xs @ e # ord_above cmp e xs" using split by simp
    have "length (ord_below cmp e xs @ e # ord_above cmp e xs) = length xs"
      unfolding split(1,2) using t(2) hit(1) by auto
    then have "bholds env limit m s' (ord_below cmp e xs @ e # ord_above cmp e xs)"
      using bholds_change [OF h s'(2) el asc s'(3), of m] s'(4) t(5) by simp
    ultimately show ?thesis using split(3) by (intro sim_meetsI) auto
  next
    case (miss gs)
    note split = miss(3-5) [unfolded t(2)]
    have step: "btree_insert_node env s Root_link e = btree_insert_node env s (hole Root_link gs) e"
      using insert_descends [OF miss(6), of e env] miss(2) t(4) by simp
    have len: "length (ord_below cmp e xs @ e # ord_above cmp e xs) = Suc (length xs)"
      unfolding split(1,2) using t(2) miss(1) by auto
    show ?thesis
    proof (cases "seq_room limit xs")
      case True
      have "if btree_is_fixed s then fs \<noteq> [] else btree_serves env s"
        using True t(7,8) h by (auto simp: seq_room_def btree_holds_def)
      from btree_make_node_ok [OF t(1) this, of e] obtain a s1 fs1 where s1: "btree_make_node env s e = Some (Ok, a, s1)"
        "btree_rel s1 (plug gs \<langle>\<rangle>) [a] fs1" "btree_frame s s1" "bt_size s1 = bt_size s"
        "bt_nodes s1 a = Some \<lparr>bn_left = 0, bn_right = 0, bn_data = e\<rparr>" unfolding miss(1) by blast
      have "\<exists>s'. write_link s1 (hole Root_link gs) a = Some s' \<and> btree_rel s' (plug gs \<langle>\<langle>\<rangle>, (a, e), \<langle>\<rangle>\<rangle>) [] fs1 \<and> btree_frame s1 s' \<and>
        bt_size s' = bt_size s1 \<and> bt_destroyed s' = bt_destroyed s1 \<and> bt_allocs s' = bt_allocs s1 \<and> bdata s' = bdata s1 \<and>
        (\<forall>k. k \<noteq> hole Root_link gs \<longrightarrow> read_link s' k = read_link s1 k)"
      proof (rule btree_relink [OF s1(2)])
        show "tree_at s' (hole Root_link gs) \<langle>\<langle>\<rangle>, (a, e), \<langle>\<rangle>\<rangle>"
          if "keeps (tnodes \<langle>\<langle>\<rangle>, (a, e), \<langle>\<rangle>\<rangle>) s1 s'" "read_link s' (hole Root_link gs) = Some a" for s'
          using keepsD [OF that(1), of a] that(2) s1(5) btree_relD(4) [OF s1(2), of a] by (simp add: bdata_Some) (simp add: read_link.simps bdata_def)
      qed auto
      then obtain s2 where s2: "write_link s1 (hole Root_link gs) a = Some s2" "btree_rel s2 (plug gs \<langle>\<langle>\<rangle>, (a, e), \<langle>\<rangle>\<rangle>) [] fs1"
        "btree_frame s1 s2" "bt_size s2 = bt_size s1" by blast
      have "btree_insert_node env s (hole Root_link gs) e = Some (Ok, True, s2)"
        using miss(7) s1(1) s2(1) by (subst btree_insert_node.simps) simp
      then have ins: "btree_insert env s (Some e) = Some (Ok, s2\<lparr>bt_size := sz_add (bt_size s2) 1\<rparr>)"
        using step by (simp add: btree_insert_def)
      have "Suc (length xs) \<le> SIZE_MAX" using h True t(7,8) by (auto simp: btree_holds_def seq_room_def split: option.splits)
      then have size: "sz_add (bt_size s2) 1 = Suc (length xs)" using s2(4) s1(4) t(5) by (simp add: size_simps)
      have el: "elems (plug gs \<langle>\<langle>\<rangle>, (a, e), \<langle>\<rangle>\<rangle>) = ord_below cmp e xs @ e # ord_above cmp e xs" using split by simp
      have fr: "btree_frame s s2" using btree_frame_trans [OF s1(3) s2(3)] .
      have "bholds env limit m (s2\<lparr>bt_size := sz_add (bt_size s2) 1\<rparr>) (ord_below cmp e xs @ e # ord_above cmp e xs)"
        by (rule bholds_change [OF h _ el asc]) (use s2(2) fr size len in simp_all)
      with ins True show ?thesis by (intro sim_meetsI) auto
    next
      case False
      then have fixed: "btree_is_fixed s" "bt_capacity s \<le> length xs" using t(7) by (auto simp: seq_room_def split: if_splits)
      have "length fs = 0" using t(8) [OF fixed(1)] fixed(2) by linarith
      with fixed have full: "btree_is_fixed s" "fs = []" by simp_all
      have "btree_insert_node env s (hole Root_link gs) e = Some (Full, False, s)"
        using miss(7) btree_make_node_full [OF t(1) [unfolded full(2)] full(1), of env e] by (subst btree_insert_node.simps) simp
      then have "btree_insert env s (Some e) = Some (Full, s)" using step by (simp add: btree_insert_def)
      with False split(3) bholds_less [of env limit 1 m s xs] h show ?thesis by (intro sim_meetsI) auto
    qed
  qed
qed

end

context three_way
begin

lemma btree_remove_law:
  assumes h: "bholds env limit m s xs" and k: "carrier k"
  shows "sim_meets (bholds env limit m) (ord_step cmp limit xs (Ord_remove k)) (no_out (btree_remove env s (Some k)))"
proof -
  from bholdsE [OF h] obtain t fs where t: "btree_rel s t [] fs" "elems t = xs" "ascending carrier cmp xs" "bt_compare s = cmp"
    "bt_size s = length xs" "length xs \<le> SIZE_MAX" by metis
  note asc = ascending_insert(2) [OF t(3) k]
  from t(1,4) k t(3) [folded t(2)] show ?thesis
  proof (cases rule: btree_cases)
    case (hit gs L a x R)
    note split = hit(4-6) [unfolded t(2)]
    have kx: "bt_compare s k x = 0" using hit(3) t(4) by simp
    note r = t(1) [unfolded hit(1)]
    have "\<exists>s' t' fs'. btree_remove_node env s (hole Root_link gs) k = Some (Ok, True, s') \<and> btree_rel s' t' [] fs' \<and>
      elems t' = ord_below cmp k xs @ ord_above cmp k xs \<and> btree_frame s s' \<and> bt_size s' = bt_size s"
    proof (cases "L = \<langle>\<rangle> \<or> R = \<langle>\<rangle>")
      case True
      from remove_outer [OF r kx True, of env] obtain s' fs' where s': "btree_remove_node env s (hole Root_link gs) k = Some (Ok, True, s')"
        "btree_rel s' (plug gs (if L = \<langle>\<rangle> then R else L)) [] fs'" "btree_frame s s'" "bt_size s' = bt_size s" by blast
      moreover have "elems (plug gs (if L = \<langle>\<rangle> then R else L)) = ord_below cmp k xs @ ord_above cmp k xs"
        using True split(1,2) by auto
      ultimately show ?thesis by blast
    next
      case False
      then have two: "L \<noteq> \<langle>\<rangle>" "R \<noteq> \<langle>\<rangle>" by auto
      from remove_inner [OF r kx two, of env] obtain s' fs' y R' where s': "btree_remove_node env s (hole Root_link gs) k = Some (Ok, True, s')"
        "elems R = y # elems R'" "btree_rel s' (plug gs \<langle>L, (a, y), R'\<rangle>) [] fs'" "btree_frame s s'" "bt_size s' = bt_size s" by (elim exE conjE) (rule that)
      moreover have "elems (plug gs \<langle>L, (a, y), R'\<rangle>) = ord_below cmp k xs @ ord_above cmp k xs"
        using s'(2) split(1,2) by simp
      ultimately show ?thesis by blast
    qed
    then obtain s' t' fs' where s': "btree_remove_node env s (hole Root_link gs) k = Some (Ok, True, s')" "btree_rel s' t' [] fs'"
      "elems t' = ord_below cmp k xs @ ord_above cmp k xs" "btree_frame s s'" "bt_size s' = bt_size s" by blast
    have len: "Suc (length (ord_below cmp k xs @ ord_above cmp k xs)) = length xs"
      unfolding split(1,2) using t(2) hit(1) by auto
    then have size: "sz_sub (bt_size s') 1 = length (ord_below cmp k xs @ ord_above cmp k xs)"
      using s'(5) t(5,6) by (simp add: size_simps)
    have "btree_remove env s (Some k) = Some (Ok, s'\<lparr>bt_size := sz_sub (bt_size s') 1\<rparr>)"
      using s'(1) remove_descends [OF hit(7), of k env] hit(2) t(4) by (simp add: btree_remove_def)
    moreover have "bholds env limit m (s'\<lparr>bt_size := sz_sub (bt_size s') 1\<rparr>) (ord_below cmp k xs @ ord_above cmp k xs)"
      by (rule bholds_change [OF h _ s'(3) asc]) (use s'(2,4) size len in simp_all)
    ultimately show ?thesis using split(3) by (intro sim_meetsI) auto
  next
    case (miss gs)
    note split = miss(3-5) [unfolded t(2)]
    have "btree_remove_node env s (hole Root_link gs) k = Some (Not_found, False, s)"
      using miss(7) by (subst btree_remove_node.simps) simp
    then have "btree_remove env s (Some k) = Some (Not_found, s)"
      using remove_descends [OF miss(6), of k env] miss(2) t(4) by (simp add: btree_remove_def)
    with split(3) h show ?thesis by (intro sim_meetsI) auto
  qed
qed

lemma btree_find_ok:
  assumes h: "bholds env limit m s xs" and k: "carrier k"
  shows "\<exists>p. btree_find_node s k = Some p \<and> (if element_at cmp k xs = None then p = 0 else p \<noteq> 0 \<and> bdata s p = element_at cmp k xs)"
proof -
  from bholdsE [OF h] obtain t fs where t: "btree_rel s t [] fs" "elems t = xs" "ascending carrier cmp xs" "bt_compare s = cmp" by metis
  have f: "btree_find_node s k = find_from s k Root_link" by (simp add: btree_find_node_def find_from_def read_link.simps)
  from t(1,4) k t(3) [folded t(2)] show ?thesis
  proof (cases rule: btree_cases)
    case (hit gs L a x R)
    from hit(8) obtain nd where nd: "read_link s (hole Root_link gs) = Some a" "a \<noteq> 0" "bt_nodes s a = Some nd" "bn_data nd = x"
      by (rule tree_at_node)
    with hit(3) t(4) have "find_from s k (hole Root_link gs) = Some a" by (simp add: find_from_def btree_find_loop.simps)
    with find_descends [OF hit(7), of k] hit(2,6) t(2,4) nd f show ?thesis by (simp add: bdata_Some)
  next
    case (miss gs)
    then have "find_from s k (hole Root_link gs) = Some 0" by (simp add: find_from_def btree_find_loop.simps)
    with find_descends [OF miss(6), of k] miss(2,5) t(2,4) f show ?thesis by simp
  qed
qed

lemma btree_lookup_laws:
  assumes h: "bholds env limit m s xs" and k: "carrier k"
  shows "sim_meets (bholds env limit m) (ord_step cmp limit xs (Ord_get k)) (reading s (btree_get s (Some k) (Some d)))"
    and "sim_meets (bholds env limit m) (ord_step cmp limit xs (Ord_contains k))
      (map_option (\<lambda>b. (if b then Ok else Not_found, None, s)) (btree_contains s (Some k)))"
proof -
  from btree_find_ok [OF h k] obtain p where p: "btree_find_node s k = Some p"
    "if element_at cmp k xs = None then p = 0 else p \<noteq> 0 \<and> bdata s p = element_at cmp k xs" by blast
  show "sim_meets (bholds env limit m) (ord_step cmp limit xs (Ord_get k)) (reading s (btree_get s (Some k) (Some d)))"
  proof (cases "element_at cmp k xs")
    case None
    with p h show ?thesis by (auto simp: sim_meets_def btree_get_def)
  next
    case (Some x)
    with p obtain nd where "bt_nodes s p = Some nd" "bn_data nd = x" "p \<noteq> 0" by (auto simp: bdata_Some)
    with Some p h show ?thesis by (auto simp: sim_meets_def btree_get_def)
  qed
  show "sim_meets (bholds env limit m) (ord_step cmp limit xs (Ord_contains k))
      (map_option (\<lambda>b. (if b then Ok else Not_found, None, s)) (btree_contains s (Some k)))"
    using p h by (auto simp: sim_meets_def btree_contains_def split: if_splits)
qed

lemma btree_end_laws:
  assumes h: "bholds env limit m s xs"
  shows "sim_meets (bholds env limit m) (ord_step cmp limit xs Ord_min) (reading s (btree_peek_min s (Some d)))"
    and "sim_meets (bholds env limit m) (ord_step cmp limit xs Ord_max) (reading s (btree_peek_max s (Some d)))"
proof -
  from bholdsE [OF h] obtain t fs where t: "btree_rel s t [] fs" "elems t = xs" "bt_size s = length xs" by metis
  have at: "tree_at s Root_link t" "read_link s Root_link = Some (bt_root s)" using btree_relD(1) [OF t(1)] by (simp_all add: read_link.simps)
  have e: "btree_empty s \<longleftrightarrow> xs = []" using t(3) by (simp add: btree_empty_def)
  show "sim_meets (bholds env limit m) (ord_step cmp limit xs Ord_min) (reading s (btree_peek_min s (Some d)))"
  proof (cases "xs = []")
    case True
    with e h show ?thesis by (auto simp: sim_meets_def btree_peek_min_def)
  next
    case False
    then have "t \<noteq> \<langle>\<rangle>" using t(2) by auto
    from leftmost [OF this] obtain gs a x R where g: "t = plug gs \<langle>\<langle>\<rangle>, (a, x), R\<rangle>" "lefts gs" by blast
    from min_loop_ok [OF at(1) [unfolded g(1)] g(2) at(2)] obtain nd where "btree_min_loop s (bt_root s) = Some a" "bt_nodes s a = Some nd" "bn_data nd = x"
      by (auto simp: bdata_Some)
    moreover have "hd xs = x" using t(2) g by auto
    ultimately show ?thesis using e False h by (auto simp: sim_meets_def btree_peek_min_def)
  qed
  show "sim_meets (bholds env limit m) (ord_step cmp limit xs Ord_max) (reading s (btree_peek_max s (Some d)))"
  proof (cases "xs = []")
    case True
    with e h show ?thesis by (auto simp: sim_meets_def btree_peek_max_def)
  next
    case False
    then have "t \<noteq> \<langle>\<rangle>" using t(2) by auto
    from rightmost [OF this] obtain gs a x L where g: "t = plug gs \<langle>L, (a, x), \<langle>\<rangle>\<rangle>" "rights gs" by blast
    from max_loop_ok [OF at(1) [unfolded g(1)] g(2) at(2)] obtain nd where "btree_max_loop s (bt_root s) = Some a" "bt_nodes s a = Some nd" "bn_data nd = x"
      by (auto simp: bdata_Some)
    moreover have "last xs = x" using t(2) g by auto
    ultimately show ?thesis using e False h by (auto simp: sim_meets_def btree_peek_max_def)
  qed
qed

lemma btree_call_law:
  assumes "bholds env limit (ord_cost c + m) s xs" "ord_carrier carrier c"
  shows "sim_meets (bholds env limit m) (ord_step cmp limit xs c) (btree_call env d s c)"
  using assms
  by (cases c) (simp_all only: btree_call.simps ord_cost.simps ord_carrier.simps ord_cmd.sel add_0 plus_1_eq_Suc
      btree_insert_law btree_remove_law btree_lookup_laws btree_end_laws)

lemma btree_simulation: "simulation (ord_carrier carrier) ord_cost (ord_step cmp limit) (btree_call env d) (bholds env limit)"
  by unfold_locales (rule btree_call_law)

end

interpretation typed_btree: simulation "ord_carrier (\<lambda>_ :: 'a :: linorder. True)" ord_cost "ord_step type_compare limit" "btree_call env d"
  "btree_holds (\<lambda>_. True) type_compare env limit"
  for limit and env :: "('a :: linorder, 'z) btree_env_scheme" and d
  by (rule typed_order.btree_simulation)

end
