(* ===== verification/Btree_Props.thy ===== *)
theory Btree_Props
  imports Btree_Set "HOL-Library.Multiset"
begin

text \<open>
  The tree from its initialisation on: runs of operations, traversals, \<open>clear\<close>, and what happens to the
  elements of removed nodes.
\<close>

section \<open>Initialisation\<close>

lemma btree_free_loop_ok:
  assumes "\<forall>j < i + n. btree_pool_node_at s j \<noteq> 0 \<and> bt_nodes s (btree_pool_node_at s j) \<noteq> None"
    "inj_on (btree_pool_node_at s) {..<i + n}" "path (bleft s) (bt_free s) fs 0" "distinct fs" "set fs = btree_pool_node_at s ` {..<i}"
  shows "\<exists>p h fs'. btree_free_loop s i n = Some (s\<lparr>bt_free := p, bt_nodes := h\<rparr>) \<and> path (\<lambda>a. map_option bn_left (h a)) p fs' 0 \<and>
    distinct fs' \<and> set fs' = btree_pool_node_at s ` {..<i + n} \<and> (\<forall>a. h a = None \<longleftrightarrow> bt_nodes s a = None)"
  using assms
proof (induction n arbitrary: i s fs)
  case 0
  then show ?case by (intro exI [of _ "bt_free s"] exI [of _ "bt_nodes s"] exI [of _ fs]) simp
next
  case (Suc n)
  let ?a = "btree_pool_node_at s i"
  from Suc.prems(1) have "?a \<noteq> 0 \<and> bt_nodes s ?a \<noteq> None" by simp
  then obtain nd where nd: "?a \<noteq> 0" "bt_nodes s ?a = Some nd" by blast
  have new: "?a \<notin> set fs"
  proof
    assume "?a \<in> set fs"
    then obtain j where "j < i" "btree_pool_node_at s j = ?a" using Suc.prems(5) by auto
    with inj_onD [OF Suc.prems(2), of j i] show False by simp
  qed
  define s1 where "s1 = s\<lparr>bt_nodes := (bt_nodes s)(?a \<mapsto> nd\<lparr>bn_left := bt_free s, bn_right := 0\<rparr>), bt_free := ?a\<rparr>"
  have na: "btree_pool_node_at s1 = btree_pool_node_at s" by (rule ext) (simp add: btree_pool_node_at_def s1_def)
  have "path (bleft s1) (bt_free s) fs 0" by (rule path_frame [OF Suc.prems(3)]) (use new in \<open>auto simp: s1_def\<close>)
  then have free: "path (bleft s1) (bt_free s1) (?a # fs) 0" using nd by (simp add: s1_def)
  have "\<exists>p h fs'. btree_free_loop s1 (Suc i) n = Some (s1\<lparr>bt_free := p, bt_nodes := h\<rparr>) \<and> path (\<lambda>a. map_option bn_left (h a)) p fs' 0 \<and>
    distinct fs' \<and> set fs' = btree_pool_node_at s1 ` {..<Suc i + n} \<and> (\<forall>a. h a = None \<longleftrightarrow> bt_nodes s1 a = None)"
  proof (rule Suc.IH [OF _ _ free], unfold na)
    show "\<forall>j < Suc i + n. btree_pool_node_at s j \<noteq> 0 \<and> bt_nodes s1 (btree_pool_node_at s j) \<noteq> None"
      using Suc.prems(1) by (simp add: s1_def)
    show "inj_on (btree_pool_node_at s) {..<Suc i + n}" using Suc.prems(2) by simp
    show "distinct (?a # fs)" using Suc.prems(4) new by simp
    show "set (?a # fs) = btree_pool_node_at s ` {..<Suc i}" using Suc.prems(5) by (simp add: lessThan_Suc)
  qed
  moreover have "btree_free_loop s i (Suc n) = btree_free_loop s1 (Suc i) n"
    using nd by (simp add: btree_update_def s1_def Let_def)
  moreover have "bt_nodes s1 a = None \<longleftrightarrow> bt_nodes s a = None" for a using nd by (auto simp: s1_def)
  ultimately show ?case unfolding na by (auto simp: s1_def)
qed

text \<open>A fixed tree without elements, after its free list is rebuilt.\<close>

lemma btree_init_free_list_ok:
  assumes "btree_pool_ok s" "btree_is_fixed s" "bt_root s = 0" "faithful (bt_policy s)"
  shows "\<exists>p h fs. btree_init_free_list s = Some (Ok, s\<lparr>bt_free := p, bt_nodes := h\<rparr>) \<and> btree_rel (s\<lparr>bt_free := p, bt_nodes := h\<rparr>) \<langle>\<rangle> [] fs"
proof -
  let ?s = "s\<lparr>bt_free := 0\<rparr>"
  have na: "btree_pool_node_at ?s = btree_pool_node_at s" by (rule ext) (simp add: btree_pool_node_at_def)
  have "\<exists>p h fs'. btree_free_loop ?s 0 (bt_capacity s) = Some (?s\<lparr>bt_free := p, bt_nodes := h\<rparr>) \<and> path (\<lambda>a. map_option bn_left (h a)) p fs' 0 \<and>
    distinct fs' \<and> set fs' = btree_pool_node_at ?s ` {..<0 + bt_capacity s} \<and> (\<forall>a. h a = None \<longleftrightarrow> bt_nodes ?s a = None)"
    by (rule btree_free_loop_ok [where fs = "[]"]) (use assms(1) na in \<open>simp_all add: btree_pool_ok_def\<close>)
  then obtain p h fs where fs: "btree_free_loop ?s 0 (bt_capacity s) = Some (?s\<lparr>bt_free := p, bt_nodes := h\<rparr>)" "path (\<lambda>a. map_option bn_left (h a)) p fs 0"
    "distinct fs" "set fs = btree_pool_node_at s ` {..<bt_capacity s}" "\<And>a. h a = None \<longleftrightarrow> bt_nodes s a = None" unfolding na by auto
  let ?r = "s\<lparr>bt_free := p, bt_nodes := h\<rparr>"
  have fr: "btree_frame s ?r" by (simp add: btree_frame_def)
  note f = btree_frame_simps [OF fr]
  have "btree_rel ?r \<langle>\<rangle> [] fs"
  proof (rule btree_relI, unfold f)
    show "btree_pool_ok ?r" using assms(1) fs(5) unfolding btree_pool_ok_def f by simp
  qed (use assms fs(2-4) in \<open>simp_all add: read_link.simps\<close>)
  moreover have "btree_init_free_list s = Some (Ok, ?r)" using fs(1) by (simp add: btree_init_free_list_def)
  ultimately show ?thesis by blast
qed

text \<open>The caller's pool.\<close>

definition btree_pool_memory :: "'e elem_policy \<Rightarrow> nat \<Rightarrow> (nat \<Rightarrow> 'e btree_node option) \<Rightarrow> nat \<Rightarrow> bool" where
  "btree_pool_memory pol base h n \<longleftrightarrow> base \<noteq> 0 \<and> base + n * (16 + ep_size pol) \<le> SIZE_MAX \<and>
     (\<forall>i < n. h (base + i * (16 + ep_size pol)) \<noteq> None)"

lemma btree_init_ok:
  assumes "btree_pool_memory pol base h n" "faithful pol" "0 < n" "n \<le> SIZE_MAX" "fl AND btree_fixed_pool \<noteq> 0"
  shows "\<exists>s. btree_init s0 pol cmp base h n fl = Some (Ok, s) \<and> btree_holds carrier cmp env (Some n) m s [] \<and> bt_destroyed s = bt_destroyed s0 \<and>
    bt_policy s = pol"
proof -
  let ?s = "s0\<lparr>bt_policy := pol, bt_compare := cmp, bt_pool := base, bt_nodes := h, bt_capacity := n, bt_root := 0, bt_size := 0,
    bt_flags := fl, bt_kind := 0\<rparr>"
  have at: "btree_pool_node_at ?s i = base + i * (16 + ep_size pol)" if "i < n" for i
    using pool_address [of base n "16 + ep_size pol" i] assms(1) that
    by (simp add: btree_pool_memory_def btree_pool_node_at_def btree_node_stride_def sz_add_eq)
  have fixed: "btree_is_fixed ?s" using assms(5) by (simp add: btree_is_fixed_def)
  have "btree_pool_ok ?s" using assms(1) at by (auto simp: btree_pool_ok_def btree_pool_memory_def inj_on_def)
  from btree_init_free_list_ok [OF this fixed] assms(2) obtain p h' fs where r: "btree_init_free_list ?s = Some (Ok, ?s\<lparr>bt_free := p, bt_nodes := h'\<rparr>)"
    "btree_rel (?s\<lparr>bt_free := p, bt_nodes := h'\<rparr>) \<langle>\<rangle> [] fs" by auto
  let ?r = "?s\<lparr>bt_free := p, bt_nodes := h'\<rparr>"
  have "btree_holds carrier cmp env (Some n) m ?r []"
    using r(2) fixed assms(4) unfolding btree_holds_def
    by (auto simp: ascending_def btree_is_fixed_def intro!: exI [of _ "\<langle>\<rangle>"])
  with r(1) assms(1,3) show ?thesis by (intro exI [of _ ?r]) (simp add: btree_init_def btree_pool_memory_def)
qed

lemma btree_init_dynamic_ok:
  assumes "faithful pol" "btree_serves env s0" "m \<le> SIZE_MAX"
  shows "\<exists>s. btree_init_dynamic s0 pol cmp = (Ok, s) \<and> btree_holds carrier cmp env None m s []"
proof -
  obtain s where s: "btree_init_dynamic s0 pol cmp = (Ok, s)" "bt_root s = 0" "bt_size s = 0" "bt_policy s = pol" "bt_compare s = cmp"
    "bt_arena s = bt_arena s0" "\<not> btree_is_fixed s"
    by (simp add: btree_init_dynamic_def btree_is_fixed_def btree_heap_dynamic_def btree_fixed_pool_def)
  then have "btree_rel s \<langle>\<rangle> [] []" using assms(1) by (simp add: btree_rel_def read_link.simps)
  with s assms(2,3) have "btree_holds carrier cmp env None m s []"
    unfolding btree_holds_def by (auto simp: ascending_def btree_serves_def intro!: exI [of _ "\<langle>\<rangle>"])
  with s(1) show ?thesis by blast
qed

section \<open>Walks\<close>

fun traversed :: "traversal \<Rightarrow> (nat \<times> 'e) tree \<Rightarrow> 'e list" where
  "traversed Inorder t = map snd (inorder t)"
| "traversed Preorder t = map snd (preorder t)"
| "traversed Postorder t = map snd (postorder t)"

lemma btree_traverse_ok:
  "tree_at s l t \<Longrightarrow> read_link s l = Some p \<Longrightarrow> btree_traverse s order visit p w = Some (visit_all visit (traversed order t) w)"
proof (induction t arbitrary: l p w)
  case Leaf
  then show ?case by (subst btree_traverse.simps) (cases order; simp)
next
  case (Node L ax R)
  obtain a x where ax: "ax = (a, x)" by fastforce
  from Node.prems(1) obtain nd where nd: "read_link s l = Some a" "a \<noteq> 0" "bt_nodes s a = Some nd" "bn_data nd = x"
    "tree_at s (Left_link a) L" "tree_at s (Right_link a) R" unfolding ax by (rule tree_at_node)
  have links: "read_link s (Left_link a) = Some (bn_left nd)" "read_link s (Right_link a) = Some (bn_right nd)" using nd(3) by (simp_all add: read_link.simps)
  note ih = Node.IH(1) [OF nd(5) links(1)] Node.IH(2) [OF nd(6) links(2)]
  have "p = a" using Node.prems(2) nd(1) by simp
  then show ?case using nd(2-4) ih ax
    by (subst btree_traverse.simps) (cases order; simp add: visit_all_append ok_iff split: prod.splits if_splits)
qed

lemma btree_clear_subtree_ok:
  assumes "tree_at s l t" "read_link s l = Some p" "distinct (addrs t)"
  shows "\<exists>s'. btree_clear_subtree env s p = Some s' \<and> btree_frame s s' \<and> bt_size s' = bt_size s \<and>
    (\<forall>a. a \<notin> tnodes t \<longrightarrow> bt_nodes s' a = bt_nodes s a) \<and> (btree_is_fixed s \<longrightarrow> (\<forall>a. bt_nodes s' a = None \<longleftrightarrow> bt_nodes s a = None)) \<and>
    bt_destroyed s' = (if ep_destroy (bt_policy s) then bt_destroyed s @ map snd (postorder t) else bt_destroyed s)"
  using assms
proof (induction t arbitrary: s l p)
  case Leaf
  then show ?case by (intro exI [of _ s]) (subst btree_clear_subtree.simps, simp)
next
  case (Node L ax R)
  obtain a x where ax: "ax = (a, x)" by fastforce
  from Node.prems(1) obtain nd where nd: "read_link s l = Some a" "a \<noteq> 0" "bt_nodes s a = Some nd" "bn_data nd = x"
    "tree_at s (Left_link a) L" "tree_at s (Right_link a) R" unfolding ax by (rule tree_at_node)
  have d: "distinct (addrs L)" "distinct (addrs R)" "a \<notin> tnodes L" "a \<notin> tnodes R" "tnodes L \<inter> tnodes R = {}"
    using Node.prems(3) unfolding ax by auto
  have "read_link s (Left_link a) = Some (bn_left nd)" using nd(3) by (simp add: read_link.simps)
  from Node.IH(1) [OF nd(5) this d(1)] obtain s1 where s1: "btree_clear_subtree env s (bn_left nd) = Some s1" "btree_frame s s1" "bt_size s1 = bt_size s"
    "\<forall>a. a \<notin> tnodes L \<longrightarrow> bt_nodes s1 a = bt_nodes s a" "btree_is_fixed s \<longrightarrow> (\<forall>a. bt_nodes s1 a = None \<longleftrightarrow> bt_nodes s a = None)"
    "bt_destroyed s1 = (if ep_destroy (bt_policy s) then bt_destroyed s @ map snd (postorder L) else bt_destroyed s)" by blast
  have a1: "bt_nodes s1 a = Some nd" using s1(4) d(3) nd(3) by simp
  then have rr: "read_link s1 (Right_link a) = Some (bn_right nd)" by (simp add: read_link.simps)
  have "keeps (tnodes R) s s1" using s1(4) d(5) by (auto simp: keeps_def read_link.simps bdata_def)
  then have "tree_at s1 (Right_link a) R" using tree_frame [OF nd(6), of s1 "Right_link a"] rr nd(3) by (simp add: read_link.simps)
  from Node.IH(2) [OF this rr d(2)] obtain s2 where s2: "btree_clear_subtree env s1 (bn_right nd) = Some s2" "btree_frame s1 s2" "bt_size s2 = bt_size s1"
    "\<forall>a. a \<notin> tnodes R \<longrightarrow> bt_nodes s2 a = bt_nodes s1 a" "btree_is_fixed s1 \<longrightarrow> (\<forall>a. bt_nodes s2 a = None \<longleftrightarrow> bt_nodes s1 a = None)"
    "bt_destroyed s2 = (if ep_destroy (bt_policy s1) then bt_destroyed s1 @ map snd (postorder R) else bt_destroyed s1)" by blast
  have a2: "bt_nodes s2 a = Some nd" using s2(4) d(4) a1 by simp
  let ?s3 = "s2\<lparr>bt_destroyed := destroy (bt_policy s2) x (bt_destroyed s2)\<rparr>"
  have dv: "btree_destroy_node_value s2 a = Some ?s3" using a2 nd(4) by (intro destroy_node_value_ok) (simp add: bdata_Some)
  have "\<exists>s4. btree_release_node env ?s3 a = Some s4 \<and> btree_frame ?s3 s4 \<and> bt_size s4 = bt_size s2 \<and> bt_destroyed s4 = bt_destroyed ?s3 \<and>
    (\<forall>b. b \<noteq> a \<longrightarrow> bt_nodes s4 b = bt_nodes s2 b) \<and> (btree_is_fixed s2 \<longrightarrow> (\<forall>a. bt_nodes s4 a = None \<longleftrightarrow> bt_nodes s2 a = None))"
    using a2 nd(2) by (auto simp: btree_release_node_def btree_update_def btree_frame_def btree_is_fixed_def)
  then obtain s4 where s4: "btree_release_node env ?s3 a = Some s4" "btree_frame ?s3 s4" "bt_size s4 = bt_size s2" "bt_destroyed s4 = bt_destroyed ?s3"
    "\<forall>b. b \<noteq> a \<longrightarrow> bt_nodes s4 b = bt_nodes s2 b" "btree_is_fixed s2 \<longrightarrow> (\<forall>a. bt_nodes s4 a = None \<longleftrightarrow> bt_nodes s2 a = None)" by blast
  have fr: "btree_frame s s2" "btree_frame s s4" using s1(2) s2(2) s4(2) by (simp_all add: btree_frame_def)
  have "p = a" using Node.prems(2) nd(1) by simp
  then have "btree_clear_subtree env s p = Some s4"
    using nd(2,3) s1(1) a1 s2(1) dv s4(1) by (subst btree_clear_subtree.simps) simp
  moreover have "bt_destroyed s4 = (if ep_destroy (bt_policy s) then bt_destroyed s @ map snd (postorder \<langle>L, ax, R\<rangle>) else bt_destroyed s)"
    using s1(6) s2(6) s4(4) btree_frame_simps(1) [OF s1(2)] btree_frame_simps(1) [OF fr(1)] ax by (simp add: destroy_def)
  moreover have "\<forall>b. b \<notin> tnodes \<langle>L, ax, R\<rangle> \<longrightarrow> bt_nodes s4 b = bt_nodes s b" using s1(4) s2(4) s4(5) ax by simp
  moreover have "btree_is_fixed s \<longrightarrow> (\<forall>b. bt_nodes s4 b = None \<longleftrightarrow> bt_nodes s b = None)"
    using s1(5) s2(5) s4(6) btree_frame_simps(4) [OF s1(2)] btree_frame_simps(4) [OF fr(1)] by simp
  ultimately show ?case using fr(2) s1(3) s2(3) s4(3) by (intro exI [of _ s4]) simp
qed

lemma btree_clear_ok:
  assumes h: "btree_holds carrier cmp env limit m s xs" and t: "btree_rel s t [] fs"
  shows "\<exists>s'. btree_clear env s = Some s' \<and> btree_holds carrier cmp env limit m s' [] \<and>
    bt_destroyed s' = (if ep_destroy (bt_policy s) then bt_destroyed s @ map snd (postorder t) else bt_destroyed s)"
proof -
  have at: "tree_at s Root_link t" "read_link s Root_link = Some (bt_root s)" "distinct (addrs t)"
    using btree_relD(1,2) [OF t] by (simp_all add: read_link.simps)
  from btree_clear_subtree_ok [OF at, of env] obtain s1 where s1: "btree_clear_subtree env s (bt_root s) = Some s1" "btree_frame s s1"
    "btree_is_fixed s \<longrightarrow> (\<forall>a. bt_nodes s1 a = None \<longleftrightarrow> bt_nodes s a = None)"
    "bt_destroyed s1 = (if ep_destroy (bt_policy s) then bt_destroyed s @ map snd (postorder t) else bt_destroyed s)" by blast
  have e: "bt_root s = 0 \<longleftrightarrow> t = \<langle>\<rangle>" using tree_at_null [OF at(1)] at(2) by simp
  let ?s2 = "s1\<lparr>bt_root := 0, bt_size := 0\<rparr>"
  have c: "(if bt_root s \<noteq> 0 then do { s1 \<leftarrow> btree_clear_subtree env s (bt_root s); Some (s1\<lparr>bt_root := 0\<rparr>) } else Some s) = Some (s1\<lparr>bt_root := 0\<rparr>)"
  proof (cases "bt_root s = 0")
    case True
    then have "s1 = s" using s1(1) by (simp add: btree_clear_subtree.simps)
    with True show ?thesis by simp
  qed (simp add: s1(1))
  have fr: "btree_frame s ?s2" using s1(2) by (simp add: btree_frame_def)
  note f = btree_frame_simps [OF fr]
  have faith: "faithful (bt_policy s)" by (rule btree_relD(3) [OF t])
  have serves: "btree_serves env s' = btree_serves env s" if "bt_arena s' = bt_arena s" for s' :: "'a btree" using that by (simp add: btree_serves_def)
  have holds: "btree_holds carrier cmp env limit m s' []" if "btree_rel s' \<langle>\<rangle> [] gs" "btree_frame s s'" "bt_size s' = 0" for s' gs
    using h that btree_frame_simps [OF that(2)] serves [of s'] unfolding btree_holds_def
    by (auto simp: ascending_def intro!: exI [of _ "\<langle>\<rangle>"] split: option.splits)
  show ?thesis
  proof (cases "btree_is_fixed ?s2 \<and> bt_pool ?s2 \<noteq> 0")
    case True
    then have fixed: "btree_is_fixed s" unfolding f by simp
    have "btree_pool_ok ?s2" using btree_relD(6) [OF t fixed] s1(3) fixed unfolding btree_pool_ok_def f by simp
    from btree_init_free_list_ok [OF this] True faith obtain p h' gs where i: "btree_init_free_list ?s2 = Some (Ok, ?s2\<lparr>bt_free := p, bt_nodes := h'\<rparr>)"
      "btree_rel (?s2\<lparr>bt_free := p, bt_nodes := h'\<rparr>) \<langle>\<rangle> [] gs" unfolding f by auto
    let ?s3 = "?s2\<lparr>bt_free := p, bt_nodes := h'\<rparr>"
    have "btree_clear env s = Some ?s3"
      using c i(1) True by (simp add: btree_clear_def Let_def)
    moreover have "btree_holds carrier cmp env limit m ?s3 []"
      by (rule holds [OF i(2)]) (use fr in \<open>simp_all add: btree_frame_def\<close>)
    moreover have "bt_destroyed ?s3 = (if ep_destroy (bt_policy s) then bt_destroyed s @ map snd (postorder t) else bt_destroyed s)"
      using s1(4) by simp
    ultimately show ?thesis by blast
  next
    case False
    have "\<exists>gs. btree_rel ?s2 \<langle>\<rangle> [] gs"
    proof (cases "btree_is_fixed s")
      case True
      with False have "bt_pool s = 0" unfolding f by simp
      then have "btree_pool_node_at s 0 = 0" by (simp add: btree_pool_node_at_def sz_add_def sz_mul_def)
      with btree_relD(6) [OF t True] have "bt_capacity s = 0" by (auto simp: btree_pool_ok_def)
      with btree_rel_length [OF t True] have "t = \<langle>\<rangle>" "fs = []" by simp_all
      with e s1(1) have "s1 = s" "bt_root s = 0" by (simp_all add: btree_clear_subtree.simps)
      then have "?s2 = s\<lparr>bt_size := 0\<rparr>" by (cases s) simp
      moreover have "btree_rel (s\<lparr>bt_size := 0\<rparr>) \<langle>\<rangle> [] fs" using t \<open>t = \<langle>\<rangle>\<close> by simp
      ultimately show ?thesis by metis
    next
      case nf: False
      show ?thesis by (intro exI [of _ "[]"] btree_relI) (use nf f faith in \<open>simp_all add: read_link.simps\<close>)
    qed
    then obtain gs where "btree_rel ?s2 \<langle>\<rangle> [] gs" by blast
    from holds [OF this fr] have "btree_holds carrier cmp env limit m ?s2 []" by simp
    moreover have "btree_clear env s = Some ?s2" using c False by (auto simp: btree_clear_def Let_def)
    ultimately show ?thesis using s1(4) by (intro exI [of _ ?s2]) simp
  qed
qed

lemma postorder_mset: "mset (map snd (postorder t)) = mset (map snd (inorder t))"
  by (induction t) auto

section \<open>Properties\<close>

text \<open> C29.
  From \<open>init\<close> on a pool of \<open>n\<close> nodes, every sequence of \<open>insert\<close>, \<open>get\<close>, \<open>remove\<close>, \<open>contains\<close>,
  \<open>peek_min\<close> and \<open>peek_max\<close> gives the results of a set of at most \<open>n\<close> elements kept in the order of
  the comparator, for every comparator that is a total preorder on the keys used.
\<close>

theorem btree_is_ordered_set:
  assumes "btree_pool_memory pol base h n" "faithful pol" "0 < n" "n \<le> SIZE_MAX" "fl AND btree_fixed_pool \<noteq> 0"
    and "three_way carrier cmp" "\<forall>c \<in> set cs. ord_carrier carrier c"
  shows "\<exists>s s'. btree_init s0 pol cmp base h n fl = Some (Ok, s) \<and>
    sim_run (btree_call env d) s cs = Some (fst (sim_spec (ord_step cmp (Some n)) [] cs), s') \<and>
    btree_holds carrier cmp env (Some n) 0 s' (snd (sim_spec (ord_step cmp (Some n)) [] cs))"
proof -
  from btree_init_ok [OF assms(1-5), of s0 cmp carrier env "sum_list (map ord_cost cs) + 0"] obtain s where
    s: "btree_init s0 pol cmp base h n fl = Some (Ok, s)" "btree_holds carrier cmp env (Some n) (sum_list (map ord_cost cs) + 0) s []" by blast
  from simulation.run_refines [OF three_way.btree_simulation [OF assms(6)] s(2) assms(7), of d] s(1) show ?thesis by auto
qed

definition sample_btree_nodes :: "nat \<Rightarrow> nat btree_node option" where
  "sample_btree_nodes a = (if a = 1000 \<or> a = 1024 then Some \<lparr>bn_left = 3, bn_right = 7, bn_data = 0\<rparr> else None)"

definition sample_btree :: "nat btree" where
  "sample_btree = \<lparr>bt_policy = typed_trivial_policy 8 8, bt_compare = type_compare, bt_root = 0, bt_free = 0, bt_pool = 0, bt_size = 0,
     bt_capacity = 0, bt_flags = 0, bt_kind = 0, bt_arena = False, bt_nodes = (\<lambda>_. None), bt_allocs = 0, bt_destroyed = []\<rparr>"

definition sample_btree_env :: "nat btree_env" where
  "sample_btree_env = \<lparr>ne_allow_heap = True, ne_malloc = (\<lambda>_ _. True), ne_junk = 0, be_arena = (\<lambda>_ _. Oom)\<rparr>"

lemma sample_btree_pool: "btree_pool_memory (typed_trivial_policy 8 8) 1000 sample_btree_nodes 2"
proof -
  have "i = 0 \<or> i = 1" if "i < 2" for i :: nat using that by linarith
  then show ?thesis by (force simp: btree_pool_memory_def sample_btree_nodes_def SIZE_MAX_def)
qed

theorem btree_is_ordered_set_witness:
  "\<exists>s s'. btree_init sample_btree (typed_trivial_policy 8 8) type_compare 1000 sample_btree_nodes 2 1 = Some (Ok, s) \<and>
    sim_run (btree_call sample_btree_env 0) s [Ord_insert 5, Ord_insert 3, Ord_insert 9, Ord_min, Ord_max, Ord_remove 5, Ord_get 5, Ord_contains 3] =
    Some ([(Ok, None), (Ok, None), (Full, None), (Ok, Some 3), (Ok, Some 5), (Ok, None), (Not_found, None), (Ok, None)], s')"
proof -
  let ?cs = "[Ord_insert 5, Ord_insert 3, Ord_insert 9, Ord_min, Ord_max, Ord_remove 5, Ord_get 5, Ord_contains 3] :: nat ord_cmd list"
  have fl: "(1 :: u8) AND btree_fixed_pool \<noteq> 0" by (simp add: btree_fixed_pool_def)
  have r: "fst (sim_spec (ord_step type_compare (Some 2)) [] ?cs) =
    [(Ok, None), (Ok, None), (Full, None), (Ok, Some 3), (Ok, Some 5), (Ok, None), (Not_found, None), (Ok, None)]"
    by (simp add: ord_below_def ord_above_def element_at_def type_compare_def seq_room_def)
  show ?thesis
    using btree_is_ordered_set [OF sample_btree_pool _ _ _ fl typed_order.three_way_axioms, of ?cs sample_btree sample_btree_env 0] r
    by (auto simp: SIZE_MAX_def)
qed

text \<open> C30.
  The walks over a well-formed tree end: \<open>foreach\<close> visits every element once, in the requested order and up to the
  first error, in order meaning sorted; \<open>clear\<close> destroys every element once and leaves an empty tree.
\<close>

theorem btree_walks_end:
  fixes s :: "'e btree"
  assumes "btree_holds carrier cmp env limit m s xs"
  shows "\<exists>t :: (nat \<times> 'e) tree. traversed Inorder t = xs \<and>
    (\<forall>order. mset (traversed order t) = mset xs \<and> btree_foreach s order visit w = Some (visit_all visit (traversed order t) w)) \<and>
    (\<exists>s'. btree_clear env s = Some s' \<and> btree_holds carrier cmp env limit m s' [] \<and>
      bt_destroyed s' = bt_destroyed s @ (if ep_destroy (bt_policy s) then traversed Postorder t else []))"
proof -
  from assms obtain t fs where t: "btree_rel s t [] fs" "elems t = xs" by (auto simp: btree_holds_def)
  have "read_link s Root_link = Some (bt_root s)" by (simp add: read_link.simps)
  with btree_traverse_ok [of s Root_link t "bt_root s"] btree_relD(1) [OF t(1)]
  have "btree_foreach s order visit w = Some (visit_all visit (traversed order t) w)" for order by (simp add: btree_foreach_def)
  moreover have "mset (map snd (preorder t)) = mset (map snd (inorder t))" by (induction t) auto
  then have "mset (traversed order t) = mset xs" for order
    using t(2) postorder_mset [of t] by (cases order) simp_all
  moreover note btree_clear_ok [OF assms t(1)]
  ultimately show ?thesis using t(2) by (intro exI [of _ t]) (auto split: if_splits)
qed

definition sample_leaf :: "nat \<Rightarrow> nat btree_node" where
  "sample_leaf x = \<lparr>bn_left = 0, bn_right = 0, bn_data = x\<rparr>"

text \<open>Three elements on the heap, of a type with a destructor that is copied bytewise.\<close>

definition sample_full_btree :: "nat btree" where
  "sample_full_btree = sample_btree\<lparr>bt_policy := (typed_trivial_policy 8 8)\<lparr>ep_runtime := True, ep_destroy := True\<rparr>, bt_root := 1, bt_size := 3, bt_flags := 2, bt_allocs := 3,
     bt_nodes := [1 \<mapsto> \<lparr>bn_left = 2, bn_right = 3, bn_data = 5\<rparr>, 2 \<mapsto> sample_leaf 3, 3 \<mapsto> sample_leaf 7]\<rparr>"

lemma sample_full_btree_fields:
  "bt_compare sample_full_btree = type_compare" "ep_destroy (bt_policy sample_full_btree)" "bt_size sample_full_btree = 3"
  "bt_destroyed sample_full_btree = []"
  by (simp_all add: sample_full_btree_def sample_btree_def)

lemma sample_full_btree_rel: "btree_rel sample_full_btree \<langle>\<langle>\<langle>\<rangle>, (2, 3), \<langle>\<rangle>\<rangle>, (1, 5), \<langle>\<langle>\<rangle>, (3, 7), \<langle>\<rangle>\<rangle>\<rangle> [] []"
  by (simp add: btree_rel_def sample_full_btree_def sample_btree_def sample_leaf_def read_link.simps bdata_def btree_is_fixed_def
      btree_fixed_pool_def faithful_def)

lemma sample_full_btree_holds: "btree_holds (\<lambda>_. True) type_compare sample_btree_env None 9 sample_full_btree [3, 5, 7]"
proof -
  have "btree_serves sample_btree_env sample_full_btree"
    by (simp add: btree_serves_def sample_full_btree_def sample_btree_def sample_btree_env_def)
  moreover have "ascending (\<lambda>_. True) type_compare [3, 5, 7 :: nat]" by (simp add: ascending_def type_compare_def)
  moreover have "\<not> btree_is_fixed sample_full_btree" by (simp add: sample_full_btree_def btree_is_fixed_def btree_fixed_pool_def)
  ultimately show ?thesis
    using sample_full_btree_rel unfolding btree_holds_def
    by (auto simp: SIZE_MAX_def sample_full_btree_def sample_btree_def intro!: exI [of _ "\<langle>\<langle>\<langle>\<rangle>, (2, 3), \<langle>\<rangle>\<rangle>, (1, 5), \<langle>\<langle>\<rangle>, (3, 7), \<langle>\<rangle>\<rangle>\<rangle>"])
qed

theorem btree_walks_end_witness:
  "(\<exists>order. btree_foreach sample_full_btree order (\<lambda>x w. (Ok, w @ [x])) [] = Some (Ok, [3, 5, 7])) \<and>
    (\<exists>s'. btree_clear sample_btree_env sample_full_btree = Some s' \<and> bt_size s' = 0 \<and> mset (bt_destroyed s') = {#3, 5, 7#})"
proof -
  have v: "visit_all (\<lambda>x w. (Ok, w @ [x])) xs w = (Ok, w @ xs)" for xs w :: "nat list" by (induction xs arbitrary: w) simp_all
  from btree_walks_end [OF sample_full_btree_holds, of "\<lambda>x w. (Ok, w @ [x])" "[]"] obtain t :: "(nat \<times> nat) tree" and s' where
    t: "traversed Inorder t = [3, 5, 7]" "mset (traversed Postorder t) = mset [3, 5, 7 :: nat]"
      "btree_foreach sample_full_btree Inorder (\<lambda>x w. (Ok, w @ [x])) [] = Some (visit_all (\<lambda>x w. (Ok, w @ [x])) (traversed Inorder t) [])"
    and s': "btree_clear sample_btree_env sample_full_btree = Some s'" "btree_holds (\<lambda>_. True) type_compare sample_btree_env None 9 s' []"
      "bt_destroyed s' = bt_destroyed sample_full_btree @ (if ep_destroy (bt_policy sample_full_btree) then traversed Postorder t else [])" by metis
  from s'(2) have "bt_size s' = 0" by (simp add: btree_holds_def)
  moreover have "mset (bt_destroyed s') = {#3, 5, 7#}" using s'(3) t(2) by (simp add: sample_full_btree_fields del: traversed.simps)
  ultimately show ?thesis using t(1,3) s'(1) v by auto
qed

text \<open>
  Removing an element \<open>x\<close> whose node has two children destroys the successor \<open>y\<close> of \<open>x\<close>, which stays in the
  tree, and not \<open>x\<close>, which leaves it: the code copies \<open>y\<close> over \<open>x\<close> and then destroys the node it copied
  from. For elements that are copied bytewise the tree keeps an element that was destroyed.
\<close>

theorem btree_remove_destroys_kept:
  assumes "btree_rel s (plug gs \<langle>L, (a, x), R\<rangle>) [] fs" "descends (bt_compare s) k gs" "bt_compare s k x = 0"
    and "L \<noteq> \<langle>\<rangle>" "R \<noteq> \<langle>\<rangle>" "ep_destroy (bt_policy s)" "0 < bt_size s" "bt_size s \<le> SIZE_MAX"
  shows "\<exists>s' t' fs'. btree_remove env s (Some k) = Some (Ok, s') \<and> bt_destroyed s' = bt_destroyed s @ [hd (elems R)] \<and>
    btree_rel s' t' [] fs' \<and> elems t' = map snd (before gs) @ elems L @ elems R @ map snd (after gs) \<and> bt_size s' = bt_size s - 1"
proof -
  have c: "ctx_at s Root_link gs" using btree_relD(1) [OF assms(1)] by (simp add: tree_plug)
  from remove_inner [OF assms(1,3-5), of env] obtain s1 fs' y R' where s1: "btree_remove_node env s (hole Root_link gs) k = Some (Ok, True, s1)"
    "elems R = y # elems R'" "btree_rel s1 (plug gs \<langle>L, (a, y), R'\<rangle>) [] fs'" "bt_size s1 = bt_size s"
    "bt_destroyed s1 = destroy (bt_policy s) y (bt_destroyed s)" by auto
  let ?s = "s1\<lparr>bt_size := sz_sub (bt_size s1) 1\<rparr>"
  have "btree_remove env s (Some k) = Some (Ok, ?s)" using s1(1) remove_descends [OF c assms(2), of env] by (simp add: btree_remove_def)
  moreover have "btree_rel ?s (plug gs \<langle>L, (a, y), R'\<rangle>) [] fs'" using s1(3) by simp
  moreover have "sz_sub (bt_size s) 1 = bt_size s - 1" using assms(7,8) by (simp add: sz_sub_eq)
  ultimately show ?thesis using s1(2,4,5) assms(6)
    by (intro exI [of _ ?s] exI [of _ "plug gs \<langle>L, (a, y), R'\<rangle>"] exI [of _ fs']) (simp add: destroy_def)
qed

theorem btree_remove_destroys_kept_witness:
  "\<exists>s' t' fs'. btree_remove sample_btree_env sample_full_btree (Some 5) = Some (Ok, s') \<and> bt_destroyed s' = [7] \<and>
    btree_rel s' t' [] fs' \<and> elems t' = [3, 7] \<and> bt_size s' = 2"
proof -
  have "type_compare 5 (5 :: nat) = 0" by (simp add: type_compare_def)
  with btree_remove_destroys_kept [where gs = "[]" and k = 5 and env = sample_btree_env, OF _ _ _ _ _ _ _ _, of sample_full_btree
      "\<langle>\<langle>\<rangle>, (2, 3), \<langle>\<rangle>\<rangle>" 1 5 "\<langle>\<langle>\<rangle>, (3, 7), \<langle>\<rangle>\<rangle>" "[]"] sample_full_btree_rel
  show ?thesis unfolding sample_full_btree_fields by (simp add: SIZE_MAX_def sample_full_btree_fields(2))
qed

end
