(* ===== verification/Hooks.thy ===== *)
theory Hooks
  imports Linked
begin

text \<open>
  \<^verbatim>\<open>include/memkit/detail/intrusive_hook.hpp\<close>: hooks embedded in the caller's objects, linked into circular
  lists with a sentinel, or into singly linked lists. Hooks live in a store from addresses to hooks; a
  pointer to memory without a hook makes an access undefined (None).
\<close>

section \<open>Hooks\<close>

record hook =
  hk_next :: nat
  hk_prev :: nat

type_synonym hooks = "nat \<Rightarrow> hook option"

definition hook_init :: "hooks \<Rightarrow> nat \<Rightarrow> hooks option" where
  "hook_init h a = (if h a = None then None else Some (h(a \<mapsto> \<lparr>hk_next = a, hk_prev = a\<rparr>)))"

definition hook_is_linked :: "hooks \<Rightarrow> nat \<Rightarrow> bool option" where
  "hook_is_linked h a = map_option (\<lambda>k. hk_next k \<noteq> a) (h a)"

definition set_hook_next :: "hooks \<Rightarrow> nat \<Rightarrow> nat \<Rightarrow> hooks option" where
  "set_hook_next h a p = do {
     k \<leftarrow> h a;
     Some (h(a \<mapsto> k\<lparr>hk_next := p\<rparr>))
   }"

definition set_hook_prev :: "hooks \<Rightarrow> nat \<Rightarrow> nat \<Rightarrow> hooks option" where
  "set_hook_prev h a p = do {
     k \<leftarrow> h a;
     Some (h(a \<mapsto> k\<lparr>hk_prev := p\<rparr>))
   }"

text \<open>\<open>offset\<close> is the offset of the hook in its object.\<close>

definition container_from_hook :: "nat \<Rightarrow> nat \<Rightarrow> nat" where
  "container_from_hook offset hook = sz_sub hook offset"

section \<open>Circular lists\<close>

text \<open>The constructor of a list head at \<open>a\<close>: its sentinel is linked to itself.\<close>

definition head_construct :: "hooks \<Rightarrow> nat \<Rightarrow> hooks" where
  "head_construct h a = h(a \<mapsto> \<lparr>hk_next = a, hk_prev = a\<rparr>)"

definition insert_after :: "hooks \<Rightarrow> nat \<Rightarrow> nat \<Rightarrow> hooks option" where
  "insert_after h pos node = do {
     p \<leftarrow> h pos;
     h1 \<leftarrow> set_hook_next h node (hk_next p);
     h2 \<leftarrow> set_hook_prev h1 node pos;
     p2 \<leftarrow> h2 pos;
     h3 \<leftarrow> set_hook_prev h2 (hk_next p2) node;
     set_hook_next h3 pos node
   }"

definition head_empty :: "hooks \<Rightarrow> nat \<Rightarrow> bool option" where
  "head_empty h head = map_option Not (hook_is_linked h head)"

definition head_front :: "hooks \<Rightarrow> nat \<Rightarrow> nat option" where
  "head_front h head = map_option hk_next (h head)"

definition head_back :: "hooks \<Rightarrow> nat \<Rightarrow> nat option" where
  "head_back h head = map_option hk_prev (h head)"

definition head_push_front :: "hooks \<Rightarrow> nat \<Rightarrow> nat \<Rightarrow> hooks option" where
  "head_push_front h head node = insert_after h head node"

definition head_push_back :: "hooks \<Rightarrow> nat \<Rightarrow> nat \<Rightarrow> hooks option" where
  "head_push_back h head node = do {
     s \<leftarrow> h head;
     insert_after h (hk_prev s) node
   }"

text \<open>\<open>erase\<close> does not look at the head: it takes the node out of whatever list it is in.\<close>

definition hook_erase :: "hooks \<Rightarrow> nat \<Rightarrow> hooks option" where
  "hook_erase h node = do {
     linked \<leftarrow> hook_is_linked h node;
     if \<not> linked then Some h
     else do {
       k \<leftarrow> h node;
       h1 \<leftarrow> set_hook_next h (hk_prev k) (hk_next k);
       k1 \<leftarrow> h1 node;
       h2 \<leftarrow> set_hook_prev h1 (hk_next k1) (hk_prev k1);
       hook_init h2 node
     }
   }"

definition head_clear :: "hooks \<Rightarrow> nat \<Rightarrow> hooks option" where
  "head_clear h head = hook_init h head"

section \<open>Singly linked lists\<close>

record forward_list =
  fl_head :: nat
  fl_hooks :: "nat \<Rightarrow> nat option"

definition forward_is_linked :: "forward_list \<Rightarrow> nat \<Rightarrow> bool option" where
  "forward_is_linked l a = map_option (\<lambda>n. n \<noteq> 0) (fl_hooks l a)"

definition set_forward_next :: "forward_list \<Rightarrow> nat \<Rightarrow> nat \<Rightarrow> forward_list option" where
  "set_forward_next l a p = (if fl_hooks l a = None then None else Some (l\<lparr>fl_hooks := (fl_hooks l)(a \<mapsto> p)\<rparr>))"

definition forward_empty :: "forward_list \<Rightarrow> bool" where
  "forward_empty l \<longleftrightarrow> fl_head l = 0"

definition forward_front :: "forward_list \<Rightarrow> nat" where
  "forward_front l = fl_head l"

definition forward_push_front :: "forward_list \<Rightarrow> nat \<Rightarrow> forward_list option" where
  "forward_push_front l node = do {
     l1 \<leftarrow> set_forward_next l node (fl_head l);
     Some (l1\<lparr>fl_head := node\<rparr>)
   }"

definition forward_pop_front :: "forward_list \<Rightarrow> forward_list option" where
  "forward_pop_front l =
     (if fl_head l \<noteq> 0 then do {
        n \<leftarrow> fl_hooks l (fl_head l);
        Some (l\<lparr>fl_head := n\<rparr>)
      }
      else Some l)"

definition forward_erase :: "forward_list \<Rightarrow> nat \<Rightarrow> nat \<Rightarrow> forward_list option" where
  "forward_erase l node prev = do {
     l1 \<leftarrow> (if prev \<noteq> 0 then do {
              n \<leftarrow> fl_hooks l node;
              set_forward_next l prev n
            }
            else if fl_head l = node then do {
              n \<leftarrow> fl_hooks l node;
              Some (l\<lparr>fl_head := n\<rparr>)
            }
            else Some l);
     set_forward_next l1 node 0
   }"

definition forward_clear :: "forward_list \<Rightarrow> forward_list" where
  "forward_clear l = l\<lparr>fl_head := 0\<rparr>"

section \<open>Segments of circular lists\<close>

text \<open>From the hook \<open>x\<close> over the hooks \<open>ys\<close> to the hook \<open>z\<close>, linked both ways.\<close>

definition hnext :: "hooks \<Rightarrow> nat \<Rightarrow> nat option" where
  "hnext h a = map_option hk_next (h a)"

definition hprev :: "hooks \<Rightarrow> nat \<Rightarrow> nat option" where
  "hprev h a = map_option hk_prev (h a)"

fun seg :: "hooks \<Rightarrow> nat \<Rightarrow> nat list \<Rightarrow> nat \<Rightarrow> bool" where
  "seg h x [] z \<longleftrightarrow> hnext h x = Some z \<and> hprev h z = Some x"
| "seg h x (y # ys) z \<longleftrightarrow> hnext h x = Some y \<and> hprev h y = Some x \<and> seg h y ys z"

text \<open>The list with the sentinel \<open>head\<close> holds the nodes \<open>xs\<close>; an unlinked hook is a list without nodes.\<close>

definition linked_list :: "hooks \<Rightarrow> nat \<Rightarrow> nat list \<Rightarrow> bool" where
  "linked_list h head xs \<longleftrightarrow> seg h head xs head \<and> distinct (head # xs)"

lemma seg_append [simp]: "seg h x (ys @ y # zs) z \<longleftrightarrow> seg h x ys y \<and> seg h y zs z"
  by (induction ys arbitrary: x) auto

lemma seg_frame:
  "seg h x ys z \<Longrightarrow> \<forall>a \<in> insert x (set ys). hnext h' a = hnext h a \<Longrightarrow> \<forall>a \<in> insert z (set ys). hprev h' a = hprev h a \<Longrightarrow> seg h' x ys z"
  by (induction ys arbitrary: x) auto

lemma linked_list_frame: "linked_list h head xs \<Longrightarrow> \<forall>a \<in> insert head (set xs). h' a = h a \<Longrightarrow> linked_list h' head xs"
  unfolding linked_list_def by (auto simp: hnext_def hprev_def intro!: seg_frame [of h head xs head h'])

lemma hnext_Some: "hnext h a = Some n \<longleftrightarrow> (\<exists>k. h a = Some k \<and> hk_next k = n)"
  by (auto simp: hnext_def)

lemma hprev_Some: "hprev h a = Some n \<longleftrightarrow> (\<exists>k. h a = Some k \<and> hk_prev k = n)"
  by (auto simp: hprev_def)

lemma seg_ends:
  "seg h x ys z \<Longrightarrow> hnext h x = Some (hd (ys @ [z]))"
  "seg h x ys z \<Longrightarrow> hprev h z = Some (last (x # ys))"
  by (induction ys arbitrary: x) auto

lemma seg_nodes: "seg h x ys z \<Longrightarrow> a \<in> set (x # ys) \<Longrightarrow> h a \<noteq> None"
  by (induction ys arbitrary: x) (auto simp: hnext_Some hprev_Some)

lemma hnext_update: "hnext (h(a \<mapsto> k)) b = (if b = a then Some (hk_next k) else hnext h b)"
  by (simp add: hnext_def)

lemma hprev_update: "hprev (h(a \<mapsto> k)) b = (if b = a then Some (hk_prev k) else hprev h b)"
  by (simp add: hprev_def)

lemma linked_list_self: "linked_list h a [] \<longleftrightarrow> hnext h a = Some a \<and> hprev h a = Some a"
  by (simp add: linked_list_def)

lemma head_construct_ok: "linked_list (head_construct h a) a []"
  by (simp add: linked_list_self head_construct_def hnext_update hprev_update)

lemma is_linked_head: "linked_list h head xs \<Longrightarrow> hook_is_linked h head = Some (xs \<noteq> [])"
  by (cases xs) (auto simp: linked_list_def hook_is_linked_def hnext_Some)

lemma head_empty_ok: "linked_list h head xs \<Longrightarrow> head_empty h head = Some (xs = [])"
  by (simp add: head_empty_def is_linked_head)

lemma is_linked_node:
  assumes "linked_list h head xs" "a \<in> set xs"
  shows "hook_is_linked h a = Some True"
proof -
  obtain bs cs where xs: "xs = bs @ a # cs" using assms(2) by (meson split_list)
  with assms(1) have "seg h a cs head" "a \<notin> set cs" "a \<noteq> head" by (auto simp: linked_list_def)
  with seg_ends(1) [of h a cs head] show ?thesis by (cases cs) (auto simp: hook_is_linked_def hnext_Some)
qed

lemma head_front_ok: "linked_list h head (x # xs) \<Longrightarrow> head_front h head = Some x"
  by (simp add: linked_list_def head_front_def hnext_def)

lemma head_back_ok: "linked_list h head (xs @ [x]) \<Longrightarrow> head_back h head = Some x"
  by (simp add: linked_list_def head_back_def hprev_def)

lemma list_ends: "last (x # bs) \<in> set (x # bs)" "hd (cs @ [x]) \<in> set (x # cs)"
  using last_in_set [of "x # bs"] by (blast, cases cs, simp_all)

text \<open>Linking an unlinked hook behind another one.\<close>

lemma insert_after_ok:
  assumes l: "linked_list h head (bs @ cs)" and n: "h a \<noteq> None" "a \<notin> set (head # bs @ cs)" and p: "p = last (head # bs)"
  shows "\<exists>h'. insert_after h p a = Some h' \<and> linked_list h' head (bs @ a # cs) \<and> (\<forall>b. b \<notin> set (head # a # bs @ cs) \<longrightarrow> h' b = h b) \<and>
    (\<forall>b. h' b = None \<longleftrightarrow> h b = None)"
proof -
  let ?n = "hd (cs @ [head])"
  have s: "seg h head (bs @ cs) head" "distinct (head # bs @ cs)" using l by (simp_all add: linked_list_def)
  have pn: "hnext h p = Some ?n" "hprev h ?n = Some p"
    using s p by (cases bs rule: rev_cases; cases cs; auto)+
  obtain kp where kp: "h p = Some kp" "hk_next kp = ?n" using pn by (auto simp: hnext_Some)
  obtain kn where kn: "h ?n = Some kn" using pn by (auto simp: hprev_Some)
  obtain ka where ka: "h a = Some ka" using n(1) by blast
  have i: "p \<in> set (head # bs)" "?n \<in> set (head # cs)" using p by (simp_all only: list_ends)
  then have ne: "a \<noteq> p" "a \<noteq> ?n" using n(2) by auto
  let ?h1 = "h(a \<mapsto> ka\<lparr>hk_next := ?n, hk_prev := p\<rparr>)"
  let ?h2 = "?h1(?n \<mapsto> kn\<lparr>hk_prev := a\<rparr>)"
  define h3 where "h3 = ?h2(p \<mapsto> (the (?h2 p))\<lparr>hk_next := a\<rparr>)"
  have ins: "insert_after h p a = Some h3"
    using kp kn ka ne by (auto simp: insert_after_def set_hook_next_def set_hook_prev_def h3_def fun_upd_def)
  have nx: "hnext h3 b = (if b = p then Some a else if b = a then Some ?n else hnext h b)" for b
    using ne kn by (auto simp: h3_def hnext_def)
  have pv: "hprev h3 b = (if b = ?n then Some a else if b = a then Some p else hprev h b)" for b
    using ne kp kn by (auto simp: h3_def hprev_def)
  have "seg h3 head (bs @ a # cs) head"
  proof -
    have "seg h3 head bs a"
    proof (cases bs rule: rev_cases)
      case Nil
      then show ?thesis using p ne by (simp add: nx pv)
    next
      case (snoc bs' q)
      then have "seg h head bs' q" using s(1) by (cases cs) auto
      then have "seg h3 head bs' q"
      proof (rule seg_frame)
        show "\<forall>b \<in> insert head (set bs'). hnext h3 b = hnext h b" using s(2) n(2) p snoc by (auto simp: nx)
        show "\<forall>b \<in> insert q (set bs'). hprev h3 b = hprev h b" using s(2) n(2) p snoc by (cases cs) (auto simp: pv)
      qed
      with snoc p ne show ?thesis by (simp add: nx pv)
    qed
    moreover have "seg h3 a cs head"
    proof (cases cs)
      case Nil
      then show ?thesis using ne by (simp add: nx pv)
    next
      case (Cons q cs')
      then have "seg h q cs' head" using s(1) by (cases bs rule: rev_cases) auto
      then have "seg h3 q cs' head"
      proof (rule seg_frame)
        show "\<forall>b \<in> insert q (set cs'). hnext h3 b = hnext h b"
          using s(2) n(2) p Cons by (cases bs rule: rev_cases) (auto simp: nx)
        show "\<forall>b \<in> insert head (set cs'). hprev h3 b = hprev h b" using s(2) n(2) Cons by (auto simp: pv)
      qed
      with Cons ne show ?thesis by (simp add: nx pv)
    qed
    ultimately show ?thesis by simp
  qed
  moreover have "h3 b = h b" if "b \<notin> set (head # a # bs @ cs)" for b
  proof -
    have "b \<notin> set (head # bs)" "b \<notin> set (head # cs)" "b \<noteq> a" using that by simp_all
    with i have "b \<noteq> p" "b \<noteq> ?n" "b \<noteq> a" by blast+
    then show ?thesis by (simp add: h3_def)
  qed
  moreover have "h3 b = None \<longleftrightarrow> h b = None" for b using kp kn ka by (auto simp: h3_def)
  ultimately show ?thesis using ins s(2) n(2) by (intro exI [of _ h3]) (auto simp: linked_list_def)
qed

lemma head_push_back_ok:
  assumes "linked_list h head xs" "h a \<noteq> None" "a \<notin> set (head # xs)"
  shows "\<exists>h'. head_push_back h head a = Some h' \<and> linked_list h' head (xs @ [a]) \<and> (\<forall>b. b \<notin> set (head # a # xs) \<longrightarrow> h' b = h b) \<and>
    (\<forall>b. h' b = None \<longleftrightarrow> h b = None)"
proof -
  have "hprev h head = Some (last (head # xs))" using assms(1) seg_ends(2) [of h head xs head] by (simp add: linked_list_def)
  then have "head_push_back h head a = insert_after h (last (head # xs)) a" by (auto simp: head_push_back_def hprev_Some)
  with insert_after_ok [of h head xs "[]" a] assms show ?thesis by simp
qed

lemma head_push_front_ok:
  assumes "linked_list h head xs" "h a \<noteq> None" "a \<notin> set (head # xs)"
  shows "\<exists>h'. head_push_front h head a = Some h' \<and> linked_list h' head (a # xs) \<and> (\<forall>b. b \<notin> set (head # a # xs) \<longrightarrow> h' b = h b) \<and>
    (\<forall>b. h' b = None \<longleftrightarrow> h b = None)"
  using insert_after_ok [of h head "[]" xs a] assms by (simp add: head_push_front_def)

text \<open>Taking a node out of its list.\<close>

lemma hook_erase_ok:
  assumes l: "linked_list h head (bs @ a # cs)"
  shows "\<exists>h'. hook_erase h a = Some h' \<and> linked_list h' head (bs @ cs) \<and> linked_list h' a [] \<and>
    (\<forall>b. b \<notin> set (head # bs @ a # cs) \<longrightarrow> h' b = h b) \<and> (\<forall>b. h' b = None \<longleftrightarrow> h b = None)"
proof -
  let ?n = "hd (cs @ [head])" and ?p = "last (head # bs)"
  have s: "seg h head bs a" "seg h a cs head" "distinct (head # bs @ a # cs)" using l by (simp_all add: linked_list_def)
  note e = seg_ends(1) [OF s(2)] seg_ends(2) [OF s(1)]
  obtain ka where ka: "h a = Some ka" "hk_next ka = ?n" "hk_prev ka = ?p" using e by (auto simp: hnext_Some hprev_Some)
  have i: "?p \<in> set (head # bs)" "?n \<in> set (head # cs)" by (simp_all only: list_ends)
  then have ne: "?p \<noteq> a" "?n \<noteq> a" using s(3) by auto
  obtain kp where kp: "h ?p = Some kp" using seg_nodes [OF s(1), of ?p] i(1) by blast
  obtain kn where kn: "h ?n = Some kn" using seg_nodes [OF s(2)] seg_nodes [OF s(1), of head] i(2) by (metis insertE list.set_intros(1) list.simps(15) not_Some_eq set_ConsD list.set_intros(2))
  let ?h1 = "h(?p \<mapsto> kp\<lparr>hk_next := ?n\<rparr>)"
  let ?h2 = "?h1(?n \<mapsto> (the (?h1 ?n))\<lparr>hk_prev := ?p\<rparr>)"
  define h3 where "h3 = ?h2(a \<mapsto> \<lparr>hk_next = a, hk_prev = a\<rparr>)"
  have er: "hook_erase h a = Some h3"
    using is_linked_node [OF l, of a] ka kp kn ne by (simp add: hook_erase_def set_hook_next_def set_hook_prev_def hook_init_def h3_def)
  have nx: "hnext h3 b = (if b = a then Some a else if b = ?p then Some ?n else hnext h b)" for b
    using ne kn by (auto simp: h3_def hnext_def)
  have pv: "hprev h3 b = (if b = a then Some a else if b = ?n then Some ?p else hprev h b)" for b
    using ne kp by (auto simp: h3_def hprev_def)
  have "seg h3 head (bs @ cs) head"
  proof (cases cs)
    case Nil
    show ?thesis
    proof (cases bs rule: rev_cases)
      case Nil
      with \<open>cs = []\<close> show ?thesis using ne by (simp add: nx pv)
    next
      case (snoc bs' q)
      then have "seg h head bs' q" using s(1) by simp
      then have "seg h3 head bs' q"
        by (rule seg_frame) (use s(3) snoc Nil in \<open>auto simp: nx pv\<close>)
      with snoc Nil ne show ?thesis by (simp add: nx pv)
    qed
  next
    case (Cons q cs')
    then have "seg h q cs' head" using s(2) by simp
    then have q: "seg h3 q cs' head"
      by (rule seg_frame) (use s(3) Cons in \<open>auto simp: nx pv dest: last_in_set split: if_splits\<close>)
    show ?thesis
    proof (cases bs rule: rev_cases)
      case Nil
      with q Cons ne show ?thesis by (simp add: nx pv)
    next
      case (snoc bs' r)
      then have "seg h head bs' r" using s(1) by simp
      then have "seg h3 head bs' r"
        by (rule seg_frame) (use s(3) snoc Cons in \<open>auto simp: nx pv\<close>)
      with q snoc Cons ne show ?thesis by (simp add: nx pv)
    qed
  qed
  moreover have "linked_list h3 a []" by (simp add: linked_list_self nx pv)
  moreover have "h3 b = h b" if "b \<notin> set (head # bs @ a # cs)" for b
  proof -
    have "b \<notin> set (head # bs)" "b \<notin> set (head # cs)" "b \<noteq> a" using that by simp_all
    with i have "b \<noteq> ?p" "b \<noteq> ?n" "b \<noteq> a" by blast+
    then show ?thesis by (simp add: h3_def)
  qed
  moreover have "h3 b = None \<longleftrightarrow> h b = None" for b using kp kn ka by (auto simp: h3_def)
  ultimately show ?thesis using er s(3) by (intro exI [of _ h3]) (auto simp: linked_list_def)
qed

lemma hook_erase_unlinked: "linked_list h a [] \<Longrightarrow> hook_erase h a = Some h"
  by (simp add: hook_erase_def is_linked_head)

section \<open>Families of lists\<close>

text \<open>
  Disjoint lists with the sentinels \<open>H\<close>; \<open>B\<close> gives the nodes of each. An unlinked hook counts as a
  sentinel without nodes, so that linking and unlinking move hooks between the lists.
\<close>

definition hook_lists :: "hooks \<Rightarrow> nat set \<Rightarrow> (nat \<Rightarrow> nat list) \<Rightarrow> bool" where
  "hook_lists h H B \<longleftrightarrow> (\<forall>a \<in> H. linked_list h a (B a) \<and> set (B a) \<inter> H = {} \<and> (\<forall>b \<in> H. a \<noteq> b \<longrightarrow> set (B a) \<inter> set (B b) = {}))"

lemma listsD: "hook_lists h H B \<Longrightarrow> a \<in> H \<Longrightarrow> linked_list h a (B a)"
  by (simp add: hook_lists_def)

lemma lists_sep: "hook_lists h H B \<Longrightarrow> a \<in> H \<Longrightarrow> b \<in> H \<Longrightarrow> a \<noteq> b \<Longrightarrow> set (a # B a) \<inter> set (b # B b) = {}"
  unfolding hook_lists_def by auto

lemma lists_change:
  assumes l: "hook_lists h H B" and b: "b \<in> H" and f: "\<And>c. c \<notin> set (b # B b) \<union> N \<Longrightarrow> h' c = h c"
    and n: "\<And>c. c \<in> H - N \<Longrightarrow> set (B c) \<inter> N = {}" and "linked_list h' b xs" "N \<subseteq> insert b H"
    and B': "B' b = xs" "\<And>c. c \<in> H' \<Longrightarrow> c \<noteq> b \<Longrightarrow> c \<notin> H - N \<Longrightarrow> B' c = [] \<and> linked_list h' c []" "\<And>c. c \<in> H - N \<Longrightarrow> c \<noteq> b \<Longrightarrow> B' c = B c"
    and H': "H - N \<subseteq> H'" "b \<in> H'" "H' \<subseteq> H \<union> set (B b)" "set xs \<inter> H' = {}" "set xs \<subseteq> set (B b) \<union> N"
  shows "hook_lists h' H' B'"
  unfolding hook_lists_def
proof (intro ballI conjI impI)
  fix c assume c: "c \<in> H'"
  have other: "linked_list h' c (B c)" if "c \<in> H - N" "c \<noteq> b" for c
  proof (rule linked_list_frame [OF listsD [OF l]])
    show "c \<in> H" using that by simp
    show "\<forall>a \<in> insert c (set (B c)). h' a = h a"
    proof
      fix a assume "a \<in> insert c (set (B c))"
      then have "a \<notin> set (b # B b) \<union> N" using lists_sep [OF l b, of c] that n [OF that(1)] by auto
      then show "h' a = h a" by (rule f)
    qed
  qed
  have set: "set (B' c) \<subseteq> (if c = b then set xs else if c \<in> H - N then set (B c) else {})" if "c \<in> H'" for c
    using B' that by auto
  show "linked_list h' c (B' c)" using other [of c] B' c assms(5) by (cases "c = b"; cases "c \<in> H - N") auto
  show "set (B' c) \<inter> H' = {}"
  proof (cases "c \<in> H - N \<and> c \<noteq> b")
    case True
    with lists_sep [OF l b, of c] l have "set (B c) \<inter> set (B b) = {}" "set (B c) \<inter> H = {}" by (auto simp: hook_lists_def)
    with True B'(3) [of c] H'(3) show ?thesis by auto
  qed (use set [OF c] H'(4) in \<open>auto split: if_splits\<close>)
  fix d assume d: "d \<in> H'" "c \<noteq> d"
  have apart: "set xs \<inter> set (B c) = {}" if "c \<in> H - N" "c \<noteq> b" for c
    using lists_sep [OF l b, of c] n [OF that(1)] H'(5) that by auto
  show "set (B' c) \<inter> set (B' d) = {}"
  proof -
    have "set (B c) \<inter> set (B d) = {}" if "c \<in> H" "d \<in> H" using l that d(2) by (simp add: hook_lists_def)
    then show ?thesis using set [OF c] set [OF d(1)] d(2) apart [of c] apart [of d] by (fastforce split: if_splits)
  qed
qed

lemma lists_erase:
  assumes l: "hook_lists h H B" and b: "b \<in> H" "B b = bs @ a # cs"
  shows "\<exists>h'. hook_erase h a = Some h' \<and> hook_lists h' (insert a H) (B(b := bs @ cs, a := [])) \<and> (\<forall>c. h' c = None \<longleftrightarrow> h c = None)"
proof -
  have lb: "linked_list h b (bs @ a # cs)" using listsD [OF l b(1)] b(2) by simp
  from hook_erase_ok [OF this] obtain h' where h': "hook_erase h a = Some h'" "linked_list h' b (bs @ cs)" "linked_list h' a []"
    "\<And>c. c \<notin> set (b # bs @ a # cs) \<Longrightarrow> h' c = h c" "\<And>c. h' c = None \<longleftrightarrow> h c = None" by blast
  have ab: "a \<noteq> b" "a \<notin> set bs" "a \<notin> set cs" "a \<notin> H" using lb l b by (auto simp: linked_list_def hook_lists_def)
  have "hook_lists h' (insert a H) (B(b := bs @ cs, a := []))"
  proof (rule lists_change [OF l b(1), where N = "{}" and xs = "bs @ cs"])
    have "set (B b) \<inter> H = {}" using l b(1) by (simp add: hook_lists_def)
    then show "set (bs @ cs) \<inter> insert a H = {}" using ab(2,3) unfolding b(2) by auto
  qed (use h' ab b in \<open>auto\<close>)
  with h' show ?thesis by blast
qed

lemma lists_push_back:
  assumes l: "hook_lists h H B" and b: "b \<in> H" "a \<in> H" "a \<noteq> b" "B a = []"
  shows "\<exists>h'. head_push_back h b a = Some h' \<and> hook_lists h' (H - {a}) (B(b := B b @ [a])) \<and> (\<forall>c. h' c = None \<longleftrightarrow> h c = None)"
proof -
  have "h a \<noteq> None" using listsD [OF l b(2)] b(4) by (auto simp: linked_list_self hnext_Some)
  moreover have an: "a \<notin> set (B c)" if "c \<in> H" for c using that l b(2) by (auto simp: hook_lists_def)
  ultimately obtain h' where h': "head_push_back h b a = Some h'" "linked_list h' b (B b @ [a])" "\<And>c. c \<notin> set (b # a # B b) \<Longrightarrow> h' c = h c"
    "\<And>c. h' c = None \<longleftrightarrow> h c = None"
    using head_push_back_ok [OF listsD [OF l b(1)], of a] b by auto
  have "hook_lists h' (H - {a}) (B(b := B b @ [a]))"
  proof (rule lists_change [OF l b(1), where N = "{a}" and xs = "B b @ [a]"])
    show "set (B b @ [a]) \<inter> (H - {a}) = {}" using l b(1) by (auto simp: hook_lists_def)
  qed (use h' an b in \<open>auto\<close>)
  with h' show ?thesis by blast
qed

lemma lists_construct:
  assumes l: "hook_lists h H B" and b: "b \<notin> H" "\<And>a. a \<in> H \<Longrightarrow> b \<notin> set (B a)"
  shows "hook_lists (head_construct h b) (insert b H) (B(b := []))"
  unfolding hook_lists_def
proof (intro ballI conjI impI)
  fix c assume c: "c \<in> insert b H"
  show "linked_list (head_construct h b) c ((B(b := [])) c)"
  proof (cases "c = b")
    case False
    with c have "linked_list h c (B c)" "b \<notin> set (c # B c)" using l b by (auto simp: hook_lists_def)
    then show ?thesis using False by (auto simp: head_construct_def intro!: linked_list_frame [of h c "B c"])
  qed (simp add: head_construct_ok)
qed (use l b in \<open>auto simp: hook_lists_def\<close>)

lemma lists_drop:
  assumes l: "hook_lists h H B" and b: "b \<in> H" "B b = []"
  shows "hook_lists (h(b := None)) (H - {b}) B"
  unfolding hook_lists_def
proof (intro ballI conjI impI)
  fix c assume c: "c \<in> H - {b}"
  then have "linked_list h c (B c)" "b \<notin> set (c # B c)" using l b by (auto simp: hook_lists_def)
  then show "linked_list (h(b := None)) c (B c)" by (auto intro!: linked_list_frame [of h c "B c"])
qed (use l b in \<open>auto simp: hook_lists_def\<close>)

lemma lists_cong: "hook_lists h H B \<Longrightarrow> (\<And>a. a \<in> H \<Longrightarrow> B' a = B a) \<Longrightarrow> hook_lists h H B'"
  unfolding hook_lists_def by simp

section \<open>Singly linked lists, from the contract of a stack\<close>

definition forward_items :: "forward_list \<Rightarrow> nat list \<Rightarrow> bool" where
  "forward_items l xs \<longleftrightarrow> path (fl_hooks l) (fl_head l) xs 0 \<and> distinct xs"

lemma forward_push_front_ok:
  assumes "forward_items l xs" "fl_hooks l a \<noteq> None" "a \<noteq> 0" "a \<notin> set xs"
  shows "\<exists>l'. forward_push_front l a = Some l' \<and> forward_items l' (a # xs)"
  using assms by (auto simp: forward_push_front_def set_forward_next_def forward_items_def)

lemma forward_pop_front_ok: "forward_items l (a # xs) \<Longrightarrow> \<exists>l'. forward_pop_front l = Some l' \<and> forward_items l' xs"
  by (auto simp: forward_pop_front_def forward_items_def)

lemma forward_erase_ok:
  assumes "forward_items l (bs @ a # cs)"
  shows "\<exists>l'. forward_erase l a (last (0 # bs)) = Some l' \<and> forward_items l' (bs @ cs) \<and> forward_is_linked l' a = Some False"
proof (cases bs rule: rev_cases)
  case Nil
  with assms show ?thesis by (auto simp: forward_erase_def forward_items_def set_forward_next_def forward_is_linked_def)
next
  case (snoc bs' q)
  with assms show ?thesis
    by (auto simp: forward_erase_def forward_items_def set_forward_next_def forward_is_linked_def)
qed

text \<open>The last node of a list does not count as linked.\<close>

lemma forward_last_not_linked: "forward_items l (xs @ [a]) \<Longrightarrow> forward_is_linked l a = Some False"
  by (auto simp: forward_items_def forward_is_linked_def)

end
