(* ===== verification/Timer_Wheel.thy ===== *)
theory Timer_Wheel
  imports Hooks Simulation Utility
begin

text \<open>
  \<^verbatim>\<open>include/memkit/detail/timer_wheel_core.hpp\<close>: a hashed timing wheel. A timer is linked into the bucket of
  its deadline modulo the number of slots; a tick goes over the bucket of the new slot, calls the callbacks
  of the timers that are due and keeps the others.

  The hook is the first member of a timer, so a timer and its hook have one address. Callbacks may do
  anything with the wheel: \<open>we_call\<close> gets the callback pointer, the user pointer and the state.
  \<open>we_pending\<close> is the address of the local list head of \<open>dispatch_bucket\<close>.
\<close>

section \<open>Model\<close>

record timer_node =
  tn_deadline :: u32
  tn_callback :: nat
  tn_user :: nat

record 'w wheel =
  wh_buckets :: nat
  wh_slot :: nat
  wh_ticks :: u32
  wh_hooks :: hooks
  wh_nodes :: "nat \<Rightarrow> timer_node option"
  wh_world :: 'w

record 'w wheel_env =
  we_slots :: nat
  we_pending :: nat
  we_call :: "nat \<Rightarrow> nat \<Rightarrow> 'w wheel \<Rightarrow> 'w wheel option"

definition slot_mask :: "nat \<Rightarrow> nat \<Rightarrow> nat" where
  "slot_mask num_slots i = unat ((word_of_nat i :: u64) AND (word_of_nat num_slots - 1))"

definition wheel_bucket :: "'w wheel \<Rightarrow> nat \<Rightarrow> nat" where
  "wheel_bucket s i = sz_add (wh_buckets s) (sz_mul i 16)"

fun wheel_clear_loop :: "'w wheel \<Rightarrow> nat \<Rightarrow> nat \<Rightarrow> 'w wheel option" where
  "wheel_clear_loop s i 0 = Some s"
| "wheel_clear_loop s i (Suc n) = do {
     h \<leftarrow> head_clear (wh_hooks s) (wheel_bucket s i);
     wheel_clear_loop (s\<lparr>wh_hooks := h\<rparr>) (Suc i) n
   }"

definition wheel_reset_state :: "'w wheel_env \<Rightarrow> 'w wheel \<Rightarrow> 'w wheel option" where
  "wheel_reset_state env s = do {
     s1 \<leftarrow> wheel_clear_loop s 0 (we_slots env);
     Some (s1\<lparr>wh_slot := 0, wh_ticks := 0\<rparr>)
   }"

definition wheel_init :: "'w wheel_env \<Rightarrow> 'w wheel \<Rightarrow> (status \<times> 'w wheel) option" where
  "wheel_init env s = do {
     s1 \<leftarrow> wheel_reset_state env s;
     Some (Ok, s1)
   }"

definition wheel_schedule :: "'w wheel_env \<Rightarrow> 'w wheel \<Rightarrow> nat \<Rightarrow> u32 \<Rightarrow> (status \<times> 'w wheel) option" where
  "wheel_schedule env s node delay_ticks =
     (if delay_ticks = 0 then Some (Invalid, s)
      else do {
        nd \<leftarrow> wh_nodes s node;
        if tn_callback nd = 0 then Some (Invalid, s)
        else do {
          linked \<leftarrow> hook_is_linked (wh_hooks s) node;
          if linked then Some (Invalid, s)
          else do {
            let deadline = wh_ticks s + delay_ticks;
            let slot = slot_mask (we_slots env) (unat deadline);
            h \<leftarrow> head_push_back (wh_hooks s) (wheel_bucket s slot) node;
            Some (Ok, s\<lparr>wh_hooks := h, wh_nodes := (wh_nodes s)(node \<mapsto> nd\<lparr>tn_deadline := deadline\<rparr>)\<rparr>)
          }
        }
      })"

fun wheel_erase_loop :: "'w wheel \<Rightarrow> nat \<Rightarrow> nat \<Rightarrow> 'w wheel option" where
  "wheel_erase_loop s node 0 = Some s"
| "wheel_erase_loop s node (Suc n) = do {
     h \<leftarrow> hook_erase (wh_hooks s) node;
     wheel_erase_loop (s\<lparr>wh_hooks := h\<rparr>) node n
   }"

definition wheel_cancel :: "'w wheel_env \<Rightarrow> 'w wheel \<Rightarrow> nat \<Rightarrow> 'w wheel option" where
  "wheel_cancel env s node = do {
     linked \<leftarrow> hook_is_linked (wh_hooks s) node;
     if \<not> linked then Some s
     else do {
       s1 \<leftarrow> wheel_erase_loop s node (we_slots env);
       nd \<leftarrow> wh_nodes s1 node;
       Some (s1\<lparr>wh_nodes := (wh_nodes s1)(node \<mapsto> nd\<lparr>tn_deadline := 0\<rparr>)\<rparr>)
     }
   }"

partial_function (option) wheel_drain :: "'w wheel_env \<Rightarrow> 'w wheel \<Rightarrow> nat \<Rightarrow> 'w wheel option" where
  "wheel_drain env s slot = do {
     done \<leftarrow> head_empty (wh_hooks s) (wheel_bucket s slot);
     if done then Some s
     else do {
       hook \<leftarrow> head_front (wh_hooks s) (wheel_bucket s slot);
       let node = container_from_hook 0 hook;
       h \<leftarrow> hook_erase (wh_hooks s) hook;
       let s1 = s\<lparr>wh_hooks := h\<rparr>;
       nd \<leftarrow> wh_nodes s1 node;
       s2 \<leftarrow> (if tn_deadline nd \<le> wh_ticks s1
              then (if tn_callback nd \<noteq> 0 then we_call env (tn_callback nd) (tn_user nd) s1 else Some s1)
              else do {
                h' \<leftarrow> head_push_back (wh_hooks s1) (we_pending env) hook;
                Some (s1\<lparr>wh_hooks := h'\<rparr>)
              });
       wheel_drain env s2 slot
     }
   }"

partial_function (option) wheel_refill :: "'w wheel_env \<Rightarrow> 'w wheel \<Rightarrow> nat \<Rightarrow> 'w wheel option" where
  "wheel_refill env s slot = do {
     done \<leftarrow> head_empty (wh_hooks s) (we_pending env);
     if done then Some s
     else do {
       hook \<leftarrow> head_front (wh_hooks s) (we_pending env);
       h \<leftarrow> hook_erase (wh_hooks s) hook;
       h' \<leftarrow> head_push_back h (wheel_bucket s slot) hook;
       wheel_refill env (s\<lparr>wh_hooks := h'\<rparr>) slot
     }
   }"

text \<open>The local list head lives from the beginning to the end of the call.\<close>

definition wheel_dispatch :: "'w wheel_env \<Rightarrow> 'w wheel \<Rightarrow> nat \<Rightarrow> 'w wheel option" where
  "wheel_dispatch env s slot = do {
     s1 \<leftarrow> wheel_drain env (s\<lparr>wh_hooks := head_construct (wh_hooks s) (we_pending env)\<rparr>) slot;
     s2 \<leftarrow> wheel_refill env s1 slot;
     Some (s2\<lparr>wh_hooks := (wh_hooks s2)(we_pending env := None)\<rparr>)
   }"

fun wheel_tick_loop :: "'w wheel_env \<Rightarrow> 'w wheel \<Rightarrow> nat \<Rightarrow> 'w wheel option" where
  "wheel_tick_loop env s 0 = Some s"
| "wheel_tick_loop env s (Suc n) = do {
     let s1 = s\<lparr>wh_ticks := wh_ticks s + 1, wh_slot := slot_mask (we_slots env) (sz_add (wh_slot s) 1)\<rparr>;
     s2 \<leftarrow> wheel_dispatch env s1 (wh_slot s1);
     wheel_tick_loop env s2 n
   }"

definition wheel_tick :: "'w wheel_env \<Rightarrow> 'w wheel \<Rightarrow> nat \<Rightarrow> (status \<times> 'w wheel) option" where
  "wheel_tick env s steps =
     (if steps = 0 then Some (Invalid, s)
      else do {
        s1 \<leftarrow> wheel_tick_loop env s steps;
        Some (Ok, s1)
      })"

text \<open>
  A wheel is moved by copying its list heads, pointers included, to the buckets at \<open>target\<close>; then the
  source is reset. The result is the new wheel.
\<close>

fun wheel_copy_loop :: "'w wheel \<Rightarrow> nat \<Rightarrow> nat \<Rightarrow> nat \<Rightarrow> 'w wheel option" where
  "wheel_copy_loop s target i 0 = Some s"
| "wheel_copy_loop s target i (Suc n) = do {
     k \<leftarrow> wh_hooks s (wheel_bucket s i);
     wheel_copy_loop (s\<lparr>wh_hooks := (wh_hooks s)(wheel_bucket (s\<lparr>wh_buckets := target\<rparr>) i \<mapsto> k)\<rparr>) target (Suc i) n
   }"

definition wheel_move :: "'w wheel_env \<Rightarrow> 'w wheel \<Rightarrow> nat \<Rightarrow> 'w wheel option" where
  "wheel_move env other target = do {
     s1 \<leftarrow> wheel_copy_loop other target 0 (we_slots env);
     s2 \<leftarrow> wheel_reset_state env s1;
     Some (s2\<lparr>wh_buckets := target, wh_slot := wh_slot other, wh_ticks := wh_ticks other\<rparr>)
   }"

section \<open>Emptying a bucket\<close>

lemma head_front_list: "linked_list h a (x # xs) \<Longrightarrow> head_front h a = Some x \<and> head_empty h a = Some False"
  by (simp add: head_front_ok head_empty_ok)

lemma lists_node: "hook_lists h H B \<Longrightarrow> b \<in> H \<Longrightarrow> a \<in> set (B b) \<Longrightarrow> c \<in> H \<Longrightarrow> a \<noteq> c \<and> (c \<noteq> b \<longrightarrow> a \<notin> set (B c))"
  unfolding hook_lists_def by blast

lemma container_first [simp]: "a \<le> SIZE_MAX \<Longrightarrow> container_from_hook 0 a = a"
  by (simp add: container_from_hook_def sz_sub_eq)

text \<open>Callbacks that only act on the outside world: \<open>f\<close> is what they do there.\<close>

definition quiet :: "'w wheel_env \<Rightarrow> (nat \<Rightarrow> nat \<Rightarrow> 'w \<Rightarrow> 'w) \<Rightarrow> bool" where
  "quiet env f \<longleftrightarrow> (\<forall>cb user s. cb \<noteq> 0 \<longrightarrow> we_call env cb user s = Some (s\<lparr>wh_world := f cb user (wh_world s)\<rparr>))"

definition due :: "'w wheel \<Rightarrow> nat \<Rightarrow> bool" where
  "due s a \<longleftrightarrow> (\<exists>nd. wh_nodes s a = Some nd \<and> tn_deadline nd \<le> wh_ticks s)"

definition run_timer :: "(nat \<Rightarrow> nat \<Rightarrow> 'w \<Rightarrow> 'w) \<Rightarrow> (nat \<Rightarrow> timer_node option) \<Rightarrow> nat \<Rightarrow> 'w \<Rightarrow> 'w" where
  "run_timer f nodes a w = (case nodes a of Some nd \<Rightarrow> f (tn_callback nd) (tn_user nd) w | None \<Rightarrow> w)"

definition armed :: "'w wheel \<Rightarrow> nat \<Rightarrow> bool" where
  "armed s a \<longleftrightarrow> a \<le> SIZE_MAX \<and> (\<exists>nd. wh_nodes s a = Some nd \<and> tn_callback nd \<noteq> 0)"

lemma wheel_fields [simp]:
  "due (s\<lparr>wh_hooks := h\<rparr>) = due s" "due (s\<lparr>wh_world := w\<rparr>) = due s"
  "armed (s\<lparr>wh_hooks := h\<rparr>) = armed s" "armed (s\<lparr>wh_world := w\<rparr>) = armed s"
  "wheel_bucket (s\<lparr>wh_hooks := h\<rparr>) i = wheel_bucket s i" "wheel_bucket (s\<lparr>wh_world := w\<rparr>) i = wheel_bucket s i"
  by (simp_all add: due_def armed_def wheel_bucket_def fun_eq_iff)

lemma wheel_drain_ok:
  assumes "quiet env f" "hook_lists (wh_hooks s) H B" "wheel_bucket s slot \<in> H" "we_pending env \<in> H" "we_pending env \<noteq> wheel_bucket s slot"
    and "B (wheel_bucket s slot) = xs" "\<forall>a \<in> set xs. armed s a"
  shows "\<exists>h' B'. wheel_drain env s slot =
      Some (s\<lparr>wh_hooks := h', wh_world := fold (run_timer f (wh_nodes s)) (filter (due s) xs) (wh_world s)\<rparr>) \<and>
    hook_lists h' (H \<union> set (filter (due s) xs)) B' \<and> B' (wheel_bucket s slot) = [] \<and>
    B' (we_pending env) = B (we_pending env) @ filter (\<lambda>a. \<not> due s a) xs \<and>
    (\<forall>c \<in> H. c \<noteq> wheel_bucket s slot \<longrightarrow> c \<noteq> we_pending env \<longrightarrow> B' c = B c) \<and> (\<forall>a \<in> set (filter (due s) xs). B' a = []) \<and>
    (\<forall>c. h' c = None \<longleftrightarrow> wh_hooks s c = None)"
  using assms(2-)
proof (induction xs arbitrary: s H B)
  case Nil
  from head_empty_ok [OF listsD [OF Nil.prems(1,2)]] Nil.prems(5) have "wheel_drain env s slot = Some s"
    by (subst wheel_drain.simps) simp
  with Nil.prems show ?case by (intro exI [of _ "wh_hooks s"] exI [of _ B]) simp
next
  case (Cons a xs)
  let ?b = "wheel_bucket s slot" and ?p = "we_pending env"
  have lb: "linked_list (wh_hooks s) ?b (a # xs)" using listsD [OF Cons.prems(1,2)] Cons.prems(5) by simp
  have aH: "a \<notin> H" "a \<noteq> ?b" "a \<noteq> ?p" "a \<notin> set xs" "?b \<notin> set xs" "?p \<notin> set xs"
    using lists_node [OF Cons.prems(1,2)] Cons.prems(2,3,5) lb by (auto simp: linked_list_def)
  from lists_erase [OF Cons.prems(1,2), of "[]" a xs] Cons.prems(5) obtain h1 where
    h1: "hook_erase (wh_hooks s) a = Some h1" "hook_lists h1 (insert a H) (B(?b := xs, a := []))" "\<And>c. h1 c = None \<longleftrightarrow> wh_hooks s c = None" by auto
  from Cons.prems(6) obtain nd where nd: "wh_nodes s a = Some nd" "tn_callback nd \<noteq> 0" "a \<le> SIZE_MAX" by (auto simp: armed_def)
  have step: "wheel_drain env s slot = do {
      s2 \<leftarrow> (if due s a then Some (s\<lparr>wh_hooks := h1, wh_world := run_timer f (wh_nodes s) a (wh_world s)\<rparr>)
             else map_option (\<lambda>h'. s\<lparr>wh_hooks := h'\<rparr>) (head_push_back h1 ?p a));
      wheel_drain env s2 slot }"
    using head_front_list [OF lb] h1(1) nd assms(1)
    by (subst wheel_drain.simps) (auto simp: due_def quiet_def run_timer_def Let_def map_option_case split: option.splits)
  show ?case
  proof (cases "due s a")
    case True
    define B1 where "B1 = B(?b := xs, a := [])"
    then have B1: "B1 ?b = xs" "B1 a = []" "B1 ?p = B ?p" "\<And>c. c \<in> H \<Longrightarrow> c \<noteq> ?b \<Longrightarrow> B1 c = B c" using aH Cons.prems(4) by auto
    let ?s = "s\<lparr>wh_hooks := h1, wh_world := run_timer f (wh_nodes s) a (wh_world s)\<rparr>"
    have "\<exists>h' B'. wheel_drain env ?s slot =
        Some (?s\<lparr>wh_hooks := h', wh_world := fold (run_timer f (wh_nodes ?s)) (filter (due ?s) xs) (wh_world ?s)\<rparr>) \<and>
      hook_lists h' (insert a H \<union> set (filter (due ?s) xs)) B' \<and> B' (wheel_bucket ?s slot) = [] \<and>
      B' ?p = B1 ?p @ filter (\<lambda>a. \<not> due ?s a) xs \<and>
      (\<forall>c \<in> insert a H. c \<noteq> wheel_bucket ?s slot \<longrightarrow> c \<noteq> ?p \<longrightarrow> B' c = B1 c) \<and> (\<forall>a \<in> set (filter (due ?s) xs). B' a = []) \<and>
      (\<forall>c. h' c = None \<longleftrightarrow> wh_hooks ?s c = None)"
      by (rule Cons.IH [where s = ?s and B = B1]) (use h1(2) Cons.prems aH B1_def [symmetric] B1 in simp_all)
    then obtain h' B' where r: "wheel_drain env ?s slot = Some (s\<lparr>wh_hooks := h', wh_world := fold (run_timer f (wh_nodes s)) (filter (due s) (a # xs)) (wh_world s)\<rparr>)"
      "hook_lists h' (H \<union> set (filter (due s) (a # xs))) B'" "B' ?b = []" "B' ?p = B ?p @ filter (\<lambda>a. \<not> due s a) (a # xs)"
      "\<forall>c \<in> insert a H. c \<noteq> ?b \<longrightarrow> c \<noteq> ?p \<longrightarrow> B' c = B1 c" "\<forall>a \<in> set (filter (due s) xs). B' a = []"
      "\<forall>c. h' c = None \<longleftrightarrow> h1 c = None"
      using True B1 by auto
    moreover have "B' a = []" using r(5) aH B1(2) by simp
    moreover have "\<forall>c \<in> H. c \<noteq> ?b \<longrightarrow> c \<noteq> ?p \<longrightarrow> B' c = B c" using r(5) B1(4) by auto
    ultimately show ?thesis using True step h1(3) by (intro exI [of _ h'] exI [of _ B']) auto
  next
    case False
    from lists_push_back [OF h1(2), of ?p a] Cons.prems aH obtain h2 where h2: "head_push_back h1 ?p a = Some h2"
      "hook_lists h2 (insert a H - {a}) ((B(?b := xs, a := []))(?p := B ?p @ [a]))" "\<And>c. h2 c = None \<longleftrightarrow> h1 c = None" by auto
    have H: "insert a H - {a} = H" using aH by simp
    define B1 where "B1 = (B(?b := xs, a := []))(?p := B ?p @ [a])"
    then have B1: "B1 ?b = xs" "B1 ?p = B ?p @ [a]" "\<And>c. c \<in> H \<Longrightarrow> c \<noteq> ?b \<Longrightarrow> c \<noteq> ?p \<Longrightarrow> B1 c = B c" using aH Cons.prems(4) by auto
    let ?s = "s\<lparr>wh_hooks := h2\<rparr>"
    have "\<exists>h' B'. wheel_drain env ?s slot =
        Some (?s\<lparr>wh_hooks := h', wh_world := fold (run_timer f (wh_nodes ?s)) (filter (due ?s) xs) (wh_world ?s)\<rparr>) \<and>
      hook_lists h' (H \<union> set (filter (due ?s) xs)) B' \<and> B' (wheel_bucket ?s slot) = [] \<and>
      B' ?p = B1 ?p @ filter (\<lambda>a. \<not> due ?s a) xs \<and>
      (\<forall>c \<in> H. c \<noteq> wheel_bucket ?s slot \<longrightarrow> c \<noteq> ?p \<longrightarrow> B' c = B1 c) \<and> (\<forall>a \<in> set (filter (due ?s) xs). B' a = []) \<and>
      (\<forall>c. h' c = None \<longleftrightarrow> wh_hooks ?s c = None)"
      by (rule Cons.IH [where s = ?s and B = B1]) (use h2(2) H Cons.prems aH B1_def [symmetric] B1 in simp_all)
    then obtain h' B' where r: "wheel_drain env ?s slot = Some (s\<lparr>wh_hooks := h', wh_world := fold (run_timer f (wh_nodes s)) (filter (due s) (a # xs)) (wh_world s)\<rparr>)"
      "hook_lists h' (H \<union> set (filter (due s) (a # xs))) B'" "B' ?b = []" "B' ?p = B ?p @ filter (\<lambda>a. \<not> due s a) (a # xs)"
      "\<forall>c \<in> H. c \<noteq> ?b \<longrightarrow> c \<noteq> ?p \<longrightarrow> B' c = B1 c" "\<forall>a \<in> set (filter (due s) (a # xs)). B' a = []"
      "\<forall>c. h' c = None \<longleftrightarrow> h2 c = None"
      using False B1 by auto
    moreover have "\<forall>c \<in> H. c \<noteq> ?b \<longrightarrow> c \<noteq> ?p \<longrightarrow> B' c = B c" using r(5) B1(3) by auto
    ultimately show ?thesis using False step h1(3) h2(1,3) by (intro exI [of _ h'] exI [of _ B']) auto
  qed
qed

lemma wheel_refill_ok:
  assumes "hook_lists (wh_hooks s) H B" "wheel_bucket s slot \<in> H" "we_pending env \<in> H" "we_pending env \<noteq> wheel_bucket s slot" "B (we_pending env) = ps"
  shows "\<exists>h'. wheel_refill env s slot = Some (s\<lparr>wh_hooks := h'\<rparr>) \<and>
    hook_lists h' H (B(wheel_bucket s slot := B (wheel_bucket s slot) @ ps, we_pending env := [])) \<and> (\<forall>c. h' c = None \<longleftrightarrow> wh_hooks s c = None)"
  using assms
proof (induction ps arbitrary: s B)
  case Nil
  from head_empty_ok [OF listsD [OF Nil.prems(1,3)]] Nil.prems(5) have "wheel_refill env s slot = Some s"
    by (subst wheel_refill.simps) simp
  moreover have "B(wheel_bucket s slot := B (wheel_bucket s slot) @ [], we_pending env := []) = B" using Nil.prems(5) by auto
  ultimately show ?case using Nil.prems by (intro exI [of _ "wh_hooks s"]) simp
next
  case (Cons a ps)
  let ?b = "wheel_bucket s slot" and ?p = "we_pending env"
  have lb: "linked_list (wh_hooks s) ?p (a # ps)" using listsD [OF Cons.prems(1,3)] Cons.prems(5) by simp
  have aH: "a \<notin> H" "a \<noteq> ?b" "a \<noteq> ?p" using lists_node [OF Cons.prems(1,3)] Cons.prems(2,3,5) by auto
  from lists_erase [OF Cons.prems(1,3), of "[]" a ps] Cons.prems(5) obtain h1 where
    h1: "hook_erase (wh_hooks s) a = Some h1" "hook_lists h1 (insert a H) (B(?p := ps, a := []))" "\<And>c. h1 c = None \<longleftrightarrow> wh_hooks s c = None" by auto
  from lists_push_back [OF h1(2), of ?b a] Cons.prems aH obtain h2 where h2: "head_push_back h1 ?b a = Some h2"
    "hook_lists h2 (insert a H - {a}) ((B(?p := ps, a := []))(?b := B ?b @ [a]))" "\<And>c. h2 c = None \<longleftrightarrow> h1 c = None" by auto
  have H: "insert a H - {a} = H" using aH by simp
  define B1 where "B1 = (B(?p := ps, a := []))(?b := B ?b @ [a])"
  then have B1: "B1 ?b = B ?b @ [a]" "B1 ?p = ps" "\<And>c. c \<in> H \<Longrightarrow> c \<noteq> ?b \<Longrightarrow> c \<noteq> ?p \<Longrightarrow> B1 c = B c" using aH Cons.prems(4) by auto
  let ?s = "s\<lparr>wh_hooks := h2\<rparr>"
  have step: "wheel_refill env s slot = wheel_refill env ?s slot"
    using head_front_list [OF lb] h1(1) h2(1) by (subst wheel_refill.simps) simp
  have "\<exists>h'. wheel_refill env ?s slot = Some (?s\<lparr>wh_hooks := h'\<rparr>) \<and>
    hook_lists h' H (B1(wheel_bucket ?s slot := B1 (wheel_bucket ?s slot) @ ps, ?p := [])) \<and> (\<forall>c. h' c = None \<longleftrightarrow> wh_hooks ?s c = None)"
    by (rule Cons.IH [where s = ?s and B = B1]) (use h2(2) H Cons.prems B1_def [symmetric] B1 in simp_all)
  then obtain h' where r: "wheel_refill env ?s slot = Some (s\<lparr>wh_hooks := h'\<rparr>)" "hook_lists h' H (B1(?b := B1 ?b @ ps, ?p := []))"
    "\<And>c. h' c = None \<longleftrightarrow> h2 c = None" by auto
  have "hook_lists h' H (B(?b := B ?b @ a # ps, ?p := []))" by (rule lists_cong [OF r(2)]) (use aH B1 in auto)
  with r step h1(3) h2(3) show ?case by (intro exI [of _ h']) (simp del: fun_upd_apply)
qed

text \<open>A dispatch unlinks and runs the timers that are due and leaves the others in order.\<close>

lemma wheel_dispatch_ok:
  assumes "quiet env f" "hook_lists (wh_hooks s) H B" "wheel_bucket s slot \<in> H" "we_pending env \<notin> H" "\<forall>a \<in> H. we_pending env \<notin> set (B a)"
    and "\<forall>a \<in> set (B (wheel_bucket s slot)). armed s a"
  shows "\<exists>h' B'. wheel_dispatch env s slot =
      Some (s\<lparr>wh_hooks := h', wh_world := fold (run_timer f (wh_nodes s)) (filter (due s) (B (wheel_bucket s slot))) (wh_world s)\<rparr>) \<and>
    hook_lists h' (H \<union> set (filter (due s) (B (wheel_bucket s slot)))) B' \<and>
    B' (wheel_bucket s slot) = filter (\<lambda>a. \<not> due s a) (B (wheel_bucket s slot)) \<and>
    (\<forall>c \<in> H. c \<noteq> wheel_bucket s slot \<longrightarrow> B' c = B c) \<and> (\<forall>a \<in> set (filter (due s) (B (wheel_bucket s slot))). B' a = []) \<and>
    (\<forall>c. c \<noteq> we_pending env \<longrightarrow> (h' c = None \<longleftrightarrow> wh_hooks s c = None))"
proof -
  let ?b = "wheel_bucket s slot" and ?p = "we_pending env" and ?h = "head_construct (wh_hooks s) (we_pending env)"
  define B0 where "B0 = B(?p := [])"
  then have B0: "B0 ?p = []" "\<And>c. c \<in> H \<Longrightarrow> B0 c = B c" using assms(4) by auto
  let ?s = "s\<lparr>wh_hooks := ?h\<rparr>"
  have pb: "?p \<noteq> ?b" using assms(3,4) by auto
  have l: "hook_lists ?h (insert ?p H) B0" unfolding B0_def by (rule lists_construct [OF assms(2,4)]) (use assms(5) in blast)
  have "\<exists>h' B'. wheel_drain env ?s slot =
      Some (?s\<lparr>wh_hooks := h', wh_world := fold (run_timer f (wh_nodes ?s)) (filter (due ?s) (B ?b)) (wh_world ?s)\<rparr>) \<and>
    hook_lists h' (insert ?p H \<union> set (filter (due ?s) (B ?b))) B' \<and> B' (wheel_bucket ?s slot) = [] \<and>
    B' ?p = B0 ?p @ filter (\<lambda>a. \<not> due ?s a) (B ?b) \<and>
    (\<forall>c \<in> insert ?p H. c \<noteq> wheel_bucket ?s slot \<longrightarrow> c \<noteq> ?p \<longrightarrow> B' c = B0 c) \<and> (\<forall>a \<in> set (filter (due ?s) (B ?b)). B' a = []) \<and>
    (\<forall>c. h' c = None \<longleftrightarrow> wh_hooks ?s c = None)"
    by (rule wheel_drain_ok [OF assms(1), where s = ?s and B = B0]) (use l assms pb B0 in simp_all)
  then obtain h1 B1 where d: "wheel_drain env ?s slot =
      Some (s\<lparr>wh_hooks := h1, wh_world := fold (run_timer f (wh_nodes s)) (filter (due s) (B ?b)) (wh_world s)\<rparr>)"
    "hook_lists h1 (insert ?p H \<union> set (filter (due s) (B ?b))) B1" "B1 ?b = []" "B1 ?p = filter (\<lambda>a. \<not> due s a) (B ?b)"
    "\<forall>c \<in> H. c \<noteq> ?b \<longrightarrow> B1 c = B c" "\<forall>a \<in> set (filter (due s) (B ?b)). B1 a = []" "\<And>c. h1 c = None \<longleftrightarrow> ?h c = None"
    using assms(4) B0 by auto
  let ?s1 = "s\<lparr>wh_hooks := h1, wh_world := fold (run_timer f (wh_nodes s)) (filter (due s) (B ?b)) (wh_world s)\<rparr>"
  let ?H = "insert ?p H \<union> set (filter (due s) (B ?b))"
  have "\<exists>h'. wheel_refill env ?s1 slot = Some (?s1\<lparr>wh_hooks := h'\<rparr>) \<and>
    hook_lists h' ?H (B1(wheel_bucket ?s1 slot := B1 (wheel_bucket ?s1 slot) @ filter (\<lambda>a. \<not> due s a) (B ?b), ?p := [])) \<and> (\<forall>c. h' c = None \<longleftrightarrow> wh_hooks ?s1 c = None)"
    by (rule wheel_refill_ok [where s = ?s1 and B = B1]) (use d assms(3) pb in simp_all)
  then obtain h2 where r: "wheel_refill env ?s1 slot = Some (?s1\<lparr>wh_hooks := h2\<rparr>)"
    "hook_lists h2 ?H (B1(?b := filter (\<lambda>a. \<not> due s a) (B ?b), ?p := []))" "\<And>c. h2 c = None \<longleftrightarrow> h1 c = None" using d(3) by auto
  have pn: "?p \<notin> set (B ?b)" using assms(3,5) by blast
  have "?H - {?p} = H \<union> set (filter (due s) (B ?b))" using assms(4) pn by auto
  with lists_drop [OF r(2), of ?p] have "hook_lists (h2(?p := None)) (H \<union> set (filter (due s) (B ?b))) (B1(?b := filter (\<lambda>a. \<not> due s a) (B ?b), ?p := []))"
    by simp
  moreover have "?b \<notin> set (B ?b)" using assms(2,3) by (auto simp: hook_lists_def)
  moreover have "(h2(?p := None)) c = None \<longleftrightarrow> wh_hooks s c = None" if "c \<noteq> ?p" for c using that d(7) r(3) by (simp add: head_construct_def)
  ultimately show ?thesis using d r pb pn assms(4)
    by (intro exI [of _ "h2(?p := None)"] exI [of _ "B1(?b := filter (\<lambda>a. \<not> due s a) (B ?b), ?p := [])"]) (auto simp: wheel_dispatch_def)
qed

section \<open>The contract of a timer wheel\<close>

text \<open>
  The timers in the order they were scheduled, with their deadlines. A tick runs those whose deadline has
  come. \<open>jobs\<close> gives the callback and the user pointer of every timer of the program.
\<close>

datatype timer_cmd = Timer_schedule nat u32 | Timer_cancel nat | Timer_tick nat

definition run_job :: "(nat \<Rightarrow> nat \<Rightarrow> 'w \<Rightarrow> 'w) \<Rightarrow> (nat \<Rightarrow> (nat \<times> nat) option) \<Rightarrow> nat \<Rightarrow> 'w \<Rightarrow> 'w" where
  "run_job f jobs a w = (case jobs a of Some (cb, user) \<Rightarrow> f cb user w | None \<Rightarrow> w)"

fun timer_advance :: "(nat \<Rightarrow> nat \<Rightarrow> 'w \<Rightarrow> 'w) \<Rightarrow> (nat \<Rightarrow> (nat \<times> nat) option) \<Rightarrow> nat \<times> (nat \<times> nat) list \<times> 'w \<Rightarrow> nat \<times> (nat \<times> nat) list \<times> 'w" where
  "timer_advance f jobs (now, q, w) =
     (Suc now, filter (\<lambda>(a, d). d \<noteq> Suc now) q, fold (run_job f jobs) (map fst (filter (\<lambda>(a, d). d = Suc now) q)) w)"

fun timer_step :: "(nat \<Rightarrow> nat \<Rightarrow> 'w \<Rightarrow> 'w) \<Rightarrow> (nat \<Rightarrow> (nat \<times> nat) option) \<Rightarrow> nat \<times> (nat \<times> nat) list \<times> 'w \<Rightarrow> timer_cmd \<Rightarrow>
    status \<times> unit option \<times> nat \<times> (nat \<times> nat) list \<times> 'w" where
  "timer_step f jobs (now, q, w) (Timer_schedule a delay) =
     (if delay = 0 \<or> (\<exists>user. jobs a = Some (0, user)) \<or> a \<in> fst ` set q then (Invalid, None, now, q, w)
      else (Ok, None, now, q @ [(a, now + unat delay)], w))"
| "timer_step f jobs (now, q, w) (Timer_cancel a) = (Ok, None, now, filter (\<lambda>(b, d). b \<noteq> a) q, w)"
| "timer_step f jobs (now, q, w) (Timer_tick n) =
     (if n = 0 then (Invalid, None, now, q, w) else (Ok, None, (timer_advance f jobs ^^ n) (now, q, w)))"

fun timer_cost :: "timer_cmd \<Rightarrow> nat" where
  "timer_cost (Timer_schedule a delay) = unat delay"
| "timer_cost (Timer_cancel a) = 0"
| "timer_cost (Timer_tick n) = n"

fun timer_known :: "(nat \<Rightarrow> (nat \<times> nat) option) \<Rightarrow> timer_cmd \<Rightarrow> bool" where
  "timer_known jobs (Timer_schedule a delay) \<longleftrightarrow> jobs a \<noteq> None"
| "timer_known jobs (Timer_cancel a) \<longleftrightarrow> jobs a \<noteq> None"
| "timer_known jobs (Timer_tick n) \<longleftrightarrow> True"

fun wheel_call :: "'w wheel_env \<Rightarrow> 'w wheel \<Rightarrow> timer_cmd \<Rightarrow> (status \<times> unit option \<times> 'w wheel) option" where
  "wheel_call env s (Timer_schedule a delay) = no_out (wheel_schedule env s a delay)"
| "wheel_call env s (Timer_cancel a) = map_option (\<lambda>s'. (Ok, None, s')) (wheel_cancel env s a)"
| "wheel_call env s (Timer_tick n) = no_out (wheel_tick env s n)"

section \<open>The wheel refines it\<close>

definition slots_ok :: "nat \<Rightarrow> bool" where
  "slots_ok n \<longleftrightarrow> is_power_of_two (word_of_nat n :: u64) \<and> 2 \<le> n \<and> n \<le> 2 ^ 32"

definition heads :: "'w wheel_env \<Rightarrow> 'w wheel \<Rightarrow> nat set" where
  "heads env s = (\<lambda>i. wh_buckets s + i * 16) ` {..<we_slots env}"

definition in_slot :: "'w wheel_env \<Rightarrow> (nat \<times> nat) list \<Rightarrow> nat \<Rightarrow> nat list" where
  "in_slot env q i = map fst (filter (\<lambda>(a, d). d mod we_slots env = i) q)"

definition wheel_queues :: "'w wheel_env \<Rightarrow> (nat \<Rightarrow> (nat \<times> nat) option) \<Rightarrow> 'w wheel \<Rightarrow> (nat \<times> nat) list \<Rightarrow> bool" where
  "wheel_queues env jobs s q \<longleftrightarrow>
     (\<exists>B. hook_lists (wh_hooks s) (heads env s \<union> (dom jobs - fst ` set q)) B \<and>
       (\<forall>i < we_slots env. B (wh_buckets s + i * 16) = in_slot env q i) \<and> (\<forall>a \<in> dom jobs - fst ` set q. B a = []))"

definition wheel_frame :: "'w wheel_env \<Rightarrow> (nat \<Rightarrow> (nat \<times> nat) option) \<Rightarrow> 'w wheel \<Rightarrow> bool" where
  "wheel_frame env jobs s \<longleftrightarrow> slots_ok (we_slots env) \<and> wh_buckets s + we_slots env * 16 \<le> SIZE_MAX \<and>
     we_pending env \<notin> heads env s \<union> dom jobs \<and> heads env s \<inter> dom jobs = {} \<and>
     (\<forall>a job. jobs a = Some job \<longrightarrow> a \<le> SIZE_MAX \<and> (\<exists>nd. wh_nodes s a = Some nd \<and> job = (tn_callback nd, tn_user nd)))"

definition wheel_timers :: "(nat \<Rightarrow> (nat \<times> nat) option) \<Rightarrow> 'w wheel \<Rightarrow> nat \<Rightarrow> (nat \<times> nat) list \<Rightarrow> bool" where
  "wheel_timers jobs s now q \<longleftrightarrow> distinct (map fst q) \<and>
     (\<forall>(a, d) \<in> set q. now < d \<and> d < 2 ^ 32 \<and> (\<exists>cb user nd. jobs a = Some (cb, user) \<and> cb \<noteq> 0 \<and> wh_nodes s a = Some nd \<and> unat (tn_deadline nd) = d))"

fun wheel_holds :: "'w wheel_env \<Rightarrow> (nat \<Rightarrow> (nat \<times> nat) option) \<Rightarrow> nat \<Rightarrow> 'w wheel \<Rightarrow> nat \<times> (nat \<times> nat) list \<times> 'w \<Rightarrow> bool" where
  "wheel_holds env jobs m s (now, q, w) \<longleftrightarrow> wheel_frame env jobs s \<and> wheel_queues env jobs s q \<and> wheel_timers jobs s now q \<and>
     unat (wh_ticks s) = now \<and> wh_slot s = now mod we_slots env \<and> wh_world s = w \<and> now + m < 2 ^ 32"

lemma slot_mask_mod:
  assumes "slots_ok n" "i < 2 ^ 64"
  shows "slot_mask n i = i mod n"
proof -
  from assms(1) obtain k where k: "k < 64" "(word_of_nat n :: u64) = 2 ^ k" unfolding slots_ok_def by (meson is_power_of_two_cases)
  have "n < 2 ^ 64" using assms(1) by (simp add: slots_ok_def)
  then have "n = unat (word_of_nat n :: u64)" by (simp add: unsigned_of_nat take_bit_nat_eq_self)
  then have n: "n = 2 ^ k" using k by (simp add: unat_power_of_two)
  have "(word_of_nat i :: u64) AND (word_of_nat n - 1) = take_bit k (word_of_nat i)"
    unfolding k(2) by (simp flip: mask_eq_exp_minus_1 take_bit_eq_mask)
  then have "slot_mask n i = take_bit k (unat (word_of_nat i :: u64))" by (simp add: slot_mask_def unsigned_take_bit_eq)
  also have "\<dots> = i mod n" using assms(2) n by (simp add: unsigned_of_nat take_bit_nat_eq_self take_bit_eq_mod)
  finally show ?thesis .
qed

lemma wheel_bucket_eq: "wheel_frame env jobs s \<Longrightarrow> i < we_slots env \<Longrightarrow> wheel_bucket s i = wh_buckets s + i * 16"
  using pool_address [of "wh_buckets s" "we_slots env" 16 i] by (simp add: wheel_frame_def wheel_bucket_def)

lemma slots_pos: "wheel_frame env jobs s \<Longrightarrow> 0 < we_slots env"
  by (auto simp: wheel_frame_def slots_ok_def)

lemma in_slot_simps [simp]:
  "in_slot env [] i = []" "in_slot env (q @ r) i = in_slot env q i @ in_slot env r i"
  "in_slot env [(a, d)] i = (if d mod we_slots env = i then [a] else [])"
  by (simp_all add: in_slot_def)

lemma in_slot_subset: "set (in_slot env q i) \<subseteq> fst ` set q"
  by (auto simp: in_slot_def)

lemma wheel_same:
  assumes "wh_buckets s' = wh_buckets s"
  shows "heads env s' = heads env s" "wh_nodes s' = wh_nodes s \<Longrightarrow> wheel_frame env jobs s' = wheel_frame env jobs s"
    "wh_nodes s' = wh_nodes s \<Longrightarrow> wheel_timers jobs s' now q = wheel_timers jobs s now q"
  using assms by (simp_all add: heads_def wheel_frame_def wheel_timers_def)

lemma is_linked_timer:
  assumes "wheel_frame env jobs s" "wheel_queues env jobs s q" "jobs a \<noteq> None"
  shows "hook_is_linked (wh_hooks s) a = Some (a \<in> fst ` set q)"
proof -
  from assms(2) obtain B where B: "hook_lists (wh_hooks s) (heads env s \<union> (dom jobs - fst ` set q)) B"
    "\<forall>i < we_slots env. B (wh_buckets s + i * 16) = in_slot env q i" "\<forall>a \<in> dom jobs - fst ` set q. B a = []" unfolding wheel_queues_def by blast
  show ?thesis
  proof (cases "a \<in> fst ` set q")
    case True
    then obtain d where d: "(a, d) \<in> set q" by auto
    let ?i = "d mod we_slots env"
    have i: "?i < we_slots env" using slots_pos [OF assms(1)] by simp
    then have "linked_list (wh_hooks s) (wh_buckets s + ?i * 16) (in_slot env q ?i)" using listsD [OF B(1), of "wh_buckets s + ?i * 16"] B(2) by (simp add: heads_def)
    moreover have "a \<in> set (in_slot env q ?i)" using d by (force simp: in_slot_def)
    ultimately show ?thesis using True is_linked_node by simp
  next
    case False
    then have "a \<in> dom jobs - fst ` set q" using assms(3) by auto
    with B(3) is_linked_head [OF listsD [OF B(1), of a]] False show ?thesis by simp
  qed
qed

lemma heads_inj: "wh_buckets s + i * 16 = wh_buckets s + j * 16 \<longleftrightarrow> i = j"
  by simp

lemma wheel_frame_deadline:
  assumes "wheel_frame env jobs s" "wh_nodes s a = Some nd"
  shows "wheel_frame env jobs (s\<lparr>wh_hooks := h, wh_nodes := (wh_nodes s)(a \<mapsto> nd\<lparr>tn_deadline := d\<rparr>)\<rparr>)"
proof -
  have "\<exists>nd'. ((wh_nodes s)(a \<mapsto> nd\<lparr>tn_deadline := d\<rparr>)) b = Some nd' \<and> job = (tn_callback nd', tn_user nd')" "b \<le> SIZE_MAX"
    if "jobs b = Some job" for b job
  proof -
    from assms(1) that obtain nd' where "wh_nodes s b = Some nd'" "job = (tn_callback nd', tn_user nd')" "b \<le> SIZE_MAX"
      unfolding wheel_frame_def by metis
    with assms(2) show "\<exists>nd'. ((wh_nodes s)(a \<mapsto> nd\<lparr>tn_deadline := d\<rparr>)) b = Some nd' \<and> job = (tn_callback nd', tn_user nd')" "b \<le> SIZE_MAX"
      by (cases "b = a"; simp)+
  qed
  with assms(1) show ?thesis by (simp add: wheel_frame_def heads_def)
qed

lemma wheel_schedule_law:
  assumes h: "wheel_holds env jobs (unat delay + m) s (now, q, w)" and a: "jobs a \<noteq> None"
  shows "sim_meets (wheel_holds env jobs m) (timer_step f jobs (now, q, w) (Timer_schedule a delay)) (wheel_call env s (Timer_schedule a delay))"
proof -
  have fr: "wheel_frame env jobs s" "wheel_queues env jobs s q" "wheel_timers jobs s now q" "unat (wh_ticks s) = now"
    "wh_slot s = now mod we_slots env" "wh_world s = w" "now + (unat delay + m) < 2 ^ 32" using h by simp_all
  from fr(1) a obtain nd where nd: "a \<le> SIZE_MAX" "wh_nodes s a = Some nd" "jobs a = Some (tn_callback nd, tn_user nd)"
    unfolding wheel_frame_def by blast
  note il = is_linked_timer [OF fr(1,2) a]
  show ?thesis
  proof (cases "delay = 0 \<or> tn_callback nd = 0 \<or> a \<in> fst ` set q")
    case True
    then have "wheel_schedule env s a delay = Some (Invalid, s)" using nd(2) il by (auto simp: wheel_schedule_def)
    moreover have "timer_step f jobs (now, q, w) (Timer_schedule a delay) = (Invalid, None, now, q, w)" using True nd(3) by auto
    ultimately show ?thesis using fr by (auto simp: sim_meets_def)
  next
    case False
    let ?d = "wh_ticks s + delay" and ?n = "we_slots env"
    have d: "unat ?d = now + unat delay" using fr(4,7) by (subst unat_add_lem [THEN iffD1]) simp_all
    have dpos: "0 < unat delay" using False by (simp add: unat_gt_0)
    let ?i = "(now + unat delay) mod ?n"
    have i: "?i < ?n" using slots_pos [OF fr(1)] by simp
    have slot: "slot_mask ?n (unat ?d) = ?i" using slot_mask_mod [of ?n "now + unat delay"] fr(1,7) d by (simp add: wheel_frame_def)
    from fr(2) obtain B where B: "hook_lists (wh_hooks s) (heads env s \<union> (dom jobs - fst ` set q)) B"
      "\<forall>i < ?n. B (wh_buckets s + i * 16) = in_slot env q i" "\<forall>a \<in> dom jobs - fst ` set q. B a = []" unfolding wheel_queues_def by blast
    let ?b = "wh_buckets s + ?i * 16"
    have ab: "a \<noteq> ?b" "a \<notin> heads env s" using fr(1) a i by (auto simp: wheel_frame_def heads_def)
    have "?b \<in> heads env s \<union> (dom jobs - fst ` set q)" "a \<in> heads env s \<union> (dom jobs - fst ` set q)" using i a False by (auto simp: heads_def)
    from lists_push_back [OF B(1) this ab(1)] B(3) a False obtain h' where h': "head_push_back (wh_hooks s) ?b a = Some h'"
      "hook_lists h' (heads env s \<union> (dom jobs - fst ` set q) - {a}) (B(?b := B ?b @ [a]))" by auto
    let ?nd = "nd\<lparr>tn_deadline := ?d\<rparr>"
    let ?s = "s\<lparr>wh_hooks := h', wh_nodes := (wh_nodes s)(a \<mapsto> ?nd)\<rparr>" and ?q = "q @ [(a, now + unat delay)]"
    have "wheel_schedule env s a delay = Some (Ok, ?s)"
      using nd False il slot h'(1) wheel_bucket_eq [OF fr(1) i] by (simp add: wheel_schedule_def Let_def)
    moreover have "wheel_frame env jobs ?s" using wheel_frame_deadline [OF fr(1) nd(2), where h = h' and d = ?d] by simp
    moreover have "wheel_queues env jobs ?s ?q"
      unfolding wheel_queues_def
    proof (intro exI conjI allI impI ballI)
      show "hook_lists (wh_hooks ?s) (heads env ?s \<union> (dom jobs - fst ` set ?q)) (B(?b := B ?b @ [a]))"
        using h'(2) ab(2) by (simp add: heads_def Un_Diff insert_commute Diff_insert [symmetric] del: fun_upd_apply)
      show "(B(?b := B ?b @ [a])) (wh_buckets ?s + j * 16) = in_slot env ?q j" if "j < ?n" for j
        using that B(2) i by auto
      show "(B(?b := B ?b @ [a])) c = []" if "c \<in> dom jobs - fst ` set ?q" for c
      proof -
        have "c \<noteq> ?b" using that fr(1) i by (auto simp: wheel_frame_def heads_def)
        then show ?thesis using that B(3) by auto
      qed
    qed
    moreover have "wheel_timers jobs ?s now ?q"
    proof -
      have "\<exists>cb user nd'. jobs b = Some (cb, user) \<and> cb \<noteq> 0 \<and> wh_nodes ?s b = Some nd' \<and> unat (tn_deadline nd') = e" "now < e" "e < 2 ^ 32"
        if "(b, e) \<in> set q" for b e
      proof -
        have "b \<noteq> a" using that False by force
        with that fr(3) show "\<exists>cb user nd'. jobs b = Some (cb, user) \<and> cb \<noteq> 0 \<and> wh_nodes ?s b = Some nd' \<and> unat (tn_deadline nd') = e" "now < e" "e < 2 ^ 32"
          by (auto simp: wheel_timers_def)
      qed
      moreover have "distinct (map fst ?q)" using fr(3) False by (simp add: wheel_timers_def)
      ultimately show ?thesis using nd False d dpos fr(7) unfolding wheel_timers_def by auto
    qed
    moreover have "timer_step f jobs (now, q, w) (Timer_schedule a delay) = (Ok, None, now, ?q, w)" using False nd(3) by auto
    ultimately show ?thesis using fr by (auto simp: sim_meets_def)
  qed
qed

lemma wheel_erase_loop_unlinked: "linked_list (wh_hooks s) a [] \<Longrightarrow> wheel_erase_loop s a n = Some s"
  by (induction n) (simp_all add: hook_erase_unlinked)

lemma wheel_cancel_law:
  assumes h: "wheel_holds env jobs m s (now, q, w)" and a: "jobs a \<noteq> None"
  shows "sim_meets (wheel_holds env jobs m) (timer_step f jobs (now, q, w) (Timer_cancel a)) (wheel_call env s (Timer_cancel a))"
proof -
  have fr: "wheel_frame env jobs s" "wheel_queues env jobs s q" "wheel_timers jobs s now q" "unat (wh_ticks s) = now"
    "wh_slot s = now mod we_slots env" "wh_world s = w" "now + m < 2 ^ 32" using h by simp_all
  note il = is_linked_timer [OF fr(1,2) a]
  let ?q = "filter (\<lambda>(b, d). b \<noteq> a) q"
  show ?thesis
  proof (cases "a \<in> fst ` set q")
    case False
    then have "?q = q" by (force simp: filter_id_conv)
    moreover have "wheel_cancel env s a = Some s" using False il by (simp add: wheel_cancel_def)
    ultimately show ?thesis using fr by (auto simp: sim_meets_def)
  next
    case True
    then obtain d where d: "(a, d) \<in> set q" by auto
    let ?n = "we_slots env"
    let ?i = "d mod ?n"
    have i: "?i < ?n" using slots_pos [OF fr(1)] by simp
    let ?b = "wh_buckets s + ?i * 16"
    from fr(2) obtain B where B: "hook_lists (wh_hooks s) (heads env s \<union> (dom jobs - fst ` set q)) B"
      "\<forall>i < ?n. B (wh_buckets s + i * 16) = in_slot env q i" "\<forall>a \<in> dom jobs - fst ` set q. B a = []" unfolding wheel_queues_def by blast
    from d obtain q1 q2 where q: "q = q1 @ (a, d) # q2" by (meson split_list)
    have dist: "a \<notin> fst ` set q1" "a \<notin> fst ` set q2" using fr(3) unfolding q wheel_timers_def by auto
    then have "filter (\<lambda>(b, d). b \<noteq> a) q1 = q1" "filter (\<lambda>(b, d). b \<noteq> a) q2 = q2" by (force simp: filter_id_conv)+
    then have q': "?q = q1 @ q2" unfolding q by simp
    have Bb: "B ?b = in_slot env q1 ?i @ a # in_slot env q2 ?i" using B(2) i unfolding q by (auto simp: in_slot_def)
    have bH: "?b \<in> heads env s \<union> (dom jobs - fst ` set q)" using i by (simp add: heads_def)
    from lists_erase [OF B(1) bH Bb] obtain h' where h': "hook_erase (wh_hooks s) a = Some h'"
      "hook_lists h' (insert a (heads env s \<union> (dom jobs - fst ` set q))) (B(?b := in_slot env q1 ?i @ in_slot env q2 ?i, a := []))" by blast
    from listsD [OF h'(2), of a] have un: "linked_list (wh_hooks (s\<lparr>wh_hooks := h'\<rparr>)) a []" by simp
    obtain k where k: "?n = Suc k" using slots_pos [OF fr(1)] by (cases ?n) auto
    from fr(1) a obtain nd where nd: "wh_nodes s a = Some nd" "jobs a = Some (tn_callback nd, tn_user nd)" unfolding wheel_frame_def by blast
    let ?s = "s\<lparr>wh_hooks := h', wh_nodes := (wh_nodes s)(a \<mapsto> nd\<lparr>tn_deadline := 0\<rparr>)\<rparr>"
    have "wheel_erase_loop s a ?n = Some (s\<lparr>wh_hooks := h'\<rparr>)" unfolding k using h'(1) wheel_erase_loop_unlinked [OF un] by simp
    then have "wheel_cancel env s a = Some ?s" using True il nd by (simp add: wheel_cancel_def)
    moreover have "wheel_frame env jobs ?s" by (rule wheel_frame_deadline [OF fr(1) nd(1)])
    moreover have ah: "a \<notin> heads env s" using fr(1) a by (auto simp: wheel_frame_def)
    have "wheel_queues env jobs ?s ?q"
      unfolding wheel_queues_def
    proof (intro exI conjI allI impI ballI)
      have "insert a (heads env s \<union> (dom jobs - fst ` set q)) = heads env ?s \<union> (dom jobs - fst ` set ?q)"
        using a dist unfolding q' unfolding q by (auto simp: heads_def)
      with h'(2) show "hook_lists (wh_hooks ?s) (heads env ?s \<union> (dom jobs - fst ` set ?q)) (B(?b := in_slot env q1 ?i @ in_slot env q2 ?i, a := []))"
        by (simp del: fun_upd_apply)
      show "(B(?b := in_slot env q1 ?i @ in_slot env q2 ?i, a := [])) (wh_buckets ?s + j * 16) = in_slot env ?q j" if "j < ?n" for j
      proof (cases "j = ?i")
        case True
        then show ?thesis using ah i unfolding q' by (auto simp: heads_def)
      next
        case False
        moreover have "wh_buckets s + j * 16 \<noteq> a" using ah that by (auto simp: heads_def)
        moreover have "in_slot env (q1 @ (a, d) # q2) j = in_slot env (q1 @ q2) j" using False by (simp add: in_slot_def)
        ultimately show ?thesis using B(2) that unfolding q' unfolding q by simp
      qed
      show "(B(?b := in_slot env q1 ?i @ in_slot env q2 ?i, a := [])) c = []" if "c \<in> dom jobs - fst ` set ?q" for c
      proof (cases "c = a")
        case False
        have "c \<noteq> ?b" using that fr(1) i by (auto simp: wheel_frame_def heads_def)
        with False show ?thesis using that B(3) unfolding q' unfolding q by auto
      qed simp
    qed
    moreover have "wheel_timers jobs ?s now ?q"
    proof -
      have "\<exists>cb user nd'. jobs b = Some (cb, user) \<and> cb \<noteq> 0 \<and> wh_nodes ?s b = Some nd' \<and> unat (tn_deadline nd') = e" "now < e" "e < 2 ^ 32"
        if "(b, e) \<in> set ?q" for b e
        using that fr(3) by (auto simp: wheel_timers_def)
      moreover have "distinct (map fst ?q)" using fr(3) unfolding wheel_timers_def by (simp add: distinct_map_filter)
      ultimately show ?thesis unfolding wheel_timers_def by blast
    qed
    ultimately show ?thesis using fr by (auto simp: sim_meets_def)
  qed
qed

text \<open>A tick runs the timers whose deadline has come and no others.\<close>

lemma wheel_timersD: "wheel_timers jobs s now q \<Longrightarrow> (a, d) \<in> set q \<Longrightarrow>
  now < d \<and> d < 2 ^ 32 \<and> (\<exists>cb user nd. jobs a = Some (cb, user) \<and> cb \<noteq> 0 \<and> wh_nodes s a = Some nd \<and> unat (tn_deadline nd) = d)"
  by (auto simp: wheel_timers_def)

lemma map_fst_filter: "set (map fst (filter P q)) \<subseteq> fst ` set q"
  by auto

lemma wheel_one_tick:
  assumes q: "quiet env f" and h: "wheel_holds env jobs (Suc m) s (now, q, w)"
  shows "\<exists>s'. wheel_tick_loop env s (Suc n) = wheel_tick_loop env s' n \<and> wheel_holds env jobs m s' (timer_advance f jobs (now, q, w))"
proof -
  have fr: "wheel_frame env jobs s" "wheel_queues env jobs s q" "wheel_timers jobs s now q" "unat (wh_ticks s) = now"
    "wh_slot s = now mod we_slots env" "wh_world s = w" "now + Suc m < 2 ^ 32" using h by simp_all
  let ?n = "we_slots env" and ?t = "Suc now"
  let ?i = "?t mod ?n"
  have n: "0 < ?n" "slots_ok ?n" "?n \<le> 2 ^ 32" using slots_pos [OF fr(1)] fr(1) by (simp_all add: wheel_frame_def slots_ok_def)
  have i: "?i < ?n" using n(1) by simp
  let ?s = "s\<lparr>wh_ticks := wh_ticks s + 1, wh_slot := ?i\<rparr>"
  have t: "unat (wh_ticks s + 1) = ?t" using fr(4,7) by (subst unat_add_lem [THEN iffD1]) simp_all
  have "now mod ?n < 2 ^ 32" using n(1,3) by (meson le_trans mod_less_divisor not_le)
  then have "sz_add (wh_slot s) 1 = Suc (now mod ?n)" using fr(5) by (simp add: sz_add_eq SIZE_MAX_def)
  moreover have "Suc (now mod ?n) < 2 ^ 64" using \<open>now mod ?n < 2 ^ 32\<close> by simp
  ultimately have slot: "slot_mask ?n (sz_add (wh_slot s) 1) = ?i" using slot_mask_mod [OF n(2)] by (simp add: mod_Suc_eq)
  have frs: "wheel_frame env jobs ?s" "wheel_timers jobs ?s now q" "heads env ?s = heads env s" using fr(1,3) wheel_same [of ?s s] by simp_all
  from fr(2) obtain B where B: "hook_lists (wh_hooks s) (heads env s \<union> (dom jobs - fst ` set q)) B"
    "\<forall>i < ?n. B (wh_buckets s + i * 16) = in_slot env q i" "\<forall>a \<in> dom jobs - fst ` set q. B a = []" unfolding wheel_queues_def by blast
  let ?H = "heads env s \<union> (dom jobs - fst ` set q)" and ?b = "wh_buckets s + ?i * 16"
  have b: "wheel_bucket ?s ?i = ?b" using wheel_bucket_eq [OF frs(1) i] by simp
  have Bb: "B ?b = in_slot env q ?i" using B(2) i by simp
  have timer: "jobs a \<noteq> None \<and> a \<le> SIZE_MAX \<and> armed ?s a \<and> (due ?s a \<longleftrightarrow> d = ?t) \<and> now < d \<and> d < 2 ^ 32"
    "run_timer f (wh_nodes ?s) a = run_job f jobs a" if ad: "(a, d) \<in> set q" for a d
  proof -
    from ad fr(3) obtain cb user nd where nd: "jobs a = Some (cb, user)" "cb \<noteq> 0" "wh_nodes s a = Some nd" "unat (tn_deadline nd) = d" "now < d" "d < 2 ^ 32"
      using wheel_timersD by blast
    from fr(1) nd(1,3) have "a \<le> SIZE_MAX" "cb = tn_callback nd" "user = tn_user nd" unfolding wheel_frame_def by (metis option.inject prod.inject)+
    with nd t show "jobs a \<noteq> None \<and> a \<le> SIZE_MAX \<and> armed ?s a \<and> (due ?s a \<longleftrightarrow> d = ?t) \<and> now < d \<and> d < 2 ^ 32"
      "run_timer f (wh_nodes ?s) a = run_job f jobs a"
      by (auto simp: armed_def due_def word_le_nat_alt run_timer_def run_job_def)
  qed
  let ?fire = "map fst (filter (\<lambda>(a, d). d = ?t) q)" and ?q = "filter (\<lambda>(a, d). d \<noteq> ?t) q"
  have fire: "filter (due ?s) (in_slot env q ?i) = ?fire" "filter (\<lambda>a. \<not> due ?s a) (in_slot env q ?i) = in_slot env ?q ?i"
    using timer(1) by (auto simp: in_slot_def filter_map o_def intro!: arg_cong [where f = "map fst"] filter_cong)
  have inq: "set (in_slot env q j) \<subseteq> fst ` set q" for j by (rule in_slot_subset)
  have pend: "we_pending env \<notin> ?H" using fr(1) by (auto simp: wheel_frame_def)
  have "we_pending env \<notin> set (B c)" if "c \<in> ?H" for c
  proof -
    have "set (B c) \<subseteq> dom jobs"
    proof (cases "c \<in> heads env s")
      case True
      then obtain j where "j < ?n" "c = wh_buckets s + j * 16" by (auto simp: heads_def)
      then have "set (B c) \<subseteq> fst ` set q" using B(2) inq [of j] by simp
      then show ?thesis using timer(1) by (force simp: dom_def)
    qed (use that B(3) in auto)
    then show ?thesis using fr(1) by (auto simp: wheel_frame_def)
  qed
  then have "\<exists>h' B'. wheel_dispatch env ?s ?i =
      Some (?s\<lparr>wh_hooks := h', wh_world := fold (run_timer f (wh_nodes ?s)) (filter (due ?s) (B (wheel_bucket ?s ?i))) (wh_world ?s)\<rparr>) \<and>
    hook_lists h' (?H \<union> set (filter (due ?s) (B (wheel_bucket ?s ?i)))) B' \<and>
    B' (wheel_bucket ?s ?i) = filter (\<lambda>a. \<not> due ?s a) (B (wheel_bucket ?s ?i)) \<and>
    (\<forall>c \<in> ?H. c \<noteq> wheel_bucket ?s ?i \<longrightarrow> B' c = B c) \<and> (\<forall>a \<in> set (filter (due ?s) (B (wheel_bucket ?s ?i))). B' a = []) \<and>
    (\<forall>c. c \<noteq> we_pending env \<longrightarrow> (h' c = None \<longleftrightarrow> wh_hooks ?s c = None))"
    unfolding b Bb [symmetric]
  proof (intro wheel_dispatch_ok [OF q, of ?s ?H B ?i, unfolded b])
    show "\<forall>a \<in> set (B ?b). armed ?s a" using timer(1) unfolding Bb by (force simp: in_slot_def)
  qed (use B(1) i pend in \<open>auto simp: heads_def\<close>)
  then obtain h' B' where d: "wheel_dispatch env ?s ?i = Some (?s\<lparr>wh_hooks := h', wh_world := fold (run_timer f (wh_nodes ?s)) ?fire w\<rparr>)"
    "hook_lists h' (?H \<union> set ?fire) B'" "B' ?b = in_slot env ?q ?i" "\<forall>c \<in> ?H. c \<noteq> ?b \<longrightarrow> B' c = B c" "\<forall>a \<in> set ?fire. B' a = []"
    unfolding b Bb fire using fr(6) by auto
  let ?s' = "?s\<lparr>wh_hooks := h', wh_world := fold (run_timer f (wh_nodes ?s)) ?fire w\<rparr>"
  have fold: "fold (run_timer f (wh_nodes ?s)) ?fire w = fold (run_job f jobs) ?fire w"
    by (rule fold_cong) (use timer(2) in auto)
  have dj: "fst ` set q \<subseteq> dom jobs" using timer(1) by (force simp: dom_def)
  have "a \<notin> fst ` set ?q" if "(a, ?t) \<in> set q" for a
    using that fr(3) by (auto simp: wheel_timers_def dest: eq_key_imp_eq_value)
  then have H: "?H \<union> set ?fire = heads env ?s' \<union> (dom jobs - fst ` set ?q)" using dj by (force simp: heads_def)
  have "wheel_queues env jobs ?s' ?q"
    unfolding wheel_queues_def
  proof (intro exI conjI allI impI ballI)
    show "hook_lists (wh_hooks ?s') (heads env ?s' \<union> (dom jobs - fst ` set ?q)) B'" using d(2) H by simp
    show "B' (wh_buckets ?s' + j * 16) = in_slot env ?q j" if "j < ?n" for j
    proof (cases "j = ?i")
      case False
      then have "in_slot env ?q j = in_slot env q j" by (auto simp: in_slot_def intro!: arg_cong [where f = "map fst"] filter_cong)
      with False d(4) B(2) that show ?thesis by (auto simp: heads_def)
    qed (use d(3) in simp)
    show "B' a = []" if "a \<in> dom jobs - fst ` set ?q" for a
    proof (cases "a \<in> fst ` set q")
      case True
      with that have "a \<in> set ?fire" by force
      with d(5) show ?thesis by blast
    next
      case False
      moreover have "a \<noteq> ?b" using that fr(1) i by (auto simp: wheel_frame_def heads_def)
      ultimately show ?thesis using that d(4) B(3) by auto
    qed
  qed
  moreover have "wheel_timers jobs ?s' ?t ?q"
  proof -
    have "distinct (map fst ?q)" using fr(3) unfolding wheel_timers_def by (simp add: distinct_map_filter)
    moreover have "?t < d" if "(a, d) \<in> set ?q" for a d using that timer(1) [of a d] by auto
    ultimately show ?thesis using fr(3) unfolding wheel_timers_def by auto
  qed
  moreover have "wheel_frame env jobs ?s'" using fr(1) wheel_same [of ?s' s] by simp
  ultimately have "wheel_holds env jobs m ?s' (timer_advance f jobs (now, q, w))" using t fold fr(7) by simp
  moreover have "wheel_tick_loop env s (Suc n) = wheel_tick_loop env ?s' n" using d(1) slot by (simp add: Let_def)
  ultimately show ?thesis by blast
qed

lemma wheel_tick_loop_ok:
  "quiet env f \<Longrightarrow> wheel_holds env jobs (n + m) s a \<Longrightarrow>
    \<exists>s'. wheel_tick_loop env s n = Some s' \<and> wheel_holds env jobs m s' ((timer_advance f jobs ^^ n) a)"
proof (induction n arbitrary: s a)
  case (Suc n)
  obtain now q w where a: "a = (now, q, w)" by (cases a)
  from wheel_one_tick [OF Suc.prems(1), of jobs "n + m" s now q w n] Suc.prems(2) obtain s1 where
    "wheel_tick_loop env s (Suc n) = wheel_tick_loop env s1 n" "wheel_holds env jobs (n + m) s1 (timer_advance f jobs a)" unfolding a by auto
  with Suc.IH [OF Suc.prems(1), of s1 "timer_advance f jobs a"] show ?case by (simp add: funpow_swap1 del: wheel_tick_loop.simps)
qed simp

lemma wheel_tick_law:
  assumes q: "quiet env f" and h: "wheel_holds env jobs (n + m) s (now, qs, w)"
  shows "sim_meets (wheel_holds env jobs m) (timer_step f jobs (now, qs, w) (Timer_tick n)) (wheel_call env s (Timer_tick n))"
proof (cases n)
  case 0
  with h show ?thesis by (simp add: sim_meets_def wheel_tick_def)
next
  case (Suc k)
  from wheel_tick_loop_ok [OF q h] obtain s' where "wheel_tick_loop env s n = Some s'" "wheel_holds env jobs m s' ((timer_advance f jobs ^^ n) (now, qs, w))" by blast
  with Suc show ?thesis by (simp add: sim_meets_def wheel_tick_def del: wheel_tick_loop.simps)
qed

text \<open>The callbacks of the locale's environment only act on the world.\<close>

locale timers =
  fixes env :: "'w wheel_env" and f :: "nat \<Rightarrow> nat \<Rightarrow> 'w \<Rightarrow> 'w" and jobs :: "nat \<Rightarrow> (nat \<times> nat) option"
  assumes callbacks: "quiet env f"
begin

sublocale wheel: simulation "timer_known jobs" timer_cost "timer_step f jobs" "wheel_call env" "wheel_holds env jobs"
proof
  fix c m s and a :: "nat \<times> (nat \<times> nat) list \<times> 'w"
  assume h: "wheel_holds env jobs (timer_cost c + m) s a" and k: "timer_known jobs c"
  obtain now q w where a: "a = (now, q, w)" by (cases a)
  show "sim_meets (wheel_holds env jobs m) (timer_step f jobs a c) (wheel_call env s c)"
    using h k callbacks unfolding a
    by (cases c) (auto intro: wheel_schedule_law wheel_cancel_law wheel_tick_law simp del: timer_step.simps wheel_call.simps wheel_holds.simps)
qed

end

section \<open>Construction\<close>

text \<open>The constructor makes \<open>we_slots env\<close> empty lists at \<open>base\<close>.\<close>

definition wheel_construct :: "'w wheel_env \<Rightarrow> nat \<Rightarrow> hooks \<Rightarrow> (nat \<Rightarrow> timer_node option) \<Rightarrow> 'w \<Rightarrow> 'w wheel" where
  "wheel_construct env base h nodes w = \<lparr>wh_buckets = base, wh_slot = 0, wh_ticks = 0,
     wh_hooks = fold (\<lambda>i h. head_construct h (base + i * 16)) [0..<we_slots env] h, wh_nodes = nodes, wh_world = w\<rparr>"

text \<open>Memory for the wheel and the timers \<open>jobs\<close>, whose hooks are unlinked as their constructor leaves them.\<close>

definition timers_ready :: "'w wheel_env \<Rightarrow> (nat \<Rightarrow> (nat \<times> nat) option) \<Rightarrow> nat \<Rightarrow> hooks \<Rightarrow> (nat \<Rightarrow> timer_node option) \<Rightarrow> bool" where
  "timers_ready env jobs base h nodes \<longleftrightarrow> slots_ok (we_slots env) \<and> base + we_slots env * 16 \<le> SIZE_MAX \<and>
     we_pending env \<notin> (\<lambda>i. base + i * 16) ` {..<we_slots env} \<union> dom jobs \<and> (\<lambda>i. base + i * 16) ` {..<we_slots env} \<inter> dom jobs = {} \<and>
     (\<forall>a job. jobs a = Some job \<longrightarrow> a \<le> SIZE_MAX \<and> h a = Some \<lparr>hk_next = a, hk_prev = a\<rparr> \<and>
        (\<exists>nd. nodes a = Some nd \<and> job = (tn_callback nd, tn_user nd)))"

lemma construct_heads:
  "fold (\<lambda>i h. head_construct h (base + i * 16)) [0..<n] h a =
    (if a \<in> (\<lambda>i. base + i * 16) ` {..<n} then Some \<lparr>hk_next = a, hk_prev = a\<rparr> else h a)"
  by (induction n) (auto simp: head_construct_def lessThan_Suc)

lemma wheel_clear_loop_same:
  assumes "\<forall>j < i + n. wh_hooks s (wheel_bucket s j) = Some \<lparr>hk_next = wheel_bucket s j, hk_prev = wheel_bucket s j\<rparr>"
  shows "wheel_clear_loop s i n = Some s"
  using assms
proof (induction n arbitrary: i)
  case (Suc n)
  have "head_clear (wh_hooks s) (wheel_bucket s i) = Some (wh_hooks s)"
    using Suc.prems by (simp add: head_clear_def hook_init_def fun_upd_idem)
  with Suc.IH [of "Suc i"] Suc.prems show ?case by simp
qed simp

lemma wheel_init_ok:
  assumes r: "timers_ready env jobs base h nodes" and m: "m < 2 ^ 32"
  shows "\<exists>s. wheel_init env (wheel_construct env base h nodes w) = Some (Ok, s) \<and> wheel_holds env jobs m s (0, [], w)"
proof -
  let ?s = "wheel_construct env base h nodes w"
  have hk: "wh_hooks ?s a = (if a \<in> heads env ?s then Some \<lparr>hk_next = a, hk_prev = a\<rparr> else h a)" for a
    by (simp add: wheel_construct_def heads_def construct_heads)
  have fr: "wheel_frame env jobs ?s"
    using r by (auto simp: timers_ready_def wheel_frame_def wheel_construct_def heads_def)
  have "wheel_clear_loop ?s 0 (we_slots env) = Some ?s"
    by (rule wheel_clear_loop_same) (use wheel_bucket_eq [OF fr] hk in \<open>auto simp: heads_def\<close>)
  moreover have "?s\<lparr>wh_slot := 0, wh_ticks := 0\<rparr> = ?s" by (simp add: wheel_construct_def)
  ultimately have "wheel_init env ?s = Some (Ok, ?s)" by (simp add: wheel_init_def wheel_reset_state_def)
  moreover have "linked_list (wh_hooks ?s) a []" if "a \<in> heads env ?s \<union> dom jobs" for a
    using that hk [of a] r by (auto simp: linked_list_self hnext_def hprev_def timers_ready_def)
  then have "wheel_queues env jobs ?s []"
    unfolding wheel_queues_def by (intro exI [of _ "\<lambda>_. []"]) (simp add: hook_lists_def)
  then have "wheel_holds env jobs m ?s (0, [], w)" using fr m by (simp add: wheel_timers_def wheel_construct_def)
  ultimately show ?thesis by blast
qed

context timers
begin

lemma wheel_runs:
  assumes "timers_ready env jobs base h nodes" "\<forall>c \<in> set cs. timer_known jobs c" "sum_list (map timer_cost cs) < 2 ^ 32"
  shows "\<exists>s s'. wheel_init env (wheel_construct env base h nodes w) = Some (Ok, s) \<and>
    sim_run (wheel_call env) s cs = Some (fst (sim_spec (timer_step f jobs) (0, [], w) cs), s') \<and>
    wheel_holds env jobs 0 s' (snd (sim_spec (timer_step f jobs) (0, [], w) cs))"
proof -
  from wheel_init_ok [OF assms(1,3)] obtain s where s: "wheel_init env (wheel_construct env base h nodes w) = Some (Ok, s)"
    "wheel_holds env jobs (sum_list (map timer_cost cs) + 0) s (0, [], w)" by auto
  with wheel.run_refines [OF s(2) assms(2)] show ?thesis by blast
qed

end

text \<open>Callbacks that note the user pointer they were called with.\<close>

definition recorder :: "nat \<Rightarrow> nat \<Rightarrow> nat list wheel_env" where
  "recorder num_slots pending = \<lparr>we_slots = num_slots, we_pending = pending, we_call = (\<lambda>cb user s. Some (s\<lparr>wh_world := wh_world s @ [user]\<rparr>))\<rparr>"

interpretation recording: timers "recorder n p" "\<lambda>cb user w. w @ [user]" jobs for n p jobs
  by unfold_locales (simp add: quiet_def recorder_def)

section \<open>Properties\<close>

text \<open> C31.
  Every timer fires exactly at its deadline: from the construction on, for every sequence of \<open>schedule\<close>,
  \<open>cancel\<close> and \<open>tick\<close> calls whose ticks and delays stay below \<open>2 ^ 32\<close>, the results are those of a list of
  timers in the order of scheduling, from which each tick runs, in that order, the callbacks of the timers
  whose delay has passed, however the timers share the slots of the wheel. The callbacks may change the
  world outside the wheel.
\<close>

theorem timer_wheel_fires_on_time:
  assumes "quiet env f" "timers_ready env jobs base h nodes" "\<forall>c \<in> set cs. timer_known jobs c" "sum_list (map timer_cost cs) < 2 ^ 32"
  shows "\<exists>s s'. wheel_init env (wheel_construct env base h nodes w) = Some (Ok, s) \<and>
    sim_run (wheel_call env) s cs = Some (fst (sim_spec (timer_step f jobs) (0, [], w) cs), s') \<and>
    wh_world s' = snd (snd (snd (sim_spec (timer_step f jobs) (0, [], w) cs)))"
proof -
  obtain now q w' where "snd (sim_spec (timer_step f jobs) (0, [], w) cs) = (now, q, w')" by (metis surj_pair)
  with timers.wheel_runs [OF timers.intro [OF assms(1)] assms(2-4), of w] show ?thesis by auto
qed

definition sample_timers :: "nat \<Rightarrow> timer_node option" where
  "sample_timers = [3000 \<mapsto> \<lparr>tn_deadline = 0, tn_callback = 7, tn_user = 1\<rparr>, 3032 \<mapsto> \<lparr>tn_deadline = 0, tn_callback = 7, tn_user = 2\<rparr>]"

definition sample_jobs :: "nat \<Rightarrow> (nat \<times> nat) option" where
  "sample_jobs = [3000 \<mapsto> (7, 1), 3032 \<mapsto> (7, 2)]"

definition sample_hooks :: hooks where
  "sample_hooks = [3000 \<mapsto> \<lparr>hk_next = 3000, hk_prev = 3000\<rparr>, 3032 \<mapsto> \<lparr>hk_next = 3032, hk_prev = 3032\<rparr>]"

theorem timer_wheel_fires_on_time_witness:
  "\<exists>s s'. wheel_init (recorder 2 9000) (wheel_construct (recorder 2 9000) 1000 sample_hooks sample_timers []) = Some (Ok, s) \<and>
    sim_run (wheel_call (recorder 2 9000)) s [Timer_schedule 3000 3, Timer_schedule 3032 1, Timer_schedule 3032 4, Timer_tick 1, Timer_schedule 3032 2, Timer_tick 2] =
      Some ([(Ok, None), (Ok, None), (Invalid, None), (Ok, None), (Ok, None), (Ok, None)], s') \<and> wh_world s' = [2, 1, 2]"
proof -
  let ?cs = "[Timer_schedule 3000 3, Timer_schedule 3032 1, Timer_schedule 3032 4, Timer_tick 1, Timer_schedule 3032 2, Timer_tick 2]"
  have env: "quiet (recorder 2 9000) (\<lambda>cb user w. w @ [user])" by (simp add: quiet_def recorder_def)
  have two: "{..<2 :: nat} = {0, 1}" by auto
  have "is_power_of_two (2 :: u64)" using is_power_of_two_exp [of 1] by simp
  then have "timers_ready (recorder 2 9000) sample_jobs 1000 sample_hooks sample_timers"
    by (auto simp: timers_ready_def slots_ok_def recorder_def two sample_jobs_def sample_hooks_def sample_timers_def SIZE_MAX_def split: if_splits)
  note t = timer_wheel_fires_on_time [OF env this, of ?cs "[]"]
  have "timer_step (\<lambda>cb user w. w @ [user]) sample_jobs (n, q, w) (Timer_tick 2) =
    (Ok, None, timer_advance (\<lambda>cb user w. w @ [user]) sample_jobs (timer_advance (\<lambda>cb user w. w @ [user]) sample_jobs (n, q, w)))" for n q w
    by (simp add: numeral_2_eq_2 del: timer_advance.simps)
  then show ?thesis using t by (simp add: sample_jobs_def run_job_def)
qed

section \<open>Limits\<close>

definition sample_wheel :: "u32 \<Rightarrow> nat list wheel" where
  "sample_wheel ticks = (wheel_construct (recorder 2 9000) 1000 sample_hooks sample_timers [])\<lparr>wh_ticks := ticks\<rparr>"

lemma wheel_slots_two: "[0..<2] = [0, 1]" "slot_mask 2 0 = 0" "slot_mask 2 (Suc 0) = 1" "slot_mask 2 10 = 0"
  by (simp_all add: upt_rec slot_mask_def)

lemma sample_wheel_fields:
  "wh_buckets (sample_wheel t) = 1000" "wh_slot (sample_wheel t) = 0" "wh_ticks (sample_wheel t) = t" "wh_world (sample_wheel t) = []"
  "wh_nodes (sample_wheel t) = sample_timers"
  "wh_hooks (sample_wheel t) = sample_hooks(1000 \<mapsto> \<lparr>hk_next = 1000, hk_prev = 1000\<rparr>, 1016 \<mapsto> \<lparr>hk_next = 1016, hk_prev = 1016\<rparr>)"
  by (simp_all add: sample_wheel_def wheel_construct_def recorder_def wheel_slots_two head_construct_def)

text \<open>A moved wheel does not work: the copied list heads still point to the buckets of the source.\<close>

lemma wheel_moved_is_broken:
  "\<exists>s. wheel_move (recorder 2 9000) (sample_wheel 0) 2000 = Some s \<and> head_empty (wh_hooks s) (wheel_bucket s 1) = Some False \<and>
    wheel_tick (recorder 2 9000) s 1 = None"
proof -
  let ?self = "\<lambda>a. \<lparr>hk_next = a, hk_prev = a\<rparr>"
  let ?h = "sample_hooks(1000 \<mapsto> ?self 1000, 1016 \<mapsto> ?self 1016, 2000 \<mapsto> ?self 1000, 2016 \<mapsto> ?self 1016)"
  let ?s = "(sample_wheel 0)\<lparr>wh_buckets := 2000, wh_hooks := ?h\<rparr>"
  have b: "wheel_bucket s i = sz_add (wh_buckets s) (sz_mul i 16)" for s :: "nat list wheel" and i by (simp add: wheel_bucket_def)
  have a: "sz_add 1000 (sz_mul 0 16) = 1000" "sz_add 1000 (sz_mul (Suc 0) 16) = 1016" "sz_add 2000 (sz_mul 0 16) = 2000" "sz_add 2000 (sz_mul (Suc 0) 16) = 2016"
    by (simp_all add: sz_add_eq sz_mul_eq SIZE_MAX_def)
  have move: "wheel_move (recorder 2 9000) (sample_wheel 0) 2000 = Some ?s"
    by (simp add: wheel_move_def recorder_def numeral_2_eq_2 b a sample_wheel_fields wheel_reset_state_def head_clear_def hook_init_def fun_upd_twist)
  have ne: "head_empty (wh_hooks ?s) (wheel_bucket ?s 1) = Some False"
    by (simp add: b a head_empty_def hook_is_linked_def)
  let ?s1 = "?s\<lparr>wh_ticks := 1, wh_slot := 1, wh_hooks := head_construct ?h 9000\<rparr>"
  have "wheel_drain (recorder 2 9000) ?s1 1 = None"
    by (subst wheel_drain.simps)
       (simp add: b a head_empty_def head_front_def hook_is_linked_def head_construct_def hook_erase_def container_from_hook_def sz_sub_def SIZE_MAX_def
          sample_wheel_fields sample_timers_def)
  then have "wheel_tick (recorder 2 9000) ?s 1 = None"
    by (simp add: wheel_tick_def wheel_dispatch_def sample_wheel_fields recorder_def wheel_slots_two sz_add_eq SIZE_MAX_def)
  with move ne show ?thesis by blast
qed

text \<open>A deadline that wraps around lies below the tick counter: the timer fires the next time its slot comes up.\<close>

lemma wheel_dispatch_empty:
  assumes "head_empty (wh_hooks s) (wheel_bucket s slot) = Some True" "wheel_bucket s slot \<noteq> we_pending env" "wh_hooks s (we_pending env) = None"
  shows "wheel_dispatch env s slot = Some s"
proof -
  let ?s = "s\<lparr>wh_hooks := head_construct (wh_hooks s) (we_pending env)\<rparr>"
  have "head_empty (wh_hooks ?s) (wheel_bucket ?s slot) = Some True"
    using assms(1,2) by (simp add: head_empty_def hook_is_linked_def head_construct_def)
  then have "wheel_drain env ?s slot = Some ?s" by (subst wheel_drain.simps) simp
  moreover have "wheel_refill env ?s slot = Some ?s"
    by (subst wheel_refill.simps) (simp add: head_empty_def hook_is_linked_def head_construct_def)
  ultimately show ?thesis using assms(3) by (simp add: wheel_dispatch_def head_construct_def fun_upd_idem)
qed

lemma wrapped_deadline_fires_early:
  "\<exists>s1 s2. wheel_schedule (recorder 2 9000) (sample_wheel (- 10)) 3000 20 = Some (Ok, s1) \<and>
    wheel_tick (recorder 2 9000) s1 2 = Some (Ok, s2) \<and> wh_world s2 = [1]"
proof -
  let ?h = "(wh_hooks (sample_wheel 0))(3000 \<mapsto> \<lparr>hk_next = 1000, hk_prev = 1000\<rparr>, 1000 \<mapsto> \<lparr>hk_next = 3000, hk_prev = 3000\<rparr>)"
  let ?nodes = "sample_timers(3000 \<mapsto> \<lparr>tn_deadline = 10, tn_callback = 7, tn_user = 1\<rparr>)"
  let ?s1 = "(sample_wheel (- 10))\<lparr>wh_hooks := ?h, wh_nodes := ?nodes\<rparr>"
  have b: "wheel_bucket s 0 = 1000" "wheel_bucket s (Suc 0) = 1016" if "wh_buckets s = 1000" for s :: "nat list wheel"
    using that by (simp_all add: wheel_bucket_def sz_add_eq sz_mul_eq SIZE_MAX_def)
  have sched: "wheel_schedule (recorder 2 9000) (sample_wheel (- 10)) 3000 20 = Some (Ok, ?s1)"
    by (simp add: wheel_schedule_def sample_wheel_fields sample_timers_def hook_is_linked_def sample_hooks_def recorder_def wheel_slots_two b
        head_push_back_def insert_after_def set_hook_next_def set_hook_prev_def Let_def)
  let ?s2 = "?s1\<lparr>wh_ticks := - 9, wh_slot := Suc 0\<rparr>" and ?s3 = "?s1\<lparr>wh_ticks := - 8, wh_slot := 0\<rparr>"
  have d1: "wheel_dispatch (recorder 2 9000) ?s2 (Suc 0) = Some ?s2"
    by (rule wheel_dispatch_empty)
       (simp_all add: b sample_wheel_fields head_empty_def hook_is_linked_def recorder_def sample_hooks_def)
  let ?p = "?s3\<lparr>wh_hooks := head_construct ?h 9000\<rparr>"
  let ?e = "?p\<lparr>wh_hooks := (head_construct ?h 9000)(3000 \<mapsto> \<lparr>hk_next = 3000, hk_prev = 3000\<rparr>, 1000 \<mapsto> \<lparr>hk_next = 1000, hk_prev = 1000\<rparr>), wh_world := [1]\<rparr>"
  have "wheel_drain (recorder 2 9000) ?p 0 = wheel_drain (recorder 2 9000) ?e 0"
    by (subst wheel_drain.simps)
       (simp add: b sample_wheel_fields head_empty_def head_front_def hook_is_linked_def head_construct_def hook_erase_def hook_init_def
          set_hook_next_def set_hook_prev_def container_from_hook_def sz_sub_def SIZE_MAX_def recorder_def fun_upd_twist)
  moreover have "wheel_drain (recorder 2 9000) ?e 0 = Some ?e"
    by (subst wheel_drain.simps) (simp add: b sample_wheel_fields head_empty_def hook_is_linked_def head_construct_def)
  moreover have "wheel_refill (recorder 2 9000) ?e 0 = Some ?e"
    by (subst wheel_refill.simps) (simp add: recorder_def head_empty_def hook_is_linked_def head_construct_def)
  ultimately have "\<exists>s2. wheel_dispatch (recorder 2 9000) ?s3 0 = Some s2 \<and> wh_world s2 = [1]"
    by (simp add: wheel_dispatch_def recorder_def)
  then obtain s2 where s2: "wheel_dispatch (recorder 2 9000) ?s3 0 = Some s2" "wh_world s2 = [1]" by blast
  have "slot_mask (we_slots (recorder 2 9000)) (sz_add 0 1) = Suc 0" "slot_mask (we_slots (recorder 2 9000)) (sz_add (Suc 0) 1) = 0"
    by (simp_all add: recorder_def slot_mask_def sz_add_eq SIZE_MAX_def)
  with d1 s2(1) have "wheel_tick_loop (recorder 2 9000) ?s1 (Suc (Suc 0)) = Some s2" by (simp add: sample_wheel_fields)
  then have "wheel_tick (recorder 2 9000) ?s1 2 = Some (Ok, s2)" by (simp add: wheel_tick_def numeral_2_eq_2 del: wheel_tick_loop.simps)
  with sched s2(2) show ?thesis by blast
qed

end
