(* ===== verification/Fixed_Variant.thy ===== *)
theory Fixed_Variant
  imports Simulation
begin

text \<open>
  \<^verbatim>\<open>include/memkit/containers/fixed_variant.hpp\<close>: a tagged union over the types \<open>Ts\<close> in fixed storage.

  Types are values of \<open>'ty\<close>, \<open>'v\<close> holds the values of all of them. The storage holds an object with the type
  it was constructed with, or none; using it as another type, or where there is no object, is undefined
  (None). \<open>fv_destroyed\<close> is the trace of destructor calls with the type they ran for.
\<close>

section \<open>Model\<close>

fun fv_index_impl :: "'ty \<Rightarrow> 'ty list \<Rightarrow> nat" where
  "fv_index_impl t [] = 0"
| "fv_index_impl t [final] = (if t = final then 0 else 1)"
| "fv_index_impl t (first # rest) = (if t = first then 0 else 1 + fv_index_impl t rest)"

fun fv_alternative :: "nat \<Rightarrow> 'ty list \<Rightarrow> 'ty option" where
  "fv_alternative i [] = None"
| "fv_alternative 0 (first # rest) = Some first"
| "fv_alternative (Suc i) (first # rest) = fv_alternative i rest"

record ('ty, 'v) fixed_variant =
  fv_storage :: "('ty \<times> 'v) option"
  fv_index :: nat
  fv_destroyed :: "('ty \<times> 'v) list"

definition fv_construct :: "'ty list \<Rightarrow> ('ty, 'v) fixed_variant" where
  "fv_construct ts = \<lparr>fv_storage = None, fv_index = length ts, fv_destroyed = []\<rparr>"

definition fv_empty :: "'ty list \<Rightarrow> ('ty, 'v) fixed_variant \<Rightarrow> bool" where
  "fv_empty ts s \<longleftrightarrow> fv_index s = length ts"

definition fv_holds :: "'ty list \<Rightarrow> 'ty \<Rightarrow> ('ty, 'v) fixed_variant \<Rightarrow> bool" where
  "fv_holds ts t s \<longleftrightarrow> \<not> fv_empty ts s \<and> fv_index s = fv_index_impl t ts"

text \<open>The object in the storage, used as a \<open>t\<close>.\<close>

definition object_as :: "'ty \<Rightarrow> ('ty \<times> 'v) option \<Rightarrow> 'v option" where
  "object_as t storage = (case storage of None \<Rightarrow> None | Some (t', v) \<Rightarrow> if t' = t then Some v else None)"

function fv_destroy_at :: "'ty list \<Rightarrow> nat \<Rightarrow> nat \<Rightarrow> ('ty, 'v) fixed_variant \<Rightarrow> ('ty, 'v) fixed_variant option" where
  "fv_destroy_at ts i index s =
     (if i \<ge> length ts then Some s
      else if i = index then do {
        alt \<leftarrow> fv_alternative i ts;
        v \<leftarrow> object_as alt (fv_storage s);
        Some (s\<lparr>fv_storage := None, fv_destroyed := fv_destroyed s @ [(alt, v)]\<rparr>)
      }
      else fv_destroy_at ts (i + 1) index s)"
  by pat_completeness auto
termination by (relation "measure (\<lambda>(ts, i, index, s). length ts - i)") auto

declare fv_destroy_at.simps [simp del]

definition fv_clear :: "'ty list \<Rightarrow> ('ty, 'v) fixed_variant \<Rightarrow> ('ty, 'v) fixed_variant option" where
  "fv_clear ts s =
     (if fv_empty ts s then Some s
      else do {
        s1 \<leftarrow> fv_destroy_at ts 0 (fv_index s) s;
        Some (s1\<lparr>fv_index := length ts\<rparr>)
      })"

text \<open>\<open>ctor\<close> is the value that the constructor of \<open>t\<close> makes, None when it throws: then \<open>emplace\<close> has no status.\<close>

definition fv_emplace :: "'ty list \<Rightarrow> 'ty \<Rightarrow> 'v option \<Rightarrow> ('ty, 'v) fixed_variant \<Rightarrow> (status option \<times> ('ty, 'v) fixed_variant) option" where
  "fv_emplace ts t ctor s = do {
     s1 \<leftarrow> fv_clear ts s;
     case ctor of None \<Rightarrow> Some (None, s1)
     | Some v \<Rightarrow> Some (Some Ok, s1\<lparr>fv_storage := Some (t, v), fv_index := fv_index_impl t ts\<rparr>)
   }"

definition fv_set :: "'ty list \<Rightarrow> 'ty \<Rightarrow> 'v option \<Rightarrow> ('ty, 'v) fixed_variant \<Rightarrow> (status option \<times> ('ty, 'v) fixed_variant) option" where
  "fv_set ts t v s = fv_emplace ts t v s"

definition fv_get :: "'ty list \<Rightarrow> 'ty \<Rightarrow> ('ty, 'v) fixed_variant \<Rightarrow> 'v \<Rightarrow> (status \<times> 'v) option" where
  "fv_get ts t s out =
     (if \<not> fv_holds ts t s then Some (Invalid, out)
      else do {
        v \<leftarrow> object_as t (fv_storage s);
        Some (Ok, v)
      })"

text \<open>The pointer that \<open>try_get\<close> returns, as the object it points to; None is the null pointer.\<close>

definition fv_try_get :: "'ty list \<Rightarrow> 'ty \<Rightarrow> ('ty, 'v) fixed_variant \<Rightarrow> 'v option option" where
  "fv_try_get ts t s =
     (if \<not> fv_holds ts t s then Some None
      else do {
        v \<leftarrow> object_as t (fv_storage s);
        Some (Some v)
      })"

function fv_visit_at :: "'ty list \<Rightarrow> nat \<Rightarrow> nat \<Rightarrow> ('ty \<Rightarrow> 'v \<Rightarrow> 'w \<Rightarrow> status \<times> 'w) \<Rightarrow> ('ty, 'v) fixed_variant \<Rightarrow> 'w \<Rightarrow> (status \<times> 'w) option" where
  "fv_visit_at ts i index visitor s w =
     (if i \<ge> length ts then Some (Invalid, w)
      else if i = index then do {
        alt \<leftarrow> fv_alternative i ts;
        v \<leftarrow> object_as alt (fv_storage s);
        Some (visitor alt v w)
      }
      else fv_visit_at ts (i + 1) index visitor s w)"
  by pat_completeness auto
termination by (relation "measure (\<lambda>(ts, i, index, visitor, s, w). length ts - i)") auto

declare fv_visit_at.simps [simp del]

definition fv_visit :: "'ty list \<Rightarrow> ('ty \<Rightarrow> 'v \<Rightarrow> 'w \<Rightarrow> status \<times> 'w) \<Rightarrow> ('ty, 'v) fixed_variant \<Rightarrow> 'w \<Rightarrow> (status \<times> 'w) option" where
  "fv_visit ts visitor s w = (if fv_empty ts s then Some (Empty, w) else fv_visit_at ts 0 (fv_index s) visitor s w)"

text \<open>Moving an object: a new one is made from it, and what is left of it (\<open>moved\<close>) is destroyed.\<close>

function fv_move_at :: "('ty \<Rightarrow> 'v \<Rightarrow> 'v) \<Rightarrow> 'ty list \<Rightarrow> nat \<Rightarrow> nat \<Rightarrow> ('ty, 'v) fixed_variant \<Rightarrow> ('ty, 'v) fixed_variant \<Rightarrow>
    (('ty, 'v) fixed_variant \<times> ('ty, 'v) fixed_variant) option" where
  "fv_move_at moved ts i index src dst =
     (if i \<ge> length ts then Some (src, dst)
      else if i = index then do {
        alt \<leftarrow> fv_alternative i ts;
        v \<leftarrow> object_as alt (fv_storage src);
        Some (src\<lparr>fv_storage := None, fv_destroyed := fv_destroyed src @ [(alt, moved alt v)]\<rparr>, dst\<lparr>fv_storage := Some (alt, v)\<rparr>)
      }
      else fv_move_at moved ts (i + 1) index src dst)"
  by pat_completeness auto
termination by (relation "measure (\<lambda>(moved, ts, i, index, src, dst). length ts - i)") auto

declare fv_move_at.simps [simp del]

definition fv_move_from :: "('ty \<Rightarrow> 'v \<Rightarrow> 'v) \<Rightarrow> 'ty list \<Rightarrow> ('ty, 'v) fixed_variant \<Rightarrow> ('ty, 'v) fixed_variant \<Rightarrow>
    (('ty, 'v) fixed_variant \<times> ('ty, 'v) fixed_variant) option" where
  "fv_move_from moved ts other s =
     (if fv_empty ts other then Some (other, s\<lparr>fv_index := length ts\<rparr>)
      else do {
        (other1, s1) \<leftarrow> fv_move_at moved ts 0 (fv_index other) other s;
        Some (other1\<lparr>fv_index := length ts\<rparr>, s1\<lparr>fv_index := fv_index other\<rparr>)
      })"

definition fv_move_assign :: "('ty \<Rightarrow> 'v \<Rightarrow> 'v) \<Rightarrow> 'ty list \<Rightarrow> ('ty, 'v) fixed_variant \<Rightarrow> ('ty, 'v) fixed_variant \<Rightarrow>
    (('ty, 'v) fixed_variant \<times> ('ty, 'v) fixed_variant) option" where
  "fv_move_assign moved ts other s = do {
     s1 \<leftarrow> fv_clear ts s;
     fv_move_from moved ts other s1
   }"

section \<open>The tag and the object agree\<close>

definition fv_wf :: "'ty list \<Rightarrow> ('ty, 'v) fixed_variant \<Rightarrow> bool" where
  "fv_wf ts s \<longleftrightarrow> (case fv_storage s of None \<Rightarrow> fv_index s = length ts | Some (t, v) \<Rightarrow> t \<in> set ts \<and> fv_index s = fv_index_impl t ts)"

lemma fv_index_impl_less: "t \<in> set ts \<Longrightarrow> fv_index_impl t ts < length ts"
  by (induction t ts rule: fv_index_impl.induct) auto

lemma fv_alternative_index: "t \<in> set ts \<Longrightarrow> fv_alternative (fv_index_impl t ts) ts = Some t"
  by (induction t ts rule: fv_index_impl.induct) auto

lemma fv_alternative_nth: "i < length ts \<Longrightarrow> fv_alternative i ts = Some (ts ! i)"
  by (induction i ts rule: fv_alternative.induct) auto

text \<open>Each type has its own index.\<close>

lemma fv_index_inj: "t \<in> set ts \<Longrightarrow> u \<in> set ts \<Longrightarrow> fv_index_impl t ts = fv_index_impl u ts \<longleftrightarrow> t = u"
  using fv_alternative_index by (metis option.inject)

lemma fv_wf_cases:
  assumes "fv_wf ts s"
  obtains "fv_storage s = None" "fv_empty ts s"
  | t v where "fv_storage s = Some (t, v)" "t \<in> set ts" "\<not> fv_empty ts s" "fv_index s = fv_index_impl t ts"
  using assms that fv_index_impl_less [of _ ts] unfolding fv_wf_def fv_empty_def by (fastforce split: option.splits)

lemma fv_holds_iff: "fv_wf ts s \<Longrightarrow> t \<in> set ts \<Longrightarrow> fv_holds ts t s \<longleftrightarrow> (\<exists>v. fv_storage s = Some (t, v))"
  by (erule fv_wf_cases) (auto simp: fv_holds_def fv_index_inj)

lemma fv_destroy_at_ok:
  assumes "i \<le> index" "index < length ts" "fv_alternative index ts = Some t" "fv_storage s = Some (t, v)"
  shows "fv_destroy_at ts i index s = Some (s\<lparr>fv_storage := None, fv_destroyed := fv_destroyed s @ [(t, v)]\<rparr>)"
  using assms
proof (induction ts i index s rule: fv_destroy_at.induct)
  case (1 ts i index s)
  then show ?case by (subst fv_destroy_at.simps) (auto simp: object_as_def)
qed

lemma fv_visit_at_ok:
  assumes "i \<le> index" "index < length ts" "fv_alternative index ts = Some t" "fv_storage s = Some (t, v)"
  shows "fv_visit_at ts i index visitor s w = Some (visitor t v w)"
  using assms
proof (induction ts i index visitor s w rule: fv_visit_at.induct)
  case (1 ts i index visitor s w)
  then show ?case by (subst fv_visit_at.simps) (auto simp: object_as_def)
qed

lemma fv_move_at_ok:
  assumes "i \<le> index" "index < length ts" "fv_alternative index ts = Some t" "fv_storage src = Some (t, v)"
  shows "fv_move_at moved ts i index src dst =
    Some (src\<lparr>fv_storage := None, fv_destroyed := fv_destroyed src @ [(t, moved t v)]\<rparr>, dst\<lparr>fv_storage := Some (t, v)\<rparr>)"
  using assms
proof (induction moved ts i index src dst rule: fv_move_at.induct)
  case (1 moved ts i index src dst)
  then show ?case by (subst fv_move_at.simps) (auto simp: object_as_def)
qed

lemma fv_clear_ok:
  assumes "fv_wf ts s"
  shows "\<exists>s'. fv_clear ts s = Some s' \<and> fv_wf ts s' \<and> fv_storage s' = None \<and>
    fv_destroyed s' = fv_destroyed s @ (case fv_storage s of None \<Rightarrow> [] | Some x \<Rightarrow> [x])"
  using assms
proof (cases rule: fv_wf_cases)
  case 1
  with assms show ?thesis by (simp add: fv_clear_def)
next
  case (2 t v)
  have "fv_destroy_at ts 0 (fv_index s) s = Some (s\<lparr>fv_storage := None, fv_destroyed := fv_destroyed s @ [(t, v)]\<rparr>)"
    using 2 by (intro fv_destroy_at_ok) (simp_all add: fv_index_impl_less fv_alternative_index)
  with 2 show ?thesis by (simp add: fv_clear_def fv_wf_def)
qed

lemma fv_emplace_ok:
  assumes "fv_wf ts s" "t \<in> set ts"
  shows "\<exists>s'. fv_emplace ts t ctor s = Some (map_option (\<lambda>_. Ok) ctor, s') \<and> fv_wf ts s' \<and> fv_storage s' = map_option (Pair t) ctor \<and>
    fv_destroyed s' = fv_destroyed s @ (case fv_storage s of None \<Rightarrow> [] | Some x \<Rightarrow> [x])"
proof -
  from fv_clear_ok [OF assms(1)] obtain s1 where "fv_clear ts s = Some s1" "fv_wf ts s1" "fv_storage s1 = None"
    "fv_destroyed s1 = fv_destroyed s @ (case fv_storage s of None \<Rightarrow> [] | Some x \<Rightarrow> [x])" by blast
  with assms(2) show ?thesis by (cases ctor) (simp_all add: fv_emplace_def fv_wf_def)
qed

lemma fv_move_from_ok:
  assumes "fv_wf ts other" "fv_wf ts s" "fv_storage s = None"
  shows "\<exists>other' s'. fv_move_from moved ts other s = Some (other', s') \<and> fv_wf ts other' \<and> fv_wf ts s' \<and> fv_storage other' = None \<and>
    fv_storage s' = fv_storage other \<and> fv_destroyed s' = fv_destroyed s \<and>
    fv_destroyed other' = fv_destroyed other @ (case fv_storage other of None \<Rightarrow> [] | Some (t, v) \<Rightarrow> [(t, moved t v)])"
  using assms(1)
proof (cases rule: fv_wf_cases)
  case 1
  with assms show ?thesis by (simp add: fv_move_from_def fv_wf_def)
next
  case (2 t v)
  have "fv_move_at moved ts 0 (fv_index other) other s =
    Some (other\<lparr>fv_storage := None, fv_destroyed := fv_destroyed other @ [(t, moved t v)]\<rparr>, s\<lparr>fv_storage := Some (t, v)\<rparr>)"
    using 2 by (intro fv_move_at_ok) (simp_all add: fv_index_impl_less fv_alternative_index)
  with 2 show ?thesis by (simp add: fv_move_from_def fv_wf_def)
qed

lemma fv_visit_ok:
  assumes "fv_wf ts s"
  shows "fv_visit ts visitor s w = Some (case fv_storage s of None \<Rightarrow> (Empty, w) | Some (t, v) \<Rightarrow> visitor t v w)"
  using assms
proof (cases rule: fv_wf_cases)
  case (2 t v)
  have "fv_visit_at ts 0 (fv_index s) visitor s w = Some (visitor t v w)"
    using 2 by (intro fv_visit_at_ok) (simp_all add: fv_index_impl_less fv_alternative_index)
  with 2 show ?thesis by (simp add: fv_visit_def)
qed (simp add: fv_visit_def)

section \<open>Runs\<close>

text \<open>The contract: at most one value, with its type. The trace notes every value that is dropped.\<close>

datatype ('ty, 'v) fv_cmd = Fv_emplace 'ty 'v | Fv_get 'ty | Fv_holds 'ty | Fv_clear

fun fv_step :: "('ty \<times> 'v) option \<times> ('ty \<times> 'v) list \<Rightarrow> ('ty, 'v) fv_cmd \<Rightarrow> status \<times> 'v option \<times> ('ty \<times> 'v) option \<times> ('ty \<times> 'v) list" where
  "fv_step (x, tr) (Fv_emplace t v) = (Ok, None, Some (t, v), tr @ (case x of None \<Rightarrow> [] | Some y \<Rightarrow> [y]))"
| "fv_step (x, tr) (Fv_get t) = (case x of Some (u, v) \<Rightarrow> if u = t then (Ok, Some v, x, tr) else (Invalid, None, x, tr) | None \<Rightarrow> (Invalid, None, x, tr))"
| "fv_step (x, tr) (Fv_holds t) = (if map_option fst x = Some t then Ok else Invalid, None, x, tr)"
| "fv_step (x, tr) Fv_clear = (Ok, None, None, tr @ (case x of None \<Rightarrow> [] | Some y \<Rightarrow> [y]))"

fun fv_member :: "'ty list \<Rightarrow> ('ty, 'v) fv_cmd \<Rightarrow> bool" where
  "fv_member ts (Fv_emplace t v) \<longleftrightarrow> t \<in> set ts"
| "fv_member ts (Fv_get t) \<longleftrightarrow> t \<in> set ts"
| "fv_member ts (Fv_holds t) \<longleftrightarrow> t \<in> set ts"
| "fv_member ts Fv_clear \<longleftrightarrow> True"

fun fv_call :: "'ty list \<Rightarrow> 'v \<Rightarrow> ('ty, 'v) fixed_variant \<Rightarrow> ('ty, 'v) fv_cmd \<Rightarrow> (status \<times> 'v option \<times> ('ty, 'v) fixed_variant) option" where
  "fv_call ts d s (Fv_emplace t v) = map_option (\<lambda>(st, s'). (the st, None, s')) (fv_emplace ts t (Some v) s)"
| "fv_call ts d s (Fv_get t) = map_option (\<lambda>(st, v). (st, Some v, s)) (fv_get ts t s d)"
| "fv_call ts d s (Fv_holds t) = Some (if fv_holds ts t s then Ok else Invalid, None, s)"
| "fv_call ts d s Fv_clear = map_option (\<lambda>s'. (Ok, None, s')) (fv_clear ts s)"

definition fv_rel :: "'ty list \<Rightarrow> nat \<Rightarrow> ('ty, 'v) fixed_variant \<Rightarrow> ('ty \<times> 'v) option \<times> ('ty \<times> 'v) list \<Rightarrow> bool" where
  "fv_rel ts m s a \<longleftrightarrow> fv_wf ts s \<and> a = (fv_storage s, fv_destroyed s)"

lemma fv_call_law:
  assumes "fv_rel ts m s a" "fv_member ts c"
  shows "sim_meets (fv_rel ts m) (fv_step a c) (fv_call ts d s c)"
proof -
  from assms(1) have wf: "fv_wf ts s" and a: "a = (fv_storage s, fv_destroyed s)" by (simp_all add: fv_rel_def)
  show ?thesis
  proof (cases c)
    case (Fv_emplace t v)
    with fv_emplace_ok [OF wf, of t "Some v"] assms(2) show ?thesis by (auto simp: a fv_rel_def sim_meets_def)
  next
    case (Fv_get t)
    show ?thesis
    proof (cases "\<exists>v. fv_storage s = Some (t, v)")
      case True
      then obtain v where "fv_storage s = Some (t, v)" by blast
      with fv_holds_iff [OF wf, of t] Fv_get assms(2) wf show ?thesis by (simp add: a fv_rel_def sim_meets_def fv_get_def object_as_def)
    next
      case False
      with fv_holds_iff [OF wf, of t] Fv_get assms(2) wf show ?thesis
        by (cases "fv_storage s") (auto simp: a fv_rel_def sim_meets_def fv_get_def)
    qed
  next
    case (Fv_holds t)
    with fv_holds_iff [OF wf, of t] assms(2) wf show ?thesis
      by (cases "fv_storage s") (auto simp: a fv_rel_def sim_meets_def)
  next
    case Fv_clear
    with fv_clear_ok [OF wf] show ?thesis by (auto simp: a fv_rel_def sim_meets_def)
  qed
qed

interpretation variant: simulation "fv_member ts" "\<lambda>_. 0" fv_step "fv_call ts d" "fv_rel ts"
  for ts :: "'ty list" and d :: 'v
  by unfold_locales (rule fv_call_law, simp_all)

text \<open> C32.
  A variant is type safe: from its construction on, every sequence of \<open>emplace\<close>, \<open>get\<close>, \<open>holds\<close> and \<open>clear\<close>
  on member types is defined, so no object is read or destroyed as another type; \<open>get\<close> returns a value
  exactly for the type that was stored last, and every stored object is destroyed once, with its type,
  when it is replaced or cleared.
\<close>

theorem fixed_variant_type_safe:
  assumes "\<forall>c \<in> set cs. fv_member ts c"
  shows "\<exists>s. sim_run (fv_call ts d) (fv_construct ts) cs = Some (fst (sim_spec fv_step (None, []) cs), s) \<and> fv_wf ts s \<and>
    (fv_storage s, fv_destroyed s) = snd (sim_spec fv_step (None, []) cs)"
proof -
  have "fv_rel ts (sum_list (map (\<lambda>_. 0) cs) + 0) (fv_construct ts) (None, [])"
    by (simp add: fv_rel_def fv_construct_def fv_wf_def)
  from variant.run_refines [OF this assms, of d] show ?thesis unfolding fv_rel_def by metis
qed

theorem fixed_variant_type_safe_witness:
  "\<exists>s. sim_run (fv_call [''int'', ''bool''] 0) (fv_construct [''int'', ''bool''])
      [Fv_get ''int'', Fv_emplace ''int'' 5, Fv_get ''bool'', Fv_get ''int'', Fv_emplace ''bool'' 1, Fv_holds ''bool'', Fv_clear] =
    Some ([(Invalid, None), (Ok, None), (Invalid, None), (Ok, Some (5 :: nat)), (Ok, None), (Ok, None), (Ok, None)], s) \<and>
    fv_destroyed s = [(''int'', 5), (''bool'', 1)]"
  using fixed_variant_type_safe [of "[Fv_get ''int'', Fv_emplace ''int'' 5, Fv_get ''bool'', Fv_get ''int'', Fv_emplace ''bool'' 1, Fv_holds ''bool'', Fv_clear]"
      "[''int'', ''bool'']" "0 :: nat"] by auto

end
