(* ===== verification/C_Api.thy ===== *)
theory C_Api
  imports Growable Arena
begin

text \<open>
  What the C interface of the containers shares: \<^verbatim>\<open>include/memkit/c_api/create_object.hpp\<close>,
  \<^verbatim>\<open>element_storage.hpp\<close>, \<^verbatim>\<open>object_lifecycle.hpp\<close>,
  \<^verbatim>\<open>callback_bridge.hpp\<close> and \<^verbatim>\<open>element_callback_bridge.hpp\<close>; and the law of an interface whose
  objects own memory.

  A pointer is its address, 0 the null pointer. The world holds the blocks \<open>malloc\<close> has given out and not taken
  back, the objects of the interface by address (\<open>None\<close>: memory for an object that no one has written yet) and
  the arenas. \<open>malloc\<close> is a parameter: it is told how often it was called and the addresses in use. Freeing an
  address that is not a live block, and reading an object that is not there, are undefined.
\<close>

section \<open>Platform and memory\<close>

record 'e platform =
  pf_env :: "'e env"
  pf_max_align :: u64
  pf_malloc :: "nat \<Rightarrow> u64 set \<Rightarrow> u64 \<Rightarrow> u64 option"

abbreviation pf_heap :: "'e platform \<Rightarrow> bool" where
  "pf_heap pf \<equiv> env_allow_heap (pf_env pf)"

record 'o world =
  cw_live :: "u64 set"
  cw_objs :: "u64 \<Rightarrow> 'o option option"
  cw_arenas :: "u64 \<Rightarrow> arena_t option"
  cw_calls :: nat

abbreviation addresses_in_use :: "'o world \<Rightarrow> u64 set" where
  "addresses_in_use w \<equiv> cw_live w \<union> dom (cw_objs w)"

definition c_malloc :: "'e platform \<Rightarrow> u64 \<Rightarrow> 'o world \<Rightarrow> u64 \<times> 'o world" where
  "c_malloc pf bytes w =
     (let w' = w\<lparr>cw_calls := Suc (cw_calls w)\<rparr> in
      case pf_malloc pf (cw_calls w) (addresses_in_use w) bytes of
        None \<Rightarrow> (0, w')
      | Some p \<Rightarrow> (p, w'\<lparr>cw_live := insert p (cw_live w)\<rparr>))"

definition c_free :: "u64 \<Rightarrow> 'o world \<Rightarrow> 'o world option" where
  "c_free p w =
     (if p = 0 then Some w
      else if p \<in> cw_live w then Some (w\<lparr>cw_live := cw_live w - {p}, cw_objs := (cw_objs w)(p := None)\<rparr>)
      else None)"

text \<open>\<open>arena_alloc\<close> with the address of a local pointer as out parameter.\<close>

definition c_arena_alloc :: "u64 \<Rightarrow> u64 \<Rightarrow> u64 \<Rightarrow> 'o world \<Rightarrow> (arena_status \<times> u64 \<times> 'o world) option" where
  "c_arena_alloc ar bytes alignment w = do {
     a \<leftarrow> cw_arenas w ar;
     let (st, out, a') = arena_alloc (Some a) bytes alignment (Some 0);
     Some (st, the out, w\<lparr>cw_arenas := (cw_arenas w)(ar := a')\<rparr>)
   }"

definition read_obj :: "u64 \<Rightarrow> 'o world \<Rightarrow> 'o option" where
  "read_obj p w = (case cw_objs w p of Some (Some b) \<Rightarrow> Some b | _ \<Rightarrow> None)"

definition write_obj :: "u64 \<Rightarrow> 'o \<Rightarrow> 'o world \<Rightarrow> 'o world" where
  "write_obj p b w = w\<lparr>cw_objs := (cw_objs w)(p \<mapsto> Some b)\<rparr>"

section \<open>create_object.hpp\<close>

text \<open>The result and the object's address; \<open>obj_size\<close> and \<open>alignment\<close> are those of the object type.\<close>

definition allocate_object ::
  "'e platform \<Rightarrow> u64 \<Rightarrow> u64 \<Rightarrow> u64 \<Rightarrow> 'o world \<Rightarrow> (bool \<times> u64 \<times> 'o world) option" where
  "allocate_object pf obj_size alignment arena w =
     (if arena = 0 then
        (if pf_heap pf then
           (let (p, w1) = c_malloc pf obj_size w in
            Some (p \<noteq> 0, p, if p \<noteq> 0 then w1\<lparr>cw_objs := (cw_objs w1)(p \<mapsto> None)\<rparr> else w1))
         else Some (False, 0, w))
      else do {
        (st, p, w1) \<leftarrow> c_arena_alloc arena obj_size alignment w;
        if st \<noteq> Arena_ok then Some (False, 0, w1)
        else Some (True, p, w1\<lparr>cw_objs := (cw_objs w1)(p \<mapsto> None)\<rparr>)
      })"

definition release_uninitialized_object :: "'e platform \<Rightarrow> u64 \<Rightarrow> u64 \<Rightarrow> 'o world \<Rightarrow> 'o world option" where
  "release_uninitialized_object pf arena p w =
     (if pf_heap pf \<and> arena = 0 \<and> p \<noteq> 0 then c_free p w else Some w)"

section \<open>element_storage.hpp\<close>

definition element_external :: u8 where "element_external = 0"
definition element_owns :: u8 where "element_owns = 1"
definition element_arena :: u8 where "element_arena = 2"
definition element_heap :: u8 where "element_heap = 4"

text \<open>\<open>es_cells\<close> is what \<open>caller_storage\<close> points to, one cell per element.\<close>

record 'e element_storage_config =
  es_elem_size :: u64
  es_capacity :: u64
  es_caller_storage :: u64
  es_cells :: "'e list"
  es_caller_storage_bytes :: u64
  es_arena :: u64
  es_flags :: u32
  es_flag_owns :: u32
  es_flag_dynamic :: u32
  es_flag_arena :: u32

definition elem_bytes_alignment :: "u64 \<Rightarrow> u64 \<Rightarrow> u64" where
  "elem_bytes_alignment max_align elem_size =
     (if elem_size = 0 then max_align
      else let align = elem_size AND (NOT elem_size + 1) in if align > 0 then align else 1)"

text \<open>A fresh block of \<open>bytes\<close> bytes has unspecified elements.\<close>

definition fresh_cells :: "'e platform \<Rightarrow> u64 \<Rightarrow> u64 \<Rightarrow> 'e mem" where
  "fresh_cells pf bytes elem_size = Some (new_block (pf_env pf) (unat bytes) (unat elem_size))"

text \<open>The status, the block (address and cells), the storage kind and the flags.\<close>

definition allocate_element_storage ::
  "'e platform \<Rightarrow> 'e element_storage_config \<Rightarrow> u32 \<Rightarrow> 'o world \<Rightarrow>
   (status \<times> (u64 \<times> 'e mem) \<times> u8 \<times> u32 \<times> 'o world) option" where
  "allocate_element_storage pf config c_flags w =
     (let bytes = es_elem_size config * es_capacity config in
      if es_caller_storage config \<noteq> 0 then
        Some (Ok, (es_caller_storage config, Some (es_cells config)), element_external, c_flags, w)
      else if es_arena config \<noteq> 0 then do {
        (st, p, w1) \<leftarrow> c_arena_alloc (es_arena config) bytes
          (elem_bytes_alignment (pf_max_align pf) (es_elem_size config)) w;
        if st \<noteq> Arena_ok
        then Some (if st = Arena_err_oom then Oom else Invalid, (0, None), element_external, c_flags, w1)
        else Some (Ok, (p, fresh_cells pf bytes (es_elem_size config)), element_owns OR element_arena,
          c_flags OR (es_flag_owns config OR es_flag_arena config), w1)
      }
      else if pf_heap pf \<and> es_flags config AND es_flag_dynamic config \<noteq> 0 then
        (let (p, w1) = c_malloc pf bytes w in
         if p = 0 then Some (Oom, (0, None), element_external, c_flags, w1)
         else Some (Ok, (p, fresh_cells pf bytes (es_elem_size config)), element_owns OR element_heap,
           c_flags OR (es_flag_owns config OR es_flag_dynamic config), w1))
      else Some (Invalid, (0, None), element_external, c_flags, w))"

definition release_element_storage ::
  "'e platform \<Rightarrow> u64 \<Rightarrow> u8 \<Rightarrow> u32 \<Rightarrow> u32 \<Rightarrow> u32 \<Rightarrow> 'o world \<Rightarrow> 'o world option" where
  "release_element_storage pf storage kind c_flags owns_flag dynamic_flag w =
     (if storage = 0 then Some w
      else
        let heap_owned = kind AND element_heap \<noteq> 0 \<and> kind AND element_owns \<noteq> 0 in
        if pf_heap pf \<and> (heap_owned \<or> c_flags AND dynamic_flag \<noteq> 0 \<and> c_flags AND owns_flag \<noteq> 0)
        then c_free storage w
        else Some w)"

section \<open>object_lifecycle.hpp\<close>

text \<open>Zeroing overwrites whatever the memory of an object holds; \<open>zero\<close> is the object of zero bytes.\<close>

definition zero_opaque_bytes :: "'o \<Rightarrow> u64 \<Rightarrow> 'o world \<Rightarrow> 'o world option" where
  "zero_opaque_bytes zero p w = (if p \<in> dom (cw_objs w) then Some (write_obj p zero w) else None)"

record owned_storage_flags =
  os_owns_storage :: u32
  os_dynamic_storage :: u32
  os_arena_storage :: u32
  os_owns_self :: u32

definition owned_create_config_flags :: "'e platform \<Rightarrow> u32 \<Rightarrow> u64 \<Rightarrow> owned_storage_flags \<Rightarrow> u32 \<Rightarrow> u32" where
  "owned_create_config_flags pf user_flags arena flag extra_flags =
     (let flags = user_flags OR os_owns_storage flag OR extra_flags in
      if pf_heap pf \<and> arena = 0 then flags OR (os_dynamic_storage flag OR os_owns_self flag)
      else flags OR os_arena_storage flag)"

definition destroy_owned_object ::
  "'e platform \<Rightarrow> ('o \<Rightarrow> u32) \<Rightarrow> u64 \<Rightarrow> u32 \<Rightarrow> u32 \<Rightarrow> (u64 \<Rightarrow> 'o world \<Rightarrow> 'o world option) \<Rightarrow> 'o world \<Rightarrow>
   'o world option" where
  "destroy_owned_object pf c_flags p self_flag dynamic_flag deinit w =
     (if p = 0 then Some w
      else do {
        b \<leftarrow> read_obj p w;
        w1 \<leftarrow> deinit p w;
        if pf_heap pf \<and> c_flags b AND self_flag \<noteq> 0 \<and> c_flags b AND dynamic_flag \<noteq> 0
        then c_free p w1 else Some w1
      })"

section \<open>element_callback_bridge.hpp\<close>

text \<open>
  The callback of a C client returns an \<open>int\<close> that is cast to \<open>status\<close>; it is modelled by the status. A
  destructor only leaves its mark in the trace of destroyed elements, so its presence is all there is to it.
\<close>

record 'e callback_bridge =
  cb_copy :: "('e \<Rightarrow> 'e \<Rightarrow> status \<times> 'e) option"
  cb_destroy :: bool
  cb_size :: u64

definition bridge_set :: "u64 \<Rightarrow> ('e \<Rightarrow> 'e \<Rightarrow> status \<times> 'e) option \<Rightarrow> bool \<Rightarrow> 'e callback_bridge" where
  "bridge_set elem_size copy has_destroy = \<lparr>cb_copy = copy, cb_destroy = has_destroy, cb_size = elem_size\<rparr>"

definition copy_trampoline :: "'e callback_bridge \<Rightarrow> 'e \<Rightarrow> 'e \<Rightarrow> status \<times> 'e" where
  "copy_trampoline bridge dst src =
     (case cb_copy bridge of
        Some f \<Rightarrow> f dst src
      | None \<Rightarrow> if cb_size bridge > 0 then (Ok, src) else (Ok, dst))"

definition bridge_as_policy :: "'e platform \<Rightarrow> 'e callback_bridge \<Rightarrow> 'e elem_policy" where
  "bridge_as_policy pf bridge =
     runtime_element_policy (pf_max_align pf) (cb_size bridge) (Some (copy_trampoline bridge)) (cb_destroy bridge)"

text \<open>\<open>runtime_element_policy{}\<close>, and the one of a zeroed object.\<close>

definition default_runtime_policy :: "'e platform \<Rightarrow> 'e elem_policy" where
  "default_runtime_policy pf =
     \<lparr>ep_runtime = True, ep_size = 0, ep_align = unat (pf_max_align pf), ep_copy_fn = None, ep_destroy = False,
      ep_moved = (\<lambda>e. e)\<rparr>"

definition zero_runtime_policy :: "'e elem_policy" where
  "zero_runtime_policy =
     \<lparr>ep_runtime = True, ep_size = 0, ep_align = 0, ep_copy_fn = None, ep_destroy = False, ep_moved = (\<lambda>e. e)\<rparr>"

lemma bridge_policy_simps [simp]:
  "ep_runtime (bridge_as_policy pf b)" "ep_size (bridge_as_policy pf b) = unat (cb_size b)"
  "ep_copy_fn (bridge_as_policy pf b) = Some (copy_trampoline b)" "ep_destroy (bridge_as_policy pf b) = cb_destroy b"
  by (simp_all add: bridge_as_policy_def runtime_element_policy_def)

text \<open>Without a copy callback elements are copied bytewise.\<close>

lemma bridge_faithful: "cb_copy b = None \<Longrightarrow> cb_size b \<noteq> 0 \<Longrightarrow> faithful (bridge_as_policy pf b)"
  by (simp add: faithful_def copy_trampoline_def word_gt_0)

section \<open>Memory: lemmas\<close>

text \<open>What is known of \<open>malloc\<close>: a block it returns is at an address that is not null and not in use.\<close>

definition malloc_fresh :: "'e platform \<Rightarrow> bool" where
  "malloc_fresh pf \<longleftrightarrow> (\<forall>k A n p. pf_malloc pf k A n = Some p \<longrightarrow> p \<noteq> 0 \<and> p \<notin> A)"

lemma c_malloc_cases:
  assumes "malloc_fresh pf"
  obtains (fails) "c_malloc pf n w = (0, w\<lparr>cw_calls := Suc (cw_calls w)\<rparr>)"
  | (grants) p where "p \<noteq> 0" "p \<notin> cw_live w" "cw_objs w p = None"
      "c_malloc pf n w = (p, w\<lparr>cw_calls := Suc (cw_calls w), cw_live := insert p (cw_live w)\<rparr>)"
proof (cases "pf_malloc pf (cw_calls w) (addresses_in_use w) n")
  case None
  then show thesis by (intro fails) (simp add: c_malloc_def)
next
  case (Some p)
  with assms have "p \<noteq> 0" "p \<notin> addresses_in_use w" unfolding malloc_fresh_def by blast+
  with Some show thesis by (intro grants) (auto simp: c_malloc_def)
qed

lemma c_malloc_step:
  assumes "malloc_fresh pf" "c_malloc pf n w = (q, w1)"
  shows "cw_objs w1 = cw_objs w" "q = 0 \<Longrightarrow> cw_live w1 = cw_live w"
    "q \<noteq> 0 \<Longrightarrow> q \<notin> cw_live w" "q \<noteq> 0 \<Longrightarrow> cw_objs w q = None" "q \<noteq> 0 \<Longrightarrow> cw_live w1 = insert q (cw_live w)"
proof -
  have "cw_objs w1 = cw_objs w \<and> (if q = 0 then cw_live w1 = cw_live w
      else q \<notin> cw_live w \<and> cw_objs w q = None \<and> cw_live w1 = insert q (cw_live w))"
    using assms(2) by (cases rule: c_malloc_cases [OF assms(1), of n w, case_names none some]) auto
  then show "cw_objs w1 = cw_objs w" "q = 0 \<Longrightarrow> cw_live w1 = cw_live w" "q \<noteq> 0 \<Longrightarrow> q \<notin> cw_live w"
    "q \<noteq> 0 \<Longrightarrow> cw_objs w q = None" "q \<noteq> 0 \<Longrightarrow> cw_live w1 = insert q (cw_live w)"
    by (auto split: if_splits)
qed

lemma read_obj_upd [simp]:
  "read_obj p (write_obj p b w) = Some b" "q \<noteq> p \<Longrightarrow> read_obj q (write_obj p b w) = read_obj q w"
  by (simp_all add: read_obj_def write_obj_def)

lemma read_obj_eq: "read_obj p w = Some b \<longleftrightarrow> cw_objs w p = Some (Some b)"
  by (auto simp: read_obj_def split: option.splits)

lemma write_obj_simps [simp]:
  "cw_live (write_obj p b w) = cw_live w" "cw_objs (write_obj p b w) = (cw_objs w)(p \<mapsto> Some b)"
  "cw_arenas (write_obj p b w) = cw_arenas w" "cw_calls (write_obj p b w) = cw_calls w"
  by (simp_all add: write_obj_def)

lemma c_free_null [simp]: "c_free 0 w = Some w"
  by (simp add: c_free_def)

lemma write_obj_twice [simp]: "write_obj p b (write_obj p c w) = write_obj p b w"
  by (simp add: write_obj_def)

lemma sz_product:
  assumes "unat (n :: u64) * unat (k :: u64) \<le> PTRDIFF_MAX"
  shows "unat (n * k) = unat n * unat k"
  using assms by (subst unat_mult_lem [symmetric]) (simp add: PTRDIFF_MAX_def)

text \<open>Flags are sets of bits.\<close>

lemma and_flag_1: "(x :: u32) AND 1 = 0 \<longleftrightarrow> \<not> bit x 0" using and_exp_eq_0_iff_not_bit [of x 0] by simp
lemma and_flag_2: "(x :: u32) AND 2 = 0 \<longleftrightarrow> \<not> bit x 1" using and_exp_eq_0_iff_not_bit [of x 1] by simp
lemma and_flag_4: "(x :: u32) AND 4 = 0 \<longleftrightarrow> \<not> bit x 2" using and_exp_eq_0_iff_not_bit [of x 2] by simp
lemma and_flag_8: "(x :: u32) AND 8 = 0 \<longleftrightarrow> \<not> bit x 3" using and_exp_eq_0_iff_not_bit [of x 3] by simp
lemma and_flag_16: "(x :: u32) AND 16 = 0 \<longleftrightarrow> \<not> bit x 4" using and_exp_eq_0_iff_not_bit [of x 4] by simp

lemmas and_flags = and_flag_1 and_flag_2 and_flag_4 and_flag_8 and_flag_16

lemma c_arena_alloc_heap:
  "c_arena_alloc ar n al w = Some (st, p, w') \<Longrightarrow> cw_live w' = cw_live w \<and> cw_objs w' = cw_objs w"
  by (cases "arena_alloc (cw_arenas w ar) n al (Some 0)") (auto simp: c_arena_alloc_def bind_eq_Some_conv)

definition empty_world :: "'o world" where
  "empty_world = \<lparr>cw_live = {}, cw_objs = (\<lambda>_. None), cw_arenas = (\<lambda>_. None), cw_calls = 0\<rparr>"

end
