(* ===== verification/C_Client.thy ===== *)
theory C_Client
  imports C_Api
begin

text \<open>
  Clients of an interface whose objects own memory: a client creates objects, calls operations on them and
  destroys them, in any order. The law of a single call is the locale \<open>owned_objects\<close>; runs of calls follow
  from it once.

  A client keeps the pointers the creator gave it, and sets a pointer to null when it destroys the object. A creation
  that fails leaves a null pointer.
\<close>

section \<open>Clients\<close>

datatype ('a, 'c) client_cmd = Make 'a | Call nat 'c | Destroy nat

datatype 'r client_result = Made status | Result 'r | Destroyed

definition pointer :: "u64 list \<Rightarrow> nat \<Rightarrow> u64" where
  "pointer hs i = (if i < length hs then hs ! i else 0)"

fun client_step ::
  "('a \<Rightarrow> 'o world \<Rightarrow> (status \<times> u64 option \<times> 'o world) option) \<Rightarrow>
   ('c \<Rightarrow> (nat \<Rightarrow> u64) \<Rightarrow> u64 \<Rightarrow> 'o world \<Rightarrow> ('r \<times> 'o world) option) \<Rightarrow> (u64 \<Rightarrow> 'o world \<Rightarrow> 'o world option) \<Rightarrow>
   'o world \<times> u64 list \<Rightarrow> ('a, 'c) client_cmd \<Rightarrow> ('r client_result \<times> 'o world \<times> u64 list) option" where
  "client_step mk call dest (w, hs) (Make a) = do {
     (st, p, w') \<leftarrow> mk a w;
     Some (Made st, w', hs @ [case p of Some q \<Rightarrow> q | None \<Rightarrow> 0])
   }"
| "client_step mk call dest (w, hs) (Call i c) = do {
     (r, w') \<leftarrow> call c (pointer hs) (pointer hs i) w;
     Some (Result r, w', hs)
   }"
| "client_step mk call dest (w, hs) (Destroy i) = do {
     w' \<leftarrow> dest (pointer hs i) w;
     Some (Destroyed, w', hs[i := 0])
   }"

fun client_run ::
  "('a \<Rightarrow> 'o world \<Rightarrow> (status \<times> u64 option \<times> 'o world) option) \<Rightarrow>
   ('c \<Rightarrow> (nat \<Rightarrow> u64) \<Rightarrow> u64 \<Rightarrow> 'o world \<Rightarrow> ('r \<times> 'o world) option) \<Rightarrow> (u64 \<Rightarrow> 'o world \<Rightarrow> 'o world option) \<Rightarrow>
   'o world \<times> u64 list \<Rightarrow> ('a, 'c) client_cmd list \<Rightarrow> ('r client_result list \<times> 'o world \<times> u64 list) option" where
  "client_run mk call dest s [] = Some ([], s)"
| "client_run mk call dest s (c # cs) = do {
     (r, s1) \<leftarrow> client_step mk call dest s c;
     (rs, s2) \<leftarrow> client_run mk call dest s1 cs;
     Some (r # rs, s2)
   }"

text \<open>
  An operation is called with all the client's pointers, for those that take several objects. The specification reads the
  results: a creation has one of the statuses that \<open>outcome\<close> allows, and when it
  succeeds there is a new object of value \<open>new a\<close>; a call has the
  result of \<open>step\<close> on the object's value, a call on a null pointer the result \<open>null\<close>. It has an abstract value, or
  none, for every pointer of the client.
\<close>

definition abstract_value :: "'x option list \<Rightarrow> nat \<Rightarrow> 'x option" where
  "abstract_value xs i = (if i < length xs then xs ! i else None)"

fun client_accepts ::
  "('a \<Rightarrow> status \<Rightarrow> bool) \<Rightarrow> ('a \<Rightarrow> 'x) \<Rightarrow> ((nat \<Rightarrow> 'x option) \<Rightarrow> 'x \<Rightarrow> 'c \<Rightarrow> 'r \<times> 'x) \<Rightarrow> ('c \<Rightarrow> 'r) \<Rightarrow> 'x option list \<Rightarrow> ('a, 'c) client_cmd list \<Rightarrow>
   'r client_result list \<Rightarrow> 'x option list option" where
  "client_accepts outcome new step null xs [] [] = Some xs"
| "client_accepts outcome new step null xs (Make a # cs) (Made st # rs) =
     (if outcome a st then client_accepts outcome new step null (xs @ [if st = Ok then Some (new a) else None]) cs rs else None)"
| "client_accepts outcome new step null xs (Call i c # cs) (Result r # rs) =
     (case abstract_value xs i of
        None \<Rightarrow> if r = null c then client_accepts outcome new step null xs cs rs else None
      | Some x \<Rightarrow> if r = fst (step (abstract_value xs) x c) then client_accepts outcome new step null (xs[i := Some (snd (step (abstract_value xs) x c))]) cs rs else None)"
| "client_accepts outcome new step null xs (Destroy i # cs) (Destroyed # rs) = client_accepts outcome new step null (xs[i := None]) cs rs"
| "client_accepts outcome new step null xs cs rs = None"

text \<open>A specification that accepts has read a result of the right kind.\<close>

lemma client_accepts_Nil:
  "client_accepts outcome new step null xs [] rs = Some ys \<longleftrightarrow> rs = [] \<and> ys = xs"
  by (cases rs) auto

lemma client_accepts_Make:
  "client_accepts outcome new step null xs (Make a # cs) rs = Some ys \<longleftrightarrow>
     (\<exists>st rs'. rs = Made st # rs' \<and> outcome a st \<and>
       client_accepts outcome new step null (xs @ [if st = Ok then Some (new a) else None]) cs rs' = Some ys)"
  by (cases rs; cases "hd rs") auto

lemma client_accepts_Call:
  "client_accepts outcome new step null xs (Call i c # cs) rs = Some ys \<longleftrightarrow>
     (\<exists>r rs'. rs = Result r # rs' \<and>
       (case abstract_value xs i of
          None \<Rightarrow> r = null c \<and> client_accepts outcome new step null xs cs rs' = Some ys
        | Some x \<Rightarrow> r = fst (step (abstract_value xs) x c) \<and> client_accepts outcome new step null (xs[i := Some (snd (step (abstract_value xs) x c))]) cs rs' = Some ys))"
  by (cases rs; cases "hd rs") (auto split: option.splits)

lemma client_accepts_Destroy:
  "client_accepts outcome new step null xs (Destroy i # cs) rs = Some ys \<longleftrightarrow>
     (\<exists>rs'. rs = Destroyed # rs' \<and> client_accepts outcome new step null (xs[i := None]) cs rs' = Some ys)"
  by (cases rs; cases "hd rs") auto

lemmas client_accepts_cases = client_accepts_Nil client_accepts_Make client_accepts_Call client_accepts_Destroy

lemma client_accepts_one:
  "client_accepts outcome new step null [] [Make a, Call 0 c, Destroy 0] rs = Some xs \<Longrightarrow> xs = [None]"
  by (auto simp: client_accepts_cases abstract_value_def split: if_splits)

text \<open>No pointer of the client occurs twice.\<close>

definition separate :: "u64 list \<Rightarrow> bool" where
  "separate hs \<longleftrightarrow> (\<forall>i < length hs. \<forall>j < length hs. hs ! i = hs ! j \<longrightarrow> hs ! i \<noteq> 0 \<longrightarrow> i = j)"

lemma separate_append_null: "separate hs \<Longrightarrow> separate (hs @ [0])"
  by (auto simp: separate_def nth_append less_Suc_eq)

lemma separate_append: "separate hs \<Longrightarrow> p \<notin> set hs - {0} \<Longrightarrow> separate (hs @ [p])"
  by (auto simp: separate_def nth_append less_Suc_eq in_set_conv_nth)

lemma separate_update: "separate hs \<Longrightarrow> separate (hs[i := 0])"
  by (cases "i < length hs") (auto simp: separate_def nth_list_update list_update_beyond split: if_splits)

lemma set_update_null:
  assumes "separate hs" "i < length hs" "hs ! i \<noteq> 0"
  shows "set (hs[i := 0]) - {0} = set hs - {0} - {hs ! i}"
proof -
  have "x \<in> set (hs[i := 0]) - {0} \<longleftrightarrow> x \<in> set hs - {0} - {hs ! i}" for x
    using assms by (auto simp: in_set_conv_nth separate_def nth_list_update split: if_splits)
  then show ?thesis by blast
qed

section \<open>Objects that own memory\<close>

text \<open>The values \<open>vs\<close> are those of the client's pointers \<open>ptr\<close>.\<close>

definition denotes ::
  "(u64 \<Rightarrow> 'o \<Rightarrow> bool) \<Rightarrow> ('o \<Rightarrow> 'x) \<Rightarrow> 'o world \<Rightarrow> (nat \<Rightarrow> u64) \<Rightarrow> (nat \<Rightarrow> 'x option) \<Rightarrow> bool" where
  "denotes valid val w ptr vs \<longleftrightarrow>
     (\<forall>j. case vs j of
        None \<Rightarrow> ptr j = 0
      | Some y \<Rightarrow> \<exists>b. cw_objs w (ptr j) = Some (Some b) \<and> valid (ptr j) b \<and> val b = y)"

lemma denotesD:
  assumes "denotes valid val w ptr vs"
  shows "vs j = None \<Longrightarrow> ptr j = 0" "vs j = Some y \<Longrightarrow> \<exists>b. cw_objs w (ptr j) = Some (Some b) \<and> valid (ptr j) b \<and> val b = y"
  using assms by (auto simp: denotes_def split: option.splits dest!: spec [of _ j])

text \<open>
  An operation may refer to the other objects of the client. \<open>valid p b\<close>: the object at \<open>p\<close> is \<open>b\<close> and well formed; \<open>blocks p b\<close> are the heap blocks it owns, its own
  among them; \<open>val b\<close> is its abstract value. A creation either changes nothing but the arenas or adds an object whose
  blocks are new; an operation on the object keeps its blocks; the destructor gives back exactly these blocks.
\<close>

locale owned_objects =
  fixes valid :: "u64 \<Rightarrow> 'o \<Rightarrow> bool" and blocks :: "u64 \<Rightarrow> 'o \<Rightarrow> u64 set" and val :: "'o \<Rightarrow> 'x"
    and good :: "'a \<Rightarrow> bool" and outcome :: "'a \<Rightarrow> status \<Rightarrow> bool" and new :: "'a \<Rightarrow> 'x"
    and step :: "(nat \<Rightarrow> 'x option) \<Rightarrow> 'x \<Rightarrow> 'c \<Rightarrow> 'r \<times> 'x" and null :: "'c \<Rightarrow> 'r"
    and mk :: "'a \<Rightarrow> 'o world \<Rightarrow> (status \<times> u64 option \<times> 'o world) option"
    and call :: "'c \<Rightarrow> (nat \<Rightarrow> u64) \<Rightarrow> u64 \<Rightarrow> 'o world \<Rightarrow> ('r \<times> 'o world) option"
    and dest :: "u64 \<Rightarrow> 'o world \<Rightarrow> 'o world option"
  assumes make_law: "good a \<Longrightarrow>
      (\<exists>st w'. mk a w = Some (st, None, w') \<and> outcome a st \<and> st \<noteq> Ok \<and> cw_live w' = cw_live w \<and> cw_objs w' = cw_objs w) \<or>
      (\<exists>p b w'. mk a w = Some (Ok, Some p, w') \<and> outcome a Ok \<and> cw_objs w p = None \<and> cw_objs w' = (cw_objs w)(p \<mapsto> Some b) \<and>
        valid p b \<and> val b = new a \<and> blocks p b \<inter> cw_live w = {} \<and> cw_live w' = cw_live w \<union> blocks p b)"
    and call_law: "cw_objs w p = Some (Some b) \<Longrightarrow> valid p b \<Longrightarrow> denotes valid val w ptr vs \<Longrightarrow>
      \<exists>b'. call c ptr p w = Some (fst (step vs (val b) c), write_obj p b' w) \<and> valid p b' \<and> blocks p b' = blocks p b \<and>
        val b' = snd (step vs (val b) c)"
    and call_null: "call c ptr 0 w = Some (null c, w)"
    and dest_law: "cw_objs w p = Some (Some b) \<Longrightarrow> valid p b \<Longrightarrow> blocks p b \<subseteq> cw_live w \<Longrightarrow>
      \<exists>w'. dest p w = Some w' \<and> cw_live w' = cw_live w - blocks p b \<and>
        (\<forall>q. q \<notin> blocks p b \<longrightarrow> cw_objs w' q = cw_objs w q)"
    and dest_null: "dest 0 w = Some w"
    and valid_blocks: "valid p b \<Longrightarrow> p \<noteq> 0 \<and> p \<in> blocks p b"
begin

definition block_of :: "'o world \<Rightarrow> u64 \<Rightarrow> u64 set" where
  "block_of w p = (case read_obj p w of Some b \<Rightarrow> blocks p b | None \<Rightarrow> {})"

text \<open>The client holds objects with separate blocks; nothing else on the heap was allocated since \<open>live\<close>.\<close>

definition holds :: "u64 set \<Rightarrow> 'o world \<times> u64 list \<Rightarrow> 'x option list \<Rightarrow> bool" where
  "holds live s xs \<longleftrightarrow> (case s of (w, hs) \<Rightarrow>
     length xs = length hs \<and> separate hs \<and>
     (\<forall>i < length hs. case xs ! i of
        None \<Rightarrow> hs ! i = 0
      | Some x \<Rightarrow> \<exists>b. cw_objs w (hs ! i) = Some (Some b) \<and> valid (hs ! i) b \<and> val b = x) \<and>
     (\<forall>p \<in> set hs - {0}. block_of w p \<inter> live = {} \<and> (\<forall>q \<in> set hs - {0}. p \<noteq> q \<longrightarrow> block_of w p \<inter> block_of w q = {})) \<and>
     cw_live w = live \<union> (\<Union>p \<in> set hs - {0}. block_of w p))"

lemma holdsD:
  assumes "holds live (w, hs) xs"
  shows "length xs = length hs" "separate hs"
    "\<And>i. i < length hs \<Longrightarrow> xs ! i = None \<Longrightarrow> hs ! i = 0"
    "\<And>i x. i < length hs \<Longrightarrow> xs ! i = Some x \<Longrightarrow> \<exists>b. cw_objs w (hs ! i) = Some (Some b) \<and> valid (hs ! i) b \<and> val b = x"
    "\<And>p. p \<in> set hs \<Longrightarrow> p \<noteq> 0 \<Longrightarrow> block_of w p \<inter> live = {}"
    "\<And>p q. p \<in> set hs \<Longrightarrow> q \<in> set hs \<Longrightarrow> p \<noteq> 0 \<Longrightarrow> q \<noteq> 0 \<Longrightarrow> p \<noteq> q \<Longrightarrow> block_of w p \<inter> block_of w q = {}"
    "cw_live w = live \<union> (\<Union>p \<in> set hs - {0}. block_of w p)"
  using assms by (auto simp: holds_def split: option.splits)

lemma holdsI:
  assumes "length xs = length hs" "separate hs"
    "\<And>i. i < length hs \<Longrightarrow> xs ! i = None \<Longrightarrow> hs ! i = 0"
    "\<And>i x. i < length hs \<Longrightarrow> xs ! i = Some x \<Longrightarrow> \<exists>b. cw_objs w (hs ! i) = Some (Some b) \<and> valid (hs ! i) b \<and> val b = x"
    "\<And>p. p \<in> set hs \<Longrightarrow> p \<noteq> 0 \<Longrightarrow> block_of w p \<inter> live = {}"
    "\<And>p q. p \<in> set hs \<Longrightarrow> q \<in> set hs \<Longrightarrow> p \<noteq> 0 \<Longrightarrow> q \<noteq> 0 \<Longrightarrow> p \<noteq> q \<Longrightarrow> block_of w p \<inter> block_of w q = {}"
    "cw_live w = live \<union> (\<Union>p \<in> set hs - {0}. block_of w p)"
  shows "holds live (w, hs) xs"
  using assms by (auto simp: holds_def split: option.splits)

lemma block_of_eq: "cw_objs w p = Some (Some b) \<Longrightarrow> block_of w p = blocks p b"
  by (simp add: block_of_def read_obj_def)

lemma block_of_cong: "cw_objs w' p = cw_objs w p \<Longrightarrow> block_of w' p = block_of w p"
  by (simp add: block_of_def read_obj_def)

text \<open>The objects held are there.\<close>

lemma holds_object:
  assumes h: "holds live (w, hs) xs" and p: "p \<in> set hs" "p \<noteq> 0"
  obtains b where "cw_objs w p = Some (Some b)" "valid p b" "block_of w p = blocks p b" "p \<in> block_of w p"
proof -
  from p(1) obtain i where i: "i < length hs" "hs ! i = p" by (auto simp: in_set_conv_nth)
  with holdsD(3) [OF h i(1)] p(2) obtain x where "xs ! i = Some x" by (cases "xs ! i") auto
  from holdsD(4) [OF h i(1) this] i(2) obtain b where b: "cw_objs w p = Some (Some b)" "valid p b" by auto
  with that [of b] valid_blocks [OF b(2)] block_of_eq [OF b(1)] show thesis by simp
qed

lemma pointer_cases:
  assumes h: "holds live (w, hs) xs"
  obtains (null) "abstract_value xs i = None" "pointer hs i = 0"
  | (object) x b where "i < length hs" "abstract_value xs i = Some x" "pointer hs i = hs ! i" "hs ! i \<noteq> 0" "hs ! i \<in> set hs"
      "cw_objs w (hs ! i) = Some (Some b)" "valid (hs ! i) b" "val b = x"
proof (cases "i < length hs")
  case False
  with holdsD(1) [OF h] null show thesis by (simp add: abstract_value_def pointer_def)
next
  case True
  note len = holdsD(1) [OF h]
  show thesis
  proof (cases "xs ! i")
    case None
    with holdsD(3) [OF h True] True len null show thesis by (simp add: abstract_value_def pointer_def)
  next
    case (Some x)
    from holdsD(4) [OF h True Some] obtain b where b: "cw_objs w (hs ! i) = Some (Some b)" "valid (hs ! i) b" "val b = x" by blast
    with valid_blocks [OF b(2)] Some True len show thesis
      by (intro object [of x b]) (simp_all add: abstract_value_def pointer_def)
  qed
qed

lemma holds_denotes:
  assumes h: "holds live (w, hs) xs"
  shows "denotes valid val w (pointer hs) (abstract_value xs)"
proof -
  have "case abstract_value xs j of None \<Rightarrow> pointer hs j = 0
      | Some y \<Rightarrow> \<exists>b. cw_objs w (pointer hs j) = Some (Some b) \<and> valid (pointer hs j) b \<and> val b = y" for j
    using h by (cases rule: pointer_cases [of live w hs xs j, case_names null object]) auto
  then show ?thesis by (simp add: denotes_def)
qed

text \<open>One step of the client, whatever it is, has a result the specification accepts.\<close>

definition accepted_by :: "'x option list \<Rightarrow> ('a, 'c) client_cmd \<Rightarrow> 'r client_result \<Rightarrow> 'x option list \<Rightarrow> bool" where
  "accepted_by xs c r xs' \<longleftrightarrow>
     (\<forall>cs rs. client_accepts outcome new step null xs (c # cs) (r # rs) = client_accepts outcome new step null xs' cs rs)"

lemma holds_make:
  assumes h: "holds live (w, hs) xs" and g: "good a"
  shows "\<exists>r w' hs' xs'. client_step mk call dest (w, hs) (Make a) = Some (r, w', hs') \<and> accepted_by xs (Make a) r xs' \<and>
    holds live (w', hs') xs'"
proof -
  note D = holdsD [OF h]
  from make_law [OF g, of w] show ?thesis
  proof (elim disjE exE conjE)
    fix st w' assume m: "mk a w = Some (st, None, w')" "outcome a st" "st \<noteq> Ok" "cw_live w' = cw_live w" "cw_objs w' = cw_objs w"
    have same: "block_of w' p = block_of w p" for p using m(5) by (intro block_of_cong) simp
    have "holds live (w', hs @ [0]) (xs @ [None])"
    proof (rule holdsI)
      show "\<exists>b. cw_objs w' ((hs @ [0]) ! i) = Some (Some b) \<and> valid ((hs @ [0]) ! i) b \<and> val b = x"
        if "i < length (hs @ [0])" "(xs @ [None]) ! i = Some x" for i x
        using that D(1) D(4) [of i x] m(5) by (auto simp: nth_append less_Suc_eq split: if_splits)
    qed (use D m(4) separate_append_null [OF D(2)] in \<open>auto simp: same nth_append less_Suc_eq split: if_splits\<close>)
    with m(1-3) show ?thesis by (auto simp: accepted_by_def)
  next
    fix p b w' assume m: "mk a w = Some (Ok, Some p, w')" "cw_objs w p = None" "cw_objs w' = (cw_objs w)(p \<mapsto> Some b)"
      "valid p b" "val b = new a" "blocks p b \<inter> cw_live w = {}" "cw_live w' = cw_live w \<union> blocks p b" "outcome a Ok"
    have new_p: "p \<notin> set hs - {0}"
    proof
      assume "p \<in> set hs - {0}"
      with holds_object [OF h, of p] m(2) show False by auto
    qed
    have p0: "p \<noteq> 0" using valid_blocks [OF m(4)] by simp
    have same: "block_of w' q = block_of w q" if "q \<noteq> p" for q
      using m(3) that by (intro block_of_cong) simp
    have bp: "block_of w' p = blocks p b" using m(3) by (intro block_of_eq) simp
    have set_eq: "set (hs @ [p]) - {0} = insert p (set hs - {0})" using p0 by auto
    have sub: "block_of w q \<subseteq> cw_live w" if "q \<in> set hs" "q \<noteq> 0" for q using that D(7) by auto
    have olds: "q \<noteq> p" if "q \<in> set hs" "q \<noteq> 0" for q using that new_p by auto
    have "holds live (w', hs @ [p]) (xs @ [Some (new a)])"
    proof (rule holdsI)
      show "\<exists>b. cw_objs w' ((hs @ [p]) ! i) = Some (Some b) \<and> valid ((hs @ [p]) ! i) b \<and> val b = x"
        if i: "i < length (hs @ [p])" and x: "(xs @ [Some (new a)]) ! i = Some x" for i x
      proof (cases "i < length hs")
        case True
        with x D(1) D(4) [of i x] obtain c where c: "cw_objs w (hs ! i) = Some (Some c)" "valid (hs ! i) c" "val c = x"
          by (auto simp: nth_append)
        with m(2) have "hs ! i \<noteq> p" by auto
        with c m(3) True show ?thesis by (auto simp: nth_append)
      next
        case False
        with i x D(1) m show ?thesis by (auto simp: nth_append less_Suc_eq)
      qed
      show "cw_live w' = live \<union> (\<Union>q \<in> set (hs @ [p]) - {0}. block_of w' q)"
      proof -
        have "(\<Union>q \<in> set hs - {0}. block_of w' q) = (\<Union>q \<in> set hs - {0}. block_of w q)"
          using same olds by (intro SUP_cong) auto
        then show ?thesis unfolding set_eq using m(7) D(7) bp by auto
      qed
      show "block_of w' q \<inter> live = {}" if "q \<in> set (hs @ [p])" "q \<noteq> 0" for q
        using that D(5) [of q] D(7) m(6) bp same [of q] by (cases "q = p") auto
      show "block_of w' q \<inter> block_of w' r = {}"
        if "q \<in> set (hs @ [p])" "r \<in> set (hs @ [p])" "q \<noteq> 0" "r \<noteq> 0" "q \<noteq> r" for q r
        using that D(6) [of q r] sub [of q] sub [of r] m(6) bp same [of q] same [of r]
        by (cases "q = p"; cases "r = p") auto
    qed (use D new_p separate_append [OF D(2) new_p] in \<open>auto simp: nth_append less_Suc_eq split: if_splits\<close>)
    with m(1,8) show ?thesis by (auto simp: accepted_by_def)
  qed
qed

lemma holds_call:
  assumes h: "holds live (w, hs) xs"
  shows "\<exists>r w' hs' xs'. client_step mk call dest (w, hs) (Call i c) = Some (r, w', hs') \<and> accepted_by xs (Call i c) r xs' \<and>
    holds live (w', hs') xs'"
  using h
proof (cases rule: pointer_cases [of live w hs xs i, case_names null object])
  case null
  with h call_null [of c "pointer hs" w] show ?thesis by (auto simp: accepted_by_def)
next
  case (object x b)
  note D = holdsD [OF h]
  from call_law [OF object(6,7) holds_denotes [OF h], of c] object(8) obtain b' where b': "call c (pointer hs) (hs ! i) w = Some (fst (step (abstract_value xs) x c), write_obj (hs ! i) b' w)"
    "valid (hs ! i) b'" "blocks (hs ! i) b' = blocks (hs ! i) b" "val b' = snd (step (abstract_value xs) x c)" by auto
  let ?w = "write_obj (hs ! i) b' w"
  have same: "block_of ?w q = block_of w q" for q
    using b'(3) object(6) by (cases "q = hs ! i") (simp_all add: block_of_def, simp add: read_obj_def)
  have other: "hs ! j \<noteq> hs ! i" if "j < length hs" "j \<noteq> i" "hs ! j \<noteq> 0" for j
    using D(2) object(1) that unfolding separate_def by blast
  have "holds live (?w, hs) (xs[i := Some (snd (step (abstract_value xs) x c))])"
  proof (rule holdsI)
    show "\<exists>b. cw_objs ?w (hs ! j) = Some (Some b) \<and> valid (hs ! j) b \<and> val b = y"
      if "j < length hs" "xs[i := Some (snd (step (abstract_value xs) x c))] ! j = Some y" for j y
    proof (cases "j = i")
      case True
      with that D(1) b' show ?thesis by auto
    next
      case False
      with that D(4) [of j y] obtain d where d: "cw_objs w (hs ! j) = Some (Some d)" "valid (hs ! j) d" "val d = y" by auto
      with valid_blocks [OF d(2)] other [OF that(1) False] show ?thesis by auto
    qed
  qed (use D object(1,4) in \<open>auto simp: same nth_list_update split: if_splits\<close>)
  with b'(1) object show ?thesis by (auto simp: accepted_by_def)
qed

lemma holds_destroy:
  assumes h: "holds live (w, hs) xs"
  shows "\<exists>r w' hs' xs'. client_step mk call dest (w, hs) (Destroy i) = Some (r, w', hs') \<and> accepted_by xs (Destroy i) r xs' \<and>
    holds live (w', hs') xs'"
  using h
proof (cases rule: pointer_cases [of live w hs xs i, case_names null object])
  case null
  have "hs[i := 0] = hs" using null(2) by (cases "i < length hs") (simp_all add: pointer_def list_update_same_conv list_update_beyond)
  moreover have "xs[i := None] = xs"
    using null(1) by (cases "i < length xs") (simp_all add: abstract_value_def list_update_same_conv list_update_beyond)
  ultimately show ?thesis using h null dest_null [of w] by (auto simp: accepted_by_def)
next
  case (object x b)
  note D = holdsD [OF h]
  have bl: "block_of w (hs ! i) = blocks (hs ! i) b" using object(6) by (rule block_of_eq)
  with D(7) object(4,5) have "blocks (hs ! i) b \<subseteq> cw_live w" by auto
  from dest_law [OF object(6,7) this] obtain w' where w': "dest (hs ! i) w = Some w'"
    "cw_live w' = cw_live w - blocks (hs ! i) b" "\<And>q. q \<notin> blocks (hs ! i) b \<Longrightarrow> cw_objs w' q = cw_objs w q" by auto
  have rest: "set (hs[i := 0]) - {0} = set hs - {0} - {hs ! i}" using D(2) object(1,4) by (rule set_update_null)
  have keep: "cw_objs w' q = cw_objs w q" if q: "q \<in> set (hs[i := 0])" "q \<noteq> 0" for q
  proof -
    have q': "q \<in> set hs" "q \<noteq> hs ! i" using q rest by auto
    from holds_object [OF h q'(1) q(2)] have "q \<in> block_of w q" by blast
    with D(6) [OF q'(1) object(5) q(2) object(4) q'(2)] bl have "q \<notin> blocks (hs ! i) b" by auto
    then show ?thesis by (rule w'(3))
  qed
  have same: "block_of w' q = block_of w q" if "q \<in> set (hs[i := 0])" "q \<noteq> 0" for q
    using keep [OF that] by (rule block_of_cong)
  have "holds live (w', hs[i := 0]) (xs[i := None])"
  proof (rule holdsI)
    show "\<exists>c. cw_objs w' (hs[i := 0] ! j) = Some (Some c) \<and> valid (hs[i := 0] ! j) c \<and> val c = y"
      if j: "j < length (hs[i := 0])" "xs[i := None] ! j = Some y" for j y
    proof -
      have ji: "j \<noteq> i" using j D(1) by auto
      with j D(4) [of j y] obtain c where c: "cw_objs w (hs ! j) = Some (Some c)" "valid (hs ! j) c" "val c = y" by auto
      have "hs ! j \<in> set (hs[i := 0])" using j ji by (metis length_list_update nth_list_update_neq nth_mem)
      with keep [of "hs ! j"] valid_blocks [OF c(2)] c ji show ?thesis by auto
    qed
    show "cw_live w' = live \<union> (\<Union>q \<in> set (hs[i := 0]) - {0}. block_of w' q)"
    proof -
      have "(\<Union>q \<in> set (hs[i := 0]) - {0}. block_of w' q) = (\<Union>q \<in> set hs - {0} - {hs ! i}. block_of w q)"
        using same rest by (intro SUP_cong) auto
      moreover have "(\<Union>q \<in> set hs - {0} - {hs ! i}. block_of w q) \<inter> blocks (hs ! i) b = {}" (is "?others \<inter> _ = _")
      proof -
        have "block_of w q \<inter> blocks (hs ! i) b = {}" if "q \<in> set hs - {0} - {hs ! i}" for q
          using D(6) [of q "hs ! i"] that object(4,5) bl by simp
        then show ?thesis by blast
      qed
      moreover have "live \<inter> blocks (hs ! i) b = {}" using D(5) [OF object(5,4)] bl by auto
      moreover have "set hs - {0} = insert (hs ! i) (set hs - {0} - {hs ! i})" using object(4,5) by auto
      then have "(\<Union>q \<in> set hs - {0}. block_of w q) = blocks (hs ! i) b \<union> ?others"
        by (metis UN_insert bl)
      ultimately show ?thesis unfolding w'(2) D(7) by auto
    qed
    show "block_of w' q \<inter> live = {}" if "q \<in> set (hs[i := 0])" "q \<noteq> 0" for q
      using same [OF that] D(5) [of q] that rest by auto
    show "block_of w' q \<inter> block_of w' r = {}"
      if "q \<in> set (hs[i := 0])" "r \<in> set (hs[i := 0])" "q \<noteq> 0" "r \<noteq> 0" "q \<noteq> r" for q r
    proof -
      have "q \<in> set hs" "r \<in> set hs" using that rest by auto
      with same [of q] same [of r] D(6) [of q r] that show ?thesis by simp
    qed
    show "hs[i := 0] ! j = 0" if "j < length (hs[i := 0])" "xs[i := None] ! j = None" for j
      using that D(1) D(3) [of j] object(1) by (cases "j = i") auto
  qed (use D separate_update [OF D(2)] in simp_all)
  with w'(1) object show ?thesis by (auto simp: accepted_by_def)
qed

text \<open>
  Whatever a client does, no call is undefined, the results are those of the specification, and the heap holds
  the blocks of the objects that are left, nothing more.
\<close>

lemma client_run_accepted:
  assumes "holds live s xs" "\<And>a. Make a \<in> set cs \<Longrightarrow> good a"
  shows "\<exists>rs s' xs'. client_run mk call dest s cs = Some (rs, s') \<and> client_accepts outcome new step null xs cs rs = Some xs' \<and>
    holds live s' xs'"
  using assms
proof (induction cs arbitrary: s xs)
  case (Cons c cs)
  obtain w hs where s: "s = (w, hs)" by (cases s)
  have "\<exists>r w' hs' xs'. client_step mk call dest (w, hs) c = Some (r, w', hs') \<and> accepted_by xs c r xs' \<and> holds live (w', hs') xs'"
    using Cons.prems s holds_make [of live w hs xs] holds_call [of live w hs xs] holds_destroy [of live w hs xs]
    by (cases c) auto
  then obtain r w' hs' xs' where r: "client_step mk call dest (w, hs) c = Some (r, w', hs')" "accepted_by xs c r xs'"
    "holds live (w', hs') xs'" by blast
  from Cons.IH [OF r(3)] Cons.prems(2) obtain rs s'' xs'' where
    "client_run mk call dest (w', hs') cs = Some (rs, s'')" "client_accepts outcome new step null xs' cs rs = Some xs''" "holds live s'' xs''"
    by auto
  with r s show ?case by (intro exI [of _ "r # rs"] exI [of _ s''] exI [of _ xs'']) (simp add: accepted_by_def)
qed auto

lemma holds_start: "holds (cw_live w) (w, []) []"
  by (simp add: holds_def separate_def)

lemma holds_end:
  assumes h: "holds live (w, hs) xs" and none: "\<forall>x \<in> set xs. x = None"
  shows "cw_live w = live"
proof -
  note D = holdsD [OF h]
  have "p = 0" if p: "p \<in> set hs" for p
  proof -
    from p obtain i where i: "i < length hs" "hs ! i = p" by (auto simp: in_set_conv_nth)
    with none D(1) have "xs ! i = None" by auto
    with D(3) [OF i(1)] i(2) show ?thesis by simp
  qed
  then have none: "set hs - {0} = {}" by auto
  show ?thesis unfolding D(7) none by simp
qed

text \<open>When every object owns \<open>k\<close> blocks, the heap has grown by \<open>k\<close> blocks for every object that is left.\<close>

lemma holds_card:
  assumes h: "holds live (w, hs) xs" and k: "\<And>p b. valid p b \<Longrightarrow> finite (blocks p b) \<and> card (blocks p b) = k"
  shows "live \<subseteq> cw_live w \<and> card (cw_live w - live) = k * length (filter (\<lambda>x. x \<noteq> None) xs)"
proof -
  note D = holdsD [OF h]
  let ?H = "set hs - {0}"
  have bl: "finite (block_of w p) \<and> card (block_of w p) = k" if p: "p \<in> ?H" for p
  proof -
    from p have "p \<in> set hs" "p \<noteq> 0" by auto
    then obtain b where "valid p b" "block_of w p = blocks p b" by (rule holds_object [OF h])
    with k show ?thesis by simp
  qed
  have diff: "cw_live w - live = (\<Union>p \<in> ?H. block_of w p)" using D(5,7) by fastforce
  have "card (\<Union>p \<in> ?H. block_of w p) = (\<Sum>p \<in> ?H. card (block_of w p))"
    using bl D(6) by (intro card_UN_disjoint) auto
  also have "\<dots> = k * card ?H" using bl by simp
  also have "card ?H = card ((\<lambda>i. hs ! i) ` {i. i < length xs \<and> xs ! i \<noteq> None})"
  proof (intro arg_cong [of _ _ card] equalityI subsetI)
    fix p assume "p \<in> ?H"
    then obtain i where i: "i < length hs" "hs ! i = p" "p \<noteq> 0" by (auto simp: in_set_conv_nth)
    with D(1,3) show "p \<in> (\<lambda>i. hs ! i) ` {i. i < length xs \<and> xs ! i \<noteq> None}" by force
  next
    fix p assume "p \<in> (\<lambda>i. hs ! i) ` {i. i < length xs \<and> xs ! i \<noteq> None}"
    then obtain i x where i: "i < length hs" "p = hs ! i" "xs ! i = Some x" using D(1) by auto
    with D(4) [OF i(1,3)] valid_blocks show "p \<in> ?H" by auto
  qed
  also have "\<dots> = card {i. i < length xs \<and> xs ! i \<noteq> None}"
  proof (rule card_image, rule inj_onI)
    fix i j assume i: "i \<in> {i. i < length xs \<and> xs ! i \<noteq> None}" and j: "j \<in> {i. i < length xs \<and> xs ! i \<noteq> None}"
      and eq: "hs ! i = hs ! j"
    from i D(1) obtain x where "i < length hs" "xs ! i = Some x" by auto
    with D(4) valid_blocks have "hs ! i \<noteq> 0" by blast
    with D(1,2) i j eq show "i = j" unfolding separate_def by auto
  qed
  finally have "card (\<Union>p \<in> ?H. block_of w p) = k * length (filter (\<lambda>x. x \<noteq> None) xs)"
    by (simp only: length_filter_conv_card)
  then show ?thesis unfolding diff using D(7) by simp
qed

lemma client_run_start:
  assumes "\<And>a. Make a \<in> set cs \<Longrightarrow> good a"
  shows "\<exists>rs w' hs xs. client_run mk call dest (w, []) cs = Some (rs, w', hs) \<and>
    client_accepts outcome new step null [] cs rs = Some xs \<and> holds (cw_live w) (w', hs) xs"
  using client_run_accepted [OF holds_start, of cs w] assms by auto

end

section \<open>Creating an object with one block\<close>

text \<open>
  What \<open>*_create\<close> does without an arena: it allocates the object, initialises it, and gives it back when that
  fails. An initialisation that asks for one block either fails with the block or owns it.
\<close>

definition create_object ::
  "'e platform \<Rightarrow> u64 \<Rightarrow> (u64 \<Rightarrow> 'o world \<Rightarrow> (status \<times> 'o world) option) \<Rightarrow> 'o world \<Rightarrow>
   (status \<times> u64 option \<times> 'o world) option" where
  "create_object pf obj_size init w = do {
     (granted, p, w1) \<leftarrow> allocate_object pf obj_size (pf_max_align pf) 0 w;
     if \<not> granted then Some (Oom, None, w1)
     else do {
       (st, w2) \<leftarrow> init p w1;
       if st \<noteq> Ok then do {
         w3 \<leftarrow> release_uninitialized_object pf 0 p w2;
         Some (st, None, w3)
       }
       else Some (Ok, Some p, w2)
     }
   }"

lemma create_object_two_blocks:
  fixes w :: "'o world"
  assumes heap: "pf_heap pf" and fresh: "malloc_fresh pf"
    and fails: "\<And>p w1 w'. p \<noteq> 0 \<Longrightarrow> cw_objs w1 p = Some None \<Longrightarrow> c_malloc pf n (write_obj p z w1) = (0, w') \<Longrightarrow>
      \<exists>b. init p w1 = Some (Oom, write_obj p b w')"
    and grants: "\<And>p q w1 w'. p \<noteq> 0 \<Longrightarrow> cw_objs w1 p = Some None \<Longrightarrow> c_malloc pf n (write_obj p z w1) = (q, w') \<Longrightarrow>
      q \<noteq> 0 \<Longrightarrow> q \<noteq> p \<Longrightarrow> cw_objs w' = (cw_objs w1)(p \<mapsto> Some z) \<Longrightarrow>
      \<exists>b. init p w1 = Some (Ok, write_obj p b w') \<and> P p q b"
  shows "(\<exists>w'. create_object pf obj_size init w = Some (Oom, None, w') \<and> cw_live w' = cw_live w \<and> cw_objs w' = cw_objs w) \<or>
    (\<exists>p q b w'. create_object pf obj_size init w = Some (Ok, Some p, w') \<and> cw_objs w p = None \<and>
      cw_objs w' = (cw_objs w)(p \<mapsto> Some b) \<and> P p q b \<and> {p, q} \<inter> cw_live w = {} \<and> cw_live w' = cw_live w \<union> {p, q})"
proof (cases rule: c_malloc_cases [OF fresh, of obj_size w, case_names none some])
  case none
  with heap show ?thesis by (simp add: create_object_def allocate_object_def)
next
  case (some p)
  define w1 where "w1 = w\<lparr>cw_calls := Suc (cw_calls w), cw_live := insert p (cw_live w), cw_objs := (cw_objs w)(p \<mapsto> None)\<rparr>"
  have obj: "allocate_object pf obj_size (pf_max_align pf) 0 w = Some (True, p, w1)"
    using some(1,4) heap by (simp add: allocate_object_def w1_def)
  have w1: "cw_objs w1 p = Some None" "cw_live w1 = insert p (cw_live w)" by (simp_all add: w1_def)
  have undo: "(cw_objs w)(p := None) = cw_objs w" using some(3) by auto
  let ?w0 = "write_obj p z w1"
  show ?thesis
  proof (cases rule: c_malloc_cases [OF fresh, of n ?w0, case_names none some])
    case none
    from fails [OF some(1) w1(1) none] obtain b where
      "init p w1 = Some (Oom, write_obj p b (?w0\<lparr>cw_calls := Suc (cw_calls ?w0)\<rparr>))" by blast
    with obj heap some(1,2) undo show ?thesis
      by (simp add: create_object_def release_uninitialized_object_def c_free_def w1_def)
  next
    case (some q)
    define w2 where "w2 = ?w0\<lparr>cw_calls := Suc (cw_calls ?w0), cw_live := insert q (cw_live ?w0)\<rparr>"
    have q: "q \<noteq> 0" "q \<noteq> p" "q \<notin> cw_live w" using some w1 by auto
    have m: "c_malloc pf n ?w0 = (q, w2)" using some(4) by (simp add: w2_def)
    have "cw_objs w2 = (cw_objs w1)(p \<mapsto> Some z)" by (simp add: w2_def)
    from grants [OF \<open>p \<noteq> 0\<close> w1(1) m q(1,2) this] obtain b where b: "init p w1 = Some (Ok, write_obj p b w2)" "P p q b" by blast
    from obj b(1) have "create_object pf obj_size init w = Some (Ok, Some p, write_obj p b w2)" by (simp add: create_object_def)
    then show ?thesis
      using b(2) q \<open>p \<notin> cw_live w\<close> \<open>cw_objs w p = None\<close>
      by (intro disjI2 exI [of _ p] exI [of _ q] exI [of _ b] exI [of _ "write_obj p b w2"]) (auto simp: w2_def w1_def)
  qed
qed

text \<open>
  Initialising an object of four blocks. The third request failing frees the second block; the first of the three stays,
  as all of them do when the object is refused at last.
\<close>

lemma create_object_four_blocks:
  fixes w :: "'o world"
  assumes heap: "pf_heap pf" and fresh: "malloc_fresh pf"
    and init: "\<And>p w1 q2 w2 q3 w3 q4 w4. p \<noteq> 0 \<Longrightarrow> cw_objs w1 p = Some None \<Longrightarrow>
      c_malloc pf n2 (write_obj p z w1) = (q2, w2) \<Longrightarrow> c_malloc pf n3 w2 = (q3, w3) \<Longrightarrow> c_malloc pf n4 w3 = (q4, w4) \<Longrightarrow>
      (q2 = 0 \<longrightarrow> (\<exists>b. init p w1 = Some (Oom, write_obj p b w2))) \<and>
      (q2 \<noteq> 0 \<and> q3 = 0 \<longrightarrow> (\<exists>b. init p w1 = Some (Oom, write_obj p b w3))) \<and>
      (\<forall>w5. q2 \<noteq> 0 \<and> q3 \<noteq> 0 \<and> q4 = 0 \<and> c_free q3 w4 = Some w5 \<longrightarrow> (\<exists>b. init p w1 = Some (Oom, write_obj p b w5))) \<and>
      (q2 \<noteq> 0 \<and> q3 \<noteq> 0 \<and> q4 \<noteq> 0 \<longrightarrow>
        (if refused then \<exists>b. init p w1 = Some (Invalid, write_obj p b w4)
         else \<exists>b. init p w1 = Some (Ok, write_obj p b w4) \<and> P q2 q3 q4 b))"
  shows "(\<exists>st w'. create_object pf obj_size init w = Some (st, None, w') \<and> cw_live w \<subseteq> cw_live w' \<and>
      (st = Oom \<and> card (cw_live w' - cw_live w) \<le> 1 \<or> st = Invalid \<and> refused \<and> card (cw_live w' - cw_live w) = 3)) \<or>
    (\<exists>p q2 q3 q4 b w'. create_object pf obj_size init w = Some (Ok, Some p, write_obj p b w') \<and> \<not> refused \<and> p \<noteq> 0 \<and>
      q2 \<noteq> 0 \<and> q3 \<noteq> 0 \<and> q4 \<noteq> 0 \<and> P q2 q3 q4 b \<and>
      distinct [p, q2, q3, q4] \<and> {p, q2, q3, q4} \<inter> cw_live w = {} \<and> cw_live w' = cw_live w \<union> {p, q2, q3, q4})"
proof -
  let ?L = "cw_live w" and ?create = "create_object pf obj_size init w"
  obtain p wp where mp: "c_malloc pf obj_size w = (p, wp)" by fastforce
  note sp = c_malloc_step [OF fresh mp]
  show ?thesis
  proof (cases "p = 0")
    case True
    with mp sp(2) heap show ?thesis by (simp add: create_object_def allocate_object_def)
  next
    case False
    note p = this sp(3,4) [OF this] sp(5) [OF this]
    define w1 where "w1 = wp\<lparr>cw_objs := (cw_objs wp)(p \<mapsto> None)\<rparr>"
    let ?w1 = "write_obj p z w1"
    obtain q2 w2 where m2: "c_malloc pf n2 ?w1 = (q2, w2)" by fastforce
    obtain q3 w3 where m3: "c_malloc pf n3 w2 = (q3, w3)" by fastforce
    obtain q4 w4 where m4: "c_malloc pf n4 w3 = (q4, w4)" by fastforce
    note s2 = c_malloc_step [OF fresh m2] and s3 = c_malloc_step [OF fresh m3] and s4 = c_malloc_step [OF fresh m4]
    have w1: "cw_live w1 = insert p ?L" "cw_objs w1 p = Some None" using p(4) by (simp_all add: w1_def)
    note init = init [OF p(1) w1(2) m2 m3 m4]
    have obj: "allocate_object pf obj_size (pf_max_align pf) 0 w = Some (True, p, w1)"
      using mp p(1) heap by (simp add: allocate_object_def w1_def)
    have failed: "init p w1 = Some (st, write_obj p b w') \<Longrightarrow> st \<noteq> Ok \<Longrightarrow> p \<in> cw_live w' \<Longrightarrow>
        \<exists>w''. ?create = Some (st, None, w'') \<and> cw_live w'' = cw_live w' - {p}" for st b w'
      using obj heap p(1) by (simp add: create_object_def release_uninitialized_object_def c_free_def)
    consider "q2 = 0" | "q2 \<noteq> 0" "q3 = 0" | "q2 \<noteq> 0" "q3 \<noteq> 0" "q4 = 0" | "q2 \<noteq> 0" "q3 \<noteq> 0" "q4 \<noteq> 0" by blast
    then show ?thesis
    proof cases
      case 1
      then obtain b where "init p w1 = Some (Oom, write_obj p b w2)" using init by blast
      from failed [OF this] s2(2) [OF 1] w1(1) obtain w'' where "?create = Some (Oom, None, w'')" "cw_live w'' = insert p ?L - {p}"
        by auto
      then show ?thesis using p(2) by auto
    next
      case 2
      then obtain b where "init p w1 = Some (Oom, write_obj p b w3)" using init by blast
      from failed [OF this] s2(5) [OF 2(1)] s3(2) [OF 2(2)] w1(1) obtain w'' where
        w'': "?create = Some (Oom, None, w'')" "cw_live w'' = insert q2 (insert p ?L) - {p}" by auto
      have "q2 \<noteq> p" "q2 \<notin> ?L" using s2(3) [OF 2(1)] w1(1) by auto
      then have "cw_live w'' = insert q2 ?L" "cw_live w'' - ?L = {q2}" using w''(2) p(2) by auto
      with w''(1) show ?thesis by auto
    next
      case 3
      have l2: "cw_live w2 = insert q2 (insert p ?L)" and l4: "cw_live w4 = insert q3 (cw_live w2)"
        using s2(5) [OF 3(1)] s3(5) [OF 3(2)] s4(2) [OF 3(3)] w1(1) by simp_all
      have new: "q2 \<noteq> p" "q2 \<notin> ?L" "q3 \<notin> cw_live w2" using s2(3) [OF 3(1)] s3(3) [OF 3(2)] w1(1) by auto
      obtain w5 where w5: "c_free q3 w4 = Some w5" "cw_live w5 = cw_live w2" using 3(2) l4 new(3) by (auto simp: c_free_def)
      from init 3 w5(1) obtain b where "init p w1 = Some (Oom, write_obj p b w5)" by blast
      from failed [OF this] w5(2) l2 obtain w'' where
        w'': "?create = Some (Oom, None, w'')" "cw_live w'' = insert q2 (insert p ?L) - {p}" by auto
      then have "cw_live w'' = insert q2 ?L" "cw_live w'' - ?L = {q2}" using new p(2) by auto
      with w''(1) show ?thesis by auto
    next
      case 4
      have l4: "cw_live w4 = ?L \<union> {p, q2, q3, q4}" and new: "distinct [p, q2, q3, q4]" "{p, q2, q3, q4} \<inter> ?L = {}"
        using s2(3,5) [OF 4(1)] s3(3,5) [OF 4(2)] s4(3,5) [OF 4(3)] w1(1) p(2) by auto
      show ?thesis
      proof (cases refused)
        case False
        with init 4 obtain b where b: "init p w1 = Some (Ok, write_obj p b w4)" "P q2 q3 q4 b" by auto
        have "?create = Some (Ok, Some p, write_obj p b w4)" using obj b(1) by (simp add: create_object_def)
        with b(2) False 4 p(1) l4 new show ?thesis by blast
      next
        case True
        with init 4 obtain b where "init p w1 = Some (Invalid, write_obj p b w4)" by auto
        from failed [OF this] l4 obtain w'' where
          w'': "?create = Some (Invalid, None, w'')" "cw_live w'' = ?L \<union> {p, q2, q3, q4} - {p}" by auto
        have "cw_live w'' - ?L = {q2, q3, q4}" "?L \<subseteq> cw_live w''" using w''(2) new by auto
        with w''(1) True new(1) show ?thesis by simp
      qed
    qed
  qed
qed

end
