(* ===== verification/Ring_Api.thy ===== *)
theory Ring_Api
  imports Ring_Props C_Client
begin

text \<open>
  The C interface of the ring: \<^verbatim>\<open>include/memkit/c_api/ring_box.hpp\<close> and
  \<^verbatim>\<open>src/c_api/bindings/ring.inc.cpp\<close>.

  A \<open>ring_t\<close> is an opaque block of bytes that holds a \<open>ring_box\<close>. \<open>ring_status_t\<close> has the numbers of
  \<open>status\<close>, so the casts between them are the identity. \<open>bx_addr\<close> is the address of the core's storage, of
  which the core's model has the cells only.
\<close>

section \<open>ring_box.hpp\<close>

definition RING_FLAG_OWNS_STORAGE :: u32 where "RING_FLAG_OWNS_STORAGE = 1"
definition RING_FLAG_OWNS_SELF :: u32 where "RING_FLAG_OWNS_SELF = 2"
definition RING_FLAG_DYNAMIC_STORAGE :: u32 where "RING_FLAG_DYNAMIC_STORAGE = 4"
definition RING_FLAG_ARENA_STORAGE :: u32 where "RING_FLAG_ARENA_STORAGE = 8"
definition RING_FLAG_OVERWRITE_ON_FULL :: u32 where "RING_FLAG_OVERWRITE_ON_FULL = 16"

lemmas ring_flag_defs = RING_FLAG_OWNS_STORAGE_def RING_FLAG_OWNS_SELF_def RING_FLAG_DYNAMIC_STORAGE_def
  RING_FLAG_ARENA_STORAGE_def RING_FLAG_OVERWRITE_ON_FULL_def

text \<open>\<open>rc_cells\<close> is the memory behind \<open>storage\<close>, one cell per element.\<close>

record 'e ring_config =
  rc_elem_size :: u64
  rc_capacity :: u64
  rc_storage :: u64
  rc_cells :: "'e list"
  rc_storage_bytes :: u64
  rc_arena :: u64
  rc_copy_fn :: "('e \<Rightarrow> 'e \<Rightarrow> status \<times> 'e) option"
  rc_destroy_fn :: bool
  rc_flags :: u32

record 'e ring_box =
  bx_elem_cb :: "'e callback_bridge"
  bx_core :: "'e ring"
  bx_addr :: u64
  bx_c_flags :: u32

definition zero_ring_box :: "'e ring_box" where
  "zero_ring_box =
     \<lparr>bx_elem_cb = \<lparr>cb_copy = None, cb_destroy = False, cb_size = 0\<rparr>,
      bx_core = \<lparr>rb_policy = zero_runtime_policy, rb_storage = None, rb_capacity = 0, rb_head = 0, rb_tail = 0,
        rb_count = 0, rb_flags = 0, rb_kind = 0, rb_grow = False, rb_destroyed = []\<rparr>,
      bx_addr = 0, bx_c_flags = 0\<rparr>"

definition ring_validate_config :: "'e ring_config option \<Rightarrow> status" where
  "ring_validate_config config =
     (case config of
        None \<Rightarrow> Null_ptr
      | Some c \<Rightarrow>
          if rc_elem_size c = 0 \<or> rc_capacity c = 0 then Invalid
          else
            let caller_storage = rc_storage c \<noteq> 0;
                wants_ring_storage = rc_flags c AND RING_FLAG_OWNS_STORAGE \<noteq> 0 \<or>
                  rc_flags c AND RING_FLAG_DYNAMIC_STORAGE \<noteq> 0 \<or> rc_flags c AND RING_FLAG_ARENA_STORAGE \<noteq> 0
            in
            if \<not> caller_storage \<and> \<not> wants_ring_storage \<and> rc_arena c = 0 then Invalid
            else if caller_storage \<and> rc_storage_bytes c < rc_elem_size c * rc_capacity c then Invalid
            else Ok)"

definition ring_box_init ::
  "'e platform \<Rightarrow> 'e ring_config option \<Rightarrow> 'e ring_box \<Rightarrow> 'o world \<Rightarrow> (status \<times> 'e ring_box \<times> 'o world) option" where
  "ring_box_init pf config b w =
     (let valid = ring_validate_config config in
      if valid \<noteq> Ok then Some (valid, b, w)
      else
        let c = the config;
            cb = bridge_set (rc_elem_size c) (rc_copy_fn c) (rc_destroy_fn c);
            policy = bridge_as_policy pf cb;
            storage_config = \<lparr>es_elem_size = rc_elem_size c, es_capacity = rc_capacity c, es_caller_storage = rc_storage c,
              es_cells = rc_cells c, es_caller_storage_bytes = rc_storage_bytes c, es_arena = rc_arena c,
              es_flags = rc_flags c, es_flag_owns = RING_FLAG_OWNS_STORAGE, es_flag_dynamic = RING_FLAG_DYNAMIC_STORAGE,
              es_flag_arena = RING_FLAG_ARENA_STORAGE\<rparr>
        in do {
          (alloc_status, (storage, cells), storage_kind, c_flags, w1) \<leftarrow> allocate_element_storage pf storage_config
            (rc_flags c AND NOT (RING_FLAG_OWNS_STORAGE OR RING_FLAG_DYNAMIC_STORAGE OR RING_FLAG_ARENA_STORAGE)) w;
          let reset = b\<lparr>bx_elem_cb := cb, bx_core := ring_reset_state (default_runtime_policy pf) (bx_core b),
                bx_addr := 0, bx_c_flags := c_flags\<rparr>;
          if alloc_status \<noteq> Ok then Some (alloc_status, reset, w1)
          else do {
            let rp = (if rc_flags c AND RING_FLAG_OVERWRITE_ON_FULL \<noteq> 0 then ring_policy_overwrite_on_full
                      else ring_policy_none);
            let (st, core) = ring_init (ring_set_storage_kind (bx_core b) storage_kind) policy cells
              (unat (rc_capacity c)) rp;
            if st \<noteq> Ok then do {
              w2 \<leftarrow> release_element_storage pf storage storage_kind c_flags RING_FLAG_OWNS_STORAGE
                RING_FLAG_DYNAMIC_STORAGE w1;
              Some (st, reset, w2)
            }
            else Some (Ok,
              b\<lparr>bx_elem_cb := cb, bx_core := core, bx_addr := storage,
                bx_c_flags := (if rc_storage c \<noteq> 0 \<and> rc_flags c AND RING_FLAG_OWNS_STORAGE \<noteq> 0
                  then c_flags OR RING_FLAG_OWNS_STORAGE else c_flags)\<rparr>, w1)
          }
        })"

definition ring_box_deinit :: "'e platform \<Rightarrow> 'e ring_box \<Rightarrow> 'o world \<Rightarrow> ('e ring_box \<times> 'o world) option" where
  "ring_box_deinit pf b w = do {
     core \<leftarrow> ring_clear (bx_core b);
     w1 \<leftarrow> release_element_storage pf (bx_addr b) (rb_kind core) (bx_c_flags b) RING_FLAG_OWNS_STORAGE
       RING_FLAG_DYNAMIC_STORAGE w;
     Some (b\<lparr>bx_core := ring_reset_state (default_runtime_policy pf) (ring_set_storage_kind core storage_external),
             bx_addr := 0, bx_c_flags := 0\<rparr>, w1)
   }"

section \<open>bindings/ring.inc.cpp: life cycle\<close>

definition MEMKIT_RING_OBJ_BYTES :: u64 where "MEMKIT_RING_OBJ_BYTES = 160"

definition c_ring_init ::
  "'e platform \<Rightarrow> u64 \<Rightarrow> 'e ring_config option \<Rightarrow> 'e ring_box world \<Rightarrow> (status \<times> 'e ring_box world) option" where
  "c_ring_init pf p config w =
     (if p = 0 then Some (Null_ptr, w)
      else do {
        w1 \<leftarrow> zero_opaque_bytes zero_ring_box p w;
        b \<leftarrow> read_obj p w1;
        (st, b', w2) \<leftarrow> ring_box_init pf config b w1;
        Some (st, write_obj p b' w2)
      })"

definition ring_storage_flags :: owned_storage_flags where
  "ring_storage_flags =
     \<lparr>os_owns_storage = RING_FLAG_OWNS_STORAGE, os_dynamic_storage = RING_FLAG_DYNAMIC_STORAGE,
      os_arena_storage = RING_FLAG_ARENA_STORAGE, os_owns_self = RING_FLAG_OWNS_SELF\<rparr>"

text \<open>\<open>has_out\<close>: the out parameter is not null; the pointer written to it is returned.\<close>

definition c_ring_create ::
  "'e platform \<Rightarrow> bool \<Rightarrow> u64 \<Rightarrow> u64 \<Rightarrow> u64 \<Rightarrow> u32 \<Rightarrow> 'e ring_box world \<Rightarrow>
   (status \<times> u64 option \<times> 'e ring_box world) option" where
  "c_ring_create pf has_out elem_size capacity arena flags w =
     (if \<not> has_out then Some (Null_ptr, None, w)
      else if elem_size = 0 \<or> capacity = 0 then Some (Invalid, None, w)
      else if \<not> pf_heap pf \<and> arena = 0 then Some (Unsupported, None, w)
      else do {
        (granted, ring, w1) \<leftarrow> allocate_object pf MEMKIT_RING_OBJ_BYTES (pf_max_align pf) arena w;
        if \<not> granted then Some (if arena = 0 then Oom else Invalid, None, w1)
        else do {
          let config = \<lparr>rc_elem_size = elem_size, rc_capacity = capacity, rc_storage = 0, rc_cells = [],
                rc_storage_bytes = 0, rc_arena = arena, rc_copy_fn = None, rc_destroy_fn = False,
                rc_flags = owned_create_config_flags pf (flags OR RING_FLAG_OWNS_STORAGE) arena ring_storage_flags 0\<rparr>;
          (st, w2) \<leftarrow> c_ring_init pf ring (Some config) w1;
          if st \<noteq> Ok then do {
            w3 \<leftarrow> release_uninitialized_object pf arena ring w2;
            Some (st, None, w3)
          }
          else do {
            b \<leftarrow> read_obj ring w2;
            let b' = (if \<not> pf_heap pf \<or> arena \<noteq> 0 then b\<lparr>bx_c_flags := bx_c_flags b OR RING_FLAG_OWNS_SELF\<rparr> else b);
            Some (Ok, Some ring, write_obj ring b' w2)
          }
        }
      })"

definition c_ring_deinit :: "'e platform \<Rightarrow> u64 \<Rightarrow> 'e ring_box world \<Rightarrow> 'e ring_box world option" where
  "c_ring_deinit pf p w =
     (if p = 0 then Some w
      else do {
        b \<leftarrow> read_obj p w;
        (b', w1) \<leftarrow> ring_box_deinit pf b w;
        zero_opaque_bytes zero_ring_box p (write_obj p b' w1)
      })"

definition c_ring_destroy :: "'e platform \<Rightarrow> u64 \<Rightarrow> 'e ring_box world \<Rightarrow> 'e ring_box world option" where
  "c_ring_destroy pf p w =
     destroy_owned_object pf bx_c_flags p RING_FLAG_OWNS_SELF RING_FLAG_DYNAMIC_STORAGE (c_ring_deinit pf) w"

section \<open>bindings/ring.inc.cpp: operations\<close>

text \<open>Every operation reaches the core through the object: one that changes it, and one that only reads it.\<close>

definition with_core ::
  "u64 \<Rightarrow> 'e ring_box world \<Rightarrow> ('e ring \<Rightarrow> ('r \<times> 'e ring) option) \<Rightarrow> ('r \<times> 'e ring_box world) option" where
  "with_core p w f = do {
     b \<leftarrow> read_obj p w;
     (r, core) \<leftarrow> f (bx_core b);
     Some (r, write_obj p (b\<lparr>bx_core := core\<rparr>) w)
   }"

definition of_core :: "u64 \<Rightarrow> 'e ring_box world \<Rightarrow> ('e ring \<Rightarrow> 'r option) \<Rightarrow> 'r option" where
  "of_core p w f = do {
     b \<leftarrow> read_obj p w;
     f (bx_core b)
   }"

definition c_ring_size :: "u64 \<Rightarrow> 'e ring_box world \<Rightarrow> nat option" where
  "c_ring_size p w = (if p \<noteq> 0 then of_core p w (\<lambda>s. Some (rb_count s)) else Some 0)"

definition c_ring_capacity :: "u64 \<Rightarrow> 'e ring_box world \<Rightarrow> nat option" where
  "c_ring_capacity p w = (if p \<noteq> 0 then of_core p w (\<lambda>s. Some (rb_capacity s)) else Some 0)"

definition c_ring_empty :: "u64 \<Rightarrow> 'e ring_box world \<Rightarrow> bool option" where
  "c_ring_empty p w = (if p = 0 then Some True else of_core p w (\<lambda>s. Some (ring_empty s)))"

definition c_ring_full :: "u64 \<Rightarrow> 'e ring_box world \<Rightarrow> bool option" where
  "c_ring_full p w = (if p \<noteq> 0 then of_core p w (\<lambda>s. Some (ring_full s)) else Some False)"

definition c_ring_clear :: "u64 \<Rightarrow> 'e ring_box world \<Rightarrow> 'e ring_box world option" where
  "c_ring_clear p w =
     (if p \<noteq> 0 then map_option snd (with_core p w (\<lambda>s. map_option (Pair ()) (ring_clear s))) else Some w)"

definition c_ring_push_back ::
  "'e env \<Rightarrow> u64 \<Rightarrow> 'e option \<Rightarrow> 'e ring_box world \<Rightarrow> (status \<times> 'e ring_box world) option" where
  "c_ring_push_back env p elem w =
     (if p = 0 then Some (Null_ptr, w)
      else with_core p w (\<lambda>s. ring_push_back env s elem (has (rb_flags s) ring_policy_overwrite_on_full)))"

definition c_ring_push_front ::
  "'e env \<Rightarrow> u64 \<Rightarrow> 'e option \<Rightarrow> 'e ring_box world \<Rightarrow> (status \<times> 'e ring_box world) option" where
  "c_ring_push_front env p elem w =
     (if p = 0 then Some (Null_ptr, w) else with_core p w (\<lambda>s. ring_push_front env s elem))"

text \<open>The pops return the status with the new content of the out parameter; \<open>move_out\<close> is true by default.\<close>

definition c_ring_pop_front ::
  "u64 \<Rightarrow> 'e option \<Rightarrow> 'e ring_box world \<Rightarrow> ((status \<times> 'e option) \<times> 'e ring_box world) option" where
  "c_ring_pop_front p out w =
     (if p = 0 then Some ((Null_ptr, out), w)
      else with_core p w (\<lambda>s. map_option (\<lambda>(st, v, s'). ((st, v), s')) (ring_pop_front s out True)))"

definition c_ring_pop_back ::
  "u64 \<Rightarrow> 'e option \<Rightarrow> 'e ring_box world \<Rightarrow> ((status \<times> 'e option) \<times> 'e ring_box world) option" where
  "c_ring_pop_back p out w =
     (if p = 0 then Some ((Null_ptr, out), w)
      else with_core p w (\<lambda>s. map_option (\<lambda>(st, v, s'). ((st, v), s')) (ring_pop_back s out True)))"

definition c_ring_peek_front :: "u64 \<Rightarrow> 'e option \<Rightarrow> 'e ring_box world \<Rightarrow> (status \<times> 'e option) option" where
  "c_ring_peek_front p out w =
     (if p = 0 then Some (Null_ptr, out) else of_core p w (\<lambda>s. ring_peek_front s out))"

definition c_ring_peek_back :: "u64 \<Rightarrow> 'e option \<Rightarrow> 'e ring_box world \<Rightarrow> (status \<times> 'e option) option" where
  "c_ring_peek_back p out w =
     (if p = 0 then Some (Null_ptr, out) else of_core p w (\<lambda>s. ring_peek_back s out))"

definition c_ring_peek_at :: "u64 \<Rightarrow> nat \<Rightarrow> 'e option \<Rightarrow> 'e ring_box world \<Rightarrow> (status \<times> 'e option) option" where
  "c_ring_peek_at p index out w =
     (if p = 0 then Some (Null_ptr, out) else of_core p w (\<lambda>s. ring_peek_at s index out))"

definition c_ring_set_at ::
  "u64 \<Rightarrow> nat \<Rightarrow> 'e option \<Rightarrow> 'e ring_box world \<Rightarrow> (status \<times> 'e ring_box world) option" where
  "c_ring_set_at p index elem w =
     (if p = 0 then Some (Null_ptr, w) else with_core p w (\<lambda>s. ring_set_at s index elem))"

text \<open>A visitor that is null is \<open>None\<close>.\<close>

definition c_ring_foreach ::
  "u64 \<Rightarrow> ('e \<Rightarrow> nat \<Rightarrow> 'w \<Rightarrow> status \<times> 'w) option \<Rightarrow> 'e ring_box world \<Rightarrow> 'w \<Rightarrow> (status \<times> 'w) option" where
  "c_ring_foreach p visit w v =
     (case visit of
        None \<Rightarrow> Some (Null_ptr, v)
      | Some f \<Rightarrow> if p = 0 then Some (Null_ptr, v) else of_core p w (\<lambda>s. ring_foreach f s v))"

definition c_ring_readable_contiguous :: "u64 \<Rightarrow> bool \<Rightarrow> 'e ring_box world \<Rightarrow> (nat \<times> nat option) option" where
  "c_ring_readable_contiguous p want w =
     (if p = 0 then Some (0, None) else of_core p w (\<lambda>s. Some (ring_readable_contiguous s want)))"

definition c_ring_writable_contiguous ::
  "'e env \<Rightarrow> u64 \<Rightarrow> bool \<Rightarrow> 'e ring_box world \<Rightarrow> ((nat \<times> nat option) \<times> 'e ring_box world) option" where
  "c_ring_writable_contiguous env p want w =
     (if p = 0 then Some ((0, None), w)
      else with_core p w (\<lambda>s. map_option (\<lambda>(n, i, s'). ((n, i), s')) (ring_writable_contiguous env s want)))"

definition c_ring_commit_read :: "u64 \<Rightarrow> nat \<Rightarrow> 'e ring_box world \<Rightarrow> 'e ring_box world option" where
  "c_ring_commit_read p elem_count w =
     (if p \<noteq> 0 then map_option snd (with_core p w (\<lambda>s. map_option (Pair ()) (ring_commit_read s elem_count)))
      else Some w)"

definition c_ring_commit_write :: "u64 \<Rightarrow> nat \<Rightarrow> 'e ring_box world \<Rightarrow> 'e ring_box world option" where
  "c_ring_commit_write p elem_count w =
     (if p \<noteq> 0 then map_option snd (with_core p w (\<lambda>s. map_option (Pair ()) (ring_commit_write s elem_count)))
      else Some w)"

section \<open>Objects on the heap\<close>

text \<open>A ring that \<open>ring_create\<close> made on the heap: the object and its storage are blocks of their own.\<close>

definition ring_owned :: "'e platform \<Rightarrow> u64 \<Rightarrow> 'e ring_box \<Rightarrow> bool" where
  "ring_owned pf p b \<longleftrightarrow>
     pf_heap pf \<and> p \<noteq> 0 \<and> bx_addr b \<noteq> 0 \<and> bx_addr b \<noteq> p \<and> ring_bounded (bx_core b) \<and>
     bit (bx_c_flags b) 0 \<and> bit (bx_c_flags b) 1 \<and> bit (bx_c_flags b) 2"

definition ring_blocks :: "u64 \<Rightarrow> 'e ring_box \<Rightarrow> u64 set" where
  "ring_blocks p b = {p, bx_addr b}"

text \<open>The value of a ring: whether it overwrites, its capacity, its elements.\<close>

definition ring_value :: "'e ring_box \<Rightarrow> bool \<times> nat \<times> 'e list" where
  "ring_value b = (overwrites (bx_core b), rb_capacity (bx_core b), ring_contents (bx_core b))"

fun ring_new :: "u64 \<times> u64 \<times> u32 \<Rightarrow> bool \<times> nat \<times> 'e list" where
  "ring_new (elem_size, capacity, flags) = (flags AND RING_FLAG_OVERWRITE_ON_FULL \<noteq> 0, unat capacity, [])"

fun ring_value_step :: "bool \<times> nat \<times> 'e list \<Rightarrow> 'e deque_cmd \<Rightarrow> (status \<times> 'e option) \<times> bool \<times> nat \<times> 'e list" where
  "ring_value_step (ow, cap, q) c = (let (r, q') = deque_step ow cap q c in (r, ow, cap, q'))"

fun ring_api_create :: "'e platform \<Rightarrow> u64 \<times> u64 \<times> u32 \<Rightarrow> 'e ring_box world \<Rightarrow>
    (status \<times> u64 option \<times> 'e ring_box world) option" where
  "ring_api_create pf (elem_size, capacity, flags) w = c_ring_create pf True elem_size capacity 0 flags w"

text \<open>Operations of a client with one variable for elements, of content \<open>d\<close> before every call.\<close>

fun ring_api_call :: "'e env \<Rightarrow> 'e \<Rightarrow> 'e deque_cmd \<Rightarrow> u64 \<Rightarrow> 'e ring_box world \<Rightarrow>
    ((status \<times> 'e option) \<times> 'e ring_box world) option" where
  "ring_api_call env d (Push_back e) p w = map_option (\<lambda>(st, w'). ((st, None), w')) (c_ring_push_back env p (Some e) w)"
| "ring_api_call env d (Push_front e) p w = map_option (\<lambda>(st, w'). ((st, None), w')) (c_ring_push_front env p (Some e) w)"
| "ring_api_call env d Pop_front p w =
     map_option (\<lambda>((st, v), w'). ((st, if st = Ok then v else None), w')) (c_ring_pop_front p (Some d) w)"
| "ring_api_call env d Pop_back p w =
     map_option (\<lambda>((st, v), w'). ((st, if st = Ok then v else None), w')) (c_ring_pop_back p (Some d) w)"

text \<open>The product of the sizes must not wrap around.\<close>

fun ring_request_ok :: "'e platform \<Rightarrow> u64 \<times> u64 \<times> u32 \<Rightarrow> bool" where
  "ring_request_ok pf (elem_size, capacity, flags) \<longleftrightarrow>
     pf_heap pf \<and> malloc_fresh pf \<and> unat elem_size * unat capacity \<le> PTRDIFF_MAX"

fun ring_create_outcome :: "u64 \<times> u64 \<times> u32 \<Rightarrow> status \<Rightarrow> bool" where
  "ring_create_outcome (elem_size, capacity, flags) st \<longleftrightarrow>
     (if elem_size = 0 \<or> capacity = 0 then st = Invalid else st = Ok \<or> st = Oom)"

lemma ring_api_call_ok:
  assumes obj: "cw_objs w p = Some (Some b)" and v: "ring_owned pf p b"
  shows "\<exists>b'. ring_api_call env d c p w = Some (fst (ring_value_step (ring_value b) c), write_obj p b' w) \<and>
    ring_owned pf p b' \<and> ring_blocks p b' = ring_blocks p b \<and> ring_value b' = snd (ring_value_step (ring_value b) c)"
proof -
  have p0: "p \<noteq> 0" using v by (simp add: ring_owned_def)
  have rd: "read_obj p w = Some b" using obj by (simp add: read_obj_eq)
  from v have "ring_bounded (bx_core b)" by (simp add: ring_owned_def)
  from ring_call_core [OF this, of c env d] obtain s' where s': "ring_bounded s'" "overwrites s' = overwrites (bx_core b)"
    "rb_capacity s' = rb_capacity (bx_core b)"
    "ring_contents s' = snd (deque_step (overwrites (bx_core b)) (rb_capacity (bx_core b)) (ring_contents (bx_core b)) c)"
    "case c of
       Push_back e \<Rightarrow> ring_push_back env (bx_core b) (Some e) (overwrites (bx_core b)) =
         Some (fst (fst (deque_step (overwrites (bx_core b)) (rb_capacity (bx_core b)) (ring_contents (bx_core b)) c)), s')
     | Push_front e \<Rightarrow> ring_push_front env (bx_core b) (Some e) =
         Some (fst (fst (deque_step (overwrites (bx_core b)) (rb_capacity (bx_core b)) (ring_contents (bx_core b)) c)), s')
     | Pop_front \<Rightarrow> \<exists>st v. ring_pop_front (bx_core b) (Some d) True = Some (st, v, s') \<and>
         (st, if st = Ok then v else None) = fst (deque_step (overwrites (bx_core b)) (rb_capacity (bx_core b)) (ring_contents (bx_core b)) c)
     | Pop_back \<Rightarrow> \<exists>st v. ring_pop_back (bx_core b) (Some d) True = Some (st, v, s') \<and>
         (st, if st = Ok then v else None) = fst (deque_step (overwrites (bx_core b)) (rb_capacity (bx_core b)) (ring_contents (bx_core b)) c)"
    by blast
  have none: "snd (fst (deque_step ow cap q (Push_back e))) = None" "snd (fst (deque_step ow cap q (Push_front e))) = None"
    for ow cap q and e :: 'a by simp_all
  let ?b = "b\<lparr>bx_core := s'\<rparr>"
  have "ring_api_call env d c p w = Some (fst (ring_value_step (ring_value b) c), write_obj p ?b w)"
    using s'(5) p0 rd none
    by (cases c) (auto simp: c_ring_push_back_def c_ring_push_front_def c_ring_pop_front_def c_ring_pop_back_def
        with_core_def ring_value_def split_beta prod_eq_iff simp del: deque_step.simps)
  moreover have "ring_owned pf p ?b" using v s'(1) by (simp add: ring_owned_def)
  ultimately show ?thesis using s'(2-4)
    by (intro exI [of _ ?b]) (simp add: ring_blocks_def ring_value_def split_beta del: deque_step.simps)
qed

lemma ring_destroy_ok:
  assumes obj: "cw_objs w p = Some (Some b)" and v: "ring_owned pf p b" and bl: "ring_blocks p b \<subseteq> cw_live w"
  shows "\<exists>w'. c_ring_destroy pf p w = Some w' \<and> cw_live w' = cw_live w - ring_blocks p b \<and>
    (\<forall>q. q \<notin> ring_blocks p b \<longrightarrow> cw_objs w' q = cw_objs w q)"
proof -
  from v have b: "pf_heap pf" "p \<noteq> 0" "bx_addr b \<noteq> 0" "bx_addr b \<noteq> p" "ring_wf (bx_core b)"
    "bit (bx_c_flags b) 0" "bit (bx_c_flags b) 1" "bit (bx_c_flags b) 2"
    by (simp_all add: ring_owned_def ring_bounded_def)
  have rd: "read_obj p w = Some b" using obj by (simp add: read_obj_eq)
  from ring_clear_effect [OF b(5)] obtain s' where s': "ring_clear (bx_core b) = Some s'" by blast
  let ?w1 = "w\<lparr>cw_live := cw_live w - {bx_addr b}, cw_objs := (cw_objs w)(bx_addr b := None)\<rparr>"
  have rel: "release_element_storage pf (bx_addr b) (rb_kind s') (bx_c_flags b) RING_FLAG_OWNS_STORAGE RING_FLAG_DYNAMIC_STORAGE w = Some ?w1"
    using b bl by (simp add: release_element_storage_def ring_flag_defs and_flags c_free_def ring_blocks_def)
  obtain b2 where deinit: "ring_box_deinit pf b w = Some (b2, ?w1)"
    using s' rel by (simp add: ring_box_deinit_def)
  have "c_ring_deinit pf p w = Some (write_obj p zero_ring_box (write_obj p b2 ?w1))"
    using b(2) rd deinit by (simp add: c_ring_deinit_def zero_opaque_bytes_def)
  with b bl rd show ?thesis
    by (auto simp: c_ring_destroy_def destroy_owned_object_def ring_flag_defs and_flags c_free_def ring_blocks_def)
qed

text \<open>What \<open>ring_init\<close> makes of the memory of an object on a heap that grants the storage.\<close>

lemma ring_init_heap:
  fixes fl :: u32 and pf :: "'e platform"
  assumes heap: "pf_heap pf" and es: "es \<noteq> 0" and cap: "cap \<noteq> 0" and fits: "unat es * unat cap \<le> PTRDIFF_MAX"
    and p: "p \<noteq> 0" "cw_objs w p = Some None"
    and m: "c_malloc pf (es * cap) (write_obj p zero_ring_box w) = (q, w1)"
    and q: "q \<noteq> 0" "q \<noteq> p" and objs: "cw_objs w1 = (cw_objs w)(p \<mapsto> Some zero_ring_box)"
  defines "config \<equiv> \<lparr>rc_elem_size = es, rc_capacity = cap, rc_storage = 0, rc_cells = [], rc_storage_bytes = 0, rc_arena = 0,
      rc_copy_fn = None, rc_destroy_fn = False,
      rc_flags = owned_create_config_flags pf (fl OR RING_FLAG_OWNS_STORAGE) 0 ring_storage_flags 0\<rparr>"
  shows "\<exists>b. c_ring_init pf p (Some config) w = Some (Ok, write_obj p b w1) \<and> ring_owned pf p b \<and>
    ring_value b = ring_new (es, cap, fl) \<and> bx_addr b = q"
proof -
  let ?fl = "rc_flags config"
  have fl: "bit ?fl 0" "bit ?fl 1" "bit ?fl 2" "bit ?fl 4 = bit fl 4"
    using heap by (simp_all add: config_def owned_create_config_flags_def ring_storage_flags_def ring_flag_defs bit_simps)
  let ?cf = "(?fl AND NOT (RING_FLAG_OWNS_STORAGE OR RING_FLAG_DYNAMIC_STORAGE OR RING_FLAG_ARENA_STORAGE)) OR
    (RING_FLAG_OWNS_STORAGE OR RING_FLAG_DYNAMIC_STORAGE)"
  have cf: "bit ?cf 0" "bit ?cf 1" "bit ?cf 2"
    using fl by (simp_all add: ring_flag_defs bit_simps)
  let ?rp = "if ?fl AND RING_FLAG_OVERWRITE_ON_FULL \<noteq> 0 then ring_policy_overwrite_on_full else ring_policy_none"
  let ?cb = "bridge_set es None False :: 'e callback_bridge"
  define cells where "cells = new_block (pf_env pf) (unat (es * cap)) (unat es)"
  have uc: "0 < unat cap" "0 < unat es" using es cap by (simp_all add: unat_gt_0)
  have "1 * unat cap \<le> unat es * unat cap" using uc by (intro mult_le_mono1) simp
  then have cap_le: "unat cap \<le> PTRDIFF_MAX" using fits by linarith
  have len: "length cells = unat cap" using sz_product [OF fits] uc by (simp add: cells_def)
  let ?core = "(bx_core zero_ring_box)\<lparr>rb_kind := element_owns OR element_heap, rb_policy := bridge_as_policy pf ?cb,
    rb_storage := Some cells, rb_capacity := unat cap, rb_head := 0, rb_tail := 0, rb_count := 0, rb_flags := ?rp\<rparr>"
  let ?b = "zero_ring_box\<lparr>bx_elem_cb := ?cb, bx_core := ?core, bx_addr := q, bx_c_flags := ?cf\<rparr>"
  have valid: "ring_validate_config (Some config) = Ok"
    using fl(1) es cap by (simp add: ring_validate_config_def config_def ring_flag_defs and_flags)
  have size: "cb_size ?cb = es" by (simp add: bridge_set_def)
  have "ring_box_init pf (Some config) zero_ring_box (write_obj p zero_ring_box w) = Some (Ok, ?b, w1)"
    using valid heap fl(3) m q uc
    by (simp add: ring_box_init_def allocate_element_storage_def config_def ring_flag_defs and_flags Let_def
        ring_init_def ring_set_storage_kind_def fresh_cells_def cells_def size)
  then have init: "c_ring_init pf p (Some config) w = Some (Ok, write_obj p ?b w1)"
    using p by (simp add: c_ring_init_def zero_opaque_bytes_def dom_def)
  have faith: "faithful (bridge_as_policy pf ?cb)" using es by (intro bridge_faithful) (simp_all add: bridge_set_def)
  have wf: "ring_wf ?core" using uc cap_le len by (intro ring_wfI [of _ cells]) simp_all
  have rp: "has ?rp ring_policy_overwrite_on_full = bit fl 4" "\<not> has ?rp ring_policy_growable"
    using fl(4) by (simp_all add: ring_flag_defs and_flags ring_policy_none_def)
  have "ring_owned pf p ?b"
    unfolding ring_owned_def ring_bounded_def
    using heap p q cf wf faith rp(2) by simp
  moreover have "ring_value ?b = ring_new (es, cap, fl)"
    using rp(1) by (simp add: ring_value_def ring_contents_def ring_flag_defs and_flags)
  ultimately show ?thesis using init by (intro exI [of _ ?b]) simp
qed

text \<open>A creation without an arena.\<close>

lemma c_ring_create_heap:
  assumes "pf_heap pf" "es \<noteq> 0" "cap \<noteq> 0"
  shows "c_ring_create pf True es cap 0 fl w = create_object pf MEMKIT_RING_OBJ_BYTES (\<lambda>p. c_ring_init pf p
    (Some \<lparr>rc_elem_size = es, rc_capacity = cap, rc_storage = 0, rc_cells = [], rc_storage_bytes = 0, rc_arena = 0,
      rc_copy_fn = None, rc_destroy_fn = False,
      rc_flags = owned_create_config_flags pf (fl OR RING_FLAG_OWNS_STORAGE) 0 ring_storage_flags 0\<rparr>)) w"
proof -
  have again: "c_ring_init pf p config w1 = Some (Ok, w2) \<Longrightarrow> \<exists>b. read_obj p w2 = Some b \<and> write_obj p b w2 = w2" for p config w1 w2
    by (auto simp: c_ring_init_def bind_eq_Some_conv split: if_splits)
  show ?thesis
    using assms by (auto simp: c_ring_create_def create_object_def Let_def intro!: Option.bind_cong split: if_splits dest!: again)
qed

lemma ring_create_ok:
  assumes ok: "ring_request_ok pf a"
  shows "(\<exists>st w'. ring_api_create pf a w = Some (st, None, w') \<and> ring_create_outcome a st \<and> st \<noteq> Ok \<and>
      cw_live w' = cw_live w \<and> cw_objs w' = cw_objs w) \<or>
    (\<exists>p b w'. ring_api_create pf a w = Some (Ok, Some p, w') \<and> ring_create_outcome a Ok \<and> cw_objs w p = None \<and>
      cw_objs w' = (cw_objs w)(p \<mapsto> Some b) \<and> ring_owned pf p b \<and> ring_value b = ring_new a \<and>
      ring_blocks p b \<inter> cw_live w = {} \<and> cw_live w' = cw_live w \<union> ring_blocks p b)"
proof -
  obtain es cap fl where a: "a = (es, cap, fl)" by (cases a)
  with ok have heap: "pf_heap pf" and fresh: "malloc_fresh pf" and fits: "unat es * unat cap \<le> PTRDIFF_MAX" by simp_all
  show ?thesis
  proof (cases "es = 0 \<or> cap = 0")
    case True
    then show ?thesis by (auto simp: a c_ring_create_def)
  next
    case False
    then have sizes: "es \<noteq> 0" "cap \<noteq> 0" by simp_all
    let ?config = "\<lparr>rc_elem_size = es, rc_capacity = cap, rc_storage = 0, rc_cells = [] :: 'a list, rc_storage_bytes = 0, rc_arena = 0,
      rc_copy_fn = None, rc_destroy_fn = False,
      rc_flags = owned_create_config_flags pf (fl OR RING_FLAG_OWNS_STORAGE) 0 ring_storage_flags 0\<rparr>"
    have fl: "bit (rc_flags ?config) 0" "bit (rc_flags ?config) 2"
      using heap by (simp_all add: owned_create_config_flags_def ring_storage_flags_def ring_flag_defs bit_simps)
    have fails: "\<exists>b. c_ring_init pf p (Some ?config) w1 = Some (Oom, write_obj p b w')"
      if "p \<noteq> 0" "cw_objs w1 p = Some None" "c_malloc pf (es * cap) (write_obj p zero_ring_box w1) = (0, w')"
      for p w' and w1 :: "'a ring_box world"
      using that fl sizes heap
      by (simp add: c_ring_init_def zero_opaque_bytes_def dom_def ring_box_init_def ring_validate_config_def
          allocate_element_storage_def ring_flag_defs and_flags Let_def) (rule exI, rule refl)
    have grants: "\<exists>b. c_ring_init pf p (Some ?config) w1 = Some (Ok, write_obj p b w') \<and>
        (ring_owned pf p b \<and> ring_value b = ring_new (es, cap, fl) \<and> ring_blocks p b = {p, q})"
      if "p \<noteq> 0" "cw_objs w1 p = Some None" "c_malloc pf (es * cap) (write_obj p zero_ring_box w1) = (q, w')" "q \<noteq> 0" "q \<noteq> p"
        "cw_objs w' = (cw_objs w1)(p \<mapsto> Some zero_ring_box)"
      for p q w' and w1 :: "'a ring_box world"
      using ring_init_heap [OF heap sizes fits that, of fl] by (auto simp: ring_blocks_def)
    show ?thesis
    proof (rule disjE [OF create_object_two_blocks [where n = "es * cap" and z = zero_ring_box
          and init = "\<lambda>p. c_ring_init pf p (Some ?config)" and obj_size = MEMKIT_RING_OBJ_BYTES and w = w
          and P = "\<lambda>p q b. ring_owned pf p b \<and> ring_value b = ring_new (es, cap, fl) \<and> ring_blocks p b = {p, q}",
          OF heap fresh]], goal_cases)
      case (1 p w1 w')
      then show ?case by (rule fails)
    next
      case (2 p q w1 w')
      then show ?case by (rule grants)
    next
      case 3
      then obtain w' where "create_object pf MEMKIT_RING_OBJ_BYTES (\<lambda>p. c_ring_init pf p (Some ?config)) w = Some (Oom, None, w')"
        "cw_live w' = cw_live w" "cw_objs w' = cw_objs w" by blast
      with sizes heap show ?case by (intro disjI1 exI [of _ Oom] exI [of _ w']) (simp add: a c_ring_create_heap)
    next
      case 4
      then obtain p q b w' where "create_object pf MEMKIT_RING_OBJ_BYTES (\<lambda>p. c_ring_init pf p (Some ?config)) w = Some (Ok, Some p, w')"
        "cw_objs w p = None" "cw_objs w' = (cw_objs w)(p \<mapsto> Some b)" "ring_owned pf p b" "ring_value b = ring_new (es, cap, fl)"
        "ring_blocks p b = {p, q}" "{p, q} \<inter> cw_live w = {}" "cw_live w' = cw_live w \<union> {p, q}"
        by (elim exE conjE) (rule that; assumption)
      with sizes heap show ?case
        by (intro disjI2 exI [of _ p] exI [of _ b] exI [of _ w']) (simp add: a c_ring_create_heap)
    qed
  qed
qed

interpretation ring_api: owned_objects "ring_owned pf" ring_blocks ring_value "ring_request_ok pf" ring_create_outcome ring_new
    "\<lambda>_. ring_value_step" "\<lambda>_. (Null_ptr, None)" "ring_api_create pf" "\<lambda>c _. ring_api_call env d c" "c_ring_destroy pf" for pf env d
proof unfold_locales
  show "ring_api_call env d c 0 w = Some ((Null_ptr, None), w)" for c w
    by (cases c) (simp_all add: c_ring_push_back_def c_ring_push_front_def c_ring_pop_front_def c_ring_pop_back_def)
  show "c_ring_destroy pf 0 w = Some w" for w
    by (simp add: c_ring_destroy_def destroy_owned_object_def)
  show "p \<noteq> 0 \<and> p \<in> ring_blocks p b" if "ring_owned pf p b" for p b
    using that by (simp add: ring_owned_def ring_blocks_def)
qed (rule ring_create_ok ring_api_call_ok ring_destroy_ok; assumption)+

section \<open>Rings in an arena\<close>

text \<open>\<open>ring_create\<close> with an arena and \<open>ring_destroy\<close> leave the heap alone.\<close>

lemma ring_arena_cycle:
  assumes cr: "c_ring_create pf True es cap ar fl w = Some (Ok, Some p, w1)" and ar: "ar \<noteq> 0" and p: "p \<noteq> 0"
  shows "cw_live w1 = cw_live w \<and> (\<exists>w2. c_ring_destroy pf p w1 = Some w2 \<and> cw_live w2 = cw_live w)"
proof -
  let ?fl = "owned_create_config_flags pf (fl OR RING_FLAG_OWNS_STORAGE) ar ring_storage_flags 0"
  define config :: "'a ring_config" where "config = \<lparr>rc_elem_size = es, rc_capacity = cap, rc_storage = 0, rc_cells = [],
    rc_storage_bytes = 0, rc_arena = ar, rc_copy_fn = None, rc_destroy_fn = False, rc_flags = ?fl\<rparr>"
  from cr ar obtain wa w2 b where a: "allocate_object pf MEMKIT_RING_OBJ_BYTES (pf_max_align pf) ar w = Some (True, p, wa)"
    "c_ring_init pf p (Some config) wa = Some (Ok, w2)" "read_obj p w2 = Some b"
    and w1: "w1 = write_obj p (b\<lparr>bx_c_flags := bx_c_flags b OR RING_FLAG_OWNS_SELF\<rparr>) w2"
    by (auto simp: c_ring_create_def config_def bind_eq_Some_conv split: if_splits)
  from a(1) ar have wa: "cw_live wa = cw_live w"
    by (auto simp: allocate_object_def bind_eq_Some_conv split: if_splits dest: c_arena_alloc_heap)
  from a(2) p obtain b' w3 where init: "ring_box_init pf (Some config) zero_ring_box (write_obj p zero_ring_box wa) = Some (Ok, b', w3)"
    and w2: "w2 = write_obj p b' w3"
    by (auto simp: c_ring_init_def zero_opaque_bytes_def bind_eq_Some_conv split: if_splits)
  from init ar obtain q wb where al: "c_arena_alloc ar (es * cap) (elem_bytes_alignment (pf_max_align pf) es)
      (write_obj p zero_ring_box wa) = Some (Arena_ok, q, wb)" and w3: "w3 = wb"
    and b': "rb_count (bx_core b') = 0" "rb_kind (bx_core b') = element_owns OR element_arena"
      "bx_c_flags b' = (?fl AND NOT (RING_FLAG_OWNS_STORAGE OR RING_FLAG_DYNAMIC_STORAGE OR RING_FLAG_ARENA_STORAGE)) OR
        (RING_FLAG_OWNS_STORAGE OR RING_FLAG_ARENA_STORAGE)"
    by (auto simp: ring_box_init_def allocate_element_storage_def config_def Let_def bind_eq_Some_conv ring_init_def
        ring_set_storage_kind_def release_element_storage_def split: if_splits prod.splits)
  have live: "cw_live w1 = cw_live w" using c_arena_alloc_heap [OF al] wa by (simp add: w1 w2 w3)
  let ?b = "b'\<lparr>bx_c_flags := bx_c_flags b' OR RING_FLAG_OWNS_SELF\<rparr>"
  have b: "b = b'" using a(3) by (simp add: w2)
  have flag: "\<not> bit (bx_c_flags ?b) 2" unfolding b'(3) ring_box.simps by (simp add: ring_flag_defs bit_simps)
  have rd: "read_obj p w1 = Some ?b" by (simp add: w1 b)
  have clear: "ring_clear (bx_core ?b) = Some (bx_core ?b)" using b'(1) by (simp add: ring_clear_def)
  have kind: "rb_kind (bx_core ?b) AND element_heap = 0"
    using b'(2) by (simp add: element_owns_def element_arena_def element_heap_def)
  have rel: "release_element_storage pf (bx_addr ?b) (rb_kind (bx_core ?b)) (bx_c_flags ?b) RING_FLAG_OWNS_STORAGE
      RING_FLAG_DYNAMIC_STORAGE w1 = Some w1"
    using flag kind unfolding release_element_storage_def by (simp add: ring_flag_defs and_flags Let_def)
  obtain bd where deinit: "ring_box_deinit pf ?b w1 = Some (bd, w1)"
    using clear rel by (simp add: ring_box_deinit_def del: ring_box.simps)
  have "c_ring_deinit pf p w1 = Some (write_obj p zero_ring_box (write_obj p bd w1))"
    using p rd deinit by (simp add: c_ring_deinit_def zero_opaque_bytes_def)
  then have "c_ring_destroy pf p w1 = Some (write_obj p zero_ring_box (write_obj p bd w1))"
    using p rd flag by (simp add: c_ring_destroy_def destroy_owned_object_def ring_flag_defs and_flags)
  with live show ?thesis by simp
qed

section \<open>Properties\<close>

text \<open>
  C6. In a build with a heap, any sequence of \<open>ring_create\<close> without an arena, pushes and pops, and \<open>ring_destroy\<close> on any
  number of rings, null pointers included, is memory safe: nothing is freed twice and nothing is used after it was freed, whatever
  \<open>malloc\<close> answers, as long as the blocks it grants are not in use. Every ring behaves as a bounded list of its own, a failed creation leaves nothing behind, two blocks of the
  heap belong to every ring that is left, and none when all are destroyed. The sizes asked for are limited: element size times
  capacity must not exceed \<open>PTRDIFF_MAX\<close>. Without the limit the claim is false, by the lemma \<open>ring_create_wraps\<close> below.
\<close>

theorem ring_api_clients:
  assumes "pf_heap pf" "malloc_fresh pf"
    and sizes: "\<forall>es cap fl. Make (es, cap, fl) \<in> set cs \<longrightarrow> unat es * unat cap \<le> PTRDIFF_MAX"
  shows "\<exists>rs w' hs xs.
    client_run (ring_api_create pf) (\<lambda>c _. ring_api_call env d c) (c_ring_destroy pf) (w, []) cs = Some (rs, w', hs) \<and>
    client_accepts ring_create_outcome ring_new (\<lambda>_. ring_value_step) (\<lambda>_. (Null_ptr, None)) [] cs rs = Some xs \<and>
    cw_live w \<subseteq> cw_live w' \<and> card (cw_live w' - cw_live w) = 2 * length (filter (\<lambda>x. x \<noteq> None) xs) \<and>
    ((\<forall>x \<in> set xs. x = None) \<longrightarrow> cw_live w' = cw_live w)"
proof -
  have good: "ring_request_ok pf a" if "Make a \<in> set cs" for a
    using that assms by (cases a) auto
  from ring_api.client_run_start [OF good] obtain rs w' hs xs where
    run: "client_run (ring_api_create pf) (\<lambda>c _. ring_api_call env d c) (c_ring_destroy pf) (w, []) cs = Some (rs, w', hs)"
    "client_accepts ring_create_outcome ring_new (\<lambda>_. ring_value_step) (\<lambda>_. (Null_ptr, None)) [] cs rs = Some xs"
    and h: "ring_api.holds pf (cw_live w) (w', hs) xs" by blast
  have "finite (ring_blocks p b) \<and> card (ring_blocks p b) = 2" if "ring_owned pf p b" for p and b :: "'a ring_box"
    using that by (auto simp: ring_owned_def ring_blocks_def card_insert_if)
  from ring_api.holds_card [OF h this] ring_api.holds_end [OF h] run show ?thesis by blast
qed

definition sample_platform :: "nat platform" where
  "sample_platform =
     \<lparr>pf_env = env_sample, pf_max_align = 16,
      pf_malloc = (\<lambda>k A n. let p = 4096 * of_nat (Suc k) in if p = 0 \<or> p \<in> A then None else Some p)\<rparr>"

lemma sample_platform_simps [simp]: "pf_heap sample_platform" "malloc_fresh sample_platform"
  by (auto simp: sample_platform_def malloc_fresh_def Let_def split: if_splits)

theorem ring_api_clients_witness:
  "\<exists>rs w' hs. client_run (ring_api_create sample_platform) (\<lambda>c _. ring_api_call env_sample 0 c) (c_ring_destroy sample_platform)
      (empty_world, []) [Make (8, 2, 0), Call 0 (Push_back 7), Destroy 0] = Some (rs, w', hs) \<and> cw_live w' = {}"
proof -
  let ?cs = "[Make (8, 2, 0), Call 0 (Push_back 7), Destroy 0] :: (u64 \<times> u64 \<times> u32, nat deque_cmd) client_cmd list"
  have sizes: "\<forall>es cap fl. Make (es, cap, fl) \<in> set ?cs \<longrightarrow> unat es * unat cap \<le> PTRDIFF_MAX"
    by (simp add: PTRDIFF_MAX_def)
  from ring_api_clients [of sample_platform ?cs env_sample 0 empty_world, OF sample_platform_simps sizes]
  obtain rs w' hs xs where run: "client_run (ring_api_create sample_platform) (\<lambda>c _. ring_api_call env_sample 0 c)
      (c_ring_destroy sample_platform) (empty_world, []) [Make (8, 2, 0), Call 0 (Push_back 7), Destroy 0] = Some (rs, w', hs)"
    and acc: "client_accepts ring_create_outcome ring_new (\<lambda>_. ring_value_step) (\<lambda>_. (Null_ptr, None)) []
      [Make (8, 2, 0), Call 0 (Push_back 7), Destroy 0] rs = Some xs"
    and done': "(\<forall>x \<in> set xs. x = None) \<longrightarrow> cw_live w' = cw_live (empty_world :: nat ring_box world)"
    by blast
  from client_accepts_one [OF acc] done' run show ?thesis by (auto simp: empty_world_def)
qed

text \<open>
  The size of the block is \<open>elem_size * capacity\<close> without a check: when the product wraps around, the block
  is smaller than the capacity and a push writes past its end.
\<close>

lemma ring_create_wraps:
  "\<exists>w1 w2. c_ring_create sample_platform True 8589934592 2147483649 0 0 (empty_world :: nat ring_box world) = Some (Ok, Some 4096, w1) \<and>
    c_ring_push_back env_sample 4096 (Some 1) w1 = Some (Ok, w2) \<and>
    c_ring_push_back env_sample 4096 (Some 2) w2 = None"
  by (simp add: c_ring_create_def allocate_object_def sample_platform_def empty_world_def c_malloc_def c_ring_init_def
      zero_opaque_bytes_def write_obj_def read_obj_def ring_box_init_def ring_validate_config_def ring_flag_defs
      owned_create_config_flags_def ring_storage_flags_def allocate_element_storage_def Let_def fresh_cells_def
      new_block_def ring_init_def ring_set_storage_kind_def zero_ring_box_def bridge_set_def c_ring_push_back_def
      with_core_def ring_push_back_def ring_push_back_slot_def mem_rd_def mem_wr_def copy_construct_def
      copy_trampoline_def ring_advance_def sz_add_def ring_policy_none_def)

end
