(* ===== verification/Byte_Ring.thy ===== *)
theory Byte_Ring
  imports Ring_Props Simulation
begin

text \<open>
  \<^verbatim>\<open>include/memkit/containers/byte_ring.hpp\<close>: a ring of bytes with transfers of whole blocks, and
  \<^verbatim>\<open>include/memkit/containers/ring_log.hpp\<close>: a log that keeps the newest records. Both are a ring
  core with a policy of their own.
\<close>

section \<open>ByteRing\<close>

record byte_ring =
  br_core :: "u8 ring"
  br_owns_storage :: bool

definition byte_policy_overwrite_on_full :: u32 where "byte_policy_overwrite_on_full = 1"

definition byte_ring_init :: "byte_ring \<Rightarrow> u8 mem \<Rightarrow> nat \<Rightarrow> status \<times> byte_ring" where
  "byte_ring_init s storage capacity =
     (let (st, core) = ring_init (br_core s) (typed_trivial_policy 1 1) storage capacity ring_policy_none in
      (st, s\<lparr>br_core := core\<rparr>))"

text \<open>The overload for a span of \<open>storage.size()\<close> bytes.\<close>

definition byte_ring_init_span :: "byte_ring \<Rightarrow> u8 list \<Rightarrow> nat \<Rightarrow> status \<times> byte_ring" where
  "byte_ring_init_span s storage capacity =
     (if length storage < capacity then (Invalid, s) else byte_ring_init s (Some storage) capacity)"

definition byte_ring_to_detail_policy :: "u32 \<Rightarrow> flags" where
  "byte_ring_to_detail_policy policy =
     (if policy AND byte_policy_overwrite_on_full \<noteq> 0 then ring_policy_overwrite_on_full else ring_policy_none)"

text \<open>\<open>allocate\<close> is what the arena answers to a request of a size and an alignment: a status and a block.\<close>

definition byte_ring_init_from_arena ::
  "byte_ring \<Rightarrow> (nat \<Rightarrow> nat \<Rightarrow> status \<times> u8 mem) \<Rightarrow> nat \<Rightarrow> u32 \<Rightarrow> status \<times> byte_ring" where
  "byte_ring_init_from_arena s allocate capacity policy =
     (if capacity = 0 then (Invalid, s)
      else
        let (st, ptr) = allocate capacity 1 in
        if st \<noteq> Ok then (st, s)
        else
          let (st', core) = ring_init (br_core s) (typed_trivial_policy 1 1) ptr capacity (byte_ring_to_detail_policy policy) in
          (st', s\<lparr>br_core := core\<rparr>))"

definition byte_ring_has_overwrite :: "byte_ring \<Rightarrow> bool" where
  "byte_ring_has_overwrite s \<longleftrightarrow> has (rb_flags (br_core s)) ring_policy_overwrite_on_full"

definition byte_ring_clear :: "byte_ring \<Rightarrow> byte_ring option" where
  "byte_ring_clear s = map_option (\<lambda>core. s\<lparr>br_core := core\<rparr>) (ring_clear (br_core s))"

text \<open>Whether the storage is freed, and the ring that no longer owns it.\<close>

definition byte_ring_release_storage :: "bool \<Rightarrow> byte_ring \<Rightarrow> bool \<times> byte_ring" where
  "byte_ring_release_storage allow_heap s =
     (allow_heap \<and> br_owns_storage s \<and> rb_storage (br_core s) \<noteq> None, s\<lparr>br_owns_storage := False\<rparr>)"

text \<open>The new ring, and the one moved from, whose core still points to the storage.\<close>

definition byte_ring_move :: "byte_ring \<Rightarrow> byte_ring \<times> byte_ring" where
  "byte_ring_move other =
     (\<lparr>br_core = br_core other, br_owns_storage = br_owns_storage other\<rparr>, other\<lparr>br_owns_storage := False\<rparr>)"

definition byte_ring_move_assign :: "bool \<Rightarrow> byte_ring \<Rightarrow> byte_ring \<Rightarrow> (bool \<times> byte_ring \<times> byte_ring) option" where
  "byte_ring_move_assign allow_heap s other = do {
     s1 \<leftarrow> byte_ring_clear s;
     let (freed, s2) = byte_ring_release_storage allow_heap s1;
     Some (freed, s2\<lparr>br_core := br_core other, br_owns_storage := br_owns_storage other\<rparr>, other\<lparr>br_owns_storage := False\<rparr>)
   }"

definition byte_ring_push_byte :: "u8 env \<Rightarrow> byte_ring \<Rightarrow> u8 \<Rightarrow> (status \<times> byte_ring) option" where
  "byte_ring_push_byte env s byte = do {
     (st, core) \<leftarrow> ring_push_back env (br_core s) (Some byte) (byte_ring_has_overwrite s);
     Some (st, s\<lparr>br_core := core\<rparr>)
   }"

definition byte_ring_pop_byte :: "byte_ring \<Rightarrow> u8 option \<Rightarrow> (status \<times> u8 option \<times> byte_ring) option" where
  "byte_ring_pop_byte s out = do {
     (st, out', core) \<leftarrow> ring_pop_front (br_core s) out True;
     Some (st, out', s\<lparr>br_core := core\<rparr>)
   }"

text \<open>
  The loop of \<open>push_bytes\<close>, with \<open>n\<close> bytes to go: the status it returns early with, if any, and the bytes
  written. \<open>push_bytes\<close> returns what it stores in \<open>*out_written\<close>.
\<close>

fun byte_ring_push_loop ::
  "u8 env \<Rightarrow> byte_ring \<Rightarrow> u8 mem \<Rightarrow> nat \<Rightarrow> nat \<Rightarrow> (status option \<times> nat \<times> byte_ring) option" where
  "byte_ring_push_loop env s data written 0 = Some (None, written, s)"
| "byte_ring_push_loop env s data written (Suc n) = do {
     byte \<leftarrow> mem_rd data written;
     (st, s') \<leftarrow> byte_ring_push_byte env s byte;
     if st = Full then Some (None, written, s')
     else if st \<noteq> Ok then Some (Some st, written, s')
     else byte_ring_push_loop env s' data (written + 1) n
   }"

definition byte_ring_push_bytes ::
  "u8 env \<Rightarrow> byte_ring \<Rightarrow> u8 mem \<Rightarrow> nat \<Rightarrow> (status \<times> nat option \<times> byte_ring) option" where
  "byte_ring_push_bytes env s data count =
     (if data = None \<and> count > 0 then Some (Null_ptr, None, s)
      else do {
        (early, written, s') \<leftarrow> byte_ring_push_loop env s data 0 count;
        Some (case early of Some st \<Rightarrow> st | None \<Rightarrow> if written = count then Ok else Full, Some written, s')
      })"

text \<open>\<open>pop_bytes\<close> fills the block \<open>out\<close>.\<close>

fun byte_ring_pop_loop ::
  "byte_ring \<Rightarrow> u8 mem \<Rightarrow> nat \<Rightarrow> nat \<Rightarrow> (status option \<times> nat \<times> u8 mem \<times> byte_ring) option" where
  "byte_ring_pop_loop s out got 0 = Some (None, got, out, s)"
| "byte_ring_pop_loop s out got (Suc n) =
     (if ring_empty (br_core s) then Some (None, got, out, s)
      else do {
        old \<leftarrow> mem_rd out got;
        (st, v, s') \<leftarrow> byte_ring_pop_byte s (Some old);
        out' \<leftarrow> mem_wr out got (the v);
        if st = Empty then Some (None, got, out', s')
        else if st \<noteq> Ok then Some (Some st, got, out', s')
        else byte_ring_pop_loop s' out' (got + 1) n
      })"

definition byte_ring_pop_bytes ::
  "byte_ring \<Rightarrow> u8 mem \<Rightarrow> nat \<Rightarrow> (status \<times> nat option \<times> u8 mem \<times> byte_ring) option" where
  "byte_ring_pop_bytes s out count =
     (if out = None \<and> count > 0 then Some (Null_ptr, None, out, s)
      else do {
        (early, got, out', s') \<leftarrow> byte_ring_pop_loop s out 0 count;
        Some (case early of Some st \<Rightarrow> st | None \<Rightarrow> if got = count then Ok else Empty, Some got, out', s')
      })"

definition byte_ring_readable_contiguous :: "byte_ring \<Rightarrow> bool \<Rightarrow> nat \<times> nat option option" where
  "byte_ring_readable_contiguous s want =
     (let (n, ptr) = ring_readable_contiguous (br_core s) True in
      (n, if want then Some (if n > 0 then ptr else None) else None))"

definition byte_ring_writable_contiguous ::
  "u8 env \<Rightarrow> byte_ring \<Rightarrow> bool \<Rightarrow> (nat \<times> nat option option \<times> byte_ring) option" where
  "byte_ring_writable_contiguous env s want = do {
     (n, ptr, core) \<leftarrow> ring_writable_contiguous env (br_core s) True;
     Some (n, if want then Some (if n > 0 then ptr else None) else None, s\<lparr>br_core := core\<rparr>)
   }"

definition byte_ring_commit_read :: "byte_ring \<Rightarrow> nat \<Rightarrow> byte_ring option" where
  "byte_ring_commit_read s byte_count = map_option (\<lambda>core. s\<lparr>br_core := core\<rparr>) (ring_commit_read (br_core s) byte_count)"

definition byte_ring_commit_write :: "byte_ring \<Rightarrow> nat \<Rightarrow> byte_ring option" where
  "byte_ring_commit_write s byte_count = map_option (\<lambda>core. s\<lparr>br_core := core\<rparr>) (ring_commit_write (br_core s) byte_count)"

section \<open>Transfers of blocks\<close>

definition byte_ring_wf :: "byte_ring \<Rightarrow> bool" where
  "byte_ring_wf s \<longleftrightarrow> ring_bounded (br_core s)"

abbreviation byte_contents :: "byte_ring \<Rightarrow> u8 list" where
  "byte_contents s \<equiv> ring_contents (br_core s)"

lemma byte_push_ok:
  assumes wf: "byte_ring_wf s"
  shows "\<exists>s'. byte_ring_push_byte env s b = Some (if length (byte_contents s) < rb_capacity (br_core s) \<or> byte_ring_has_overwrite s
      then Ok else Full, s') \<and> byte_ring_wf s' \<and>
    rb_capacity (br_core s') = rb_capacity (br_core s) \<and> byte_ring_has_overwrite s' = byte_ring_has_overwrite s \<and>
    byte_contents s' = (if length (byte_contents s) < rb_capacity (br_core s) then byte_contents s @ [b]
      else if byte_ring_has_overwrite s then tl (byte_contents s) @ [b] else byte_contents s)"
proof -
  from wf have "ring_bounded (br_core s)" by (simp add: byte_ring_wf_def)
  from ring_call_core [OF this, of "Push_back b" env undefined] show ?thesis
    by (auto simp: byte_ring_push_byte_def byte_ring_wf_def byte_ring_has_overwrite_def split: if_splits)
qed

lemma byte_wf_bounds:
  assumes "byte_ring_wf s"
  shows "0 < rb_capacity (br_core s)" "length (byte_contents s) \<le> rb_capacity (br_core s)"
    "ring_empty (br_core s) \<longleftrightarrow> byte_contents s = []"
proof -
  from assms have wf: "ring_wf (br_core s)" by (simp add: byte_ring_wf_def ring_bounded_def)
  then show "0 < rb_capacity (br_core s)" "length (byte_contents s) \<le> rb_capacity (br_core s)"
    using length_ring_contents [OF wf] by (auto elim: ring_wfE)
  show "ring_empty (br_core s) \<longleftrightarrow> byte_contents s = []"
    using length_ring_contents [OF wf] by (auto simp: ring_empty_def)
qed

lemma byte_push_loop_ok:
  assumes "byte_ring_wf s" "i + n \<le> length data"
  shows "\<exists>s'. byte_ring_push_loop env s (Some data) i n =
      Some (None, i + (if byte_ring_has_overwrite s then n else min n (rb_capacity (br_core s) - length (byte_contents s))), s') \<and>
    byte_ring_wf s' \<and> rb_capacity (br_core s') = rb_capacity (br_core s) \<and>
    byte_ring_has_overwrite s' = byte_ring_has_overwrite s \<and>
    byte_contents s' = (if byte_ring_has_overwrite s
      then keep_last (rb_capacity (br_core s)) (byte_contents s @ take n (drop i data))
      else byte_contents s @ take (rb_capacity (br_core s) - length (byte_contents s)) (take n (drop i data)))"
  using assms
proof (induction n arbitrary: s i)
  case 0
  with byte_wf_bounds [OF 0(1)] show ?case by simp
next
  case (Suc n)
  let ?c = "rb_capacity (br_core s)" and ?q = "byte_contents s"
  have i: "i < length data" "mem_rd (Some data) i = Some (data ! i)" using Suc.prems(2) by (simp_all add: mem_rd_def)
  have dr: "drop i data = data ! i # drop (Suc i) data" using i(1) by (rule Cons_nth_drop_Suc [symmetric])
  note b = byte_wf_bounds [OF Suc.prems(1)]
  from byte_push_ok [OF Suc.prems(1), of env "data ! i"] obtain s' where
    s': "byte_ring_push_byte env s (data ! i) = Some (if length ?q < ?c \<or> byte_ring_has_overwrite s then Ok else Full, s')"
    "byte_ring_wf s'" "rb_capacity (br_core s') = ?c" "byte_ring_has_overwrite s' = byte_ring_has_overwrite s"
    "byte_contents s' = (if length ?q < ?c then ?q @ [data ! i] else if byte_ring_has_overwrite s then tl ?q @ [data ! i] else ?q)"
    by blast
  show ?case
  proof (cases "length ?q < ?c \<or> byte_ring_has_overwrite s")
    case False
    with i s' b show ?thesis by (intro exI [of _ s']) simp
  next
    case True
    from Suc.IH [OF s'(2), of "Suc i"] Suc.prems(2) obtain s'' where s'': "byte_ring_push_loop env s' (Some data) (Suc i) n =
        Some (None, Suc i + (if byte_ring_has_overwrite s' then n else min n (?c - length (byte_contents s'))), s'')"
      "byte_ring_wf s''" "rb_capacity (br_core s'') = ?c" "byte_ring_has_overwrite s'' = byte_ring_has_overwrite s"
      "byte_contents s'' = (if byte_ring_has_overwrite s then keep_last ?c (byte_contents s' @ take n (drop (Suc i) data))
        else byte_contents s' @ take (?c - length (byte_contents s')) (take n (drop (Suc i) data)))"
      unfolding s'(3,4) by auto
    have run: "byte_ring_push_loop env s (Some data) i (Suc n) = byte_ring_push_loop env s' (Some data) (Suc i) n"
      using True i s'(1) by simp
    show ?thesis
    proof (cases "length ?q < ?c")
      case room: True
      obtain r where r: "?c - length ?q = Suc r" using room by (cases "?c - length ?q") auto
      then have r': "?c - Suc (length ?q) = r" by simp
      from room s'' s'(4,5) show ?thesis unfolding run by (intro exI [of _ s'']) (simp add: dr r r')
    next
      case False
      with True b have ow: "byte_ring_has_overwrite s" and len: "length ?q = ?c" by simp_all
      from ow False s'(4,5) s'' keep_last_step [OF b(1) len, of "data ! i" "take n (drop (Suc i) data)"] show ?thesis
        unfolding run by (intro exI [of _ s'']) (simp add: dr)
    qed
  qed
qed

lemma byte_pop_loop_ok:
  assumes "byte_ring_wf s" "i + n \<le> length out"
  shows "\<exists>s'. byte_ring_pop_loop s (Some out) i n =
      Some (None, i + min n (length (byte_contents s)),
        Some (take i out @ take n (byte_contents s) @ drop (i + min n (length (byte_contents s))) out), s') \<and>
    byte_ring_wf s' \<and> rb_capacity (br_core s') = rb_capacity (br_core s) \<and>
    byte_ring_has_overwrite s' = byte_ring_has_overwrite s \<and> byte_contents s' = drop n (byte_contents s)"
  using assms
proof (induction n arbitrary: s i out)
  case 0
  then show ?case by simp
next
  case (Suc n)
  let ?q = "byte_contents s"
  note b = byte_wf_bounds [OF Suc.prems(1)]
  show ?case
  proof (cases "?q")
    case Nil
    with b Suc.prems(1) show ?thesis by simp
  next
    case (Cons x xs)
    have i: "i < length out" "mem_rd (Some out) i = Some (out ! i)" using Suc.prems(2) by (simp_all add: mem_rd_def)
    from Suc.prems(1) have "ring_bounded (br_core s)" by (simp add: byte_ring_wf_def)
    from ring_call_core [OF this, of Pop_front undefined "out ! i"] Cons obtain core where core:
      "ring_bounded core" "overwrites core = overwrites (br_core s)" "rb_capacity core = rb_capacity (br_core s)"
      "ring_contents core = xs" "ring_pop_front (br_core s) (Some (out ! i)) True = Some (Ok, Some x, core)"
      by (auto split: if_splits)
    let ?s = "s\<lparr>br_core := core\<rparr>" and ?out = "out[i := x]"
    have wr: "mem_wr (Some out) i x = Some (Some ?out)" using i(1) by (simp add: mem_wr_def)
    have run: "byte_ring_pop_loop s (Some out) i (Suc n) = byte_ring_pop_loop ?s (Some ?out) (Suc i) n"
      using i core(5) wr Cons b(3) by (simp add: byte_ring_pop_byte_def)
    have "byte_ring_wf ?s" using core(1) by (simp add: byte_ring_wf_def)
    moreover have "Suc i + n \<le> length ?out" using Suc.prems(2) by simp
    ultimately have IH: "\<exists>s'. byte_ring_pop_loop ?s (Some ?out) (Suc i) n =
        Some (None, Suc i + min n (length (byte_contents ?s)),
          Some (take (Suc i) ?out @ take n (byte_contents ?s) @ drop (Suc i + min n (length (byte_contents ?s))) ?out), s') \<and>
      byte_ring_wf s' \<and> rb_capacity (br_core s') = rb_capacity (br_core ?s) \<and>
      byte_ring_has_overwrite s' = byte_ring_has_overwrite ?s \<and> byte_contents s' = drop n (byte_contents ?s)"
      by (rule Suc.IH)
    have tk: "take (Suc i) ?out = take i out @ [x]" using i(1) by (simp add: take_Suc_conv_app_nth)
    from IH core Cons show ?thesis unfolding run
      by (auto simp: tk byte_ring_has_overwrite_def simp del: take_Suc take_update_cancel)
  qed
qed

section \<open>A ByteRing as a stream\<close>

datatype chunk_cmd = Write "u8 list" | Read nat

text \<open>The bytes a call transferred: how many, and which ones a read delivers.\<close>

type_synonym chunk_result = "status \<times> nat \<times> u8 list"

fun byte_ring_call :: "u8 env \<Rightarrow> byte_ring \<Rightarrow> chunk_cmd \<Rightarrow> (chunk_result \<times> byte_ring) option" where
  "byte_ring_call env s (Write d) = do {
     (st, written, s') \<leftarrow> byte_ring_push_bytes env s (Some d) (length d);
     Some ((st, the written, []), s')
   }"
| "byte_ring_call env s (Read n) = do {
     (st, got, out, s') \<leftarrow> byte_ring_pop_bytes s (Some (replicate n 0)) n;
     Some ((st, the got, take (the got) (the out)), s')
   }"

text \<open>A stream of which at most \<open>cap\<close> bytes are in flight; \<open>ow\<close>: the oldest ones are dropped.\<close>

fun stream_step :: "bool \<Rightarrow> nat \<Rightarrow> u8 list \<Rightarrow> chunk_cmd \<Rightarrow> chunk_result \<times> u8 list" where
  "stream_step ow cap q (Write d) =
     (if ow then ((Ok, length d, []), keep_last cap (q @ d))
      else let k = min (length d) (cap - length q) in ((if k = length d then Ok else Full, k, []), q @ take k d))"
| "stream_step ow cap q (Read n) =
     (let k = min n (length q) in ((if k = n then Ok else Empty, k, take k q), drop k q))"

fun stream_run :: "('s \<Rightarrow> chunk_cmd \<Rightarrow> (chunk_result \<times> 's) option) \<Rightarrow> 's \<Rightarrow> chunk_cmd list \<Rightarrow> (chunk_result list \<times> 's) option" where
  "stream_run call s [] = Some ([], s)"
| "stream_run call s (c # cs) = do {
     (r, s1) \<leftarrow> call s c;
     (rs, s2) \<leftarrow> stream_run call s1 cs;
     Some (r # rs, s2)
   }"

text \<open>What was accepted and what was delivered.\<close>

fun sent :: "chunk_cmd list \<Rightarrow> chunk_result list \<Rightarrow> u8 list" where
  "sent (Write d # cs) ((st, k, bs) # rs) = take k d @ sent cs rs"
| "sent (Read n # cs) (r # rs) = sent cs rs"
| "sent _ _ = []"

definition received :: "chunk_result list \<Rightarrow> u8 list" where
  "received rs = concat (map (\<lambda>(st, k, bs). bs) rs)"

lemma byte_ring_call_ok:
  assumes wf: "byte_ring_wf s"
  shows "\<exists>s'. byte_ring_call env s c =
      Some (fst (stream_step (byte_ring_has_overwrite s) (rb_capacity (br_core s)) (byte_contents s) c), s') \<and>
    byte_ring_wf s' \<and> rb_capacity (br_core s') = rb_capacity (br_core s) \<and>
    byte_ring_has_overwrite s' = byte_ring_has_overwrite s \<and>
    byte_contents s' = snd (stream_step (byte_ring_has_overwrite s) (rb_capacity (br_core s)) (byte_contents s) c)"
proof (cases c)
  case (Write d)
  from byte_push_loop_ok [OF wf, of 0 "length d" d env] show ?thesis
    by (auto simp: Write byte_ring_push_bytes_def Let_def min_def split: if_splits)
next
  case (Read n)
  from byte_pop_loop_ok [OF wf, of 0 n "replicate n 0"] show ?thesis
    by (auto simp: Read byte_ring_pop_bytes_def Let_def min_def)
qed

lemma stream_run_ok:
  assumes "byte_ring_wf s"
  shows "\<exists>rs s'. stream_run (byte_ring_call env) s cs = Some (rs, s') \<and> byte_ring_wf s' \<and>
    stream_run (\<lambda>q c. Some (stream_step (byte_ring_has_overwrite s) (rb_capacity (br_core s)) q c)) (byte_contents s) cs =
      Some (rs, byte_contents s')"
  using assms
proof (induction cs arbitrary: s)
  case (Cons c cs)
  from byte_ring_call_ok [OF Cons.prems, of env c] obtain s1 where s1: "byte_ring_call env s c =
      Some (fst (stream_step (byte_ring_has_overwrite s) (rb_capacity (br_core s)) (byte_contents s) c), s1)"
    "byte_ring_wf s1" "rb_capacity (br_core s1) = rb_capacity (br_core s)" "byte_ring_has_overwrite s1 = byte_ring_has_overwrite s"
    "byte_contents s1 = snd (stream_step (byte_ring_has_overwrite s) (rb_capacity (br_core s)) (byte_contents s) c)"
    by blast
  from Cons.IH [OF s1(2)] s1 show ?case by (auto simp: split_beta)
qed auto

lemma stream_order:
  "stream_run (\<lambda>q c. Some (stream_step False cap q c)) q cs = Some (rs, q') \<Longrightarrow> q @ sent cs rs = received rs @ q'"
proof (induction cs arbitrary: q rs)
  case (Cons c cs)
  from Cons.prems obtain rs' where rs: "rs = fst (stream_step False cap q c) # rs'"
    "stream_run (\<lambda>q c. Some (stream_step False cap q c)) (snd (stream_step False cap q c)) cs = Some (rs', q')"
    by (cases "stream_step False cap q c") (auto simp: bind_eq_Some_conv)
  have "q @ sent [c] [fst (stream_step False cap q c)] = received [fst (stream_step False cap q c)] @ snd (stream_step False cap q c)"
    by (cases c) (auto simp: received_def Let_def min_def)
  moreover have "sent (c # cs) (r # rs') = sent [c] [r] @ sent cs rs'" for r
    by (cases c; cases r) auto
  moreover have "received (r # rs') = received [r] @ received rs'" for r by (simp add: received_def)
  ultimately show ?case using Cons.IH [OF rs(2)] rs(1) by (metis append_assoc)
qed (simp add: received_def)

section \<open>RingLog\<close>

text \<open>The members are the core alone. \<open>policy\<close> is \<open>typed_element_policy<Record>\<close>.\<close>

definition ring_log_storage_bytes :: "nat \<Rightarrow> nat \<Rightarrow> nat" where
  "ring_log_storage_bytes record_size capacity = sz_mul capacity record_size"

definition ring_log_init :: "'r elem_policy \<Rightarrow> 'r ring \<Rightarrow> 'r mem \<Rightarrow> nat \<Rightarrow> status \<times> 'r ring" where
  "ring_log_init policy s storage capacity =
     (if storage = None \<or> capacity = 0 then (Invalid, s)
      else ring_init s policy storage capacity ring_policy_overwrite_on_full)"

definition ring_log_init_from_arena ::
  "'r elem_policy \<Rightarrow> 'r ring \<Rightarrow> (nat \<Rightarrow> nat \<Rightarrow> status \<times> 'r mem) \<Rightarrow> nat \<Rightarrow> status \<times> 'r ring" where
  "ring_log_init_from_arena policy s allocate capacity =
     (if capacity = 0 then (Invalid, s)
      else
        let (st, ptr) = allocate (ring_log_storage_bytes (ep_size policy) capacity) (ep_align policy) in
        if st \<noteq> Ok then (st, s) else ring_log_init policy s ptr capacity)"

definition ring_log_append :: "'r env \<Rightarrow> 'r ring \<Rightarrow> 'r \<Rightarrow> (status \<times> 'r ring) option" where
  "ring_log_append env s r = ring_push_back env s (Some r) True"

definition ring_log_peek_oldest :: "'r ring \<Rightarrow> 'r \<Rightarrow> (status \<times> 'r option) option" where
  "ring_log_peek_oldest s out = ring_peek_front s (Some out)"

definition ring_log_peek_newest :: "'r ring \<Rightarrow> 'r \<Rightarrow> (status \<times> 'r option) option" where
  "ring_log_peek_newest s out = ring_peek_back s (Some out)"

definition ring_log_foreach_chronological :: "('r \<Rightarrow> 'w \<Rightarrow> status \<times> 'w) \<Rightarrow> 'r ring \<Rightarrow> 'w \<Rightarrow> (status \<times> 'w) option" where
  "ring_log_foreach_chronological visit s w = ring_foreach (\<lambda>r index. visit r) s w"

fun ring_log_newest_loop :: "('r \<Rightarrow> 'w \<Rightarrow> status \<times> 'w) \<Rightarrow> 'r ring \<Rightarrow> nat \<Rightarrow> 'w \<Rightarrow> (status \<times> 'w) option" where
  "ring_log_newest_loop visit s 0 w = Some (Ok, w)"
| "ring_log_newest_loop visit s (Suc i) w = do {
     ptr \<leftarrow> ring_logical_slot s i;
     slot \<leftarrow> ptr;
     r \<leftarrow> mem_rd (rb_storage s) slot;
     let (st, w') = visit r w;
     if st \<noteq> Ok then Some (st, w') else ring_log_newest_loop visit s i w'
   }"

definition ring_log_foreach_newest_first :: "('r \<Rightarrow> 'w \<Rightarrow> status \<times> 'w) \<Rightarrow> 'r ring \<Rightarrow> 'w \<Rightarrow> (status \<times> 'w) option" where
  "ring_log_foreach_newest_first visit s w = ring_log_newest_loop visit s (rb_count s) w"

text \<open>The new log, and the one moved from.\<close>

definition ring_log_move :: "'r elem_policy \<Rightarrow> 'r ring \<Rightarrow> 'r ring \<times> 'r ring" where
  "ring_log_move default_policy other = (other, ring_reset_state default_policy other)"

definition ring_log_move_assign :: "'r elem_policy \<Rightarrow> 'r ring \<Rightarrow> 'r ring \<Rightarrow> ('r ring \<times> 'r ring) option" where
  "ring_log_move_assign default_policy s other = do {
     s1 \<leftarrow> ring_clear s;
     Some (other\<lparr>rb_destroyed := rb_destroyed s1\<rparr>, ring_reset_state default_policy other)
   }"

definition ring_log_wf :: "'r ring \<Rightarrow> bool" where
  "ring_log_wf s \<longleftrightarrow> ring_bounded s \<and> overwrites s"

lemma ring_log_init_ok:
  assumes "0 < capacity" "capacity \<le> length xs" "capacity \<le> PTRDIFF_MAX" "0 < ep_size policy" "faithful policy"
  shows "\<exists>s'. ring_log_init policy s (Some xs) capacity = (Ok, s') \<and> ring_log_wf s' \<and> ring_contents s' = [] \<and>
    rb_capacity s' = capacity"
  using assms
  by (simp add: ring_log_init_def ring_init_def ring_log_wf_def ring_bounded_def ring_wf_def has_def
      ring_policy_overwrite_on_full_def ring_policy_growable_def)

lemma ring_log_append_ok:
  assumes wf: "ring_log_wf s"
  shows "\<exists>s'. ring_log_append env s r = Some (Ok, s') \<and> ring_log_wf s' \<and> rb_capacity s' = rb_capacity s \<and>
    ring_contents s' = keep_last (rb_capacity s) (ring_contents s @ [r])"
proof -
  from wf have b: "ring_bounded s" "overwrites s" by (simp_all add: ring_log_wf_def)
  then have wfr: "ring_wf s" by (simp add: ring_bounded_def)
  then have len: "length (ring_contents s) \<le> rb_capacity s" "0 < rb_capacity s"
    using length_ring_contents [OF wfr] by (auto elim: ring_wfE)
  from ring_call_core [OF b(1), of "Push_back r" env undefined] b(2) len keep_last_step [OF len(2), of "ring_contents s" r "[]"]
  show ?thesis by (cases "length (ring_contents s) < rb_capacity s") (auto simp: ring_log_append_def ring_log_wf_def)
qed

fun ring_log_appends :: "'r env \<Rightarrow> 'r ring \<Rightarrow> 'r list \<Rightarrow> 'r ring option" where
  "ring_log_appends env s [] = Some s"
| "ring_log_appends env s (r # rs) = do {
     (st, s1) \<leftarrow> ring_log_append env s r;
     if st \<noteq> Ok then None else ring_log_appends env s1 rs
   }"

lemma ring_log_appends_ok:
  assumes "ring_log_wf s"
  shows "\<exists>s'. ring_log_appends env s rs = Some s' \<and> ring_log_wf s' \<and> rb_capacity s' = rb_capacity s \<and>
    ring_contents s' = keep_last (rb_capacity s) (ring_contents s @ rs)"
  using assms
proof (induction rs arbitrary: s)
  case Nil
  then have wf: "ring_wf s" by (simp add: ring_log_wf_def ring_bounded_def)
  with length_ring_contents [OF wf] have "length (ring_contents s) \<le> rb_capacity s" by (auto elim: ring_wfE)
  with Nil show ?case by simp
next
  case (Cons r rs)
  from ring_log_append_ok [OF Cons.prems, of env r] obtain s1 where s1: "ring_log_append env s r = Some (Ok, s1)" "ring_log_wf s1"
    "rb_capacity s1 = rb_capacity s" "ring_contents s1 = keep_last (rb_capacity s) (ring_contents s @ [r])" by blast
  from Cons.IH [OF s1(2)] s1 keep_last_append [of "rb_capacity s" "ring_contents s @ [r]" rs] show ?case by auto
qed

lemma visit_list_all: "visit_list (\<lambda>r index. visit r) i xs w = visit_all visit xs w"
  by (induction xs arbitrary: i w) (auto split: prod.splits)

lemma ring_log_newest_loop_ok:
  assumes wf: "ring_wf s" and n: "n \<le> rb_count s"
  shows "ring_log_newest_loop visit s n w = Some (visit_all visit (rev (take n (ring_contents s))) w)"
  using n
proof (induction n arbitrary: w)
  case (Suc n)
  from wf obtain xs where xs: "rb_storage s = Some xs" "0 < rb_capacity s" "rb_capacity s \<le> length xs"
    "rb_capacity s + rb_capacity s < SIZE_MAX" "rb_tail s < rb_capacity s" "rb_count s \<le> rb_capacity s"
    by (rule ring_wfE)
  let ?slot = "(rb_tail s + n) mod rb_capacity s"
  have slot: "?slot < length xs" using xs by (intro mod_less_le)
  have nth: "ring_contents s ! n = xs ! ?slot" using xs(1) Suc.prems by (simp add: ring_contents_storage)
  have tk: "take (Suc n) (ring_contents s) = take n (ring_contents s) @ [xs ! ?slot]"
    using Suc.prems length_ring_contents [OF wf] nth by (simp add: take_Suc_conv_app_nth)
  have "ring_logical_slot s n = Some (Some ?slot)"
    using Suc.prems xs by (simp add: ring_logical_slot_def ring_logical_index_eq)
  moreover have "mem_rd (rb_storage s) ?slot = Some (xs ! ?slot)" using xs(1) slot by (simp add: mem_rd_def)
  ultimately show ?case using Suc by (auto simp: tk split: prod.splits)
qed simp

section \<open>Properties\<close>

text \<open> C34.
  A ByteRing is a byte stream with at most \<open>capacity\<close> bytes in flight: any sequence of \<open>push_bytes\<close> and
  \<open>pop_bytes\<close> is memory safe and has the results of the stream; as long as it does not overwrite, the bytes
  read and those still in the ring are exactly the bytes accepted, in order.
\<close>

theorem byte_ring_is_stream:
  assumes "byte_ring_init_from_arena s0 allocate capacity policy = (Ok, s)" "allocate capacity 1 = (Ok, Some xs)"
    "capacity \<le> length xs" "capacity \<le> PTRDIFF_MAX"
  defines "ow \<equiv> policy AND byte_policy_overwrite_on_full \<noteq> 0"
  shows "\<exists>rs s'. stream_run (byte_ring_call env) s cs = Some (rs, s') \<and>
    stream_run (\<lambda>q c. Some (stream_step ow capacity q c)) [] cs = Some (rs, byte_contents s') \<and>
    (\<not> ow \<longrightarrow> sent cs rs = received rs @ byte_contents s')"
proof -
  have "byte_ring_wf s \<and> rb_capacity (br_core s) = capacity \<and> byte_contents s = [] \<and> byte_ring_has_overwrite s = ow"
    using assms
    by (auto simp: byte_ring_init_from_arena_def ring_init_def byte_ring_wf_def ring_bounded_def ring_wf_def
        byte_ring_has_overwrite_def byte_ring_to_detail_policy_def has_def ring_policy_overwrite_on_full_def
        ring_policy_growable_def ring_policy_none_def split: if_splits)
  then have s: "byte_ring_wf s" "rb_capacity (br_core s) = capacity" "byte_contents s = []" "byte_ring_has_overwrite s = ow"
    by simp_all
  from stream_run_ok [OF s(1), of env cs] obtain rs s' where run: "stream_run (byte_ring_call env) s cs = Some (rs, s')"
    "stream_run (\<lambda>q c. Some (stream_step ow capacity q c)) [] cs = Some (rs, byte_contents s')"
    unfolding s(2-4) by blast
  have "sent cs rs = received rs @ byte_contents s'" if "\<not> ow"
    using stream_order [of capacity "[]" cs rs "byte_contents s'"] run(2) that by simp
  with run show ?thesis by blast
qed

definition sample_byte_ring :: byte_ring where
  "sample_byte_ring =
     \<lparr>br_core = \<lparr>rb_policy = typed_trivial_policy 1 1, rb_storage = None, rb_capacity = 0, rb_head = 0, rb_tail = 0,
        rb_count = 0, rb_flags = 0, rb_kind = 0, rb_grow = False, rb_destroyed = []\<rparr>, br_owns_storage = False\<rparr>"

definition byte_env :: "u8 env" where
  "byte_env = \<lparr>env_allow_heap = False, env_malloc = (\<lambda>_. False), env_grow = (\<lambda>_ _. Oom), env_junk = (\<lambda>_. 0)\<rparr>"

theorem byte_ring_is_stream_witness:
  "\<exists>rs s s'. byte_ring_init_from_arena sample_byte_ring (\<lambda>n a. (Ok, Some [0, 0, 0])) 3 0 = (Ok, s) \<and>
    stream_run (byte_ring_call byte_env) s [Write [1, 2], Read 1, Write [3, 4, 5], Read 9] = Some (rs, s') \<and>
    rs = [(Ok, 2, []), (Ok, 1, [1]), (Full, 2, []), (Empty, 3, [2, 3, 4])]"
proof -
  let ?alloc = "\<lambda>n a. (Ok, Some [0, 0, 0 :: u8])"
  obtain s where s: "byte_ring_init_from_arena sample_byte_ring ?alloc 3 0 = (Ok, s)"
    by (simp add: byte_ring_init_from_arena_def ring_init_def typed_trivial_policy_def)
  from byte_ring_is_stream [OF s, of "[0, 0, 0]" byte_env "[Write [1, 2], Read 1, Write [3, 4, 5], Read 9]"] s
  show ?thesis by (auto simp: PTRDIFF_MAX_def Let_def)
qed

text \<open>
  A RingLog never refuses a record and keeps the newest ones: after any records \<open>rs\<close> were appended it holds the last
  \<open>capacity\<close> of them, the chronological walk visits these in order and the other walk in reverse, both up to the first error.
\<close>

theorem ring_log_keeps_newest:
  assumes "ring_log_init policy s0 (Some xs) capacity = (Ok, s)" "capacity \<le> length xs" "capacity \<le> PTRDIFF_MAX"
    "faithful policy"
  shows "\<exists>s'. ring_log_appends env s rs = Some s' \<and>
    ring_log_foreach_chronological visit s' w = Some (visit_all visit (keep_last capacity rs) w) \<and>
    ring_log_foreach_newest_first visit s' w = Some (visit_all visit (rev (keep_last capacity rs)) w)"
proof -
  from assms(1) have "0 < capacity" "0 < ep_size policy" by (auto simp: ring_log_init_def ring_init_def split: if_splits)
  from ring_log_init_ok [OF this(1) assms(2,3) this(2) assms(4), of s0] assms(1)
  have s: "ring_log_wf s" "ring_contents s = []" "rb_capacity s = capacity" by auto
  from ring_log_appends_ok [OF s(1), of env rs] s obtain s' where s': "ring_log_appends env s rs = Some s'" "ring_log_wf s'"
    "ring_contents s' = keep_last capacity rs" by auto
  from s'(2) have wf: "ring_wf s'" by (simp add: ring_log_wf_def ring_bounded_def)
  have "take (rb_count s') (ring_contents s') = ring_contents s'" using length_ring_contents [OF wf] by simp
  with s' ring_foreach_eq [OF wf, of "\<lambda>r index. visit r" w] ring_log_newest_loop_ok [OF wf, of "rb_count s'" visit w] show ?thesis
    by (intro exI [of _ s']) (simp add: ring_log_foreach_chronological_def ring_log_foreach_newest_first_def visit_list_all)
qed

theorem ring_log_keeps_newest_witness:
  "\<exists>s s'. ring_log_init (typed_trivial_policy 8 8) (ring_sample 0 1) (Some [0, 0]) 2 = (Ok, s) \<and>
    ring_log_appends env_sample s [5, 6, 7] = Some s' \<and>
    ring_log_foreach_newest_first (\<lambda>r w. (Ok, w @ [r])) s' [] = Some (Ok, [7, 6])"
proof -
  obtain s where s: "ring_log_init (typed_trivial_policy 8 8) (ring_sample 0 1) (Some [0, 0]) 2 = (Ok, s)"
    by (simp add: ring_log_init_def ring_init_def)
  from ring_log_keeps_newest [OF s, of env_sample "[5, 6, 7]" "\<lambda>r w. (Ok, w @ [r])" "[]"] s
  show ?thesis by (auto simp: PTRDIFF_MAX_def keep_last_def)
qed

end
