(* ===== verification/Running_Stats.thy ===== *)
theory Running_Stats
  imports Prelude "HOL-Library.Signed_Division"
begin

text \<open>
  \<^verbatim>\<open>include/memkit/containers/running_stats.hpp\<close>: MovingAverage and WindowStats over a window of
  \<open>N\<close> samples, for \<open>T\<close> = \<^verbatim>\<open>std::int32_t\<close>, whose accumulator is \<^verbatim>\<open>std::int64_t\<close>.

  Integers are mathematical ones; a signed overflow of the accumulator is undefined (\<open>None\<close>), as is an index
  outside the array of samples.
\<close>

section \<open>Machine integers\<close>

definition int32_range :: "int \<Rightarrow> bool" where
  "int32_range x \<longleftrightarrow> - 2147483648 \<le> x \<and> x \<le> 2147483647"

definition int64_of :: "int \<Rightarrow> int option" where
  "int64_of x = (if - 9223372036854775808 \<le> x \<and> x \<le> 9223372036854775807 then Some x else None)"

text \<open>\<open>static_cast<std::int32_t>\<close>: modulo \<open>2 ^ 32\<close>.\<close>

definition int32_cast :: "int \<Rightarrow> int" where
  "int32_cast x = (x + 2147483648) mod 4294967296 - 2147483648"

lemma int32_cast_range: "int32_range x \<Longrightarrow> int32_cast x = x"
  by (simp add: int32_range_def int32_cast_def)

section \<open>MovingAverage\<close>

record moving_average =
  ma_samples :: "int list"
  ma_index :: nat
  ma_count :: nat
  ma_sum :: int

definition ma_construct :: "nat \<Rightarrow> moving_average" where
  "ma_construct N = \<lparr>ma_samples = replicate N 0, ma_index = 0, ma_count = 0, ma_sum = 0\<rparr>"

definition ma_empty :: "moving_average \<Rightarrow> bool" where
  "ma_empty s \<longleftrightarrow> ma_count s = 0"

definition ma_full :: "moving_average \<Rightarrow> bool" where
  "ma_full s \<longleftrightarrow> ma_count s \<ge> length (ma_samples s)"

definition ma_clear :: "moving_average \<Rightarrow> moving_average" where
  "ma_clear s = s\<lparr>ma_count := 0, ma_index := 0, ma_sum := 0\<rparr>"

text \<open>The window size \<open>N\<close> is the length of the array.\<close>

definition ma_push :: "moving_average \<Rightarrow> int \<Rightarrow> (status \<times> moving_average) option" where
  "ma_push s sample =
     (let N = length (ma_samples s) in
      if N = 0 then Some (Invalid, s)
      else if ma_count s < N then do {
        samples \<leftarrow> mem_wr (Some (ma_samples s)) (ma_index s) sample;
        total \<leftarrow> int64_of (ma_sum s + sample);
        index \<leftarrow> sz_mod (sz_add (ma_index s) 1) N;
        Some (Ok, s\<lparr>ma_samples := the samples, ma_sum := total, ma_count := sz_add (ma_count s) 1, ma_index := index\<rparr>)
      }
      else do {
        old \<leftarrow> mem_rd (Some (ma_samples s)) (ma_index s);
        less \<leftarrow> int64_of (ma_sum s - old);
        samples \<leftarrow> mem_wr (Some (ma_samples s)) (ma_index s) sample;
        total \<leftarrow> int64_of (less + sample);
        index \<leftarrow> sz_mod (sz_add (ma_index s) 1) N;
        Some (Ok, s\<lparr>ma_samples := the samples, ma_sum := total, ma_index := index\<rparr>)
      })"

text \<open>Division rounds towards zero.\<close>

definition ma_average :: "moving_average \<Rightarrow> int" where
  "ma_average s = (if ma_count s = 0 then 0 else int32_cast (ma_sum s sdiv int (ma_count s)))"

section \<open>WindowStats\<close>

record window_stats =
  ws_samples :: "int list"
  ws_index :: nat
  ws_count :: nat

definition ws_construct :: "nat \<Rightarrow> window_stats" where
  "ws_construct N = \<lparr>ws_samples = replicate N 0, ws_index = 0, ws_count = 0\<rparr>"

definition ws_empty :: "window_stats \<Rightarrow> bool" where
  "ws_empty s \<longleftrightarrow> ws_count s = 0"

definition ws_full :: "window_stats \<Rightarrow> bool" where
  "ws_full s \<longleftrightarrow> ws_count s \<ge> length (ws_samples s)"

definition ws_clear :: "window_stats \<Rightarrow> window_stats" where
  "ws_clear s = s\<lparr>ws_count := 0, ws_index := 0\<rparr>"

definition ws_push :: "window_stats \<Rightarrow> int \<Rightarrow> (status \<times> window_stats) option" where
  "ws_push s sample =
     (let N = length (ws_samples s) in
      if N = 0 then Some (Invalid, s)
      else if ws_count s < N then do {
        samples \<leftarrow> mem_wr (Some (ws_samples s)) (ws_index s) sample;
        index \<leftarrow> sz_mod (sz_add (ws_index s) 1) N;
        Some (Ok, s\<lparr>ws_samples := the samples, ws_count := sz_add (ws_count s) 1, ws_index := index\<rparr>)
      }
      else do {
        samples \<leftarrow> mem_wr (Some (ws_samples s)) (ws_index s) sample;
        index \<leftarrow> sz_mod (sz_add (ws_index s) 1) N;
        Some (Ok, s\<lparr>ws_samples := the samples, ws_index := index\<rparr>)
      })"

text \<open>The loops of \<open>min\<close> and \<open>max\<close>, with \<open>n\<close> samples to go.\<close>

fun ws_min_loop :: "int list \<Rightarrow> int \<Rightarrow> nat \<Rightarrow> nat \<Rightarrow> int option" where
  "ws_min_loop xs best i 0 = Some best"
| "ws_min_loop xs best i (Suc n) = do {
     x \<leftarrow> mem_rd (Some xs) i;
     ws_min_loop xs (if x < best then x else best) (i + 1) n
   }"

fun ws_max_loop :: "int list \<Rightarrow> int \<Rightarrow> nat \<Rightarrow> nat \<Rightarrow> int option" where
  "ws_max_loop xs best i 0 = Some best"
| "ws_max_loop xs best i (Suc n) = do {
     x \<leftarrow> mem_rd (Some xs) i;
     ws_max_loop xs (if x > best then x else best) (i + 1) n
   }"

fun ws_sum_loop :: "int list \<Rightarrow> int \<Rightarrow> nat \<Rightarrow> nat \<Rightarrow> int option" where
  "ws_sum_loop xs acc i 0 = Some acc"
| "ws_sum_loop xs acc i (Suc n) = do {
     x \<leftarrow> mem_rd (Some xs) i;
     acc' \<leftarrow> int64_of (acc + x);
     ws_sum_loop xs acc' (i + 1) n
   }"

definition ws_min :: "window_stats \<Rightarrow> int option" where
  "ws_min s =
     (if ws_count s = 0 then Some 0
      else do {
        first \<leftarrow> mem_rd (Some (ws_samples s)) 0;
        ws_min_loop (ws_samples s) first 1 (ws_count s - 1)
      })"

definition ws_max :: "window_stats \<Rightarrow> int option" where
  "ws_max s =
     (if ws_count s = 0 then Some 0
      else do {
        first \<leftarrow> mem_rd (Some (ws_samples s)) 0;
        ws_max_loop (ws_samples s) first 1 (ws_count s - 1)
      })"

definition ws_average :: "window_stats \<Rightarrow> int option" where
  "ws_average s =
     (if ws_count s = 0 then Some 0
      else do {
        total \<leftarrow> ws_sum_loop (ws_samples s) 0 0 (ws_count s);
        Some (int32_cast (total sdiv int (ws_count s)))
      })"

section \<open>The window\<close>

text \<open>The samples of a window in the order they were pushed: \<open>i\<close> is the next slot to be written.\<close>

definition window_of :: "int list \<Rightarrow> nat \<Rightarrow> nat \<Rightarrow> int list" where
  "window_of xs i n = (if n < length xs then take n xs else drop i xs @ take i xs)"

definition window_ok :: "int list \<Rightarrow> nat \<Rightarrow> nat \<Rightarrow> bool" where
  "window_ok xs i n \<longleftrightarrow>
     0 < length xs \<and> length xs \<le> 2147483648 \<and> i < length xs \<and> n \<le> length xs \<and> (n < length xs \<longrightarrow> i = n) \<and>
     (\<forall>x \<in> set (take n xs). int32_range x)"

lemma length_window_of: "window_ok xs i n \<Longrightarrow> length (window_of xs i n) = n"
  by (auto simp: window_ok_def window_of_def)

lemma set_window_of: "window_ok xs i n \<Longrightarrow> set (window_of xs i n) = set (take n xs)"
proof (cases "n < length xs")
  case False
  moreover assume "window_ok xs i n"
  ultimately have "n = length xs" by (simp add: window_ok_def)
  moreover have "set (take i xs) \<union> set (drop i xs) = set xs" by (metis append_take_drop_id set_append)
  ultimately show ?thesis by (auto simp: window_of_def)
qed (simp add: window_of_def)

lemma sum_window_of: "window_ok xs i n \<Longrightarrow> sum_list (window_of xs i n) = sum_list (take n xs)"
proof (cases "n < length xs")
  case False
  moreover assume "window_ok xs i n"
  ultimately have "n = length xs" by (simp add: window_ok_def)
  moreover have "sum_list (take i xs) + sum_list (drop i xs) = sum_list xs"
    by (metis append_take_drop_id sum_list_append)
  ultimately show ?thesis by (simp add: window_of_def)
qed (simp add: window_of_def)

text \<open>Writing the next sample drops the oldest one when the window is full.\<close>

lemma window_push:
  assumes ok: "window_ok xs i n" and x: "int32_range x"
  defines "n' \<equiv> (if n < length xs then n + 1 else n)" and "i' \<equiv> (i + 1) mod length xs"
  shows "window_ok (xs[i := x]) i' n'"
    "window_of (xs[i := x]) i' n' = keep_last (length xs) (window_of xs i n @ [x])"
proof -
  have b: "0 < length xs" "i < length xs" "n \<le> length xs" "n < length xs \<longrightarrow> i = n" using ok by (simp_all add: window_ok_def)
  have idx: "i' = (if i + 1 = length xs then 0 else i + 1)" using b(2) by (auto simp: i'_def)
  have sub: "set (take n' (xs[i := x])) \<subseteq> insert x (set (take n xs))"
  proof (cases "n < length xs")
    case True
    with b show ?thesis by (auto simp: n'_def take_Suc_conv_app_nth)
  next
    case False
    with b show ?thesis using set_update_subset_insert [of xs i x] by (simp add: n'_def)
  qed
  have "n' < length xs \<longrightarrow> i' = n'" using b idx by (auto simp: n'_def)
  then show "window_ok (xs[i := x]) i' n'"
    using ok x sub b idx by (auto simp: window_ok_def n'_def)
  show "window_of (xs[i := x]) i' n' = keep_last (length xs) (window_of xs i n @ [x])"
  proof (cases "n < length xs")
    case True
    then have "i = n" using b by simp
    with True idx have lhs: "window_of (xs[i := x]) i' n' = take (Suc n) (xs[n := x])"
      by (cases "Suc n = length xs") (simp_all add: window_of_def n'_def)
    have "take (Suc n) (xs[n := x]) = take n xs @ [x]" using True by (simp add: take_Suc_conv_app_nth)
    with True show ?thesis unfolding lhs by (simp add: window_of_def)
  next
    case False
    then have n: "n = length xs" using b by simp
    have dr: "drop i xs = xs ! i # drop (Suc i) xs" using b(2) by (rule Cons_nth_drop_Suc [symmetric])
    have tk: "take (Suc i) (xs[i := x]) = take i xs @ [x]" using b(2) by (simp add: take_Suc_conv_app_nth)
    have lhs: "window_of (xs[i := x]) i' n' = drop (Suc i) xs @ take i xs @ [x]"
    proof (cases "Suc i = length xs")
      case True
      then have "xs[i := x] = take i xs @ [x]" using tk by (metis length_list_update order_refl take_all)
      with True n idx show ?thesis by (simp add: window_of_def n'_def)
    next
      case False
      with n idx tk show ?thesis by (simp add: window_of_def n'_def)
    qed
    have "window_of xs i n = xs ! i # drop (Suc i) xs @ take i xs" using n dr by (simp add: window_of_def)
    moreover have "length (window_of xs i n) = length xs" using length_window_of [OF ok] n by simp
    ultimately show ?thesis unfolding lhs using keep_last_snoc [of "length xs" "window_of xs i n" x] b(1) by simp
  qed
qed

section \<open>Sums and extremes\<close>

text \<open>A sum of at most \<open>2 ^ 31\<close> 32-bit integers, plus or minus one more, fits in 64 bits.\<close>

lemma sum_bounds:
  "\<forall>x \<in> set xs. int32_range x \<Longrightarrow> \<bar>sum_list xs\<bar> \<le> 2147483648 * int (length xs)"
proof (induction xs)
  case (Cons x xs)
  then have "\<bar>x\<bar> \<le> 2147483648" "\<bar>sum_list xs\<bar> \<le> 2147483648 * int (length xs)" by (auto simp: int32_range_def)
  then show ?case by (simp add: algebra_simps)
qed simp

lemma sum_fits:
  assumes "\<forall>x \<in> set xs. int32_range x" "length xs \<le> 2147483649"
  shows "int64_of (sum_list xs) = Some (sum_list xs)"
proof -
  have "2147483648 * int (length xs) \<le> 2147483648 * 2147483649" using assms(2) by simp
  with sum_bounds [OF assms(1)] have "\<bar>sum_list xs\<bar> \<le> 2147483648 * 2147483649" by linarith
  then show ?thesis by (simp add: int64_of_def abs_le_iff)
qed

text \<open>The average of a list of numbers is between the least and the greatest one, so the final cast changes nothing.\<close>

lemma sdiv_bounds:
  assumes "0 < n" "lo * n \<le> x" "x \<le> hi * n"
  shows "lo \<le> x sdiv n" "x sdiv n \<le> (hi :: int)"
proof -
  have d: "x sdiv n = (if 0 \<le> x then x div n else - ((- x) div n))"
    using assms(1) by (simp add: signed_divide_int_def sgn_if)
  have ge: "lo \<le> x div n" "x div n \<le> hi"
    using assms by (simp_all add: zdiv_mono1 [of "lo * n" x n, simplified] zdiv_mono1 [of x "hi * n" n, simplified])
  show "lo \<le> x sdiv n"
  proof (cases "0 \<le> x")
    case False
    have "(- x) div n \<le> (- lo * n) div n" using assms by (intro zdiv_mono1) simp_all
    moreover have "(- lo * n) div n = - lo" using assms(1) by (intro nonzero_mult_div_cancel_right) simp
    ultimately show ?thesis using False by (simp add: d)
  qed (simp add: d ge)
  show "x sdiv n \<le> hi"
  proof (cases "0 \<le> x")
    case False
    have "(- hi * n) div n \<le> (- x) div n" using assms by (intro zdiv_mono1) simp_all
    moreover have "(- hi * n) div n = - hi" using assms(1) by (intro nonzero_mult_div_cancel_right) simp
    ultimately show ?thesis using False by (simp add: d)
  qed (simp add: d ge)
qed

lemma sum_list_bounds:
  "(\<forall>x \<in> set xs. lo \<le> x \<and> x \<le> hi) \<Longrightarrow> lo * int (length xs) \<le> sum_list xs \<and> sum_list xs \<le> (hi :: int) * int (length xs)"
  by (induction xs) (auto simp: algebra_simps)

lemma average_bounds:
  assumes "xs \<noteq> []" "\<forall>x \<in> set xs. int32_range x"
  shows "int32_cast (sum_list xs sdiv int (length xs)) = sum_list xs sdiv int (length xs)"
    "Min (set xs) \<le> sum_list xs sdiv int (length xs)" "sum_list xs sdiv int (length xs) \<le> Max (set xs)"
proof -
  have n: "0 < int (length xs)" using assms(1) by simp
  have "\<forall>x \<in> set xs. Min (set xs) \<le> x \<and> x \<le> Max (set xs)" by simp
  from sum_list_bounds [OF this] sdiv_bounds [OF n]
  show m: "Min (set xs) \<le> sum_list xs sdiv int (length xs)" "sum_list xs sdiv int (length xs) \<le> Max (set xs)" by blast+
  have "int32_range (Min (set xs))" "int32_range (Max (set xs))" using assms by simp_all
  with m show "int32_cast (sum_list xs sdiv int (length xs)) = sum_list xs sdiv int (length xs)"
    by (intro int32_cast_range) (auto simp: int32_range_def)
qed

lemma ws_min_loop_ok:
  "i + n \<le> length xs \<Longrightarrow> ws_min_loop xs m i n = Some (Min (insert m (set (take n (drop i xs)))))"
proof (induction n arbitrary: i m)
  case (Suc n)
  then have dr: "drop i xs = xs ! i # drop (Suc i) xs" by (intro Cons_nth_drop_Suc [symmetric]) simp
  have "Min (insert m (insert (xs ! i) S)) = Min (insert (if xs ! i < m then xs ! i else m) S)" if "finite S" for S
    using that by (cases "S = {}") (auto simp: min_def)
  with Suc show ?case by (simp add: dr)
qed simp

lemma ws_max_loop_ok:
  "i + n \<le> length xs \<Longrightarrow> ws_max_loop xs m i n = Some (Max (insert m (set (take n (drop i xs)))))"
proof (induction n arbitrary: i m)
  case (Suc n)
  then have dr: "drop i xs = xs ! i # drop (Suc i) xs" by (intro Cons_nth_drop_Suc [symmetric]) simp
  have "Max (insert m (insert (xs ! i) S)) = Max (insert (if xs ! i > m then xs ! i else m) S)" if "finite S" for S
    using that by (cases "S = {}") (auto simp: max_def)
  with Suc show ?case by (simp add: dr)
qed simp

lemma ws_sum_loop_ok:
  assumes "\<forall>x \<in> set (take (i + n) xs). int32_range x" "i + n \<le> length xs" "length xs \<le> 2147483648"
  shows "ws_sum_loop xs (sum_list (take i xs)) i n = Some (sum_list (take (i + n) xs))"
  using assms
proof (induction n arbitrary: i)
  case (Suc n)
  have i: "i < length xs" using Suc.prems(2) by simp
  have step: "sum_list (take i xs) + xs ! i = sum_list (take (Suc i) xs)" using i by (simp add: take_Suc_conv_app_nth)
  have "set (take (Suc i) xs) \<subseteq> set (take (i + Suc n) xs)" by (rule set_take_subset_set_take) simp
  then have "\<forall>x \<in> set (take (Suc i) xs). int32_range x" using Suc.prems(1) by blast
  moreover have "length (take (Suc i) xs) \<le> 2147483649" using Suc.prems(2,3) by simp
  ultimately have "int64_of (sum_list (take (Suc i) xs)) = Some (sum_list (take (Suc i) xs))" by (rule sum_fits)
  with Suc.IH [of "Suc i"] Suc.prems i step show ?case by simp
qed simp

section \<open>Runs\<close>

definition ma_ok :: "moving_average \<Rightarrow> bool" where
  "ma_ok s \<longleftrightarrow> window_ok (ma_samples s) (ma_index s) (ma_count s) \<and> ma_sum s = sum_list (take (ma_count s) (ma_samples s))"

abbreviation ma_window :: "moving_average \<Rightarrow> int list" where
  "ma_window s \<equiv> window_of (ma_samples s) (ma_index s) (ma_count s)"

definition ws_ok :: "window_stats \<Rightarrow> bool" where
  "ws_ok s \<longleftrightarrow> window_ok (ws_samples s) (ws_index s) (ws_count s)"

abbreviation ws_window :: "window_stats \<Rightarrow> int list" where
  "ws_window s \<equiv> window_of (ws_samples s) (ws_index s) (ws_count s)"

lemma window_index:
  assumes "window_ok xs i n"
  shows "sz_add i 1 = i + 1" "n < length xs \<Longrightarrow> sz_add n 1 = n + 1"
  using assms by (auto simp: window_ok_def sz_add_eq SIZE_MAX_def)

lemma ma_push_ok:
  assumes ok: "ma_ok s" and x: "int32_range x"
  shows "\<exists>s'. ma_push s x = Some (Ok, s') \<and> ma_ok s' \<and> length (ma_samples s') = length (ma_samples s) \<and>
    ma_window s' = keep_last (length (ma_samples s)) (ma_window s @ [x])"
proof -
  let ?xs = "ma_samples s" and ?i = "ma_index s" and ?n = "ma_count s"
  have w: "window_ok ?xs ?i ?n" and total: "ma_sum s = sum_list (take ?n ?xs)" using ok by (simp_all add: ma_ok_def)
  have b: "0 < length ?xs" "length ?xs \<le> 2147483648" "?i < length ?xs" "?n \<le> length ?xs" "?n < length ?xs \<longrightarrow> ?i = ?n"
    "\<forall>y \<in> set (take ?n ?xs). int32_range y"
    using w by (simp_all add: window_ok_def)
  note push = window_push [OF w x] and idx = window_index [OF w]
  have sums: "ma_sum s = sum_list (ma_window s)" using total sum_window_of [OF w] by simp
  have range: "\<forall>y \<in> set (ma_window s). int32_range y" using set_window_of [OF w] b(6) by simp
  have len: "length (ma_window s) = ?n" using w by (rule length_window_of)
  show ?thesis
  proof (cases "?n < length ?xs")
    case True
    let ?s = "s\<lparr>ma_samples := ?xs[?i := x], ma_sum := ma_sum s + x, ma_count := ?n + 1, ma_index := (?i + 1) mod length ?xs\<rparr>"
    from True b len have keep: "keep_last (length ?xs) (ma_window s @ [x]) = ma_window s @ [x]" by simp
    have fits: "int64_of (ma_sum s + x) = Some (ma_sum s + x)"
      using sum_fits [of "ma_window s @ [x]"] range x len b sums by simp
    have "ma_push s x = Some (Ok, ?s)" using True b fits idx by (simp add: ma_push_def Let_def)
    moreover have "sum_list (take (?n + 1) (?xs[?i := x])) = sum_list (ma_window s) + x"
      using sum_window_of [OF push(1)] push(2) True keep by simp
    ultimately show ?thesis using push True keep sums by (intro exI [of _ ?s]) (simp add: ma_ok_def)
  next
    case False
    then have n: "?n = length ?xs" using b by simp
    let ?s = "s\<lparr>ma_samples := ?xs[?i := x], ma_sum := ma_sum s - ?xs ! ?i + x, ma_index := (?i + 1) mod length ?xs\<rparr>"
    have split: "ma_window s = ?xs ! ?i # drop (Suc ?i) ?xs @ take ?i ?xs"
      using n b(3) by (simp add: window_of_def Cons_nth_drop_Suc)
    have keep: "keep_last (length ?xs) (ma_window s @ [x]) = tl (ma_window s) @ [x]"
      using len n b(1) by (intro keep_last_snoc) simp_all
    have less: "ma_sum s - ?xs ! ?i = sum_list (tl (ma_window s))" using sums split by simp
    have "set (tl (ma_window s)) \<subseteq> set (ma_window s)" using split by auto
    then have r: "\<forall>y \<in> set (tl (ma_window s)). int32_range y" using range by blast
    have f1: "int64_of (ma_sum s - ?xs ! ?i) = Some (ma_sum s - ?xs ! ?i)"
      unfolding less by (rule sum_fits [OF r]) (use len b in simp)
    have f2: "int64_of (ma_sum s - ?xs ! ?i + x) = Some (ma_sum s - ?xs ! ?i + x)"
      using sum_fits [of "tl (ma_window s) @ [x]"] r x len b less by simp
    have "ma_push s x = Some (Ok, ?s)" using False b f1 f2 idx by (simp add: ma_push_def Let_def)
    moreover have "sum_list (take ?n (?xs[?i := x])) = ma_sum s - ?xs ! ?i + x"
      using sum_window_of [OF push(1)] push(2) False keep less by simp
    ultimately show ?thesis using push False by (intro exI [of _ ?s]) (simp add: ma_ok_def)
  qed
qed

lemma ws_push_ok:
  assumes ok: "ws_ok s" and x: "int32_range x"
  shows "\<exists>s'. ws_push s x = Some (Ok, s') \<and> ws_ok s' \<and> length (ws_samples s') = length (ws_samples s) \<and>
    ws_window s' = keep_last (length (ws_samples s)) (ws_window s @ [x])"
proof -
  have w: "window_ok (ws_samples s) (ws_index s) (ws_count s)" using ok by (simp add: ws_ok_def)
  from w have "0 < length (ws_samples s)" "ws_index s < length (ws_samples s)" by (simp_all add: window_ok_def)
  with window_push [OF w x] window_index [OF w] show ?thesis
    by (cases "ws_count s < length (ws_samples s)") (simp_all add: ws_push_def Let_def ws_ok_def)
qed

fun pushes :: "('s \<Rightarrow> int \<Rightarrow> (status \<times> 's) option) \<Rightarrow> 's \<Rightarrow> int list \<Rightarrow> 's option" where
  "pushes push s [] = Some s"
| "pushes push s (x # xs) = do {
     (st, s1) \<leftarrow> push s x;
     if st \<noteq> Ok then None else pushes push s1 xs
   }"

lemma ma_pushes_ok:
  assumes "ma_ok s" "\<forall>x \<in> set xs. int32_range x"
  shows "\<exists>s'. pushes ma_push s xs = Some s' \<and> ma_ok s' \<and> ma_window s' = keep_last (length (ma_samples s)) (ma_window s @ xs)"
  using assms
proof (induction xs arbitrary: s)
  case Nil
  then have "window_ok (ma_samples s) (ma_index s) (ma_count s)" by (simp add: ma_ok_def)
  with Nil show ?case using length_window_of by (auto simp: window_ok_def)
next
  case (Cons x xs)
  from ma_push_ok [of s x] Cons.prems obtain s1 where s1: "ma_push s x = Some (Ok, s1)" "ma_ok s1"
    "length (ma_samples s1) = length (ma_samples s)" "ma_window s1 = keep_last (length (ma_samples s)) (ma_window s @ [x])" by auto
  from Cons.IH [OF s1(2)] Cons.prems s1 keep_last_append [of "length (ma_samples s)" "ma_window s @ [x]" xs] show ?case by auto
qed

lemma ws_pushes_ok:
  assumes "ws_ok s" "\<forall>x \<in> set xs. int32_range x"
  shows "\<exists>s'. pushes ws_push s xs = Some s' \<and> ws_ok s' \<and> ws_window s' = keep_last (length (ws_samples s)) (ws_window s @ xs)"
  using assms
proof (induction xs arbitrary: s)
  case Nil
  then have "window_ok (ws_samples s) (ws_index s) (ws_count s)" by (simp add: ws_ok_def)
  with Nil show ?case using length_window_of by (auto simp: window_ok_def)
next
  case (Cons x xs)
  from ws_push_ok [of s x] Cons.prems obtain s1 where s1: "ws_push s x = Some (Ok, s1)" "ws_ok s1"
    "length (ws_samples s1) = length (ws_samples s)" "ws_window s1 = keep_last (length (ws_samples s)) (ws_window s @ [x])" by auto
  from Cons.IH [OF s1(2)] Cons.prems s1 keep_last_append [of "length (ws_samples s)" "ws_window s @ [x]" xs] show ?case by auto
qed

lemma ma_average_ok: "ma_ok s \<Longrightarrow> ma_window s \<noteq> [] \<Longrightarrow>
    ma_average s = sum_list (ma_window s) sdiv int (length (ma_window s))"
proof -
  assume ok: "ma_ok s" and ne: "ma_window s \<noteq> []"
  then have w: "window_ok (ma_samples s) (ma_index s) (ma_count s)" by (simp add: ma_ok_def)
  have "\<forall>x \<in> set (ma_window s). int32_range x" using set_window_of [OF w] w by (simp add: window_ok_def)
  from average_bounds(1) [OF ne this] ok ne sum_window_of [OF w] length_window_of [OF w] show ?thesis
    by (auto simp: ma_average_def ma_ok_def)
qed

lemma ws_results_ok:
  assumes ok: "ws_ok s" and ne: "ws_window s \<noteq> []"
  shows "ws_min s = Some (Min (set (ws_window s)))" "ws_max s = Some (Max (set (ws_window s)))"
    "ws_average s = Some (sum_list (ws_window s) sdiv int (length (ws_window s)))"
proof -
  let ?xs = "ws_samples s" and ?n = "ws_count s"
  have w: "window_ok ?xs (ws_index s) ?n" using ok by (simp add: ws_ok_def)
  have len: "length (ws_window s) = ?n" using w by (rule length_window_of)
  from ne have "length (ws_window s) \<noteq> 0" by simp
  with len have n: "0 < ?n" by simp
  then obtain m where m: "?n = Suc m" by (cases ?n) auto
  have b: "?n \<le> length ?xs" "length ?xs \<le> 2147483648" "\<forall>x \<in> set (take ?n ?xs). int32_range x" using w by (simp_all add: window_ok_def)
  have first: "mem_rd (Some ?xs) 0 = Some (?xs ! 0)" using n b(1) by (intro mem_rd_Some) linarith
  have "drop 0 ?xs = ?xs ! 0 # drop (Suc 0) ?xs" using n b(1) by (intro Cons_nth_drop_Suc [symmetric]) linarith
  then have tk: "set (take ?n ?xs) = insert (?xs ! 0) (set (take m (drop (Suc 0) ?xs)))" by (simp add: m) (metis list.simps(15) take_Suc_Cons)
  show "ws_min s = Some (Min (set (ws_window s)))"
    using ws_min_loop_ok [of 1 m ?xs "?xs ! 0"] b first tk set_window_of [OF w] by (simp add: ws_min_def m)
  show "ws_max s = Some (Max (set (ws_window s)))"
    using ws_max_loop_ok [of 1 m ?xs "?xs ! 0"] b first tk set_window_of [OF w] by (simp add: ws_max_def m)
  have "\<forall>x \<in> set (ws_window s). int32_range x" using set_window_of [OF w] b(3) by simp
  from average_bounds(1) [OF ne this] ws_sum_loop_ok [of 0 ?n ?xs] b n len sum_window_of [OF w]
  show "ws_average s = Some (sum_list (ws_window s) sdiv int (length (ws_window s)))" by (simp add: ws_average_def)
qed

section \<open>Properties\<close>

text \<open> C35.
  The running sums and rings of samples compute what they say: after any 32-bit samples, the averages are the sum of the last \<open>N\<close> samples divided by
  their number, rounded towards zero, without an overflow for any window of up to \<open>2 ^ 31\<close> samples, and the
  extremes are those of the last \<open>N\<close> samples; the average lies between them.
\<close>

theorem running_stats_of_window:
  assumes "0 < N" "N \<le> 2147483648" "xs \<noteq> []" "\<forall>x \<in> set xs. int32_range x"
  defines "w \<equiv> keep_last N xs"
  shows "\<exists>a s. pushes ma_push (ma_construct N) xs = Some a \<and> pushes ws_push (ws_construct N) xs = Some s \<and>
    ma_average a = sum_list w sdiv int (length w) \<and> ws_average s = Some (ma_average a) \<and>
    ws_min s = Some (Min (set w)) \<and> ws_max s = Some (Max (set w)) \<and>
    Min (set w) \<le> ma_average a \<and> ma_average a \<le> Max (set w)"
proof -
  have a0: "ma_ok (ma_construct N)" "ma_window (ma_construct N) = []" "length (ma_samples (ma_construct N)) = N"
    and s0: "ws_ok (ws_construct N)" "ws_window (ws_construct N) = []" "length (ws_samples (ws_construct N)) = N"
    using assms(1,2) by (simp_all add: ma_ok_def ws_ok_def ma_construct_def ws_construct_def window_ok_def window_of_def)
  have ne: "w \<noteq> []" and range: "\<forall>x \<in> set w. int32_range x"
    using assms(1,3,4) keep_last_nonempty [of N xs] set_keep_last [of N xs] by (auto simp: w_def)
  from ma_pushes_ok [OF a0(1) assms(4)] a0 obtain a where a: "pushes ma_push (ma_construct N) xs = Some a" "ma_ok a" "ma_window a = w"
    by (auto simp: w_def)
  from ws_pushes_ok [OF s0(1) assms(4)] s0 obtain s where s: "pushes ws_push (ws_construct N) xs = Some s" "ws_ok s" "ws_window s = w"
    by (auto simp: w_def)
  from ma_average_ok [OF a(2)] ws_results_ok [OF s(2)] average_bounds(2,3) [OF ne range] a s ne show ?thesis by auto
qed

theorem running_stats_of_window_witness:
  "\<exists>a s. pushes ma_push (ma_construct 2) [10, - 20, - 25] = Some a \<and> pushes ws_push (ws_construct 2) [10, - 20, - 25] = Some s \<and>
    ma_average a = - 22 \<and> ws_min s = Some (- 25) \<and> ws_max s = Some (- 20)"
  using running_stats_of_window [of 2 "[10, - 20, - 25]"]
  by (auto simp: keep_last_def int32_range_def signed_divide_int_def)

end
