(* ===== verification/Lookup_Table.thy ===== *)
theory Lookup_Table
  imports Running_Stats
begin

text \<open>
  \<^verbatim>\<open>include/memkit/containers/lookup_table.hpp\<close>: a table of increasing keys with interpolation, for
  \<open>X\<close> = \<open>Y\<close> = \<^verbatim>\<open>std::int32_t\<close>. An overflow of the subtraction, multiplication or
  addition of two \<^verbatim>\<open>int\<close>s is undefined, and so is an access outside the arrays.
\<close>

section \<open>Model\<close>

datatype lookup_mode = Interpolate | Nearest | Exact

record lookup_table =
  lt_keys :: "int mem"
  lt_values :: "int mem"
  lt_count :: nat
  lt_mode :: lookup_mode

definition lookup_table_init ::
  "lookup_table \<Rightarrow> int mem \<Rightarrow> int mem \<Rightarrow> nat \<Rightarrow> lookup_mode \<Rightarrow> status \<times> lookup_table" where
  "lookup_table_init s keys vals count mode =
     (if keys = None \<or> vals = None \<or> count = 0 then (Invalid, s)
      else (Ok, s\<lparr>lt_keys := keys, lt_values := vals, lt_count := count, lt_mode := mode\<rparr>))"

text \<open>Arithmetic of \<^verbatim>\<open>int\<close>, and division rounding towards zero (the divisors here are positive).\<close>

definition int32_of :: "int \<Rightarrow> int option" where
  "int32_of x = (if int32_range x then Some x else None)"

text \<open>The bisection, from \<open>lo\<close> and \<open>hi\<close>.\<close>

function lookup_bisect :: "int mem \<Rightarrow> int \<Rightarrow> nat \<Rightarrow> nat \<Rightarrow> (nat \<times> nat) option" where
  "lookup_bisect keys x lo hi =
     (if lo + 1 < hi then
        let mid = lo + drop_bit 1 (hi - lo) in do {
          k \<leftarrow> mem_rd keys mid;
          if k \<le> x then lookup_bisect keys x mid hi else lookup_bisect keys x lo mid
        }
      else Some (lo, hi))"
  by pat_completeness auto
termination
  by (relation "measure (\<lambda>(keys, x, lo, hi). hi - lo)") (auto simp: drop_bit_eq_div)

declare lookup_bisect.simps [simp del]

definition lookup_interpolate :: "int \<Rightarrow> int \<Rightarrow> int \<Rightarrow> int \<Rightarrow> int \<Rightarrow> int option" where
  "lookup_interpolate x0 y0 x1 y1 x =
     (if x1 = x0 then Some y0
      else do {
        numer \<leftarrow> int32_of (x - x0);
        denom \<leftarrow> int32_of (x1 - x0);
        delta \<leftarrow> int32_of (y1 - y0);
        prod \<leftarrow> int32_of (delta * numer);
        int32_of (y0 + prod sdiv denom)
      })"

definition lookup_at :: "lookup_table \<Rightarrow> int \<Rightarrow> int option" where
  "lookup_at s x =
     (if lt_count s = 0 then Some 0
      else if lt_count s = 1 then mem_rd (lt_values s) 0
      else do {
        first \<leftarrow> mem_rd (lt_keys s) 0;
        if x \<le> first then mem_rd (lt_values s) 0
        else do {
          final \<leftarrow> mem_rd (lt_keys s) (lt_count s - 1);
          if x \<ge> final then mem_rd (lt_values s) (lt_count s - 1)
          else do {
            (lo, hi) \<leftarrow> lookup_bisect (lt_keys s) x 0 (lt_count s - 1);
            k_lo \<leftarrow> mem_rd (lt_keys s) lo;
            k_hi \<leftarrow> mem_rd (lt_keys s) hi;
            y_lo \<leftarrow> mem_rd (lt_values s) lo;
            y_hi \<leftarrow> mem_rd (lt_values s) hi;
            (case lt_mode s of
               Nearest \<Rightarrow> do {
                 dx_lo \<leftarrow> int32_of (x - k_lo);
                 dx_hi \<leftarrow> int32_of (k_hi - x);
                 Some (if dx_hi < dx_lo then y_hi else y_lo)
               }
             | Exact \<Rightarrow> Some (if k_lo = x then y_lo else if k_hi = x then y_hi else 0)
             | Interpolate \<Rightarrow> lookup_interpolate k_lo y_lo k_hi y_hi x)
          }
        }
      })"

text \<open>The search of \<open>lookup\<close> in exact mode: the value of the first equal key, with \<open>n\<close> keys to go.\<close>

fun lookup_exact_loop :: "lookup_table \<Rightarrow> int \<Rightarrow> nat \<Rightarrow> nat \<Rightarrow> int option option" where
  "lookup_exact_loop s key i 0 = Some None"
| "lookup_exact_loop s key i (Suc n) = do {
     k \<leftarrow> mem_rd (lt_keys s) i;
     if k = key then map_option Some (mem_rd (lt_values s) i) else lookup_exact_loop s key (i + 1) n
   }"

definition lookup_lookup :: "lookup_table \<Rightarrow> int \<Rightarrow> int \<Rightarrow> (status \<times> int) option" where
  "lookup_lookup s key out =
     (if lt_count s = 0 then Some (Invalid, out)
      else if lt_mode s = Exact then do {
        found \<leftarrow> lookup_exact_loop s key 0 (lt_count s);
        Some (case found of Some v \<Rightarrow> (Ok, v) | None \<Rightarrow> (Not_found, out))
      }
      else do {
        v \<leftarrow> lookup_at s key;
        Some (Ok, v)
      })"

section \<open>Bisection\<close>

definition table_ok :: "lookup_table \<Rightarrow> int list \<Rightarrow> int list \<Rightarrow> bool" where
  "table_ok s ks vs \<longleftrightarrow>
     lt_keys s = Some ks \<and> lt_values s = Some vs \<and> lt_count s = length ks \<and> length vs = length ks \<and> ks \<noteq> [] \<and>
     sorted_wrt (<) ks \<and> (\<forall>k \<in> set ks. int32_range k) \<and> (\<forall>v \<in> set vs. int32_range v)"

lemma lookup_bisect_ok:
  assumes "lo < hi" "hi < length ks" "ks ! lo \<le> x" "x < ks ! hi"
  shows "\<exists>i. lookup_bisect (Some ks) x lo hi = Some (i, Suc i) \<and> Suc i < length ks \<and> ks ! i \<le> x \<and> x < ks ! Suc i"
  using assms
proof (induction "hi - lo" arbitrary: lo hi rule: less_induct)
  case less
  show ?case
  proof (cases "lo + 1 < hi")
    case False
    with less.prems(1) have "hi = Suc lo" by simp
    with less.prems show ?thesis by (intro exI [of _ lo]) (simp add: lookup_bisect.simps [of _ _ lo])
  next
    case True
    define mid where "mid = lo + drop_bit 1 (hi - lo)"
    have mid: "lo < mid" "mid < hi" using True by (auto simp: mid_def drop_bit_eq_div)
    have rd: "mem_rd (Some ks) mid = Some (ks ! mid)" using mid less.prems by simp
    have step: "lookup_bisect (Some ks) x lo hi =
        (if ks ! mid \<le> x then lookup_bisect (Some ks) x mid hi else lookup_bisect (Some ks) x lo mid)"
      using True rd by (simp add: lookup_bisect.simps [of _ _ lo] mid_def Let_def)
    show ?thesis
    proof (cases "ks ! mid \<le> x")
      case True
      with less.hyps [of hi mid] less.prems mid show ?thesis unfolding step by simp
    next
      case False
      with less.hyps [of mid lo] less.prems mid show ?thesis unfolding step by simp
    qed
  qed
qed

lemma sdiv_between:
  assumes "0 < d" "0 \<le> n" "n \<le> (d :: int)"
  shows "min 0 e \<le> e * n sdiv d" "e * n sdiv d \<le> max 0 e"
proof -
  have "min 0 e * d \<le> e * n \<and> e * n \<le> max 0 e * d"
  proof (cases "0 \<le> e")
    case True
    with assms show ?thesis by (simp add: mult_left_mono)
  next
    case False
    then have "e * d \<le> e * n" "e * n \<le> 0" using assms by (simp_all add: mult_left_mono_neg mult_nonpos_nonneg)
    with False show ?thesis by simp
  qed
  with sdiv_bounds [of d "min 0 e" "e * n" "max 0 e"] assms(1)
  show "min 0 e \<le> e * n sdiv d" "e * n sdiv d \<le> max 0 e" by blast+
qed

text \<open>
  The value at \<open>x\<close> between the keys at \<open>i\<close> and \<open>i + 1\<close>, on the line through the two points, rounded towards the value
  at \<open>i\<close>.
\<close>

definition on_line :: "int list \<Rightarrow> int list \<Rightarrow> nat \<Rightarrow> int \<Rightarrow> int" where
  "on_line ks vs i x = vs ! i + (vs ! Suc i - vs ! i) * (x - ks ! i) sdiv (ks ! Suc i - ks ! i)"

lemma lookup_interpolate_ok:
  assumes "x0 \<le> x" "x < x1" and r: "int32_range (x1 - x0)" "int32_range y0" "int32_range y1" "int32_range (y1 - y0)"
    "int32_range ((y1 - y0) * (x - x0))"
  shows "lookup_interpolate x0 y0 x1 y1 x = Some (y0 + (y1 - y0) * (x - x0) sdiv (x1 - x0))"
    "min y0 y1 \<le> y0 + (y1 - y0) * (x - x0) sdiv (x1 - x0)" "y0 + (y1 - y0) * (x - x0) sdiv (x1 - x0) \<le> max y0 y1"
proof -
  from sdiv_between [of "x1 - x0" "x - x0" "y1 - y0"] assms(1,2)
  show b: "min y0 y1 \<le> y0 + (y1 - y0) * (x - x0) sdiv (x1 - x0)" "y0 + (y1 - y0) * (x - x0) sdiv (x1 - x0) \<le> max y0 y1"
    by (auto simp: min_def max_def split: if_splits)
  have "int32_range (x - x0)" using assms(1,2) r(1) by (auto simp: int32_range_def)
  moreover have "int32_range (y0 + (y1 - y0) * (x - x0) sdiv (x1 - x0))" using b r(2,3) by (auto simp: int32_range_def)
  ultimately show "lookup_interpolate x0 y0 x1 y1 x = Some (y0 + (y1 - y0) * (x - x0) sdiv (x1 - x0))"
    using assms by (simp add: lookup_interpolate_def int32_of_def)
qed

text \<open>Between two neighbouring keys \<open>at\<close> reads both points.\<close>

lemma lookup_at_between:
  assumes ok: "table_ok s ks vs" and x: "hd ks < x" "x < List.last ks"
  shows "\<exists>i. Suc i < length ks \<and> ks ! i \<le> x \<and> x < ks ! Suc i \<and>
    lookup_at s x = (case lt_mode s of
       Nearest \<Rightarrow> do {
         dx_lo \<leftarrow> int32_of (x - ks ! i);
         dx_hi \<leftarrow> int32_of (ks ! Suc i - x);
         Some (if dx_hi < dx_lo then vs ! Suc i else vs ! i)
       }
     | Exact \<Rightarrow> Some (if ks ! i = x then vs ! i else 0)
     | Interpolate \<Rightarrow> lookup_interpolate (ks ! i) (vs ! i) (ks ! Suc i) (vs ! Suc i) x)"
proof -
  from ok have t: "lt_keys s = Some ks" "lt_values s = Some vs" "lt_count s = length ks" "length vs = length ks" "ks \<noteq> []"
    by (simp_all add: table_ok_def)
  have ends: "hd ks = ks ! 0" "List.last ks = ks ! (length ks - 1)" using t(5) by (simp_all add: hd_conv_nth last_conv_nth)
  have len: "1 < length ks"
  proof (rule ccontr)
    assume "\<not> 1 < length ks"
    with t(5) have "length ks = 1" by (cases ks) auto
    with x ends show False by simp
  qed
  have "0 < length ks - 1" "length ks - 1 < length ks" "ks ! 0 \<le> x" "x < ks ! (length ks - 1)" using len x ends by simp_all
  from lookup_bisect_ok [OF this] obtain i where
    i: "lookup_bisect (Some ks) x 0 (length ks - 1) = Some (i, Suc i)" "Suc i < length ks" "ks ! i \<le> x" "x < ks ! Suc i"
    by blast
  have rd: "mem_rd (Some ks) 0 = Some (ks ! 0)" "mem_rd (Some ks) (length ks - 1) = Some (ks ! (length ks - 1))"
    "mem_rd (Some ks) i = Some (ks ! i)" "mem_rd (Some ks) (Suc i) = Some (ks ! Suc i)"
    "mem_rd (Some vs) i = Some (vs ! i)" "mem_rd (Some vs) (Suc i) = Some (vs ! Suc i)"
    using len i(2) t(4) by (intro mem_rd_Some; linarith)+
  show ?thesis
    using len x ends i rd t by (intro exI [of _ i]) (simp add: lookup_at_def split: lookup_mode.split)
qed

lemma lookup_at_ends:
  assumes ok: "table_ok s ks vs"
  shows "x \<le> hd ks \<Longrightarrow> lookup_at s x = Some (hd vs)" "List.last ks \<le> x \<Longrightarrow> lookup_at s x = Some (List.last vs)"
proof -
  from ok have t: "lt_keys s = Some ks" "lt_values s = Some vs" "lt_count s = length ks" "length vs = length ks" "ks \<noteq> []"
    "sorted_wrt (<) ks" by (simp_all add: table_ok_def)
  have ne: "vs \<noteq> []" using t(4,5) by auto
  have len: "0 < length ks" "length ks - 1 < length ks" using t(5) by simp_all
  have ends: "hd ks = ks ! 0" "List.last ks = ks ! (length ks - 1)" "hd vs = vs ! 0" "List.last vs = vs ! (length ks - 1)"
    using t(4,5) ne by (simp_all add: hd_conv_nth last_conv_nth)
  have rd: "mem_rd (Some ks) 0 = Some (ks ! 0)" "mem_rd (Some ks) (length ks - 1) = Some (ks ! (length ks - 1))"
    "mem_rd (Some vs) 0 = Some (vs ! 0)" "mem_rd (Some vs) (length ks - 1) = Some (vs ! (length ks - 1))"
    using len t(4) by (intro mem_rd_Some; linarith)+
  show "lookup_at s x = Some (hd vs)" if "x \<le> hd ks"
    using that t ends rd len by (simp add: lookup_at_def)
  show "lookup_at s x = Some (List.last vs)" if x: "List.last ks \<le> x"
  proof (cases "length ks = 1")
    case True
    with t rd ends show ?thesis by (simp add: lookup_at_def)
  next
    case False
    with len(1) have "0 < length ks - 1" by linarith
    then have "ks ! 0 < ks ! (length ks - 1)" using t(6) len(2) by (intro sorted_wrt_nth_less [of "(<)"])
    with x t ends rd False len show ?thesis by (simp add: lookup_at_def)
  qed
qed

text \<open>No step of the interpolation overflows on this table.\<close>

definition interpolation_fits :: "int list \<Rightarrow> int list \<Rightarrow> bool" where
  "interpolation_fits ks vs \<longleftrightarrow>
     (\<forall>i. Suc i < length ks \<longrightarrow> int32_range (ks ! Suc i - ks ! i) \<and> int32_range (vs ! Suc i - vs ! i) \<and>
        int32_range ((vs ! Suc i - vs ! i) * (ks ! Suc i - ks ! i)))"

lemma product_range:
  assumes "int32_range (e * d)" "0 \<le> n" "n \<le> (d :: int)"
  shows "int32_range (e * n)"
proof (cases "0 \<le> e")
  case True
  then have "0 \<le> e * n" "e * n \<le> e * d" using assms(2,3) by (simp_all add: mult_left_mono)
  with assms(1) show ?thesis by (simp add: int32_range_def)
next
  case False
  then have "e * d \<le> e * n" "e * n \<le> 0" using assms(2,3) by (simp_all add: mult_left_mono_neg mult_nonpos_nonneg)
  with assms(1) show ?thesis by (simp add: int32_range_def)
qed

lemma lookup_at_interpolates:
  assumes ok: "table_ok s ks vs" and m: "lt_mode s = Interpolate" and fits: "interpolation_fits ks vs"
    and x: "hd ks < x" "x < List.last ks"
  shows "\<exists>i. Suc i < length ks \<and> ks ! i \<le> x \<and> x < ks ! Suc i \<and> lookup_at s x = Some (on_line ks vs i x) \<and>
    min (vs ! i) (vs ! Suc i) \<le> on_line ks vs i x \<and> on_line ks vs i x \<le> max (vs ! i) (vs ! Suc i)"
proof -
  from lookup_at_between [OF ok x] m obtain i where i: "Suc i < length ks" "ks ! i \<le> x" "x < ks ! Suc i"
    "lookup_at s x = lookup_interpolate (ks ! i) (vs ! i) (ks ! Suc i) (vs ! Suc i) x" by auto
  from fits i(1) have r: "int32_range (ks ! Suc i - ks ! i)" "int32_range (vs ! Suc i - vs ! i)"
    "int32_range ((vs ! Suc i - vs ! i) * (ks ! Suc i - ks ! i))" by (simp_all add: interpolation_fits_def)
  have "vs ! i \<in> set vs" "vs ! Suc i \<in> set vs" using ok i(1) by (simp_all add: table_ok_def)
  then have v: "int32_range (vs ! i)" "int32_range (vs ! Suc i)" using ok by (simp_all add: table_ok_def)
  have p: "int32_range ((vs ! Suc i - vs ! i) * (x - ks ! i))" using i(2,3) by (intro product_range [OF r(3)]) simp_all
  from lookup_interpolate_ok [OF i(2,3) r(1) v r(2) p] i show ?thesis by (intro exI [of _ i]) (simp add: on_line_def)
qed

lemma lookup_exact_loop_ok:
  assumes "table_ok s ks vs" "i + n = length ks"
  shows "lookup_exact_loop s key i n =
    Some (if key \<in> set (drop i ks) then map_of (zip (drop i ks) (drop i vs)) key else None)"
  using assms(2)
proof (induction n arbitrary: i)
  case (Suc n)
  have i: "i < length ks" "i < length vs" using Suc.prems assms(1) by (simp_all add: table_ok_def)
  have dr: "drop i ks = ks ! i # drop (Suc i) ks" "drop i vs = vs ! i # drop (Suc i) vs"
    using i by (simp_all add: Cons_nth_drop_Suc)
  have rd: "mem_rd (lt_keys s) i = Some (ks ! i)" "mem_rd (lt_values s) i = Some (vs ! i)"
    using assms(1) i by (simp_all add: table_ok_def)
  from Suc.prems have n: "Suc i + n = length ks" by simp
  show ?case
  proof (cases "ks ! i = key")
    case True
    then show ?thesis unfolding dr by (simp add: rd)
  next
    case False
    then have "key \<in> set (drop i ks) \<longleftrightarrow> key \<in> set (drop (Suc i) ks)" unfolding dr by auto
    moreover from False have "map_of (zip (drop i ks) (drop i vs)) key = map_of (zip (drop (Suc i) ks) (drop (Suc i) vs)) key"
      unfolding dr by simp
    ultimately show ?thesis using Suc.IH [OF n] False by (simp add: rd)
  qed
qed simp

text \<open>In exact mode \<open>lookup\<close> is the finite map of the table.\<close>

lemma lookup_exact:
  assumes "table_ok s ks vs" "lt_mode s = Exact"
  shows "lookup_lookup s key out = Some (case map_of (zip ks vs) key of Some v \<Rightarrow> (Ok, v) | None \<Rightarrow> (Not_found, out))"
proof -
  have t: "length ks = length vs" "lt_count s = length ks" "ks \<noteq> []" using assms(1) by (simp_all add: table_ok_def)
  have "lookup_exact_loop s key 0 (length ks) = Some (map_of (zip ks vs) key)"
  proof (cases "key \<in> set ks")
    case True
    with lookup_exact_loop_ok [OF assms(1), of 0 "length ks" key] show ?thesis by simp
  next
    case False
    with map_of_zip_is_None [OF t(1), of key] have "map_of (zip ks vs) key = None" by blast
    with False lookup_exact_loop_ok [OF assms(1), of 0 "length ks" key] show ?thesis by simp
  qed
  with t(2,3) assms(2) show ?thesis by (simp add: lookup_lookup_def)
qed

text \<open>In nearest mode it is the value of a key at the least distance, the lower one of two.\<close>

lemma lookup_nearest:
  assumes ok: "table_ok s ks vs" and m: "lt_mode s = Nearest" and x: "hd ks < x" "x < List.last ks"
    and fits: "\<forall>i. Suc i < length ks \<longrightarrow> int32_range (ks ! Suc i - ks ! i)"
  shows "\<exists>i < length ks. lookup_at s x = Some (vs ! i) \<and> (\<forall>k \<in> set ks. \<bar>x - ks ! i\<bar> \<le> \<bar>x - k\<bar>)"
proof -
  from lookup_at_between [OF ok x] m obtain i where i: "Suc i < length ks" "ks ! i \<le> x" "x < ks ! Suc i"
    "lookup_at s x = do {
       dx_lo \<leftarrow> int32_of (x - ks ! i);
       dx_hi \<leftarrow> int32_of (ks ! Suc i - x);
       Some (if dx_hi < dx_lo then vs ! Suc i else vs ! i)
     }" by auto
  have "int32_range (ks ! Suc i - ks ! i)" using fits i(1) by blast
  then have "int32_range (x - ks ! i)" "int32_range (ks ! Suc i - x)" using i(2,3) by (auto simp: int32_range_def)
  then have at: "lookup_at s x = Some (if ks ! Suc i - x < x - ks ! i then vs ! Suc i else vs ! i)"
    using i(4) by (simp add: int32_of_def)
  have near: "k \<le> ks ! i \<or> ks ! Suc i \<le> k" if "k \<in> set ks" for k
  proof -
    from that obtain j where j: "j < length ks" "k = ks ! j" by (auto simp: in_set_conv_nth)
    have srt: "sorted_wrt (<) ks" using ok by (simp add: table_ok_def)
    have mono: "ks ! a \<le> ks ! b" if "a \<le> b" "b < length ks" for a b
    proof (cases "a = b")
      case False
      with that have "ks ! a < ks ! b" by (intro sorted_wrt_nth_less [OF srt]) simp_all
      then show ?thesis by simp
    qed simp
    show ?thesis
    proof (cases "j \<le> i")
      case True
      with mono [of j i] i(1) j(2) show ?thesis by simp
    next
      case False
      with mono [of "Suc i" j] j show ?thesis by simp
    qed
  qed
  show ?thesis
  proof (cases "ks ! Suc i - x < x - ks ! i")
    case True
    with at i near show ?thesis by (intro exI [of _ "Suc i"]) fastforce
  next
    case False
    with at i near show ?thesis by (intro exI [of _ i]) fastforce
  qed
qed

text \<open>
  The interpolation multiplies in \<^verbatim>\<open>int\<close>: keys and values of a few ten thousand are enough for an
  overflow.
\<close>

lemma interpolation_overflows: "lookup_interpolate 0 0 100000 100000 50000 = None"
  by (simp add: lookup_interpolate_def int32_of_def int32_range_def)

section \<open>Properties\<close>

text \<open> C36.
  A table with increasing keys interpolates: the bisection ends at the two keys around \<open>x\<close>, and \<open>lookup\<close> gives the point
  of the line through their values, rounded towards the lower key's value and never beyond the two values; outside the keys
  the first or the last value. No access leaves the arrays and, as long as the products of the differences fit, nothing overflows.
\<close>

theorem lookup_table_interpolates:
  assumes "lookup_table_init s0 (Some ks) (Some vs) (length ks) Interpolate = (Ok, s)" "length vs = length ks"
    "sorted_wrt (<) ks" "\<forall>k \<in> set ks. int32_range k" "\<forall>v \<in> set vs. int32_range v" "interpolation_fits ks vs"
  shows "\<exists>v. lookup_lookup s x out = Some (Ok, v) \<and>
    (if x \<le> hd ks then v = hd vs
     else if List.last ks \<le> x then v = List.last vs
     else \<exists>i. Suc i < length ks \<and> ks ! i \<le> x \<and> x < ks ! Suc i \<and>
       v = vs ! i + (vs ! Suc i - vs ! i) * (x - ks ! i) sdiv (ks ! Suc i - ks ! i) \<and>
       min (vs ! i) (vs ! Suc i) \<le> v \<and> v \<le> max (vs ! i) (vs ! Suc i))"
proof -
  from assms(1) have ne: "ks \<noteq> []" and mode: "lt_mode s = Interpolate" by (auto simp: lookup_table_init_def split: if_splits)
  have ok: "table_ok s ks vs" using assms ne by (auto simp: lookup_table_init_def table_ok_def)
  have lookup: "lookup_lookup s x out = map_option (Pair Ok) (lookup_at s x)"
    using ok ne mode by (cases "lookup_at s x") (simp_all add: lookup_lookup_def table_ok_def)
  consider "x \<le> hd ks" | "hd ks < x" "List.last ks \<le> x" | "hd ks < x" "x < List.last ks" by linarith
  then show ?thesis
  proof cases
    case 3
    from lookup_at_interpolates [OF ok mode assms(6) this] lookup 3 show ?thesis by (auto simp: on_line_def)
  qed (use lookup lookup_at_ends [OF ok, of x] in simp_all)
qed

definition sample_table :: lookup_table where
  "sample_table = \<lparr>lt_keys = None, lt_values = None, lt_count = 0, lt_mode = Exact\<rparr>"

theorem lookup_table_interpolates_witness:
  "\<exists>s. lookup_table_init sample_table (Some [0, 10, 20]) (Some [100, 200, 50]) 3 Interpolate = (Ok, s) \<and>
    lookup_lookup s 35 0 = Some (Ok, 50) \<and> (\<exists>v. lookup_lookup s 13 0 = Some (Ok, v) \<and> 50 \<le> v \<and> v \<le> 200)"
proof -
  obtain s where s: "lookup_table_init sample_table (Some [0, 10, 20]) (Some [100, 200, 50]) (length [0, 10, 20 :: int]) Interpolate = (Ok, s)"
    by (simp add: lookup_table_init_def)
  have fits: "interpolation_fits [0, 10, 20] [100, 200, 50]"
    by (auto simp: interpolation_fits_def int32_range_def less_Suc_eq)
  have range: "\<forall>k \<in> set [0, 10, 20]. int32_range k" "\<forall>v \<in> set [100, 200, 50]. int32_range v"
    by (simp_all add: int32_range_def)
  note table = lookup_table_interpolates [OF s _ _ range fits]
  have "lookup_lookup s 35 0 = Some (Ok, 50)" using table [of 35 0] by simp
  moreover have "\<exists>v. lookup_lookup s 13 0 = Some (Ok, v) \<and> 50 \<le> v \<and> v \<le> 200"
    using table [of 13 0] by (auto simp: less_Suc_eq)
  moreover have "lookup_table_init sample_table (Some [0, 10, 20]) (Some [100, 200, 50]) 3 Interpolate = (Ok, s)"
    using s by (simp add: numeral_3_eq_3)
  ultimately show ?thesis by blast
qed

end
