(* ===== verification/Small_Buffer.thy ===== *)
theory Small_Buffer
  imports Simulation Utility
begin

text \<open>
  \<^verbatim>\<open>include/memkit/containers/small_buffer.hpp\<close> and
  \<^verbatim>\<open>include/memkit/containers/small_string.hpp\<close>: a byte buffer and a null-terminated string in an
  array inside the object. A span or a string view is the list of its bytes; a pointer is a block.
\<close>

section \<open>Blocks of bytes\<close>

text \<open>\<^verbatim>\<open>std::memcpy(buf + pos, src, n)\<close> and \<^verbatim>\<open>std::memset(buf + pos, v, n)\<close>.\<close>

definition memcpy_at :: "u8 list \<Rightarrow> nat \<Rightarrow> u8 list \<Rightarrow> u8 list option" where
  "memcpy_at buf pos src =
     (if pos + length src \<le> length buf then Some (take pos buf @ src @ drop (pos + length src) buf) else None)"

definition memset_at :: "u8 list \<Rightarrow> nat \<Rightarrow> u8 \<Rightarrow> nat \<Rightarrow> u8 list option" where
  "memset_at buf pos v n = memcpy_at buf pos (replicate n v)"

lemma memcpy_at_Some:
  "pos + length src \<le> length buf \<Longrightarrow>
    \<exists>buf'. memcpy_at buf pos src = Some buf' \<and> length buf' = length buf \<and> take (pos + length src) buf' = take pos buf @ src"
  by (simp add: memcpy_at_def)

text \<open>\<^verbatim>\<open>buf[i] = v\<close>.\<close>

definition poke :: "u8 list \<Rightarrow> nat \<Rightarrow> u8 \<Rightarrow> u8 list option" where
  "poke buf i v = (if i < length buf then Some (buf[i := v]) else None)"

lemma poke_Some [simp]: "i < length buf \<Longrightarrow> poke buf i v = Some (buf[i := v])"
  by (simp add: poke_def)

text \<open>The first \<open>n\<close> bytes behind a pointer.\<close>

definition span_of :: "u8 mem \<Rightarrow> nat \<Rightarrow> u8 list option" where
  "span_of data n = (case data of None \<Rightarrow> None | Some xs \<Rightarrow> if n \<le> length xs then Some (take n xs) else None)"

section \<open>SmallBuffer\<close>

record small_buffer =
  sb_buf :: "u8 list"
  sb_len :: nat

definition small_buffer_construct :: "nat \<Rightarrow> small_buffer" where
  "small_buffer_construct N = \<lparr>sb_buf = replicate N 0, sb_len = 0\<rparr>"

definition small_buffer_full :: "small_buffer \<Rightarrow> bool" where
  "small_buffer_full s \<longleftrightarrow> sb_len s \<ge> length (sb_buf s)"

definition small_buffer_view :: "small_buffer \<Rightarrow> u8 list option" where
  "small_buffer_view s = span_of (Some (sb_buf s)) (sb_len s)"

definition small_buffer_clear :: "small_buffer \<Rightarrow> small_buffer" where
  "small_buffer_clear s = s\<lparr>sb_len := 0\<rparr>"

text \<open>The capacity \<open>N\<close> is the length of the array.\<close>

definition small_buffer_assign :: "small_buffer \<Rightarrow> u8 list \<Rightarrow> (status \<times> small_buffer) option" where
  "small_buffer_assign s bytes =
     (if length bytes > length (sb_buf s) then Some (Invalid, s)
      else if bytes = [] then Some (Ok, small_buffer_clear s)
      else do {
        buf \<leftarrow> memcpy_at (sb_buf s) 0 bytes;
        Some (Ok, s\<lparr>sb_buf := buf, sb_len := length bytes\<rparr>)
      })"

definition small_buffer_assign_data :: "small_buffer \<Rightarrow> u8 mem \<Rightarrow> nat \<Rightarrow> (status \<times> small_buffer) option" where
  "small_buffer_assign_data s data count =
     (if data = None \<and> count > 0 then Some (Null_ptr, s)
      else if count = 0 then Some (Ok, small_buffer_clear s)
      else if count > length (sb_buf s) then Some (Invalid, s)
      else do {
        bytes \<leftarrow> span_of data count;
        small_buffer_assign s bytes
      })"

definition small_buffer_append :: "small_buffer \<Rightarrow> u8 list \<Rightarrow> (status \<times> small_buffer) option" where
  "small_buffer_append s bytes =
     (if sz_add (length bytes) (sb_len s) > length (sb_buf s) then Some (Full, s)
      else if bytes = [] then Some (Ok, s)
      else do {
        buf \<leftarrow> memcpy_at (sb_buf s) (sb_len s) bytes;
        Some (Ok, s\<lparr>sb_buf := buf, sb_len := sz_add (sb_len s) (length bytes)\<rparr>)
      })"

definition small_buffer_append_byte :: "small_buffer \<Rightarrow> u8 \<Rightarrow> (status \<times> small_buffer) option" where
  "small_buffer_append_byte s byte =
     (if sb_len s \<ge> length (sb_buf s) then Some (Full, s)
      else do {
        buf \<leftarrow> poke (sb_buf s) (sb_len s) byte;
        Some (Ok, s\<lparr>sb_buf := buf, sb_len := sz_add (sb_len s) 1\<rparr>)
      })"

definition small_buffer_resize :: "small_buffer \<Rightarrow> nat \<Rightarrow> u8 \<Rightarrow> (status \<times> small_buffer) option" where
  "small_buffer_resize s new_size fill =
     (if new_size > length (sb_buf s) then Some (Invalid, s)
      else do {
        buf \<leftarrow> (if new_size > sb_len s then memset_at (sb_buf s) (sb_len s) fill (new_size - sb_len s) else Some (sb_buf s));
        Some (Ok, s\<lparr>sb_buf := buf, sb_len := new_size\<rparr>)
      })"

definition small_buffer_eq :: "small_buffer \<Rightarrow> u8 list \<Rightarrow> bool option" where
  "small_buffer_eq s other =
     (if sb_len s \<noteq> length other then Some False
      else map_option (\<lambda>bytes. bytes = other) (span_of (Some (sb_buf s)) (sb_len s)))"

section \<open>SmallString\<close>

text \<open>Capacity \<open>N\<close>, in an array of \<open>N + 1\<close> characters.\<close>

record small_string =
  str_buf :: "u8 list"
  str_len :: nat

definition small_string_capacity :: "small_string \<Rightarrow> nat" where
  "small_string_capacity s = length (str_buf s) - 1"

definition small_string_clear :: "small_string \<Rightarrow> small_string option" where
  "small_string_clear s = do {
     buf \<leftarrow> poke (str_buf s) 0 0;
     Some (s\<lparr>str_len := 0, str_buf := buf\<rparr>)
   }"

definition small_string_construct :: "nat \<Rightarrow> small_string option" where
  "small_string_construct N = small_string_clear \<lparr>str_buf = replicate (N + 1) 0, str_len = 0\<rparr>"

definition small_string_full :: "small_string \<Rightarrow> bool" where
  "small_string_full s \<longleftrightarrow> str_len s \<ge> small_string_capacity s"

definition small_string_view :: "small_string \<Rightarrow> u8 list option" where
  "small_string_view s = span_of (Some (str_buf s)) (str_len s)"

definition small_string_assign :: "small_string \<Rightarrow> u8 list \<Rightarrow> (status \<times> small_string) option" where
  "small_string_assign s text =
     (if length text > small_string_capacity s then Some (Invalid, s)
      else if text = [] then map_option (Pair Ok) (small_string_clear s)
      else do {
        buf \<leftarrow> memcpy_at (str_buf s) 0 text;
        buf' \<leftarrow> poke buf (length text) 0;
        Some (Ok, s\<lparr>str_buf := buf', str_len := length text\<rparr>)
      })"

text \<open>A C string ends at its first zero; a block without one is read past its end.\<close>

fun c_string :: "u8 list \<Rightarrow> u8 list option" where
  "c_string [] = None"
| "c_string (c # cs) = (if c = 0 then Some [] else map_option (Cons c) (c_string cs))"

definition small_string_assign_c :: "small_string \<Rightarrow> u8 mem \<Rightarrow> (status \<times> small_string) option" where
  "small_string_assign_c s text =
     (case text of
        None \<Rightarrow> Some (Null_ptr, s)
      | Some cs \<Rightarrow> do {
          view \<leftarrow> c_string cs;
          small_string_assign s view
        })"

definition small_string_append :: "small_string \<Rightarrow> u8 list \<Rightarrow> (status \<times> small_string) option" where
  "small_string_append s text =
     (if sz_add (length text) (str_len s) > small_string_capacity s then Some (Full, s)
      else if text = [] then Some (Ok, s)
      else do {
        buf \<leftarrow> memcpy_at (str_buf s) (str_len s) text;
        buf' \<leftarrow> poke buf (sz_add (str_len s) (length text)) 0;
        Some (Ok, s\<lparr>str_buf := buf', str_len := sz_add (str_len s) (length text)\<rparr>)
      })"

definition small_string_append_char :: "small_string \<Rightarrow> u8 \<Rightarrow> (status \<times> small_string) option" where
  "small_string_append_char s ch =
     (if str_len s \<ge> small_string_capacity s then Some (Full, s)
      else do {
        buf \<leftarrow> poke (str_buf s) (str_len s) ch;
        buf' \<leftarrow> poke buf (sz_add (str_len s) 1) 0;
        Some (Ok, s\<lparr>str_buf := buf', str_len := sz_add (str_len s) 1\<rparr>)
      })"

definition small_string_eq :: "small_string \<Rightarrow> u8 list \<Rightarrow> bool option" where
  "small_string_eq s other = map_option (\<lambda>view. view = other) (small_string_view s)"

text \<open>What a reader of \<open>c_str()\<close> sees.\<close>

definition small_string_c_str :: "small_string \<Rightarrow> u8 list option" where
  "small_string_c_str s = c_string (str_buf s)"

section \<open>Bounded sequences of bytes\<close>

datatype bytes_cmd = Assign "u8 list" | Append "u8 list" | Append_one u8 | Resize nat u8 | Clear_bytes | View_bytes | Equals "u8 list"

fun bytes_step :: "nat \<Rightarrow> u8 list \<Rightarrow> bytes_cmd \<Rightarrow> status \<times> u8 list option \<times> u8 list" where
  "bytes_step N q (Assign bs) = (if length bs \<le> N then (Ok, None, bs) else (Invalid, None, q))"
| "bytes_step N q (Append bs) = (if length q + length bs \<le> N then (Ok, None, q @ bs) else (Full, None, q))"
| "bytes_step N q (Append_one b) = (if length q < N then (Ok, None, q @ [b]) else (Full, None, q))"
| "bytes_step N q (Resize n v) = (if n \<le> N then (Ok, None, take n (q @ replicate n v)) else (Invalid, None, q))"
| "bytes_step N q Clear_bytes = (Ok, None, [])"
| "bytes_step N q View_bytes = (Ok, Some q, q)"
| "bytes_step N q (Equals bs) = (if q = bs then Ok else Invalid, None, q)"

text \<open>No object is larger than \<open>PTRDIFF_MAX\<close>.\<close>

fun bytes_fit :: "bytes_cmd \<Rightarrow> bool" where
  "bytes_fit (Assign bs) \<longleftrightarrow> length bs \<le> PTRDIFF_MAX"
| "bytes_fit (Append bs) \<longleftrightarrow> length bs \<le> PTRDIFF_MAX"
| "bytes_fit c \<longleftrightarrow> True"

fun small_buffer_call :: "small_buffer \<Rightarrow> bytes_cmd \<Rightarrow> (status \<times> u8 list option \<times> small_buffer) option" where
  "small_buffer_call s (Assign bs) = no_out (small_buffer_assign s bs)"
| "small_buffer_call s (Append bs) = no_out (small_buffer_append s bs)"
| "small_buffer_call s (Append_one b) = no_out (small_buffer_append_byte s b)"
| "small_buffer_call s (Resize n v) = no_out (small_buffer_resize s n v)"
| "small_buffer_call s Clear_bytes = Some (Ok, None, small_buffer_clear s)"
| "small_buffer_call s View_bytes = map_option (\<lambda>view. (Ok, Some view, s)) (small_buffer_view s)"
| "small_buffer_call s (Equals bs) = map_option (\<lambda>b. (if b then Ok else Invalid, None, s)) (small_buffer_eq s bs)"

definition small_buffer_holds :: "nat \<Rightarrow> nat \<Rightarrow> small_buffer \<Rightarrow> u8 list \<Rightarrow> bool" where
  "small_buffer_holds N m s q \<longleftrightarrow>
     N \<le> PTRDIFF_MAX \<and> length (sb_buf s) = N \<and> sb_len s = length q \<and> length q \<le> N \<and> take (length q) (sb_buf s) = q"

lemma sz_add_PTRDIFF: "a \<le> PTRDIFF_MAX \<Longrightarrow> b \<le> PTRDIFF_MAX \<Longrightarrow> sz_add a b = a + b"
  by (intro sz_add_eq) (simp add: PTRDIFF_MAX_def SIZE_MAX_def)

lemma take_Suc_snoc: "i < length xs \<Longrightarrow> take i xs = ys \<Longrightarrow> take (Suc i) (xs[i := x]) = ys @ [x]"
  by (auto simp: take_Suc_conv_app_nth)

lemma small_buffer_law:
  assumes h: "small_buffer_holds N m s q" and fit: "bytes_fit c"
  shows "sim_meets (small_buffer_holds N m) (bytes_step N q c) (small_buffer_call s c)"
proof -
  from h have s: "N \<le> PTRDIFF_MAX" "length (sb_buf s) = N" "sb_len s = length q" "length q \<le> N" "take (length q) (sb_buf s) = q"
    by (simp_all add: small_buffer_holds_def)
  have view: "span_of (Some (sb_buf s)) (sb_len s) = Some q" using s by (simp add: span_of_def)
  show ?thesis
  proof (cases c)
    case (Assign bs)
    with s show ?thesis
      by (simp add: sim_meets_def small_buffer_assign_def small_buffer_clear_def memcpy_at_def small_buffer_holds_def)
  next
    case (Append bs)
    have add: "sz_add (length bs) (length q) = length q + length bs" "sz_add (length q) (length bs) = length q + length bs"
      using fit Append s(1,4) by (simp_all add: sz_add_PTRDIFF)
    from Append s add show ?thesis
      by (simp add: sim_meets_def small_buffer_append_def memcpy_at_def small_buffer_holds_def)
  next
    case (Append_one b)
    have add: "sz_add (length q) 1 = Suc (length q)" using s(1,4) by (simp add: sz_add_PTRDIFF PTRDIFF_MAX_def)
    from Append_one s add take_Suc_snoc [of "length q" "sb_buf s" q b] show ?thesis
      by (simp add: sim_meets_def small_buffer_append_byte_def small_buffer_holds_def)
  next
    case (Resize n v)
    show ?thesis
    proof (cases "n \<le> N \<and> length q < n")
      case True
      with Resize s show ?thesis
        by (simp add: sim_meets_def small_buffer_resize_def memset_at_def memcpy_at_def small_buffer_holds_def)
    next
      case False
      have "take n (sb_buf s) = take n q" if "n \<le> length q" using s(5) that by (metis min.absorb1 take_take)
      with False Resize s show ?thesis
        by (auto simp: sim_meets_def small_buffer_resize_def small_buffer_holds_def)
    qed
  next
    case (Equals bs)
    have "small_buffer_eq s bs = Some (q = bs)" using s(3) view by (auto simp: small_buffer_eq_def)
    with Equals h show ?thesis by (simp add: sim_meets_def)
  qed (use s view in \<open>auto simp: sim_meets_def small_buffer_clear_def small_buffer_view_def small_buffer_holds_def\<close>)
qed

interpretation buffer: simulation bytes_fit "\<lambda>_. 0" "bytes_step N" small_buffer_call "small_buffer_holds N"
  for N :: nat
  by unfold_locales (rule small_buffer_law, simp_all)

section \<open>Strings\<close>

fun small_string_call :: "small_string \<Rightarrow> bytes_cmd \<Rightarrow> (status \<times> u8 list option \<times> small_string) option" where
  "small_string_call s (Assign bs) = no_out (small_string_assign s bs)"
| "small_string_call s (Append bs) = no_out (small_string_append s bs)"
| "small_string_call s (Append_one b) = no_out (small_string_append_char s b)"
| "small_string_call s (Resize n v) = None"
| "small_string_call s Clear_bytes = map_option (\<lambda>s'. (Ok, None, s')) (small_string_clear s)"
| "small_string_call s View_bytes = map_option (\<lambda>view. (Ok, Some view, s)) (small_string_view s)"
| "small_string_call s (Equals bs) = map_option (\<lambda>b. (if b then Ok else Invalid, None, s)) (small_string_eq s bs)"

text \<open>A string has no \<open>resize\<close>.\<close>

definition text_fits :: "bytes_cmd \<Rightarrow> bool" where
  "text_fits c \<longleftrightarrow> bytes_fit c \<and> (case c of Resize n v \<Rightarrow> False | _ \<Rightarrow> True)"

definition small_string_holds :: "nat \<Rightarrow> nat \<Rightarrow> small_string \<Rightarrow> u8 list \<Rightarrow> bool" where
  "small_string_holds N m s q \<longleftrightarrow>
     Suc N \<le> PTRDIFF_MAX \<and> length (str_buf s) = Suc N \<and> str_len s = length q \<and> length q \<le> N \<and>
     take (length q) (str_buf s) = q \<and> str_buf s ! length q = 0"

lemma small_string_law:
  assumes h: "small_string_holds N m s q" and fit: "text_fits c"
  shows "sim_meets (small_string_holds N m) (bytes_step N q c) (small_string_call s c)"
proof -
  from h have s: "Suc N \<le> PTRDIFF_MAX" "length (str_buf s) = Suc N" "str_len s = length q" "length q \<le> N"
    "take (length q) (str_buf s) = q" "str_buf s ! length q = 0"
    by (simp_all add: small_string_holds_def)
  have cap: "small_string_capacity s = N" using s(2) by (simp add: small_string_capacity_def)
  have view: "small_string_view s = Some q" using s by (simp add: small_string_view_def span_of_def)
  have clear: "\<exists>s'. small_string_clear s = Some s' \<and> small_string_holds N m s' []"
    using s(1,2) by (simp add: small_string_clear_def small_string_holds_def)
  show ?thesis
  proof (cases c)
    case (Assign bs)
    with s cap clear show ?thesis
      by (auto simp: sim_meets_def small_string_assign_def memcpy_at_def small_string_holds_def nth_append take_update_cancel)
  next
    case (Append bs)
    have "length bs \<le> PTRDIFF_MAX" using fit Append by (simp add: text_fits_def)
    then have add: "sz_add (length bs) (length q) = length q + length bs" "sz_add (length q) (length bs) = length q + length bs"
      using s(1,4) by (simp_all add: sz_add_PTRDIFF)
    from Append s cap add h show ?thesis
      by (auto simp: sim_meets_def small_string_append_def memcpy_at_def small_string_holds_def take_update_cancel)
  next
    case (Append_one b)
    have add: "sz_add (length q) 1 = Suc (length q)" using s(1,4) by (simp add: sz_add_PTRDIFF PTRDIFF_MAX_def)
    from Append_one s cap add take_Suc_snoc [of "length q" "str_buf s" q b] h show ?thesis
      by (auto simp: sim_meets_def small_string_append_char_def small_string_holds_def take_update_cancel)
  qed (use fit view clear h in \<open>auto simp: sim_meets_def text_fits_def small_string_eq_def split: if_splits\<close>)
qed

interpretation str: simulation text_fits "\<lambda>_. 0" "bytes_step N" small_string_call "small_string_holds N"
  for N :: nat
  by unfold_locales (rule small_string_law, simp_all)

lemma c_string_prefix:
  assumes "0 \<notin> set q" "take (length q) buf = q" "length q < length buf" "buf ! length q = 0"
  shows "c_string buf = Some q"
  using assms
proof (induction q arbitrary: buf)
  case Nil
  then show ?case by (cases buf) auto
next
  case (Cons c q)
  then obtain cs where "buf = c # cs" by (cases buf) auto
  with Cons show ?case by simp
qed

lemma c_string_stops: "buf ! n = 0 \<Longrightarrow> n < length buf \<Longrightarrow> \<exists>q. c_string buf = Some q \<and> length q \<le> n \<and> 0 \<notin> set q"
proof (induction buf arbitrary: n)
  case (Cons c cs)
  show ?case
  proof (cases "c = 0")
    case False
    with Cons.prems obtain k where "n = Suc k" "cs ! k = 0" "k < length cs" by (cases n) auto
    with Cons.IH [of k] False show ?thesis by auto
  qed simp
qed simp

lemma small_buffer_assign_data_eq:
  "small_buffer_assign_data s (Some xs) (length xs) =
    (if length xs \<le> length (sb_buf s) then small_buffer_assign s xs else Some (Invalid, s))"
  by (auto simp: small_buffer_assign_data_def small_buffer_assign_def span_of_def)

lemma small_string_assign_c_eq:
  assumes "0 \<notin> set cs"
  shows "small_string_assign_c s (Some (cs @ 0 # rest)) = small_string_assign s cs"
  using c_string_prefix [of "cs" "cs @ 0 # rest"] assms by (simp add: small_string_assign_c_def)

section \<open>Properties\<close>

text \<open>
  A SmallBuffer is a bounded sequence of bytes: every sequence of \<open>assign\<close>, \<open>append\<close>, \<open>resize\<close>, \<open>clear\<close>, \<open>view\<close>
  and comparisons gives the results of a list of at most \<open>N\<close> bytes (what does not fit is refused as a whole and leaves the
  contents alone), and no copy leaves the array.
\<close>

theorem small_buffer_is_bounded_bytes:
  assumes "N \<le> PTRDIFF_MAX" "\<forall>c \<in> set cs. bytes_fit c"
  shows "\<exists>s. sim_run small_buffer_call (small_buffer_construct N) cs = Some (fst (sim_spec (bytes_step N) [] cs), s) \<and>
    small_buffer_view s = Some (snd (sim_spec (bytes_step N) [] cs)) \<and> length (snd (sim_spec (bytes_step N) [] cs)) \<le> N"
proof -
  have "small_buffer_holds N (sum_list (map (\<lambda>_. 0) cs) + 0) (small_buffer_construct N) []"
    using assms(1) by (simp add: small_buffer_holds_def small_buffer_construct_def)
  from buffer.run_refines [OF this assms(2)] show ?thesis
    by (auto simp: small_buffer_holds_def small_buffer_view_def span_of_def)
qed

theorem small_buffer_is_bounded_bytes_witness:
  "\<exists>s. sim_run small_buffer_call (small_buffer_construct 4)
      [Assign [1, 2], Append [3, 4, 5], Append_one 7, Resize 4 9, View_bytes, Assign [1, 1, 1, 1, 1], Append_one 0, Resize 1 0] =
    Some ([(Ok, None), (Full, None), (Ok, None), (Ok, None), (Ok, Some [1, 2, 7, 9]), (Invalid, None), (Full, None), (Ok, None)], s) \<and>
    small_buffer_view s = Some [1]"
  using small_buffer_is_bounded_bytes [of 4
      "[Assign [1, 2], Append [3, 4, 5], Append_one 7, Resize 4 9, View_bytes, Assign [1, 1, 1, 1, 1], Append_one 0, Resize 1 0]"]
  by (simp add: PTRDIFF_MAX_def take_Cons')

text \<open> C39.
  A SmallString is a bounded string that is always terminated: every sequence of \<open>assign\<close>, \<open>append\<close>, \<open>clear\<close>, \<open>view\<close>
  and comparisons gives the results of a list of at most \<open>N\<close> characters, no copy leaves the array, and \<open>c_str()\<close> ends inside
  it; when no zero was stored, \<open>c_str()\<close> is the string.
\<close>

theorem small_string_is_c_string:
  assumes "Suc N \<le> PTRDIFF_MAX" "\<forall>c \<in> set cs. text_fits c"
  shows "\<exists>s0 s. small_string_construct N = Some s0 \<and>
    sim_run small_string_call s0 cs = Some (fst (sim_spec (bytes_step N) [] cs), s) \<and>
    small_string_view s = Some (snd (sim_spec (bytes_step N) [] cs)) \<and>
    (\<exists>seen. small_string_c_str s = Some seen \<and> length seen \<le> length (snd (sim_spec (bytes_step N) [] cs)) \<and> 0 \<notin> set seen \<and>
      (0 \<notin> set (snd (sim_spec (bytes_step N) [] cs)) \<longrightarrow> seen = snd (sim_spec (bytes_step N) [] cs)))"
proof -
  have "\<exists>s0. small_string_construct N = Some s0 \<and> small_string_holds N (sum_list (map (\<lambda>_. 0) cs) + 0) s0 []"
    using assms(1) by (simp add: small_string_construct_def small_string_clear_def small_string_holds_def)
  then obtain s0 where s0: "small_string_construct N = Some s0"
    "small_string_holds N (sum_list (map (\<lambda>_. 0) cs) + 0) s0 []" by blast
  from str.run_refines [OF s0(2) assms(2)] obtain s where
    s: "sim_run small_string_call s0 cs = Some (fst (sim_spec (bytes_step N) [] cs), s)"
    "small_string_holds N 0 s (snd (sim_spec (bytes_step N) [] cs))" by blast
  let ?q = "snd (sim_spec (bytes_step N) [] cs)"
  from s(2) have q: "take (length ?q) (str_buf s) = ?q" "length ?q < length (str_buf s)" "str_buf s ! length ?q = 0"
    "small_string_view s = Some ?q"
    by (simp_all add: small_string_holds_def small_string_view_def span_of_def)
  from c_string_stops [OF q(3,2)] obtain seen where
    seen: "small_string_c_str s = Some seen" "length seen \<le> length ?q" "0 \<notin> set seen" unfolding small_string_c_str_def by blast
  have "seen = ?q" if "0 \<notin> set ?q"
    using c_string_prefix [OF that q(1-3)] seen(1) by (simp add: small_string_c_str_def)
  with s0(1) s(1) q(4) seen show ?thesis by blast
qed

theorem small_string_is_c_string_witness:
  "\<exists>s0 s. small_string_construct 3 = Some s0 \<and>
    sim_run small_string_call s0 [Append [104, 105], Append [33, 33], Append_one 33, View_bytes, Append_one 33] =
      Some ([(Ok, None), (Full, None), (Ok, None), (Ok, Some [104, 105, 33]), (Full, None)], s) \<and>
    small_string_c_str s = Some [104, 105, 33]"
  using small_string_is_c_string [of 3 "[Append [104, 105], Append [33, 33], Append_one 33, View_bytes, Append_one 33]"]
  by (auto simp: PTRDIFF_MAX_def text_fits_def)

end
