(* ===== verification/Enum_Map.thy ===== *)
theory Enum_Map
  imports Map_Contract Utility
begin

text \<open>
  \<^verbatim>\<open>include/memkit/containers/enum_map.hpp\<close>: a map from the values of an enum to the slots of an array,
  and \<^verbatim>\<open>include/memkit/containers/fixed_iovec.hpp\<close>: a bounded list of slices. An enum value is its
  underlying \<^verbatim>\<open>int\<close>.
\<close>

section \<open>EnumMap\<close>

record 'v enum_map =
  em_values :: "'v list"
  em_present :: "bool list"
  em_size :: nat

text \<open>\<open>static_cast<std::size_t>(key)\<close>: a negative value becomes a large index.\<close>

definition key_index :: "int \<Rightarrow> nat" where
  "key_index key = nat (key mod 18446744073709551616)"

text \<open>\<open>dflt\<close> is \<open>V{}\<close>.\<close>

definition enum_map_construct :: "'v \<Rightarrow> nat \<Rightarrow> 'v enum_map" where
  "enum_map_construct dflt N = \<lparr>em_values = replicate N dflt, em_present = replicate N False, em_size = 0\<rparr>"

definition enum_map_capacity :: "'v enum_map \<Rightarrow> nat" where
  "enum_map_capacity s = length (em_values s)"

fun enum_map_clear_loop :: "bool list \<Rightarrow> nat \<Rightarrow> nat \<Rightarrow> bool list option" where
  "enum_map_clear_loop present i 0 = Some present"
| "enum_map_clear_loop present i (Suc n) = do {
     m \<leftarrow> mem_wr (Some present) i False;
     enum_map_clear_loop (the m) (i + 1) n
   }"

definition enum_map_clear :: "'v enum_map \<Rightarrow> 'v enum_map option" where
  "enum_map_clear s = do {
     present \<leftarrow> enum_map_clear_loop (em_present s) 0 (enum_map_capacity s);
     Some (s\<lparr>em_present := present, em_size := 0\<rparr>)
   }"

definition enum_map_put :: "'v enum_map \<Rightarrow> int \<Rightarrow> 'v \<Rightarrow> (status \<times> 'v enum_map) option" where
  "enum_map_put s key v =
     (let index = key_index key in
      if index \<ge> enum_map_capacity s then Some (Invalid, s)
      else do {
        here \<leftarrow> mem_rd (Some (em_present s)) index;
        s1 \<leftarrow> (if \<not> here then do {
                 present \<leftarrow> mem_wr (Some (em_present s)) index True;
                 Some (s\<lparr>em_size := sz_add (em_size s) 1, em_present := the present\<rparr>)
               } else Some s);
        vals \<leftarrow> mem_wr (Some (em_values s1)) index v;
        Some (Ok, s1\<lparr>em_values := the vals\<rparr>)
      })"

text \<open>The test that \<open>get\<close>, \<open>contains\<close>, \<open>remove\<close> and \<open>try_get\<close> share: whether the slot is absent.\<close>

definition enum_map_absent :: "'v enum_map \<Rightarrow> nat \<Rightarrow> bool option" where
  "enum_map_absent s index =
     (if index \<ge> enum_map_capacity s then Some True else map_option Not (mem_rd (Some (em_present s)) index))"

definition enum_map_get :: "'v enum_map \<Rightarrow> int \<Rightarrow> 'v \<Rightarrow> (status \<times> 'v) option" where
  "enum_map_get s key out = do {
     absent \<leftarrow> enum_map_absent s (key_index key);
     if absent then Some (Not_found, out)
     else do {
       v \<leftarrow> mem_rd (Some (em_values s)) (key_index key);
       Some (Ok, v)
     }
   }"

definition enum_map_contains :: "'v enum_map \<Rightarrow> int \<Rightarrow> bool option" where
  "enum_map_contains s key = map_option Not (enum_map_absent s (key_index key))"

definition enum_map_remove :: "'v \<Rightarrow> 'v enum_map \<Rightarrow> int \<Rightarrow> (status \<times> 'v enum_map) option" where
  "enum_map_remove dflt s key =
     (let index = key_index key in do {
        absent \<leftarrow> enum_map_absent s index;
        if absent then Some (Not_found, s)
        else do {
          present \<leftarrow> mem_wr (Some (em_present s)) index False;
          vals \<leftarrow> mem_wr (Some (em_values s)) index dflt;
          Some (Ok, s\<lparr>em_present := the present, em_values := the vals, em_size := sz_sub (em_size s) 1\<rparr>)
        }
      })"

text \<open>A pointer to a slot is its index.\<close>

definition enum_map_try_get :: "'v enum_map \<Rightarrow> int \<Rightarrow> nat option option" where
  "enum_map_try_get s key =
     map_option (\<lambda>absent. if absent then None else Some (key_index key)) (enum_map_absent s (key_index key))"

section \<open>A finite map\<close>

definition true_at :: "bool list \<Rightarrow> nat set" where
  "true_at bs = {i. i < length bs \<and> bs ! i}"

lemma finite_true_at [simp]: "finite (true_at bs)"
  by (rule finite_subset [of _ "{..<length bs}"]) (auto simp: true_at_def)

lemma card_true_at: "card (true_at bs) \<le> length bs"
  using card_mono [of "{..<length bs}" "true_at bs"] by (auto simp: true_at_def)

lemma true_at_update:
  "i < length bs \<Longrightarrow> true_at (bs[i := True]) = insert i (true_at bs)"
  "i < length bs \<Longrightarrow> true_at (bs[i := False]) = true_at bs - {i}"
  by (auto simp: true_at_def nth_list_update)

lemma true_at_replicate [simp]: "true_at (replicate n False) = {}"
  by (auto simp: true_at_def)

definition enum_map_wf :: "nat \<Rightarrow> 'v enum_map \<Rightarrow> bool" where
  "enum_map_wf N s \<longleftrightarrow>
     N \<le> PTRDIFF_MAX \<and> length (em_values s) = N \<and> length (em_present s) = N \<and> em_size s = card (true_at (em_present s))"

definition enum_map_lookup :: "'v enum_map \<Rightarrow> int \<Rightarrow> 'v option" where
  "enum_map_lookup s k = (if key_index k \<in> true_at (em_present s) then Some (em_values s ! key_index k) else None)"

definition enum_key :: "nat \<Rightarrow> int \<Rightarrow> bool" where
  "enum_key N k \<longleftrightarrow> 0 \<le> k \<and> k < int N"

lemma key_index_eq:
  assumes "N \<le> PTRDIFF_MAX" "enum_key N k"
  shows "key_index k = nat k" "key_index k < N"
proof -
  have "k mod 18446744073709551616 = k" using assms by (simp add: enum_key_def PTRDIFF_MAX_def)
  then show "key_index k = nat k" by (simp add: key_index_def)
  with assms(2) show "key_index k < N" by (simp add: enum_key_def nat_less_iff)
qed

lemma key_index_inj: "N \<le> PTRDIFF_MAX \<Longrightarrow> enum_key N j \<Longrightarrow> enum_key N k \<Longrightarrow> key_index j = key_index k \<longleftrightarrow> j = k"
  by (auto simp: key_index_eq enum_key_def)

text \<open>An \<open>int\<close> that is no key of the map has an index outside the arrays.\<close>

lemma key_index_beyond:
  assumes "N \<le> PTRDIFF_MAX" "\<not> enum_key N k" "- 2147483648 \<le> k" "k \<le> 2147483647"
  shows "N \<le> key_index k"
proof (cases "0 \<le> k")
  case True
  with assms show ?thesis by (simp add: key_index_def enum_key_def)
next
  case False
  have "k mod 18446744073709551616 = (k + 18446744073709551616) mod 18446744073709551616" by simp
  also have "\<dots> = k + 18446744073709551616" using False assms(3) by (intro mod_pos_pos_trivial) simp_all
  finally show ?thesis using assms(1,3) by (simp add: key_index_def PTRDIFF_MAX_def)
qed

lemma enum_map_wfD:
  assumes "enum_map_wf N s"
  shows "N \<le> PTRDIFF_MAX" "length (em_values s) = N" "length (em_present s) = N" "em_size s = card (true_at (em_present s))"
    "enum_map_capacity s = N" "em_size s \<le> N"
  using assms card_true_at [of "em_present s"] by (simp_all add: enum_map_wf_def enum_map_capacity_def)

lemma enum_map_absent_eq:
  assumes "enum_map_wf N s"
  shows "enum_map_absent s (key_index k) = Some (enum_map_lookup s k = None)"
  using enum_map_wfD [OF assms] by (auto simp: enum_map_absent_def enum_map_lookup_def true_at_def)

abbreviation enum_get :: "'v \<Rightarrow> 'v enum_map \<Rightarrow> int \<Rightarrow> (status \<times> 'v option) option" where
  "enum_get d s k \<equiv> map_option (\<lambda>(st, v). (st, if st = Ok then Some v else None)) (enum_map_get s k d)"

lemma enum_map_put_ok:
  assumes wf: "enum_map_wf N s" and k: "enum_key N k"
  shows "\<exists>s'. enum_map_put s k v = Some (Ok, s') \<and> enum_map_wf N s' \<and>
    em_size s' = (if enum_map_lookup s k \<noteq> None then em_size s else Suc (em_size s)) \<and>
    (\<forall>x. enum_key N x \<longrightarrow> enum_map_lookup s' x = (if k = x then Some v else enum_map_lookup s x))"
proof -
  note w = enum_map_wfD [OF wf]
  note i = key_index_eq [OF w(1) k]
  have size: "sz_add (em_size s) 1 = Suc (em_size s)" using w(1,6) by (subst sz_add_eq) (simp_all add: PTRDIFF_MAX_def SIZE_MAX_def)
  have cap: "\<not> enum_map_capacity s \<le> key_index k" using w(5) i(2) by simp
  have here: "key_index k \<in> true_at (em_present s) \<longleftrightarrow> em_present s ! key_index k" using w(3) i(2) by (simp add: true_at_def)
  show ?thesis
  proof (cases "key_index k \<in> true_at (em_present s)")
    case True
    let ?s = "s\<lparr>em_values := (em_values s)[key_index k := v]\<rparr>"
    from True here cap w i(2) have "enum_map_put s k v = Some (Ok, ?s)" by (simp add: enum_map_put_def Let_def)
    moreover have "enum_map_wf N ?s" using w by (simp add: enum_map_wf_def)
    moreover have "enum_map_lookup ?s x = (if k = x then Some v else enum_map_lookup s x)" if "enum_key N x" for x
      using True w(2) i(2) key_index_inj [OF w(1) k that] by (cases "k = x") (simp_all add: enum_map_lookup_def)
    ultimately show ?thesis using True by (simp add: enum_map_lookup_def)
  next
    case False
    let ?s = "s\<lparr>em_size := Suc (em_size s), em_present := (em_present s)[key_index k := True],
      em_values := (em_values s)[key_index k := v]\<rparr>"
    from False here cap w i(2) size have "enum_map_put s k v = Some (Ok, ?s)" by (simp add: enum_map_put_def Let_def)
    moreover have "enum_map_wf N ?s" using w False i(2) by (simp add: enum_map_wf_def true_at_update)
    moreover have "enum_map_lookup ?s x = (if k = x then Some v else enum_map_lookup s x)" if "enum_key N x" for x
      using w(2,3) i(2) key_index_inj [OF w(1) that k] key_index_inj [OF w(1) k that]
      by (cases "k = x") (simp_all add: enum_map_lookup_def true_at_update)
    ultimately show ?thesis using False by (simp add: enum_map_lookup_def)
  qed
qed

lemma enum_map_remove_ok:
  assumes wf: "enum_map_wf N s" and k: "enum_key N k" and old: "enum_map_lookup s k \<noteq> None"
  shows "\<exists>s'. enum_map_remove dflt s k = Some (Ok, s') \<and> enum_map_wf N s' \<and> em_size s' = em_size s - 1 \<and>
    (\<forall>x. enum_key N x \<longrightarrow> enum_map_lookup s' x = (if k = x then None else enum_map_lookup s x))"
proof -
  note w = enum_map_wfD [OF wf]
  note i = key_index_eq [OF w(1) k]
  have here: "key_index k \<in> true_at (em_present s)" using old by (simp add: enum_map_lookup_def split: if_splits)
  then have "0 < em_size s" unfolding w(4) by (auto simp: card_gt_0_iff)
  then have size: "sz_sub (em_size s) 1 = em_size s - 1"
    using w(1,6) by (intro sz_sub_eq) (simp_all add: PTRDIFF_MAX_def SIZE_MAX_def)
  have "enum_map_absent s (key_index k) = Some False" using enum_map_absent_eq [OF wf] old by simp
  moreover have "enum_map_lookup (s\<lparr>em_present := (em_present s)[key_index k := False],
      em_values := (em_values s)[key_index k := dflt], em_size := em_size s - 1\<rparr>) x =
    (if k = x then None else enum_map_lookup s x)" if "enum_key N x" for x
    using w(2,3) i(2) key_index_inj [OF w(1) that k] key_index_inj [OF w(1) k that]
    by (cases "k = x") (simp_all add: enum_map_lookup_def true_at_update)
  ultimately show ?thesis using w i(2) size here
    by (simp add: enum_map_remove_def enum_map_wf_def Let_def true_at_update)
qed

lemma enum_map_get_eq:
  assumes wf: "enum_map_wf N s" and k: "enum_key N k"
  shows "enum_map_get s k out = Some (case enum_map_lookup s k of Some v \<Rightarrow> (Ok, v) | None \<Rightarrow> (Not_found, out))"
  using enum_map_absent_eq [OF wf, of k] enum_map_wfD [OF wf] key_index_eq [of N k] k
  by (auto simp: enum_map_get_def enum_map_lookup_def split: if_splits option.splits)

text \<open>There is a slot for every key, so a put of a key is never refused.\<close>

lemma enum_map_room:
  assumes wf: "enum_map_wf N s" and k: "enum_key N k" and new: "enum_map_lookup s k = None"
  shows "em_size s < N"
proof -
  note w = enum_map_wfD [OF wf]
  have "true_at (em_present s) \<subset> {..<N}"
    using new key_index_eq [OF w(1) k] w(3) by (auto simp: enum_map_lookup_def true_at_def split: if_splits)
  from psubset_card_mono [OF _ this] w(4) show ?thesis by simp
qed

interpretation enum_map: finite_map "enum_key N" "(=)" "enum_map_wf N" enum_map_lookup em_size "\<lambda>_. N"
  enum_map_put "enum_get d" "enum_map_remove d" enum_map_contains
  for N :: nat and d :: 'v
proof (unfold_locales, goal_cases)
  case (1 s k v)
  with enum_map_put_ok [of N s k v] show ?case by auto
next
  case (2 s k v)
  with enum_map_put_ok [of N s k v] show ?case by auto
next
  case (3 s k v)
  with enum_map_room [of N s k] show ?case by simp
next
  case (4 s k)
  with enum_map_get_eq [of N s k d] show ?case by (auto split: option.splits)
next
  case (5 s k)
  with enum_map_remove_ok [of N s k d] show ?case by auto
next
  case (6 s k)
  with enum_map_absent_eq [of N s k] show ?case by (simp add: enum_map_remove_def Let_def)
next
  case (7 s k)
  with enum_map_absent_eq [of N s k] show ?case by (simp add: enum_map_contains_def)
qed

lemma enum_map_construct_wf: "N \<le> PTRDIFF_MAX \<Longrightarrow> enum_map_wf N (enum_map_construct d N)"
  by (simp add: enum_map_wf_def enum_map_construct_def)

lemma enum_map_clear_loop_eq:
  "i + n = length bs \<Longrightarrow> enum_map_clear_loop bs i n = Some (take i bs @ replicate n False)"
proof (induction n arbitrary: bs i)
  case (Suc n)
  then have "take (Suc i) (bs[i := False]) = take i bs @ [False]" by (simp add: take_Suc_conv_app_nth)
  with Suc.IH [of "Suc i" "bs[i := False]"] Suc.prems show ?case by simp
qed simp

lemma enum_map_clear_ok:
  assumes "enum_map_wf N s"
  shows "\<exists>s'. enum_map_clear s = Some s' \<and> enum_map_wf N s' \<and> em_size s' = 0 \<and> (\<forall>k. enum_map_lookup s' k = None)"
  using enum_map_wfD [OF assms] enum_map_clear_loop_eq [of 0 N "em_present s"]
  by (simp add: enum_map_clear_def enum_map_wf_def enum_map_lookup_def)

section \<open>FixedIoVec\<close>

text \<open>A slice is the address of its first byte (0 is null) and its size.\<close>

record io_vec =
  iv_slices :: "(u64 \<times> nat) list"
  iv_count :: nat

definition io_vec_construct :: "nat \<Rightarrow> io_vec" where
  "io_vec_construct N = \<lparr>iv_slices = replicate N (0, 0), iv_count = 0\<rparr>"

definition io_vec_full :: "io_vec \<Rightarrow> bool" where
  "io_vec_full s \<longleftrightarrow> iv_count s \<ge> length (iv_slices s)"

fun io_vec_total_loop :: "io_vec \<Rightarrow> nat \<Rightarrow> nat \<Rightarrow> nat \<Rightarrow> nat option" where
  "io_vec_total_loop s acc i 0 = Some acc"
| "io_vec_total_loop s acc i (Suc n) = do {
     slice \<leftarrow> mem_rd (Some (iv_slices s)) i;
     io_vec_total_loop s (sz_add acc (snd slice)) (i + 1) n
   }"

definition io_vec_total_bytes :: "io_vec \<Rightarrow> nat option" where
  "io_vec_total_bytes s = io_vec_total_loop s 0 0 (iv_count s)"

definition io_vec_clear :: "io_vec \<Rightarrow> io_vec" where
  "io_vec_clear s = s\<lparr>iv_count := 0\<rparr>"

definition io_vec_push :: "io_vec \<Rightarrow> u64 \<Rightarrow> nat \<Rightarrow> (status \<times> io_vec) option" where
  "io_vec_push s data n =
     (if data = 0 \<and> n > 0 then Some (Null_ptr, s)
      else if io_vec_full s then Some (Full, s)
      else do {
        slices \<leftarrow> mem_wr (Some (iv_slices s)) (iv_count s) (data, n);
        Some (Ok, s\<lparr>iv_slices := the slices, iv_count := sz_add (iv_count s) 1\<rparr>)
      })"

definition io_vec_slices :: "io_vec \<Rightarrow> (u64 \<times> nat) list" where
  "io_vec_slices s = take (iv_count s) (iv_slices s)"

definition io_vec_wf :: "io_vec \<Rightarrow> bool" where
  "io_vec_wf s \<longleftrightarrow> iv_count s \<le> length (iv_slices s) \<and> length (iv_slices s) \<le> PTRDIFF_MAX"

lemma io_vec_push_ok:
  assumes "io_vec_wf s"
  shows "\<exists>s'. io_vec_push s data n = Some (if data = 0 \<and> n > 0 then Null_ptr else if io_vec_full s then Full else Ok, s') \<and>
    io_vec_wf s' \<and>
    io_vec_slices s' = (if (data = 0 \<and> n > 0) \<or> io_vec_full s then io_vec_slices s else io_vec_slices s @ [(data, n)])"
  using assms
  by (auto simp: io_vec_push_def io_vec_full_def io_vec_wf_def io_vec_slices_def sz_add_eq PTRDIFF_MAX_def SIZE_MAX_def
      take_Suc_conv_app_nth)

text \<open>The total is the sum of the sizes modulo \<open>2 ^ 64\<close>.\<close>

lemma io_vec_total_loop_eq:
  "i + n \<le> length (iv_slices s) \<Longrightarrow>
    io_vec_total_loop s (acc mod SIZE_MOD) i n =
      Some ((acc + sum_list (map snd (take n (drop i (iv_slices s))))) mod SIZE_MOD)"
proof (induction n arbitrary: acc i)
  case (Suc n)
  then have "drop i (iv_slices s) = iv_slices s ! i # drop (Suc i) (iv_slices s)" by (simp add: Cons_nth_drop_Suc)
  with Suc.IH [of "Suc i" "acc + snd (iv_slices s ! i)"] Suc.prems show ?case
    by (simp add: sz_add_def mod_add_left_eq add.assoc)
qed simp

lemma io_vec_total_bytes_eq:
  assumes "io_vec_wf s"
  shows "io_vec_total_bytes s = Some (sum_list (map snd (io_vec_slices s)) mod SIZE_MOD)"
  using io_vec_total_loop_eq [of 0 "iv_count s" s 0] assms
  by (simp add: io_vec_total_bytes_def io_vec_slices_def io_vec_wf_def)

section \<open>Properties\<close>

text \<open> C38.
  An EnumMap is a finite map on its enum values: from construction on, every sequence of put, get, remove and contains gives
  the results of a map from the \<open>N\<close> values, no put is ever refused for lack of space, and no access leaves the arrays.
  A value outside the range, negative ones included, is invalid for put and found by no other operation.
\<close>

theorem enum_map_is_finite_map:
  assumes "N \<le> PTRDIFF_MAX" "list_all (\<lambda>c. enum_key N (map_key c)) cs"
  shows "\<exists>rs s m. map_run enum_map_put (enum_get d) (enum_map_remove d) enum_map_contains (enum_map_construct d N) cs = Some (rs, s) \<and>
    map_spec (=) N (\<lambda>_. None, 0) cs = (rs, m, em_size s) \<and> (\<forall>k. enum_key N k \<longrightarrow> m k = enum_map_lookup s k) \<and>
    (\<forall>k v. - 2147483648 \<le> k \<and> k \<le> 2147483647 \<and> \<not> enum_key N k \<longrightarrow>
       enum_map_put s k v = Some (Invalid, s) \<and> enum_map_get s k v = Some (Not_found, v) \<and>
       enum_map_remove d s k = Some (Not_found, s) \<and> enum_map_contains s k = Some False)"
proof -
  have "\<And>x. enum_key N x \<Longrightarrow> (\<lambda>_. None) x = enum_map_lookup (enum_map_construct d N) x"
    by (simp add: enum_map_lookup_def enum_map_construct_def)
  from enum_map.run_refines [OF enum_map_construct_wf [OF assms(1)] assms(2) this, of d] obtain rs s m where
    r: "map_run enum_map_put (enum_get d) (enum_map_remove d) enum_map_contains (enum_map_construct d N) cs = Some (rs, s)"
    "enum_map_wf N s" "map_spec (=) N (\<lambda>_. None, em_size (enum_map_construct d N)) cs = (rs, m, em_size s)"
    "\<forall>x. enum_key N x \<longrightarrow> m x = enum_map_lookup s x" by blast
  have zero: "em_size (enum_map_construct d N) = 0" by (simp add: enum_map_construct_def)
  have "enum_map_put s k v = Some (Invalid, s) \<and> enum_map_get s k v = Some (Not_found, v) \<and>
      enum_map_remove d s k = Some (Not_found, s) \<and> enum_map_contains s k = Some False"
    if "- 2147483648 \<le> k \<and> k \<le> 2147483647 \<and> \<not> enum_key N k" for k v
  proof -
    have "N \<le> key_index k" using that by (intro key_index_beyond [OF assms(1)]) simp_all
    then show ?thesis using enum_map_wfD(5) [OF r(2)]
      by (simp add: enum_map_put_def enum_map_get_def enum_map_remove_def enum_map_contains_def enum_map_absent_def)
  qed
  with r zero show ?thesis by (intro exI [of _ rs] exI [of _ s] exI [of _ m]) simp
qed

theorem enum_map_is_finite_map_witness:
  "\<exists>rs s. map_run enum_map_put (enum_get 0) (enum_map_remove 0) enum_map_contains (enum_map_construct (0 :: nat) 3)
      [Put 2 5, Get 2, Put 2 6, Get 2, Remove 2, Contains 2, Get 1] = Some (rs, s) \<and>
    rs = [(Ok, None), (Ok, Some 5), (Ok, None), (Ok, Some 6), (Ok, None), (Not_found, None), (Not_found, None)] \<and>
    enum_map_put s (- 1) 7 = Some (Invalid, s)"
  using enum_map_is_finite_map [of 3 "[Put 2 5, Get 2, Put 2 6, Get 2, Remove 2, Contains 2, Get 1]" "0 :: nat"]
  by (auto simp: PTRDIFF_MAX_def enum_key_def map_upd_def)

end
