(* ===== verification/Double_Buffer.thy ===== *)
theory Double_Buffer
  imports Policy
begin

text \<open>
  \<^verbatim>\<open>include/memkit/detail/double_buffer_core.hpp\<close> and
  \<^verbatim>\<open>include/memkit/containers/double_buffer.hpp\<close>: two blocks of elements, one to be filled and one to
  be read, swapped by an atomic index. A pointer into the storage is its byte offset.
\<close>

section \<open>Model\<close>

record 'e double_buffer =
  db_policy :: "'e elem_policy"
  db_storage :: "'e mem"
  db_cap :: nat
  db_readable :: u8

definition db_core_init :: "'e double_buffer \<Rightarrow> 'e elem_policy \<Rightarrow> 'e mem \<Rightarrow> nat \<Rightarrow> status \<times> 'e double_buffer" where
  "db_core_init s policy slot_storage slot_capacity =
     (if slot_storage = None \<or> slot_capacity = 0 then (Invalid, s)
      else (Ok, s\<lparr>db_policy := policy, db_storage := slot_storage, db_cap := slot_capacity, db_readable := 0\<rparr>))"

definition db_reset_state :: "'e elem_policy \<Rightarrow> 'e double_buffer \<Rightarrow> 'e double_buffer" where
  "db_reset_state default_policy s = s\<lparr>db_policy := default_policy, db_storage := None, db_cap := 0, db_readable := 0\<rparr>"

definition db_slot_bytes :: "'e double_buffer \<Rightarrow> nat" where
  "db_slot_bytes s = sz_mul (db_cap s) (ep_size (db_policy s))"

definition db_slot_ptr :: "'e double_buffer \<Rightarrow> u8 \<Rightarrow> nat" where
  "db_slot_ptr s index = sz_mul (unat index) (db_slot_bytes s)"

definition db_write_slot :: "'e double_buffer \<Rightarrow> nat" where
  "db_write_slot s = db_slot_ptr s (1 - db_readable s)"

definition db_read_slot :: "'e double_buffer \<Rightarrow> nat" where
  "db_read_slot s = db_slot_ptr s (db_readable s)"

definition db_publish :: "'e double_buffer \<Rightarrow> 'e double_buffer" where
  "db_publish s = s\<lparr>db_readable := 1 - db_readable s\<rparr>"

text \<open>\<open>DoubleBuffer<T>\<close>; \<open>policy\<close> is \<open>typed_element_policy<T>\<close>, \<open>allocate\<close> the answer of the arena.\<close>

definition db_storage_bytes :: "nat \<Rightarrow> nat \<Rightarrow> nat" where
  "db_storage_bytes type_size slot_capacity = sz_mul (sz_mul slot_capacity type_size) 2"

definition db_init :: "'e elem_policy \<Rightarrow> 'e double_buffer \<Rightarrow> 'e mem \<Rightarrow> nat \<Rightarrow> status \<times> 'e double_buffer" where
  "db_init policy s storage slot_capacity =
     (if storage = None \<or> slot_capacity = 0 then (Invalid, s) else db_core_init s policy storage slot_capacity)"

definition db_init_from_arena ::
  "'e elem_policy \<Rightarrow> 'e double_buffer \<Rightarrow> (nat \<Rightarrow> nat \<Rightarrow> status \<times> 'e mem) \<Rightarrow> nat \<Rightarrow> status \<times> 'e double_buffer" where
  "db_init_from_arena policy s allocate slot_capacity =
     (if slot_capacity = 0 then (Invalid, s)
      else
        let (st, ptr) = allocate (db_storage_bytes (ep_size policy) slot_capacity) (ep_align policy) in
        if st \<noteq> Ok then (st, s) else db_init policy s ptr slot_capacity)"

definition db_move :: "'e elem_policy \<Rightarrow> 'e double_buffer \<Rightarrow> 'e double_buffer \<times> 'e double_buffer" where
  "db_move default_policy other = (other, db_reset_state default_policy other)"

text \<open>The spans: the pointer and \<open>slot_capacity\<close> elements. An access to element \<open>i\<close> of a span.\<close>

definition db_cell :: "'e double_buffer \<Rightarrow> nat \<Rightarrow> nat \<Rightarrow> nat option" where
  "db_cell s p i =
     (let n = ep_size (db_policy s) in
      if i < db_cap s \<and> 0 < n \<and> p mod n = 0 then Some (p div n + i) else None)"

definition db_store :: "'e double_buffer \<Rightarrow> nat \<Rightarrow> nat \<Rightarrow> 'e \<Rightarrow> 'e double_buffer option" where
  "db_store s p i e = do {
     cell \<leftarrow> db_cell s p i;
     m \<leftarrow> mem_wr (db_storage s) cell e;
     Some (s\<lparr>db_storage := m\<rparr>)
   }"

definition db_load :: "'e double_buffer \<Rightarrow> nat \<Rightarrow> nat \<Rightarrow> 'e option" where
  "db_load s p i = do {
     cell \<leftarrow> db_cell s p i;
     mem_rd (db_storage s) cell
   }"

section \<open>The two threads\<close>

text \<open>
  The producer takes the write span, fills it and publishes; the consumer takes the read span and reads it. The index is
  atomic: a load of the consumer may return any value not older than the last one it saw. When the threads are
  \<open>synced\<close>, the consumer takes a span only after it was told of the last publish, so it loads the last value, and
  the producer starts to fill only a block that is not being read.
\<close>

datatype 'e db_writer = W_idle | W_filling nat "'e list" nat

datatype 'e db_reader = R_idle | R_reading nat "'e list"

text \<open>\<open>dt_blocks\<close>: the first content of the readable block and every block published; \<open>dt_newest\<close>: for each read span
  taken, the newest of them at that moment; \<open>dt_got\<close>: what was read from the spans.\<close>

record 'e db_threads =
  dt_buf :: "'e double_buffer"
  dt_indices :: "u8 list"
  dt_seen :: nat
  dt_w :: "'e db_writer"
  dt_r :: "'e db_reader"
  dt_blocks :: "'e list list"
  dt_newest :: "'e list list"
  dt_got :: "'e list list"

definition being_read :: "'e db_reader \<Rightarrow> nat \<Rightarrow> bool" where
  "being_read r p \<longleftrightarrow> (case r of R_idle \<Rightarrow> False | R_reading q acc \<Rightarrow> q = p)"

inductive db_step :: "bool \<Rightarrow> 'e db_threads \<Rightarrow> 'e db_threads \<Rightarrow> bool" for synced :: bool where
  begin_fill: "dt_w c = W_idle \<Longrightarrow> length block = db_cap (dt_buf c) \<Longrightarrow>
    (synced \<Longrightarrow> \<not> being_read (dt_r c) (db_write_slot (dt_buf c))) \<Longrightarrow>
    db_step synced c (c\<lparr>dt_w := W_filling (db_write_slot (dt_buf c)) block 0\<rparr>)"
| fill: "dt_w c = W_filling p block i \<Longrightarrow> i < length block \<Longrightarrow> db_store (dt_buf c) p i (block ! i) = Some buf \<Longrightarrow>
    db_step synced c (c\<lparr>dt_buf := buf, dt_w := W_filling p block (Suc i)\<rparr>)"
| publish: "dt_w c = W_filling p block (length block) \<Longrightarrow>
    db_step synced c (c\<lparr>dt_buf := db_publish (dt_buf c), dt_indices := dt_indices c @ [db_readable (db_publish (dt_buf c))],
      dt_w := W_idle, dt_blocks := dt_blocks c @ [block]\<rparr>)"
| begin_read: "dt_r c = R_idle \<Longrightarrow> dt_seen c \<le> k \<Longrightarrow> k < length (dt_indices c) \<Longrightarrow>
    (synced \<Longrightarrow> Suc k = length (dt_indices c)) \<Longrightarrow>
    db_step synced c (c\<lparr>dt_seen := k, dt_r := R_reading (db_slot_ptr (dt_buf c) (dt_indices c ! k)) [],
      dt_newest := dt_newest c @ [List.last (dt_blocks c)]\<rparr>)"
| read: "dt_r c = R_reading p acc \<Longrightarrow> length acc < db_cap (dt_buf c) \<Longrightarrow> db_load (dt_buf c) p (length acc) = Some e \<Longrightarrow>
    db_step synced c (c\<lparr>dt_r := R_reading p (acc @ [e])\<rparr>)"
| end_read: "dt_r c = R_reading p acc \<Longrightarrow> length acc = db_cap (dt_buf c) \<Longrightarrow>
    db_step synced c (c\<lparr>dt_r := R_idle, dt_got := dt_got c @ [acc]\<rparr>)"

definition db_slot :: "'e double_buffer \<Rightarrow> u8 \<Rightarrow> 'e list" where
  "db_slot s j = (case db_storage s of None \<Rightarrow> [] | Some xs \<Rightarrow> take (db_cap s) (drop (unat j * db_cap s) xs))"

definition db_start :: "'e double_buffer \<Rightarrow> 'e db_threads" where
  "db_start s = \<lparr>dt_buf = s, dt_indices = [db_readable s], dt_seen = 0, dt_w = W_idle, dt_r = R_idle,
     dt_blocks = [db_slot s (db_readable s)], dt_newest = [], dt_got = []\<rparr>"

text \<open>The cell a thread accesses next, and when two accesses conflict.\<close>

definition writer_cell :: "'e db_threads \<Rightarrow> nat option" where
  "writer_cell c =
     (case dt_w c of W_filling p block i \<Rightarrow> if i < length block then db_cell (dt_buf c) p i else None | _ \<Rightarrow> None)"

definition reader_cell :: "'e db_threads \<Rightarrow> nat option" where
  "reader_cell c =
     (case dt_r c of R_reading p acc \<Rightarrow> db_cell (dt_buf c) p (length acc) | _ \<Rightarrow> None)"

definition db_race :: "'e db_threads \<Rightarrow> bool" where
  "db_race c \<longleftrightarrow> writer_cell c \<noteq> None \<and> writer_cell c = reader_cell c"

section \<open>The blocks\<close>

definition db_wf :: "'e double_buffer \<Rightarrow> bool" where
  "db_wf s \<longleftrightarrow> (\<exists>xs. db_storage s = Some xs \<and> 2 * db_cap s \<le> length xs) \<and> 0 < db_cap s \<and> 0 < ep_size (db_policy s) \<and>
     2 * (db_cap s * ep_size (db_policy s)) \<le> SIZE_MAX \<and> (db_readable s = 0 \<or> db_readable s = 1)"

definition side :: "u8 \<Rightarrow> bool" where
  "side j \<longleftrightarrow> j = 0 \<or> j = 1"

lemma side_simps [simp]: "side 0" "side 1" "side (1 - j) = side j"
proof -
  show "side 0" "side 1" by (simp_all add: side_def)
  have "1 - j = 0 \<longleftrightarrow> j = 1" "1 - j = 1 \<longleftrightarrow> j = 0" by (auto simp: algebra_simps)
  then show "side (1 - j) = side j" by (auto simp: side_def)
qed

lemma side_cases: "side j \<Longrightarrow> (j = 0 \<Longrightarrow> P) \<Longrightarrow> (j = 1 \<Longrightarrow> P) \<Longrightarrow> P"
  by (auto simp: side_def)

lemma side_flip: "side j \<Longrightarrow> side k \<Longrightarrow> k \<noteq> j \<longleftrightarrow> k = 1 - j"
  by (auto simp: side_def)

lemma unat_side: "side j \<Longrightarrow> unat j = (if j = 0 then 0 else 1)"
  by (auto simp: side_def)

lemma db_wf_side: "db_wf s \<Longrightarrow> side (db_readable s)"
  by (simp add: db_wf_def side_def)

lemma db_slot_ptr_eq:
  assumes "db_wf s" "side j"
  shows "db_slot_ptr s j = unat j * (db_cap s * ep_size (db_policy s))"
  using assms by (auto simp: db_wf_def db_slot_ptr_def db_slot_bytes_def unat_side sz_mul_eq elim!: side_cases)

lemma db_slot_ptr_inj: "db_wf s \<Longrightarrow> side j \<Longrightarrow> side k \<Longrightarrow> db_slot_ptr s j = db_slot_ptr s k \<longleftrightarrow> j = k"
  by (auto simp: db_slot_ptr_eq unat_side db_wf_def elim!: side_cases)

lemma db_cell_eq:
  assumes "db_wf s" "side j" "i < db_cap s"
  shows "db_cell s (db_slot_ptr s j) i = Some (unat j * db_cap s + i)"
  using assms by (auto simp: db_slot_ptr_eq db_cell_def db_wf_def Let_def elim!: side_cases)

lemma db_slot_eq:
  assumes "db_wf s" "side j"
  shows "length (db_slot s j) = db_cap s"
    "i < db_cap s \<Longrightarrow> db_load s (db_slot_ptr s j) i = Some (db_slot s j ! i)"
proof -
  from assms(1) obtain xs where xs: "db_storage s = Some xs" "2 * db_cap s \<le> length xs" by (auto simp: db_wf_def)
  have le: "unat j * db_cap s + db_cap s \<le> length xs" using assms(2) xs(2) by (auto elim!: side_cases)
  then show "length (db_slot s j) = db_cap s" by (simp add: db_slot_def xs(1))
  assume i: "i < db_cap s"
  with le have "unat j * db_cap s + i < length xs" by linarith
  with i le show "db_load s (db_slot_ptr s j) i = Some (db_slot s j ! i)"
    by (simp add: db_load_def db_cell_eq [OF assms i] xs(1) db_slot_def)
qed

lemma take_drop_update:
  "take n (drop m (xs[m + i := e])) = (if i < n then (take n (drop m xs))[i := e] else take n (drop m xs))"
proof (cases "i < n")
  case False
  then have "length (take n (drop m xs)) \<le> i" by simp
  then show ?thesis using False by (simp add: drop_update_swap take_update_swap list_update_beyond)
qed (simp add: drop_update_swap take_update_swap)

lemma db_store_ok:
  assumes "db_wf s" "side j" "i < db_cap s"
  shows "\<exists>s'. db_store s (db_slot_ptr s j) i e = Some s' \<and> db_wf s' \<and> db_cap s' = db_cap s \<and> db_readable s' = db_readable s \<and>
    db_slot_ptr s' = db_slot_ptr s \<and> db_slot s' j = (db_slot s j)[i := e] \<and> (\<forall>k. side k \<and> k \<noteq> j \<longrightarrow> db_slot s' k = db_slot s k)"
proof -
  from assms(1) obtain xs where xs: "db_storage s = Some xs" "2 * db_cap s \<le> length xs" by (auto simp: db_wf_def)
  let ?s = "s\<lparr>db_storage := Some (xs[unat j * db_cap s + i := e])\<rparr>"
  have "unat j * db_cap s + i < length xs" using assms(2,3) xs(2) by (auto elim!: side_cases)
  then have "db_store s (db_slot_ptr s j) i e = Some ?s" by (simp add: db_store_def db_cell_eq [OF assms] xs(1))
  moreover have "db_wf ?s" using assms(1) xs by (simp add: db_wf_def)
  moreover have "db_slot_ptr ?s = db_slot_ptr s" by (simp add: fun_eq_iff db_slot_ptr_def db_slot_bytes_def)
  moreover have "db_slot ?s j = (db_slot s j)[i := e]"
    using take_drop_update [of "db_cap s" "unat j * db_cap s" xs i e] assms(3) by (simp add: db_slot_def xs(1))
  moreover have "db_slot ?s k = db_slot s k" if "side k" "k \<noteq> j" for k
    using that assms(2,3) by (auto simp: db_slot_def xs(1) elim!: side_cases)
  ultimately show ?thesis by simp
qed

section \<open>Synced threads\<close>

definition db_inv :: "'e db_threads \<Rightarrow> bool" where
  "db_inv c \<longleftrightarrow>
     db_wf (dt_buf c) \<and> dt_indices c \<noteq> [] \<and> List.last (dt_indices c) = db_readable (dt_buf c) \<and> dt_blocks c \<noteq> [] \<and>
     dt_seen c < length (dt_indices c) \<and> db_slot (dt_buf c) (db_readable (dt_buf c)) = List.last (dt_blocks c) \<and>
     (case dt_w c of W_idle \<Rightarrow> True
      | W_filling p block i \<Rightarrow> p = db_write_slot (dt_buf c) \<and> length block = db_cap (dt_buf c) \<and> i \<le> length block \<and>
          take i (db_slot (dt_buf c) (1 - db_readable (dt_buf c))) = take i block \<and> \<not> being_read (dt_r c) p) \<and>
     (case dt_r c of R_idle \<Rightarrow> dt_newest c = dt_got c
      | R_reading p acc \<Rightarrow> \<exists>j. side j \<and> p = db_slot_ptr (dt_buf c) j \<and> length acc \<le> db_cap (dt_buf c) \<and>
          acc = take (length acc) (db_slot (dt_buf c) j) \<and> dt_newest c = dt_got c @ [db_slot (dt_buf c) j])"

lemma db_inv_start:
  assumes "db_wf s"
  shows "db_inv (db_start s)"
  using assms by (simp add: db_inv_def db_start_def)

lemma db_inv_step:
  assumes "db_step True c c'" "db_inv c"
  shows "db_inv c'"
  using assms(1)
proof cases
  case (begin_fill block)
  with assms(2) show ?thesis by (auto simp: db_inv_def split: db_reader.splits)
next
  case (fill p block i buf)
  let ?s = "dt_buf c"
  have wf: "db_wf ?s" and p: "p = db_slot_ptr ?s (1 - db_readable ?s)" and len: "length block = db_cap ?s"
    and filled: "take i (db_slot ?s (1 - db_readable ?s)) = take i block" and free: "\<not> being_read (dt_r c) p"
    using assms(2) fill(2) by (auto simp: db_inv_def db_write_slot_def)
  have sd: "side (1 - db_readable ?s)" using db_wf_side [OF wf] by simp
  have i: "i < db_cap ?s" using fill(3) len by simp
  from db_store_ok [OF wf sd i, of "block ! i"] fill(4) p have
    s': "db_wf buf" "db_cap buf = db_cap ?s" "db_readable buf = db_readable ?s" "db_slot_ptr buf = db_slot_ptr ?s"
    "db_slot buf (1 - db_readable ?s) = (db_slot ?s (1 - db_readable ?s))[i := block ! i]"
    "\<And>k. side k \<Longrightarrow> k \<noteq> 1 - db_readable ?s \<Longrightarrow> db_slot buf k = db_slot ?s k" by auto
  have ne: "db_readable ?s \<noteq> 1 - db_readable ?s" using side_flip [OF sd, of "1 - db_readable ?s"] db_wf_side [OF wf]
    by (auto simp: side_def)
  have "take (Suc i) (db_slot buf (1 - db_readable ?s)) = take (Suc i) block"
    using filled i len db_slot_eq(1) [OF wf sd] by (simp add: s'(5) take_Suc_conv_app_nth)
  moreover have "\<exists>j. side j \<and> q = db_slot_ptr ?s j \<and> length acc \<le> db_cap ?s \<and> acc = take (length acc) (db_slot buf j) \<and>
      dt_newest c = dt_got c @ [db_slot buf j]" if "dt_r c = R_reading q acc" for q acc
  proof -
    from assms(2) that obtain j where j: "side j" "q = db_slot_ptr ?s j" "length acc \<le> db_cap ?s"
      "acc = take (length acc) (db_slot ?s j)" "dt_newest c = dt_got c @ [db_slot ?s j]" by (auto simp: db_inv_def)
    have "j \<noteq> 1 - db_readable ?s" using free that j(2) p by (auto simp: being_read_def)
    with j s'(6) show ?thesis by auto
  qed
  ultimately show ?thesis using assms(2) fill s' ne db_wf_side [OF wf]
    by (auto simp: db_inv_def db_write_slot_def split: db_reader.splits)
next
  case (publish p block)
  let ?s = "dt_buf c"
  have wf: "db_wf ?s" and len: "length block = db_cap ?s"
    and filled: "take (length block) (db_slot ?s (1 - db_readable ?s)) = block"
    using assms(2) publish(2) by (auto simp: db_inv_def)
  have sd: "side (1 - db_readable ?s)" using db_wf_side [OF wf] by simp
  have slots: "db_slot (db_publish ?s) = db_slot ?s" "db_slot_ptr (db_publish ?s) = db_slot_ptr ?s"
    "db_cap (db_publish ?s) = db_cap ?s" "db_readable (db_publish ?s) = 1 - db_readable ?s"
    by (auto simp: fun_eq_iff db_slot_def db_publish_def db_slot_ptr_def db_slot_bytes_def split: option.splits)
  have "db_wf (db_publish ?s)" using wf sd by (simp add: db_wf_def db_publish_def side_def)
  moreover have "db_slot ?s (1 - db_readable ?s) = block" using filled db_slot_eq(1) [OF wf sd] len by simp
  ultimately show ?thesis using assms(2) publish slots by (auto simp: db_inv_def split: db_reader.splits)
next
  case (begin_read k)
  let ?s = "dt_buf c"
  have wf: "db_wf ?s" using assms(2) by (simp add: db_inv_def)
  have k: "dt_indices c ! k = db_readable ?s" using begin_read(3-5) assms(2)
    by (metis TrueI db_inv_def diff_Suc_1 last_conv_nth)
  have sd: "side (db_readable ?s)" "side (1 - db_readable ?s)" using db_wf_side [OF wf] by simp_all
  have "db_readable ?s \<noteq> 1 - db_readable ?s" using sd by (auto simp: side_def)
  then have "db_slot_ptr ?s (db_readable ?s) \<noteq> db_write_slot ?s"
    using db_slot_ptr_inj [OF wf sd] by (simp add: db_write_slot_def)
  with assms(2) begin_read k sd show ?thesis
    by (auto simp: db_inv_def being_read_def split: db_writer.splits)
next
  case (read p acc e)
  let ?s = "dt_buf c"
  from assms(2) read(2) obtain j where j: "db_wf ?s" "side j" "p = db_slot_ptr ?s j" "acc = take (length acc) (db_slot ?s j)"
    "dt_newest c = dt_got c @ [db_slot ?s j]" by (auto simp: db_inv_def)
  have len: "length acc < length (db_slot ?s j)" using read(3) db_slot_eq(1) [OF j(1,2)] by simp
  have "e = db_slot ?s j ! length acc" using read(3,4) j(3) db_slot_eq(2) [OF j(1,2)] by simp
  then have "acc @ [e] = take (Suc (length acc)) (db_slot ?s j)" using j(4) len by (simp add: take_Suc_conv_app_nth)
  then have "\<exists>k. side k \<and> p = db_slot_ptr ?s k \<and> Suc (length acc) \<le> db_cap ?s \<and>
      acc @ [e] = take (Suc (length acc)) (db_slot ?s k) \<and> dt_newest c = dt_got c @ [db_slot ?s k]"
    using j read(3) by (intro exI [of _ j]) simp
  with assms(2) read show ?thesis by (auto simp: db_inv_def being_read_def split: db_writer.splits)
next
  case (end_read p acc)
  let ?s = "dt_buf c"
  from assms(2) end_read(2) obtain j where j: "db_wf ?s" "side j" "acc = take (length acc) (db_slot ?s j)"
    "dt_newest c = dt_got c @ [db_slot ?s j]" by (auto simp: db_inv_def)
  have "acc = db_slot ?s j" using j(3) end_read(3) db_slot_eq(1) [OF j(1,2)] by simp
  with assms(2) end_read j show ?thesis by (auto simp: db_inv_def being_read_def split: db_writer.splits)
qed

lemma db_inv_reachable: "(db_step True)\<^sup>*\<^sup>* c c' \<Longrightarrow> db_inv c \<Longrightarrow> db_inv c'"
  by (induction rule: rtranclp_induct) (auto intro: db_inv_step)

text \<open>A thread inside a call can always make its next step.\<close>

lemma db_writer_step:
  assumes "db_inv c" "dt_w c \<noteq> W_idle"
  shows "\<exists>c'. db_step True c c' \<and> dt_r c' = dt_r c"
proof -
  from assms(2) obtain p block i where w: "dt_w c = W_filling p block i" by (cases "dt_w c") auto
  from assms(1) w have wf: "db_wf (dt_buf c)" and p: "p = db_slot_ptr (dt_buf c) (1 - db_readable (dt_buf c))"
    and len: "length block = db_cap (dt_buf c)" "i \<le> length block" by (auto simp: db_inv_def db_write_slot_def)
  show ?thesis
  proof (cases "i < length block")
    case True
    have "side (1 - db_readable (dt_buf c))" using db_wf_side [OF wf] by simp
    from db_store_ok [OF wf this] True len p obtain buf where "db_store (dt_buf c) p i (block ! i) = Some buf" by metis
    from db_step.fill [OF w True this, of True] show ?thesis by fastforce
  next
    case False
    with w len have "dt_w c = W_filling p block (length block)" by simp
    from db_step.publish [OF this, of True] show ?thesis by fastforce
  qed
qed

lemma db_reader_step:
  assumes "db_inv c" "dt_r c \<noteq> R_idle"
  shows "\<exists>c'. db_step True c c' \<and> dt_w c' = dt_w c"
proof -
  from assms(2) obtain p acc where r: "dt_r c = R_reading p acc" by (cases "dt_r c") auto
  from assms(1) r obtain j where j: "db_wf (dt_buf c)" "side j" "p = db_slot_ptr (dt_buf c) j" "length acc \<le> db_cap (dt_buf c)"
    by (auto simp: db_inv_def)
  show ?thesis
  proof (cases "length acc < db_cap (dt_buf c)")
    case True
    from db_step.read [OF r True, of _ True] db_slot_eq(2) [OF j(1,2) True] j(3) show ?thesis by fastforce
  next
    case False
    with j(4) have "length acc = db_cap (dt_buf c)" by simp
    from db_step.end_read [OF r this, of True] show ?thesis by fastforce
  qed
qed

lemma db_inv_no_race:
  assumes "db_inv c"
  shows "\<not> db_race c"
proof
  assume "db_race c"
  then have rc: "writer_cell c \<noteq> None" "writer_cell c = reader_cell c" "reader_cell c \<noteq> None"
    unfolding db_race_def by metis+
  from rc(1) obtain p block i where w: "dt_w c = W_filling p block i" "i < length block"
    by (auto simp: writer_cell_def split: db_writer.splits if_splits)
  from rc(3) obtain q acc where r: "dt_r c = R_reading q acc" by (auto simp: reader_cell_def split: db_reader.splits)
  have eq: "db_cell (dt_buf c) p i = db_cell (dt_buf c) q (length acc)" "db_cell (dt_buf c) p i \<noteq> None"
    using rc w r by (simp_all add: writer_cell_def reader_cell_def)
  from assms w r have wf: "db_wf (dt_buf c)" and p: "p = db_slot_ptr (dt_buf c) (1 - db_readable (dt_buf c))"
    and len: "length block = db_cap (dt_buf c)" and free: "q \<noteq> p"
    by (auto simp: db_inv_def db_write_slot_def being_read_def)
  from assms r obtain j where j: "side j" "q = db_slot_ptr (dt_buf c) j" by (auto simp: db_inv_def)
  have sd: "side (1 - db_readable (dt_buf c))" using db_wf_side [OF wf] by simp
  have acc: "length acc < db_cap (dt_buf c)" using eq by (auto simp: db_cell_def Let_def split: if_splits)
  have "unat (1 - db_readable (dt_buf c)) * db_cap (dt_buf c) + i = unat j * db_cap (dt_buf c) + length acc"
    using eq(1) w(2) len by (simp add: p j(2) db_cell_eq [OF wf sd] db_cell_eq [OF wf j(1) acc])
  with sd j(1) w(2) len acc have "j = 1 - db_readable (dt_buf c)" by (auto elim!: side_cases simp: unat_side split: if_splits)
  with free p j(2) show False by simp
qed

section \<open>Properties\<close>

text \<open> C37.
  Two rules that go beyond \<^verbatim>\<open>docs/CONCURRENCY.md\<close> and that nothing in the code enforces: the consumer takes a read span only after
  it was told of the last publish, and the producer starts no fill of a block that is being read. Between one producer and one
  consumer that keep them the double buffer hands over whole blocks: in every interleaving there is no race, every span that was
  read through has the contents of the block that was the newest when the span was taken, and a thread that has taken its
  span can always go on to fill and publish it, or to read it through. (The producer may have to wait before it starts a fill; what happens
  when it does not is the lemma \<open>double_buffer_torn_read\<close> below.)
\<close>

theorem double_buffer_hands_over_blocks:
  assumes "db_init policy s0 (Some xs) n = (Ok, s)" "2 * n \<le> length xs" "0 < ep_size policy" "2 * (n * ep_size policy) \<le> SIZE_MAX"
    and "(db_step True)\<^sup>*\<^sup>* (db_start s) c"
  shows "\<not> db_race c \<and> (dt_r c = R_idle \<longrightarrow> dt_got c = dt_newest c) \<and> (dt_r c \<noteq> R_idle \<longrightarrow> dt_got c = butlast (dt_newest c)) \<and>
    (dt_w c \<noteq> W_idle \<longrightarrow> (\<exists>c'. db_step True c c' \<and> dt_r c' = dt_r c)) \<and>
    (dt_r c \<noteq> R_idle \<longrightarrow> (\<exists>c'. db_step True c c' \<and> dt_w c' = dt_w c))"
proof -
  have "db_wf s" using assms(1-4) by (auto simp: db_init_def db_core_init_def db_wf_def split: if_splits)
  then have inv: "db_inv c" using db_inv_reachable [OF assms(5)] db_inv_start by blast
  from inv have "dt_r c = R_idle \<longrightarrow> dt_got c = dt_newest c" "dt_r c \<noteq> R_idle \<longrightarrow> dt_got c = butlast (dt_newest c)"
    by (auto simp: db_inv_def split: db_reader.splits)
  with db_inv_no_race [OF inv] db_writer_step [OF inv] db_reader_step [OF inv] show ?thesis by blast
qed

definition sample_db :: "nat double_buffer" where
  "sample_db = \<lparr>db_policy = typed_trivial_policy 4 4, db_storage = Some [0, 0, 0, 0], db_cap = 2, db_readable = 0\<rparr>"

lemma sample_db_init: "db_init (typed_trivial_policy 4 4) sample_db (Some [0, 0, 0, 0]) 2 = (Ok, sample_db)"
  by (simp add: db_init_def db_core_init_def sample_db_def)

lemma sample_db_ptr: "db_slot_ptr sample_db 0 = 0" "db_slot_ptr sample_db 1 = 8"
  by (simp_all add: db_slot_ptr_def db_slot_bytes_def sample_db_def sz_mul_def)

text \<open>A state of the two threads on the sample.\<close>

definition sample_state ::
  "nat list \<Rightarrow> u8 list \<Rightarrow> nat db_writer \<Rightarrow> nat db_reader \<Rightarrow> nat list list \<Rightarrow> nat list list \<Rightarrow> nat list list \<Rightarrow> nat db_threads" where
  "sample_state xs indices w r blocks newest got =
     \<lparr>dt_buf = sample_db\<lparr>db_storage := Some xs, db_readable := List.last indices\<rparr>, dt_indices = indices, dt_seen = 0, dt_w = w,
      dt_r = r, dt_blocks = blocks, dt_newest = newest, dt_got = got\<rparr>"

lemmas sample_state_simps = sample_state_def sample_db_def db_write_slot_def db_slot_ptr_def db_slot_bytes_def sz_mul_def
  db_store_def db_load_def db_cell_def db_publish_def db_slot_def db_start_def

lemma sample_state_start: "sample_state [0, 0, 0, 0] [0] W_idle R_idle [[0, 0]] [] [] = db_start sample_db"
  by (simp add: sample_state_simps)

text \<open>What the code alone allows: the producer fills the block that a slow consumer is still reading.\<close>

lemma double_buffer_torn_read:
  "\<exists>c d. (db_step False)\<^sup>*\<^sup>* (db_start sample_db) c \<and> db_race c \<and> db_step False c d \<and>
    (\<exists>e. (db_step False)\<^sup>*\<^sup>* d e \<and> dt_got e = [[0, 2]] \<and> dt_blocks e = [[0, 0], [1, 1]])"
proof -
  note sim = sample_state_simps
  let ?c1 = "sample_state [0, 0, 0, 0] [0] W_idle (R_reading 0 []) [[0, 0]] [[0, 0]] []"
  let ?c2 = "sample_state [0, 0, 0, 0] [0] W_idle (R_reading 0 [0]) [[0, 0]] [[0, 0]] []"
  let ?c3 = "sample_state [0, 0, 0, 0] [0] (W_filling 8 [1, 1] 0) (R_reading 0 [0]) [[0, 0]] [[0, 0]] []"
  let ?c4 = "sample_state [0, 0, 1, 0] [0] (W_filling 8 [1, 1] 1) (R_reading 0 [0]) [[0, 0]] [[0, 0]] []"
  let ?c5 = "sample_state [0, 0, 1, 1] [0] (W_filling 8 [1, 1] (Suc 1)) (R_reading 0 [0]) [[0, 0]] [[0, 0]] []"
  let ?c6 = "sample_state [0, 0, 1, 1] [0, 1] W_idle (R_reading 0 [0]) [[0, 0], [1, 1]] [[0, 0]] []"
  let ?c7 = "sample_state [0, 0, 1, 1] [0, 1] (W_filling 0 [2, 2] 0) (R_reading 0 [0]) [[0, 0], [1, 1]] [[0, 0]] []"
  let ?c8 = "sample_state [2, 0, 1, 1] [0, 1] (W_filling 0 [2, 2] 1) (R_reading 0 [0]) [[0, 0], [1, 1]] [[0, 0]] []"
  let ?c9 = "sample_state [2, 2, 1, 1] [0, 1] (W_filling 0 [2, 2] (Suc 1)) (R_reading 0 [0]) [[0, 0], [1, 1]] [[0, 0]] []"
  let ?c10 = "sample_state [2, 2, 1, 1] [0, 1] (W_filling 0 [2, 2] (Suc 1)) (R_reading 0 [0, 2]) [[0, 0], [1, 1]] [[0, 0]] []"
  let ?c11 = "sample_state [2, 2, 1, 1] [0, 1] (W_filling 0 [2, 2] (Suc 1)) R_idle [[0, 0], [1, 1]] [[0, 0]] [[0, 2]]"
  have "db_step False (db_start sample_db) ?c1" using db_step.begin_read [of "db_start sample_db" 0 False] by (simp add: sim)
  moreover have "db_step False ?c1 ?c2" using db_step.read [of ?c1 0 "[]" 0 False] by (simp add: sim)
  moreover have "db_step False ?c2 ?c3" using db_step.begin_fill [of ?c2 "[1, 1]" False] by (simp add: sim)
  moreover have "db_step False ?c3 ?c4" using db_step.fill [of ?c3 8 "[1, 1]" 0 _ False] by (simp add: sim)
  moreover have "db_step False ?c4 ?c5" using db_step.fill [of ?c4 8 "[1, 1]" 1 _ False] by (simp add: sim)
  moreover have "db_step False ?c5 ?c6" using db_step.publish [of ?c5 8 "[1, 1]" False] by (simp add: sim)
  moreover have "db_step False ?c6 ?c7" using db_step.begin_fill [of ?c6 "[2, 2]" False] by (simp add: sim)
  moreover have "db_step False ?c7 ?c8" using db_step.fill [of ?c7 0 "[2, 2]" 0 _ False] by (simp add: sim)
  ultimately have reach: "(db_step False)\<^sup>*\<^sup>* (db_start sample_db) ?c8" by (meson converse_rtranclp_into_rtranclp rtranclp.rtrancl_refl)
  have race: "db_race ?c8" by (simp add: db_race_def writer_cell_def reader_cell_def sim)
  have s9: "db_step False ?c8 ?c9" using db_step.fill [of ?c8 0 "[2, 2]" 1 _ False] by (simp add: sim)
  have "(db_step False)\<^sup>*\<^sup>* ?c9 ?c11"
  proof -
    have "db_step False ?c9 ?c10" using db_step.read [of ?c9 0 "[0]" 2 False] by (simp add: sim)
    moreover have "db_step False ?c10 ?c11" using db_step.end_read [of ?c10 0 "[0, 2]" False] by (simp add: sim)
    ultimately show ?thesis by (meson converse_rtranclp_into_rtranclp rtranclp.rtrancl_refl)
  qed
  moreover have "dt_got ?c11 = [[0, 2]]" "dt_blocks ?c11 = [[0, 0], [1, 1]]" by (simp_all add: sample_state_def)
  ultimately have later: "\<exists>e. (db_step False)\<^sup>*\<^sup>* ?c9 e \<and> dt_got e = [[0, 2]] \<and> dt_blocks e = [[0, 0], [1, 1]]" by blast
  show ?thesis
    by (rule exI [of _ ?c8], rule exI [of _ ?c9]) (intro conjI reach race s9 later)
qed

text \<open>
  Two spans of the consumer, the second of them of a published block, with the producer filling the other block meanwhile.
\<close>

lemma double_buffer_handover:
  "(db_step True)\<^sup>*\<^sup>* (db_start sample_db)
     ((sample_state [2, 0, 1, 1] [0, 1] (W_filling 0 [2, 2] 1) R_idle [[0, 0], [1, 1]] [[0, 0], [1, 1]] [[0, 0], [1, 1]])\<lparr>dt_seen := 1\<rparr>)"
proof -
  note sim = sample_state_simps being_read_def
  let ?c0 = "sample_state [0, 0, 0, 0] [0] W_idle R_idle [[0, 0]] [] []"
  let ?c1 = "sample_state [0, 0, 0, 0] [0] (W_filling 8 [1, 1] 0) R_idle [[0, 0]] [] []"
  let ?c2 = "sample_state [0, 0, 0, 0] [0] (W_filling 8 [1, 1] 0) (R_reading 0 []) [[0, 0]] [[0, 0]] []"
  let ?c3 = "sample_state [0, 0, 1, 0] [0] (W_filling 8 [1, 1] 1) (R_reading 0 []) [[0, 0]] [[0, 0]] []"
  let ?c4 = "sample_state [0, 0, 1, 0] [0] (W_filling 8 [1, 1] 1) (R_reading 0 [0]) [[0, 0]] [[0, 0]] []"
  let ?c5 = "sample_state [0, 0, 1, 1] [0] (W_filling 8 [1, 1] (Suc 1)) (R_reading 0 [0]) [[0, 0]] [[0, 0]] []"
  let ?c6 = "sample_state [0, 0, 1, 1] [0, 1] W_idle (R_reading 0 [0]) [[0, 0], [1, 1]] [[0, 0]] []"
  let ?c7 = "sample_state [0, 0, 1, 1] [0, 1] W_idle (R_reading 0 [0, 0]) [[0, 0], [1, 1]] [[0, 0]] []"
  let ?c8 = "sample_state [0, 0, 1, 1] [0, 1] W_idle R_idle [[0, 0], [1, 1]] [[0, 0]] [[0, 0]]"
  let ?c9 = "(sample_state [0, 0, 1, 1] [0, 1] W_idle (R_reading 8 []) [[0, 0], [1, 1]] [[0, 0], [1, 1]] [[0, 0]])\<lparr>dt_seen := 1\<rparr>"
  let ?c10 = "(sample_state [0, 0, 1, 1] [0, 1] (W_filling 0 [2, 2] 0) (R_reading 8 []) [[0, 0], [1, 1]] [[0, 0], [1, 1]] [[0, 0]])\<lparr>dt_seen := 1\<rparr>"
  let ?c11 = "(sample_state [0, 0, 1, 1] [0, 1] (W_filling 0 [2, 2] 0) (R_reading 8 [1]) [[0, 0], [1, 1]] [[0, 0], [1, 1]] [[0, 0]])\<lparr>dt_seen := 1\<rparr>"
  let ?c12 = "(sample_state [2, 0, 1, 1] [0, 1] (W_filling 0 [2, 2] 1) (R_reading 8 [1]) [[0, 0], [1, 1]] [[0, 0], [1, 1]] [[0, 0]])\<lparr>dt_seen := 1\<rparr>"
  let ?c13 = "(sample_state [2, 0, 1, 1] [0, 1] (W_filling 0 [2, 2] 1) (R_reading 8 [1, 1]) [[0, 0], [1, 1]] [[0, 0], [1, 1]] [[0, 0]])\<lparr>dt_seen := 1\<rparr>"
  let ?c14 = "(sample_state [2, 0, 1, 1] [0, 1] (W_filling 0 [2, 2] 1) R_idle [[0, 0], [1, 1]] [[0, 0], [1, 1]] [[0, 0], [1, 1]])\<lparr>dt_seen := 1\<rparr>"
  have ready: "dt_r ?c1 = R_idle" "dt_seen ?c1 \<le> 0" "0 < length (dt_indices ?c1)" "Suc 0 = length (dt_indices ?c1)"
    "dt_r ?c8 = R_idle" "dt_seen ?c8 \<le> 1" "1 < length (dt_indices ?c8)" "Suc 1 = length (dt_indices ?c8)"
    "dt_w ?c0 = W_idle" "length [1, 1 :: nat] = db_cap (dt_buf ?c0)" "\<not> being_read (dt_r ?c0) (db_write_slot (dt_buf ?c0))"
    "dt_w ?c9 = W_idle" "length [2, 2 :: nat] = db_cap (dt_buf ?c9)" "\<not> being_read (dt_r ?c9) (db_write_slot (dt_buf ?c9))"
    by (simp_all add: sim)
  from db_step.begin_fill [OF ready(9-11)] have "db_step True ?c0 ?c1" by (simp add: sim)
  moreover from db_step.begin_read [OF ready(1-4)] have "db_step True ?c1 ?c2" by (simp add: sim)
  moreover have "db_step True ?c2 ?c3" using db_step.fill [of ?c2 8 "[1, 1]" 0 _ True] by (simp add: sim)
  moreover have "db_step True ?c3 ?c4" using db_step.read [of ?c3 0 "[]" 0 True] by (simp add: sim)
  moreover have "db_step True ?c4 ?c5" using db_step.fill [of ?c4 8 "[1, 1]" 1 _ True] by (simp add: sim)
  moreover have "db_step True ?c5 ?c6" using db_step.publish [of ?c5 8 "[1, 1]" True] by (simp add: sim)
  moreover have "db_step True ?c6 ?c7" using db_step.read [of ?c6 0 "[0]" 0 True] by (simp add: sim)
  ultimately have first: "(db_step True)\<^sup>*\<^sup>* ?c0 ?c7" by (meson converse_rtranclp_into_rtranclp rtranclp.rtrancl_refl)
  have "db_step True ?c7 ?c8" using db_step.end_read [of ?c7 0 "[0, 0]" True] by (simp add: sim)
  moreover from db_step.begin_read [OF ready(5-8)] have "db_step True ?c8 ?c9" by (simp add: sim)
  moreover from db_step.begin_fill [OF ready(12-14)] have "db_step True ?c9 ?c10" by (simp add: sim)
  moreover have "db_step True ?c10 ?c11" using db_step.read [of ?c10 8 "[]" 1 True] by (simp add: sim)
  moreover have "db_step True ?c11 ?c12" using db_step.fill [of ?c11 0 "[2, 2]" 0 _ True] by (simp add: sim)
  moreover have "db_step True ?c12 ?c13" using db_step.read [of ?c12 8 "[1]" 1 True] by (simp add: sim)
  moreover have "db_step True ?c13 ?c14" using db_step.end_read [of ?c13 8 "[1, 1]" True] by (simp add: sim)
  ultimately have "(db_step True)\<^sup>*\<^sup>* ?c7 ?c14" by (meson converse_rtranclp_into_rtranclp rtranclp.rtrancl_refl)
  with first show ?thesis unfolding sample_state_start by (rule rtranclp_trans)
qed

theorem double_buffer_hands_over_blocks_witness:
  "\<exists>c. (db_step True)\<^sup>*\<^sup>* (db_start sample_db) c \<and> \<not> db_race c \<and> dt_blocks c = [[0, 0], [1, 1]] \<and> dt_got c = dt_newest c \<and>
    dt_got c = [[0, 0], [1, 1]] \<and> dt_w c = W_filling 0 [2, 2] 1 \<and> (\<exists>c'. db_step True c c' \<and> dt_r c' = R_idle)"
proof -
  let ?c = "(sample_state [2, 0, 1, 1] [0, 1] (W_filling 0 [2, 2] 1) R_idle [[0, 0], [1, 1]] [[0, 0], [1, 1]] [[0, 0], [1, 1]])\<lparr>dt_seen := 1\<rparr>"
  have facts: "dt_blocks ?c = [[0, 0], [1, 1]]" "dt_newest ?c = [[0, 0], [1, 1]]" "dt_w ?c = W_filling 0 [2, 2] 1" "dt_r ?c = R_idle"
    by (simp_all add: sample_state_def)
  have "2 * 2 \<le> length [0, 0, 0, 0 :: nat]" "0 < ep_size (typed_trivial_policy 4 4 :: nat elem_policy)"
    "2 * (2 * ep_size (typed_trivial_policy 4 4 :: nat elem_policy)) \<le> SIZE_MAX" by (simp_all add: SIZE_MAX_def)
  note safe = double_buffer_hands_over_blocks [OF sample_db_init this double_buffer_handover]
  have "\<not> db_race ?c" using safe by (rule conjunct1)
  moreover have "dt_got ?c = dt_newest ?c" using safe facts(4) by (elim conjE mp)
  moreover have "\<exists>c'. db_step True ?c c' \<and> dt_r c' = dt_r ?c" using safe facts(3) by (elim conjE mp) simp
  ultimately show ?thesis
    using facts double_buffer_handover by - (rule exI [of _ ?c], intro conjI, simp_all only: facts simp_thms)
qed

text \<open>
  The size of the block is computed without an overflow check: a capacity of \<open>2 ^ 60 + 1\<close> elements of 8 bytes asks the
  arena for 16 bytes, and the spans have the capacity that was asked for.
\<close>

lemma double_buffer_arena_wraps:
  assumes "allocate 16 8 = (Ok, Some [0, 0])"
  shows "\<exists>s'. db_init_from_arena (typed_trivial_policy 8 8) s allocate 1152921504606846977 = (Ok, s') \<and>
    db_cap s' = 1152921504606846977 \<and> db_store s' (db_write_slot s') 2 (1 :: nat) = None"
  using assms
  by (simp add: db_init_from_arena_def db_storage_bytes_def sz_mul_def db_init_def db_core_init_def db_store_def db_cell_def
      db_write_slot_def db_slot_ptr_def db_slot_bytes_def Let_def)

end
