(* ===== verification/Bitset_Api.thy ===== *)
theory Bitset_Api
  imports Bitset_Correct C_Client
begin

text \<open>
  The C interface of the bitset: \<^verbatim>\<open>include/memkit/c_api/bitset_box.hpp\<close> and
  \<^verbatim>\<open>src/c_api/bindings/bitset.inc.cpp\<close>. \<open>to_bitset_status\<close> is one to one, and so is left out.
\<close>

section \<open>bitset_box.hpp\<close>

definition BITSET_FLAG_OWNS_STORAGE :: u32 where "BITSET_FLAG_OWNS_STORAGE = 1"
definition BITSET_FLAG_OWNS_SELF :: u32 where "BITSET_FLAG_OWNS_SELF = 2"
definition BITSET_FLAG_DYNAMIC_STORAGE :: u32 where "BITSET_FLAG_DYNAMIC_STORAGE = 4"
definition BITSET_FLAG_ARENA_STORAGE :: u32 where "BITSET_FLAG_ARENA_STORAGE = 8"
definition BITSET_FLAG_FIXED_CAPACITY :: u32 where "BITSET_FLAG_FIXED_CAPACITY = 16"

lemmas bitset_flag_defs = BITSET_FLAG_OWNS_STORAGE_def BITSET_FLAG_OWNS_SELF_def BITSET_FLAG_DYNAMIC_STORAGE_def
  BITSET_FLAG_ARENA_STORAGE_def BITSET_FLAG_FIXED_CAPACITY_def

record bitset_config =
  bc_capacity :: u64
  bc_storage :: u64
  bc_cells :: "u8 list"
  bc_storage_bytes :: u64
  bc_arena :: u64
  bc_flags :: u32

record bitset_box =
  bbx_core :: bitset
  bbx_addr :: u64
  bbx_c_flags :: u32

definition zero_bitset_box :: bitset_box where
  "zero_bitset_box = \<lparr>bbx_core = \<lparr>bs_storage = None, bs_capacity = 0, bs_bytes = 0, bs_kind = 0\<rparr>, bbx_addr = 0, bbx_c_flags = 0\<rparr>"

definition c_bitset_storage_bytes :: "u64 \<Rightarrow> u64" where
  "c_bitset_storage_bytes capacity = word_of_nat (bitset_storage_bytes (unat capacity))"

definition c_bitset_tail_mask :: "u64 \<Rightarrow> u8" where
  "c_bitset_tail_mask capacity = tail_mask (unat capacity)"

definition bitset_validate_config :: "bitset_config option \<Rightarrow> status" where
  "bitset_validate_config config =
     (case config of
        None \<Rightarrow> Null_ptr
      | Some c \<Rightarrow>
          if bc_capacity c = 0 then Invalid
          else
            let has_storage = bc_storage c \<noteq> 0;
                wants_owned_storage = bc_flags c AND BITSET_FLAG_OWNS_STORAGE \<noteq> 0 \<or>
                  bc_flags c AND BITSET_FLAG_DYNAMIC_STORAGE \<noteq> 0 \<or> bc_flags c AND BITSET_FLAG_ARENA_STORAGE \<noteq> 0
            in
            if has_storage \<and> bc_storage_bytes c < c_bitset_storage_bytes (bc_capacity c) then Invalid
            else if \<not> has_storage \<and> bc_arena c = 0 \<and> bc_flags c AND BITSET_FLAG_DYNAMIC_STORAGE = 0 then Invalid
            else if \<not> has_storage \<and> \<not> wants_owned_storage \<and> bc_arena c = 0 then Invalid
            else Ok)"

definition bitset_box_init ::
  "u8 platform \<Rightarrow> bitset_config option \<Rightarrow> bitset_box \<Rightarrow> 'o world \<Rightarrow> (status \<times> bitset_box \<times> 'o world) option" where
  "bitset_box_init pf config b w =
     (let valid = bitset_validate_config config in
      if valid \<noteq> Ok then Some (valid, b, w)
      else
        let c = the config;
            storage_config = \<lparr>es_elem_size = 1, es_capacity = c_bitset_storage_bytes (bc_capacity c), es_caller_storage = bc_storage c,
              es_cells = bc_cells c, es_caller_storage_bytes = bc_storage_bytes c, es_arena = bc_arena c,
              es_flags = bc_flags c, es_flag_owns = BITSET_FLAG_OWNS_STORAGE, es_flag_dynamic = BITSET_FLAG_DYNAMIC_STORAGE,
              es_flag_arena = BITSET_FLAG_ARENA_STORAGE\<rparr>
        in do {
          (alloc_status, (storage, cells), storage_kind, c_flags, w1) \<leftarrow> allocate_element_storage pf storage_config
            (bc_flags c AND NOT (BITSET_FLAG_OWNS_STORAGE OR BITSET_FLAG_DYNAMIC_STORAGE OR BITSET_FLAG_ARENA_STORAGE OR
              BITSET_FLAG_FIXED_CAPACITY)) w;
          if alloc_status \<noteq> Ok
          then Some (alloc_status, b\<lparr>bbx_core := bitset_reset_state (bbx_core b), bbx_addr := 0, bbx_c_flags := c_flags\<rparr>, w1)
          else do {
            (st, core) \<leftarrow> bitset_init (bitset_set_storage_kind (bbx_core b) storage_kind) cells (unat (bc_capacity c));
            if st \<noteq> Ok then do {
              w2 \<leftarrow> release_element_storage pf storage storage_kind c_flags BITSET_FLAG_OWNS_STORAGE
                BITSET_FLAG_DYNAMIC_STORAGE w1;
              Some (st, b\<lparr>bbx_core := bitset_reset_state core, bbx_addr := 0, bbx_c_flags := c_flags\<rparr>, w2)
            }
            else do {
              core1 \<leftarrow> bitset_clear core;
              Some (Ok,
                b\<lparr>bbx_core := core1, bbx_addr := storage,
                  bbx_c_flags := (if bc_storage c \<noteq> 0 \<and> bc_flags c AND BITSET_FLAG_OWNS_STORAGE \<noteq> 0
                    then c_flags OR BITSET_FLAG_OWNS_STORAGE else c_flags) OR BITSET_FLAG_FIXED_CAPACITY\<rparr>, w1)
            }
          }
        })"

definition bitset_box_deinit :: "u8 platform \<Rightarrow> bitset_box \<Rightarrow> 'o world \<Rightarrow> (bitset_box \<times> 'o world) option" where
  "bitset_box_deinit pf b w = do {
     w1 \<leftarrow> release_element_storage pf (bbx_addr b) (bs_kind (bbx_core b)) (bbx_c_flags b) BITSET_FLAG_OWNS_STORAGE
       BITSET_FLAG_DYNAMIC_STORAGE w;
     Some (b\<lparr>bbx_core := bitset_reset_state (bitset_set_storage_kind (bbx_core b) element_external),
             bbx_addr := 0, bbx_c_flags := 0\<rparr>, w1)
   }"

section \<open>bindings/bitset.inc.cpp: life cycle\<close>

definition MEMKIT_BITSET_OBJ_BYTES :: u64 where "MEMKIT_BITSET_OBJ_BYTES = 128"

definition c_bitset_init ::
  "u8 platform \<Rightarrow> u64 \<Rightarrow> bitset_config option \<Rightarrow> bitset_box world \<Rightarrow> (status \<times> bitset_box world) option" where
  "c_bitset_init pf p config w =
     (if p = 0 then Some (Null_ptr, w)
      else do {
        w1 \<leftarrow> zero_opaque_bytes zero_bitset_box p w;
        b \<leftarrow> read_obj p w1;
        (st, b', w2) \<leftarrow> bitset_box_init pf config b w1;
        Some (st, write_obj p b' w2)
      })"

definition bitset_storage_flags :: owned_storage_flags where
  "bitset_storage_flags =
     \<lparr>os_owns_storage = BITSET_FLAG_OWNS_STORAGE, os_dynamic_storage = BITSET_FLAG_DYNAMIC_STORAGE,
      os_arena_storage = BITSET_FLAG_ARENA_STORAGE, os_owns_self = BITSET_FLAG_OWNS_SELF\<rparr>"

definition c_bitset_create ::
  "u8 platform \<Rightarrow> bool \<Rightarrow> u64 \<Rightarrow> u64 \<Rightarrow> u32 \<Rightarrow> bitset_box world \<Rightarrow> (status \<times> u64 option \<times> bitset_box world) option" where
  "c_bitset_create pf has_out capacity arena flags w =
     (if \<not> has_out then Some (Null_ptr, None, w)
      else if capacity = 0 then Some (Invalid, None, w)
      else if \<not> pf_heap pf \<and> arena = 0 then Some (Unsupported, None, w)
      else do {
        (granted, bitset, w1) \<leftarrow> allocate_object pf MEMKIT_BITSET_OBJ_BYTES (pf_max_align pf) arena w;
        if \<not> granted then Some (if arena = 0 then Oom else Invalid, None, w1)
        else do {
          let config = \<lparr>bc_capacity = capacity, bc_storage = 0, bc_cells = [], bc_storage_bytes = 0, bc_arena = arena,
                bc_flags = owned_create_config_flags pf (flags OR BITSET_FLAG_OWNS_STORAGE) arena bitset_storage_flags 0\<rparr>;
          (st, w2) \<leftarrow> c_bitset_init pf bitset (Some config) w1;
          if st \<noteq> Ok then do {
            w3 \<leftarrow> release_uninitialized_object pf arena bitset w2;
            Some (st, None, w3)
          }
          else do {
            b \<leftarrow> read_obj bitset w2;
            let b' = (if \<not> pf_heap pf \<or> arena \<noteq> 0 then b\<lparr>bbx_c_flags := bbx_c_flags b OR BITSET_FLAG_OWNS_SELF\<rparr> else b);
            Some (Ok, Some bitset, write_obj bitset b' w2)
          }
        }
      })"

definition c_bitset_deinit :: "u8 platform \<Rightarrow> u64 \<Rightarrow> bitset_box world \<Rightarrow> bitset_box world option" where
  "c_bitset_deinit pf p w =
     (if p = 0 then Some w
      else do {
        b \<leftarrow> read_obj p w;
        (b', w1) \<leftarrow> bitset_box_deinit pf b w;
        zero_opaque_bytes zero_bitset_box p (write_obj p b' w1)
      })"

definition c_bitset_destroy :: "u8 platform \<Rightarrow> u64 \<Rightarrow> bitset_box world \<Rightarrow> bitset_box world option" where
  "c_bitset_destroy pf p w =
     destroy_owned_object pf bbx_c_flags p BITSET_FLAG_OWNS_SELF BITSET_FLAG_DYNAMIC_STORAGE (c_bitset_deinit pf) w"

section \<open>bindings/bitset.inc.cpp: operations\<close>

definition with_bits :: "u64 \<Rightarrow> bitset_box world \<Rightarrow> (bitset \<Rightarrow> ('r \<times> bitset) option) \<Rightarrow> ('r \<times> bitset_box world) option" where
  "with_bits p w f = do {
     b \<leftarrow> read_obj p w;
     (r, core) \<leftarrow> f (bbx_core b);
     Some (r, write_obj p (b\<lparr>bbx_core := core\<rparr>) w)
   }"

definition of_bits :: "u64 \<Rightarrow> bitset_box world \<Rightarrow> (bitset \<Rightarrow> 'r option) \<Rightarrow> 'r option" where
  "of_bits p w f = do {
     b \<leftarrow> read_obj p w;
     f (bbx_core b)
   }"

definition c_bitset_capacity :: "u64 \<Rightarrow> bitset_box world \<Rightarrow> nat option" where
  "c_bitset_capacity p w = (if p \<noteq> 0 then of_bits p w (\<lambda>s. Some (bs_capacity s)) else Some 0)"

definition c_bitset_size :: "u64 \<Rightarrow> bitset_box world \<Rightarrow> nat option" where
  "c_bitset_size p w = (if p \<noteq> 0 then of_bits p w bitset_size else Some 0)"

definition c_bitset_empty :: "u64 \<Rightarrow> bitset_box world \<Rightarrow> bool option" where
  "c_bitset_empty p w = (if p = 0 then Some True else of_bits p w (\<lambda>s. map_option (\<lambda>n. n = 0) (bitset_size s)))"

definition c_bitset_full :: "u64 \<Rightarrow> bitset_box world \<Rightarrow> bool option" where
  "c_bitset_full p w =
     (if p \<noteq> 0 then of_bits p w (\<lambda>s. map_option (\<lambda>n. n = bs_capacity s) (bitset_size s)) else Some False)"

definition c_bitset_clear :: "u64 \<Rightarrow> bitset_box world \<Rightarrow> bitset_box world option" where
  "c_bitset_clear p w =
     (if p \<noteq> 0 then map_option snd (with_bits p w (\<lambda>s. map_option (Pair ()) (bitset_clear s))) else Some w)"

definition c_bitset_set_all :: "u64 \<Rightarrow> bitset_box world \<Rightarrow> (status \<times> bitset_box world) option" where
  "c_bitset_set_all p w = (if p = 0 then Some (Null_ptr, w) else with_bits p w bitset_set_all)"

definition c_bitset_test :: "u64 \<Rightarrow> nat \<Rightarrow> bitset_box world \<Rightarrow> bool option" where
  "c_bitset_test p index w = (if p \<noteq> 0 then of_bits p w (\<lambda>s. bitset_test s index) else Some False)"

definition c_bitset_set :: "u64 \<Rightarrow> nat \<Rightarrow> bitset_box world \<Rightarrow> (status \<times> bitset_box world) option" where
  "c_bitset_set p index w = (if p = 0 then Some (Null_ptr, w) else with_bits p w (\<lambda>s. bitset_set s index))"

definition c_bitset_reset :: "u64 \<Rightarrow> nat \<Rightarrow> bitset_box world \<Rightarrow> (status \<times> bitset_box world) option" where
  "c_bitset_reset p index w = (if p = 0 then Some (Null_ptr, w) else with_bits p w (\<lambda>s. bitset_reset s index))"

definition c_bitset_toggle :: "u64 \<Rightarrow> nat \<Rightarrow> bitset_box world \<Rightarrow> (status \<times> bitset_box world) option" where
  "c_bitset_toggle p index w = (if p = 0 then Some (Null_ptr, w) else with_bits p w (\<lambda>s. bitset_toggle s index))"

definition c_bitset_assign :: "u64 \<Rightarrow> bool \<Rightarrow> nat \<Rightarrow> bitset_box world \<Rightarrow> (status \<times> bitset_box world) option" where
  "c_bitset_assign p v index w = (if p = 0 then Some (Null_ptr, w) else with_bits p w (\<lambda>s. bitset_assign s v index))"

text \<open>\<open>out\<close> is the index behind the out parameter, if that is not null.\<close>

definition c_bitset_find ::
  "(bitset \<Rightarrow> nat \<Rightarrow> (status \<times> nat option) option) \<Rightarrow> u64 \<Rightarrow> nat \<Rightarrow> nat option \<Rightarrow> bitset_box world \<Rightarrow> (status \<times> nat option) option" where
  "c_bitset_find search p start_index out w =
     (if p = 0 \<or> out = None then Some (Null_ptr, out)
      else do {
        (st, found) \<leftarrow> of_bits p w (\<lambda>s. search s start_index);
        Some (st, if st = Ok then found else out)
      })"

definition c_bitset_find_first_set :: "u64 \<Rightarrow> nat \<Rightarrow> nat option \<Rightarrow> bitset_box world \<Rightarrow> (status \<times> nat option) option" where
  "c_bitset_find_first_set = c_bitset_find bitset_find_first_set"

definition c_bitset_find_first_clear :: "u64 \<Rightarrow> nat \<Rightarrow> nat option \<Rightarrow> bitset_box world \<Rightarrow> (status \<times> nat option) option" where
  "c_bitset_find_first_clear = c_bitset_find bitset_find_first_clear"

text \<open>
  The operations on two sets. The other set may be the same object: the bytes are read before they are written, one by
  one (\<open>bitset_copy\<close> of a set onto itself is a \<^verbatim>\<open>memcpy\<close> of overlapping blocks and so undefined).
\<close>

definition c_bitset_two ::
  "(bitset \<Rightarrow> bitset \<Rightarrow> (status \<times> bitset) option) \<Rightarrow> u64 \<Rightarrow> u64 \<Rightarrow> bitset_box world \<Rightarrow> (status \<times> bitset_box world) option" where
  "c_bitset_two f p q w =
     (if p = 0 \<or> q = 0 then Some (Null_ptr, w)
      else do {
        other \<leftarrow> read_obj q w;
        with_bits p w (\<lambda>s. f s (bbx_core other))
      })"

definition c_bitset_copy :: "u64 \<Rightarrow> u64 \<Rightarrow> bitset_box world \<Rightarrow> (status \<times> bitset_box world) option" where
  "c_bitset_copy p q w = (if p = q \<and> p \<noteq> 0 then None else c_bitset_two bitset_copy_from p q w)"

definition c_bitset_union_with :: "u64 \<Rightarrow> u64 \<Rightarrow> bitset_box world \<Rightarrow> (status \<times> bitset_box world) option" where
  "c_bitset_union_with = c_bitset_two bitset_union"

definition c_bitset_intersect_with :: "u64 \<Rightarrow> u64 \<Rightarrow> bitset_box world \<Rightarrow> (status \<times> bitset_box world) option" where
  "c_bitset_intersect_with = c_bitset_two bitset_intersect"

definition c_bitset_xor_with :: "u64 \<Rightarrow> u64 \<Rightarrow> bitset_box world \<Rightarrow> (status \<times> bitset_box world) option" where
  "c_bitset_xor_with = c_bitset_two bitset_xor"

definition c_bitset_equal :: "u64 \<Rightarrow> u64 \<Rightarrow> bitset_box world \<Rightarrow> bool option" where
  "c_bitset_equal p q w =
     (if p = 0 \<or> q = 0 then Some False
      else do {
        other \<leftarrow> read_obj q w;
        of_bits p w (\<lambda>s. bitset_equal s (bbx_core other))
      })"

definition c_bitset_complement :: "u64 \<Rightarrow> bitset_box world \<Rightarrow> (status \<times> bitset_box world) option" where
  "c_bitset_complement p w = (if p = 0 then Some (Null_ptr, w) else with_bits p w bitset_complement)"

definition c_bitset_load_bytes :: "u64 \<Rightarrow> u8 mem \<Rightarrow> nat \<Rightarrow> bitset_box world \<Rightarrow> (status \<times> bitset_box world) option" where
  "c_bitset_load_bytes p bytes bytes_len w =
     (if p = 0 then Some (Null_ptr, w) else with_bits p w (\<lambda>s. bitset_load_bytes s bytes bytes_len))"

definition c_bitset_store_bytes :: "u64 \<Rightarrow> u8 mem \<Rightarrow> nat \<Rightarrow> bitset_box world \<Rightarrow> (status \<times> u8 mem) option" where
  "c_bitset_store_bytes p bytes bytes_len w =
     (if p = 0 then Some (Null_ptr, bytes) else of_bits p w (\<lambda>s. bitset_store_bytes s bytes bytes_len))"

definition c_bitset_data :: "u64 \<Rightarrow> bitset_box world \<Rightarrow> u64 option" where
  "c_bitset_data p w = (if p \<noteq> 0 then map_option bbx_addr (read_obj p w) else Some 0)"

definition c_bitset_data_bytes :: "u64 \<Rightarrow> bitset_box world \<Rightarrow> nat option" where
  "c_bitset_data_bytes p w = (if p \<noteq> 0 then of_bits p w (\<lambda>s. Some (bs_bytes s)) else Some 0)"

definition c_bitset_foreach ::
  "u64 \<Rightarrow> (nat \<Rightarrow> 'w \<Rightarrow> status \<times> 'w) option \<Rightarrow> bitset_box world \<Rightarrow> 'w \<Rightarrow> (status \<times> 'w) option" where
  "c_bitset_foreach p visit w v =
     (case visit of
        None \<Rightarrow> Some (Null_ptr, v)
      | Some f \<Rightarrow> if p = 0 then Some (Null_ptr, v) else of_bits p w (\<lambda>s. bitset_for_each_loop f s 0 (bs_capacity s) v))"

section \<open>Bitsets on the heap\<close>

definition bitset_owned :: "u8 platform \<Rightarrow> u64 \<Rightarrow> bitset_box \<Rightarrow> bool" where
  "bitset_owned pf p b \<longleftrightarrow>
     pf_heap pf \<and> p \<noteq> 0 \<and> bbx_addr b \<noteq> 0 \<and> bbx_addr b \<noteq> p \<and> bitset_wf (bbx_core b) \<and>
     bit (bbx_c_flags b) 0 \<and> bit (bbx_c_flags b) 1 \<and> bit (bbx_c_flags b) 2"

definition bitset_blocks :: "u64 \<Rightarrow> bitset_box \<Rightarrow> u64 set" where
  "bitset_blocks p b = {p, bbx_addr b}"

definition bitset_value :: "bitset_box \<Rightarrow> nat \<times> nat set" where
  "bitset_value b = (bs_capacity (bbx_core b), bitset_elems (bbx_core b))"

datatype bits_cmd = Bits_set nat | Bits_reset nat | Bits_toggle nat | Bits_test nat | Bits_clear | Bits_fill | Bits_flip |
  Bits_count | Bits_next nat | Bits_union nat | Bits_intersect nat | Bits_xor nat | Bits_equal nat

text \<open>An operation on two sets refers to the other one by its place among the client's pointers. The sets must have the same capacity.\<close>

definition bits_combine ::
  "(nat set \<Rightarrow> nat set \<Rightarrow> nat set) \<Rightarrow> (nat \<times> nat set) option \<Rightarrow> nat \<Rightarrow> nat set \<Rightarrow> (status \<times> nat option) \<times> nat \<times> nat set" where
  "bits_combine f other n A =
     (case other of
        None \<Rightarrow> ((Null_ptr, None), n, A)
      | Some (m, B) \<Rightarrow> if m = n then ((Ok, None), n, f A B) else ((Invalid, None), n, A))"

fun bits_step :: "(nat \<Rightarrow> (nat \<times> nat set) option) \<Rightarrow> nat \<times> nat set \<Rightarrow> bits_cmd \<Rightarrow> (status \<times> nat option) \<times> nat \<times> nat set" where
  "bits_step vs (n, A) (Bits_set i) = (if i < n then ((Ok, None), n, insert i A) else ((Invalid, None), n, A))"
| "bits_step vs (n, A) (Bits_reset i) = (if i < n then ((Ok, None), n, A - {i}) else ((Invalid, None), n, A))"
| "bits_step vs (n, A) (Bits_toggle i) =
     (if i < n then ((Ok, None), n, if i \<in> A then A - {i} else insert i A) else ((Invalid, None), n, A))"
| "bits_step vs (n, A) (Bits_test i) = ((if i \<in> A then Ok else Not_found, None), n, A)"
| "bits_step vs (n, A) Bits_clear = ((Ok, None), n, {})"
| "bits_step vs (n, A) Bits_fill = ((Ok, None), n, {..<n})"
| "bits_step vs (n, A) Bits_flip = ((Ok, None), n, {..<n} - A)"
| "bits_step vs (n, A) Bits_count = ((Ok, Some (card A)), n, A)"
| "bits_step vs (n, A) (Bits_next i) =
     (case find (\<lambda>j. j \<in> A) [i..<n] of None \<Rightarrow> ((Not_found, None), n, A) | Some j \<Rightarrow> ((Ok, Some j), n, A))"
| "bits_step vs (n, A) (Bits_union j) = bits_combine (\<union>) (vs j) n A"
| "bits_step vs (n, A) (Bits_intersect j) = bits_combine (\<inter>) (vs j) n A"
| "bits_step vs (n, A) (Bits_xor j) = bits_combine sym_diff (vs j) n A"
| "bits_step vs (n, A) (Bits_equal j) = ((if vs j = Some (n, A) then Ok else Not_found, None), n, A)"

fun bits_null :: "bits_cmd \<Rightarrow> status \<times> nat option" where
  "bits_null (Bits_test i) = (Not_found, None)"
| "bits_null Bits_clear = (Ok, None)"
| "bits_null Bits_count = (Ok, Some 0)"
| "bits_null (Bits_equal j) = (Not_found, None)"
| "bits_null c = (Null_ptr, None)"

abbreviation bits_out :: "(status \<times> 'o world) option \<Rightarrow> ((status \<times> nat option) \<times> 'o world) option" where
  "bits_out \<equiv> map_option (\<lambda>(st, w'). ((st, None), w'))"

fun bits_api_call :: "bits_cmd \<Rightarrow> (nat \<Rightarrow> u64) \<Rightarrow> u64 \<Rightarrow> bitset_box world \<Rightarrow> ((status \<times> nat option) \<times> bitset_box world) option" where
  "bits_api_call (Bits_set i) ptr p w = bits_out (c_bitset_set p i w)"
| "bits_api_call (Bits_reset i) ptr p w = bits_out (c_bitset_reset p i w)"
| "bits_api_call (Bits_toggle i) ptr p w = bits_out (c_bitset_toggle p i w)"
| "bits_api_call (Bits_test i) ptr p w = map_option (\<lambda>b. ((if b then Ok else Not_found, None), w)) (c_bitset_test p i w)"
| "bits_api_call Bits_clear ptr p w = map_option (\<lambda>w'. ((Ok, None), w')) (c_bitset_clear p w)"
| "bits_api_call Bits_fill ptr p w = bits_out (c_bitset_set_all p w)"
| "bits_api_call Bits_flip ptr p w = bits_out (c_bitset_complement p w)"
| "bits_api_call Bits_count ptr p w = map_option (\<lambda>n. ((Ok, Some n), w)) (c_bitset_size p w)"
| "bits_api_call (Bits_next i) ptr p w =
     map_option (\<lambda>(st, v). ((st, if st = Ok then v else None), w)) (c_bitset_find_first_set p i (Some 0) w)"
| "bits_api_call (Bits_union j) ptr p w = bits_out (c_bitset_union_with p (ptr j) w)"
| "bits_api_call (Bits_intersect j) ptr p w = bits_out (c_bitset_intersect_with p (ptr j) w)"
| "bits_api_call (Bits_xor j) ptr p w = bits_out (c_bitset_xor_with p (ptr j) w)"
| "bits_api_call (Bits_equal j) ptr p w = map_option (\<lambda>b. ((if b then Ok else Not_found, None), w)) (c_bitset_equal p (ptr j) w)"

definition bitset_api_create :: "u8 platform \<Rightarrow> u64 \<times> u32 \<Rightarrow> bitset_box world \<Rightarrow> (status \<times> u64 option \<times> bitset_box world) option" where
  "bitset_api_create pf a w = c_bitset_create pf True (fst a) 0 (snd a) w"

text \<open>The size of the block must not wrap around.\<close>

definition bitset_request_ok :: "u8 platform \<Rightarrow> u64 \<times> u32 \<Rightarrow> bool" where
  "bitset_request_ok pf a \<longleftrightarrow> pf_heap pf \<and> malloc_fresh pf \<and> unat (fst a) + 7 \<le> SIZE_MAX"

definition bitset_create_outcome :: "u64 \<times> u32 \<Rightarrow> status \<Rightarrow> bool" where
  "bitset_create_outcome a st \<longleftrightarrow> (if fst a = 0 then st = Invalid else st = Ok \<or> st = Oom)"

lemma with_bits_eq:
  assumes "cw_objs w p = Some (Some b)" "f (bbx_core b) = Some (r, s')"
  shows "with_bits p w f = Some (r, write_obj p (b\<lparr>bbx_core := s'\<rparr>) w)"
proof -
  have "read_obj p w = Some b" using assms(1) by (simp add: read_obj_eq)
  with assms(2) show ?thesis by (simp add: with_bits_def)
qed

lemma of_bits_eq: "cw_objs w p = Some (Some b) \<Longrightarrow> of_bits p w f = f (bbx_core b)"
  by (simp add: of_bits_def read_obj_def)

lemma write_obj_same: "cw_objs w p = Some (Some b) \<Longrightarrow> write_obj p b w = w"
  by (simp add: write_obj_def fun_upd_idem)

text \<open>An operation on the sets of two objects, which may be the same one.\<close>

lemma bits_two_ok:
  assumes obj: "cw_objs w p = Some (Some b)" and p0: "p \<noteq> 0" and wf: "bitset_wf (bbx_core b)"
    and d: "denotes (bitset_owned pf) bitset_value w ptr vs"
    and same: "\<And>t. bitset_wf t \<Longrightarrow> bs_capacity t = bs_capacity (bbx_core b) \<Longrightarrow>
      \<exists>s'. f (bbx_core b) t = Some (Ok, s') \<and> bitset_wf s' \<and> bs_capacity s' = bs_capacity (bbx_core b) \<and>
        bitset_elems s' = g (bitset_elems (bbx_core b)) (bitset_elems t)"
    and differ: "\<And>t. bitset_wf t \<Longrightarrow> bs_capacity t \<noteq> bs_capacity (bbx_core b) \<Longrightarrow> f (bbx_core b) t = Some (Invalid, bbx_core b)"
  shows "\<exists>s'. bits_out (c_bitset_two f p (ptr j) w) =
      Some (fst (bits_combine g (vs j) (bs_capacity (bbx_core b)) (bitset_elems (bbx_core b))), write_obj p (b\<lparr>bbx_core := s'\<rparr>) w) \<and>
    bitset_wf s' \<and> (bs_capacity s', bitset_elems s') = snd (bits_combine g (vs j) (bs_capacity (bbx_core b)) (bitset_elems (bbx_core b)))"
proof (cases "vs j")
  case None
  with denotesD(1) [OF d, of j] wf write_obj_same [OF obj] show ?thesis
    by (intro exI [of _ "bbx_core b"]) (simp add: bits_combine_def c_bitset_two_def)
next
  case (Some y)
  with denotesD(2) [OF d, of j y] obtain c where c: "cw_objs w (ptr j) = Some (Some c)" "bitset_owned pf (ptr j) c" "bitset_value c = y"
    by blast
  then have q: "ptr j \<noteq> 0" "bitset_wf (bbx_core c)" "read_obj (ptr j) w = Some c" by (simp_all add: bitset_owned_def read_obj_eq)
  have two: "c_bitset_two f p (ptr j) w = with_bits p w (\<lambda>s. f s (bbx_core c))" using p0 q by (simp add: c_bitset_two_def)
  show ?thesis
  proof (cases "bs_capacity (bbx_core c) = bs_capacity (bbx_core b)")
    case True
    from same [OF q(2) this] obtain s' where "f (bbx_core b) (bbx_core c) = Some (Ok, s')" "bitset_wf s'"
      "bs_capacity s' = bs_capacity (bbx_core b)" "bitset_elems s' = g (bitset_elems (bbx_core b)) (bitset_elems (bbx_core c))" by blast
    with Some c(3) True with_bits_eq [OF obj, of "\<lambda>s. f s (bbx_core c)"] show ?thesis
      by (intro exI [of _ s']) (simp add: two bits_combine_def bitset_value_def flip: c(3))
  next
    case False
    with Some c(3) with_bits_eq [OF obj, of "\<lambda>s. f s (bbx_core c)"] differ [OF q(2) False] wf show ?thesis
      by (intro exI [of _ "bbx_core b"]) (simp add: two bits_combine_def bitset_value_def flip: c(3))
  qed
qed

lemma bitset_two_differ:
  assumes "bs_capacity t \<noteq> bs_capacity s"
  shows "bitset_union s t = Some (Invalid, s)" "bitset_intersect s t = Some (Invalid, s)" "bitset_xor s t = Some (Invalid, s)"
  using assms by (simp_all add: bitset_union_def bitset_intersect_def bitset_xor_def bitset_combine_def)

lemma bits_call_ok:
  assumes obj: "cw_objs w p = Some (Some b)" and p0: "p \<noteq> 0" and wf: "bitset_wf (bbx_core b)"
    and d: "denotes (bitset_owned pf) bitset_value w ptr vs"
  shows "\<exists>s'. bits_api_call c ptr p w = Some (fst (bits_step vs (bitset_value b) c), write_obj p (b\<lparr>bbx_core := s'\<rparr>) w) \<and>
    bitset_wf s' \<and> (bs_capacity s', bitset_elems s') = snd (bits_step vs (bitset_value b) c)"
proof -
  note two = bits_two_ok [OF obj p0 wf d]
  let ?s = "bbx_core b"
  note wb = with_bits_eq [OF obj] of_bits_eq [OF obj] write_obj_same [OF obj]
  note oor = bitset_out_of_range [OF wf]
  have same: "\<exists>s'. write_obj p b w = write_obj p (b\<lparr>bbx_core := s'\<rparr>) w \<and> bitset_wf s' \<and> bs_capacity s' = bs_capacity ?s \<and>
    bitset_elems s' = bitset_elems ?s" using wf by (intro exI [of _ ?s]) simp
  show ?thesis
  proof (cases c)
    case (Bits_set i)
    then show ?thesis using bitset_set_eq [OF wf, of i] oor(1) [of i] p0 same
      by (cases "i < bs_capacity ?s") (auto simp: bitset_value_def c_bitset_set_def wb)
  next
    case (Bits_reset i)
    then show ?thesis using bitset_reset_eq [OF wf, of i] oor(2) [of i] p0 same
      by (cases "i < bs_capacity ?s") (auto simp: bitset_value_def c_bitset_reset_def wb)
  next
    case (Bits_toggle i)
    then show ?thesis using bitset_toggle_eq [OF wf, of i] oor(3) [of i] p0 same
      by (cases "i < bs_capacity ?s") (auto simp: bitset_value_def c_bitset_toggle_def wb)
  next
    case (Bits_test i)
    then show ?thesis using p0 same by (auto simp: bitset_value_def c_bitset_test_def wb bitset_test_eq [OF wf])
  next
    case Bits_clear
    then show ?thesis using bitset_clear_eq [OF wf] p0 by (auto simp: bitset_value_def c_bitset_clear_def wb)
  next
    case Bits_fill
    then show ?thesis using bitset_set_all_eq [OF wf] p0 by (auto simp: bitset_value_def c_bitset_set_all_def wb)
  next
    case Bits_flip
    then show ?thesis using bitset_complement_eq [OF wf] p0 by (auto simp: bitset_value_def c_bitset_complement_def wb)
  next
    case Bits_count
    then show ?thesis using p0 same by (auto simp: bitset_value_def c_bitset_size_def wb bitset_size_eq [OF wf])
  next
    case (Bits_next i)
    then show ?thesis using p0 same bitset_find_from_eq [OF wf, of i True]
      by (auto simp: bitset_value_def c_bitset_find_first_set_def c_bitset_find_def bitset_find_first_set_def wb split: option.splits)
  next
    case (Bits_union j)
    have "\<exists>s'. bits_out (c_bitset_two bitset_union p (ptr j) w) =
        Some (fst (bits_combine (\<union>) (vs j) (bs_capacity ?s) (bitset_elems ?s)), write_obj p (b\<lparr>bbx_core := s'\<rparr>) w) \<and>
      bitset_wf s' \<and> (bs_capacity s', bitset_elems s') = snd (bits_combine (\<union>) (vs j) (bs_capacity ?s) (bitset_elems ?s))"
      by (rule two) (simp_all add: bitset_union_eq [OF wf] bitset_two_differ)
    with Bits_union show ?thesis by (simp add: bitset_value_def c_bitset_union_with_def)
  next
    case (Bits_intersect j)
    have "\<exists>s'. bits_out (c_bitset_two bitset_intersect p (ptr j) w) =
        Some (fst (bits_combine (\<inter>) (vs j) (bs_capacity ?s) (bitset_elems ?s)), write_obj p (b\<lparr>bbx_core := s'\<rparr>) w) \<and>
      bitset_wf s' \<and> (bs_capacity s', bitset_elems s') = snd (bits_combine (\<inter>) (vs j) (bs_capacity ?s) (bitset_elems ?s))"
      by (rule two) (simp_all add: bitset_intersect_eq [OF wf] bitset_two_differ)
    with Bits_intersect show ?thesis by (simp add: bitset_value_def c_bitset_intersect_with_def)
  next
    case (Bits_xor j)
    have "\<exists>s'. bits_out (c_bitset_two bitset_xor p (ptr j) w) =
        Some (fst (bits_combine sym_diff (vs j) (bs_capacity ?s) (bitset_elems ?s)), write_obj p (b\<lparr>bbx_core := s'\<rparr>) w) \<and>
      bitset_wf s' \<and> (bs_capacity s', bitset_elems s') = snd (bits_combine sym_diff (vs j) (bs_capacity ?s) (bitset_elems ?s))"
      by (rule two) (simp_all add: bitset_xor_eq [OF wf] bitset_two_differ)
    with Bits_xor show ?thesis by (simp add: bitset_value_def c_bitset_xor_with_def)
  next
    case (Bits_equal j)
    show ?thesis
    proof (cases "vs j")
      case None
      with Bits_equal denotesD(1) [OF d, of j] same show ?thesis by (auto simp: bitset_value_def c_bitset_equal_def wb)
    next
      case (Some y)
      with denotesD(2) [OF d, of j y] obtain c where c: "cw_objs w (ptr j) = Some (Some c)" "bitset_owned pf (ptr j) c" "bitset_value c = y"
        by blast
      then have "ptr j \<noteq> 0" "bitset_wf (bbx_core c)" "read_obj (ptr j) w = Some c" by (simp_all add: bitset_owned_def read_obj_eq)
      with Bits_equal Some c(3) p0 same bitset_equal_eq [OF wf, of "bbx_core c"] show ?thesis
        by (auto simp: bitset_value_def c_bitset_equal_def wb)
    qed
  qed
qed

lemma bitset_api_call_ok:
  assumes obj: "cw_objs w p = Some (Some b)" and v: "bitset_owned pf p b" and d: "denotes (bitset_owned pf) bitset_value w ptr vs"
  shows "\<exists>b'. bits_api_call c ptr p w = Some (fst (bits_step vs (bitset_value b) c), write_obj p b' w) \<and>
    bitset_owned pf p b' \<and> bitset_blocks p b' = bitset_blocks p b \<and> bitset_value b' = snd (bits_step vs (bitset_value b) c)"
proof -
  from v have "p \<noteq> 0" "bitset_wf (bbx_core b)" by (simp_all add: bitset_owned_def)
  from bits_call_ok [OF obj this d, of c] obtain s' where
    s': "bits_api_call c ptr p w = Some (fst (bits_step vs (bitset_value b) c), write_obj p (b\<lparr>bbx_core := s'\<rparr>) w)" "bitset_wf s'"
    "(bs_capacity s', bitset_elems s') = snd (bits_step vs (bitset_value b) c)" by blast
  with v show ?thesis
    by (intro exI [of _ "b\<lparr>bbx_core := s'\<rparr>"]) (simp add: bitset_owned_def bitset_blocks_def bitset_value_def)
qed

lemma bitset_destroy_ok:
  assumes obj: "cw_objs w p = Some (Some b)" and v: "bitset_owned pf p b" and bl: "bitset_blocks p b \<subseteq> cw_live w"
  shows "\<exists>w'. c_bitset_destroy pf p w = Some w' \<and> cw_live w' = cw_live w - bitset_blocks p b \<and>
    (\<forall>q. q \<notin> bitset_blocks p b \<longrightarrow> cw_objs w' q = cw_objs w q)"
proof -
  from v have b: "pf_heap pf" "p \<noteq> 0" "bbx_addr b \<noteq> 0" "bbx_addr b \<noteq> p"
    "bit (bbx_c_flags b) 0" "bit (bbx_c_flags b) 1" "bit (bbx_c_flags b) 2"
    by (simp_all add: bitset_owned_def)
  have rd: "read_obj p w = Some b" using obj by (simp add: read_obj_eq)
  let ?w1 = "w\<lparr>cw_live := cw_live w - {bbx_addr b}, cw_objs := (cw_objs w)(bbx_addr b := None)\<rparr>"
  have rel: "release_element_storage pf (bbx_addr b) (bs_kind (bbx_core b)) (bbx_c_flags b) BITSET_FLAG_OWNS_STORAGE
      BITSET_FLAG_DYNAMIC_STORAGE w = Some ?w1"
    using b bl by (simp add: release_element_storage_def bitset_flag_defs and_flags c_free_def bitset_blocks_def)
  obtain b2 where deinit: "bitset_box_deinit pf b w = Some (b2, ?w1)"
    using rel by (simp add: bitset_box_deinit_def)
  have "c_bitset_deinit pf p w = Some (write_obj p zero_bitset_box (write_obj p b2 ?w1))"
    using b(2) rd deinit by (simp add: c_bitset_deinit_def zero_opaque_bytes_def)
  with b bl rd show ?thesis
    by (auto simp: c_bitset_destroy_def destroy_owned_object_def bitset_flag_defs and_flags c_free_def bitset_blocks_def)
qed

abbreviation bitset_heap_config :: "u8 platform \<Rightarrow> u64 \<Rightarrow> u32 \<Rightarrow> bitset_config" where
  "bitset_heap_config pf cap fl \<equiv> \<lparr>bc_capacity = cap, bc_storage = 0, bc_cells = [], bc_storage_bytes = 0, bc_arena = 0,
     bc_flags = owned_create_config_flags pf (fl OR BITSET_FLAG_OWNS_STORAGE) 0 bitset_storage_flags 0\<rparr>"

lemma bitset_bytes_unat:
  assumes "unat cap + 7 \<le> SIZE_MAX"
  shows "unat (c_bitset_storage_bytes cap) = bitset_storage_bytes (unat cap)"
proof -
  have "bitset_storage_bytes (unat cap) < 2 ^ 64" using assms by (simp add: bitset_storage_bytes_def sz_add_eq SIZE_MAX_def)
  then show ?thesis by (simp add: c_bitset_storage_bytes_def unat_of_nat)
qed

lemma bitset_heap_flags:
  assumes "pf_heap pf"
  shows "bit (bc_flags (bitset_heap_config pf cap fl)) 0" "bit (bc_flags (bitset_heap_config pf cap fl)) 1"
    "bit (bc_flags (bitset_heap_config pf cap fl)) 2"
  using assms by (simp_all add: owned_create_config_flags_def bitset_storage_flags_def bitset_flag_defs bit_simps)

lemma bitset_heap_valid:
  assumes "pf_heap pf" "cap \<noteq> 0"
  shows "bitset_validate_config (Some (bitset_heap_config pf cap fl)) = Ok"
  using bitset_heap_flags [OF assms(1), of cap fl] assms(2)
  by (simp add: bitset_validate_config_def bitset_flag_defs and_flags)

lemma bitset_init_heap:
  assumes heap: "pf_heap pf" and cap: "cap \<noteq> 0" "unat cap + 7 \<le> SIZE_MAX"
    and p: "p \<noteq> 0" "cw_objs w p = Some None"
    and m: "c_malloc pf (c_bitset_storage_bytes cap) (write_obj p zero_bitset_box w) = (q, w1)"
    and q: "q \<noteq> 0" "q \<noteq> p" and objs: "cw_objs w1 = (cw_objs w)(p \<mapsto> Some zero_bitset_box)"
  shows "\<exists>b. c_bitset_init pf p (Some (bitset_heap_config pf cap fl)) w = Some (Ok, write_obj p b w1) \<and> bitset_owned pf p b \<and>
    bitset_value b = (unat cap, {}) \<and> bitset_blocks p b = {p, q}"
proof -
  let ?config = "bitset_heap_config pf cap fl"
  let ?fl = "bc_flags ?config"
  note fl = bitset_heap_flags [OF heap, of cap fl]
  let ?cf = "(?fl AND NOT (BITSET_FLAG_OWNS_STORAGE OR BITSET_FLAG_DYNAMIC_STORAGE OR BITSET_FLAG_ARENA_STORAGE OR
    BITSET_FLAG_FIXED_CAPACITY)) OR (BITSET_FLAG_OWNS_STORAGE OR BITSET_FLAG_DYNAMIC_STORAGE)"
  have cf: "bit (?cf OR BITSET_FLAG_FIXED_CAPACITY) 0" "bit (?cf OR BITSET_FLAG_FIXED_CAPACITY) 1" "bit (?cf OR BITSET_FLAG_FIXED_CAPACITY) 2"
    using fl by (simp_all add: bitset_flag_defs bit_simps)
  define cells where "cells = new_block (pf_env pf) (unat (c_bitset_storage_bytes cap)) 1"
  have len: "length cells = bitset_storage_bytes (unat cap)" using bitset_bytes_unat [OF cap(2)] by (simp add: cells_def)
  have uc: "0 < unat cap" using cap(1) by (simp add: unat_gt_0)
  let ?s0 = "bitset_set_storage_kind (bbx_core zero_bitset_box) (element_owns OR element_heap)"
  from bitset_init_eq [OF uc cap(2), of cells ?s0] len obtain s1 where
    s1: "bitset_init ?s0 (Some cells) (unat cap) = Some (Ok, s1)" "bitset_wf s1" "bs_capacity s1 = unat cap" by auto
  from bitset_clear_eq [OF s1(2)] obtain s2 where
    s2: "bitset_clear s1 = Some s2" "bitset_wf s2" "bs_capacity s2 = unat cap" "bitset_elems s2 = {}" using s1(3) by auto
  let ?b = "zero_bitset_box\<lparr>bbx_core := s2, bbx_addr := q, bbx_c_flags := ?cf OR BITSET_FLAG_FIXED_CAPACITY\<rparr>"
  have "bitset_box_init pf (Some ?config) zero_bitset_box (write_obj p zero_bitset_box w) = Some (Ok, ?b, w1)"
    using bitset_heap_valid [OF heap cap(1), of fl] heap fl(3) m q s1(1) s2(1)
    by (simp add: bitset_box_init_def allocate_element_storage_def bitset_flag_defs and_flags Let_def fresh_cells_def cells_def)
  then have "c_bitset_init pf p (Some ?config) w = Some (Ok, write_obj p ?b w1)"
    using p by (simp add: c_bitset_init_def zero_opaque_bytes_def dom_def)
  moreover have "bitset_owned pf p ?b" using heap p q cf s2(2) by (simp add: bitset_owned_def)
  ultimately show ?thesis
    using s2(3,4) by (intro exI [of _ ?b]) (simp add: bitset_value_def bitset_blocks_def)
qed

lemma c_bitset_create_heap:
  assumes "pf_heap pf" "cap \<noteq> 0"
  shows "c_bitset_create pf True cap 0 fl w =
    create_object pf MEMKIT_BITSET_OBJ_BYTES (\<lambda>p. c_bitset_init pf p (Some (bitset_heap_config pf cap fl))) w"
proof -
  have again: "c_bitset_init pf p config w1 = Some (Ok, w2) \<Longrightarrow> \<exists>b. read_obj p w2 = Some b \<and> write_obj p b w2 = w2" for p config w1 w2
    by (auto simp: c_bitset_init_def bind_eq_Some_conv split: if_splits)
  show ?thesis
    using assms by (auto simp: c_bitset_create_def create_object_def Let_def intro!: Option.bind_cong split: if_splits dest!: again)
qed

lemma bitset_create_ok:
  assumes ok: "bitset_request_ok pf a"
  shows "(\<exists>st w'. bitset_api_create pf a w = Some (st, None, w') \<and> bitset_create_outcome a st \<and> st \<noteq> Ok \<and>
      cw_live w' = cw_live w \<and> cw_objs w' = cw_objs w) \<or>
    (\<exists>p b w'. bitset_api_create pf a w = Some (Ok, Some p, w') \<and> bitset_create_outcome a Ok \<and> cw_objs w p = None \<and>
      cw_objs w' = (cw_objs w)(p \<mapsto> Some b) \<and> bitset_owned pf p b \<and> bitset_value b = (unat (fst a), {}) \<and>
      bitset_blocks p b \<inter> cw_live w = {} \<and> cw_live w' = cw_live w \<union> bitset_blocks p b)"
proof -
  obtain cap fl where a: "a = (cap, fl)" by (cases a)
  with ok have heap: "pf_heap pf" and fresh: "malloc_fresh pf" and fits: "unat cap + 7 \<le> SIZE_MAX"
    by (simp_all add: bitset_request_ok_def)
  show ?thesis
  proof (cases "cap = 0")
    case True
    then show ?thesis by (simp add: a bitset_api_create_def bitset_create_outcome_def c_bitset_create_def)
  next
    case False
    let ?init = "\<lambda>p. c_bitset_init pf p (Some (bitset_heap_config pf cap fl))"
    show ?thesis
    proof (rule disjE [OF create_object_two_blocks [where n = "c_bitset_storage_bytes cap" and z = zero_bitset_box
          and init = ?init and obj_size = MEMKIT_BITSET_OBJ_BYTES and w = w
          and P = "\<lambda>p q b. bitset_owned pf p b \<and> bitset_value b = (unat cap, {}) \<and> bitset_blocks p b = {p, q}",
          OF heap fresh]], goal_cases)
      case (1 p w1 w')
      with bitset_heap_valid [OF heap False, of fl] bitset_heap_flags [OF heap, of cap fl] heap show ?case
        by (simp add: c_bitset_init_def zero_opaque_bytes_def dom_def bitset_box_init_def
            allocate_element_storage_def bitset_flag_defs and_flags Let_def) (rule exI, rule refl)
    next
      case (2 p q w1 w')
      then show ?case by (rule bitset_init_heap [OF heap False fits])
    next
      case 3
      then obtain w' where "create_object pf MEMKIT_BITSET_OBJ_BYTES ?init w = Some (Oom, None, w')"
        "cw_live w' = cw_live w" "cw_objs w' = cw_objs w" by (elim exE conjE) (rule that; assumption)
      with False heap show ?case
        by (intro disjI1 exI [of _ Oom] exI [of _ w'])
          (simp add: a bitset_api_create_def bitset_create_outcome_def c_bitset_create_heap)
    next
      case 4
      then obtain p q b w' where "create_object pf MEMKIT_BITSET_OBJ_BYTES ?init w = Some (Ok, Some p, w')"
        "cw_objs w p = None" "cw_objs w' = (cw_objs w)(p \<mapsto> Some b)" "bitset_owned pf p b" "bitset_value b = (unat cap, {})"
        "bitset_blocks p b = {p, q}" "{p, q} \<inter> cw_live w = {}" "cw_live w' = cw_live w \<union> {p, q}"
        by (elim exE conjE) (rule that; assumption)
      with False heap show ?case
        by (intro disjI2 exI [of _ p] exI [of _ b] exI [of _ w'])
          (simp add: a bitset_api_create_def bitset_create_outcome_def c_bitset_create_heap)
    qed
  qed
qed

interpretation bitset_api: owned_objects "bitset_owned pf" bitset_blocks bitset_value "bitset_request_ok pf" bitset_create_outcome
    "\<lambda>a. (unat (fst a), {})" bits_step bits_null "bitset_api_create pf" bits_api_call "c_bitset_destroy pf" for pf
proof unfold_locales
  show "bits_api_call c ptr 0 w = Some (bits_null c, w)" for c ptr w
    by (cases c) (simp_all add: c_bitset_set_def c_bitset_reset_def c_bitset_toggle_def c_bitset_test_def c_bitset_clear_def
        c_bitset_set_all_def c_bitset_complement_def c_bitset_size_def c_bitset_find_first_set_def c_bitset_find_def c_bitset_union_with_def
        c_bitset_intersect_with_def c_bitset_xor_with_def c_bitset_two_def c_bitset_equal_def)
  show "c_bitset_destroy pf 0 w = Some w" for w
    by (simp add: c_bitset_destroy_def destroy_owned_object_def)
  show "p \<noteq> 0 \<and> p \<in> bitset_blocks p b" if "bitset_owned pf p b" for p b
    using that by (simp add: bitset_owned_def bitset_blocks_def)
qed (rule bitset_create_ok bitset_api_call_ok bitset_destroy_ok; assumption)+

section \<open>Properties\<close>

text \<open> C7.
  In a build with a heap, any sequence of \<open>bitset_create\<close> without an arena, operations, and \<open>bitset_destroy\<close> on any number of
  bitsets, null pointers included, is memory safe whatever \<open>malloc\<close> answers, as long as the blocks it grants are not in use. The operations are those on single bits and on the
  whole set, and union, intersection, symmetric difference and the test for equality of two sets of the client, also of a set with
  itself (\<open>bitset_copy\<close>, the byte transfers and \<open>bitset_foreach\<close> are not among them). Every bitset behaves as a set of indices
  below its capacity, two sets of different capacity are refused, a failed creation leaves nothing behind, and two blocks of the heap
  belong to every bitset that is left. A capacity asked for must not exceed \<open>SIZE_MAX - 7\<close>. Without that limit the claim is
  false, by the lemma \<open>bitset_create_wraps\<close> below.
\<close>

theorem bitset_api_clients:
  assumes "pf_heap pf" "malloc_fresh pf" and sizes: "\<forall>cap fl. Make (cap, fl) \<in> set cs \<longrightarrow> unat cap + 7 \<le> SIZE_MAX"
  shows "\<exists>rs w' hs xs.
    client_run (bitset_api_create pf) bits_api_call (c_bitset_destroy pf) (w, []) cs = Some (rs, w', hs) \<and>
    client_accepts bitset_create_outcome (\<lambda>a. (unat (fst a), {})) bits_step bits_null [] cs rs = Some xs \<and>
    cw_live w \<subseteq> cw_live w' \<and> card (cw_live w' - cw_live w) = 2 * length (filter (\<lambda>x. x \<noteq> None) xs) \<and>
    ((\<forall>x \<in> set xs. x = None) \<longrightarrow> cw_live w' = cw_live w)"
proof -
  have good: "bitset_request_ok pf a" if "Make a \<in> set cs" for a
    using that assms by (cases a) (auto simp: bitset_request_ok_def)
  from bitset_api.client_run_start [OF good] obtain rs w' hs xs where
    run: "client_run (bitset_api_create pf) bits_api_call (c_bitset_destroy pf) (w, []) cs = Some (rs, w', hs)"
    "client_accepts bitset_create_outcome (\<lambda>a. (unat (fst a), {})) bits_step bits_null [] cs rs = Some xs"
    and h: "bitset_api.holds pf (cw_live w) (w', hs) xs" by blast
  have "finite (bitset_blocks p b) \<and> card (bitset_blocks p b) = 2" if "bitset_owned pf p b" for p b
    using that by (auto simp: bitset_owned_def bitset_blocks_def card_insert_if)
  from bitset_api.holds_card [OF h this] bitset_api.holds_end [OF h] run show ?thesis by blast
qed

definition byte_platform :: "u8 platform" where
  "byte_platform =
     \<lparr>pf_env = \<lparr>env_allow_heap = True, env_malloc = (\<lambda>_. True), env_grow = (\<lambda>_ _. Ok), env_junk = (\<lambda>_. 170)\<rparr>, pf_max_align = 16,
      pf_malloc = (\<lambda>k A n. let p = 4096 * of_nat (Suc k) in if p = 0 \<or> p \<in> A then None else Some p)\<rparr>"

lemma byte_platform_simps [simp]: "pf_heap byte_platform" "malloc_fresh byte_platform"
  by (auto simp: byte_platform_def malloc_fresh_def Let_def split: if_splits)

theorem bitset_api_clients_witness:
  "\<exists>rs w' hs. client_run (bitset_api_create byte_platform) bits_api_call (c_bitset_destroy byte_platform)
      (empty_world, []) [Make (12, 0), Make (12, 0), Call 0 (Bits_set 7), Call 1 (Bits_union 0), Call 1 (Bits_equal 0), Destroy 0, Destroy 1] =
      Some (rs, w', hs) \<and> cw_live w' = {}"
proof -
  let ?cs = "[Make (12, 0), Make (12, 0), Call 0 (Bits_set 7), Call 1 (Bits_union 0), Call 1 (Bits_equal 0), Destroy 0, Destroy 1]
    :: (u64 \<times> u32, bits_cmd) client_cmd list"
  have sizes: "\<forall>cap fl. Make (cap, fl) \<in> set ?cs \<longrightarrow> unat cap + 7 \<le> SIZE_MAX"
    by (simp add: SIZE_MAX_def)
  from bitset_api_clients [of byte_platform ?cs empty_world, OF byte_platform_simps sizes]
  obtain rs w' hs xs where run: "client_run (bitset_api_create byte_platform) bits_api_call
      (c_bitset_destroy byte_platform) (empty_world, []) ?cs = Some (rs, w', hs)"
    and acc: "client_accepts bitset_create_outcome (\<lambda>a. (unat (fst a), {})) bits_step bits_null [] ?cs rs = Some xs"
    and done': "(\<forall>x \<in> set xs. x = None) \<longrightarrow> cw_live w' = cw_live (empty_world :: bitset_box world)"
    by blast
  have "xs = [None, None]"
    using acc by (auto simp: client_accepts_cases abstract_value_def bits_combine_def split: if_splits)
  with done' run show ?thesis by (auto simp: empty_world_def)
qed

text \<open>
  \<open>capacity + 7\<close> wraps around for the largest capacities: the block has no bytes, and setting a bit writes past its end.
\<close>

lemma bitset_create_wraps:
  "\<exists>w1. c_bitset_create byte_platform True 18446744073709551610 0 0 empty_world = Some (Ok, Some 4096, w1) \<and>
    c_bitset_set 4096 0 w1 = None"
  by (simp add: c_bitset_create_def allocate_object_def byte_platform_def empty_world_def c_malloc_def c_bitset_init_def
      zero_opaque_bytes_def write_obj_def read_obj_def bitset_box_init_def bitset_validate_config_def bitset_flag_defs
      owned_create_config_flags_def bitset_storage_flags_def allocate_element_storage_def Let_def fresh_cells_def
      new_block_def bitset_init_def bitset_set_storage_kind_def zero_bitset_box_def c_bitset_storage_bytes_def
      bitset_storage_bytes_def sz_add_def bitset_clear_def fill_bytes_def c_bitset_set_def with_bits_def bitset_set_def
      bitset_modify_def)

end
