(* ===== verification/Handle_Pool_Api.thy ===== *)
theory Handle_Pool_Api
  imports Handle_Pool_Correct C_Client
begin

text \<open>
  The C interface of the handle pool: \<^verbatim>\<open>include/memkit/c_api/handle_pool_box.hpp\<close> and
  \<^verbatim>\<open>src/c_api/bindings/handle_pool.inc.cpp\<close>. A pool owns up to three blocks beside its object: the
  storage, the generations and the free stack.

  The core's model has the address of the storage and the cells of the two arrays; \<open>hb_gen\<close> and
  \<open>hb_free\<close> are the addresses of the arrays the core points to (0 when it points to none).
\<close>

section \<open>handle_pool_box.hpp\<close>

definition HANDLE_POOL_FLAG_OWNS_STORAGE :: u32 where "HANDLE_POOL_FLAG_OWNS_STORAGE = 1"
definition HANDLE_POOL_FLAG_OWNS_META :: u32 where "HANDLE_POOL_FLAG_OWNS_META = 2"
definition HANDLE_POOL_FLAG_OWNS_SELF :: u32 where "HANDLE_POOL_FLAG_OWNS_SELF = 4"
definition HANDLE_POOL_FLAG_DYNAMIC_STORAGE :: u32 where "HANDLE_POOL_FLAG_DYNAMIC_STORAGE = 8"
definition HANDLE_POOL_FLAG_ARENA_STORAGE :: u32 where "HANDLE_POOL_FLAG_ARENA_STORAGE = 16"
definition HANDLE_POOL_FLAG_FIXED_CAPACITY :: u32 where "HANDLE_POOL_FLAG_FIXED_CAPACITY = 32"

lemmas handle_flag_defs = HANDLE_POOL_FLAG_OWNS_STORAGE_def HANDLE_POOL_FLAG_OWNS_META_def HANDLE_POOL_FLAG_OWNS_SELF_def
  HANDLE_POOL_FLAG_DYNAMIC_STORAGE_def HANDLE_POOL_FLAG_ARENA_STORAGE_def HANDLE_POOL_FLAG_FIXED_CAPACITY_def

record handle_pool_config =
  hc_elem_size :: u64
  hc_capacity :: u64
  hc_storage :: u64
  hc_storage_bytes :: u64
  hc_generations :: u64
  hc_gen_cells :: "u16 list"
  hc_generations_bytes :: u64
  hc_free_stack :: u64
  hc_free_cells :: "u32 list"
  hc_free_stack_bytes :: u64
  hc_arena :: u64
  hc_flags :: u32

record handle_pool_box =
  hb_core :: handle_pool
  hb_gen :: u64
  hb_free :: u64
  hb_c_flags :: u32

definition zero_handle_pool_box :: handle_pool_box where
  "zero_handle_pool_box =
     \<lparr>hb_core = \<lparr>hpl_storage = 0, hpl_generations = None, hpl_free = None, hpl_capacity = 0, hpl_elem_size = 0,
        hpl_elem_align = 0, hpl_live_count = 0, hpl_free_count = 0, hpl_kind = 0\<rparr>,
      hb_gen = 0, hb_free = 0, hb_c_flags = 0\<rparr>"

definition generations_bytes :: "u64 \<Rightarrow> u64" where
  "generations_bytes capacity = capacity * 2"

definition free_stack_bytes :: "u64 \<Rightarrow> u64" where
  "free_stack_bytes capacity = capacity * 4"

text \<open>\<open>handle_pool_status_t\<close> has no \<open>not_found\<close>.\<close>

definition to_handle_pool_status :: "status \<Rightarrow> status" where
  "to_handle_pool_status st = (if st = Not_found then Invalid else st)"

definition handle_pool_validate_config :: "handle_pool_config option \<Rightarrow> status" where
  "handle_pool_validate_config config =
     (case config of
        None \<Rightarrow> Null_ptr
      | Some c \<Rightarrow>
          if hc_elem_size c = 0 \<or> hc_capacity c = 0 then Invalid
          else
            let has_storage = hc_storage c \<noteq> 0;
                has_generations = hc_generations c \<noteq> 0;
                has_free_stack = hc_free_stack c \<noteq> 0;
                wants_owned = hc_flags c AND HANDLE_POOL_FLAG_OWNS_STORAGE \<noteq> 0 \<or>
                  hc_flags c AND HANDLE_POOL_FLAG_DYNAMIC_STORAGE \<noteq> 0 \<or> hc_flags c AND HANDLE_POOL_FLAG_ARENA_STORAGE \<noteq> 0
            in
            if has_storage \<and> hc_storage_bytes c < hc_elem_size c * hc_capacity c then Invalid
            else if \<not> has_storage \<and> hc_arena c = 0 \<and> hc_flags c AND HANDLE_POOL_FLAG_DYNAMIC_STORAGE = 0 then Invalid
            else if has_generations \<and> hc_generations_bytes c < generations_bytes (hc_capacity c) then Invalid
            else if has_free_stack \<and> hc_free_stack_bytes c < free_stack_bytes (hc_capacity c) then Invalid
            else if (\<not> has_generations \<or> \<not> has_free_stack) \<and> hc_arena c = 0 \<and>
                hc_flags c AND HANDLE_POOL_FLAG_DYNAMIC_STORAGE = 0 \<and> (\<not> has_storage \<or> \<not> wants_owned) then Invalid
            else Ok)"

text \<open>The status and the block.\<close>

definition handle_pool_alloc_raw :: "u32 platform \<Rightarrow> u64 \<Rightarrow> u64 \<Rightarrow> u64 \<Rightarrow> 'o world \<Rightarrow> (status \<times> u64 \<times> 'o world) option" where
  "handle_pool_alloc_raw pf arena bytes alignment w =
     (if arena \<noteq> 0 then do {
        (st, p, w1) \<leftarrow> c_arena_alloc arena bytes alignment w;
        Some (if st \<noteq> Arena_ok then (if st = Arena_err_oom then Oom else Invalid) else Ok, p, w1)
      }
      else if pf_heap pf then (let (p, w1) = c_malloc pf bytes w in Some (if p = 0 then Oom else Ok, p, w1))
      else Some (Oom, 0, w))"

definition handle_pool_allocate_storage ::
  "u32 platform \<Rightarrow> handle_pool_config \<Rightarrow> handle_pool_box \<Rightarrow> 'o world \<Rightarrow> (status \<times> u64 \<times> handle_pool_box \<times> 'o world) option" where
  "handle_pool_allocate_storage pf c b w =
     (if hc_storage c \<noteq> 0
      then Some (Ok, hc_storage c, b\<lparr>hb_core := handle_pool_set_storage_kind (hb_core b) element_external\<rparr>, w)
      else do {
        (st, p, w1) \<leftarrow> handle_pool_alloc_raw pf (hc_arena c) (hc_elem_size c * hc_capacity c)
          (elem_bytes_alignment (pf_max_align pf) (hc_elem_size c)) w;
        if st \<noteq> Ok then Some (st, 0, b, w1)
        else if hc_arena c \<noteq> 0 then
          Some (Ok, p, b\<lparr>hb_core := handle_pool_set_storage_kind (hb_core b) (element_owns OR element_arena),
            hb_c_flags := hb_c_flags b OR (HANDLE_POOL_FLAG_OWNS_STORAGE OR HANDLE_POOL_FLAG_ARENA_STORAGE)\<rparr>, w1)
        else if pf_heap pf \<and> hc_flags c AND HANDLE_POOL_FLAG_DYNAMIC_STORAGE \<noteq> 0 then
          Some (Ok, p, b\<lparr>hb_core := handle_pool_set_storage_kind (hb_core b) (element_owns OR element_heap),
            hb_c_flags := hb_c_flags b OR (HANDLE_POOL_FLAG_OWNS_STORAGE OR HANDLE_POOL_FLAG_DYNAMIC_STORAGE)\<rparr>, w1)
        else Some (Ok, p, b\<lparr>hb_core := handle_pool_set_storage_kind (hb_core b) element_owns\<rparr>, w1)
      })"

text \<open>Fresh arrays have unspecified cells.\<close>

definition fresh_generations :: "u32 platform \<Rightarrow> u64 \<Rightarrow> u16 list" where
  "fresh_generations pf bytes = map ucast (new_block (pf_env pf) (unat bytes) 2)"

definition fresh_free_stack :: "u32 platform \<Rightarrow> u64 \<Rightarrow> u32 list" where
  "fresh_free_stack pf bytes = new_block (pf_env pf) (unat bytes) 4"

text \<open>The status, the generations, the free stack (address and cells), and the box with its new flags.\<close>

definition handle_pool_allocate_meta ::
  "u32 platform \<Rightarrow> handle_pool_config \<Rightarrow> handle_pool_box \<Rightarrow> 'o world \<Rightarrow>
   (status \<times> (u64 \<times> u16 mem) \<times> (u64 \<times> u32 mem) \<times> handle_pool_box \<times> 'o world) option" where
  "handle_pool_allocate_meta pf c b w =
     (if hc_generations c \<noteq> 0 \<and> hc_free_stack c \<noteq> 0
      then Some (Ok, (hc_generations c, Some (hc_gen_cells c)), (hc_free_stack c, Some (hc_free_cells c)), b, w)
      else do {
        (st1, g, w1) \<leftarrow> (if hc_generations c = 0
          then handle_pool_alloc_raw pf (hc_arena c) (generations_bytes (hc_capacity c)) 2 w else Some (Ok, 0, w));
        if st1 \<noteq> Ok then Some (st1, (0, None), (0, None), b, w1)
        else do {
          let gens = (if hc_generations c = 0 then (g, Some (fresh_generations pf (generations_bytes (hc_capacity c))))
                      else (hc_generations c, Some (hc_gen_cells c)));
          (st2, f, w2) \<leftarrow> (if hc_free_stack c = 0
            then handle_pool_alloc_raw pf (hc_arena c) (free_stack_bytes (hc_capacity c)) 4 w1 else Some (Ok, 0, w1));
          if st2 \<noteq> Ok then do {
            w3 \<leftarrow> (if g \<noteq> 0 \<and> pf_heap pf \<and> hc_arena c = 0 then c_free g w2 else Some w2);
            Some (st2, (0, None), (0, None), b, w3)
          }
          else do {
            let free = (if hc_free_stack c = 0 then (f, Some (fresh_free_stack pf (free_stack_bytes (hc_capacity c))))
                        else (hc_free_stack c, Some (hc_free_cells c)));
            let b' = (if g \<noteq> 0 \<or> f \<noteq> 0
                  then b\<lparr>hb_c_flags := hb_c_flags b OR HANDLE_POOL_FLAG_OWNS_META OR
                    (if hc_arena c \<noteq> 0 then HANDLE_POOL_FLAG_ARENA_STORAGE
                     else if pf_heap pf \<and> hc_flags c AND HANDLE_POOL_FLAG_DYNAMIC_STORAGE \<noteq> 0 then HANDLE_POOL_FLAG_DYNAMIC_STORAGE
                     else 0)\<rparr>
                  else b);
            Some (Ok, gens, free, b', w2)
          }
        }
      })"

definition release_owned_block :: "u32 platform \<Rightarrow> handle_pool_box \<Rightarrow> u64 \<Rightarrow> u32 \<Rightarrow> 'o world \<Rightarrow> 'o world option" where
  "release_owned_block pf b p dynamic_flag w =
     (if p = 0 then Some w
      else if pf_heap pf \<and> hb_c_flags b AND dynamic_flag \<noteq> 0 then c_free p w else Some w)"

definition handle_pool_release_storage :: "u32 platform \<Rightarrow> handle_pool_box \<Rightarrow> 'o world \<Rightarrow> 'o world option" where
  "handle_pool_release_storage pf b w =
     (if hb_c_flags b AND HANDLE_POOL_FLAG_OWNS_STORAGE = 0 then Some w
      else release_owned_block pf b (of_nat (hpl_storage (hb_core b))) HANDLE_POOL_FLAG_DYNAMIC_STORAGE w)"

definition handle_pool_release_meta :: "u32 platform \<Rightarrow> handle_pool_box \<Rightarrow> 'o world \<Rightarrow> 'o world option" where
  "handle_pool_release_meta pf b w =
     (if hb_c_flags b AND HANDLE_POOL_FLAG_OWNS_META = 0 then Some w
      else do {
        w1 \<leftarrow> release_owned_block pf b (hb_gen b) HANDLE_POOL_FLAG_DYNAMIC_STORAGE w;
        release_owned_block pf b (hb_free b) HANDLE_POOL_FLAG_DYNAMIC_STORAGE w1
      })"

definition handle_pool_box_reset :: "handle_pool_box \<Rightarrow> handle_pool_box" where
  "handle_pool_box_reset b = b\<lparr>hb_core := handle_pool_reset_state (hb_core b), hb_gen := 0, hb_free := 0\<rparr>"

definition handle_pool_box_init ::
  "u32 platform \<Rightarrow> handle_pool_config option \<Rightarrow> handle_pool_box \<Rightarrow> 'o world \<Rightarrow> (status \<times> handle_pool_box \<times> 'o world) option" where
  "handle_pool_box_init pf config b w =
     (let valid = handle_pool_validate_config config in
      if valid \<noteq> Ok then Some (valid, b, w)
      else
        let c = the config;
            b0 = b\<lparr>hb_c_flags := hc_flags c AND NOT (HANDLE_POOL_FLAG_OWNS_STORAGE OR HANDLE_POOL_FLAG_OWNS_META OR
              HANDLE_POOL_FLAG_DYNAMIC_STORAGE OR HANDLE_POOL_FLAG_ARENA_STORAGE OR HANDLE_POOL_FLAG_FIXED_CAPACITY)\<rparr>
        in do {
          (storage_status, storage, b1, w1) \<leftarrow> handle_pool_allocate_storage pf c b0 w;
          if storage_status \<noteq> Ok then Some (storage_status, handle_pool_box_reset b1, w1)
          else do {
            (meta_status, (gen, gen_cells), (free, free_cells), b2, w2) \<leftarrow> handle_pool_allocate_meta pf c b1 w1;
            if meta_status \<noteq> Ok then do {
              w3 \<leftarrow> handle_pool_release_storage pf b2 w2;
              Some (meta_status, handle_pool_box_reset b2, w3)
            }
            else do {
              (st, core) \<leftarrow> handle_pool_init (hb_core b2) (unat storage) gen_cells free_cells (unat (hc_capacity c))
                (unat (hc_elem_size c)) (unat (elem_bytes_alignment (pf_max_align pf) (hc_elem_size c)));
              if st \<noteq> Ok then do {
                w3 \<leftarrow> handle_pool_release_meta pf b2 w2;
                w4 \<leftarrow> handle_pool_release_storage pf b2 w3;
                Some (to_handle_pool_status st, handle_pool_box_reset b2, w4)
              }
              else Some (Ok, b2\<lparr>hb_core := core, hb_gen := gen, hb_free := free,
                hb_c_flags := (if hc_storage c \<noteq> 0 \<and> hc_flags c AND HANDLE_POOL_FLAG_OWNS_STORAGE \<noteq> 0
                  then hb_c_flags b2 OR HANDLE_POOL_FLAG_OWNS_STORAGE else hb_c_flags b2) OR HANDLE_POOL_FLAG_FIXED_CAPACITY\<rparr>, w2)
            }
          }
        })"

definition handle_pool_box_deinit :: "u32 platform \<Rightarrow> handle_pool_box \<Rightarrow> 'o world \<Rightarrow> (handle_pool_box \<times> 'o world) option" where
  "handle_pool_box_deinit pf b w = do {
     w1 \<leftarrow> handle_pool_release_storage pf b w;
     w2 \<leftarrow> handle_pool_release_meta pf b w1;
     Some ((handle_pool_box_reset b)\<lparr>hb_c_flags := 0\<rparr>, w2)
   }"

section \<open>bindings/handle_pool.inc.cpp\<close>

definition MEMKIT_HANDLE_POOL_OBJ_BYTES :: u64 where "MEMKIT_HANDLE_POOL_OBJ_BYTES = 128"

definition handle_pool_storage_bytes :: "u64 \<Rightarrow> u64 \<Rightarrow> u64" where
  "handle_pool_storage_bytes elem_size capacity = elem_size * capacity"

definition c_handle_pool_init ::
  "u32 platform \<Rightarrow> u64 \<Rightarrow> handle_pool_config option \<Rightarrow> handle_pool_box world \<Rightarrow> (status \<times> handle_pool_box world) option" where
  "c_handle_pool_init pf p config w =
     (if p = 0 then Some (Null_ptr, w)
      else do {
        w1 \<leftarrow> zero_opaque_bytes zero_handle_pool_box p w;
        b \<leftarrow> read_obj p w1;
        (st, b', w2) \<leftarrow> handle_pool_box_init pf config b w1;
        Some (st, write_obj p b' w2)
      })"

definition handle_pool_storage_flags :: owned_storage_flags where
  "handle_pool_storage_flags =
     \<lparr>os_owns_storage = HANDLE_POOL_FLAG_OWNS_STORAGE, os_dynamic_storage = HANDLE_POOL_FLAG_DYNAMIC_STORAGE,
      os_arena_storage = HANDLE_POOL_FLAG_ARENA_STORAGE, os_owns_self = HANDLE_POOL_FLAG_OWNS_SELF\<rparr>"

definition c_handle_pool_create ::
  "u32 platform \<Rightarrow> bool \<Rightarrow> u64 \<Rightarrow> u64 \<Rightarrow> u64 \<Rightarrow> u32 \<Rightarrow> handle_pool_box world \<Rightarrow>
   (status \<times> u64 option \<times> handle_pool_box world) option" where
  "c_handle_pool_create pf has_out elem_size capacity arena flags w =
     (if \<not> has_out then Some (Null_ptr, None, w)
      else if elem_size = 0 \<or> capacity = 0 then Some (Invalid, None, w)
      else if \<not> pf_heap pf \<and> arena = 0 then Some (Unsupported, None, w)
      else do {
        (granted, pool, w1) \<leftarrow> allocate_object pf MEMKIT_HANDLE_POOL_OBJ_BYTES (pf_max_align pf) arena w;
        if \<not> granted then Some (if arena = 0 then Oom else Invalid, None, w1)
        else do {
          let config = \<lparr>hc_elem_size = elem_size, hc_capacity = capacity, hc_storage = 0, hc_storage_bytes = 0,
                hc_generations = 0, hc_gen_cells = [], hc_generations_bytes = 0, hc_free_stack = 0, hc_free_cells = [],
                hc_free_stack_bytes = 0, hc_arena = arena,
                hc_flags = owned_create_config_flags pf
                  (flags OR HANDLE_POOL_FLAG_OWNS_STORAGE OR HANDLE_POOL_FLAG_FIXED_CAPACITY) arena handle_pool_storage_flags 0\<rparr>;
          (st, w2) \<leftarrow> c_handle_pool_init pf pool (Some config) w1;
          if st \<noteq> Ok then do {
            w3 \<leftarrow> release_uninitialized_object pf arena pool w2;
            Some (st, None, w3)
          }
          else do {
            b \<leftarrow> read_obj pool w2;
            let b' = (if \<not> pf_heap pf \<or> arena \<noteq> 0 then b\<lparr>hb_c_flags := hb_c_flags b OR HANDLE_POOL_FLAG_OWNS_SELF\<rparr> else b);
            Some (Ok, Some pool, write_obj pool b' w2)
          }
        }
      })"

definition c_handle_pool_deinit :: "u32 platform \<Rightarrow> u64 \<Rightarrow> handle_pool_box world \<Rightarrow> handle_pool_box world option" where
  "c_handle_pool_deinit pf p w =
     (if p = 0 then Some w
      else do {
        b \<leftarrow> read_obj p w;
        (b', w1) \<leftarrow> handle_pool_box_deinit pf b w;
        Some (write_obj p b' w1)
      })"

definition c_handle_pool_destroy :: "u32 platform \<Rightarrow> u64 \<Rightarrow> handle_pool_box world \<Rightarrow> handle_pool_box world option" where
  "c_handle_pool_destroy pf p w =
     destroy_owned_object pf hb_c_flags p HANDLE_POOL_FLAG_OWNS_SELF HANDLE_POOL_FLAG_DYNAMIC_STORAGE (c_handle_pool_deinit pf) w"

definition of_pool :: "u64 \<Rightarrow> handle_pool_box world \<Rightarrow> (handle_pool \<Rightarrow> 'r option) \<Rightarrow> 'r option" where
  "of_pool p w f = do {
     b \<leftarrow> read_obj p w;
     f (hb_core b)
   }"

definition c_handle_pool_size :: "u64 \<Rightarrow> handle_pool_box world \<Rightarrow> nat option" where
  "c_handle_pool_size p w = (if p = 0 then Some 0 else of_pool p w (\<lambda>s. Some (hpl_live_count s)))"

definition c_handle_pool_capacity :: "u64 \<Rightarrow> handle_pool_box world \<Rightarrow> nat option" where
  "c_handle_pool_capacity p w = (if p = 0 then Some 0 else of_pool p w (\<lambda>s. Some (hpl_capacity s)))"

definition c_handle_pool_available :: "u64 \<Rightarrow> handle_pool_box world \<Rightarrow> nat option" where
  "c_handle_pool_available p w = (if p = 0 then Some 0 else of_pool p w (\<lambda>s. Some (hpl_free_count s)))"

definition c_handle_pool_empty :: "u64 \<Rightarrow> handle_pool_box world \<Rightarrow> bool option" where
  "c_handle_pool_empty p w = (if p = 0 then Some True else of_pool p w (\<lambda>s. Some (hpl_live_count s = 0)))"

definition c_handle_pool_full :: "u64 \<Rightarrow> handle_pool_box world \<Rightarrow> bool option" where
  "c_handle_pool_full p w = (if p = 0 then Some False else of_pool p w (\<lambda>s. Some (hpl_free_count s = 0)))"

text \<open>\<open>nulls\<close>: one of the out parameters is null.\<close>

definition c_handle_pool_acquire ::
  "u64 \<Rightarrow> bool \<Rightarrow> handle_pool_box world \<Rightarrow> (status \<times> (nat \<times> u32) option \<times> handle_pool_box world) option" where
  "c_handle_pool_acquire p nulls w =
     (if p = 0 \<or> nulls then Some (Null_ptr, None, w)
      else do {
        b \<leftarrow> read_obj p w;
        (st, out, core) \<leftarrow> handle_pool_acquire (hb_core b) False;
        Some (to_handle_pool_status st, out, write_obj p (b\<lparr>hb_core := core\<rparr>) w)
      })"

definition c_handle_pool_release :: "u64 \<Rightarrow> u32 \<Rightarrow> handle_pool_box world \<Rightarrow> (status \<times> handle_pool_box world) option" where
  "c_handle_pool_release p handle w =
     (if p = 0 then Some (Null_ptr, w)
      else do {
        b \<leftarrow> read_obj p w;
        (st, core) \<leftarrow> handle_pool_release (hb_core b) handle;
        Some (to_handle_pool_status st, write_obj p (b\<lparr>hb_core := core\<rparr>) w)
      })"

definition c_handle_pool_get :: "u64 \<Rightarrow> u32 \<Rightarrow> bool \<Rightarrow> handle_pool_box world \<Rightarrow> (status \<times> nat option) option" where
  "c_handle_pool_get p handle null w =
     (if p = 0 \<or> null then Some (Null_ptr, None)
      else of_pool p w (\<lambda>s. map_option (\<lambda>(st, out). (to_handle_pool_status st, out)) (handle_pool_get s handle False)))"

definition c_handle_pool_valid :: "u64 \<Rightarrow> u32 \<Rightarrow> handle_pool_box world \<Rightarrow> bool option" where
  "c_handle_pool_valid p handle w = (if p = 0 then Some False else of_pool p w (\<lambda>s. handle_pool_valid s handle))"

section \<open>Pools on the heap\<close>

abbreviation handle_pool_heap_config :: "u32 platform \<Rightarrow> u64 \<Rightarrow> u64 \<Rightarrow> u32 \<Rightarrow> handle_pool_config" where
  "handle_pool_heap_config pf es cap fl \<equiv>
     \<lparr>hc_elem_size = es, hc_capacity = cap, hc_storage = 0, hc_storage_bytes = 0, hc_generations = 0, hc_gen_cells = [],
      hc_generations_bytes = 0, hc_free_stack = 0, hc_free_cells = [], hc_free_stack_bytes = 0, hc_arena = 0,
      hc_flags = owned_create_config_flags pf (fl OR HANDLE_POOL_FLAG_OWNS_STORAGE OR HANDLE_POOL_FLAG_FIXED_CAPACITY) 0
        handle_pool_storage_flags 0\<rparr>"

lemma handle_pool_heap_flags:
  assumes "pf_heap pf"
  shows "bit (hc_flags (handle_pool_heap_config pf es cap fl)) 2" "bit (hc_flags (handle_pool_heap_config pf es cap fl)) 3"
  using assms by (simp_all add: owned_create_config_flags_def handle_pool_storage_flags_def handle_flag_defs bit_simps)

lemma handle_pool_heap_valid:
  assumes "pf_heap pf" "es \<noteq> 0" "cap \<noteq> 0"
  shows "handle_pool_validate_config (Some (handle_pool_heap_config pf es cap fl)) = Ok"
  using handle_pool_heap_flags [OF assms(1), of es cap fl] assms(2,3)
  by (simp add: handle_pool_validate_config_def handle_flag_defs and_flags)

lemma handle_pool_storage_heap:
  assumes "pf_heap pf" "c_malloc pf (es * cap) w = (q, w1)"
  shows "handle_pool_allocate_storage pf (handle_pool_heap_config pf es cap fl) b w =
    Some (if q = 0 then (Oom, 0, b, w1)
      else (Ok, q, b\<lparr>hb_core := handle_pool_set_storage_kind (hb_core b) (element_owns OR element_heap),
        hb_c_flags := hb_c_flags b OR (HANDLE_POOL_FLAG_OWNS_STORAGE OR HANDLE_POOL_FLAG_DYNAMIC_STORAGE)\<rparr>, w1))"
  using handle_pool_heap_flags(2) [OF assms(1), of es cap fl] assms
  by (simp add: handle_pool_allocate_storage_def handle_pool_alloc_raw_def HANDLE_POOL_FLAG_DYNAMIC_STORAGE_def and_flags)

lemma handle_pool_meta_heap:
  assumes "pf_heap pf" "c_malloc pf (generations_bytes cap) w = (g, w1)" "c_malloc pf (free_stack_bytes cap) w1 = (f, w2)"
  shows "g = 0 \<Longrightarrow> handle_pool_allocate_meta pf (handle_pool_heap_config pf es cap fl) b w = Some (Oom, (0, None), (0, None), b, w1)"
    "g \<noteq> 0 \<Longrightarrow> f = 0 \<Longrightarrow> c_free g w2 = Some w3 \<Longrightarrow>
      handle_pool_allocate_meta pf (handle_pool_heap_config pf es cap fl) b w = Some (Oom, (0, None), (0, None), b, w3)"
    "g \<noteq> 0 \<Longrightarrow> f \<noteq> 0 \<Longrightarrow> handle_pool_allocate_meta pf (handle_pool_heap_config pf es cap fl) b w =
      Some (Ok, (g, Some (fresh_generations pf (generations_bytes cap))), (f, Some (fresh_free_stack pf (free_stack_bytes cap))),
        b\<lparr>hb_c_flags := hb_c_flags b OR HANDLE_POOL_FLAG_OWNS_META OR HANDLE_POOL_FLAG_DYNAMIC_STORAGE\<rparr>, w2)"
  using handle_pool_heap_flags(2) [OF assms(1), of es cap fl] assms
  by (simp_all add: handle_pool_allocate_meta_def handle_pool_alloc_raw_def HANDLE_POOL_FLAG_DYNAMIC_STORAGE_def and_flags)

text \<open>Releasing the memory of a pool that is not initialized yet releases nothing: the core has no addresses.\<close>

lemma handle_pool_release_null:
  assumes "hpl_storage (hb_core b) = 0" "hb_gen b = 0" "hb_free b = 0"
  shows "handle_pool_release_storage pf b w = Some w" "handle_pool_release_meta pf b w = Some w"
  using assms by (simp_all add: handle_pool_release_storage_def handle_pool_release_meta_def release_owned_block_def)

lemma index_mask_unat: "unat index_mask = 65535"
  by (simp add: index_mask_def)

lemma handle_pool_init_too_many:
  assumes "65536 < capacity" "capacity \<le> SIZE_MAX"
  shows "handle_pool_init s storage gens free capacity elem_size align = Some (Invalid, s)"
proof -
  have "sz_sub capacity 1 = capacity - 1" using assms by (intro sz_sub_eq) auto
  moreover have "65535 < capacity - 1" using assms(1) by linarith
  ultimately show ?thesis by (simp only: handle_pool_init_def index_mask_unat if_True simp_thms if_cancel)
qed

lemma handle_pool_init_runs:
  assumes "storage \<noteq> 0" "capacity \<noteq> 0" "elem_size \<noteq> 0" "capacity \<le> length gs" "capacity \<le> length fs" "capacity \<le> 65536"
  shows "\<exists>s'. handle_pool_init s storage (Some gs) (Some fs) capacity elem_size align = Some (Ok, s') \<and> hpl_storage s' = storage"
proof -
  from handle_pool_reset_loop_eq [of 0 capacity gs fs capacity] assms obtain gs' fs' where
    "handle_pool_reset_loop (Some gs) (Some fs) capacity 0 capacity = Some (Some gs', Some fs')" by auto
  moreover have "sz_sub capacity 1 = capacity - 1" using assms by (intro sz_sub_eq) (auto simp: SIZE_MAX_def)
  ultimately show ?thesis using assms by (simp add: handle_pool_init_def handle_pool_reset_free_list_def index_mask_unat)
qed

text \<open>The outcomes of \<open>init\<close> on a zeroed box.\<close>

lemma handle_pool_box_init_heap:
  fixes w :: "'a world" and fl :: u32
  assumes heap: "pf_heap pf" and sizes: "es \<noteq> 0" "cap \<noteq> 0"
    and m2: "c_malloc pf (es * cap) w = (q2, w2)" and m3: "c_malloc pf (generations_bytes cap) w2 = (q3, w3)"
    and m4: "c_malloc pf (free_stack_bytes cap) w3 = (q4, w4)"
  shows "q2 = 0 \<Longrightarrow> \<exists>b. handle_pool_box_init pf (Some (handle_pool_heap_config pf es cap fl)) zero_handle_pool_box w = Some (Oom, b, w2)"
    "q2 \<noteq> 0 \<Longrightarrow> q3 = 0 \<Longrightarrow>
      \<exists>b. handle_pool_box_init pf (Some (handle_pool_heap_config pf es cap fl)) zero_handle_pool_box w = Some (Oom, b, w3)"
    "q2 \<noteq> 0 \<Longrightarrow> q3 \<noteq> 0 \<Longrightarrow> q4 = 0 \<Longrightarrow> c_free q3 w4 = Some w5 \<Longrightarrow>
      \<exists>b. handle_pool_box_init pf (Some (handle_pool_heap_config pf es cap fl)) zero_handle_pool_box w = Some (Oom, b, w5)"
    "q2 \<noteq> 0 \<Longrightarrow> q3 \<noteq> 0 \<Longrightarrow> q4 \<noteq> 0 \<Longrightarrow> 65536 < unat cap \<Longrightarrow>
      \<exists>b. handle_pool_box_init pf (Some (handle_pool_heap_config pf es cap fl)) zero_handle_pool_box w = Some (Invalid, b, w4)"
    "q2 \<noteq> 0 \<Longrightarrow> q3 \<noteq> 0 \<Longrightarrow> q4 \<noteq> 0 \<Longrightarrow> unat cap \<le> 65536 \<Longrightarrow>
      \<exists>b. handle_pool_box_init pf (Some (handle_pool_heap_config pf es cap fl)) zero_handle_pool_box w = Some (Ok, b, w4) \<and>
        hpl_storage (hb_core b) = unat q2 \<and> hb_gen b = q3 \<and> hb_free b = q4 \<and>
        bit (hb_c_flags b) 0 \<and> bit (hb_c_flags b) 1 \<and> bit (hb_c_flags b) 2 \<and> bit (hb_c_flags b) 3"
proof -
  let ?c = "handle_pool_heap_config pf es cap fl"
  note flags = handle_pool_heap_flags [OF heap, of es cap fl]
  note valid = handle_pool_heap_valid [OF heap sizes, of fl]
  define b0 where "b0 = zero_handle_pool_box\<lparr>hb_c_flags := hc_flags ?c AND NOT (HANDLE_POOL_FLAG_OWNS_STORAGE OR
    HANDLE_POOL_FLAG_OWNS_META OR HANDLE_POOL_FLAG_DYNAMIC_STORAGE OR HANDLE_POOL_FLAG_ARENA_STORAGE OR HANDLE_POOL_FLAG_FIXED_CAPACITY)\<rparr>"
  define b1 where "b1 = b0\<lparr>hb_core := handle_pool_set_storage_kind (hb_core b0) (element_owns OR element_heap),
    hb_c_flags := hb_c_flags b0 OR (HANDLE_POOL_FLAG_OWNS_STORAGE OR HANDLE_POOL_FLAG_DYNAMIC_STORAGE)\<rparr>"
  define b2 where "b2 = b1\<lparr>hb_c_flags := hb_c_flags b1 OR HANDLE_POOL_FLAG_OWNS_META OR HANDLE_POOL_FLAG_DYNAMIC_STORAGE\<rparr>"
  have bare: "hpl_storage (hb_core b1) = 0" "hb_gen b1 = 0" "hb_free b1 = 0"
    "hpl_storage (hb_core b2) = 0" "hb_gen b2 = 0" "hb_free b2 = 0"
    by (simp_all add: b2_def b1_def b0_def zero_handle_pool_box_def handle_pool_set_storage_kind_def)
  note release = handle_pool_release_null [OF bare(1-3)] handle_pool_release_null [OF bare(4-6)]
  note storage = handle_pool_storage_heap [OF heap m2, of fl b0]
  note meta = handle_pool_meta_heap [OF heap m3 m4, where es = es and fl = fl and b = b1]
  have start: "handle_pool_box_init pf (Some ?c) zero_handle_pool_box w = do {
      (storage_status, storage, b1, w1) \<leftarrow> handle_pool_allocate_storage pf ?c b0 w;
      if storage_status \<noteq> Ok then Some (storage_status, handle_pool_box_reset b1, w1)
      else do {
        (meta_status, (gen, gen_cells), (free, free_cells), b2, w2) \<leftarrow> handle_pool_allocate_meta pf ?c b1 w1;
        if meta_status \<noteq> Ok then do {
          w3 \<leftarrow> handle_pool_release_storage pf b2 w2;
          Some (meta_status, handle_pool_box_reset b2, w3)
        }
        else do {
          (st, core) \<leftarrow> handle_pool_init (hb_core b2) (unat storage) gen_cells free_cells (unat cap)
            (unat es) (unat (elem_bytes_alignment (pf_max_align pf) es));
          if st \<noteq> Ok then do {
            w3 \<leftarrow> handle_pool_release_meta pf b2 w2;
            w4 \<leftarrow> handle_pool_release_storage pf b2 w3;
            Some (to_handle_pool_status st, handle_pool_box_reset b2, w4)
          }
          else Some (Ok, b2\<lparr>hb_core := core, hb_gen := gen, hb_free := free,
            hb_c_flags := hb_c_flags b2 OR HANDLE_POOL_FLAG_FIXED_CAPACITY\<rparr>, w2)
        }
      }
    }"
    using valid by (simp add: handle_pool_box_init_def b0_def Let_def cong del: if_weak_cong prod.case_cong_weak)
  have st1: "q2 \<noteq> 0 \<Longrightarrow> handle_pool_allocate_storage pf ?c b0 w = Some (Ok, q2, b1, w2)" using storage by (simp add: b1_def)
  show "\<exists>b. handle_pool_box_init pf (Some ?c) zero_handle_pool_box w = Some (Oom, b, w2)" if "q2 = 0"
    unfolding start using storage that by simp
  show "\<exists>b. handle_pool_box_init pf (Some ?c) zero_handle_pool_box w = Some (Oom, b, w3)" if "q2 \<noteq> 0" "q3 = 0"
    unfolding start st1 [OF that(1)] using meta(1) that by (simp add: release)
  show "\<exists>b. handle_pool_box_init pf (Some ?c) zero_handle_pool_box w = Some (Oom, b, w5)"
    if "q2 \<noteq> 0" "q3 \<noteq> 0" "q4 = 0" "c_free q3 w4 = Some w5"
    unfolding start st1 [OF that(1)] using meta(2) that by (simp add: release)
  have mt: "q3 \<noteq> 0 \<Longrightarrow> q4 \<noteq> 0 \<Longrightarrow> handle_pool_allocate_meta pf ?c b1 w2 = Some (Ok, (q3, Some (fresh_generations pf (generations_bytes cap))),
      (q4, Some (fresh_free_stack pf (free_stack_bytes cap))), b2, w4)"
    using meta(3) by (simp add: b2_def)
  show "\<exists>b. handle_pool_box_init pf (Some ?c) zero_handle_pool_box w = Some (Invalid, b, w4)"
    if "q2 \<noteq> 0" "q3 \<noteq> 0" "q4 \<noteq> 0" "65536 < unat cap"
  proof -
    have "unat cap \<le> SIZE_MAX" using unsigned_less [of cap, where ?'a = nat] by (simp add: SIZE_MAX_def)
    note init = handle_pool_init_too_many [OF that(4) this]
    show ?thesis
      unfolding start st1 [OF that(1)] using mt [OF that(2,3)] by (simp add: release init to_handle_pool_status_def)
  qed
  show "\<exists>b. handle_pool_box_init pf (Some ?c) zero_handle_pool_box w = Some (Ok, b, w4) \<and>
      hpl_storage (hb_core b) = unat q2 \<and> hb_gen b = q3 \<and> hb_free b = q4 \<and>
      bit (hb_c_flags b) 0 \<and> bit (hb_c_flags b) 1 \<and> bit (hb_c_flags b) 2 \<and> bit (hb_c_flags b) 3"
    if "q2 \<noteq> 0" "q3 \<noteq> 0" "q4 \<noteq> 0" "unat cap \<le> 65536"
  proof -
    have ub: "unat (cap * 2) = unat cap * 2" "unat (cap * 4) = unat cap * 4"
      using that(4) by (simp_all add: unat_word_ariths)
    have "\<exists>s'. handle_pool_init (hb_core b2) (unat q2) (Some (fresh_generations pf (generations_bytes cap)))
        (Some (fresh_free_stack pf (free_stack_bytes cap))) (unat cap) (unat es) al = Some (Ok, s') \<and> hpl_storage s' = unat q2" for al
      using that(1,4) sizes ub
      by (intro handle_pool_init_runs) (simp_all add: unat_eq_zero fresh_generations_def fresh_free_stack_def generations_bytes_def free_stack_bytes_def)
    then obtain s' where "handle_pool_init (hb_core b2) (unat q2) (Some (fresh_generations pf (generations_bytes cap)))
        (Some (fresh_free_stack pf (free_stack_bytes cap))) (unat cap) (unat es) (unat (elem_bytes_alignment (pf_max_align pf) es)) = Some (Ok, s')"
      "hpl_storage s' = unat q2" by blast
    moreover have "bit (hb_c_flags b2) 0" "bit (hb_c_flags b2) 1" "bit (hb_c_flags b2) 2" "bit (hb_c_flags b2) 3"
      using flags by (simp_all add: b2_def b1_def b0_def zero_handle_pool_box_def handle_flag_defs bit_simps)
    ultimately show ?thesis
      unfolding start st1 [OF that(1)] using mt [OF that(2,3)] by (simp add: bit_simps)
  qed
qed
lemma c_handle_pool_create_heap:
  assumes "pf_heap pf" "es \<noteq> 0" "cap \<noteq> 0"
  shows "c_handle_pool_create pf True es cap 0 fl w =
    create_object pf MEMKIT_HANDLE_POOL_OBJ_BYTES (\<lambda>p. c_handle_pool_init pf p (Some (handle_pool_heap_config pf es cap fl))) w"
proof -
  have again: "c_handle_pool_init pf p config w1 = Some (Ok, w2) \<Longrightarrow> \<exists>b. read_obj p w2 = Some b \<and> write_obj p b w2 = w2" for p config w1 w2
    by (auto simp: c_handle_pool_init_def bind_eq_Some_conv split: if_splits)
  show ?thesis
    using assms by (auto simp: c_handle_pool_create_def create_object_def Let_def intro!: Option.bind_cong split: if_splits dest!: again)
qed

lemma handle_pool_destroy_four:
  assumes "pf_heap pf" "cw_objs w p = Some (Some b)" "p \<noteq> 0"
    and flags: "bit (hb_c_flags b) 0" "bit (hb_c_flags b) 1" "bit (hb_c_flags b) 2" "bit (hb_c_flags b) 3"
    and blocks: "q2 \<noteq> 0" "q3 \<noteq> 0" "q4 \<noteq> 0" "hpl_storage (hb_core b) = unat q2" "hb_gen b = q3" "hb_free b = q4"
    and live: "cw_live w = L \<union> {p, q2, q3, q4}" "distinct [p, q2, q3, q4]" "{p, q2, q3, q4} \<inter> L = {}"
  shows "\<exists>w'. c_handle_pool_destroy pf p w = Some w' \<and> cw_live w' = L"
proof -
  have rd: "read_obj p w = Some b" using assms(2) by (simp add: read_obj_eq)
  define w4 where "w4 = w\<lparr>cw_live := cw_live w - {q2} - {q3} - {q4},
    cw_objs := (cw_objs w)(q2 := None, q3 := None, q4 := None)\<rparr>"
  have ne: "q3 \<noteq> q2" "q4 \<noteq> q2" "q4 \<noteq> q3" using live(2) by auto
  have "handle_pool_box_deinit pf b w = Some ((handle_pool_box_reset b)\<lparr>hb_c_flags := 0\<rparr>, w4)"
    using assms(1) flags blocks live(1) ne
    by (simp add: handle_pool_box_deinit_def handle_pool_release_storage_def handle_pool_release_meta_def release_owned_block_def
        handle_flag_defs and_flags c_free_def w4_def)
  then show ?thesis
    using assms(1,3) flags rd live
    by (auto simp: c_handle_pool_destroy_def destroy_owned_object_def c_handle_pool_deinit_def handle_flag_defs and_flags c_free_def w4_def)
qed

section \<open>Properties\<close>

text \<open> C21.
  With a heap, creating a handle pool ends in one of three ways, whatever \<open>malloc\<close> answers. It succeeds with four new
  blocks, all of which \<open>handle_pool_destroy\<close> gives back; it is out of memory, and then up to one block has leaked; or
  the capacity exceeds the 65536 slots an index can name, and then three blocks have leaked.
\<close>

theorem handle_pool_create_outcomes:
  assumes heap: "pf_heap pf" and fresh: "malloc_fresh pf" and sizes: "es \<noteq> 0" "cap \<noteq> 0"
  shows "\<exists>st out w'. c_handle_pool_create pf True es cap 0 fl w = Some (st, out, w') \<and> cw_live w \<subseteq> cw_live w' \<and>
    (st = Ok \<and> unat cap \<le> 65536 \<and> card (cw_live w' - cw_live w) = 4 \<and>
        (\<exists>p w''. out = Some p \<and> c_handle_pool_destroy pf p w' = Some w'' \<and> cw_live w'' = cw_live w) \<or>
     st = Oom \<and> out = None \<and> card (cw_live w' - cw_live w) \<le> 1 \<or>
     st = Invalid \<and> out = None \<and> 65536 < unat cap \<and> card (cw_live w' - cw_live w) = 3)"
proof -
  let ?init = "\<lambda>p. c_handle_pool_init pf p (Some (handle_pool_heap_config pf es cap fl))"
  let ?P = "\<lambda>q2 q3 q4 b. hpl_storage (hb_core b) = unat q2 \<and> hb_gen b = q3 \<and> hb_free b = q4 \<and>
    bit (hb_c_flags b) 0 \<and> bit (hb_c_flags b) 1 \<and> bit (hb_c_flags b) 2 \<and> bit (hb_c_flags b) 3"
  have start: "?init p w1 = map_option (\<lambda>(st, b, w2). (st, write_obj p b w2)) (handle_pool_box_init pf
      (Some (handle_pool_heap_config pf es cap fl)) zero_handle_pool_box (write_obj p zero_handle_pool_box w1))"
    if "p \<noteq> 0" "cw_objs w1 p = Some None" for p w1
    using that by (auto simp: c_handle_pool_init_def zero_opaque_bytes_def dom_def map_conv_bind_option intro!: Option.bind_cong)
  show ?thesis
  proof (rule disjE [OF create_object_four_blocks [where init = ?init and z = zero_handle_pool_box and P = ?P and w = w
        and obj_size = MEMKIT_HANDLE_POOL_OBJ_BYTES and refused = "65536 < unat cap" and ?n2.0 = "es * cap"
        and ?n3.0 = "generations_bytes cap" and ?n4.0 = "free_stack_bytes cap", OF heap fresh]], goal_cases)
    case (1 p w1 q2 w2 q3 w3 q4 w4)
    note init = handle_pool_box_init_heap [OF heap sizes 1(3-5), where fl = fl]
    show ?case using init unfolding start [OF 1(1,2)] by (auto simp: not_less) (rule exI, rule refl)+
  next
    case 2
    then show ?thesis by (auto simp: c_handle_pool_create_heap [OF heap sizes])
  next
    case 3
    then obtain p q2 q3 q4 b w' where create: "create_object pf MEMKIT_HANDLE_POOL_OBJ_BYTES ?init w = Some (Ok, Some p, write_obj p b w')"
      and cap: "\<not> 65536 < unat cap" and b: "p \<noteq> 0" "q2 \<noteq> 0" "q3 \<noteq> 0" "q4 \<noteq> 0" "?P q2 q3 q4 b"
      and live: "distinct [p, q2, q3, q4]" "{p, q2, q3, q4} \<inter> cw_live w = {}" "cw_live w' = cw_live w \<union> {p, q2, q3, q4}"
      by (elim exE conjE) (rule that; (intro conjI)?; assumption)
    have "\<exists>w''. c_handle_pool_destroy pf p (write_obj p b w') = Some w'' \<and> cw_live w'' = cw_live w"
      using b live by (intro handle_pool_destroy_four [OF heap, where b = b and ?q2.0 = q2 and ?q3.0 = q3 and ?q4.0 = q4]) simp_all
    moreover have "cw_live (write_obj p b w') - cw_live w = {p, q2, q3, q4}" "cw_live w \<subseteq> cw_live (write_obj p b w')"
      using live by auto
    ultimately show ?thesis using create cap live(1) by (simp add: c_handle_pool_create_heap [OF heap sizes])
  qed
qed

text \<open>A \<open>malloc\<close> that grants the first requests only, and the blocks that are left after a failed creation.\<close>

definition word_platform :: "nat \<Rightarrow> u32 platform" where
  "word_platform grants =
     \<lparr>pf_env = \<lparr>env_allow_heap = True, env_malloc = (\<lambda>_. True), env_grow = (\<lambda>_ _. Ok), env_junk = (\<lambda>_. 2863311530)\<rparr>,
      pf_max_align = 16,
      pf_malloc = (\<lambda>k A n. let p = 4096 * of_nat (Suc k) in if grants \<le> k \<or> p = 0 \<or> p \<in> A then None else Some p)\<rparr>"

lemma word_platform_simps [simp]: "pf_heap (word_platform k)" "malloc_fresh (word_platform k)"
  by (auto simp: word_platform_def malloc_fresh_def Let_def split: if_splits)

theorem handle_pool_create_outcomes_witness:
  "\<exists>st out w'. c_handle_pool_create (word_platform 9) True 8 70000 0 0 empty_world = Some (st, out, w') \<and> st \<noteq> Ok \<and>
    card (cw_live w') \<le> 3"
  using handle_pool_create_outcomes [of "word_platform 9" 8 70000 0 empty_world] by (auto simp: empty_world_def)

lemma handle_pool_create_oom_leaks:
  "\<exists>w'. c_handle_pool_create (word_platform 2) True 8 4 0 0 empty_world = Some (Oom, None, w') \<and> cw_live w' = {8192}"
  by (simp add: c_handle_pool_create_def allocate_object_def word_platform_def empty_world_def c_malloc_def c_handle_pool_init_def
      zero_opaque_bytes_def write_obj_def read_obj_def handle_pool_box_init_def handle_pool_validate_config_def handle_flag_defs
      owned_create_config_flags_def handle_pool_storage_flags_def handle_pool_allocate_storage_def handle_pool_alloc_raw_def
      handle_pool_allocate_meta_def handle_pool_release_storage_def release_owned_block_def handle_pool_set_storage_kind_def
      zero_handle_pool_box_def release_uninitialized_object_def c_free_def Let_def insert_Diff_if)

end
