(* ===== verification/Spec2Isabelle.thy ===== *)
theory Spec2Isabelle
  imports Ring_Props Arena Spsc_Props Vector_Correct Pqueue_Correct Bitset_Correct Sparse_Set Obj_Pool_Correct
    Handle_Pool_Correct Flat_Map_Correct Hash_Open Hash_Chain Mpsc_Correct Bit_Stream Token_Bucket List_Correct Dlist_Correct Lru_Correct Btree_Props Timer_Wheel Fixed_Variant Ring_Api Byte_Ring Running_Stats Lookup_Table
    Small_Buffer Enum_Map Double_Buffer Bitset_Api Handle_Pool_Api
begin

text \<open>
  memkit is a library of containers for embedded C++: fixed-capacity and growable containers without
  exceptions, an arena allocator, lock-free queues, and a C interface to the containers. This development
  models the cores of the library (\<^verbatim>\<open>include/memkit/detail\<close>), the allocator
  (\<^verbatim>\<open>include/memkit/memory/arena.hpp\<close>, \<^verbatim>\<open>src/arena.cpp\<close>), the containers that
  have code of their own (\<^verbatim>\<open>include/memkit/containers\<close>) and part of the C interface
  (\<^verbatim>\<open>include/memkit/c_api\<close>, \<^verbatim>\<open>src/c_api/bindings\<close>), and proves what makes them correct.
  The definitions carry the names of the code's functions with the container's name in front.

  \<^bold>\<open>How the parts interact.\<close> A container class holds a core, a template over an element policy (how an
  element is copied, moved and destroyed) and, where it applies, a comparison or hash policy (theory
  \<^verbatim>\<open>Policy\<close>). A core works on storage it is given: an array of slots, or a pool of nodes. A core that may
  grow asks \<open>malloc\<close> or an allocator bound to it (theory \<^verbatim>\<open>Growable\<close>), which is the arena
  (theory \<^verbatim>\<open>Arena\<close>) when the program has no heap. The C interface wraps a core in an opaque object, finds the
  storage for it and releases it (theories \<^verbatim>\<open>C_Api\<close>, \<^verbatim>\<open>Ring_Api\<close>, \<^verbatim>\<open>Bitset_Api\<close>, \<^verbatim>\<open>Handle_Pool_Api\<close>). Every call returns a \<open>status\<close> (theory
  \<^verbatim>\<open>Prelude\<close>).

  \<^bold>\<open>How the code is modelled.\<close> An operation is a function from the container's state and its
  arguments to \<open>(status, results, new state)\<close>, in \<open>option\<close>: \<open>None\<close> is undefined behaviour of
  the C++ program (an access outside a block, through a null or dead pointer, division by zero, an invalid \<open>free\<close>)
  or a loop that does not end, so that a call that is \<open>Some\<close> is memory safe and returns. The state has the
  data members of the class.
  \<^item> \<open>std::size_t\<close> is a \<open>nat\<close> with the wrap-around of 64 bits written out at every operation
    (\<open>sz_add\<close>, \<open>sz_sub\<close>, \<open>sz_mul\<close>); where the code works on bits, on addresses or on atomic
    counters it is a 64-bit word. Flags are words.
  \<^item> A pointer argument is an \<open>option\<close>, \<open>None\<close> the null pointer; an out parameter is returned
    updated. A pointer to a node is an address, 0 the null pointer, and the nodes are a map from addresses; reading an
    address that is not in it is undefined.
  \<^item> Storage has one cell per element. The destructor calls are recorded in a trace.
  \<^item> What is not code of the library is a parameter: copy, compare and hash callbacks, visitors (with a state of
    their own that is passed along), \<open>malloc\<close>, \<open>mmap\<close>, allocators, the platform's alignments, the build
    options, the initial content of memory.
  \<^item> A loop with a bound is a structural recursion on the number of its rounds; a walk along pointers is a
    \<open>partial_function\<close> into \<open>option\<close>, so that a walk that never ends is \<open>None\<close>. No operation has
    fuel. That the walks end on every state the operations reach is part of the refinement theorems.
  \<^item> The lock-free queues are modelled twice: as functions, and as inductive step relations of the threads in
    which every access to a shared variable is a step and a read of another thread's counter may be stale.

  \<^bold>\<open>What is proved.\<close> Every container has an invariant, kept by all operations, and a function or relation that
  gives the abstract value of a state. The main theorem of a container is about whole sequences of calls: they are
  memory safe, and their statuses and results are those of the abstract value. The laws of single calls are stated in
  locales (\<^verbatim>\<open>Contracts\<close>: bounded queues, stacks and deques; \<^verbatim>\<open>Map_Contract\<close>: maps with a bound;
  \<^verbatim>\<open>Linked\<close>: sequences, lists of addresses along a link; \<^verbatim>\<open>Simulation\<close>: any abstract machine;
  \<^verbatim>\<open>C_Client\<close>: objects with an owner), in which the theorems on runs are proved once; the containers
  interpret them.

  \<^bold>\<open>The theories.\<close>
  \<^item> \<^verbatim>\<open>Prelude\<close> (\<^verbatim>\<open>status.hpp\<close>, \<open>size_t\<close>, blocks of memory), \<^verbatim>\<open>Utility\<close>
    (\<^verbatim>\<open>detail/utility.hpp\<close>), \<^verbatim>\<open>Policy\<close> (\<^verbatim>\<open>detail/element_policy.hpp\<close>,
    \<^verbatim>\<open>compare_policy.hpp\<close>, \<^verbatim>\<open>hash_policy.hpp\<close>), \<^verbatim>\<open>Growable\<close>
    (\<open>grow_capacity\<close> of \<^verbatim>\<open>detail/growable_storage.hpp\<close>: it terminates, with a capacity that is
    large enough). \<^verbatim>\<open>Window\<close>, \<^verbatim>\<open>Bits\<close> and \<^verbatim>\<open>Bin_Heap\<close> are about circular
    arrays, packed bits and heaps.
  \<^item> \<^verbatim>\<open>Ring\<close>, \<^verbatim>\<open>Ring_Correct\<close>, \<^verbatim>\<open>Ring_Props\<close>
    (\<^verbatim>\<open>detail/ring_buffer_core.hpp\<close>: Ring, Queue, Deque): bounded queue and deque, with and without
    overwriting, growth, safety of a push for every callback and allocator.
  \<^item> \<^verbatim>\<open>Vector\<close>, \<^verbatim>\<open>Vector_Correct\<close> (\<^verbatim>\<open>detail/vector_core.hpp\<close>: Vector, Stack): bounded
    stack, growth.
  \<^item> \<^verbatim>\<open>Pqueue\<close>, \<^verbatim>\<open>Pqueue_Correct\<close> (\<^verbatim>\<open>detail/pqueue_core.hpp\<close>): pushes keep the heap,
    pops deliver in order.
  \<^item> \<^verbatim>\<open>Arena\<close>: blocks are aligned, disjoint and inside the backing, and are granted exactly when they fit,
    the end of the address space included; the C functions agree with the C++ class.
  \<^item> \<^verbatim>\<open>Spsc\<close>, \<^verbatim>\<open>Spsc_Correct\<close>, \<^verbatim>\<open>Spsc_Props\<close>
    (\<^verbatim>\<open>detail/spsc_queue_core.hpp\<close>) and \<^verbatim>\<open>Mpsc\<close>, \<^verbatim>\<open>Mpsc_Correct\<close>
    (\<^verbatim>\<open>detail/mpsc_queue_core.hpp\<close>): in every interleaving no two threads touch a slot at the same time
    and the elements come out in order; where this fails.
  \<^item> \<^verbatim>\<open>Bitset\<close>, \<^verbatim>\<open>Bitset_Correct\<close> (\<^verbatim>\<open>detail/bitset_core.hpp\<close>) and
    \<^verbatim>\<open>Sparse_Set\<close> (\<^verbatim>\<open>detail/sparse_set_core.hpp\<close>): sets of numbers.
  \<^item> \<^verbatim>\<open>Obj_Pool\<close>, \<^verbatim>\<open>Obj_Pool_Correct\<close> (\<^verbatim>\<open>detail/objpool_core.hpp\<close>) and
    \<^verbatim>\<open>Handle_Pool\<close>, \<^verbatim>\<open>Handle_Pool_Correct\<close> (\<^verbatim>\<open>detail/handle_pool_core.hpp\<close>): a slot is
    handed out to one owner at a time; stale handles are refused until the generation wraps around.
  \<^item> \<^verbatim>\<open>Flat_Map\<close>, \<^verbatim>\<open>Flat_Map_Correct\<close> (\<^verbatim>\<open>detail/flat_map_core.hpp\<close>),
    \<^verbatim>\<open>Hash_Map\<close>, \<^verbatim>\<open>Hash_Common\<close>, \<^verbatim>\<open>Hash_Open\<close>, \<^verbatim>\<open>Hash_Chain\<close>
    (\<^verbatim>\<open>detail/hashmap_map_core.hpp\<close>) and \<^verbatim>\<open>Lru_Cache\<close>, \<^verbatim>\<open>Lru_Correct\<close>
    (\<^verbatim>\<open>detail/lrucache_map_core.hpp\<close>): finite maps; the cache keeps the most recently used keys.
  \<^item> \<^verbatim>\<open>List_Core\<close>, \<^verbatim>\<open>List_Correct\<close> (\<^verbatim>\<open>detail/list_core.hpp\<close>),
    \<^verbatim>\<open>Dlist_Core\<close>, \<^verbatim>\<open>Dlist_Correct\<close> (\<^verbatim>\<open>detail/dlist_core.hpp\<close>): sequences.
  \<^item> \<^verbatim>\<open>Btree\<close>, \<^verbatim>\<open>Btree_Correct\<close>, \<^verbatim>\<open>Btree_Set\<close>, \<^verbatim>\<open>Btree_Props\<close>
    (\<^verbatim>\<open>detail/btree_map_core.hpp\<close>, an unbalanced search tree): a sorted set.
  \<^item> \<^verbatim>\<open>Hooks\<close> (\<^verbatim>\<open>detail/intrusive_hook.hpp\<close>) and \<^verbatim>\<open>Timer_Wheel\<close>
    (\<^verbatim>\<open>detail/timer_wheel_core.hpp\<close>, \<^verbatim>\<open>containers/timer_wheel.hpp\<close>): timers run at their
    deadline, in the order of scheduling.
  \<^item> \<^verbatim>\<open>Fixed_Variant\<close>, \<^verbatim>\<open>Bit_Stream\<close>, \<^verbatim>\<open>Token_Bucket\<close> (the files of
    \<^verbatim>\<open>containers\<close> of these names): type safety, round trip, rate limit.
  \<^item> \<^verbatim>\<open>Byte_Ring\<close> (\<^verbatim>\<open>containers/byte_ring.hpp\<close>: a bounded stream of bytes with block transfers;
    \<^verbatim>\<open>containers/ring_log.hpp\<close>: the newest records), \<^verbatim>\<open>Running_Stats\<close>
    (\<^verbatim>\<open>containers/running_stats.hpp\<close>: average and extremes of the last samples, without overflow of the sum),
    \<^verbatim>\<open>Lookup_Table\<close> (\<^verbatim>\<open>containers/lookup_table.hpp\<close>: the value of an interpolation, and when its
    arithmetic overflows), \<^verbatim>\<open>Small_Buffer\<close> (\<^verbatim>\<open>containers/small_buffer.hpp\<close>,
    \<^verbatim>\<open>small_string.hpp\<close>: bounded byte strings, always terminated), \<^verbatim>\<open>Enum_Map\<close>
    (\<^verbatim>\<open>containers/enum_map.hpp\<close>, \<^verbatim>\<open>fixed_iovec.hpp\<close>: a finite map, a bounded list).
  \<^item> \<^verbatim>\<open>Double_Buffer\<close> (\<^verbatim>\<open>detail/double_buffer_core.hpp\<close>,
    \<^verbatim>\<open>containers/double_buffer.hpp\<close>): a step relation of the two threads. When the producer fills only the
    block the consumer is not reading, the consumer reads whole blocks; without this the read is torn.
  \<^item> \<^verbatim>\<open>C_Api\<close> (\<^verbatim>\<open>c_api/create_object.hpp\<close>, \<^verbatim>\<open>element_storage.hpp\<close>,
    \<^verbatim>\<open>object_lifecycle.hpp\<close>, \<^verbatim>\<open>element_callback_bridge.hpp\<close>,
    \<^verbatim>\<open>callback_bridge.hpp\<close>): the blocks of \<open>malloc\<close>, objects, arenas; \<^verbatim>\<open>C_Client\<close>: clients of an
    interface whose objects own memory. \<^verbatim>\<open>Ring_Api\<close> and \<^verbatim>\<open>Bitset_Api\<close>
    (\<^verbatim>\<open>c_api/ring_box.hpp\<close>, \<^verbatim>\<open>bitset_box.hpp\<close>, \<^verbatim>\<open>bindings/ring.inc.cpp\<close>,
    \<^verbatim>\<open>bitset.inc.cpp\<close>): creations, calls and destructions in any order are memory safe, release every
    block and deliver the results of the abstract objects, for heap builds and sizes that do not wrap; what happens for
    those that do. \<^verbatim>\<open>Handle_Pool_Api\<close> (\<^verbatim>\<open>c_api/handle_pool_box.hpp\<close>,
    \<^verbatim>\<open>bindings/handle_pool.inc.cpp\<close>): what each outcome of a creation allocates, and which blocks a failed one
    leaks.

  \<^bold>\<open>Not modelled.\<close>
  \<^item> The container classes that only forward to a core, the accessors of a raw pointer to a core's members,
    \<^verbatim>\<open>detail/storage_view.hpp\<close>, \<^verbatim>\<open>detail/element_ops.hpp\<close>, the other files of
    \<^verbatim>\<open>memory\<close>, and \<^verbatim>\<open>stl.hpp\<close>, \<^verbatim>\<open>config.hpp\<close>.
  \<^item> The C interfaces of the vector, stack, queue, deque, lists, ordered map, hash map, cache, priority queue and object
    pool, and the conversions of \<^verbatim>\<open>status_cast.hpp\<close> that belong to them; the cores they wrap are modelled.
  \<^item> Floating-point instances of the statistics and of the lookup table.
  \<^item> \<open>ring_relinearize\<close> frees the old block after the move; the ring's model has no addresses, so this
    \<open>free\<close> is not part of it. In the vector, where the block may not be from \<open>malloc\<close>, it is.
  \<^item> In the MPSC queue \<open>queue_policy_\<close>, which no function reads.
  \<^item> \<^verbatim>\<open>src/mmap_backing.cpp\<close> and \<^verbatim>\<open>memory/mmap.hpp\<close>: calls of the operating system; their answer is a
    parameter of the arena.
  \<^item> Memory ordering of the atomics beyond what stale reads show: a release store makes the earlier writes of
    its thread visible to an acquire load that reads it, as the code's orderings provide.
  \<^item> Examples, benchmarks and tests.
\<close>

end
